(* ===== verification/Prelude.thy ===== *)
theory Prelude
  imports "HOL-Library.Word" "HOL-Library.Monad_Syntax" "HOL-Library.Multiset"
begin

unbundle bit_operations_syntax

section \<open>Shared vocabulary: machine words, bounded memory, little-endian encoding\<close>

text \<open>
  What every component of the development uses.

  \<^item> Names for the C integer types that are modelled at their width. Sizes and
    indices that stand for \<^verbatim>\<open>size_t\<close> or for a pointer difference are natural
    numbers; \<open>size_t_wrap\<close> writes the reduction modulo \<open>2^64\<close> out where C
    computes with \<^verbatim>\<open>size_t\<close>.
  \<^item> Memory. A C object (a byte buffer, an array of points, an array of elements to sort) is
    a HOL list. Reads, writes, \<^verbatim>\<open>memcpy\<close> and \<^verbatim>\<open>memmove\<close> are partial: an access
    outside the object is undefined behaviour of the C program and gives \<open>None\<close>. A
    function whose model is \<open>Some\<close> on every state that satisfies an invariant never
    leaves its buffers.
  \<^item> The little-endian byte order of \<^verbatim>\<open>get_u16\<close>, \<^verbatim>\<open>put_u32\<close> and their kin, as the
    packed-struct accesses of \<^verbatim>\<open>js/cutils.h\<close> behave on the platforms the library is
    built for.
\<close>

type_synonym u8 = "8 word"
type_synonym u16 = "16 word"
type_synonym u32 = "32 word"
type_synonym u64 = "64 word"
type_synonym byte = "8 word"
type_synonym bytes = "8 word list"

named_theorems mem_simps \<open>how the memory primitives act on an access inside the object\<close>
named_theorems inv_intros \<open>what keeps a component's invariant\<close>

text \<open>Recursive calls behind a \<open>do\<close> binding: the function package may assume the binding.\<close>

declare Option.bind_cong [fundef_cong]

definition size_t_wrap :: "nat \<Rightarrow> nat" where
  "size_t_wrap n = n mod 2 ^ 64"

lemma size_t_wrap_id [simp]: "n < 2 ^ 64 \<Longrightarrow> size_t_wrap n = n"
  by (simp add: size_t_wrap_def)

lemma size_t_wrap_less [simp]: "size_t_wrap n < 2 ^ 64"
  by (simp add: size_t_wrap_def)

subsection \<open>Memory objects\<close>

definition rd :: "'a list \<Rightarrow> nat \<Rightarrow> 'a option" where
  "rd b i = (if i < length b then Some (b ! i) else None)"

definition wr :: "'a list \<Rightarrow> nat \<Rightarrow> 'a \<Rightarrow> 'a list option" where
  "wr b i v = (if i < length b then Some (b[i := v]) else None)"

definition slice :: "'a list \<Rightarrow> nat \<Rightarrow> nat \<Rightarrow> 'a list option" where
  "slice b off n = (if off + n \<le> length b then Some (take n (drop off b)) else None)"

text \<open>\<open>blit dst off src\<close>: copy all of \<open>src\<close> into \<open>dst\<close> from index \<open>off\<close> on.\<close>

definition blit :: "'a list \<Rightarrow> nat \<Rightarrow> 'a list \<Rightarrow> 'a list option" where
  "blit dst off src =
     (if off + length src \<le> length dst
      then Some (take off dst @ src @ drop (off + length src) dst) else None)"

text \<open>
  \<open>memmove_in b dst src n\<close>: \<^verbatim>\<open>memmove(b + dst, b + src, n)\<close> inside one object, where
  the two ranges may overlap: the source is read as a whole before it is written.
\<close>

definition memmove_in :: "'a list \<Rightarrow> nat \<Rightarrow> nat \<Rightarrow> nat \<Rightarrow> 'a list option" where
  "memmove_in b dst src n = do { xs \<leftarrow> slice b src n; blit b dst xs }"

text \<open>
  \<open>memcpy_in b dst src n\<close>: \<^verbatim>\<open>memcpy\<close> inside one object, undefined where the two ranges
  overlap.
\<close>

definition memcpy_in :: "'a list \<Rightarrow> nat \<Rightarrow> nat \<Rightarrow> nat \<Rightarrow> 'a list option" where
  "memcpy_in b dst src n =
     (if n = 0 \<or> dst + n \<le> src \<or> src + n \<le> dst then memmove_in b dst src n else None)"

lemma rd_Some [mem_simps]: "i < length b \<Longrightarrow> rd b i = Some (b ! i)"
  by (simp add: rd_def)

lemma rd_eq_Some_iff: "rd b i = Some v \<longleftrightarrow> i < length b \<and> v = b ! i"
  by (auto simp: rd_def)

lemma rd_eq_None_iff [simp]: "rd b i = None \<longleftrightarrow> length b \<le> i"
  by (auto simp: rd_def)

lemma wr_Some [mem_simps]: "i < length b \<Longrightarrow> wr b i v = Some (b[i := v])"
  by (simp add: wr_def)

lemma wr_eq_Some_iff: "wr b i v = Some b' \<longleftrightarrow> i < length b \<and> b' = b[i := v]"
  by (auto simp: wr_def)

lemma slice_Some [mem_simps]: "off + n \<le> length b \<Longrightarrow> slice b off n = Some (take n (drop off b))"
  by (simp add: slice_def)

lemma slice_eq_Some_iff:
  "slice b off n = Some xs \<longleftrightarrow> off + n \<le> length b \<and> xs = take n (drop off b)"
  by (auto simp: slice_def)

lemma length_slice: "slice b off n = Some xs \<Longrightarrow> length xs = n"
  by (auto simp: slice_def split: if_splits)

lemma blit_Some [mem_simps]:
  "off + length src \<le> length dst \<Longrightarrow>
     blit dst off src = Some (take off dst @ src @ drop (off + length src) dst)"
  by (simp add: blit_def)

lemma blit_eq_Some_iff:
  "blit dst off src = Some b \<longleftrightarrow>
     off + length src \<le> length dst \<and> b = take off dst @ src @ drop (off + length src) dst"
  by (auto simp: blit_def)

lemma length_blit: "blit dst off src = Some b \<Longrightarrow> length b = length dst"
  by (auto simp: blit_eq_Some_iff)

lemma take_blit: "blit dst off src = Some b \<Longrightarrow> n \<le> off \<Longrightarrow> take n b = take n dst"
  by (auto simp: blit_eq_Some_iff min_def)

lemma slice_blit_same: "blit dst off src = Some b \<Longrightarrow> slice b off (length src) = Some src"
  by (auto simp: blit_eq_Some_iff slice_def min_def)

lemma blit_Nil [simp]: "off \<le> length dst \<Longrightarrow> blit dst off [] = Some dst"
  by (simp add: blit_def)

lemma slice_zero [simp]: "off \<le> length b \<Longrightarrow> slice b off 0 = Some []"
  by (simp add: slice_def)

lemma slice_all [simp]: "slice b 0 (length b) = Some b"
  by (simp add: slice_def)

lemma nth_blit:
  assumes "blit dst off src = Some b" and "i < length dst"
  shows "b ! i = (if off \<le> i \<and> i < off + length src then src ! (i - off) else dst ! i)"
  using assms by (auto simp: blit_eq_Some_iff nth_append min_def)

lemma memmove_in_eq_Some_iff:
  "memmove_in b dst src n = Some b' \<longleftrightarrow>
     src + n \<le> length b \<and> dst + n \<le> length b \<and>
     b' = take dst b @ take n (drop src b) @ drop (dst + n) b"
  by (auto simp: memmove_in_def slice_def blit_def split: if_splits)

lemma memmove_in_Some [mem_simps]:
  "src + n \<le> length b \<Longrightarrow> dst + n \<le> length b \<Longrightarrow>
     memmove_in b dst src n = Some (take dst b @ take n (drop src b) @ drop (dst + n) b)"
  by (simp add: memmove_in_eq_Some_iff)

subsection \<open>Swapping two elements\<close>

definition swap_at :: "'a list \<Rightarrow> nat \<Rightarrow> nat \<Rightarrow> 'a list" where
  "swap_at xs i j = xs[i := xs ! j, j := xs ! i]"

lemma length_swap_at [simp]: "length (swap_at xs i j) = length xs"
  by (simp add: swap_at_def)

lemma mset_swap_at [simp]:
  "i < length xs \<Longrightarrow> j < length xs \<Longrightarrow> mset (swap_at xs i j) = mset xs"
  by (simp add: swap_at_def mset_swap)

lemma nth_swap_at:
  "i < length xs \<Longrightarrow> j < length xs \<Longrightarrow> k < length xs \<Longrightarrow>
     swap_at xs i j ! k = (if k = i then xs ! j else if k = j then xs ! i else xs ! k)"
  by (auto simp: swap_at_def nth_list_update)

subsection \<open>Little-endian bytes\<close>

fun le_bytes :: "nat \<Rightarrow> nat \<Rightarrow> bytes" where
  "le_bytes 0 v = []"
| "le_bytes (Suc n) v = word_of_nat (v mod 256) # le_bytes n (v div 256)"

fun le_val :: "bytes \<Rightarrow> nat" where
  "le_val [] = 0"
| "le_val (b # bs) = unat b + 256 * le_val bs"

lemma length_le_bytes [simp]: "length (le_bytes n v) = n"
  by (induction n arbitrary: v) auto

lemma unat_byte_less [simp]: "unat (b :: byte) < 256"
  using unsigned_less [where w = b and ?'a = nat] by simp

lemma unat_of_nat_byte: "v < 256 \<Longrightarrow> unat (word_of_nat v :: byte) = v"
  by (simp add: unat_of_nat)

lemma le_val_le_bytes: "le_val (le_bytes n v) = v mod 256 ^ n"
proof (induction n arbitrary: v)
  case (Suc n)
  have "le_val (le_bytes (Suc n) v) = v mod 256 + 256 * ((v div 256) mod 256 ^ n)"
    by (simp add: Suc unat_of_nat_byte)
  also have "\<dots> = v mod (256 * 256 ^ n)"
    by (simp add: mod_mult2_eq)
  finally show ?case by simp
qed simp

lemma le_val_less: "le_val bs < 256 ^ length bs"
proof (induction bs)
  case (Cons b bs)
  have "unat b + 256 * le_val bs < 256 + 256 * le_val bs"
    by simp
  also have "\<dots> \<le> 256 * 256 ^ length bs"
    using Cons by (metis Suc_leI mult_Suc_right mult_le_mono2)
  finally show ?case by simp
qed simp

lemma le_bytes_le_val: "le_bytes (length bs) (le_val bs) = bs"
proof (induction bs)
  case (Cons b bs)
  have "(unat b + 256 * le_val bs) mod 256 = unat b"
    by (simp add: mod_less)
  moreover have "(unat b + 256 * le_val bs) div 256 = le_val bs"
    by simp
  ultimately show ?case using Cons by simp
qed simp

text \<open>Reading back a word that was stored in as many bytes as it is wide.\<close>

lemma le_val_le_bytes_id: "v < 256 ^ n \<Longrightarrow> le_val (le_bytes n v) = v"
  by (simp add: le_val_le_bytes)

subsection \<open>Bit operations as arithmetic\<close>

text \<open>
  The table decoders and the UTF-8 codec shift, mask and join bit fields. These lemmas read
  such expressions as division, remainder and addition of natural numbers.
\<close>

lemma unat_drop_bit_div: "unat (drop_bit k w) = unat w div 2 ^ k"
  unfolding unat_drop_bit_eq by (rule drop_bit_eq_div)

lemma unat_and_mask: "unat (w AND mask n) = unat w mod 2 ^ n"
  unfolding take_bit_eq_mask [symmetric] unsigned_take_bit_eq by (rule take_bit_eq_mod)

lemma unat_ucast_mod:
  "unat (ucast (w :: 'a::len word) :: 'b::len word) = unat w mod 2 ^ LENGTH('b)"
  by (simp add: unsigned_ucast_eq take_bit_eq_mod)

lemma nat_or_add:
  fixes a b :: nat
  assumes "a < 2 ^ k" and "2 ^ k dvd b"
  shows "a OR b = a + b"
proof -
  obtain m where b: "b = push_bit k m"
    using assms(2) by (auto simp: push_bit_eq_mult mult.commute elim: dvdE)
  have a: "a = take_bit k a"
    using assms(1) by (simp add: take_bit_nat_eq_self)
  have "a AND b = 0"
    unfolding b by (subst a) (simp add: bit_eq_iff bit_simps)
  then show ?thesis by (simp add: disjunctive_add_eq_or)
qed

lemma unat_or_add:
  assumes "unat v < 2 ^ k" and "2 ^ k dvd unat w"
  shows "unat (v OR w) = unat v + unat w"
  using nat_or_add [OF assms] by (simp add: unsigned_or_eq)

lemma unat_push_bit_mod:
  "unat (push_bit k (w :: 'a::len word)) = (unat w * 2 ^ k) mod 2 ^ LENGTH('a)"
  unfolding unsigned_push_bit_eq by (simp add: push_bit_eq_mult take_bit_eq_mod)

lemma sint_eq_uint:
  fixes w :: "'a::len word"
  assumes "uint w < 2 ^ (LENGTH('a) - 1)"
  shows "sint w = uint w"
proof -
  have "signed_take_bit (LENGTH('a) - 1) (uint w) = uint w"
  proof (rule signed_take_bit_int_eq_self)
    have "- (2 ^ (LENGTH('a) - 1)) \<le> (0 :: int)" by simp
    then show "- (2 ^ (LENGTH('a) - 1)) \<le> uint w" using uint_ge_0 [of w] by linarith
  qed (rule assms)
  then show ?thesis by (simp add: sint_uint)
qed

text \<open>The masks of the code, as \<open>mask n\<close>.\<close>

lemma mask_literals:
  "(0x1 :: 'a::len word) = mask 1" "(0x3 :: 'a word) = mask 2" "(0x7 :: 'a word) = mask 3"
  "(0xf :: 'a word) = mask 4" "(0x1f :: 'a word) = mask 5" "(0x3f :: 'a word) = mask 6"
  "(0x7f :: 'a word) = mask 7" "(0xff :: 'a word) = mask 8" "(0x3ff :: 'a word) = mask 10"
  by (simp_all add: mask_eq_exp_minus_1)

lemmas bits_as_arith = unat_drop_bit_div unat_and_mask unat_ucast_mod unat_push_bit_mod

end
