(* ===== verification/CUtils.thy ===== *)
theory CUtils
  imports Prelude
begin

unbundle bit_operations_syntax

section \<open>Scalar and string helpers (\<^verbatim>\<open>js/cutils.h\<close>, \<^verbatim>\<open>js/cutils.c\<close>)\<close>

text \<open>
  The inline helpers of \<^verbatim>\<open>cutils.h\<close> (minimum and maximum, unaligned loads and stores,
  byte swaps, UTF-16 surrogates, hexadecimal digits) and the C-string functions at the top of
  \<^verbatim>\<open>cutils.c\<close>. C's \<^verbatim>\<open>int\<close> is \<open>int\<close>, \<^verbatim>\<open>uint32_t\<close> is a
  32-bit word. A \<^verbatim>\<open>const char *\<close> is the rest of the object it points into, so reading
  past the end of the object is a missing list cell and gives \<open>None\<close>.
\<close>

subsection \<open>Minimum and maximum\<close>

definition max_int :: "int \<Rightarrow> int \<Rightarrow> int" where
  "max_int a b = (if a > b then a else b)"

definition min_int :: "int \<Rightarrow> int \<Rightarrow> int" where
  "min_int a b = (if a < b then a else b)"

definition max_uint32 :: "u32 \<Rightarrow> u32 \<Rightarrow> u32" where
  "max_uint32 a b = (if a > b then a else b)"

definition min_uint32 :: "u32 \<Rightarrow> u32 \<Rightarrow> u32" where
  "min_uint32 a b = (if a < b then a else b)"

definition max_int64 :: "int \<Rightarrow> int \<Rightarrow> int" where
  "max_int64 a b = (if a > b then a else b)"

definition min_int64 :: "int \<Rightarrow> int \<Rightarrow> int" where
  "min_int64 a b = (if a < b then a else b)"

lemma max_int_max [simp]: "max_int a b = max a b"
  by (simp add: max_int_def max_def)

lemma min_int_min [simp]: "min_int a b = min a b"
  by (simp add: min_int_def min_def)

subsection \<open>Unaligned little-endian loads and stores\<close>

definition get_u64 :: "bytes \<Rightarrow> nat \<Rightarrow> u64 option" where
  "get_u64 tab i = do { bs \<leftarrow> slice tab i 8; Some (word_of_nat (le_val bs)) }"

definition get_i64 :: "bytes \<Rightarrow> nat \<Rightarrow> int option" where
  "get_i64 tab i = do { v \<leftarrow> get_u64 tab i; Some (sint v) }"

definition put_u64 :: "bytes \<Rightarrow> nat \<Rightarrow> u64 \<Rightarrow> bytes option" where
  "put_u64 tab i val = blit tab i (le_bytes 8 (unat val))"

definition get_u32 :: "bytes \<Rightarrow> nat \<Rightarrow> u32 option" where
  "get_u32 tab i = do { bs \<leftarrow> slice tab i 4; Some (word_of_nat (le_val bs)) }"

definition get_i32 :: "bytes \<Rightarrow> nat \<Rightarrow> int option" where
  "get_i32 tab i = do { v \<leftarrow> get_u32 tab i; Some (sint v) }"

definition put_u32 :: "bytes \<Rightarrow> nat \<Rightarrow> u32 \<Rightarrow> bytes option" where
  "put_u32 tab i val = blit tab i (le_bytes 4 (unat val))"

text \<open>\<^verbatim>\<open>get_u16\<close> widens to \<^verbatim>\<open>uint32_t\<close>, \<^verbatim>\<open>get_i16\<close> to \<^verbatim>\<open>int32_t\<close>.\<close>

definition get_u16 :: "bytes \<Rightarrow> nat \<Rightarrow> u32 option" where
  "get_u16 tab i = do { bs \<leftarrow> slice tab i 2; Some (word_of_nat (le_val bs)) }"

definition get_i16 :: "bytes \<Rightarrow> nat \<Rightarrow> int option" where
  "get_i16 tab i = do { bs \<leftarrow> slice tab i 2; Some (sint (word_of_nat (le_val bs) :: u16)) }"

definition put_u16 :: "bytes \<Rightarrow> nat \<Rightarrow> u16 \<Rightarrow> bytes option" where
  "put_u16 tab i val = blit tab i (le_bytes 2 (unat val))"

definition get_u8 :: "bytes \<Rightarrow> nat \<Rightarrow> u32 option" where
  "get_u8 tab i = do { b \<leftarrow> rd tab i; Some (ucast b) }"

definition get_i8 :: "bytes \<Rightarrow> nat \<Rightarrow> int option" where
  "get_i8 tab i = do { b \<leftarrow> rd tab i; Some (sint b) }"

definition put_u8 :: "bytes \<Rightarrow> nat \<Rightarrow> u8 \<Rightarrow> bytes option" where
  "put_u8 tab i val = wr tab i val"

lemma word_of_nat_le_val:
  assumes "LENGTH('a::len) = 8 * n"
  shows "(word_of_nat (le_val (le_bytes n (unat (v :: 'a word)))) :: 'a word) = v"
proof -
  have "256 ^ n = (2::nat) ^ LENGTH('a)"
    by (simp add: assms power_mult)
  then have "unat v < 256 ^ n"
    using unsigned_less [where w = v and ?'a = nat] by simp
  then show ?thesis by (simp add: le_val_le_bytes_id)
qed

lemma get_put_u32: "put_u32 tab i v = Some tab' \<Longrightarrow> get_u32 tab' i = Some v"
  using slice_blit_same [of tab i "le_bytes 4 (unat v)" tab'] word_of_nat_le_val [of 4 v]
  by (simp add: put_u32_def get_u32_def)

lemma get_put_u64: "put_u64 tab i v = Some tab' \<Longrightarrow> get_u64 tab' i = Some v"
  using slice_blit_same [of tab i "le_bytes 8 (unat v)" tab'] word_of_nat_le_val [of 8 v]
  by (simp add: put_u64_def get_u64_def)

lemma get_put_u16: "put_u16 tab i v = Some tab' \<Longrightarrow> get_u16 tab' i = Some (ucast v)"
proof -
  assume "put_u16 tab i v = Some tab'"
  then have "slice tab' i 2 = Some (le_bytes 2 (unat v))"
    using slice_blit_same [of tab i "le_bytes 2 (unat v)" tab'] by (simp add: put_u16_def)
  moreover have "le_val (le_bytes 2 (unat v)) = unat v"
    using unsigned_less [where w = v and ?'a = nat] by (intro le_val_le_bytes_id) simp
  ultimately show ?thesis by (simp add: get_u16_def)
qed

subsection \<open>Byte swaps\<close>

definition bswap16 :: "u16 \<Rightarrow> u16" where
  "bswap16 x = (drop_bit 8 x) OR (push_bit 8 x)"

definition bswap32 :: "u32 \<Rightarrow> u32" where
  "bswap32 v =
     (drop_bit 24 (v AND 0xff000000)) OR (drop_bit 8 (v AND 0x00ff0000)) OR
     (push_bit 8 (v AND 0x0000ff00)) OR (push_bit 24 (v AND 0x000000ff))"

definition bswap64 :: "u64 \<Rightarrow> u64" where
  "bswap64 v =
     (drop_bit (7 * 8) (v AND push_bit (7 * 8) 0xff)) OR
     (drop_bit (5 * 8) (v AND push_bit (6 * 8) 0xff)) OR
     (drop_bit (3 * 8) (v AND push_bit (5 * 8) 0xff)) OR
     (drop_bit (1 * 8) (v AND push_bit (4 * 8) 0xff)) OR
     (push_bit (1 * 8) (v AND push_bit (3 * 8) 0xff)) OR
     (push_bit (3 * 8) (v AND push_bit (2 * 8) 0xff)) OR
     (push_bit (5 * 8) (v AND push_bit (1 * 8) 0xff)) OR
     (push_bit (7 * 8) (v AND push_bit (0 * 8) 0xff))"

subsection \<open>UTF-16 surrogates and hexadecimal digits\<close>

definition is_surrogate :: "u32 \<Rightarrow> bool" where
  "is_surrogate c \<longleftrightarrow> drop_bit 11 c = drop_bit 11 0xD800"

definition is_hi_surrogate :: "u32 \<Rightarrow> bool" where
  "is_hi_surrogate c \<longleftrightarrow> drop_bit 10 c = drop_bit 10 0xD800"

definition is_lo_surrogate :: "u32 \<Rightarrow> bool" where
  "is_lo_surrogate c \<longleftrightarrow> drop_bit 10 c = drop_bit 10 0xDC00"

definition get_hi_surrogate :: "u32 \<Rightarrow> u32" where
  "get_hi_surrogate c = drop_bit 10 c - drop_bit 10 0x10000 + 0xD800"

definition get_lo_surrogate :: "u32 \<Rightarrow> u32" where
  "get_lo_surrogate c = (c AND 0x3FF) OR 0xDC00"

definition from_surrogate :: "u32 \<Rightarrow> u32 \<Rightarrow> u32" where
  "from_surrogate hi lo = 0x10000 + 0x400 * (hi - 0xD800) + (lo - 0xDC00)"

definition from_hex :: "int \<Rightarrow> int" where
  "from_hex c =
     (if c \<ge> 0x30 \<and> c \<le> 0x39 then c - 0x30
      else if c \<ge> 0x41 \<and> c \<le> 0x46 then c - 0x41 + 10
      else if c \<ge> 0x61 \<and> c \<le> 0x66 then c - 0x61 + 10
      else - 1)"

lemma from_hex_bounds: "- 1 \<le> from_hex c \<and> from_hex c < 16"
  by (simp add: from_hex_def)

subsection \<open>C strings\<close>

fun strlen :: "bytes \<Rightarrow> nat option" where
  "strlen [] = None"
| "strlen (c # cs) = (if c = 0 then Some 0 else map_option Suc (strlen cs))"

fun pstrcpy_loop :: "bytes \<Rightarrow> nat \<Rightarrow> nat \<Rightarrow> bytes \<Rightarrow> bytes option" where
  "pstrcpy_loop buf q lim [] = None"
| "pstrcpy_loop buf q lim (c # str) =
     (if c = 0 \<or> q \<ge> lim then wr buf q 0
      else do { buf' \<leftarrow> wr buf q c; pstrcpy_loop buf' (Suc q) lim str })"

text \<open>\<open>pstrcpy buf at buf_size str\<close> is \<^verbatim>\<open>pstrcpy(buf + at, buf_size, str)\<close>.\<close>

definition pstrcpy :: "bytes \<Rightarrow> nat \<Rightarrow> int \<Rightarrow> bytes \<Rightarrow> bytes option" where
  "pstrcpy buf at buf_size str =
     (if buf_size \<le> 0 then Some buf
      else pstrcpy_loop buf at (at + nat buf_size - 1) str)"

definition pstrcat :: "bytes \<Rightarrow> int \<Rightarrow> bytes \<Rightarrow> bytes option" where
  "pstrcat buf buf_size s = do {
     len \<leftarrow> strlen buf;
     if int len < buf_size then pstrcpy buf len (buf_size - int len) s else Some buf }"

text \<open>
  \<open>Some None\<close> is the return value 0; \<open>Some (Some p)\<close> is the return value 1 with
  \<^verbatim>\<open>*ptr = p\<close>.
\<close>

fun strstart :: "bytes \<Rightarrow> bytes \<Rightarrow> bytes option option" where
  "strstart p [] = None"
| "strstart p (q # qs) =
     (if q = 0 then Some (Some p)
      else (case p of [] \<Rightarrow> None
            | c # cs \<Rightarrow> if c \<noteq> q then Some None else strstart cs qs))"

definition has_suffix :: "bytes \<Rightarrow> bytes \<Rightarrow> bool option" where
  "has_suffix str suffix = do {
     len \<leftarrow> strlen str;
     slen \<leftarrow> strlen suffix;
     if len \<ge> slen then do {
       a \<leftarrow> slice str (len - slen) slen;
       b \<leftarrow> slice suffix 0 slen;
       Some (a = b) }
     else Some False }"

text \<open>
  The string an object holds: the bytes before its first NUL. \<open>cstr s\<close> is an object that
  holds \<open>s\<close>; \<open>nul_free s\<close> says that \<open>s\<close> can be held.
\<close>

definition cstr :: "bytes \<Rightarrow> bytes" where
  "cstr s = s @ [0]"

definition nul_free :: "bytes \<Rightarrow> bool" where
  "nul_free s \<longleftrightarrow> 0 \<notin> set s"

lemma nul_free_simps [simp]: "nul_free []" "nul_free (c # s) \<longleftrightarrow> c \<noteq> 0 \<and> nul_free s"
  by (auto simp: nul_free_def)

lemma strlen_cstr: "nul_free s \<Longrightarrow> strlen (s @ 0 # r) = Some (length s)"
  by (induction s) (auto simp: nul_free_def)

lemma strlen_Some_split:
  "strlen b = Some n \<Longrightarrow> \<exists>s r. b = s @ 0 # r \<and> nul_free s \<and> length s = n"
proof (induction b arbitrary: n)
  case (Cons c cs)
  show ?case
  proof (cases "c = 0")
    case True
    with Cons.prems show ?thesis by (intro exI [of _ "[]"] exI [of _ cs]) auto
  next
    case False
    with Cons.prems obtain m where "strlen cs = Some m" and n: "n = Suc m" by auto
    then obtain s r where "cs = s @ 0 # r" "nul_free s" "length s = m"
      using Cons.IH by blast
    with False n show ?thesis by (intro exI [of _ "c # s"] exI [of _ r]) auto
  qed
qed simp

lemma pstrcpy_loop_eq:
  assumes "nul_free s" and "q \<le> lim" and "lim < length buf"
  shows "pstrcpy_loop buf q lim (s @ 0 # r) =
    (let t = take (lim - q) s @ [0] in Some (take q buf @ t @ drop (q + length t) buf))"
  using assms
proof (induction s arbitrary: buf q)
  case Nil
  then show ?case by (simp add: wr_def upd_conv_take_nth_drop)
next
  case (Cons c s)
  show ?case
  proof (cases "q < lim")
    case True
    let ?buf = "buf[q := c]"
    have "pstrcpy_loop buf q lim ((c # s) @ 0 # r) = pstrcpy_loop ?buf (Suc q) lim (s @ 0 # r)"
      using True Cons.prems by (simp add: wr_def)
    also have "\<dots> = (let t = take (lim - Suc q) s @ [0]
        in Some (take (Suc q) ?buf @ t @ drop (Suc q + length t) ?buf))"
      using True Cons.prems by (intro Cons.IH) auto
    also have "\<dots> = (let t = take (lim - q) (c # s) @ [0]
        in Some (take q buf @ t @ drop (q + length t) buf))"
      using True Cons.prems
      by (auto simp: Let_def take_Suc_conv_app_nth take_update_swap take_Cons' Suc_diff_Suc list_update_append)
    finally show ?thesis .
  next
    case False
    with Cons.prems show ?thesis by (simp add: wr_def upd_conv_take_nth_drop)
  qed
qed


lemma pstrcpy_eq:
  assumes "nul_free s" and "0 < buf_size" and "at + nat buf_size \<le> length buf"
  shows "pstrcpy buf at buf_size (s @ 0 # r) =
    (let t = take (nat buf_size - 1) s @ [0]
     in Some (take at buf @ t @ drop (at + length t) buf))"
proof -
  have "pstrcpy buf at buf_size (s @ 0 # r) = pstrcpy_loop buf at (at + nat buf_size - 1) (s @ 0 # r)"
    using assms(2) by (simp add: pstrcpy_def)
  moreover have "at \<le> at + nat buf_size - 1" "at + nat buf_size - 1 < length buf"
    using assms(2,3) by auto
  moreover have "at + nat buf_size - 1 - at = nat buf_size - 1" by simp
  ultimately show ?thesis using pstrcpy_loop_eq [OF assms(1)] by metis
qed

text \<open>
  \<^verbatim>\<open>pstrcat(buf, buf_size, s)\<close> on a buffer of \<^verbatim>\<open>buf_size\<close> bytes that holds the
  string \<open>a\<close> stays inside the buffer and leaves the concatenation in it, cut to
  \<open>buf_size - 1\<close> bytes and NUL-terminated.
\<close>

theorem pstrcat_truncates:
  assumes "nul_free a" and "nul_free s" and "length (a @ 0 # r) = nat buf_size"
  shows "\<exists>r'. pstrcat (a @ 0 # r) buf_size (s @ 0 # rs) =
           Some (take (nat buf_size - 1) (a @ s) @ 0 # r') \<and>
         length (take (nat buf_size - 1) (a @ s) @ 0 # r') = nat buf_size"
proof -
  let ?b = "a @ 0 # r"
  have pos: "int (length a) < buf_size" using assms(3) by auto
  then have eq: "pstrcat ?b buf_size (s @ 0 # rs) =
      pstrcpy ?b (length a) (buf_size - int (length a)) (s @ 0 # rs)"
    by (simp add: pstrcat_def strlen_cstr [OF assms(1)])
  have n: "nat (buf_size - int (length a)) = nat buf_size - length a"
    using pos by auto
  let ?t = "take (nat buf_size - length a - 1) s @ [0]"
  have "pstrcat ?b buf_size (s @ 0 # rs) =
      Some (take (length a) ?b @ ?t @ drop (length a + length ?t) ?b)"
    unfolding eq using pos assms(3) n
    by (subst pstrcpy_eq [OF assms(2)]) (simp_all add: Let_def)
  moreover have "take (nat buf_size - 1) (a @ s) @ [0] = a @ ?t"
    using pos by (simp add: diff_diff_left)
  ultimately have "pstrcat ?b buf_size (s @ 0 # rs) =
      Some (take (nat buf_size - 1) (a @ s) @ 0 # drop (length a + length ?t) ?b)"
    by simp
  moreover have "length (take (nat buf_size - 1) (a @ s) @ 0 # drop (length a + length ?t) ?b) = nat buf_size"
    using assms(3) by (auto simp: min_def)
  ultimately show ?thesis by blast
qed

theorem pstrcat_truncates_witness:
  "\<exists>r'. pstrcat ([0x61, 0x62] @ 0 # [9]) 4 ([0x63, 0x64] @ 0 # []) =
           Some (take (nat 4 - 1) ([0x61, 0x62] @ [0x63, 0x64]) @ 0 # r') \<and>
         length (take (nat 4 - 1) ([0x61, 0x62] @ [0x63, 0x64 :: byte]) @ 0 # r') = nat 4"
  using pstrcat_truncates [of "[0x61, 0x62]" "[0x63, 0x64]" "[9]" 4 "[]"] by simp

lemma strstart_eq:
  assumes "nul_free a" and "nul_free v"
  shows "strstart (a @ 0 # r) (v @ 0 # rv) =
    Some (if take (length v) a = v then Some (drop (length v) a @ 0 # r) else None)"
  using assms
proof (induction v arbitrary: a)
  case (Cons c v)
  then show ?case by (cases a) auto
qed simp

lemma has_suffix_eq:
  assumes "nul_free a" and "nul_free v"
  shows "has_suffix (a @ 0 # r) (v @ 0 # rv) =
    Some (length v \<le> length a \<and> drop (length a - length v) a = v)"
  by (auto simp: has_suffix_def strlen_cstr assms slice_def)

text \<open>
  \<^verbatim>\<open>strstart\<close> and \<^verbatim>\<open>has_suffix\<close> decide the prefix and the suffix relation of the
  strings their arguments hold; on success \<^verbatim>\<open>strstart\<close> leaves the pointer right behind the
  prefix.
\<close>

theorem strstart_has_suffix_correct:
  assumes "nul_free a" and "nul_free v"
  shows "(strstart (a @ 0 # r) (v @ 0 # rv) = Some (Some p) \<longleftrightarrow>
           (\<exists>t. a = v @ t \<and> p = t @ 0 # r))
    \<and> has_suffix (a @ 0 # r) (v @ 0 # rv) = Some (\<exists>t. a = t @ v)"
proof -
  have "strstart (a @ 0 # r) (v @ 0 # rv) = Some (Some p) \<longleftrightarrow> (\<exists>t. a = v @ t \<and> p = t @ 0 # r)"
    unfolding strstart_eq [OF assms] by auto (metis append_take_drop_id)
  moreover have "length v \<le> length a \<and> drop (length a - length v) a = v \<longleftrightarrow> (\<exists>t. a = t @ v)"
    by auto (metis append_take_drop_id)
  ultimately show ?thesis unfolding has_suffix_eq [OF assms] by simp
qed

theorem strstart_has_suffix_correct_witness:
  "(strstart ([1, 2, 3] @ 0 # []) ([1, 2] @ 0 # []) = Some (Some [3, 0]) \<longleftrightarrow>
      (\<exists>t. [1, 2, 3 :: byte] = [1, 2] @ t \<and> [3, 0] = t @ 0 # [])) \<and>
   has_suffix ([1, 2, 3] @ 0 # []) ([1, 2] @ 0 # []) = Some (\<exists>t. [1, 2, 3 :: byte] = t @ [1, 2])"
  using strstart_has_suffix_correct [of "[1, 2, 3]" "[1, 2]" "[]" "[]" "[3, 0]"] by simp

end
