(* ===== verification/Utf8.thy ===== *)
theory Utf8
  imports CUtils
begin

unbundle bit_operations_syntax

section \<open>The UTF-8 codec (\<^verbatim>\<open>js/cutils.c\<close>)\<close>

text \<open>
  \<^verbatim>\<open>unicode_to_utf8\<close> writes 1 to 6 bytes; the model returns the bytes written, and the C
  return value is their number (0 for a code above 31 bits).
  \<^verbatim>\<open>unicode_from_utf8\<close> reads from the rest of an object: outer \<open>None\<close> is a read past
  its end, the result is the C return value with the updated \<^verbatim>\<open>*pp\<close> (unchanged on error).
\<close>

definition unicode_to_utf8 :: "u32 \<Rightarrow> bytes" where
  "unicode_to_utf8 c =
     (if c < 0x80 then [ucast c]
      else if c \<ge> 0x80000000 then [] \<comment> \<open>\<^verbatim>\<open>return 0\<close>, before any byte is written\<close>
      else
       (if c < 0x800 then [ucast (drop_bit 6 c OR 0xc0)]
        else
         (if c < 0x10000 then [ucast (drop_bit 12 c OR 0xe0)]
          else
           (if c < 0x00200000 then [ucast (drop_bit 18 c OR 0xf0)]
            else
             (if c < 0x04000000 then [ucast (drop_bit 24 c OR 0xf8)]
              else [ucast (drop_bit 30 c OR 0xfc), ucast ((drop_bit 24 c AND 0x3f) OR 0x80)]) @
             [ucast ((drop_bit 18 c AND 0x3f) OR 0x80)]) @
           [ucast ((drop_bit 12 c AND 0x3f) OR 0x80)]) @
         [ucast ((drop_bit 6 c AND 0x3f) OR 0x80)]) @
       [ucast ((c AND 0x3f) OR 0x80)])"

definition utf8_min_code :: "u32 list" where
  "utf8_min_code = [0x80, 0x800, 0x10000, 0x00200000, 0x04000000]"

definition utf8_first_code_mask :: "u32 list" where
  "utf8_first_code_mask = [0x1f, 0xf, 0x7, 0x3, 0x1]"

text \<open>The \<^verbatim>\<open>switch\<close> on the first byte: the number of continuation bytes.\<close>

definition utf8_follow :: "byte \<Rightarrow> nat option" where
  "utf8_follow c =
     (if 0xc0 \<le> c \<and> c \<le> 0xdf then Some 1
      else if 0xe0 \<le> c \<and> c \<le> 0xef then Some 2
      else if 0xf0 \<le> c \<and> c \<le> 0xf7 then Some 3
      else if 0xf8 \<le> c \<and> c \<le> 0xfb then Some 4
      else if 0xfc \<le> c \<and> c \<le> 0xfd then Some 5
      else None)"

text \<open>The loop over the continuation bytes; inner \<open>None\<close> is \<^verbatim>\<open>return -1\<close>.\<close>

fun utf8_loop :: "nat \<Rightarrow> u32 \<Rightarrow> bytes \<Rightarrow> (u32 \<times> bytes) option option" where
  "utf8_loop 0 c p = Some (Some (c, p))"
| "utf8_loop (Suc l) c [] = None"
| "utf8_loop (Suc l) c (b # p) =
     (if b < 0x80 \<or> b \<ge> 0xc0 then Some None
      else utf8_loop l (push_bit 6 c OR (ucast b AND 0x3f)) p)"

definition unicode_from_utf8 :: "bytes \<Rightarrow> int \<Rightarrow> (int \<times> bytes) option" where
  "unicode_from_utf8 p0 max_len =
     (case p0 of [] \<Rightarrow> None
      | b # p \<Rightarrow>
        (if b < 0x80 then Some (uint b, p)
         else (case utf8_follow b of None \<Rightarrow> Some (- 1, p0)
           | Some l \<Rightarrow>
             (if int l > max_len - 1 then Some (- 1, p0)
              else do {
                r \<leftarrow> utf8_loop l (ucast b AND utf8_first_code_mask ! (l - 1)) p;
                (case r of None \<Rightarrow> Some (- 1, p0)
                 | Some (c, p') \<Rightarrow>
                   if c < utf8_min_code ! (l - 1) then Some (- 1, p0)
                   else Some (sint c, p')) }))))"

subsection \<open>Bytes as numbers\<close>

lemma unat_or_lead:
  assumes "unat v < 2 ^ k" and "2 ^ k dvd unat w" and "unat v + unat w < 256"
  shows "unat (ucast ((v :: u32) OR w) :: byte) = unat v + unat w"
  using unat_or_add [OF assms(1,2)] assms(3) by (simp add: unat_ucast_mod)

lemma unat_cont_byte:
  "unat (ucast ((c AND 0x3f) OR 0x80 :: u32) :: byte) = 128 + unat c mod 64"
proof -
  have "unat (c AND 0x3f) = unat c mod 64"
    by (simp add: mask_literals unat_and_mask)
  then show ?thesis
    using unat_or_lead [where v = "c AND 0x3f" and w = "0x80" and k = 6] by simp
qed

lemma unat_cont_byte_drop:
  "unat (ucast ((drop_bit k c AND 0x3f) OR 0x80 :: u32) :: byte) = 128 + unat c div 2 ^ k mod 64"
  by (simp add: unat_cont_byte unat_drop_bit_div)

lemma unat_lead_bytes:
  "unat c div 2 ^ k < 32 \<Longrightarrow> unat (ucast (drop_bit k c OR 0xc0 :: u32) :: byte) = 192 + unat c div 2 ^ k"
  "unat c div 2 ^ k < 16 \<Longrightarrow> unat (ucast (drop_bit k c OR 0xe0 :: u32) :: byte) = 224 + unat c div 2 ^ k"
  "unat c div 2 ^ k < 8 \<Longrightarrow> unat (ucast (drop_bit k c OR 0xf0 :: u32) :: byte) = 240 + unat c div 2 ^ k"
  "unat c div 2 ^ k < 4 \<Longrightarrow> unat (ucast (drop_bit k c OR 0xf8 :: u32) :: byte) = 248 + unat c div 2 ^ k"
  "unat c div 2 ^ k < 2 \<Longrightarrow> unat (ucast (drop_bit k c OR 0xfc :: u32) :: byte) = 252 + unat c div 2 ^ k"
  using unat_or_lead [where v = "drop_bit k c" and w = "0xc0" and k = 5]
    unat_or_lead [where v = "drop_bit k c" and w = "0xe0" and k = 4]
    unat_or_lead [where v = "drop_bit k c" and w = "0xf0" and k = 3]
    unat_or_lead [where v = "drop_bit k c" and w = "0xf8" and k = 2]
    unat_or_lead [where v = "drop_bit k c" and w = "0xfc" and k = 1]
  by (simp_all add: unat_drop_bit_div)

text \<open>One step of the decoding loop: append six bits.\<close>

lemma unat_append_six:
  assumes "unat c < 2 ^ 26"
  shows "unat (push_bit 6 c OR (ucast (b :: byte) AND 0x3f) :: u32) = unat c * 64 + unat b mod 64"
proof -
  have p: "unat (push_bit 6 c) = unat c * 64"
    using assms by (simp add: unat_push_bit_mod)
  have m: "unat (ucast b AND 0x3f :: u32) = unat b mod 64"
    by (simp add: mask_literals bits_as_arith unat_byte_less [THEN less_trans])
  have "unat ((ucast b AND 0x3f :: u32) OR push_bit 6 c) = unat b mod 64 + unat c * 64"
    using unat_or_add [where v = "ucast b AND 0x3f :: u32" and w = "push_bit 6 c" and k = 6]
    by (simp add: p m)
  then show ?thesis by (simp add: or.commute)
qed

subsection \<open>What the loop computes\<close>

definition is_cont :: "byte \<Rightarrow> bool" where
  "is_cont b \<longleftrightarrow> 128 \<le> unat b \<and> unat b < 192"

fun six :: "nat \<Rightarrow> bytes \<Rightarrow> nat" where
  "six v [] = v"
| "six v (b # bs) = six (v * 64 + unat b mod 64) bs"

text \<open>The continuation bytes of \<open>n\<close>, most significant first.\<close>

definition cont_byte :: "nat \<Rightarrow> byte" where
  "cont_byte m = word_of_nat (128 + m mod 64)"

definition conts :: "nat \<Rightarrow> nat \<Rightarrow> bytes" where
  "conts l n = map (\<lambda>i. cont_byte (n div 64 ^ i)) (rev [0..<l])"

lemma not_cont_iff: "b < 0x80 \<or> b \<ge> 0xc0 \<longleftrightarrow> \<not> is_cont b"
  by (auto simp: is_cont_def word_less_nat_alt word_le_nat_alt)

lemma unat_cont_byte_of: "unat (cont_byte m) = 128 + m mod 64"
proof -
  have "128 + m mod 64 < (256 :: nat)"
    using mod_less_divisor [of 64 m] by linarith
  then show ?thesis unfolding cont_byte_def by (rule unat_of_nat_byte)
qed

lemma unat_cont_byte_mod: "unat (cont_byte m) mod 64 = m mod 64"
proof -
  have "(128 + m mod 64) mod 64 = (m mod 64 + 2 * 64) mod 64" by (simp add: add.commute)
  also have "\<dots> = m mod 64" by (simp only: mod_mult_self1 mod_mod_trivial)
  finally show ?thesis by (simp only: unat_cont_byte_of)
qed

lemma cont_byte_eqI: "unat b = 128 + m mod 64 \<Longrightarrow> b = cont_byte m"
  by (simp add: word_unat_eq_iff unat_cont_byte_of)

lemma conts_Suc: "conts (Suc l) n = cont_byte (n div 64 ^ l) # conts l n"
  by (simp add: conts_def)

lemma length_conts [simp]: "length (conts l n) = l"
  by (simp add: conts_def)

lemma is_cont_conts: "b \<in> set (conts l n) \<Longrightarrow> is_cont b"
  using mod_less_divisor [of 64] by (auto simp: conts_def is_cont_def unat_cont_byte_of)

lemma append_six_fits:
  assumes "(unat c + 1) * 64 ^ Suc l \<le> 2 ^ 32"
  shows "unat (push_bit 6 c OR (ucast (b :: byte) AND 0x3f) :: u32) = unat c * 64 + unat b mod 64"
    and "(unat (push_bit 6 c OR (ucast b AND 0x3f) :: u32) + 1) * 64 ^ l \<le> 2 ^ 32"
proof -
  have "(unat c + 1) * 64 * 1 \<le> (unat c + 1) * 64 * 64 ^ l" by (intro mult_le_mono2) simp
  also have "\<dots> \<le> 2 ^ 32" using assms by (simp only: power_Suc mult.assoc)
  finally have "unat c < 2 ^ 26" by simp
  then show c: "unat (push_bit 6 c OR (ucast b AND 0x3f) :: u32) = unat c * 64 + unat b mod 64"
    by (rule unat_append_six)
  have "unat c * 64 + unat b mod 64 + 1 \<le> (unat c + 1) * 64"
    using mod_less_divisor [of 64 "unat b"] by simp
  then have "(unat c * 64 + unat b mod 64 + 1) * 64 ^ l \<le> (unat c + 1) * 64 * 64 ^ l"
    by (rule mult_le_mono1)
  then show "(unat (push_bit 6 c OR (ucast b AND 0x3f) :: u32) + 1) * 64 ^ l \<le> 2 ^ 32"
    unfolding c using assms by (simp only: power_Suc mult.assoc)
qed

lemma utf8_loop_decodes:
  assumes "(unat c + 1) * 64 ^ l \<le> 2 ^ 32" and "length bs = l" and "\<forall>b\<in>set bs. is_cont b"
  shows "\<exists>c'. utf8_loop l c (bs @ p) = Some (Some (c', p)) \<and> unat c' = six (unat c) bs"
  using assms
proof (induction l arbitrary: c bs)
  case (Suc l)
  then obtain b bs' where bs: "bs = b # bs'" by (cases bs) auto
  then have b: "\<not> (b < 0x80 \<or> b \<ge> 0xc0)"
    using Suc.prems(3) unfolding not_cont_iff by simp
  from Suc.IH [OF append_six_fits(2) [OF Suc.prems(1), of b], of bs'] Suc.prems b bs
  show ?case by (auto simp: append_six_fits(1) [OF Suc.prems(1)])
qed simp

lemma utf8_loop_accepts:
  assumes "(unat c + 1) * 64 ^ l \<le> 2 ^ 32" and "utf8_loop l c p = Some (Some (c', p'))"
  shows "\<exists>bs. p = bs @ p' \<and> length bs = l \<and> (\<forall>b\<in>set bs. is_cont b) \<and> unat c' = six (unat c) bs"
  using assms
proof (induction l c p rule: utf8_loop.induct)
  case (3 l c b p)
  then have b: "\<not> (b < 0x80 \<or> b \<ge> 0xc0)" by (auto split: if_splits)
  then have cont: "is_cont b" unfolding not_cont_iff by simp
  from "3.IH" [OF b append_six_fits(2) [OF "3.prems"(1)]] "3.prems"(2) b
  obtain bs where "p = bs @ p'" "length bs = l" "\<forall>b\<in>set bs. is_cont b"
    "unat c' = six (unat c * 64 + unat b mod 64) bs"
    by (auto simp: append_six_fits(1) [OF "3.prems"(1)])
  with cont show ?case by (intro exI [of _ "b # bs"]) auto
qed auto

subsection \<open>Numbers to bytes and back\<close>

lemma six_conts: "six (n div 64 ^ l) (conts l n) = n"
proof (induction l)
  case (Suc l)
  have "n div 64 ^ Suc l * 64 + n div 64 ^ l mod 64 = n div 64 ^ l"
    by (simp add: power_Suc2 div_mult2_eq flip: power_Suc)
  with Suc show ?case by (simp add: conts_Suc unat_cont_byte_mod)
qed (simp add: conts_def)

lemma six_div: "six v bs div 64 ^ length bs = v"
proof (induction bs arbitrary: v)
  case (Cons b bs)
  have "six v (b # bs) div 64 ^ length (b # bs)
      = six (v * 64 + unat b mod 64) bs div 64 ^ length bs div 64"
    by (simp add: div_mult2_eq power_Suc2 del: power_Suc)
  also have "\<dots> = v" by (simp add: Cons)
  finally show ?case .
qed simp

lemma conts_six: "\<forall>b\<in>set bs. is_cont b \<Longrightarrow> conts (length bs) (six v bs) = bs"
proof (induction bs arbitrary: v)
  case (Cons b bs)
  obtain k where b: "unat b = k + 2 * 64" and k: "k < 64"
    using Cons.prems by (auto simp: is_cont_def intro: that [of "unat b - 128"])
  have "unat b mod 64 = k" unfolding b mod_mult_self1 using k by simp
  moreover have "(v * 64 + k) mod 64 = k" using k by simp
  ultimately have "unat b = 128 + (v * 64 + unat b mod 64) mod 64" using b by simp
  then have "cont_byte (v * 64 + unat b mod 64) = b" by (rule cont_byte_eqI [symmetric])
  then show ?case using Cons by (simp add: conts_Suc six_div)
qed (simp add: conts_def)

subsection \<open>The encoder in these terms\<close>

lemma cont_byte_word: "ucast ((c AND 0x3f) OR 0x80 :: u32) = cont_byte (unat c)"
  by (rule cont_byte_eqI) (simp only: unat_cont_byte)

lemma byte_eqI: "unat (b :: byte) = n \<Longrightarrow> b = word_of_nat n"
  by auto

lemma conts_num: "conts (Suc 0) n = [cont_byte n]"
  "conts 2 n = [cont_byte (n div 64), cont_byte n]"
  "conts 3 n = [cont_byte (n div 4096), cont_byte (n div 64), cont_byte n]"
  "conts 4 n = [cont_byte (n div 262144), cont_byte (n div 4096), cont_byte (n div 64), cont_byte n]"
  "conts 5 n = [cont_byte (n div 16777216), cont_byte (n div 262144), cont_byte (n div 4096),
      cont_byte (n div 64), cont_byte n]"
  by (simp_all add: conts_def upt_rec)

text \<open>The class of a code: how many continuation bytes it takes, and the tag of its first byte.\<close>

definition utf8_class :: "nat \<Rightarrow> nat \<Rightarrow> nat \<Rightarrow> bool" where
  "utf8_class n l tag \<longleftrightarrow>
     (l = 1 \<and> tag = 192 \<and> 0x80 \<le> n \<and> n < 0x800) \<or>
     (l = 2 \<and> tag = 224 \<and> 0x800 \<le> n \<and> n < 0x10000) \<or>
     (l = 3 \<and> tag = 240 \<and> 0x10000 \<le> n \<and> n < 0x200000) \<or>
     (l = 4 \<and> tag = 248 \<and> 0x200000 \<le> n \<and> n < 0x4000000) \<or>
     (l = 5 \<and> tag = 252 \<and> 0x4000000 \<le> n \<and> n < 0x80000000)"

lemma utf8_class_ex: "0x80 \<le> n \<Longrightarrow> n < 0x80000000 \<Longrightarrow> \<exists>l tag. utf8_class n l tag"
proof -
  assume "0x80 \<le> n" "n < 0x80000000"
  then consider "utf8_class n 1 192" | "utf8_class n 2 224" | "utf8_class n 3 240"
    | "utf8_class n 4 248" | "utf8_class n 5 252"
    unfolding utf8_class_def by simp linarith
  then show ?thesis by cases blast+
qed

lemma unicode_to_utf8_class:
  assumes "utf8_class (unat c) l tag"
  shows "unicode_to_utf8 c = word_of_nat (tag + unat c div 64 ^ l) # conts l (unat c)"
proof -
  have lead: "unat c div 2 ^ k < 32 \<Longrightarrow> ucast (drop_bit k c OR 0xc0) = (word_of_nat (192 + unat c div 2 ^ k) :: byte)"
    "unat c div 2 ^ k < 16 \<Longrightarrow> ucast (drop_bit k c OR 0xe0) = (word_of_nat (224 + unat c div 2 ^ k) :: byte)"
    "unat c div 2 ^ k < 8 \<Longrightarrow> ucast (drop_bit k c OR 0xf0) = (word_of_nat (240 + unat c div 2 ^ k) :: byte)"
    "unat c div 2 ^ k < 4 \<Longrightarrow> ucast (drop_bit k c OR 0xf8) = (word_of_nat (248 + unat c div 2 ^ k) :: byte)"
    "unat c div 2 ^ k < 2 \<Longrightarrow> ucast (drop_bit k c OR 0xfc) = (word_of_nat (252 + unat c div 2 ^ k) :: byte)"
    for k by (rule byte_eqI, simp only: unat_lead_bytes)+
  have lt: "c < numeral n \<longleftrightarrow> unat c < unat (numeral n :: u32)" for n
    by (simp add: word_less_nat_alt)
  from assms show ?thesis
    unfolding utf8_class_def
    by (elim disjE conjE)
      (simp_all add: unicode_to_utf8_def cont_byte_word conts_num lt not_less [symmetric] lead unat_drop_bit_div
        del: of_nat_add)
qed

subsection \<open>The first byte\<close>

definition utf8_lead :: "nat \<Rightarrow> nat \<Rightarrow> nat \<Rightarrow> bool" where
  "utf8_lead l tag k \<longleftrightarrow> (l, tag, k) \<in> {(1, 192, 5), (2, 224, 4), (3, 240, 3), (4, 248, 2), (5, 252, 1)}"

lemma utf8_follow_iff:
  "utf8_follow b = Some l \<longleftrightarrow> (\<exists>tag k m. utf8_lead l tag k \<and> m < 2 ^ k \<and> unat b = tag + m)"
proof
  assume "utf8_follow b = Some l"
  then consider "l = 1" "192 \<le> unat b" "unat b \<le> 223" | "l = 2" "224 \<le> unat b" "unat b \<le> 239"
    | "l = 3" "240 \<le> unat b" "unat b \<le> 247" | "l = 4" "248 \<le> unat b" "unat b \<le> 251"
    | "l = 5" "252 \<le> unat b" "unat b \<le> 253"
    unfolding utf8_follow_def by (simp add: word_le_nat_alt split: if_splits)
  then obtain tag k where "utf8_lead l tag k" "tag \<le> unat b" "unat b - tag < 2 ^ k"
    by cases (auto simp: utf8_lead_def)
  then show "\<exists>tag k m. utf8_lead l tag k \<and> m < 2 ^ k \<and> unat b = tag + m"
    by (intro exI [of _ tag] exI [of _ k] exI [of _ "unat b - tag"]) simp
next
  assume "\<exists>tag k m. utf8_lead l tag k \<and> m < 2 ^ k \<and> unat b = tag + m"
  then show "utf8_follow b = Some l"
    unfolding utf8_lead_def utf8_follow_def
    by (elim exE conjE insertE emptyE) (simp_all add: word_le_nat_alt)
qed

lemma first_code_mask:
  assumes "utf8_lead l tag k" and "m < 2 ^ k" and "unat (b :: byte) = tag + m"
  shows "unat (ucast b AND utf8_first_code_mask ! (l - 1) :: u32) = m"
proof -
  have "utf8_first_code_mask ! (l - 1) = mask k" and dvd: "2 ^ k dvd tag"
    using assms(1) by (auto simp: utf8_lead_def utf8_first_code_mask_def mask_eq_exp_minus_1)
  then have "unat (ucast b AND utf8_first_code_mask ! (l - 1) :: u32) = (tag + m) mod 2 ^ k"
    using assms(3) unat_byte_less [of b] by (simp add: bits_as_arith)
  also have "\<dots> = m" using dvd assms(2) by (simp add: mod_add_left_eq [symmetric])
  finally show ?thesis .
qed

lemma utf8_lead_fits: "utf8_lead l tag k \<Longrightarrow> m < 2 ^ k \<Longrightarrow> (m + 1) * 64 ^ l \<le> (2 :: nat) ^ 31"
  by (auto simp: utf8_lead_def)

lemma utf8_class_min: "utf8_lead l tag k \<Longrightarrow>
   utf8_class n l tag \<longleftrightarrow> unat (utf8_min_code ! (l - 1)) \<le> n \<and> n < 2 ^ k * 64 ^ l"
  unfolding utf8_lead_def
  by (elim insertE emptyE) (simp_all add: utf8_class_def utf8_min_code_def)

lemma utf8_class_lead:
  assumes "utf8_class n l tag"
  shows "\<exists>k. utf8_lead l tag k \<and> n div 64 ^ l < 2 ^ k \<and> tag + n div 64 ^ l < 256"
proof -
  obtain k where lead: "utf8_lead l tag k" "tag + 2 ^ k \<le> 256"
    using assms unfolding utf8_class_def utf8_lead_def by (elim disjE) simp_all
  then have "n div 64 ^ l < 2 ^ k"
    using assms utf8_class_min [OF lead(1)] by (simp add: less_mult_imp_div_less)
  with lead show ?thesis by (intro exI [of _ k]) simp
qed

subsection \<open>Round trips\<close>

lemma lead_byte_not_ascii: "utf8_lead l tag k \<Longrightarrow> unat b = tag + m \<Longrightarrow> \<not> (b :: byte) < 0x80"
  by (auto simp: utf8_lead_def word_less_nat_alt)

text \<open>
  C9. Every code below \<open>2^31\<close> survives the round trip through UTF-8: decoding what
  \<^verbatim>\<open>unicode_to_utf8\<close> wrote, with room for at least the bytes written, returns the code and
  leaves the pointer right behind them.
\<close>

theorem utf8_roundtrip:
  assumes "c < 0x80000000" and "int (length (unicode_to_utf8 c)) \<le> max_len"
  shows "unicode_from_utf8 (unicode_to_utf8 c @ r) max_len = Some (uint c, r)"
proof (cases "c < 0x80")
  case True
  then have "unat c < 128" by (simp add: word_less_nat_alt)
  then have "unat (ucast c :: byte) = unat c" by (simp add: unat_ucast_mod)
  then have "uint (ucast c :: byte) = uint c" and "(ucast c :: byte) < 0x80"
    using \<open>unat c < 128\<close> by (metis of_nat_unat, simp add: word_less_nat_alt)
  with True show ?thesis by (simp add: unicode_to_utf8_def unicode_from_utf8_def)
next
  case False
  let ?n = "unat c"
  have "0x80 \<le> ?n" "?n < 0x80000000" using False assms(1) by (simp_all add: word_less_nat_alt)
  then obtain l tag where cls: "utf8_class ?n l tag" using utf8_class_ex by blast
  from utf8_class_lead [OF this] obtain k where
    lead: "utf8_lead l tag k" and m: "?n div 64 ^ l < 2 ^ k" and "tag + ?n div 64 ^ l < 256" by blast
  moreover define b where "b = (word_of_nat (tag + ?n div 64 ^ l) :: byte)"
  ultimately have b: "unat b = tag + ?n div 64 ^ l" by (simp only: unat_of_nat_byte)
  have enc: "unicode_to_utf8 c = b # conts l ?n"
    unfolding b_def by (rule unicode_to_utf8_class [OF cls])
  let ?c0 = "ucast b AND utf8_first_code_mask ! (l - 1) :: u32"
  have c0: "unat ?c0 = ?n div 64 ^ l" by (rule first_code_mask [OF lead m b])
  have "(unat ?c0 + 1) * 64 ^ l \<le> 2 ^ 32" using utf8_lead_fits [OF lead m] c0 by simp
  then obtain c' where loop: "utf8_loop l ?c0 (conts l ?n @ r) = Some (Some (c', r))"
    and "unat c' = six (unat ?c0) (conts l ?n)"
    using utf8_loop_decodes [of ?c0 l "conts l ?n" r] is_cont_conts by force
  then have c': "c' = c" by (simp only: c0 six_conts word_unat_eq_iff)
  have "utf8_min_code ! (l - 1) \<le> c"
    using utf8_class_min [OF lead] cls by (simp add: word_le_nat_alt)
  moreover have "sint c = uint c" 
    using assms(1) by (intro sint_eq_uint) (simp add: word_less_def)
  moreover have "utf8_follow b = Some l" using lead m b utf8_follow_iff by blast
  moreover have "\<not> int l > max_len - 1" using assms(2) enc by simp
  ultimately show ?thesis
    using lead_byte_not_ascii [OF lead b] loop c' unfolding enc unicode_from_utf8_def by simp
qed

theorem utf8_roundtrip_witness:
  "unicode_from_utf8 (unicode_to_utf8 0x1F600 @ [0x21]) 6 = Some (uint (0x1F600 :: u32), [0x21])"
proof -
  have "(0x1F600 :: u32) < 0x80000000" and "int (length (unicode_to_utf8 0x1F600)) \<le> 6"
    by (simp_all add: unicode_to_utf8_def)
  then show ?thesis by (rule utf8_roundtrip)
qed

text \<open>
  C10. The decoder accepts only what the encoder writes: if \<^verbatim>\<open>unicode_from_utf8\<close> returns a
  code, the bytes it consumed are exactly the shortest encoding of that code. Overlong forms, stray
  continuation bytes and truncated sequences are all refused.
\<close>

theorem utf8_canonical:
  assumes "unicode_from_utf8 p max_len = Some (c, r)" and "0 \<le> c"
  shows "c < 2 ^ 31 \<and> p = unicode_to_utf8 (word_of_int c) @ r"
proof -
  obtain b p' where p: "p = b # p'" using assms(1) by (cases p) (auto simp: unicode_from_utf8_def)
  show ?thesis
  proof (cases "b < 0x80")
    case True
    then have "unat b < 128" by (simp add: word_less_nat_alt)
    moreover have c: "c = uint b" "r = p'" using assms(1) True p by (auto simp: unicode_from_utf8_def)
    moreover have w: "unat (word_of_int c :: u32) = unat b"
    proof -
      have "c = int (unat b)" using c by simp
      moreover have "unat b < 2 ^ 32" by (rule less_trans [OF unat_byte_less]) simp
      ultimately show ?thesis by (simp add: unat_of_nat del: of_nat_unat)
    qed
    ultimately have "word_of_int c < (0x80 :: u32)" "ucast (word_of_int c :: u32) = b"
      by (simp_all add: word_less_nat_alt word_unat_eq_iff unat_ucast_mod)
    moreover have "c < 2 ^ 31" using c(1) uint_lt2p [of b] by simp
    ultimately show ?thesis using p c(2) by (simp add: unicode_to_utf8_def)
  next
    case False
    then obtain l c0 w where fol: "utf8_follow b = Some l"
      and c0: "c0 = (ucast b AND utf8_first_code_mask ! (l - 1) :: u32)"
      and loop: "utf8_loop l c0 p' = Some (Some (w, r))"
      and min: "\<not> w < utf8_min_code ! (l - 1)" and c: "c = sint w"
      using assms p
      by (auto simp: unicode_from_utf8_def split: option.splits if_splits bind_splits)
    from fol obtain tag k m where lead: "utf8_lead l tag k" and m: "m < 2 ^ k" and b: "unat b = tag + m"
      using utf8_follow_iff by blast
    have "unat c0 = m" unfolding c0 by (rule first_code_mask [OF lead m b])
    moreover from this have "(unat c0 + 1) * 64 ^ l \<le> 2 ^ 32" using utf8_lead_fits [OF lead m] by simp
    ultimately obtain bs where bs: "p' = bs @ r" "length bs = l" "\<forall>b\<in>set bs. is_cont b"
      and w: "unat w = six m bs"
      using utf8_loop_accepts [OF _ loop] by auto
    have div: "unat w div 64 ^ l = m" using six_div [of m bs] bs(2) w by simp
    then have "unat w < (m + 1) * 64 ^ l" 
      using dividend_less_div_times [of "64 ^ l" "unat w"] by simp
    with utf8_lead_fits [OF lead m] have small: "unat w < 2 ^ 31" by simp
    have "unat w < 2 ^ k * 64 ^ l"
      using div m by (simp add: div_less_iff_less_mult [symmetric])
    with min have cls: "utf8_class (unat w) l tag"
      using utf8_class_min [OF lead] by (simp add: word_less_nat_alt)
    have "unicode_to_utf8 w = word_of_nat (tag + m) # conts l (unat w)"
      using unicode_to_utf8_class [OF cls] div by simp
    also have "conts l (unat w) = bs" using conts_six [OF bs(3)] bs(2) w by simp
    also have "word_of_nat (tag + m) = b" using b byte_eqI [of b] by simp
    finally have "p = unicode_to_utf8 w @ r" using p bs(1) by simp
    moreover have u: "uint w < 2 ^ 31"
    proof -
      have "uint w = int (unat w)" by simp
      also have "\<dots> < int (2 ^ 31)" using small by (simp only: of_nat_less_iff)
      finally show ?thesis by simp
    qed
    moreover from u have "c = uint w" unfolding c by (intro sint_eq_uint) simp
    ultimately show ?thesis by simp
  qed
qed

theorem utf8_canonical_witness:
  "(0x20AC :: int) < 2 ^ 31 \<and> [0xE2, 0x82, 0xAC, 0x41] = unicode_to_utf8 (word_of_int 0x20AC) @ [0x41]"
proof -
  have "utf8_follow 0xE2 = Some 2" by (simp add: utf8_follow_def)
  moreover have "utf8_loop 2 2 [0x82, 0xAC, 0x41] = Some (Some (0x20AC, [0x41]))"
    by code_simp
  ultimately have "unicode_from_utf8 [0xE2, 0x82, 0xAC, 0x41] 6 = Some (0x20AC, [0x41])"
    by (simp add: unicode_from_utf8_def utf8_first_code_mask_def utf8_min_code_def)
  moreover have "0 \<le> (0x20AC :: int)" by simp
  ultimately show ?thesis by (rule utf8_canonical)
qed

subsection \<open>Surrogate pairs\<close>

lemma div_eq_iff_range: "0 < (k :: nat) \<Longrightarrow> n div k = q \<longleftrightarrow> q * k \<le> n \<and> n < (q + 1) * k"
  by (metis Suc_eq_plus1 div_nat_eqI dividend_less_div_times div_times_less_eq_dividend
      mult.commute mult_Suc_right add.commute mult_Suc)

lemma surrogate_ranges:
  "is_surrogate c \<longleftrightarrow> 0xD800 \<le> unat c \<and> unat c < 0xE000"
  "is_hi_surrogate c \<longleftrightarrow> 0xD800 \<le> unat c \<and> unat c < 0xDC00"
  "is_lo_surrogate c \<longleftrightarrow> 0xDC00 \<le> unat c \<and> unat c < 0xE000"
  by (simp_all add: is_surrogate_def is_hi_surrogate_def is_lo_surrogate_def word_unat_eq_iff
      unat_drop_bit_div div_eq_iff_range)

text \<open>
  A code point above the basic plane, split with \<^verbatim>\<open>get_hi_surrogate\<close> and
  \<^verbatim>\<open>get_lo_surrogate\<close>, gives a high and a low surrogate, and \<^verbatim>\<open>from_surrogate\<close> joins them to the
  same code point.
\<close>

theorem surrogate_roundtrip:
  assumes "0x10000 \<le> c" and "c \<le> 0x10FFFF"
  shows "is_hi_surrogate (get_hi_surrogate c) \<and> is_lo_surrogate (get_lo_surrogate c) \<and>
    from_surrogate (get_hi_surrogate c) (get_lo_surrogate c) = c"
proof -
  have n: "0x10000 \<le> unat c" "unat c \<le> 0x10FFFF" using assms by (simp_all add: word_le_nat_alt)
  define q where "q = unat c div 1024"
  define m where "m = unat c mod 1024"
  have qm: "unat c = q * 1024 + m" and m: "m < 1024" by (simp_all add: q_def m_def)
  with n have q: "64 \<le> q" "q < 1088" by linarith+
  have hi: "get_hi_surrogate c = word_of_nat (q + 0xD7C0)"
  proof -
    have "drop_bit 10 c = word_of_nat q"
      using q by (simp add: word_unat_eq_iff unat_drop_bit_div unat_of_nat flip: q_def)
    then show ?thesis by (simp add: get_hi_surrogate_def)
  qed
  have lo: "get_lo_surrogate c = word_of_nat (m + 0xDC00)"
  proof -
    have a: "unat (c AND 0x3FF) = m" by (simp add: mask_literals unat_and_mask m_def)
    then have "unat ((c AND 0x3FF) OR 0xDC00) = m + 0xDC00"
      using unat_or_add [where v = "c AND 0x3FF" and w = "0xDC00 :: u32" and k = 10] m by simp
    then show ?thesis using m by (simp add: get_lo_surrogate_def word_unat_eq_iff unat_of_nat del: of_nat_add)
  qed
  have c: "c = word_of_nat (q * 1024 + m)" unfolding qm [symmetric] by simp
  have "unat (get_hi_surrogate c) = q + 0xD7C0" "unat (get_lo_surrogate c) = m + 0xDC00"
    unfolding hi lo using q m by (simp_all add: unat_of_nat del: of_nat_add)
  moreover have "from_surrogate (get_hi_surrogate c) (get_lo_surrogate c) = c"
    unfolding hi lo by (subst c) (simp add: from_surrogate_def)
  ultimately show ?thesis using q m by (simp add: surrogate_ranges)
qed

theorem surrogate_roundtrip_witness:
  "is_hi_surrogate (get_hi_surrogate 0x1F600) \<and> is_lo_surrogate (get_lo_surrogate 0x1F600) \<and>
    from_surrogate (get_hi_surrogate 0x1F600) (get_lo_surrogate 0x1F600) = 0x1F600"
proof (rule surrogate_roundtrip)
  show "(0x10000 :: u32) \<le> 0x1F600" and "(0x1F600 :: u32) \<le> 0x10FFFF" by simp_all
qed

end
