(* ===== verification/DynBuf.thy ===== *)
theory DynBuf
  imports CUtils
begin

section \<open>Growable byte buffers (\<^verbatim>\<open>js/cutils.c\<close>, \<^verbatim>\<open>js/cutils.h\<close>)\<close>

text \<open>
  The \<^verbatim>\<open>DynBuf\<close> package. The buffer is a list of \<open>allocated\<close> bytes (\<^verbatim>\<open>NULL\<close> is the empty
  list), of which the first \<open>size\<close> are its contents; bytes behind them are whatever the
  allocator left there. The allocator \<^verbatim>\<open>realloc_func\<close> is a parameter: a function from its
  \<^verbatim>\<open>opaque\<close> state, the old block and the requested size to its next state and either a
  failure or a new block, so a theorem for all allocators covers every pattern of failures.
  Sizes are \<^verbatim>\<open>size_t\<close>: each addition is reduced modulo \<open>2^64\<close>.

  An operation returns \<open>None\<close> where the C code has undefined behaviour (a copy outside the
  block), otherwise the C return value and the new buffer.
\<close>

type_synonym 'o realloc_fn = "'o \<Rightarrow> bytes \<Rightarrow> nat \<Rightarrow> 'o \<times> bytes option"

record 'o DynBuf =
  db_buf :: bytes
  db_size :: nat
  db_allocated :: nat
  db_error :: bool
  db_realloc :: "'o realloc_fn"
  db_opaque :: 'o

text \<open>
  What the C standard says of \<^verbatim>\<open>realloc\<close> with a positive size: on success the new block has
  the requested size and starts with the old contents.
\<close>

definition realloc_ok :: "'o realloc_fn \<Rightarrow> bool" where
  "realloc_ok f \<longleftrightarrow>
     (\<forall>op b n op' b'. 0 < n \<longrightarrow> f op b n = (op', Some b') \<longrightarrow>
        length b' = n \<and> take (min n (length b)) b' = take (min n (length b)) b)"

definition dbuf_init2 :: "'o \<Rightarrow> 'o realloc_fn \<Rightarrow> 'o DynBuf" where
  "dbuf_init2 opq realloc_func =
     \<lparr>db_buf = [], db_size = 0, db_allocated = 0, db_error = False,
      db_realloc = realloc_func, db_opaque = opq\<rparr>"

text \<open>\<^verbatim>\<open>dbuf_default_realloc\<close> forwards to the C library's \<^verbatim>\<open>realloc\<close>, the parameter.\<close>

definition dbuf_default_realloc :: "'o realloc_fn \<Rightarrow> 'o realloc_fn" where
  "dbuf_default_realloc realloc opq ptr n = realloc opq ptr n"

definition dbuf_init :: "'o \<Rightarrow> 'o realloc_fn \<Rightarrow> 'o DynBuf" where
  "dbuf_init heap realloc = dbuf_init2 heap (dbuf_default_realloc realloc)"

definition dbuf_realloc :: "'o DynBuf \<Rightarrow> nat \<Rightarrow> int \<times> 'o DynBuf" where
  "dbuf_realloc s new_size =
     (if new_size > db_allocated s then
        if db_error s then (- 1, s)
        else
          let size = size_t_wrap (db_allocated s * 3) div 2;
              new_size = (if size > new_size then size else new_size)
          in (case db_realloc s (db_opaque s) (db_buf s) new_size of
                (opq, None) \<Rightarrow> (- 1, s\<lparr>db_error := True, db_opaque := opq\<rparr>)
              | (opq, Some new_buf) \<Rightarrow>
                  (0, s\<lparr>db_buf := new_buf, db_allocated := new_size, db_opaque := opq\<rparr>))
      else (0, s))"

definition dbuf_write :: "'o DynBuf \<Rightarrow> nat \<Rightarrow> bytes \<Rightarrow> (int \<times> 'o DynBuf) option" where
  "dbuf_write s offset data =
     (let e = size_t_wrap (offset + length data); (r, s) = dbuf_realloc s e
      in if r \<noteq> 0 then Some (- 1, s)
         else do {
           b \<leftarrow> blit (db_buf s) offset data;
           Some (0, s\<lparr>db_buf := b, db_size := (if e > db_size s then e else db_size s)\<rparr>) })"

text \<open>The guard shared by \<^verbatim>\<open>dbuf_put\<close> and \<^verbatim>\<open>dbuf_put_self\<close>: grow only when the data does not fit.\<close>

definition dbuf_grow :: "'o DynBuf \<Rightarrow> nat \<Rightarrow> int \<times> 'o DynBuf" where
  "dbuf_grow s len =
     (if size_t_wrap (db_size s + len) > db_allocated s
      then dbuf_realloc s (size_t_wrap (db_size s + len)) else (0, s))"

definition dbuf_put :: "'o DynBuf \<Rightarrow> bytes \<Rightarrow> (int \<times> 'o DynBuf) option" where
  "dbuf_put s data =
     (let (r, s) = dbuf_grow s (length data)
      in if r \<noteq> 0 then Some (- 1, s)
         else do {
           b \<leftarrow> (if length data \<noteq> 0 then blit (db_buf s) (db_size s) data else Some (db_buf s));
           Some (0, s\<lparr>db_buf := b, db_size := size_t_wrap (db_size s + length data)\<rparr>) })"

definition dbuf_put_self :: "'o DynBuf \<Rightarrow> nat \<Rightarrow> nat \<Rightarrow> (int \<times> 'o DynBuf) option" where
  "dbuf_put_self s offset len =
     (let (r, s) = dbuf_grow s len
      in if r \<noteq> 0 then Some (- 1, s)
         else do {
           b \<leftarrow> memcpy_in (db_buf s) (db_size s) offset len;
           Some (0, s\<lparr>db_buf := b, db_size := size_t_wrap (db_size s + len)\<rparr>) })"

definition dbuf_putc :: "'o DynBuf \<Rightarrow> byte \<Rightarrow> (int \<times> 'o DynBuf) option" where
  "dbuf_putc s c = dbuf_put s [c]"

definition dbuf_putstr :: "'o DynBuf \<Rightarrow> bytes \<Rightarrow> (int \<times> 'o DynBuf) option" where
  "dbuf_putstr s str = do { n \<leftarrow> strlen str; d \<leftarrow> slice str 0 n; dbuf_put s d }"

definition dbuf_put_u16 :: "'o DynBuf \<Rightarrow> u16 \<Rightarrow> (int \<times> 'o DynBuf) option" where
  "dbuf_put_u16 s val = dbuf_put s (le_bytes 2 (unat val))"

definition dbuf_put_u32 :: "'o DynBuf \<Rightarrow> u32 \<Rightarrow> (int \<times> 'o DynBuf) option" where
  "dbuf_put_u32 s val = dbuf_put s (le_bytes 4 (unat val))"

definition dbuf_put_u64 :: "'o DynBuf \<Rightarrow> u64 \<Rightarrow> (int \<times> 'o DynBuf) option" where
  "dbuf_put_u64 s val = dbuf_put s (le_bytes 8 (unat val))"

text \<open>
  \<^verbatim>\<open>dbuf_printf\<close>. What \<^verbatim>\<open>vsnprintf\<close> does with the format and its arguments is a parameter: the \<^verbatim>\<open>int\<close> it
  returns and the bytes it produces. Its documented behaviour: a return value \<open>len\<close> that is not
  negative is the length of the complete output \<open>out\<close>, of which at most \<open>n - 1\<close> bytes and a NUL are
  stored in a buffer of \<open>n\<close> bytes; a negative value reports an error, and then the contents of the
  buffer are unspecified, here up to \<open>n\<close> arbitrary bytes. \<^verbatim>\<open>len\<close> is converted to \<^verbatim>\<open>size_t\<close> in the comparison
  with \<^verbatim>\<open>sizeof(buf)\<close> and in the additions, so an error takes the second branch.
\<close>

definition vsnprintf_at :: "bytes \<Rightarrow> nat \<Rightarrow> nat \<Rightarrow> int \<Rightarrow> bytes \<Rightarrow> bytes option" where
  "vsnprintf_at b at n len out =
     (if n = 0 then Some b
      else if len < 0 then blit b at (take n out)
      else blit b at (take (n - 1) out @ [0]))"

definition size_t_of_int :: "int \<Rightarrow> nat" where
  "size_t_of_int i = nat (i mod 2 ^ 64)"

definition size_t_sub :: "nat \<Rightarrow> nat \<Rightarrow> nat" where
  "size_t_sub a b = size_t_wrap (a + (2 ^ 64 - b))"

definition dbuf_printf :: "'o DynBuf \<Rightarrow> int \<Rightarrow> bytes \<Rightarrow> (int \<times> 'o DynBuf) option" where
  "dbuf_printf s len out =
     (if size_t_of_int len < 128 then do { d \<leftarrow> slice out 0 (nat len); dbuf_put s d }
      else
        let (r, s) = dbuf_realloc s (size_t_wrap (db_size s + size_t_of_int len + 1))
        in if r \<noteq> 0 then Some (- 1, s)
           else do {
             b \<leftarrow> vsnprintf_at (db_buf s) (db_size s) (size_t_sub (db_allocated s) (db_size s)) len out;
             Some (0, s\<lparr>db_buf := b, db_size := size_t_wrap (db_size s + size_t_of_int len)\<rparr>) })"

text \<open>\<^verbatim>\<open>memset(s, 0, sizeof( *s))\<close> also clears the function pointer; the model keeps the field.\<close>

definition dbuf_free :: "'o DynBuf \<Rightarrow> 'o DynBuf" where
  "dbuf_free s =
     (let opq = (if db_buf s \<noteq> [] then fst (db_realloc s (db_opaque s) (db_buf s) 0) else db_opaque s)
      in s\<lparr>db_buf := [], db_size := 0, db_allocated := 0, db_error := False, db_opaque := opq\<rparr>)"

definition dbuf_error :: "'o DynBuf \<Rightarrow> bool" where
  "dbuf_error s = db_error s"

definition dbuf_set_error :: "'o DynBuf \<Rightarrow> 'o DynBuf" where
  "dbuf_set_error s = s\<lparr>db_error := True\<rparr>"

text \<open>
  \<^verbatim>\<open>dbuf_insert\<close> of \<^verbatim>\<open>js/libregexp.c\<close>: open a gap of \<open>len\<close> bytes at \<open>pos\<close>. The gap keeps
  whatever bytes were there.
\<close>

definition dbuf_insert :: "'o DynBuf \<Rightarrow> nat \<Rightarrow> nat \<Rightarrow> (int \<times> 'o DynBuf) option" where
  "dbuf_insert s pos len =
     (let (r, s) = dbuf_realloc s (size_t_wrap (db_size s + len))
      in if r \<noteq> 0 then Some (- 1, s)
         else if db_size s < pos then None
         else do {
           b \<leftarrow> memmove_in (db_buf s) (pos + len) pos (db_size s - pos);
           Some (0, s\<lparr>db_buf := b, db_size := size_t_wrap (db_size s + len)\<rparr>) })"

subsection \<open>Invariant and contents\<close>

definition dbuf_inv :: "'o DynBuf \<Rightarrow> bool" where
  "dbuf_inv s \<longleftrightarrow> length (db_buf s) = db_allocated s \<and> db_size s \<le> db_allocated s \<and>
     db_allocated s < 2 ^ 64 \<and> realloc_ok (db_realloc s)"

definition dbuf_contents :: "'o DynBuf \<Rightarrow> bytes" where
  "dbuf_contents s = take (db_size s) (db_buf s)"

lemma realloc_okD:
  assumes "realloc_ok f" and "0 < n" and "f op b n = (op', Some b')"
  shows "length b' = n" and "k \<le> n \<Longrightarrow> k \<le> length b \<Longrightarrow> take k b' = take k b"
proof -
  have a: "length b' = n \<and> take (min n (length b)) b' = take (min n (length b)) b"
    using assms unfolding realloc_ok_def by blast
  then show "length b' = n" by simp
  assume "k \<le> n" "k \<le> length b"
  then have "take k (take (min n (length b)) b') = take k (take (min n (length b)) b)"
    using a by simp
  moreover have "min k (min n (length b)) = k" using \<open>k \<le> n\<close> \<open>k \<le> length b\<close> by simp
  ultimately show "take k b' = take k b" by simp
qed

lemma length_dbuf_contents: "dbuf_inv s \<Longrightarrow> length (dbuf_contents s) = db_size s"
  by (simp add: dbuf_contents_def dbuf_inv_def)

lemma dbuf_inv_init2 [inv_intros]: "realloc_ok f \<Longrightarrow> dbuf_inv (dbuf_init2 opq f)"
  by (simp add: dbuf_inv_def dbuf_init2_def)

lemma dbuf_contents_init2 [simp]: "dbuf_contents (dbuf_init2 opq f) = []"
  by (simp add: dbuf_contents_def dbuf_init2_def)

lemma dbuf_inv_free [inv_intros]: "dbuf_inv s \<Longrightarrow> dbuf_inv (dbuf_free s)"
  by (simp add: dbuf_inv_def dbuf_free_def Let_def)

text \<open>The whole contract of \<^verbatim>\<open>dbuf_realloc\<close>.\<close>

lemma dbuf_realloc_spec:
  assumes "dbuf_inv s" and "n < 2 ^ 64" and "dbuf_realloc s n = (r, s')"
  shows "dbuf_inv s' \<and> db_size s' = db_size s \<and> dbuf_contents s' = dbuf_contents s \<and>
    db_allocated s \<le> db_allocated s' \<and>
    ((r = 0 \<and> n \<le> db_allocated s' \<and> db_error s' = db_error s) \<or>
     (r = - 1 \<and> db_error s' \<and> db_allocated s < n))"
proof (cases "n > db_allocated s \<and> \<not> db_error s")
  case True
  define m where "m = (let size = size_t_wrap (db_allocated s * 3) div 2 in if size > n then size else n)"
  have "size_t_wrap (db_allocated s * 3) div 2 < 2 ^ 64"
    using size_t_wrap_less [of "db_allocated s * 3"] by linarith
  then have m: "n \<le> m" "m < 2 ^ 64" using assms(2) by (auto simp: m_def Let_def)
  obtain opq nb where f: "db_realloc s (db_opaque s) (db_buf s) m = (opq, nb)" by fastforce
  have eq: "dbuf_realloc s n = (case nb of None \<Rightarrow> (- 1, s\<lparr>db_error := True, db_opaque := opq\<rparr>)
     | Some b \<Rightarrow> (0, s\<lparr>db_buf := b, db_allocated := m, db_opaque := opq\<rparr>))"
    using True f by (simp add: dbuf_realloc_def m_def Let_def split: option.splits)
  show ?thesis
  proof (cases nb)
    case None
    with eq assms True show ?thesis by (auto simp: dbuf_inv_def dbuf_contents_def)
  next
    case (Some b)
    have len: "length b = m" and "take (db_size s) b = take (db_size s) (db_buf s)"
      using realloc_okD [of "db_realloc s" m _ _ _ b] f Some m True assms(1)
      by (auto simp: dbuf_inv_def)
    with eq Some assms True m show ?thesis by (auto simp: dbuf_inv_def dbuf_contents_def)
  qed
next
  case False
  with assms show ?thesis by (auto simp: dbuf_realloc_def split: if_splits)
qed

lemma dbuf_grow_spec:
  assumes "dbuf_inv s" and "db_size s + len < 2 ^ 64" and "dbuf_grow s len = (r, s')"
  shows "dbuf_inv s' \<and> db_size s' = db_size s \<and> dbuf_contents s' = dbuf_contents s \<and>
    ((r = 0 \<and> db_size s + len \<le> db_allocated s' \<and> db_error s' = db_error s) \<or>
     (r = - 1 \<and> db_error s' \<and> db_allocated s < db_size s + len))"
proof (cases "db_size s + len > db_allocated s")
  case True
  then have "dbuf_realloc s (db_size s + len) = (r, s')"
    using assms by (simp add: dbuf_grow_def)
  from dbuf_realloc_spec [OF assms(1,2) this] True show ?thesis by auto
next
  case False
  with assms show ?thesis by (auto simp: dbuf_grow_def)
qed

subsection \<open>The operations append, or fail and leave the contents alone\<close>

text \<open>
  What a call returned: success (0) with contents \<open>xs\<close> and the error flag as it was, or
  failure (-1) with the error flag set and the contents as they were.
\<close>

definition dbuf_result :: "'o DynBuf \<Rightarrow> bytes \<Rightarrow> (int \<times> 'o DynBuf) option \<Rightarrow> bool" where
  "dbuf_result s xs res \<longleftrightarrow>
     (\<exists>r s'. res = Some (r, s') \<and> dbuf_inv s' \<and>
        ((r = 0 \<and> dbuf_contents s' = xs \<and> db_error s' = db_error s) \<or>
         (r = - 1 \<and> dbuf_contents s' = dbuf_contents s \<and> db_error s')))"

lemma dbuf_resultI_fail:
  "dbuf_inv s' \<Longrightarrow> dbuf_contents s' = dbuf_contents s \<Longrightarrow> db_error s' \<Longrightarrow>
     dbuf_result s xs (Some (- 1, s'))"
  by (simp add: dbuf_result_def)

lemma dbuf_resultI_ok:
  "dbuf_inv s' \<Longrightarrow> dbuf_contents s' = xs \<Longrightarrow> db_error s' = db_error s \<Longrightarrow>
     dbuf_result s xs (Some (0, s'))"
  by (simp add: dbuf_result_def)

text \<open>Storing \<open>d\<close> behind the contents of a buffer that has room for it.\<close>

definition dbuf_store :: "'o DynBuf \<Rightarrow> bytes \<Rightarrow> 'o DynBuf" where
  "dbuf_store s d = s\<lparr>db_buf := take (db_size s) (db_buf s) @ d @ drop (db_size s + length d) (db_buf s),
     db_size := db_size s + length d\<rparr>"

lemma dbuf_store_result:
  assumes "dbuf_inv s1" and "dbuf_contents s1 = dbuf_contents s" and "db_error s1 = db_error s"
    and "db_size s1 + length d \<le> db_allocated s1"
  shows "dbuf_result s (dbuf_contents s @ d) (Some (0, dbuf_store s1 d))"
proof (rule dbuf_resultI_ok)
  have len: "length (db_buf s1) = db_allocated s1" using assms(1) by (simp add: dbuf_inv_def)
  show "dbuf_inv (dbuf_store s1 d)" using assms(1,4) len by (simp add: dbuf_inv_def dbuf_store_def)
  have "dbuf_contents (dbuf_store s1 d) = dbuf_contents s1 @ d"
    using len assms(4) by (simp add: dbuf_contents_def dbuf_store_def)
  then show "dbuf_contents (dbuf_store s1 d) = dbuf_contents s @ d" using assms(2) by simp
  show "db_error (dbuf_store s1 d) = db_error s" using assms(3) by (simp add: dbuf_store_def)
qed

lemma dbuf_put_result:
  assumes inv: "dbuf_inv s" and fits: "db_size s + length data < 2 ^ 64"
  shows "dbuf_result s (dbuf_contents s @ data) (dbuf_put s data)"
proof -
  obtain r s1 where g: "dbuf_grow s (length data) = (r, s1)" by fastforce
  note spec = dbuf_grow_spec [OF inv fits g]
  show ?thesis
  proof (cases "r = 0")
    case True
    with spec have room: "db_size s1 + length data \<le> db_allocated s1" and sz: "db_size s1 = db_size s" by auto
    have "blit (db_buf s1) (db_size s1) data = Some (db_buf (dbuf_store s1 data))"
      using room spec by (simp add: dbuf_store_def blit_def dbuf_inv_def)
    moreover have "db_buf (dbuf_store s1 []) = db_buf s1" by (simp add: dbuf_store_def)
    ultimately have "dbuf_put s data = Some (0, dbuf_store s1 data)"
      using g True sz fits by (auto simp: dbuf_put_def dbuf_store_def)
    with dbuf_store_result [OF _ _ _ room] spec True show ?thesis by simp
  next
    case False
    with g spec show ?thesis by (auto simp: dbuf_put_def intro!: dbuf_resultI_fail)
  qed
qed

lemma dbuf_put_self_result:
  assumes inv: "dbuf_inv s" and fits: "db_size s + len < 2 ^ 64" and src: "offset + len \<le> db_size s"
  shows "dbuf_result s (dbuf_contents s @ take len (drop offset (dbuf_contents s))) (dbuf_put_self s offset len)"
proof -
  obtain r s1 where g: "dbuf_grow s len = (r, s1)" by fastforce
  note spec = dbuf_grow_spec [OF inv fits g]
  show ?thesis
  proof (cases "r = 0")
    case True
    let ?d = "take len (drop offset (dbuf_contents s))"
    have "dbuf_contents s = take (db_size s) (db_buf s1)" using spec by (auto simp: dbuf_contents_def)
    then have "?d = take len (drop offset (db_buf s1))" using src by (simp add: drop_take)
    moreover have "length ?d = len" using src length_dbuf_contents [OF inv] by simp
    ultimately have d: "?d = take len (drop offset (db_buf s1))" "length ?d = len" .
    from True spec have room: "db_size s1 + length ?d \<le> db_allocated s1" and sz: "db_size s1 = db_size s"
      unfolding d(2) by auto
    have "memcpy_in (db_buf s1) (db_size s1) offset len = Some (db_buf (dbuf_store s1 ?d))"
      using room spec src sz d
      by (simp add: dbuf_store_def memcpy_in_def memmove_in_Some dbuf_inv_def)
    then have "dbuf_put_self s offset len = Some (0, dbuf_store s1 ?d)"
      using g True sz fits d(2) by (simp add: dbuf_put_self_def dbuf_store_def)
    with dbuf_store_result [OF _ _ _ room] spec True show ?thesis by simp
  next
    case False
    with g spec show ?thesis by (auto simp: dbuf_put_self_def intro!: dbuf_resultI_fail)
  qed
qed

lemma size_t_of_int_pos: "0 \<le> len \<Longrightarrow> len < 2 ^ 64 \<Longrightarrow> size_t_of_int len = nat len"
  by (simp add: size_t_of_int_def)

lemma size_t_sub_eq: "b \<le> a \<Longrightarrow> a < 2 ^ 64 \<Longrightarrow> size_t_sub a b = a - b"
  by (simp add: size_t_sub_def size_t_wrap_def le_mod_geq)

lemma dbuf_printf_result:
  assumes inv: "dbuf_inv s" and fits: "db_size s + length out + 1 < 2 ^ 64"
  shows "dbuf_result s (dbuf_contents s @ out) (dbuf_printf s (int (length out)) out)"
proof (cases "length out < 128")
  case True
  with dbuf_put_result [OF inv] fits show ?thesis by (simp add: dbuf_printf_def size_t_of_int_pos)
next
  case False
  have len: "size_t_of_int (int (length out)) = length out" using fits by (simp add: size_t_of_int_pos)
  obtain r s1 where g: "dbuf_realloc s (db_size s + length out + 1) = (r, s1)" by fastforce
  note spec = dbuf_realloc_spec [OF inv fits g]
  show ?thesis
  proof (cases "r = 0")
    case True
    let ?s = "dbuf_store s1 out" and ?z = "dbuf_store s1 (out @ [0])"
    have room: "db_size s1 + length out + 1 \<le> length (db_buf s1)" and sz: "db_size s1 = db_size s"
      using spec True by (auto simp: dbuf_inv_def)
    then have "vsnprintf_at (db_buf s1) (db_size s1) (size_t_sub (db_allocated s1) (db_size s1))
        (int (length out)) out = Some (db_buf ?z)"
      using spec by (auto simp: vsnprintf_at_def blit_def dbuf_store_def dbuf_inv_def size_t_sub_eq)
    then have "dbuf_printf s (int (length out)) out = Some (0, ?z\<lparr>db_size := db_size s + length out\<rparr>)"
      using g False True sz fits by (simp add: dbuf_printf_def len Let_def dbuf_store_def)
    moreover have "dbuf_result s (dbuf_contents s @ out) (Some (0, ?z\<lparr>db_size := db_size s + length out\<rparr>))"
    proof (rule dbuf_resultI_ok)
      show "dbuf_inv (?z\<lparr>db_size := db_size s + length out\<rparr>)"
        using spec room sz by (simp add: dbuf_inv_def dbuf_store_def)
      have "dbuf_contents (?z\<lparr>db_size := db_size s + length out\<rparr>) = dbuf_contents s1 @ out"
        using room sz by (simp add: dbuf_contents_def dbuf_store_def)
      then show "dbuf_contents (?z\<lparr>db_size := db_size s + length out\<rparr>) = dbuf_contents s @ out"
        using spec by simp
    qed (use spec True in \<open>simp add: dbuf_store_def\<close>)
    ultimately show ?thesis by simp
  next
    case False2: False
    with g spec False fits show ?thesis
      by (auto simp: dbuf_printf_def len Let_def intro!: dbuf_resultI_fail)
  qed
qed

text \<open>
  When \<^verbatim>\<open>vsnprintf\<close> fails, nothing is appended and the caller is told 0: the negative number is added
  to the size, so that many bytes at the end of the contents are lost.
\<close>

lemma size_t_of_int_neg:
  assumes "- (2 ^ 31) \<le> len" and "len < 0"
  shows "size_t_of_int len = 2 ^ 64 - nat (- len)" and "128 \<le> size_t_of_int len"
proof -
  have "len mod 2 ^ 64 = (len + 2 ^ 64) mod 2 ^ 64" by simp
  also have "\<dots> = len + 2 ^ 64" using assms by (intro mod_pos_pos_trivial) simp_all
  finally show eq: "size_t_of_int len = 2 ^ 64 - nat (- len)"
    using assms by (simp add: size_t_of_int_def nat_diff_distrib')
  show "128 \<le> size_t_of_int len" using assms unfolding eq by simp
qed

lemma size_t_add_neg:
  assumes "- (2 ^ 31) \<le> len" and "len < 0" and "n < 2 ^ 64"
  shows "nat (- len) \<le> n \<Longrightarrow> size_t_wrap (n + size_t_of_int len) = n - nat (- len)"
    and "n < nat (- len) \<Longrightarrow> size_t_wrap (n + size_t_of_int len) = 2 ^ 64 - (nat (- len) - n)"
proof -
  have le: "nat (- len) \<le> 2 ^ 31" using assms by simp
  show "size_t_wrap (n + size_t_of_int len) = n - nat (- len)" if "nat (- len) \<le> n"
  proof -
    have "n + size_t_of_int len = (n - nat (- len)) + 2 ^ 64"
      using that le assms by (simp add: size_t_of_int_neg(1))
    then show ?thesis using assms(3) by (simp add: size_t_wrap_def)
  qed
  show "size_t_wrap (n + size_t_of_int len) = 2 ^ 64 - (nat (- len) - n)" if "n < nat (- len)"
  proof -
    have "n + size_t_of_int len = 2 ^ 64 - (nat (- len) - n)"
      using that le by (simp add: size_t_of_int_neg(1) [OF assms(1,2)])
    then show ?thesis using that by (simp add: size_t_wrap_def)
  qed
qed

lemma vsnprintf_at_failed:
  assumes "dbuf_inv s" and "len < 0"
  shows "\<exists>b. vsnprintf_at (db_buf s) (db_size s) (size_t_sub (db_allocated s) (db_size s)) len out = Some b \<and>
    length b = length (db_buf s) \<and> take (db_size s) b = take (db_size s) (db_buf s)"
  using assms by (auto simp: vsnprintf_at_def blit_def dbuf_inv_def size_t_sub_eq)

lemma dbuf_printf_failed_result:
  assumes inv: "dbuf_inv s" and len: "- (2 ^ 31) \<le> len" "len < 0" and room: "nat (- len) \<le> db_size s"
  shows "dbuf_result s (take (db_size s - nat (- len)) (dbuf_contents s)) (dbuf_printf s len out)"
proof -
  have sz: "db_size s < 2 ^ 64" "db_size s \<le> db_allocated s" using inv by (auto simp: dbuf_inv_def)
  obtain b where b: "vsnprintf_at (db_buf s) (db_size s) (size_t_sub (db_allocated s) (db_size s)) len out = Some b"
    "length b = length (db_buf s)" "take (db_size s) b = take (db_size s) (db_buf s)"
    using vsnprintf_at_failed [OF inv len(2)] by blast
  have "size_t_wrap (Suc (db_size s + size_t_of_int len)) = size_t_wrap (Suc (size_t_wrap (db_size s + size_t_of_int len)))"
    by (simp add: size_t_wrap_def mod_Suc_eq)
  also have "\<dots> \<le> db_allocated s"
    using size_t_add_neg(1) [OF len sz(1) room] room len(2) sz by (simp add: size_t_wrap_def)
  finally have "dbuf_realloc s (size_t_wrap (Suc (db_size s + size_t_of_int len))) = (0, s)"
    by (simp add: dbuf_realloc_def)
  then have "dbuf_printf s len out = Some (0, s\<lparr>db_buf := b, db_size := db_size s - nat (- len)\<rparr>)"
    using b(1) size_t_of_int_neg(2) [OF len] size_t_add_neg(1) [OF len sz(1) room]
    by (simp add: dbuf_printf_def)
  moreover have "take (db_size s - nat (- len)) b = take (db_size s - nat (- len)) (dbuf_contents s)"
    using arg_cong [OF b(3), of "take (db_size s - nat (- len))"] by (simp add: dbuf_contents_def)
  ultimately show ?thesis
    using inv b(2) by (auto simp: dbuf_inv_def dbuf_contents_def intro!: dbuf_resultI_ok)
qed

text \<open>
  On an empty buffer a return value of \<open>-1\<close> wraps the size: the call returns 0 and leaves a buffer
  whose size is \<open>2^64 - 1\<close>, outside the invariant. The specification below therefore asks that a failing
  \<^verbatim>\<open>vsnprintf\<close> returns no less than minus the size.
\<close>

lemma dbuf_printf_underflow:
  assumes inv: "dbuf_inv s" and empty: "db_size s = 0" and alloc: "db_allocated s < 2 ^ 64 - 1"
  shows "\<exists>s'. dbuf_printf s (- 1) out = Some (0, s') \<and> db_size s' = 2 ^ 64 - 1 \<and> \<not> dbuf_inv s'"
proof -
  obtain b where b: "vsnprintf_at (db_buf s) (db_size s) (size_t_sub (db_allocated s) (db_size s)) (- 1) out = Some b"
    "length b = length (db_buf s)"
    using vsnprintf_at_failed [OF inv, of "- 1"] by fastforce
  have "size_t_of_int (- 1) = 2 ^ 64 - 1" using size_t_of_int_neg(1) [of "- 1"] by simp
  then have "dbuf_printf s (- 1) out = Some (0, s\<lparr>db_buf := b, db_size := 2 ^ 64 - 1\<rparr>)"
    using b(1) empty by (simp add: dbuf_printf_def dbuf_realloc_def size_t_wrap_def)
  moreover have "\<not> dbuf_inv (s\<lparr>db_buf := b, db_size := 2 ^ 64 - 1\<rparr>)"
    using inv b(2) alloc by (auto simp: dbuf_inv_def)
  ultimately show ?thesis by auto
qed

lemma dbuf_write_result:
  assumes inv: "dbuf_inv s" and at: "offset \<le> db_size s" and fits: "offset + length data < 2 ^ 64"
  shows "dbuf_result s (take offset (dbuf_contents s) @ data @ drop (offset + length data) (dbuf_contents s))
    (dbuf_write s offset data)"
proof -
  obtain r s1 where g: "dbuf_realloc s (offset + length data) = (r, s1)" by fastforce
  note spec = dbuf_realloc_spec [OF inv fits g]
  show ?thesis
  proof (cases "r = 0")
    case True
    have sz: "db_size s1 = db_size s" and len: "length (db_buf s1) = db_allocated s1"
      and room: "offset + length data \<le> length (db_buf s1)"
      and cont: "dbuf_contents s = take (db_size s) (db_buf s1)"
      using spec True by (auto simp: dbuf_inv_def dbuf_contents_def)
    let ?b = "take offset (db_buf s1) @ data @ drop (offset + length data) (db_buf s1)"
    let ?n = "if offset + length data > db_size s then offset + length data else db_size s"
    have eq: "dbuf_write s offset data = Some (0, s1\<lparr>db_buf := ?b, db_size := ?n\<rparr>)"
      using g True room sz fits by (simp add: dbuf_write_def blit_def Let_def)
    have n: "?n \<le> db_allocated s1" using room len spec by (auto simp: dbuf_inv_def)
    have "take ?n ?b = take offset (dbuf_contents s) @ data @ drop (offset + length data) (dbuf_contents s)"
    proof (cases "offset + length data > db_size s")
      case True
      then show ?thesis unfolding cont using at room by (simp add: min_absorb1)
    next
      case False
      then show ?thesis unfolding cont using at room by (simp add: min_absorb1 drop_take)
    qed
    with eq n spec True len room show ?thesis
      by (auto intro!: dbuf_resultI_ok simp: dbuf_inv_def dbuf_contents_def [of "_\<lparr>db_size := _\<rparr>"])
  next
    case False
    with g spec fits show ?thesis by (auto simp: dbuf_write_def intro!: dbuf_resultI_fail)
  qed
qed

text \<open>
  \<^verbatim>\<open>dbuf_insert\<close> fails like the others; on success the bytes before \<open>pos\<close> stay, the bytes
  from \<open>pos\<close> on move up by \<open>len\<close>.
\<close>

lemma dbuf_insert_result:
  assumes inv: "dbuf_inv s" and at: "pos \<le> db_size s" and fits: "db_size s + len < 2 ^ 64"
  shows "\<exists>gap. length gap = len \<and>
    dbuf_result s (take pos (dbuf_contents s) @ gap @ drop pos (dbuf_contents s)) (dbuf_insert s pos len)"
proof -
  obtain r s1 where g: "dbuf_realloc s (db_size s + len) = (r, s1)" by fastforce
  note spec = dbuf_realloc_spec [OF inv fits g]
  show ?thesis
  proof (cases "r = 0")
    case True
    have sz: "db_size s1 = db_size s" and len1: "length (db_buf s1) = db_allocated s1"
      and room: "db_size s + len \<le> length (db_buf s1)"
      and cont: "dbuf_contents s = take (db_size s) (db_buf s1)"
      using spec True by (auto simp: dbuf_inv_def dbuf_contents_def)
    let ?b = "take (pos + len) (db_buf s1) @ take (db_size s - pos) (drop pos (db_buf s1)) @
      drop (pos + len + (db_size s - pos)) (db_buf s1)"
    have eq: "dbuf_insert s pos len = Some (0, s1\<lparr>db_buf := ?b, db_size := db_size s + len\<rparr>)"
      using g True room sz fits at by (simp add: dbuf_insert_def memmove_in_Some)
    let ?gap = "take len (drop pos (db_buf s1))"
    have "take (db_size s + len) ?b = take pos (dbuf_contents s) @ ?gap @ drop pos (dbuf_contents s)"
      unfolding cont using at room by (simp add: drop_take take_add)
    with eq spec True len1 room at have
      "dbuf_result s (take pos (dbuf_contents s) @ ?gap @ drop pos (dbuf_contents s)) (dbuf_insert s pos len)"
      by (auto intro!: dbuf_resultI_ok simp: dbuf_inv_def dbuf_contents_def [of "_\<lparr>db_size := _\<rparr>"])
    then show ?thesis using room at by (intro exI [of _ ?gap]) simp
  next
    case False
    with g spec fits show ?thesis
      by (intro exI [of _ "replicate len 0"]) (auto simp: dbuf_insert_def intro!: dbuf_resultI_fail)
  qed
qed

subsection \<open>The contract clients rely on\<close>

text \<open>
  The regular-expression compiler writes with dozens of calls whose return values it ignores and
  looks at the error flag once, at the end. That is sound for every sink with the following
  contract: one step either does what the specification says and keeps the flag, or raises the flag.
\<close>

fun run_ops :: "('s \<Rightarrow> 'op \<Rightarrow> (int \<times> 's) option) \<Rightarrow> 's \<Rightarrow> 'op list \<Rightarrow> 's option" where
  "run_ops exec s [] = Some s"
| "run_ops exec s (op # ops) = do { (r, s') \<leftarrow> exec s op; run_ops exec s' ops }"

fun ops_ok :: "('s \<Rightarrow> 'op \<Rightarrow> (int \<times> 's) option) \<Rightarrow> ('s \<Rightarrow> 'op \<Rightarrow> bool) \<Rightarrow> 's \<Rightarrow> 'op list \<Rightarrow> bool" where
  "ops_ok exec ok s [] = True"
| "ops_ok exec ok s (op # ops) =
     (ok s op \<and> (case exec s op of None \<Rightarrow> True | Some (r, s') \<Rightarrow> ops_ok exec ok s' ops))"

locale sticky_sink =
  fixes exec :: "'s \<Rightarrow> 'op \<Rightarrow> (int \<times> 's) option"
    and spec :: "'v \<Rightarrow> 'op \<Rightarrow> 'v"
    and ok :: "'s \<Rightarrow> 'op \<Rightarrow> bool"
    and inv :: "'s \<Rightarrow> bool"
    and contents :: "'s \<Rightarrow> 'v"
    and failed :: "'s \<Rightarrow> bool"
  assumes step: "inv s \<Longrightarrow> ok s op \<Longrightarrow>
    \<exists>r s'. exec s op = Some (r, s') \<and> inv s' \<and>
      ((r = 0 \<and> contents s' = spec (contents s) op \<and> failed s' = failed s) \<or>
       (r = - 1 \<and> failed s'))"
begin

lemma run_refines:
  assumes "inv s" and "ops_ok exec ok s ops"
  shows "\<exists>s'. run_ops exec s ops = Some s' \<and> inv s' \<and>
    (failed s \<longrightarrow> failed s') \<and>
    (\<not> failed s' \<longrightarrow> contents s' = foldl spec (contents s) ops)"
  using assms
proof (induction ops arbitrary: s)
  case (Cons op ops)
  then obtain r s1 where ex: "exec s op = Some (r, s1)" and inv1: "inv s1"
    and alt: "(r = 0 \<and> contents s1 = spec (contents s) op \<and> failed s1 = failed s) \<or>
       (r = - 1 \<and> failed s1)"
    using step [of s op] by auto
  from Cons.IH [OF inv1] Cons.prems(2) ex obtain s' where "run_ops exec s1 ops = Some s'" "inv s'"
    "failed s1 \<longrightarrow> failed s'" "\<not> failed s' \<longrightarrow> contents s' = foldl spec (contents s1) ops" by auto
  with ex alt show ?case by auto
qed simp

end

datatype dbuf_op =
    Put bytes
  | Put_self nat nat
  | Write nat bytes
  | Printf int bytes

fun dbuf_exec :: "'o DynBuf \<Rightarrow> dbuf_op \<Rightarrow> (int \<times> 'o DynBuf) option" where
  "dbuf_exec s (Put d) = dbuf_put s d"
| "dbuf_exec s (Put_self off n) = dbuf_put_self s off n"
| "dbuf_exec s (Write off d) = dbuf_write s off d"
| "dbuf_exec s (Printf len d) = dbuf_printf s len d"

fun dbuf_spec :: "bytes \<Rightarrow> dbuf_op \<Rightarrow> bytes" where
  "dbuf_spec c (Put d) = c @ d"
| "dbuf_spec c (Put_self off n) = c @ take n (drop off c)"
| "dbuf_spec c (Write off d) = take off c @ d @ drop (off + length d) c"
| "dbuf_spec c (Printf len d) = (if 0 \<le> len then c @ d else take (length c - nat (- len)) c)"

fun dbuf_op_ok :: "'o DynBuf \<Rightarrow> dbuf_op \<Rightarrow> bool" where
  "dbuf_op_ok s (Put d) \<longleftrightarrow> db_size s + length d < 2 ^ 64"
| "dbuf_op_ok s (Put_self off n) \<longleftrightarrow> off + n \<le> db_size s \<and> db_size s + n < 2 ^ 64"
| "dbuf_op_ok s (Write off d) \<longleftrightarrow> off \<le> db_size s \<and> off + length d < 2 ^ 64"
| "dbuf_op_ok s (Printf len d) \<longleftrightarrow> - (2 ^ 31) \<le> len \<and> len < 2 ^ 31 \<and>
     (if 0 \<le> len then len = int (length d) \<and> db_size s + length d + 1 < 2 ^ 64 else nat (- len) \<le> db_size s)"

lemma dbuf_exec_result:
  assumes "dbuf_inv s" and "dbuf_op_ok s op"
  shows "dbuf_result s (dbuf_spec (dbuf_contents s) op) (dbuf_exec s op)"
  using assms
  by (cases op) (auto simp: dbuf_put_result dbuf_put_self_result dbuf_write_result dbuf_printf_result
      dbuf_printf_failed_result length_dbuf_contents split: if_splits)

interpretation dbs: sticky_sink dbuf_exec dbuf_spec dbuf_op_ok dbuf_inv dbuf_contents db_error
  by unfold_locales (use dbuf_exec_result in \<open>unfold dbuf_result_def, blast\<close>)

text \<open>
  C6. Run any sequence of appends, self-copies, overwrites and formatted prints on a well-formed
  \<^verbatim>\<open>DynBuf\<close>, under any allocator that keeps the contract of \<^verbatim>\<open>realloc\<close> and whatever
  allocations fail: no call leaves the allocated block, the buffer stays well-formed, the error flag
  is never cleared, and if it is clear at the end the contents are exactly what the specification
  of the calls says, although no return value was looked at. A print whose \<^verbatim>\<open>vsnprintf\<close> fails with a
  negative number appends nothing: it removes that many bytes, which must be there (\<open>dbuf_op_ok\<close>).
\<close>

theorem dbuf_run_refines:
  assumes "dbuf_inv s" and "ops_ok dbuf_exec dbuf_op_ok s ops"
  shows "\<exists>s'. run_ops dbuf_exec s ops = Some s' \<and> dbuf_inv s' \<and> (db_error s \<longrightarrow> db_error s') \<and>
    (\<not> db_error s' \<longrightarrow> dbuf_contents s' = foldl dbuf_spec (dbuf_contents s) ops)"
  using assms by (rule dbs.run_refines)

text \<open>An allocator that grants at most \<open>limit\<close> bytes and fills new space with \<open>0xAA\<close>.\<close>

definition limit_realloc :: "nat \<Rightarrow> nat \<Rightarrow> bytes \<Rightarrow> nat \<Rightarrow> nat \<times> bytes option" where
  "limit_realloc limit calls b n =
     (Suc calls, if n \<le> limit then Some (take n b @ replicate (n - length b) 0xAA) else None)"

lemma limit_realloc_ok: "realloc_ok (limit_realloc limit)"
  by (auto simp: realloc_ok_def limit_realloc_def split: if_splits)

theorem dbuf_run_refines_witness:
  "\<exists>s'. run_ops dbuf_exec (dbuf_init2 0 (limit_realloc 64)) [Put [1, 2, 3], Put_self 1 2, Write 0 [9]] = Some s'
     \<and> dbuf_inv s' \<and> (db_error (dbuf_init2 0 (limit_realloc 64)) \<longrightarrow> db_error s') \<and>
    (\<not> db_error s' \<longrightarrow> dbuf_contents s' = foldl dbuf_spec (dbuf_contents (dbuf_init2 0 (limit_realloc 64)))
       [Put [1, 2, 3], Put_self 1 2, Write 0 [9]])"
proof (rule dbuf_run_refines)
  show "dbuf_inv (dbuf_init2 0 (limit_realloc 64))" by (intro dbuf_inv_init2 limit_realloc_ok)
  show "ops_ok dbuf_exec dbuf_op_ok (dbuf_init2 0 (limit_realloc 64)) [Put [1, 2, 3], Put_self 1 2, Write 0 [9]]"
    by (simp add: dbuf_init2_def dbuf_put_def dbuf_put_self_def dbuf_grow_def dbuf_realloc_def
        limit_realloc_def blit_def memcpy_in_def memmove_in_def slice_def split: option.split)
qed

end
