(* ===== verification/RQSort.thy ===== *)
theory RQSort
  imports Prelude
begin

section \<open>In-place sorting (\<^verbatim>\<open>js/cutils.c\<close>)\<close>

text \<open>
  \<^verbatim>\<open>rqsort\<close>: a quicksort with three-way partition, an explicit stack of 50 segments, heap sort
  beyond depth 50 and insertion sort for segments of up to 6 elements.

  The byte array \<^verbatim>\<open>base\<close> of \<^verbatim>\<open>nmemb\<close> elements of \<^verbatim>\<open>size\<close> bytes is the list of its elements, and a
  pointer into it is an element index: every pointer the code forms is \<^verbatim>\<open>base\<close> plus a multiple of
  \<^verbatim>\<open>size\<close>. Elements are exchanged as a whole by \<open>swap_at\<close>; the exchange functions that copy an
  element by the width of its parts are not modelled. The comparison is a parameter; its \<^verbatim>\<open>opaque\<close> argument is part of
  it. Reading or exchanging an element outside the array and pushing a 51st segment give \<open>None\<close>.

  In the partition loop, \<^verbatim>\<open>pi\<close>, \<^verbatim>\<open>plt\<close> and \<^verbatim>\<open>pgt\<close> move in lockstep with the counters \<^verbatim>\<open>i\<close>, \<^verbatim>\<open>lt\<close>
  and \<^verbatim>\<open>gt\<close> (each is incremented next to its counter); the model keeps the counters, and
  \<^verbatim>\<open>pi = ptr + i\<close>, \<^verbatim>\<open>plt = ptr + lt\<close>, \<^verbatim>\<open>pgt = ptr + gt\<close>, \<^verbatim>\<open>pj = ptr + j\<close>.
\<close>

type_synonym 'a cmp_f = "'a \<Rightarrow> 'a \<Rightarrow> int"

definition cmp_at :: "'a cmp_f \<Rightarrow> 'a list \<Rightarrow> nat \<Rightarrow> nat \<Rightarrow> int option" where
  "cmp_at cmp xs i j = do { a \<leftarrow> rd xs i; b \<leftarrow> rd xs j; Some (cmp a b) }"

definition swap_el :: "'a list \<Rightarrow> nat \<Rightarrow> nat \<Rightarrow> 'a list option" where
  "swap_el xs i j = (if i < length xs \<and> j < length xs then Some (swap_at xs i j) else None)"

lemma swap_el_Some: "swap_el xs i j = Some xs' \<longleftrightarrow> i < length xs \<and> j < length xs \<and> xs' = swap_at xs i j"
  by (auto simp: swap_el_def)

lemma length_swap_el: "swap_el xs i j = Some xs' \<Longrightarrow> length xs' = length xs"
  by (auto simp: swap_el_Some)

lemma cmp_at_Some:
  "cmp_at cmp xs i j = Some c \<longleftrightarrow> i < length xs \<and> j < length xs \<and> c = cmp (xs ! i) (xs ! j)"
  by (auto simp: cmp_at_def rd_def split: bind_splits)

subsection \<open>Heap sort\<close>

text \<open>
  The sift-down loop \<^verbatim>\<open>for (r = ...; (c = r * 2 + size) < n; r = c)\<close>; \<open>heap_child\<close> is its first
  statement, which moves \<^verbatim>\<open>c\<close> to the greater child.
\<close>

definition heap_child :: "'a cmp_f \<Rightarrow> 'a list \<Rightarrow> nat \<Rightarrow> nat \<Rightarrow> nat \<Rightarrow> nat option" where
  "heap_child cmp xs basep n c =
     (if c < n - 1 then do {
        d \<leftarrow> cmp_at cmp xs (basep + c) (basep + c + 1);
        Some (if d \<le> 0 then c + 1 else c) }
      else Some c)"

lemma heap_child_bounds: "heap_child cmp xs basep n c = Some c' \<Longrightarrow> c < n \<Longrightarrow> c \<le> c' \<and> c' < n"
  by (auto simp: heap_child_def split: if_splits bind_splits)

function heap_sift :: "'a cmp_f \<Rightarrow> 'a list \<Rightarrow> nat \<Rightarrow> nat \<Rightarrow> nat \<Rightarrow> 'a list option" where
  "heap_sift cmp xs basep n r =
     (if r * 2 + 1 < n then do {
        c \<leftarrow> heap_child cmp xs basep n (r * 2 + 1);
        d \<leftarrow> cmp_at cmp xs (basep + r) (basep + c);
        if d > 0 then Some xs
        else do {
          xs' \<leftarrow> swap_el xs (basep + r) (basep + c);
          heap_sift cmp xs' basep n c } }
      else Some xs)"
  by pat_completeness auto
termination
  by (relation "measure (\<lambda>(cmp, xs, basep, n, r). n - r)") (auto dest!: heap_child_bounds)

declare heap_sift.simps [simp del]

text \<open>\<^verbatim>\<open>while (i > 0) { i -= size; sift from i below n }\<close>\<close>

fun heap_build :: "'a cmp_f \<Rightarrow> 'a list \<Rightarrow> nat \<Rightarrow> nat \<Rightarrow> nat \<Rightarrow> 'a list option" where
  "heap_build cmp xs basep n 0 = Some xs"
| "heap_build cmp xs basep n (Suc i) = do {
     xs \<leftarrow> heap_sift cmp xs basep n i;
     heap_build cmp xs basep n i }"

text \<open>\<^verbatim>\<open>for (i = n - size; i > 0; i -= size) { swap(basep, basep + i); sift from 0 below i }\<close>\<close>

fun heap_pop :: "'a cmp_f \<Rightarrow> 'a list \<Rightarrow> nat \<Rightarrow> nat \<Rightarrow> 'a list option" where
  "heap_pop cmp xs basep 0 = Some xs"
| "heap_pop cmp xs basep (Suc i) = do {
     xs \<leftarrow> swap_el xs basep (basep + Suc i);
     xs \<leftarrow> heap_sift cmp xs basep (Suc i) 0;
     heap_pop cmp xs basep i }"

definition heapsortx :: "'a cmp_f \<Rightarrow> 'a list \<Rightarrow> nat \<Rightarrow> nat \<Rightarrow> 'a list option" where
  "heapsortx cmp xs basep nmemb =
     (if nmemb > 1 then do {
        xs \<leftarrow> heap_build cmp xs basep nmemb (nmemb div 2);
        heap_pop cmp xs basep (nmemb - 1) }
      else Some xs)"

subsection \<open>Quicksort\<close>

definition med3 :: "'a cmp_f \<Rightarrow> 'a list \<Rightarrow> nat \<Rightarrow> nat \<Rightarrow> nat \<Rightarrow> nat option" where
  "med3 cmp xs a b c = do {
     ab \<leftarrow> cmp_at cmp xs a b;
     if ab < 0 then do {
       bc \<leftarrow> cmp_at cmp xs b c;
       if bc < 0 then Some b
       else do { ac \<leftarrow> cmp_at cmp xs a c; Some (if ac < 0 then c else a) } }
     else do {
       bc \<leftarrow> cmp_at cmp xs b c;
       if bc > 0 then Some b
       else do { ac \<leftarrow> cmp_at cmp xs a c; Some (if ac < 0 then a else c) } } }"

text \<open>The first inner loop of the partition: \<^verbatim>\<open>while (pi < pj && (c = cmp(ptr, pi)) >= 0)\<close>.\<close>

function part_left :: "'a cmp_f \<Rightarrow> 'a list \<Rightarrow> nat \<Rightarrow> nat \<Rightarrow> nat \<Rightarrow> nat \<Rightarrow> ('a list \<times> nat \<times> nat) option" where
  "part_left cmp xs ptr j lt i =
     (if i < j then do {
        c \<leftarrow> cmp_at cmp xs ptr (ptr + i);
        if c \<ge> 0 then
          if c = 0 then do {
            xs' \<leftarrow> swap_el xs (ptr + lt) (ptr + i);
            part_left cmp xs' ptr j (lt + 1) (i + 1) }
          else part_left cmp xs ptr j lt (i + 1)
        else Some (xs, lt, i) }
      else Some (xs, lt, i))"
  by pat_completeness auto
termination by (relation "measure (\<lambda>(cmp, xs, ptr, j, lt, i). j - i)") auto

declare part_left.simps [simp del]

text \<open>
  The second: \<^verbatim>\<open>while (pi < (pj -= size) && (c = cmp(ptr, pj)) <= 0)\<close>. \<open>j\<close> is the value of
  \<^verbatim>\<open>pj - ptr\<close> before the decrement, which is positive.
\<close>

fun part_right :: "'a cmp_f \<Rightarrow> 'a list \<Rightarrow> nat \<Rightarrow> nat \<Rightarrow> nat \<Rightarrow> nat \<Rightarrow> ('a list \<times> nat \<times> nat) option" where
  "part_right cmp xs ptr i gt 0 = None"
| "part_right cmp xs ptr i gt (Suc j) =
     (if i < j then do {
        c \<leftarrow> cmp_at cmp xs ptr (ptr + j);
        if c \<le> 0 then
          if c = 0 then do {
            xs' \<leftarrow> swap_el xs (ptr + (gt - 1)) (ptr + j);
            part_right cmp xs' ptr i (gt - 1) j }
          else part_right cmp xs ptr i gt j
        else Some (xs, gt, j) }
      else Some (xs, gt, j))"

lemma part_left_mono: "part_left cmp xs ptr j lt i = Some (xs', lt', i') \<Longrightarrow>
   i \<le> i' \<and> lt \<le> lt' \<and> lt' + i \<le> lt + i' \<and> (i \<le> j \<longrightarrow> i' \<le> j) \<and> length xs' = length xs"
proof (induction cmp xs ptr j lt i rule: part_left.induct)
  case (1 cmp xs ptr j lt i)
  show ?case
  proof (cases "i < j")
    case True
    with "1.prems" obtain c where c: "cmp_at cmp xs ptr (ptr + i) = Some c"
      by (cases "cmp_at cmp xs ptr (ptr + i)") (simp_all add: part_left.simps)
    consider "c < 0" | "c = 0" | "c > 0" by linarith
    then show ?thesis
    proof cases
      case 2
      with "1.prems" True c obtain xs1 where "swap_el xs (ptr + lt) (ptr + i) = Some xs1"
        by (cases "swap_el xs (ptr + lt) (ptr + i)") (simp_all add: part_left.simps)
      with "1.IH"(1) [of c xs1] "1.prems" True c 2 show ?thesis
        by (auto simp: part_left.simps [of cmp xs] length_swap_el)
    qed (use "1.IH"(2) [of c] "1.prems" True c in \<open>auto simp: part_left.simps [of cmp xs]\<close>)
  qed (use "1.prems" in \<open>simp add: part_left.simps\<close>)
qed

lemma part_right_mono: "part_right cmp xs ptr i gt j = Some (xs', gt', j') \<Longrightarrow>
   j' < j \<and> gt' \<le> gt \<and> (j \<le> gt \<longrightarrow> j' < gt') \<and> (i \<le> j \<longrightarrow> i \<le> j' + 1) \<and>
   (i \<le> j \<longrightarrow> j \<le> gt \<longrightarrow> i \<le> gt') \<and> length xs' = length xs"
proof (induction cmp xs ptr i gt j rule: part_right.induct)
  case (2 cmp xs ptr i gt j)
  show ?case
  proof (cases "i < j")
    case True
    with "2.prems" obtain c where c: "cmp_at cmp xs ptr (ptr + j) = Some c"
      by (cases "cmp_at cmp xs ptr (ptr + j)") simp_all
    consider "c < 0" | "c = 0" | "c > 0" by linarith
    then show ?thesis
    proof cases
      case 2
      with "2.prems" True c obtain xs1 where "swap_el xs (ptr + (gt - 1)) (ptr + j) = Some xs1"
        by (cases "swap_el xs (ptr + (gt - 1)) (ptr + j)") simp_all
      with "2.IH"(1) [of c xs1] "2.prems" True c 2 show ?thesis
        by (auto simp: length_swap_el)
    qed (use "2.IH"(2) [of c] "2.prems" True c in auto)
  qed (use "2.prems" in auto)
qed simp

text \<open>The outer \<^verbatim>\<open>for (;;)\<close> of the partition; it leaves the loop when \<^verbatim>\<open>pi >= pj\<close>.\<close>

function part_loop ::
    "'a cmp_f \<Rightarrow> 'a list \<Rightarrow> nat \<Rightarrow> nat \<Rightarrow> nat \<Rightarrow> nat \<Rightarrow> nat \<Rightarrow> ('a list \<times> nat \<times> nat \<times> nat) option" where
  "part_loop cmp xs0 ptr lt0 i0 gt0 j0 = do {
     (xs1, lt, i) \<leftarrow> part_left cmp xs0 ptr j0 lt0 i0;
     (xs2, gt, j) \<leftarrow> part_right cmp xs1 ptr i gt0 j0;
     if i \<ge> j then Some (xs2, lt, i, gt)
     else do {
       xs3 \<leftarrow> swap_el xs2 (ptr + i) (ptr + j);
       part_loop cmp xs3 ptr lt (i + 1) gt j } }"
  by pat_completeness auto
termination
  by (relation "measure (\<lambda>(cmp, xs, ptr, lt, i, gt, j). j)") (auto dest!: part_right_mono)

declare part_loop.simps [simp del]

fun swap_block :: "'a list \<Rightarrow> nat \<Rightarrow> nat \<Rightarrow> nat \<Rightarrow> 'a list option" where
  "swap_block xs a b 0 = Some xs"
| "swap_block xs a b (Suc n) = do { xs \<leftarrow> swap_el xs a b; swap_block xs (a + 1) (b + 1) n }"

text \<open>
  One pass of the \<^verbatim>\<open>while (nmemb > 6)\<close> loop up to the choice of the next segment: select the
  pivot, partition, and move the elements equal to the pivot to the middle.
\<close>

definition rq_partition :: "'a cmp_f \<Rightarrow> 'a list \<Rightarrow> nat \<Rightarrow> nat \<Rightarrow> ('a list \<times> nat \<times> nat) option" where
  "rq_partition cmp xs ptr nmemb = do {
     let m4 = nmemb div 4;
     m \<leftarrow> med3 cmp xs (ptr + m4) (ptr + 2 * m4) (ptr + 3 * m4);
     xs \<leftarrow> swap_el xs ptr m;
     (xs, lt, i, gt) \<leftarrow> part_loop cmp xs ptr 1 1 nmemb nmemb;
     let span = min lt (i - lt);
     xs \<leftarrow> swap_block xs ptr (ptr + i - span) span;
     let span = min (nmemb - gt) (gt - i);
     xs \<leftarrow> swap_block xs (ptr + i) (ptr + nmemb - span) span;
     Some (xs, i - lt, nmemb - (gt - i)) }"

text \<open>The segment stack \<^verbatim>\<open>stack[50]\<close>, newest entry first: base, count and depth of a segment.\<close>

type_synonym seg = "nat \<times> nat \<times> nat"

definition rq_push :: "seg list \<Rightarrow> seg \<Rightarrow> seg list option" where
  "rq_push stk e = (if length stk < 50 then Some (e # stk) else None)"

lemma rq_push_Some: "length stk < 50 \<Longrightarrow> rq_push stk e = Some (e # stk)"
  by (simp add: rq_push_def)

lemma part_loop_bounds:
  "part_loop cmp xs ptr lt i gt j = Some (xs', lt', i', gt') \<Longrightarrow> lt \<le> i \<Longrightarrow> i \<le> j \<Longrightarrow> j \<le> gt \<Longrightarrow>
     lt \<le> lt' \<and> lt' \<le> i' \<and> i' \<le> gt' \<and> gt' \<le> gt \<and> length xs' = length xs"
proof (induction cmp xs ptr lt i gt j rule: part_loop.induct)
  case (1 cmp xs0 ptr lt0 i0 gt0 j0)
  from "1.prems"(1) obtain xs1 lt i xs2 gt j where
    l: "part_left cmp xs0 ptr j0 lt0 i0 = Some (xs1, lt, i)" and
    r: "part_right cmp xs1 ptr i gt0 j0 = Some (xs2, gt, j)" and
    rest: "(if i \<ge> j then Some (xs2, lt, i, gt)
       else do { xs3 \<leftarrow> swap_el xs2 (ptr + i) (ptr + j); part_loop cmp xs3 ptr lt (i + 1) gt j })
       = Some (xs', lt', i', gt')"
    by (subst (asm) part_loop.simps) (auto split: bind_splits)
  note mono = part_left_mono [OF l] part_right_mono [OF r] "1.prems"(2-4)
  show ?case
  proof (cases "i \<ge> j")
    case True
    with rest mono show ?thesis by auto
  next
    case False
    with rest obtain xs3 where sw: "swap_el xs2 (ptr + i) (ptr + j) = Some xs3"
      and rec: "part_loop cmp xs3 ptr lt (i + 1) gt j = Some (xs', lt', i', gt')"
      by (auto split: bind_splits)
    from "1.IH" [OF l refl refl r refl refl _ sw rec] mono False sw show ?thesis
      by (auto simp: swap_el_def split: if_splits)
  qed
qed

lemma swap_block_length: "swap_block xs a b n = Some xs' \<Longrightarrow> length xs' = length xs"
  by (induction xs a b n rule: swap_block.induct) (auto simp: swap_el_def split: bind_splits if_splits)

lemma rq_partition_bounds:
  assumes "rq_partition cmp xs ptr n = Some (xs', lt, gt)" and "0 < n"
  shows "lt + (n - gt) < n" and "lt \<le> gt" and "gt \<le> n" and "length xs' = length xs"
proof -
  from assms(1) obtain m xs1 xs2 l i g xs3 where
    sw: "swap_el xs ptr m = Some xs1" and
    p: "part_loop cmp xs1 ptr 1 1 n n = Some (xs2, l, i, g)" and
    b1: "swap_block xs2 ptr (ptr + i - min l (i - l)) (min l (i - l)) = Some xs3" and
    b2: "swap_block xs3 (ptr + i) (ptr + n - min (n - g) (g - i)) (min (n - g) (g - i)) = Some xs'" and
    eq: "lt = i - l" "gt = n - (g - i)"
    by (auto simp: rq_partition_def Let_def split: bind_splits)
  from part_loop_bounds [OF p] assms(2) have "1 \<le> l" "l \<le> i" "i \<le> g" "g \<le> n" "length xs2 = length xs1"
    by auto
  with eq swap_block_length [OF b1] swap_block_length [OF b2] sw
  show "lt + (n - gt) < n" and "lt \<le> gt" and "gt \<le> n" and "length xs' = length xs"
    by (auto simp: swap_el_def split: if_splits)
qed

text \<open>
  The \<^verbatim>\<open>while (nmemb > 6)\<close> loop: the depth check with its heap sort, the partition, and the
  larger segment pushed while the smaller one is processed.
\<close>

function rq_inner ::
    "'a cmp_f \<Rightarrow> 'a list \<Rightarrow> seg list \<Rightarrow> nat \<Rightarrow> nat \<Rightarrow> nat \<Rightarrow> ('a list \<times> seg list \<times> nat \<times> nat) option" where
  "rq_inner cmp xs stk ptr nmemb depth =
     (if nmemb > 6 then
        if depth + 1 > 50 then do { xs' \<leftarrow> heapsortx cmp xs ptr nmemb; Some (xs', stk, ptr, 0) }
        else do {
          (xs', lt, gt) \<leftarrow> rq_partition cmp xs ptr nmemb;
          if lt > nmemb - gt then do {
            stk' \<leftarrow> rq_push stk (ptr, lt, depth + 1);
            rq_inner cmp xs' stk' (ptr + gt) (nmemb - gt) (depth + 1) }
          else do {
            stk' \<leftarrow> rq_push stk (ptr + gt, nmemb - gt, depth + 1);
            rq_inner cmp xs' stk' ptr lt (depth + 1) } }
      else Some (xs, stk, ptr, nmemb))"
  by pat_completeness auto
termination
  by (relation "measure (\<lambda>(cmp, xs, stk, ptr, nmemb, depth). nmemb)")
    (auto dest!: rq_partition_bounds(1))

declare rq_inner.simps [simp del]

text \<open>The insertion sort for small fragments.\<close>

fun ins_inner :: "'a cmp_f \<Rightarrow> 'a list \<Rightarrow> nat \<Rightarrow> nat \<Rightarrow> 'a list option" where
  "ins_inner cmp xs ptr 0 = Some xs"
| "ins_inner cmp xs ptr (Suc j) =
     (if Suc j > ptr then do {
        c \<leftarrow> cmp_at cmp xs j (Suc j);
        if c > 0 then do { xs' \<leftarrow> swap_el xs (Suc j) j; ins_inner cmp xs' ptr j }
        else Some xs }
      else Some xs)"

function ins_outer :: "'a cmp_f \<Rightarrow> 'a list \<Rightarrow> nat \<Rightarrow> nat \<Rightarrow> nat \<Rightarrow> 'a list option" where
  "ins_outer cmp xs ptr pi lim =
     (if pi < lim then do { xs' \<leftarrow> ins_inner cmp xs ptr pi; ins_outer cmp xs' ptr (pi + 1) lim }
      else Some xs)"
  by pat_completeness auto
termination by (relation "measure (\<lambda>(cmp, xs, ptr, pi, lim). lim - pi)") auto

declare ins_outer.simps [simp del]

definition weight :: "seg list \<Rightarrow> nat" where
  "weight stk = sum_list (map (\<lambda>(base, count, depth). Suc count) stk)"

lemma weight_simps [simp]: "weight [] = 0" "weight ((b, c, d) # stk) = Suc c + weight stk"
  by (simp_all add: weight_def)

lemma rq_inner_weight:
  "rq_inner cmp xs stk ptr n depth = Some (xs', stk', ptr', n') \<Longrightarrow> weight stk' + n' \<le> weight stk + n"
proof (induction cmp xs stk ptr n depth rule: rq_inner.induct)
  case (1 cmp xs stk ptr n depth)
  show ?case
  proof (cases "n > 6 \<and> depth < 50")
    case True
    with "1.prems" obtain ys lt gt where p: "rq_partition cmp xs ptr n = Some (ys, lt, gt)"
      and l: "length stk < 50"
      by (cases "rq_partition cmp xs ptr n")
        (auto simp: rq_inner.simps [of cmp xs] rq_push_def split: if_splits)
    with True "1.prems" "1.IH"(1) [OF _ _ p refl refl _ rq_push_Some [OF l]]
      "1.IH"(2) [OF _ _ p refl refl _ rq_push_Some [OF l]] rq_partition_bounds(1) [OF p]
    show ?thesis
      by (auto simp: rq_inner.simps [of cmp xs] rq_push_def split: if_splits)
  qed (use "1.prems" in \<open>auto simp: rq_inner.simps [of cmp xs] split: if_splits bind_splits\<close>)
qed

text \<open>\<^verbatim>\<open>while (sp > stack)\<close>\<close>

function rq_outer :: "'a cmp_f \<Rightarrow> 'a list \<Rightarrow> seg list \<Rightarrow> 'a list option" where
  "rq_outer cmp xs [] = Some xs"
| "rq_outer cmp xs ((ptr, nmemb, depth) # stk) = do {
     (xs1, stk1, ptr1, n1) \<leftarrow> rq_inner cmp xs stk ptr nmemb depth;
     xs2 \<leftarrow> ins_outer cmp xs1 ptr1 (ptr1 + 1) (ptr1 + n1);
     rq_outer cmp xs2 stk1 }"
  by pat_completeness auto
termination
  by (relation "measure (\<lambda>(cmp, xs, stk). weight stk)") (auto dest!: rq_inner_weight)

definition rqsort :: "'a cmp_f \<Rightarrow> 'a list \<Rightarrow> 'a list option" where
  "rqsort cmp xs = (if length xs < 2 then Some xs else rq_outer cmp xs [(0, length xs, 0)])"

end
