(* ===== verification/RQSort_Safe.thy ===== *)
theory RQSort_Safe
  imports RQSort
begin

section \<open>The sort only permutes its array and stays inside its memory\<close>

text \<open>
  For every comparison function, consistent or not, \<^verbatim>\<open>rqsort\<close> returns, reads and exchanges only
  elements of the array, never overflows its segment stack, and leaves a permutation of the array.
  \<open>perm_in a n xs xs'\<close> says that \<open>xs'\<close> is \<open>xs\<close> with the elements of the segment \<open>[a, a + n)\<close>
  permuted and everything else unchanged.
\<close>

definition perm_in :: "nat \<Rightarrow> nat \<Rightarrow> 'a list \<Rightarrow> 'a list \<Rightarrow> bool" where
  "perm_in a n xs xs' \<longleftrightarrow>
     mset xs' = mset xs \<and> take a xs' = take a xs \<and> drop (a + n) xs' = drop (a + n) xs"

lemma perm_in_refl [simp, intro]: "perm_in a n xs xs"
  by (simp add: perm_in_def)

lemma perm_in_trans [trans]: "perm_in a n xs ys \<Longrightarrow> perm_in a n ys zs \<Longrightarrow> perm_in a n xs zs"
  by (simp add: perm_in_def)

lemma perm_in_mset: "perm_in a n xs xs' \<Longrightarrow> mset xs' = mset xs"
  by (simp add: perm_in_def)

lemma perm_in_length: "perm_in a n xs xs' \<Longrightarrow> length xs' = length xs"
  by (auto simp: perm_in_def dest: mset_eq_length)

lemma perm_in_mono: "perm_in a' n' xs xs' \<Longrightarrow> a \<le> a' \<Longrightarrow> a' + n' \<le> a + n \<Longrightarrow> perm_in a n xs xs'"
  unfolding perm_in_def
  by (metis (no_types, lifting) drop_drop le_add_diff_inverse2 min.absorb1 take_take)

lemma perm_in_outside:
  assumes "perm_in a n xs xs'" and "k < a \<or> a + n \<le> k" and "k < length xs"
  shows "xs' ! k = xs ! k"
proof -
  note len = perm_in_length [OF assms(1)]
  from assms(2) show ?thesis
  proof
    assume "k < a"
    then show ?thesis using assms(1) by (metis nth_take perm_in_def)
  next
    assume k: "a + n \<le> k"
    then have "xs' ! k = drop (a + n) xs' ! (k - (a + n))" using len assms(3) by simp
    also have "\<dots> = xs ! k" using k assms by (simp add: perm_in_def)
    finally show ?thesis .
  qed
qed

lemma perm_in_segment_mset:
  assumes "perm_in a n xs xs'"
  shows "mset (take n (drop a xs')) = mset (take n (drop a xs))"
proof -
  have split: "mset ys = mset (take a ys) + mset (take n (drop a ys)) + mset (drop (a + n) ys)" for ys :: "'a list"
  proof -
    have "ys = take a ys @ take n (drop a ys) @ drop n (drop a ys)"
      by (simp only: append_take_drop_id)
    then have "mset ys = mset (take a ys @ take n (drop a ys) @ drop n (drop a ys))" by (rule arg_cong)
    then show ?thesis by (simp add: ac_simps del: append_take_drop_id)
  qed
  from assms have "mset xs' = mset xs" "take a xs' = take a xs" "drop (a + n) xs' = drop (a + n) xs"
    by (simp_all add: perm_in_def)
  with split [of xs] split [of xs'] show ?thesis
    by (metis add_left_cancel add_right_cancel)
qed

text \<open>Every element of the segment after is an element of the segment before.\<close>

lemma perm_in_inside:
  assumes "perm_in a n xs xs'" and "a \<le> k" and "k < a + n" and "a + n \<le> length xs"
  obtains k' where "a \<le> k'" and "k' < a + n" and "xs' ! k = xs ! k'"
proof -
  have "xs' ! k \<in> set (take n (drop a xs'))"
    using assms perm_in_length [OF assms(1)] by (auto simp: in_set_conv_nth intro!: exI [of _ "k - a"])
  also have "set (take n (drop a xs')) = set (take n (drop a xs))"
    using perm_in_segment_mset [OF assms(1)] by (metis set_mset_mset)
  finally obtain m where "m < n" "xs' ! k = xs ! (a + m)"
    using assms(4) by (auto simp: in_set_conv_nth)
  with that [of "a + m"] show thesis by simp
qed

lemma perm_in_swap_el:
  assumes "swap_el xs i j = Some xs'" and "a \<le> i" "i < a + n" "a \<le> j" "j < a + n"
  shows "perm_in a n xs xs'"
  using assms by (auto simp: swap_el_Some perm_in_def swap_at_def mset_swap)

subsection \<open>Heap sort\<close>

lemma heap_child_Some:
  assumes "c < n" and "b + n \<le> length xs"
  obtains c' where "heap_child cmp xs b n c = Some c'" and "c \<le> c'" and "c' < n"
proof (cases "c < n - 1")
  case True
  with assms(2) have "b + c < length xs" "b + c + 1 < length xs" by linarith+
  then obtain d where "cmp_at cmp xs (b + c) (b + c + 1) = Some d"
    by (simp add: cmp_at_Some)
  with True assms(1) that [of c] that [of "c + 1"] show thesis
    by (cases "d \<le> 0") (auto simp: heap_child_def)
qed (use assms(1) that [of c] in \<open>auto simp: heap_child_def\<close>)

lemma heap_sift_safe:
  "b + n \<le> length xs \<Longrightarrow> r < n \<Longrightarrow> \<exists>xs'. heap_sift cmp xs b n r = Some xs' \<and> perm_in b n xs xs'"
proof (induction cmp xs b n r rule: heap_sift.induct)
  case (1 cmp xs b n r)
  show ?case
  proof (cases "r * 2 + 1 < n")
    case True
    obtain c where c: "heap_child cmp xs b n (r * 2 + 1) = Some c" "c < n"
      by (rule heap_child_Some [OF True "1.prems"(1)])
    define xs1 where "xs1 = swap_at xs (b + r) (b + c)"
    have d: "cmp_at cmp xs (b + r) (b + c) = Some (cmp (xs ! (b + r)) (xs ! (b + c)))"
      and sw: "swap_el xs (b + r) (b + c) = Some xs1"
      using "1.prems" c(2) by (auto simp: cmp_at_Some swap_el_Some xs1_def)
    have p: "perm_in b n xs xs1"
      using perm_in_swap_el [OF sw] "1.prems" c(2) by simp
    show ?thesis
    proof (cases "cmp (xs ! (b + r)) (xs ! (b + c)) > 0")
      case False
      from "1.IH" [OF True c(1) d False sw] c(2) "1.prems" obtain xs' where
        "heap_sift cmp xs1 b n c = Some xs'" "perm_in b n xs1 xs'"
        by (auto simp: xs1_def)
      with True c d sw False p show ?thesis
        by (subst heap_sift.simps) (auto intro: perm_in_trans)
    qed (use True c d in \<open>auto simp: heap_sift.simps [of cmp xs]\<close>)
  qed (simp add: heap_sift.simps)
qed

lemma heap_build_safe:
  "b + n \<le> length xs \<Longrightarrow> i \<le> n \<Longrightarrow> \<exists>xs'. heap_build cmp xs b n i = Some xs' \<and> perm_in b n xs xs'"
proof (induction i arbitrary: xs)
  case (Suc i)
  from heap_sift_safe [of b n xs i cmp] Suc.prems obtain ys where
    ys: "heap_sift cmp xs b n i = Some ys" "perm_in b n xs ys" by auto
  with Suc.IH [of ys] Suc.prems perm_in_length [OF ys(2)] show ?case
    by (auto intro: perm_in_trans)
qed auto

lemma heap_pop_safe:
  "b + i < length xs \<Longrightarrow> \<exists>xs'. heap_pop cmp xs b i = Some xs' \<and> perm_in b (i + 1) xs xs'"
proof (induction i arbitrary: xs)
  case (Suc i)
  define ys where "ys = swap_at xs b (b + Suc i)"
  have sw: "swap_el xs b (b + Suc i) = Some ys"
    using Suc.prems by (simp add: swap_el_Some ys_def)
  have p: "perm_in b (Suc i + 1) xs ys"
    by (rule perm_in_swap_el [OF sw]) auto
  from heap_sift_safe [of b "Suc i" ys 0 cmp] Suc.prems obtain zs where
    zs: "heap_sift cmp ys b (Suc i) 0 = Some zs" "perm_in b (Suc i) ys zs" by (auto simp: ys_def)
  from Suc.IH [of zs] Suc.prems perm_in_length [OF zs(2)] obtain ws where
    ws: "heap_pop cmp zs b i = Some ws" "perm_in b (i + 1) zs ws" by (auto simp: ys_def)
  from zs(2) ws(2) have "perm_in b (Suc i + 1) ys zs" "perm_in b (Suc i + 1) zs ws"
    by (auto elim: perm_in_mono)
  with p have "perm_in b (Suc i + 1) xs ws" by (blast intro: perm_in_trans)
  with sw zs ws show ?case by simp
qed auto

lemma heapsortx_safe:
  assumes "b + n \<le> length xs"
  shows "\<exists>xs'. heapsortx cmp xs b n = Some xs' \<and> perm_in b n xs xs'"
proof (cases "n > 1")
  case True
  from heap_build_safe [OF assms, of "n div 2" cmp] obtain ys where
    ys: "heap_build cmp xs b n (n div 2) = Some ys" "perm_in b n xs ys" by auto
  have "b + (n - 1) < length ys" using True assms perm_in_length [OF ys(2)] by linarith
  from heap_pop_safe [OF this, of cmp] True obtain zs where
    "heap_pop cmp ys b (n - 1) = Some zs" "perm_in b n ys zs" by auto
  with True ys show ?thesis by (auto simp: heapsortx_def intro: perm_in_trans)
qed (simp add: heapsortx_def)

subsection \<open>The partition\<close>

lemma med3_safe:
  assumes "a < length xs" "b < length xs" "c < length xs"
  shows "\<exists>m. med3 cmp xs a b c = Some m \<and> m \<in> {a, b, c}"
  using assms by (auto simp: med3_def cmp_at_def rd_def)

lemma part_left_safe:
  "1 \<le> lt \<Longrightarrow> lt \<le> i \<Longrightarrow> j \<le> n \<Longrightarrow> ptr + n \<le> length xs \<Longrightarrow>
   \<exists>xs' lt' i'. part_left cmp xs ptr j lt i = Some (xs', lt', i') \<and> perm_in (ptr + 1) (n - 1) xs xs'"
proof (induction cmp xs ptr j lt i rule: part_left.induct)
  case (1 cmp xs ptr j lt i)
  show ?case
  proof (cases "i < j")
    case True
    define c where "c = cmp (xs ! ptr) (xs ! (ptr + i))"
    define xs1 where "xs1 = swap_at xs (ptr + lt) (ptr + i)"
    have c: "cmp_at cmp xs ptr (ptr + i) = Some c"
      and sw: "swap_el xs (ptr + lt) (ptr + i) = Some xs1"
      using "1.prems" True by (auto simp: cmp_at_Some swap_el_Some c_def xs1_def)
    have p: "perm_in (ptr + 1) (n - 1) xs xs1"
      by (rule perm_in_swap_el [OF sw]) (use "1.prems" True in auto)
    consider "c < 0" | "c = 0" | "c > 0" by linarith
    then show ?thesis
    proof cases
      case 2
      from "1.IH"(1) [OF True c _ 2 sw] 2 "1.prems" obtain xs' lt' i' where
        "part_left cmp xs1 ptr j (lt + 1) (i + 1) = Some (xs', lt', i')"
        "perm_in (ptr + 1) (n - 1) xs1 xs'" by (auto simp: xs1_def)
      with p True c sw 2 show ?thesis
        by (auto simp: part_left.simps [of cmp xs] intro: perm_in_trans)
    qed (use "1.IH"(2) [OF True c] "1.prems" True c in \<open>auto simp: part_left.simps [of cmp xs]\<close>)
  qed (simp add: part_left.simps)
qed

lemma part_right_safe:
  "1 \<le> i \<Longrightarrow> 1 \<le> j \<Longrightarrow> j \<le> gt \<Longrightarrow> gt \<le> n \<Longrightarrow> ptr + n \<le> length xs \<Longrightarrow>
   \<exists>xs' gt' j'. part_right cmp xs ptr i gt j = Some (xs', gt', j') \<and> perm_in (ptr + 1) (n - 1) xs xs'"
proof (induction cmp xs ptr i gt j rule: part_right.induct)
  case (2 cmp xs ptr i gt j)
  show ?case
  proof (cases "i < j")
    case True
    define c where "c = cmp (xs ! ptr) (xs ! (ptr + j))"
    define xs1 where "xs1 = swap_at xs (ptr + (gt - 1)) (ptr + j)"
    have c: "cmp_at cmp xs ptr (ptr + j) = Some c"
      and sw: "swap_el xs (ptr + (gt - 1)) (ptr + j) = Some xs1"
      using "2.prems" True by (auto simp: cmp_at_Some swap_el_Some c_def xs1_def)
    have p: "perm_in (ptr + 1) (n - 1) xs xs1"
      by (rule perm_in_swap_el [OF sw]) (use "2.prems" True in auto)
    consider "c > 0" | "c = 0" | "c < 0" by linarith
    then show ?thesis
    proof cases
      case 2
      have "j \<le> gt - 1" "gt - 1 \<le> n" using "2.prems" by auto
      with "2.IH"(1) [OF True c _ 2 sw] 2 "2.prems" True obtain xs' gt' j' where
        "part_right cmp xs1 ptr i (gt - 1) j = Some (xs', gt', j')"
        "perm_in (ptr + 1) (n - 1) xs1 xs'" by (auto simp: xs1_def)
      with p True c sw 2 show ?thesis by (auto intro: perm_in_trans)
    qed (use "2.IH"(2) [OF True c] "2.prems" True c in auto)
  qed simp
qed simp

lemma part_loop_safe:
  "1 \<le> lt \<Longrightarrow> lt \<le> i \<Longrightarrow> i \<le> j \<Longrightarrow> j \<le> gt \<Longrightarrow> gt \<le> n \<Longrightarrow> ptr + n \<le> length xs \<Longrightarrow>
   \<exists>xs' lt' i' gt'. part_loop cmp xs ptr lt i gt j = Some (xs', lt', i', gt') \<and>
     perm_in (ptr + 1) (n - 1) xs xs'"
proof (induction cmp xs ptr lt i gt j rule: part_loop.induct)
  case (1 cmp xs0 ptr lt0 i0 gt0 j0)
  from part_left_safe [of lt0 i0 j0 n ptr xs0 cmp] "1.prems" obtain xs1 lt i where
    l: "part_left cmp xs0 ptr j0 lt0 i0 = Some (xs1, lt, i)"
    and p1: "perm_in (ptr + 1) (n - 1) xs0 xs1" by auto
  note ml = part_left_mono [OF l]
  from part_right_safe [of i j0 gt0 n ptr xs1 cmp] "1.prems" ml obtain xs2 gt j where
    r: "part_right cmp xs1 ptr i gt0 j0 = Some (xs2, gt, j)"
    and p2: "perm_in (ptr + 1) (n - 1) xs1 xs2" by auto
  note mr = part_right_mono [OF r]
  show ?case
  proof (cases "i \<ge> j")
    case True
    with l r p1 p2 show ?thesis by (auto simp: part_loop.simps [of cmp xs0] intro: perm_in_trans)
  next
    case False
    define xs3 where "xs3 = swap_at xs2 (ptr + i) (ptr + j)"
    have sw: "swap_el xs2 (ptr + i) (ptr + j) = Some xs3"
      using "1.prems" ml mr False by (auto simp: swap_el_Some xs3_def)
    have p3: "perm_in (ptr + 1) (n - 1) xs2 xs3"
      by (rule perm_in_swap_el [OF sw]) (use "1.prems" ml mr False in auto)
    have len: "length xs3 = length xs0" using ml mr by (simp add: xs3_def)
    from "1.IH" [OF l refl refl r refl refl False sw] "1.prems" ml mr False len obtain ys l' i' g' where
      rec: "part_loop cmp xs3 ptr lt (i + 1) gt j = Some (ys, l', i', g')"
        "perm_in (ptr + 1) (n - 1) xs3 ys" by auto
    have "perm_in (ptr + 1) (n - 1) xs0 ys"
      using p1 p2 p3 rec(2) by (blast intro: perm_in_trans)
    with l r False sw rec(1) show ?thesis by (auto simp: part_loop.simps [of cmp xs0])
  qed
qed

lemma swap_block_safe:
  "lo \<le> a \<Longrightarrow> a + n \<le> lo + len \<Longrightarrow> lo \<le> b \<Longrightarrow> b + n \<le> lo + len \<Longrightarrow> lo + len \<le> length xs \<Longrightarrow>
   \<exists>xs'. swap_block xs a b n = Some xs' \<and> perm_in lo len xs xs'"
proof (induction xs a b n rule: swap_block.induct)
  case (2 xs a b n)
  define ys where "ys = swap_at xs a b"
  have sw: "swap_el xs a b = Some ys" using "2.prems" by (auto simp: swap_el_Some ys_def)
  have p: "perm_in lo len xs ys" by (rule perm_in_swap_el [OF sw]) (use "2.prems" in auto)
  from "2.IH" [OF sw] "2.prems" obtain zs where
    "swap_block ys (a + 1) (b + 1) n = Some zs" "perm_in lo len ys zs" by (auto simp: ys_def)
  with sw p show ?case by (auto intro: perm_in_trans)
qed auto

lemma rq_partition_safe:
  assumes "6 < n" and "ptr + n \<le> length xs"
  shows "\<exists>xs' lt gt. rq_partition cmp xs ptr n = Some (xs', lt, gt) \<and> perm_in ptr n xs xs'"
proof -
  define m4 where "m4 = n div 4"
  have m4: "3 * m4 < n" using assms(1) by (simp add: m4_def)
  from med3_safe [of "ptr + m4" xs "ptr + 2 * m4" "ptr + 3 * m4" cmp] assms m4 obtain m where
    m: "med3 cmp xs (ptr + m4) (ptr + 2 * m4) (ptr + 3 * m4) = Some m"
    and m_bounds: "ptr \<le> m" "m < ptr + n" by auto
  define xs1 where "xs1 = swap_at xs ptr m"
  have sw: "swap_el xs ptr m = Some xs1" using assms m_bounds by (simp add: swap_el_Some xs1_def)
  have p1: "perm_in ptr n xs xs1" by (rule perm_in_swap_el [OF sw]) (use assms m_bounds in auto)
  from part_loop_safe [of 1 1 n n n ptr xs1 cmp] assms obtain xs2 l i g where
    pl: "part_loop cmp xs1 ptr 1 1 n n = Some (xs2, l, i, g)"
    and p2': "perm_in (ptr + 1) (n - 1) xs1 xs2" by (auto simp: xs1_def)
  have p2: "perm_in ptr n xs1 xs2" by (rule perm_in_mono [OF p2']) (use assms in auto)
  from part_loop_bounds [OF pl] assms have b: "1 \<le> l" "l \<le> i" "i \<le> g" "g \<le> n" "length xs2 = length xs"
    by (auto simp: xs1_def)
  have "ptr \<le> ptr + i - min l (i - l)" "ptr + i - min l (i - l) + min l (i - l) \<le> ptr + n"
    using b by linarith+
  with swap_block_safe [of ptr ptr "min l (i - l)" n "ptr + i - min l (i - l)" xs2] b assms obtain xs3 where
    b1: "swap_block xs2 ptr (ptr + i - min l (i - l)) (min l (i - l)) = Some xs3"
    and p3: "perm_in ptr n xs2 xs3" by auto
  have "i + min (n - g) (g - i) \<le> n" "ptr \<le> ptr + n - min (n - g) (g - i)"
    using b by linarith+
  with swap_block_safe [of ptr "ptr + i" "min (n - g) (g - i)" n "ptr + n - min (n - g) (g - i)" xs3]
    b assms perm_in_length [OF p3] obtain xs4 where
    b2: "swap_block xs3 (ptr + i) (ptr + n - min (n - g) (g - i)) (min (n - g) (g - i)) = Some xs4"
    and p4: "perm_in ptr n xs3 xs4" by auto
  have "perm_in ptr n xs xs4" using p1 p2 p3 p4 by (blast intro: perm_in_trans)
  with m sw pl b1 b2 show ?thesis by (simp add: rq_partition_def Let_def m4_def)
qed

subsection \<open>The segment stack\<close>

text \<open>
  The depth of an entry is at least the number of entries below it, and no entry has depth above
  50: the fifty slots of \<^verbatim>\<open>stack\<close> are enough. Every entry lies inside the array.
\<close>

fun stk_ok :: "nat \<Rightarrow> seg list \<Rightarrow> bool" where
  "stk_ok len [] \<longleftrightarrow> True"
| "stk_ok len ((b, n, d) # stk) \<longleftrightarrow> b + n \<le> len \<and> d \<le> 50 \<and> length stk \<le> d \<and> stk_ok len stk"

lemma rq_inner_safe:
  "ptr + n \<le> length xs \<Longrightarrow> length stk \<le> depth \<Longrightarrow> depth \<le> 50 \<Longrightarrow> stk_ok (length xs) stk \<Longrightarrow>
   \<exists>xs' stk' ptr' n'. rq_inner cmp xs stk ptr n depth = Some (xs', stk', ptr', n') \<and>
     mset xs' = mset xs \<and> stk_ok (length xs) stk' \<and> ptr' + n' \<le> length xs"
proof (induction cmp xs stk ptr n depth rule: rq_inner.induct)
  case (1 cmp xs stk ptr n depth)
  consider "n \<le> 6" | "n > 6" "depth \<ge> 50" | "n > 6" "depth < 50" by linarith
  then show ?case
  proof cases
    case 2
    with heapsortx_safe [OF "1.prems"(1), of cmp] "1.prems" show ?thesis
      by (auto simp: rq_inner.simps [of cmp xs] dest: perm_in_mset)
  next
    case 3
    obtain ys lt gt where p: "rq_partition cmp xs ptr n = Some (ys, lt, gt)"
      and pm: "perm_in ptr n xs ys"
      using rq_partition_safe [OF 3(1) "1.prems"(1), of cmp] by auto
    have l: "length stk < 50" using 3 "1.prems" by simp
    note b = rq_partition_bounds [OF p] perm_in_mset [OF pm] perm_in_length [OF pm]
    show ?thesis
      using 3 p l b "1.prems" "1.IH"(1) [OF _ _ p refl refl _ rq_push_Some [OF l]]
        "1.IH"(2) [OF _ _ p refl refl _ rq_push_Some [OF l]]
      by (cases "lt > n - gt") (simp_all add: rq_inner.simps [of cmp xs] rq_push_Some)
  qed (use "1.prems" in \<open>simp add: rq_inner.simps\<close>)
qed

lemma ins_inner_safe:
  "ptr \<le> pj \<Longrightarrow> pj < ptr + n \<Longrightarrow> ptr + n \<le> length xs \<Longrightarrow>
   \<exists>xs'. ins_inner cmp xs ptr pj = Some xs' \<and> perm_in ptr n xs xs'"
proof (induction cmp xs ptr pj rule: ins_inner.induct)
  case (2 cmp xs ptr j)
  define ys where "ys = swap_at xs (Suc j) j"
  have sw: "swap_el xs (Suc j) j = Some ys" and c: "cmp_at cmp xs j (Suc j) = Some (cmp (xs ! j) (xs ! Suc j))"
    using "2.prems" by (auto simp: swap_el_Some ys_def cmp_at_Some)
  show ?case
  proof (cases "Suc j > ptr \<and> cmp (xs ! j) (xs ! Suc j) > 0")
    case True
    have p: "perm_in ptr n xs ys" by (rule perm_in_swap_el [OF sw]) (use True "2.prems" in auto)
    from "2.IH" [OF _ c _ sw] True "2.prems" obtain zs where
      "ins_inner cmp ys ptr j = Some zs" "perm_in ptr n ys zs" by (auto simp: ys_def)
    with True c sw p show ?thesis by (auto intro: perm_in_trans)
  qed (use c in auto)
qed auto

lemma ins_outer_safe:
  "ptr \<le> pi \<Longrightarrow> lim \<le> ptr + n \<Longrightarrow> ptr + n \<le> length xs \<Longrightarrow>
   \<exists>xs'. ins_outer cmp xs ptr pi lim = Some xs' \<and> perm_in ptr n xs xs'"
proof (induction cmp xs ptr pi lim rule: ins_outer.induct)
  case (1 cmp xs ptr pi lim)
  show ?case
  proof (cases "pi < lim")
    case True
    with ins_inner_safe [of ptr pi n xs cmp] "1.prems" obtain ys where
      ys: "ins_inner cmp xs ptr pi = Some ys" "perm_in ptr n xs ys" by auto
    with "1.IH" [OF True ys(1)] "1.prems" perm_in_length [OF ys(2)] True show ?thesis
      by (auto simp: ins_outer.simps [of cmp xs] intro: perm_in_trans)
  qed (simp add: ins_outer.simps)
qed

lemma rq_outer_safe:
  "stk_ok (length xs) stk \<Longrightarrow> \<exists>ys. rq_outer cmp xs stk = Some ys \<and> mset ys = mset xs"
proof (induction cmp xs stk rule: rq_outer.induct)
  case (2 cmp xs ptr n depth stk)
  from rq_inner_safe [of ptr n xs stk depth cmp] "2.prems" obtain xs1 stk1 ptr1 n1 where
    i: "rq_inner cmp xs stk ptr n depth = Some (xs1, stk1, ptr1, n1)" "mset xs1 = mset xs"
      "stk_ok (length xs) stk1" "ptr1 + n1 \<le> length xs" by auto
  from i(2) have len: "length xs1 = length xs" by (rule mset_eq_length)
  from ins_outer_safe [of ptr1 "ptr1 + 1" "ptr1 + n1" n1 xs1 cmp] i(4) len obtain xs2 where
    o: "ins_outer cmp xs1 ptr1 (ptr1 + 1) (ptr1 + n1) = Some xs2" "perm_in ptr1 n1 xs1 xs2" by auto
  from "2.IH" [OF i(1) refl refl refl o(1)] i len perm_in_length [OF o(2)] perm_in_mset [OF o(2)] o(1)
  show ?case by auto
qed simp

text \<open>
  C8. \<^verbatim>\<open>rqsort\<close> is total and safe for every comparison function, also one that is not an order:
  it returns, never reads or exchanges an element outside the array, never writes beyond the fifty
  entries of its segment stack, and leaves a permutation of the array.
\<close>

theorem rqsort_safe: "\<exists>ys. rqsort cmp xs = Some ys \<and> mset ys = mset xs"
  using rq_outer_safe [of xs "[(0, length xs, 0)]" cmp] by (simp add: rqsort_def)

end
