(* ===== verification/RQSort_Sorted.thy ===== *)
theory RQSort_Sorted
  imports RQSort_Safe
begin

section \<open>The sort sorts\<close>

text \<open>
  What \<^verbatim>\<open>rqsort\<close> relies on: \<^verbatim>\<open>cmp\<close> is consistent, that is, its sign is that of a total preorder.
  The lemmas of this theory are proved in the locale \<open>comparator\<close>; the components that sort
  (\<^verbatim>\<open>cr_sort_and_remove_overlap\<close> in \<^verbatim>\<open>js/libunicode.c\<close>) interpret it on their comparison
  functions.
\<close>

locale comparator =
  fixes cmp :: "'a \<Rightarrow> 'a \<Rightarrow> int"
  assumes cmp_sym: "cmp a b > 0 \<longleftrightarrow> cmp b a < 0"
    and cmp_trans: "cmp a b \<le> 0 \<Longrightarrow> cmp b c \<le> 0 \<Longrightarrow> cmp a c \<le> 0"
begin

lemma cmp_total: "cmp a b \<le> 0 \<or> cmp b a \<le> 0"
  using cmp_sym [of a b] by linarith

lemma cmp_refl: "cmp a a = 0"
  using cmp_sym [of a a] by linarith

lemma cmp_swap: "\<not> cmp a b \<le> 0 \<Longrightarrow> cmp b a \<le> 0"
  using cmp_total by blast

lemma cmp_sym0: "cmp a b = 0 \<longleftrightarrow> cmp b a = 0"
  using cmp_sym [of a b] cmp_sym [of b a] by linarith

end

text \<open>The segment \<open>[a, a + n)\<close> of \<open>xs\<close> is ordered.\<close>

definition seg_sorted :: "'a cmp_f \<Rightarrow> 'a list \<Rightarrow> nat \<Rightarrow> nat \<Rightarrow> bool" where
  "seg_sorted cmp xs a n \<longleftrightarrow> (\<forall>i j. a \<le> i \<longrightarrow> i < j \<longrightarrow> j < a + n \<longrightarrow> cmp (xs ! i) (xs ! j) \<le> 0)"

text \<open>
  \<open>heap_from\<close>: every parent at or after \<open>lo\<close> is at least its children below \<open>n\<close>.
  \<open>heap_but\<close>: the same except at \<open>r\<close>, whose children are at most \<open>r\<close>'s parent.
\<close>

definition heap_from :: "'a cmp_f \<Rightarrow> 'a list \<Rightarrow> nat \<Rightarrow> nat \<Rightarrow> nat \<Rightarrow> bool" where
  "heap_from cmp xs b n lo \<longleftrightarrow>
     (\<forall>k c. lo \<le> k \<longrightarrow> c \<in> {2 * k + 1, 2 * k + 2} \<longrightarrow> c < n \<longrightarrow> cmp (xs ! (b + c)) (xs ! (b + k)) \<le> 0)"

definition heap_but :: "'a cmp_f \<Rightarrow> 'a list \<Rightarrow> nat \<Rightarrow> nat \<Rightarrow> nat \<Rightarrow> nat \<Rightarrow> bool" where
  "heap_but cmp xs b n lo r \<longleftrightarrow>
     (\<forall>k c. lo \<le> k \<longrightarrow> k \<noteq> r \<longrightarrow> c \<in> {2 * k + 1, 2 * k + 2} \<longrightarrow> c < n \<longrightarrow>
        cmp (xs ! (b + c)) (xs ! (b + k)) \<le> 0) \<and>
     (\<forall>q c. lo \<le> q \<longrightarrow> r \<in> {2 * q + 1, 2 * q + 2} \<longrightarrow> c \<in> {2 * r + 1, 2 * r + 2} \<longrightarrow> c < n \<longrightarrow>
        cmp (xs ! (b + c)) (xs ! (b + q)) \<le> 0)"

context comparator
begin

lemma heap_child_max:
  assumes "heap_child cmp xs b n (r * 2 + 1) = Some c" and "r * 2 + 1 < n"
  shows "c \<in> {2 * r + 1, 2 * r + 2}" and "c < n"
    and "\<And>d. d \<in> {2 * r + 1, 2 * r + 2} \<Longrightarrow> d < n \<Longrightarrow> cmp (xs ! (b + d)) (xs ! (b + c)) \<le> 0"
proof -
  show "c \<in> {2 * r + 1, 2 * r + 2}" "c < n"
    using assms by (auto simp: heap_child_def split: if_splits bind_splits)
  fix d assume "d \<in> {2 * r + 1, 2 * r + 2}" "d < n"
  then show "cmp (xs ! (b + d)) (xs ! (b + c)) \<le> 0"
    using assms cmp_refl cmp_swap [of "xs ! (b + (r * 2 + 1))" "xs ! (b + (r * 2 + 2))"]
    by (auto simp: heap_child_def cmp_at_Some mult.commute split: if_splits bind_splits)
qed

lemma heap_but_step:
  assumes h: "heap_but cmp xs b n lo r" and r: "lo \<le> r"
    and c: "c \<in> {2 * r + 1, 2 * r + 2}" "c < n" and len: "b + n \<le> length xs"
    and mx: "\<And>d. d \<in> {2 * r + 1, 2 * r + 2} \<Longrightarrow> d < n \<Longrightarrow> cmp (xs ! (b + d)) (xs ! (b + c)) \<le> 0"
    and le: "cmp (xs ! (b + r)) (xs ! (b + c)) \<le> 0"
  shows "heap_but cmp (swap_at xs (b + r) (b + c)) b n lo c"
proof -
  let ?y = "swap_at xs (b + r) (b + c)"
  have rc: "r < c" "r < n" using c by auto
  have y: "?y ! (b + k) = (if k = r then xs ! (b + c) else if k = c then xs ! (b + r) else xs ! (b + k))"
    if "k < n" for k using that c rc len by (simp add: nth_swap_at)
  have 1: "cmp (?y ! (b + d)) (?y ! (b + k)) \<le> 0"
    if k: "lo \<le> k" "k \<noteq> c" "d \<in> {2 * k + 1, 2 * k + 2}" "d < n" for k d
  proof (cases "k = r")
    case True
    then show ?thesis using k mx le c rc by (auto simp: y)
  next
    case False
    have kn: "k < n" using k by auto
    show ?thesis
    proof (cases "d = r")
      case True
      then have "cmp (xs ! (b + c)) (xs ! (b + k)) \<le> 0"
        using h k c unfolding heap_but_def by blast
      with True k False kn show ?thesis by (simp add: y)
    next
      case d: False
      have "d \<noteq> c" using k False c by auto
      with d False k kn h show ?thesis unfolding heap_but_def by (auto simp: y)
    qed
  qed
  have 2: "cmp (?y ! (b + d)) (?y ! (b + q)) \<le> 0"
    if q: "lo \<le> q" "c \<in> {2 * q + 1, 2 * q + 2}" "d \<in> {2 * c + 1, 2 * c + 2}" "d < n" for q d
  proof -
    have "q = r" using q(2) c by auto
    moreover have "lo \<le> c" "c \<noteq> r" using r rc by auto
    then have "cmp (xs ! (b + d)) (xs ! (b + c)) \<le> 0"
      using h q(3,4) unfolding heap_but_def by blast
    ultimately show ?thesis using q rc by (auto simp: y)
  qed
  from 1 2 show ?thesis unfolding heap_but_def by blast
qed

lemma heap_sift_heap:
  "heap_sift cmp xs b n r = Some ys \<Longrightarrow> heap_but cmp xs b n lo r \<Longrightarrow> lo \<le> r \<Longrightarrow> b + n \<le> length xs \<Longrightarrow>
     heap_from cmp ys b n lo"
proof (induction "n - r" arbitrary: xs r rule: less_induct)
  case less
  show ?case
  proof (cases "r * 2 + 1 < n")
    case True
    with less.prems obtain c where c: "heap_child cmp xs b n (r * 2 + 1) = Some c"
      by (cases "heap_child cmp xs b n (r * 2 + 1)") (simp_all add: heap_sift.simps [of cmp xs])
    note mx = heap_child_max [OF c True]
    have d: "cmp_at cmp xs (b + r) (b + c) = Some (cmp (xs ! (b + r)) (xs ! (b + c)))"
      using less.prems(4) mx(2) True by (auto simp: cmp_at_Some)
    have sw: "swap_el xs (b + r) (b + c) = Some (swap_at xs (b + r) (b + c))"
      using less.prems(4) mx(2) True by (auto simp: swap_el_Some)
    show ?thesis
    proof (cases "cmp (xs ! (b + r)) (xs ! (b + c)) > 0")
      case gt: True
      then have le: "cmp (xs ! (b + c)) (xs ! (b + r)) \<le> 0" using cmp_swap by force
      have "ys = xs" using less.prems(1) True c d gt by (simp add: heap_sift.simps [of cmp xs])
      moreover have "heap_from cmp xs b n lo"
        using less.prems(2) mx(3) cmp_trans [OF _ le] unfolding heap_but_def heap_from_def by blast
      ultimately show ?thesis by simp
    next
      case False
      have "heap_sift cmp (swap_at xs (b + r) (b + c)) b n c = Some ys"
        using less.prems(1) True c d sw False by (simp add: heap_sift.simps [of cmp xs])
      moreover have "heap_but cmp (swap_at xs (b + r) (b + c)) b n lo c"
        using heap_but_step [OF less.prems(2,3) mx(1,2) less.prems(4) mx(3)] False by simp
      moreover have "n - c < n - r" "lo \<le> c" using mx(1,2) less.prems(3) by auto
      ultimately show ?thesis using less.hyps less.prems(4) by simp
    qed
  next
    case False
    with less.prems show ?thesis
      by (auto simp: heap_sift.simps heap_but_def heap_from_def)
  qed
qed

lemma heap_build_heap:
  "heap_build cmp xs b n i = Some ys \<Longrightarrow> heap_from cmp xs b n i \<Longrightarrow> i \<le> n \<Longrightarrow> b + n \<le> length xs \<Longrightarrow>
     heap_from cmp ys b n 0"
proof (induction i arbitrary: xs)
  case (Suc i)
  from heap_sift_safe [of b n xs i cmp] Suc.prems obtain zs where
    zs: "heap_sift cmp xs b n i = Some zs" "perm_in b n xs zs" by auto
  have "heap_but cmp xs b n i i"
    using Suc.prems(2) by (auto simp: heap_but_def heap_from_def)
  from heap_sift_heap [OF zs(1) this] have "heap_from cmp zs b n i"
    using Suc.prems by simp
  then show ?case using Suc zs perm_in_length [OF zs(2)] by simp
qed simp

lemma heap_root_max:
  assumes "heap_from cmp xs b n 0"
  shows "k < n \<Longrightarrow> cmp (xs ! (b + k)) (xs ! b) \<le> 0"
proof (induction k rule: less_induct)
  case (less k)
  show ?case
  proof (cases "k = 0")
    case False
    define p where "p = (k - 1) div 2"
    have p: "p < k" "k \<in> {2 * p + 1, 2 * p + 2}" using False by (auto simp: p_def)
    then have "cmp (xs ! (b + k)) (xs ! (b + p)) \<le> 0"
      using assms less.prems unfolding heap_from_def by blast
    with less.IH [OF p(1)] p(1) less.prems show ?thesis by (auto intro: cmp_trans)
  qed (simp add: cmp_refl)
qed

lemma heap_pop_sorted:
  "heap_pop cmp xs b i = Some ys \<Longrightarrow> heap_from cmp xs b (Suc i) 0 \<Longrightarrow> i < n \<Longrightarrow> b + n \<le> length xs \<Longrightarrow>
   (\<And>k l. k < l \<Longrightarrow> i < l \<Longrightarrow> l < n \<Longrightarrow> cmp (xs ! (b + k)) (xs ! (b + l)) \<le> 0) \<Longrightarrow> seg_sorted cmp ys b n"
proof (induction i arbitrary: xs)
  case 0
  have "cmp (xs ! k) (xs ! l) \<le> 0" if "b \<le> k" "k < l" "l < b + n" for k l
    using "0.prems"(5) [of "k - b" "l - b"] that by auto
  with "0.prems"(1) show ?case by (auto simp: seg_sorted_def)
next
  case (Suc i)
  note inv = Suc.prems(5)
  define zs where "zs = swap_at xs b (b + Suc i)"
  have sw: "swap_el xs b (b + Suc i) = Some zs"
    using Suc.prems by (auto simp: swap_el_Some zs_def)
  have z: "zs ! (b + k) = (if k = 0 then xs ! (b + Suc i) else if k = Suc i then xs ! b else xs ! (b + k))"
    if "k < n" for k using that Suc.prems by (simp add: nth_swap_at zs_def)
  from heap_sift_safe [of b "Suc i" zs 0 cmp] Suc.prems obtain ws where
    ws: "heap_sift cmp zs b (Suc i) 0 = Some ws" "perm_in b (Suc i) zs ws" by (auto simp: zs_def)
  have len: "length zs = length xs" "length ws = length xs"
    using perm_in_length [OF ws(2)] by (simp_all add: zs_def)
  have "heap_but cmp zs b (Suc i) 0 0"
    using Suc.prems(2,3) by (auto simp: heap_but_def heap_from_def z)
  from heap_sift_heap [OF ws(1) this] have h: "heap_from cmp ws b (Suc i) 0"
    using Suc.prems len by simp
  have above: "cmp (xs ! (b + k)) (zs ! (b + l)) \<le> 0" if "k \<le> Suc i" "i < l" "l < n" for k l
    using that inv [of k l] heap_root_max [OF Suc.prems(2), of k] z [of l]
    by (cases "l = Suc i") (auto simp del: add_Suc_right)
  have "cmp (ws ! (b + k)) (ws ! (b + l)) \<le> 0" if kl: "k < l" "i < l" "l < n" for k l
  proof -
    have wl: "ws ! (b + l) = zs ! (b + l)"
      using perm_in_outside [OF ws(2), of "b + l"] kl Suc.prems(4) len by simp
    show ?thesis
    proof (cases "k < Suc i")
      case True
      with perm_in_inside [OF ws(2), of "b + k"] Suc.prems(3,4) len obtain k' where
        "b \<le> k'" "k' < b + Suc i" "ws ! (b + k) = zs ! k'" by auto
      then obtain k0 where "k0 < Suc i" "ws ! (b + k) = zs ! (b + k0)"
        by (metis add_less_cancel_left le_Suc_ex)
      with above [OF _ kl(2,3), of k0] above [OF _ kl(2,3), of "Suc i"] wl kl z [of k0] show ?thesis
        by (cases "k0 = 0") (auto simp del: add_Suc_right)
    next
      case False
      then have "ws ! (b + k) = zs ! (b + k)"
        using perm_in_outside [OF ws(2), of "b + k"] kl Suc.prems(4) len by simp
      with wl False kl inv [of k l] inv [of 0 l] show ?thesis by (auto simp: z)
    qed
  qed
  with Suc.IH [of ws] Suc.prems sw ws h len show ?case by simp
qed

lemma heapsortx_sorted:
  assumes "heapsortx cmp xs b n = Some ys" and "b + n \<le> length xs"
  shows "seg_sorted cmp ys b n"
proof (cases "n > 1")
  case True
  from heap_build_safe [OF assms(2), of "n div 2" cmp] obtain zs where
    zs: "heap_build cmp xs b n (n div 2) = Some zs" "perm_in b n xs zs" by auto
  have "heap_from cmp xs b n (n div 2)" by (auto simp: heap_from_def)
  from heap_build_heap [OF zs(1) this _ assms(2)] have "heap_from cmp zs b n 0" by simp
  with heap_pop_sorted [of zs b "n - 1" ys n] True assms zs perm_in_length [OF zs(2)] show ?thesis
    by (simp add: heapsortx_def)
qed (auto simp: seg_sorted_def)

subsection \<open>Insertion sort\<close>

lemma ins_inner_sorted:
  "ins_inner cmp xs ptr (ptr + m) = Some ys \<Longrightarrow> ptr + k < length xs \<Longrightarrow> m \<le> k \<Longrightarrow>
   (\<And>i j. ptr \<le> i \<Longrightarrow> i < j \<Longrightarrow> j \<le> ptr + k \<Longrightarrow> j \<noteq> ptr + m \<Longrightarrow> cmp (xs ! i) (xs ! j) \<le> 0) \<Longrightarrow>
   seg_sorted cmp ys ptr (Suc k)"
proof (induction m arbitrary: xs)
  case 0
  have "ys = xs" using "0.prems"(1) by (cases ptr) auto
  with "0.prems"(4) show ?case by (auto simp: seg_sorted_def)
next
  case (Suc m)
  note inv = Suc.prems(4)
  have c: "cmp_at cmp xs (ptr + m) (Suc (ptr + m)) = Some (cmp (xs ! (ptr + m)) (xs ! Suc (ptr + m)))"
    using Suc.prems by (simp add: cmp_at_Some)
  show ?case
  proof (cases "cmp (xs ! (ptr + m)) (xs ! Suc (ptr + m)) > 0")
    case True
    define zs where "zs = swap_at xs (Suc (ptr + m)) (ptr + m)"
    have z: "zs ! i = (if i = Suc (ptr + m) then xs ! (ptr + m) else if i = ptr + m then xs ! Suc (ptr + m) else xs ! i)"
      if "i \<le> ptr + k" for i using that Suc.prems by (simp add: nth_swap_at zs_def)
    have rec: "ins_inner cmp zs ptr (ptr + m) = Some ys"
      using Suc.prems True c by (simp add: swap_el_Some zs_def swap_el_def)
    have le: "cmp (xs ! Suc (ptr + m)) (xs ! (ptr + m)) \<le> 0" using True cmp_swap by force
    have "cmp (zs ! i) (zs ! j) \<le> 0" if "ptr \<le> i" "i < j" "j \<le> ptr + k" "j \<noteq> ptr + m" for i j
      using that inv [of i j] inv [of "ptr + m" j] inv [of "Suc (ptr + m)" j] inv [of i "ptr + m"] le
      by (auto simp: z)
    with Suc.IH [OF rec] Suc.prems show ?thesis by (simp add: zs_def)
  next
    case False
    then have "ys = xs" using Suc.prems c by simp
    moreover have "cmp (xs ! i) (xs ! j) \<le> 0" if "ptr \<le> i" "i < j" "j \<le> ptr + k" for i j
    proof (cases "j = Suc (ptr + m)")
      case True
      with False that inv [of i "ptr + m"] cmp_trans [of "xs ! i" "xs ! (ptr + m)" "xs ! j"] show ?thesis
        by (cases "i = ptr + m") auto
    qed (use that inv [of i j] in auto)
    ultimately show ?thesis by (auto simp: seg_sorted_def)
  qed
qed

lemma ins_outer_sorted:
  "ins_outer cmp xs ptr (ptr + m) (ptr + n) = Some ys \<Longrightarrow> ptr + n \<le> length xs \<Longrightarrow> seg_sorted cmp xs ptr m \<Longrightarrow>
   seg_sorted cmp ys ptr n"
proof (induction "n - m" arbitrary: xs m)
  case 0
  then have "ys = xs" by (simp add: ins_outer.simps)
  with 0 show ?case by (auto simp: seg_sorted_def)
next
  case (Suc d)
  then have mn: "m < n" by simp
  from ins_inner_safe [of ptr "ptr + m" n xs cmp] Suc.prems mn obtain zs where
    zs: "ins_inner cmp xs ptr (ptr + m) = Some zs" "perm_in ptr n xs zs" by auto
  have "seg_sorted cmp zs ptr (Suc m)"
    by (rule ins_inner_sorted [OF zs(1), of m]) (use Suc.prems mn in \<open>auto simp: seg_sorted_def\<close>)
  moreover have "ins_outer cmp zs ptr (ptr + Suc m) (ptr + n) = Some ys"
    using Suc.prems(1) zs mn by (simp add: ins_outer.simps [of cmp xs])
  ultimately show ?case
    using Suc.hyps(1) [of "Suc m" zs] Suc.hyps(2) Suc.prems(2) perm_in_length [OF zs(2)] by simp
qed

end

subsection \<open>The partition\<close>

text \<open>
  Between the inner loops, with \<open>p\<close> the pivot at \<^verbatim>\<open>ptr\<close>: \<open>[0, lt)\<close> and \<open>[gt, n)\<close> equal the pivot,
  \<open>[lt, i)\<close> is smaller and \<open>[j, gt)\<close> greater.
\<close>

definition part_inv :: "'a cmp_f \<Rightarrow> 'a list \<Rightarrow> nat \<Rightarrow> nat \<Rightarrow> nat \<Rightarrow> nat \<Rightarrow> nat \<Rightarrow> nat \<Rightarrow> bool" where
  "part_inv cmp xs ptr n lt i j gt \<longleftrightarrow>
     1 \<le> lt \<and> lt \<le> i \<and> i \<le> j \<and> j \<le> gt \<and> gt \<le> n \<and> ptr + n \<le> length xs \<and>
     (\<forall>k<n. let c = cmp (xs ! ptr) (xs ! (ptr + k)) in
        (k < lt \<longrightarrow> c = 0) \<and> (lt \<le> k \<and> k < i \<longrightarrow> c > 0) \<and>
        (j \<le> k \<and> k < gt \<longrightarrow> c < 0) \<and> (gt \<le> k \<longrightarrow> c = 0))"

lemma part_invD:
  assumes "part_inv cmp xs ptr n lt i j gt"
  shows "1 \<le> lt" "lt \<le> i" "i \<le> j" "j \<le> gt" "gt \<le> n" "ptr + n \<le> length xs"
    and "\<And>k. k < lt \<Longrightarrow> cmp (xs ! ptr) (xs ! (ptr + k)) = 0"
    and "\<And>k. lt \<le> k \<Longrightarrow> k < i \<Longrightarrow> cmp (xs ! ptr) (xs ! (ptr + k)) > 0"
    and "\<And>k. j \<le> k \<Longrightarrow> k < gt \<Longrightarrow> cmp (xs ! ptr) (xs ! (ptr + k)) < 0"
    and "\<And>k. gt \<le> k \<Longrightarrow> k < n \<Longrightarrow> cmp (xs ! ptr) (xs ! (ptr + k)) = 0"
  using assms unfolding part_inv_def Let_def by auto

lemma part_invI:
  assumes "1 \<le> lt" "lt \<le> i" "i \<le> j" "j \<le> gt" "gt \<le> n" "ptr + n \<le> length xs"
    and "\<And>k. k < lt \<Longrightarrow> k < n \<Longrightarrow> cmp (xs ! ptr) (xs ! (ptr + k)) = 0"
    and "\<And>k. lt \<le> k \<Longrightarrow> k < i \<Longrightarrow> k < n \<Longrightarrow> cmp (xs ! ptr) (xs ! (ptr + k)) > 0"
    and "\<And>k. j \<le> k \<Longrightarrow> k < gt \<Longrightarrow> k < n \<Longrightarrow> cmp (xs ! ptr) (xs ! (ptr + k)) < 0"
    and "\<And>k. gt \<le> k \<Longrightarrow> k < n \<Longrightarrow> cmp (xs ! ptr) (xs ! (ptr + k)) = 0"
  shows "part_inv cmp xs ptr n lt i j gt"
  using assms unfolding part_inv_def Let_def by blast

lemma swap_rel:
  assumes "1 \<le> a" "a < n" "1 \<le> b" "b < n" "ptr + n \<le> length xs"
  shows "swap_at xs (ptr + a) (ptr + b) ! ptr = xs ! ptr"
    and "k < n \<Longrightarrow> swap_at xs (ptr + a) (ptr + b) ! (ptr + k) =
           (if k = a then xs ! (ptr + b) else if k = b then xs ! (ptr + a) else xs ! (ptr + k))"
  using assms by (auto simp: nth_swap_at)

lemma part_left_inv:
  "part_left cmp xs ptr j lt i = Some (xs', lt', i') \<Longrightarrow> part_inv cmp xs ptr n lt i j gt \<Longrightarrow>
   part_inv cmp xs' ptr n lt' i' j gt \<and> (i' < j \<longrightarrow> cmp (xs' ! ptr) (xs' ! (ptr + i')) < 0)"
proof (induction cmp xs ptr j lt i rule: part_left.induct)
  case (1 cmp xs ptr j lt i)
  note inv = part_invD [OF "1.prems"(2)]
  show ?case
  proof (cases "i < j")
    case True
    define c where "c = cmp (xs ! ptr) (xs ! (ptr + i))"
    define xs1 where "xs1 = swap_at xs (ptr + lt) (ptr + i)"
    have c: "cmp_at cmp xs ptr (ptr + i) = Some c"
      and sw: "swap_el xs (ptr + lt) (ptr + i) = Some xs1"
      using inv True by (auto simp: cmp_at_Some swap_el_Some c_def xs1_def)
    have len: "length xs1 = length xs" by (simp add: xs1_def)
    consider "c < 0" | "c = 0" | "c > 0" by linarith
    then show ?thesis
    proof cases
      case 1
      with "1.prems" True c show ?thesis by (simp add: part_left.simps [of cmp xs] c_def)
    next
      case 2
      have r: "xs1 ! ptr = xs ! ptr" "k < n \<Longrightarrow> xs1 ! (ptr + k) =
           (if k = lt then xs ! (ptr + i) else if k = i then xs ! (ptr + lt) else xs ! (ptr + k))" for k
        using swap_rel(1) [of lt n i ptr xs] swap_rel(2) [of lt n i ptr xs k] inv True by (simp_all add: xs1_def)
      have "part_inv cmp xs1 ptr n (lt + 1) (i + 1) j gt"
        unfolding part_inv_def Let_def
        using inv True 2 by (auto simp: r len c_def less_Suc_eq)
      with "1.IH"(1) [OF True c _ 2 sw] "1.prems" True c sw 2 show ?thesis
        by (simp add: part_left.simps [of cmp xs])
    next
      case 3
      have "part_inv cmp xs ptr n lt (i + 1) j gt"
        unfolding part_inv_def Let_def
        using inv True 3 by (auto simp: c_def less_Suc_eq)
      with "1.IH"(2) [OF True c] "1.prems" True c 3 show ?thesis
        by (simp add: part_left.simps [of cmp xs])
    qed
  qed (use "1.prems" in \<open>auto simp: part_left.simps\<close>)
qed

lemma part_right_inv:
  "part_right cmp xs ptr i gt j = Some (xs', gt', j') \<Longrightarrow> part_inv cmp xs ptr n lt i j gt \<Longrightarrow>
   (i < j \<longrightarrow> cmp (xs ! ptr) (xs ! (ptr + i)) < 0) \<Longrightarrow>
   part_inv cmp xs' ptr n lt i (if i < j' then j' + 1 else i) gt' \<and>
   (i < j' \<longrightarrow> cmp (xs' ! ptr) (xs' ! (ptr + j')) > 0 \<and> cmp (xs' ! ptr) (xs' ! (ptr + i)) < 0)"
proof (induction cmp xs ptr i gt j rule: part_right.induct)
  case (2 cmp xs ptr i gt j)
  note inv = part_invD [OF "2.prems"(2)]
  show ?case
  proof (cases "i < j")
    case True
    define c where "c = cmp (xs ! ptr) (xs ! (ptr + j))"
    define xs1 where "xs1 = swap_at xs (ptr + (gt - 1)) (ptr + j)"
    have c: "cmp_at cmp xs ptr (ptr + j) = Some c"
      and sw: "swap_el xs (ptr + (gt - 1)) (ptr + j) = Some xs1"
      using inv True by (auto simp: cmp_at_Some swap_el_Some c_def xs1_def)
    have less: "cmp (xs ! ptr) (xs ! (ptr + i)) < 0" using "2.prems"(3) True by simp
    have len: "length xs1 = length xs" by (simp add: xs1_def)
    consider "c > 0" | "c = 0" | "c < 0" by linarith
    then show ?thesis
    proof cases
      case 1
      with "2.prems" True c less show ?thesis by (auto simp: c_def)
    next
      case 2
      have r: "xs1 ! ptr = xs ! ptr" "k < n \<Longrightarrow> xs1 ! (ptr + k) =
           (if k = gt - 1 then xs ! (ptr + j) else if k = j then xs ! (ptr + (gt - 1)) else xs ! (ptr + k))" for k
        using swap_rel(1) [of "gt - 1" n j ptr xs] swap_rel(2) [of "gt - 1" n j ptr xs k] inv True by (simp_all add: xs1_def)
      have "part_inv cmp xs1 ptr n lt i j (gt - 1)"
      proof (rule part_invI)
        fix k assume k: "j \<le> k" "k < gt - 1" "k < n"
        then show "cmp (xs1 ! ptr) (xs1 ! (ptr + k)) < 0"
          using r(1) r(2) [of k] inv(4,5) inv(9) [of k] inv(9) [of "gt - 1"] True by (cases "k = j") auto
      next
        fix k assume k: "gt - 1 \<le> k" "k < n"
        then show "cmp (xs1 ! ptr) (xs1 ! (ptr + k)) = 0"
          using r(1) r(2) [of k] inv(4,5) inv(10) [of k] 2 by (cases "k = gt - 1") (auto simp: c_def)
      qed (use inv True r len in auto)
      moreover have "cmp (xs1 ! ptr) (xs1 ! (ptr + i)) < 0" using r(1) r(2) [of i] less inv True by auto
      ultimately show ?thesis
        using "2.IH"(1) [OF True c _ 2 sw] "2.prems" True c sw 2 by simp
    next
      case 3
      have "part_inv cmp xs ptr n lt i j gt"
      proof (rule part_invI)
        fix k assume "j \<le> k" "k < gt"
        then show "cmp (xs ! ptr) (xs ! (ptr + k)) < 0"
          using inv(9) [of k] 3 by (cases "k = j") (auto simp: c_def)
      qed (use inv True in auto)
      with "2.IH"(2) [OF True c] "2.prems" True c 3 less show ?thesis by simp
    qed
  next
    case False
    have "part_inv cmp xs ptr n lt i i gt"
    proof (rule part_invI)
      fix k assume "i \<le> k" "k < gt"
      then show "cmp (xs ! ptr) (xs ! (ptr + k)) < 0"
        using inv(9) [of k] False inv(3) "2.prems"(3) by (cases "k = i") auto
    qed (use inv False in auto)
    with "2.prems"(1) False show ?thesis by simp
  qed
qed simp

lemma part_loop_inv:
  "part_loop cmp xs ptr lt i gt j = Some (xs', lt', i', gt') \<Longrightarrow> part_inv cmp xs ptr n lt i j gt \<Longrightarrow>
   part_inv cmp xs' ptr n lt' i' i' gt'"
proof (induction cmp xs ptr lt i gt j rule: part_loop.induct)
  case (1 cmp xs0 ptr lt0 i0 gt0 j0)
  note inv0 = part_invD [OF "1.prems"(2)]
  from "1.prems"(1) obtain xs1 lt i xs2 gt j where
    l: "part_left cmp xs0 ptr j0 lt0 i0 = Some (xs1, lt, i)" and
    r: "part_right cmp xs1 ptr i gt0 j0 = Some (xs2, gt, j)" and
    rest: "(if i \<ge> j then Some (xs2, lt, i, gt)
       else do { xs3 \<leftarrow> swap_el xs2 (ptr + i) (ptr + j); part_loop cmp xs3 ptr lt (i + 1) gt j })
       = Some (xs', lt', i', gt')"
    by (subst (asm) part_loop.simps) (auto split: bind_splits)
  from part_left_inv [OF l "1.prems"(2)] part_right_inv [OF r, of n lt]
  have inv: "part_inv cmp xs2 ptr n lt i (if i < j then j + 1 else i) gt"
    "i < j \<Longrightarrow> cmp (xs2 ! ptr) (xs2 ! (ptr + j)) > 0 \<and> cmp (xs2 ! ptr) (xs2 ! (ptr + i)) < 0" by auto
  show ?case
  proof (cases "i \<ge> j")
    case False
    note inv2 = part_invD [OF inv(1)]
    define xs3 where "xs3 = swap_at xs2 (ptr + i) (ptr + j)"
    have len: "length xs3 = length xs2" by (simp add: xs3_def)
    have sw: "swap_el xs2 (ptr + i) (ptr + j) = Some xs3"
      using inv2 False by (auto simp: swap_el_Some xs3_def split: if_splits)
    have w: "xs3 ! ptr = xs2 ! ptr" "k < n \<Longrightarrow> xs3 ! (ptr + k) =
         (if k = i then xs2 ! (ptr + j) else if k = j then xs2 ! (ptr + i) else xs2 ! (ptr + k))" for k
      using swap_rel(1) [of i n j ptr xs2] swap_rel(2) [of i n j ptr xs2 k] inv2 False by (auto simp: xs3_def split: if_splits)
    have "part_inv cmp xs3 ptr n lt (i + 1) j gt"
      unfolding part_inv_def Let_def
      using inv2 inv(2) False by (auto simp: w len less_Suc_eq split: if_splits)
    with "1.IH" [OF l refl refl r refl refl False sw] rest sw False show ?thesis by simp
  qed (use rest inv in simp)
qed

lemma swap_block_nth:
  "swap_block xs a b n = Some ys \<Longrightarrow> a + n \<le> b \<Longrightarrow> b + n \<le> length xs \<Longrightarrow> k < length xs \<Longrightarrow>
   ys ! k = (if a \<le> k \<and> k < a + n then xs ! (b + (k - a))
             else if b \<le> k \<and> k < b + n then xs ! (a + (k - b)) else xs ! k)"
proof (induction n arbitrary: xs a b)
  case (Suc n)
  then have sw: "swap_el xs a b = Some (swap_at xs a b)" by (simp add: swap_el_Some)
  with Suc.prems have "swap_block (swap_at xs a b) (a + 1) (b + 1) n = Some ys" by simp
  from Suc.IH [OF this] Suc.prems have ih:
    "ys ! k = (if Suc a \<le> k \<and> k < Suc (a + n) then swap_at xs a b ! (Suc b + (k - Suc a))
             else if Suc b \<le> k \<and> k < Suc (b + n) then swap_at xs a b ! (Suc a + (k - Suc b))
             else swap_at xs a b ! k)" by simp
  consider "k = a" | "k = b" | "a < k" "k < Suc (a + n)" | "b < k" "k < Suc (b + n)"
    | "k < a \<or> (Suc (a + n) \<le> k \<and> k < b) \<or> Suc (b + n) \<le> k"
    by linarith
  then show ?case
  proof cases
    case 3
    then obtain m where "k = Suc (a + m)" using less_imp_Suc_add by blast
    with 3 ih Suc.prems show ?thesis by (simp add: nth_swap_at)
  next
    case 4
    then obtain m where "k = Suc (b + m)" using less_imp_Suc_add by blast
    with 4 ih Suc.prems show ?thesis by (simp add: nth_swap_at)
  qed (use ih Suc.prems in \<open>auto simp: nth_swap_at\<close>)
qed auto

text \<open>After the moves of the equal elements: smaller, equal, greater.\<close>

lemma rq_partition_parts:
  assumes "rq_partition cmp xs ptr n = Some (ys, lt, gt)" and "6 < n" and "ptr + n \<le> length xs"
    and "\<And>a. cmp a a = 0"
  obtains p where "\<And>k. k < lt \<Longrightarrow> cmp p (ys ! (ptr + k)) > 0"
    and "\<And>k. lt \<le> k \<Longrightarrow> k < gt \<Longrightarrow> cmp p (ys ! (ptr + k)) = 0"
    and "\<And>k. gt \<le> k \<Longrightarrow> k < n \<Longrightarrow> cmp p (ys ! (ptr + k)) < 0"
proof -
  from assms(1) obtain m xs1 xs2 l i g xs3 where
    sw: "swap_el xs ptr m = Some xs1" and
    p: "part_loop cmp xs1 ptr 1 1 n n = Some (xs2, l, i, g)" and
    b1: "swap_block xs2 ptr (ptr + i - min l (i - l)) (min l (i - l)) = Some xs3" and
    b2: "swap_block xs3 (ptr + i) (ptr + n - min (n - g) (g - i)) (min (n - g) (g - i)) = Some ys" and
    eq: "lt = i - l" "gt = n - (g - i)"
    by (auto simp: rq_partition_def Let_def split: bind_splits)
  have "part_inv cmp xs1 ptr n 1 1 n n"
    using assms(2,3,4) sw by (auto simp: part_inv_def swap_el_Some)
  note inv = part_invD [OF part_loop_inv [OF p this]]
  define s1 where "s1 = min l (i - l)"
  define s2 where "s2 = min (n - g) (g - i)"
  have s1: "s1 \<le> l" "s1 \<le> i - l" "s1 = l \<or> s1 = i - l" and s2: "s2 \<le> n - g" "s2 \<le> g - i" "s2 = n - g \<or> s2 = g - i"
    by (auto simp: s1_def s2_def)
  have len3: "length xs3 = length xs2" by (rule swap_block_length [OF b1])
  define d1 where "d1 = i - s1"
  define d2 where "d2 = n - s2"
  have ptr: "ptr + i - s1 = ptr + d1" "ptr + n - s2 = ptr + d2"
    using inv(1-5) s1 s2 by (auto simp: d1_def d2_def)
  note y3 = swap_block_nth [OF b1 [folded s1_def, unfolded ptr]]
  note y = swap_block_nth [OF b2 [folded s2_def, unfolded ptr]]
  define piv where "piv = xs2 ! ptr"
  have left: "d1 + s1 = i" "d2 + s2 = n" "s1 \<le> d1" "i + s2 \<le> d2"
    using inv(1-5) s1 s2 by (auto simp: d1_def d2_def)
  have less: "cmp piv (xs3 ! (ptr + k)) > 0" if k: "k < lt" for k
  proof (cases "k < s1")
    case True
    then have "xs3 ! (ptr + k) = xs2 ! (ptr + (d1 + k))"
      using y3 [of "ptr + k"] inv(1-6) left by (simp add: add.assoc)
    then show ?thesis using inv(8) [of "d1 + k"] True inv(1-5) s1 left by (simp add: piv_def)
  next
    case False
    then have "xs3 ! (ptr + k) = xs2 ! (ptr + k)" "l \<le> k" "k < i"
      using y3 [of "ptr + k"] inv(1-6) left k eq s1 by auto
    then show ?thesis using inv(8) [of k] by (simp add: piv_def)
  qed
  have eql: "cmp piv (xs3 ! (ptr + k)) = 0" if k: "lt \<le> k" "k < i" for k
  proof (cases "d1 \<le> k")
    case True
    then have "xs3 ! (ptr + k) = xs2 ! (ptr + (k - (d1)))"
      using y3 [of "ptr + k"] inv(1-6) left k by (simp add: add.assoc)
    then show ?thesis using inv(7) [of "k - (d1)"] True inv(1-5) s1 left k by (simp add: piv_def)
  next
    case False
    then have "xs3 ! (ptr + k) = xs2 ! (ptr + k)" "k < l"
      using y3 [of "ptr + k"] inv(1-6) left k eq s1 by auto
    then show ?thesis using inv(7) [of k] by (simp add: piv_def)
  qed
  have right: "xs3 ! (ptr + k) = xs2 ! (ptr + k)" if "i \<le> k" "k < n" for k
    using that inv(1-6) left y3 [of "ptr + k"] by auto
  have y_left: "ys ! (ptr + k) = xs3 ! (ptr + k)" if "k < i" for k
    using that inv(1-6) left len3 y [of "ptr + k"] by auto
  show thesis
  proof (rule that [of piv])
    show "cmp piv (ys ! (ptr + k)) > 0" if "k < lt" for k
      using that less [of k] y_left [of k] inv(1-5) eq by simp
    show "cmp piv (ys ! (ptr + k)) = 0" if k: "lt \<le> k" "k < gt" for k
    proof (cases "i \<le> k")
      case True
      show ?thesis
      proof (cases "k < i + s2")
        case a: True
        then have "ys ! (ptr + k) = xs3 ! (ptr + (d2 + (k - i)))"
          using y [of "ptr + k"] inv(1-6) left len3 True by (simp add: add.assoc)
        then show ?thesis
          using inv(10) [of "d2 + (k - i)"] right [of "d2 + (k - i)"] True a inv(1-5) s2 left
          by (simp add: piv_def)
      next
        case False
        then have "ys ! (ptr + k) = xs3 ! (ptr + k)" "g \<le> k" "k < n"
          using y [of "ptr + k"] inv(1-6) left len3 k eq s2 True by auto
        then show ?thesis using inv(10) [of k] right [of k] True by (simp add: piv_def)
      qed
    qed (use eql [of k] y_left [of k] k in simp)
    show "cmp piv (ys ! (ptr + k)) < 0" if k: "gt \<le> k" "k < n" for k
    proof (cases "d2 \<le> k")
      case True
      then have "ys ! (ptr + k) = xs3 ! (ptr + (i + (k - (d2))))"
        using y [of "ptr + k"] inv(1-6) left len3 k by (simp add: add.assoc)
      then show ?thesis
        using inv(9) [of "i + (k - (d2))"] right [of "i + (k - (d2))"] True inv(1-5) s2 left k
        by (simp add: piv_def)
    next
      case False
      then have "ys ! (ptr + k) = xs3 ! (ptr + k)" "k < g" "i \<le> k"
        using y [of "ptr + k"] inv(1-6) left len3 k eq s2 by auto
      then show ?thesis using inv(9) [of k] right [of k] k by (simp add: piv_def)
    qed
  qed
qed

subsection \<open>The pending segments\<close>

text \<open>
  Two positions are in order or in the same pending segment; pending segments are disjoint and
  inside the array.
\<close>

definition in_seg :: "nat \<Rightarrow> nat \<times> nat \<Rightarrow> bool" where
  "in_seg k s \<longleftrightarrow> fst s \<le> k \<and> k < fst s + snd s"

definition ordered_but :: "'a cmp_f \<Rightarrow> 'a list \<Rightarrow> (nat \<times> nat) list \<Rightarrow> bool" where
  "ordered_but cmp xs segs \<longleftrightarrow>
     (\<forall>i j. i < j \<longrightarrow> j < length xs \<longrightarrow>
        cmp (xs ! i) (xs ! j) \<le> 0 \<or> (\<exists>s\<in>set segs. in_seg i s \<and> in_seg j s))"

definition segs_ok :: "nat \<Rightarrow> (nat \<times> nat) list \<Rightarrow> bool" where
  "segs_ok len segs \<longleftrightarrow>
     (\<forall>s\<in>set segs. fst s + snd s \<le> len) \<and>
     sorted_wrt (\<lambda>s t. fst s + snd s \<le> fst t \<or> fst t + snd t \<le> fst s) segs"

definition segs_of :: "seg list \<Rightarrow> (nat \<times> nat) list" where
  "segs_of stk = map (\<lambda>(b, n, d). (b, n)) stk"

lemma segs_of_simps [simp]: "segs_of [] = []" "segs_of ((b, n, d) # stk) = (b, n) # segs_of stk"
  by (simp_all add: segs_of_def)

text \<open>Working inside one pending segment and leaving the sub-segments \<open>new\<close> of it pending.\<close>

lemma ordered_but_refine:
  assumes o: "ordered_but cmp xs ((a, n) # segs)" and ok: "segs_ok (length xs) ((a, n) # segs)"
    and p: "perm_in a n xs ys"
    and new: "\<And>i j. a \<le> i \<Longrightarrow> i < j \<Longrightarrow> j < a + n \<Longrightarrow>
      cmp (ys ! i) (ys ! j) \<le> 0 \<or> (\<exists>s\<in>set news. in_seg i s \<and> in_seg j s)"
  shows "ordered_but cmp ys (news @ segs)"
  unfolding ordered_but_def
proof (intro allI impI)
  fix i j assume ij: "i < j" "j < length ys"
  have len: "length ys = length xs" by (rule perm_in_length [OF p])
  have an: "a + n \<le> length xs" using ok by (simp add: segs_ok_def)
  have disj: "\<not> in_seg k s" if "in_seg k (a, n)" "s \<in> set segs" for k s
    using that ok by (fastforce simp: segs_ok_def in_seg_def)
  have origin: "\<exists>k'. ys ! k = xs ! k' \<and> in_seg k' (a, n)" if "in_seg k (a, n)" for k
    using perm_in_inside [OF p _ _ an, of k] that by (auto simp: in_seg_def)
  have same: "ys ! k = xs ! k" if "\<not> in_seg k (a, n)" "k < length xs" for k
    using perm_in_outside [OF p, of k] that by (auto simp: in_seg_def)
  consider (both) "in_seg i (a, n)" "in_seg j (a, n)" | (left) "in_seg i (a, n)" "\<not> in_seg j (a, n)"
    | (right) "\<not> in_seg i (a, n)" "in_seg j (a, n)" | (none) "\<not> in_seg i (a, n)" "\<not> in_seg j (a, n)"
    by blast
  then show "cmp (ys ! i) (ys ! j) \<le> 0 \<or> (\<exists>s\<in>set (news @ segs). in_seg i s \<and> in_seg j s)"
  proof cases
    case both
    then show ?thesis using new [of i j] ij by (auto simp: in_seg_def)
  next
    case left
    from origin [OF left(1)] obtain i' where i': "ys ! i = xs ! i'" "in_seg i' (a, n)" by auto
    have "i' < j" using left i' ij by (auto simp: in_seg_def)
    then have "cmp (xs ! i') (xs ! j) \<le> 0 \<or> (\<exists>s\<in>set ((a, n) # segs). in_seg i' s \<and> in_seg j s)"
      using o ij len unfolding ordered_but_def by metis
    then have "cmp (xs ! i') (xs ! j) \<le> 0" using left(2) disj [OF i'(2)] by auto
    then show ?thesis using i' same [OF left(2)] ij len by simp
  next
    case right
    from origin [OF right(2)] obtain j' where j': "ys ! j = xs ! j'" "in_seg j' (a, n)" by auto
    have "i < j'" "j' < length xs" using right j' ij an by (auto simp: in_seg_def)
    then have "cmp (xs ! i) (xs ! j') \<le> 0 \<or> (\<exists>s\<in>set ((a, n) # segs). in_seg i s \<and> in_seg j' s)"
      using o unfolding ordered_but_def by metis
    then have "cmp (xs ! i) (xs ! j') \<le> 0" using right(1) disj [OF j'(2)] by auto
    then show ?thesis using j' same [OF right(1)] ij len by simp
  next
    case none
    then show ?thesis using o ij len same [of i] same [of j] unfolding ordered_but_def by auto
  qed
qed

context comparator
begin

lemma partition_pending:
  assumes part: "rq_partition cmp xs ptr n = Some (ys, lt, gt)" and n: "6 < n"
    and ok: "segs_ok (length xs) ((ptr, n) # segs)" and o: "ordered_but cmp xs ((ptr, n) # segs)"
  shows "ordered_but cmp ys ([(ptr, lt), (ptr + gt, n - gt)] @ segs)"
    and "segs_ok (length xs) ((ptr, lt) # (ptr + gt, n - gt) # segs)"
    and "segs_ok (length xs) ((ptr + gt, n - gt) # (ptr, lt) # segs)"
proof -
  have len: "ptr + n \<le> length xs" using ok by (simp add: segs_ok_def)
  have pm: "perm_in ptr n xs ys" using rq_partition_safe [OF n len, of cmp] part by auto
  have "0 < n" using n by simp
  note b = rq_partition_bounds [OF part this]
  show "segs_ok (length xs) ((ptr, lt) # (ptr + gt, n - gt) # segs)"
    "segs_ok (length xs) ((ptr + gt, n - gt) # (ptr, lt) # segs)"
    using ok b by (fastforce simp: segs_ok_def)+
  obtain p where less: "\<And>k. k < lt \<Longrightarrow> cmp p (ys ! (ptr + k)) > 0"
    and eql: "\<And>k. lt \<le> k \<Longrightarrow> k < gt \<Longrightarrow> cmp p (ys ! (ptr + k)) = 0"
    and greater: "\<And>k. gt \<le> k \<Longrightarrow> k < n \<Longrightarrow> cmp p (ys ! (ptr + k)) < 0"
    using rq_partition_parts [OF part n len cmp_refl] by metis
  have below: "cmp (ys ! (ptr + k)) p \<le> 0" if "k < gt" for k
    using less [of k] eql [of k] cmp_sym [of p "ys ! (ptr + k)"] cmp_sym0 [of p "ys ! (ptr + k)"] that
    by (cases "k < lt") auto
  have above: "cmp p (ys ! (ptr + k)) \<le> 0" if "lt \<le> k" "k < n" for k
    using eql [of k] greater [of k] that by (cases "k < gt") auto
  show "ordered_but cmp ys ([(ptr, lt), (ptr + gt, n - gt)] @ segs)"
  proof (rule ordered_but_refine [OF o ok pm])
    fix i j assume ij: "ptr \<le> i" "i < j" "j < ptr + n"
    then obtain i' j' where eq: "i = ptr + i'" "j = ptr + j'" by (metis le_Suc_ex less_imp_le order_trans)
    consider "j' < lt" | "gt \<le> i'" | "i' < gt" "lt \<le> j'" by linarith
    then show "cmp (ys ! i) (ys ! j) \<le> 0 \<or>
      (\<exists>s\<in>set [(ptr, lt), (ptr + gt, n - gt)]. in_seg i s \<and> in_seg j s)"
    proof cases
      case 3
      then show ?thesis using cmp_trans [OF below above] eq ij by simp
    qed (use ij eq b in \<open>auto simp: in_seg_def\<close>)
  qed
qed

lemma sorted_pending:
  assumes "ordered_but cmp xs ((a, n) # segs)" and "segs_ok (length xs) ((a, n) # segs)"
    and "perm_in a n xs ys" and "seg_sorted cmp ys a n"
  shows "ordered_but cmp ys segs"
  using ordered_but_refine [OF assms(1,2,3), of "[]"] assms(4) by (auto simp: seg_sorted_def)

lemma ordered_but_perm_segs:
  "ordered_but cmp xs segs \<Longrightarrow> set segs \<subseteq> set segs' \<Longrightarrow> ordered_but cmp xs segs'"
  unfolding ordered_but_def by blast

lemma rq_inner_sorted:
  "rq_inner cmp xs stk ptr n depth = Some (xs', stk', ptr', n') \<Longrightarrow>
   ordered_but cmp xs ((ptr, n) # segs_of stk) \<Longrightarrow> segs_ok (length xs) ((ptr, n) # segs_of stk) \<Longrightarrow>
   ordered_but cmp xs' ((ptr', n') # segs_of stk') \<and> segs_ok (length xs') ((ptr', n') # segs_of stk')"
proof (induction n arbitrary: xs stk ptr depth rule: less_induct)
  case (less n)
  note ok = less.prems(3) and o = less.prems(2)
  have len: "ptr + n \<le> length xs" using ok by (simp add: segs_ok_def)
  consider "n \<le> 6" | "n > 6" "depth \<ge> 50" | "n > 6" "depth < 50" by linarith
  then show ?case
  proof cases
    case 2
    from heapsortx_safe [OF len, of cmp] obtain ys where
      ys: "heapsortx cmp xs ptr n = Some ys" "perm_in ptr n xs ys" by auto
    have "ordered_but cmp ys (segs_of stk)"
      by (rule sorted_pending [OF o ok ys(2) heapsortx_sorted [OF ys(1) len]])
    moreover have "xs' = ys" "stk' = stk" "ptr' = ptr" "n' = 0"
      using less.prems(1) 2 ys by (simp_all add: rq_inner.simps [of cmp xs])
    moreover have "segs_ok (length ys) ((ptr, 0) # segs_of stk)"
      using ok perm_in_length [OF ys(2)] by (fastforce simp: segs_ok_def)
    ultimately show ?thesis by (auto elim: ordered_but_perm_segs)
  next
    case 3
    from rq_partition_safe [OF 3(1) len, of cmp] obtain ys lt gt where
      p: "rq_partition cmp xs ptr n = Some (ys, lt, gt)" "perm_in ptr n xs ys" by auto
    have l: "length stk < 50"
      using less.prems(1) 3 p by (auto simp: rq_inner.simps [of cmp xs] rq_push_def split: if_splits)
    note pend = partition_pending [OF p(1) 3(1) ok o]
    have o1: "ordered_but cmp ys ((ptr + gt, n - gt) # (ptr, lt) # segs_of stk)"
      and o2: "ordered_but cmp ys ((ptr, lt) # (ptr + gt, n - gt) # segs_of stk)"
      using pend(1) by (auto elim: ordered_but_perm_segs)
    show ?thesis
      using less.prems(1) 3 p l o1 o2 pend(2,3) perm_in_length [OF p(2)]
        less.IH [of lt ys "(ptr + gt, n - gt, depth + 1) # stk" ptr "depth + 1"]
        less.IH [of "n - gt" ys "(ptr, lt, depth + 1) # stk" "ptr + gt" "depth + 1"]
        rq_partition_bounds(1) [OF p(1)]
      by (cases "lt > n - gt") (simp_all add: rq_inner.simps [of cmp xs] rq_push_Some)
  qed (use less.prems in \<open>simp add: rq_inner.simps\<close>)
qed

lemma rq_outer_sorted:
  "rq_outer cmp xs stk = Some ys \<Longrightarrow> ordered_but cmp xs (segs_of stk) \<Longrightarrow> segs_ok (length xs) (segs_of stk) \<Longrightarrow>
   ordered_but cmp ys []"
proof (induction "weight stk" arbitrary: xs stk rule: less_induct)
  case less
  show ?case
  proof (cases stk)
    case (Cons e stk0)
    then obtain ptr n depth where stk: "stk = (ptr, n, depth) # stk0" by (cases e) auto
    from less.prems(1) obtain xs1 stk1 ptr1 n1 where
      i: "rq_inner cmp xs stk0 ptr n depth = Some (xs1, stk1, ptr1, n1)"
      by (cases "rq_inner cmp xs stk0 ptr n depth") (auto simp: stk)
    with rq_inner_sorted less.prems have s: "ordered_but cmp xs1 ((ptr1, n1) # segs_of stk1)"
      "segs_ok (length xs1) ((ptr1, n1) # segs_of stk1)" by (auto simp: stk)
    then have len: "ptr1 + n1 \<le> length xs1" by (simp add: segs_ok_def)
    from ins_outer_safe [of ptr1 "ptr1 + 1" "ptr1 + n1" n1 xs1 cmp] len obtain xs2 where
      o: "ins_outer cmp xs1 ptr1 (ptr1 + 1) (ptr1 + n1) = Some xs2" "perm_in ptr1 n1 xs1 xs2" by auto
    have "seg_sorted cmp xs2 ptr1 n1"
      by (rule ins_outer_sorted [OF o(1) len]) (auto simp: seg_sorted_def)
    from sorted_pending [OF s o(2) this] have "ordered_but cmp xs2 (segs_of stk1)" .
    moreover have "segs_ok (length xs2) (segs_of stk1)"
      using s(2) perm_in_length [OF o(2)] by (simp add: segs_ok_def)
    moreover have "weight stk1 < weight stk" using rq_inner_weight [OF i] by (simp add: stk)
    ultimately show ?thesis using less.hyps [of stk1 xs2] less.prems(1) i o(1) by (simp add: stk)
  qed (use less.prems in simp)
qed

lemma rqsort_sorts:
  "\<exists>ys. rqsort cmp xs = Some ys \<and> mset ys = mset xs \<and> sorted_wrt (\<lambda>a b. cmp a b \<le> 0) ys"
proof (cases "length xs < 2")
  case True
  then show ?thesis by (cases xs) (auto simp: rqsort_def)
next
  case False
  from rq_outer_safe [of xs "[(0, length xs, 0)]" cmp] obtain ys where
    ys: "rq_outer cmp xs [(0, length xs, 0)] = Some ys" "mset ys = mset xs" by auto
  have "ordered_but cmp ys []"
    by (rule rq_outer_sorted [OF ys(1)]) (auto simp: ordered_but_def segs_ok_def in_seg_def)
  then have "sorted_wrt (\<lambda>a b. cmp a b \<le> 0) ys"
    by (simp add: ordered_but_def sorted_wrt_iff_nth_less)
  with ys False show ?thesis by (simp add: rqsort_def)
qed

end

text \<open>
  C7. With a comparison function whose sign is that of a total preorder, \<^verbatim>\<open>rqsort\<close> returns the
  elements of the array in ascending order: the three-way quicksort, its heap sort beyond depth 50
  and the insertion sort of short segments together sort.
\<close>

theorem rqsort_correct:
  assumes "\<And>a b. cmp a b > 0 \<longleftrightarrow> cmp b a < 0"
    and "\<And>a b c. cmp a b \<le> 0 \<Longrightarrow> cmp b c \<le> 0 \<Longrightarrow> cmp a c \<le> 0"
  shows "\<exists>ys. rqsort cmp xs = Some ys \<and> mset ys = mset xs \<and> sorted_wrt (\<lambda>a b. cmp a b \<le> 0) ys"
proof -
  have "comparator cmp" by unfold_locales (use assms in auto)
  then show ?thesis by (rule comparator.rqsort_sorts)
qed

theorem rqsort_correct_witness:
  "\<exists>ys. rqsort (-) [5, 3, 9, 1, 7, 2, 8, 3 :: int] = Some ys \<and>
     mset ys = mset [5, 3, 9, 1, 7, 2, 8, 3] \<and> sorted_wrt (\<lambda>a b. a - b \<le> 0) ys"
  by (rule rqsort_correct) auto

end
