(* ===== verification/CharRange.thy ===== *)
theory CharRange
  imports CUtils RQSort_Sorted
begin

section \<open>Sets of code points as sorted interval lists (\<^verbatim>\<open>js/libunicode.c\<close>, \<^verbatim>\<open>js/libunicode.h\<close>)\<close>

text \<open>
  A \<^verbatim>\<open>CharRange\<close> is a growable array of points; consecutive pairs of points are half-open
  intervals. \<open>cr_points\<close> is the allocated block (\<^verbatim>\<open>size\<close> elements), of which the first \<^verbatim>\<open>len\<close>
  are in use.

  Several ranges share one allocator through \<^verbatim>\<open>mem_opaque\<close>. Its state \<open>h\<close> is passed explicitly
  through every call that may allocate; \<^verbatim>\<open>realloc_func\<close> maps the state, the old block and the new
  size in bytes to the new state and the new block or \<open>None\<close> for \<^verbatim>\<open>NULL\<close>. A call gives
  \<open>Some (ret, cr, h)\<close>, or \<open>None\<close> where C has undefined behaviour: an access outside a block or a
  signed overflow in \<^verbatim>\<open>cr->size * 3\<close>.
\<close>

type_synonym 'h cr_realloc_fn = "'h \<Rightarrow> u32 list \<Rightarrow> nat \<Rightarrow> 'h \<times> u32 list option"

record 'h CharRange =
  cr_len :: nat
  cr_size :: nat
  cr_points :: "u32 list"
  cr_realloc_func :: "'h cr_realloc_fn"

type_synonym 'h cr_result = "(int \<times> 'h CharRange \<times> 'h) option"

definition INT_MAX :: nat where
  "INT_MAX = 2147483647"

definition UINT32_MAX :: u32 where
  "UINT32_MAX = 0xffffffff"

subsection \<open>Growing\<close>

definition cr_init :: "'h cr_realloc_fn \<Rightarrow> 'h CharRange" where
  "cr_init realloc_func = \<lparr>cr_len = 0, cr_size = 0, cr_points = [], cr_realloc_func = realloc_func\<rparr>"

definition cr_free :: "'h CharRange \<Rightarrow> 'h \<Rightarrow> 'h" where
  "cr_free cr h = fst (cr_realloc_func cr h (cr_points cr) 0)"

definition cr_realloc :: "'h CharRange \<Rightarrow> nat \<Rightarrow> 'h \<Rightarrow> 'h cr_result" where
  "cr_realloc cr sz h =
     (if sz > cr_size cr then
        if cr_size cr * 3 > INT_MAX then None
        else
          let new_size = max sz (cr_size cr * 3 div 2)
          in (case cr_realloc_func cr h (cr_points cr) (new_size * 4) of
                (h', None) \<Rightarrow> Some (- 1, cr, h')
              | (h', Some new_buf) \<Rightarrow> Some (0, cr\<lparr>cr_points := new_buf, cr_size := new_size\<rparr>, h'))
      else Some (0, cr, h))"

definition cr_add_point :: "'h CharRange \<Rightarrow> u32 \<Rightarrow> 'h \<Rightarrow> 'h cr_result" where
  "cr_add_point cr v h = do {
     (ret, cr, h) \<leftarrow> (if cr_len cr \<ge> cr_size cr then cr_realloc cr (cr_len cr + 1) h else Some (0, cr, h));
     if ret \<noteq> 0 then Some (- 1, cr, h)
     else do {
       pt \<leftarrow> wr (cr_points cr) (cr_len cr) v;
       Some (0, cr\<lparr>cr_points := pt, cr_len := cr_len cr + 1\<rparr>, h) } }"

definition cr_add_interval :: "'h CharRange \<Rightarrow> u32 \<Rightarrow> u32 \<Rightarrow> 'h \<Rightarrow> 'h cr_result" where
  "cr_add_interval cr c1 c2 h = do {
     (ret, cr, h) \<leftarrow> (if cr_len cr + 2 > cr_size cr then cr_realloc cr (cr_len cr + 2) h else Some (0, cr, h));
     if ret \<noteq> 0 then Some (- 1, cr, h)
     else do {
       pt \<leftarrow> wr (cr_points cr) (cr_len cr) c1;
       pt \<leftarrow> wr pt (cr_len cr + 1) c2;
       Some (0, cr\<lparr>cr_points := pt, cr_len := cr_len cr + 2\<rparr>, h) } }"

definition cr_copy :: "'h CharRange \<Rightarrow> 'h CharRange \<Rightarrow> 'h \<Rightarrow> 'h cr_result" where
  "cr_copy cr cr1 h = do {
     (ret, cr, h) \<leftarrow> cr_realloc cr (cr_len cr1) h;
     if ret \<noteq> 0 then Some (- 1, cr, h)
     else do {
       xs \<leftarrow> slice (cr_points cr1) 0 (cr_len cr1);
       pt \<leftarrow> blit (cr_points cr) 0 xs;
       Some (0, cr\<lparr>cr_points := pt, cr_len := cr_len cr1\<rparr>, h) } }"

subsection \<open>Merging consecutive intervals in place\<close>

text \<open>\<^verbatim>\<open>while ((j + 3) < len && pt[j + 1] == pt[j + 2]) j += 2;\<close>\<close>

function compress_run :: "u32 list \<Rightarrow> nat \<Rightarrow> nat \<Rightarrow> nat option" where
  "compress_run pt len j =
     (if j + 3 < len then do {
        x \<leftarrow> rd pt (j + 1);
        y \<leftarrow> rd pt (j + 2);
        if x = y then compress_run pt len (j + 2) else Some j }
      else Some j)"
  by pat_completeness auto
termination by (relation "measure (\<lambda>(pt, len, j). len - j)") auto

declare compress_run.simps [simp del]

lemma compress_run_ge: "compress_run pt len j = Some j' \<Longrightarrow> j \<le> j'"
proof (induction pt len j rule: compress_run.induct)
  case (1 pt len j)
  from "1.prems" show ?case
    by (subst (asm) compress_run.simps) (auto split: if_splits bind_splits dest!: "1.IH")
qed

function compress_loop :: "u32 list \<Rightarrow> nat \<Rightarrow> nat \<Rightarrow> nat \<Rightarrow> (u32 list \<times> nat) option" where
  "compress_loop pt len i k =
     (if i + 1 < len then do {
        x \<leftarrow> rd pt i;
        y \<leftarrow> rd pt (i + 1);
        if x = y then compress_loop pt len (i + 2) k
        else do {
          j \<leftarrow> compress_run pt len i;
          pt1 \<leftarrow> wr pt k x;
          z \<leftarrow> rd pt1 (j + 1);
          pt2 \<leftarrow> wr pt1 (k + 1) z;
          compress_loop pt2 len (j + 2) (k + 2) } }
      else Some (pt, k))"
  by pat_completeness auto
termination
  by (relation "measure (\<lambda>(pt, len, i, k). len - i)") (auto dest!: compress_run_ge)

declare compress_loop.simps [simp del]

definition cr_compress :: "'h CharRange \<Rightarrow> 'h CharRange option" where
  "cr_compress cr = do {
     (pt, k) \<leftarrow> compress_loop (cr_points cr) (cr_len cr) 0 0;
     Some (cr\<lparr>cr_points := pt, cr_len := k\<rparr>) }"

subsection \<open>Set operations\<close>

datatype CharRangeOp = CR_OP_UNION | CR_OP_INTER | CR_OP_XOR

fun cr_op_bit :: "CharRangeOp \<Rightarrow> bool \<Rightarrow> bool \<Rightarrow> bool" where
  "cr_op_bit CR_OP_UNION p q \<longleftrightarrow> p \<or> q"
| "cr_op_bit CR_OP_INTER p q \<longleftrightarrow> p \<and> q"
| "cr_op_bit CR_OP_XOR p q \<longleftrightarrow> p \<noteq> q"

text \<open>
  One more point from \<open>a\<close> or \<open>b\<close> in increasing order: the point and the new indices;
  \<open>Some None\<close> when both are used up.
\<close>

definition cr_op_next ::
    "u32 list \<Rightarrow> nat \<Rightarrow> u32 list \<Rightarrow> nat \<Rightarrow> nat \<Rightarrow> nat \<Rightarrow> (u32 \<times> nat \<times> nat) option option" where
  "cr_op_next a_pt a_len b_pt b_len a_idx b_idx =
     (if a_idx < a_len \<and> b_idx < b_len then do {
        x \<leftarrow> rd a_pt a_idx;
        y \<leftarrow> rd b_pt b_idx;
        Some (Some (if x < y then (x, a_idx + 1, b_idx)
                    else if x = y then (x, a_idx + 1, b_idx + 1)
                    else (y, a_idx, b_idx + 1))) }
      else if a_idx < a_len then do { x \<leftarrow> rd a_pt a_idx; Some (Some (x, a_idx + 1, b_idx)) }
      else if b_idx < b_len then do { y \<leftarrow> rd b_pt b_idx; Some (Some (y, a_idx, b_idx + 1)) }
      else Some None)"

lemma cr_op_next_less:
  "cr_op_next a_pt a_len b_pt b_len a_idx b_idx = Some (Some (v, i, j)) \<Longrightarrow>
     (a_len - i) + (b_len - j) < (a_len - a_idx) + (b_len - b_idx)"
  by (auto simp: cr_op_next_def split: if_splits bind_splits)

function cr_op_loop ::
    "'h CharRange \<Rightarrow> u32 list \<Rightarrow> nat \<Rightarrow> u32 list \<Rightarrow> nat \<Rightarrow> CharRangeOp \<Rightarrow> nat \<Rightarrow> nat \<Rightarrow> 'h \<Rightarrow> 'h cr_result" where
  "cr_op_loop cr a_pt a_len b_pt b_len op a_idx b_idx h = do {
     nxt \<leftarrow> cr_op_next a_pt a_len b_pt b_len a_idx b_idx;
     (case nxt of
        None \<Rightarrow> Some (0, cr, h)
      | Some (v, i, j) \<Rightarrow>
          if cr_op_bit op (odd i) (odd j) \<noteq> odd (cr_len cr) then do {
            (ret, cr1, h1) \<leftarrow> cr_add_point cr v h;
            if ret \<noteq> 0 then Some (- 1, cr1, h1)
            else cr_op_loop cr1 a_pt a_len b_pt b_len op i j h1 }
          else cr_op_loop cr a_pt a_len b_pt b_len op i j h) }"
  by pat_completeness auto
termination
  by (relation "measure (\<lambda>(cr, a_pt, a_len, b_pt, b_len, op, a_idx, b_idx, h). (a_len - a_idx) + (b_len - b_idx))")
    (auto dest: cr_op_next_less)

declare cr_op_loop.simps [simp del]

definition cr_op ::
    "'h CharRange \<Rightarrow> u32 list \<Rightarrow> nat \<Rightarrow> u32 list \<Rightarrow> nat \<Rightarrow> CharRangeOp \<Rightarrow> 'h \<Rightarrow> 'h cr_result" where
  "cr_op cr a_pt a_len b_pt b_len op h = do {
     (ret, cr, h) \<leftarrow> cr_op_loop cr a_pt a_len b_pt b_len op 0 0 h;
     if ret \<noteq> 0 then Some (- 1, cr, h)
     else do { cr \<leftarrow> cr_compress cr; Some (0, cr, h) } }"

definition cr_union1 :: "'h CharRange \<Rightarrow> u32 list \<Rightarrow> nat \<Rightarrow> 'h \<Rightarrow> 'h cr_result" where
  "cr_union1 a b_pt b_len h = do {
     (ret, cr, h) \<leftarrow> cr_op (a\<lparr>cr_len := 0, cr_size := 0, cr_points := []\<rparr>)
        (cr_points a) (cr_len a) b_pt b_len CR_OP_UNION h;
     Some (ret, cr, cr_free a h) }"

definition cr_union_interval :: "'h CharRange \<Rightarrow> u32 \<Rightarrow> u32 \<Rightarrow> 'h \<Rightarrow> 'h cr_result" where
  "cr_union_interval cr c1 c2 h = cr_union1 cr [c1, c2 + 1] 2 h"

definition cr_invert :: "'h CharRange \<Rightarrow> 'h \<Rightarrow> 'h cr_result" where
  "cr_invert cr h = do {
     let len = cr_len cr;
     (ret, cr, h) \<leftarrow> cr_realloc cr (len + 2) h;
     if ret \<noteq> 0 then Some (- 1, cr, h)
     else do {
       pt \<leftarrow> memmove_in (cr_points cr) 1 0 len;
       pt \<leftarrow> wr pt 0 0;
       pt \<leftarrow> wr pt (len + 1) UINT32_MAX;
       cr \<leftarrow> cr_compress (cr\<lparr>cr_points := pt, cr_len := len + 2\<rparr>);
       Some (0, cr, h) } }"

subsection \<open>Sorting intervals and removing overlaps\<close>

text \<open>
  \<^verbatim>\<open>rqsort(cr->points, cr->len / 2, 2 * sizeof(uint32_t), point_cmp, NULL)\<close> sorts pairs of points;
  \<^verbatim>\<open>point_cmp\<close> reads the first point of each.
\<close>

fun pairs_of :: "'a list \<Rightarrow> ('a \<times> 'a) list" where
  "pairs_of (x # y # r) = (x, y) # pairs_of r"
| "pairs_of _ = []"

fun unpairs :: "('a \<times> 'a) list \<Rightarrow> 'a list" where
  "unpairs [] = []"
| "unpairs ((x, y) # r) = x # y # unpairs r"

definition point_cmp :: "u32 \<times> u32 \<Rightarrow> u32 \<times> u32 \<Rightarrow> int" where
  "point_cmp p1 p2 = of_bool (fst p1 > fst p2) - of_bool (fst p1 < fst p2)"

function overlap_run :: "u32 list \<Rightarrow> nat \<Rightarrow> nat \<Rightarrow> u32 \<Rightarrow> (nat \<times> u32) option" where
  "overlap_run pt len i e =
     (if i < len then do {
        start1 \<leftarrow> rd pt i;
        end1 \<leftarrow> rd pt (i + 1);
        if start1 > e then Some (i, e)
        else if end1 \<le> e then overlap_run pt len (i + 2) e
        else overlap_run pt len (i + 2) end1 }
      else Some (i, e))"
  by pat_completeness auto
termination by (relation "measure (\<lambda>(pt, len, i, e). len - i)") auto

declare overlap_run.simps [simp del]

lemma overlap_run_ge: "overlap_run pt len i e = Some (i', e') \<Longrightarrow> i \<le> i'"
proof (induction pt len i e rule: overlap_run.induct)
  case (1 pt len i e)
  note ih = "1.IH" [THEN order_trans [rotated], of _ _ i]
  from "1.prems" ih show ?case
    by (auto simp: overlap_run.simps [of pt len i e] split: if_splits bind_splits)
qed

function overlap_loop :: "u32 list \<Rightarrow> nat \<Rightarrow> nat \<Rightarrow> nat \<Rightarrow> (u32 list \<times> nat) option" where
  "overlap_loop pt len i j =
     (if i < len then do {
        start \<leftarrow> rd pt i;
        e \<leftarrow> rd pt (i + 1);
        (i', e') \<leftarrow> overlap_run pt len (i + 2) e;
        pt1 \<leftarrow> wr pt j start;
        pt2 \<leftarrow> wr pt1 (j + 1) e';
        overlap_loop pt2 len i' (j + 2) }
      else Some (pt, j))"
  by pat_completeness auto
termination
  by (relation "measure (\<lambda>(pt, len, i, j). len - i)") (auto dest!: overlap_run_ge)

declare overlap_loop.simps [simp del]

definition cr_sort_and_remove_overlap :: "'h CharRange \<Rightarrow> 'h CharRange option" where
  "cr_sort_and_remove_overlap cr = do {
     xs \<leftarrow> slice (cr_points cr) 0 (2 * (cr_len cr div 2));
     ys \<leftarrow> rqsort point_cmp (pairs_of xs);
     pt \<leftarrow> blit (cr_points cr) 0 (unpairs ys);
     (pt, j) \<leftarrow> overlap_loop pt (cr_len cr) 0 0;
     Some (cr\<lparr>cr_points := pt, cr_len := j\<rparr>) }"

subsection \<open>Representation invariant\<close>

text \<open>
  \<open>CR_MAX\<close> bounds the number of points for which no size computation overflows: one GiB of points.
\<close>

definition CR_MAX :: nat where
  "CR_MAX = 2 ^ 28"

definition cr_realloc_ok :: "'h cr_realloc_fn \<Rightarrow> bool" where
  "cr_realloc_ok f \<longleftrightarrow>
     (\<forall>h b n h' b'. 0 < n \<longrightarrow> f h b n = (h', Some b') \<longrightarrow>
        length b' = n div 4 \<and> take (min (n div 4) (length b)) b' = take (min (n div 4) (length b)) b)"

definition cr_inv :: "'h CharRange \<Rightarrow> bool" where
  "cr_inv cr \<longleftrightarrow> length (cr_points cr) = cr_size cr \<and> cr_len cr \<le> cr_size cr \<and>
     2 * cr_size cr \<le> 3 * CR_MAX \<and> cr_realloc_ok (cr_realloc_func cr)"

definition cr_pts :: "'h CharRange \<Rightarrow> u32 list" where
  "cr_pts cr = take (cr_len cr) (cr_points cr)"

text \<open>
  What a fallible operation gives: it is defined, keeps the invariant, and either succeeds with
  points that satisfy \<open>P\<close> or reports failure, the latter only under an allocator that can fail.
\<close>

definition cr_realloc_total :: "'h cr_realloc_fn \<Rightarrow> bool" where
  "cr_realloc_total f \<longleftrightarrow> (\<forall>h b n. 0 < n \<longrightarrow> snd (f h b n) \<noteq> None)"

definition cr_yields :: "'h cr_realloc_fn \<Rightarrow> (u32 list \<Rightarrow> bool) \<Rightarrow> 'h cr_result \<Rightarrow> bool" where
  "cr_yields f P r \<longleftrightarrow>
     (\<exists>ret cr h. r = Some (ret, cr, h) \<and> cr_inv cr \<and> cr_realloc_func cr = f \<and>
        (ret = 0 \<and> P (cr_pts cr) \<or> ret = - 1 \<and> \<not> cr_realloc_total f))"

lemma cr_yieldsE:
  assumes "cr_yields f P r"
  obtains (ok) cr h where "r = Some (0, cr, h)" "cr_inv cr" "cr_realloc_func cr = f" "P (cr_pts cr)"
    | (fail) cr h where "r = Some (- 1, cr, h)" "cr_inv cr" "cr_realloc_func cr = f" "\<not> cr_realloc_total f"
  using assms by (auto simp: cr_yields_def)

lemma cr_yields_ok: "cr_inv cr \<Longrightarrow> cr_realloc_func cr = f \<Longrightarrow> P (cr_pts cr) \<Longrightarrow> cr_yields f P (Some (0, cr, h))"
  by (simp add: cr_yields_def)

lemma cr_yields_fail:
  "cr_inv cr \<Longrightarrow> cr_realloc_func cr = f \<Longrightarrow> \<not> cr_realloc_total f \<Longrightarrow> cr_yields f P (Some (- 1, cr, h))"
  by (simp add: cr_yields_def)

lemma cr_yields_mono: "cr_yields f P r \<Longrightarrow> (\<And>xs. P xs \<Longrightarrow> Q xs) \<Longrightarrow> cr_yields f Q r"
  by (auto simp: cr_yields_def)

lemma length_cr_pts [simp]: "cr_inv cr \<Longrightarrow> length (cr_pts cr) = cr_len cr"
  by (simp add: cr_pts_def cr_inv_def)

lemma cr_inv_init [inv_intros]: "cr_realloc_ok f \<Longrightarrow> cr_inv (cr_init f)"
  by (simp add: cr_inv_def cr_init_def)

lemma cr_pts_init [simp]: "cr_pts (cr_init f) = []"
  by (simp add: cr_pts_def cr_init_def)

lemma cr_realloc_spec:
  assumes "cr_inv cr" and "sz \<le> CR_MAX"
  shows "cr_yields (cr_realloc_func cr) (\<lambda>ys. ys = cr_pts cr) (cr_realloc cr sz h)"
    and "cr_realloc cr sz h = Some (0, cr', h') \<Longrightarrow>
           sz \<le> cr_size cr' \<and> cr_len cr' = cr_len cr \<and> cr_realloc_func cr' = cr_realloc_func cr"
proof -
  note inv = assms(1) [unfolded cr_inv_def]
  show "cr_yields (cr_realloc_func cr) (\<lambda>ys. ys = cr_pts cr) (cr_realloc cr sz h)"
  proof (cases "sz > cr_size cr")
    case False
    then show ?thesis using assms by (simp add: cr_realloc_def cr_yields_ok)
  next
    case True
    define n where "n = max sz (cr_size cr * 3 div 2)"
    have n: "cr_size cr \<le> n" "0 < n * 4" "2 * n \<le> 3 * CR_MAX" "n * 4 div 4 = n"
      using True assms(2) inv by (auto simp: n_def)
    have nub: "\<not> cr_size cr * 3 > INT_MAX"
      using True assms(2) by (simp add: INT_MAX_def CR_MAX_def)
    obtain h1 b where f: "cr_realloc_func cr h (cr_points cr) (n * 4) = (h1, b)" by force
    show ?thesis
    proof (cases b)
      case None
      then have "\<not> cr_realloc_total (cr_realloc_func cr)"
        using f n(2) by (metis cr_realloc_total_def snd_conv)
      with None f True nub assms show ?thesis
        by (simp add: cr_realloc_def n_def cr_yields_fail)
    next
      case (Some b')
      have b': "length b' = n" "take (cr_size cr) b' = cr_points cr"
        using inv n f Some unfolding cr_realloc_ok_def by (metis min.absorb2 take_all_iff order_refl)+
      let ?cr = "cr\<lparr>cr_points := b', cr_size := n\<rparr>"
      have "cr_inv ?cr" using inv b' n by (simp add: cr_inv_def)
      moreover have "cr_pts ?cr = cr_pts cr"
      proof -
        have "take (cr_len cr) b' = take (cr_len cr) (take (cr_size cr) b')"
          using inv by (simp add: min_def)
        then show ?thesis by (simp add: cr_pts_def b')
      qed
      ultimately show ?thesis
        using f Some True nub by (simp add: cr_realloc_def n_def cr_yields_def)
    qed
  qed
  show "sz \<le> cr_size cr' \<and> cr_len cr' = cr_len cr \<and> cr_realloc_func cr' = cr_realloc_func cr"
    if "cr_realloc cr sz h = Some (0, cr', h')"
    using that by (auto simp: cr_realloc_def Let_def split: if_splits prod.splits option.splits)
qed

text \<open>Making room for \<open>k\<close> more points, as the two appending operations do.\<close>

lemma cr_room_cases:
  assumes "cr_inv cr" and "cr_len cr + k \<le> CR_MAX" and "b \<longleftrightarrow> cr_size cr < cr_len cr + k"
  obtains (ok) cr' h' where "(if b then cr_realloc cr (cr_len cr + k) h else Some (0, cr, h)) = Some (0, cr', h')"
      "cr_inv cr'" "cr_len cr' = cr_len cr" "cr_pts cr' = cr_pts cr" "cr_len cr + k \<le> cr_size cr'"
      "cr_realloc_func cr' = cr_realloc_func cr"
    | (fail) cr' h' where "(if b then cr_realloc cr (cr_len cr + k) h else Some (0, cr, h)) = Some (- 1, cr', h')"
      "cr_inv cr'" "cr_realloc_func cr' = cr_realloc_func cr" "\<not> cr_realloc_total (cr_realloc_func cr)"
proof (cases b)
  case True
  note y = cr_realloc_spec [OF assms(1,2), of h]
  from y(1) show thesis
  proof (cases rule: cr_yieldsE)
    case (ok cr' h')
    with y(2) True that(1) show thesis by simp
  next
    case (fail cr' h')
    with True that(2) show thesis by simp
  qed
qed (use assms that(1) in auto)

lemma cr_inv_append:
  assumes "cr_inv cr" and "cr_len cr + length ys \<le> cr_size cr" and "blit (cr_points cr) (cr_len cr) ys = Some pt"
  shows "cr_inv (cr\<lparr>cr_points := pt, cr_len := cr_len cr + length ys\<rparr>)"
    and "cr_pts (cr\<lparr>cr_points := pt, cr_len := cr_len cr + length ys\<rparr>) = cr_pts cr @ ys"
  using assms by (auto simp: cr_inv_def cr_pts_def blit_eq_Some_iff)

lemma wr_blit: "i < length b \<Longrightarrow> wr b i v = blit b i [v]"
  by (simp add: wr_def blit_def upd_conv_take_nth_drop)

lemma wr2_blit:
  assumes "i + 1 < length b"
  shows "(do { b \<leftarrow> wr b i v; wr b (i + 1) w }) = blit b i [v, w]"
  using assms by (auto simp: wr_def blit_def upd_conv_take_nth_drop Cons_nth_drop_Suc drop_update_swap
      intro!: nth_equalityI simp: nth_append nth_list_update nth_Cons split: nat.split)

lemma cr_add_point_spec:
  assumes "cr_inv cr" and "cr_len cr < CR_MAX"
  shows "cr_yields (cr_realloc_func cr) (\<lambda>ys. ys = cr_pts cr @ [v]) (cr_add_point cr v h)"
proof (rule cr_room_cases [of cr 1 "cr_len cr \<ge> cr_size cr" h])
  fix cr' h' assume a: "(if cr_len cr \<ge> cr_size cr then cr_realloc cr (cr_len cr + 1) h else Some (0, cr, h)) =
      Some (0, cr', h')" "cr_inv cr'" "cr_len cr' = cr_len cr" "cr_pts cr' = cr_pts cr"
    "cr_len cr + 1 \<le> cr_size cr'" "cr_realloc_func cr' = cr_realloc_func cr"
  then have w: "wr (cr_points cr') (cr_len cr') v = blit (cr_points cr') (cr_len cr') [v]"
    by (intro wr_blit) (simp add: cr_inv_def)
  obtain pt where pt: "blit (cr_points cr') (cr_len cr') [v] = Some pt"
    using a by (auto simp: cr_inv_def blit_def)
  from cr_inv_append [OF a(2) _ pt] a w pt show ?thesis
    by (simp add: cr_add_point_def cr_yields_def)
qed (use assms in \<open>auto simp: cr_add_point_def cr_yields_def\<close>)

lemma cr_add_interval_spec:
  assumes "cr_inv cr" and "cr_len cr + 2 \<le> CR_MAX"
  shows "cr_yields (cr_realloc_func cr) (\<lambda>ys. ys = cr_pts cr @ [c1, c2]) (cr_add_interval cr c1 c2 h)"
proof (rule cr_room_cases [of cr 2 "cr_len cr + 2 > cr_size cr" h])
  fix cr' h' assume a: "(if cr_len cr + 2 > cr_size cr then cr_realloc cr (cr_len cr + 2) h else Some (0, cr, h)) =
      Some (0, cr', h')" "cr_inv cr'" "cr_len cr' = cr_len cr" "cr_pts cr' = cr_pts cr"
    "cr_len cr + 2 \<le> cr_size cr'" "cr_realloc_func cr' = cr_realloc_func cr"
  then have w: "(do { b \<leftarrow> wr (cr_points cr') (cr_len cr') c1; wr b (cr_len cr' + 1) c2 }) =
      blit (cr_points cr') (cr_len cr') [c1, c2]"
    by (intro wr2_blit) (simp add: cr_inv_def)
  obtain pt where pt: "blit (cr_points cr') (cr_len cr') [c1, c2] = Some pt"
    using a by (auto simp: cr_inv_def blit_def)
  from w pt obtain b where b: "wr (cr_points cr') (cr_len cr') c1 = Some b" "wr b (cr_len cr' + 1) c2 = Some pt"
    by (auto split: bind_splits)
  from cr_inv_append [OF a(2) _ pt] a b show ?thesis
    by (simp add: cr_add_interval_def cr_yields_def)
qed (use assms in \<open>auto simp: cr_add_interval_def cr_yields_def\<close>)

subsection \<open>The set a point list denotes\<close>

text \<open>
  \<open>c\<close> is in the set when an odd number of points is at most \<open>c\<close>; for a sorted list of even length
  this is membership in one of its half-open intervals. A list is canonical when its points are
  strictly increasing and of even number.
\<close>

definition in_points :: "u32 list \<Rightarrow> u32 \<Rightarrow> bool" where
  "in_points xs c \<longleftrightarrow> odd (length (filter (\<lambda>p. p \<le> c) xs))"

definition cr_canon :: "u32 list \<Rightarrow> bool" where
  "cr_canon xs \<longleftrightarrow> sorted_wrt (<) xs \<and> even (length xs)"

lemma in_points_Nil [simp]: "\<not> in_points [] c"
  by (simp add: in_points_def)

lemma in_points_Cons: "in_points (x # xs) c \<longleftrightarrow> (x \<le> c) \<noteq> in_points xs c"
  by (simp add: in_points_def)

lemma in_points_append: "in_points (xs @ ys) c \<longleftrightarrow> in_points xs c \<noteq> in_points ys c"
  by (simp add: in_points_def)

lemma in_points_all: "(\<And>x. x \<in> set xs \<Longrightarrow> x \<le> c) \<Longrightarrow> in_points xs c \<longleftrightarrow> odd (length xs)"
  by (simp add: in_points_def cong: filter_cong)

lemma in_points_none: "(\<And>x. x \<in> set xs \<Longrightarrow> c < x) \<Longrightarrow> \<not> in_points xs c"
proof -
  assume "\<And>x. x \<in> set xs \<Longrightarrow> c < x"
  then have "filter (\<lambda>p. p \<le> c) xs = []" unfolding filter_empty_conv by (meson leD)
  then show ?thesis by (simp add: in_points_def)
qed

lemma in_points_pairs:
  "sorted xs \<Longrightarrow> even (length xs) \<Longrightarrow> in_points xs c \<longleftrightarrow> (\<exists>(s, e)\<in>set (pairs_of xs). s \<le> c \<and> c < e)"
proof (induction xs rule: pairs_of.induct)
  case (1 x y r)
  show ?case
  proof (cases "c < y")
    case True
    then have "\<not> in_points r c" using "1.prems"(1) by (intro in_points_none) auto
    with 1 True show ?thesis by (auto simp: in_points_Cons)
  next
    case False
    with 1 show ?thesis by (auto simp: in_points_Cons)
  qed
qed auto

subsection \<open>Merging\<close>

text \<open>The same computation on lists, and that the in-place loop does it.\<close>

fun merge_run :: "'a \<Rightarrow> 'a list \<Rightarrow> 'a \<times> 'a list" where
  "merge_run e (x # y # r) = (if e = x then merge_run y r else (e, x # y # r))"
| "merge_run e r = (e, r)"

lemma merge_run_length: "merge_run e r = (e', r') \<Longrightarrow> length r' \<le> length r"
  by (induction e r rule: merge_run.induct) (auto split: if_splits)

function merge_pairs :: "'a list \<Rightarrow> 'a list" where
  "merge_pairs (x # y # r) =
     (if x = y then merge_pairs r
      else (case merge_run y r of (e, r') \<Rightarrow> x # e # merge_pairs r'))"
| "merge_pairs [x] = []"
| "merge_pairs [] = []"
  by pat_completeness auto
termination
  by (relation "measure length") (auto dest!: merge_run_length [OF sym])

lemma merge_run_short: "length r \<le> 1 \<Longrightarrow> merge_run e r = (e, r)"
  by (cases "(e, r)" rule: merge_run.cases) auto

lemma merge_pairs_short: "length r \<le> 1 \<Longrightarrow> merge_pairs r = []"
  by (cases r rule: merge_pairs.cases) auto

lemma merge_run_shape:
  "merge_run e r = (e', r') \<Longrightarrow> sorted (e # r) \<Longrightarrow>
     sorted (e' # r') \<and> e \<le> e' \<and> (\<forall>x\<in>set r'. x \<in> set r) \<and> even (length r') = even (length r) \<and>
     (2 \<le> length r' \<longrightarrow> e' < hd r') \<and> e' \<in> insert e (set r)"
  by (induction e r rule: merge_run.induct) (auto split: if_splits)

lemma merge_run_points:
  "merge_run e r = (e', r') \<Longrightarrow> in_points (e # r) c \<longleftrightarrow> in_points (e' # r') c"
  by (induction e r rule: merge_run.induct) (auto simp: in_points_Cons split: if_splits)

lemma merge_pairs_points:
  "even (length xs) \<Longrightarrow> in_points (merge_pairs xs) c \<longleftrightarrow> in_points xs c"
proof (induction xs rule: merge_pairs.induct)
  case (1 x y r)
  obtain e r' where m: "merge_run y r = (e, r')" by force
  have "even (length r')"
    using m "1.prems" by (induction y r rule: merge_run.induct) (auto split: if_splits)
  with 1 m merge_run_points [OF m, of c] show ?case by (auto simp: in_points_Cons)
qed auto

lemma merge_pairs_ge: "sorted xs \<Longrightarrow> x \<in> set (merge_pairs xs) \<Longrightarrow> x \<in> set xs"
proof (induction xs rule: merge_pairs.induct)
  case (1 a b r)
  obtain e r' where m: "merge_run b r = (e, r')" by force
  with 1 merge_run_shape [OF m] show ?case by (auto split: if_splits)
qed auto

lemma merge_pairs_canon: "sorted xs \<Longrightarrow> even (length xs) \<Longrightarrow> cr_canon (merge_pairs xs)"
proof (induction xs rule: merge_pairs.induct)
  case (1 x y r)
  obtain e r' where m: "merge_run y r = (e, r')" by force
  have s: "sorted (y # r)" "x \<le> y" using "1.prems"(1) by auto
  note sh = merge_run_shape [OF m s(1)]
  show ?case
  proof (cases "x = y")
    case False
    have c: "cr_canon (merge_pairs r')"
      using 1 False m sh by auto
    have gt: "e < z" if "z \<in> set (merge_pairs r')" for z
    proof -
      have z: "z \<in> set r'" using merge_pairs_ge that sh by auto
      have "2 \<le> length r'" using that z sh "1.prems"(2) by (cases r' rule: merge_pairs.cases) auto
      then have "e < hd r'" using sh by blast
      also have "hd r' \<le> z" using z sh by (cases r') auto
      finally show ?thesis .
    qed
    have "x < e" using s sh False by auto
    then show ?thesis using c gt m False by (fastforce simp: cr_canon_def)
  qed (use 1 in auto)
qed (auto simp: cr_canon_def)

lemma compress_run_merge:
  "j + 1 < len \<Longrightarrow> len \<le> length pt \<Longrightarrow>
   \<exists>j'. compress_run pt len j = Some j' \<and> j \<le> j' \<and> j' + 1 < len \<and>
     merge_run (pt ! (j + 1)) (drop (j + 2) (take len pt)) = (pt ! (j' + 1), drop (j' + 2) (take len pt))"
proof (induction pt len j rule: compress_run.induct)
  case (1 pt len j)
  show ?case
  proof (cases "j + 3 < len")
    case True
    have d: "drop (j + 2) (take len pt) = pt ! (j + 2) # pt ! (j + 3) # drop (j + 4) (take len pt)"
      using True "1.prems" by (simp add: Cons_nth_drop_Suc [symmetric] eval_nat_numeral)
    have r: "rd pt (j + 1) = Some (pt ! (j + 1))" "rd pt (j + 2) = Some (pt ! (j + 2))"
      using True "1.prems" by (simp_all add: rd_def)
    show ?thesis
    proof (cases "pt ! (j + 1) = pt ! (j + 2)")
      case eq: True
      from "1.IH" [OF True r eq] True "1.prems" obtain j' where j':
        "compress_run pt len (j + 2) = Some j'" "j + 2 \<le> j'" "j' + 1 < len"
        "merge_run (pt ! (j + 3)) (drop (j + 4) (take len pt)) = (pt ! (j' + 1), drop (j' + 2) (take len pt))"
        by (auto simp: eval_nat_numeral)
      then show ?thesis using True r eq d by (subst compress_run.simps) auto
    next
      case False
      then show ?thesis using True r d by (subst compress_run.simps) auto
    qed
  next
    case False
    then have "length (drop (j + 2) (take len pt)) \<le> 1" by simp
    then have "merge_run (pt ! (j + 1)) (drop (j + 2) (take len pt)) = (pt ! (j + 1), drop (j + 2) (take len pt))"
      by (rule merge_run_short)
    then show ?thesis using False "1.prems" by (subst compress_run.simps) auto
  qed
qed

lemma compress_loop_merge:
  "k \<le> i \<Longrightarrow> len \<le> length pt \<Longrightarrow>
   \<exists>pt' k'. compress_loop pt len i k = Some (pt', k') \<and> length pt' = length pt \<and> k' \<le> max k len \<and>
     take k' pt' = take k pt @ merge_pairs (drop i (take len pt)) \<and> k \<le> k'"
proof (induction pt len i k rule: compress_loop.induct)
  case (1 pt len i k)
  show ?case
  proof (cases "i + 1 < len")
    case True
    have d: "drop i (take len pt) = pt ! i # pt ! (i + 1) # drop (i + 2) (take len pt)"
      using True "1.prems" by (simp add: Cons_nth_drop_Suc [symmetric] eval_nat_numeral)
    have r: "rd pt i = Some (pt ! i)" "rd pt (i + 1) = Some (pt ! (i + 1))"
      using True "1.prems" by (simp_all add: rd_def)
    show ?thesis
    proof (cases "pt ! i = pt ! (i + 1)")
      case eq: True
      with "1.IH"(1) [OF True r eq] "1.prems" True r d show ?thesis
        by (subst compress_loop.simps) auto
    next
      case neq: False
      from compress_run_merge [OF True "1.prems"(2)] obtain j where j:
        "compress_run pt len i = Some j" "i \<le> j" "j + 1 < len"
        "merge_run (pt ! (i + 1)) (drop (i + 2) (take len pt)) = (pt ! (j + 1), drop (j + 2) (take len pt))"
        by auto
      define pt1 where "pt1 = pt[k := pt ! i]"
      define pt2 where "pt2 = pt1[k + 1 := pt ! (j + 1)]"
      have w: "wr pt k (pt ! i) = Some pt1" "rd pt1 (j + 1) = Some (pt ! (j + 1))"
        "wr pt1 (k + 1) (pt ! (j + 1)) = Some pt2"
        using j(2,3) "1.prems" by (auto simp: wr_def rd_def pt1_def pt2_def)
      have t: "take (k + 2) pt2 = take k pt @ [pt ! i, pt ! (j + 1)]"
        using j(2,3) "1.prems" by (simp add: pt2_def pt1_def take_Suc_conv_app_nth eval_nat_numeral)
      have dr: "drop (j + 2) (take len pt2) = drop (j + 2) (take len pt)"
        using j(2) "1.prems" by (auto simp: pt2_def pt1_def drop_take take_update_cancel)
      have "k + 2 \<le> j + 2" "len \<le> length pt2" using j "1.prems" by (auto simp: pt1_def pt2_def)
      from "1.IH"(2) [OF True r neq j(1) w this] obtain pt' k' where rec:
        "compress_loop pt2 len (j + 2) (k + 2) = Some (pt', k')" "length pt' = length pt2"
        "k' \<le> max (k + 2) len" "take k' pt' = take (k + 2) pt2 @ merge_pairs (drop (j + 2) (take len pt2))" "k + 2 \<le> k'"
        by auto
      have "compress_loop pt len i k = Some (pt', k')"
        using True r neq j(1) w rec(1) by (subst compress_loop.simps) simp
      moreover have "take k' pt' = take k pt @ merge_pairs (drop i (take len pt))"
        using rec(4) t dr d neq j(4) by simp
      moreover have "k' \<le> max k len" "length pt' = length pt" "k \<le> k'"
        using rec j "1.prems" by (auto simp: pt1_def pt2_def)
      ultimately show ?thesis by blast
    qed
  next
    case False
    have "length (drop i (take len pt)) \<le> 1" using False by auto
    then have "merge_pairs (drop i (take len pt)) = []"
      by (rule merge_pairs_short)
    with False show ?thesis by (subst compress_loop.simps) auto
  qed
qed

lemma cr_compress_spec:
  assumes "cr_inv cr"
  shows "\<exists>cr'. cr_compress cr = Some cr' \<and> cr_inv cr' \<and> cr_pts cr' = merge_pairs (cr_pts cr) \<and>
    cr_realloc_func cr' = cr_realloc_func cr"
proof -
  have len: "cr_len cr \<le> length (cr_points cr)" using assms by (simp add: cr_inv_def)
  from compress_loop_merge [OF le_refl len, of 0] obtain pt k where
    "compress_loop (cr_points cr) (cr_len cr) 0 0 = Some (pt, k)" "length pt = length (cr_points cr)"
    "k \<le> cr_len cr" "take k pt = merge_pairs (take (cr_len cr) (cr_points cr))" by auto
  then show ?thesis using assms by (simp add: cr_compress_def cr_inv_def cr_pts_def)
qed

subsection \<open>Union, intersection, symmetric difference\<close>

text \<open>
  State of the loop after the first \<open>i\<close> points of \<open>a\<close> and \<open>j\<close> points of \<open>b\<close>: the output denotes
  the operation on what has been read, its number of points says whether the sweep is inside, and
  everything read or written is at most everything still to be read.
\<close>

definition op_inv :: "CharRangeOp \<Rightarrow> u32 list \<Rightarrow> u32 list \<Rightarrow> nat \<Rightarrow> nat \<Rightarrow> u32 list \<Rightarrow> bool" where
  "op_inv op a b i j ys \<longleftrightarrow> i \<le> length a \<and> j \<le> length b \<and> length ys \<le> i + j \<and> sorted ys \<and>
     (odd (length ys) \<longleftrightarrow> cr_op_bit op (odd i) (odd j)) \<and>
     (\<forall>c. in_points ys c \<longleftrightarrow> cr_op_bit op (in_points (take i a) c) (in_points (take j b) c)) \<and>
     (\<forall>x\<in>set (take i a) \<union> set (take j b) \<union> set ys. \<forall>y\<in>set (drop i a) \<union> set (drop j b). x \<le> y)"

lemma set_drop_sorted_ge: "sorted xs \<Longrightarrow> i < length xs \<Longrightarrow> x \<in> set (drop i xs) \<Longrightarrow> xs ! i \<le> x"
  by (auto simp: in_set_conv_nth intro: sorted_nth_mono)

text \<open>A step: the next point \<open>v\<close> is the least remaining one, and the indices move past it.\<close>

definition op_step :: "u32 list \<Rightarrow> u32 list \<Rightarrow> nat \<Rightarrow> nat \<Rightarrow> u32 \<Rightarrow> nat \<Rightarrow> nat \<Rightarrow> bool" where
  "op_step a b i j v i' j' \<longleftrightarrow> i \<le> i' \<and> j \<le> j' \<and> i' \<le> length a \<and> j' \<le> length b \<and> i + j < i' + j' \<and>
     (\<exists>k l. take i' a = take i a @ replicate k v \<and> take j' b = take j b @ replicate l v) \<and>
     (\<forall>y\<in>set (drop i' a) \<union> set (drop j' b). v \<le> y) \<and> v \<in> set (drop i a) \<union> set (drop j b) \<and>
     set (drop i' a) \<subseteq> set (drop i a) \<and> set (drop j' b) \<subseteq> set (drop j b)"

lemma op_step_one: "sorted a \<Longrightarrow> i < length a \<Longrightarrow>
   take (i + 1) a = take i a @ replicate 1 (a ! i) \<and> (\<forall>y\<in>set (drop (i + 1) a). a ! i \<le> y) \<and>
   a ! i \<in> set (drop i a) \<and> set (drop (i + 1) a) \<subseteq> set (drop i a)"
  using set_drop_sorted_ge [of a i]
  by (auto simp: take_Suc_conv_app_nth set_drop_subset_set_drop Cons_nth_drop_Suc [symmetric])

lemma cr_op_next_step:
  assumes "sorted a" and "sorted b" and "i \<le> length a" and "j \<le> length b"
  shows "i < length a \<or> j < length b \<Longrightarrow>
      \<exists>v i' j'. cr_op_next a (length a) b (length b) i j = Some (Some (v, i', j'))"
    and "cr_op_next a (length a) b (length b) i j = Some (Some (v, i', j')) \<Longrightarrow> op_step a b i j v i' j'"
proof -
  show "\<exists>v i' j'. cr_op_next a (length a) b (length b) i j = Some (Some (v, i', j'))"
    if "i < length a \<or> j < length b"
    using that by (auto simp: cr_op_next_def rd_def)
  assume n: "cr_op_next a (length a) b (length b) i j = Some (Some (v, i', j'))"
  note one = op_step_one [OF assms(1), of i] op_step_one [OF assms(2), of j]
    set_drop_sorted_ge [OF assms(1), of i] set_drop_sorted_ge [OF assms(2), of j]
  have rep0: "\<exists>k. take i a = take i a @ replicate k v" "\<exists>k. take j b = take j b @ replicate k v"
    by (rule exI [of _ 0], simp)+
  consider "i < length a" "i' = i + 1" "j' = j" "v = a ! i" "j < length b \<longrightarrow> v < b ! j"
    | "i < length a" "j < length b" "i' = i + 1" "j' = j + 1" "v = a ! i" "v = b ! j"
    | "j < length b" "i' = i" "j' = j + 1" "v = b ! j" "i < length a \<longrightarrow> v < a ! i"
    using n by (auto simp: cr_op_next_def rd_def split: if_splits)
  then show "op_step a b i j v i' j'"
  proof cases
    case 1
    have "v \<le> y" if "y \<in> set (drop j b)" for y
    proof -
      have "j < length b" using that by (cases "j < length b") auto
      with 1 one(4) that show ?thesis by fastforce
    qed
    with 1 one(1) assms rep0(2) show ?thesis by (auto simp: op_step_def simp del: replicate.simps)
  next
    case 2
    with one(1,2) assms show ?thesis unfolding op_step_def by (auto simp del: replicate.simps One_nat_def)
  next
    case 3
    have "v \<le> y" if "y \<in> set (drop i a)" for y
    proof -
      have "i < length a" using that by (cases "i < length a") auto
      with 3 one(3) that show ?thesis by fastforce
    qed
    with 3 one(2) assms rep0(1) show ?thesis by (auto simp: op_step_def simp del: replicate.simps)
  qed
qed

lemma op_inv_step:
  assumes inv: "op_inv op a b i j ys" and st: "op_step a b i j v i' j'"
  shows "op_inv op a b i' j' (if cr_op_bit op (odd i') (odd j') \<noteq> odd (length ys) then ys @ [v] else ys)"
    (is "op_inv op a b i' j' ?ys")
proof -
  obtain k l where kl: "take i' a = take i a @ replicate k v" "take j' b = take j b @ replicate l v"
    using st unfolding op_step_def by blast
  have vd: "v \<in> set (drop i a) \<union> set (drop j b)" using st by (simp add: op_step_def)
  have below: "x \<le> v" if "x \<in> set (take i a) \<union> set (take j b) \<union> set ys" for x
    using inv vd that unfolding op_inv_def by blast
  have read_below: "x \<le> v" if "x \<in> set (take i' a) \<union> set (take j' b) \<union> set ?ys" for x
    using that below unfolding kl by (auto split: if_splits)
  have lens: "length (take i' a) = i'" "length (take j' b) = j'"
    using st by (auto simp: op_step_def)
  have par: "odd (length ?ys) \<longleftrightarrow> cr_op_bit op (odd i') (odd j')" by auto
  have mem: "in_points ?ys c \<longleftrightarrow> cr_op_bit op (in_points (take i' a) c) (in_points (take j' b) c)" for c
  proof (cases "v \<le> c")
    case True
    then have le: "x \<le> c" if "x \<in> set (take i' a) \<union> set (take j' b) \<union> set ?ys" for x
      using order_trans [OF read_below [OF that]] by simp
    have "in_points ?ys c \<longleftrightarrow> odd (length ?ys)" by (rule in_points_all) (rule le, blast)
    moreover have "in_points (take i' a) c \<longleftrightarrow> odd (length (take i' a))" by (rule in_points_all) (rule le, blast)
    moreover have "in_points (take j' b) c \<longleftrightarrow> odd (length (take j' b))" by (rule in_points_all) (rule le, blast)
    ultimately show ?thesis using par lens by simp
  next
    case False
    then have rep: "\<not> in_points (replicate m v) c" for m by (intro in_points_none) auto
    have eqs: "in_points ?ys c = in_points ys c" "in_points (take i' a) c = in_points (take i a) c"
      "in_points (take j' b) c = in_points (take j b) c"
      using False rep by (auto simp: kl in_points_append in_points_Cons)
    have "in_points ys c \<longleftrightarrow> cr_op_bit op (in_points (take i a) c) (in_points (take j b) c)"
      using inv unfolding op_inv_def by blast
    then show ?thesis by (simp only: eqs)
  qed
  have "sorted ?ys" using inv below by (auto simp: op_inv_def sorted_append)
  moreover have "length ?ys \<le> i' + j'" using inv st by (auto simp: op_inv_def op_step_def)
  moreover have "\<forall>x\<in>set (take i' a) \<union> set (take j' b) \<union> set ?ys. \<forall>y\<in>set (drop i' a) \<union> set (drop j' b). x \<le> y"
    using read_below st unfolding op_step_def by (meson order_trans)
  ultimately show ?thesis using mem par st unfolding op_inv_def op_step_def by blast
qed

lemma cr_op_loop_spec:
  "cr_inv cr \<Longrightarrow> sorted a \<Longrightarrow> sorted b \<Longrightarrow> length a + length b \<le> CR_MAX \<Longrightarrow> op_inv op a b i j (cr_pts cr) \<Longrightarrow>
   cr_yields (cr_realloc_func cr) (op_inv op a b (length a) (length b))
     (cr_op_loop cr a (length a) b (length b) op i j h)"
proof (induction "(length a - i) + (length b - j)" arbitrary: cr i j h rule: less_induct)
  case less
  have ij: "i \<le> length a" "j \<le> length b" using less.prems(5) by (auto simp: op_inv_def)
  show ?case
  proof (cases "i = length a \<and> j = length b")
    case True
    then have "cr_op_next a (length a) b (length b) i j = Some None" by (simp add: cr_op_next_def)
    with True less.prems show ?thesis by (simp add: cr_op_loop.simps cr_yields_ok)
  next
    case False
    with ij have "i < length a \<or> j < length b" by linarith
    then obtain v i' j' where n: "cr_op_next a (length a) b (length b) i j = Some (Some (v, i', j'))"
      using cr_op_next_step(1) [OF less.prems(2,3) ij] by blast
    note st = cr_op_next_step(2) [OF less.prems(2,3) ij n]
    note inv = op_inv_step [OF less.prems(5) st]
    note dec = cr_op_next_less [OF n]
    show ?thesis
    proof (cases "cr_op_bit op (odd i') (odd j') \<noteq> odd (cr_len cr)")
      case flip: True
      have "i + j < length a + length b"
        using ij False by auto
      moreover have "cr_len cr \<le> i + j" using less.prems(1,5) by (simp add: op_inv_def)
      ultimately have "cr_len cr < CR_MAX" using less.prems(4) by simp
      from cr_add_point_spec [OF less.prems(1) this, of v h] show ?thesis
      proof (cases rule: cr_yieldsE)
        case (ok cr1 h1)
        with less.hyps [OF dec, of cr1 h1] less.prems inv flip n show ?thesis
          by (simp add: cr_op_loop.simps [of cr])
      next
        case (fail cr1 h1)
        with n flip show ?thesis by (simp add: cr_op_loop.simps [of cr] cr_yields_fail)
      qed
    next
      case noflip: False
      with less.hyps [OF dec, of cr h] less.prems inv n show ?thesis
        by (simp add: cr_op_loop.simps [of cr])
    qed
  qed
qed

text \<open>The points an operation leaves: canonical, and denoting the operation on the two sets.\<close>

definition op_result :: "CharRangeOp \<Rightarrow> u32 list \<Rightarrow> u32 list \<Rightarrow> u32 list \<Rightarrow> bool" where
  "op_result op a b ys \<longleftrightarrow> cr_canon ys \<and>
     (\<forall>c. in_points ys c \<longleftrightarrow> cr_op_bit op (in_points a c) (in_points b c))"

lemma cr_op_spec:
  assumes "cr_inv cr" and "cr_len cr = 0" and "sorted a" and "sorted b"
    and "even (length a)" and "even (length b)" and "length a + length b \<le> CR_MAX"
  shows "cr_yields (cr_realloc_func cr) (op_result op a b) (cr_op cr a (length a) b (length b) op h)"
proof -
  have "op_inv op a b 0 0 (cr_pts cr)"
    using assms(2) by (cases op) (auto simp: op_inv_def cr_pts_def)
  from cr_op_loop_spec [OF assms(1,3,4,7) this, of h] show ?thesis
  proof (cases rule: cr_yieldsE)
    case (ok cr1 h1)
    from ok(4) have o: "sorted (cr_pts cr1)" "even (length (cr_pts cr1))"
      "\<And>c. in_points (cr_pts cr1) c \<longleftrightarrow> cr_op_bit op (in_points a c) (in_points b c)"
      using assms(5,6) by (cases op; auto simp: op_inv_def)+
    from cr_compress_spec [OF ok(2)] obtain cr2 where "cr_compress cr1 = Some cr2" "cr_inv cr2"
      "cr_pts cr2 = merge_pairs (cr_pts cr1)" "cr_realloc_func cr2 = cr_realloc_func cr1" by auto
    with ok(1,3) o show ?thesis
      by (simp add: cr_op_def cr_yields_def op_result_def merge_pairs_canon merge_pairs_points)
  next
    case (fail cr1 h1)
    then show ?thesis by (simp add: cr_op_def cr_yields_fail)
  qed
qed

text \<open>Only the first \<open>a_len\<close> and \<open>b_len\<close> points matter.\<close>

lemma cr_op_next_take:
  "n \<le> length a \<Longrightarrow> m \<le> length b \<Longrightarrow> cr_op_next a n b m i j = cr_op_next (take n a) n (take m b) m i j"
  by (auto simp: cr_op_next_def rd_def)

lemma cr_op_loop_take:
  "n \<le> length a \<Longrightarrow> m \<le> length b \<Longrightarrow>
     cr_op_loop c a n b m op i j h = cr_op_loop c (take n a) n (take m b) m op i j h"
proof (induction "(n - i) + (m - j)" arbitrary: c i j h rule: less_induct)
  case less
  note nx = cr_op_next_take [OF less.prems, of i j]
  show ?case
  proof (cases "cr_op_next a n b m i j")
    case None
    with nx show ?thesis by (simp add: cr_op_loop.simps)
  next
    case (Some r)
    show ?thesis
    proof (cases r)
      case None
      with nx Some have "cr_op_next a n b m i j = Some None"
        "cr_op_next (take n a) n (take m b) m i j = Some None" by simp_all
      then show ?thesis by (simp add: cr_op_loop.simps [of c])
    next
      case r: (Some t)
      obtain v i' j' where t: "t = (v, i', j')" by (cases t) auto
      have n1: "cr_op_next a n b m i j = Some (Some (v, i', j'))"
        and n2: "cr_op_next (take n a) n (take m b) m i j = Some (Some (v, i', j'))"
        using Some r t nx by simp_all
      note ih = less.hyps [OF cr_op_next_less [OF n1] less.prems]
      show ?thesis
        by (simp add: cr_op_loop.simps [of c a n b m op i j h] n1 n2 ih
            cr_op_loop.simps [of c "take n a" n "take m b" m op i j h] cong: if_cong)
    qed
  qed
qed

lemma cr_op_cr_pts:
  assumes "cr_inv a" and "cr_inv b"
  shows "cr_op c (cr_points a) (cr_len a) (cr_points b) (cr_len b) op h =
    cr_op c (cr_pts a) (length (cr_pts a)) (cr_pts b) (length (cr_pts b)) op h"
  using cr_op_loop_take [of "cr_len a" "cr_points a" "cr_len b" "cr_points b" c op 0 0 h] assms
  by (simp add: cr_op_def cr_pts_def cr_inv_def min_absorb2)

lemma cr_union1_spec:
  assumes "cr_inv cr" and "sorted (cr_pts cr)" and "even (cr_len cr)"
    and "sorted b" and "even (length b)" and "cr_len cr + length b \<le> CR_MAX"
  shows "cr_yields (cr_realloc_func cr) (op_result CR_OP_UNION (cr_pts cr) b) (cr_union1 cr b (length b) h)"
proof -
  let ?cr = "cr\<lparr>cr_len := 0, cr_size := 0, cr_points := []\<rparr>"
  have inv: "cr_inv ?cr" using assms(1) by (simp add: cr_inv_def)
  have "cr_op ?cr (cr_points cr) (cr_len cr) b (length b) CR_OP_UNION h =
      cr_op ?cr (cr_pts cr) (length (cr_pts cr)) b (length b) CR_OP_UNION h"
    using cr_op_loop_take [of "cr_len cr" "cr_points cr" "length b" b ?cr CR_OP_UNION 0 0 h] assms(1)
    by (simp add: cr_op_def cr_pts_def cr_inv_def min_absorb2)
  moreover have "cr_yields (cr_realloc_func ?cr) (op_result CR_OP_UNION (cr_pts cr) b)
      (cr_op ?cr (cr_pts cr) (length (cr_pts cr)) b (length b) CR_OP_UNION h)"
    by (rule cr_op_spec) (use assms inv in auto)
  ultimately show ?thesis by (auto simp: cr_union1_def cr_yields_def)
qed

lemma succ_le_iff_less:
  assumes "c2 < UINT32_MAX"
  shows "c2 + 1 \<le> c \<longleftrightarrow> c2 < c" and "c < c2 + 1 \<longleftrightarrow> c \<le> c2"
proof -
  show "c2 + 1 \<le> c \<longleftrightarrow> c2 < c" for c
    using assms by (auto simp: UINT32_MAX_def word_le_nat_alt word_less_nat_alt unat_word_ariths)
  then show "c < c2 + 1 \<longleftrightarrow> c \<le> c2" by (metis not_le)
qed

lemma cr_union_interval_spec:
  assumes "cr_inv cr" and "cr_canon (cr_pts cr)" and "c1 \<le> c2" and "c2 < UINT32_MAX" and "cr_len cr + 2 \<le> CR_MAX"
  shows "cr_yields (cr_realloc_func cr)
    (\<lambda>ys. cr_canon ys \<and> (\<forall>c. in_points ys c \<longleftrightarrow> in_points (cr_pts cr) c \<or> c1 \<le> c \<and> c \<le> c2))
    (cr_union_interval cr c1 c2 h)"
proof -
  note succ = succ_le_iff_less [OF assms(4)]
  have le: "c1 \<le> c2 + 1" using succ(2) [of c1] assms(3) by simp
  have "cr_yields (cr_realloc_func cr) (op_result CR_OP_UNION (cr_pts cr) [c1, c2 + 1])
      (cr_union1 cr [c1, c2 + 1] (length [c1, c2 + 1]) h)"
    by (rule cr_union1_spec) (use assms le in \<open>auto simp: cr_canon_def strict_sorted_imp_sorted\<close>)
  then have "cr_yields (cr_realloc_func cr) (op_result CR_OP_UNION (cr_pts cr) [c1, c2 + 1])
      (cr_union_interval cr c1 c2 h)"
    by (simp add: cr_union_interval_def numeral_2_eq_2)
  moreover have "((c1 \<le> c) \<noteq> (c2 < c)) \<longleftrightarrow> c1 \<le> c \<and> c \<le> c2" for c
    using assms(3) by (meson le_less_trans less_imp_le not_le)
  then have "op_result CR_OP_UNION (cr_pts cr) [c1, c2 + 1] ys \<Longrightarrow>
      cr_canon ys \<and> (\<forall>c. in_points ys c \<longleftrightarrow> in_points (cr_pts cr) c \<or> c1 \<le> c \<and> c \<le> c2)" for ys
    by (simp add: op_result_def in_points_Cons succ)
  ultimately show ?thesis by (rule cr_yields_mono)
qed

subsection \<open>Complement\<close>

lemma le_UINT32_MAX [simp]: "c \<le> UINT32_MAX"
proof -
  have "UINT32_MAX = - 1" by (simp add: UINT32_MAX_def)
  then show ?thesis by (metis word_order.extremum)
qed

lemma cr_invert_spec:
  assumes "cr_inv cr" and "sorted (cr_pts cr)" and "even (cr_len cr)" and "cr_len cr + 2 \<le> CR_MAX"
  shows "cr_yields (cr_realloc_func cr)
    (\<lambda>ys. cr_canon ys \<and> (\<forall>c<UINT32_MAX. in_points ys c \<longleftrightarrow> \<not> in_points (cr_pts cr) c))
    (cr_invert cr h)"
proof -
  let ?len = "cr_len cr"
  note y = cr_realloc_spec [OF assms(1,4), of h]
  from y(1) show ?thesis
  proof (cases rule: cr_yieldsE)
    case (ok cr1 h1)
    have l: "cr_len cr1 = ?len" "?len + 2 \<le> length (cr_points cr1)"
      using y(2) [OF ok(1)] ok(2) by (auto simp: cr_inv_def)
    define pt1 where "pt1 = take 1 (cr_points cr1) @ take ?len (cr_points cr1) @ drop (1 + ?len) (cr_points cr1)"
    have len1: "length pt1 = length (cr_points cr1)" using l by (simp add: pt1_def)
    have m: "memmove_in (cr_points cr1) 1 0 ?len = Some pt1"
      using l by (simp add: memmove_in_eq_Some_iff pt1_def)
    define pt3 where "pt3 = pt1[0 := 0, ?len + 1 := UINT32_MAX]"
    have w: "wr pt1 0 0 = Some (pt1[0 := 0])" "wr (pt1[0 := 0]) (?len + 1) UINT32_MAX = Some pt3"
      using l len1 by (auto simp: wr_def pt3_def)
    let ?cr = "cr1\<lparr>cr_points := pt3, cr_len := ?len + 2\<rparr>"
    have inv: "cr_inv ?cr" using ok(2) l len1 by (simp add: cr_inv_def pt3_def)
    obtain x rest where xr: "drop (1 + ?len) (cr_points cr1) = x # rest"
      using l by (cases "drop (1 + ?len) (cr_points cr1)") auto
    have A: "take ?len (cr_points cr1) = cr_pts cr" "length (cr_pts cr) = ?len"
      using ok(4) l assms(1) by (simp_all add: cr_pts_def cr_inv_def)
    have "pt1[0 := 0] = 0 # cr_pts cr @ x # rest"
      using l xr A by (cases "cr_points cr1") (auto simp: pt1_def)
    then have "pt3 = 0 # cr_pts cr @ UINT32_MAX # rest"
      using A by (simp add: pt3_def list_update_append)
    moreover have "cr_pts ?cr = take (?len + 2) pt3" by (simp add: cr_pts_def)
    ultimately have pts: "cr_pts ?cr = 0 # cr_pts cr @ [UINT32_MAX]"
      using A(2) by (simp del: select_convs)
    have sorted: "sorted (0 # cr_pts cr @ [UINT32_MAX])"
      using assms(2) le_UINT32_MAX by (simp add: sorted_append)
    from cr_compress_spec [OF inv] obtain cr2 where c: "cr_compress ?cr = Some cr2" "cr_inv cr2"
      "cr_pts cr2 = merge_pairs (cr_pts ?cr)" "cr_realloc_func cr2 = cr_realloc_func ?cr" by auto
    have ev: "even (length (0 # cr_pts cr @ [UINT32_MAX]))" using assms(1,3) by simp
    have "cr_invert cr h = Some (0, cr2, h1)"
      using ok(1) m w c(1) l by (simp add: cr_invert_def Let_def)
    moreover have "in_points (cr_pts cr2) k \<longleftrightarrow> \<not> in_points (cr_pts cr) k" if "k < UINT32_MAX" for k
      unfolding c(3) pts merge_pairs_points [OF ev]
      using that by (simp add: in_points_Cons in_points_append not_le)
    moreover have "cr_canon (cr_pts cr2)"
      unfolding c(3) pts by (rule merge_pairs_canon [OF sorted ev])
    ultimately show ?thesis using c(2,4) ok(3) by (simp add: cr_yields_def)
  next
    case (fail cr1 h1)
    then show ?thesis by (simp add: cr_invert_def Let_def cr_yields_fail)
  qed
qed

subsection \<open>Sorting and removing overlaps\<close>

interpretation pc: comparator point_cmp
  by unfold_locales (auto simp: point_cmp_def split: if_splits)

text \<open>The scan on the list of intervals, ordered by their start.\<close>

definition in_pairs :: "(u32 \<times> u32) list \<Rightarrow> u32 \<Rightarrow> bool" where
  "in_pairs ps c \<longleftrightarrow> (\<exists>(s, e)\<in>set ps. s \<le> c \<and> c < e)"

definition starts_sorted :: "(u32 \<times> u32) list \<Rightarrow> bool" where
  "starts_sorted ps \<longleftrightarrow> sorted_wrt (\<lambda>p q. fst p \<le> fst q) ps \<and> (\<forall>(s, e)\<in>set ps. s \<le> e)"

fun cover :: "u32 \<Rightarrow> (u32 \<times> u32) list \<Rightarrow> u32 \<times> (u32 \<times> u32) list" where
  "cover e [] = (e, [])"
| "cover e ((s1, e1) # r) =
     (if s1 > e then (e, (s1, e1) # r) else if e1 \<le> e then cover e r else cover e1 r)"

lemma cover_length: "cover e r = (e', r') \<Longrightarrow> length r' \<le> length r"
  by (induction e r rule: cover.induct) (auto split: if_splits)

function overlaps :: "(u32 \<times> u32) list \<Rightarrow> (u32 \<times> u32) list" where
  "overlaps [] = []"
| "overlaps ((s, e) # r) = (case cover e r of (e', r') \<Rightarrow> (s, e') # overlaps r')"
  by pat_completeness auto
termination by (relation "measure length") (auto dest!: cover_length [OF sym])

lemma in_pairs_simps [simp]:
  "\<not> in_pairs [] c" "in_pairs ((s, e) # ps) c \<longleftrightarrow> s \<le> c \<and> c < e \<or> in_pairs ps c"
  by (auto simp: in_pairs_def)

lemma cover_shape:
  "cover e r = (e', r') \<Longrightarrow> starts_sorted r \<Longrightarrow>
     e \<le> e' \<and> starts_sorted r' \<and> (\<forall>p\<in>set r'. e' < fst p) \<and> set r' \<subseteq> set r"
proof (induction e r rule: cover.induct)
  case (2 e s1 e1 r)
  have "starts_sorted r" using "2.prems"(2) by (auto simp: starts_sorted_def)
  moreover have "\<forall>p\<in>set r. s1 \<le> fst p" using "2.prems"(2) by (auto simp: starts_sorted_def)
  ultimately show ?case using 2 by (auto split: if_splits dest: less_le_trans)
qed (simp add: starts_sorted_def)

lemma cover_mem:
  "cover e r = (e', r') \<Longrightarrow> starts_sorted r \<Longrightarrow> s \<le> e \<Longrightarrow> \<forall>p\<in>set r. s \<le> fst p \<Longrightarrow>
     (s \<le> c \<and> c < e') \<or> in_pairs r' c \<longleftrightarrow> (s \<le> c \<and> c < e) \<or> in_pairs r c"
proof (induction e r rule: cover.induct)
  case (2 e s1 e1 r)
  have "starts_sorted r" "s1 \<le> e1" using "2.prems"(2) by (auto simp: starts_sorted_def)
  then show ?case
    using 2 by (auto split: if_splits)
qed simp

lemma overlaps_mem: "starts_sorted ps \<Longrightarrow> in_pairs (overlaps ps) c \<longleftrightarrow> in_pairs ps c"
proof (induction ps rule: overlaps.induct)
  case (2 s e r)
  obtain e' r' where cv: "cover e r = (e', r')" by force
  have r: "starts_sorted r" "s \<le> e" "\<forall>p\<in>set r. s \<le> fst p"
    using "2.prems" by (auto simp: starts_sorted_def)
  from 2 cv cover_shape [OF cv r(1)] cover_mem [OF cv r(1,2,3), of c] show ?case by simp
qed simp

lemma overlaps_sorted: "starts_sorted ps \<Longrightarrow>
   sorted (unpairs (overlaps ps)) \<and> (\<forall>x\<in>set (unpairs (overlaps ps)). \<forall>m. (\<forall>p\<in>set ps. m \<le> fst p) \<longrightarrow> m \<le> x)"
proof (induction ps rule: overlaps.induct)
  case (2 s e r)
  obtain e' r' where cv: "cover e r = (e', r')" by force
  have r: "starts_sorted r" "s \<le> e" "\<forall>p\<in>set r. s \<le> fst p"
    using "2.prems" by (auto simp: starts_sorted_def)
  note sh = cover_shape [OF cv r(1)]
  from "2.IH" [OF cv [symmetric]] sh have
    ih: "sorted (unpairs (overlaps r'))" "\<And>x. x \<in> set (unpairs (overlaps r')) \<Longrightarrow> e' \<le> x"
    by (auto dest: less_imp_le)
  have "s \<le> e'" using r(2) sh by auto
  with ih have "s \<le> x" if "x \<in> set (unpairs (overlaps r'))" for x using that order_trans by blast
  with ih \<open>s \<le> e'\<close> cv show ?case by (auto intro: order_trans)
qed simp

lemma length_unpairs [simp]: "length (unpairs ps) = 2 * length ps"
  by (induction ps rule: unpairs.induct) auto

lemma pairs_of_unpairs [simp]: "pairs_of (unpairs ps) = ps"
  by (induction ps rule: unpairs.induct) auto

lemma unpairs_pairs_of: "even (length xs) \<Longrightarrow> unpairs (pairs_of xs) = xs"
  by (induction xs rule: pairs_of.induct) auto

lemma length_pairs_of [simp]: "length (pairs_of xs) = length xs div 2"
  by (induction xs rule: pairs_of.induct) auto

text \<open>The in-place scan computes \<open>overlaps\<close>.\<close>

lemma drop_pair:
  assumes "i < len" and "even i" and "even len" and "len \<le> length pt"
  shows "i + 1 < len" and "pairs_of (drop i (take len pt)) = (pt ! i, pt ! (i + 1)) # pairs_of (drop (i + 2) (take len pt))"
proof -
  show "i + 1 < len" using assms by (cases "i + 1 = len") auto
  then have "drop i (take len pt) = pt ! i # pt ! (i + 1) # drop (i + 2) (take len pt)"
    using assms(4) by (simp add: Cons_nth_drop_Suc [symmetric] eval_nat_numeral)
  then show "pairs_of (drop i (take len pt)) = (pt ! i, pt ! (i + 1)) # pairs_of (drop (i + 2) (take len pt))" by simp
qed

lemma overlap_run_cover:
  "even i \<Longrightarrow> even len \<Longrightarrow> len \<le> length pt \<Longrightarrow> i \<le> len \<Longrightarrow>
   \<exists>i' e'. overlap_run pt len i e = Some (i', e') \<and> i \<le> i' \<and> even i' \<and> i' \<le> len \<and>
     cover e (pairs_of (drop i (take len pt))) = (e', pairs_of (drop i' (take len pt)))"
proof (induction pt len i e rule: overlap_run.induct)
  case (1 pt len i e)
  show ?case
  proof (cases "i < len")
    case True
    note d = drop_pair [OF True "1.prems"(1,2,3)]
    have r: "rd pt i = Some (pt ! i)" "rd pt (i + 1) = Some (pt ! (i + 1))"
      using d(1) "1.prems" by (simp_all add: rd_def)
    have i2: "even (i + 2)" "i + 2 \<le> len" using d(1) "1.prems" by auto
    consider "pt ! i > e" | "\<not> pt ! i > e" "pt ! (i + 1) \<le> e" | "\<not> pt ! i > e" "\<not> pt ! (i + 1) \<le> e" by blast
    then show ?thesis
    proof cases
      case 2
      with "1.IH"(1) [OF True r 2] i2 "1.prems" True r d show ?thesis
        by (subst overlap_run.simps) auto
    next
      case 3
      with "1.IH"(2) [OF True r 3] i2 "1.prems" True r d show ?thesis
        by (subst overlap_run.simps) auto
    qed (use True r d "1.prems" in \<open>subst overlap_run.simps, auto\<close>)
  qed (use "1.prems" in \<open>subst overlap_run.simps, auto\<close>)
qed

lemma overlap_loop_overlaps:
  "even i \<Longrightarrow> even len \<Longrightarrow> len \<le> length pt \<Longrightarrow> i \<le> len \<Longrightarrow> j \<le> i \<Longrightarrow>
   \<exists>pt' j'. overlap_loop pt len i j = Some (pt', j') \<and> length pt' = length pt \<and> j \<le> j' \<and> j' \<le> len \<and>
     take j' pt' = take j pt @ unpairs (overlaps (pairs_of (drop i (take len pt))))"
proof (induction pt len i j rule: overlap_loop.induct)
  case (1 pt len i j)
  show ?case
  proof (cases "i < len")
    case True
    note d = drop_pair [OF True "1.prems"(1,2,3)]
    have r: "rd pt i = Some (pt ! i)" "rd pt (i + 1) = Some (pt ! (i + 1))"
      using d(1) "1.prems" by (simp_all add: rd_def)
    have "even (i + 2)" "i + 2 \<le> len" using d(1) "1.prems" by auto
    from overlap_run_cover [OF this(1) "1.prems"(2,3) this(2), of "pt ! (i + 1)"] obtain i' e' where
      run: "overlap_run pt len (i + 2) (pt ! (i + 1)) = Some (i', e')" "i + 2 \<le> i'" "even i'" "i' \<le> len"
        "cover (pt ! (i + 1)) (pairs_of (drop (i + 2) (take len pt))) = (e', pairs_of (drop i' (take len pt)))"
      by auto
    define pt1 where "pt1 = pt[j := pt ! i]"
    define pt2 where "pt2 = pt1[j + 1 := e']"
    have w: "wr pt j (pt ! i) = Some pt1" "wr pt1 (j + 1) e' = Some pt2"
      using d(1) "1.prems" by (auto simp: wr_def pt1_def pt2_def)
    have t: "take (j + 2) pt2 = take j pt @ [pt ! i, e']"
      using d(1) "1.prems" by (simp add: pt2_def pt1_def take_Suc_conv_app_nth eval_nat_numeral)
    have dr: "drop i' (take len pt2) = drop i' (take len pt)"
      using run(2) "1.prems" by (auto simp: pt2_def pt1_def drop_take)
    have "len \<le> length pt2" "j + 2 \<le> i'" using "1.prems" run(2) by (auto simp: pt1_def pt2_def)
    from "1.IH" [OF True r run(1) refl w run(3) "1.prems"(2) this(1) run(4) this(2)] obtain pt' j' where rec:
      "overlap_loop pt2 len i' (j + 2) = Some (pt', j')" "length pt' = length pt2" "j + 2 \<le> j'" "j' \<le> len"
      "take j' pt' = take (j + 2) pt2 @ unpairs (overlaps (pairs_of (drop i' (take len pt2))))" by auto
    have "overlap_loop pt len i j = Some (pt', j')"
      using True r run(1) w rec(1) by (subst overlap_loop.simps) simp
    moreover have "take j' pt' = take j pt @ unpairs (overlaps (pairs_of (drop i (take len pt))))"
      using rec(5) t dr d(2) run(5) by simp
    ultimately show ?thesis using rec by (auto simp: pt1_def pt2_def)
  qed (use "1.prems" in \<open>subst overlap_loop.simps, auto\<close>)
qed

lemma cr_sort_and_remove_overlap_spec:
  assumes inv: "cr_inv cr" and ev: "even (cr_len cr)"
    and le: "\<And>s e. (s, e) \<in> set (pairs_of (cr_pts cr)) \<Longrightarrow> s \<le> e"
  shows "\<exists>cr'. cr_sort_and_remove_overlap cr = Some cr' \<and> cr_inv cr' \<and>
    cr_realloc_func cr' = cr_realloc_func cr \<and> sorted (cr_pts cr') \<and> even (cr_len cr') \<and>
    (\<forall>c. in_points (cr_pts cr') c \<longleftrightarrow> in_pairs (pairs_of (cr_pts cr)) c)"
proof -
  have len: "cr_len cr \<le> length (cr_points cr)" and two: "2 * (cr_len cr div 2) = cr_len cr"
    using inv ev by (auto simp: cr_inv_def)
  obtain ys where ys: "rqsort point_cmp (pairs_of (cr_pts cr)) = Some ys" "mset ys = mset (pairs_of (cr_pts cr))"
    "sorted_wrt (\<lambda>a b. point_cmp a b \<le> 0) ys"
    using pc.rqsort_sorts by blast
  have set: "set ys = set (pairs_of (cr_pts cr))" using ys(2) by (metis set_mset_mset)
  have "(\<lambda>a b. point_cmp a b \<le> 0) = (\<lambda>p q. fst p \<le> fst q)"
    by (auto simp: point_cmp_def fun_eq_iff split: if_splits)
  with ys(3) le have ss: "starts_sorted ys" by (auto simp: starts_sorted_def set)
  have lys: "length (unpairs ys) = cr_len cr"
    using mset_eq_length [OF ys(2)] inv two by simp
  define pt where "pt = unpairs ys @ drop (cr_len cr) (cr_points cr)"
  have b: "blit (cr_points cr) 0 (unpairs ys) = Some pt" "length pt = length (cr_points cr)"
    using len lys by (simp_all add: blit_def pt_def)
  have tk: "take (cr_len cr) pt = unpairs ys" using lys by (simp add: pt_def)
  from overlap_loop_overlaps [of 0 "cr_len cr" pt 0] ev len b(2) tk obtain pt' j where o:
    "overlap_loop pt (cr_len cr) 0 0 = Some (pt', j)" "length pt' = length pt" "j \<le> cr_len cr"
    "take j pt' = unpairs (overlaps ys)" by auto
  let ?cr = "cr\<lparr>cr_points := pt', cr_len := j\<rparr>"
  have "cr_sort_and_remove_overlap cr = Some ?cr"
    using len two ys(1) b(1) o(1) by (simp add: cr_sort_and_remove_overlap_def slice_def cr_pts_def)
  moreover have "cr_inv ?cr" using inv o b(2) by (simp add: cr_inv_def)
  moreover have pts: "cr_pts ?cr = unpairs (overlaps ys)" using o(4) by (simp add: cr_pts_def)
  moreover have "even j" using o(2,3,4) b(2) len by (metis dvd_triv_left length_take length_unpairs min_absorb2 order_trans)
  moreover have srt: "sorted (unpairs (overlaps ys))" using overlaps_sorted [OF ss] by blast
  moreover have "in_points (unpairs (overlaps ys)) c \<longleftrightarrow> in_pairs (pairs_of (cr_pts cr)) c" for c
    using in_points_pairs [OF srt, of c] overlaps_mem [OF ss, of c] by (simp add: in_pairs_def set)
  ultimately show ?thesis by simp
qed

subsection \<open>Properties\<close>

text \<open>A concrete allocator for the witnesses: it never fails and fills new space with zeros.\<close>

definition zero_realloc :: "unit cr_realloc_fn" where
  "zero_realloc h b n = ((), Some (take (n div 4) b @ replicate (n div 4 - length b) 0))"

lemma zero_realloc_ok: "cr_realloc_ok zero_realloc" "cr_realloc_total zero_realloc"
  by (auto simp: cr_realloc_ok_def cr_realloc_total_def zero_realloc_def)

text \<open>
  C11. \<^verbatim>\<open>cr_op\<close> computes union, intersection or symmetric difference: on two sorted interval
  lists it never leaves its buffers, fails only when the allocator does, and otherwise leaves a
  strictly increasing list of even length that denotes the operation on the two sets.
\<close>

theorem cr_op_correct:
  assumes "cr_inv cr" and "cr_len cr = 0" and "sorted a" and "sorted b"
    and "even (length a)" and "even (length b)" and "length a + length b \<le> CR_MAX"
  shows "\<exists>ret cr' h'. cr_op cr a (length a) b (length b) op h = Some (ret, cr', h') \<and> cr_inv cr' \<and>
    (ret = 0 \<and> cr_canon (cr_pts cr') \<and>
       (\<forall>c. in_points (cr_pts cr') c \<longleftrightarrow>
          (case op of CR_OP_UNION \<Rightarrow> in_points a c \<or> in_points b c
                    | CR_OP_INTER \<Rightarrow> in_points a c \<and> in_points b c
                    | CR_OP_XOR \<Rightarrow> in_points a c \<noteq> in_points b c)) \<or>
     ret = - 1 \<and> \<not> cr_realloc_total (cr_realloc_func cr))"
  using cr_op_spec [OF assms, of op h] by (cases op) (auto simp: cr_yields_def op_result_def)

theorem cr_op_correct_witness:
  "\<exists>ret cr' h'. cr_op (cr_init zero_realloc) [1, 5, 7, 9] (length [1, 5, 7, 9 :: u32]) [3, 8] (length [3, 8 :: u32]) CR_OP_XOR ()
      = Some (ret, cr', h') \<and> cr_inv cr' \<and>
    (ret = 0 \<and> cr_canon (cr_pts cr') \<and>
       (\<forall>c. in_points (cr_pts cr') c \<longleftrightarrow> 
          in_points [1, 5, 7, 9] c \<noteq> in_points [3, 8] c) \<or>
     ret = - 1 \<and> \<not> cr_realloc_total (cr_realloc_func (cr_init zero_realloc)))"
  using cr_op_correct [OF cr_inv_init [OF zero_realloc_ok(1)], of "[1, 5, 7, 9]" "[3, 8]" CR_OP_XOR "()"]
  by (simp add: CR_MAX_def cr_init_def)

text \<open>
  C17. \<^verbatim>\<open>cr_invert\<close> complements a range within the code points below \<^verbatim>\<open>UINT32_MAX\<close> and leaves it
  canonical, or reports that the allocator failed.
\<close>

theorem cr_invert_correct:
  assumes "cr_inv cr" and "sorted (cr_pts cr)" and "even (cr_len cr)" and "cr_len cr + 2 \<le> CR_MAX"
  shows "\<exists>ret cr' h'. cr_invert cr h = Some (ret, cr', h') \<and> cr_inv cr' \<and>
    (ret = 0 \<and> cr_canon (cr_pts cr') \<and>
       (\<forall>c. c < UINT32_MAX \<longrightarrow> in_points (cr_pts cr') c \<noteq> in_points (cr_pts cr) c) \<or>
     ret = - 1 \<and> \<not> cr_realloc_total (cr_realloc_func cr))"
  using cr_invert_spec [OF assms, of h] by (auto simp: cr_yields_def)

definition sample_range :: "unit CharRange" where
  "sample_range = \<lparr>cr_len = 4, cr_size = 5, cr_points = [20, 30, 10, 25, 0], cr_realloc_func = zero_realloc\<rparr>"

lemma sample_range_inv: "cr_inv sample_range"
  by (simp add: cr_inv_def sample_range_def CR_MAX_def zero_realloc_ok)

theorem cr_invert_correct_witness:
  "\<exists>ret cr' h'. cr_invert (sample_range\<lparr>cr_len := 2\<rparr>) () = Some (ret, cr', h') \<and> cr_inv cr' \<and>
    (ret = 0 \<and> cr_canon (cr_pts cr') \<and>
       (\<forall>c. c < UINT32_MAX \<longrightarrow> in_points (cr_pts cr') c \<noteq> in_points (cr_pts (sample_range\<lparr>cr_len := 2\<rparr>)) c) \<or>
     ret = - 1 \<and> \<not> cr_realloc_total (cr_realloc_func (sample_range\<lparr>cr_len := 2\<rparr>)))"
  by (rule cr_invert_correct)
    (use sample_range_inv in \<open>auto simp: cr_inv_def cr_pts_def sample_range_def CR_MAX_def\<close>)

text \<open>
  C12. \<^verbatim>\<open>cr_sort_and_remove_overlap\<close> turns unsorted, overlapping intervals into a sorted list of
  disjoint ones that covers the same code points, in place.
\<close>

theorem cr_sort_and_remove_overlap_correct:
  assumes "cr_inv cr" and "even (cr_len cr)"
    and "\<And>s e. (s, e) \<in> set (pairs_of (cr_pts cr)) \<Longrightarrow> s \<le> e"
  shows "\<exists>cr'. cr_sort_and_remove_overlap cr = Some cr' \<and> cr_inv cr' \<and>
    sorted (cr_pts cr') \<and> even (cr_len cr') \<and>
    (\<forall>c. in_points (cr_pts cr') c \<longleftrightarrow> in_pairs (pairs_of (cr_pts cr)) c)"
  using cr_sort_and_remove_overlap_spec [OF assms] by blast

theorem cr_sort_and_remove_overlap_correct_witness:
  "\<exists>cr'. cr_sort_and_remove_overlap sample_range = Some cr' \<and> cr_inv cr' \<and>
    sorted (cr_pts cr') \<and> even (cr_len cr') \<and>
    (\<forall>c. in_points (cr_pts cr') c \<longleftrightarrow> in_pairs (pairs_of (cr_pts sample_range)) c)"
  by (rule cr_sort_and_remove_overlap_correct [OF sample_range_inv])
    (auto simp: sample_range_def cr_pts_def)

text \<open>
  \<^verbatim>\<open>cr_union_interval\<close> adds the closed interval from \<^verbatim>\<open>c1\<close> to \<^verbatim>\<open>c2\<close> to a canonical range.
\<close>

theorem cr_union_interval_correct:
  assumes "cr_inv cr" and "cr_canon (cr_pts cr)" and "c1 \<le> c2" and "c2 < UINT32_MAX" and "cr_len cr + 2 \<le> CR_MAX"
  shows "\<exists>ret cr' h'. cr_union_interval cr c1 c2 h = Some (ret, cr', h') \<and> cr_inv cr' \<and>
    (ret = 0 \<and> cr_canon (cr_pts cr') \<and>
       (\<forall>c. in_points (cr_pts cr') c \<longleftrightarrow> in_points (cr_pts cr) c \<or> c1 \<le> c \<and> c \<le> c2) \<or>
     ret = - 1 \<and> \<not> cr_realloc_total (cr_realloc_func cr))"
  using cr_union_interval_spec [OF assms, of h] by (auto simp: cr_yields_def)

theorem cr_union_interval_correct_witness:
  "\<exists>ret cr' h'. cr_union_interval (cr_init zero_realloc) 97 122 () = Some (ret, cr', h') \<and> cr_inv cr' \<and>
    (ret = 0 \<and> cr_canon (cr_pts cr') \<and>
       (\<forall>c. in_points (cr_pts cr') c \<longleftrightarrow> in_points (cr_pts (cr_init zero_realloc)) c \<or> 97 \<le> c \<and> c \<le> 122) \<or>
     ret = - 1 \<and> \<not> cr_realloc_total (cr_realloc_func (cr_init zero_realloc)))"
  by (rule cr_union_interval_correct)
    (simp_all add: cr_inv_init zero_realloc_ok cr_canon_def UINT32_MAX_def CR_MAX_def, simp add: cr_init_def)

end
