(* ===== verification/CaseConv.thy ===== *)
theory CaseConv
  imports CharRange UniTables
begin

section \<open>Case conversion (\<^verbatim>\<open>js/libunicode.c\<close>)\<close>

text \<open>
  \<^verbatim>\<open>lre_case_conv\<close> and \<^verbatim>\<open>lre_canonicalize\<close> look a code point up by binary search in
  \<^verbatim>\<open>case_conv_table1\<close>, whose entries describe runs of code points, and interpret the entry. The
  result array \<^verbatim>\<open>res\<close> and the returned length are one list. A read outside a table is \<open>None\<close>.
\<close>

subsection \<open>Binary search for a run\<close>

text \<open>
  The search loop that \<^verbatim>\<open>lre_case_conv\<close>, \<^verbatim>\<open>lre_canonicalize\<close>, \<^verbatim>\<open>lre_is_cased\<close> and
  \<^verbatim>\<open>unicode_decomp_char\<close> share; they differ in how code and length are packed into an entry.
  \<open>Some None\<close> is falling out of the loop.
\<close>

function range_search ::
    "(u32 \<Rightarrow> u32) \<Rightarrow> (u32 \<Rightarrow> u32) \<Rightarrow> u32 list \<Rightarrow> u32 \<Rightarrow> int \<Rightarrow> int \<Rightarrow> (nat \<times> u32) option option" where
  "range_search run_code run_len tab c idx_min idx_max =
     (if idx_min \<le> idx_max then
        let idx = (idx_max + idx_min) div 2
        in if idx < 0 then None
           else do {
             v \<leftarrow> rd tab (nat idx);
             if c < run_code v then range_search run_code run_len tab c idx_min (idx - 1)
             else if c \<ge> run_code v + run_len v then range_search run_code run_len tab c (idx + 1) idx_max
             else Some (Some (nat idx, v)) }
      else Some None)"
  by pat_completeness auto
termination
  by (relation "measure (\<lambda>(run_code, run_len, tab, c, lo, hi). nat (hi - lo + 1))") auto

declare range_search.simps [simp del]

text \<open>The fields of an entry of \<^verbatim>\<open>case_conv_table1\<close>: 17 bits of code, 7 of length, 4 of type.\<close>

definition conv_code :: "u32 \<Rightarrow> u32" where
  "conv_code v = drop_bit (32 - 17) v"

definition conv_len :: "u32 \<Rightarrow> u32" where
  "conv_len v = drop_bit (32 - 17 - 7) v AND 0x7f"

definition conv_run_type :: "u32 \<Rightarrow> u32" where
  "conv_run_type v = drop_bit (32 - 17 - 7 - 4) v AND 0xf"

definition case_conv_search :: "u32 \<Rightarrow> (nat \<times> u32) option option" where
  "case_conv_search c =
     range_search conv_code conv_len case_conv_table1 c 0 (int (length case_conv_table1) - 1)"

subsection \<open>Conversion\<close>

abbreviation (input) "RUN_TYPE_U \<equiv> 0 :: u32"
abbreviation (input) "RUN_TYPE_L \<equiv> 1 :: u32"
abbreviation (input) "RUN_TYPE_UF \<equiv> 2 :: u32"
abbreviation (input) "RUN_TYPE_LF \<equiv> 3 :: u32"
abbreviation (input) "RUN_TYPE_UL \<equiv> 4 :: u32"
abbreviation (input) "RUN_TYPE_LSU \<equiv> 5 :: u32"
abbreviation (input) "RUN_TYPE_U2L_399_EXT2 \<equiv> 6 :: u32"
abbreviation (input) "RUN_TYPE_UF_D20 \<equiv> 7 :: u32"
abbreviation (input) "RUN_TYPE_UF_D1_EXT \<equiv> 8 :: u32"
abbreviation (input) "RUN_TYPE_U_EXT \<equiv> 9 :: u32"
abbreviation (input) "RUN_TYPE_LF_EXT \<equiv> 10 :: u32"
abbreviation (input) "RUN_TYPE_UF_EXT2 \<equiv> 11 :: u32"
abbreviation (input) "RUN_TYPE_LF_EXT2 \<equiv> 12 :: u32"
abbreviation (input) "RUN_TYPE_UF_EXT3 \<equiv> 13 :: u32"

definition conv_ext :: "u32 \<Rightarrow> u32 option" where
  "conv_ext i = do { x \<leftarrow> rd case_conv_ext (unat i); Some (ucast x) }"

definition conv_data_val :: "u32 \<Rightarrow> u8 \<Rightarrow> u32" where
  "conv_data_val v t2 = push_bit 8 (v AND 0xf) OR ucast t2"

definition conv_data :: "nat \<Rightarrow> u32 \<Rightarrow> u32 option" where
  "conv_data idx v = do { t2 \<leftarrow> rd case_conv_table2 idx; Some (conv_data_val v t2) }"

definition ascii_case :: "u32 \<Rightarrow> bool \<Rightarrow> u32" where
  "ascii_case c lower =
     (if lower then (if c \<ge> 0x41 \<and> c \<le> 0x5a then c - 0x41 + 0x61 else c)
      else (if c \<ge> 0x61 \<and> c \<le> 0x7a then c - 0x61 + 0x41 else c))"

text \<open>
  \<^verbatim>\<open>lre_case_conv_entry\<close> calls \<^verbatim>\<open>lre_case_conv1\<close> only when folding (\<^verbatim>\<open>conv_type == 2\<close>), and then
  with \<^verbatim>\<open>conv_type\<close> 1, so the recursion is two levels deep.
\<close>

function lre_case_conv :: "u32 \<Rightarrow> int \<Rightarrow> u32 list option"
  and lre_case_conv_entry :: "u32 \<Rightarrow> int \<Rightarrow> nat \<Rightarrow> u32 \<Rightarrow> u32 list option"
  and lre_case_conv1 :: "u32 \<Rightarrow> int \<Rightarrow> u32 option"
where
  "lre_case_conv1 c conv_type = do { res \<leftarrow> lre_case_conv c conv_type; rd res 0 }"
| "lre_case_conv_entry c conv_type idx v = do {
     data \<leftarrow> conv_data idx v;
     let is_lower = (if conv_type \<noteq> 0 then 1 else 0 :: u32);
     let run_type = conv_run_type v;
     let code = conv_code v;
     if run_type \<le> RUN_TYPE_LF then
       if conv_type = uint (run_type AND 1) \<or> run_type \<ge> RUN_TYPE_UF \<and> conv_type = 2 then do {
         w \<leftarrow> rd case_conv_table1 (unat data);
         Some [c - code + drop_bit (32 - 17) w] }
       else Some [c]
     else if run_type = RUN_TYPE_UL then
       let a = c - code
       in Some [if a AND 1 \<noteq> 1 - is_lower then c else (a XOR 1) + code]
     else if run_type = RUN_TYPE_LSU then
       let a = c - code
       in Some [if a = 1 then c + (2 * is_lower - 1)
                else if a = (1 - is_lower) * 2 then c + (2 * is_lower - 1) * 2 else c]
     else if run_type = RUN_TYPE_U2L_399_EXT2 then
       if is_lower = 0 then do { e \<leftarrow> conv_ext (drop_bit 6 data); Some [c - code + e, 0x399] }
       else do { e \<leftarrow> conv_ext (data AND 0x3f); Some [c - code + e] }
     else if run_type = RUN_TYPE_UF_D20 then
       Some [if conv_type = 1 then c else data + (if conv_type = 2 then 0x20 else 0)]
     else if run_type = RUN_TYPE_UF_D1_EXT then
       if conv_type = 1 then Some [c]
       else do { e \<leftarrow> conv_ext data; Some [e + (if conv_type = 2 then 1 else 0)] }
     else if run_type = RUN_TYPE_U_EXT \<or> run_type = RUN_TYPE_LF_EXT then
       if is_lower \<noteq> run_type - RUN_TYPE_U_EXT then Some [c]
       else do { e \<leftarrow> conv_ext data; Some [e] }
     else if run_type = RUN_TYPE_LF_EXT2 then
       if is_lower = 0 then Some [c]
       else do {
         e0 \<leftarrow> conv_ext (drop_bit 6 data);
         e1 \<leftarrow> conv_ext (data AND 0x3f);
         Some [c - code + e0, e1] }
     else if run_type = RUN_TYPE_UF_EXT2 then
       if conv_type = 1 then Some [c]
       else do {
         e0 \<leftarrow> conv_ext (drop_bit 6 data);
         e1 \<leftarrow> conv_ext (data AND 0x3f);
         if conv_type = 2 then do {
           r0 \<leftarrow> lre_case_conv1 (c - code + e0) 1;
           r1 \<leftarrow> lre_case_conv1 e1 1;
           Some [r0, r1] }
         else Some [c - code + e0, e1] }
     else
       if conv_type = 1 then Some [c]
       else do {
         e0 \<leftarrow> conv_ext (drop_bit 8 data);
         e1 \<leftarrow> conv_ext (drop_bit 4 data AND 0xf);
         e2 \<leftarrow> conv_ext (data AND 0xf);
         if conv_type = 2 then do {
           r0 \<leftarrow> lre_case_conv1 e0 1;
           r1 \<leftarrow> lre_case_conv1 e1 1;
           r2 \<leftarrow> lre_case_conv1 e2 1;
           Some [r0, r1, r2] }
         else Some [e0, e1, e2] } }"
| "lre_case_conv c conv_type =
     (if c < 128 then Some [ascii_case c (conv_type \<noteq> 0)]
      else do {
        r \<leftarrow> case_conv_search c;
        (case r of None \<Rightarrow> Some [c] | Some (idx, v) \<Rightarrow> lre_case_conv_entry c conv_type idx v) })"
  by pat_completeness auto
termination
  by (relation "measure (\<lambda>x. case x of
        Inl (c, t) \<Rightarrow> (if t = 2 then 3 else 0) + 1
      | Inr (Inl (c, t, idx, v)) \<Rightarrow> (if t = 2 then 3 else 0)
      | Inr (Inr (c, t)) \<Rightarrow> (if t = 2 then 3 else 0) + 2)") auto

declare lre_case_conv.simps [simp del] lre_case_conv_entry.simps [simp del] lre_case_conv1.simps [simp del]

subsection \<open>Canonicalization for regular expressions\<close>

definition lre_case_folding_entry :: "u32 \<Rightarrow> nat \<Rightarrow> u32 \<Rightarrow> bool \<Rightarrow> u32 option" where
  "lre_case_folding_entry c idx v is_unicode =
     (if is_unicode then do {
        res \<leftarrow> lre_case_conv_entry c 2 idx v;
        if length res = 1 then rd res 0
        else Some (if c = 0xfb06 then 0xfb05
                   else if c = 0x01fd3 then 0x390
                   else if c = 0x01fe3 then 0x3b0 else c) }
      else if c < 128 then Some (ascii_case c False)
      else do {
        res \<leftarrow> lre_case_conv_entry c 0 idx v;
        r0 \<leftarrow> rd res 0;
        Some (if length res = 1 \<and> r0 \<ge> 128 then r0 else c) })"

definition lre_canonicalize :: "u32 \<Rightarrow> bool \<Rightarrow> u32 option" where
  "lre_canonicalize c is_unicode =
     (if c < 128 then Some (ascii_case c is_unicode)
      else do {
        r \<leftarrow> case_conv_search c;
        (case r of None \<Rightarrow> Some c | Some (idx, v) \<Rightarrow> lre_case_folding_entry c idx v is_unicode) })"

subsection \<open>The search finds the run that covers a code point\<close>

definition covers :: "(u32 \<Rightarrow> u32) \<Rightarrow> (u32 \<Rightarrow> u32) \<Rightarrow> u32 \<Rightarrow> u32 \<Rightarrow> bool" where
  "covers run_code run_len v c \<longleftrightarrow> run_code v \<le> c \<and> c < run_code v + run_len v"

text \<open>
  What the search relies on: the runs of the table follow each other without overlap, and a code
  plus a length does not wrap around. The locale is interpreted on the case conversion table and
  carries over to the decomposition table, whose entries are packed differently.
\<close>

locale run_table =
  fixes run_code run_len :: "u32 \<Rightarrow> u32" and tab :: "u32 list"
  assumes ordered: "successively (\<lambda>x y. run_code x + run_len x \<le> run_code y) tab"
    and no_wrap: "run_code v \<le> run_code v + run_len v"
begin

lemma all_ordered: "i < j \<Longrightarrow> j < length tab \<Longrightarrow> run_code (tab ! i) + run_len (tab ! i) \<le> run_code (tab ! j)"
proof -
  assume ij: "i < j" "j < length tab"
  have "transp (\<lambda>x y. run_code x + run_len x \<le> run_code y)"
    by (rule transpI) (meson no_wrap order_trans)
  with ordered have "sorted_wrt (\<lambda>x y. run_code x + run_len x \<le> run_code y) tab"
    by (simp add: successively_iff_sorted_wrt_strong successively_conv_sorted_wrt)
  then show ?thesis using ij by (simp add: sorted_wrt_iff_nth_less)
qed

lemma search_loop:
  "0 \<le> lo \<Longrightarrow> hi < int (length tab) \<Longrightarrow>
   (\<And>i. i < length tab \<Longrightarrow> covers run_code run_len (tab ! i) c \<Longrightarrow> lo \<le> int i \<and> int i \<le> hi) \<Longrightarrow>
   (case range_search run_code run_len tab c lo hi of
      None \<Rightarrow> False
    | Some None \<Rightarrow> \<forall>i<length tab. \<not> covers run_code run_len (tab ! i) c
    | Some (Some (i, v)) \<Rightarrow> i < length tab \<and> v = tab ! i \<and> covers run_code run_len v c)"
proof (induction "nat (hi - lo + 1)" arbitrary: lo hi rule: less_induct)
  case less
  show ?case
  proof (cases "lo \<le> hi")
    case False
    then have "\<not> covers run_code run_len (tab ! i) c" if "i < length tab" for i
      using less.prems(3) [OF that] by auto
    with False show ?thesis by (simp add: range_search.simps)
  next
    case True
    define m where "m = (hi + lo) div 2"
    have m: "lo \<le> m" "m \<le> hi" "0 \<le> m" using True less.prems(1) by (auto simp: m_def)
    define v where "v = tab ! nat m"
    have rd: "rd tab (nat m) = Some v" "nat m < length tab" using m less.prems(2) by (auto simp: rd_def v_def)
    have step: "range_search run_code run_len tab c lo hi =
       (if c < run_code v then range_search run_code run_len tab c lo (m - 1)
        else if c \<ge> run_code v + run_len v then range_search run_code run_len tab c (m + 1) hi
        else Some (Some (nat m, v)))"
      using True m rd by (simp add: range_search.simps [of run_code run_len tab c lo hi] m_def [symmetric])
    consider (lt) "c < run_code v" | (gt) "\<not> c < run_code v" "c \<ge> run_code v + run_len v"
      | (eq) "\<not> c < run_code v" "\<not> c \<ge> run_code v + run_len v" by blast
    then show ?thesis
    proof cases
      case lt
      have "int i \<le> m - 1" if i: "i < length tab" "covers run_code run_len (tab ! i) c" for i
      proof (rule ccontr)
        assume "\<not> int i \<le> m - 1"
        then have "nat m \<le> i" by linarith
        then have "run_code v \<le> run_code (tab ! i)"
          using all_ordered [of "nat m" i] i(1) no_wrap [of v] by (cases "nat m = i") (auto simp: v_def)
        with lt i(2) show False by (auto simp: covers_def)
      qed
      with less.hyps [of "m - 1" lo] less.prems m True lt step show ?thesis by simp
    next
      case gt
      have "m + 1 \<le> int i" if i: "i < length tab" "covers run_code run_len (tab ! i) c" for i
      proof (rule ccontr)
        assume "\<not> m + 1 \<le> int i"
        then have le: "i \<le> nat m" by linarith
        have "run_code (tab ! i) + run_len (tab ! i) \<le> run_code v + run_len v"
        proof (cases "i = nat m")
          case False
          then have "run_code (tab ! i) + run_len (tab ! i) \<le> run_code v"
            using all_ordered [of i "nat m"] le rd(2) by (simp add: v_def)
          then show ?thesis using no_wrap [of v] by (rule order_trans)
        qed (simp add: v_def)
        with gt(2) i(2) show False by (auto simp: covers_def)
      qed
      with less.hyps [of hi "m + 1"] less.prems m True gt step show ?thesis by simp
    next
      case eq
      with step rd show ?thesis by (auto simp: covers_def v_def)
    qed
  qed
qed

lemma search_spec:
  "(case range_search run_code run_len tab c 0 (int (length tab) - 1) of
      None \<Rightarrow> False
    | Some None \<Rightarrow> \<forall>i<length tab. \<not> covers run_code run_len (tab ! i) c
    | Some (Some (i, v)) \<Rightarrow> i < length tab \<and> v = tab ! i \<and> covers run_code run_len v c)"
  by (rule search_loop) auto

end

lemma unat_conv_len_less: "unat (conv_len v) < 128"
  by (simp add: conv_len_def mask_literals(7) unat_and_mask)

lemma unat_conv_code_less: "unat (conv_code v) < 131072"
proof -
  have "unat (conv_code v) = unat v div 2 ^ 15" by (simp add: conv_code_def unat_drop_bit_div)
  also have "\<dots> < 131072" using unsigned_less [where w = v and ?'a = nat] by auto
  finally show ?thesis .
qed

lemma conv_no_wrap: "conv_code v \<le> conv_code v + conv_len v"
proof -
  have "unat (conv_code v + conv_len v) = unat (conv_code v) + unat (conv_len v)"
    using unat_conv_len_less [of v] unat_conv_code_less [of v] by (simp add: unat_word_ariths)
  then show ?thesis by (simp add: word_le_nat_alt)
qed

lemma case_conv_table1_ordered:
  "successively (\<lambda>x y. conv_code x + conv_len x \<le> conv_code y) case_conv_table1"
  by code_simp

interpretation cct: run_table conv_code conv_len case_conv_table1
  by unfold_locales (rule case_conv_table1_ordered, rule conv_no_wrap)

text \<open>
  C19. The binary search over the real \<^verbatim>\<open>case_conv_table1\<close> never reads outside it, ends, returns
  the entry whose run covers the code point, and falls out of the loop only when no entry of the
  370 covers it.
\<close>

theorem case_conv_search_correct:
  "case case_conv_search c of
     None \<Rightarrow> False
   | Some None \<Rightarrow> \<not> (\<exists>i<length case_conv_table1. covers conv_code conv_len (case_conv_table1 ! i) c)
   | Some (Some (i, v)) \<Rightarrow>
       i < length case_conv_table1 \<and> v = case_conv_table1 ! i \<and> covers conv_code conv_len v c"
  using cct.search_spec [of c] by (auto simp: case_conv_search_def split: option.splits)

subsection \<open>Conversion never reads outside its tables\<close>

definition conv_entry_ok :: "u32 \<Rightarrow> u8 \<Rightarrow> bool" where
  "conv_entry_ok v t2 =
     (let data = conv_data_val v t2; t = conv_run_type v
      in if t \<le> RUN_TYPE_LF then data < 370
         else if t = RUN_TYPE_U2L_399_EXT2 \<or> t = RUN_TYPE_UF_EXT2 \<or> t = RUN_TYPE_LF_EXT2
         then drop_bit 6 data < 58 \<and> data AND 0x3f < 58
         else if t = RUN_TYPE_UF_D1_EXT \<or> t = RUN_TYPE_U_EXT \<or> t = RUN_TYPE_LF_EXT then data < 58
         else True)"

lemma case_conv_tables_ok: "list_all2 conv_entry_ok case_conv_table1 case_conv_table2"
  by code_simp

lemma table_lengths: "length case_conv_table1 = 370" "length case_conv_table2 = 370" "length case_conv_ext = 58"
  by (simp_all add: case_conv_table1_def case_conv_table2_def case_conv_ext_def)

lemma conv_ext_Some: "i < 58 \<Longrightarrow> \<exists>x. conv_ext i = Some x"
  by (simp add: conv_ext_def rd_def table_lengths word_less_nat_alt)

lemma nibble_less: "unat (x AND 0xf :: u32) < 16"
  by (simp add: mask_literals(4) unat_and_mask)

lemma conv_data_val_less: "unat (conv_data_val v t) < 4096"
proof -
  note n = nibble_less [of v]
  have p: "unat (push_bit 8 (v AND 0xf)) = unat (v AND 0xf) * 256"
    unfolding unat_push_bit_mod using n by simp
  have t: "unat (ucast t :: u32) < 2 ^ 8"
    unfolding unat_ucast_mod by (rule le_less_trans [OF mod_less_eq_dividend]) simp
  have "unat (conv_data_val v t) = unat (ucast t :: u32) + unat (v AND 0xf) * 256"
    unfolding conv_data_val_def or.commute [of "push_bit 8 (v AND 0xf)"]
    by (subst unat_or_add [OF t]) (simp_all only: p, simp)
  also have "\<dots> < 256 + 15 * 256" using t n by simp
  finally show ?thesis by simp
qed

lemma conv_ext_nibble: "\<exists>y. conv_ext (x AND 0xf) = Some y" "\<exists>y. conv_ext (drop_bit 8 (conv_data_val v t)) = Some y"
  using nibble_less [of x] conv_data_val_less [of v t]
  by (auto intro!: conv_ext_Some simp: word_less_nat_alt unat_drop_bit_div)

definition conv_result :: "u32 list option \<Rightarrow> bool" where
  "conv_result r \<longleftrightarrow> (\<exists>res. r = Some res \<and> 1 \<le> length res \<and> length res \<le> 3)"

lemma lre_case_conv1_Some: "conv_result (lre_case_conv c t) \<Longrightarrow> \<exists>x. lre_case_conv1 c t = Some x"
  by (auto simp: conv_result_def lre_case_conv1.simps rd_def)

lemma lre_case_conv_entry_safe:
  assumes "idx < 370" and v: "v = case_conv_table1 ! idx"
    and rec: "conv_type = 2 \<Longrightarrow> (\<And>c. conv_result (lre_case_conv c 1))"
  shows "conv_result (lre_case_conv_entry c conv_type idx v)"
proof -
  define t2 where "t2 = case_conv_table2 ! idx"
  define data where "data = conv_data_val v t2"
  have d: "conv_data idx v = Some data"
    using assms(1) by (simp add: conv_data_def rd_def table_lengths data_def t2_def)
  have ok: "conv_entry_ok v t2"
    using case_conv_tables_ok assms(1) unfolding v t2_def by (simp add: list_all2_conv_all_nth table_lengths)
  have low: "conv_run_type v \<le> 3 \<Longrightarrow> unat data < 370"
    using ok by (simp add: conv_entry_ok_def data_def [symmetric] word_less_nat_alt)
  have two: "\<exists>x. conv_ext (drop_bit 6 data) = Some x" "\<exists>x. conv_ext (data AND 0x3f) = Some x"
    if "conv_run_type v = 6 \<or> conv_run_type v = 11 \<or> conv_run_type v = 12"
    using that ok by (auto simp: conv_entry_ok_def data_def [symmetric] intro!: conv_ext_Some)
  have one: "\<exists>x. conv_ext data = Some x"
    if "conv_run_type v = 8 \<or> conv_run_type v = 9 \<or> conv_run_type v = 10"
    using that ok by (auto simp: conv_entry_ok_def data_def [symmetric] intro!: conv_ext_Some)
  have three: "\<exists>x. conv_ext (drop_bit 8 data) = Some x" "\<exists>x. conv_ext (drop_bit 4 data AND 0xf) = Some x"
    "\<exists>x. conv_ext (data AND 0xf) = Some x"
    unfolding data_def by (rule conv_ext_nibble)+
  have sub: "conv_type = 2 \<Longrightarrow> \<exists>x. lre_case_conv1 c 1 = Some x" for c
    using lre_case_conv1_Some rec by blast
  consider "conv_run_type v \<le> 3" | "conv_run_type v = 4" | "conv_run_type v = 5" | "conv_run_type v = 6"
    | "conv_run_type v = 7" | "conv_run_type v = 8" | "conv_run_type v = 9 \<or> conv_run_type v = 10" | "conv_run_type v = 11" | "conv_run_type v = 12"
    | "\<not> conv_run_type v \<le> 3" "conv_run_type v \<notin> {4, 5, 6, 7, 8, 9, 10, 11, 12}" by auto
  then show ?thesis
  proof cases
    case 1
    then show ?thesis using low d
      by (auto simp: lre_case_conv_entry.simps conv_result_def rd_def table_lengths Let_def)
  next
    case 4
    with two d show ?thesis by (auto simp: lre_case_conv_entry.simps conv_result_def)
  next
    case 6
    with one d show ?thesis by (auto simp: lre_case_conv_entry.simps conv_result_def)
  next
    case 7
    with one d show ?thesis by (auto simp: lre_case_conv_entry.simps conv_result_def)
  next
    case 8
    from two 8 obtain x y where "conv_ext (drop_bit 6 data) = Some x" "conv_ext (data AND 0x3f) = Some y" by blast
    with 8 d sub [of "c - conv_code v + x"] sub [of y] show ?thesis
      by (cases "conv_type = 2") (auto simp: lre_case_conv_entry.simps conv_result_def Let_def)
  next
    case 9
    with two d show ?thesis by (auto simp: lre_case_conv_entry.simps conv_result_def)
  next
    case 10
    from three obtain x y z where xyz: "conv_ext (drop_bit 8 data) = Some x"
      "conv_ext (drop_bit 4 data AND 0xf) = Some y" "conv_ext (data AND 0xf) = Some z" by blast
    show ?thesis
    proof (cases "conv_type = 2")
      case True
      with 10 d xyz sub [of x] sub [of y] sub [of z] show ?thesis
        by (auto simp: lre_case_conv_entry.simps conv_result_def)
    qed (use 10 d xyz in \<open>auto simp: lre_case_conv_entry.simps conv_result_def\<close>)
  qed (use d in \<open>auto simp: lre_case_conv_entry.simps conv_result_def Let_def\<close>)
qed

lemma case_conv_search_cases:
  obtains (none) "case_conv_search c = Some None"
    | (found) i where "case_conv_search c = Some (Some (i, case_conv_table1 ! i))" "i < 370"
  using cct.search_spec [of c]
  by (auto simp: case_conv_search_def table_lengths split: option.splits prod.splits)

lemma lre_case_conv_step:
  "(\<And>idx. idx < 370 \<Longrightarrow> conv_result (lre_case_conv_entry c t idx (case_conv_table1 ! idx))) \<Longrightarrow>
     conv_result (lre_case_conv c t)"
proof (cases c rule: case_conv_search_cases)
  case none
  then show ?thesis by (simp add: lre_case_conv.simps conv_result_def)
next
  case (found i)
  moreover assume "\<And>idx. idx < 370 \<Longrightarrow> conv_result (lre_case_conv_entry c t idx (case_conv_table1 ! idx))"
  ultimately show ?thesis by (simp add: lre_case_conv.simps conv_result_def)
qed

lemma lre_case_conv_safe: "conv_result (lre_case_conv c t)"
proof -
  have "conv_result (lre_case_conv c 1)" for c
    by (rule lre_case_conv_step, rule lre_case_conv_entry_safe) auto
  then show ?thesis
    by (rule_tac lre_case_conv_step, rule_tac lre_case_conv_entry_safe) auto
qed

lemma lre_case_folding_entry_safe:
  assumes "idx < 370"
  shows "\<exists>d. lre_case_folding_entry c idx (case_conv_table1 ! idx) is_unicode = Some d \<and> (\<not> is_unicode \<longrightarrow> 128 \<le> c \<longrightarrow> 128 \<le> d)"
proof -
  have r: "conv_result (lre_case_conv_entry c t idx (case_conv_table1 ! idx))" for t
    using lre_case_conv_entry_safe [OF assms refl] lre_case_conv_safe by blast
  obtain res2 res0 where "lre_case_conv_entry c 2 idx (case_conv_table1 ! idx) = Some res2" "res2 \<noteq> []"
    "lre_case_conv_entry c 0 idx (case_conv_table1 ! idx) = Some res0" "res0 \<noteq> []"
    using r [of 2] r [of 0] unfolding conv_result_def by (metis list.size(3) not_one_le_zero)
  then show ?thesis
    by (cases is_unicode; cases "c < 128") (auto simp: lre_case_folding_entry_def rd_def)
qed

text \<open>
  C20. Case conversion is total and safe on the real tables: for every 32-bit value and every
  conversion type \<^verbatim>\<open>lre_case_conv\<close> reads only inside its three tables and writes one to
  \<^verbatim>\<open>LRE_CC_RES_LEN_MAX\<close> (three) results, and \<^verbatim>\<open>lre_canonicalize\<close> is defined everywhere and,
  outside unicode mode, never maps a non-ASCII character to an ASCII one, as the regular expression
  semantics demands.
\<close>

theorem case_conv_total:
  "(\<exists>res. lre_case_conv c conv_type = Some res \<and> 1 \<le> length res \<and> length res \<le> 3) \<and>
   (\<exists>d. lre_canonicalize c is_unicode = Some d \<and> (is_unicode \<or> c < 128 \<or> 128 \<le> d))"
proof
  show "\<exists>res. lre_case_conv c conv_type = Some res \<and> 1 \<le> length res \<and> length res \<le> 3"
    using lre_case_conv_safe [of c conv_type] by (simp add: conv_result_def)
  show "\<exists>d. lre_canonicalize c is_unicode = Some d \<and> (is_unicode \<or> c < 128 \<or> 128 \<le> d)"
  proof (cases c rule: case_conv_search_cases)
    case (found i)
    then show ?thesis
      using lre_case_folding_entry_safe [OF found(2), of c is_unicode]
      by (auto simp: lre_canonicalize_def not_less)
  qed (auto simp: lre_canonicalize_def not_less)
qed

end
