(* ===== verification/UniProps.thy ===== *)
theory UniProps
  imports CaseConv CUtils
begin

section \<open>Compressed property tables (\<^verbatim>\<open>js/libunicode.c\<close>)\<close>

text \<open>
  The lookups in compressed tables and the functions that expand a table into a \<^verbatim>\<open>CharRange\<close>. A
  table is the list of its bytes, a pointer into it an offset. The generated tables that are not in
  \<open>UniTables\<close> are the fields of \<open>uni_tables\<close>, an argument of the functions that read them.
\<close>

record uni_tables =
  gc_name_table :: bytes
  gc_table :: bytes
  script_name_table :: bytes
  script_table :: bytes
  script_ext_table :: bytes
  prop_name_table :: bytes
  prop_table :: "bytes list"

subsection \<open>Point lookup\<close>

definition get_le24 :: "bytes \<Rightarrow> nat \<Rightarrow> u32 option" where
  "get_le24 ptr i = do {
     b0 \<leftarrow> rd ptr i;
     b1 \<leftarrow> rd ptr (i + 1);
     b2 \<leftarrow> rd ptr (i + 2);
     Some (ucast b0 OR push_bit 8 (ucast b1) OR push_bit 16 (ucast b2)) }"

definition index_code :: "u32 \<Rightarrow> u32" where
  "index_code v = v AND (push_bit 21 1 - 1)"

text \<open>\<^verbatim>\<open>while ((idx_max - idx_min) > 1)\<close>: halve the interval.\<close>

function index_search :: "bytes \<Rightarrow> u32 \<Rightarrow> nat \<Rightarrow> nat \<Rightarrow> nat option" where
  "index_search index_table c idx_min idx_max =
     (if idx_max - idx_min > 1 then do {
        v \<leftarrow> get_le24 index_table ((idx_max + idx_min) div 2 * 3);
        if c < index_code v then index_search index_table c idx_min ((idx_max + idx_min) div 2)
        else index_search index_table c ((idx_max + idx_min) div 2) idx_max }
      else Some idx_min)"
  by pat_completeness auto
termination by (relation "measure (\<lambda>(t, c, lo, hi). hi - lo)") auto

declare index_search.simps [simp del]

text \<open>\<open>Some None\<close> is the result -1; otherwise the offset in the table and \<^verbatim>\<open>*pcode\<close>.\<close>

definition get_index_pos :: "u32 \<Rightarrow> bytes \<Rightarrow> nat \<Rightarrow> (nat \<times> u32) option option" where
  "get_index_pos c index_table index_table_len = do {
     v \<leftarrow> get_le24 index_table 0;
     if c < index_code v then Some (Some (0, 0))
     else do {
       let idx_max = index_table_len - 1;
       code \<leftarrow> get_le24 index_table (idx_max * 3);
       if c \<ge> code then Some None
       else do {
         idx_min \<leftarrow> index_search index_table c 0 idx_max;
         v \<leftarrow> get_le24 index_table (idx_min * 3);
         Some (Some ((idx_min + 1) * 32 + unat (drop_bit 21 v), index_code v)) } } }"

text \<open>
  A byte of 64 and more starts a single run: its length and the offset behind it.
\<close>

definition run_long :: "bytes \<Rightarrow> nat \<Rightarrow> u32 \<Rightarrow> (u32 \<times> nat) option" where
  "run_long table p b =
     (if b \<ge> 0x80 then Some (b - 0x80 + 1, p)
      else if b < 0x60 then do {
        p0 \<leftarrow> rd table p;
        Some ((push_bit 8 (b - 0x40) OR ucast p0) + 1, p + 1) }
      else do {
        p0 \<leftarrow> rd table p;
        p1 \<leftarrow> rd table (p + 1);
        Some ((push_bit 16 (b - 0x60) OR push_bit 8 (ucast p0) OR ucast p1) + 1, p + 2) })"

lemma run_long_ge: "run_long table p b = Some (n, p') \<Longrightarrow> p \<le> p'"
  by (auto simp: run_long_def split: if_splits bind_splits)

function in_table_loop :: "bytes \<Rightarrow> u32 \<Rightarrow> nat \<Rightarrow> u32 \<Rightarrow> bool \<Rightarrow> bool option" where
  "in_table_loop table c p code inb =
     (case rd table p of
        None \<Rightarrow> None
      | Some b8 \<Rightarrow>
          let b = ucast b8 :: u32
          in if b < 64 then
               let code1 = code + (drop_bit 3 b + 1)
               in if c < code1 then Some inb
                  else
                    let code2 = code1 + ((b AND 7) + 1)
                    in if c < code2 then Some (\<not> inb)
                       else in_table_loop table c (p + 1) code2 inb
             else
               (case run_long table (p + 1) b of
                  None \<Rightarrow> None
                | Some (n, p') \<Rightarrow>
                    if c < code + n then Some inb
                    else in_table_loop table c p' (code + n) (\<not> inb)))"
  by pat_completeness auto
termination
  by (relation "measure (\<lambda>(table, c, p, code, inb). length table - p)")
    (auto simp: rd_def split: if_splits dest!: run_long_ge)

declare in_table_loop.simps [simp del]

definition lre_is_in_table :: "u32 \<Rightarrow> bytes \<Rightarrow> bytes \<Rightarrow> nat \<Rightarrow> bool option" where
  "lre_is_in_table c table index_table index_table_len = do {
     r \<leftarrow> get_index_pos c index_table index_table_len;
     (case r of
        None \<Rightarrow> Some False
      | Some (pos, code) \<Rightarrow> in_table_loop table c pos code False) }"

definition lre_is_cased :: "u32 \<Rightarrow> bool option" where
  "lre_is_cased c = do {
     r \<leftarrow> case_conv_search c;
     (case r of
        Some _ \<Rightarrow> Some True
      | None \<Rightarrow> lre_is_in_table c unicode_prop_Cased1_table unicode_prop_Cased1_index
                  (length unicode_prop_Cased1_index div 3)) }"

definition lre_is_case_ignorable :: "bytes \<Rightarrow> bytes \<Rightarrow> u32 \<Rightarrow> bool option" where
  "lre_is_case_ignorable Case_Ignorable_table Case_Ignorable_index c =
     lre_is_in_table c Case_Ignorable_table Case_Ignorable_index (length Case_Ignorable_index div 3)"

definition lre_is_id_start :: "bytes \<Rightarrow> bytes \<Rightarrow> u32 \<Rightarrow> bool option" where
  "lre_is_id_start ID_Start_table ID_Start_index c =
     lre_is_in_table c ID_Start_table ID_Start_index (length ID_Start_index div 3)"

definition lre_is_id_continue :: "bytes \<Rightarrow> bytes \<Rightarrow> bytes \<Rightarrow> bytes \<Rightarrow> u32 \<Rightarrow> bool option" where
  "lre_is_id_continue ID_Start_table ID_Start_index ID_Continue1_table ID_Continue1_index c = do {
     s \<leftarrow> lre_is_id_start ID_Start_table ID_Start_index c;
     if s then Some True
     else lre_is_in_table c ID_Continue1_table ID_Continue1_index (length ID_Continue1_index div 3) }"

subsection \<open>Names\<close>

text \<open>
  A name table is a sequence of NUL-terminated strings, each a comma-separated list of alternative
  names, ended by an empty string. \<open>name_len p\<close> is \<^verbatim>\<open>r - p\<close> for the comma \<^verbatim>\<open>r = strchr(p, ',')\<close>, or
  \<^verbatim>\<open>strlen(p)\<close>, with whether there was a comma.
\<close>

fun name_len :: "bytes \<Rightarrow> (nat \<times> bool) option" where
  "name_len [] = None"
| "name_len (c # p) =
     (if c = 0 then Some (0, False)
      else if c = 0x2c then Some (0, True)
      else do { (n, comma) \<leftarrow> name_len p; Some (n + 1, comma) })"

lemma name_len_less: "name_len p = Some (n, comma) \<Longrightarrow> n < length p"
  by (induction p arbitrary: n comma) (auto split: if_splits bind_splits)

text \<open>The inner \<^verbatim>\<open>for(;;)\<close>: \<open>Inl ()\<close> when an alternative matches, \<open>Inr p\<close> behind the last one.\<close>

function find_alt :: "bytes \<Rightarrow> bytes \<Rightarrow> (unit + bytes) option" where
  "find_alt p name =
     (case name_len p of
        None \<Rightarrow> None
      | Some (len, comma) \<Rightarrow>
          if len = length name \<and> take len p = name then Some (Inl ())
          else if comma then find_alt (drop (len + 1) p) name
          else Some (Inr (drop (len + 1) p)))"
  by pat_completeness auto
termination
  by (relation "measure (\<lambda>(p, name). length p)") (auto dest: name_len_less)

declare find_alt.simps [simp del]

lemma find_alt_shorter: "find_alt p name = Some (Inr p') \<Longrightarrow> length p' < length p"
proof (induction p name rule: find_alt.induct)
  case (1 p name)
  from "1.prems" show ?case
    by (subst (asm) find_alt.simps)
      (fastforce split: option.splits if_splits dest: name_len_less "1.IH" [OF _ refl])
qed

function find_name_loop :: "bytes \<Rightarrow> bytes \<Rightarrow> nat \<Rightarrow> int option" where
  "find_name_loop p name pos =
     (case p of
        [] \<Rightarrow> None
      | c # _ \<Rightarrow>
          if c = 0 then Some (- 1)
          else (case find_alt p name of
                  None \<Rightarrow> None
                | Some (Inl _) \<Rightarrow> Some (int pos)
                | Some (Inr p') \<Rightarrow> find_name_loop p' name (pos + 1)))"
  by pat_completeness auto
termination
  by (relation "measure (\<lambda>(p, name, pos). length p)") (auto dest: find_alt_shorter)

declare find_name_loop.simps [simp del]

text \<open>The name is given without its terminator.\<close>

definition unicode_find_name :: "bytes \<Rightarrow> bytes \<Rightarrow> int option" where
  "unicode_find_name table name = find_name_loop table name 0"

subsection \<open>Expanding a table into a range\<close>

definition cr_add_if :: "bool \<Rightarrow> 'h CharRange \<Rightarrow> u32 \<Rightarrow> u32 \<Rightarrow> 'h \<Rightarrow> 'h cr_result" where
  "cr_add_if b cr c1 c2 h = (if b then cr_add_interval cr c1 c2 h else Some (0, cr, h))"

function prop1_loop :: "bytes \<Rightarrow> 'h CharRange \<Rightarrow> nat \<Rightarrow> u32 \<Rightarrow> bool \<Rightarrow> 'h \<Rightarrow> 'h cr_result" where
  "prop1_loop table cr p c inb h =
     (case rd table p of
        None \<Rightarrow> Some (0, cr, h)
      | Some b8 \<Rightarrow>
          let b = ucast b8 :: u32
          in if b < 64 then
               let c1 = c + (drop_bit 3 b + 1); c2 = c1 + ((b AND 7) + 1)
               in do {
                 (ret, cr1, h1) \<leftarrow> cr_add_if inb cr c c1 h;
                 if ret \<noteq> 0 then Some (- 1, cr1, h1)
                 else do {
                   (ret, cr2, h2) \<leftarrow> cr_add_if (\<not> inb) cr1 c1 c2 h1;
                   if ret \<noteq> 0 then Some (- 1, cr2, h2)
                   else prop1_loop table cr2 (p + 1) c2 inb h2 } }
             else
               (case run_long table (p + 1) b of
                  None \<Rightarrow> None
                | Some (n, p') \<Rightarrow> do {
                    (ret, cr1, h1) \<leftarrow> cr_add_if inb cr c (c + n) h;
                    if ret \<noteq> 0 then Some (- 1, cr1, h1)
                    else prop1_loop table cr1 p' (c + n) (\<not> inb) h1 }))"
  by pat_completeness auto
termination
  by (relation "measure (\<lambda>(table, cr, p, c, inb, h). length table - p)")
    (auto simp: rd_def split: if_splits dest!: run_long_ge)

declare prop1_loop.simps [simp del]

definition unicode_prop1 :: "uni_tables \<Rightarrow> 'h CharRange \<Rightarrow> nat \<Rightarrow> 'h \<Rightarrow> 'h cr_result" where
  "unicode_prop1 T cr prop_idx h = do {
     table \<leftarrow> rd (prop_table T) prop_idx;
     prop1_loop table cr 0 0 False h }"

text \<open>General categories; \<open>GC i\<close> is the bit of the category with index \<open>i\<close> in \<^verbatim>\<open>UnicodeGCEnum\<close>.\<close>

definition GC :: "nat \<Rightarrow> u32" where
  "GC i = push_bit i 1"

abbreviation (input) "GC_Cn \<equiv> GC 0"
abbreviation (input) "GC_Lu \<equiv> GC 1"
abbreviation (input) "GC_Ll \<equiv> GC 2"
abbreviation (input) "GC_Lt \<equiv> GC 3"
abbreviation (input) "GC_Lm \<equiv> GC 4"
abbreviation (input) "GC_Lo \<equiv> GC 5"
abbreviation (input) "GC_Mn \<equiv> GC 6"
abbreviation (input) "GC_Mc \<equiv> GC 7"
abbreviation (input) "GC_Me \<equiv> GC 8"
abbreviation (input) "GC_Nd \<equiv> GC 9"
abbreviation (input) "GC_Nl \<equiv> GC 10"
abbreviation (input) "GC_No \<equiv> GC 11"
abbreviation (input) "GC_Sm \<equiv> GC 12"
abbreviation (input) "GC_Sc \<equiv> GC 13"
abbreviation (input) "GC_Sk \<equiv> GC 14"
abbreviation (input) "GC_So \<equiv> GC 15"
abbreviation (input) "GC_Pc \<equiv> GC 16"
abbreviation (input) "GC_Pd \<equiv> GC 17"
abbreviation (input) "GC_Ps \<equiv> GC 18"
abbreviation (input) "GC_Pe \<equiv> GC 19"
abbreviation (input) "GC_Pi \<equiv> GC 20"
abbreviation (input) "GC_Pf \<equiv> GC 21"
abbreviation (input) "GC_Po \<equiv> GC 22"
abbreviation (input) "GC_Zs \<equiv> GC 23"
abbreviation (input) "GC_Zl \<equiv> GC 24"
abbreviation (input) "GC_Zp \<equiv> GC 25"
abbreviation (input) "GC_Cc \<equiv> GC 26"
abbreviation (input) "GC_Cf \<equiv> GC 27"
abbreviation (input) "GC_Cs \<equiv> GC 28"
abbreviation (input) "GC_Co \<equiv> GC 29"

text \<open>The run length of a category entry, and the offset behind it.\<close>

definition gc_run :: "bytes \<Rightarrow> nat \<Rightarrow> u32 \<Rightarrow> (u32 \<times> nat) option" where
  "gc_run table p b =
     (if drop_bit 5 b = 7 then do {
        n8 \<leftarrow> rd table p;
        let n = (ucast n8 :: u32);
        if n < 128 then Some (n + 7, p + 1)
        else if n < 128 + 64 then do {
          p0 \<leftarrow> rd table (p + 1);
          Some ((push_bit 8 (n - 128) OR ucast p0) + (7 + 128), p + 2) }
        else do {
          p0 \<leftarrow> rd table (p + 1);
          p1 \<leftarrow> rd table (p + 2);
          Some ((push_bit 16 (n - 128 - 64) OR push_bit 8 (ucast p0) OR ucast p1) + (7 + 128 + push_bit 14 1), p + 3) } }
      else Some (drop_bit 5 b, p))"

lemma gc_run_ge: "gc_run table p b = Some (n, p') \<Longrightarrow> p \<le> p'"
  by (auto simp: gc_run_def Let_def split: if_splits bind_splits)

text \<open>
  \<^verbatim>\<open>for(; c0 < c; c0 += 2)\<close>; where \<^verbatim>\<open>c0 += 2\<close> would wrap around, the loop does not end: \<open>None\<close>.
\<close>

function add_alternate :: "'h CharRange \<Rightarrow> u32 \<Rightarrow> u32 \<Rightarrow> 'h \<Rightarrow> 'h cr_result" where
  "add_alternate cr c0 c h =
     (if c0 < c then do {
        (ret, cr1, h1) \<leftarrow> cr_add_interval cr c0 (c0 + 1) h;
        if ret \<noteq> 0 then Some (- 1, cr1, h1)
        else if c0 + 2 < c0 then None
        else add_alternate cr1 (c0 + 2) c h1 }
      else Some (0, cr, h))"
  by pat_completeness auto
termination
proof (relation "measure (\<lambda>(cr, c0, c, h). unat c - unat c0)")
  fix cr :: "'h CharRange" and c0 c :: u32 and h :: 'h and x a and ret :: int and y
  assume c: "c0 < c" and nw: "\<not> c0 + 2 < c0"
  have "unat c0 + 2 < 2 ^ 32"
  proof (rule ccontr)
    assume "\<not> unat c0 + 2 < 2 ^ 32"
    moreover have "unat c0 < 2 ^ 32" using unsigned_less [where w = c0 and ?'a = nat] by simp
    ultimately have "(unat c0 + 2) mod 2 ^ 32 = unat c0 + 2 - 2 ^ 32" by (simp add: mod_if)
    with nw \<open>unat c0 < 2 ^ 32\<close> show False by (simp add: word_less_nat_alt unat_word_ariths)
  qed
  then have "unat (c0 + 2) = unat c0 + 2" by (simp add: unat_word_ariths)
  with c have lt: "unat c - unat (c0 + 2) < unat c - unat c0" by (simp add: word_less_nat_alt)
  show "((a, c0 + 2, c, y), cr, c0, c, h) \<in> measure (\<lambda>(cr, c0, c, h). unat c - unat c0)"
    using lt by simp
qed simp

declare add_alternate.simps [simp del]

function gc_loop :: "bytes \<Rightarrow> u32 \<Rightarrow> 'h CharRange \<Rightarrow> nat \<Rightarrow> u32 \<Rightarrow> 'h \<Rightarrow> 'h cr_result" where
  "gc_loop table gc_mask cr p c0 h =
     (case rd table p of
        None \<Rightarrow> Some (0, cr, h)
      | Some b8 \<Rightarrow>
          let b = ucast b8 :: u32; v = b AND 0x1f
          in (case gc_run table (p + 1) b of
                None \<Rightarrow> None
              | Some (n, p') \<Rightarrow>
                  let c = c0 + (n + 1); m = gc_mask AND (GC_Lu OR GC_Ll)
                  in do {
                    (ret, cr1, h1) \<leftarrow>
                      (if v = 31 then
                         if m = 0 then Some (0, cr, h)
                         else if m = (GC_Lu OR GC_Ll) then cr_add_interval cr c0 c h
                         else add_alternate cr (c0 + (if gc_mask AND GC_Ll \<noteq> 0 then 1 else 0)) c h
                       else cr_add_if (drop_bit (unat v) gc_mask AND 1 \<noteq> 0) cr c0 c h);
                    if ret \<noteq> 0 then Some (- 1, cr1, h1)
                    else gc_loop table gc_mask cr1 p' c h1 }))"
  by pat_completeness auto
termination
  by (relation "measure (\<lambda>(table, gc_mask, cr, p, c0, h). length table - p)")
    (auto simp: rd_def split: if_splits dest!: gc_run_ge)

declare gc_loop.simps [simp del]

definition unicode_general_category1 :: "uni_tables \<Rightarrow> 'h CharRange \<Rightarrow> u32 \<Rightarrow> 'h \<Rightarrow> 'h cr_result" where
  "unicode_general_category1 T cr gc_mask h = gc_loop (gc_table T) gc_mask cr 0 0 h"

definition unicode_gc_mask_table :: "u32 list" where
  "unicode_gc_mask_table =
    [GC_Lu OR GC_Ll OR GC_Lt,
     GC_Lu OR GC_Ll OR GC_Lt OR GC_Lm OR GC_Lo,
     GC_Mn OR GC_Mc OR GC_Me,
     GC_Nd OR GC_Nl OR GC_No,
     GC_Sm OR GC_Sc OR GC_Sk OR GC_So,
     GC_Pc OR GC_Pd OR GC_Ps OR GC_Pe OR GC_Pi OR GC_Pf OR GC_Po,
     GC_Zs OR GC_Zl OR GC_Zp,
     GC_Cc OR GC_Cf OR GC_Cs OR GC_Co OR GC_Cn]"

definition unicode_general_category :: "uni_tables \<Rightarrow> 'h CharRange \<Rightarrow> bytes \<Rightarrow> 'h \<Rightarrow> 'h cr_result" where
  "unicode_general_category T cr gc_name h = do {
     gc_idx \<leftarrow> unicode_find_name (gc_name_table T) gc_name;
     if gc_idx < 0 then Some (- 2, cr, h)
     else do {
       gc_mask \<leftarrow> (if gc_idx \<le> 29 then Some (GC (nat gc_idx)) else rd unicode_gc_mask_table (nat gc_idx - 30));
       unicode_general_category1 T cr gc_mask h } }"

subsection \<open>Characters changed by case conversion\<close>

definition CASE_U :: nat where "CASE_U = 1"
definition CASE_L :: nat where "CASE_L = 2"
definition CASE_F :: nat where "CASE_F = 4"

definition MR :: "u32 \<Rightarrow> u32" where
  "MR t = push_bit (unat t) 1"

definition tab_run_mask :: "u32 list" where
  "tab_run_mask =
    [MR RUN_TYPE_U OR MR RUN_TYPE_UF OR MR RUN_TYPE_UL OR MR RUN_TYPE_LSU OR MR RUN_TYPE_U2L_399_EXT2 OR
       MR RUN_TYPE_UF_D20 OR MR RUN_TYPE_UF_D1_EXT OR MR RUN_TYPE_U_EXT OR MR RUN_TYPE_UF_EXT2 OR MR RUN_TYPE_UF_EXT3,
     MR RUN_TYPE_L OR MR RUN_TYPE_LF OR MR RUN_TYPE_UL OR MR RUN_TYPE_LSU OR MR RUN_TYPE_U2L_399_EXT2 OR
       MR RUN_TYPE_LF_EXT OR MR RUN_TYPE_LF_EXT2,
     MR RUN_TYPE_UF OR MR RUN_TYPE_LF OR MR RUN_TYPE_UL OR MR RUN_TYPE_LSU OR MR RUN_TYPE_U2L_399_EXT2 OR
       MR RUN_TYPE_LF_EXT OR MR RUN_TYPE_LF_EXT2 OR MR RUN_TYPE_UF_D20 OR MR RUN_TYPE_UF_D1_EXT OR
       MR RUN_TYPE_LF_EXT OR MR RUN_TYPE_UF_EXT2 OR MR RUN_TYPE_UF_EXT3]"

definition case_run_mask :: "nat \<Rightarrow> u32" where
  "case_run_mask case_mask =
     (if case_mask AND 1 \<noteq> 0 then tab_run_mask ! 0 else 0) OR
     (if case_mask AND 2 \<noteq> 0 then tab_run_mask ! 1 else 0) OR
     (if case_mask AND 4 \<noteq> 0 then tab_run_mask ! 2 else 0)"

text \<open>\<^verbatim>\<open>for(i = 0; i < len; i += 2)\<close> over a run of alternating letters.\<close>

function case1_pairs :: "'h CharRange \<Rightarrow> u32 \<Rightarrow> nat \<Rightarrow> nat \<Rightarrow> 'h \<Rightarrow> 'h cr_result" where
  "case1_pairs cr code len i h =
     (if i < len then do {
        (ret, cr1, h1) \<leftarrow> cr_add_interval cr (code + word_of_nat i) (code + word_of_nat i + 1) h;
        if ret \<noteq> 0 then Some (- 1, cr1, h1) else case1_pairs cr1 code len (i + 2) h1 }
      else Some (0, cr, h))"
  by pat_completeness auto
termination by (relation "measure (\<lambda>(cr, code, len, i, h). len - i)") auto

declare case1_pairs.simps [simp del]

definition case1_entry :: "nat \<Rightarrow> 'h CharRange \<Rightarrow> u32 \<Rightarrow> 'h \<Rightarrow> 'h cr_result" where
  "case1_entry case_mask cr v h =
     (let run_type = conv_run_type v; code = conv_code v; len = conv_len v;
          upper = (case_mask AND CASE_U \<noteq> 0); both = (upper \<and> case_mask AND (CASE_L OR CASE_F) \<noteq> 0)
      in if run_type = RUN_TYPE_UL \<and> \<not> both then
           case1_pairs cr (code + (if upper then 1 else 0)) (unat len) 0 h
         else if run_type = RUN_TYPE_LSU \<and> \<not> both then do {
           (ret, cr1, h1) \<leftarrow> cr_add_if (\<not> upper) cr code (code + 1) h;
           if ret \<noteq> 0 then Some (- 1, cr1, h1)
           else do {
             (ret, cr2, h2) \<leftarrow> cr_add_interval cr1 (code + 1) (code + 2) h1;
             if ret \<noteq> 0 then Some (- 1, cr2, h2)
             else cr_add_if upper cr2 (code + 2) (code + 3) h2 } }
         else cr_add_interval cr code (code + len) h)"

fun case1_loop :: "nat \<Rightarrow> u32 \<Rightarrow> 'h CharRange \<Rightarrow> u32 list \<Rightarrow> 'h \<Rightarrow> 'h cr_result" where
  "case1_loop case_mask run_mask cr [] h = Some (0, cr, h)"
| "case1_loop case_mask run_mask cr (v # tab) h = do {
     (ret, cr1, h1) \<leftarrow>
       (if drop_bit (unat (conv_run_type v)) run_mask AND 1 \<noteq> 0 then case1_entry case_mask cr v h
        else Some (0, cr, h));
     if ret \<noteq> 0 then Some (- 1, cr1, h1) else case1_loop case_mask run_mask cr1 tab h1 }"

definition unicode_case1 :: "'h CharRange \<Rightarrow> nat \<Rightarrow> 'h \<Rightarrow> 'h cr_result" where
  "unicode_case1 cr case_mask h =
     (if case_mask = 0 then Some (0, cr, h)
      else case1_loop case_mask (case_run_mask case_mask) cr case_conv_table1 h)"

end
