(* ===== verification/UniLookup.thy ===== *)
theory UniLookup
  imports UniProps
begin

section \<open>Point lookup and table expansion agree\<close>

text \<open>
  A property table is a sequence of run lengths, alternately outside and inside the property.
  \<open>decode_runs\<close> is that sequence, \<open>in_runs\<close> the property it denotes. Both the indexed lookup
  \<^verbatim>\<open>lre_is_in_table\<close> and the expansion \<^verbatim>\<open>unicode_prop1\<close> are shown to implement it.
\<close>

function decode_runs :: "bytes \<Rightarrow> nat \<Rightarrow> nat list option" where
  "decode_runs table p =
     (case rd table p of
        None \<Rightarrow> Some []
      | Some b8 \<Rightarrow>
          let b = ucast b8 :: u32
          in if b < 64 then
               do { ls \<leftarrow> decode_runs table (p + 1); Some (unat (drop_bit 3 b + 1) # unat ((b AND 7) + 1) # ls) }
             else (case run_long table (p + 1) b of
                     None \<Rightarrow> None
                   | Some (n, p') \<Rightarrow> do { ls \<leftarrow> decode_runs table p'; Some (unat n # ls) }))"
  by pat_completeness auto
termination
  by (relation "measure (\<lambda>(table, p). length table - p)")
    (auto simp: rd_def split: if_splits dest!: run_long_ge)

declare decode_runs.simps [simp del]

fun in_runs :: "nat \<Rightarrow> nat \<Rightarrow> bool \<Rightarrow> nat list \<Rightarrow> bool" where
  "in_runs c code inb [] = False"
| "in_runs c code inb (n # ls) = (if c < code + n then inb else in_runs c (code + n) (\<not> inb) ls)"

lemma in_runs_above: "code + sum_list ls \<le> c \<Longrightarrow> \<not> in_runs c code inb ls"
  by (induction ls arbitrary: code inb) auto

lemma in_runs_append:
  "code + sum_list ls1 \<le> c \<Longrightarrow>
     in_runs c code inb (ls1 @ ls2) = in_runs c (code + sum_list ls1) (inb \<noteq> odd (length ls1)) ls2"
proof (induction ls1 arbitrary: code inb)
  case (Cons n ls1)
  have "\<not> c < code + n" using Cons.prems by simp
  with Cons.IH [of "code + n" "\<not> inb"] Cons.prems show ?case by (simp add: add.assoc)
qed simp

text \<open>The shapes of a decoding step.\<close>

lemma decode_runs_cases:
  assumes "decode_runs table p = Some ls"
  obtains (stop) "rd table p = None" "ls = []"
    | (short) b ls' where "rd table p = Some b" "(ucast b :: u32) < 64" "decode_runs table (p + 1) = Some ls'"
        "ls = unat (drop_bit 3 (ucast b :: u32) + 1) # unat (((ucast b :: u32) AND 7) + 1) # ls'"
    | (long) b n p' ls' where "rd table p = Some b" "\<not> (ucast b :: u32) < 64"
        "run_long table (p + 1) (ucast b) = Some (n, p')" "decode_runs table p' = Some ls'" "ls = unat n # ls'"
  using assms
  by (subst (asm) decode_runs.simps) (auto split: option.splits if_splits bind_splits simp: Let_def)

lemma unat_add_bounded: "unat a + unat b < 2 ^ 32 \<Longrightarrow> unat (a + b :: u32) = unat a + unat b"
  by (simp add: unat_word_ariths)

lemma in_table_loop_runs:
  "decode_runs table p = Some ls \<Longrightarrow> unat code + sum_list ls < 2 ^ 32 \<Longrightarrow> unat c < unat code + sum_list ls \<Longrightarrow> unat code \<le> unat c \<Longrightarrow>
     in_table_loop table c p code inb = Some (in_runs (unat c) (unat code) inb ls)"
proof (induction table c p code inb arbitrary: ls rule: in_table_loop.induct)
  case (1 table c p code inb)
  from "1.prems"(1) show ?case
  proof (cases rule: decode_runs_cases)
    case stop
    with "1.prems" show ?thesis by simp
  next
    case (short b ls')
    define n1 where "n1 = drop_bit 3 (ucast b :: u32) + 1"
    define n2 where "n2 = ((ucast b :: u32) AND 7) + 1"
    have ls: "ls = unat n1 # unat n2 # ls'" using short by (simp add: n1_def n2_def)
    have u1: "unat (code + n1) = unat code + unat n1"
      using "1.prems"(2) ls by (intro unat_add_bounded) simp
    have u2: "unat (code + n1 + n2) = unat code + unat n1 + unat n2"
      using "1.prems"(2) ls u1 by (subst unat_add_bounded) simp_all
    have ih: "in_table_loop table c (p + 1) (code + n1 + n2) inb = Some (in_runs (unat c) (unat (code + n1 + n2)) inb ls')"
      if "\<not> c < code + n1" "\<not> c < code + n1 + n2"
      using "1.IH"(1) [OF short(1) refl short(2) refl _ refl _ short(3)] that "1.prems"(2-4) ls u1 u2
      by (simp add: n1_def n2_def word_less_nat_alt)
    show ?thesis
      using short(1,2) ih ls u1 u2
      by (subst in_table_loop.simps) (simp add: Let_def n1_def [symmetric] n2_def [symmetric] word_less_nat_alt)
  next
    case (long b n p' ls')
    have u: "unat (code + n) = unat code + unat n"
      using "1.prems"(2) long(5) by (intro unat_add_bounded) simp
    have ih: "in_table_loop table c p' (code + n) (\<not> inb) = Some (in_runs (unat c) (unat (code + n)) (\<not> inb) ls')"
      if "\<not> c < code + n"
      using "1.IH"(2) [OF long(1) refl long(2,3) refl _ long(4)] that "1.prems"(2-4) long(5) u
      by (simp add: word_less_nat_alt)
    show ?thesis
      using long(1,2,3,5) ih u
      by (subst in_table_loop.simps) (simp add: Let_def word_less_nat_alt)
  qed
qed

subsection \<open>The index\<close>

text \<open>
  The states of the decoder at byte boundaries: offset, code point, and whether the next run is
  inside. An index is valid when each of its entries but the last names such a state outside the
  property, and the last one the end of the table.
\<close>

function decode_states :: "bytes \<Rightarrow> nat \<Rightarrow> nat \<Rightarrow> bool \<Rightarrow> (nat \<times> nat \<times> bool) list" where
  "decode_states table p code inb =
     (p, code, inb) #
     (case rd table p of
        None \<Rightarrow> []
      | Some b8 \<Rightarrow>
          let b = ucast b8 :: u32
          in if b < 64 then decode_states table (p + 1) (code + unat (drop_bit 3 b + 1) + unat ((b AND 7) + 1)) inb
             else (case run_long table (p + 1) b of
                     None \<Rightarrow> []
                   | Some (n, p') \<Rightarrow> decode_states table p' (code + unat n) (\<not> inb)))"
  by pat_completeness auto
termination
  by (relation "measure (\<lambda>(table, p, code, inb). length table - p)")
    (auto simp: rd_def split: if_splits dest!: run_long_ge)

declare decode_states.simps [simp del]

lemma decode_states_split:
  "decode_runs table p = Some ls \<Longrightarrow> (p', code', inb') \<in> set (decode_states table p code inb) \<Longrightarrow>
     \<exists>ls1 ls2. ls = ls1 @ ls2 \<and> decode_runs table p' = Some ls2 \<and> code' = code + sum_list ls1 \<and>
       inb' = (inb \<noteq> odd (length ls1))"
proof (induction table p code inb arbitrary: ls rule: decode_states.induct)
  case (1 table p code inb)
  show ?case
  proof (cases "(p', code', inb') = (p, code, inb)")
    case True
    with "1.prems"(1) show ?thesis by (intro exI [of _ "[]"] exI [of _ ls]) auto
  next
    case False
    from "1.prems"(1) show ?thesis
    proof (cases rule: decode_runs_cases)
      case stop
      with "1.prems"(2) False show ?thesis by (subst (asm) decode_states.simps) auto
    next
      case (short b ls')
      with "1.prems"(2) False have "(p', code', inb') \<in> set (decode_states table (p + 1)
          (code + unat (drop_bit 3 (ucast b :: u32) + 1) + unat (((ucast b :: u32) AND 7) + 1)) inb)"
        by (subst (asm) decode_states.simps) (auto simp: Let_def)
      from "1.IH"(1) [OF short(1) refl short(2,3) this] short(4) show ?thesis
        by (elim exE conjE, rule_tac x = "unat (drop_bit 3 (ucast b :: u32) + 1) # unat (((ucast b :: u32) AND 7) + 1) # ls1" in exI) auto
    next
      case (long b n q ls')
      with "1.prems"(2) False have "(p', code', inb') \<in> set (decode_states table q (code + unat n) (\<not> inb))"
        by (subst (asm) decode_states.simps) (auto simp: Let_def)
      from "1.IH"(2) [OF long(1) refl long(2,3) refl long(4) this] long(5) show ?thesis
        by (elim exE conjE, rule_tac x = "unat n # ls1" in exI) auto
    qed
  qed
qed

definition index_entry :: "bytes \<Rightarrow> nat \<Rightarrow> u32" where
  "index_entry index k = the (get_le24 index (k * 3))"

definition index_ok :: "bytes \<Rightarrow> bytes \<Rightarrow> bool" where
  "index_ok table index \<longleftrightarrow>
     (case decode_runs table 0 of
        None \<Rightarrow> False
      | Some ls \<Rightarrow>
          let n = length index div 3; states = decode_states table 0 0 False
          in 0 < n \<and> sum_list ls < 2 ^ 21 \<and> unat (index_entry index (n - 1)) = sum_list ls \<and>
             (\<forall>k\<in>set [0..<n - 1].
                ((k + 1) * 32 + unat (drop_bit 21 (index_entry index k)),
                 unat (index_code (index_entry index k)), False) \<in> set states))"

lemma get_le24_entry: "k < length index div 3 \<Longrightarrow> get_le24 index (k * 3) = Some (index_entry index k)"
  by (auto simp: index_entry_def get_le24_def rd_def)

lemma index_search_spec:
  "lo < hi \<Longrightarrow> hi < length index div 3 \<Longrightarrow> index_code (index_entry index lo) \<le> c \<Longrightarrow>
     \<exists>k. index_search index c lo hi = Some k \<and> k < hi \<and> index_code (index_entry index k) \<le> c"
proof (induction index c lo hi rule: index_search.induct)
  case (1 index c lo hi)
  show ?case
  proof (cases "hi - lo > 1")
    case True
    let ?m = "(hi + lo) div 2"
    have m: "lo < ?m" "?m < hi" using True by auto
    have g: "get_le24 index (?m * 3) = Some (index_entry index ?m)" using m "1.prems"(2) by (intro get_le24_entry) simp
    show ?thesis
    proof (cases "c < index_code (index_entry index ?m)")
      case less: True
      from "1.IH"(1) [OF True g less] m "1.prems" obtain k where
        "index_search index c lo ?m = Some k" "k < ?m" "index_code (index_entry index k) \<le> c" by auto
      with True g less m show ?thesis by (subst index_search.simps) (auto intro: less_trans)
    next
      case False
      with "1.IH"(2) [OF True g False] m "1.prems" True g show ?thesis
        by (subst index_search.simps) auto
    qed
  next
    case False
    with "1.prems" show ?thesis by (subst index_search.simps) auto
  qed
qed

lemma index_code_le: "unat (index_code v) \<le> unat v" and index_code_id: "unat v < 2 ^ 21 \<Longrightarrow> index_code v = v"
proof -
  have m: "push_bit 21 1 - 1 = (mask 21 :: u32)" by (simp add: mask_eq_exp_minus_1)
  show "unat (index_code v) \<le> unat v"
    unfolding index_code_def m unat_and_mask by (rule mod_less_eq_dividend)
  show "index_code v = v" if "unat v < 2 ^ 21"
    using that unfolding index_code_def m word_unat_eq_iff unat_and_mask by simp
qed

lemma lre_is_in_table_runs:
  assumes ok: "index_ok table index" and ls: "decode_runs table 0 = Some ls"
  shows "lre_is_in_table c table index (length index div 3) = Some (in_runs (unat c) 0 False ls)"
proof -
  define n where "n = length index div 3"
  from ok ls have n: "0 < n" and tot: "sum_list ls < 2 ^ 21" and lst: "unat (index_entry index (n - 1)) = sum_list ls"
    and ent: "\<And>k. k < n - 1 \<Longrightarrow> ((k + 1) * 32 + unat (drop_bit 21 (index_entry index k)),
        unat (index_code (index_entry index k)), False) \<in> set (decode_states table 0 0 False)"
    by (auto simp: index_ok_def n_def Let_def)
  have g: "get_le24 index (k * 3) = Some (index_entry index k)" if "k < n" for k
    using that by (simp add: get_le24_entry n_def)
  have last_id: "index_code (index_entry index (n - 1)) = index_entry index (n - 1)"
    using lst tot by (intro index_code_id) simp
  have part: "\<exists>ls1 ls2. ls = ls1 @ ls2 \<and> decode_runs table ((k + 1) * 32 + unat (drop_bit 21 (index_entry index k))) = Some ls2 \<and>
      unat (index_code (index_entry index k)) = sum_list ls1 \<and> even (length ls1)" if "k < n - 1" for k
    using decode_states_split [OF ls ent [OF that]] by auto
  have c0: "unat (index_code (index_entry index 0)) \<le> sum_list ls"
    using part [of 0] lst last_id n by (cases "n = 1") auto
  show ?thesis
  proof (cases "c < index_code (index_entry index 0)")
    case True
    then have "unat c < sum_list ls" using c0 by (simp add: word_less_nat_alt)
    with in_table_loop_runs [OF ls, of 0 c False] tot True g [of 0] n show ?thesis
      by (simp add: lre_is_in_table_def get_index_pos_def n_def)
  next
    case nl: False
    show ?thesis
    proof (cases "c \<ge> index_entry index (n - 1)")
      case True
      then have "sum_list ls \<le> unat c" using lst by (simp add: word_le_nat_alt)
      with in_runs_above [of 0 ls "unat c" False] nl True g [of 0] g [of "n - 1"] n show ?thesis
        by (simp add: lre_is_in_table_def get_index_pos_def n_def [symmetric] Let_def)
    next
      case False
      then have cl: "unat c < sum_list ls" using lst by (simp add: word_le_nat_alt)
      have "n \<noteq> 1" using False nl last_id by (auto simp: not_le not_less)
      then have n1: "0 < n - 1" "n - 1 < length index div 3" using n by (auto simp: n_def)
      from index_search_spec [OF n1, of c] nl obtain k where
        k: "index_search index c 0 (n - 1) = Some k" "k < n - 1" "index_code (index_entry index k) \<le> c"
        by (auto simp: not_less)
      from part [OF k(2)] obtain ls1 ls2 where l: "ls = ls1 @ ls2"
        "decode_runs table ((k + 1) * 32 + unat (drop_bit 21 (index_entry index k))) = Some ls2"
        "unat (index_code (index_entry index k)) = sum_list ls1" "even (length ls1)" by blast
      have "sum_list ls1 \<le> unat c" using k(3) l(3) by (simp add: word_le_nat_alt)
      then have "in_runs (unat c) 0 False ls = in_runs (unat c) (sum_list ls1) False ls2"
        using in_runs_append [of 0 ls1 "unat c" False ls2] l by simp
      moreover have "in_table_loop table c ((k + 1) * 32 + unat (drop_bit 21 (index_entry index k)))
          (index_code (index_entry index k)) False = Some (in_runs (unat c) (sum_list ls1) False ls2)"
        using in_table_loop_runs [OF l(2), of "index_code (index_entry index k)" c False] l tot cl k(3)
        by (simp add: word_le_nat_alt)
      ultimately show ?thesis
        using nl False k g [of 0] g [of "n - 1"] g [of k] n
        by (simp add: lre_is_in_table_def get_index_pos_def n_def [symmetric] Let_def)
    qed
  qed
qed

subsection \<open>The expansion\<close>

fun run_points :: "nat \<Rightarrow> bool \<Rightarrow> nat list \<Rightarrow> u32 list" where
  "run_points code inb [] = []"
| "run_points code inb (n # ls) =
     (if inb then [word_of_nat code, word_of_nat (code + n)] else []) @ run_points (code + n) (\<not> inb) ls"

lemma cr_add_if_spec:
  assumes "cr_inv cr" and "cr_len cr + 2 \<le> CR_MAX"
  shows "cr_yields (cr_realloc_func cr) (\<lambda>ys. ys = cr_pts cr @ (if b then [c1, c2] else [])) (cr_add_if b cr c1 c2 h)"
  using assms cr_add_interval_spec [OF assms] by (cases b) (auto simp: cr_add_if_def cr_yields_def)

lemma cr_add_if_cases:
  assumes "cr_inv cr" and "cr_len cr + 2 \<le> CR_MAX"
  obtains (ok) cr' h' where "cr_add_if b cr c1 c2 h = Some (0, cr', h')" "cr_inv cr'"
      "cr_realloc_func cr' = cr_realloc_func cr" "cr_pts cr' = cr_pts cr @ (if b then [c1, c2] else [])"
      "cr_len cr' = cr_len cr + (if b then 2 else 0)"
    | (fail) cr' h' where "cr_add_if b cr c1 c2 h = Some (- 1, cr', h')" "cr_inv cr'"
      "cr_realloc_func cr' = cr_realloc_func cr" "\<not> cr_realloc_total (cr_realloc_func cr)"
  using cr_add_if_spec [OF assms, of b c1 c2 h]
proof (cases rule: cr_yieldsE)
  case (ok cr' h')
  have "cr_len cr' = length (cr_pts cr')" using ok(2) by simp
  with ok that(1) assms(1) show thesis by auto
next
  case (fail cr' h')
  with that(2) show thesis by auto
qed

lemma prop1_loop_spec:
  "cr_inv cr \<Longrightarrow> decode_runs table p = Some ls \<Longrightarrow> unat c + sum_list ls < 2 ^ 32 \<Longrightarrow>
   cr_len cr + 2 * length ls \<le> CR_MAX \<Longrightarrow>
   cr_yields (cr_realloc_func cr) (\<lambda>ys. ys = cr_pts cr @ run_points (unat c) inb ls) (prop1_loop table cr p c inb h)"
proof (induction "length ls" arbitrary: cr p c inb h ls rule: less_induct)
  case less
  from less.prems(2) show ?case
  proof (cases rule: decode_runs_cases)
    case stop
    with less.prems(1) show ?thesis by (subst prop1_loop.simps) (simp add: rd_def cr_yields_ok)
  next
    case (short b ls')
    define n1 where "n1 = drop_bit 3 (ucast b :: u32) + 1"
    define n2 where "n2 = ((ucast b :: u32) AND 7) + 1"
    have ls: "ls = unat n1 # unat n2 # ls'" using short by (simp add: n1_def n2_def)
    have u1: "unat (c + n1) = unat c + unat n1" using less.prems(3) ls by (intro unat_add_bounded) simp
    have u2: "unat (c + n1 + n2) = unat c + unat n1 + unat n2"
      using less.prems(3) ls u1 by (subst unat_add_bounded) simp_all
    have step: "prop1_loop table cr p c inb h = do {
        (ret, cr1, h1) \<leftarrow> cr_add_if inb cr c (c + n1) h;
        if ret \<noteq> 0 then Some (- 1, cr1, h1)
        else do {
          (ret, cr2, h2) \<leftarrow> cr_add_if (\<not> inb) cr1 (c + n1) (c + n1 + n2) h1;
          if ret \<noteq> 0 then Some (- 1, cr2, h2)
          else prop1_loop table cr2 (p + 1) (c + n1 + n2) inb h2 } }"
      using short(1,2) unfolding n1_def n2_def by (subst prop1_loop.simps) (simp add: Let_def)
    have room: "cr_len cr + 2 \<le> CR_MAX" using less.prems(4) ls by simp
    from less.prems(1) room show ?thesis
    proof (cases rule: cr_add_if_cases [where b = inb and ?c1.0 = c and ?c2.0 = "c + n1" and h = h])
      case fail
      then show ?thesis using step by (simp add: cr_yields_fail)
    next
      case (ok cr1 h1)
      note ok1 = ok
      have room1: "cr_len cr1 + 2 \<le> CR_MAX" using ok less.prems(4) ls by simp
      from ok(2) room1 show ?thesis
      proof (cases rule: cr_add_if_cases [where b = "\<not> inb" and ?c1.0 = "c + n1" and ?c2.0 = "c + n1 + n2" and h = h1])
        case fail
        then show ?thesis using step ok1 by (simp add: cr_yields_fail)
      next
        case (ok cr2 h2)
        have "cr_yields (cr_realloc_func cr2) (\<lambda>ys. ys = cr_pts cr2 @ run_points (unat (c + n1 + n2)) inb ls')
            (prop1_loop table cr2 (p + 1) (c + n1 + n2) inb h2)"
          by (rule less.hyps [OF _ ok(2) short(3)]) (use ok ok1 u2 less.prems(3,4) ls in auto)
        with step ok ok1 ls u1 u2 show ?thesis
          by (cases inb) (simp_all add: add.assoc)
      qed
    qed
  next
    case (long b n p' ls')
    have u: "unat (c + n) = unat c + unat n" using less.prems(3) long(5) by (intro unat_add_bounded) simp
    have step: "prop1_loop table cr p c inb h = do {
        (ret, cr1, h1) \<leftarrow> cr_add_if inb cr c (c + n) h;
        if ret \<noteq> 0 then Some (- 1, cr1, h1) else prop1_loop table cr1 p' (c + n) (\<not> inb) h1 }"
      using long(1-3) by (subst prop1_loop.simps) (simp add: Let_def)
    have room: "cr_len cr + 2 \<le> CR_MAX" using less.prems(4) long(5) by simp
    from less.prems(1) room show ?thesis
    proof (cases rule: cr_add_if_cases [where b = inb and ?c1.0 = c and ?c2.0 = "c + n" and h = h])
      case fail
      then show ?thesis using step by (simp add: cr_yields_fail)
    next
      case (ok cr1 h1)
      have "cr_yields (cr_realloc_func cr1) (\<lambda>ys. ys = cr_pts cr1 @ run_points (unat (c + n)) (\<not> inb) ls')
          (prop1_loop table cr1 p' (c + n) (\<not> inb) h1)"
        by (rule less.hyps [OF _ ok(2) long(4)]) (use ok u less.prems(3,4) long(5) in auto)
      with step ok long(5) u show ?thesis by (cases inb) (simp_all add: add.assoc)
    qed
  qed
qed

lemma word_of_nat_le: "n < 2 ^ 32 \<Longrightarrow> word_of_nat n \<le> (c :: u32) \<longleftrightarrow> n \<le> unat c"
  by (simp add: word_le_nat_alt unat_of_nat)

lemma word_of_nat_add_ge: "a + b < 2 ^ 32 \<Longrightarrow> (word_of_nat a :: u32) \<le> word_of_nat (a + b)"
  by (simp add: word_le_nat_alt unat_of_nat del: of_nat_add)

lemma run_points_ge: "code + sum_list ls < 2 ^ 32 \<Longrightarrow> x \<in> set (run_points code inb ls) \<Longrightarrow> word_of_nat code \<le> x"
proof (induction ls arbitrary: code inb)
  case (Cons n ls)
  have le: "(word_of_nat code :: u32) \<le> word_of_nat (code + n)"
    using Cons.prems(1) by (intro word_of_nat_add_ge) simp
  from Cons.prems consider "inb" "x = word_of_nat code" | "inb" "x = word_of_nat (code + n)"
    | "x \<in> set (run_points (code + n) (\<not> inb) ls)" by (auto split: if_splits)
  then show ?case
  proof cases
    case 3
    then have "word_of_nat (code + n) \<le> x" using Cons.IH [of "code + n"] Cons.prems(1) by (simp add: add.assoc)
    with le show ?thesis by (rule order_trans)
  qed (use le in auto)
qed simp

lemma run_points_sorted:
  "code + sum_list ls < 2 ^ 32 \<Longrightarrow> sorted (run_points code inb ls) \<and> even (length (run_points code inb ls))"
proof (induction ls arbitrary: code inb)
  case (Cons n ls)
  have le: "(word_of_nat code :: u32) \<le> word_of_nat (code + n)"
    using Cons.prems by (intro word_of_nat_add_ge) simp
  have ge: "word_of_nat (code + n) \<le> x" if "x \<in> set (run_points (code + n) (\<not> inb) ls)" for x
    using run_points_ge [OF _ that] Cons.prems by (simp add: add.assoc)
  show ?case
    using Cons.IH [of "code + n" "\<not> inb"] Cons.prems le ge order_trans [OF le ge] by (auto simp: add.assoc)
qed simp

lemma in_points_run_points:
  "code + sum_list ls < 2 ^ 32 \<Longrightarrow> code \<le> unat c \<Longrightarrow> in_points (run_points code inb ls) c \<longleftrightarrow> in_runs (unat c) code inb ls"
proof (induction ls arbitrary: code inb)
  case (Cons n ls)
  have b: "code + n + sum_list ls < 2 ^ 32" using Cons.prems by simp
  show ?case
  proof (cases "unat c < code + n")
    case True
    have "\<not> in_points (run_points (code + n) (\<not> inb) ls) c"
    proof (rule in_points_none)
      fix x assume "x \<in> set (run_points (code + n) (\<not> inb) ls)"
      from run_points_ge [OF b this] have "word_of_nat (code + n) \<le> x" .
      moreover have "c < word_of_nat (code + n)" using True b by (simp add: word_less_nat_alt unat_of_nat del: of_nat_add)
      ultimately show "c < x" by (rule less_le_trans [rotated])
    qed
    then show ?thesis using True Cons.prems b
      by (auto simp: in_points_Cons word_of_nat_le simp del: of_nat_add)
  next
    case False
    with Cons.IH [OF b, of "\<not> inb"] Cons.prems b show ?thesis
      by (auto simp: in_points_Cons word_of_nat_le simp del: of_nat_add)
  qed
qed simp

lemma length_decode_runs: "decode_runs table p = Some ls \<Longrightarrow> length ls \<le> 2 * (length table - p)"
proof (induction table p arbitrary: ls rule: decode_runs.induct)
  case (1 table p)
  from "1.prems" show ?case
  proof (cases rule: decode_runs_cases)
    case (short b ls')
    with "1.IH"(1) [OF short(1) refl short(2,3)] show ?thesis by (auto simp: rd_def split: if_splits)
  next
    case (long b n p' ls')
    with "1.IH"(2) [OF long(1) refl long(2,3) refl long(4)] run_long_ge [OF long(3)] show ?thesis
      by (auto simp: rd_def split: if_splits)
  qed simp
qed

text \<open>
  C18. The two readers of a compressed property table agree: for a table with a valid index,
  \<^verbatim>\<open>unicode_prop1\<close> expands it into a sorted list of intervals (or reports that the allocator
  failed), and the indexed lookup \<^verbatim>\<open>lre_is_in_table\<close> answers, for every code point, exactly whether
  it lies in one of these intervals, without leaving the table.
\<close>

theorem prop_table_agree:
  assumes "cr_realloc_ok f" and tab: "rd (prop_table T) i = Some table" and ok: "index_ok table index"
    and len: "4 * length table \<le> CR_MAX"
  shows "\<exists>ret cr h'. unicode_prop1 T (cr_init f) i h = Some (ret, cr, h') \<and> cr_inv cr \<and>
    (ret = 0 \<and> sorted (cr_pts cr) \<and> even (length (cr_pts cr)) \<and>
       (\<forall>c. lre_is_in_table c table index (length index div 3) = Some (in_points (cr_pts cr) c)) \<or>
     ret = - 1 \<and> \<not> cr_realloc_total f)"
proof -
  from ok obtain ls where ls: "decode_runs table 0 = Some ls" and tot: "sum_list ls < 2 ^ 21"
    by (auto simp: index_ok_def Let_def split: option.splits)
  have tot32: "0 + sum_list ls < 2 ^ 32" using tot by simp
  have f [simp]: "cr_realloc_func (cr_init f) = f" by (simp add: cr_init_def)
  have "cr_yields (cr_realloc_func (cr_init f)) (\<lambda>ys. ys = cr_pts (cr_init f) @ run_points (unat (0 :: u32)) False ls)
      (prop1_loop table (cr_init f) 0 0 False h)"
    using assms(1) length_decode_runs [OF ls] len tot32 ls
    by (intro prop1_loop_spec cr_inv_init) (auto simp: cr_init_def)
  then have "cr_yields f (\<lambda>ys. ys = run_points 0 False ls) (unicode_prop1 T (cr_init f) i h)"
    using tab by (simp add: unicode_prop1_def)
  moreover have "sorted (run_points 0 False ls)" "even (length (run_points 0 False ls))"
    using run_points_sorted [OF tot32, of False] by auto
  moreover have "lre_is_in_table c table index (length index div 3) = Some (in_points (run_points 0 False ls) c)" for c
    using lre_is_in_table_runs [OF ok ls, of c] in_points_run_points [OF tot32, of c False] by simp
  ultimately show ?thesis by (auto simp: cr_yields_def)
qed

text \<open>A table with both forms of run, on which the hypotheses hold.\<close>

definition sample_table :: bytes where
  "sample_table = [0xa9, 0x2b, 0x42, 0x13, 0x60, 0x01, 0x02]"

definition sample_index :: bytes where
  "sample_index = [0x4b, 0x03, 0x00]"

definition sample_tables :: uni_tables where
  "sample_tables = \<lparr>gc_name_table = [], gc_table = [], script_name_table = [], script_table = [],
     script_ext_table = [], prop_name_table = [], prop_table = [sample_table]\<rparr>"

lemma sample_runs: "decode_runs sample_table 0 = Some [42, 6, 4, 532, 259]"
  unfolding sample_table_def
  by (subst decode_runs.simps, simp add: rd_def run_long_def)+

lemma sample_index_ok: "index_ok sample_table sample_index"
  by (simp add: index_ok_def sample_runs) (simp add: sample_index_def index_entry_def get_le24_def rd_def)

theorem prop_table_agree_witness:
  "\<exists>ret cr h'. unicode_prop1 sample_tables (cr_init zero_realloc) 0 () = Some (ret, cr, h') \<and> cr_inv cr \<and>
    (ret = 0 \<and> sorted (cr_pts cr) \<and> even (length (cr_pts cr)) \<and>
       (\<forall>c. lre_is_in_table c sample_table sample_index (length sample_index div 3) =
          Some (in_points (cr_pts cr) c)) \<or>
     ret = - 1 \<and> \<not> cr_realloc_total zero_realloc)"
proof (rule prop_table_agree)
  show "rd (prop_table sample_tables) 0 = Some sample_table" by (simp add: sample_tables_def rd_def)
  show "4 * length sample_table \<le> CR_MAX" by (simp add: sample_table_def CR_MAX_def)
qed (rule zero_realloc_ok sample_index_ok)+

end
