(* ===== verification/UniSets.thy ===== *)
theory UniSets
  imports UniProps
begin

section \<open>Scripts, derived properties and case-insensitive classes (\<^verbatim>\<open>js/libunicode.c\<close>)\<close>

text \<open>
  \<^verbatim>\<open>unicode_script\<close>, the stack machine \<^verbatim>\<open>unicode_prop_ops\<close> that combines tables into derived
  properties, \<^verbatim>\<open>unicode_prop\<close>, and \<^verbatim>\<open>cr_regexp_canonicalize\<close>.
\<close>

subsection \<open>Scripts\<close>

abbreviation (input) "UNICODE_SCRIPT_Unknown \<equiv> 0 :: int"
abbreviation (input) "UNICODE_SCRIPT_Common \<equiv> 25 :: int"
abbreviation (input) "UNICODE_SCRIPT_Inherited \<equiv> 56 :: int"

definition script_run :: "bytes \<Rightarrow> nat \<Rightarrow> u32 \<Rightarrow> (u32 \<times> nat) option" where
  "script_run table p n =
     (if n < 96 then Some (n, p)
      else if n < 112 then do {
        p0 \<leftarrow> rd table p;
        Some ((push_bit 8 (n - 96) OR ucast p0) + 96, p + 1) }
      else do {
        p0 \<leftarrow> rd table p;
        p1 \<leftarrow> rd table (p + 1);
        Some ((push_bit 16 (n - 112) OR push_bit 8 (ucast p0) OR ucast p1) + (96 + push_bit 12 1), p + 2) })"

lemma script_run_ge: "script_run table p n = Some (m, p') \<Longrightarrow> p \<le> p'"
  by (auto simp: script_run_def split: if_splits bind_splits)

definition script_val :: "bytes \<Rightarrow> nat \<Rightarrow> u32 \<Rightarrow> (u32 \<times> nat) option" where
  "script_val table p b =
     (if drop_bit 7 b = 0 then Some (0, p) else do { v \<leftarrow> rd table p; Some (ucast v, p + 1) })"

lemma script_val_ge: "script_val table p b = Some (v, p') \<Longrightarrow> p \<le> p'"
  by (auto simp: script_val_def split: if_splits bind_splits)

function script_loop :: "bytes \<Rightarrow> int \<Rightarrow> 'h CharRange \<Rightarrow> nat \<Rightarrow> u32 \<Rightarrow> 'h \<Rightarrow> 'h cr_result" where
  "script_loop table script_idx cr p c h =
     (case rd table p of
        None \<Rightarrow> Some (0, cr, h)
      | Some b8 \<Rightarrow>
          let b = ucast b8 :: u32
          in (case script_run table (p + 1) (b AND 0x7f) of
                None \<Rightarrow> None
              | Some (n, p1) \<Rightarrow>
                  (case script_val table p1 b of
                     None \<Rightarrow> None
                   | Some (v, p2) \<Rightarrow>
                       let c1 = c + n + 1
                       in do {
                         (ret, cr1, h1) \<leftarrow> cr_add_if (uint v = script_idx) cr c c1 h;
                         if ret \<noteq> 0 then Some (- 1, cr1, h1)
                         else script_loop table script_idx cr1 p2 c1 h1 })))"
  by pat_completeness auto
termination
  by (relation "measure (\<lambda>(table, script_idx, cr, p, c, h). length table - p)")
    (auto simp: rd_def split: if_splits dest!: script_run_ge script_val_ge)

declare script_loop.simps [simp del]

definition ext_run :: "bytes \<Rightarrow> nat \<Rightarrow> u32 \<Rightarrow> (u32 \<times> nat) option" where
  "ext_run table p b =
     (if b < 128 then Some (b, p)
      else if b < 128 + 64 then do {
        p0 \<leftarrow> rd table p;
        Some ((push_bit 8 (b - 128) OR ucast p0) + 128, p + 1) }
      else do {
        p0 \<leftarrow> rd table p;
        p1 \<leftarrow> rd table (p + 1);
        Some ((push_bit 16 (b - 128 - 64) OR push_bit 8 (ucast p0) OR ucast p1) + (128 + push_bit 14 1), p + 2) })"

lemma ext_run_ge: "ext_run table p b = Some (n, p') \<Longrightarrow> p \<le> p'"
  by (auto simp: ext_run_def split: if_splits bind_splits)

text \<open>
  The scripts of an extension entry are read one by one until \<^verbatim>\<open>script_idx\<close> is found.
\<close>

fun ext_has :: "bytes \<Rightarrow> nat \<Rightarrow> nat \<Rightarrow> int \<Rightarrow> bool option" where
  "ext_has table p 0 script_idx = Some False"
| "ext_has table p (Suc n) script_idx = do {
     b \<leftarrow> rd table p;
     if uint b = script_idx then Some True else ext_has table (p + 1) n script_idx }"

function script_ext_loop :: "bytes \<Rightarrow> int \<Rightarrow> bool \<Rightarrow> 'h CharRange \<Rightarrow> nat \<Rightarrow> u32 \<Rightarrow> 'h \<Rightarrow> 'h cr_result" where
  "script_ext_loop table script_idx is_common cr p c h =
     (case rd table p of
        None \<Rightarrow> Some (0, cr, h)
      | Some b8 \<Rightarrow>
          (case ext_run table (p + 1) (ucast b8) of
             None \<Rightarrow> None
           | Some (n, p1) \<Rightarrow> do {
               v_len \<leftarrow> rd table p1;
               hit \<leftarrow> (if is_common then Some (v_len \<noteq> 0) else ext_has table (p1 + 1) (unat v_len) script_idx);
               (ret, cr1, h1) \<leftarrow> cr_add_if hit cr c (c + n + 1) h;
               if ret \<noteq> 0 then Some (- 1, cr1, h1)
               else script_ext_loop table script_idx is_common cr1 (p1 + 1 + unat v_len) (c + n + 1) h1 }))"
  by pat_completeness auto
termination
  by (relation "measure (\<lambda>(table, script_idx, is_common, cr, p, c, h). length table - p)")
    (auto simp: rd_def split: if_splits dest!: ext_run_ge)

declare script_ext_loop.simps [simp del]

text \<open>
  The error label of \<^verbatim>\<open>unicode_script\<close> frees its temporaries and then jumps to itself
  (\<^verbatim>\<open>goto fail\<close>), so a failing allocation never returns to the caller: it is \<open>None\<close>.
\<close>

definition script_check :: "'h cr_result \<Rightarrow> ('h CharRange \<times> 'h) option" where
  "script_check r = do { (ret, cr, h) \<leftarrow> r; if ret \<noteq> 0 then None else Some (cr, h) }"

definition unicode_script :: "uni_tables \<Rightarrow> 'h CharRange \<Rightarrow> bytes \<Rightarrow> bool \<Rightarrow> 'h \<Rightarrow> 'h cr_result" where
  "unicode_script T cr script_name is_ext h = do {
     idx \<leftarrow> unicode_find_name (script_name_table T) script_name;
     if idx < 0 then Some (- 2, cr, h)
     else do {
       let script_idx = idx + UNICODE_SCRIPT_Unknown + 1;
       let is_common = (script_idx = UNICODE_SCRIPT_Common \<or> script_idx = UNICODE_SCRIPT_Inherited);
       let tmp = cr_init (cr_realloc_func cr);
       if is_ext then do {
         (cr1, h) \<leftarrow> script_check (script_loop (script_table T) script_idx tmp 0 0 h);
         (cr2, h) \<leftarrow> script_check (script_ext_loop (script_ext_table T) script_idx is_common tmp 0 0 h);
         (cr2, h) \<leftarrow> (if is_common then script_check (cr_invert cr2 h) else Some (cr2, h));
         (cr, h) \<leftarrow> script_check (cr_op cr (cr_points cr1) (cr_len cr1) (cr_points cr2) (cr_len cr2)
            (if is_common then CR_OP_INTER else CR_OP_UNION) h);
         Some (0, cr, cr_free cr2 (cr_free cr1 h)) }
       else do {
         (cr, h) \<leftarrow> script_check (script_loop (script_table T) script_idx cr 0 0 h);
         Some (0, cr, h) } } }"

subsection \<open>Derived properties\<close>

text \<open>
  The variadic arguments of \<^verbatim>\<open>unicode_prop_ops\<close> up to \<^verbatim>\<open>POP_END\<close>.
\<close>

datatype prop_op =
  POP_GC u32 | POP_PROP nat | POP_CASE nat | POP_UNION | POP_INTER | POP_XOR | POP_INVERT

abbreviation (input) "POP_STACK_LEN_MAX \<equiv> 4 :: nat"

text \<open>
  The operand stack, newest range first. A failed \<^verbatim>\<open>assert\<close> is \<open>None\<close>; \<open>Inl h\<close> is the jump to
  \<^verbatim>\<open>fail\<close>, which frees the whole stack.
\<close>

definition free_all :: "'h CharRange list \<Rightarrow> 'h \<Rightarrow> 'h" where
  "free_all stk h = fold cr_free (rev stk) h"

definition pop_push :: "'h CharRange list \<Rightarrow> 'h cr_result \<Rightarrow> ('h + 'h CharRange list \<times> 'h) option" where
  "pop_push stk r = do {
     (ret, cr, h) \<leftarrow> r;
     Some (if ret \<noteq> 0 then Inl (free_all (cr # stk) h) else Inr (cr # stk, h)) }"

definition pop_binary ::
    "'h cr_realloc_fn \<Rightarrow> CharRangeOp \<Rightarrow> 'h CharRange list \<Rightarrow> 'h \<Rightarrow> ('h + 'h CharRange list \<times> 'h) option" where
  "pop_binary f op stk h =
     (case stk of
        cr2 # cr1 # rest \<Rightarrow>
          if length stk < POP_STACK_LEN_MAX then do {
            (ret, cr3, h) \<leftarrow> cr_op (cr_init f) (cr_points cr1) (cr_len cr1) (cr_points cr2) (cr_len cr2) op h;
            Some (if ret \<noteq> 0 then Inl (free_all (cr3 # stk) h)
                  else Inr (cr3 # rest, cr_free cr2 (cr_free cr1 h))) }
          else None
      | _ \<Rightarrow> None)"

definition prop_op_step ::
    "uni_tables \<Rightarrow> 'h cr_realloc_fn \<Rightarrow> prop_op \<Rightarrow> 'h CharRange list \<Rightarrow> 'h \<Rightarrow> ('h + 'h CharRange list \<times> 'h) option" where
  "prop_op_step T f op stk h =
     (case op of
        POP_GC a \<Rightarrow>
          if length stk < POP_STACK_LEN_MAX then pop_push stk (unicode_general_category1 T (cr_init f) a h) else None
      | POP_PROP a \<Rightarrow>
          if length stk < POP_STACK_LEN_MAX then pop_push stk (unicode_prop1 T (cr_init f) a h) else None
      | POP_CASE a \<Rightarrow>
          if length stk < POP_STACK_LEN_MAX then pop_push stk (unicode_case1 (cr_init f) a h) else None
      | POP_UNION \<Rightarrow> pop_binary f CR_OP_UNION stk h
      | POP_INTER \<Rightarrow> pop_binary f CR_OP_INTER stk h
      | POP_XOR \<Rightarrow> pop_binary f CR_OP_XOR stk h
      | POP_INVERT \<Rightarrow> (case stk of cr # rest \<Rightarrow> pop_push rest (cr_invert cr h) | [] \<Rightarrow> None))"

fun prop_ops_run ::
    "uni_tables \<Rightarrow> 'h cr_realloc_fn \<Rightarrow> prop_op list \<Rightarrow> 'h CharRange list \<Rightarrow> 'h \<Rightarrow> ('h + 'h CharRange list \<times> 'h) option" where
  "prop_ops_run T f [] stk h = Some (Inr (stk, h))"
| "prop_ops_run T f (op # ops) stk h = do {
     r \<leftarrow> prop_op_step T f op stk h;
     (case r of Inl h \<Rightarrow> Some (Inl h) | Inr (stk, h) \<Rightarrow> prop_ops_run T f ops stk h) }"

definition unicode_prop_ops :: "uni_tables \<Rightarrow> 'h CharRange \<Rightarrow> prop_op list \<Rightarrow> 'h \<Rightarrow> 'h cr_result" where
  "unicode_prop_ops T cr ops h = do {
     r \<leftarrow> prop_ops_run T (cr_realloc_func cr) ops [] h;
     (case r of
        Inl h \<Rightarrow> Some (- 1, cr, h)
      | Inr ([s], h) \<Rightarrow> do { (ret, cr, h) \<leftarrow> cr_copy cr s h; Some (ret, cr, cr_free s h) }
      | Inr _ \<Rightarrow> None) }"

text \<open>Indices of \<^verbatim>\<open>UnicodePropertyEnum\<close>.\<close>

abbreviation (input) "PROP_Other_Math \<equiv> 1 :: nat"
abbreviation (input) "PROP_Other_Alphabetic \<equiv> 2 :: nat"
abbreviation (input) "PROP_Other_Lowercase \<equiv> 3 :: nat"
abbreviation (input) "PROP_Other_Uppercase \<equiv> 4 :: nat"
abbreviation (input) "PROP_Other_Grapheme_Extend \<equiv> 5 :: nat"
abbreviation (input) "PROP_Other_ID_Start \<equiv> 7 :: nat"
abbreviation (input) "PROP_Other_ID_Continue \<equiv> 8 :: nat"
abbreviation (input) "PROP_ID_Continue1 \<equiv> 10 :: nat"
abbreviation (input) "PROP_XID_Start1 \<equiv> 11 :: nat"
abbreviation (input) "PROP_XID_Continue1 \<equiv> 12 :: nat"
abbreviation (input) "PROP_Changes_When_Titlecased1 \<equiv> 13 :: nat"
abbreviation (input) "PROP_Changes_When_Casefolded1 \<equiv> 14 :: nat"
abbreviation (input) "PROP_Changes_When_NFKC_Casefolded1 \<equiv> 15 :: nat"
abbreviation (input) "PROP_ASCII_Hex_Digit \<equiv> 16 :: nat"
abbreviation (input) "PROP_Pattern_Syntax \<equiv> 29 :: nat"
abbreviation (input) "PROP_Pattern_White_Space \<equiv> 30 :: nat"
abbreviation (input) "PROP_ID_Start \<equiv> 48 :: nat"

text \<open>The operations behind each derived property; \<open>None\<close> for the properties with a table of their own.\<close>

definition prop_program :: "nat \<Rightarrow> prop_op list option" where
  "prop_program prop_idx =
     (if prop_idx = 53 then Some [POP_GC GC_Cn, POP_INVERT]
      else if prop_idx = 65 then Some [POP_GC GC_Sm, POP_PROP PROP_Other_Math, POP_UNION]
      else if prop_idx = 64 then Some [POP_GC GC_Ll, POP_PROP PROP_Other_Lowercase, POP_UNION]
      else if prop_idx = 66 then Some [POP_GC GC_Lu, POP_PROP PROP_Other_Uppercase, POP_UNION]
      else if prop_idx = 54 then Some
        [POP_GC (GC_Lu OR GC_Ll OR GC_Lt), POP_PROP PROP_Other_Uppercase, POP_UNION,
         POP_PROP PROP_Other_Lowercase, POP_UNION]
      else if prop_idx = 51 then Some
        [POP_GC (GC_Lu OR GC_Ll OR GC_Lt OR GC_Lm OR GC_Lo OR GC_Nl), POP_PROP PROP_Other_Uppercase, POP_UNION,
         POP_PROP PROP_Other_Lowercase, POP_UNION, POP_PROP PROP_Other_Alphabetic, POP_UNION]
      else if prop_idx = 61 then Some
        [POP_GC (GC_Cc OR GC_Cf OR GC_Cs OR GC_Co OR GC_Cn OR GC_Zl OR GC_Zp OR GC_Me OR GC_Mn),
         POP_PROP PROP_Other_Grapheme_Extend, POP_UNION, POP_INVERT]
      else if prop_idx = 62 then Some
        [POP_GC (GC_Me OR GC_Mn), POP_PROP PROP_Other_Grapheme_Extend, POP_UNION]
      else if prop_idx = 68 then Some
        [POP_GC (GC_Lu OR GC_Ll OR GC_Lt OR GC_Lm OR GC_Lo OR GC_Nl), POP_PROP PROP_Other_ID_Start, POP_UNION,
         POP_PROP PROP_Pattern_Syntax, POP_PROP PROP_Pattern_White_Space, POP_UNION,
         POP_PROP PROP_XID_Start1, POP_UNION, POP_INVERT, POP_INTER]
      else if prop_idx = 67 then Some
        [POP_GC (GC_Lu OR GC_Ll OR GC_Lt OR GC_Lm OR GC_Lo OR GC_Nl OR GC_Mn OR GC_Mc OR GC_Nd OR GC_Pc),
         POP_PROP PROP_Other_ID_Start, POP_UNION, POP_PROP PROP_Other_ID_Continue, POP_UNION,
         POP_PROP PROP_Pattern_Syntax, POP_PROP PROP_Pattern_White_Space, POP_UNION,
         POP_PROP PROP_XID_Continue1, POP_UNION, POP_INVERT, POP_INTER]
      else if prop_idx = 59 then Some [POP_CASE CASE_U, POP_PROP PROP_Changes_When_Titlecased1, POP_XOR]
      else if prop_idx = 55 then Some [POP_CASE CASE_F, POP_PROP PROP_Changes_When_Casefolded1, POP_XOR]
      else if prop_idx = 58 then Some [POP_CASE CASE_F, POP_PROP PROP_Changes_When_NFKC_Casefolded1, POP_XOR]
      else if prop_idx = 63 then Some [POP_PROP PROP_ID_Start, POP_PROP PROP_ID_Continue1, POP_XOR]
      else None)"

definition unicode_prop :: "uni_tables \<Rightarrow> 'h CharRange \<Rightarrow> bytes \<Rightarrow> 'h \<Rightarrow> 'h cr_result" where
  "unicode_prop T cr prop_name h = do {
     idx \<leftarrow> unicode_find_name (prop_name_table T) prop_name;
     if idx < 0 then Some (- 2, cr, h)
     else do {
       let prop_idx = nat idx + PROP_ASCII_Hex_Digit;
       (case prop_program prop_idx of
          Some ops \<Rightarrow> unicode_prop_ops T cr ops h
        | None \<Rightarrow>
            if prop_idx = 50 then cr_add_interval cr 0 (0x7f + 1) h
            else if prop_idx = 52 then cr_add_interval cr 0 (0x10ffff + 1) h
            else if prop_idx = 60 then unicode_case1 cr CASE_U h
            else if prop_idx = 57 then unicode_case1 cr CASE_L h
            else if prop_idx = 56 then unicode_case1 cr (CASE_U OR CASE_L OR CASE_F) h
            else if prop_idx \<ge> length (prop_table T) then Some (- 2, cr, h)
            else unicode_prop1 T cr prop_idx h) } }"

subsection \<open>Case-insensitive classes\<close>

text \<open>
  \<^verbatim>\<open>cr_regexp_canonicalize\<close> replaces the characters of a class that case folding changes by their
  folded forms. The state of its scan: the intervals collected so far, the current table index, and
  the interval \<open>[d_start, d_end)\<close> being merged, where \<open>d_start = -1\<close> stands for none.
\<close>

record 'h canon_state =
  cs_result :: "'h CharRange"
  cs_idx :: nat
  cs_d_start :: u32
  cs_d_end :: u32
  cs_heap :: 'h

text \<open>The search for the entry that covers \<^verbatim>\<open>c\<close> only moves forward; running off the table is a failed \<^verbatim>\<open>assert\<close>.\<close>

function canon_advance :: "u32 \<Rightarrow> nat \<Rightarrow> nat option" where
  "canon_advance c idx =
     (case rd case_conv_table1 idx of
        None \<Rightarrow> None
      | Some v \<Rightarrow> if c \<ge> conv_code v \<and> c < conv_code v + conv_len v then Some idx else canon_advance c (idx + 1))"
  by pat_completeness auto
termination
  by (relation "measure (\<lambda>(c, idx). length case_conv_table1 - idx)") (auto simp: rd_def split: if_splits)

declare canon_advance.simps [simp del]

text \<open>The return value of \<^verbatim>\<open>cr_add_interval\<close> is not looked at here: a failed allocation loses an interval.\<close>

definition canon_char :: "bool \<Rightarrow> u32 \<Rightarrow> 'h canon_state \<Rightarrow> 'h canon_state option" where
  "canon_char is_unicode c s = do {
     idx \<leftarrow> canon_advance c (cs_idx s);
     v \<leftarrow> rd case_conv_table1 idx;
     d \<leftarrow> lre_case_folding_entry c idx v is_unicode;
     if cs_d_start s = - 1 then Some (s\<lparr>cs_idx := idx, cs_d_start := d, cs_d_end := d + 1\<rparr>)
     else if cs_d_end s = d then Some (s\<lparr>cs_idx := idx, cs_d_end := cs_d_end s + 1\<rparr>)
     else do {
       (ret, cr, h) \<leftarrow> cr_add_interval (cs_result s) (cs_d_start s) (cs_d_end s) (cs_heap s);
       Some (s\<lparr>cs_result := cr, cs_heap := h, cs_idx := idx, cs_d_start := d, cs_d_end := d + 1\<rparr>) } }"

function canon_run :: "bool \<Rightarrow> u32 \<Rightarrow> u32 \<Rightarrow> 'h canon_state \<Rightarrow> 'h canon_state option" where
  "canon_run is_unicode c stop s =
     (if c < stop then do {
        s1 \<leftarrow> canon_char is_unicode c s;
        canon_run is_unicode (c + 1) stop s1 }
      else Some s)"
  by pat_completeness auto
termination
proof (relation "measure (\<lambda>(u, c, stop, s). unat stop - unat c)")
  fix u :: bool and c stop :: u32 and s s1 :: "'h canon_state"
  assume "c < stop"
  moreover from this have "unat (c + 1) = unat c + 1"
    using unsigned_less [where w = stop and ?'a = nat] by (simp add: word_less_nat_alt unat_word_ariths)
  ultimately show "((u, c + 1, stop, s1), u, c, stop, s) \<in> measure (\<lambda>(u, c, stop, s). unat stop - unat c)"
    by (simp add: word_less_nat_alt)
qed simp

declare canon_run.simps [simp del]

fun canon_intervals :: "bool \<Rightarrow> (u32 \<times> u32) list \<Rightarrow> 'h canon_state \<Rightarrow> 'h canon_state option" where
  "canon_intervals is_unicode [] s = Some s"
| "canon_intervals is_unicode ((start, stop) # r) s = do {
     s1 \<leftarrow> canon_run is_unicode start stop s;
     canon_intervals is_unicode r s1 }"

text \<open>
  The whole function; \<open>free4\<close> is the common exit. \<open>Inl\<close> results jump to \<^verbatim>\<open>fail\<close>.
\<close>

definition free4 :: "'h CharRange \<Rightarrow> 'h CharRange \<Rightarrow> 'h CharRange \<Rightarrow> 'h CharRange \<Rightarrow> 'h \<Rightarrow> 'h" where
  "free4 isect msk result sub h = cr_free sub (cr_free result (cr_free msk (cr_free isect h)))"

definition canon_finish ::
    "'h CharRange \<Rightarrow> 'h CharRange \<Rightarrow> 'h CharRange \<Rightarrow> 'h CharRange \<Rightarrow> 'h canon_state \<Rightarrow> 'h cr_result" where
  "canon_finish cr isect msk sub s = do {
     (ret, result, h) \<leftarrow> cr_add_if (cs_d_start s \<noteq> - 1) (cs_result s) (cs_d_start s) (cs_d_end s) (cs_heap s);
     if ret \<noteq> 0 then Some (- 1, cr, free4 isect msk result sub h)
     else do {
       result \<leftarrow> cr_sort_and_remove_overlap result;
       (ret, cr, h) \<leftarrow> cr_op (cr\<lparr>cr_len := 0\<rparr>) (cr_points result) (cr_len result) (cr_points sub) (cr_len sub) CR_OP_UNION h;
       Some (if ret \<noteq> 0 then - 1 else 0, cr, free4 isect msk result sub h) } }"

definition cr_regexp_canonicalize :: "'h CharRange \<Rightarrow> bool \<Rightarrow> 'h \<Rightarrow> 'h cr_result" where
  "cr_regexp_canonicalize cr is_unicode h = do {
     let none = cr_init (cr_realloc_func cr);
     (ret, msk, h) \<leftarrow> unicode_case1 none (if is_unicode then CASE_F else CASE_U) h;
     if ret \<noteq> 0 then Some (- 1, cr, free4 none msk none none h)
     else do {
       (ret, isect, h) \<leftarrow> cr_op none (cr_points msk) (cr_len msk) (cr_points cr) (cr_len cr) CR_OP_INTER h;
       if ret \<noteq> 0 then Some (- 1, cr, free4 isect msk none none h)
       else do {
         (ret, msk, h) \<leftarrow> cr_invert msk h;
         if ret \<noteq> 0 then Some (- 1, cr, free4 isect msk none none h)
         else do {
           (ret, sub, h) \<leftarrow> cr_op none (cr_points msk) (cr_len msk) (cr_points cr) (cr_len cr) CR_OP_INTER h;
           if ret \<noteq> 0 then Some (- 1, cr, free4 isect msk none sub h)
           else do {
             s \<leftarrow> canon_intervals is_unicode (pairs_of (cr_pts isect))
               \<lparr>cs_result = none, cs_idx = 0, cs_d_start = - 1, cs_d_end = - 1, cs_heap = h\<rparr>;
             canon_finish cr isect msk sub s } } } } }"

end
