(* ===== verification/Normalize.thy ===== *)
theory Normalize
  imports UniProps DynBuf
begin

section \<open>Unicode normalization (\<^verbatim>\<open>js/libunicode.c\<close>)\<close>

text \<open>
  Decomposition, canonical reordering and composition. The generated tables are the fields of
  \<open>norm_tables\<close>. The result array \<^verbatim>\<open>res\<close> of a decomposition is the list of what was written to it,
  next to the returned length.
\<close>

record norm_tables =
  cc_table :: bytes
  cc_index :: bytes
  decomp_table1 :: "u32 list"
  decomp_table2 :: "u16 list"
  decomp_data :: bytes
  comp_table :: "u16 list"

subsection \<open>Decomposition of one character\<close>

definition unicode_get_short_code :: "u32 \<Rightarrow> u32 option" where
  "unicode_get_short_code c =
     (if c < 0x80 then Some c
      else if c < 0x80 + 0x50 then Some (c - 0x80 + 0x300)
      else rd [0x2044, 0x2215] (unat (c - 0x80 - 0x50)))"

definition unicode_get_lower_simple :: "u32 \<Rightarrow> u32" where
  "unicode_get_lower_simple c = (if c < 0x100 \<or> c \<ge> 0x410 \<and> c \<le> 0x42f then c + 0x20 else c + 1)"

definition unicode_get16 :: "bytes \<Rightarrow> nat \<Rightarrow> u32 option" where
  "unicode_get16 d i = do { b0 \<leftarrow> rd d i; b1 \<leftarrow> rd d (i + 1); Some (ucast b0 OR push_bit 8 (ucast b1)) }"

definition short_at :: "bytes \<Rightarrow> nat \<Rightarrow> u32 option" where
  "short_at d i = do { b \<leftarrow> rd d i; unicode_get_short_code (ucast b) }"

text \<open>Fill \<^verbatim>\<open>res\<close> from \<open>f\<close>; a zero ends the loop with result 0 and is stored when \<open>keep\<close>.\<close>

fun fill_until0 :: "(nat \<Rightarrow> u32 option) \<Rightarrow> bool \<Rightarrow> nat \<Rightarrow> nat \<Rightarrow> (bool \<times> u32 list) option" where
  "fill_until0 f keep i 0 = Some (True, [])"
| "fill_until0 f keep i (Suc n) = do {
     c \<leftarrow> f i;
     if c = 0 then Some (False, if keep then [c] else [])
     else do { (ok, ws) \<leftarrow> fill_until0 f keep (i + 1) n; Some (ok, c # ws) } }"

definition fill :: "(nat \<Rightarrow> u32 option) \<Rightarrow> bool \<Rightarrow> nat \<Rightarrow> (nat \<times> u32 list) option" where
  "fill f keep l = do { (ok, ws) \<leftarrow> fill_until0 f keep 0 l; Some (if ok then l else 0, ws) }"

fun fill_all :: "(nat \<Rightarrow> u32 option) \<Rightarrow> nat \<Rightarrow> nat \<Rightarrow> u32 list option" where
  "fill_all f i 0 = Some []"
| "fill_all f i (Suc n) = do { c \<leftarrow> f i; ws \<leftarrow> fill_all f (i + 1) n; Some (c # ws) }"

text \<open>The entry types, in the order of \<^verbatim>\<open>DecompTypeEnum\<close>.\<close>

abbreviation (input) "DECOMP_TYPE_C1 \<equiv> 0 :: nat"
abbreviation (input) "DECOMP_TYPE_L1 \<equiv> 1 :: nat"
abbreviation (input) "DECOMP_TYPE_L7 \<equiv> 7 :: nat"
abbreviation (input) "DECOMP_TYPE_LL1 \<equiv> 8 :: nat"
abbreviation (input) "DECOMP_TYPE_LL2 \<equiv> 9 :: nat"
abbreviation (input) "DECOMP_TYPE_S1 \<equiv> 10 :: nat"
abbreviation (input) "DECOMP_TYPE_S5 \<equiv> 14 :: nat"
abbreviation (input) "DECOMP_TYPE_I1 \<equiv> 15 :: nat"
abbreviation (input) "DECOMP_TYPE_I2_0 \<equiv> 16 :: nat"
abbreviation (input) "DECOMP_TYPE_I4_2 \<equiv> 21 :: nat"
abbreviation (input) "DECOMP_TYPE_B1 \<equiv> 22 :: nat"
abbreviation (input) "DECOMP_TYPE_B8 \<equiv> 29 :: nat"
abbreviation (input) "DECOMP_TYPE_B18 \<equiv> 30 :: nat"
abbreviation (input) "DECOMP_TYPE_LS2 \<equiv> 31 :: nat"
abbreviation (input) "DECOMP_TYPE_PAT3 \<equiv> 32 :: nat"
abbreviation (input) "DECOMP_TYPE_S2_UL \<equiv> 33 :: nat"
abbreviation (input) "DECOMP_TYPE_LS2_UL \<equiv> 34 :: nat"

definition decomp_ll :: "bytes \<Rightarrow> nat \<Rightarrow> nat \<Rightarrow> nat \<Rightarrow> u32 option" where
  "decomp_ll dd d p k = do {
     lo \<leftarrow> unicode_get16 dd (d + 2 * k);
     hi \<leftarrow> rd dd (d + p + k div 4);
     Some (lo OR push_bit 16 (drop_bit (k mod 4 * 2) (ucast hi) AND 3)) }"

definition decomp_i :: "bytes \<Rightarrow> nat \<Rightarrow> nat \<Rightarrow> u32 \<Rightarrow> nat \<Rightarrow> u32 option" where
  "decomp_i dd d p delta i = do {
     c1 \<leftarrow> unicode_get16 dd (d + 2 * i);
     Some (if i = p then c1 + delta else c1) }"

definition decomp_b :: "bytes \<Rightarrow> nat \<Rightarrow> u32 \<Rightarrow> nat \<Rightarrow> u32 option" where
  "decomp_b dd d c_min i = do {
     c1 \<leftarrow> rd dd (d + i);
     Some (if c1 = 0xff then 0x20 else ucast c1 + c_min) }"

definition unicode_decomp_entry ::
    "norm_tables \<Rightarrow> u32 \<Rightarrow> nat \<Rightarrow> u32 \<Rightarrow> nat \<Rightarrow> nat \<Rightarrow> (nat \<times> u32 list) option" where
  "unicode_decomp_entry T c idx code len ty = do {
     t2 \<leftarrow> rd (decomp_table2 T) idx;
     let dd = decomp_data T;
     let d = unat t2;
     let n = unat (c - code);
     if ty = DECOMP_TYPE_C1 then Some (1, [ucast t2])
     else if ty \<le> DECOMP_TYPE_L7 then
       (let l = ty - DECOMP_TYPE_L1 + 1 in fill (\<lambda>i. unicode_get16 dd (d + n * l * 2 + 2 * i)) True l)
     else if ty \<le> DECOMP_TYPE_LL2 then
       (let l = ty - DECOMP_TYPE_LL1 + 1 in fill (\<lambda>i. decomp_ll dd d (len * l * 2) (n * l + i)) False l)
     else if ty \<le> DECOMP_TYPE_S5 then
       (let l = ty - DECOMP_TYPE_S1 + 1 in fill (\<lambda>i. short_at dd (d + n * l + i)) True l)
     else if ty \<le> DECOMP_TYPE_I4_2 then
       (let l = (if ty = DECOMP_TYPE_I1 then 1 else 2 + (ty - DECOMP_TYPE_I2_0) div 2);
            p = (if ty = DECOMP_TYPE_I1 then 0
                 else (ty - DECOMP_TYPE_I2_0) mod 2 + (if l > 2 then 1 else 0))
        in do { ws \<leftarrow> fill_all (decomp_i dd d p (c - code)) 0 l; Some (l, ws) })
     else if ty \<le> DECOMP_TYPE_B18 then
       (let l = (if ty = DECOMP_TYPE_B18 then 18 else ty - DECOMP_TYPE_B1 + 1)
        in do {
          c_min \<leftarrow> unicode_get16 dd d;
          ws \<leftarrow> fill_all (decomp_b dd (d + 2 + n * l) c_min) 0 l;
          Some (l, ws) })
     else if ty = DECOMP_TYPE_LS2 then do {
       r0 \<leftarrow> unicode_get16 dd (d + n * 3);
       if r0 = 0 then Some (0, [r0])
       else do { r1 \<leftarrow> short_at dd (d + n * 3 + 2); Some (2, [r0, r1]) } }
     else if ty = DECOMP_TYPE_PAT3 then do {
       r0 \<leftarrow> unicode_get16 dd d;
       r2 \<leftarrow> unicode_get16 dd (d + 2);
       r1 \<leftarrow> unicode_get16 dd (d + 4 + n * 2);
       Some (3, [r0, r1, r2]) }
     else if ty = DECOMP_TYPE_S2_UL then do {
       c0 \<leftarrow> short_at dd (d + n div 2 * 2);
       r1 \<leftarrow> short_at dd (d + n div 2 * 2 + 1);
       Some (2, [if odd n then unicode_get_lower_simple c0 else c0, r1]) }
     else if ty = DECOMP_TYPE_LS2_UL then do {
       c0 \<leftarrow> unicode_get16 dd (d + n div 2 * 3);
       r1 \<leftarrow> short_at dd (d + n div 2 * 3 + 2);
       Some (2, [if odd n then unicode_get_lower_simple c0 else c0, r1]) }
     else Some (0, []) }"

text \<open>The fields of an entry of \<^verbatim>\<open>unicode_decomp_table1\<close>.\<close>

definition decomp_code :: "u32 \<Rightarrow> u32" where
  "decomp_code v = drop_bit (32 - 18) v"

definition decomp_len :: "u32 \<Rightarrow> u32" where
  "decomp_len v = drop_bit (32 - 18 - 7) v AND 0x7f"

definition decomp_run_type :: "u32 \<Rightarrow> nat" where
  "decomp_run_type v = unat (drop_bit (32 - 18 - 7 - 6) v AND 0x3f)"

text \<open>The result array of the caller has \<^verbatim>\<open>UNICODE_DECOMP_LEN_MAX\<close> (18) elements.\<close>

definition unicode_decomp_char :: "norm_tables \<Rightarrow> u32 \<Rightarrow> bool \<Rightarrow> u32 list option" where
  "unicode_decomp_char T c is_compat1 = do {
     r \<leftarrow> range_search decomp_code decomp_len (decomp_table1 T) c 0 (int (length (decomp_table1 T)) - 1);
     (case r of
        None \<Rightarrow> Some []
      | Some (idx, v) \<Rightarrow>
          if \<not> is_compat1 \<and> v AND 1 \<noteq> 0 then Some []
          else do {
            (l, ws) \<leftarrow> unicode_decomp_entry T c idx (decomp_code v) (unat (decomp_len v)) (decomp_run_type v);
            if length ws \<le> 18 then Some (take l ws) else None }) }"

subsection \<open>Composition\<close>

text \<open>
  \<^verbatim>\<open>pair\<close> has two elements: writing a third is out of bounds, and comparing an element that was
  not written is a read of an uninitialized variable.
\<close>

definition comp_pair :: "norm_tables \<Rightarrow> u32 \<Rightarrow> (u32 \<times> u32 list) option" where
  "comp_pair T idx1 = do {
     let d_idx = unat (drop_bit 6 idx1);
     v \<leftarrow> rd (decomp_table1 T) d_idx;
     let code = decomp_code v;
     let ch = code + (idx1 AND 0x3f);
     (l, ws) \<leftarrow> unicode_decomp_entry T ch d_idx code (unat (decomp_len v)) (decomp_run_type v);
     if length ws \<le> 2 then Some (ch, ws) else None }"

definition pair_diff :: "u32 \<Rightarrow> u32 \<Rightarrow> u32 list \<Rightarrow> int option" where
  "pair_diff c0 c1 ws = do {
     p0 \<leftarrow> rd ws 0;
     if c0 - p0 \<noteq> 0 then Some (sint (c0 - p0))
     else do { p1 \<leftarrow> rd ws 1; Some (sint (c1 - p1)) } }"

function compose_search :: "norm_tables \<Rightarrow> u32 \<Rightarrow> u32 \<Rightarrow> int \<Rightarrow> int \<Rightarrow> u32 option" where
  "compose_search T c0 c1 idx_min idx_max =
     (if idx_min \<le> idx_max then
        let idx = (idx_max + idx_min) div 2
        in if idx < 0 then None
           else do {
             idx1 \<leftarrow> rd (comp_table T) (nat idx);
             (ch, ws) \<leftarrow> comp_pair T (ucast idx1);
             d \<leftarrow> pair_diff c0 c1 ws;
             if d < 0 then compose_search T c0 c1 idx_min (idx - 1)
             else if d > 0 then compose_search T c0 c1 (idx + 1) idx_max
             else Some ch }
      else Some 0)"
  by pat_completeness auto
termination
  by (relation "measure (\<lambda>(T, c0, c1, lo, hi). nat (hi - lo + 1))") auto

declare compose_search.simps [simp del]

definition unicode_compose_pair :: "norm_tables \<Rightarrow> u32 \<Rightarrow> u32 \<Rightarrow> u32 option" where
  "unicode_compose_pair T c0 c1 = compose_search T c0 c1 0 (int (length (comp_table T)) - 1)"

definition compose_pair :: "norm_tables \<Rightarrow> u32 \<Rightarrow> u32 \<Rightarrow> u32 option" where
  "compose_pair T c0 c1 =
     (if c0 \<ge> 0x1100 \<and> c0 < 0x1100 + 19 \<and> c1 \<ge> 0x1161 \<and> c1 < 0x1161 + 21 then
        Some (0xac00 + (c0 - 0x1100) * 588 + (c1 - 0x1161) * 28)
      else if c0 \<ge> 0xac00 \<and> c0 < 0xac00 + 11172 \<and> (c0 - 0xac00) mod 28 = 0 \<and>
              c1 \<ge> 0x11a7 \<and> c1 < 0x11a7 + 28 then
        Some (c0 + c1 - 0x11a7)
      else unicode_compose_pair T c0 c1)"

subsection \<open>Canonical combining classes\<close>

definition cc_run :: "bytes \<Rightarrow> nat \<Rightarrow> u32 \<Rightarrow> (u32 \<times> nat) option" where
  "cc_run table p n =
     (if n < 48 then Some (n, p)
      else if n < 56 then do {
        p0 \<leftarrow> rd table p;
        Some ((push_bit 8 (n - 48) OR ucast p0) + 48, p + 1) }
      else do {
        p0 \<leftarrow> rd table p;
        p1 \<leftarrow> rd table (p + 1);
        Some ((push_bit 8 (n - 56) OR push_bit 8 (ucast p0) OR ucast p1) + (48 + push_bit 11 1), p + 2) })"

lemma cc_run_ge: "cc_run table p n = Some (m, p') \<Longrightarrow> p \<le> p'"
  by (auto simp: cc_run_def split: if_splits bind_splits)

function cc_loop :: "bytes \<Rightarrow> u32 \<Rightarrow> nat \<Rightarrow> u32 \<Rightarrow> u32 option" where
  "cc_loop table c p code =
     (case rd table p of
        None \<Rightarrow> None
      | Some b8 \<Rightarrow>
          let b = ucast b8 :: u32; ty = drop_bit 6 b
          in (case cc_run table (p + 1) (b AND 0x3f) of
                None \<Rightarrow> None
              | Some (n, p1) \<Rightarrow>
                  let p2 = (if ty \<le> 1 then p1 + 1 else p1); c1 = code + n + 1
                  in if c < c1 then
                       if ty = 0 then do { x \<leftarrow> rd table (p2 - 1); Some (ucast x) }
                       else if ty = 1 then do { x \<leftarrow> rd table (p2 - 1); Some (ucast x + c - code) }
                       else if ty = 2 then Some 0
                       else Some 230
                     else cc_loop table c p2 c1))"
  by pat_completeness auto
termination
  by (relation "measure (\<lambda>(table, c, p, code). length table - p)")
    (auto simp: rd_def split: if_splits dest!: cc_run_ge)

declare cc_loop.simps [simp del]

definition unicode_get_cc :: "norm_tables \<Rightarrow> u32 \<Rightarrow> u32 option" where
  "unicode_get_cc T c = do {
     r \<leftarrow> get_index_pos c (cc_index T) (length (cc_index T) div 3);
     (case r of
        None \<Rightarrow> Some 0
      | Some (pos, code) \<Rightarrow> cc_loop (cc_table T) c pos code) }"

subsection \<open>Canonical reordering\<close>

text \<open>
  \<^verbatim>\<open>sort_cc\<close>, for a class function \<open>cc\<close>. \<open>k1\<close> is \<^verbatim>\<open>k + 1\<close>: the inner loop moves the elements
  with a greater class up and leaves the place for \<^verbatim>\<open>ch1\<close>.
\<close>

fun cc_shift :: "(u32 \<Rightarrow> u32 option) \<Rightarrow> u32 list \<Rightarrow> nat \<Rightarrow> u32 \<Rightarrow> nat \<Rightarrow> (u32 list \<times> nat) option" where
  "cc_shift cc buf start cc1 0 = Some (buf, 0)"
| "cc_shift cc buf start cc1 (Suc k) =
     (if k \<ge> start then do {
        x \<leftarrow> rd buf k;
        ccx \<leftarrow> cc x;
        if ccx \<le> cc1 then Some (buf, Suc k)
        else do { buf' \<leftarrow> wr buf (Suc k) x; cc_shift cc buf' start cc1 k } }
      else Some (buf, Suc k))"

function cc_insert :: "(u32 \<Rightarrow> u32 option) \<Rightarrow> u32 list \<Rightarrow> nat \<Rightarrow> nat \<Rightarrow> nat \<Rightarrow> (u32 list \<times> nat) option" where
  "cc_insert cc buf len start j =
     (if j < len then do {
        ch1 \<leftarrow> rd buf j;
        cc1 \<leftarrow> cc ch1;
        if cc1 = 0 then Some (buf, j)
        else do {
          (buf1, k1) \<leftarrow> cc_shift cc buf start cc1 j;
          buf2 \<leftarrow> wr buf1 k1 ch1;
          cc_insert cc buf2 len start (j + 1) } }
      else Some (buf, j))"
  by pat_completeness auto
termination by (relation "measure (\<lambda>(cc, buf, len, start, j). len - j)") auto

declare cc_insert.simps [simp del]

lemma cc_insert_ge: "cc_insert cc buf len start j = Some (buf', j') \<Longrightarrow> j \<le> j'"
proof (induction "len - j" arbitrary: buf j rule: less_induct)
  case less
  have ih: "cc_insert cc b len start (Suc j) = Some (buf', j') \<Longrightarrow> j < len \<Longrightarrow> j \<le> j'" for b
    using less.hyps [of "Suc j" b] Suc_leD diff_less_mono2 lessI by blast
  from less.prems show ?case
    by (subst (asm) cc_insert.simps) (auto split: if_splits bind_splits dest: ih)
qed

function sort_cc_loop :: "(u32 \<Rightarrow> u32 option) \<Rightarrow> u32 list \<Rightarrow> nat \<Rightarrow> nat \<Rightarrow> u32 list option" where
  "sort_cc_loop cc buf len i =
     (if i < len then do {
        x \<leftarrow> rd buf i;
        ccx \<leftarrow> cc x;
        if ccx \<noteq> 0 then do {
          (buf', j) \<leftarrow> cc_insert cc buf len i (i + 1);
          sort_cc_loop cc buf' len (j + 1) }
        else sort_cc_loop cc buf len (i + 1) }
      else Some buf)"
  by pat_completeness auto
termination
  by (relation "measure (\<lambda>(cc, buf, len, i). len - i)") (auto dest!: cc_insert_ge)

declare sort_cc_loop.simps [simp del]

definition sort_cc :: "norm_tables \<Rightarrow> u32 list \<Rightarrow> nat \<Rightarrow> u32 list option" where
  "sort_cc T buf len = sort_cc_loop (unicode_get_cc T) buf len 0"

subsection \<open>Normalization of a string\<close>

text \<open>
  \<^verbatim>\<open>to_nfd_rec\<close> recurses into the decomposition of a character. How deep it recurses depends on the
  tables, so the recursion is bounded by \<open>fuel\<close>, and running out of it is \<open>None\<close>. The errors of
  \<^verbatim>\<open>dbuf_put_u32\<close> are left to the error flag of the buffer.
\<close>

definition put_u32s :: "'o DynBuf \<Rightarrow> u32 list \<Rightarrow> 'o DynBuf option" where
  "put_u32s dbuf cs = foldl (\<lambda>d c. do { db \<leftarrow> d; (ret, db') \<leftarrow> dbuf_put_u32 db c; Some db' }) (Some dbuf) cs"

definition hangul_decomp :: "u32 \<Rightarrow> u32 list" where
  "hangul_decomp c =
     (let s = c - 0xac00; v = s mod 28
      in [0x1100 + s div 588, 0x1161 + (s mod 588) div 28] @ (if v \<noteq> 0 then [0x11a7 + v] else []))"

function to_nfd_rec :: "norm_tables \<Rightarrow> nat \<Rightarrow> 'o DynBuf \<Rightarrow> u32 list \<Rightarrow> bool \<Rightarrow> 'o DynBuf option" where
  "to_nfd_rec T fuel dbuf [] is_compat = Some dbuf"
| "to_nfd_rec T fuel dbuf (c # src) is_compat = do {
     db \<leftarrow> (if c \<ge> 0xac00 \<and> c < 0xd7a4 then put_u32s dbuf (hangul_decomp c)
            else do {
              res \<leftarrow> unicode_decomp_char T c is_compat;
              if res = [] then put_u32s dbuf [c]
              else (case fuel of 0 \<Rightarrow> None | Suc f \<Rightarrow> to_nfd_rec T f dbuf res is_compat) });
     to_nfd_rec T fuel db src is_compat }"
  by pat_completeness auto
termination
  by (relation "(\<lambda>(T, fuel, dbuf, src, k). fuel) <*mlex*> measure (\<lambda>(T, fuel, dbuf, src, k). length src)")
    (auto simp: mlex_prod_def)

text \<open>
  The search for the starter that precedes position \<^verbatim>\<open>i\<close>: blocked (\<^verbatim>\<open>goto next\<close>), found at a
  position, or none left.
\<close>

datatype starter = Blocked | Starter nat | No_starter

fun find_starter :: "(u32 \<Rightarrow> u32 option) \<Rightarrow> u32 list \<Rightarrow> u32 \<Rightarrow> nat \<Rightarrow> starter option" where
  "find_starter cc buf last_cc 0 = Some No_starter"
| "find_starter cc buf last_cc (Suc pos) = do {
     x \<leftarrow> rd buf pos;
     ccx \<leftarrow> cc x;
     if ccx = 0 then Some (Starter pos)
     else if ccx \<ge> last_cc then Some Blocked
     else find_starter cc buf 256 pos }"

definition compose_step ::
    "norm_tables \<Rightarrow> u32 list \<Rightarrow> nat \<Rightarrow> nat \<Rightarrow> (u32 list \<times> nat) option" where
  "compose_step T buf i out_len = do {
     x \<leftarrow> rd buf i;
     last_cc \<leftarrow> unicode_get_cc T x;
     st \<leftarrow> find_starter (unicode_get_cc T) buf last_cc out_len;
     p \<leftarrow> (case st of
            Starter pos \<Rightarrow> do { s \<leftarrow> rd buf pos; compose_pair T s x }
          | _ \<Rightarrow> Some 0);
     (case st of
        Starter pos \<Rightarrow>
          if p \<noteq> 0 then do { buf' \<leftarrow> wr buf pos p; Some (buf', out_len) }
          else do { buf' \<leftarrow> wr buf out_len x; Some (buf', out_len + 1) }
      | _ \<Rightarrow> do { buf' \<leftarrow> wr buf out_len x; Some (buf', out_len + 1) }) }"

function compose_loop :: "norm_tables \<Rightarrow> u32 list \<Rightarrow> nat \<Rightarrow> nat \<Rightarrow> nat \<Rightarrow> (u32 list \<times> nat) option" where
  "compose_loop T buf buf_len i out_len =
     (if i < buf_len then do {
        (buf', out_len') \<leftarrow> compose_step T buf i out_len;
        compose_loop T buf' buf_len (i + 1) out_len' }
      else Some (buf, out_len))"
  by pat_completeness auto
termination by (relation "measure (\<lambda>(T, buf, buf_len, i, out_len). buf_len - i)") auto

declare compose_loop.simps [simp del]

datatype UnicodeNormalization = UNICODE_NFC | UNICODE_NFD | UNICODE_NFKC | UNICODE_NFKD

fun u32s_of_bytes :: "bytes \<Rightarrow> u32 list" where
  "u32s_of_bytes (a # b # c # d # r) = word_of_nat (le_val [a, b, c, d]) # u32s_of_bytes r"
| "u32s_of_bytes _ = []"

text \<open>
  \<^verbatim>\<open>Some (Inl ())\<close> is the result -1 with \<^verbatim>\<open>*pdst = NULL\<close>; \<open>Inr out\<close> gives the elements of \<^verbatim>\<open>*pdst\<close>.
\<close>

definition unicode_normalize ::
    "norm_tables \<Rightarrow> nat \<Rightarrow> u32 list \<Rightarrow> UnicodeNormalization \<Rightarrow> 'o \<Rightarrow> 'o realloc_fn \<Rightarrow> (unit + u32 list) option" where
  "unicode_normalize T fuel src n_type opaque realloc_func = do {
     let is_compat = (n_type = UNICODE_NFKC \<or> n_type = UNICODE_NFKD);
     let (ret, dbuf) = dbuf_realloc (dbuf_init2 opaque realloc_func) (4 * length src);
     if ret \<noteq> 0 then Some (Inl ())
     else if n_type = UNICODE_NFC \<and> list_all (\<lambda>c. c < 0x100) src then Some (Inr src)
     else do {
       dbuf \<leftarrow> to_nfd_rec T fuel dbuf src is_compat;
       if dbuf_error dbuf then Some (Inl ())
       else do {
         bs \<leftarrow> slice (db_buf dbuf) 0 (db_size dbuf div 4 * 4);
         let buf = u32s_of_bytes bs;
         buf \<leftarrow> sort_cc T buf (length buf);
         if length buf \<le> 1 \<or> n_type = UNICODE_NFD \<or> n_type = UNICODE_NFKD then Some (Inr buf)
         else do {
           (buf', out_len) \<leftarrow> compose_loop T buf (length buf) 1 1;
           Some (Inr (take out_len buf')) } } } }"

subsection \<open>\<^verbatim>\<open>sort_cc\<close> is the canonical ordering algorithm\<close>

text \<open>
  The specification: every maximal run of characters with a non-zero combining class is sorted by
  class, stably; characters of class zero stay where they are.
\<close>

function canonical_order :: "('a \<Rightarrow> 'b::{linorder,zero}) \<Rightarrow> 'a list \<Rightarrow> 'a list" where
  "canonical_order f [] = []"
| "canonical_order f (x # r) =
     (if f x = 0 then x # canonical_order f r
      else sort_key f (x # takeWhile (\<lambda>y. f y \<noteq> 0) r) @ canonical_order f (dropWhile (\<lambda>y. f y \<noteq> 0) r))"
  by pat_completeness auto
termination
  by (relation "measure (\<lambda>(f, xs). length xs)") (auto simp: length_dropWhile_le le_imp_less_Suc)

text \<open>One insertion: behind the last element whose class is not greater.\<close>

definition cc_ins :: "('a \<Rightarrow> 'b::linorder) \<Rightarrow> 'a \<Rightarrow> 'a list \<Rightarrow> 'a list" where
  "cc_ins f ch seg =
     rev (dropWhile (\<lambda>x. f x > f ch) (rev seg)) @ ch # rev (takeWhile (\<lambda>x. f x > f ch) (rev seg))"

lemma cc_ins_mset: "mset (cc_ins f ch seg) = mset (seg @ [ch])"
proof -
  have "mset (rev seg) = mset (takeWhile (\<lambda>x. f x > f ch) (rev seg)) + mset (dropWhile (\<lambda>x. f x > f ch) (rev seg))"
    by (metis mset_append takeWhile_dropWhile_id)
  then show ?thesis by (simp add: cc_ins_def add.commute)
qed

lemma cc_ins_filter: "filter (\<lambda>x. f x = k) (cc_ins f ch seg) = filter (\<lambda>x. f x = k) (seg @ [ch])"
proof -
  let ?t = "takeWhile (\<lambda>x. f x > f ch) (rev seg)" and ?d = "dropWhile (\<lambda>x. f x > f ch) (rev seg)"
  have seg: "seg = rev ?d @ rev ?t" by (metis rev_append rev_rev_ident takeWhile_dropWhile_id)
  have "filter (\<lambda>x. f x = k) (rev ?t) = []" if "f ch = k"
    using that by (auto simp: filter_empty_conv dest: set_takeWhileD)
  then show ?thesis by (subst (2) seg) (auto simp: cc_ins_def)
qed

lemma cc_ins_sorted: "sorted (map f seg) \<Longrightarrow> sorted (map f (cc_ins f ch seg))"
proof -
  assume s: "sorted (map f seg)"
  let ?t = "takeWhile (\<lambda>x. f x > f ch) (rev seg)" and ?d = "dropWhile (\<lambda>x. f x > f ch) (rev seg)"
  have seg: "seg = rev ?d @ rev ?t" by (metis rev_append rev_rev_ident takeWhile_dropWhile_id)
  have app: "sorted (map f (rev ?d) @ map f (rev ?t))" using s by (subst (asm) seg) simp
  then have sd: "sorted (map f (rev ?d))" and st: "sorted (map f (rev ?t))"
    and dt: "\<forall>x\<in>set ?d. \<forall>y\<in>set ?t. f x \<le> f y" by (auto simp: sorted_append)
  have t: "\<forall>y\<in>set ?t. f ch < f y" by (auto dest: set_takeWhileD)
  have d: "\<forall>x\<in>set ?d. f x \<le> f ch"
  proof (cases ?d)
    case (Cons z zs)
    then have "\<not> f z > f ch" using hd_dropWhile [of "\<lambda>x. f x > f ch" "rev seg"] by auto
    moreover have "\<forall>x\<in>set zs. f x \<le> f z" using sd Cons by (auto simp: sorted_append)
    ultimately show ?thesis using Cons by auto
  qed (metis empty_iff list.set(1))
  show ?thesis using sd st dt t d by (auto simp: cc_ins_def sorted_append intro: less_imp_le)
qed

lemma foldl_cc_ins:
  "sorted (map f seg) \<Longrightarrow>
     mset (foldl (\<lambda>s c. cc_ins f c s) seg xs) = mset (seg @ xs) \<and>
     sorted (map f (foldl (\<lambda>s c. cc_ins f c s) seg xs)) \<and>
     (\<forall>k. filter (\<lambda>x. f x = k) (foldl (\<lambda>s c. cc_ins f c s) seg xs) = filter (\<lambda>x. f x = k) (seg @ xs))"
proof (induction xs arbitrary: seg)
  case (Cons c xs)
  from Cons.IH [OF cc_ins_sorted [OF Cons.prems, of c]] show ?case
    by (simp add: cc_ins_mset cc_ins_filter)
qed simp

lemma foldl_cc_ins_sort: "foldl (\<lambda>s c. cc_ins f c s) [x] xs = sort_key f (x # xs)"
proof -
  note l = foldl_cc_ins [of f "[x]" xs, simplified]
  show ?thesis
    by (rule properties_for_sort_key [symmetric]) (use l in \<open>auto simp: eq_commute\<close>)
qed

lemma cc_shift_write:
  "(\<And>x. x \<in> set seg \<Longrightarrow> cc x = Some (f x)) \<Longrightarrow>
   (do { (b, k) \<leftarrow> cc_shift cc (pre @ seg @ h # post) (length pre) (f ch) (length pre + length seg); wr b k ch }) =
     Some (pre @ cc_ins f ch seg @ post)"
proof (induction seg arbitrary: h post rule: rev_induct)
  case Nil
  then show ?case by (cases "length pre") (auto simp: wr_def cc_ins_def list_update_append)
next
  case (snoc x seg)
  let ?b = "pre @ (seg @ [x]) @ h # post"
  have x: "rd ?b (length pre + length seg) = Some x" by (simp add: rd_def nth_append)
  have w: "wr ?b (Suc (length pre + length seg)) x = Some (pre @ seg @ x # x # post)"
    by (simp add: wr_def list_update_append)
  have fx: "cc x = Some (f x)" using snoc.prems by simp
  show ?case
  proof (cases "f x \<le> f ch")
    case True
    have "wr ?b (Suc (length pre + length seg)) ch = Some (pre @ seg @ x # ch # post)"
      by (simp add: wr_def list_update_append)
    with True x fx show ?thesis by (simp add: cc_ins_def leD)
  next
    case False
    have "(do { (b, k) \<leftarrow> cc_shift cc (pre @ seg @ x # (x # post)) (length pre) (f ch) (length pre + length seg); wr b k ch }) =
        Some (pre @ cc_ins f ch seg @ x # post)"
      by (rule snoc.IH) (use snoc.prems in auto)
    with False x w fx show ?thesis by (simp add: cc_ins_def)
  qed
qed

lemma cc_insert_spec:
  "(\<And>x. x \<in> set seg \<union> set rest \<Longrightarrow> cc x = Some (f x)) \<Longrightarrow>
   cc_insert cc (pre @ seg @ rest) (length pre + length seg + length rest) (length pre) (length pre + length seg) =
     Some (pre @ foldl (\<lambda>s c. cc_ins f c s) seg (takeWhile (\<lambda>x. f x \<noteq> 0) rest) @ dropWhile (\<lambda>x. f x \<noteq> 0) rest,
           length pre + length seg + length (takeWhile (\<lambda>x. f x \<noteq> 0) rest))"
proof (induction rest arbitrary: seg)
  case Nil
  then show ?case by (simp add: cc_insert.simps)
next
  case (Cons ch rest)
  let ?b = "pre @ seg @ ch # rest" and ?j = "length pre + length seg"
  have r: "rd ?b ?j = Some ch" by (simp add: rd_def nth_append)
  have fch: "cc ch = Some (f ch)" using Cons.prems by simp
  show ?case
  proof (cases "f ch = 0")
    case True
    with r fch show ?thesis by (simp add: cc_insert.simps)
  next
    case False
    have "(do { (b, k) \<leftarrow> cc_shift cc ?b (length pre) (f ch) ?j; wr b k ch }) = Some (pre @ cc_ins f ch seg @ rest)"
      by (rule cc_shift_write) (use Cons.prems in auto)
    then obtain b k where b: "cc_shift cc ?b (length pre) (f ch) ?j = Some (b, k)"
      "wr b k ch = Some (pre @ cc_ins f ch seg @ rest)" by (auto split: bind_splits)
    have set: "set (cc_ins f ch seg) = insert ch (set seg)"
      using cc_ins_mset [of f ch seg] by (metis Un_insert_right append_Nil2 list.set(1) list.simps(15) set_append set_mset_mset sup_bot_right)
    have len: "length (cc_ins f ch seg) = Suc (length seg)"
      using mset_eq_length [OF cc_ins_mset [of f ch seg]] by simp
    from Cons.IH [of "cc_ins f ch seg"] Cons.prems set len r fch False b show ?thesis
      by (subst cc_insert.simps) auto
  qed
qed

lemma sort_cc_loop_spec:
  "(\<And>x. x \<in> set rest \<Longrightarrow> cc x = Some (f x)) \<Longrightarrow>
   sort_cc_loop cc (pre @ rest) (length pre + length rest) (length pre) = Some (pre @ canonical_order f rest)"
proof (induction "length rest" arbitrary: pre rest rule: less_induct)
  case less
  show ?case
  proof (cases rest)
    case Nil
    then show ?thesis by (simp add: sort_cc_loop.simps)
  next
    case (Cons x r)
    have rd: "rd (pre @ rest) (length pre) = Some x" by (simp add: Cons rd_def nth_append)
    have fx: "cc x = Some (f x)" using less.prems Cons by simp
    show ?thesis
    proof (cases "f x = 0")
      case True
      from less.hyps [of r "pre @ [x]"] less.prems Cons have
        "sort_cc_loop cc (pre @ rest) (length pre + length rest) (Suc (length pre)) = Some (pre @ x # canonical_order f r)"
        by simp
      with True rd fx Cons show ?thesis by (subst sort_cc_loop.simps) auto
    next
      case False
      let ?t = "takeWhile (\<lambda>x. f x \<noteq> 0) r" and ?d = "dropWhile (\<lambda>x. f x \<noteq> 0) r"
      let ?s = "sort_key f (x # ?t)"
      have ins: "cc_insert cc (pre @ rest) (length pre + length rest) (length pre) (Suc (length pre)) =
          Some (pre @ ?s @ ?d, Suc (length pre + length ?t))"
        using cc_insert_spec [of "[x]" r cc f pre] less.prems Cons by (simp add: foldl_cc_ins_sort)
      have step: "sort_cc_loop cc (pre @ rest) (length pre + length rest) (length pre) =
          sort_cc_loop cc (pre @ ?s @ ?d) (length pre + length rest) (Suc (Suc (length pre + length ?t)))"
        using rd fx False ins Cons by (subst sort_cc_loop.simps) simp
      have lens: "length ?s = Suc (length ?t)" "length r = length ?t + length ?d"
        by (simp, metis length_append takeWhile_dropWhile_id)
      show ?thesis
      proof (cases ?d)
        case Nil
        then have "sort_cc_loop cc (pre @ ?s @ ?d) (length pre + length rest) (Suc (Suc (length pre + length ?t))) = Some (pre @ ?s)"
          using lens Cons by (subst sort_cc_loop.simps) (simp del: dropWhile_eq_Nil_conv)
        with step Nil Cons False show ?thesis by (simp del: dropWhile_eq_Nil_conv)
      next
        case d: (Cons y r')
        then have "f y = 0" using hd_dropWhile [of "\<lambda>x. f x \<noteq> 0" r] by auto
        have "sort_cc_loop cc ((pre @ ?s @ [y]) @ r') (length (pre @ ?s @ [y]) + length r') (length (pre @ ?s @ [y])) =
            Some ((pre @ ?s @ [y]) @ canonical_order f r')"
        proof (rule less.hyps)
          show "length r' < length rest" using d lens Cons by simp
          fix z assume "z \<in> set r'"
          then have "z \<in> set ?d" using d by simp
          then show "cc z = Some (f z)" using less.prems Cons by (auto dest: set_dropWhileD)
        qed
        with step lens Cons False d \<open>f y = 0\<close> show ?thesis by (simp add: add.assoc)
      qed
    qed
  qed
qed

text \<open>
  C21. \<^verbatim>\<open>sort_cc\<close> implements the canonical ordering algorithm of the Unicode standard in place: it
  stays inside the buffer and sorts every maximal run of characters with non-zero combining class
  by class, stably, leaving every character of class zero where it is.
\<close>

theorem sort_cc_canonical:
  assumes "\<And>x. x \<in> set buf \<Longrightarrow> unicode_get_cc T x = Some (cls x)"
  shows "sort_cc T buf (length buf) = Some (canonical_order cls buf)"
  using sort_cc_loop_spec [of buf "unicode_get_cc T" cls "[]"] assms by (simp add: sort_cc_def)

definition sample_tables :: norm_tables where
  "sample_tables =
     \<lparr>cc_table = [0x89, 0x04, 30, 0x04, 10, 0x8b], cc_index = [0x20, 0, 0],
      decomp_table1 = [], decomp_table2 = [], decomp_data = [], comp_table = []\<rparr>"

lemma sample_classes:
  "unicode_get_cc sample_tables 1 = Some 0" "unicode_get_cc sample_tables 10 = Some 30"
  "unicode_get_cc sample_tables 15 = Some 10"
  by code_simp+

theorem sort_cc_canonical_witness:
  "sort_cc sample_tables [1, 10, 15, 1] (length [1, 10, 15, 1 :: u32]) =
     Some (canonical_order (\<lambda>x. the (unicode_get_cc sample_tables x)) [1, 10, 15, 1])"
  by (rule sort_cc_canonical) (auto simp: sample_classes)

subsection \<open>Hangul syllables\<close>

lemma unat_add_small: "unat a + unat b < 2 ^ 32 \<Longrightarrow> unat (a + b :: u32) = unat a + unat b"
  by (simp add: unat_word_ariths)

lemma unat_mult_small: "unat a * unat b < 2 ^ 32 \<Longrightarrow> unat (a * b :: u32) = unat a * unat b"
  by (simp add: unat_word_ariths)

text \<open>The three parts of a syllable, as numbers.\<close>

lemma hangul_parts:
  fixes c :: u32
  assumes "0xac00 \<le> c" and "c < 0xd7a4"
  defines "s \<equiv> unat c - 0xac00"
  shows "unat (c - 0xac00) = s" and "s < 11172"
    and "unat (0x1100 + (c - 0xac00) div 588) = 0x1100 + s div 588"
    and "unat (0x1161 + ((c - 0xac00) mod 588) div 28) = 0x1161 + s mod 588 div 28"
    and "unat ((c - 0xac00) mod 28) = s mod 28" and "unat (0x11a7 + (c - 0xac00) mod 28) = 0x11a7 + s mod 28"
proof -
  have c: "0xac00 \<le> unat c" "unat c < 0xd7a4" using assms(1,2) by (auto simp: word_le_nat_alt word_less_nat_alt)
  show u: "unat (c - 0xac00) = s" using assms(1) by (simp add: unat_sub s_def)
  show b: "s < 11172" using c by (simp add: s_def)
  show "unat (0x1100 + (c - 0xac00) div 588) = 0x1100 + s div 588"
    using b by (subst unat_add_small) (simp_all add: unat_div_distrib u)
  show "unat (0x1161 + ((c - 0xac00) mod 588) div 28) = 0x1161 + s mod 588 div 28"
    using b by (subst unat_add_small) (simp_all add: unat_div_distrib unat_mod_distrib u)
  show m: "unat ((c - 0xac00) mod 28) = s mod 28" by (simp add: unat_mod_distrib u)
  show "unat (0x11a7 + (c - 0xac00) mod 28) = 0x11a7 + s mod 28"
    by (subst unat_add_small) (simp_all add: m)
qed

text \<open>
  C22. Hangul composition undoes Hangul decomposition: \<^verbatim>\<open>to_nfd_rec\<close> splits a precomposed syllable
  into two or three jamo, and folding \<^verbatim>\<open>compose_pair\<close> over them gives the syllable back, whatever
  the tables are.
\<close>

theorem hangul_roundtrip:
  assumes "0xac00 \<le> c" and "c < 0xd7a4"
  shows "case hangul_decomp c of
      [l, v] \<Rightarrow> compose_pair T l v = Some c
    | [l, v, t] \<Rightarrow> (\<exists>lv. compose_pair T l v = Some lv \<and> compose_pair T lv t = Some c)
    | _ \<Rightarrow> False"
proof -
  define s where "s = unat c - 0xac00"
  note p = hangul_parts [OF assms, folded s_def]
  define l v t where "l = 0x1100 + (c - 0xac00) div 588" "v = 0x1161 + ((c - 0xac00) mod 588) div 28"
    "t = 0x11a7 + (c - 0xac00) mod 28"
  note u = p(3) [folded l_v_t_def(1)] p(4) [folded l_v_t_def(2)] p(6) [folded l_v_t_def(3)]
  have lr: "l \<ge> 0x1100 \<and> l < 0x1100 + 19 \<and> v \<ge> 0x1161 \<and> v < 0x1161 + 21"
    using u p(2) by (auto simp: word_le_nat_alt word_less_nat_alt)
  define lv where "lv = 0xac00 + (l - 0x1100) * 588 + (v - 0x1161) * 28"
  have clv: "compose_pair T l v = Some lv" using lr by (simp add: compose_pair_def lv_def)
  have ul: "unat (l - 0x1100) = s div 588" "unat (v - 0x1161) = s mod 588 div 28"
    using lr u by (simp_all add: unat_sub)
  define k where "k = s - s mod 28"
  have k: "s = k + s mod 28" "k mod 28 = 0" by (simp_all add: k_def minus_mod_eq_mult_div)
  have q: "s div 588 * 588 + s mod 588 div 28 * 28 = k"
  proof -
    have "s mod 588 mod 28 = s mod 28" by (simp add: mod_mod_cancel)
    then have "s mod 588 = s mod 588 div 28 * 28 + s mod 28" by (metis div_mult_mod_eq)
    moreover have "s = s div 588 * 588 + s mod 588" by simp
    ultimately show ?thesis using k(1) by linarith
  qed
  have m: "unat ((l - 0x1100) * 588) = s div 588 * 588" "unat ((v - 0x1161) * 28) = s mod 588 div 28 * 28"
    using p(2) by (subst unat_mult_small; simp add: ul)+
  have bnd: "s div 588 * 588 + s mod 588 div 28 * 28 < 11172" using q p(2) k(1) by linarith
  have "unat (0xac00 + (l - 0x1100) * 588) = 0xac00 + s div 588 * 588"
    using m(1) bnd by (subst unat_add_small) simp_all
  then have ulv: "unat lv = 0xac00 + k"
    using m(2) bnd q unfolding lv_def by (subst unat_add_small) (simp, linarith)
  have uc: "unat c = 0xac00 + s" using assms by (auto simp: s_def word_le_nat_alt)
  show ?thesis
  proof (cases "(c - 0xac00) mod 28 = 0")
    case True
    then have "s mod 28 = 0" using p(5) by simp
    with ulv uc k(1) have "lv = c" by (simp add: word_unat_eq_iff)
    with clv True show ?thesis by (simp add: hangul_decomp_def Let_def l_v_t_def)
  next
    case False
    have ulv': "unat (lv - 0xac00) = k" using ulv by (subst unat_sub) (auto simp: word_le_nat_alt)
    have lvr: "lv \<ge> 0xac00 \<and> lv < 0xac00 + 11172 \<and> (lv - 0xac00) mod 28 = 0 \<and> t \<ge> 0x11a7 \<and> t < 0x11a7 + 28"
      using ulv ulv' u p(2) k by (auto simp: word_le_nat_alt word_less_nat_alt word_unat_eq_iff unat_mod_distrib)
    have nl: "\<not> lv < 0x1100 + 19" using ulv by (auto simp: word_less_nat_alt)
    have "compose_pair T lv t = Some (lv + t - 0x11a7)" using lvr nl by (simp add: compose_pair_def)
    moreover have "lv + t - 0x11a7 = c"
    proof -
      have "unat (lv + t) = 0xac00 + s + 0x11a7"
        using ulv u p(2) k(1) by (subst unat_add_small) auto
      then have "unat (lv + t - 0x11a7) = unat c"
        using uc by (subst unat_sub) (auto simp: word_le_nat_alt)
      then show ?thesis by (simp add: word_unat_eq_iff)
    qed
    ultimately show ?thesis
      using clv False by (simp add: hangul_decomp_def Let_def l_v_t_def)
  qed
qed

theorem hangul_roundtrip_witness:
  "case hangul_decomp 0xd55c of
      [l, v] \<Rightarrow> compose_pair sample_tables l v = Some 0xd55c
    | [l, v, t] \<Rightarrow> (\<exists>lv. compose_pair sample_tables l v = Some lv \<and> compose_pair sample_tables lv t = Some 0xd55c)
    | _ \<Rightarrow> False"
  by (rule hangul_roundtrip) simp_all

end
