(* ===== verification/RegexpExec.thy ===== *)
theory RegexpExec
  imports CaseConv
begin

unbundle bit_operations_syntax

section \<open>The regular expression virtual machine (\<^verbatim>\<open>js/libregexp.c\<close>, second half)\<close>

text \<open>
  The backtracking interpreter \<^verbatim>\<open>lre_exec_backtrack\<close> and its entry point \<^verbatim>\<open>lre_exec\<close>.

  The byte code is a list of bytes, \<^verbatim>\<open>pc\<close> an index into it. The subject \<^verbatim>\<open>cbuf\<close> is the list
  of its code units, 8-bit characters for \<^verbatim>\<open>cbuf_type == 0\<close> and UTF-16 units otherwise, and
  \<^verbatim>\<open>cptr\<close> and the captures are indices of units (\<^verbatim>\<open>NULL\<close> is \<open>None\<close>). A stack cell
  (\<^verbatim>\<open>StackInt\<close>) is a 64-bit word; a character position is stored in it relative to \<^verbatim>\<open>cbuf\<close>.

  One instruction is one step of a state machine. The C function calls itself for the body of
  a simple greedy quantifier (\<^verbatim>\<open>no_recurse\<close>); these activations are the explicit list
  \<open>es_frames\<close>, so \<^verbatim>\<open>no_recurse\<close> is \<open>es_frames \<noteq> []\<close>. The step function is \<open>None\<close>
  exactly where C has undefined behaviour or an assertion fails, and a match that does not
  end is a machine that is still running after any number of steps.
\<close>

subsection \<open>Instructions (\<^verbatim>\<open>js/libregexp-opcode.h\<close>)\<close>

datatype REOPCode =
    REOP_invalid | REOP_char | REOP_char32 | REOP_dot | REOP_any | REOP_line_start | REOP_line_end
  | REOP_goto | REOP_split_goto_first | REOP_split_next_first | REOP_match
  | REOP_save_start | REOP_save_end | REOP_save_reset | REOP_loop | REOP_push_i32 | REOP_drop
  | REOP_word_boundary | REOP_not_word_boundary | REOP_back_reference | REOP_backward_back_reference
  | REOP_range | REOP_range32 | REOP_lookahead | REOP_negative_lookahead
  | REOP_push_char_pos | REOP_check_advance | REOP_prev | REOP_simple_greedy_quant

definition reop_list :: "REOPCode list" where
  "reop_list =
    [REOP_invalid, REOP_char, REOP_char32, REOP_dot, REOP_any, REOP_line_start, REOP_line_end,
     REOP_goto, REOP_split_goto_first, REOP_split_next_first, REOP_match,
     REOP_save_start, REOP_save_end, REOP_save_reset, REOP_loop, REOP_push_i32, REOP_drop,
     REOP_word_boundary, REOP_not_word_boundary, REOP_back_reference, REOP_backward_back_reference,
     REOP_range, REOP_range32, REOP_lookahead, REOP_negative_lookahead,
     REOP_push_char_pos, REOP_check_advance, REOP_prev, REOP_simple_greedy_quant]"

fun reop_code :: "REOPCode \<Rightarrow> byte" where
  "reop_code REOP_invalid = 0"
| "reop_code REOP_char = 1"
| "reop_code REOP_char32 = 2"
| "reop_code REOP_dot = 3"
| "reop_code REOP_any = 4"
| "reop_code REOP_line_start = 5"
| "reop_code REOP_line_end = 6"
| "reop_code REOP_goto = 7"
| "reop_code REOP_split_goto_first = 8"
| "reop_code REOP_split_next_first = 9"
| "reop_code REOP_match = 10"
| "reop_code REOP_save_start = 11"
| "reop_code REOP_save_end = 12"
| "reop_code REOP_save_reset = 13"
| "reop_code REOP_loop = 14"
| "reop_code REOP_push_i32 = 15"
| "reop_code REOP_drop = 16"
| "reop_code REOP_word_boundary = 17"
| "reop_code REOP_not_word_boundary = 18"
| "reop_code REOP_back_reference = 19"
| "reop_code REOP_backward_back_reference = 20"
| "reop_code REOP_range = 21"
| "reop_code REOP_range32 = 22"
| "reop_code REOP_lookahead = 23"
| "reop_code REOP_negative_lookahead = 24"
| "reop_code REOP_push_char_pos = 25"
| "reop_code REOP_check_advance = 26"
| "reop_code REOP_prev = 27"
| "reop_code REOP_simple_greedy_quant = 28"

text \<open>\<^verbatim>\<open>reopcode_info\<close>: the length of each instruction (of its fixed part, for a range).\<close>

fun reopcode_size :: "REOPCode \<Rightarrow> nat" where
  "reopcode_size REOP_char = 3"
| "reopcode_size REOP_char32 = 5"
| "reopcode_size REOP_goto = 5"
| "reopcode_size REOP_split_goto_first = 5"
| "reopcode_size REOP_split_next_first = 5"
| "reopcode_size REOP_save_start = 2"
| "reopcode_size REOP_save_end = 2"
| "reopcode_size REOP_save_reset = 3"
| "reopcode_size REOP_loop = 5"
| "reopcode_size REOP_push_i32 = 5"
| "reopcode_size REOP_back_reference = 2"
| "reopcode_size REOP_backward_back_reference = 2"
| "reopcode_size REOP_range = 3"
| "reopcode_size REOP_range32 = 3"
| "reopcode_size REOP_lookahead = 5"
| "reopcode_size REOP_negative_lookahead = 5"
| "reopcode_size REOP_simple_greedy_quant = 17"
| "reopcode_size _ = 1"

definition reop_of :: "byte \<Rightarrow> REOPCode option" where
  "reop_of b = rd reop_list (unat b)"

lemma reop_of_code [simp]: "reop_of (reop_code op) = Some op"
  by (cases op) (simp_all add: reop_of_def reop_list_def rd_def)

lemma reop_of_eq_Some_iff: "reop_of b = Some op \<longleftrightarrow> b = reop_code op"
proof
  assume "reop_of b = Some op"
  then have b: "unat b < 29" "op = reop_list ! unat b"
    by (simp_all add: reop_of_def rd_eq_Some_iff reop_list_def)
  have "\<forall>i\<in>set [0..<29]. reop_code (reop_list ! i) = word_of_nat i"
    by (simp add: reop_list_def upt_rec)
  with b show "b = reop_code op" by simp
qed simp

subsection \<open>Characters of the subject\<close>

definition CP_LS :: u32 where "CP_LS = 0x2028"
definition CP_PS :: u32 where "CP_PS = 0x2029"

definition is_line_terminator :: "u32 \<Rightarrow> bool" where
  "is_line_terminator c \<longleftrightarrow> c = 0x0a \<or> c = 0x0d \<or> c = CP_LS \<or> c = CP_PS"

definition is_word_char :: "u32 \<Rightarrow> bool" where
  "is_word_char c \<longleftrightarrow>
     (0x30 \<le> c \<and> c \<le> 0x39) \<or> (0x61 \<le> c \<and> c \<le> 0x7a) \<or> (0x41 \<le> c \<and> c \<le> 0x5a) \<or> c = 0x5f"

text \<open>\<^verbatim>\<open>GET_CHAR\<close>: the character at \<open>p\<close> and the position behind it.\<close>

definition GET_CHAR :: "nat \<Rightarrow> u16 list \<Rightarrow> nat \<Rightarrow> nat \<Rightarrow> (u32 \<times> nat) option" where
  "GET_CHAR cbuf_type cbuf cbuf_end p = do {
     u \<leftarrow> rd cbuf p;
     let c = (ucast u :: u32);
     if cbuf_type = 0 then Some (c, p + 1)
     else if is_hi_surrogate c \<and> cbuf_type = 2 \<and> p + 1 < cbuf_end then do {
       u1 \<leftarrow> rd cbuf (p + 1);
       if is_lo_surrogate (ucast u1) then Some (from_surrogate c (ucast u1), p + 2) else Some (c, p + 1) }
     else Some (c, p + 1) }"

definition PEEK_CHAR :: "nat \<Rightarrow> u16 list \<Rightarrow> nat \<Rightarrow> nat \<Rightarrow> u32 option" where
  "PEEK_CHAR cbuf_type cbuf cbuf_end p = do {
     (c, q) \<leftarrow> GET_CHAR cbuf_type cbuf cbuf_end p; Some c }"

text \<open>\<^verbatim>\<open>GET_PREV_CHAR\<close>: the character before \<open>p\<close> and its position.\<close>

definition GET_PREV_CHAR :: "nat \<Rightarrow> u16 list \<Rightarrow> nat \<Rightarrow> nat \<Rightarrow> (u32 \<times> nat) option" where
  "GET_PREV_CHAR cbuf_type cbuf cbuf_start p =
     (if p = 0 then None
      else do {
        u \<leftarrow> rd cbuf (p - 1);
        let c = (ucast u :: u32);
        if cbuf_type = 0 then Some (c, p - 1)
        else if is_lo_surrogate c \<and> cbuf_type = 2 \<and> p - 1 > cbuf_start then do {
          u1 \<leftarrow> rd cbuf (p - 2);
          if is_hi_surrogate (ucast u1) then Some (from_surrogate (ucast u1) c, p - 2) else Some (c, p - 1) }
        else Some (c, p - 1) })"

definition PEEK_PREV_CHAR :: "nat \<Rightarrow> u16 list \<Rightarrow> nat \<Rightarrow> nat \<Rightarrow> u32 option" where
  "PEEK_PREV_CHAR cbuf_type cbuf cbuf_start p = do {
     (c, q) \<leftarrow> GET_PREV_CHAR cbuf_type cbuf cbuf_start p; Some c }"

definition PREV_CHAR :: "nat \<Rightarrow> u16 list \<Rightarrow> nat \<Rightarrow> nat \<Rightarrow> nat option" where
  "PREV_CHAR cbuf_type cbuf cbuf_start p = do {
     (c, q) \<leftarrow> GET_PREV_CHAR cbuf_type cbuf cbuf_start p; Some q }"

lemma GET_CHAR_advances: "GET_CHAR t b e p = Some (c, q) \<Longrightarrow> p < q \<and> q \<le> p + 2"
  by (auto simp: GET_CHAR_def Let_def split: Option.bind_splits if_splits)

lemma GET_PREV_CHAR_recedes: "GET_PREV_CHAR t b a p = Some (c, q) \<Longrightarrow> q < p"
  by (auto simp: GET_PREV_CHAR_def Let_def split: Option.bind_splits if_splits)

subsection \<open>State\<close>

datatype REExecStateEnum =
    RE_EXEC_STATE_SPLIT | RE_EXEC_STATE_LOOKAHEAD | RE_EXEC_STATE_NEGATIVE_LOOKAHEAD
  | RE_EXEC_STATE_GREEDY_QUANT

text \<open>The flexible array \<^verbatim>\<open>buf\<close> holds the captures and then the stack cells.\<close>

record REExecState =
  rs_type :: REExecStateEnum
  rs_stack_len :: nat
  rs_count :: nat
  rs_cptr :: nat
  rs_pc :: nat
  rs_capture :: "nat option list"
  rs_stack :: "u64 list"

text \<open>The constant part of \<^verbatim>\<open>REExecContext\<close>, with the byte code that \<^verbatim>\<open>pc\<close> points into.\<close>

record REExecContext =
  ec_bc :: bytes
  ec_cbuf :: "u16 list"
  ec_cbuf_end :: nat
  ec_cbuf_type :: nat
  ec_capture_count :: nat
  ec_stack_size_max :: nat
  ec_multi_line :: bool
  ec_ignore_case :: bool
  ec_is_unicode :: bool

text \<open>
  The allocator \<^verbatim>\<open>lre_realloc\<close>, which the embedding program provides, decides from its state
  and the size asked for whether the block can be had; it keeps the old contents.
\<close>

type_synonym 'h lre_alloc = "'h \<Rightarrow> nat \<Rightarrow> 'h \<times> bool"

text \<open>
  An activation of the quantifier loop: its local variables, and those of the calling
  \<^verbatim>\<open>lre_exec_backtrack\<close> it continues with.
\<close>

record greedy_frame =
  gf_pc1 :: nat
  gf_pc :: nat
  gf_cptr :: nat
  gf_stack_len :: nat
  gf_quant_min :: nat
  gf_quant_max :: nat
  gf_q :: nat

record 'h exec_state =
  es_pc :: nat
  es_cptr :: nat
  es_capture :: "nat option list"
  es_stack :: "u64 list"
  es_stack_len :: nat
  es_frames :: "greedy_frame list"
  es_states :: "REExecState list" \<comment> \<open>\<^verbatim>\<open>state_stack\<close>, its top first; \<^verbatim>\<open>state_stack_len\<close> is its length\<close>
  es_states_size :: nat
  es_heap :: 'h

datatype 'h exec_outcome = Running "'h exec_state" | Finished int "'h exec_state"

type_synonym 'h exec_result = "'h exec_outcome option"

definition sizeof_REExecState :: nat where "sizeof_REExecState = 32"

definition state_size :: "REExecContext \<Rightarrow> nat" where
  "state_size s = sizeof_REExecState + ec_capture_count s * 8 * 2 + ec_stack_size_max s * 8"

text \<open>
  \<^verbatim>\<open>push_state\<close>: the boolean is whether it returned 0. The request is a \<^verbatim>\<open>size_t\<close>; if the
  product wrapped, the block would be too small for the entry written next.
\<close>

definition push_state ::
  "REExecContext \<Rightarrow> 'h lre_alloc \<Rightarrow> 'h exec_state \<Rightarrow> nat \<Rightarrow> nat \<Rightarrow> nat \<Rightarrow> REExecStateEnum \<Rightarrow> nat \<Rightarrow>
     (bool \<times> 'h exec_state) option" where
  "push_state s lre_realloc st stack_len pc cptr ty cnt = do {
     let full = (length (es_states st) + 1 > es_states_size st);
     let new_size = (if es_states_size st * 3 div 2 < 8 then 8 else es_states_size st * 3 div 2);
     let (h, granted) =
       (if full then lre_realloc (es_heap st) (size_t_wrap (new_size * state_size s)) else (es_heap st, True));
     if \<not> granted then Some (False, st\<lparr>es_heap := h\<rparr>)
     else if full \<and> size_t_wrap (new_size * state_size s) \<noteq> new_size * state_size s then None
     else do {
       cap \<leftarrow> slice (es_capture st) 0 (2 * ec_capture_count s);
       stk \<leftarrow> slice (es_stack st) 0 stack_len;
       let rs = \<lparr>rs_type = ty, rs_stack_len = stack_len mod 256, rs_count = cnt, rs_cptr = cptr,
                 rs_pc = pc, rs_capture = cap, rs_stack = stk\<rparr>;
       if stack_len > ec_stack_size_max s then None
       else Some (True, st\<lparr>es_states := rs # es_states st,
              es_states_size := (if full then new_size else es_states_size st), es_heap := h\<rparr>) } }"

text \<open>\<^verbatim>\<open>pc + (int)val\<close>\<close>

definition jump :: "nat \<Rightarrow> u32 \<Rightarrow> nat option" where
  "jump pc val = (let t = int pc + sint val in if t < 0 then None else Some (nat t))"

definition canon :: "REExecContext \<Rightarrow> u32 \<Rightarrow> u32 option" where
  "canon s c = (if ec_ignore_case s then lre_canonicalize c (ec_is_unicode s) else Some c)"

subsection \<open>Backtracking\<close>

text \<open>\<^verbatim>\<open>for(i = 0; i < char_count; i++) PREV_CHAR(cptr, s->cbuf, cbuf_type)\<close>\<close>

fun prev_chars :: "REExecContext \<Rightarrow> nat \<Rightarrow> nat \<Rightarrow> nat option" where
  "prev_chars s 0 cptr = Some cptr"
| "prev_chars s (Suc n) cptr = do {
     cptr \<leftarrow> PREV_CHAR (ec_cbuf_type s) (ec_cbuf s) 0 cptr;
     prev_chars s n cptr }"

text \<open>
  The code at \<^verbatim>\<open>pop_state1\<close>: restore the stack of the entry \<open>rs\<close>. At \<^verbatim>\<open>pop_state\<close> the captures
  are restored first.
\<close>

definition restore_stack :: "REExecState \<Rightarrow> 'h exec_state \<Rightarrow> 'h exec_state option" where
  "restore_stack rs st = do {
     saved \<leftarrow> slice (rs_stack rs) 0 (rs_stack_len rs);
     stk \<leftarrow> blit (es_stack st) 0 saved;
     Some (st\<lparr>es_stack := stk, es_stack_len := rs_stack_len rs\<rparr>) }"

definition restore_capture :: "REExecContext \<Rightarrow> REExecState \<Rightarrow> 'h exec_state \<Rightarrow> 'h exec_state option" where
  "restore_capture s rs st = do {
     saved \<leftarrow> slice (rs_capture rs) 0 (2 * ec_capture_count s);
     cap \<leftarrow> blit (es_capture st) 0 saved;
     Some (st\<lparr>es_capture := cap\<rparr>) }"

definition pop_state1 :: "REExecState \<Rightarrow> REExecState list \<Rightarrow> 'h exec_state \<Rightarrow> 'h exec_result" where
  "pop_state1 rs rest st = do {
     st \<leftarrow> restore_stack rs st;
     Some (Running (st\<lparr>es_pc := rs_pc rs, es_cptr := rs_cptr rs, es_states := rest\<rparr>)) }"

definition pop_state ::
  "REExecContext \<Rightarrow> REExecState \<Rightarrow> REExecState list \<Rightarrow> 'h exec_state \<Rightarrow> 'h exec_result" where
  "pop_state s rs rest st = do { st \<leftarrow> restore_capture s rs st; pop_state1 rs rest st }"

text \<open>Give back the last iteration of a greedy quantifier and continue behind it.\<close>

definition greedy_retry ::
  "REExecContext \<Rightarrow> REExecState \<Rightarrow> REExecState list \<Rightarrow> 'h exec_state \<Rightarrow> 'h exec_result" where
  "greedy_retry s rs rest st = do {
     st \<leftarrow> restore_capture s rs st;
     st \<leftarrow> restore_stack rs st;
     char_count \<leftarrow> get_u32 (ec_bc s) (rs_pc rs + 12);
     cptr \<leftarrow> prev_chars s (unat char_count) (rs_cptr rs);
     next_pos \<leftarrow> get_u32 (ec_bc s) (rs_pc rs);
     pc \<leftarrow> jump (rs_pc rs + 16) next_pos;
     let n = size_t_wrap (rs_count rs + (2 ^ 64 - 1));
     Some (Running (st\<lparr>es_pc := pc, es_cptr := cptr,
       es_states := (if n = 0 then rest else rs\<lparr>rs_cptr := cptr, rs_count := n\<rparr> # rest)\<rparr>)) }"

text \<open>The loop at \<^verbatim>\<open>recurse\<close>, over the entries of the state stack.\<close>

fun recurse_loop ::
  "REExecContext \<Rightarrow> bool \<Rightarrow> REExecState list \<Rightarrow> 'h exec_state \<Rightarrow> 'h exec_result" where
  "recurse_loop s ret [] st = Some (Finished (if ret then 1 else 0) (st\<lparr>es_states := []\<rparr>))"
| "recurse_loop s ret (rs # rest) st =
     (case rs_type rs of
        RE_EXEC_STATE_SPLIT \<Rightarrow>
          if \<not> ret then pop_state s rs rest st else recurse_loop s ret rest st
      | RE_EXEC_STATE_GREEDY_QUANT \<Rightarrow>
          if \<not> ret then greedy_retry s rs rest st else recurse_loop s ret rest st
      | RE_EXEC_STATE_LOOKAHEAD \<Rightarrow>
          if ret then pop_state1 rs rest st else recurse_loop s False rest st
      | RE_EXEC_STATE_NEGATIVE_LOOKAHEAD \<Rightarrow>
          if \<not> ret then pop_state s rs rest st else recurse_loop s False rest st)"

text \<open>
  The end of a quantifier loop: the caller's locals come back, and \<^verbatim>\<open>no_match\<close> in the caller
  follows when there were too few iterations. Without a caller \<^verbatim>\<open>no_match\<close> backtracks.
\<close>

definition greedy_exit ::
  "REExecContext \<Rightarrow> 'h lre_alloc \<Rightarrow> greedy_frame \<Rightarrow> 'h exec_state \<Rightarrow> 'h exec_result" where
  "greedy_exit s lre_realloc f st =
     (if gf_q f > gf_quant_min f then do {
        if gf_pc1 f < 16 then None
        else do {
          (ok, st) \<leftarrow> push_state s lre_realloc st (gf_stack_len f) (gf_pc1 f - 16) (gf_cptr f)
                        RE_EXEC_STATE_GREEDY_QUANT (gf_q f - gf_quant_min f);
          Some (if ok then Running st else Finished (- 1) st) } }
      else Some (Running st))"

definition to_caller :: "greedy_frame \<Rightarrow> greedy_frame list \<Rightarrow> 'h exec_state \<Rightarrow> 'h exec_state" where
  "to_caller f fs st =
     st\<lparr>es_pc := gf_pc f, es_cptr := gf_cptr f, es_stack_len := gf_stack_len f, es_frames := fs\<rparr>"

fun no_match_in ::
  "REExecContext \<Rightarrow> 'h lre_alloc \<Rightarrow> greedy_frame list \<Rightarrow> 'h exec_state \<Rightarrow> 'h exec_result" where
  "no_match_in s lre_realloc [] st = recurse_loop s False (es_states st) st"
| "no_match_in s lre_realloc (f # fs) st =
     (if gf_q f < gf_quant_min f then no_match_in s lre_realloc fs (to_caller f fs st)
      else greedy_exit s lre_realloc f (to_caller f fs st))"

definition no_match :: "REExecContext \<Rightarrow> 'h lre_alloc \<Rightarrow> 'h exec_state \<Rightarrow> 'h exec_result" where
  "no_match s lre_realloc st = no_match_in s lre_realloc (es_frames st) st"

definition INT32_MAX :: nat where "INT32_MAX = 2 ^ 31 - 1"

text \<open>\<^verbatim>\<open>REOP_match\<close>: in a quantifier body, one more iteration is done.\<close>

definition op_match :: "REExecContext \<Rightarrow> 'h lre_alloc \<Rightarrow> 'h exec_state \<Rightarrow> 'h exec_result" where
  "op_match s lre_realloc st =
     (case es_frames st of
        [] \<Rightarrow> recurse_loop s True (es_states st) st
      | f # fs \<Rightarrow>
          let f = f\<lparr>gf_cptr := es_cptr st, gf_q := gf_q f + 1\<rparr>
          in if gf_q f \<ge> gf_quant_max f \<and> gf_quant_max f \<noteq> INT32_MAX then
               if gf_q f < gf_quant_min f then no_match s lre_realloc (to_caller f fs st)
               else greedy_exit s lre_realloc f (to_caller f fs st)
             else
               Some (Running (st\<lparr>es_pc := gf_pc1 f, es_stack_len := gf_stack_len f, es_frames := f # fs\<rparr>)))"

subsection \<open>Instructions\<close>

text \<open>
  Instructions that read a character: at the end of the subject there is no match, otherwise
  the rest of the instruction continues behind the character.
\<close>

definition with_char ::
  "REExecContext \<Rightarrow> 'h lre_alloc \<Rightarrow> 'h exec_state \<Rightarrow> (u32 \<Rightarrow> 'h exec_state \<Rightarrow> 'h exec_result) \<Rightarrow> 'h exec_result" where
  "with_char s lre_realloc st k =
     (if es_cptr st \<ge> ec_cbuf_end s then no_match s lre_realloc st
      else do {
        (c, cptr) \<leftarrow> GET_CHAR (ec_cbuf_type s) (ec_cbuf s) (ec_cbuf_end s) (es_cptr st);
        k c (st\<lparr>es_cptr := cptr\<rparr>) })"

definition op_char :: "REExecContext \<Rightarrow> 'h lre_alloc \<Rightarrow> u32 \<Rightarrow> nat \<Rightarrow> 'h exec_state \<Rightarrow> 'h exec_result" where
  "op_char s lre_realloc val pc st =
     with_char s lre_realloc st (\<lambda>c st. do {
       c \<leftarrow> canon s c;
       if val \<noteq> c then no_match s lre_realloc st else Some (Running (st\<lparr>es_pc := pc\<rparr>)) })"

definition op_push ::
  "REExecContext \<Rightarrow> 'h lre_alloc \<Rightarrow> nat \<Rightarrow> nat \<Rightarrow> REExecStateEnum \<Rightarrow> 'h exec_state \<Rightarrow> 'h exec_result" where
  "op_push s lre_realloc pc1 pc ty st = do {
     (ok, st) \<leftarrow> push_state s lre_realloc st (es_stack_len st) pc1 (es_cptr st) ty 0;
     Some (if ok then Running (st\<lparr>es_pc := pc\<rparr>) else Finished (- 1) st) }"

text \<open>\<^verbatim>\<open>while (val <= val2) { capture[2 * val] = NULL; capture[2 * val + 1] = NULL; val++; }\<close>\<close>

function reset_captures :: "nat \<Rightarrow> nat \<Rightarrow> nat option list \<Rightarrow> nat option list option" where
  "reset_captures val val2 cap =
     (if val \<le> val2 then do {
        cap \<leftarrow> wr cap (2 * val) None;
        cap \<leftarrow> wr cap (2 * val + 1) None;
        reset_captures (val + 1) val2 cap }
      else Some cap)"
  by pat_completeness auto
termination by (relation "measure (\<lambda>(val, val2, cap). Suc val2 - val)") auto

declare reset_captures.simps [simp del]

definition op_word_boundary ::
  "REExecContext \<Rightarrow> 'h lre_alloc \<Rightarrow> bool \<Rightarrow> nat \<Rightarrow> 'h exec_state \<Rightarrow> 'h exec_result" where
  "op_word_boundary s lre_realloc negated pc st = do {
     v1 \<leftarrow> (if es_cptr st = 0 then Some False
            else do { c \<leftarrow> PEEK_PREV_CHAR (ec_cbuf_type s) (ec_cbuf s) 0 (es_cptr st); Some (is_word_char c) });
     v2 \<leftarrow> (if es_cptr st \<ge> ec_cbuf_end s then Some False
            else do { c \<leftarrow> PEEK_CHAR (ec_cbuf_type s) (ec_cbuf s) (ec_cbuf_end s) (es_cptr st);
                      Some (is_word_char c) });
     if (v1 \<noteq> v2) \<noteq> (\<not> negated) then no_match s lre_realloc st else Some (Running (st\<lparr>es_pc := pc\<rparr>)) }"

text \<open>
  The comparison of a back reference with the subject, forward and backward: \<open>Some None\<close> is a
  mismatch, otherwise the position in the subject behind (before) the text.
\<close>

function backref_forward :: "REExecContext \<Rightarrow> nat \<Rightarrow> nat \<Rightarrow> nat \<Rightarrow> nat option option" where
  "backref_forward s cptr1 cptr1_end cptr =
     (if cptr1 < cptr1_end then
        if cptr \<ge> ec_cbuf_end s then Some None
        else
          (case GET_CHAR (ec_cbuf_type s) (ec_cbuf s) cptr1_end cptr1 of
             None \<Rightarrow> None
           | Some (c1, cptr1') \<Rightarrow> do {
               (c2, cptr) \<leftarrow> GET_CHAR (ec_cbuf_type s) (ec_cbuf s) (ec_cbuf_end s) cptr;
               c1 \<leftarrow> canon s c1;
               c2 \<leftarrow> canon s c2;
               if c1 \<noteq> c2 then Some None
               else backref_forward s cptr1' cptr1_end cptr })
      else Some (Some cptr))"
  by pat_completeness auto
termination by (relation "measure (\<lambda>(s, cptr1, cptr1_end, cptr). cptr1_end - cptr1)") (auto dest!: GET_CHAR_advances)

function backref_backward :: "REExecContext \<Rightarrow> nat \<Rightarrow> nat \<Rightarrow> nat \<Rightarrow> nat option option" where
  "backref_backward s cptr1 cptr1_start cptr =
     (if cptr1 > cptr1_start then
        if cptr = 0 then Some None
        else
          (case GET_PREV_CHAR (ec_cbuf_type s) (ec_cbuf s) cptr1_start cptr1 of
             None \<Rightarrow> None
           | Some (c1, cptr1') \<Rightarrow> do {
               (c2, cptr) \<leftarrow> GET_PREV_CHAR (ec_cbuf_type s) (ec_cbuf s) 0 cptr;
               c1 \<leftarrow> canon s c1;
               c2 \<leftarrow> canon s c2;
               if c1 \<noteq> c2 then Some None
               else backref_backward s cptr1' cptr1_start cptr })
      else Some (Some cptr))"
  by pat_completeness auto
termination by (relation "measure (\<lambda>(s, cptr1, cptr1_start, cptr). cptr1)") (auto dest!: GET_PREV_CHAR_recedes)

declare backref_forward.simps [simp del] backref_backward.simps [simp del]

definition op_back_reference ::
  "REExecContext \<Rightarrow> 'h lre_alloc \<Rightarrow> bool \<Rightarrow> nat \<Rightarrow> nat \<Rightarrow> 'h exec_state \<Rightarrow> 'h exec_result" where
  "op_back_reference s lre_realloc backward val pc st =
     (if val \<ge> ec_capture_count s then no_match s lre_realloc st
      else do {
        c_start \<leftarrow> rd (es_capture st) (2 * val);
        c_end \<leftarrow> rd (es_capture st) (2 * val + 1);
        (case (c_start, c_end) of
           (Some cptr1_start, Some cptr1_end) \<Rightarrow> do {
             r \<leftarrow> (if \<not> backward then backref_forward s cptr1_start cptr1_end (es_cptr st)
                   else backref_backward s cptr1_end cptr1_start (es_cptr st));
             (case r of
                None \<Rightarrow> no_match s lre_realloc st
              | Some cptr \<Rightarrow> Some (Running (st\<lparr>es_pc := pc, es_cptr := cptr\<rparr>))) }
         | _ \<Rightarrow> Some (Running (st\<lparr>es_pc := pc\<rparr>))) })"

text \<open>
  The binary search of \<^verbatim>\<open>REOP_range\<close> and \<^verbatim>\<open>REOP_range32\<close>, over the intervals read by \<open>get\<close>.
  The C indices are \<^verbatim>\<open>uint32_t\<close>; \<^verbatim>\<open>idx - 1\<close> at 0 would need a character below the first
  interval, which is excluded before the loop, and is \<open>None\<close> here.
\<close>

function interval_search :: "(nat \<Rightarrow> (u32 \<times> u32) option) \<Rightarrow> u32 \<Rightarrow> nat \<Rightarrow> nat \<Rightarrow> bool option" where
  "interval_search get c idx_min idx_max =
     (if idx_min \<le> idx_max then do {
        let idx = (idx_min + idx_max) div 2;
        (low, high) \<leftarrow> get idx;
        if c < low then
          if idx = 0 then None else interval_search get c idx_min (idx - 1)
        else if c > high then interval_search get c (idx + 1) idx_max
        else Some True }
      else Some False)"
  by pat_completeness auto
termination by (relation "measure (\<lambda>(get, c, idx_min, idx_max). Suc idx_max - idx_min)") auto

declare interval_search.simps [simp del]

definition range16_at :: "bytes \<Rightarrow> nat \<Rightarrow> nat \<Rightarrow> (u32 \<times> u32) option" where
  "range16_at bc pc idx = do {
     low \<leftarrow> get_u16 bc (pc + idx * 4);
     high \<leftarrow> get_u16 bc (pc + idx * 4 + 2);
     Some (low, high) }"

definition range32_at :: "bytes \<Rightarrow> nat \<Rightarrow> nat \<Rightarrow> (u32 \<times> u32) option" where
  "range32_at bc pc idx = do {
     low \<leftarrow> get_u32 bc (pc + idx * 8);
     high \<leftarrow> get_u32 bc (pc + idx * 8 + 4);
     Some (low, high) }"

text \<open>Whether the character is in the \<open>n\<close> intervals at \<open>pc\<close>; \<^verbatim>\<open>n must be >= 1\<close>.\<close>

definition range16_test :: "bytes \<Rightarrow> nat \<Rightarrow> nat \<Rightarrow> u32 \<Rightarrow> bool option" where
  "range16_test bc pc n c =
     (if n = 0 then None
      else do {
        low \<leftarrow> get_u16 bc pc;
        if c < low then Some False
        else do {
          high \<leftarrow> get_u16 bc (pc + (n - 1) * 4 + 2);
          if c \<ge> 0xffff \<and> high = 0xffff then Some True
          else if c > high then Some False
          else interval_search (range16_at bc pc) c 0 (n - 1) } })"

definition range32_test :: "bytes \<Rightarrow> nat \<Rightarrow> nat \<Rightarrow> u32 \<Rightarrow> bool option" where
  "range32_test bc pc n c =
     (if n = 0 then None
      else do {
        low \<leftarrow> get_u32 bc pc;
        if c < low then Some False
        else do {
          high \<leftarrow> get_u32 bc (pc + (n - 1) * 8 + 4);
          if c > high then Some False
          else interval_search (range32_at bc pc) c 0 (n - 1) } })"

definition op_range ::
  "REExecContext \<Rightarrow> 'h lre_alloc \<Rightarrow> (bytes \<Rightarrow> nat \<Rightarrow> nat \<Rightarrow> u32 \<Rightarrow> bool option) \<Rightarrow> nat \<Rightarrow> nat \<Rightarrow>
     'h exec_state \<Rightarrow> 'h exec_result" where
  "op_range s lre_realloc test width pc st = do {
     n \<leftarrow> get_u16 (ec_bc s) pc;
     with_char s lre_realloc st (\<lambda>c st. do {
       c \<leftarrow> canon s c;
       b \<leftarrow> test (ec_bc s) (pc + 2) (unat n) c;
       if b then Some (Running (st\<lparr>es_pc := pc + 2 + width * unat n\<rparr>)) else no_match s lre_realloc st }) }"

text \<open>Enter the body of a simple greedy quantifier: the first call of the nested interpreter.\<close>

definition op_greedy :: "REExecContext \<Rightarrow> nat \<Rightarrow> 'h exec_state \<Rightarrow> 'h exec_result" where
  "op_greedy s pc st = do {
     next_pos \<leftarrow> get_u32 (ec_bc s) pc;
     quant_min \<leftarrow> get_u32 (ec_bc s) (pc + 4);
     quant_max \<leftarrow> get_u32 (ec_bc s) (pc + 8);
     pc' \<leftarrow> jump (pc + 16) next_pos;
     let f = \<lparr>gf_pc1 = pc + 16, gf_pc = pc', gf_cptr = es_cptr st, gf_stack_len = es_stack_len st,
              gf_quant_min = unat quant_min, gf_quant_max = unat quant_max, gf_q = 0\<rparr>;
     Some (Running (st\<lparr>es_pc := pc + 16, es_frames := f # es_frames st\<rparr>)) }"

text \<open>One instruction; \<open>pc\<close> is behind the opcode.\<close>

definition exec_op ::
  "REExecContext \<Rightarrow> 'h lre_alloc \<Rightarrow> REOPCode \<Rightarrow> nat \<Rightarrow> 'h exec_state \<Rightarrow> 'h exec_result" where
  "exec_op s lre_realloc opcode pc st =
     (case opcode of
        REOP_match \<Rightarrow> op_match s lre_realloc st
      | REOP_char32 \<Rightarrow> do { val \<leftarrow> get_u32 (ec_bc s) pc; op_char s lre_realloc val (pc + 4) st }
      | REOP_char \<Rightarrow> do { val \<leftarrow> get_u16 (ec_bc s) pc; op_char s lre_realloc val (pc + 2) st }
      | REOP_split_next_first \<Rightarrow> do {
          val \<leftarrow> get_u32 (ec_bc s) pc;
          pc1 \<leftarrow> jump (pc + 4) val;
          op_push s lre_realloc pc1 (pc + 4) RE_EXEC_STATE_SPLIT st }
      | REOP_split_goto_first \<Rightarrow> do {
          val \<leftarrow> get_u32 (ec_bc s) pc;
          pc2 \<leftarrow> jump (pc + 4) val;
          op_push s lre_realloc (pc + 4) pc2 RE_EXEC_STATE_SPLIT st }
      | REOP_lookahead \<Rightarrow> do {
          val \<leftarrow> get_u32 (ec_bc s) pc;
          pc1 \<leftarrow> jump (pc + 4) val;
          op_push s lre_realloc pc1 (pc + 4) RE_EXEC_STATE_LOOKAHEAD st }
      | REOP_negative_lookahead \<Rightarrow> do {
          val \<leftarrow> get_u32 (ec_bc s) pc;
          pc1 \<leftarrow> jump (pc + 4) val;
          op_push s lre_realloc pc1 (pc + 4) RE_EXEC_STATE_NEGATIVE_LOOKAHEAD st }
      | REOP_goto \<Rightarrow> do {
          val \<leftarrow> get_u32 (ec_bc s) pc;
          pc \<leftarrow> jump (pc + 4) val;
          Some (Running (st\<lparr>es_pc := pc\<rparr>)) }
      | REOP_line_start \<Rightarrow>
          if es_cptr st = 0 then Some (Running (st\<lparr>es_pc := pc\<rparr>))
          else if \<not> ec_multi_line s then no_match s lre_realloc st
          else do {
            c \<leftarrow> PEEK_PREV_CHAR (ec_cbuf_type s) (ec_cbuf s) 0 (es_cptr st);
            if \<not> is_line_terminator c then no_match s lre_realloc st else Some (Running (st\<lparr>es_pc := pc\<rparr>)) }
      | REOP_line_end \<Rightarrow>
          if es_cptr st = ec_cbuf_end s then Some (Running (st\<lparr>es_pc := pc\<rparr>))
          else if \<not> ec_multi_line s then no_match s lre_realloc st
          else do {
            c \<leftarrow> PEEK_CHAR (ec_cbuf_type s) (ec_cbuf s) (ec_cbuf_end s) (es_cptr st);
            if \<not> is_line_terminator c then no_match s lre_realloc st else Some (Running (st\<lparr>es_pc := pc\<rparr>)) }
      | REOP_dot \<Rightarrow>
          if es_cptr st = ec_cbuf_end s then no_match s lre_realloc st
          else do {
            (c, cptr) \<leftarrow> GET_CHAR (ec_cbuf_type s) (ec_cbuf s) (ec_cbuf_end s) (es_cptr st);
            if is_line_terminator c then no_match s lre_realloc (st\<lparr>es_cptr := cptr\<rparr>)
            else Some (Running (st\<lparr>es_pc := pc, es_cptr := cptr\<rparr>)) }
      | REOP_any \<Rightarrow>
          if es_cptr st = ec_cbuf_end s then no_match s lre_realloc st
          else do {
            (c, cptr) \<leftarrow> GET_CHAR (ec_cbuf_type s) (ec_cbuf s) (ec_cbuf_end s) (es_cptr st);
            Some (Running (st\<lparr>es_pc := pc, es_cptr := cptr\<rparr>)) }
      | REOP_save_start \<Rightarrow> do {
          val \<leftarrow> rd (ec_bc s) pc;
          if unat val < ec_capture_count s then do {
            cap \<leftarrow> wr (es_capture st) (2 * unat val) (Some (es_cptr st));
            Some (Running (st\<lparr>es_pc := pc + 1, es_capture := cap\<rparr>)) }
          else None }
      | REOP_save_end \<Rightarrow> do {
          val \<leftarrow> rd (ec_bc s) pc;
          if unat val < ec_capture_count s then do {
            cap \<leftarrow> wr (es_capture st) (2 * unat val + 1) (Some (es_cptr st));
            Some (Running (st\<lparr>es_pc := pc + 1, es_capture := cap\<rparr>)) }
          else None }
      | REOP_save_reset \<Rightarrow> do {
          val \<leftarrow> rd (ec_bc s) pc;
          val2 \<leftarrow> rd (ec_bc s) (pc + 1);
          if unat val2 < ec_capture_count s then do {
            cap \<leftarrow> reset_captures (unat val) (unat val2) (es_capture st);
            Some (Running (st\<lparr>es_pc := pc + 2, es_capture := cap\<rparr>)) }
          else None }
      | REOP_push_i32 \<Rightarrow> do {
          val \<leftarrow> get_u32 (ec_bc s) pc;
          stk \<leftarrow> wr (es_stack st) (es_stack_len st) (ucast val);
          Some (Running (st\<lparr>es_pc := pc + 4, es_stack := stk, es_stack_len := es_stack_len st + 1\<rparr>)) }
      | REOP_drop \<Rightarrow>
          if es_stack_len st = 0 then None
          else Some (Running (st\<lparr>es_pc := pc, es_stack_len := es_stack_len st - 1\<rparr>))
      | REOP_loop \<Rightarrow> do {
          val \<leftarrow> get_u32 (ec_bc s) pc;
          if es_stack_len st = 0 then None
          else do {
            n \<leftarrow> rd (es_stack st) (es_stack_len st - 1);
            stk \<leftarrow> wr (es_stack st) (es_stack_len st - 1) (n - 1);
            pc \<leftarrow> (if n - 1 \<noteq> 0 then jump (pc + 4) val else Some (pc + 4));
            Some (Running (st\<lparr>es_pc := pc, es_stack := stk\<rparr>)) } }
      | REOP_push_char_pos \<Rightarrow> do {
          stk \<leftarrow> wr (es_stack st) (es_stack_len st) (word_of_nat (es_cptr st));
          Some (Running (st\<lparr>es_pc := pc, es_stack := stk, es_stack_len := es_stack_len st + 1\<rparr>)) }
      | REOP_check_advance \<Rightarrow>
          if es_stack_len st = 0 then None
          else do {
            p \<leftarrow> rd (es_stack st) (es_stack_len st - 1);
            if p = word_of_nat (es_cptr st) then no_match s lre_realloc st
            else Some (Running (st\<lparr>es_pc := pc, es_stack_len := es_stack_len st - 1\<rparr>)) }
      | REOP_word_boundary \<Rightarrow> op_word_boundary s lre_realloc False pc st
      | REOP_not_word_boundary \<Rightarrow> op_word_boundary s lre_realloc True pc st
      | REOP_back_reference \<Rightarrow> do {
          val \<leftarrow> rd (ec_bc s) pc; op_back_reference s lre_realloc False (unat val) (pc + 1) st }
      | REOP_backward_back_reference \<Rightarrow> do {
          val \<leftarrow> rd (ec_bc s) pc; op_back_reference s lre_realloc True (unat val) (pc + 1) st }
      | REOP_range \<Rightarrow> op_range s lre_realloc range16_test 4 pc st
      | REOP_range32 \<Rightarrow> op_range s lre_realloc range32_test 8 pc st
      | REOP_prev \<Rightarrow>
          if es_cptr st = 0 then no_match s lre_realloc st
          else do {
            cptr \<leftarrow> PREV_CHAR (ec_cbuf_type s) (ec_cbuf s) 0 (es_cptr st);
            Some (Running (st\<lparr>es_pc := pc, es_cptr := cptr\<rparr>)) }
      | REOP_simple_greedy_quant \<Rightarrow> op_greedy s pc st
      | REOP_invalid \<Rightarrow> None)"

definition exec_step :: "REExecContext \<Rightarrow> 'h lre_alloc \<Rightarrow> 'h exec_state \<Rightarrow> 'h exec_result" where
  "exec_step s lre_realloc st = do {
     b \<leftarrow> rd (ec_bc s) (es_pc st);
     opcode \<leftarrow> reop_of b;
     exec_op s lre_realloc opcode (es_pc st + 1) st }"

text \<open>The loop of \<^verbatim>\<open>lre_exec_backtrack\<close> for at most \<open>n\<close> instructions.\<close>

fun lre_exec_backtrack :: "nat \<Rightarrow> REExecContext \<Rightarrow> 'h lre_alloc \<Rightarrow> 'h exec_state \<Rightarrow> 'h exec_result" where
  "lre_exec_backtrack 0 s lre_realloc st = Some (Running st)"
| "lre_exec_backtrack (Suc n) s lre_realloc st = do {
     r \<leftarrow> exec_step s lre_realloc st;
     (case r of
        Running st \<Rightarrow> lre_exec_backtrack n s lre_realloc st
      | Finished ret st \<Rightarrow> Some (Finished ret st)) }"

subsection \<open>Entry points\<close>

abbreviation (input) "RE_HEADER_FLAGS \<equiv> 0 :: nat"
abbreviation (input) "RE_HEADER_CAPTURE_COUNT \<equiv> 1 :: nat"
abbreviation (input) "RE_HEADER_STACK_SIZE \<equiv> 2 :: nat"
abbreviation (input) "RE_HEADER_BYTECODE_LEN \<equiv> 3 :: nat"
abbreviation (input) "RE_HEADER_LEN \<equiv> 7 :: nat"

abbreviation (input) "LRE_FLAG_IGNORECASE \<equiv> 2 :: u8"
abbreviation (input) "LRE_FLAG_MULTILINE \<equiv> 4 :: u8"
abbreviation (input) "LRE_FLAG_DOTALL \<equiv> 8 :: u8"
abbreviation (input) "LRE_FLAG_UNICODE \<equiv> 16 :: u8"
abbreviation (input) "LRE_FLAG_STICKY \<equiv> 32 :: u8"
abbreviation (input) "LRE_FLAG_NAMED_GROUPS \<equiv> 128 :: u8"

definition lre_get_capture_count :: "bytes \<Rightarrow> nat option" where
  "lre_get_capture_count bc_buf = do { b \<leftarrow> rd bc_buf RE_HEADER_CAPTURE_COUNT; Some (unat b) }"

definition lre_get_flags :: "bytes \<Rightarrow> u8 option" where
  "lre_get_flags bc_buf = rd bc_buf RE_HEADER_FLAGS"

text \<open>The offset of the group names in the byte code, or \<open>None\<close> for \<^verbatim>\<open>NULL\<close>.\<close>

definition lre_get_groupnames :: "bytes \<Rightarrow> nat option option" where
  "lre_get_groupnames bc_buf = do {
     flags \<leftarrow> lre_get_flags bc_buf;
     if flags AND LRE_FLAG_NAMED_GROUPS = 0 then Some None
     else do {
       re_bytecode_len \<leftarrow> get_u32 bc_buf RE_HEADER_BYTECODE_LEN;
       Some (Some (RE_HEADER_LEN + unat re_bytecode_len)) } }"

text \<open>\<^verbatim>\<open>for(i = 0; i < n; i++) capture[i] = NULL;\<close>\<close>

definition clear_captures :: "nat option list \<Rightarrow> nat \<Rightarrow> nat option list option" where
  "clear_captures capture n = blit capture 0 (replicate n None)"

text \<open>The set-up of \<^verbatim>\<open>lre_exec\<close>; \<open>stack_buf\<close> is what \<^verbatim>\<open>alloca\<close> returns, with arbitrary contents.\<close>

definition exec_context :: "bytes \<Rightarrow> u16 list \<Rightarrow> nat \<Rightarrow> nat \<Rightarrow> REExecContext option" where
  "exec_context bc_buf cbuf clen cbuf_type = do {
     re_flags \<leftarrow> lre_get_flags bc_buf;
     capture_count \<leftarrow> lre_get_capture_count bc_buf;
     stack_size \<leftarrow> rd bc_buf RE_HEADER_STACK_SIZE;
     let is_unicode = (re_flags AND LRE_FLAG_UNICODE \<noteq> 0);
     Some \<lparr>ec_bc = bc_buf, ec_cbuf = cbuf, ec_cbuf_end = clen,
           ec_cbuf_type = (if cbuf_type = 1 \<and> is_unicode then 2 else cbuf_type),
           ec_capture_count = capture_count, ec_stack_size_max = unat stack_size,
           ec_multi_line = (re_flags AND LRE_FLAG_MULTILINE \<noteq> 0),
           ec_ignore_case = (re_flags AND LRE_FLAG_IGNORECASE \<noteq> 0),
           ec_is_unicode = is_unicode\<rparr> }"

definition exec_init :: "nat option list \<Rightarrow> u64 list \<Rightarrow> nat \<Rightarrow> 'h \<Rightarrow> 'h exec_state" where
  "exec_init capture stack_buf cindex h =
     \<lparr>es_pc = RE_HEADER_LEN, es_cptr = cindex, es_capture = capture, es_stack = stack_buf, es_stack_len = 0,
      es_frames = [], es_states = [], es_states_size = 0, es_heap = h\<rparr>"

definition lre_exec ::
  "nat \<Rightarrow> 'h lre_alloc \<Rightarrow> nat option list \<Rightarrow> bytes \<Rightarrow> u16 list \<Rightarrow> nat \<Rightarrow> nat \<Rightarrow> nat \<Rightarrow> u64 list \<Rightarrow> 'h \<Rightarrow>
     'h exec_result" where
  "lre_exec n lre_realloc capture bc_buf cbuf cindex clen cbuf_type stack_buf h = do {
     s \<leftarrow> exec_context bc_buf cbuf clen cbuf_type;
     capture \<leftarrow> clear_captures capture (2 * ec_capture_count s);
     if length stack_buf \<noteq> ec_stack_size_max s then None
     else do {
       r \<leftarrow> lre_exec_backtrack n s lre_realloc (exec_init capture stack_buf cindex h);
       Some (case r of
         Running st \<Rightarrow> Running st
       | Finished ret st \<Rightarrow> Finished ret (st\<lparr>es_states := [], es_states_size := 0,
                              es_heap := fst (lre_realloc (es_heap st) 0)\<rparr>)) } }"

end
