(* ===== verification/RegexpParse.thy ===== *)
theory RegexpParse
  imports RegexpExec UniSets Utf8 DynBuf
begin

unbundle bit_operations_syntax

section \<open>The regular expression parser: lexical part (\<^verbatim>\<open>js/libregexp.c\<close>, first half)\<close>

text \<open>
  The parse state, the functions that emit byte code, and the parsers of numbers, escapes,
  Unicode properties, character classes and group names. The pattern is the list of its bytes
  with the terminating NUL, a pointer into it an index, and reading behind the NUL is \<open>None\<close>.

  A function that can report a syntax error or a lack of memory yields \<open>Some (None, s)\<close> for the
  C return value \<open>-1\<close>, with the message in the state, and \<open>Some (Some v, s)\<close> otherwise;
  \<open>None\<close> is undefined behaviour. \<open>ok\<close> sequences them.

  The two byte buffers and the character ranges have an allocator state each, so every pattern
  of allocation failures of \<^verbatim>\<open>lre_realloc\<close> is covered. Loops over the pattern take the length of
  the pattern as fuel, which is enough because each round moves the pointer forward.
\<close>

subsection \<open>State\<close>

record ('o, 'h) REParseState =
  ps_byte_code :: "'o DynBuf"
  ps_buf :: bytes
  ps_buf_ptr :: nat
  ps_buf_end :: nat
  ps_is_unicode :: bool
  ps_ignore_case :: bool
  ps_dotall :: bool
  ps_capture_count :: nat
  ps_total_capture_count :: int
  ps_has_named_captures :: int
  ps_group_names :: "'o DynBuf"
  ps_u :: bytes \<comment> \<open>the union of \<^verbatim>\<open>error_msg\<close> and \<^verbatim>\<open>tmp_buf\<close>, \<^verbatim>\<open>TMP_BUF_SIZE\<close> bytes\<close>
  ps_heap :: 'h

text \<open>What the parser takes from elsewhere: the allocator of ranges and the generated tables.\<close>

record 'h re_env =
  env_realloc :: "'h cr_realloc_fn"
  env_tables :: uni_tables
  env_id_start_table :: bytes
  env_id_start_index :: bytes
  env_id_continue1_table :: bytes
  env_id_continue1_index :: bytes

type_synonym ('o, 'h, 'a) parse = "('a option \<times> ('o, 'h) REParseState) option"

abbreviation (input) "TMP_BUF_SIZE \<equiv> 128 :: nat"
abbreviation (input) "CAPTURE_COUNT_MAX \<equiv> 255 :: nat"
abbreviation (input) "STACK_SIZE_MAX \<equiv> 255 :: nat"
abbreviation (input) "UTF8_CHAR_LEN_MAX \<equiv> 6 :: int"

definition CLASS_RANGE_BASE :: int where "CLASS_RANGE_BASE = 0x40000000"

definition ok :: "('a option \<times> 's) option \<Rightarrow> ('a \<Rightarrow> 's \<Rightarrow> ('b option \<times> 's) option) \<Rightarrow> ('b option \<times> 's) option" where
  "ok r k = do { (v, s) \<leftarrow> r; (case v of None \<Rightarrow> Some (None, s) | Some x \<Rightarrow> k x s) }"

definition msg :: "string \<Rightarrow> bytes" where
  "msg m = map (\<lambda>c. word_of_nat (of_char c)) m"

definition re_parse_error :: "('o, 'h) REParseState \<Rightarrow> string \<Rightarrow> ('o, 'h, 'a) parse" where
  "re_parse_error s m = do {
     u \<leftarrow> vsnprintf_at (ps_u s) 0 TMP_BUF_SIZE (int (length m)) (msg m);
     Some (None, s\<lparr>ps_u := u\<rparr>) }"

definition re_parse_out_of_memory :: "('o, 'h) REParseState \<Rightarrow> ('o, 'h, 'a) parse" where
  "re_parse_out_of_memory s = re_parse_error s ''out of memory''"

definition is_digit :: "byte \<Rightarrow> bool" where
  "is_digit c \<longleftrightarrow> 0x30 \<le> c \<and> c \<le> 0x39"

subsection \<open>Emitting byte code\<close>

text \<open>The emitters ignore the result of the buffer: its error flag is sticky.\<close>

definition emit ::
  "('o DynBuf \<Rightarrow> (int \<times> 'o DynBuf) option) \<Rightarrow> ('o, 'h) REParseState \<Rightarrow> ('o, 'h) REParseState option" where
  "emit f s = do { (r, b) \<leftarrow> f (ps_byte_code s); Some (s\<lparr>ps_byte_code := b\<rparr>) }"

definition bc_size :: "('o, 'h) REParseState \<Rightarrow> nat" where
  "bc_size s = db_size (ps_byte_code s)"

definition re_emit_op :: "('o, 'h) REParseState \<Rightarrow> REOPCode \<Rightarrow> ('o, 'h) REParseState option" where
  "re_emit_op s op = emit (\<lambda>b. dbuf_putc b (reop_code op)) s"

definition re_emit_op_u32 ::
  "('o, 'h) REParseState \<Rightarrow> REOPCode \<Rightarrow> u32 \<Rightarrow> (nat \<times> ('o, 'h) REParseState) option" where
  "re_emit_op_u32 s op val = do {
     s \<leftarrow> re_emit_op s op;
     let pos = bc_size s;
     s \<leftarrow> emit (\<lambda>b. dbuf_put_u32 b val) s;
     Some (pos, s) }"

definition re_emit_goto ::
  "('o, 'h) REParseState \<Rightarrow> REOPCode \<Rightarrow> nat \<Rightarrow> (nat \<times> ('o, 'h) REParseState) option" where
  "re_emit_goto s op val = do {
     s \<leftarrow> re_emit_op s op;
     let pos = bc_size s;
     s \<leftarrow> emit (\<lambda>b. dbuf_put_u32 b (word_of_nat val - word_of_nat (pos + 4))) s;
     Some (pos, s) }"

definition re_emit_op_u8 :: "('o, 'h) REParseState \<Rightarrow> REOPCode \<Rightarrow> nat \<Rightarrow> ('o, 'h) REParseState option" where
  "re_emit_op_u8 s op val = do {
     s \<leftarrow> re_emit_op s op;
     emit (\<lambda>b. dbuf_putc b (word_of_nat val)) s }"

definition re_emit_op_u16 :: "('o, 'h) REParseState \<Rightarrow> REOPCode \<Rightarrow> nat \<Rightarrow> ('o, 'h) REParseState option" where
  "re_emit_op_u16 s op val = do {
     s \<leftarrow> re_emit_op s op;
     emit (\<lambda>b. dbuf_put_u16 b (word_of_nat val)) s }"

subsection \<open>Character sets of escapes\<close>

definition char_range_d :: "nat list" where
  "char_range_d = [1, 0x30, 0x39 + 1]"

definition char_range_s :: "nat list" where
  "char_range_s =
     [10, 0x0009, 0x000D + 1, 0x0020, 0x0020 + 1, 0x00A0, 0x00A0 + 1, 0x1680, 0x1680 + 1,
      0x2000, 0x200A + 1, 0x2028, 0x2029 + 1, 0x202F, 0x202F + 1, 0x205F, 0x205F + 1,
      0x3000, 0x3000 + 1, 0xFEFF, 0xFEFF + 1]"

definition char_range_w :: "nat list" where
  "char_range_w = [4, 0x30, 0x39 + 1, 0x41, 0x5A + 1, 0x5F, 0x5F + 1, 0x61, 0x7A + 1]"

definition char_range_table :: "nat list list" where
  "char_range_table = [char_range_d, char_range_s, char_range_w]"

fun is_space_loop :: "int \<Rightarrow> nat \<Rightarrow> nat \<Rightarrow> bool option" where
  "is_space_loop c i 0 = Some False"
| "is_space_loop c i (Suc n) = do {
     low \<leftarrow> rd char_range_s (2 * i + 1);
     if c < int low then Some False
     else do {
       high \<leftarrow> rd char_range_s (2 * i + 2);
       if c < int high then Some True else is_space_loop c (i + 1) n } }"

definition lre_is_space :: "int \<Rightarrow> bool option" where
  "lre_is_space c = is_space_loop c 0 ((length char_range_s - 1) div 2)"

datatype CharRangeEnum =
  CHAR_RANGE_d | CHAR_RANGE_D | CHAR_RANGE_s | CHAR_RANGE_S | CHAR_RANGE_w | CHAR_RANGE_W

fun char_range_code :: "CharRangeEnum \<Rightarrow> nat" where
  "char_range_code CHAR_RANGE_d = 0"
| "char_range_code CHAR_RANGE_D = 1"
| "char_range_code CHAR_RANGE_s = 2"
| "char_range_code CHAR_RANGE_S = 3"
| "char_range_code CHAR_RANGE_w = 4"
| "char_range_code CHAR_RANGE_W = 5"

fun add_points :: "'h CharRange \<Rightarrow> nat list \<Rightarrow> 'h \<Rightarrow> 'h cr_result" where
  "add_points cr [] h = Some (0, cr, h)"
| "add_points cr (v # vs) h = do {
     (ret, cr, h) \<leftarrow> cr_add_point cr (word_of_nat v) h;
     if ret \<noteq> 0 then Some (- 1, cr, h) else add_points cr vs h }"

definition cr_init_char_range :: "'h cr_realloc_fn \<Rightarrow> CharRangeEnum \<Rightarrow> 'h \<Rightarrow> 'h cr_result" where
  "cr_init_char_range lre_realloc c h = do {
     let inverted = (char_range_code c mod 2 = 1);
     c_pt \<leftarrow> rd char_range_table (char_range_code c div 2);
     len \<leftarrow> rd c_pt 0;
     pts \<leftarrow> slice c_pt 1 (len * 2);
     (ret, cr, h) \<leftarrow> add_points (cr_init lre_realloc) pts h;
     if ret \<noteq> 0 then Some (- 1, cr, cr_free cr h)
     else if inverted then do {
       (ret, cr, h) \<leftarrow> cr_invert cr h;
       if ret \<noteq> 0 then Some (- 1, cr, cr_free cr h) else Some (0, cr, h) }
     else Some (0, cr, h) }"

subsection \<open>Numbers and escapes\<close>

text \<open>\<^verbatim>\<open>parse_digits\<close>: the value, or -1 on an overflow that is not allowed, and the new position.\<close>

function digits_loop :: "bytes \<Rightarrow> nat \<Rightarrow> nat \<Rightarrow> bool \<Rightarrow> (int \<times> nat) option" where
  "digits_loop buf p v allow_overflow =
     (case rd buf p of
        None \<Rightarrow> None
      | Some c \<Rightarrow>
          if \<not> is_digit c then Some (int v, p)
          else
            let v = v * 10 + (unat c - 0x30)
            in if v \<ge> INT32_MAX then
                 if allow_overflow then digits_loop buf (p + 1) INT32_MAX allow_overflow else Some (- 1, p)
               else digits_loop buf (p + 1) v allow_overflow)"
  by pat_completeness auto
termination by (relation "measure (\<lambda>(buf, p, v, a). length buf - p)") (auto simp: rd_eq_Some_iff)

declare digits_loop.simps [simp del]

definition parse_digits :: "bytes \<Rightarrow> nat \<Rightarrow> bool \<Rightarrow> (int \<times> nat) option" where
  "parse_digits buf pp allow_overflow = do {
     (v, p) \<leftarrow> digits_loop buf pp 0 allow_overflow;
     Some (v, if v < 0 then pp else p) }"

definition re_parse_expect ::
  "('o, 'h) REParseState \<Rightarrow> nat \<Rightarrow> char \<Rightarrow> ('o, 'h, nat) parse" where
  "re_parse_expect s pp c = do {
     b \<leftarrow> rd (ps_buf s) pp;
     if b \<noteq> word_of_nat (of_char c) then re_parse_error s (''expecting '' @ [CHR 0x27, c, CHR 0x27])
     else Some (Some (pp + 1), s) }"

text \<open>The hexadecimal digits between braces; \<open>Inl ()\<close> is \<^verbatim>\<open>return -1\<close>.\<close>

function hex_braces :: "bytes \<Rightarrow> nat \<Rightarrow> u32 \<Rightarrow> (unit + u32 \<times> nat) option" where
  "hex_braces buf p c =
     (case rd buf p of
        None \<Rightarrow> None
      | Some b \<Rightarrow>
          let h = from_hex (uint b); c' = push_bit 4 c OR word_of_int h
          in if h < 0 then Some (Inl ())
             else if c' > 0x10FFFF then Some (Inl ())
             else (case rd buf (p + 1) of
                     None \<Rightarrow> None
                   | Some b' \<Rightarrow> if b' = 0x7d then Some (Inr (c', p + 2)) else hex_braces buf (p + 1) c'))"
  by pat_completeness auto
termination by (relation "measure (\<lambda>(buf, p, c). length buf - p)") (auto simp: rd_eq_Some_iff)

declare hex_braces.simps [simp del]

fun hex_n :: "nat \<Rightarrow> bytes \<Rightarrow> nat \<Rightarrow> u32 \<Rightarrow> (unit + u32 \<times> nat) option" where
  "hex_n 0 buf p c = Some (Inr (c, p))"
| "hex_n (Suc n) buf p c = do {
     b \<leftarrow> rd buf p;
     let h = from_hex (uint b);
     if h < 0 then Some (Inl ()) else hex_n n buf (p + 1) (push_bit 4 c OR word_of_int h) }"

text \<open>The second half of an escaped surrogate pair, if there is one at \<open>p\<close>.\<close>

definition escaped_pair :: "bytes \<Rightarrow> nat \<Rightarrow> u32 \<Rightarrow> (u32 \<times> nat) option" where
  "escaped_pair buf p c = do {
     b0 \<leftarrow> rd buf p;
     if b0 \<noteq> 0x5c then Some (c, p)
     else do {
       b1 \<leftarrow> rd buf (p + 1);
       if b1 \<noteq> 0x75 then Some (c, p)
       else do {
         r \<leftarrow> hex_n 4 buf (p + 2) 0;
         Some (case r of
                 Inl _ \<Rightarrow> (c, p)
               | Inr (c1, _) \<Rightarrow> if is_lo_surrogate c1 then (from_surrogate c c1, p + 6) else (c, p)) } } }"

definition legacy_octal :: "bytes \<Rightarrow> nat \<Rightarrow> u32 \<Rightarrow> (u32 \<times> nat) option" where
  "legacy_octal buf p c = do {
     b \<leftarrow> rd buf p;
     let v = (ucast b - 0x30 :: u32);
     if v > 7 then Some (c, p)
     else do {
       let c = (push_bit 3 c OR v);
       if c \<ge> 32 then Some (c, p + 1)
       else do {
         b \<leftarrow> rd buf (p + 1);
         let v = (ucast b - 0x30 :: u32);
         Some (if v > 7 then (c, p + 1) else (push_bit 3 c OR v, p + 2)) } } }"

definition lre_parse_escape :: "bytes \<Rightarrow> nat \<Rightarrow> nat \<Rightarrow> (int \<times> nat) option" where
  "lre_parse_escape buf pp allow_utf16 = do {
     c \<leftarrow> rd buf pp;
     let p = pp + 1;
     if c = 0x62 then Some (0x08, p)
     else if c = 0x66 then Some (0x0c, p)
     else if c = 0x6e then Some (0x0a, p)
     else if c = 0x72 then Some (0x0d, p)
     else if c = 0x74 then Some (0x09, p)
     else if c = 0x76 then Some (0x0b, p)
     else if c = 0x78 \<or> c = 0x75 then do {
       b \<leftarrow> rd buf p;
       if b = 0x7b \<and> allow_utf16 \<noteq> 0 then do {
         r \<leftarrow> hex_braces buf (p + 1) 0;
         Some (case r of Inl _ \<Rightarrow> (- 1, pp) | Inr (c, p) \<Rightarrow> (uint c, p)) }
       else do {
         r \<leftarrow> hex_n (if c = 0x78 then 2 else 4) buf p 0;
         (case r of
            Inl _ \<Rightarrow> Some (- 1, pp)
          | Inr (c, p) \<Rightarrow> do {
              (c, p) \<leftarrow> (if is_hi_surrogate c \<and> allow_utf16 = 2 then escaped_pair buf p c else Some (c, p));
              Some (uint c, p) }) } }
     else if 0x30 \<le> c \<and> c \<le> 0x37 then
       if allow_utf16 = 2 then do {
         b \<leftarrow> (if c \<noteq> 0x30 then Some c else rd buf p);
         Some (if c \<noteq> 0x30 \<or> is_digit b then (- 1, pp) else (0, p)) }
       else do {
         (c, p) \<leftarrow> legacy_octal buf p (ucast c - 0x30);
         Some (uint c, p) }
     else Some (- 2, pp) }"

subsection \<open>Unicode properties\<close>

definition is_unicode_char :: "byte \<Rightarrow> bool" where
  "is_unicode_char c \<longleftrightarrow>
     (0x30 \<le> c \<and> c \<le> 0x39) \<or> (0x41 \<le> c \<and> c \<le> 0x5a) \<or> (0x61 \<le> c \<and> c \<le> 0x7a) \<or> c = 0x5f"

text \<open>
  A name is copied into a buffer of 64 bytes: \<open>room\<close> is how many characters still fit.
  \<open>Inl ()\<close> when it is too long.
\<close>

fun scan_name :: "nat \<Rightarrow> bytes \<Rightarrow> nat \<Rightarrow> bytes \<Rightarrow> (unit + bytes \<times> nat) option" where
  "scan_name room buf p name = do {
     b \<leftarrow> rd buf p;
     if \<not> is_unicode_char b then Some (Inr (name, p))
     else (case room of 0 \<Rightarrow> Some (Inl ()) | Suc room \<Rightarrow> scan_name room buf (p + 1) (name @ [b])) }"

declare scan_name.simps [simp del]

text \<open>The common end of the cases of \<^verbatim>\<open>parse_unicode_property\<close>: the range, or the error of \<open>ret\<close>.\<close>

definition prop_result ::
  "('o, 'h) REParseState \<Rightarrow> string \<Rightarrow> 'h cr_result \<Rightarrow> ('o, 'h, 'h CharRange) parse" where
  "prop_result s unknown r = do {
     (ret, cr, h) \<leftarrow> r;
     if ret = 0 then Some (Some cr, s\<lparr>ps_heap := h\<rparr>)
     else
       let s = s\<lparr>ps_heap := cr_free cr h\<rparr>
       in if ret = - 2 then re_parse_error s unknown else re_parse_out_of_memory s }"

definition property_range ::
  "'h re_env \<Rightarrow> ('o, 'h) REParseState \<Rightarrow> bytes \<Rightarrow> bytes \<Rightarrow> ('o, 'h, 'h CharRange) parse" where
  "property_range E s name val =
     (let cr = cr_init (env_realloc E); h = ps_heap s; T = env_tables E
      in if name = msg ''Script'' \<or> name = msg ''sc'' then
           prop_result s ''unknown unicode script'' (unicode_script T cr val False h)
         else if name = msg ''Script_Extensions'' \<or> name = msg ''scx'' then
           prop_result s ''unknown unicode script'' (unicode_script T cr val True h)
         else if name = msg ''General_Category'' \<or> name = msg ''gc'' then
           prop_result s ''unknown unicode general category'' (unicode_general_category T cr val h)
         else if val = [] then do {
           (ret, cr, h) \<leftarrow> unicode_general_category T cr name h;
           if ret = - 1 then re_parse_out_of_memory (s\<lparr>ps_heap := cr_free cr h\<rparr>)
           else if ret < 0 then
             prop_result s ''unknown unicode property name'' (unicode_prop T cr name h)
           else Some (Some cr, s\<lparr>ps_heap := h\<rparr>) }
         else re_parse_error s ''unknown unicode property name'')"

definition parse_unicode_property ::
  "'h re_env \<Rightarrow> ('o, 'h) REParseState \<Rightarrow> nat \<Rightarrow> bool \<Rightarrow> ('o, 'h, 'h CharRange \<times> nat) parse" where
  "parse_unicode_property E s pp is_inv = do {
     b \<leftarrow> rd (ps_buf s) pp;
     if b \<noteq> 0x7b then re_parse_error s (''expecting '' @ [CHR 0x27, CHR 0x7b, CHR 0x27] @ '' after '' @ [CHR 0x5c, CHR 0x70])
     else do {
       r \<leftarrow> scan_name 63 (ps_buf s) (pp + 1) [];
       (case r of
          Inl _ \<Rightarrow> re_parse_error s ''unknown unicode property name''
        | Inr (name, p) \<Rightarrow> do {
            b \<leftarrow> rd (ps_buf s) p;
            r \<leftarrow> (if b = 0x3d then scan_name 63 (ps_buf s) (p + 1) [] else Some (Inr ([], p)));
            (case r of
               Inl _ \<Rightarrow> re_parse_error s ''unknown unicode property value''
             | Inr (val, p) \<Rightarrow> do {
                 b \<leftarrow> rd (ps_buf s) p;
                 if b \<noteq> 0x7d then re_parse_error s (''expecting '' @ [CHR 0x27, CHR 0x7d, CHR 0x27])
                 else
                   ok (property_range E s name val) (\<lambda>cr s.
                     if is_inv then do {
                       (ret, cr, h) \<leftarrow> cr_invert cr (ps_heap s);
                       if ret \<noteq> 0 then Some (None, s\<lparr>ps_heap := cr_free cr h\<rparr>)
                       else Some (Some (cr, p + 1), s\<lparr>ps_heap := h\<rparr>) }
                     else Some (Some (cr, p + 1), s)) }) }) } }"

subsection \<open>Class atoms\<close>

text \<open>
  \<^verbatim>\<open>get_class_atom\<close> returns a character, or \<open>CLASS_RANGE_BASE\<close> and a range; otherwise the range
  of the caller stays uninitialized, here \<open>None\<close>, and using it is undefined. A malformed UTF-8 sequence in Unicode mode is the character
  \<open>-1\<close>, which the callers take for an error.
\<close>

definition normal_char ::
  "'h re_env \<Rightarrow> ('o, 'h) REParseState \<Rightarrow> byte \<Rightarrow> nat \<Rightarrow> ('o, 'h, int \<times> 'h CharRange option \<times> nat) parse" where
  "normal_char E s c p =
     (if c \<ge> 128 then do {
        (c, rest) \<leftarrow> unicode_from_utf8 (drop p (ps_buf s)) UTF8_CHAR_LEN_MAX;
        if unat (word_of_int c :: u32) > 0xffff \<and> \<not> ps_is_unicode s then
          re_parse_error s ''malformed unicode char''
        else if c < 0 then Some (None, s)
        else Some (Some (c, None, length (ps_buf s) - length rest), s) }
      else Some (Some (uint c, None, p + 1), s))"

definition class_escape :: "byte \<Rightarrow> CharRangeEnum option" where
  "class_escape c =
     (if c = 0x64 then Some CHAR_RANGE_d else if c = 0x44 then Some CHAR_RANGE_D
      else if c = 0x73 then Some CHAR_RANGE_s else if c = 0x53 then Some CHAR_RANGE_S
      else if c = 0x77 then Some CHAR_RANGE_w else if c = 0x57 then Some CHAR_RANGE_W else None)"

definition always_escaped :: bytes where
  "always_escaped = msg (''^$'' @ [CHR 0x5c] @ ''.*+?()[]{}|/'')"

definition get_class_atom ::
  "'h re_env \<Rightarrow> ('o, 'h) REParseState \<Rightarrow> nat \<Rightarrow> bool \<Rightarrow> ('o, 'h, int \<times> 'h CharRange option \<times> nat) parse" where
  "get_class_atom E s p inclass = do {
     c \<leftarrow> rd (ps_buf s) p;
     if c = 0x5c then
       if p + 1 \<ge> ps_buf_end s then re_parse_error s ''unexpected end''
       else do {
         c \<leftarrow> rd (ps_buf s) (p + 1);
         let p = p + 2;
         (case class_escape c of
            Some k \<Rightarrow> do {
              (ret, cr, h) \<leftarrow> cr_init_char_range (env_realloc E) k (ps_heap s);
              let s = s\<lparr>ps_heap := h\<rparr>;
              Some (if ret \<noteq> 0 then (None, s) else (Some (CLASS_RANGE_BASE, Some cr, p), s)) }
          | None \<Rightarrow>
              if c = 0x63 then do {
                d \<leftarrow> rd (ps_buf s) p;
                if (0x61 \<le> d \<and> d \<le> 0x7a) \<or> (0x41 \<le> d \<and> d \<le> 0x5a) \<or>
                   (((0x30 \<le> d \<and> d \<le> 0x39) \<or> d = 0x5f) \<and> inclass \<and> \<not> ps_is_unicode s) then
                  Some (Some (uint (d AND 0x1f), None, p + 1), s)
                else if ps_is_unicode s then
                  re_parse_error s ''invalid escape sequence in regular expression''
                else Some (Some (0x5c, None, p - 1), s) }
              else if (c = 0x70 \<or> c = 0x50) \<and> ps_is_unicode s then
                ok (parse_unicode_property E s p (c = 0x50)) (\<lambda>(cr, p) s.
                  Some (Some (CLASS_RANGE_BASE, Some cr, p), s))
              else do {
                (ret, q) \<leftarrow> lre_parse_escape (ps_buf s) (p - 1) (if ps_is_unicode s then 2 else 0);
                if ret \<ge> 0 then Some (Some (ret, None, q), s)
                else if ret = - 2 \<and> c \<noteq> 0 \<and> c \<in> set always_escaped then normal_char E s c (p - 1)
                else if ps_is_unicode s then
                  re_parse_error s ''invalid escape sequence in regular expression''
                else normal_char E s c (p - 1) }) }
     else if c = 0 \<and> p \<ge> ps_buf_end s then re_parse_error s ''unexpected end''
     else normal_char E s c p }"

text \<open>Emit the intervals of a range, in 16 bits each when they fit.\<close>

fun emit_points16 :: "u32 list \<Rightarrow> nat \<Rightarrow> nat \<Rightarrow> 'o DynBuf \<Rightarrow> 'o DynBuf option" where
  "emit_points16 pts i 0 b = Some b"
| "emit_points16 pts i (Suc n) b = do {
     lo \<leftarrow> rd pts i;
     (r, b) \<leftarrow> dbuf_put_u16 b (ucast lo);
     hi \<leftarrow> rd pts (i + 1);
     let high = (if hi - 1 = UINT32_MAX - 1 then 0xffff else hi - 1);
     (r, b) \<leftarrow> dbuf_put_u16 b (ucast high);
     emit_points16 pts (i + 2) n b }"

fun emit_points32 :: "u32 list \<Rightarrow> nat \<Rightarrow> nat \<Rightarrow> 'o DynBuf \<Rightarrow> 'o DynBuf option" where
  "emit_points32 pts i 0 b = Some b"
| "emit_points32 pts i (Suc n) b = do {
     lo \<leftarrow> rd pts i;
     (r, b) \<leftarrow> dbuf_put_u32 b lo;
     hi \<leftarrow> rd pts (i + 1);
     (r, b) \<leftarrow> dbuf_put_u32 b (hi - 1);
     emit_points32 pts (i + 2) n b }"

definition re_emit_range :: "('o, 'h) REParseState \<Rightarrow> 'h CharRange \<Rightarrow> ('o, 'h, unit) parse" where
  "re_emit_range s cr = do {
     let len = cr_len cr div 2;
     let pts = cr_points cr;
     if len \<ge> 65535 then re_parse_error s ''too many ranges''
     else if len = 0 then do {
       (pos, s) \<leftarrow> re_emit_op_u32 s REOP_char32 (- 1);
       Some (Some (), s) }
     else do {
       high \<leftarrow> rd pts (cr_len cr - 1);
       high \<leftarrow> (if high = UINT32_MAX then rd pts (cr_len cr - 2) else Some high);
       s \<leftarrow> re_emit_op_u16 s (if high \<le> 0xffff then REOP_range else REOP_range32) len;
       b \<leftarrow> (if high \<le> 0xffff then emit_points16 pts 0 len (ps_byte_code s)
             else emit_points32 pts 0 len (ps_byte_code s));
       Some (Some (), s\<lparr>ps_byte_code := b\<rparr>) } }"

subsection \<open>Character classes\<close>

text \<open>\<open>class_fail\<close> is the code at \<^verbatim>\<open>fail\<close>, after an error message was set or not.\<close>

definition class_fail :: "'h CharRange \<Rightarrow> ('o, 'h, 'a) parse \<Rightarrow> ('o, 'h, 'b) parse" where
  "class_fail cr r = do { (_, s) \<leftarrow> r; Some (None, s\<lparr>ps_heap := cr_free cr (ps_heap s)\<rparr>) }"

definition class_memory_error :: "'h CharRange \<Rightarrow> ('o, 'h) REParseState \<Rightarrow> ('o, 'h, 'b) parse" where
  "class_memory_error cr s = class_fail cr (re_parse_out_of_memory s :: (_, _, unit) parse)"

text \<open>The code at \<^verbatim>\<open>class_atom\<close>: add the atom \<open>c1\<close> alone.\<close>

definition class_atom ::
  "('o, 'h) REParseState \<Rightarrow> 'h CharRange \<Rightarrow> int \<Rightarrow> 'h CharRange option \<Rightarrow> ('o, 'h, 'h CharRange) parse" where
  "class_atom s cr c1 cr1 =
     (if c1 \<ge> CLASS_RANGE_BASE then do {
        cr1 \<leftarrow> cr1;
        (ret, cr, h) \<leftarrow> cr_union1 cr (cr_points cr1) (cr_len cr1) (ps_heap s);
        let s = s\<lparr>ps_heap := cr_free cr1 h\<rparr>;
        if ret \<noteq> 0 then class_memory_error cr s else Some (Some cr, s) }
      else do {
        (ret, cr, h) \<leftarrow> cr_union_interval cr (word_of_int c1) (word_of_int c1) (ps_heap s);
        let s = s\<lparr>ps_heap := h\<rparr>;
        if ret \<noteq> 0 then class_memory_error cr s else Some (Some cr, s) })"

definition invalid_class_range :: "'h CharRange \<Rightarrow> ('o, 'h) REParseState \<Rightarrow> ('o, 'h, 'b) parse" where
  "invalid_class_range cr s = class_fail cr (re_parse_error s ''invalid class range'' :: (_, _, unit) parse)"

definition free_atom :: "'h CharRange \<Rightarrow> ('o, 'h) REParseState \<Rightarrow> ('o, 'h) REParseState" where
  "free_atom cr1 s = s\<lparr>ps_heap := cr_free cr1 (ps_heap s)\<rparr>"

text \<open>One round of the loop of \<^verbatim>\<open>re_parse_char_class\<close>, before a \<^verbatim>\<open>]\<close>.\<close>

definition class_item ::
  "'h re_env \<Rightarrow> ('o, 'h) REParseState \<Rightarrow> 'h CharRange \<Rightarrow> nat \<Rightarrow> ('o, 'h, 'h CharRange \<times> nat) parse" where
  "class_item E s cr p = do {
     (r, s) \<leftarrow> get_class_atom E s p True;
     (case r of
        None \<Rightarrow> class_fail cr (Some (None :: unit option, s))
      | Some (c1, cr1, p) \<Rightarrow> do {
          b \<leftarrow> rd (ps_buf s) p;
          range \<leftarrow> (if b = 0x2d then do { b1 \<leftarrow> rd (ps_buf s) (p + 1); Some (b1 \<noteq> 0x5d) } else Some False);
          if \<not> range then ok (class_atom s cr c1 cr1) (\<lambda>cr s. Some (Some (cr, p), s))
          else if c1 \<ge> CLASS_RANGE_BASE then
            if ps_is_unicode s then do { cr1 \<leftarrow> cr1; invalid_class_range cr (free_atom cr1 s) }
            else ok (class_atom s cr c1 cr1) (\<lambda>cr s. Some (Some (cr, p), s))
          else do {
            (r, s) \<leftarrow> get_class_atom E s (p + 1) True;
            (case r of
               None \<Rightarrow> class_fail cr (Some (None :: unit option, s))
             | Some (c2, cr2, p0) \<Rightarrow>
                 if c2 \<ge> CLASS_RANGE_BASE then do {
                   cr2 \<leftarrow> cr2;
                   let s = free_atom cr2 s;
                   if ps_is_unicode s then invalid_class_range cr s
                   else ok (class_atom s cr c1 cr1) (\<lambda>cr s. Some (Some (cr, p), s)) }
                 else if c2 < c1 then invalid_class_range cr s
                 else do {
                   (ret, cr, h) \<leftarrow> cr_union_interval cr (word_of_int c1) (word_of_int c2) (ps_heap s);
                   let s = s\<lparr>ps_heap := h\<rparr>;
                   if ret \<noteq> 0 then class_memory_error cr s else Some (Some (cr, p0), s) }) } }) }"

fun class_loop ::
  "nat \<Rightarrow> 'h re_env \<Rightarrow> ('o, 'h) REParseState \<Rightarrow> 'h CharRange \<Rightarrow> nat \<Rightarrow> ('o, 'h, 'h CharRange \<times> nat) parse" where
  "class_loop 0 E s cr p = None"
| "class_loop (Suc n) E s cr p = do {
     b \<leftarrow> rd (ps_buf s) p;
     if b = 0x5d then Some (Some (cr, p), s)
     else ok (class_item E s cr p) (\<lambda>(cr, p) s. class_loop n E s cr p) }"

definition re_parse_char_class ::
  "'h re_env \<Rightarrow> ('o, 'h) REParseState \<Rightarrow> nat \<Rightarrow> ('o, 'h, nat) parse" where
  "re_parse_char_class E s pp = do {
     b \<leftarrow> rd (ps_buf s) (pp + 1);
     let inverted = (b = 0x5e);
     let p = (if inverted then pp + 2 else pp + 1);
     ok (class_loop (length (ps_buf s) + 1) E s (cr_init (env_realloc E)) p) (\<lambda>(cr, p) s. do {
       (ret, cr, h) \<leftarrow> (if ps_ignore_case s then cr_regexp_canonicalize cr (ps_is_unicode s) (ps_heap s)
                       else Some (0, cr, ps_heap s));
       let s = s\<lparr>ps_heap := h\<rparr>;
       if ret \<noteq> 0 then class_memory_error cr s
       else do {
         (ret, cr, h) \<leftarrow> (if inverted then cr_invert cr (ps_heap s) else Some (0, cr, ps_heap s));
         let s = s\<lparr>ps_heap := h\<rparr>;
         if ret \<noteq> 0 then class_memory_error cr s
         else do {
           (r, s) \<leftarrow> re_emit_range s cr;
           let s = free_atom cr s;
           Some (map_option (\<lambda>_. p + 1) r, s) } } }) }"

subsection \<open>Group names\<close>

definition lre_id_start_table_ascii :: "u32 list" where
  "lre_id_start_table_ascii = [0x00000000, 0x00000010, 0x87FFFFFE, 0x07FFFFFE]"

definition lre_id_continue_table_ascii :: "u32 list" where
  "lre_id_continue_table_ascii = [0x00000000, 0x03FF0010, 0x87FFFFFE, 0x07FFFFFE]"

definition lre_js_is_ident_first :: "'h re_env \<Rightarrow> u32 \<Rightarrow> bool option" where
  "lre_js_is_ident_first E c =
     (if c < 128 then do {
        w \<leftarrow> rd lre_id_start_table_ascii (unat (drop_bit 5 c));
        Some (bit w (unat (c AND 31))) }
      else lre_is_id_start (env_id_start_table E) (env_id_start_index E) c)"

definition lre_js_is_ident_next :: "'h re_env \<Rightarrow> u32 \<Rightarrow> bool option" where
  "lre_js_is_ident_next E c =
     (if c < 128 then do {
        w \<leftarrow> rd lre_id_continue_table_ascii (unat (drop_bit 5 c));
        Some (bit w (unat (c AND 31))) }
      else do {
        b \<leftarrow> lre_is_id_continue (env_id_start_table E) (env_id_start_index E)
               (env_id_continue1_table E) (env_id_continue1_index E) c;
        Some (b \<or> c = 0x200C \<or> c = 0x200D) })"

text \<open>
  One character of a group name: \<open>Some (Inl ())\<close> is \<^verbatim>\<open>return -1\<close>, otherwise the character (as
  \<^verbatim>\<open>uint32_t\<close>) and the position behind it.
\<close>

definition group_char :: "bytes \<Rightarrow> nat \<Rightarrow> byte \<Rightarrow> (unit + u32 \<times> nat) option" where
  "group_char buf p b =
     (if b = 0x5c then do {
        b1 \<leftarrow> rd buf (p + 1);
        if b1 \<noteq> 0x75 then Some (Inl ())
        else do {
          (c, p) \<leftarrow> lre_parse_escape buf (p + 1) 2;
          Some (Inr (word_of_int c, p)) } }
      else if b \<ge> 128 then do {
        (c, rest) \<leftarrow> unicode_from_utf8 (drop p buf) UTF8_CHAR_LEN_MAX;
        let p = length buf - length rest;
        if is_hi_surrogate (word_of_int c) then do {
          (d, rest1) \<leftarrow> unicode_from_utf8 rest UTF8_CHAR_LEN_MAX;
          Some (Inr (if is_lo_surrogate (word_of_int d)
                     then (from_surrogate (word_of_int c) (word_of_int d), length buf - length rest1)
                     else (word_of_int c, p))) }
        else Some (Inr (word_of_int c, p)) }
      else Some (Inr (ucast b, p + 1)))"

text \<open>
  The loop of \<^verbatim>\<open>re_parse_group_name\<close>; \<open>out\<close> is the output buffer of \<open>buf_size\<close> bytes, \<open>q\<close> the
  number of bytes written. The boolean is whether it returned 0.
\<close>

fun group_name_loop ::
  "nat \<Rightarrow> 'h re_env \<Rightarrow> bytes \<Rightarrow> nat \<Rightarrow> bytes \<Rightarrow> nat \<Rightarrow> nat \<Rightarrow> (bool \<times> nat \<times> bytes) option" where
  "group_name_loop 0 E buf p out buf_size q = None"
| "group_name_loop (Suc n) E buf p out buf_size q = do {
     b \<leftarrow> rd buf p;
     if b = 0x3e then
       if q = 0 then Some (False, p, out)
       else do { out \<leftarrow> wr out q 0; Some (True, p + 1, out) }
     else do {
       r \<leftarrow> group_char buf p b;
       (case r of
          Inl _ \<Rightarrow> Some (False, p, out)
        | Inr (c, p') \<Rightarrow>
            if c > 0x10FFFF then Some (False, p, out)
            else do {
              ident \<leftarrow> (if q = 0 then lre_js_is_ident_first E c else lre_js_is_ident_next E c);
              if \<not> ident then Some (False, p, out)
              else if q + nat UTF8_CHAR_LEN_MAX + 1 > buf_size then Some (False, p, out)
              else do {
                let enc = (if c < 128 then [ucast c] else unicode_to_utf8 c);
                out \<leftarrow> blit out q enc;
                group_name_loop n E buf p' out buf_size (q + length enc) } }) } }"

definition re_parse_group_name ::
  "'h re_env \<Rightarrow> bytes \<Rightarrow> bytes \<Rightarrow> nat \<Rightarrow> nat \<Rightarrow> (bool \<times> nat \<times> bytes) option" where
  "re_parse_group_name E buf out buf_size pp = do {
     (r, p, out) \<leftarrow> group_name_loop (length buf + 1) E buf pp out buf_size 0;
     Some (r, if r then p else pp, out) }"

subsection \<open>Counting captures\<close>

text \<open>The skip over a character class: \<^verbatim>\<open>p\<close> ends on the bracket or at the end of the pattern.\<close>

function skip_class :: "bytes \<Rightarrow> nat \<Rightarrow> nat \<Rightarrow> nat option" where
  "skip_class buf buf_end p =
     (if p < buf_end then
        (case rd buf p of
           None \<Rightarrow> None
         | Some b \<Rightarrow>
             if b = 0x5d then Some p
             else skip_class buf buf_end (if b = 0x5c then p + 2 else p + 1))
      else Some p)"
  by pat_completeness auto
termination by (relation "measure (\<lambda>(buf, e, p). e - p)") auto

declare skip_class.simps [simp del]

definition c_string :: "bytes \<Rightarrow> bytes option" where
  "c_string b = do { n \<leftarrow> strlen b; slice b 0 n }"

text \<open>
  An opening parenthesis at \<open>p\<close>: \<open>Inl i\<close> when the named capture is found, otherwise the new
  \<^verbatim>\<open>p\<close>, \<^verbatim>\<open>capture_index\<close> and \<^verbatim>\<open>has_named_captures\<close> (and the local buffer \<^verbatim>\<open>name\<close>).
\<close>

definition capture_open ::
  "'h re_env \<Rightarrow> bytes \<Rightarrow> bytes option \<Rightarrow> nat \<Rightarrow> nat \<Rightarrow> int \<Rightarrow> bytes \<Rightarrow>
     (nat + nat \<times> nat \<times> int \<times> bytes) option" where
  "capture_open E buf capture_name p capture_index named name = do {
     b1 \<leftarrow> rd buf (p + 1);
     if b1 \<noteq> 0x3f then Some (Inr (p, capture_index + 1, named, name))
     else do {
       b2 \<leftarrow> rd buf (p + 2);
       if b2 \<noteq> 0x3c then Some (Inr (p, capture_index, named, name))
       else do {
         b3 \<leftarrow> rd buf (p + 3);
         if b3 = 0x3d \<or> b3 = 0x21 then Some (Inr (p, capture_index, named, name))
         else (case capture_name of
                 None \<Rightarrow> Some (Inr (p, capture_index + 1, 1, name))
               | Some want \<Rightarrow> do {
                   (r, p, name) \<leftarrow> re_parse_group_name E buf name TMP_BUF_SIZE (p + 3);
                   found \<leftarrow> (if r then do { n \<leftarrow> c_string name; Some (n = want) } else Some False);
                   Some (if found then Inl capture_index
                         else Inr (p, capture_index + 1, 1, name)) }) } } }"

text \<open>
  The loop over the pattern: the capture index at the end (or, in \<open>Inl\<close>, of the name found),
  with \<^verbatim>\<open>has_named_captures\<close>.
\<close>

fun captures_loop ::
  "nat \<Rightarrow> 'h re_env \<Rightarrow> bytes \<Rightarrow> nat \<Rightarrow> bytes option \<Rightarrow> nat \<Rightarrow> nat \<Rightarrow> int \<Rightarrow> bytes \<Rightarrow> (nat + nat \<times> int) option" where
  "captures_loop 0 E buf buf_end capture_name p i named name = None"
| "captures_loop (Suc n) E buf buf_end capture_name p i named name =
     (if p < buf_end then do {
        b \<leftarrow> rd buf p;
        if b = 0x28 then do {
          r \<leftarrow> capture_open E buf capture_name p i named name;
          (case r of
             Inl i \<Rightarrow> Some (Inl i)
           | Inr (p, j, named, name) \<Rightarrow>
               if j \<noteq> i \<and> j \<ge> CAPTURE_COUNT_MAX then Some (Inr (j, named))
               else captures_loop n E buf buf_end capture_name (p + 1) j named name) }
        else if b = 0x5c then captures_loop n E buf buf_end capture_name (p + 2) i named name
        else if b = 0x5b then do {
          p \<leftarrow> skip_class buf buf_end (p + 1);
          captures_loop n E buf buf_end capture_name (p + 1) i named name }
        else captures_loop n E buf buf_end capture_name (p + 1) i named name }
      else Some (Inr (i, named)))"

text \<open>The result of \<^verbatim>\<open>re_parse_captures\<close> and the value stored in \<^verbatim>\<open>*phas_named_captures\<close>.\<close>

definition re_parse_captures ::
  "'h re_env \<Rightarrow> ('o, 'h) REParseState \<Rightarrow> bytes option \<Rightarrow> (int \<times> int) option" where
  "re_parse_captures E s capture_name = do {
     r \<leftarrow> captures_loop (length (ps_buf s) + 1) E (ps_buf s) (ps_buf_end s) capture_name 0 1 0
            (replicate TMP_BUF_SIZE 0);
     Some (case r of
             Inl i \<Rightarrow> (int i, 1)
           | Inr (i, named) \<Rightarrow> (if capture_name = None then int i else - 1, named)) }"

definition re_count_captures ::
  "'h re_env \<Rightarrow> ('o, 'h) REParseState \<Rightarrow> (int \<times> ('o, 'h) REParseState) option" where
  "re_count_captures E s =
     (if ps_total_capture_count s < 0 then do {
        (n, named) \<leftarrow> re_parse_captures E s None;
        Some (n, s\<lparr>ps_total_capture_count := n, ps_has_named_captures := named\<rparr>) }
      else Some (ps_total_capture_count s, s))"

definition re_has_named_captures ::
  "'h re_env \<Rightarrow> ('o, 'h) REParseState \<Rightarrow> (bool \<times> ('o, 'h) REParseState) option" where
  "re_has_named_captures E s = do {
     (_, s) \<leftarrow> (if ps_has_named_captures s < 0 then re_count_captures E s else Some (0, s));
     Some (ps_has_named_captures s \<noteq> 0, s) }"

function find_group_loop :: "bytes \<Rightarrow> nat \<Rightarrow> bytes \<Rightarrow> nat \<Rightarrow> nat \<Rightarrow> int option" where
  "find_group_loop buf sz name p i =
     (if p < sz then
        (case strlen (drop p buf) of
           None \<Rightarrow> None
         | Some len \<Rightarrow>
             if len = length name \<and> take len (drop p buf) = name then Some (int i)
             else find_group_loop buf sz name (p + len + 1) (i + 1))
      else Some (- 1))"
  by pat_completeness auto
termination by (relation "measure (\<lambda>(buf, sz, name, p, i). sz - p)") auto

declare find_group_loop.simps [simp del]

definition find_group_name :: "('o, 'h) REParseState \<Rightarrow> bytes \<Rightarrow> int option" where
  "find_group_name s name =
     (if db_buf (ps_group_names s) = [] then Some (- 1)
      else find_group_loop (db_buf (ps_group_names s)) (db_size (ps_group_names s)) name 0 1)"

end
