(* ===== verification/RegexpCompile.thy ===== *)
theory RegexpCompile
  imports RegexpParse
begin

unbundle bit_operations_syntax

section \<open>The regular expression compiler (\<^verbatim>\<open>js/libregexp.c\<close>)\<close>

text \<open>
  Terms with their quantifiers, alternatives, disjunctions and \<^verbatim>\<open>lre_compile\<close>. The C functions
  are mutually recursive through parentheses; \<open>re_parse_term\<close> and \<open>re_parse_alternative\<close> take
  the function for a nested disjunction as a parameter, and \<open>re_parse_disjunction\<close> ties the
  knot. Its first argument is how many nested calls \<^verbatim>\<open>lre_check_stack_overflow\<close>, which the
  embedding program provides, still allows.
\<close>

subsection \<open>Looking at emitted code\<close>

lemma reopcode_size_pos: "0 < reopcode_size op"
  by (cases op) simp_all

text \<open>The length of the instruction at \<open>pos\<close>, with the intervals of a range.\<close>

definition op_len :: "bytes \<Rightarrow> nat \<Rightarrow> REOPCode \<Rightarrow> nat option" where
  "op_len bc_buf pos opcode =
     (case opcode of
        REOP_range \<Rightarrow> do { val \<leftarrow> get_u16 bc_buf (pos + 1); Some (reopcode_size opcode + unat val * 4) }
      | REOP_range32 \<Rightarrow> do { val \<leftarrow> get_u16 bc_buf (pos + 1); Some (reopcode_size opcode + unat val * 8) }
      | _ \<Rightarrow> Some (reopcode_size opcode))"

lemma op_len_pos: "op_len bc_buf pos op = Some n \<Longrightarrow> 0 < n"
  by (cases op) (auto simp: op_len_def split: Option.bind_splits)

definition is_char_op :: "REOPCode \<Rightarrow> bool" where
  "is_char_op op \<longleftrightarrow> op \<in> {REOP_range, REOP_range32, REOP_char, REOP_char32, REOP_dot, REOP_any}"

definition no_advance_op :: "REOPCode \<Rightarrow> bool" where
  "no_advance_op op \<longleftrightarrow>
     op \<in> {REOP_line_start, REOP_line_end, REOP_push_i32, REOP_push_char_pos, REOP_drop, REOP_word_boundary,
           REOP_not_word_boundary, REOP_prev, REOP_save_start, REOP_save_end, REOP_save_reset,
           REOP_back_reference, REOP_backward_back_reference}"

function need_check_loop :: "bytes \<Rightarrow> nat \<Rightarrow> nat \<Rightarrow> bool \<Rightarrow> bool option" where
  "need_check_loop bc_buf bc_buf_len pos ret =
     (if pos < bc_buf_len then
        (case rd bc_buf pos of
           None \<Rightarrow> None
         | Some b \<Rightarrow>
             (case reop_of b of
                None \<Rightarrow> None
              | Some opcode \<Rightarrow>
                  if is_char_op opcode \<or> no_advance_op opcode then
                    (case op_len bc_buf pos opcode of
                       None \<Rightarrow> None
                     | Some len \<Rightarrow>
                         need_check_loop bc_buf bc_buf_len (pos + len) (ret \<and> \<not> is_char_op opcode))
                  else Some True))
      else Some ret)"
  by pat_completeness auto
termination by (relation "measure (\<lambda>(b, n, pos, ret). n - pos)") (auto dest: op_len_pos)

declare need_check_loop.simps [simp del]

definition re_need_check_advance :: "bytes \<Rightarrow> nat \<Rightarrow> bool option" where
  "re_need_check_advance bc_buf bc_buf_len = need_check_loop bc_buf bc_buf_len 0 True"

function simple_quant_loop :: "bytes \<Rightarrow> nat \<Rightarrow> nat \<Rightarrow> nat \<Rightarrow> int option" where
  "simple_quant_loop bc_buf bc_buf_len pos cnt =
     (if pos < bc_buf_len then
        (case rd bc_buf pos of
           None \<Rightarrow> None
         | Some b \<Rightarrow>
             (case reop_of b of
                None \<Rightarrow> None
              | Some opcode \<Rightarrow>
                  if is_char_op opcode \<or>
                     opcode \<in> {REOP_line_start, REOP_line_end, REOP_word_boundary, REOP_not_word_boundary} then
                    (case op_len bc_buf pos opcode of
                       None \<Rightarrow> None
                     | Some len \<Rightarrow>
                         simple_quant_loop bc_buf bc_buf_len (pos + len)
                           (if is_char_op opcode then cnt + 1 else cnt))
                  else Some (- 1)))
      else Some (int cnt))"
  by pat_completeness auto
termination by (relation "measure (\<lambda>(b, n, pos, cnt). n - pos)") (auto dest: op_len_pos)

declare simple_quant_loop.simps [simp del]

definition re_is_simple_quantifier :: "bytes \<Rightarrow> nat \<Rightarrow> int option" where
  "re_is_simple_quantifier bc_buf bc_buf_len = simple_quant_loop bc_buf bc_buf_len 0 0"

text \<open>The loop of \<^verbatim>\<open>compute_stack_size\<close>; its assertions are \<open>None\<close> when they fail.\<close>

function stack_size_loop :: "bytes \<Rightarrow> nat \<Rightarrow> nat \<Rightarrow> nat \<Rightarrow> nat \<Rightarrow> int option" where
  "stack_size_loop bc_buf bc_buf_len pos stack_size stack_size_max =
     (if pos < bc_buf_len then
        (case rd bc_buf pos of
           None \<Rightarrow> None
         | Some b \<Rightarrow>
             (case reop_of b of
                None \<Rightarrow> None
              | Some opcode \<Rightarrow>
                  if pos + reopcode_size opcode > bc_buf_len then None
                  else
                    (case op_len bc_buf pos opcode of
                       None \<Rightarrow> None
                     | Some len \<Rightarrow>
                         if opcode = REOP_push_i32 \<or> opcode = REOP_push_char_pos then
                           if stack_size + 1 > stack_size_max \<and> stack_size + 1 > STACK_SIZE_MAX then Some (- 1)
                           else stack_size_loop bc_buf bc_buf_len (pos + len) (stack_size + 1)
                                  (max stack_size_max (stack_size + 1))
                         else if opcode = REOP_drop \<or> opcode = REOP_check_advance then
                           if stack_size = 0 then None
                           else stack_size_loop bc_buf bc_buf_len (pos + len) (stack_size - 1) stack_size_max
                         else stack_size_loop bc_buf bc_buf_len (pos + len) stack_size stack_size_max)))
      else Some (int stack_size_max))"
  by pat_completeness auto
termination by (relation "measure (\<lambda>(b, n, pos, k, m). n - pos)") (auto dest: op_len_pos)

declare stack_size_loop.simps [simp del]

definition compute_stack_size :: "bytes \<Rightarrow> nat \<Rightarrow> int option" where
  "compute_stack_size bc_buf bc_buf_len =
     stack_size_loop (drop RE_HEADER_LEN bc_buf) (bc_buf_len - RE_HEADER_LEN) 0 0 0"

subsection \<open>Patching emitted code\<close>

definition poke :: "('o, 'h) REParseState \<Rightarrow> nat \<Rightarrow> byte \<Rightarrow> ('o, 'h) REParseState option" where
  "poke s pos v = do {
     b \<leftarrow> wr (db_buf (ps_byte_code s)) pos v;
     Some (s\<lparr>ps_byte_code := (ps_byte_code s)\<lparr>db_buf := b\<rparr>\<rparr>) }"

definition poke_u32 :: "('o, 'h) REParseState \<Rightarrow> nat \<Rightarrow> u32 \<Rightarrow> ('o, 'h) REParseState option" where
  "poke_u32 s pos v = do {
     b \<leftarrow> put_u32 (db_buf (ps_byte_code s)) pos v;
     Some (s\<lparr>ps_byte_code := (ps_byte_code s)\<lparr>db_buf := b\<rparr>\<rparr>) }"

text \<open>\<^verbatim>\<open>if (dbuf_insert(&s->byte_code, pos, len)) goto out_of_memory;\<close>\<close>

definition insert_gap :: "('o, 'h) REParseState \<Rightarrow> nat \<Rightarrow> nat \<Rightarrow> ('o, 'h, unit) parse" where
  "insert_gap s pos len = do {
     (r, b) \<leftarrow> dbuf_insert (ps_byte_code s) pos len;
     let s = s\<lparr>ps_byte_code := b\<rparr>;
     if r \<noteq> 0 then re_parse_out_of_memory s else Some (Some (), s) }"

subsection \<open>Quantifiers\<close>

definition split_op :: "bool \<Rightarrow> REOPCode" where
  "split_op greedy = (if greedy then REOP_split_next_first else REOP_split_goto_first)"

text \<open>A quantifier over a simple atom of \<open>len\<close> characters.\<close>

definition emit_simple_quant ::
  "('o, 'h) REParseState \<Rightarrow> nat \<Rightarrow> nat \<Rightarrow> nat \<Rightarrow> nat \<Rightarrow> ('o, 'h, unit) parse" where
  "emit_simple_quant s last_atom_start quant_min quant_max len = do {
     s \<leftarrow> re_emit_op s REOP_match;
     ok (insert_gap s last_atom_start 17) (\<lambda>_ s. do {
       s \<leftarrow> poke s last_atom_start (reop_code REOP_simple_greedy_quant);
       s \<leftarrow> poke_u32 s (last_atom_start + 1) (word_of_nat (bc_size s - last_atom_start - 17));
       s \<leftarrow> poke_u32 s (last_atom_start + 5) (word_of_nat quant_min);
       s \<leftarrow> poke_u32 s (last_atom_start + 9) (word_of_nat quant_max);
       s \<leftarrow> poke_u32 s (last_atom_start + 13) (word_of_nat len);
       Some (Some (), s) }) }"

text \<open>\<^verbatim>\<open>quant_min == 0\<close>, \<^verbatim>\<open>quant_max\<close> 1 or infinity.\<close>

definition emit_optional ::
  "('o, 'h) REParseState \<Rightarrow> nat \<Rightarrow> nat \<Rightarrow> bool \<Rightarrow> bool \<Rightarrow> bool \<Rightarrow> ('o, 'h, unit) parse" where
  "emit_optional s last_atom_start len has_goto greedy check =
     (let z = (if check then 1 else 0) in
      ok (insert_gap s last_atom_start (5 + z)) (\<lambda>_ s. do {
        s \<leftarrow> poke s last_atom_start (reop_code (split_op greedy));
        s \<leftarrow> poke_u32 s (last_atom_start + 1) (word_of_nat (len + (if has_goto then 5 else 0) + z * 2));
        s \<leftarrow> (if check then do {
                s \<leftarrow> poke s (last_atom_start + 1 + 4) (reop_code REOP_push_char_pos);
                re_emit_op s REOP_check_advance }
              else Some s);
        (_, s) \<leftarrow> (if has_goto then re_emit_goto s REOP_goto last_atom_start else Some (0, s));
        Some (Some (), s) }))"

text \<open>\<^verbatim>\<open>quant_min == 0\<close> and another finite \<^verbatim>\<open>quant_max\<close>: a counted loop.\<close>

definition emit_counted ::
  "('o, 'h) REParseState \<Rightarrow> nat \<Rightarrow> nat \<Rightarrow> nat \<Rightarrow> bool \<Rightarrow> bool \<Rightarrow> ('o, 'h, unit) parse" where
  "emit_counted s last_atom_start len quant_max greedy check =
     (let z = (if check then 1 else 0) in
      ok (insert_gap s last_atom_start (10 + z)) (\<lambda>_ s. do {
        s \<leftarrow> poke s last_atom_start (reop_code REOP_push_i32);
        s \<leftarrow> poke_u32 s (last_atom_start + 1) (word_of_nat quant_max);
        s \<leftarrow> poke s (last_atom_start + 5) (reop_code (split_op greedy));
        s \<leftarrow> poke_u32 s (last_atom_start + 6) (word_of_nat (len + 5 + z * 2));
        s \<leftarrow> (if check then do {
                s \<leftarrow> poke s (last_atom_start + 10) (reop_code REOP_push_char_pos);
                re_emit_op s REOP_check_advance }
              else Some s);
        (_, s) \<leftarrow> re_emit_goto s REOP_loop (last_atom_start + 5);
        s \<leftarrow> re_emit_op s REOP_drop;
        Some (Some (), s) }))"

text \<open>\<^verbatim>\<open>quant_min == 0\<close>: the captures of an atom that is not executed are reset first.\<close>

definition emit_min0 ::
  "('o, 'h) REParseState \<Rightarrow> nat \<Rightarrow> nat \<Rightarrow> nat \<Rightarrow> nat \<Rightarrow> bool \<Rightarrow> bool \<Rightarrow> ('o, 'h, unit) parse" where
  "emit_min0 s last_atom_start last_capture_count len quant_max greedy check =
     ok (if last_capture_count \<noteq> ps_capture_count s then
           ok (insert_gap s last_atom_start 3) (\<lambda>_ s. do {
             s \<leftarrow> poke s last_atom_start (reop_code REOP_save_reset);
             s \<leftarrow> poke s (last_atom_start + 1) (word_of_nat last_capture_count);
             s \<leftarrow> poke s (last_atom_start + 2) (word_of_nat (ps_capture_count s - 1));
             Some (Some (last_atom_start + 3), s) })
         else Some (Some last_atom_start, s))
       (\<lambda>last_atom_start s.
         if quant_max = 0 then
           Some (Some (), s\<lparr>ps_byte_code := (ps_byte_code s)\<lparr>db_size := last_atom_start\<rparr>\<rparr>)
         else if quant_max = 1 \<or> quant_max = INT32_MAX then
           emit_optional s last_atom_start len (quant_max = INT32_MAX) greedy check
         else emit_counted s last_atom_start len quant_max greedy check)"

text \<open>A copy of the atom behind a split, with the check for an advance around it.\<close>

definition emit_atom_copy ::
  "('o, 'h) REParseState \<Rightarrow> nat \<Rightarrow> nat \<Rightarrow> bool \<Rightarrow> bool \<Rightarrow> (nat \<times> ('o, 'h) REParseState) option" where
  "emit_atom_copy s last_atom_start len greedy check = do {
     let pos = bc_size s;
     (_, s) \<leftarrow> re_emit_op_u32 s (split_op greedy) (word_of_nat (len + 5 + (if check then 1 else 0) * 2));
     s \<leftarrow> (if check then re_emit_op s REOP_push_char_pos else Some s);
     s \<leftarrow> emit (\<lambda>b. dbuf_put_self b last_atom_start len) s;
     s \<leftarrow> (if check then re_emit_op s REOP_check_advance else Some s);
     Some (pos, s) }"

text \<open>\<^verbatim>\<open>quant_min > 0\<close>: a counted loop for the required part, a copy of the atom for the rest.\<close>

definition emit_min_pos ::
  "('o, 'h) REParseState \<Rightarrow> nat \<Rightarrow> nat \<Rightarrow> nat \<Rightarrow> nat \<Rightarrow> bool \<Rightarrow> bool \<Rightarrow> ('o, 'h, unit) parse" where
  "emit_min_pos s last_atom_start len quant_min quant_max greedy check =
     (if quant_min = 1 \<and> quant_max = INT32_MAX \<and> \<not> check then do {
        (_, s) \<leftarrow> re_emit_goto s (split_op (\<not> greedy)) last_atom_start;
        Some (Some (), s) }
      else
        ok (if quant_min = 1 then Some (Some last_atom_start, s)
            else ok (insert_gap s last_atom_start 5) (\<lambda>_ s. do {
              s \<leftarrow> poke s last_atom_start (reop_code REOP_push_i32);
              s \<leftarrow> poke_u32 s (last_atom_start + 1) (word_of_nat quant_min);
              (_, s) \<leftarrow> re_emit_goto s REOP_loop (last_atom_start + 5);
              s \<leftarrow> re_emit_op s REOP_drop;
              Some (Some (last_atom_start + 5), s) }))
          (\<lambda>last_atom_start s.
            if quant_max = INT32_MAX then do {
              (pos, s) \<leftarrow> emit_atom_copy s last_atom_start len greedy check;
              (_, s) \<leftarrow> re_emit_goto s REOP_goto pos;
              Some (Some (), s) }
            else if quant_max > quant_min then do {
              (_, s) \<leftarrow> re_emit_op_u32 s REOP_push_i32 (word_of_nat (quant_max - quant_min));
              (pos, s) \<leftarrow> emit_atom_copy s last_atom_start len greedy check;
              (_, s) \<leftarrow> re_emit_goto s REOP_loop pos;
              s \<leftarrow> re_emit_op s REOP_drop;
              Some (Some (), s) }
            else Some (Some (), s)))"

text \<open>The code at \<^verbatim>\<open>quantifier\<close> behind the optional \<^verbatim>\<open>?\<close>.\<close>

definition emit_quantifier ::
  "('o, 'h) REParseState \<Rightarrow> nat \<Rightarrow> nat \<Rightarrow> nat \<Rightarrow> nat \<Rightarrow> bool \<Rightarrow> ('o, 'h, unit) parse" where
  "emit_quantifier s last_atom_start last_capture_count quant_min quant_max greedy =
     (if greedy \<and> dbuf_error (ps_byte_code s) then re_parse_out_of_memory s
      else do {
        let atom = drop last_atom_start (db_buf (ps_byte_code s));
        let len = bc_size s - last_atom_start;
        simple \<leftarrow> (if greedy \<and> quant_max > 0 then re_is_simple_quantifier atom len else Some 0);
        if simple > 0 then emit_simple_quant s last_atom_start quant_min quant_max (nat simple)
        else do {
          check \<leftarrow> (if greedy then re_need_check_advance atom len else Some False);
          if quant_min = 0 then emit_min0 s last_atom_start last_capture_count len quant_max greedy check
          else emit_min_pos s last_atom_start len quant_min quant_max greedy check } })"

text \<open>
  The quantifier behind an atom, if there is one: its bounds, or \<open>None\<close>, and the position behind
  it. Without a closing brace the brace is an ordinary character (Annex B).
\<close>

definition re_parse_braces ::
  "('o, 'h) REParseState \<Rightarrow> nat \<Rightarrow> ('o, 'h, (nat \<times> nat) option \<times> nat) parse" where
  "re_parse_braces s p1 = do {
     b \<leftarrow> rd (ps_buf s) (p1 + 1);
     if \<not> is_digit b then
       if ps_is_unicode s then re_parse_error s ''invalid repetition count''
       else Some (Some (None, p1), s)
     else do {
       (quant_min, p) \<leftarrow> parse_digits (ps_buf s) (p1 + 1) True;
       b \<leftarrow> rd (ps_buf s) p;
       (quant_max, p) \<leftarrow>
         (if b = 0x2c then do {
            b \<leftarrow> rd (ps_buf s) (p + 1);
            if is_digit b then parse_digits (ps_buf s) (p + 1) True else Some (int INT32_MAX, p + 1) }
          else Some (quant_min, p));
       if quant_max < quant_min then re_parse_error s ''invalid repetition count''
       else do {
         b \<leftarrow> rd (ps_buf s) p;
         if b \<noteq> 0x7d \<and> \<not> ps_is_unicode s then Some (Some (None, p1), s)
         else ok (re_parse_expect s p (CHR 0x7d)) (\<lambda>p s. Some (Some (Some (nat quant_min, nat quant_max), p), s)) } } }"

definition re_parse_quantifier ::
  "('o, 'h) REParseState \<Rightarrow> nat \<Rightarrow> ('o, 'h, (nat \<times> nat) option \<times> nat) parse" where
  "re_parse_quantifier s p = do {
     c \<leftarrow> rd (ps_buf s) p;
     if c = 0x2a then Some (Some (Some (0, INT32_MAX), p + 1), s)
     else if c = 0x2b then Some (Some (Some (1, INT32_MAX), p + 1), s)
     else if c = 0x3f then Some (Some (Some (0, 1), p + 1), s)
     else if c = 0x7b then re_parse_braces s p
     else Some (Some (None, p), s) }"

subsection \<open>Atoms\<close>

text \<open>An atom yields \<^verbatim>\<open>last_atom_start\<close> (\<open>None\<close> for -1), \<^verbatim>\<open>last_capture_count\<close> and the position.\<close>

type_synonym atom = "nat option \<times> nat \<times> nat"

definition emit_if :: "bool \<Rightarrow> REOPCode \<Rightarrow> ('o, 'h) REParseState \<Rightarrow> ('o, 'h) REParseState option" where
  "emit_if c op s = (if c then re_emit_op s op else Some s)"

text \<open>The code at \<^verbatim>\<open>normal_char\<close>.\<close>

definition emit_char ::
  "('o, 'h) REParseState \<Rightarrow> int \<Rightarrow> 'h CharRange option \<Rightarrow> ('o, 'h, unit) parse" where
  "emit_char s c cr =
     (if c \<ge> CLASS_RANGE_BASE then do {
        cr \<leftarrow> cr;
        (r, s) \<leftarrow> re_emit_range s cr;
        Some (r, free_atom cr s) }
      else do {
        c \<leftarrow> (if ps_ignore_case s then lre_canonicalize (word_of_int c) (ps_is_unicode s)
              else Some (word_of_int c));
        s \<leftarrow> (if c \<le> 0xffff then re_emit_op_u16 s REOP_char (unat c)
              else do { (_, s) \<leftarrow> re_emit_op_u32 s REOP_char32 c; Some s });
        Some (Some (), s) })"

definition emit_atom ::
  "('o, 'h) REParseState \<Rightarrow> int \<Rightarrow> 'h CharRange option \<Rightarrow> nat \<Rightarrow> bool \<Rightarrow> ('o, 'h, atom) parse" where
  "emit_atom s c cr p is_backward_dir = do {
     let last_atom_start = bc_size s;
     s \<leftarrow> emit_if is_backward_dir REOP_prev s;
     ok (emit_char s c cr) (\<lambda>_ s. do {
       s \<leftarrow> emit_if is_backward_dir REOP_prev s;
       Some (Some (Some last_atom_start, ps_capture_count s, p), s) }) }"

definition parse_class_atom ::
  "'h re_env \<Rightarrow> ('o, 'h) REParseState \<Rightarrow> nat \<Rightarrow> bool \<Rightarrow> ('o, 'h, atom) parse" where
  "parse_class_atom E s p is_backward_dir =
     ok (get_class_atom E s p False) (\<lambda>(c, cr, p) s. emit_atom s c cr p is_backward_dir)"

text \<open>A nested disjunction and its closing parenthesis.\<close>

definition parse_group ::
  "(('o, 'h) REParseState \<Rightarrow> bool \<Rightarrow> ('o, 'h, unit) parse) \<Rightarrow> ('o, 'h) REParseState \<Rightarrow> nat \<Rightarrow> bool \<Rightarrow>
     ('o, 'h, nat) parse" where
  "parse_group nested s p is_backward_dir =
     ok (nested (s\<lparr>ps_buf_ptr := p\<rparr>) is_backward_dir) (\<lambda>_ s. re_parse_expect s (ps_buf_ptr s) (CHR 0x29))"

definition parse_lookahead ::
  "(('o, 'h) REParseState \<Rightarrow> bool \<Rightarrow> ('o, 'h, unit) parse) \<Rightarrow> ('o, 'h) REParseState \<Rightarrow> nat \<Rightarrow> bool \<Rightarrow> bool \<Rightarrow>
     ('o, 'h, atom) parse" where
  "parse_lookahead nested s p is_neg is_backward = do {
     let last_atom_start = (if \<not> ps_is_unicode s \<and> \<not> is_backward then Some (bc_size s) else None);
     let last_capture_count = (if \<not> ps_is_unicode s \<and> \<not> is_backward then ps_capture_count s else 0);
     (pos, s) \<leftarrow> re_emit_op_u32 s (if is_neg then REOP_negative_lookahead else REOP_lookahead) 0;
     ok (parse_group nested s p is_backward) (\<lambda>p s. do {
       s \<leftarrow> re_emit_op s REOP_match;
       if dbuf_error (ps_byte_code s) then Some (None, s)
       else do {
         s \<leftarrow> poke_u32 s pos (word_of_nat (bc_size s) - word_of_nat (pos + 4));
         Some (Some (last_atom_start, last_capture_count, p), s) } }) }"

text \<open>The code at \<^verbatim>\<open>parse_capture\<close>.\<close>

definition save_op :: "bool \<Rightarrow> REOPCode" where
  "save_op at_end = (if at_end then REOP_save_end else REOP_save_start)"

definition parse_capture ::
  "(('o, 'h) REParseState \<Rightarrow> bool \<Rightarrow> ('o, 'h, unit) parse) \<Rightarrow> ('o, 'h) REParseState \<Rightarrow> nat \<Rightarrow> bool \<Rightarrow>
     ('o, 'h, atom) parse" where
  "parse_capture nested s p is_backward_dir =
     (if ps_capture_count s \<ge> CAPTURE_COUNT_MAX then re_parse_error s ''too many captures''
      else do {
        let last_atom_start = bc_size s;
        let capture_index = ps_capture_count s;
        s \<leftarrow> re_emit_op_u8 (s\<lparr>ps_capture_count := capture_index + 1\<rparr>) (save_op is_backward_dir) capture_index;
        ok (nested (s\<lparr>ps_buf_ptr := p\<rparr>) is_backward_dir) (\<lambda>_ s. do {
          s \<leftarrow> re_emit_op_u8 s (save_op (\<not> is_backward_dir)) capture_index;
          ok (re_parse_expect s (ps_buf_ptr s) (CHR 0x29)) (\<lambda>p s.
            Some (Some (Some last_atom_start, capture_index, p), s)) }) })"

definition put_group_name :: "bytes \<Rightarrow> ('o, 'h) REParseState \<Rightarrow> ('o, 'h) REParseState option" where
  "put_group_name name s = do { (_, b) \<leftarrow> dbuf_put (ps_group_names s) name; Some (s\<lparr>ps_group_names := b\<rparr>) }"

definition parse_named_capture ::
  "'h re_env \<Rightarrow> (('o, 'h) REParseState \<Rightarrow> bool \<Rightarrow> ('o, 'h, unit) parse) \<Rightarrow> ('o, 'h) REParseState \<Rightarrow> nat \<Rightarrow>
     bool \<Rightarrow> ('o, 'h, atom) parse" where
  "parse_named_capture E nested s p is_backward_dir = do {
     (r, p, u) \<leftarrow> re_parse_group_name E (ps_buf s) (ps_u s) TMP_BUF_SIZE p;
     let s = s\<lparr>ps_u := u\<rparr>;
     if \<not> r then re_parse_error s ''invalid group name''
     else do {
       name \<leftarrow> c_string u;
       i \<leftarrow> find_group_name s name;
       if i > 0 then re_parse_error s ''duplicate group name''
       else do {
         s \<leftarrow> put_group_name (name @ [0]) s;
         parse_capture nested (s\<lparr>ps_has_named_captures := 1\<rparr>) p is_backward_dir } } }"

text \<open>\<^verbatim>\<open>case '('\<close>\<close>

definition parse_paren ::
  "'h re_env \<Rightarrow> (('o, 'h) REParseState \<Rightarrow> bool \<Rightarrow> ('o, 'h, unit) parse) \<Rightarrow> ('o, 'h) REParseState \<Rightarrow> nat \<Rightarrow>
     bool \<Rightarrow> ('o, 'h, atom) parse" where
  "parse_paren E nested s p is_backward_dir = do {
     b1 \<leftarrow> rd (ps_buf s) (p + 1);
     if b1 \<noteq> 0x3f then do {
       s \<leftarrow> put_group_name [0] s;
       parse_capture nested s (p + 1) is_backward_dir }
     else do {
       b2 \<leftarrow> rd (ps_buf s) (p + 2);
       if b2 = 0x3a then
         let last_atom_start = bc_size s; last_capture_count = ps_capture_count s
         in ok (parse_group nested s (p + 3) is_backward_dir) (\<lambda>p s.
              Some (Some (Some last_atom_start, last_capture_count, p), s))
       else if b2 = 0x3d \<or> b2 = 0x21 then parse_lookahead nested s (p + 3) (b2 = 0x21) False
       else if b2 = 0x3c then do {
         b3 \<leftarrow> rd (ps_buf s) (p + 3);
         if b3 = 0x3d \<or> b3 = 0x21 then parse_lookahead nested s (p + 4) (b3 = 0x21) True
         else parse_named_capture E nested s (p + 3) is_backward_dir }
       else re_parse_error s ''invalid group'' } }"

subsection \<open>Back references\<close>

text \<open>The code at \<^verbatim>\<open>emit_back_reference\<close>.\<close>

definition emit_back_reference ::
  "('o, 'h) REParseState \<Rightarrow> nat \<Rightarrow> nat \<Rightarrow> bool \<Rightarrow> ('o, 'h, atom) parse" where
  "emit_back_reference s c p is_backward_dir = do {
     let last_atom_start = bc_size s;
     s \<leftarrow> re_emit_op_u8 s (if is_backward_dir then REOP_backward_back_reference else REOP_back_reference) c;
     Some (Some (Some last_atom_start, ps_capture_count s, p), s) }"

text \<open>An error in Unicode mode or when there are named groups, otherwise an ordinary escape (Annex B).\<close>

definition error_or_atom ::
  "'h re_env \<Rightarrow> ('o, 'h) REParseState \<Rightarrow> string \<Rightarrow> nat \<Rightarrow> bool \<Rightarrow> ('o, 'h, atom) parse" where
  "error_or_atom E s m p is_backward_dir = do {
     (named, s) \<leftarrow> (if ps_is_unicode s then Some (True, s) else re_has_named_captures E s);
     if named then re_parse_error s m else parse_class_atom E s p is_backward_dir }"

definition parse_named_reference ::
  "'h re_env \<Rightarrow> ('o, 'h) REParseState \<Rightarrow> nat \<Rightarrow> bool \<Rightarrow> ('o, 'h, atom) parse" where
  "parse_named_reference E s p is_backward_dir = do {
     b2 \<leftarrow> rd (ps_buf s) (p + 2);
     if b2 \<noteq> 0x3c then error_or_atom E s ''expecting group name'' p is_backward_dir
     else do {
       (r, p1, u) \<leftarrow> re_parse_group_name E (ps_buf s) (ps_u s) TMP_BUF_SIZE (p + 3);
       let s = s\<lparr>ps_u := u\<rparr>;
       if \<not> r then error_or_atom E s ''invalid group name'' p is_backward_dir
       else do {
         name \<leftarrow> c_string u;
         c \<leftarrow> find_group_name s name;
         c \<leftarrow> (if c < 0 then do { (c, _) \<leftarrow> re_parse_captures E s (Some name); Some c } else Some c);
         if c < 0 then error_or_atom E s ''group name not defined'' p is_backward_dir
         else emit_back_reference s (nat c) p1 is_backward_dir } } }"

definition is_octal :: "byte \<Rightarrow> bool" where
  "is_octal b \<longleftrightarrow> 0x30 \<le> b \<and> b \<le> 0x37"

text \<open>At most \<open>n\<close> further octal digits.\<close>

fun octal_digits :: "nat \<Rightarrow> bytes \<Rightarrow> nat \<Rightarrow> nat \<Rightarrow> (nat \<times> nat) option" where
  "octal_digits 0 buf p c = Some (c, p)"
| "octal_digits (Suc n) buf p c = do {
     b \<leftarrow> rd buf p;
     if is_octal b then octal_digits n buf (p + 1) (c * 8 + (unat b - 0x30)) else Some (c, p) }"

text \<open>\<^verbatim>\<open>case '0'\<close>\<close>

definition parse_null_escape :: "('o, 'h) REParseState \<Rightarrow> nat \<Rightarrow> bool \<Rightarrow> ('o, 'h, atom) parse" where
  "parse_null_escape s p is_backward_dir = do {
     b \<leftarrow> rd (ps_buf s) (p + 2);
     if ps_is_unicode s then
       if is_digit b then re_parse_error s ''invalid decimal escape in regular expression''
       else emit_atom s 0 None (p + 2) is_backward_dir
     else do {
       (c, p) \<leftarrow> octal_digits 2 (ps_buf s) (p + 2) 0;
       emit_atom s (int c) None p is_backward_dir } }"

text \<open>A decimal escape that is no reference, as a legacy octal escape (Annex B.1.4).\<close>

definition legacy_decimal :: "bytes \<Rightarrow> nat \<Rightarrow> (nat \<times> nat) option" where
  "legacy_decimal buf q = do {
     b \<leftarrow> rd buf q;
     if b \<le> 0x37 then
       if b \<le> 0x33 then octal_digits 2 buf (q + 1) (unat b - 0x30) else octal_digits 2 buf q 0
     else Some (unat b, q + 1) }"

definition parse_decimal_escape ::
  "'h re_env \<Rightarrow> ('o, 'h) REParseState \<Rightarrow> nat \<Rightarrow> bool \<Rightarrow> ('o, 'h, atom) parse" where
  "parse_decimal_escape E s p is_backward_dir = do {
     (c, p1) \<leftarrow> parse_digits (ps_buf s) (p + 1) False;
     (bad, s) \<leftarrow>
       (if c < 0 then Some (True, s)
        else if c < int (ps_capture_count s) then Some (False, s)
        else do { (n, s) \<leftarrow> re_count_captures E s; Some (c \<ge> n, s) });
     if \<not> bad then emit_back_reference s (nat c) p1 is_backward_dir
     else if ps_is_unicode s then
       re_parse_error s ''back reference out of range in regular expression''
     else do {
       (c, p) \<leftarrow> legacy_decimal (ps_buf s) (p + 1);
       emit_atom s (int c) None p is_backward_dir } }"

text \<open>\<^verbatim>\<open>case '\\'\<close>\<close>

definition parse_escape_term ::
  "'h re_env \<Rightarrow> ('o, 'h) REParseState \<Rightarrow> nat \<Rightarrow> bool \<Rightarrow> ('o, 'h, atom) parse" where
  "parse_escape_term E s p is_backward_dir = do {
     b \<leftarrow> rd (ps_buf s) (p + 1);
     if b = 0x62 \<or> b = 0x42 then do {
       s \<leftarrow> re_emit_op s (if b = 0x62 then REOP_word_boundary else REOP_not_word_boundary);
       Some (Some (None, 0, p + 2), s) }
     else if b = 0x6b then parse_named_reference E s p is_backward_dir
     else if b = 0x30 then parse_null_escape s p is_backward_dir
     else if 0x31 \<le> b \<and> b \<le> 0x39 then parse_decimal_escape E s p is_backward_dir
     else parse_class_atom E s p is_backward_dir }"

subsection \<open>Terms\<close>

text \<open>
  \<^verbatim>\<open>case '{'\<close> outside Unicode mode: whether the brace looks like a repetition count, which is an
  error at the start of a term.
\<close>

definition looks_like_count :: "bytes \<Rightarrow> nat \<Rightarrow> bool option" where
  "looks_like_count buf p = do {
     b \<leftarrow> rd buf (p + 1);
     if \<not> is_digit b then Some False
     else do {
       (_, p1) \<leftarrow> parse_digits buf (p + 1) True;
       b \<leftarrow> rd buf p1;
       p1 \<leftarrow> (if b = 0x2c then do {
                b \<leftarrow> rd buf (p1 + 1);
                if is_digit b then do { (_, p1) \<leftarrow> parse_digits buf (p1 + 1) True; Some p1 } else Some (p1 + 1) }
              else Some p1);
       b \<leftarrow> rd buf p1;
       Some (b = 0x7d) } }"

definition parse_dot :: "('o, 'h) REParseState \<Rightarrow> nat \<Rightarrow> bool \<Rightarrow> ('o, 'h, atom) parse" where
  "parse_dot s p is_backward_dir = do {
     let last_atom_start = bc_size s;
     s \<leftarrow> emit_if is_backward_dir REOP_prev s;
     s \<leftarrow> re_emit_op s (if ps_dotall s then REOP_any else REOP_dot);
     s \<leftarrow> emit_if is_backward_dir REOP_prev s;
     Some (Some (Some last_atom_start, ps_capture_count s, p + 1), s) }"

definition parse_class_term ::
  "'h re_env \<Rightarrow> ('o, 'h) REParseState \<Rightarrow> nat \<Rightarrow> bool \<Rightarrow> ('o, 'h, atom) parse" where
  "parse_class_term E s p is_backward_dir = do {
     let last_atom_start = bc_size s;
     s \<leftarrow> emit_if is_backward_dir REOP_prev s;
     ok (re_parse_char_class E s p) (\<lambda>p s. do {
       s \<leftarrow> emit_if is_backward_dir REOP_prev s;
       Some (Some (Some last_atom_start, ps_capture_count s, p), s) }) }"

definition re_parse_atom ::
  "'h re_env \<Rightarrow> (('o, 'h) REParseState \<Rightarrow> bool \<Rightarrow> ('o, 'h, unit) parse) \<Rightarrow> ('o, 'h) REParseState \<Rightarrow>
     bool \<Rightarrow> ('o, 'h, atom) parse" where
  "re_parse_atom E nested s is_backward_dir = do {
     let p = ps_buf_ptr s;
     c \<leftarrow> rd (ps_buf s) p;
     if c = 0x5e then do { s \<leftarrow> re_emit_op s REOP_line_start; Some (Some (None, 0, p + 1), s) }
     else if c = 0x24 then do { s \<leftarrow> re_emit_op s REOP_line_end; Some (Some (None, 0, p + 1), s) }
     else if c = 0x2e then parse_dot s p is_backward_dir
     else if c = 0x7b then
       if ps_is_unicode s then re_parse_error s ''syntax error''
       else do {
         bad \<leftarrow> looks_like_count (ps_buf s) p;
         if bad then re_parse_error s ''nothing to repeat'' else parse_class_atom E s p is_backward_dir }
     else if c = 0x2a \<or> c = 0x2b \<or> c = 0x3f then re_parse_error s ''nothing to repeat''
     else if c = 0x28 then parse_paren E nested s p is_backward_dir
     else if c = 0x5c then parse_escape_term E s p is_backward_dir
     else if c = 0x5b then parse_class_term E s p is_backward_dir
     else if (c = 0x5d \<or> c = 0x7d) \<and> ps_is_unicode s then re_parse_error s ''syntax error''
     else parse_class_atom E s p is_backward_dir }"

definition re_parse_term ::
  "'h re_env \<Rightarrow> (('o, 'h) REParseState \<Rightarrow> bool \<Rightarrow> ('o, 'h, unit) parse) \<Rightarrow> ('o, 'h) REParseState \<Rightarrow>
     bool \<Rightarrow> ('o, 'h, unit) parse" where
  "re_parse_term E nested s is_backward_dir =
     ok (re_parse_atom E nested s is_backward_dir) (\<lambda>(start, last_capture_count, p) s.
       (case start of
          None \<Rightarrow> Some (Some (), s\<lparr>ps_buf_ptr := p\<rparr>)
        | Some last_atom_start \<Rightarrow>
            ok (re_parse_quantifier s p) (\<lambda>(q, p) s.
              (case q of
                 None \<Rightarrow> Some (Some (), s\<lparr>ps_buf_ptr := p\<rparr>)
               | Some (quant_min, quant_max) \<Rightarrow> do {
                   b \<leftarrow> rd (ps_buf s) p;
                   let greedy = (b \<noteq> 0x3f);
                   ok (emit_quantifier s last_atom_start last_capture_count quant_min quant_max greedy) (\<lambda>_ s.
                     Some (Some (), s\<lparr>ps_buf_ptr := (if greedy then p else p + 1)\<rparr>)) }))))"

subsection \<open>Alternatives and disjunctions\<close>

text \<open>In a backward direction the code of the new term is moved before that of the others.\<close>

definition move_term_first ::
  "('o, 'h) REParseState \<Rightarrow> nat \<Rightarrow> nat \<Rightarrow> ('o, 'h, unit) parse" where
  "move_term_first s start term_start = do {
     let e = bc_size s;
     if e < term_start \<or> e < start then None
     else do {
       let term_size = e - term_start;
       let (r, b) = dbuf_realloc (ps_byte_code s) (size_t_wrap (e + term_size));
       if r \<noteq> 0 then Some (None, s\<lparr>ps_byte_code := b\<rparr>)
       else do {
         m \<leftarrow> memmove_in (db_buf b) (start + term_size) start (e - start);
         m \<leftarrow> memcpy_in m start e term_size;
         Some (Some (), s\<lparr>ps_byte_code := b\<lparr>db_buf := m\<rparr>\<rparr>) } } }"

fun alternative_loop ::
  "nat \<Rightarrow> 'h re_env \<Rightarrow> (('o, 'h) REParseState \<Rightarrow> bool \<Rightarrow> ('o, 'h, unit) parse) \<Rightarrow> ('o, 'h) REParseState \<Rightarrow>
     bool \<Rightarrow> nat \<Rightarrow> ('o, 'h, unit) parse" where
  "alternative_loop 0 E nested s is_backward_dir start = None"
| "alternative_loop (Suc n) E nested s is_backward_dir start =
     (if ps_buf_ptr s \<ge> ps_buf_end s then Some (Some (), s)
      else do {
        b \<leftarrow> rd (ps_buf s) (ps_buf_ptr s);
        if b = 0x7c \<or> b = 0x29 then Some (Some (), s)
        else
          let term_start = bc_size s
          in ok (re_parse_term E nested s is_backward_dir) (\<lambda>_ s.
               ok (if is_backward_dir then move_term_first s start term_start else Some (Some (), s)) (\<lambda>_ s.
                 alternative_loop n E nested s is_backward_dir start)) })"

definition re_parse_alternative ::
  "'h re_env \<Rightarrow> (('o, 'h) REParseState \<Rightarrow> bool \<Rightarrow> ('o, 'h, unit) parse) \<Rightarrow> ('o, 'h) REParseState \<Rightarrow>
     bool \<Rightarrow> ('o, 'h, unit) parse" where
  "re_parse_alternative E nested s is_backward_dir =
     alternative_loop (length (ps_buf s) + 1) E nested s is_backward_dir (bc_size s)"

fun disjunction_loop ::
  "nat \<Rightarrow> 'h re_env \<Rightarrow> (('o, 'h) REParseState \<Rightarrow> bool \<Rightarrow> ('o, 'h, unit) parse) \<Rightarrow> ('o, 'h) REParseState \<Rightarrow>
     bool \<Rightarrow> nat \<Rightarrow> ('o, 'h, unit) parse" where
  "disjunction_loop 0 E nested s is_backward_dir start = None"
| "disjunction_loop (Suc n) E nested s is_backward_dir start = do {
     b \<leftarrow> rd (ps_buf s) (ps_buf_ptr s);
     if b \<noteq> 0x7c then Some (Some (), s)
     else
       let s = s\<lparr>ps_buf_ptr := ps_buf_ptr s + 1\<rparr>; len = bc_size s - start
       in ok (insert_gap s start 5) (\<lambda>_ s. do {
            s \<leftarrow> poke s start (reop_code REOP_split_next_first);
            s \<leftarrow> poke_u32 s (start + 1) (word_of_nat (len + 5));
            (pos, s) \<leftarrow> re_emit_op_u32 s REOP_goto 0;
            ok (re_parse_alternative E nested s is_backward_dir) (\<lambda>_ s. do {
              s \<leftarrow> poke_u32 s pos (word_of_nat (bc_size s) - word_of_nat (pos + 4));
              disjunction_loop n E nested s is_backward_dir start }) }) }"

fun re_parse_disjunction ::
  "nat \<Rightarrow> 'h re_env \<Rightarrow> ('o, 'h) REParseState \<Rightarrow> bool \<Rightarrow> ('o, 'h, unit) parse" where
  "re_parse_disjunction 0 E s is_backward_dir = re_parse_error s ''stack overflow''"
| "re_parse_disjunction (Suc n) E s is_backward_dir =
     ok (re_parse_alternative E (re_parse_disjunction n E) s is_backward_dir) (\<lambda>_ s'.
       disjunction_loop (length (ps_buf s) + 1) E (re_parse_disjunction n E) s' is_backward_dir (bc_size s))"

subsection \<open>\<^verbatim>\<open>lre_compile\<close>\<close>

text \<open>
  \<open>re_flags\<close> is the low byte of the C argument, the part that is used. The buffer of the pattern
  holds \<open>buf_len\<close> bytes and the NUL. The result is the byte code (\<open>None\<close> for \<^verbatim>\<open>NULL\<close>), the
  caller's message buffer and the final state.
\<close>

definition compile_init ::
  "'o realloc_fn \<Rightarrow> 'o \<Rightarrow> 'h \<Rightarrow> bytes \<Rightarrow> nat \<Rightarrow> u8 \<Rightarrow> ('o, 'h) REParseState" where
  "compile_init lre_realloc opq h buf buf_len re_flags =
     \<lparr>ps_byte_code = dbuf_init2 opq lre_realloc, ps_buf = buf, ps_buf_ptr = 0, ps_buf_end = buf_len,
      ps_is_unicode = (re_flags AND LRE_FLAG_UNICODE \<noteq> 0),
      ps_ignore_case = (re_flags AND LRE_FLAG_IGNORECASE \<noteq> 0),
      ps_dotall = (re_flags AND LRE_FLAG_DOTALL \<noteq> 0),
      ps_capture_count = 1, ps_total_capture_count = - 1, ps_has_named_captures = - 1,
      ps_group_names = dbuf_init2 opq lre_realloc, ps_u = replicate TMP_BUF_SIZE 0, ps_heap = h\<rparr>"

definition emit_prologue :: "('o, 'h) REParseState \<Rightarrow> u8 \<Rightarrow> ('o, 'h) REParseState option" where
  "emit_prologue s re_flags = do {
     s \<leftarrow> emit (\<lambda>b. dbuf_putc b re_flags) s;
     s \<leftarrow> emit (\<lambda>b. dbuf_putc b 0) s;
     s \<leftarrow> emit (\<lambda>b. dbuf_putc b 0) s;
     s \<leftarrow> emit (\<lambda>b. dbuf_put_u32 b 0) s;
     s \<leftarrow> (if re_flags AND LRE_FLAG_STICKY = 0 then do {
             (_, s) \<leftarrow> re_emit_op_u32 s REOP_split_goto_first (1 + 5);
             s \<leftarrow> re_emit_op s REOP_any;
             (_, s) \<leftarrow> re_emit_op_u32 s REOP_goto (- (5 + 1 + 5));
             Some s }
           else Some s);
     re_emit_op_u8 s REOP_save_start 0 }"

text \<open>The code behind the pattern: the final checks, the header and the group names.\<close>

definition emit_header :: "('o, 'h) REParseState \<Rightarrow> int \<Rightarrow> ('o, 'h) REParseState option" where
  "emit_header s stack_size = do {
     s \<leftarrow> poke s RE_HEADER_CAPTURE_COUNT (word_of_nat (ps_capture_count s));
     s \<leftarrow> poke s RE_HEADER_STACK_SIZE (word_of_int stack_size);
     s \<leftarrow> poke_u32 s RE_HEADER_BYTECODE_LEN (word_of_nat (bc_size s - RE_HEADER_LEN));
     if int (db_size (ps_group_names s)) > int (ps_capture_count s) - 1 then do {
       names \<leftarrow> slice (db_buf (ps_group_names s)) 0 (db_size (ps_group_names s));
       s \<leftarrow> emit (\<lambda>b. dbuf_put b names) s;
       flags \<leftarrow> rd (db_buf (ps_byte_code s)) RE_HEADER_FLAGS;
       poke s RE_HEADER_FLAGS (flags OR LRE_FLAG_NAMED_GROUPS) }
     else Some s }"

definition compile_finish :: "('o, 'h) REParseState \<Rightarrow> ('o, 'h, unit) parse" where
  "compile_finish s = do {
     s \<leftarrow> re_emit_op_u8 s REOP_save_end 0;
     s \<leftarrow> re_emit_op s REOP_match;
     b \<leftarrow> rd (ps_buf s) (ps_buf_ptr s);
     if b \<noteq> 0 then re_parse_error s ''extraneous characters at the end''
     else if dbuf_error (ps_byte_code s) then re_parse_out_of_memory s
     else do {
       stack_size \<leftarrow> compute_stack_size (db_buf (ps_byte_code s)) (bc_size s);
       if stack_size < 0 then re_parse_error s ''too many imbricated quantifiers''
       else do {
         s \<leftarrow> emit_header s stack_size;
         Some (Some (), s\<lparr>ps_group_names := dbuf_free (ps_group_names s)\<rparr>) } } }"

definition lre_compile ::
  "nat \<Rightarrow> 'h re_env \<Rightarrow> 'o realloc_fn \<Rightarrow> 'o \<Rightarrow> 'h \<Rightarrow> bytes \<Rightarrow> nat \<Rightarrow> bytes \<Rightarrow> nat \<Rightarrow> u8 \<Rightarrow>
     (bytes option \<times> bytes \<times> ('o, 'h) REParseState) option" where
  "lre_compile depth E lre_realloc opq h error_msg error_msg_size buf buf_len re_flags = do {
     s \<leftarrow> emit_prologue (compile_init lre_realloc opq h buf buf_len re_flags) re_flags;
     (r, s) \<leftarrow> ok (re_parse_disjunction depth E s False) (\<lambda>_ s. compile_finish s);
     (case r of
        None \<Rightarrow> do {
          error_msg \<leftarrow> pstrcpy error_msg 0 (int error_msg_size) (ps_u s);
          Some (None, error_msg, s\<lparr>ps_byte_code := dbuf_free (ps_byte_code s),
                                   ps_group_names := dbuf_free (ps_group_names s)\<rparr>) }
      | Some _ \<Rightarrow> do {
          code \<leftarrow> slice (db_buf (ps_byte_code s)) 0 (bc_size s);
          error_msg \<leftarrow> wr error_msg 0 0;
          Some (Some code, error_msg, s) }) }"

end
