(* ===== verification/RegexpEmit.thy ===== *)
theory RegexpEmit
  imports RegexpCompile
begin

section \<open>What the emitters append\<close>

text \<open>
  The contract of the functions that emit byte code: they are defined, change nothing but the
  code buffer and keep its invariant, and append their bytes unless the buffer is in error
  afterwards, which a never failing allocator excludes.
\<close>

definition realloc_total :: "'o realloc_fn \<Rightarrow> bool" where
  "realloc_total f \<longleftrightarrow> (\<forall>op b n. 0 < n \<longrightarrow> snd (f op b n) \<noteq> None)"

definition bc_ok :: "nat \<Rightarrow> ('o, 'h) REParseState \<Rightarrow> bool" where
  "bc_ok n s \<longleftrightarrow> dbuf_inv (ps_byte_code s) \<and> bc_size s + n < 2 ^ 64"

definition bc_bytes :: "('o, 'h) REParseState \<Rightarrow> bytes" where
  "bc_bytes s = dbuf_contents (ps_byte_code s)"

definition bc_error :: "('o, 'h) REParseState \<Rightarrow> bool" where
  "bc_error s = db_error (ps_byte_code s)"

definition bc_alloc :: "('o, 'h) REParseState \<Rightarrow> 'o realloc_fn" where
  "bc_alloc s = db_realloc (ps_byte_code s)"

definition emits ::
  "bytes \<Rightarrow> ('o, 'h) REParseState \<Rightarrow> ('o, 'h) REParseState option \<Rightarrow> bool" where
  "emits d s r \<longleftrightarrow>
     (\<exists>b. r = Some (s\<lparr>ps_byte_code := b\<rparr>) \<and> dbuf_inv b \<and> db_size b \<le> bc_size s + length d \<and>
        db_realloc b = bc_alloc s \<and>
        (\<not> db_error b \<longrightarrow> \<not> bc_error s \<and> dbuf_contents b = bc_bytes s @ d) \<and>
        (db_error b \<longrightarrow> bc_error s \<or> \<not> realloc_total (bc_alloc s)))"

lemma length_bc_bytes: "bc_ok n s \<Longrightarrow> length (bc_bytes s) = bc_size s"
  by (simp add: bc_ok_def bc_bytes_def bc_size_def length_dbuf_contents)

definition dbuf_frame :: "'o DynBuf \<Rightarrow> 'o DynBuf \<Rightarrow> bool" where
  "dbuf_frame b b' \<longleftrightarrow> db_realloc b' = db_realloc b \<and>
     (db_error b' \<longrightarrow> db_error b \<or> \<not> realloc_total (db_realloc b)) \<and> (db_error b \<longrightarrow> db_error b')"

lemma dbuf_realloc_frame: "dbuf_realloc b n = (r, b') \<Longrightarrow> dbuf_frame b b'"
proof -
  assume eq: "dbuf_realloc b n = (r, b')"
  have no: "realloc_total (db_realloc b) \<Longrightarrow> k < m \<Longrightarrow> db_realloc b (db_opaque b) (db_buf b) m = (x, None) \<Longrightarrow> False"
    for k m x by (metis realloc_total_def snd_conv gr_implies_not_zero gr0I)
  show "dbuf_frame b b'"
    using eq by (auto simp: dbuf_frame_def dbuf_realloc_def Let_def dest: no split: if_splits option.splits prod.splits)
qed

lemma dbuf_put_frame: "dbuf_put b d = Some (r, b') \<Longrightarrow> dbuf_frame b b'"
proof -
  assume p: "dbuf_put b d = Some (r, b')"
  obtain r1 b1 where g: "dbuf_grow b (length d) = (r1, b1)" by fastforce
  have "dbuf_frame b b1"
    using g dbuf_realloc_frame by (auto simp: dbuf_grow_def dbuf_frame_def split: if_splits)
  with p g show ?thesis by (auto simp: dbuf_put_def dbuf_frame_def split: if_splits bind_splits)
qed

lemma emit_put:
  assumes "bc_ok (length d) s"
  shows "emits d s (emit (\<lambda>b. dbuf_put b d) s)"
proof -
  have "dbuf_result (ps_byte_code s) (bc_bytes s @ d) (dbuf_put (ps_byte_code s) d)"
    unfolding bc_bytes_def using assms by (intro dbuf_put_result) (auto simp: bc_ok_def bc_size_def)
  then obtain r b where p: "dbuf_put (ps_byte_code s) d = Some (r, b)" and inv: "dbuf_inv b"
    and c: "dbuf_contents b = bc_bytes s @ d \<or> dbuf_contents b = bc_bytes s \<and> db_error b"
    by (auto simp: dbuf_result_def bc_bytes_def)
  have "length (dbuf_contents b) \<le> bc_size s + length d" using c length_bc_bytes [OF assms] by auto
  then have "db_size b \<le> bc_size s + length d" using length_dbuf_contents [OF inv] by simp
  with p inv c dbuf_put_frame [OF p] show ?thesis
    by (auto simp: emits_def emit_def bc_error_def bc_alloc_def dbuf_frame_def)
qed

lemma emits_bind:
  assumes f: "emits d s r"
    and g: "\<And>s'. bc_ok n s' \<Longrightarrow> s' = s\<lparr>ps_byte_code := ps_byte_code s'\<rparr> \<Longrightarrow> emits e s' (g s')"
    and n: "length e \<le> n" and ok: "bc_ok (length d + n) s"
  shows "emits (d @ e) s (Option.bind r g)"
proof -
  from f obtain b where b: "r = Some (s\<lparr>ps_byte_code := b\<rparr>)" "dbuf_inv b" "db_size b \<le> bc_size s + length d"
    "db_realloc b = bc_alloc s" "\<not> db_error b \<longrightarrow> \<not> bc_error s \<and> dbuf_contents b = bc_bytes s @ d"
    "db_error b \<longrightarrow> bc_error s \<or> \<not> realloc_total (bc_alloc s)"
    unfolding emits_def by blast
  have "emits e (s\<lparr>ps_byte_code := b\<rparr>) (g (s\<lparr>ps_byte_code := b\<rparr>))"
    using b ok by (intro g) (auto simp: bc_ok_def bc_size_def)
  with b show ?thesis
    by (fastforce simp: emits_def bc_alloc_def bc_error_def bc_bytes_def bc_size_def)
qed

lemma emits_mono_ok: "bc_ok n s \<Longrightarrow> m \<le> n \<Longrightarrow> bc_ok m s"
  by (simp add: bc_ok_def)

subsection \<open>The emitters\<close>

definition le32 :: "u32 \<Rightarrow> bytes" where "le32 v = le_bytes 4 (unat v)"
definition le16 :: "u16 \<Rightarrow> bytes" where "le16 v = le_bytes 2 (unat v)"

lemma length_le32 [simp]: "length (le32 v) = 4" by (simp add: le32_def)
lemma length_le16 [simp]: "length (le16 v) = 2" by (simp add: le16_def)

lemma re_emit_op_emits: "bc_ok 1 s \<Longrightarrow> emits [reop_code op] s (re_emit_op s op)"
  using emit_put [of "[reop_code op]" s] by (simp add: re_emit_op_def dbuf_putc_def)

lemma emit_u32_emits: "bc_ok 4 s \<Longrightarrow> emits (le32 v) s (emit (\<lambda>b. dbuf_put_u32 b v) s)"
  using emit_put [of "le32 v" s] by (simp add: dbuf_put_u32_def le32_def)

lemma emit_u16_emits: "bc_ok 2 s \<Longrightarrow> emits (le16 v) s (emit (\<lambda>b. dbuf_put_u16 b v) s)"
  using emit_put [of "le16 v" s] by (simp add: dbuf_put_u16_def le16_def)

lemma emit_putc_emits: "bc_ok 1 s \<Longrightarrow> emits [v] s (emit (\<lambda>b. dbuf_putc b v) s)"
  using emit_put [of "[v]" s] by (simp add: dbuf_putc_def)

lemma re_emit_op_u8_emits:
  assumes "bc_ok 2 s"
  shows "emits [reop_code op, word_of_nat v] s (re_emit_op_u8 s op v)"
proof -
  have "emits ([reop_code op] @ [word_of_nat v]) s
      (Option.bind (re_emit_op s op) (\<lambda>s. emit (\<lambda>b. dbuf_putc b (word_of_nat v)) s))"
    using assms by (intro emits_bind [where n = 1] re_emit_op_emits emit_putc_emits)
      (auto intro: emits_mono_ok)
  then show ?thesis by (simp add: re_emit_op_u8_def)
qed

lemma re_emit_op_u16_emits:
  assumes "bc_ok 3 s"
  shows "emits (reop_code op # le16 (word_of_nat v)) s (re_emit_op_u16 s op v)"
proof -
  have "emits ([reop_code op] @ le16 (word_of_nat v)) s
      (Option.bind (re_emit_op s op) (\<lambda>s. emit (\<lambda>b. dbuf_put_u16 b (word_of_nat v)) s))"
    using assms by (intro emits_bind [where n = 2] re_emit_op_emits emit_u16_emits)
      (auto intro: emits_mono_ok)
  then show ?thesis by (simp add: re_emit_op_u16_def)
qed

lemma re_emit_op_u32_emits:
  assumes "bc_ok 5 s"
  shows "emits (reop_code op # le32 v) s (map_option snd (re_emit_op_u32 s op v))"
proof -
  have "emits ([reop_code op] @ le32 v) s
      (Option.bind (re_emit_op s op) (\<lambda>s. emit (\<lambda>b. dbuf_put_u32 b v) s))"
    using assms by (intro emits_bind [where n = 4] re_emit_op_emits emit_u32_emits)
      (auto intro: emits_mono_ok)
  moreover have "map_option snd (re_emit_op_u32 s op v) =
      Option.bind (re_emit_op s op) (\<lambda>s. emit (\<lambda>b. dbuf_put_u32 b v) s)"
    by (cases "re_emit_op s op") (auto simp: re_emit_op_u32_def Let_def split: bind_splits)
  ultimately show ?thesis by simp
qed

subsection \<open>Code at a position\<close>

text \<open>\<open>code_at bc pc d\<close>: the bytes \<open>d\<close> are found at \<open>pc\<close>.\<close>

definition code_at :: "bytes \<Rightarrow> nat \<Rightarrow> bytes \<Rightarrow> bool" where
  "code_at bc pc d \<longleftrightarrow> slice bc pc (length d) = Some d"

lemma code_at_iff: "code_at bc pc d \<longleftrightarrow> pc + length d \<le> length bc \<and> take (length d) (drop pc bc) = d"
  by (auto simp: code_at_def slice_def)

lemma code_at_append:
  "code_at bc pc (d @ e) \<longleftrightarrow> code_at bc pc d \<and> code_at bc (pc + length d) e"
proof
  assume "code_at bc pc (d @ e)"
  then have l: "pc + length d + length e \<le> length bc" and "take (length d + length e) (drop pc bc) = d @ e"
    by (simp_all add: code_at_iff)
  then have t: "take (length d) (drop pc bc) @ take (length e) (drop (pc + length d) bc) = d @ e"
    by (simp add: take_add add.commute)
  have "length (take (length d) (drop pc bc)) = length d" using l by simp
  with t have "take (length d) (drop pc bc) = d \<and> take (length e) (drop (pc + length d) bc) = e"
    by (metis append_eq_append_conv)
  with l show "code_at bc pc d \<and> code_at bc (pc + length d) e" by (simp add: code_at_iff)
qed (auto simp: code_at_iff take_add add.commute)

lemma code_at_Cons: "code_at bc pc (b # d) \<longleftrightarrow> rd bc pc = Some b \<and> code_at bc (pc + 1) d"
proof -
  have "code_at bc pc [b] \<longleftrightarrow> rd bc pc = Some b"
    by (auto simp: code_at_iff rd_eq_Some_iff take_Suc_conv_app_nth)
  then show ?thesis using code_at_append [of bc pc "[b]" d] by simp
qed

lemma code_at_Nil [simp]: "code_at bc pc [] \<longleftrightarrow> pc \<le> length bc"
  by (auto simp: code_at_iff)

lemma code_at_concat:
  assumes "code_at bc pc (concat (map f xs))" and "\<And>x. x \<in> set xs \<Longrightarrow> length (f x) = k" and "i < length xs"
  shows "code_at bc (pc + i * k) (f (xs ! i))"
  using assms
proof (induction xs arbitrary: pc i)
  case (Cons x xs)
  have "code_at bc (pc + k) (concat (map f xs))" using Cons.prems(1,2) by (simp add: code_at_append)
  note IH = Cons.IH [OF this]
  show ?case
  proof (cases i)
    case (Suc j)
    with IH [of j] Cons.prems show ?thesis by (simp add: add.assoc)
  qed (use Cons.prems in \<open>simp add: code_at_append\<close>)
qed simp

lemma get_u32_at: "code_at bc pc (le32 v) \<Longrightarrow> get_u32 bc pc = Some v"
  using word_of_nat_le_val [of 4 v] by (simp add: code_at_def get_u32_def le32_def)

lemma get_u16_at: "code_at bc pc (le16 v) \<Longrightarrow> get_u16 bc pc = Some (ucast v)"
proof -
  have "le_val (le_bytes 2 (unat v)) = unat v"
    using unsigned_less [where w = v and ?'a = nat] by (intro le_val_le_bytes_id) simp
  then show "code_at bc pc (le16 v) \<Longrightarrow> get_u16 bc pc = Some (ucast v)"
    by (simp add: code_at_def get_u16_def le16_def)
qed

lemma code_at_prefix: "bc = d @ e @ f \<Longrightarrow> pc = length d \<Longrightarrow> code_at bc pc e"
  by (simp add: code_at_iff)

lemma code_at_take: "code_at (take n bc) pc d \<Longrightarrow> code_at bc pc d"
  by (auto simp: code_at_iff drop_take min_def split: if_splits)

lemmas code_at_simps = code_at_append code_at_Cons


subsection \<open>A parser state for witnesses\<close>

text \<open>The allocator never fails; the code buffer is empty.\<close>

definition grant_realloc :: "unit realloc_fn" where
  "grant_realloc opq b n = ((), Some (take n b @ replicate (n - length b) 0))"

lemma grant_realloc_ok: "realloc_ok grant_realloc" "realloc_total grant_realloc"
  by (auto simp: realloc_ok_def realloc_total_def grant_realloc_def)

definition sample_parse_state :: "bytes \<Rightarrow> (unit, unit) REParseState" where
  "sample_parse_state buf =
     \<lparr>ps_byte_code = dbuf_init2 () grant_realloc, ps_buf = buf @ [0], ps_buf_ptr = 0, ps_buf_end = length buf,
      ps_is_unicode = False, ps_ignore_case = False, ps_dotall = False, ps_capture_count = 1,
      ps_total_capture_count = - 1, ps_has_named_captures = - 1, ps_group_names = dbuf_init2 () grant_realloc,
      ps_u = replicate 128 0, ps_heap = ()\<rparr>"

lemma sample_parse_state_ok:
  "n < 2 ^ 64 \<Longrightarrow> bc_ok n (sample_parse_state buf)"
  "\<not> bc_error (sample_parse_state buf)" "realloc_total (bc_alloc (sample_parse_state buf))"
  "bc_size (sample_parse_state buf) = 0" "bc_bytes (sample_parse_state buf) = []"
  by (simp_all add: bc_ok_def bc_error_def bc_alloc_def bc_size_def bc_bytes_def sample_parse_state_def
      grant_realloc_ok dbuf_inv_def dbuf_contents_def dbuf_init2_def)

end
