(* ===== verification/RegexpRange.thy ===== *)
theory RegexpRange
  imports RegexpEmit "HOL-Library.Sublist"
begin

unbundle bit_operations_syntax

section \<open>Compiled character classes match what the class denotes\<close>

text \<open>
  \<^verbatim>\<open>re_emit_range\<close> writes the intervals of a class behind a range instruction, in 16 bits when
  they fit and then with \<^verbatim>\<open>0xffff\<close> for infinity; \<^verbatim>\<open>REOP_range\<close> and \<^verbatim>\<open>REOP_range32\<close> search them by
  bisection. Together they test membership in the class.
\<close>

subsection \<open>The bisection\<close>

definition ivs_sorted :: "(u32 \<times> u32) list \<Rightarrow> bool" where
  "ivs_sorted ivs \<longleftrightarrow> (\<forall>x\<in>set ivs. fst x \<le> snd x) \<and> sorted_wrt (\<lambda>x y. snd x < fst y) ivs"

definition in_ivs :: "(u32 \<times> u32) list \<Rightarrow> u32 \<Rightarrow> bool" where
  "in_ivs ivs c \<longleftrightarrow> (\<exists>x\<in>set ivs. fst x \<le> c \<and> c \<le> snd x)"

lemma ivs_sortedD:
  assumes "ivs_sorted ivs" and "i < j" and "j < length ivs"
  shows "snd (ivs ! i) < fst (ivs ! j)"
  using assms by (auto simp: ivs_sorted_def dest: sorted_wrt_nth_less)

lemma ivs_sorted_le: "ivs_sorted ivs \<Longrightarrow> i < length ivs \<Longrightarrow> fst (ivs ! i) \<le> snd (ivs ! i)"
  by (auto simp: ivs_sorted_def)

definition hit :: "(u32 \<times> u32) list \<Rightarrow> u32 \<Rightarrow> nat \<Rightarrow> bool" where
  "hit ivs c i \<longleftrightarrow> fst (ivs ! i) \<le> c \<and> c \<le> snd (ivs ! i)"

lemma in_ivs_hit: "in_ivs ivs c \<longleftrightarrow> (\<exists>i<length ivs. hit ivs c i)"
  unfolding in_ivs_def hit_def by (metis in_set_conv_nth)

text \<open>A comparison with one interval excludes all intervals on the other side.\<close>

lemma hit_below:
  assumes "ivs_sorted ivs" and "m < length ivs" and "c < fst (ivs ! m)" and "hit ivs c i" and "i < length ivs"
  shows "i < m"
proof (rule ccontr)
  assume "\<not> i < m"
  then have "fst (ivs ! m) \<le> fst (ivs ! i)"
    using ivs_sortedD [OF assms(1), of m i] ivs_sorted_le [OF assms(1,2)] assms(5)
    by (cases "m = i") (auto intro: order.strict_implies_order order.strict_trans1)
  then have "fst (ivs ! m) \<le> c" using assms(4) by (auto simp: hit_def intro: order.trans)
  with assms(3) show False by simp
qed

lemma hit_above:
  assumes "ivs_sorted ivs" and "m < length ivs" and "c > snd (ivs ! m)" and "hit ivs c i" and "i < length ivs"
  shows "m < i"
proof (rule ccontr)
  assume "\<not> m < i"
  then have "snd (ivs ! i) \<le> snd (ivs ! m)"
    using ivs_sortedD [OF assms(1), of i m] ivs_sorted_le [OF assms(1,2)] assms(2)
    by (cases "m = i") (auto intro: order.strict_implies_order order.strict_trans2)
  then have "c \<le> snd (ivs ! m)" using assms(4) by (auto simp: hit_def intro: order.trans)
  with assms(3) show False by simp
qed

lemma interval_search_spec:
  assumes get: "\<And>i. i < length ivs \<Longrightarrow> get i = Some (ivs ! i)" and sorted: "ivs_sorted ivs"
    and first: "fst (ivs ! 0) \<le> c" and b: "b < length ivs"
  shows "interval_search get c a b = Some (\<exists>i. a \<le> i \<and> i \<le> b \<and> hit ivs c i)"
  using get first b
proof (induction get c a b rule: interval_search.induct)
  case (1 get c a b)
  let ?m = "(a + b) div 2"
  show ?case
  proof (cases "a \<le> b")
    case True
    then have m: "a \<le> ?m" "?m \<le> b" "?m < length ivs" using "1.prems"(3) by auto
    have g: "get ?m = Some (fst (ivs ! ?m), snd (ivs ! ?m))" using m "1.prems"(1) by simp
    consider (lt) "c < fst (ivs ! ?m)" | (gt) "\<not> c < fst (ivs ! ?m)" "c > snd (ivs ! ?m)" | (eq) "hit ivs c ?m"
      by (fastforce simp: hit_def)
    then show ?thesis
    proof cases
      case lt
      then have m0: "?m \<noteq> 0" using "1.prems"(2) by (metis leD)
      have "interval_search get c a (?m - 1) = Some (\<exists>i. a \<le> i \<and> i \<le> ?m - 1 \<and> hit ivs c i)"
        using "1.IH"(1) [OF True refl g refl lt m0] "1.prems" m by simp
      moreover have "(a \<le> i \<and> i \<le> ?m - 1 \<and> hit ivs c i) \<longleftrightarrow> (a \<le> i \<and> i \<le> b \<and> hit ivs c i)" for i
        using hit_below [OF sorted m(3) lt, of i] m0 m "1.prems"(3) by force
      ultimately show ?thesis using True g lt m0 by (subst interval_search.simps) (simp add: Let_def case_prod_beta)
    next
      case gt
      have "interval_search get c (?m + 1) b = Some (\<exists>i. ?m + 1 \<le> i \<and> i \<le> b \<and> hit ivs c i)"
        using "1.IH"(2) [OF True refl g refl gt] "1.prems" by simp
      moreover have "(?m + 1 \<le> i \<and> i \<le> b \<and> hit ivs c i) \<longleftrightarrow> (a \<le> i \<and> i \<le> b \<and> hit ivs c i)" for i
        using hit_above [OF sorted m(3) gt(2), of i] m "1.prems"(3) by force
      ultimately show ?thesis using True g gt by (subst interval_search.simps) (simp add: Let_def case_prod_beta)
    next
      case eq
      with True g m show ?thesis by (subst interval_search.simps) (auto simp: Let_def hit_def case_prod_beta)
    qed
  qed (subst interval_search.simps, auto)
qed

lemma interval_search_all:
  assumes "\<And>i. i < length ivs \<Longrightarrow> get i = Some (ivs ! i)" and "ivs_sorted ivs"
    and "fst (ivs ! 0) \<le> c" and "ivs \<noteq> []"
  shows "interval_search get c 0 (length ivs - 1) = Some (in_ivs ivs c)"
proof -
  have "interval_search get c 0 (length ivs - 1) = Some (\<exists>i. 0 \<le> i \<and> i \<le> length ivs - 1 \<and> hit ivs c i)"
    using assms by (intro interval_search_spec) auto
  moreover have "i \<le> length ivs - 1 \<longleftrightarrow> i < length ivs" for i
    using assms(4) by (cases ivs) auto
  ultimately show ?thesis by (auto simp: in_ivs_hit)
qed

text \<open>What the tests before the bisection decide.\<close>

lemma in_ivs_before_first: "ivs_sorted ivs \<Longrightarrow> ivs \<noteq> [] \<Longrightarrow> c < fst (ivs ! 0) \<Longrightarrow> \<not> in_ivs ivs c"
  using hit_below [of ivs 0 c] by (auto simp: in_ivs_hit)

lemma in_ivs_behind_last:
  "ivs_sorted ivs \<Longrightarrow> ivs \<noteq> [] \<Longrightarrow> c > snd (ivs ! (length ivs - 1)) \<Longrightarrow> \<not> in_ivs ivs c"
  using hit_above [of ivs "length ivs - 1" c] by (fastforce simp: in_ivs_hit)

subsection \<open>Closed intervals of a canonical point list\<close>

definition cl32 :: "u32 \<times> u32 \<Rightarrow> u32 \<times> u32" where
  "cl32 = (\<lambda>(a, b). (a, b - 1))"

text \<open>In 16 bits \<^verbatim>\<open>0xffff\<close> stands for infinity.\<close>

definition cl16 :: "u32 \<times> u32 \<Rightarrow> u32 \<times> u32" where
  "cl16 = (\<lambda>(a, b). (a, if b - 1 = UINT32_MAX - 1 then 0xffff else b - 1))"

definition fits16 :: "u32 list \<Rightarrow> bool" where
  "fits16 pts \<longleftrightarrow> (if last pts = UINT32_MAX then pts ! (length pts - 2) else last pts) \<le> 0xffff"

lemma pred_max_iff: "(b - 1 = UINT32_MAX - 1) \<longleftrightarrow> b = UINT32_MAX"
  by (metis diff_add_cancel)

lemma less_pred_iff: "(a :: u32) < b \<Longrightarrow> (c < b \<longleftrightarrow> c \<le> b - 1)"
proof -
  assume "a < b"
  then have "b \<noteq> 0" by auto
  then have "unat (b - 1) = unat b - 1" "0 < unat b" by (simp_all add: unat_minus_one unat_gt_0)
  then show ?thesis by (auto simp: word_less_nat_alt word_le_nat_alt)
qed

lemma set_pairs_of: "x \<in> set (pairs_of xs) \<Longrightarrow> fst x \<in> set xs \<and> snd x \<in> set xs"
  by (induction xs rule: pairs_of.induct) auto

lemma pairs_of_less: "sorted_wrt (<) xs \<Longrightarrow> x \<in> set (pairs_of xs) \<Longrightarrow> fst x < snd x"
  by (induction xs rule: pairs_of.induct) auto

lemma pairs_of_sorted: "sorted_wrt (<) xs \<Longrightarrow> sorted_wrt (\<lambda>x y. snd x < fst y) (pairs_of xs)"
  by (induction xs rule: pairs_of.induct) (auto dest: set_pairs_of)

text \<open>Closing intervals by \<open>f\<close> keeps them sorted when it keeps the lower bounds and stays below the end.\<close>

lemma closed_sorted:
  assumes s: "sorted_wrt (<) pts"
    and f: "\<And>x. x \<in> set (pairs_of pts) \<Longrightarrow> fst (f x) = fst x \<and> fst x \<le> snd (f x) \<and> snd (f x) < snd x"
  shows "ivs_sorted (map f (pairs_of pts))"
proof -
  have "sorted_wrt (\<lambda>x y. snd (f x) < fst (f y)) (pairs_of pts)"
    using f by (intro sorted_wrt_mono_rel [OF _ pairs_of_sorted [OF s]]) fastforce
  with f show ?thesis by (simp add: ivs_sorted_def sorted_wrt_map)
qed

text \<open>The closed intervals have the same members when \<open>f\<close> treats each interval so.\<close>

lemma closed_members:
  assumes "cr_canon pts"
    and "\<And>x. x \<in> set (pairs_of pts) \<Longrightarrow> fst (f x) = fst x \<and> (c \<le> snd (f x) \<longleftrightarrow> c < snd x)"
  shows "in_ivs (map f (pairs_of pts)) c \<longleftrightarrow> in_points pts c"
  using assms by (auto simp: in_ivs_def cr_canon_def in_points_pairs strict_sorted_imp_sorted case_prod_beta)

lemma cl32_sorted: "sorted_wrt (<) pts \<Longrightarrow> ivs_sorted (map cl32 (pairs_of pts))"
proof (rule closed_sorted)
  fix x assume "sorted_wrt (<) pts" "x \<in> set (pairs_of pts)"
  then have "fst x < snd x" by (rule pairs_of_less)
  with less_pred_iff [OF this, of "fst x"] less_pred_iff [OF this, of "snd x - 1"]
  show "fst (cl32 x) = fst x \<and> fst x \<le> snd (cl32 x) \<and> snd (cl32 x) < snd x"
    by (simp add: cl32_def case_prod_beta)
qed

lemma in_ivs_cl32: "cr_canon pts \<Longrightarrow> in_ivs (map cl32 (pairs_of pts)) c \<longleftrightarrow> in_points pts c"
proof (rule closed_members)
  fix x assume "cr_canon pts" "x \<in> set (pairs_of pts)"
  then have "fst x < snd x" by (intro pairs_of_less) (simp_all add: cr_canon_def)
  with less_pred_iff [OF this, of c]
  show "fst (cl32 x) = fst x \<and> (c \<le> snd (cl32 x) \<longleftrightarrow> c < snd x)" by (simp add: cl32_def case_prod_beta)
qed

lemma pairs_of_append: "even (length xs) \<Longrightarrow> pairs_of (xs @ ys) = pairs_of xs @ pairs_of ys"
  by (induction xs rule: pairs_of.induct) auto

lemma canon_split:
  assumes "cr_canon pts" and "pts \<noteq> []"
  obtains ys y z where "pts = ys @ [y, z]" and "even (length ys)"
proof -
  obtain xs z where xs: "pts = xs @ [z]" using assms(2) by (metis append_butlast_last_id)
  with assms(1) have "odd (length xs)" by (simp add: cr_canon_def)
  then obtain ys y where "xs = ys @ [y]" by (metis append_butlast_last_id even_zero list.size(3))
  with xs \<open>odd (length xs)\<close> that [of ys y z] show ?thesis by simp
qed

lemma fits16_bounds:
  assumes c: "cr_canon pts" and fit: "fits16 pts" and p: "x \<in> set (pairs_of pts)"
  shows "fst x \<le> 0xffff \<and> (snd x \<le> 0xffff \<or> snd x = UINT32_MAX)"
proof -
  have "pts \<noteq> []" using p by auto
  then obtain ys y z where pts: "pts = ys @ [y, z]" and e: "even (length ys)" by (rule canon_split [OF c])
  have less: "\<And>v. v \<in> set ys \<Longrightarrow> v < y" "y < z" using c by (auto simp: pts cr_canon_def sorted_wrt_append)
  have "last pts = z" "pts ! (length pts - 2) = y" by (simp_all add: pts)
  with fit have fz: "(if z = UINT32_MAX then y else z) \<le> 0xffff" by (auto simp: fits16_def split: if_splits)
  then have z: "z \<le> 0xffff \<or> z = UINT32_MAX" by (auto split: if_splits)
  have y: "y \<le> 0xffff"
  proof (cases "z = UINT32_MAX")
    case False
    then have "z \<le> 0xffff" using fz by simp
    with order.strict_implies_order [OF less(2)] show ?thesis by (rule order.trans)
  qed (use fz in simp)
  have "x = (y, z) \<or> x \<in> set (pairs_of ys)" using p pairs_of_append [OF e, of "[y, z]"] by (auto simp: pts)
  then show ?thesis
  proof
    assume "x \<in> set (pairs_of ys)"
    then have "fst x < y" "snd x < y" using set_pairs_of less(1) by blast+
    with y show ?thesis by auto
  qed (use y z in simp)
qed

lemma cl16_cases:
  assumes "x \<in> set (pairs_of pts)" and "cr_canon pts" and "fits16 pts"
  shows "fst (cl16 x) = fst x" and "fst x \<le> snd (cl16 x)" and "snd (cl16 x) < snd x" and "snd (cl16 x) \<le> 0xffff"
    and "c \<le> 0xffff \<Longrightarrow> c \<le> snd (cl16 x) \<longleftrightarrow> c < snd x"
proof -
  have less: "fst x < snd x" using assms by (intro pairs_of_less) (simp_all add: cr_canon_def)
  note b = fits16_bounds [OF assms(2,3,1)]
  note p = less_pred_iff [OF less]
  have "snd x - 1 < snd x" using p [of "snd x - 1"] by simp
  note lt = this
  show "fst (cl16 x) = fst x" by (simp add: cl16_def case_prod_beta)
  show "fst x \<le> snd (cl16 x)" using b less p [of "fst x"] by (simp add: cl16_def case_prod_beta)
  show "snd (cl16 x) < snd x" using lt by (auto simp: cl16_def case_prod_beta pred_max_iff UINT32_MAX_def)
  show "snd (cl16 x) \<le> 0xffff" using b lt by (auto simp: cl16_def case_prod_beta pred_max_iff)
  show "c \<le> 0xffff \<Longrightarrow> c \<le> snd (cl16 x) \<longleftrightarrow> c < snd x"
    using p [of c] order.strict_trans1 [of c "0xffff" UINT32_MAX]
    by (auto simp: cl16_def case_prod_beta pred_max_iff UINT32_MAX_def)
qed

lemma cl16_sorted: "cr_canon pts \<Longrightarrow> fits16 pts \<Longrightarrow> ivs_sorted (map cl16 (pairs_of pts))"
  by (rule closed_sorted) (auto simp: cr_canon_def cl16_cases)

lemma in_ivs_cl16:
  "cr_canon pts \<Longrightarrow> fits16 pts \<Longrightarrow> c \<le> 0xffff \<Longrightarrow> in_ivs (map cl16 (pairs_of pts)) c \<longleftrightarrow> in_points pts c"
  by (rule closed_members) (auto simp: cl16_cases)

subsection \<open>Encoded intervals\<close>

definition enc16 :: "u32 \<times> u32 \<Rightarrow> bytes" where
  "enc16 x = le16 (ucast (fst (cl16 x))) @ le16 (ucast (snd (cl16 x)))"

definition enc32 :: "u32 \<times> u32 \<Rightarrow> bytes" where
  "enc32 x = le32 (fst (cl32 x)) @ le32 (snd (cl32 x))"

lemma length_enc [simp]: "length (enc16 x) = 4" "length (enc32 x) = 8"
  by (simp_all add: enc16_def enc32_def)

lemma ucast_u16_id: "(v :: u32) \<le> 0xffff \<Longrightarrow> ucast (ucast v :: u16) = v"
proof -
  assume "v \<le> 0xffff"
  then have "unat v < 2 ^ 16" by (simp add: word_le_nat_alt)
  then have "unat (ucast (ucast v :: u16) :: u32) = unat v" by (simp add: unat_ucast_mod)
  then show ?thesis by (simp add: word_unat_eq_iff)
qed

lemma range16_at_enc:
  assumes "code_at bc pc (concat (map enc16 (pairs_of pts)))" and "cr_canon pts" and "fits16 pts"
    and i: "i < length (pairs_of pts)"
  shows "range16_at bc pc i = Some (map cl16 (pairs_of pts) ! i)"
proof -
  let ?x = "pairs_of pts ! i"
  have x: "?x \<in> set (pairs_of pts)" using i by simp
  have "code_at bc (pc + i * 4) (enc16 ?x)" using code_at_concat [OF assms(1) _ i, of 4] by simp
  then have "get_u16 bc (pc + i * 4) = Some (fst (cl16 ?x))" "get_u16 bc (pc + i * 4 + 2) = Some (snd (cl16 ?x))"
    using cl16_cases(1,4) [OF x assms(2,3)] fits16_bounds [OF assms(2,3) x]
    by (auto simp: enc16_def code_at_append ucast_u16_id dest!: get_u16_at)
  then show ?thesis using i by (simp add: range16_at_def)
qed

lemma range32_at_enc:
  assumes "code_at bc pc (concat (map enc32 (pairs_of pts)))" and i: "i < length (pairs_of pts)"
  shows "range32_at bc pc i = Some (map cl32 (pairs_of pts) ! i)"
proof -
  have "code_at bc (pc + i * 8) (enc32 (pairs_of pts ! i))" using code_at_concat [OF assms(1) _ i, of 8] by simp
  then show ?thesis using i
    by (auto simp: enc32_def code_at_append range32_at_def dest!: get_u32_at)
qed

text \<open>The first and the last bound, which the tests before the bisection read.\<close>

lemma range16_atD:
  "range16_at bc pc i = Some x \<Longrightarrow> get_u16 bc (pc + i * 4) = Some (fst x) \<and> get_u16 bc (pc + i * 4 + 2) = Some (snd x)"
  by (auto simp: range16_at_def split: bind_splits)

lemma range32_atD:
  "range32_at bc pc i = Some x \<Longrightarrow> get_u32 bc (pc + i * 8) = Some (fst x) \<and> get_u32 bc (pc + i * 8 + 4) = Some (snd x)"
  by (auto simp: range32_at_def split: bind_splits)

lemma range32_test_enc:
  assumes code: "code_at bc pc (concat (map enc32 (pairs_of pts)))" and c: "cr_canon pts" and ne: "pairs_of pts \<noteq> []"
  shows "range32_test bc pc (length (pairs_of pts)) ch = Some (in_points pts ch)"
proof -
  let ?ivs = "map cl32 (pairs_of pts)" and ?n = "length (pairs_of pts)"
  have s: "ivs_sorted ?ivs" using c by (simp add: cl32_sorted cr_canon_def)
  have at: "range32_at bc pc i = Some (?ivs ! i)" if "i < ?n" for i using range32_at_enc [OF code that] .
  have lo: "get_u32 bc pc = Some (fst (?ivs ! 0))" and hi: "get_u32 bc (pc + (?n - 1) * 8 + 4) = Some (snd (?ivs ! (?n - 1)))"
    using range32_atD [OF at, of 0] range32_atD [OF at, of "?n - 1"] ne by (auto simp del: length_pairs_of)
  note m = in_ivs_cl32 [OF c, of ch]
  have n: "0 < length pts div 2" using ne by (metis length_greater_0_conv length_pairs_of)
  have "interval_search (range32_at bc pc) ch 0 (?n - 1) = Some (in_points pts ch)" if "fst (?ivs ! 0) \<le> ch"
    using interval_search_all [of ?ivs "range32_at bc pc" ch] at s that ne m by simp
  then show ?thesis
    using lo hi n ne m in_ivs_before_first [OF s, of ch] in_ivs_behind_last [OF s, of ch]
    by (auto simp: range32_test_def)
qed

text \<open>A character of 16 bits or more is in the class when the last interval is unbounded.\<close>

lemma in_points_beyond16:
  assumes c: "cr_canon pts" and fit: "fits16 pts" and ne: "pairs_of pts \<noteq> []"
    and ch: "ch \<ge> 0xffff" "ch < UINT32_MAX"
  shows "in_points pts ch \<longleftrightarrow> snd (cl16 (pairs_of pts ! (length (pairs_of pts) - 1))) = 0xffff"
proof -
  let ?ps = "pairs_of pts" let ?n = "length ?ps" let ?z = "?ps ! (?n - 1)"
  have z: "?z \<in> set ?ps" using ne by (simp del: length_pairs_of)
  have mem: "in_points pts ch \<longleftrightarrow> (\<exists>x\<in>set ?ps. fst x \<le> ch \<and> ch < snd x)"
    using c by (simp add: cr_canon_def in_points_pairs strict_sorted_imp_sorted case_prod_beta)
  note b = fits16_bounds [OF c fit]
  show ?thesis
  proof
    assume "in_points pts ch"
    then obtain i where i: "i < ?n" "ch < snd (?ps ! i)" unfolding mem by (metis in_set_conv_nth)
    have max: "snd (?ps ! i) = UINT32_MAX"
      using b [OF nth_mem [OF i(1)]] i(2) ch(1) by (meson leD order.trans)
    have "\<not> i < ?n - 1"
    proof
      assume "i < ?n - 1"
      then have "snd (?ps ! i) < fst ?z"
        using pairs_of_sorted c i(1) by (intro sorted_wrt_nth_less [of "\<lambda>x y. snd x < fst y"]) (auto simp: cr_canon_def simp del: length_pairs_of)
      then have "UINT32_MAX < 0xffff" unfolding max using b [OF z] by (meson order.strict_trans2)
      then show False by (simp add: UINT32_MAX_def)
    qed
    then have "i = ?n - 1" using i(1) by linarith
    with max show "snd (cl16 ?z) = 0xffff" by (simp add: cl16_def case_prod_beta)
  next
    assume "snd (cl16 ?z) = 0xffff"
    then have "0xffff < snd ?z" using cl16_cases(3) [OF z c fit] by simp
    then have "snd ?z = UINT32_MAX" and le: "fst ?z \<le> 0xffff" using b [OF z] by auto
    moreover have "fst ?z \<le> ch" using le ch(1) by (rule order.trans)
    ultimately show "in_points pts ch" unfolding mem using z ch(2) by (intro bexI [of _ ?z]) simp_all
  qed
qed

lemma range16_test_enc:
  assumes code: "code_at bc pc (concat (map enc16 (pairs_of pts)))" and c: "cr_canon pts" and fit: "fits16 pts"
    and ne: "pairs_of pts \<noteq> []" and ch: "ch < UINT32_MAX"
  shows "range16_test bc pc (length (pairs_of pts)) ch = Some (in_points pts ch)"
proof -
  let ?ps = "pairs_of pts" let ?ivs = "map cl16 ?ps" and ?n = "length ?ps"
  have n: "0 < ?n" using ne by (simp del: length_pairs_of)
  have s: "ivs_sorted ?ivs" using c fit by (rule cl16_sorted)
  have at: "range16_at bc pc i = Some (?ivs ! i)" if "i < ?n" for i using range16_at_enc [OF code c fit that] .
  have lo: "get_u16 bc pc = Some (fst (?ivs ! 0))" and hi: "get_u16 bc (pc + (?n - 1) * 4 + 2) = Some (snd (?ivs ! (?n - 1)))"
    using range16_atD [OF at, of 0] range16_atD [OF at, of "?n - 1"] ne by (auto simp del: length_pairs_of)
  define z where "z = ?ps ! (?n - 1)"
  have z: "z \<in> set ?ps" and zi: "?ivs ! (?n - 1) = cl16 z" using n by (simp_all add: z_def del: length_pairs_of)
  have small: "range16_test bc pc ?n ch = Some (in_points pts ch)"
    if ch16: "ch \<le> 0xffff" and not_inf: "\<not> (ch \<ge> 0xffff \<and> snd (cl16 z) = 0xffff)"
  proof -
    note m = in_ivs_cl16 [OF c fit ch16]
    have "interval_search (range16_at bc pc) ch 0 (?n - 1) = Some (in_points pts ch)" if "fst (?ivs ! 0) \<le> ch"
      using interval_search_all [of ?ivs "range16_at bc pc" ch] at s that ne m by (simp del: length_pairs_of)
    then show ?thesis
      using lo hi n ne m zi not_inf in_ivs_before_first [OF s, of ch] in_ivs_behind_last [OF s, of ch]
      by (auto simp: range16_test_def simp del: length_pairs_of)
  qed
  have large: "range16_test bc pc ?n ch = Some (in_points pts ch)" if "ch \<ge> 0xffff" "snd (cl16 z) = 0xffff \<or> ch \<noteq> 0xffff"
  proof -
    have "fst (?ivs ! 0) \<le> 0xffff" using cl16_cases(1) [OF nth_mem [OF n] c fit] fits16_bounds [OF c fit nth_mem [OF n]] n
      by (simp del: length_pairs_of)
    then have first: "\<not> ch < fst (?ivs ! 0)" using that(1) by (meson leD order.trans)
    have "in_points pts ch \<longleftrightarrow> snd (cl16 z) = 0xffff" using in_points_beyond16 [OF c fit ne that(1) ch] by (simp add: z_def)
    moreover have "snd (cl16 z) \<le> 0xffff" using cl16_cases(4) [OF z c fit] .
    ultimately show ?thesis using lo hi n zi that first
      by (auto simp: range16_test_def simp del: length_pairs_of)
  qed
  show ?thesis
  proof (cases "ch \<le> 0xffff \<and> \<not> (ch \<ge> 0xffff \<and> snd (cl16 z) = 0xffff)")
    case False
    then have "ch \<ge> 0xffff" "snd (cl16 z) = 0xffff \<or> ch \<noteq> 0xffff" using linear by auto
    then show ?thesis by (rule large)
  qed (use small in blast)
qed


subsection \<open>Emission\<close>

lemma emits_Nil: "dbuf_inv (ps_byte_code s) \<Longrightarrow> emits [] s (Some s)"
  unfolding emits_def
  by (rule exI [of _ "ps_byte_code s"]) (simp add: bc_size_def bc_alloc_def bc_error_def bc_bytes_def)

lemma emits_loop:
  fixes s :: "('o, 'h) REParseState"
  assumes "even (length xs)" and "pts = pre @ xs @ suf" and "bc_ok (2 * w * length xs) s"
    and zero: "\<And>i b. f i 0 b = Some b"
    and one: "\<And>i n a a' (s :: ('o, 'h) REParseState). rd pts i = Some a \<Longrightarrow> rd pts (i + 1) = Some a' \<Longrightarrow> bc_ok (4 * w) s \<Longrightarrow>
        \<exists>r. emits (enc (a, a')) s r \<and>
          map_option (\<lambda>b. s\<lparr>ps_byte_code := b\<rparr>) (f i (Suc n) (ps_byte_code s)) =
          Option.bind r (\<lambda>s'. map_option (\<lambda>b. s'\<lparr>ps_byte_code := b\<rparr>) (f (i + 2) n (ps_byte_code s')))"
    and len: "\<And>x. length (enc x) = 4 * w"
  shows "emits (concat (map enc (pairs_of xs))) s
    (map_option (\<lambda>b. s\<lparr>ps_byte_code := b\<rparr>) (f (length pre) (length xs div 2) (ps_byte_code s)))"
  using assms(1-3)
proof (induction xs arbitrary: s pre rule: pairs_of.induct)
  case (1 a a' xs)
  let ?i = "length pre" and ?n = "length xs div 2"
  have pos: "rd pts ?i = Some a" "rd pts (?i + 1) = Some a'"
    using "1.prems"(2) by (simp_all add: rd_def nth_append)
  have ok: "bc_ok (4 * w + 2 * w * length xs) s" using "1.prems"(3) by (simp add: algebra_simps)
  then obtain r where r: "emits (enc (a, a')) s r"
    and eq: "map_option (\<lambda>b. s\<lparr>ps_byte_code := b\<rparr>) (f ?i (Suc ?n) (ps_byte_code s)) =
      Option.bind r (\<lambda>s'. map_option (\<lambda>b. s'\<lparr>ps_byte_code := b\<rparr>) (f (?i + 2) ?n (ps_byte_code s')))"
    using one [OF pos emits_mono_ok [OF ok], of ?n] by auto
  have "length (concat (map enc (pairs_of xs))) = 4 * w * (length xs div 2)"
    by (induction xs rule: pairs_of.induct) (simp_all add: len)
  moreover have "4 * w * (length xs div 2) \<le> 2 * w * length xs" 
    using mult_le_mono2 [of "2 * (length xs div 2)" "length xs" "2 * w"] by (simp add: mult.assoc mult.left_commute)
  ultimately have le: "length (concat (map enc (pairs_of xs))) \<le> 2 * w * length xs" by simp
  have "emits (enc (a, a') @ concat (map enc (pairs_of xs))) s
      (Option.bind r (\<lambda>s'. map_option (\<lambda>b. s'\<lparr>ps_byte_code := b\<rparr>) (f (?i + 2) ?n (ps_byte_code s'))))"
    using "1.IH" [of "pre @ [a, a']"] "1.prems" le ok
    by (intro emits_bind [OF r, where n = "2 * w * length xs"]) (simp_all add: len)
  with eq show ?case by simp
qed (use zero emits_Nil in \<open>auto simp: bc_ok_def\<close>)

lemma emits_pair:
  fixes s :: "('o, 'h) REParseState"
  assumes f: "\<And>s :: ('o, 'h) REParseState. bc_ok k s \<Longrightarrow> emits d s (emit f s)"
    and g: "\<And>s :: ('o, 'h) REParseState. bc_ok k s \<Longrightarrow> emits e s (emit g s)"
    and "length d = k" and "length e = k" and "bc_ok (2 * k) s"
  shows "emits (d @ e) s (Option.bind (emit f s) (emit g))"
  using assms by (intro emits_bind [where n = k] f g) (auto intro: emits_mono_ok)

lemma emit_points16_emits:
  fixes s :: "('o, 'h) REParseState"
  assumes "even (length xs)" and pts: "pts = xs @ suf" and "bc_ok (2 * length xs) s"
  shows "emits (concat (map enc16 (pairs_of xs))) s
    (map_option (\<lambda>b. s\<lparr>ps_byte_code := b\<rparr>) (emit_points16 pts 0 (length xs div 2) (ps_byte_code s)))"
proof -
  let ?hi = "\<lambda>h :: u32. if h - 1 = UINT32_MAX - 1 then 0xffff else h - 1"
  have "\<exists>r. emits (enc16 (a, a')) s r \<and>
      map_option (\<lambda>b. s\<lparr>ps_byte_code := b\<rparr>) (emit_points16 pts i (Suc n) (ps_byte_code s)) =
      Option.bind r (\<lambda>s'. map_option (\<lambda>b. s'\<lparr>ps_byte_code := b\<rparr>) (emit_points16 pts (i + 2) n (ps_byte_code s')))"
    if "rd pts i = Some a" "rd pts (i + 1) = Some a'" "bc_ok (2 * 2) s" for i n a a' and s :: "('o, 'h) REParseState"
    using that emits_pair [OF emit_u16_emits [where v = "ucast a"] emit_u16_emits [where v = "ucast (?hi a')"], where s = s]
    by (intro exI [of _ "Option.bind (emit (\<lambda>b. dbuf_put_u16 b (ucast a)) s) (emit (\<lambda>b. dbuf_put_u16 b (ucast (?hi a'))))"])
       (auto simp: enc16_def cl16_def emit_def Let_def split: bind_splits)
  then show ?thesis using assms emits_loop [of xs pts "[]" suf 1 s "emit_points16 pts" enc16] by simp
qed

lemma emit_points32_emits:
  fixes s :: "('o, 'h) REParseState"
  assumes "even (length xs)" and pts: "pts = xs @ suf" and "bc_ok (4 * length xs) s"
  shows "emits (concat (map enc32 (pairs_of xs))) s
    (map_option (\<lambda>b. s\<lparr>ps_byte_code := b\<rparr>) (emit_points32 pts 0 (length xs div 2) (ps_byte_code s)))"
proof -
  have "\<exists>r. emits (enc32 (a, a')) s r \<and>
      map_option (\<lambda>b. s\<lparr>ps_byte_code := b\<rparr>) (emit_points32 pts i (Suc n) (ps_byte_code s)) =
      Option.bind r (\<lambda>s'. map_option (\<lambda>b. s'\<lparr>ps_byte_code := b\<rparr>) (emit_points32 pts (i + 2) n (ps_byte_code s')))"
    if "rd pts i = Some a" "rd pts (i + 1) = Some a'" "bc_ok (2 * 4) s" for i n a a' and s :: "('o, 'h) REParseState"
    using that emits_pair [OF emit_u32_emits [where v = a] emit_u32_emits [where v = "a' - 1"], where s = s]
    by (intro exI [of _ "Option.bind (emit (\<lambda>b. dbuf_put_u32 b a) s) (emit (\<lambda>b. dbuf_put_u32 b (a' - 1)))"])
       (auto simp: enc32_def cl32_def emit_def Let_def split: bind_splits)
  then show ?thesis using assms emits_loop [of xs pts "[]" suf 2 s "emit_points32 pts" enc32] by simp
qed


text \<open>What \<^verbatim>\<open>re_emit_range\<close> appends for a class.\<close>

definition class_code :: "u32 list \<Rightarrow> bytes" where
  "class_code pts =
     (if pts = [] then reop_code REOP_char32 # le32 (- 1)
      else if fits16 pts then
        reop_code REOP_range # le16 (word_of_nat (length pts div 2)) @ concat (map enc16 (pairs_of pts))
      else reop_code REOP_range32 # le16 (word_of_nat (length pts div 2)) @ concat (map enc32 (pairs_of pts)))"

lemma class_high:
  assumes inv: "cr_inv cr" and c: "cr_canon (cr_pts cr)" and ne: "cr_pts cr \<noteq> []"
  shows "rd (cr_points cr) (cr_len cr - 1) = Some (last (cr_pts cr))"
    and "rd (cr_points cr) (cr_len cr - 2) = Some (cr_pts cr ! (length (cr_pts cr) - 2))"
proof -
  have l: "0 < cr_len cr" "cr_len cr \<le> length (cr_points cr)" using inv ne by (auto simp: cr_inv_def cr_pts_def)
  then show "rd (cr_points cr) (cr_len cr - 1) = Some (last (cr_pts cr))"
    "rd (cr_points cr) (cr_len cr - 2) = Some (cr_pts cr ! (length (cr_pts cr) - 2))"
    using ne inv by (simp_all add: rd_def last_conv_nth) (simp_all add: cr_pts_def)
qed

lemma re_emit_range_emits:
  fixes s :: "('o, 'h) REParseState"
  assumes inv: "cr_inv cr" and c: "cr_canon (cr_pts cr)" and n: "cr_len cr div 2 < 65535" and ok: "bc_ok (2 ^ 20) s"
  shows "\<exists>s'. re_emit_range s cr = Some (Some (), s') \<and> emits (class_code (cr_pts cr)) s (Some s')"
proof -
  let ?pts = "cr_pts cr"
  have len: "length ?pts = cr_len cr" and even: "even (length ?pts)" using inv c by (simp_all add: cr_canon_def)
  have split: "cr_points cr = ?pts @ drop (cr_len cr) (cr_points cr)" by (simp add: cr_pts_def)
  have emit: "\<exists>s'. re_emit_range s cr = Some (Some (), s') \<and> emits d s (Some s')"
    if "emits d s r" "re_emit_range s cr = Option.bind r (\<lambda>s'. Some (Some (), s'))" for d r
    using that by (auto simp: emits_def)
  show ?thesis
  proof (cases "?pts = []")
    case True
    then have "re_emit_range s cr = Option.bind (map_option snd (re_emit_op_u32 s REOP_char32 (- 1))) (\<lambda>s'. Some (Some (), s'))"
      using len by (cases "re_emit_op_u32 s REOP_char32 (- 1)") (auto simp: re_emit_range_def)
    moreover have "emits (class_code ?pts) s (map_option snd (re_emit_op_u32 s REOP_char32 (- 1)))"
      using re_emit_op_u32_emits [of s REOP_char32 "- 1"] ok True by (simp add: class_code_def emits_mono_ok)
    ultimately show ?thesis by (rule emit [rotated])
  next
    case False
    then have pos: "cr_len cr div 2 \<noteq> 0" using len even by (cases ?pts) (auto elim!: evenE)
    note high = class_high [OF inv c False]
    let ?op = "if fits16 ?pts then REOP_range else REOP_range32"
    let ?pts_code = "if fits16 ?pts then concat (map enc16 (pairs_of ?pts)) else concat (map enc32 (pairs_of ?pts))"
    let ?loop = "\<lambda>b. if fits16 ?pts then emit_points16 (cr_points cr) 0 (cr_len cr div 2) b
      else emit_points32 (cr_points cr) 0 (cr_len cr div 2) b"
    have run: "re_emit_range s cr = Option.bind (Option.bind (re_emit_op_u16 s ?op (cr_len cr div 2))
        (\<lambda>s. map_option (\<lambda>b. s\<lparr>ps_byte_code := b\<rparr>) (?loop (ps_byte_code s)))) (\<lambda>s'. Some (Some (), s'))"
      using n pos high by (auto simp: re_emit_range_def fits16_def Let_def map_option_case split: bind_splits option.splits)
    have code: "emits ((reop_code ?op # le16 (word_of_nat (cr_len cr div 2))) @ ?pts_code) s
        (Option.bind (re_emit_op_u16 s ?op (cr_len cr div 2))
          (\<lambda>s. map_option (\<lambda>b. s\<lparr>ps_byte_code := b\<rparr>) (?loop (ps_byte_code s))))"
    proof (rule emits_bind [OF re_emit_op_u16_emits, where n = "4 * cr_len cr"])
      show "emits ?pts_code s' (map_option (\<lambda>b. s'\<lparr>ps_byte_code := b\<rparr>) (?loop (ps_byte_code s')))"
        if "bc_ok (4 * cr_len cr) s'" for s' :: "('o, 'h) REParseState"
        using emit_points16_emits [OF even split, of s'] emit_points32_emits [OF even split, of s'] that len
          emits_mono_ok [OF that, of "2 * cr_len cr"] by auto
    qed (use ok n len in \<open>auto intro: emits_mono_ok simp: length_concat comp_def sum_list_triv\<close>)
    have "(reop_code ?op # le16 (word_of_nat (cr_len cr div 2))) @ ?pts_code = class_code ?pts"
      using False len by (simp add: class_code_def)
    with emit [OF code run] show ?thesis by (simp only:)
  qed
qed


subsection \<open>Execution\<close>

text \<open>The machine reads one character and tests it against the class.\<close>

definition char_test ::
  "REExecContext \<Rightarrow> 'k lre_alloc \<Rightarrow> nat \<Rightarrow> (u32 \<Rightarrow> bool) \<Rightarrow> 'k exec_state \<Rightarrow> 'k exec_result" where
  "char_test x al pc P st =
     (if es_cptr st \<ge> ec_cbuf_end x then no_match x al st
      else do {
        (c, q) \<leftarrow> GET_CHAR (ec_cbuf_type x) (ec_cbuf x) (ec_cbuf_end x) (es_cptr st);
        c \<leftarrow> canon x c;
        if P c then Some (Running (st\<lparr>es_pc := pc, es_cptr := q\<rparr>)) else no_match x al (st\<lparr>es_cptr := q\<rparr>) })"

text \<open>The characters the machine reads are below \<open>2\<^sup>21\<close>, so \<open>UINT32_MAX\<close>, which stands for infinity, is none of them.\<close>

definition chars_ok :: "REExecContext \<Rightarrow> bool" where
  "chars_ok x \<longleftrightarrow> (\<forall>p c q d. GET_CHAR (ec_cbuf_type x) (ec_cbuf x) (ec_cbuf_end x) p = Some (c, q) \<longrightarrow>
     canon x c = Some d \<longrightarrow> d < UINT32_MAX)"

lemma exec_class_code:
  assumes code: "code_at (ec_bc x) (es_pc st) (class_code pts)" and c: "cr_canon pts" and n: "length pts div 2 < 65535"
    and chars: "chars_ok x"
  shows "exec_step x al st = char_test x al (es_pc st + length (class_code pts)) (in_points pts) st"
proof -
  let ?pc = "es_pc st + 1"
  have k: "unat (ucast (word_of_nat (length pts div 2) :: u16) :: u32) = length pts div 2"
    using n by (simp add: unat_ucast_mod unsigned_of_nat take_bit_nat_eq_self)
  have max: "d < UINT32_MAX" if "GET_CHAR (ec_cbuf_type x) (ec_cbuf x) (ec_cbuf_end x) p = Some (e, q)" "canon x e = Some d" for p e q d
    using chars that by (auto simp: chars_ok_def)
  consider (empty) "pts = []" | (r16) "pts \<noteq> []" "fits16 pts" | (r32) "pts \<noteq> []" "\<not> fits16 pts" by blast
  then show ?thesis
  proof cases
    case empty
    then have "rd (ec_bc x) (es_pc st) = Some (reop_code REOP_char32)" "get_u32 (ec_bc x) ?pc = Some (- 1)"
      using code by (auto simp: class_code_def code_at_Cons dest: get_u32_at)
    moreover have "d \<noteq> - 1" if "GET_CHAR (ec_cbuf_type x) (ec_cbuf x) (ec_cbuf_end x) p = Some (e, q)" "canon x e = Some d" for p e q d
      using max [OF that] by (auto simp: UINT32_MAX_def)
    ultimately show ?thesis using empty
      by (auto simp: exec_step_def exec_op_def op_char_def with_char_def char_test_def class_code_def
        simp del: reop_code.simps split: bind_splits)
  next
    case r16
    then have "pairs_of pts \<noteq> []" using c by (cases pts rule: pairs_of.cases) (auto simp: cr_canon_def)
    moreover have "rd (ec_bc x) (es_pc st) = Some (reop_code REOP_range)" "get_u16 (ec_bc x) ?pc = Some (ucast (word_of_nat (length pts div 2) :: u16))"
      "code_at (ec_bc x) (?pc + 2) (concat (map enc16 (pairs_of pts)))"
      using code r16 by (auto simp: class_code_def code_at_Cons code_at_append dest: get_u16_at)
    ultimately show ?thesis using r16 c max range16_test_enc [of "ec_bc x" "?pc + 2" pts] k
      by (auto simp: exec_step_def exec_op_def op_range_def with_char_def char_test_def class_code_def length_concat comp_def sum_list_triv
        simp del: reop_code.simps split: bind_splits)
  next
    case r32
    then have "pairs_of pts \<noteq> []" using c by (cases pts rule: pairs_of.cases) (auto simp: cr_canon_def)
    moreover have "rd (ec_bc x) (es_pc st) = Some (reop_code REOP_range32)" "get_u16 (ec_bc x) ?pc = Some (ucast (word_of_nat (length pts div 2) :: u16))"
      "code_at (ec_bc x) (?pc + 2) (concat (map enc32 (pairs_of pts)))"
      using code r32 by (auto simp: class_code_def code_at_Cons code_at_append dest: get_u16_at)
    ultimately show ?thesis using r32 c range32_test_enc [of "ec_bc x" "?pc + 2" pts] k
      by (auto simp: exec_step_def exec_op_def op_range_def with_char_def char_test_def class_code_def length_concat comp_def sum_list_triv
        simp del: reop_code.simps split: bind_splits)
  qed
qed


lemma from_surrogate_less:
  assumes "is_hi_surrogate hi" and "is_lo_surrogate lo"
  shows "from_surrogate hi lo < UINT32_MAX"
proof -
  from assms have b: "unat (hi - 0xD800) < 0x400" "unat (lo - 0xDC00) < 0x400"
    by (auto simp: surrogate_ranges unat_sub word_le_nat_alt)
  define n where "n = 0x10000 + 0x400 * unat (hi - 0xD800) + unat (lo - 0xDC00)"
  have "from_surrogate hi lo = word_of_nat n" by (simp add: from_surrogate_def n_def)
  moreover have "n < 2 ^ 32 - 1" using b by (simp add: n_def)
  ultimately show ?thesis by (simp add: word_less_nat_alt unat_of_nat UINT32_MAX_def)
qed

lemma GET_CHAR_less: "GET_CHAR t b e p = Some (c, q) \<Longrightarrow> c < UINT32_MAX"
proof -
  have "(ucast (u :: u16) :: u32) < UINT32_MAX" for u
    using unsigned_less [where w = u and ?'a = nat] by (simp add: word_less_nat_alt UINT32_MAX_def unat_ucast_mod)
  then show "GET_CHAR t b e p = Some (c, q) \<Longrightarrow> c < UINT32_MAX"
    using from_surrogate_less by (auto simp: GET_CHAR_def Let_def split: bind_splits if_splits)
qed

lemma chars_ok_case_sensitive: "\<not> ec_ignore_case x \<Longrightarrow> chars_ok x"
  by (auto simp: chars_ok_def canon_def dest: GET_CHAR_less)

text \<open>
  C2. A compiled character class matches exactly its members. For a class of sorted intervals the code that
  \<^verbatim>\<open>re_emit_range\<close> appends, in its empty, 16-bit or 32-bit form, makes the machine read one character and test
  membership, by the first and last bound and by bisection, with \<^verbatim>\<open>0xffff\<close> read as infinity in the 16-bit form.
\<close>

theorem re_emit_range_matches:
  fixes s :: "('o, 'h) REParseState" and al :: "'k lre_alloc"
  assumes "cr_inv cr" and "cr_canon (cr_pts cr)" and "cr_len cr div 2 < 65535"
    and "bc_ok (2 ^ 20) s" and "\<not> bc_error s" and "realloc_total (bc_alloc s)"
  shows "\<exists>s'. re_emit_range s cr = Some (Some (), s') \<and>
    (\<forall>x st. prefix (bc_bytes s') (ec_bc x) \<longrightarrow> chars_ok x \<longrightarrow> es_pc st = bc_size s \<longrightarrow>
       exec_step x al st = char_test x al (bc_size s') (in_points (cr_pts cr)) st)"
proof -
  obtain s' where s': "re_emit_range s cr = Some (Some (), s')" and e: "emits (class_code (cr_pts cr)) s (Some s')"
    using re_emit_range_emits assms(1-4) by blast
  then have b: "bc_bytes s' = bc_bytes s @ class_code (cr_pts cr)" and inv: "dbuf_inv (ps_byte_code s')"
    using assms(5,6) by (auto simp: emits_def bc_bytes_def)
  have size: "bc_size s' = bc_size s + length (class_code (cr_pts cr))"
    using b length_bc_bytes [OF assms(4)] length_dbuf_contents [OF inv] by (simp add: bc_bytes_def bc_size_def)
  have "exec_step x al st = char_test x al (bc_size s') (in_points (cr_pts cr)) st"
    if "prefix (bc_bytes s') (ec_bc x)" "chars_ok x" "es_pc st = bc_size s" for x st
  proof -
    have "code_at (ec_bc x) (es_pc st) (class_code (cr_pts cr))"
      using that length_bc_bytes [OF assms(4)] by (auto simp: b prefix_def intro: code_at_prefix)
    with exec_class_code [of x st "cr_pts cr" al] assms that size show ?thesis by simp
  qed
  with s' show ?thesis by blast
qed


theorem re_emit_range_matches_witness:
  "\<exists>s'. re_emit_range (sample_parse_state []) \<lparr>cr_len = 2, cr_size = 2, cr_points = [97, 123], cr_realloc_func = zero_realloc\<rparr> =
       Some (Some (), s') \<and>
    (\<forall>x st. prefix (bc_bytes s') (ec_bc x) \<longrightarrow> chars_ok x \<longrightarrow> es_pc st = bc_size (sample_parse_state []) \<longrightarrow>
       exec_step x (\<lambda>h n. (h :: nat, True)) st = char_test x (\<lambda>h n. (h, True)) (bc_size s')
         (in_points (cr_pts \<lparr>cr_len = 2, cr_size = 2, cr_points = [97, 123], cr_realloc_func = zero_realloc\<rparr>)) st)"
  by (rule re_emit_range_matches)
    (simp_all add: sample_parse_state_ok cr_inv_def cr_canon_def cr_pts_def CR_MAX_def zero_realloc_ok)

end
