(* ===== verification/RegexpProgram.thy ===== *)
theory RegexpProgram
  imports RegexpRange
begin

unbundle bit_operations_syntax

section \<open>Whole programs: what \<^verbatim>\<open>lre_compile\<close> puts around a pattern, and how it runs\<close>

text \<open>
  The compiler around the code of a pattern without captures: the header, the loop over the start positions, the
  final checks and the header's fields; and the machine's steps through that frame. The properties of particular
  patterns rest on these lemmas.
\<close>

subsection \<open>States with known code\<close>

definition good_buf :: "'o DynBuf \<Rightarrow> bytes \<Rightarrow> bool" where
  "good_buf b bs \<longleftrightarrow> dbuf_inv b \<and> \<not> db_error b \<and> realloc_total (db_realloc b) \<and> dbuf_contents b = bs"

definition has_code :: "('o, 'h) REParseState \<Rightarrow> bytes \<Rightarrow> bool" where
  "has_code s bs \<longleftrightarrow> good_buf (ps_byte_code s) bs"

lemma has_code_simps:
  assumes "has_code s bs"
  shows "bc_bytes s = bs" and "bc_size s = length bs" and "\<not> bc_error s" and "realloc_total (bc_alloc s)"
    and "n + length bs < 2 ^ 64 \<Longrightarrow> bc_ok n s"
  using assms length_dbuf_contents [of "ps_byte_code s"]
  by (auto simp: has_code_def good_buf_def bc_bytes_def bc_size_def bc_error_def bc_alloc_def bc_ok_def)

lemma emits_code:
  assumes "emits d s r" and "has_code s bs"
  obtains b where "r = Some (s\<lparr>ps_byte_code := b\<rparr>)" and "good_buf b (bs @ d)"
  using assms has_code_simps [OF assms(2)] by (auto simp: emits_def good_buf_def has_code_def)

lemma has_code_buf [simp]: "has_code (s\<lparr>ps_byte_code := b\<rparr>) bs \<longleftrightarrow> good_buf b bs"
  by (simp add: has_code_def)

lemma has_code_other [simp]:
  "has_code (s\<lparr>ps_buf_ptr := p\<rparr>) bs \<longleftrightarrow> has_code s bs"
  "has_code (s\<lparr>ps_group_names := g\<rparr>) bs \<longleftrightarrow> has_code s bs"
  by (simp_all add: has_code_def)

text \<open>Patching replaces bytes in place.\<close>

lemma good_buf_blit:
  assumes "good_buf b bs" and "pos + length d \<le> length bs" and "blit (db_buf b) pos d = Some m"
  shows "good_buf (b\<lparr>db_buf := m\<rparr>) (take pos bs @ d @ drop (pos + length d) bs)"
proof -
  have l: "length (db_buf b) = db_allocated b" "db_size b \<le> db_allocated b" "bs = take (db_size b) (db_buf b)"
    using assms(1) by (simp_all add: good_buf_def dbuf_inv_def dbuf_contents_def)
  have m: "m = take pos (db_buf b) @ d @ drop (pos + length d) (db_buf b)"
    using assms(3) by (simp add: blit_def split: if_splits)
  have p: "pos + length d \<le> db_size b" using assms(2) l by simp
  have "take (db_size b) m = take pos bs @ d @ drop (pos + length d) bs"
    using p l by (simp add: m min.absorb1 min.absorb2 drop_take)
  moreover have "length m = db_allocated b" using p l by (simp add: m)
  ultimately show ?thesis using assms(1) by (simp add: good_buf_def dbuf_inv_def dbuf_contents_def)
qed

lemma good_buf_size: "good_buf b bs \<Longrightarrow> length bs = db_size b \<and> db_size b \<le> length (db_buf b)"
  by (auto simp: good_buf_def dbuf_inv_def dbuf_contents_def)

lemma poke_u32_code:
  assumes "has_code s bs" and "pos + 4 \<le> length bs"
  obtains b where "poke_u32 s pos v = Some (s\<lparr>ps_byte_code := b\<rparr>)" and "good_buf b (take pos bs @ le32 v @ drop (pos + 4) bs)"
proof -
  have "pos + length (le32 v) \<le> length (db_buf (ps_byte_code s))"
    using assms good_buf_size [of "ps_byte_code s" bs] by (simp add: has_code_def)
  then obtain m where m: "blit (db_buf (ps_byte_code s)) pos (le32 v) = Some m" by (simp add: blit_def)
  show ?thesis
  proof (rule that)
    show "poke_u32 s pos v = Some (s\<lparr>ps_byte_code := ps_byte_code s\<lparr>db_buf := m\<rparr>\<rparr>)"
      using m by (simp add: poke_u32_def put_u32_def le32_def)
    show "good_buf (ps_byte_code s\<lparr>db_buf := m\<rparr>) (take pos bs @ le32 v @ drop (pos + 4) bs)"
      using good_buf_blit [OF _ _ m, of bs] assms by (simp add: has_code_def)
  qed
qed

lemma poke_code:
  assumes "has_code s bs" and "pos < length bs"
  obtains b where "poke s pos v = Some (s\<lparr>ps_byte_code := b\<rparr>)" and "good_buf b (bs[pos := v])"
proof -
  have p: "pos < length (db_buf (ps_byte_code s))"
    using assms good_buf_size [of "ps_byte_code s" bs] by (simp add: has_code_def)
  let ?m = "(db_buf (ps_byte_code s))[pos := v]"
  have "good_buf (ps_byte_code s\<lparr>db_buf := ?m\<rparr>) (bs[pos := v])"
    using assms by (simp add: has_code_def good_buf_def dbuf_inv_def dbuf_contents_def take_update_swap)
  with p that [of "ps_byte_code s\<lparr>db_buf := ?m\<rparr>"] show ?thesis by (simp add: poke_def wr_def)
qed


text \<open>A gap is opened without losing code around it.\<close>

lemma insert_gap_code:
  assumes "has_code s bs" and "pos \<le> length bs" and "length bs + n < 2 ^ 64"
  obtains b gap where "insert_gap s pos n = Some (Some (), s\<lparr>ps_byte_code := b\<rparr>)" and "length gap = n"
    and "good_buf b (take pos bs @ gap @ drop pos bs)"
proof -
  let ?b = "ps_byte_code s"
  have bs: "dbuf_contents ?b = bs" and inv: "dbuf_inv ?b" and t: "realloc_total (db_realloc ?b)" "\<not> db_error ?b"
    and size: "db_size ?b = length bs"
    using assms(1) good_buf_size [of ?b bs] by (auto simp: has_code_def good_buf_def)
  obtain gap r b where gap: "length gap = n" and r: "dbuf_insert ?b pos n = Some (r, b)" "dbuf_inv b"
    "(r = 0 \<and> dbuf_contents b = take pos bs @ gap @ drop pos bs \<and> db_error b = db_error ?b) \<or> (r = - 1 \<and> db_error b)"
    using dbuf_insert_result [OF inv, of pos n] assms(2,3) size bs by (auto simp: dbuf_result_def)
  have "dbuf_frame ?b b"
    using r(1) dbuf_realloc_frame [of ?b] by (fastforce simp: dbuf_insert_def dbuf_frame_def split: if_splits bind_splits prod.splits)
  then have "db_realloc b = db_realloc ?b" "\<not> db_error b" using t by (auto simp: dbuf_frame_def)
  with r t have "insert_gap s pos n = Some (Some (), s\<lparr>ps_byte_code := b\<rparr>)" "good_buf b (take pos bs @ gap @ drop pos bs)"
    by (auto simp: insert_gap_def good_buf_def)
  with gap that show ?thesis by blast
qed

subsection \<open>The prologue\<close>

definition op_u32 :: "REOPCode \<Rightarrow> u32 \<Rightarrow> bytes" where "op_u32 op v = reop_code op # le32 v"

text \<open>The header, with its fields still zero, and the loop that tries every start position.\<close>

definition prologue :: bytes where
  "prologue = [0, 0, 0] @ le32 0 @ op_u32 REOP_split_goto_first 6 @ [reop_code REOP_any] @
     op_u32 REOP_goto (- 11) @ [reop_code REOP_save_start, 0]"

lemma length_prologue: "length prologue = 20"
  by (simp add: prologue_def op_u32_def)

lemma emits_of_op_u32:
  "bc_ok 5 s \<Longrightarrow> emits (op_u32 op v) s (Option.bind (re_emit_op_u32 s op v) (\<lambda>(_, s). Some s))"
  using re_emit_op_u32_emits [of s op v]
  by (cases "re_emit_op_u32 s op v") (auto simp: op_u32_def)

lemma emits_then:
  assumes "emits d s r" and "\<And>s'. bc_ok (length e) s' \<Longrightarrow> emits e s' (g s')" and "bc_ok (length (d @ e)) s"
  shows "emits (d @ e) s (Option.bind r g)"
  using assms by (intro emits_bind [where n = "length e"]) auto

lemma emit_prologue_emits:
  assumes "bc_ok 32 s" and "fl AND LRE_FLAG_STICKY = 0"
  shows "emits (fl # tl prologue) s (emit_prologue s fl)"
proof -
  have "emits ([fl] @ [0] @ [0] @ le32 0 @ op_u32 REOP_split_goto_first 6 @ [reop_code REOP_any] @
     op_u32 REOP_goto (- 11) @ [reop_code REOP_save_start, word_of_nat 0]) s
    (Option.bind (emit (\<lambda>b. dbuf_putc b fl) s) (\<lambda>s. Option.bind (emit (\<lambda>b. dbuf_putc b 0) s) (\<lambda>s.
     Option.bind (emit (\<lambda>b. dbuf_putc b 0) s) (\<lambda>s. Option.bind (emit (\<lambda>b. dbuf_put_u32 b 0) s) (\<lambda>s.
     Option.bind (Option.bind (re_emit_op_u32 s REOP_split_goto_first 6) (\<lambda>(_, s). Some s)) (\<lambda>s.
     Option.bind (re_emit_op s REOP_any) (\<lambda>s.
     Option.bind (Option.bind (re_emit_op_u32 s REOP_goto (- 11)) (\<lambda>(_, s). Some s)) (\<lambda>s.
     re_emit_op_u8 s REOP_save_start 0))))))))"
    using assms(1)
    by (intro emits_then emit_putc_emits emit_u32_emits emits_of_op_u32 re_emit_op_emits re_emit_op_u8_emits)
      (simp_all add: op_u32_def emits_mono_ok numeral_eq_Suc)
  then show ?thesis using assms(2) by (simp add: prologue_def emit_prologue_def case_prod_beta)
qed


subsection \<open>The end of the compilation\<close>

lemma stack_size_step:
  assumes "rd buf pos = Some (reop_code op)" and "pos + reopcode_size op \<le> len"
    and "op \<notin> {REOP_push_i32, REOP_push_char_pos, REOP_drop, REOP_check_advance, REOP_range, REOP_range32}"
  shows "stack_size_loop buf len pos k m = stack_size_loop buf len (pos + reopcode_size op) k m"
proof -
  have "op_len buf pos op = Some (reopcode_size op)" using assms(3) by (cases op) (simp_all add: op_len_def)
  with assms reopcode_size_pos [of op] show ?thesis
    by (subst stack_size_loop.simps) (simp del: reop_code.simps)
qed

lemma stack_size_end: "len \<le> pos \<Longrightarrow> stack_size_loop buf len pos k m = Some (int m)"
  by (subst stack_size_loop.simps) simp


text \<open>
  The code of a pattern without captures: the fields of the header, the loop over the start positions, the code
  \<open>mid\<close> of the pattern and the end.
\<close>

definition prog_body :: "bytes \<Rightarrow> bytes" where
  "prog_body mid = op_u32 REOP_split_goto_first 6 @ [reop_code REOP_any] @ op_u32 REOP_goto (- 11) @
     [reop_code REOP_save_start, 0] @ mid @ [reop_code REOP_save_end, 0] @ [reop_code REOP_match]"

definition program :: "bytes \<Rightarrow> bytes" where
  "program mid = [0, 1, 0] @ le32 (word_of_nat (length (prog_body mid))) @ prog_body mid"

lemma length_prog_body [simp]: "length (prog_body mid) = length mid + 16"
  by (simp add: prog_body_def op_u32_def)

text \<open>Code that \<^verbatim>\<open>compute_stack_size\<close> passes without using the stack.\<close>

definition stackless :: "bytes \<Rightarrow> bool" where
  "stackless mid \<longleftrightarrow> (\<forall>buf len pos. code_at buf pos mid \<longrightarrow> pos + length mid \<le> len \<longrightarrow>
     stack_size_loop buf len pos 0 0 = stack_size_loop buf len (pos + length mid) 0 0)"

lemma stackless_append: "stackless c \<Longrightarrow> stackless d \<Longrightarrow> stackless (c @ d)"
  by (auto simp: stackless_def code_at_append add.assoc [symmetric])

lemma stackless_op:
  assumes "Suc (length d) = reopcode_size op"
    and "op \<notin> {REOP_push_i32, REOP_push_char_pos, REOP_drop, REOP_check_advance, REOP_range, REOP_range32}"
  shows "stackless (reop_code op # d)"
  using assms stack_size_step [of _ _ op] by (auto simp: stackless_def code_at_Cons simp del: reop_code.simps)

lemma stack_size_prog_body:
  assumes "code_at buf 0 (prog_body mid)" and "len = length (prog_body mid)" and "stackless mid"
  shows "stack_size_loop buf len 0 0 0 = Some 0"
proof -
  have "stackless (prog_body mid)" unfolding prog_body_def op_u32_def
    using assms(3) by (intro stackless_append stackless_op) simp_all
  with assms(1,2) show ?thesis using stack_size_end [of len len buf 0 0] by (simp add: stackless_def)
qed

definition prog_raw :: "bytes \<Rightarrow> bytes" where
  "prog_raw mid = [0, 0, 0] @ le32 0 @ prog_body mid"

lemma good_buf_at: "good_buf b (h @ d) \<Longrightarrow> code_at (drop (length h) (db_buf b)) 0 d"
proof -
  assume "good_buf b (h @ d)"
  then have "take (db_size b) (db_buf b) = h @ d" "db_size b \<le> length (db_buf b)"
    by (auto simp: good_buf_def dbuf_inv_def dbuf_contents_def)
  then obtain e where "db_buf b = h @ d @ e" by (metis append.assoc append_take_drop_id)
  then show ?thesis by (simp add: code_at_iff)
qed

lemma emit_header_code:
  assumes "has_code s (prog_raw mid)" and "ps_capture_count s = 1" and "db_size (ps_group_names s) = 0"
  shows "\<exists>b. emit_header s 0 = Some (s\<lparr>ps_byte_code := b\<rparr>) \<and> good_buf b (program mid)"
proof -
  obtain b1 where b1: "poke s 1 1 = Some (s\<lparr>ps_byte_code := b1\<rparr>)" "good_buf b1 ((prog_raw mid)[1 := 1])"
    using assms(1) by (rule poke_code [where v = 1 and pos = 1]) (simp_all add: prog_raw_def)
  let ?s1 = "s\<lparr>ps_byte_code := b1\<rparr>"
  have "has_code ?s1 ((prog_raw mid)[1 := 1])" using b1 by simp
  then obtain b2 where b2: "poke ?s1 2 0 = Some (?s1\<lparr>ps_byte_code := b2\<rparr>)" "good_buf b2 ((prog_raw mid)[1 := 1, 2 := 0])"
    by (rule poke_code [where v = 0 and pos = 2]) (simp_all add: prog_raw_def)
  let ?s2 = "s\<lparr>ps_byte_code := b2\<rparr>"
  let ?len = "word_of_nat (bc_size ?s2 - 7)"
  have c2: "has_code ?s2 ((prog_raw mid)[1 := 1, 2 := 0])" using b2 by simp
  then obtain b3 where b3: "poke_u32 ?s2 3 ?len = Some (?s2\<lparr>ps_byte_code := b3\<rparr>)"
    "good_buf b3 (take 3 ((prog_raw mid)[1 := 1, 2 := 0]) @ le32 ?len @ drop (3 + 4) ((prog_raw mid)[1 := 1, 2 := 0]))"
    by (rule poke_u32_code [where v = ?len and pos = 3]) (simp_all add: prog_raw_def)
  have "take 3 ((prog_raw mid)[1 := 1, 2 := 0]) @ le32 ?len @ drop (3 + 4) ((prog_raw mid)[1 := 1, 2 := 0]) = program mid"
    using has_code_simps(2) [OF c2] by (simp add: prog_raw_def program_def numeral_eq_Suc)
  with b1 b2 b3 assms show ?thesis
    by (auto simp: emit_header_def)
qed

lemma compile_finish_code:
  assumes "has_code s (prologue @ mid)" and "ps_capture_count s = 1" and "db_size (ps_group_names s) = 0"
    and "rd (ps_buf s) (ps_buf_ptr s) = Some 0" and "length mid + 23 < 2 ^ 64" and "stackless mid"
  shows "\<exists>s'. compile_finish s = Some (Some (), s') \<and> has_code s' (program mid)"
proof -
  have three: "bc_ok 3 s" using has_code_simps(5) [OF assms(1), of 3] assms(5) by (simp add: length_prologue)
  have "emits ([reop_code REOP_save_end, word_of_nat 0] @ [reop_code REOP_match]) s
      (Option.bind (re_emit_op_u8 s REOP_save_end 0) (\<lambda>s. re_emit_op s REOP_match))"
    by (intro emits_then re_emit_op_u8_emits re_emit_op_emits) (auto intro: emits_mono_ok emits_mono_ok [OF three])
  then obtain b where b: "Option.bind (re_emit_op_u8 s REOP_save_end 0) (\<lambda>s. re_emit_op s REOP_match) = Some (s\<lparr>ps_byte_code := b\<rparr>)"
    "good_buf b ((prologue @ mid) @ [reop_code REOP_save_end, word_of_nat 0] @ [reop_code REOP_match])"
    using assms(1) by (rule emits_code)
  moreover have "(prologue @ mid) @ [reop_code REOP_save_end, word_of_nat 0] @ [reop_code REOP_match] = prog_raw mid"
    by (simp add: prologue_def prog_raw_def prog_body_def)
  ultimately have b2: "good_buf b (prog_raw mid)" by simp
  then have size: "db_size b = length mid + 23" and err: "\<not> dbuf_error b"
    using good_buf_size [OF b2] by (simp_all add: prog_raw_def good_buf_def dbuf_error_def)
  have "compute_stack_size (db_buf b) (db_size b) = Some 0"
    using stack_size_prog_body [OF good_buf_at [of b "[0, 0, 0] @ le32 0"], of mid "db_size b - 7"] b2 size assms(6)
    by (simp add: compute_stack_size_def prog_raw_def)
  moreover obtain c where c: "emit_header (s\<lparr>ps_byte_code := b\<rparr>) 0 = Some (s\<lparr>ps_byte_code := c\<rparr>)" "good_buf c (program mid)"
    using emit_header_code [of "s\<lparr>ps_byte_code := b\<rparr>" mid] assms b2 by auto
  moreover have "compile_finish s = Option.bind (Option.bind (re_emit_op_u8 s REOP_save_end 0) (\<lambda>s. re_emit_op s REOP_match))
    (\<lambda>s. do { b \<leftarrow> rd (ps_buf s) (ps_buf_ptr s);
     if b \<noteq> 0 then re_parse_error s ''extraneous characters at the end''
     else if dbuf_error (ps_byte_code s) then re_parse_out_of_memory s
     else do {
       stack_size \<leftarrow> compute_stack_size (db_buf (ps_byte_code s)) (bc_size s);
       if stack_size < 0 then re_parse_error s ''too many imbricated quantifiers''
       else do {
         s \<leftarrow> emit_header s stack_size;
         Some (Some (), s\<lparr>ps_group_names := dbuf_free (ps_group_names s)\<rparr>) } } })"
    by (simp add: compile_finish_def)
  ultimately show ?thesis using b(1) err assms(4) by (simp add: bc_size_def)
qed

text \<open>The whole compilation, from what the parser emits for the pattern.\<close>

lemma lre_compile_code:
  fixes f :: "'o realloc_fn" and opq :: 'o and h :: 'h and buf :: bytes and len :: nat
  defines "s0 \<equiv> compile_init f opq h buf len 0"
  assumes parse: "\<And>b. good_buf b prologue \<Longrightarrow> \<exists>c p. re_parse_disjunction depth E (s0\<lparr>ps_byte_code := b\<rparr>) False =
        Some (Some (), s0\<lparr>ps_byte_code := c, ps_buf_ptr := p\<rparr>) \<and> good_buf c (prologue @ mid) \<and> rd buf p = Some 0"
    and "length mid + 23 < 2 ^ 64" and "stackless mid"
    and "realloc_ok f" and "realloc_total f" and "error_msg \<noteq> []"
  shows "\<exists>m s. lre_compile depth E f opq h error_msg sz buf len 0 = Some (Some (program mid), m, s)"
proof -
  have i: "has_code s0 []"
    using assms(5,6) by (simp add: s0_def has_code_def good_buf_def compile_init_def dbuf_init2_def dbuf_inv_def dbuf_contents_def)
  have "emits (0 # tl prologue) s0 (emit_prologue s0 0)" using has_code_simps(5) [OF i] by (intro emit_prologue_emits) simp_all
  then have "emits prologue s0 (emit_prologue s0 0)" by (simp add: prologue_def)
  then obtain b where b: "emit_prologue s0 0 = Some (s0\<lparr>ps_byte_code := b\<rparr>)" "good_buf b ([] @ prologue)" using i by (rule emits_code)
  then obtain c p where c: "re_parse_disjunction depth E (s0\<lparr>ps_byte_code := b\<rparr>) False =
      Some (Some (), s0\<lparr>ps_byte_code := c, ps_buf_ptr := p\<rparr>)" "good_buf c (prologue @ mid)" "rd buf p = Some 0"
    using parse [of b] by auto
  have "\<exists>s'. compile_finish (s0\<lparr>ps_byte_code := c, ps_buf_ptr := p\<rparr>) = Some (Some (), s') \<and> has_code s' (program mid)"
    using c(2,3) assms(3,4) by (intro compile_finish_code) (simp_all add: s0_def compile_init_def dbuf_init2_def has_code_def)
  then obtain s' where s': "compile_finish (s0\<lparr>ps_byte_code := c, ps_buf_ptr := p\<rparr>) = Some (Some (), s')"
    "has_code s' (program mid)" by blast
  have "slice (db_buf (ps_byte_code s')) 0 (bc_size s') = Some (program mid)"
    using s'(2) by (auto simp: has_code_def good_buf_def dbuf_contents_def dbuf_inv_def bc_size_def slice_def)
  moreover obtain m where "wr error_msg 0 0 = Some m" using assms(7) by (simp add: wr_def)
  ultimately show ?thesis using b(1) c(1) s'(1)
    by (simp add: lre_compile_def ok_def s0_def del: re_parse_disjunction.simps)
qed

subsection \<open>Runs of the machine\<close>

lemma lre_exec_backtrack_add:
  "lre_exec_backtrack (m + n) x al st =
     Option.bind (lre_exec_backtrack m x al st)
       (\<lambda>r. case r of Running st \<Rightarrow> lre_exec_backtrack n x al st | Finished ret st \<Rightarrow> Some (Finished ret st))"
  by (induction m arbitrary: st) (auto split: bind_splits exec_outcome.splits)

definition reach :: "REExecContext \<Rightarrow> 'k lre_alloc \<Rightarrow> 'k exec_state \<Rightarrow> 'k exec_outcome \<Rightarrow> bool" where
  "reach x al st r \<longleftrightarrow> (\<exists>k. lre_exec_backtrack k x al st = Some r)"

lemma reach_refl: "reach x al st (Running st)"
  unfolding reach_def by (rule exI [of _ 0]) simp

lemma reach_trans: "reach x al st (Running st') \<Longrightarrow> reach x al st' r \<Longrightarrow> reach x al st r"
  unfolding reach_def by (metis (mono_tags, lifting) bind.bind_lunit exec_outcome.simps(5) lre_exec_backtrack_add)

lemma reach_step: "exec_step x al st = Some r \<Longrightarrow> reach x al st r"
  unfolding reach_def by (rule exI [of _ 1]) (simp split: exec_outcome.splits)

lemma reach_finished:
  assumes "reach x al st (Finished ret st')"
  shows "\<exists>k. \<forall>n\<ge>k. lre_exec_backtrack n x al st = Some (Finished ret st')"
proof -
  obtain k where "lre_exec_backtrack k x al st = Some (Finished ret st')" using assms by (auto simp: reach_def)
  then have "lre_exec_backtrack (k + n) x al st = Some (Finished ret st')" for n by (simp add: lre_exec_backtrack_add)
  then show ?thesis by (metis le_Suc_ex)
qed

lemma exec_step_at: "code_at (ec_bc x) (es_pc st) (reop_code op # d) \<Longrightarrow> exec_step x al st = exec_op x al op (es_pc st + 1) st"
  by (simp add: exec_step_def code_at_Cons del: reop_code.simps)

subsection \<open>The search for a start position\<close>

text \<open>A context for an 8-bit subject, without flags.\<close>

definition plain_ctx :: "REExecContext \<Rightarrow> u16 list \<Rightarrow> bool" where
  "plain_ctx x t \<longleftrightarrow> ec_cbuf x = t \<and> ec_cbuf_end x = length t \<and> ec_cbuf_type x = 0 \<and> \<not> ec_ignore_case x \<and>
     ec_capture_count x = 1 \<and> ec_stack_size_max x = 0"

definition prog_ctx :: "bytes \<Rightarrow> u16 list \<Rightarrow> REExecContext" where
  "prog_ctx mid t = \<lparr>ec_bc = program mid, ec_cbuf = t, ec_cbuf_end = length t, ec_cbuf_type = 0, ec_capture_count = 1,
     ec_stack_size_max = 0, ec_multi_line = False, ec_ignore_case = False, ec_is_unicode = False\<rparr>"

lemma plain_prog_ctx: "plain_ctx (prog_ctx mid t) t"
  by (simp add: plain_ctx_def prog_ctx_def)

lemma exec_context_program: "exec_context (program mid) t (length t) 0 = Some (prog_ctx mid t)"
  by (simp add: exec_context_def prog_ctx_def lre_get_flags_def lre_get_capture_count_def program_def rd_def)

lemma prog_code_at:
  "code_at (ec_bc (prog_ctx mid t)) 7 (reop_code REOP_split_goto_first # le32 6)"
  "code_at (ec_bc (prog_ctx mid t)) 12 [reop_code REOP_any]"
  "code_at (ec_bc (prog_ctx mid t)) 13 (reop_code REOP_goto # le32 (- 11))"
  "code_at (ec_bc (prog_ctx mid t)) 18 [reop_code REOP_save_start, 0]"
  "code_at (ec_bc (prog_ctx mid t)) 20 (mid)"
  "code_at (ec_bc (prog_ctx mid t)) (20 + length mid) [reop_code REOP_save_end, 0]"
  "code_at (ec_bc (prog_ctx mid t)) (22 + length mid) [reop_code REOP_match]"
proof -
  have "code_at (program mid) 0 (program mid)" by (simp add: code_at_iff)
  then have "code_at (program mid) 7 (prog_body mid)"
    by (simp add: program_def code_at_append code_at_Cons)
  then show "code_at (ec_bc (prog_ctx mid t)) 7 (reop_code REOP_split_goto_first # le32 6)"
    "code_at (ec_bc (prog_ctx mid t)) 12 [reop_code REOP_any]"
    "code_at (ec_bc (prog_ctx mid t)) 13 (reop_code REOP_goto # le32 (- 11))"
    "code_at (ec_bc (prog_ctx mid t)) 18 [reop_code REOP_save_start, 0]"
    "code_at (ec_bc (prog_ctx mid t)) 20 (mid)"
    "code_at (ec_bc (prog_ctx mid t)) (20 + length mid) [reop_code REOP_save_end, 0]"
    "code_at (ec_bc (prog_ctx mid t)) (22 + length mid) [reop_code REOP_match]"
    by (simp_all add: prog_body_def prog_ctx_def op_u32_def code_at_append code_at_Cons add.commute add.left_commute
        del: reop_code.simps)
qed

text \<open>The machine between two attempts: at the start of the loop, with an empty state stack.\<close>

definition start_state :: "nat \<Rightarrow> nat option list \<Rightarrow> nat \<Rightarrow> 'k \<Rightarrow> 'k exec_state" where
  "start_state i cap sz h = \<lparr>es_pc = 7, es_cptr = i, es_capture = cap, es_stack = [], es_stack_len = 0,
     es_frames = [], es_states = [], es_states_size = sz, es_heap = h\<rparr>"

definition start_saved :: "nat \<Rightarrow> nat option list \<Rightarrow> REExecState" where
  "start_saved i cap = \<lparr>rs_type = RE_EXEC_STATE_SPLIT, rs_stack_len = 0, rs_count = 0, rs_cptr = i, rs_pc = 12,
     rs_capture = cap, rs_stack = []\<rparr>"

text \<open>The state that starts an attempt at \<open>i\<close>: the retry is saved.\<close>

definition attempt_state :: "nat \<Rightarrow> nat option list \<Rightarrow> nat \<Rightarrow> 'k \<Rightarrow> 'k exec_state" where
  "attempt_state i cap sz h = (start_state i cap sz h)\<lparr>es_pc := 20, es_capture := cap[0 := Some i], es_states := [start_saved i cap]\<rparr>"

lemma jump_simps: "jump 12 6 = Some 18" "jump 18 (- 11) = Some 7"
  by (simp_all add: jump_def)

lemma push_start_saved:
  assumes al: "\<And>h n. snd (al h n)" and cap: "length cap = 2"
  shows "\<exists>sz' h'. push_state (prog_ctx mid t) al (start_state i cap sz h) 0 12 i RE_EXEC_STATE_SPLIT 0 =
      Some (True, (start_state i cap sz' h')\<lparr>es_states := [start_saved i cap]\<rparr>)"
proof -
  obtain h' where "al h 384 = (h', True)" using al [of h 384] by (cases "al h 384") simp
  then show ?thesis using cap
    by (cases "sz = 0") (auto simp: push_state_def start_state_def prog_ctx_def start_saved_def slice_def state_size_def
      sizeof_REExecState_def Let_def)
qed

lemma reach_attempt:
  assumes al: "\<And>h n. snd (al h n)" and cap: "length cap = 2"
  shows "\<exists>sz' h'. reach (prog_ctx mid t) al (start_state i cap sz h) (Running (attempt_state i cap sz' h'))"
proof -
  let ?x = "prog_ctx mid t"
  obtain sz' h' where p: "push_state ?x al (start_state i cap sz h) 0 12 i RE_EXEC_STATE_SPLIT 0 =
      Some (True, (start_state i cap sz' h')\<lparr>es_states := [start_saved i cap]\<rparr>)"
    using push_start_saved [of al cap mid t i sz h] assms by blast
  let ?s = "(start_state i cap sz' h')\<lparr>es_states := [start_saved i cap], es_pc := 18\<rparr>"
  have "get_u32 (ec_bc ?x) 8 = Some 6" using prog_code_at(1) [of mid t] by (auto simp: code_at_Cons dest: get_u32_at)
  then have "exec_step ?x al (start_state i cap sz h) = Some (Running ?s)"
    using exec_step_at [of ?x "start_state i cap sz h" REOP_split_goto_first "le32 6" al] prog_code_at(1) [of mid t] p
    by (simp add: exec_op_def op_push_def start_state_def jump_simps del: reop_code.simps)
  then have "reach ?x al (start_state i cap sz h) (Running ?s)" by (rule reach_step)
  moreover have "exec_step ?x al ?s = Some (Running (attempt_state i cap sz' h'))"
    using exec_step_at [of ?x ?s REOP_save_start "[0]" al] prog_code_at(4) [of mid t] cap
    by (auto simp: exec_op_def attempt_state_def start_state_def prog_ctx_def wr_def code_at_Cons simp del: reop_code.simps)
  then have "reach ?x al ?s (Running (attempt_state i cap sz' h'))" by (rule reach_step)
  ultimately show ?thesis using reach_trans by blast
qed

text \<open>A sample environment for witnesses, whose tables are never consulted for ASCII patterns.\<close>

definition sample_env :: "unit re_env" where
  "sample_env = \<lparr>env_realloc = zero_realloc,
     env_tables = \<lparr>gc_name_table = [], gc_table = [], script_name_table = [], script_table = [], script_ext_table = [],
       prop_name_table = [], prop_table = []\<rparr>,
     env_id_start_table = [], env_id_start_index = [], env_id_continue1_table = [], env_id_continue1_index = []\<rparr>"


end
