(* ===== verification/RegexpLiteral.thy ===== *)
theory RegexpLiteral
  imports RegexpProgram
begin

unbundle bit_operations_syntax

section \<open>Compiling and running a literal pattern\<close>

text \<open>
  The compiler and the machine together: a pattern of ordinary ASCII characters is compiled to code
  that finds its leftmost occurrence in the subject. The first part computes the code that the parser
  emits, the second the run of \<^verbatim>\<open>lre_exec\<close> on it.
\<close>

subsection \<open>Terms\<close>

definition plain :: "byte \<Rightarrow> bool" where
  "plain b \<longleftrightarrow> b < 128 \<and>
     b \<notin> {0, 0x24, 0x28, 0x29, 0x2a, 0x2b, 0x2e, 0x3f, 0x5b, 0x5c, 0x5d, 0x5e, 0x7b, 0x7c, 0x7d}"

definition char_code :: "byte \<Rightarrow> bytes" where
  "char_code b = reop_code REOP_char # le16 (ucast b)"

lemma length_char_code [simp]: "length (char_code b) = 3"
  by (simp add: char_code_def)

definition no_quantifier :: "byte \<Rightarrow> bool" where
  "no_quantifier b \<longleftrightarrow> b \<notin> {0x2a, 0x2b, 0x3f, 0x7b}"

lemma emit_char_plain:
  assumes "b < 128" and "bc_ok 3 s" and "\<not> ps_ignore_case s"
  shows "\<exists>r. emits (char_code b) s r \<and> emit_char s (uint b) None = Option.bind r (\<lambda>s. Some (Some (), s))"
proof -
  have n: "unat b < 128" using assms(1) by (simp add: word_less_nat_alt)
  then have i: "uint b < 128" by (metis of_nat_less_iff of_nat_numeral uint_nat)
  have w: "(word_of_int (uint b) :: u32) = ucast b" by simp
  have u: "unat (ucast b :: u32) = unat b" using n by (simp add: unat_ucast_mod)
  then have le: "(ucast b :: u32) \<le> 0xffff" using n by (simp add: word_le_nat_alt)
  have "(word_of_nat (unat b) :: u16) = ucast b" using n by (simp add: word_unat_eq_iff unat_of_nat unat_ucast_mod)
  then have "emits (char_code b) s (re_emit_op_u16 s REOP_char (unat (ucast b :: u32)))"
    using re_emit_op_u16_emits [OF assms(2), of REOP_char "unat b"] u by (simp add: char_code_def)
  moreover have "emit_char s (uint b) None = Option.bind (re_emit_op_u16 s REOP_char (unat (ucast b :: u32))) (\<lambda>s. Some (Some (), s))"
    using i le assms(3) by (simp add: emit_char_def CLASS_RANGE_BASE_def w)
  ultimately show ?thesis by blast
qed

lemma re_parse_atom_plain:
  assumes "rd (ps_buf s) (ps_buf_ptr s) = Some b" and "plain b" and "bc_ok 3 s" and "\<not> ps_ignore_case s"
  shows "\<exists>r. emits (char_code b) s r \<and>
    re_parse_atom E nested s False = Option.bind r (\<lambda>s'. Some (Some (Some (bc_size s), ps_capture_count s', ps_buf_ptr s + 1), s'))"
proof -
  obtain r where r: "emits (char_code b) s r" "emit_char s (uint b) None = Option.bind r (\<lambda>s. Some (Some (), s))"
    using emit_char_plain [of b s] assms by (auto simp: plain_def)
  have nc: "normal_char E s b (ps_buf_ptr s) = Some (Some (uint b, None, ps_buf_ptr s + 1), s)"
    using assms(2) by (auto simp: normal_char_def plain_def dest: leD)
  have "get_class_atom E s (ps_buf_ptr s) False = Some (Some (uint b, None, ps_buf_ptr s + 1), s)"
    using assms(1,2) nc by (simp add: get_class_atom_def plain_def)
  then have "re_parse_atom E nested s False = emit_atom s (uint b) None (ps_buf_ptr s + 1) False"
    using assms(1,2) by (simp add: re_parse_atom_def parse_class_atom_def plain_def ok_def)
  also have "\<dots> = Option.bind r (\<lambda>s'. Some (Some (Some (bc_size s), ps_capture_count s', ps_buf_ptr s + 1), s'))"
    using r(2) by (cases r) (simp_all add: emit_atom_def emit_if_def ok_def)
  finally show ?thesis using r(1) by blast
qed

lemma re_parse_term_plain:
  assumes "rd (ps_buf s) (ps_buf_ptr s) = Some b" and "plain b" and "bc_ok 3 s" and "\<not> ps_ignore_case s"
    and "rd (ps_buf s) (ps_buf_ptr s + 1) = Some b'" and "no_quantifier b'"
  shows "\<exists>s'. emits (char_code b) s (Some s') \<and>
    re_parse_term E nested s False = Some (Some (), s'\<lparr>ps_buf_ptr := ps_buf_ptr s + 1\<rparr>)"
proof -
  obtain r where r: "emits (char_code b) s r"
    "re_parse_atom E nested s False = Option.bind r (\<lambda>s'. Some (Some (Some (bc_size s), ps_capture_count s', ps_buf_ptr s + 1), s'))"
    using re_parse_atom_plain [OF assms(1-4)] by blast
  then obtain c where c: "r = Some (s\<lparr>ps_byte_code := c\<rparr>)" by (auto simp: emits_def)
  have "re_parse_quantifier (s\<lparr>ps_byte_code := c\<rparr>) (ps_buf_ptr s + 1) = Some (Some (None, ps_buf_ptr s + 1), s\<lparr>ps_byte_code := c\<rparr>)"
    using assms(5,6) by (simp add: re_parse_quantifier_def no_quantifier_def)
  with r c show ?thesis by (auto simp: re_parse_term_def ok_def)
qed


definition lit_code :: "bytes \<Rightarrow> bytes" where
  "lit_code w = concat (map char_code w)"

lemma lit_code_simps [simp]:
  "lit_code [] = []" "lit_code (b # w) = char_code b @ lit_code w" "length (lit_code w) = 3 * length w"
  by (induction w) (simp_all add: lit_code_def)

lemma no_quantifier_next:
  assumes "list_all plain w"
  shows "\<exists>b. rd (pre @ w @ [0]) (length pre) = Some b \<and> no_quantifier b \<and> (w \<noteq> [] \<longrightarrow> b = hd w \<and> plain b)"
  using assms by (cases w) (auto simp: rd_def nth_append no_quantifier_def plain_def)

lemma alternative_loop_plain:
  assumes "ps_buf s = pre @ w @ [0]" and "ps_buf_ptr s = length pre" and "ps_buf_end s = length pre + length w"
    and "list_all plain w" and "length w < n" and "has_code s bs" and "length bs + 3 * length w < 2 ^ 64"
    and "\<not> ps_ignore_case s"
  shows "\<exists>b. alternative_loop n E nested s False start =
      Some (Some (), s\<lparr>ps_byte_code := b, ps_buf_ptr := length pre + length w\<rparr>) \<and> good_buf b (bs @ lit_code w)"
  using assms
proof (induction w arbitrary: n s pre bs)
  case Nil
  then obtain m where "n = Suc m" by (cases n) auto
  with Nil show ?case by (intro exI [of _ "ps_byte_code s"]) (simp add: has_code_def)
next
  case (Cons c w)
  then obtain m where m: "n = Suc m" "length w < m" by (cases n) auto
  have next1: "rd (ps_buf s) (ps_buf_ptr s) = Some c" and "plain c" using Cons.prems by (auto simp: rd_def nth_append)
  obtain d where d: "rd (ps_buf s) (ps_buf_ptr s + 1) = Some d" "no_quantifier d"
    using no_quantifier_next [of w "pre @ [c]"] Cons.prems by auto
  obtain s1 where s1: "emits (char_code c) s (Some s1)"
    "re_parse_term E nested s False = Some (Some (), s1\<lparr>ps_buf_ptr := ps_buf_ptr s + 1\<rparr>)"
    using re_parse_term_plain [OF next1 \<open>plain c\<close> _ _ d] has_code_simps(5) [OF Cons.prems(6), of 3] Cons.prems by auto
  from s1(1) Cons.prems(6) obtain b1 where b1: "s1 = s\<lparr>ps_byte_code := b1\<rparr>" "good_buf b1 (bs @ char_code c)"
    by (rule emits_code) auto
  let ?s = "s\<lparr>ps_byte_code := b1, ps_buf_ptr := ps_buf_ptr s + 1\<rparr>"
  have "\<exists>b. alternative_loop m E nested ?s False start =
      Some (Some (), ?s\<lparr>ps_byte_code := b, ps_buf_ptr := length (pre @ [c]) + length w\<rparr>) \<and>
      good_buf b ((bs @ char_code c) @ lit_code w)"
    using Cons.prems m b1 by (intro Cons.IH) auto
  then obtain b where b: "alternative_loop m E nested ?s False start =
      Some (Some (), ?s\<lparr>ps_byte_code := b, ps_buf_ptr := length (pre @ [c]) + length w\<rparr>)"
      "good_buf b ((bs @ char_code c) @ lit_code w)" by blast
  moreover have "c \<noteq> 0x7c" "c \<noteq> 0x29" using \<open>plain c\<close> by (auto simp: plain_def)
  ultimately have "alternative_loop n E nested s False start =
      Some (Some (), s\<lparr>ps_byte_code := b, ps_buf_ptr := length pre + length (c # w)\<rparr>)"
    using m(1) next1 s1(2) b1(1) Cons.prems(2,3) by (simp add: ok_def)
  with b(2) show ?case by auto
qed

text \<open>A whole disjunction of one literal alternative.\<close>

lemma re_parse_disjunction_plain:
  assumes "ps_buf s = w @ [0]" and "ps_buf_ptr s = 0" and "ps_buf_end s = length w"
    and "list_all plain w" and "has_code s bs" and "length bs + 3 * length w < 2 ^ 64" and "\<not> ps_ignore_case s"
  shows "\<exists>b. re_parse_disjunction (Suc k) E s False =
      Some (Some (), s\<lparr>ps_byte_code := b, ps_buf_ptr := length w\<rparr>) \<and> good_buf b (bs @ lit_code w)"
proof -
  obtain b where "re_parse_alternative E (re_parse_disjunction k E) s False =
      Some (Some (), s\<lparr>ps_byte_code := b, ps_buf_ptr := length w\<rparr>)" "good_buf b (bs @ lit_code w)"
    using alternative_loop_plain [of s "[]" w "length (ps_buf s) + 1" bs E "re_parse_disjunction k E" "bc_size s"] assms
    by (auto simp: re_parse_alternative_def)
  then show ?thesis using assms(1) by (auto simp: ok_def rd_def)
qed



lemma stackless_lit_code: "stackless (lit_code w)"
proof (induction w)
  case (Cons b w)
  have "stackless (char_code b)" unfolding char_code_def by (rule stackless_op) simp_all
  with Cons show ?case by (simp add: stackless_append)
qed (simp add: stackless_def)

lemma lre_compile_plain:
  assumes "list_all plain w" and "3 * length w + 23 < 2 ^ 64" and "realloc_ok f" and "realloc_total f" and "error_msg \<noteq> []"
  shows "\<exists>m s. lre_compile (Suc k) E f opq h error_msg sz (w @ [0]) (length w) 0 = Some (Some (program (lit_code w)), m, s)"
proof (rule lre_compile_code)
  let ?s = "compile_init f opq h (w @ [0]) (length w) 0"
  fix b :: "'a DynBuf" assume "good_buf b prologue"
  then have "\<exists>c. re_parse_disjunction (Suc k) E (?s\<lparr>ps_byte_code := b\<rparr>) False =
      Some (Some (), ?s\<lparr>ps_byte_code := b\<rparr>\<lparr>ps_byte_code := c, ps_buf_ptr := length w\<rparr>) \<and> good_buf c (prologue @ lit_code w)"
    using assms(1,2) by (intro re_parse_disjunction_plain) (simp_all add: compile_init_def length_prologue has_code_def)
  then obtain c where "re_parse_disjunction (Suc k) E (?s\<lparr>ps_byte_code := b\<rparr>) False =
      Some (Some (), ?s\<lparr>ps_byte_code := c, ps_buf_ptr := length w\<rparr>)" "good_buf c (prologue @ lit_code w)" by auto
  then show "\<exists>c p. re_parse_disjunction (Suc k) E (?s\<lparr>ps_byte_code := b\<rparr>) False =
        Some (Some (), ?s\<lparr>ps_byte_code := c, ps_buf_ptr := p\<rparr>) \<and> good_buf c (prologue @ lit_code w) \<and> rd (w @ [0]) p = Some 0"
    by (intro exI [of _ c] exI [of _ "length w"]) (simp add: rd_def del: re_parse_disjunction.simps)
qed (use assms stackless_lit_code in auto)

subsection \<open>Running the literal\<close>

text \<open>The pattern occurs at position \<open>i\<close> of the subject.\<close>

definition occurs :: "bytes \<Rightarrow> u16 list \<Rightarrow> nat \<Rightarrow> bool" where
  "occurs w t i \<longleftrightarrow> i + length w \<le> length t \<and> take (length w) (drop i t) = map ucast w"

lemma occurs_Nil [simp]: "occurs [] t i \<longleftrightarrow> i \<le> length t"
  by (simp add: occurs_def)

lemma occurs_Cons: "occurs (b # w) t i \<longleftrightarrow> i < length t \<and> t ! i = ucast b \<and> occurs w t (i + 1)"
  by (auto simp: occurs_def take_Suc_conv_app_nth Cons_nth_drop_Suc [symmetric])

lemma ucast_u16_inj: "(ucast (u :: u16) :: u32) = ucast v \<longleftrightarrow> u = v"
  using unsigned_less [where w = u and ?'a = nat] unsigned_less [where w = v and ?'a = nat]
  by (simp add: word_unat_eq_iff unat_ucast_mod)

lemma exec_char_code:
  assumes "plain_ctx x t" and "code_at (ec_bc x) (es_pc st) (char_code b)"
  shows "exec_step x al st =
    (if es_cptr st < length t \<and> t ! es_cptr st = ucast b
     then Some (Running (st\<lparr>es_pc := es_pc st + 3, es_cptr := es_cptr st + 1\<rparr>))
     else no_match x al (if es_cptr st < length t then st\<lparr>es_cptr := es_cptr st + 1\<rparr> else st))"
proof -
  have "get_u16 (ec_bc x) (es_pc st + 1) = Some (ucast (ucast b :: u16))"
    using assms(2) by (auto simp: char_code_def code_at_Cons dest: get_u16_at)
  then show ?thesis
    using assms exec_step_at [of x st REOP_char "le16 (ucast b)" al] ucast_u16_inj [of "t ! es_cptr st" "ucast b"]
    by (auto simp: char_code_def exec_op_def op_char_def with_char_def GET_CHAR_def plain_ctx_def canon_def rd_def)
qed

lemma reach_lit_code:
  assumes "plain_ctx x t" and "code_at (ec_bc x) (es_pc st) (lit_code w)" and "occurs w t (es_cptr st)"
  shows "reach x al st (Running (st\<lparr>es_pc := es_pc st + 3 * length w, es_cptr := es_cptr st + length w\<rparr>))"
  using assms(2,3)
proof (induction w arbitrary: st)
  case (Cons b w)
  let ?st = "st\<lparr>es_pc := es_pc st + 3, es_cptr := es_cptr st + 1\<rparr>"
  have "reach x al st (Running ?st)"
    using Cons.prems by (intro reach_step) (simp add: exec_char_code [OF assms(1), of st b] code_at_append occurs_Cons)
  moreover have "reach x al ?st (Running (?st\<lparr>es_pc := es_pc ?st + 3 * length w, es_cptr := es_cptr ?st + length w\<rparr>))"
    using Cons.prems by (intro Cons.IH) (simp_all add: code_at_append occurs_Cons)
  ultimately show ?case using reach_trans by (fastforce simp: algebra_simps)
qed (use reach_refl in simp)

text \<open>When the pattern does not occur, the run ends in \<^verbatim>\<open>no_match\<close> at some position.\<close>

lemma reach_no_match:
  assumes "plain_ctx x t" and "code_at (ec_bc x) (es_pc st) (lit_code w)" and "\<not> occurs w t (es_cptr st)"
    and "es_cptr st \<le> length t" and "\<And>pc j. no_match x al (st\<lparr>es_pc := pc, es_cptr := j\<rparr>) = Some r"
  shows "reach x al st r"
  using assms(2-5)
proof (induction w arbitrary: st)
  case (Cons b w)
  let ?st = "st\<lparr>es_pc := es_pc st + 3, es_cptr := es_cptr st + 1\<rparr>"
  note step = exec_char_code [OF assms(1), of st b al]
  show ?case
  proof (cases "es_cptr st < length t \<and> t ! es_cptr st = ucast b")
    case True
    then have "reach x al st (Running ?st)"
      using Cons.prems by (intro reach_step) (simp add: step code_at_append)
    moreover have "reach x al ?st r"
      using Cons.prems True by (intro Cons.IH) (auto simp: code_at_append occurs_Cons)
    ultimately show ?thesis by (rule reach_trans)
  next
    case False
    have id: "st\<lparr>es_pc := es_pc st, es_cptr := j\<rparr> = st\<lparr>es_cptr := j\<rparr>" "st\<lparr>es_cptr := es_cptr st\<rparr> = st" for j by simp_all
    then have "no_match x al st = Some r" "no_match x al (st\<lparr>es_cptr := es_cptr st + 1\<rparr>) = Some r"
      using Cons.prems(4) [where pc = "es_pc st"] by metis+
    then have "exec_step x al st = Some r" using Cons.prems(1) False by (auto simp: step code_at_append)
    then show ?thesis by (rule reach_step)
  qed
qed simp


text \<open>An attempt that succeeds, and one that fails: the next position is tried, or there is none.\<close>

lemma reach_success:
  assumes "occurs w t i" and "length cap = 2"
  shows "\<exists>st. reach (prog_ctx (lit_code w) t) al (attempt_state i cap sz h) (Finished 1 st) \<and>
    es_capture st = [Some i, Some (i + length w)]"
proof -
  let ?x = "prog_ctx (lit_code w) t" and ?st = "attempt_state i cap sz h"
  let ?n = "length w"
  let ?s1 = "?st\<lparr>es_pc := 20 + 3 * ?n, es_cptr := i + ?n\<rparr>"
  let ?s2 = "?s1\<lparr>es_pc := 22 + 3 * ?n, es_capture := cap[0 := Some i, 1 := Some (i + ?n)]\<rparr>"
  have "reach ?x al ?st (Running ?s1)"
    using reach_lit_code [OF plain_prog_ctx [of "lit_code w" t], of ?st w al] prog_code_at(5) [of "lit_code w" t] assms
    by (simp add: attempt_state_def start_state_def)
  moreover have "exec_step ?x al ?s1 = Some (Running ?s2)"
    using exec_step_at [of ?x ?s1 REOP_save_end "[0]" al] prog_code_at(6) [of "lit_code w" t] assms(2)
    by (auto simp: exec_op_def attempt_state_def start_state_def prog_ctx_def wr_def code_at_Cons simp del: reop_code.simps)
  moreover have "exec_step ?x al ?s2 = Some (Finished 1 (?s2\<lparr>es_states := []\<rparr>))"
    using exec_step_at [of ?x ?s2 REOP_match "[]" al] prog_code_at(7) [of "lit_code w" t]
    by (simp add: exec_op_def op_match_def attempt_state_def start_state_def start_saved_def del: reop_code.simps)
  ultimately have "reach ?x al ?st (Finished 1 (?s2\<lparr>es_states := []\<rparr>))" by (blast intro: reach_step reach_trans)
  moreover have "cap[0 := Some i, 1 := Some (i + ?n)] = [Some i, Some (i + ?n)]"
    using assms(2) by (auto simp: numeral_2_eq_2 length_Suc_conv)
  ultimately show ?thesis by (intro exI [of _ "?s2\<lparr>es_states := []\<rparr>"]) simp
qed

lemma reach_failure:
  assumes "\<not> occurs w t i" and "length cap = 2" and "i \<le> length t"
  shows "if i < length t then reach (prog_ctx (lit_code w) t) al (attempt_state i cap sz h) (Running (start_state (i + 1) cap sz h))
    else \<exists>st. reach (prog_ctx (lit_code w) t) al (attempt_state i cap sz h) (Finished 0 st)"
proof -
  let ?x = "prog_ctx (lit_code w) t" and ?st = "attempt_state i cap sz h"
  let ?s1 = "(start_state i cap sz h)\<lparr>es_pc := 12\<rparr>"
  have "no_match ?x al (?st\<lparr>es_pc := pc, es_cptr := j\<rparr>) = Some (Running ?s1)" for pc j
    using assms(2) by (simp add: no_match_def attempt_state_def start_state_def start_saved_def pop_state_def pop_state1_def
      restore_capture_def restore_stack_def slice_def blit_def prog_ctx_def)
  then have r1: "reach ?x al ?st (Running ?s1)"
    using assms prog_code_at(5) [of "lit_code w" t]
    by (intro reach_no_match [OF plain_prog_ctx, where w = w]) (simp_all add: attempt_state_def start_state_def)
  note any = exec_step_at [of ?x ?s1 REOP_any "[]" al]
  show ?thesis
  proof (cases "i < length t")
    case True
    let ?s2 = "(start_state (i + 1) cap sz h)\<lparr>es_pc := 13\<rparr>"
    have "exec_step ?x al ?s1 = Some (Running ?s2)"
      using any prog_code_at(2) [of "lit_code w" t] True
      by (simp add: exec_op_def start_state_def prog_ctx_def GET_CHAR_def rd_def del: reop_code.simps)
    moreover have "get_u32 (ec_bc ?x) 14 = Some (- 11)" using prog_code_at(3) [of "lit_code w" t] by (auto simp: code_at_Cons dest: get_u32_at)
    then have "exec_step ?x al ?s2 = Some (Running (start_state (i + 1) cap sz h))"
      using exec_step_at [of ?x ?s2 REOP_goto "le32 (- 11)" al] prog_code_at(3) [of "lit_code w" t]
      by (simp add: exec_op_def start_state_def jump_simps del: reop_code.simps)
    ultimately have "reach ?x al ?st (Running (start_state (i + 1) cap sz h))" using r1 by (blast intro: reach_step reach_trans)
    then show ?thesis using True by simp
  next
    case False
    then have "exec_step ?x al ?s1 = Some (Finished 0 (?s1\<lparr>es_states := []\<rparr>))"
      using any prog_code_at(2) [of "lit_code w" t] assms(3)
      by (simp add: exec_op_def start_state_def prog_ctx_def no_match_def del: reop_code.simps)
    with r1 have "reach ?x al ?st (Finished 0 (?s1\<lparr>es_states := []\<rparr>))" by (blast intro: reach_step reach_trans)
    then show ?thesis using False by auto
  qed
qed

text \<open>The first occurrence at or behind \<open>i\<close>.\<close>

fun find_from :: "bytes \<Rightarrow> u16 list \<Rightarrow> nat \<Rightarrow> nat \<Rightarrow> nat option" where
  "find_from w t 0 i = None"
| "find_from w t (Suc n) i = (if occurs w t i then Some i else find_from w t n (i + 1))"

lemma reach_search:
  assumes al: "\<And>h n. snd (al h n)" and cap: "length cap = 2" and "n = Suc (length t - i)" and "i \<le> length t"
  shows "\<exists>st. reach (prog_ctx (lit_code w) t) al (start_state i cap sz h)
      (Finished (if find_from w t n i = None then 0 else 1) st) \<and>
    (case find_from w t n i of None \<Rightarrow> True | Some j \<Rightarrow> es_capture st = [Some j, Some (j + length w)])"
  using assms(3,4)
proof (induction n arbitrary: i sz h)
  case (Suc n)
  obtain sz' h' where a: "reach (prog_ctx (lit_code w) t) al (start_state i cap sz h) (Running (attempt_state i cap sz' h'))"
    using reach_attempt [of al cap "lit_code w" t i sz h] al cap by blast
  show ?case
  proof (cases "occurs w t i")
    case True
    then show ?thesis using reach_success [of w t i cap al sz' h'] cap a by (auto dest: reach_trans)
  next
    case False
    note f = reach_failure [OF False cap Suc.prems(2), of al sz' h']
    show ?thesis
    proof (cases "i < length t")
      case True
      then have "reach (prog_ctx (lit_code w) t) al (start_state i cap sz h) (Running (start_state (i + 1) cap sz' h'))"
        using f a reach_trans by auto
      with Suc.IH [of "i + 1" sz' h'] Suc.prems True False show ?thesis by (fastforce intro: reach_trans)
    next
      case last: False
      then have "n = 0" using Suc.prems by simp
      with f a False last show ?thesis by (auto dest: reach_trans)
    qed
  qed
qed simp


lemma find_from_leftmost:
  assumes "n = Suc (length t - i)" and "i \<le> length t"
  shows "find_from w t n i = None \<longleftrightarrow> (\<forall>j\<ge>i. \<not> occurs w t j)"
    and "find_from w t n i = Some j \<Longrightarrow> i \<le> j \<and> occurs w t j \<and> (\<forall>k. i \<le> k \<and> k < j \<longrightarrow> \<not> occurs w t k)"
proof -
  show "find_from w t n i = None \<longleftrightarrow> (\<forall>j\<ge>i. \<not> occurs w t j)" using assms
  proof (induction n arbitrary: i)
    case (Suc n)
    show ?case
    proof (cases "i < length t")
      case True
      then have "(\<forall>j\<ge>i. \<not> occurs w t j) \<longleftrightarrow> \<not> occurs w t i \<and> (\<forall>j\<ge>i + 1. \<not> occurs w t j)"
        by (metis Suc_eq_plus1 Suc_leD Suc_leI le_neq_implies_less order.refl)
      moreover have "find_from w t n (i + 1) = None \<longleftrightarrow> (\<forall>j\<ge>i + 1. \<not> occurs w t j)"
        using Suc.prems True by (intro Suc.IH) auto
      ultimately show ?thesis by simp
    next
      case False
      then have "j \<ge> i \<Longrightarrow> occurs w t j \<Longrightarrow> j = i" for j using Suc.prems by (auto simp: occurs_def)
      with Suc False show ?thesis by auto
    qed
  qed simp
next
  show "find_from w t n i = Some j \<Longrightarrow> i \<le> j \<and> occurs w t j \<and> (\<forall>k. i \<le> k \<and> k < j \<longrightarrow> \<not> occurs w t k)"
  proof (induction n arbitrary: i)
    case (Suc n)
    show ?case
    proof (cases "occurs w t i")
      case False
      then have IH: "i + 1 \<le> j \<and> occurs w t j \<and> (\<forall>k. i + 1 \<le> k \<and> k < j \<longrightarrow> \<not> occurs w t k)" using Suc by simp
      with False show ?thesis by (metis Suc_eq_plus1 Suc_leD le_antisym not_less_eq_eq)
    qed (use Suc.prems in auto)
  qed simp
qed

lemma lre_exec_lit:
  assumes al: "\<And>h n. snd (al h n)" and "length cap = 2" and "i \<le> length t"
  shows "\<exists>k st. \<forall>n\<ge>k. \<exists>r. lre_exec n al cap (program (lit_code w)) t i (length t) 0 [] h = Some r \<and>
      r = (case find_from w t (Suc (length t - i)) i of None \<Rightarrow> Finished 0 st | Some j \<Rightarrow> Finished 1 st) \<and>
      (\<forall>j. find_from w t (Suc (length t - i)) i = Some j \<longrightarrow> es_capture st = [Some j, Some (j + length w)])"
proof -
  let ?f = "find_from w t (Suc (length t - i)) i"
  note c = exec_context_program [of "lit_code w" t]
  obtain cap' where cap': "clear_captures cap 2 = Some cap'" "length cap' = 2"
    using assms(2) by (auto simp: clear_captures_def blit_def)
  obtain st where st: "reach (prog_ctx (lit_code w) t) al (start_state i cap' 0 h) (Finished (if ?f = None then 0 else 1) st)"
    "case ?f of None \<Rightarrow> True | Some j \<Rightarrow> es_capture st = [Some j, Some (j + length w)]"
    using reach_search [of al cap' _ t i w 0 h] assms cap' by blast
  then obtain k where k: "\<forall>n\<ge>k. lre_exec_backtrack n (prog_ctx (lit_code w) t) al (start_state i cap' 0 h) =
      Some (Finished (if ?f = None then 0 else 1) st)" using reach_finished by blast
  let ?st = "st\<lparr>es_states := [], es_states_size := 0, es_heap := fst (al (es_heap st) 0)\<rparr>"
  have "lre_exec n al cap (program (lit_code w)) t i (length t) 0 [] h = Some (Finished (if ?f = None then 0 else 1) ?st)"
    if "k \<le> n" for n
    using k that c cap' by (auto simp: lre_exec_def prog_ctx_def exec_init_def start_state_def)
  then show ?thesis using st(2) by (intro exI [of _ k] exI [of _ ?st]) (auto split: option.splits)
qed

text \<open>
  C1. Compiling and running a literal pattern finds its leftmost occurrence. For every pattern of ordinary ASCII
  characters \<^verbatim>\<open>lre_compile\<close> succeeds, and \<^verbatim>\<open>lre_exec\<close> on the resulting byte code ends after finitely many
  instructions: with 1 and the bounds of the first occurrence at or behind the start index as capture 0 when there
  is one, with 0 when there is none. The two allocators do not fail.
\<close>

theorem literal_compile_exec:
  fixes al :: "'k lre_alloc"
  assumes "list_all plain w" and "3 * length w + 23 < 2 ^ 64" and "realloc_ok f" and "realloc_total f"
    and "error_msg \<noteq> []" and "\<And>h n. snd (al h n)" and "length cap = 2" and "i \<le> length t"
  shows "\<exists>code m s k st. lre_compile (Suc depth) E f opq h error_msg sz (w @ [0]) (length w) 0 = Some (Some code, m, s) \<and>
    (if \<exists>j\<ge>i. occurs w t j then
       \<exists>j\<ge>i. occurs w t j \<and> (\<forall>k. i \<le> k \<and> k < j \<longrightarrow> \<not> occurs w t k) \<and> es_capture st = [Some j, Some (j + length w)] \<and>
         (\<forall>n\<ge>k. lre_exec n al cap code t i (length t) 0 [] heap = Some (Finished 1 st))
     else \<forall>n\<ge>k. lre_exec n al cap code t i (length t) 0 [] heap = Some (Finished 0 st))"
proof -
  let ?n = "Suc (length t - i)"
  note leftmost = find_from_leftmost [of ?n t i w, OF refl assms(8)]
  obtain m s where c: "lre_compile (Suc depth) E f opq h error_msg sz (w @ [0]) (length w) 0 = Some (Some (program (lit_code w)), m, s)"
    using lre_compile_plain [OF assms(1-5), of depth E opq h sz] by blast
  obtain k st where r: "\<And>n. n \<ge> k \<Longrightarrow> \<exists>r. lre_exec n al cap (program (lit_code w)) t i (length t) 0 [] heap = Some r \<and>
      r = (case find_from w t ?n i of None \<Rightarrow> Finished 0 st | Some j \<Rightarrow> Finished 1 st) \<and>
      (\<forall>j. find_from w t ?n i = Some j \<longrightarrow> es_capture st = [Some j, Some (j + length w)])"
    using lre_exec_lit [of al cap i t w heap] assms(6-8) by blast
  show ?thesis
  proof (cases "find_from w t ?n i")
    case None
    then have "\<not> (\<exists>j\<ge>i. occurs w t j)" using leftmost(1) by blast
    moreover have "lre_exec n al cap (program (lit_code w)) t i (length t) 0 [] heap = Some (Finished 0 st)" if "n \<ge> k" for n
      using r [OF that] None by simp
    ultimately show ?thesis using c by auto
  next
    case (Some j)
    with leftmost(2) have "i \<le> j" "occurs w t j" "\<forall>k. i \<le> k \<and> k < j \<longrightarrow> \<not> occurs w t k" by blast+
    with c r Some r [of k] show ?thesis
      by (intro exI [of _ "program (lit_code w)"] exI [of _ m] exI [of _ s] exI [of _ k] exI [of _ st]) auto
  qed
qed


theorem literal_compile_exec_witness:
  "\<exists>code m s k st. lre_compile (Suc 0) sample_env grant_realloc () () [0] 1 ([98, 99] @ [0]) (length [98, 99 :: byte]) 0 =
      Some (Some code, m, s) \<and>
    (if \<exists>j\<ge>0. occurs [98, 99] [97, 98, 99] j then
       \<exists>j\<ge>0. occurs [98, 99] [97, 98, 99] j \<and> (\<forall>k. 0 \<le> k \<and> k < j \<longrightarrow> \<not> occurs [98, 99] [97, 98, 99] k) \<and>
         es_capture st = [Some j, Some (j + length [98, 99 :: byte])] \<and>
         (\<forall>n\<ge>k. lre_exec n (\<lambda>h n. (h :: nat, True)) [None, None] code [97, 98, 99] 0 (length [97, 98, 99 :: u16]) 0 [] 0
            = Some (Finished 1 st))
     else \<forall>n\<ge>k. lre_exec n (\<lambda>h n. (h :: nat, True)) [None, None] code [97, 98, 99] 0 (length [97, 98, 99 :: u16]) 0 [] 0
            = Some (Finished 0 st))"
  by (rule literal_compile_exec) (simp_all add: plain_def grant_realloc_ok)

end
