(* ===== verification/RegexpLazy.thy ===== *)
theory RegexpLazy
  imports RegexpLiteral
begin

unbundle bit_operations_syntax

section \<open>A lazy quantifier over an atom that may match the empty string\<close>

text \<open>
  \<^verbatim>\<open>re_parse_term\<close> asks \<^verbatim>\<open>re_need_check_advance\<close> for a zero advance check only when the quantifier is greedy.
  The pattern \<^verbatim>\<open>(?:)*?b\<close> shows the consequence: its code loops through the empty atom for ever when no
  \<^verbatim>\<open>b\<close> follows.
\<close>

definition lazy_pattern :: bytes where
  "lazy_pattern = [0x28, 0x3f, 0x3a, 0x29, 0x2a, 0x3f, 0x62]"

definition lazy_code :: bytes where
  "lazy_code = (op_u32 REOP_split_goto_first 5 @ op_u32 REOP_goto (- 10)) @ lit_code [0x62]"

lemma length_lazy_code: "length lazy_code = 13"
  by (simp add: lazy_code_def op_u32_def)

lemma stackless_lazy_code: "stackless lazy_code"
  unfolding lazy_code_def op_u32_def
  by (intro stackless_append stackless_op stackless_lit_code) simp_all

subsection \<open>Compilation\<close>

lemma re_emit_goto_code:
  assumes "has_code s bs" and "length bs + 5 < 2 ^ 64"
  shows "\<exists>p b. re_emit_goto s op target = Some (p, s\<lparr>ps_byte_code := b\<rparr>) \<and>
    good_buf b (bs @ op_u32 op (word_of_nat target - word_of_nat (length bs + 5)))"
proof -
  have "emits [reop_code op] s (re_emit_op s op)"
    using has_code_simps(5) [OF assms(1), of 1] assms(2) by (intro re_emit_op_emits) simp
  then obtain b1 where b1: "re_emit_op s op = Some (s\<lparr>ps_byte_code := b1\<rparr>)" "good_buf b1 (bs @ [reop_code op])"
    using assms(1) by (rule emits_code)
  let ?s = "s\<lparr>ps_byte_code := b1\<rparr>" and ?v = "word_of_nat target - word_of_nat (length bs + 5) :: u32"
  have c: "has_code ?s (bs @ [reop_code op])" using b1 by simp
  have "emits (le32 ?v) ?s (emit (\<lambda>b. dbuf_put_u32 b ?v) ?s)"
    using has_code_simps(5) [OF c, of 4] assms(2) by (intro emit_u32_emits) simp
  then obtain b2 where b2: "emit (\<lambda>b. dbuf_put_u32 b ?v) ?s = Some (?s\<lparr>ps_byte_code := b2\<rparr>)"
    "good_buf b2 ((bs @ [reop_code op]) @ le32 ?v)" using c by (rule emits_code)
  have "bc_size ?s + 4 = length bs + 5" using has_code_simps(2) [OF c] by simp
  then have "re_emit_goto s op target = Some (bc_size ?s, s\<lparr>ps_byte_code := b2\<rparr>)"
    using b1(1) b2(1) unfolding re_emit_goto_def by (simp only: Let_def bind.bind_lunit) simp
  with b2(2) show ?thesis by (auto simp: op_u32_def)
qed

lemma lazy_quantifier_code:
  assumes "has_code s bs" and "length bs + 10 < 2 ^ 64" and "ps_capture_count s = n"
  shows "\<exists>b. emit_quantifier s (length bs) n 0 INT32_MAX False = Some (Some (), s\<lparr>ps_byte_code := b\<rparr>) \<and>
    good_buf b (bs @ op_u32 REOP_split_goto_first 5 @ op_u32 REOP_goto (- 10))"
proof -
  obtain b0 gap where b0: "insert_gap s (length bs) 5 = Some (Some (), s\<lparr>ps_byte_code := b0\<rparr>)" "length gap = 5"
    "good_buf b0 (take (length bs) bs @ gap @ drop (length bs) bs)"
    using insert_gap_code [OF assms(1), of "length bs" 5] assms(2) by auto
  let ?s0 = "s\<lparr>ps_byte_code := b0\<rparr>"
  have c0: "has_code ?s0 (bs @ gap)" using b0 by simp
  have lt: "length bs < length (bs @ gap)" using b0(2) by (cases gap) simp_all
  obtain b1 where b1: "poke ?s0 (length bs) (reop_code REOP_split_goto_first) = Some (?s0\<lparr>ps_byte_code := b1\<rparr>)"
    "good_buf b1 ((bs @ gap)[length bs := reop_code REOP_split_goto_first])"
    using c0 lt by (rule poke_code)
  let ?s1 = "s\<lparr>ps_byte_code := b1\<rparr>"
  let ?c1 = "(bs @ gap)[length bs := reop_code REOP_split_goto_first]"
  have c1: "has_code ?s1 ?c1" using b1 by simp
  obtain b2 where b2: "poke_u32 ?s1 (length bs + 1) 5 = Some (?s1\<lparr>ps_byte_code := b2\<rparr>)"
    "good_buf b2 (take (length bs + 1) ?c1 @ le32 5 @ drop (length bs + 1 + 4) ?c1)"
    using c1 by (rule poke_u32_code [where pos = "length bs + 1" and v = 5]) (simp_all add: b0(2))
  have eq: "take (length bs + 1) ?c1 @ le32 5 @ drop (length bs + 1 + 4) ?c1 = bs @ op_u32 REOP_split_goto_first 5"
    using b0(2) by (cases gap) (simp_all add: op_u32_def take_Suc_conv_app_nth)
  let ?s2 = "s\<lparr>ps_byte_code := b2\<rparr>"
  have c2: "has_code ?s2 (bs @ op_u32 REOP_split_goto_first 5)" using b2 eq by simp
  obtain p b3 where b3: "re_emit_goto ?s2 REOP_goto (length bs) = Some (p, ?s2\<lparr>ps_byte_code := b3\<rparr>)"
    "good_buf b3 ((bs @ op_u32 REOP_split_goto_first 5) @
      op_u32 REOP_goto (word_of_nat (length bs) - word_of_nat (length (bs @ op_u32 REOP_split_goto_first 5) + 5)))"
    using re_emit_goto_code [OF c2, of REOP_goto "length bs"] assms(2) by (auto simp: op_u32_def)
  have "word_of_nat (length bs) - word_of_nat (length (bs @ op_u32 REOP_split_goto_first 5) + 5) = (- 10 :: u32)"
    by (simp add: op_u32_def)
  with b3 b0(1) b1(1) b2(1) assms(3) has_code_simps(2) [OF assms(1)] show ?thesis
    by (auto simp: emit_quantifier_def emit_min0_def emit_optional_def ok_def split_op_def INT32_MAX_def simp del: reop_code.simps)
qed


lemma lazy_term_code:
  assumes "ps_buf s = lazy_pattern @ [0]" and "ps_buf_ptr s = 0" and "ps_buf_end s = 7"
    and "has_code s bs" and "length bs + 10 < 2 ^ 64"
  shows "\<exists>b. re_parse_term E (re_parse_disjunction (Suc k) E) s False =
      Some (Some (), s\<lparr>ps_byte_code := b, ps_buf_ptr := 6\<rparr>) \<and>
    good_buf b (bs @ op_u32 REOP_split_goto_first 5 @ op_u32 REOP_goto (- 10))"
proof -
  let ?s = "s\<lparr>ps_buf_ptr := 3\<rparr>"
  have "\<exists>b. emit_quantifier ?s (length bs) (ps_capture_count s) 0 INT32_MAX False = Some (Some (), ?s\<lparr>ps_byte_code := b\<rparr>) \<and>
    good_buf b (bs @ op_u32 REOP_split_goto_first 5 @ op_u32 REOP_goto (- 10))"
    using assms(4,5) by (intro lazy_quantifier_code) simp_all
  then obtain b where b: "emit_quantifier ?s (length bs) (ps_capture_count s) 0 INT32_MAX False = Some (Some (), ?s\<lparr>ps_byte_code := b\<rparr>)"
    "good_buf b (bs @ op_u32 REOP_split_goto_first 5 @ op_u32 REOP_goto (- 10))" by blast
  have buf: "rd (ps_buf s) 0 = Some 0x28" "rd (ps_buf s) 1 = Some 0x3f" "rd (ps_buf s) 2 = Some 0x3a"
    "rd (ps_buf s) (Suc (Suc 0)) = Some 0x3a" "rd (ps_buf s) 3 = Some 0x29" "rd (ps_buf s) 4 = Some 0x2a" "rd (ps_buf s) 5 = Some 0x3f"
    using assms(1) by (simp_all add: lazy_pattern_def rd_def)
  have "re_parse_disjunction (Suc k) E ?s False = Some (Some (), ?s)"
    using buf assms(1,3) by (simp add: re_parse_alternative_def ok_def)
  then have "parse_group (re_parse_disjunction (Suc k) E) s 3 False = Some (Some 4, ?s)"
    using buf by (simp add: parse_group_def ok_def re_parse_expect_def del: re_parse_disjunction.simps)
  then have atom: "re_parse_atom E (re_parse_disjunction (Suc k) E) s False = Some (Some (Some (length bs), ps_capture_count s, 4), ?s)"
    using buf assms(2) has_code_simps(2) [OF assms(4), unfolded bc_size_def]
    by (simp add: re_parse_atom_def parse_paren_def ok_def Let_def bc_size_def del: re_parse_disjunction.simps)
  have "re_parse_quantifier ?s 4 = Some (Some (Some (0, INT32_MAX), 5), ?s)"
    using buf by (simp add: re_parse_quantifier_def)
  with atom buf b show ?thesis
    by (intro exI [of _ b]) (simp add: re_parse_term_def ok_def del: re_parse_disjunction.simps)
qed

lemma lre_compile_lazy:
  assumes "realloc_ok f" and "realloc_total f" and "error_msg \<noteq> []"
  shows "\<exists>m s. lre_compile (Suc (Suc k)) E f opq h error_msg sz (lazy_pattern @ [0]) 7 0 = Some (Some (program lazy_code), m, s)"
proof (rule lre_compile_code)
  let ?s = "compile_init f opq h (lazy_pattern @ [0]) 7 0" and ?nested = "re_parse_disjunction (Suc k) E"
  let ?loop = "op_u32 REOP_split_goto_first 5 @ op_u32 REOP_goto (- 10)"
  fix b :: "'a DynBuf" assume "good_buf b prologue"
  then have "\<exists>c. re_parse_term E ?nested (?s\<lparr>ps_byte_code := b\<rparr>) False =
      Some (Some (), ?s\<lparr>ps_byte_code := b\<rparr>\<lparr>ps_byte_code := c, ps_buf_ptr := 6\<rparr>) \<and> good_buf c (prologue @ ?loop)"
    by (intro lazy_term_code) (simp_all add: compile_init_def length_prologue has_code_def)
  then obtain c where c: "re_parse_term E ?nested (?s\<lparr>ps_byte_code := b\<rparr>) False = Some (Some (), ?s\<lparr>ps_byte_code := c, ps_buf_ptr := 6\<rparr>)"
    "good_buf c (prologue @ ?loop)" by auto
  let ?s1 = "?s\<lparr>ps_byte_code := c, ps_buf_ptr := 6\<rparr>"
  have seven: "length [0x28, 0x3f, 0x3a, 0x29, 0x2a, 0x3f :: byte] + length [0x62 :: byte] = 7" by simp
  have "\<exists>d. alternative_loop 8 E ?nested ?s1 False (bc_size (?s\<lparr>ps_byte_code := b\<rparr>)) =
      Some (Some (), ?s1\<lparr>ps_byte_code := d, ps_buf_ptr := length [0x28, 0x3f, 0x3a, 0x29, 0x2a, 0x3f :: byte] + length [0x62 :: byte]\<rparr>) \<and>
      good_buf d ((prologue @ ?loop) @ lit_code [0x62])"
    using c(2) by (intro alternative_loop_plain) (simp_all add: compile_init_def lazy_pattern_def plain_def has_code_def length_prologue op_u32_def)
  then obtain d where d: "alternative_loop 8 E ?nested ?s1 False (bc_size (?s\<lparr>ps_byte_code := b\<rparr>)) =
      Some (Some (), ?s\<lparr>ps_byte_code := d, ps_buf_ptr := 7\<rparr>)" "good_buf d (prologue @ lazy_code)"
    unfolding seven by (auto simp: lazy_code_def)
  have buf: "rd (ps_buf ?s) 0 = Some 0x28" "rd (ps_buf ?s) 7 = Some 0" "ps_buf_ptr ?s = 0" "ps_buf_end ?s = 7" "length (ps_buf ?s) = 8"
    by (simp_all add: compile_init_def lazy_pattern_def rd_def)
  have "re_parse_alternative E ?nested (?s\<lparr>ps_byte_code := b\<rparr>) False = Some (Some (), ?s\<lparr>ps_byte_code := d, ps_buf_ptr := 7\<rparr>)"
    using buf c(1) d(1) alternative_loop.simps(2) [of 8 E ?nested "?s\<lparr>ps_byte_code := b\<rparr>" False "bc_size (?s\<lparr>ps_byte_code := b\<rparr>)"]
    by (simp add: re_parse_alternative_def ok_def del: re_parse_disjunction.simps alternative_loop.simps)
  then have "re_parse_disjunction (Suc (Suc k)) E (?s\<lparr>ps_byte_code := b\<rparr>) False = Some (Some (), ?s\<lparr>ps_byte_code := d, ps_buf_ptr := 7\<rparr>)"
    using buf disjunction_loop.simps(2) [of 8 E ?nested "?s\<lparr>ps_byte_code := d, ps_buf_ptr := 7\<rparr>" False "bc_size (?s\<lparr>ps_byte_code := b\<rparr>)"]
    by (subst re_parse_disjunction.simps) (simp add: ok_def del: re_parse_disjunction.simps disjunction_loop.simps)
  with d(2) show "\<exists>c p. re_parse_disjunction (Suc (Suc k)) E (?s\<lparr>ps_byte_code := b\<rparr>) False =
        Some (Some (), ?s\<lparr>ps_byte_code := c, ps_buf_ptr := p\<rparr>) \<and> good_buf c (prologue @ lazy_code) \<and> rd (lazy_pattern @ [0]) p = Some 0"
    by (intro exI [of _ d] exI [of _ 7]) (simp add: rd_def lazy_pattern_def del: re_parse_disjunction.simps)
qed (use assms stackless_lazy_code in \<open>simp_all add: length_lazy_code\<close>)


subsection \<open>Execution\<close>

definition diverges :: "REExecContext \<Rightarrow> 'k lre_alloc \<Rightarrow> 'k exec_state \<Rightarrow> bool" where
  "diverges x al st \<longleftrightarrow> (\<forall>n. \<exists>st'. lre_exec_backtrack n x al st = Some (Running st'))"

lemma running_mono:
  assumes "lre_exec_backtrack (n + m) x al st = Some (Running st')"
  shows "\<exists>st''. lre_exec_backtrack n x al st = Some (Running st'')"
  using assms by (auto simp: lre_exec_backtrack_add split: bind_splits exec_outcome.splits)

lemma diverges_reach: "reach x al st (Running st') \<Longrightarrow> diverges x al st' \<Longrightarrow> diverges x al st"
proof -
  assume "reach x al st (Running st')" and d: "diverges x al st'"
  then obtain k where k: "lre_exec_backtrack k x al st = Some (Running st')" by (auto simp: reach_def)
  have "\<exists>st''. lre_exec_backtrack n x al st = Some (Running st'')" for n
  proof -
    obtain st'' where "lre_exec_backtrack n x al st' = Some (Running st'')" using d by (auto simp: diverges_def)
    then have "lre_exec_backtrack (n + k) x al st = Some (Running st'')"
      using k by (subst add.commute) (simp add: lre_exec_backtrack_add)
    then show ?thesis by (rule running_mono)
  qed
  then show ?thesis by (simp add: diverges_def)
qed

text \<open>A set of states that each lead to another one of them in at least one step.\<close>

lemma divergesI:
  assumes "P st" and step: "\<And>st. P st \<Longrightarrow> \<exists>k st'. lre_exec_backtrack (Suc k) x al st = Some (Running st') \<and> P st'"
  shows "diverges x al st"
proof -
  have "\<exists>st'. lre_exec_backtrack n x al st = Some (Running st')" if "P st" for n st
    using that
  proof (induction n arbitrary: st rule: less_induct)
    case (less n)
    obtain k st' where k: "lre_exec_backtrack (Suc k) x al st = Some (Running st')" "P st'" using step [OF less.prems] by blast
    show ?case
    proof (cases "n \<le> Suc k")
      case True
      then show ?thesis using running_mono [of n "Suc k - n" x al st st'] k(1) by simp
    next
      case False
      then obtain st'' where "lre_exec_backtrack (n - Suc k) x al st' = Some (Running st'')"
        using less.IH [of "n - Suc k" st'] k(2) by auto
      then have "lre_exec_backtrack (Suc k + (n - Suc k)) x al st = Some (Running st'')"
        using k(1) by (simp add: lre_exec_backtrack_add del: lre_exec_backtrack.simps add_Suc)
      then show ?thesis using False by simp
    qed
  qed
  with assms(1) show ?thesis by (auto simp: diverges_def)
qed

lemma lazy_code_at:
  "code_at (ec_bc (prog_ctx lazy_code t)) 20 (reop_code REOP_split_goto_first # le32 5)"
  "code_at (ec_bc (prog_ctx lazy_code t)) 25 (reop_code REOP_goto # le32 (- 10))"
  "code_at (ec_bc (prog_ctx lazy_code t)) 30 (char_code 0x62)"
proof -
  have "code_at (ec_bc (prog_ctx lazy_code t)) 20 lazy_code" by (rule prog_code_at)
  then show "code_at (ec_bc (prog_ctx lazy_code t)) 20 (reop_code REOP_split_goto_first # le32 5)"
    "code_at (ec_bc (prog_ctx lazy_code t)) 25 (reop_code REOP_goto # le32 (- 10))"
    "code_at (ec_bc (prog_ctx lazy_code t)) 30 (char_code 0x62)"
    by (simp_all add: lazy_code_def op_u32_def code_at_append code_at_Cons del: reop_code.simps)
qed

text \<open>The second split saves the way through the empty atom.\<close>

definition lazy_saved :: "nat \<Rightarrow> nat option list \<Rightarrow> REExecState" where
  "lazy_saved i cap = \<lparr>rs_type = RE_EXEC_STATE_SPLIT, rs_stack_len = 0, rs_count = 0, rs_cptr = i, rs_pc = 25,
     rs_capture = cap, rs_stack = []\<rparr>"

lemma push_lazy_saved:
  assumes al: "\<And>h n. snd (al h n)" and cap: "length cap = 2"
  shows "\<exists>sz' h'. push_state (prog_ctx mid t) al (attempt_state i cap sz h) 0 25 i RE_EXEC_STATE_SPLIT 0 =
      Some (True, (attempt_state i cap sz' h')\<lparr>es_states := [lazy_saved i (cap[0 := Some i]), start_saved i cap]\<rparr>)"
proof -
  obtain h' where "al h 384 = (h', True)" using al [of h 384] by (cases "al h 384") simp
  moreover consider "sz = 0" | "sz = 1" | "sz \<ge> 2" by linarith
  ultimately show ?thesis using cap
    by cases (auto simp: push_state_def attempt_state_def start_state_def prog_ctx_def lazy_saved_def slice_def state_size_def
      sizeof_REExecState_def Let_def)
qed

lemma lazy_jumps: "jump 25 5 = Some 30" "jump 30 (- 10) = Some 20"
  by (simp_all add: jump_def)

lemma lazy_loop:
  assumes al: "\<And>h n. snd (al h n)" and cap: "length cap = 2" and no_b: "\<not> (i < length t \<and> t ! i = 0x62)"
  shows "\<exists>sz' h'. lre_exec_backtrack 3 (prog_ctx lazy_code t) al (attempt_state i cap sz h) = Some (Running (attempt_state i cap sz' h'))"
proof -
  let ?x = "prog_ctx lazy_code t" and ?s0 = "attempt_state i cap sz h"
  obtain sz' h' where p: "push_state ?x al ?s0 0 25 i RE_EXEC_STATE_SPLIT 0 =
      Some (True, (attempt_state i cap sz' h')\<lparr>es_states := [lazy_saved i (cap[0 := Some i]), start_saved i cap]\<rparr>)"
    using push_lazy_saved [of al cap lazy_code t i sz h] al cap by blast
  let ?s1 = "(attempt_state i cap sz' h')\<lparr>es_states := [lazy_saved i (cap[0 := Some i]), start_saved i cap], es_pc := 30\<rparr>"
  let ?s2 = "(attempt_state i cap sz' h')\<lparr>es_pc := 25\<rparr>"
  have "get_u32 (ec_bc ?x) 21 = Some 5" using lazy_code_at(1) [of t] by (auto simp: code_at_Cons dest: get_u32_at)
  then have 1: "exec_step ?x al ?s0 = Some (Running ?s1)"
    using exec_step_at [of ?x ?s0 REOP_split_goto_first "le32 5" al] lazy_code_at(1) [of t] p
    by (simp add: exec_op_def op_push_def attempt_state_def start_state_def lazy_jumps del: reop_code.simps)
  have "no_match ?x al (?s1\<lparr>es_cptr := j\<rparr>) = Some (Running ?s2)" for j
    using cap by (simp add: no_match_def attempt_state_def start_state_def lazy_saved_def pop_state_def pop_state1_def
      restore_capture_def restore_stack_def slice_def blit_def prog_ctx_def)
  from this [of i] this [of "Suc i"] have 2: "exec_step ?x al ?s1 = Some (Running ?s2)"
    using exec_char_code [OF plain_prog_ctx [of lazy_code t], of ?s1 "0x62" al] lazy_code_at(3) [of t] no_b
    by (auto simp: attempt_state_def start_state_def)
  have "get_u32 (ec_bc ?x) 26 = Some (- 10)" using lazy_code_at(2) [of t] by (auto simp: code_at_Cons dest: get_u32_at)
  then have 3: "exec_step ?x al ?s2 = Some (Running (attempt_state i cap sz' h'))"
    using exec_step_at [of ?x ?s2 REOP_goto "le32 (- 10)" al] lazy_code_at(2) [of t]
    by (simp add: exec_op_def attempt_state_def start_state_def lazy_jumps del: reop_code.simps)
  show ?thesis using 1 2 3 by (intro exI [of _ sz'] exI [of _ h']) (simp add: numeral_3_eq_3)
qed


text \<open>
  C23. A lazy quantifier over an atom that can match the empty string makes the matcher run for ever. The pattern
  \<^verbatim>\<open>(?:)*?b\<close> compiles, and on every subject that has no \<^verbatim>\<open>b\<close> at the start index, the empty subject included,
  \<^verbatim>\<open>lre_exec\<close> executes any number of instructions without an answer: the code has no zero advance check.
\<close>

theorem lazy_empty_atom_diverges:
  fixes al :: "'k lre_alloc"
  assumes "realloc_ok f" and "realloc_total f" and "error_msg \<noteq> []" and al: "\<And>h n. snd (al h n)"
    and cap: "length cap = 2" and no_b: "\<not> (i < length t \<and> t ! i = 0x62)"
  shows "\<exists>code m s. lre_compile (Suc (Suc depth)) E f opq h error_msg sz (lazy_pattern @ [0]) 7 0 = Some (Some code, m, s) \<and>
    (\<forall>n. \<exists>st. lre_exec n al cap code t i (length t) 0 [] heap = Some (Running st))"
proof -
  let ?x = "prog_ctx lazy_code t"
  obtain m s where c: "lre_compile (Suc (Suc depth)) E f opq h error_msg sz (lazy_pattern @ [0]) 7 0 = Some (Some (program lazy_code), m, s)"
    using lre_compile_lazy [OF assms(1-3), of depth E opq h sz] by blast
  obtain cap' where cap': "clear_captures cap 2 = Some cap'" "length cap' = 2"
    using cap by (auto simp: clear_captures_def blit_def)
  obtain sz' h' where a: "reach ?x al (start_state i cap' 0 heap) (Running (attempt_state i cap' sz' h'))"
    using reach_attempt [of al cap' lazy_code t i 0 heap] al cap' by blast
  have "\<exists>k st'. lre_exec_backtrack (Suc k) ?x al st = Some (Running st') \<and> (\<exists>sz h. st' = attempt_state i cap' sz h)"
    if "\<exists>sz h. st = attempt_state i cap' sz h" for st
    using that lazy_loop [of al cap' i t] al cap' no_b numeral_3_eq_3 by metis
  then have "diverges ?x al (attempt_state i cap' sz' h')"
    by (intro divergesI [where P = "\<lambda>st. \<exists>sz h. st = attempt_state i cap' sz h"]) auto
  with a have "diverges ?x al (start_state i cap' 0 heap)" by (rule diverges_reach)
  have "\<exists>st. lre_exec n al cap (program lazy_code) t i (length t) 0 [] heap = Some (Running st)" for n
  proof -
    obtain st where "lre_exec_backtrack n ?x al (start_state i cap' 0 heap) = Some (Running st)"
      using \<open>diverges ?x al (start_state i cap' 0 heap)\<close> by (auto simp: diverges_def)
    then show ?thesis using cap'(1) exec_context_program [of lazy_code t]
      by (simp add: lre_exec_def prog_ctx_def exec_init_def start_state_def)
  qed
  with c show ?thesis by blast
qed

theorem lazy_empty_atom_diverges_witness:
  "\<exists>code m s. lre_compile (Suc (Suc 0)) sample_env grant_realloc () () [0] 1 (lazy_pattern @ [0]) 7 0 = Some (Some code, m, s) \<and>
    (\<forall>n. \<exists>st. lre_exec n (\<lambda>h n. (h :: nat, True)) [None, None] code [] 0 (length ([] :: u16 list)) 0 [] 0 = Some (Running st))"
  by (rule lazy_empty_atom_diverges) (simp_all add: grant_realloc_ok)

end
