(* ===== verification/RegexpNames.thy ===== *)
theory RegexpNames
  imports RegexpLazy
begin

unbundle bit_operations_syntax

section \<open>Forward references to nested named groups\<close>

text \<open>
  \<^verbatim>\<open>re_parse_captures\<close> looks for a group name ahead of the parser. After the name of another group it has
  already moved behind the closing bracket, and the loop's own increment then skips one more
  character: a group that opens directly after the name is not seen.
\<close>

lemma captures_skip:
  assumes "0 < n" and "p < e" and "rd buf p = Some b" and "b \<noteq> 0x28" and "b \<noteq> 0x5c" and "b \<noteq> 0x5b"
  shows "captures_loop n E buf e want p i named name = captures_loop (n - 1) E buf e want (p + 1) i named name"
  using assms by (cases n) simp_all

lemma captures_escape:
  assumes "0 < n" and "p < e" and "rd buf p = Some 0x5c"
  shows "captures_loop n E buf e want p i named name = captures_loop (n - 1) E buf e want (p + 2) i named name"
  using assms by (cases n) simp_all

lemma captures_end: "0 < n \<Longrightarrow> e \<le> p \<Longrightarrow> captures_loop n E buf e want p i named name = Some (Inr (i, named))"
  by (cases n) simp_all

text \<open>A group name of one letter.\<close>

definition letter :: "byte \<Rightarrow> bool" where
  "letter b \<longleftrightarrow> 0x61 \<le> b \<and> b \<le> 0x7a"

lemma letter_ident: "letter b \<Longrightarrow> lre_js_is_ident_first E (ucast b) = Some True"
proof -
  assume l: "letter b"
  then have n: "0x61 \<le> unat b" "unat b \<le> 0x7a" by (simp_all add: letter_def word_le_nat_alt)
  have u: "unat (ucast b :: u32) = unat b" using n by (simp add: unat_ucast_mod)
  have all: "\<forall>k\<in>set [0x61..<0x7b]. bit (0x07FFFFFE :: u32) (k mod 32) \<and> k div 32 = 3" by (simp add: upt_rec)
  have "bit (0x07FFFFFE :: u32) (unat b mod 32) \<and> unat b div 32 = 3"
    by (rule bspec [OF all], unfold set_upt atLeastLessThan_iff) (use n in linarith)
  moreover have "unat (drop_bit 5 (ucast b :: u32)) = unat b div 32" by (simp add: u unat_drop_bit_div)
  moreover have "unat ((ucast b :: u32) AND 31) = unat b mod 32" 
    using unat_and_mask [of "ucast b :: u32" 5] by (simp add: u mask_literals)
  moreover have "(ucast b :: u32) < 128" using u n by (simp add: word_less_nat_alt)
  ultimately show ?thesis by (simp add: lre_js_is_ident_first_def lre_id_start_table_ascii_def rd_def)
qed

lemma one_letter_name:
  assumes "rd buf p = Some a" and "letter a" and "rd buf (p + 1) = Some 0x3e" and "length out = 128"
  shows "re_parse_group_name E buf out 128 p = Some (True, p + 2, out[0 := a, 1 := 0])"
proof -
  have n: "0x61 \<le> unat a" "unat a \<le> 0x7a" using assms(2) by (simp_all add: letter_def word_le_nat_alt)
  then have a: "a \<noteq> 0x3e" "a \<noteq> 0x5c" "\<not> a \<ge> 128" by (auto simp: word_le_nat_alt)
  have u: "unat (ucast a :: u32) = unat a" using n by (simp add: unat_ucast_mod)
  then have c: "\<not> (ucast a :: u32) > 0x10FFFF" "(ucast a :: u32) < 128" using n by (simp_all add: word_less_nat_alt)
  have id: "ucast (ucast a :: u32) = a" using u n by (simp add: word_unat_eq_iff unat_ucast_mod)
  have "length buf \<ge> 2" using assms(3) by (simp add: rd_eq_Some_iff)
  then obtain m where m: "length buf = Suc m" by (cases buf) auto
  have g: "group_char buf p a = Some (Inr (ucast a, p + 1))" using a by (simp add: group_char_def)
  have b1: "blit out 0 [a] = Some (out[0 := a])" using assms(4) by (cases out) (simp_all add: blit_def)
  have "wr (out[0 := a]) 1 0 = Some (out[0 := a, 1 := 0])" using assms(4) by (simp add: wr_def)
  then show ?thesis using assms(1,3) a(1) g c letter_ident [OF assms(2), of E] b1 id
    by (simp add: re_parse_group_name_def m)
qed


lemma captures_other_name:
  assumes "0 < n" and "p < e" and "rd buf p = Some 0x28" and "rd buf (p + 1) = Some 0x3f" and "rd buf (p + 2) = Some 0x3c"
    and "rd buf (p + 3) = Some a" and "letter a" and "rd buf (p + 4) = Some 0x3e"
    and "length name = 128" and "want \<noteq> [a]" and "i < 254"
  shows "captures_loop n E buf e (Some want) p i named name =
    captures_loop (n - 1) E buf e (Some want) (p + 6) (i + 1) 1 (name[0 := a, 1 := 0])"
proof -
  have a: "a \<noteq> 0x3d" "a \<noteq> 0x21" "a \<noteq> 0" using assms(7) by (auto simp: letter_def)
  have "re_parse_group_name E buf name 128 (p + 3) = Some (True, p + 5, name[0 := a, 1 := 0])"
    using one_letter_name [of buf "p + 3" a name E] assms by (simp add: add.commute)
  moreover have "c_string (name[0 := a, 1 := 0]) = Some [a]"
  proof -
    obtain x y r where "name = x # y # r" using assms(9) by (cases name; cases "tl name") auto
    then show ?thesis using a by (simp add: c_string_def slice_def)
  qed
  ultimately have "capture_open E buf (Some want) p i named name = Some (Inr (p + 5, i + 1, 1, name[0 := a, 1 := 0]))"
    using assms(3-8,10) a by (simp add: capture_open_def)
  with assms(1-3,11) show ?thesis by (cases n) (simp_all add: add.commute)
qed


subsection \<open>The pattern\<close>

text \<open>The pattern \<^verbatim>\<open>\k<b>(?<a>(?<b>x))\<close>.\<close>

definition forward_pattern :: bytes where
  "forward_pattern = [0x5c, 0x6b, 0x3c, 0x62, 0x3e, 0x28, 0x3f, 0x3c, 0x61, 0x3e, 0x28, 0x3f, 0x3c, 0x62, 0x3e, 0x78, 0x29, 0x29]"

lemma forward_pattern_at:
  "rd (forward_pattern @ [0]) 0 = Some 0x5c" "rd (forward_pattern @ [0]) (Suc 0) = Some 0x6b"
  "rd (forward_pattern @ [0]) (Suc (Suc 0)) = Some 0x3c" "rd (forward_pattern @ [0]) 2 = Some 0x3c"
  "rd (forward_pattern @ [0]) 3 = Some 0x62"
  "rd (forward_pattern @ [0]) 4 = Some 0x3e" "rd (forward_pattern @ [0]) 5 = Some 0x28"
  "rd (forward_pattern @ [0]) 6 = Some 0x3f" "rd (forward_pattern @ [0]) 7 = Some 0x3c"
  "rd (forward_pattern @ [0]) 8 = Some 0x61" "rd (forward_pattern @ [0]) 9 = Some 0x3e"
  "rd (forward_pattern @ [0]) 10 = Some 0x28" "rd (forward_pattern @ [0]) 11 = Some 0x3f"
  "rd (forward_pattern @ [0]) 12 = Some 0x3c" "rd (forward_pattern @ [0]) 13 = Some 0x62"
  "rd (forward_pattern @ [0]) 14 = Some 0x3e" "rd (forward_pattern @ [0]) 15 = Some 0x78"
  "rd (forward_pattern @ [0]) 16 = Some 0x29" "rd (forward_pattern @ [0]) 17 = Some 0x29"
  by (simp_all add: forward_pattern_def rd_def)

lemma letters: "letter 0x61" "letter 0x62"
  by (simp_all add: letter_def)

lemma forward_captures:
  "captures_loop 20 E (forward_pattern @ [0]) 18 (Some [0x62]) 0 1 0 (replicate 128 0) = Some (Inr (2, 1))"
proof -
  let ?b = "forward_pattern @ [0]" and ?n = "(replicate 128 0)[0 := 0x61, 1 := 0] :: bytes"
  have "captures_loop 20 E ?b 18 (Some [0x62]) 0 1 0 (replicate 128 0) =
      captures_loop 16 E ?b 18 (Some [0x62]) 5 1 0 (replicate 128 0)"
    by (simp add: captures_escape captures_skip forward_pattern_at numeral_2_eq_2 [symmetric])
  also have "\<dots> = captures_loop 15 E ?b 18 (Some [0x62]) 11 2 1 ?n"
    using captures_other_name [of 16 5 18 ?b "0x61" "replicate 128 0" "[0x62]" 1 E 0]
    by (simp add: forward_pattern_at letters numeral_2_eq_2 [symmetric])
  also have "\<dots> = captures_loop 8 E ?b 18 (Some [0x62]) 18 2 1 ?n"
    by (simp add: captures_skip forward_pattern_at)
  also have "\<dots> = Some (Inr (2, 1))" by (simp add: captures_end)
  finally show ?thesis .
qed

text \<open>An error message of the parser is what the caller's buffer gets.\<close>

lemma re_parse_error_eq:
  assumes "length (ps_u s) = 128" and "length m < 128"
  shows "re_parse_error s m = Some (None, s\<lparr>ps_u := msg m @ 0 # drop (Suc (length m)) (ps_u s)\<rparr>)"
  using assms by (simp add: re_parse_error_def vsnprintf_at_def blit_def msg_def)

lemma lre_compile_error:
  assumes "emit_prologue (compile_init f opq h buf len fl) fl = Some s"
    and "re_parse_disjunction depth E s False = Some (None, s')" and "ps_u s' = msg m @ 0 # r" and "nul_free (msg m)"
    and "length m < length error_msg"
  shows "\<exists>s''. lre_compile depth E f opq h error_msg (length error_msg) buf len fl =
    Some (None, msg m @ 0 # drop (Suc (length m)) error_msg, s'')"
proof -
  have "length (msg m) = length m" by (simp add: msg_def)
  moreover have "pstrcpy error_msg 0 (int (length error_msg)) (msg m @ 0 # r) = Some (msg m @ 0 # drop (Suc (length m)) error_msg)"
    using pstrcpy_eq [OF assms(4), of "int (length error_msg)" 0 error_msg r] assms(5) calculation by (cases "error_msg = []") (simp_all add: Let_def)
  ultimately show ?thesis using assms(1-3) by (simp add: lre_compile_def ok_def del: re_parse_disjunction.simps)
qed


lemma forward_reference_error:
  assumes "ps_buf s = forward_pattern @ [0]" and "ps_buf_ptr s = 0" and "ps_buf_end s = 18" and "ps_is_unicode s"
    and "db_buf (ps_group_names s) = []" and "length (ps_u s) = 128"
  shows "\<exists>s' r. re_parse_disjunction (Suc k) E s False = Some (None, s') \<and> ps_u s' = msg ''group name not defined'' @ 0 # r"
proof -
  let ?u = "(ps_u s)[0 := 0x62, 1 := 0]" and ?m = "''group name not defined''"
  let ?s = "s\<lparr>ps_u := ?u\<rparr>"
  let ?s' = "?s\<lparr>ps_u := msg ?m @ 0 # drop (Suc (length ?m)) ?u\<rparr>"
  have name: "re_parse_group_name E (ps_buf s) (ps_u s) 128 3 = Some (True, 5, ?u)"
    using one_letter_name [of "ps_buf s" 3 "0x62" "ps_u s" E] assms by (simp add: forward_pattern_at letters)
  obtain x y r where "ps_u s = x # y # r" using assms(6) by (cases "ps_u s"; cases "tl (ps_u s)") auto
  then have str: "c_string ?u = Some [0x62]" by (simp add: c_string_def slice_def)
  have len: "length (ps_buf s) + 1 = 20" using assms(1) by (simp add: forward_pattern_def)
  have "re_parse_captures E ?s (Some [0x62]) = Some (- 1, 1)"
    using forward_captures [of E] len assms by (simp add: re_parse_captures_def)
  moreover have "find_group_name ?s [0x62] = Some (- 1)" using assms(5) by (simp add: find_group_name_def)
  moreover have "re_parse_error ?s ?m = Some (None, ?s')" for m
    using re_parse_error_eq [of ?s ?m] assms(6) by simp
  ultimately have "parse_named_reference E s 0 False = Some (None, ?s')"
    using name str assms by (simp add: parse_named_reference_def forward_pattern_at error_or_atom_def)
  then have "re_parse_atom E n s False = Some (None, ?s')" for n
    using assms by (simp add: re_parse_atom_def forward_pattern_at parse_escape_term_def)
  then have "alternative_loop (Suc 19) E n s False start = Some (None, ?s')" for n start
    using assms by (simp only: alternative_loop.simps) (simp add: re_parse_term_def ok_def forward_pattern_at)
  then have "re_parse_alternative E n s False = Some (None, ?s')" for n
    using len by (simp add: re_parse_alternative_def)
  then show ?thesis by (intro exI [of _ ?s'] exI [of _ "drop (Suc (length ?m)) ?u"]) (simp add: ok_def)
qed

text \<open>
  C24. A forward reference to a named group that opens directly behind the name of its enclosing group is rejected.
  The valid pattern \<^verbatim>\<open>\k<b>(?<a>(?<b>x))\<close> has a group \<^verbatim>\<open>b\<close>, but in Unicode mode \<^verbatim>\<open>lre_compile\<close> returns \<^verbatim>\<open>NULL\<close>
  with the message \<^verbatim>\<open>group name not defined\<close>, whatever the allocators do.
\<close>

theorem forward_named_reference_rejected:
  assumes "realloc_ok f" and "22 < length error_msg"
  shows "\<exists>s. lre_compile (Suc depth) E f opq h error_msg (length error_msg) (forward_pattern @ [0]) (length forward_pattern) 16 =
    Some (None, msg ''group name not defined'' @ 0 # drop 23 error_msg, s)"
proof -
  let ?s = "compile_init f opq h (forward_pattern @ [0]) 18 16"
  have "bc_ok 32 ?s" using assms(1) by (simp add: bc_ok_def bc_size_def compile_init_def dbuf_init2_def dbuf_inv_def)
  then have "emits (16 # tl prologue) ?s (emit_prologue ?s 16)" by (intro emit_prologue_emits) simp_all
  then obtain b where b: "emit_prologue ?s 16 = Some (?s\<lparr>ps_byte_code := b\<rparr>)" by (auto simp: emits_def)
  have "\<exists>s' r. re_parse_disjunction (Suc depth) E (?s\<lparr>ps_byte_code := b\<rparr>) False = Some (None, s') \<and>
      ps_u s' = msg ''group name not defined'' @ 0 # r"
    by (rule forward_reference_error) (simp_all add: compile_init_def dbuf_init2_def)
  then obtain s' r where "re_parse_disjunction (Suc depth) E (?s\<lparr>ps_byte_code := b\<rparr>) False = Some (None, s')"
    "ps_u s' = msg ''group name not defined'' @ 0 # r" by blast
  moreover have "nul_free (msg ''group name not defined'')" by (simp add: msg_def nul_free_def)
  ultimately have "\<exists>s''. lre_compile (Suc depth) E f opq h error_msg (length error_msg) (forward_pattern @ [0]) 18 16 =
      Some (None, msg ''group name not defined'' @ 0 # drop (Suc (length ''group name not defined'')) error_msg, s'')"
    using assms(2) by (intro lre_compile_error [OF b]) simp_all
  moreover have "length forward_pattern = 18" "Suc (length ''group name not defined'') = 23" by (simp_all add: forward_pattern_def)
  ultimately show ?thesis by (simp only:)
qed

theorem forward_named_reference_rejected_witness:
  "\<exists>s. lre_compile (Suc 0) sample_env (limit_realloc 64) 0 () (replicate 64 1) (length (replicate 64 1 :: bytes))
      (forward_pattern @ [0]) (length forward_pattern) 16 =
    Some (None, msg ''group name not defined'' @ 0 # drop 23 (replicate 64 1), s)"
  by (rule forward_named_reference_rejected) (simp_all add: limit_realloc_ok)

end
