(* ===== verification/RegexpSafe.thy ===== *)
theory RegexpSafe
  imports RegexpProgram
begin

unbundle bit_operations_syntax

section \<open>Well-typed byte code does not go wrong\<close>

text \<open>
  A static check of byte code, in the manner of a byte code verifier, and the proof that the machine never
  leaves the code, the subject, the captures, its stack or the saved states when the check succeeds. The type
  of a program is a list of its instructions' positions with the stack depth there.
\<close>

subsection \<open>Moving back over what was read\<close>

text \<open>
  A greedy quantifier gives characters back with \<^verbatim>\<open>PREV_CHAR\<close>. In UTF-16 the start position may lie inside a
  surrogate pair; then the first character read forward is one that moving back does not count.
\<close>

function back_steps :: "REExecContext \<Rightarrow> nat \<Rightarrow> nat" where
  "back_steps x p =
     (case PREV_CHAR (ec_cbuf_type x) (ec_cbuf x) 0 p of
        None \<Rightarrow> 0
      | Some q \<Rightarrow> if q < p then Suc (back_steps x q) else 0)"
  by pat_completeness auto
termination by (relation "measure snd") auto

declare back_steps.simps [simp del]

definition subject_ok :: "REExecContext \<Rightarrow> bool" where
  "subject_ok x \<longleftrightarrow> length (ec_cbuf x) = ec_cbuf_end x \<and> ec_cbuf_end x < 2 ^ 64"

abbreviation (input) unit_at :: "REExecContext \<Rightarrow> nat \<Rightarrow> u32" where
  "unit_at x p \<equiv> ucast (ec_cbuf x ! p)"

definition mid_pair :: "REExecContext \<Rightarrow> nat \<Rightarrow> bool" where
  "mid_pair x p \<longleftrightarrow> ec_cbuf_type x \<noteq> 0 \<and> ec_cbuf_type x = 2 \<and> 0 < p \<and> p < ec_cbuf_end x \<and>
     is_hi_surrogate (unit_at x (p - 1)) \<and> is_lo_surrogate (unit_at x p)"

definition read_steps :: "REExecContext \<Rightarrow> nat \<Rightarrow> nat" where
  "read_steps x p = back_steps x p - (if mid_pair x p then 1 else 0)"

lemma hi_not_lo: "is_hi_surrogate c \<Longrightarrow> \<not> is_lo_surrogate c"
  by (auto simp: surrogate_ranges)

lemma PREV_CHAR_eq:
  assumes "subject_ok x" and "0 < p" and "p \<le> ec_cbuf_end x"
  shows "PREV_CHAR (ec_cbuf_type x) (ec_cbuf x) 0 p =
    Some (if ec_cbuf_type x = 2 \<and> is_lo_surrogate (unit_at x (p - 1)) \<and> 1 < p \<and> is_hi_surrogate (unit_at x (p - 2))
          then p - 2 else p - 1)"
  using assms by (auto simp: PREV_CHAR_def GET_PREV_CHAR_def subject_ok_def rd_def Let_def)

lemma GET_CHAR_eq:
  assumes "subject_ok x" and "p < ec_cbuf_end x"
  shows "GET_CHAR (ec_cbuf_type x) (ec_cbuf x) (ec_cbuf_end x) p =
    Some (if ec_cbuf_type x = 2 \<and> is_hi_surrogate (unit_at x p) \<and> p + 1 < ec_cbuf_end x \<and> is_lo_surrogate (unit_at x (p + 1))
          then (from_surrogate (unit_at x p) (unit_at x (p + 1)), p + 2) else (unit_at x p, p + 1))"
  using assms by (auto simp: GET_CHAR_def subject_ok_def rd_def Let_def)

lemma back_steps_0 [simp]: "back_steps x 0 = 0"
  by (subst back_steps.simps) (simp add: PREV_CHAR_def GET_PREV_CHAR_def)

lemma back_steps_step:
  assumes "subject_ok x" and "0 < p" and "p \<le> ec_cbuf_end x" and "PREV_CHAR (ec_cbuf_type x) (ec_cbuf x) 0 p = Some q"
  shows "back_steps x p = Suc (back_steps x q)"
proof -
  have "q < p" using assms PREV_CHAR_eq [OF assms(1-3)] by (auto split: if_splits)
  with assms(4) show ?thesis by (subst back_steps.simps) simp
qed

lemma prev_chars_Some:
  assumes "subject_ok x" and "p \<le> ec_cbuf_end x" and "n \<le> back_steps x p"
  shows "\<exists>q. prev_chars x n p = Some q \<and> q \<le> p \<and> back_steps x q = back_steps x p - n"
  using assms(2,3)
proof (induction n arbitrary: p)
  case (Suc n)
  then have pos: "0 < p" by (cases p) auto
  then obtain q where q: "PREV_CHAR (ec_cbuf_type x) (ec_cbuf x) 0 p = Some q" "q < p"
    using PREV_CHAR_eq [OF assms(1) pos Suc.prems(1)] by (auto split: if_splits)
  have b: "back_steps x p = Suc (back_steps x q)" using back_steps_step [OF assms(1) pos Suc.prems(1) q(1)] .
  with Suc.IH [of q] Suc.prems q show ?case by fastforce
qed simp

text \<open>Every character read forward is one more that can be given back.\<close>

lemma read_steps_GET_CHAR:
  assumes ok: "subject_ok x" and p: "p < ec_cbuf_end x"
    and g: "GET_CHAR (ec_cbuf_type x) (ec_cbuf x) (ec_cbuf_end x) p = Some (c, q)"
  shows "q \<le> ec_cbuf_end x" and "read_steps x p + 1 \<le> read_steps x q"
proof -
  have q: "q = p + 1 \<or> q = p + 2 \<and> p + 1 < ec_cbuf_end x" using g GET_CHAR_eq [OF ok p] by (auto split: if_splits)
  then show qe: "q \<le> ec_cbuf_end x" using p by auto
  have q0: "0 < q" using q by auto
  note prev = PREV_CHAR_eq [OF ok q0 qe] and bk = back_steps_step [OF ok q0 qe]
  show "read_steps x p + 1 \<le> read_steps x q"
  proof (cases "mid_pair x p")
    case True
    then have pos: "0 < p" and lo: "is_lo_surrogate (unit_at x p)" and hi: "is_hi_surrogate (unit_at x (p - 1))"
      and t: "ec_cbuf_type x = 2" by (auto simp: mid_pair_def)
    have q1: "q = p + 1" using g GET_CHAR_eq [OF ok p] lo hi_not_lo by (auto split: if_splits)
    have "PREV_CHAR (ec_cbuf_type x) (ec_cbuf x) 0 q = Some (p - 1)" using prev lo hi t pos q1 by (auto simp: numeral_2_eq_2)
    moreover have "PREV_CHAR (ec_cbuf_type x) (ec_cbuf x) 0 p = Some (p - 1)"
      using PREV_CHAR_eq [OF ok pos] p hi hi_not_lo by auto
    ultimately have "back_steps x q = back_steps x p" using bk back_steps_step [OF ok pos] p by simp
    moreover have "0 < back_steps x p" using back_steps_step [OF ok pos] \<open>PREV_CHAR _ _ 0 p = _\<close> p by simp
    moreover have "\<not> mid_pair x q" using q1 lo hi_not_lo by (auto simp: mid_pair_def)
    ultimately show ?thesis using True by (simp add: read_steps_def)
  next
    case False
    have "PREV_CHAR (ec_cbuf_type x) (ec_cbuf x) 0 q = Some p"
      using prev g GET_CHAR_eq [OF ok p] False q p by (auto simp: mid_pair_def numeral_2_eq_2 split: if_splits)
    then have "back_steps x q = Suc (back_steps x p)" by (rule bk)
    moreover have "\<not> mid_pair x q"
      using g GET_CHAR_eq [OF ok p] hi_not_lo by (auto simp: mid_pair_def split: if_splits)
    ultimately show ?thesis using False by (simp add: read_steps_def)
  qed
qed

lemma read_le_back: "read_steps x p \<le> back_steps x p"
  by (simp add: read_steps_def)

lemma back_steps_le:
  assumes "subject_ok x" and "p \<le> ec_cbuf_end x"
  shows "back_steps x p \<le> p"
  using assms(2)
proof (induction p rule: less_induct)
  case (less p)
  show ?case
  proof (cases "p = 0")
    case False
    then obtain q where "PREV_CHAR (ec_cbuf_type x) (ec_cbuf x) 0 p = Some q" "q < p"
      using PREV_CHAR_eq [OF assms(1) _ less.prems] by (auto split: if_splits)
    with back_steps_step [OF assms(1) _ less.prems, of q] less False show ?thesis by fastforce
  qed simp
qed


subsection \<open>The static check\<close>

type_synonym code_type = "(nat \<times> nat) list"

definition flows :: "code_type \<Rightarrow> nat \<Rightarrow> nat \<Rightarrow> bool" where
  "flows tau pc d \<longleftrightarrow> map_of tau pc = Some d"

text \<open>The jump at \<open>pc\<close>, relative to \<open>from\<close>, has a target of depth \<open>d\<close>.\<close>

definition jump_ok :: "bytes \<Rightarrow> code_type \<Rightarrow> nat \<Rightarrow> nat \<Rightarrow> nat \<Rightarrow> bool" where
  "jump_ok bc tau pc from d =
     (case get_u32 bc pc of None \<Rightarrow> False | Some val \<Rightarrow>
        (case jump from val of None \<Rightarrow> False | Some t \<Rightarrow> flows tau t d))"

text \<open>The operands of an instruction that reads one character, and the position behind them.\<close>

definition char_next :: "bytes \<Rightarrow> nat \<Rightarrow> REOPCode \<Rightarrow> nat option" where
  "char_next bc pc op =
     (case op of
        REOP_char \<Rightarrow> map_option (\<lambda>_. pc + 3) (get_u16 bc (pc + 1))
      | REOP_char32 \<Rightarrow> map_option (\<lambda>_. pc + 5) (get_u32 bc (pc + 1))
      | REOP_dot \<Rightarrow> Some (pc + 1)
      | REOP_any \<Rightarrow> Some (pc + 1)
      | REOP_range \<Rightarrow> do {
          n \<leftarrow> get_u16 bc (pc + 1);
          if n \<noteq> 0 \<and> pc + 3 + 4 * unat n \<le> length bc then Some (pc + 3 + 4 * unat n) else None }
      | REOP_range32 \<Rightarrow> do {
          n \<leftarrow> get_u16 bc (pc + 1);
          if n \<noteq> 0 \<and> pc + 3 + 8 * unat n \<le> length bc then Some (pc + 3 + 8 * unat n) else None }
      | _ \<Rightarrow> None)"

definition is_test_op :: "REOPCode \<Rightarrow> bool" where
  "is_test_op op \<longleftrightarrow> op \<in> {REOP_line_start, REOP_line_end, REOP_word_boundary, REOP_not_word_boundary}"

definition opcode_at :: "bytes \<Rightarrow> nat \<Rightarrow> REOPCode option" where
  "opcode_at bc pc = do { b \<leftarrow> rd bc pc; reop_of b }"

text \<open>The body of a simple quantifier: straight-line code up to \<^verbatim>\<open>REOP_match\<close>; how many characters it reads.\<close>

fun body_chars :: "nat \<Rightarrow> bytes \<Rightarrow> nat \<Rightarrow> nat option" where
  "body_chars 0 bc pc = None"
| "body_chars (Suc n) bc pc =
     (case opcode_at bc pc of
        None \<Rightarrow> None
      | Some op \<Rightarrow>
          if op = REOP_match then Some 0
          else if is_test_op op then body_chars n bc (pc + 1)
          else if is_char_op op then
            (case char_next bc pc op of None \<Rightarrow> None | Some q \<Rightarrow> map_option Suc (body_chars n bc q))
          else None)"

definition greedy_ok :: "bytes \<Rightarrow> code_type \<Rightarrow> nat \<Rightarrow> nat \<Rightarrow> bool" where
  "greedy_ok bc tau pc d =
     (jump_ok bc tau pc (pc + 16) d \<and> get_u32 bc (pc + 4) \<noteq> None \<and> get_u32 bc (pc + 8) \<noteq> None \<and>
      (case get_u32 bc (pc + 12) of None \<Rightarrow> False | Some n \<Rightarrow>
         (case body_chars (length bc) bc (pc + 16) of None \<Rightarrow> False | Some k \<Rightarrow> 0 < unat n \<and> unat n \<le> k)))"

definition wt_instr :: "REExecContext \<Rightarrow> code_type \<Rightarrow> nat \<Rightarrow> nat \<Rightarrow> bool" where
  "wt_instr x tau pc d =
     (let bc = ec_bc x in
      case opcode_at bc pc of
        None \<Rightarrow> False
      | Some op \<Rightarrow>
         (case op of
            REOP_invalid \<Rightarrow> False
          | REOP_match \<Rightarrow> True
          | REOP_goto \<Rightarrow> jump_ok bc tau (pc + 1) (pc + 5) d
          | REOP_split_goto_first \<Rightarrow> jump_ok bc tau (pc + 1) (pc + 5) d \<and> flows tau (pc + 5) d
          | REOP_split_next_first \<Rightarrow> jump_ok bc tau (pc + 1) (pc + 5) d \<and> flows tau (pc + 5) d
          | REOP_lookahead \<Rightarrow> jump_ok bc tau (pc + 1) (pc + 5) d \<and> flows tau (pc + 5) d
          | REOP_negative_lookahead \<Rightarrow> jump_ok bc tau (pc + 1) (pc + 5) d \<and> flows tau (pc + 5) d
          | REOP_save_start \<Rightarrow> (case rd bc (pc + 1) of None \<Rightarrow> False | Some v \<Rightarrow> unat v < ec_capture_count x \<and> flows tau (pc + 2) d)
          | REOP_save_end \<Rightarrow> (case rd bc (pc + 1) of None \<Rightarrow> False | Some v \<Rightarrow> unat v < ec_capture_count x \<and> flows tau (pc + 2) d)
          | REOP_save_reset \<Rightarrow> rd bc (pc + 1) \<noteq> None \<and>
              (case rd bc (pc + 2) of None \<Rightarrow> False | Some v \<Rightarrow> unat v < ec_capture_count x \<and> flows tau (pc + 3) d)
          | REOP_loop \<Rightarrow> 0 < d \<and> jump_ok bc tau (pc + 1) (pc + 5) d \<and> flows tau (pc + 5) d
          | REOP_push_i32 \<Rightarrow> d < ec_stack_size_max x \<and> get_u32 bc (pc + 1) \<noteq> None \<and> flows tau (pc + 5) (d + 1)
          | REOP_drop \<Rightarrow> 0 < d \<and> flows tau (pc + 1) (d - 1)
          | REOP_push_char_pos \<Rightarrow> d < ec_stack_size_max x \<and> flows tau (pc + 1) (d + 1)
          | REOP_check_advance \<Rightarrow> 0 < d \<and> flows tau (pc + 1) (d - 1)
          | REOP_back_reference \<Rightarrow> rd bc (pc + 1) \<noteq> None \<and> flows tau (pc + 2) d
          | REOP_backward_back_reference \<Rightarrow> rd bc (pc + 1) \<noteq> None \<and> flows tau (pc + 2) d
          | REOP_prev \<Rightarrow> flows tau (pc + 1) d
          | REOP_simple_greedy_quant \<Rightarrow> greedy_ok bc tau (pc + 1) d
          | _ \<Rightarrow> if is_test_op op then flows tau (pc + 1) d
                 else (case char_next bc pc op of None \<Rightarrow> False | Some q \<Rightarrow> flows tau q d)))"

definition wt_code :: "REExecContext \<Rightarrow> code_type \<Rightarrow> bool" where
  "wt_code x tau \<longleftrightarrow> list_all (\<lambda>(pc, d). d \<le> ec_stack_size_max x \<and> wt_instr x tau pc d) tau"

lemma wt_codeD: "wt_code x tau \<Longrightarrow> flows tau pc d \<Longrightarrow> d \<le> ec_stack_size_max x \<and> wt_instr x tau pc d"
  by (auto simp: wt_code_def flows_def list_all_iff dest: map_of_SomeD)

subsection \<open>The invariant of the machine\<close>

definition captures_ok :: "REExecContext \<Rightarrow> nat option list \<Rightarrow> bool" where
  "captures_ok x cap \<longleftrightarrow> 2 * ec_capture_count x \<le> length cap \<and> (\<forall>p. Some p \<in> set cap \<longrightarrow> p \<le> ec_cbuf_end x)"

text \<open>An entry of the state stack; one of a greedy quantifier can give back all its iterations.\<close>

definition saved_ok :: "REExecContext \<Rightarrow> code_type \<Rightarrow> REExecState \<Rightarrow> bool" where
  "saved_ok x tau rs \<longleftrightarrow> captures_ok x (rs_capture rs) \<and> rs_stack_len rs \<le> length (rs_stack rs) \<and>
     rs_stack_len rs \<le> ec_stack_size_max x \<and> rs_cptr rs \<le> ec_cbuf_end x \<and>
     (if rs_type rs = RE_EXEC_STATE_GREEDY_QUANT then
        jump_ok (ec_bc x) tau (rs_pc rs) (rs_pc rs + 16) (rs_stack_len rs) \<and> 0 < rs_count rs \<and> rs_count rs < 2 ^ 64 \<and>
        (\<exists>n. get_u32 (ec_bc x) (rs_pc rs + 12) = Some n \<and> rs_count rs * unat n \<le> back_steps x (rs_cptr rs))
      else flows tau (rs_pc rs) (rs_stack_len rs))"

definition memory_ok :: "REExecContext \<Rightarrow> code_type \<Rightarrow> 'k exec_state \<Rightarrow> bool" where
  "memory_ok x tau st \<longleftrightarrow> captures_ok x (es_capture st) \<and> length (es_stack st) = ec_stack_size_max x \<and>
     (\<forall>rs\<in>set (es_states st). saved_ok x tau rs) \<and> es_states_size st * state_size x \<le> 2 ^ 63"

text \<open>The activation of a quantifier: each finished iteration has read \<open>n\<close> characters.\<close>

definition frame_ok :: "REExecContext \<Rightarrow> code_type \<Rightarrow> greedy_frame \<Rightarrow> bool" where
  "frame_ok x tau f \<longleftrightarrow>
     (\<exists>pc n k. gf_pc1 f = pc + 16 \<and> jump_ok (ec_bc x) tau pc (pc + 16) (gf_stack_len f) \<and> flows tau (gf_pc f) (gf_stack_len f) \<and>
        gf_stack_len f \<le> ec_stack_size_max x \<and> gf_cptr f \<le> ec_cbuf_end x \<and> get_u32 (ec_bc x) (pc + 12) = Some n \<and> 0 < unat n \<and>
        body_chars (length (ec_bc x)) (ec_bc x) (pc + 16) = Some k \<and> unat n \<le> k \<and>
        gf_q f * unat n \<le> read_steps x (gf_cptr f))"

text \<open>Where the machine is: at a typed position, or in the body of a quantifier with enough characters to come.\<close>

definition position_ok :: "REExecContext \<Rightarrow> code_type \<Rightarrow> 'k exec_state \<Rightarrow> bool" where
  "position_ok x tau st \<longleftrightarrow>
     (case es_frames st of
        [] \<Rightarrow> flows tau (es_pc st) (es_stack_len st)
      | f # fs \<Rightarrow> fs = [] \<and> frame_ok x tau f \<and>
          (\<exists>m k n. body_chars m (ec_bc x) (es_pc st) = Some k \<and> get_u32 (ec_bc x) (gf_pc1 f - 4) = Some n \<and>
             gf_q f * unat n + unat n \<le> read_steps x (es_cptr st) + k))"

definition state_ok :: "REExecContext \<Rightarrow> code_type \<Rightarrow> 'k exec_state \<Rightarrow> bool" where
  "state_ok x tau st \<longleftrightarrow> memory_ok x tau st \<and> es_cptr st \<le> ec_cbuf_end x \<and> position_ok x tau st"

definition outcome_ok :: "REExecContext \<Rightarrow> code_type \<Rightarrow> 'k exec_outcome \<Rightarrow> bool" where
  "outcome_ok x tau r =
     (case r of Running st \<Rightarrow> state_ok x tau st | Finished ret st \<Rightarrow> ret \<in> {1, 0, - 1} \<and> captures_ok x (es_capture st))"

definition sound :: "REExecContext \<Rightarrow> code_type \<Rightarrow> 'k exec_result \<Rightarrow> bool" where
  "sound x tau r \<longleftrightarrow> (\<exists>out. r = Some out \<and> outcome_ok x tau out)"


lemma soundI: "outcome_ok x tau out \<Longrightarrow> sound x tau (Some out)"
  by (simp add: sound_def)

lemma running_soundI: "state_ok x tau st \<Longrightarrow> sound x tau (Some (Running st))"
  by (simp add: sound_def outcome_ok_def)

subsection \<open>Backtracking\<close>

lemma restore_capture_ok:
  assumes "captures_ok x (rs_capture rs)" and "captures_ok x (es_capture st)"
  shows "\<exists>cap. restore_capture x rs st = Some (st\<lparr>es_capture := cap\<rparr>) \<and> captures_ok x cap"
  using assms
  by (intro exI [of _ "take (2 * ec_capture_count x) (rs_capture rs) @ drop (2 * ec_capture_count x) (es_capture st)"])
    (auto simp: restore_capture_def captures_ok_def slice_def blit_def dest: in_set_takeD in_set_dropD)

lemma restore_stack_ok:
  assumes "saved_ok x tau rs" and "length (es_stack st) = ec_stack_size_max x"
  shows "\<exists>stk. restore_stack rs st = Some (st\<lparr>es_stack := stk, es_stack_len := rs_stack_len rs\<rparr>) \<and> length stk = ec_stack_size_max x"
  using assms by (auto simp: restore_stack_def saved_ok_def slice_def blit_def)

lemma pop_state1_sound:
  assumes "saved_ok x tau rs" and "rs_type rs \<noteq> RE_EXEC_STATE_GREEDY_QUANT" and "memory_ok x tau st" and "es_frames st = []"
    and "\<forall>rs\<in>set rest. saved_ok x tau rs"
  shows "sound x tau (pop_state1 rs rest st)"
proof -
  obtain stk where "restore_stack rs st = Some (st\<lparr>es_stack := stk, es_stack_len := rs_stack_len rs\<rparr>)" "length stk = ec_stack_size_max x"
    using restore_stack_ok [OF assms(1), of st] assms(3) by (auto simp: memory_ok_def)
  moreover have "flows tau (rs_pc rs) (rs_stack_len rs)" "rs_cptr rs \<le> ec_cbuf_end x" using assms(1,2) by (auto simp: saved_ok_def)
  ultimately show ?thesis using assms(3-5)
    by (auto simp: pop_state1_def state_ok_def memory_ok_def position_ok_def intro!: running_soundI)
qed

lemma pop_state_sound:
  assumes "saved_ok x tau rs" and "rs_type rs \<noteq> RE_EXEC_STATE_GREEDY_QUANT" and "memory_ok x tau st" and "es_frames st = []"
    and "\<forall>rs\<in>set rest. saved_ok x tau rs"
  shows "sound x tau (pop_state x rs rest st)"
proof -
  obtain cap where c: "restore_capture x rs st = Some (st\<lparr>es_capture := cap\<rparr>)" "captures_ok x cap"
    using restore_capture_ok [of x rs st] assms by (auto simp: saved_ok_def memory_ok_def)
  have "sound x tau (pop_state1 rs rest (st\<lparr>es_capture := cap\<rparr>))"
    using assms c by (intro pop_state1_sound) (auto simp: memory_ok_def)
  with c show ?thesis by (simp add: pop_state_def)
qed

lemma greedy_retry_sound:
  assumes sub: "subject_ok x" and rs: "saved_ok x tau rs" and t: "rs_type rs = RE_EXEC_STATE_GREEDY_QUANT" and st: "memory_ok x tau st"
    and fr: "es_frames st = []" and rest: "\<forall>rs\<in>set rest. saved_ok x tau rs"
  shows "sound x tau (greedy_retry x rs rest st)"
proof -
  obtain cap where c: "restore_capture x rs st = Some (st\<lparr>es_capture := cap\<rparr>)" "captures_ok x cap"
    using restore_capture_ok [of x rs st] rs st by (auto simp: saved_ok_def memory_ok_def)
  obtain stk where k: "restore_stack rs (st\<lparr>es_capture := cap\<rparr>) = Some (st\<lparr>es_capture := cap, es_stack := stk, es_stack_len := rs_stack_len rs\<rparr>)"
    "length stk = ec_stack_size_max x"
    using restore_stack_ok [OF rs, of "st\<lparr>es_capture := cap\<rparr>"] st by (auto simp: memory_ok_def)
  obtain val pc where j: "get_u32 (ec_bc x) (rs_pc rs) = Some val" "jump (rs_pc rs + 16) val = Some pc" "flows tau pc (rs_stack_len rs)"
    using rs t by (auto simp: saved_ok_def jump_ok_def split: option.splits)
  obtain n where n: "get_u32 (ec_bc x) (rs_pc rs + 12) = Some n" "rs_count rs * unat n \<le> back_steps x (rs_cptr rs)"
    and cnt: "0 < rs_count rs" "rs_count rs < 2 ^ 64" and cp: "rs_cptr rs \<le> ec_cbuf_end x"
    using rs t by (auto simp: saved_ok_def)
  have "unat n + (rs_count rs - 1) * unat n \<le> back_steps x (rs_cptr rs)" using n(2) cnt(1) by (cases "rs_count rs") auto
  then obtain q where q: "prev_chars x (unat n) (rs_cptr rs) = Some q" "q \<le> rs_cptr rs"
    "(rs_count rs - 1) * unat n \<le> back_steps x q"
    using prev_chars_Some [OF sub cp, of "unat n"] by auto
  have w: "size_t_wrap (rs_count rs + (2 ^ 64 - 1)) = rs_count rs - 1" using cnt by (cases "rs_count rs") (auto simp: size_t_wrap_def)
  have "saved_ok x tau (rs\<lparr>rs_cptr := q, rs_count := rs_count rs - 1\<rparr>)" if "rs_count rs \<noteq> 1"
    using rs t cnt q n that cp by (auto simp: saved_ok_def)
  then show ?thesis using c k j n q w st fr rest cp cnt
    by (auto simp: greedy_retry_def state_ok_def memory_ok_def position_ok_def intro!: running_soundI)
qed

lemma recurse_sound:
  assumes "subject_ok x" and "\<forall>rs\<in>set rss. saved_ok x tau rs" and "memory_ok x tau st" and "es_frames st = []"
  shows "sound x tau (recurse_loop x ret rss st)"
  using assms(2)
proof (induction rss arbitrary: ret)
  case Nil
  with assms show ?case by (auto simp: outcome_ok_def memory_ok_def intro!: soundI)
next
  case (Cons rs rss)
  with assms show ?case
    by (auto intro!: pop_state_sound pop_state1_sound greedy_retry_sound split: REExecStateEnum.splits)
qed

subsection \<open>Saving a state\<close>

text \<open>The allocator never grants a block larger than half of the address space.\<close>

definition alloc_ok :: "'k lre_alloc \<Rightarrow> bool" where
  "alloc_ok al \<longleftrightarrow> (\<forall>h n. snd (al h n) \<longrightarrow> n \<le> 2 ^ 63)"

lemma push_state_ok:
  assumes al: "alloc_ok al" and st: "memory_ok x tau st" and len: "stack_len \<le> ec_stack_size_max x" and max: "ec_stack_size_max x \<le> 255"
    and cc: "ec_capture_count x \<le> 255"
    and rs: "\<And>cap stk. length cap = 2 * ec_capture_count x \<Longrightarrow> captures_ok x cap \<Longrightarrow> length stk = stack_len \<Longrightarrow>
      saved_ok x tau \<lparr>rs_type = ty, rs_stack_len = stack_len, rs_count = cnt, rs_cptr = cptr, rs_pc = pc, rs_capture = cap, rs_stack = stk\<rparr>"
  shows "\<exists>ok states sz h. push_state x al st stack_len pc cptr ty cnt = Some (ok, st\<lparr>es_states := states, es_states_size := sz, es_heap := h\<rparr>) \<and>
    memory_ok x tau (st\<lparr>es_states := states, es_states_size := sz, es_heap := h\<rparr>)"
proof -
  let ?full = "length (es_states st) + 1 > es_states_size st"
  define new where "new = (if es_states_size st * 3 div 2 < 8 then 8 else es_states_size st * 3 div 2)"
  let ?cap = "take (2 * ec_capture_count x) (es_capture st)" and ?stk = "take stack_len (es_stack st)"
  have cap: "slice (es_capture st) 0 (2 * ec_capture_count x) = Some ?cap" and stk: "slice (es_stack st) 0 stack_len = Some ?stk"
    using st len by (auto simp: memory_ok_def captures_ok_def slice_def)
  let ?rs = "\<lparr>rs_type = ty, rs_stack_len = stack_len, rs_count = cnt, rs_cptr = cptr, rs_pc = pc, rs_capture = ?cap, rs_stack = ?stk\<rparr>"
  have rs_ok: "saved_ok x tau ?rs" using st len by (intro rs) (auto simp: memory_ok_def captures_ok_def dest: in_set_takeD)
  have mod: "stack_len mod 256 = stack_len" using len max by simp
  have small: "state_size x \<le> 2 ^ 13" using max cc by (simp add: state_size_def sizeof_REExecState_def)
  have "es_states_size st * 3 div 2 * 2 * state_size x \<le> es_states_size st * 3 * state_size x" by (intro mult_le_mono1) simp
  then have "(es_states_size st * 3 div 2 * state_size x) * 2 \<le> (es_states_size st * state_size x) * 3" by (simp add: algebra_simps)
  moreover have "es_states_size st * state_size x \<le> 2 ^ 63" using st by (simp add: memory_ok_def)
  moreover have "a < 2 ^ 64" if "a * 2 \<le> b * 3" "b \<le> 2 ^ 63" for a b :: nat using that by simp
  ultimately have "es_states_size st * 3 div 2 * state_size x < 2 ^ 64" by blast
  then have fits: "new * state_size x < 2 ^ 64" using small by (simp add: new_def)
  have run: "push_state x al st stack_len pc cptr ty cnt =
      (let (h, granted) = (if ?full then al (es_heap st) (new * state_size x) else (es_heap st, True))
       in if granted then Some (True, st\<lparr>es_states := ?rs # es_states st, es_states_size := (if ?full then new else es_states_size st), es_heap := h\<rparr>)
          else Some (False, st\<lparr>es_heap := h\<rparr>))"
    using cap stk mod len fits by (simp add: push_state_def Let_def new_def [symmetric] split: prod.splits)
  show ?thesis
  proof (cases ?full)
    case True
    obtain h g where g: "al (es_heap st) (new * state_size x) = (h, g)" by fastforce
    show ?thesis
    proof (cases g)
      case granted: True
      then have "new * state_size x \<le> 2 ^ 63" using al g by (metis alloc_ok_def snd_conv)
      with True g granted run st rs_ok show ?thesis
        by (intro exI [of _ True] exI [of _ "?rs # es_states st"] exI [of _ new] exI [of _ h]) (simp add: memory_ok_def)
    next
      case False
      with True g run st show ?thesis
        by (intro exI [of _ False] exI [of _ "es_states st"] exI [of _ "es_states_size st"] exI [of _ h]) (simp add: memory_ok_def)
    qed
  next
    case False
    with run st rs_ok show ?thesis
      by (intro exI [of _ True] exI [of _ "?rs # es_states st"] exI [of _ "es_states_size st"] exI [of _ "es_heap st"])
        (simp add: memory_ok_def)
  qed
qed


text \<open>What the machine runs on: a subject within its buffer, checked code, header fields of one byte.\<close>

definition wt_prog :: "REExecContext \<Rightarrow> code_type \<Rightarrow> bool" where
  "wt_prog x tau \<longleftrightarrow> subject_ok x \<and> wt_code x tau \<and> ec_stack_size_max x \<le> 255 \<and> ec_capture_count x \<le> 255"

lemma memory_ok_simps [simp]:
  "memory_ok x tau (st\<lparr>es_pc := pc\<rparr>) = memory_ok x tau st"
  "memory_ok x tau (st\<lparr>es_cptr := c\<rparr>) = memory_ok x tau st"
  "memory_ok x tau (st\<lparr>es_stack_len := l\<rparr>) = memory_ok x tau st"
  "memory_ok x tau (st\<lparr>es_frames := fs\<rparr>) = memory_ok x tau st"
  by (simp_all add: memory_ok_def)

lemma memory_ok_captures: "memory_ok x tau st \<Longrightarrow> captures_ok x (es_capture st)"
  by (simp add: memory_ok_def)

lemma greedy_exit_sound:
  assumes p: "wt_prog x tau" and al: "alloc_ok al" and st: "memory_ok x tau st" and f: "frame_ok x tau f"
  shows "sound x tau (greedy_exit x al f (to_caller f [] st))"
proof -
  obtain pc n k where f': "gf_pc1 f = pc + 16" "jump_ok (ec_bc x) tau pc (pc + 16) (gf_stack_len f)" "flows tau (gf_pc f) (gf_stack_len f)"
    "gf_stack_len f \<le> ec_stack_size_max x" "gf_cptr f \<le> ec_cbuf_end x" "get_u32 (ec_bc x) (pc + 12) = Some n" "0 < unat n"
    "gf_q f * unat n \<le> read_steps x (gf_cptr f)"
    using f by (auto simp: frame_ok_def)
  let ?st = "to_caller f [] st"
  have m: "memory_ok x tau ?st" using st by (simp add: to_caller_def)
  have run: "state_ok x tau st'" if "memory_ok x tau st'" "es_pc st' = gf_pc f" "es_cptr st' = gf_cptr f" "es_stack_len st' = gf_stack_len f" "es_frames st' = []"
    for st' :: "'a exec_state" using that f' by (simp add: state_ok_def position_ok_def)
  show ?thesis
  proof (cases "gf_q f > gf_quant_min f")
    case True
    let ?c = "gf_q f - gf_quant_min f"
    have q: "gf_q f * unat n \<le> back_steps x (gf_cptr f)" using f'(8) read_le_back order.trans by blast
    have "gf_q f \<le> gf_q f * unat n" using f'(7) by simp
    also have "\<dots> \<le> gf_cptr f" using q back_steps_le [of x "gf_cptr f"] f'(5) p by (auto simp: wt_prog_def)
    finally have "gf_q f < 2 ^ 64" using f'(5) p by (auto simp: wt_prog_def subject_ok_def)
    moreover have "?c * unat n \<le> back_steps x (gf_cptr f)" using q mult_le_mono1 [of ?c "gf_q f" "unat n"] by linarith
    ultimately have "\<exists>ok states sz h. push_state x al ?st (gf_stack_len f) pc (gf_cptr f) RE_EXEC_STATE_GREEDY_QUANT ?c =
        Some (ok, ?st\<lparr>es_states := states, es_states_size := sz, es_heap := h\<rparr>) \<and>
        memory_ok x tau (?st\<lparr>es_states := states, es_states_size := sz, es_heap := h\<rparr>)"
      using al m f' p True by (intro push_state_ok) (auto simp: wt_prog_def saved_ok_def)
    then obtain ok states sz h where "push_state x al ?st (gf_stack_len f) pc (gf_cptr f) RE_EXEC_STATE_GREEDY_QUANT ?c =
        Some (ok, ?st\<lparr>es_states := states, es_states_size := sz, es_heap := h\<rparr>)"
      and m': "memory_ok x tau (?st\<lparr>es_states := states, es_states_size := sz, es_heap := h\<rparr>)" by blast
    with True f'(1) memory_ok_captures [OF m'] run [OF m'] show ?thesis
      by (auto simp: greedy_exit_def sound_def outcome_ok_def to_caller_def)
  next
    case False
    with run [OF m] show ?thesis by (auto simp: greedy_exit_def sound_def outcome_ok_def to_caller_def)
  qed
qed

definition frames_ok :: "REExecContext \<Rightarrow> code_type \<Rightarrow> 'k exec_state \<Rightarrow> bool" where
  "frames_ok x tau st \<longleftrightarrow> es_frames st = [] \<or> (\<exists>f. es_frames st = [f] \<and> frame_ok x tau f)"

lemma state_ok_frames: "state_ok x tau st \<Longrightarrow> frames_ok x tau st"
  by (auto simp: state_ok_def position_ok_def frames_ok_def split: list.splits)

lemma no_match_sound:
  assumes p: "wt_prog x tau" and al: "alloc_ok al" and st: "memory_ok x tau st" and f: "frames_ok x tau st"
  shows "sound x tau (no_match x al st)"
proof -
  have rec: "sound x tau (recurse_loop x ret (es_states st') st')" if "memory_ok x tau st'" "es_frames st' = []" for st' :: "'a exec_state" and ret
    using that p by (intro recurse_sound) (auto simp: wt_prog_def memory_ok_def)
  from f show ?thesis unfolding frames_ok_def
  proof
    assume "\<exists>f. es_frames st = [f] \<and> frame_ok x tau f"
    then obtain f where f: "es_frames st = [f]" "frame_ok x tau f" by blast
    have "memory_ok x tau (to_caller f [] st)" "es_frames (to_caller f [] st) = []" using st by (simp_all add: to_caller_def)
    with rec greedy_exit_sound [OF p al st f(2)] f(1) show ?thesis by (auto simp: no_match_def)
  qed (use rec [OF st] in \<open>simp add: no_match_def\<close>)
qed

lemma op_match_sound:
  assumes p: "wt_prog x tau" and al: "alloc_ok al" and st: "state_ok x tau st" and op: "opcode_at (ec_bc x) (es_pc st) = Some REOP_match"
  shows "sound x tau (op_match x al st)"
proof (cases "es_frames st")
  case Nil
  then show ?thesis using st p by (auto simp: op_match_def state_ok_def wt_prog_def memory_ok_def intro!: recurse_sound)
next
  case (Cons f fs)
  then obtain m k n where fs: "fs = []" and f: "frame_ok x tau f" and b: "body_chars m (ec_bc x) (es_pc st) = Some k"
    and n: "get_u32 (ec_bc x) (gf_pc1 f - 4) = Some n" "gf_q f * unat n + unat n \<le> read_steps x (es_cptr st) + k"
    using st by (auto simp: state_ok_def position_ok_def)
  let ?f = "f\<lparr>gf_cptr := es_cptr st, gf_q := gf_q f + 1\<rparr>"
  have "k = 0" using b op by (cases m) auto
  with n have q: "gf_q ?f * unat n \<le> read_steps x (es_cptr st)" by (simp add: algebra_simps)
  obtain pc k' where f': "gf_pc1 f = pc + 16" "body_chars (length (ec_bc x)) (ec_bc x) (pc + 16) = Some k'" "unat n \<le> k'"
    using f n(1) by (auto simp: frame_ok_def add.commute)
  have frame: "frame_ok x tau ?f" using f n(1) q st by (fastforce simp: frame_ok_def state_ok_def add.commute)
  have m: "memory_ok x tau st" using st by (simp add: state_ok_def)
  have "sound x tau (no_match x al (to_caller ?f [] st))"
    using m by (intro no_match_sound [OF p al]) (simp_all add: to_caller_def frames_ok_def)
  moreover have "state_ok x tau (st\<lparr>es_pc := gf_pc1 f, es_stack_len := gf_stack_len f, es_frames := [?f]\<rparr>)"
  proof -
    have "\<exists>m k n. body_chars m (ec_bc x) (gf_pc1 f) = Some k \<and> get_u32 (ec_bc x) (gf_pc1 f - 4) = Some n \<and>
        gf_q ?f * unat n + unat n \<le> read_steps x (es_cptr st) + k"
      using f' n(1) q by (intro exI [of _ "length (ec_bc x)"] exI [of _ k'] exI [of _ n]) simp
    then show ?thesis using st frame by (simp add: state_ok_def position_ok_def)
  qed
  ultimately show ?thesis using Cons fs greedy_exit_sound [OF p al m frame]
    by (auto simp: op_match_def Let_def intro: running_soundI)
qed


subsection \<open>Instructions that read the subject\<close>

lemma canon_Some: "\<exists>d. canon x c = Some d"
proof -
  have "\<exists>d. lre_canonicalize c (ec_is_unicode x) = Some d"
  proof (cases c rule: case_conv_search_cases)
    case (found i)
    then show ?thesis using lre_case_folding_entry_safe [OF found(2), of c "ec_is_unicode x"] by (auto simp: lre_canonicalize_def)
  qed (simp add: lre_canonicalize_def)
  then show ?thesis by (simp add: canon_def)
qed

lemma interval_search_total:
  assumes "\<And>i. i \<le> b \<Longrightarrow> get i \<noteq> None" and "get 0 = Some (lo, hi)" and "lo \<le> c"
  shows "\<exists>r. interval_search get c a b = Some r"
  using assms
proof (induction get c a b rule: interval_search.induct)
  case (1 get c a b)
  let ?m = "(a + b) div 2"
  show ?case
  proof (cases "a \<le> b")
    case True
    then have "?m \<le> b" by simp
    then obtain l h where g: "get ?m = Some (l, h)" using "1.prems"(1) [of ?m] by auto
    consider (lt) "c < l" | (gt) "\<not> c < l" "c > h" | (eq) "\<not> c < l" "\<not> c > h" by blast
    then show ?thesis
    proof cases
      case lt
      then have m0: "?m \<noteq> 0" using g "1.prems"(2,3) by (metis leD option.inject prod.inject)
      have "\<exists>r. interval_search get c a (?m - 1) = Some r"
        using "1.IH"(1) [OF True refl g refl lt m0] "1.prems" \<open>?m \<le> b\<close> by (meson diff_le_self order.trans)
      then show ?thesis using True g lt m0 by (subst interval_search.simps) simp
    next
      case gt
      have "\<exists>r. interval_search get c (?m + 1) b = Some r" using "1.IH"(2) [OF True refl g refl gt] "1.prems" by blast
      then show ?thesis using True g gt by (subst interval_search.simps) simp
    next
      case eq
      then show ?thesis using True g by (subst interval_search.simps) auto
    qed
  qed (subst interval_search.simps, auto)
qed

lemma get_u16_Some: "i + 2 \<le> length bc \<Longrightarrow> \<exists>v. get_u16 bc i = Some v"
  by (simp add: get_u16_def slice_def)

lemma get_u32_Some: "i + 4 \<le> length bc \<Longrightarrow> \<exists>v. get_u32 bc i = Some v"
  by (simp add: get_u32_def slice_def)

lemma range16_test_total:
  assumes "n \<noteq> 0" and "pc + 4 * n \<le> length bc"
  shows "\<exists>b. range16_test bc pc n c = Some b"
proof -
  have at: "\<exists>v. range16_at bc pc i = Some v" if "i \<le> n - 1" for i
  proof -
    have "pc + i * 4 + 4 \<le> length bc" using that assms by auto
    then show ?thesis using get_u16_Some [of "pc + i * 4" bc] get_u16_Some [of "pc + i * 4 + 2" bc] by (auto simp: range16_at_def)
  qed
  obtain lo hi where first: "range16_at bc pc 0 = Some (lo, hi)" using at [of 0] by auto
  then have lo: "get_u16 bc pc = Some lo" using range16_atD [of bc pc 0] by simp
  obtain z where "range16_at bc pc (n - 1) = Some z" using at [of "n - 1"] by auto
  then have "get_u16 bc (pc + (n - 1) * 4 + 2) = Some (snd z)" by (auto dest: range16_atD)
  moreover have "\<exists>b. interval_search (range16_at bc pc) c 0 (n - 1) = Some b" if "\<not> c < lo"
    using at first that by (intro interval_search_total) auto
  ultimately show ?thesis using assms(1) lo by (auto simp: range16_test_def)
qed

lemma range32_test_total:
  assumes "n \<noteq> 0" and "pc + 8 * n \<le> length bc"
  shows "\<exists>b. range32_test bc pc n c = Some b"
proof -
  have at: "\<exists>v. range32_at bc pc i = Some v" if "i \<le> n - 1" for i
  proof -
    have "pc + i * 8 + 8 \<le> length bc" using that assms by auto
    then show ?thesis using get_u32_Some [of "pc + i * 8" bc] get_u32_Some [of "pc + i * 8 + 4" bc] by (auto simp: range32_at_def)
  qed
  obtain lo hi where first: "range32_at bc pc 0 = Some (lo, hi)" using at [of 0] by auto
  then have lo: "get_u32 bc pc = Some lo" using range32_atD [of bc pc 0] by simp
  obtain z where "range32_at bc pc (n - 1) = Some z" using at [of "n - 1"] by auto
  then have "get_u32 bc (pc + (n - 1) * 8 + 4) = Some (snd z)" by (auto dest: range32_atD)
  moreover have "\<exists>b. interval_search (range32_at bc pc) c 0 (n - 1) = Some b" if "\<not> c < lo"
    using at first that by (intro interval_search_total) auto
  ultimately show ?thesis using assms(1) lo by (auto simp: range32_test_def)
qed

text \<open>The position after an instruction that reads a character, and after one that only tests.\<close>

lemma position_char:
  assumes p: "wt_prog x tau" and st: "state_ok x tau st" and op: "opcode_at (ec_bc x) (es_pc st) = Some op" "is_char_op op"
  obtains q where "char_next (ec_bc x) (es_pc st) op = Some q"
    and "\<And>c. c \<le> ec_cbuf_end x \<Longrightarrow> read_steps x (es_cptr st) + 1 \<le> read_steps x c \<Longrightarrow> state_ok x tau (st\<lparr>es_pc := q, es_cptr := c\<rparr>)"
proof (cases "es_frames st")
  case Nil
  then have f: "flows tau (es_pc st) (es_stack_len st)" using st by (simp add: state_ok_def position_ok_def)
  then have "wt_instr x tau (es_pc st) (es_stack_len st)" using p wt_codeD by (auto simp: wt_prog_def)
  then obtain q where "char_next (ec_bc x) (es_pc st) op = Some q" "flows tau q (es_stack_len st)"
    using op by (auto simp: wt_instr_def Let_def is_char_op_def is_test_op_def split: option.splits)
  with that Nil st show ?thesis by (auto simp: state_ok_def position_ok_def)
next
  case (Cons f fs)
  then obtain m k n where fs: "fs = []" "frame_ok x tau f" and b: "body_chars m (ec_bc x) (es_pc st) = Some k"
    and n: "get_u32 (ec_bc x) (gf_pc1 f - 4) = Some n" "gf_q f * unat n + unat n \<le> read_steps x (es_cptr st) + k"
    using st by (auto simp: state_ok_def position_ok_def)
  then obtain m' q k' where b': "char_next (ec_bc x) (es_pc st) op = Some q" "body_chars m' (ec_bc x) q = Some k'" "k = Suc k'"
    using op by (cases m) (auto simp: is_char_op_def is_test_op_def split: option.splits if_splits)
  have "state_ok x tau (st\<lparr>es_pc := q, es_cptr := c\<rparr>)" if "c \<le> ec_cbuf_end x" "read_steps x (es_cptr st) + 1 \<le> read_steps x c" for c
  proof -
    have "gf_q f * unat n + unat n \<le> read_steps x c + k'" using n(2) b'(3) that(2) by linarith
    then have "\<exists>m k n. body_chars m (ec_bc x) q = Some k \<and> get_u32 (ec_bc x) (gf_pc1 f - 4) = Some n \<and>
        gf_q f * unat n + unat n \<le> read_steps x c + k" using b'(2) n(1) by blast
    then show ?thesis using st Cons fs that by (simp add: state_ok_def position_ok_def)
  qed
  with that b'(1) show ?thesis by blast
qed

lemma position_test:
  assumes p: "wt_prog x tau" and st: "state_ok x tau st" and op: "opcode_at (ec_bc x) (es_pc st) = Some op" "is_test_op op"
  shows "state_ok x tau (st\<lparr>es_pc := es_pc st + 1\<rparr>)"
proof (cases "es_frames st")
  case Nil
  then have f: "flows tau (es_pc st) (es_stack_len st)" using st by (simp add: state_ok_def position_ok_def)
  then have "wt_instr x tau (es_pc st) (es_stack_len st)" using p wt_codeD by (auto simp: wt_prog_def)
  then have "flows tau (es_pc st + 1) (es_stack_len st)"
    using op by (auto simp: wt_instr_def Let_def is_test_op_def)
  with Nil st show ?thesis by (simp add: state_ok_def position_ok_def)
next
  case (Cons f fs)
  then obtain m k n where fs: "fs = []" "frame_ok x tau f" and b: "body_chars m (ec_bc x) (es_pc st) = Some k"
    and n: "get_u32 (ec_bc x) (gf_pc1 f - 4) = Some n" "gf_q f * unat n + unat n \<le> read_steps x (es_cptr st) + k"
    using st by (auto simp: state_ok_def position_ok_def)
  then obtain m' where "body_chars m' (ec_bc x) (es_pc st + 1) = Some k"
    using op by (cases m) (auto simp: is_test_op_def split: option.splits if_splits)
  then have "\<exists>m k n. body_chars m (ec_bc x) (es_pc st + 1) = Some k \<and> get_u32 (ec_bc x) (gf_pc1 f - 4) = Some n \<and>
        gf_q f * unat n + unat n \<le> read_steps x (es_cptr st) + k" using n by blast
  then show ?thesis using st Cons fs by (simp add: state_ok_def position_ok_def)
qed


lemma no_match_state:
  assumes "wt_prog x tau" and "alloc_ok al" and "state_ok x tau st"
  shows "sound x tau (no_match x al st)" and "sound x tau (no_match x al (st\<lparr>es_cptr := c\<rparr>))"
  using assms state_ok_frames [OF assms(3)]
  by (auto intro!: no_match_sound simp: state_ok_def frames_ok_def)

text \<open>All instructions of this kind read a character and then go on behind the instruction, or fail.\<close>

lemma read_char_sound:
  assumes p: "wt_prog x tau" and al: "alloc_ok al" and st: "state_ok x tau st"
    and op: "opcode_at (ec_bc x) (es_pc st) = Some op" "is_char_op op" and less: "es_cptr st < ec_cbuf_end x"
  obtains c e q where "GET_CHAR (ec_cbuf_type x) (ec_cbuf x) (ec_cbuf_end x) (es_cptr st) = Some (c, e)"
    and "char_next (ec_bc x) (es_pc st) op = Some q" and "state_ok x tau (st\<lparr>es_pc := q, es_cptr := e\<rparr>)"
proof -
  have sub: "subject_ok x" using p by (simp add: wt_prog_def)
  obtain c e where g: "GET_CHAR (ec_cbuf_type x) (ec_cbuf x) (ec_cbuf_end x) (es_cptr st) = Some (c, e)"
    using GET_CHAR_eq [OF sub less] by (auto split: if_splits)
  with read_steps_GET_CHAR [OF sub less g] position_char [OF p st op] that show ?thesis by metis
qed

lemma exec_char_sound:
  assumes p: "wt_prog x tau" and al: "alloc_ok al" and st: "state_ok x tau st"
    and op: "opcode_at (ec_bc x) (es_pc st) = Some op" "is_char_op op"
  shows "sound x tau (exec_op x al op (es_pc st + 1) st)"
proof -
  note nm = no_match_state [OF p al st]
  obtain q where q: "char_next (ec_bc x) (es_pc st) op = Some q" using position_char [OF p st op] .
  consider (c16) "op = REOP_char" | (c32) "op = REOP_char32" | (dot) "op = REOP_dot" | (any) "op = REOP_any"
    | (r16) "op = REOP_range" | (r32) "op = REOP_range32"
    using op(2) by (auto simp: is_char_op_def)
  note kinds = this
  show ?thesis
  proof (cases "es_cptr st < ec_cbuf_end x")
    case False
    then have e: "es_cptr st = ec_cbuf_end x" using st by (simp add: state_ok_def)
    from kinds show ?thesis
      by cases (use nm(1) q e in \<open>auto simp: exec_op_def char_next_def op_char_def op_range_def with_char_def split: bind_splits\<close>)
  next
    case True
    obtain c e where g: "GET_CHAR (ec_cbuf_type x) (ec_cbuf x) (ec_cbuf_end x) (es_cptr st) = Some (c, e)"
      and next_ok: "state_ok x tau (st\<lparr>es_pc := q, es_cptr := e\<rparr>)"
      using read_char_sound [OF p al st op True] q by (metis option.inject)
    obtain d where d: "canon x c = Some d" using canon_Some by blast
    have run: "sound x tau (Some (Running (st\<lparr>es_pc := q, es_cptr := e\<rparr>)))" using next_ok by (rule running_soundI)
    have "st\<lparr>es_cptr := e, es_pc := q\<rparr> = st\<lparr>es_pc := q, es_cptr := e\<rparr>" by simp
    with run have run': "sound x tau (Some (Running (st\<lparr>es_cptr := e, es_pc := q\<rparr>)))" by (simp only:)
    from kinds show ?thesis
    proof cases
      case r16
      then obtain n where n: "get_u16 (ec_bc x) (Suc (es_pc st)) = Some n" "n \<noteq> 0" "es_pc st + 3 + 4 * unat n \<le> length (ec_bc x)"
        "q = es_pc st + 3 + 4 * unat n" using q by (auto simp: char_next_def split: bind_splits if_splits)
      then obtain b where b: "range16_test (ec_bc x) (es_pc st + 3) (unat n) d = Some b"
        using range16_test_total [of "unat n" "es_pc st + 3" "ec_bc x" d] by (auto simp: unat_eq_0)
      with r16 n True g d run' nm(2) [of e] b show ?thesis
        by (simp add: exec_op_def op_range_def with_char_def numeral_3_eq_3)
    next
      case r32
      then obtain n where n: "get_u16 (ec_bc x) (Suc (es_pc st)) = Some n" "n \<noteq> 0" "es_pc st + 3 + 8 * unat n \<le> length (ec_bc x)"
        "q = es_pc st + 3 + 8 * unat n" using q by (auto simp: char_next_def split: bind_splits if_splits)
      then obtain b where b: "range32_test (ec_bc x) (es_pc st + 3) (unat n) d = Some b"
        using range32_test_total [of "unat n" "es_pc st + 3" "ec_bc x" d] by (auto simp: unat_eq_0)
      with r32 n True g d run' nm(2) [of e] show ?thesis
        by (simp add: exec_op_def op_range_def with_char_def numeral_3_eq_3)
    qed (use q True g d run run' nm in \<open>auto simp: exec_op_def char_next_def op_char_def with_char_def eval_nat_numeral split: bind_splits\<close>)
  qed
qed


subsection \<open>Tests and back references\<close>

lemma GET_PREV_CHAR_total:
  assumes "subject_ok x" and "0 < p" and "p \<le> ec_cbuf_end x"
  shows "\<exists>c q. GET_PREV_CHAR (ec_cbuf_type x) (ec_cbuf x) start p = Some (c, q) \<and> q < p"
  using assms by (auto simp: GET_PREV_CHAR_def subject_ok_def rd_def Let_def)

lemma PEEK_PREV_CHAR_total:
  "subject_ok x \<Longrightarrow> 0 < p \<Longrightarrow> p \<le> ec_cbuf_end x \<Longrightarrow> \<exists>c. PEEK_PREV_CHAR (ec_cbuf_type x) (ec_cbuf x) start p = Some c"
  using GET_PREV_CHAR_total [of x p start] by (auto simp: PEEK_PREV_CHAR_def)

lemma PEEK_CHAR_total: "subject_ok x \<Longrightarrow> p < ec_cbuf_end x \<Longrightarrow> \<exists>c. PEEK_CHAR (ec_cbuf_type x) (ec_cbuf x) (ec_cbuf_end x) p = Some c"
  using GET_CHAR_eq [of x p] by (auto simp: PEEK_CHAR_def)

lemma exec_test_sound:
  assumes p: "wt_prog x tau" and al: "alloc_ok al" and st: "state_ok x tau st"
    and op: "opcode_at (ec_bc x) (es_pc st) = Some op" "is_test_op op"
  shows "sound x tau (exec_op x al op (es_pc st + 1) st)"
proof -
  note nm = no_match_state(1) [OF p al st]
  have sub: "subject_ok x" using p by (simp add: wt_prog_def)
  have run: "sound x tau (Some (Running (st\<lparr>es_pc := Suc (es_pc st)\<rparr>)))"
    using position_test [OF p st op] by (auto intro: running_soundI)
  have c: "es_cptr st \<le> ec_cbuf_end x" using st by (simp add: state_ok_def)
  have prev: "\<exists>c. PEEK_PREV_CHAR (ec_cbuf_type x) (ec_cbuf x) 0 (es_cptr st) = Some c" if "es_cptr st \<noteq> 0"
    using PEEK_PREV_CHAR_total [OF sub] c that by simp
  have nxt: "\<exists>c. PEEK_CHAR (ec_cbuf_type x) (ec_cbuf x) (ec_cbuf_end x) (es_cptr st) = Some c" if "es_cptr st \<noteq> ec_cbuf_end x"
    using PEEK_CHAR_total [OF sub] c that by simp
  consider (s) "op = REOP_line_start" | (e) "op = REOP_line_end" | (w) "op = REOP_word_boundary \<or> op = REOP_not_word_boundary"
    using op(2) by (auto simp: is_test_op_def)
  then show ?thesis
  proof cases
    case s
    then show ?thesis using nm run prev by (cases "es_cptr st = 0") (auto simp: exec_op_def)
  next
    case e
    then show ?thesis using nm run nxt by (cases "es_cptr st = ec_cbuf_end x") (auto simp: exec_op_def)
  next
    case w
    then show ?thesis using nm run prev nxt c
      by (cases "es_cptr st = 0"; cases "es_cptr st = ec_cbuf_end x") (auto simp: exec_op_def op_word_boundary_def)
  qed
qed

lemma GET_CHAR_total:
  assumes "subject_ok x" and "p < e" and "e \<le> ec_cbuf_end x"
  shows "\<exists>c q. GET_CHAR (ec_cbuf_type x) (ec_cbuf x) e p = Some (c, q) \<and> p < q \<and> q \<le> e"
  using assms by (auto simp: GET_CHAR_def subject_ok_def rd_def Let_def)

lemma backref_forward_total:
  assumes sub: "subject_ok x" and e: "e \<le> ec_cbuf_end x" and "c \<le> ec_cbuf_end x"
  shows "\<exists>r. backref_forward x p e c = Some r \<and> (\<forall>q. r = Some q \<longrightarrow> q \<le> ec_cbuf_end x)"
  using assms(3)
proof (induction "e - p" arbitrary: p c rule: less_induct)
  case less
  show ?case
  proof (cases "p < e \<and> c < ec_cbuf_end x")
    case True
    obtain c1 p' where g1: "GET_CHAR (ec_cbuf_type x) (ec_cbuf x) e p = Some (c1, p')" "p < p'"
      using GET_CHAR_total [OF sub, of p e] e True by auto
    obtain c2 c' where g2: "GET_CHAR (ec_cbuf_type x) (ec_cbuf x) (ec_cbuf_end x) c = Some (c2, c')" "c' \<le> ec_cbuf_end x"
      using GET_CHAR_total [OF sub, of c "ec_cbuf_end x"] True by auto
    obtain d1 d2 where d: "canon x c1 = Some d1" "canon x c2 = Some d2" using canon_Some by metis
    have "\<exists>r. backref_forward x p' e c' = Some r \<and> (\<forall>q. r = Some q \<longrightarrow> q \<le> ec_cbuf_end x)"
      using less.hyps [of p' c'] g1(2) g2(2) True by auto
    then show ?thesis using True g1 g2 d by (subst backref_forward.simps) (auto simp: not_le)
  qed (use less.prems in \<open>subst backref_forward.simps, auto\<close>)
qed

lemma backref_backward_total:
  assumes sub: "subject_ok x" and "p \<le> ec_cbuf_end x" and "c \<le> ec_cbuf_end x"
  shows "\<exists>r. backref_backward x p start c = Some r \<and> (\<forall>q. r = Some q \<longrightarrow> q \<le> ec_cbuf_end x)"
  using assms(2,3)
proof (induction p arbitrary: c rule: less_induct)
  case (less p)
  show ?case
  proof (cases "p > start \<and> c \<noteq> 0")
    case True
    obtain c1 p' where g1: "GET_PREV_CHAR (ec_cbuf_type x) (ec_cbuf x) start p = Some (c1, p')" "p' < p"
      using GET_PREV_CHAR_total [OF sub, of p start] less.prems True by auto
    obtain c2 c' where g2: "GET_PREV_CHAR (ec_cbuf_type x) (ec_cbuf x) 0 c = Some (c2, c')" "c' < c"
      using GET_PREV_CHAR_total [OF sub, of c 0] less.prems True by auto
    obtain d1 d2 where d: "canon x c1 = Some d1" "canon x c2 = Some d2" using canon_Some by metis
    have "\<exists>r. backref_backward x p' start c' = Some r \<and> (\<forall>q. r = Some q \<longrightarrow> q \<le> ec_cbuf_end x)"
      using less g1(2) g2(2) by auto
    then show ?thesis using True g1 g2 d by (subst backref_backward.simps) auto
  qed (use less.prems in \<open>subst backref_backward.simps, auto\<close>)
qed

text \<open>Outside a quantifier body the type of the instruction holds.\<close>

lemma other_op_type:
  assumes "wt_prog x tau" and st: "state_ok x tau st" and op: "opcode_at (ec_bc x) (es_pc st) = Some op"
    and "\<not> is_char_op op" and "\<not> is_test_op op" and "op \<noteq> REOP_match"
  shows "es_frames st = []" and "flows tau (es_pc st) (es_stack_len st)"
    and "wt_instr x tau (es_pc st) (es_stack_len st)" and "es_stack_len st \<le> ec_stack_size_max x"
proof -
  show e: "es_frames st = []"
  proof (rule ccontr)
    assume "es_frames st \<noteq> []"
    then obtain m k where "body_chars m (ec_bc x) (es_pc st) = Some k"
      using st by (auto simp: state_ok_def position_ok_def split: list.splits)
    with op assms(4-6) show False by (cases m) auto
  qed
  with st show f: "flows tau (es_pc st) (es_stack_len st)" by (simp add: state_ok_def position_ok_def)
  then show "wt_instr x tau (es_pc st) (es_stack_len st)" "es_stack_len st \<le> ec_stack_size_max x"
    using assms(1) wt_codeD by (auto simp: wt_prog_def)
qed

lemma op_back_reference_sound:
  assumes p: "wt_prog x tau" and al: "alloc_ok al" and st: "state_ok x tau st" and fr: "es_frames st = []"
    and f: "flows tau pc (es_stack_len st)"
  shows "sound x tau (op_back_reference x al backward val pc st)"
proof (cases "val \<ge> ec_capture_count x")
  case True
  then show ?thesis using no_match_state(1) [OF p al st] by (simp add: op_back_reference_def)
next
  case False
  note nm = no_match_state(1) [OF p al st]
  have sub: "subject_ok x" using p by (simp add: wt_prog_def)
  have cap: "captures_ok x (es_capture st)" and c: "es_cptr st \<le> ec_cbuf_end x" using st by (simp_all add: state_ok_def memory_ok_def)
  obtain a b where ab: "rd (es_capture st) (2 * val) = Some a" "rd (es_capture st) (2 * val + 1) = Some b"
    using cap False by (simp add: captures_ok_def rd_def)
  have run: "sound x tau (Some (Running (st\<lparr>es_pc := pc, es_cptr := q\<rparr>)))" if "q \<le> ec_cbuf_end x" for q
    using st fr f that by (auto simp: state_ok_def position_ok_def intro!: running_soundI)
  have run0: "sound x tau (Some (Running (st\<lparr>es_pc := pc\<rparr>)))"
    using st fr f by (auto simp: state_ok_def position_ok_def intro!: running_soundI)
  show ?thesis
  proof (cases "a = None \<or> b = None")
    case True
    then show ?thesis using False ab run0 by (auto simp: op_back_reference_def split: option.splits)
  next
    case some: False
    then obtain s e where se: "a = Some s" "b = Some e" by auto
    have le: "s \<le> ec_cbuf_end x" "e \<le> ec_cbuf_end x"
      using cap ab se by (auto simp: captures_ok_def rd_eq_Some_iff dest!: nth_mem)
    obtain r where "(if \<not> backward then backref_forward x s e (es_cptr st) else backref_backward x e s (es_cptr st)) = Some r"
      "\<forall>q. r = Some q \<longrightarrow> q \<le> ec_cbuf_end x"
      using backref_forward_total [OF sub le(2) c] backref_backward_total [OF sub le(2) c] by (cases backward) (auto, blast+)
    then show ?thesis using False ab se nm run by (cases r) (auto simp: op_back_reference_def)
  qed
qed


subsection \<open>Control and captures\<close>

lemma captures_ok_update: "captures_ok x cap \<Longrightarrow> (\<forall>p. v = Some p \<longrightarrow> p \<le> ec_cbuf_end x) \<Longrightarrow> captures_ok x (cap[i := v])"
  by (auto simp: captures_ok_def dest: set_update_subset_insert [THEN subsetD])

lemma reset_captures_ok:
  assumes "val2 < ec_capture_count x" and "captures_ok x cap"
  shows "\<exists>cap'. reset_captures val val2 cap = Some cap' \<and> captures_ok x cap'"
  using assms
proof (induction val val2 cap rule: reset_captures.induct)
  case (1 val val2 cap)
  show ?case
  proof (cases "val \<le> val2")
    case True
    let ?c = "cap[2 * val := None, 2 * val + 1 := None]"
    have l: "2 * val + 1 < length cap" using True "1.prems" by (auto simp: captures_ok_def)
    have "captures_ok x ?c" using "1.prems" by (simp add: captures_ok_update)
    then have "\<exists>cap'. reset_captures (val + 1) val2 ?c = Some cap' \<and> captures_ok x cap'"
      using "1.IH" [OF True, of "cap[2 * val := None]" ?c] l "1.prems"(1) by (simp add: wr_def)
    then show ?thesis using True l by (subst reset_captures.simps) (simp add: wr_def)
  qed (use "1.prems" in \<open>subst reset_captures.simps, simp\<close>)
qed

lemma op_push_sound:
  assumes p: "wt_prog x tau" and al: "alloc_ok al" and st: "state_ok x tau st" and fr: "es_frames st = []"
    and f: "flows tau pc1 (es_stack_len st)" "flows tau pc (es_stack_len st)" and d: "es_stack_len st \<le> ec_stack_size_max x"
    and ty: "ty \<noteq> RE_EXEC_STATE_GREEDY_QUANT"
  shows "sound x tau (op_push x al pc1 pc ty st)"
proof -
  have "\<exists>ok states sz h. push_state x al st (es_stack_len st) pc1 (es_cptr st) ty 0 = Some (ok, st\<lparr>es_states := states, es_states_size := sz, es_heap := h\<rparr>) \<and>
      memory_ok x tau (st\<lparr>es_states := states, es_states_size := sz, es_heap := h\<rparr>)"
    using p al st f d ty by (intro push_state_ok) (auto simp: wt_prog_def state_ok_def saved_ok_def)
  then obtain ok states sz h where "push_state x al st (es_stack_len st) pc1 (es_cptr st) ty 0 = Some (ok, st\<lparr>es_states := states, es_states_size := sz, es_heap := h\<rparr>)"
    "memory_ok x tau (st\<lparr>es_states := states, es_states_size := sz, es_heap := h\<rparr>)" by blast
  with st fr f show ?thesis
    by (auto simp: op_push_def sound_def outcome_ok_def state_ok_def position_ok_def memory_ok_def)
qed

lemma jump_okD: "jump_ok bc tau pc from d \<Longrightarrow> \<exists>val t. get_u32 bc pc = Some val \<and> jump from val = Some t \<and> flows tau t d"
  by (auto simp: jump_ok_def split: option.splits)

text \<open>A state at another typed position, with the same depth or with a changed stack.\<close>

lemma goto_ok:
  "state_ok x tau st \<Longrightarrow> es_frames st = [] \<Longrightarrow> flows tau pc (es_stack_len st) \<Longrightarrow> state_ok x tau (st\<lparr>es_pc := pc\<rparr>)"
  by (simp add: state_ok_def position_ok_def)

lemma restack_ok:
  "state_ok x tau st \<Longrightarrow> es_frames st = [] \<Longrightarrow> flows tau pc d \<Longrightarrow> length stk = length (es_stack st) \<Longrightarrow>
     state_ok x tau (st\<lparr>es_pc := pc, es_stack := stk, es_stack_len := d\<rparr>)"
  by (simp add: state_ok_def position_ok_def memory_ok_def)

lemma recapture_ok:
  "state_ok x tau st \<Longrightarrow> es_frames st = [] \<Longrightarrow> flows tau pc (es_stack_len st) \<Longrightarrow> captures_ok x cap \<Longrightarrow>
     state_ok x tau (st\<lparr>es_pc := pc, es_capture := cap\<rparr>)"
  by (simp add: state_ok_def position_ok_def memory_ok_def)

lemma op_greedy_sound:
  assumes p: "wt_prog x tau" and st: "state_ok x tau st" and fr: "es_frames st = []"
    and g: "greedy_ok (ec_bc x) tau pc (es_stack_len st)" and d: "es_stack_len st \<le> ec_stack_size_max x"
  shows "sound x tau (op_greedy x pc st)"
proof -
  let ?bc = "ec_bc x"
  obtain val t qmin qmax n k where o: "get_u32 ?bc pc = Some val" "jump (pc + 16) val = Some t" "flows tau t (es_stack_len st)"
    "get_u32 ?bc (pc + 4) = Some qmin" "get_u32 ?bc (pc + 8) = Some qmax" "get_u32 ?bc (pc + 12) = Some n"
    "body_chars (length ?bc) ?bc (pc + 16) = Some k" "0 < unat n" "unat n \<le> k"
    using g by (auto simp: greedy_ok_def jump_ok_def split: option.splits)
  let ?f = "\<lparr>gf_pc1 = pc + 16, gf_pc = t, gf_cptr = es_cptr st, gf_stack_len = es_stack_len st,
      gf_quant_min = unat qmin, gf_quant_max = unat qmax, gf_q = 0\<rparr>"
  have "frame_ok x tau ?f" using o g d st by (auto simp: frame_ok_def greedy_ok_def state_ok_def)
  moreover have "\<exists>m k n. body_chars m ?bc (pc + 16) = Some k \<and> get_u32 ?bc (gf_pc1 ?f - 4) = Some n \<and>
      gf_q ?f * unat n + unat n \<le> read_steps x (es_cptr st) + k"
    using o by (intro exI [of _ "length ?bc"] exI [of _ k] exI [of _ n]) (simp add: add.commute)
  ultimately have "state_ok x tau (st\<lparr>es_pc := pc + 16, es_frames := [?f]\<rparr>)"
    using st by (simp add: state_ok_def position_ok_def)
  then show ?thesis using o fr by (auto simp: op_greedy_def Let_def intro: running_soundI)
qed


subsection \<open>Every step\<close>

lemma exec_other_sound:
  assumes p: "wt_prog x tau" and al: "alloc_ok al" and st: "state_ok x tau st" and op: "opcode_at (ec_bc x) (es_pc st) = Some op"
    and other: "\<not> is_char_op op" "\<not> is_test_op op" "op \<noteq> REOP_match"
  shows "sound x tau (exec_op x al op (es_pc st + 1) st)"
proof -
  note t = other_op_type [OF p st op other]
  note go = running_soundI [OF goto_ok [OF st t(1)]] and nm = no_match_state(1) [OF p al st]
  have five: "5 + es_pc st = es_pc st + 5" by simp
  have len: "length (es_stack st) = ec_stack_size_max x" and cap: "captures_ok x (es_capture st)" and c: "es_cptr st \<le> ec_cbuf_end x"
    using st by (simp_all add: state_ok_def memory_ok_def)
  have sub: "subject_ok x" using p by (simp add: wt_prog_def)
  show ?thesis
  proof (cases op)
    case REOP_goto
    then show ?thesis using t(3) op go by (auto simp: wt_instr_def Let_def exec_op_def five dest!: jump_okD)
  next
    case REOP_split_goto_first
    then show ?thesis using t op op_push_sound [OF p al st t(1)] by (auto simp: wt_instr_def Let_def exec_op_def five dest!: jump_okD)
  next
    case REOP_split_next_first
    then show ?thesis using t op op_push_sound [OF p al st t(1)] by (auto simp: wt_instr_def Let_def exec_op_def five dest!: jump_okD)
  next
    case REOP_lookahead
    then show ?thesis using t op op_push_sound [OF p al st t(1)] by (auto simp: wt_instr_def Let_def exec_op_def five dest!: jump_okD)
  next
    case REOP_negative_lookahead
    then show ?thesis using t op op_push_sound [OF p al st t(1)] by (auto simp: wt_instr_def Let_def exec_op_def five dest!: jump_okD)
  next
    case REOP_save_start
    then obtain v where v: "rd (ec_bc x) (es_pc st + 1) = Some v" "unat v < ec_capture_count x" "flows tau (es_pc st + 2) (es_stack_len st)"
      using t op by (auto simp: wt_instr_def Let_def split: option.splits)
    have "captures_ok x ((es_capture st)[2 * unat v := Some (es_cptr st)])" using cap c by (simp add: captures_ok_update)
    from running_soundI [OF recapture_ok [OF st t(1) v(3) this]] v REOP_save_start cap show ?thesis
      by (auto simp: exec_op_def wr_def captures_ok_def)
  next
    case REOP_save_end
    then obtain v where v: "rd (ec_bc x) (es_pc st + 1) = Some v" "unat v < ec_capture_count x" "flows tau (es_pc st + 2) (es_stack_len st)"
      using t op by (auto simp: wt_instr_def Let_def split: option.splits)
    have "captures_ok x ((es_capture st)[2 * unat v + 1 := Some (es_cptr st)])" using cap c by (simp add: captures_ok_update)
    from running_soundI [OF recapture_ok [OF st t(1) v(3) this]] v REOP_save_end cap show ?thesis
      by (auto simp: exec_op_def wr_def captures_ok_def)
  next
    case REOP_save_reset
    then obtain v where v: "rd (ec_bc x) (es_pc st + 2) = Some v" "unat v < ec_capture_count x"
      "flows tau (es_pc st + 3) (es_stack_len st)" and l: "es_pc st + 1 < length (ec_bc x)"
      using t op by (auto simp: wt_instr_def Let_def split: option.splits)
    from l obtain w where w: "rd (ec_bc x) (es_pc st + 1) = Some w" by (simp add: rd_def)
    obtain cap' where "reset_captures (unat w) (unat v) (es_capture st) = Some cap'" "captures_ok x cap'"
      using reset_captures_ok [OF v(2) cap] by blast
    with running_soundI [OF recapture_ok [OF st t(1) v(3)]] v w REOP_save_reset show ?thesis
      by (auto simp: exec_op_def numeral_3_eq_3)
  next
    case REOP_loop
    then obtain val tgt where v: "0 < es_stack_len st" "get_u32 (ec_bc x) (es_pc st + 1) = Some val" "jump (es_pc st + 5) val = Some tgt"
      "flows tau tgt (es_stack_len st)" "flows tau (es_pc st + 5) (es_stack_len st)"
      using t op by (auto simp: wt_instr_def Let_def dest!: jump_okD)
    have i: "es_stack_len st - 1 < length (es_stack st)" using v(1) t(4) len by simp
    have "sound x tau (Some (Running (st\<lparr>es_pc := pc, es_stack := stk\<rparr>)))"
      if "flows tau pc (es_stack_len st)" "length stk = length (es_stack st)" for pc stk
      using st t(1) that by (auto simp: state_ok_def position_ok_def memory_ok_def intro!: running_soundI)
    with i v REOP_loop show ?thesis by (simp add: exec_op_def rd_def wr_def five)
  next
    case REOP_push_i32
    then obtain val where v: "es_stack_len st < ec_stack_size_max x" "get_u32 (ec_bc x) (es_pc st + 1) = Some val"
      "flows tau (es_pc st + 5) (es_stack_len st + 1)"
      using t op by (auto simp: wt_instr_def Let_def)
    let ?stk = "(es_stack st)[es_stack_len st := ucast val]"
    from running_soundI [OF restack_ok [OF st t(1) v(3), of ?stk]] v len REOP_push_i32 show ?thesis
      by (simp add: exec_op_def wr_def five)
  next
    case REOP_drop
    then have v: "0 < es_stack_len st" "flows tau (es_pc st + 1) (es_stack_len st - 1)" using t op by (auto simp: wt_instr_def Let_def)
    have "state_ok x tau (st\<lparr>es_pc := es_pc st + 1, es_stack_len := es_stack_len st - 1\<rparr>)"
      using st t(1) v by (simp add: state_ok_def position_ok_def)
    with v REOP_drop show ?thesis by (auto simp: exec_op_def intro: running_soundI)
  next
    case REOP_push_char_pos
    then have v: "es_stack_len st < ec_stack_size_max x" "flows tau (es_pc st + 1) (es_stack_len st + 1)"
      using t op by (auto simp: wt_instr_def Let_def)
    let ?stk = "(es_stack st)[es_stack_len st := word_of_nat (es_cptr st)]"
    from running_soundI [OF restack_ok [OF st t(1) v(2), of ?stk]] v len REOP_push_char_pos show ?thesis
      by (simp add: exec_op_def wr_def)
  next
    case REOP_check_advance
    then have v: "0 < es_stack_len st" "flows tau (es_pc st + 1) (es_stack_len st - 1)" using t op by (auto simp: wt_instr_def Let_def)
    have i: "es_stack_len st - 1 < length (es_stack st)" using v(1) t(4) len by simp
    have "state_ok x tau (st\<lparr>es_pc := es_pc st + 1, es_stack_len := es_stack_len st - 1\<rparr>)"
      using st t(1) v by (simp add: state_ok_def position_ok_def)
    with v i nm REOP_check_advance show ?thesis by (auto simp: exec_op_def rd_def intro: running_soundI)
  next
    case REOP_back_reference
    then show ?thesis using t op op_back_reference_sound [OF p al st t(1)] by (auto simp: wt_instr_def Let_def exec_op_def rd_def)
  next
    case REOP_backward_back_reference
    then show ?thesis using t op op_back_reference_sound [OF p al st t(1)] by (auto simp: wt_instr_def Let_def exec_op_def rd_def)
  next
    case REOP_prev
    then have f: "flows tau (es_pc st + 1) (es_stack_len st)" using t op by (auto simp: wt_instr_def Let_def)
    show ?thesis
    proof (cases "es_cptr st = 0")
      case False
      obtain q where q: "PREV_CHAR (ec_cbuf_type x) (ec_cbuf x) 0 (es_cptr st) = Some q" "q < es_cptr st"
        using PREV_CHAR_eq [OF sub _ c] False by (auto split: if_splits)
      have "state_ok x tau (st\<lparr>es_pc := es_pc st + 1, es_cptr := q\<rparr>)" using st t(1) f q(2) by (simp add: state_ok_def position_ok_def)
      with q False REOP_prev show ?thesis by (auto simp: exec_op_def intro: running_soundI)
    qed (use nm REOP_prev in \<open>simp add: exec_op_def\<close>)
  next
    case REOP_simple_greedy_quant
    then show ?thesis using t op op_greedy_sound [OF p st t(1)] by (simp add: wt_instr_def Let_def exec_op_def)
  qed (use other t op in \<open>auto simp: is_char_op_def is_test_op_def wt_instr_def Let_def\<close>)
qed


lemma exec_step_sound:
  assumes p: "wt_prog x tau" and al: "alloc_ok al" and st: "state_ok x tau st"
  shows "sound x tau (exec_step x al st)"
proof -
  obtain op where op: "opcode_at (ec_bc x) (es_pc st) = Some op"
  proof (cases "es_frames st")
    case Nil
    then have "wt_instr x tau (es_pc st) (es_stack_len st)"
      using st p wt_codeD by (auto simp: state_ok_def position_ok_def wt_prog_def)
    then show ?thesis using that by (auto simp: wt_instr_def Let_def split: option.splits)
  next
    case (Cons f fs)
    then obtain m k where "body_chars m (ec_bc x) (es_pc st) = Some k" using st by (auto simp: state_ok_def position_ok_def)
    then show ?thesis using that by (cases m) (auto split: option.splits)
  qed
  have "exec_step x al st = exec_op x al op (es_pc st + 1) st" using op
    by (cases "rd (ec_bc x) (es_pc st)") (simp_all add: exec_step_def opcode_at_def)
  moreover have "exec_op x al REOP_match pc st = op_match x al st" for pc by (simp add: exec_op_def)
  ultimately show ?thesis
    using exec_char_sound [OF p al st op] exec_test_sound [OF p al st op] exec_other_sound [OF p al st op] op_match_sound [OF p al st] op
    by (cases "op = REOP_match"; cases "is_char_op op"; cases "is_test_op op") auto
qed

lemma lre_exec_backtrack_sound:
  assumes "wt_prog x tau" and "alloc_ok al" and "state_ok x tau st"
  shows "sound x tau (lre_exec_backtrack n x al st)"
  using assms(3)
proof (induction n arbitrary: st)
  case (Suc n)
  obtain r where r: "exec_step x al st = Some r" "outcome_ok x tau r"
    using exec_step_sound [OF assms(1,2) Suc.prems] by (auto simp: sound_def)
  then show ?case using Suc.IH by (cases r) (auto simp: outcome_ok_def sound_def)
qed (simp add: running_soundI)

lemma exec_init_ok:
  assumes "flows tau 7 0" and "captures_ok x cap" and "length stk = ec_stack_size_max x" and "i \<le> ec_cbuf_end x"
  shows "state_ok x tau (exec_init cap stk i h)"
  using assms by (simp add: state_ok_def memory_ok_def position_ok_def exec_init_def)

lemma u8_le_255: "unat (b :: u8) \<le> 255"
proof -
  have "(- 1 :: u8) = 255" by simp
  moreover have "b \<le> - 1" by (rule word_order.extremum)
  ultimately have "unat b \<le> unat (255 :: u8)" by (simp only: word_le_nat_alt)
  moreover have "unat (255 :: u8) = 255" by simp
  ultimately show ?thesis by (simp only:)
qed

lemma exec_context_wt_prog:
  assumes "exec_context bc t (length t) cbuf_type = Some x" and "length t < 2 ^ 64" and "wt_code x tau"
  shows "wt_prog x tau \<and> ec_cbuf_end x = length t \<and> ec_bc x = bc"
proof -
  have "ec_cbuf x = t" "ec_cbuf_end x = length t" "ec_stack_size_max x \<le> 255" "ec_capture_count x \<le> 255" "ec_bc x = bc"
    using assms(1) u8_le_255 by (auto simp: exec_context_def Let_def lre_get_capture_count_def split: bind_splits)
  with assms(2,3) show ?thesis by (simp add: wt_prog_def subject_ok_def)
qed

text \<open>
  C3. Well-typed byte code does not go wrong. When the static check accepts the code in a buffer, with the stack
  depth 0 at the first instruction, \<^verbatim>\<open>lre_exec\<close> executes any number of instructions without undefined behaviour and
  without a failing assertion: no access outside the code, the subject, the captures, the stack or the saved states,
  and greedy quantifiers give back no more than they read, also from inside a surrogate pair. If it returns, it
  returns 1, 0 or -1 and every capture lies within the subject.
\<close>

theorem lre_exec_type_safe:
  assumes x: "exec_context bc t (length t) cbuf_type = Some x" and "length t < 2 ^ 64" and wt: "wt_code x tau" and start: "flows tau 7 0"
    and al: "alloc_ok al" and cap: "length cap = 2 * ec_capture_count x" and i: "i \<le> length t"
    and stk: "length stack_buf = ec_stack_size_max x"
  shows "\<exists>r. lre_exec n al cap bc t i (length t) cbuf_type stack_buf h = Some r \<and>
    (case r of Running st \<Rightarrow> True
     | Finished ret st \<Rightarrow> ret \<in> {1, 0, - 1} \<and> (\<forall>p. Some p \<in> set (es_capture st) \<longrightarrow> p \<le> length t))"
proof -
  have p: "wt_prog x tau" and f: "ec_cbuf_end x = length t" "ec_bc x = bc" using exec_context_wt_prog [OF x assms(2) wt] by auto
  have c: "clear_captures cap (2 * ec_capture_count x) = Some (replicate (2 * ec_capture_count x) None)"
    using cap by (simp add: clear_captures_def blit_def)
  let ?st = "exec_init (replicate (2 * ec_capture_count x) None) stack_buf i h"
  have "state_ok x tau ?st"
    using start stk i f by (auto simp: state_ok_def memory_ok_def captures_ok_def position_ok_def exec_init_def)
  then obtain r where "lre_exec_backtrack n x al ?st = Some r" "outcome_ok x tau r"
    using lre_exec_backtrack_sound [OF p al] by (auto simp: sound_def)
  then show ?thesis using x c stk f
    by (cases r) (auto simp: lre_exec_def outcome_ok_def captures_ok_def)
qed


text \<open>The byte code of the pattern \<^verbatim>\<open>(a+|[x-z]){2}(?=c)\1\<close>, and its type.\<close>

definition sample_code :: bytes where
  "sample_code =
    [0, 2, 1, 80, 0, 0, 0, 8, 6, 0, 0, 0, 4, 7, 245, 255, 255, 255, 11, 0,
     15, 2, 0, 0, 0, 11, 1, 9, 26, 0, 0, 0, 28, 4, 0, 0, 0, 1, 0, 0, 0, 255,
     255, 255, 127, 1, 0, 0, 0, 1, 97, 0, 10, 7, 7, 0, 0, 0, 21, 1, 0, 120,
     0, 122, 0, 12, 1, 14, 209, 255, 255, 255, 16, 23, 4, 0, 0, 0, 1, 99, 0,
     10, 19, 1, 12, 0, 10]"

definition sample_type :: code_type where
  "sample_type =
    [(7, 0), (12, 0), (13, 0), (18, 0), (20, 0), (25, 1), (27, 1), (32, 1), (53, 1), (58, 1), (65, 1), (67, 1), (72, 1),
     (73, 0), (78, 0), (81, 0), (82, 0), (84, 0), (86, 0)]"

definition sample_ctx :: REExecContext where
  "sample_ctx = \<lparr>ec_bc = sample_code, ec_cbuf = [120, 97, 97, 99], ec_cbuf_end = 4, ec_cbuf_type = 0, ec_capture_count = 2,
     ec_stack_size_max = 1, ec_multi_line = False, ec_ignore_case = False, ec_is_unicode = False\<rparr>"

lemma sample_wt: "wt_code sample_ctx sample_type"
  unfolding wt_code_def sample_type_def sample_ctx_def sample_code_def
  by (simp add: wt_instr_def opcode_at_def rd_def reop_of_def reop_list_def jump_ok_def flows_def get_u32_def get_u16_def slice_def jump_def
      char_next_def is_test_op_def greedy_ok_def is_char_op_def)


theorem lre_exec_type_safe_witness:
  "\<exists>r. lre_exec 1000 (\<lambda>h n. (h + n, n \<le> 4096)) (replicate 4 None) sample_code [120, 97, 97, 99] 1 (length [120, 97, 97, 99 :: u16]) 0 [7] (0 :: nat) = Some r \<and>
    (case r of Running st \<Rightarrow> True
     | Finished ret st \<Rightarrow> ret \<in> {1, 0, - 1} \<and> (\<forall>p. Some p \<in> set (es_capture st) \<longrightarrow> p \<le> length [120, 97, 97, 99 :: u16]))"
proof (rule lre_exec_type_safe)
  show "exec_context sample_code [120, 97, 97, 99] (length [120, 97, 97, 99 :: u16]) 0 = Some sample_ctx"
    by (simp add: exec_context_def lre_get_flags_def lre_get_capture_count_def sample_ctx_def sample_code_def rd_def)
  show "wt_code sample_ctx sample_type" by (rule sample_wt)
qed (simp_all add: flows_def sample_type_def alloc_ok_def sample_ctx_def)


subsection \<open>Reachable states\<close>

text \<open>The states a run goes through.\<close>

inductive exec_reachable :: "REExecContext \<Rightarrow> 'k lre_alloc \<Rightarrow> 'k exec_state \<Rightarrow> 'k exec_state \<Rightarrow> bool"
  for x al st0 where
  start: "exec_reachable x al st0 st0"
| step: "exec_reachable x al st0 st \<Longrightarrow> exec_step x al st = Some (Running st') \<Longrightarrow> exec_reachable x al st0 st'"

lemma reachable_ok:
  assumes "wt_prog x tau" and "alloc_ok al" and "exec_reachable x al st0 st" and "state_ok x tau st0"
  shows "state_ok x tau st"
  using assms(3,4)
proof (induction rule: exec_reachable.induct)
  case (step st st')
  with exec_step_sound [OF assms(1,2), of st] show ?case by (auto simp: sound_def outcome_ok_def)
qed

text \<open>
  C4. Invariant of the machine on well-typed code: in every reachable state the position in the subject and all
  captures, live or saved, lie within the subject, the stack keeps its size, outside a quantifier body the stack depth
  is the one the type gives for the instruction, and the interpreter is at most one call deep in itself.
\<close>

theorem exec_reachable_invariant:
  assumes "wt_prog x tau" and "alloc_ok al" and "flows tau 7 0"
    and "captures_ok x cap" and "length stk = ec_stack_size_max x" and "i \<le> ec_cbuf_end x"
    and "exec_reachable x al (exec_init cap stk i h) st"
  shows "es_cptr st \<le> ec_cbuf_end x \<and> captures_ok x (es_capture st) \<and>
    (\<forall>rs\<in>set (es_states st). rs_cptr rs \<le> ec_cbuf_end x \<and> captures_ok x (rs_capture rs)) \<and>
    length (es_stack st) = ec_stack_size_max x \<and> length (es_frames st) \<le> 1 \<and>
    (es_frames st = [] \<longrightarrow> flows tau (es_pc st) (es_stack_len st) \<and> es_stack_len st \<le> ec_stack_size_max x)"
proof -
  have st: "state_ok x tau st" by (rule reachable_ok [OF assms(1,2,7) exec_init_ok [OF assms(3-6)]])
  have "length (es_frames st) \<le> 1" using state_ok_frames [OF st] by (auto simp: frames_ok_def)
  moreover have "es_frames st = [] \<longrightarrow> flows tau (es_pc st) (es_stack_len st)" using st by (auto simp: state_ok_def position_ok_def)
  ultimately show ?thesis using st assms(1) wt_codeD
    by (auto simp: state_ok_def memory_ok_def saved_ok_def wt_prog_def)
qed

definition sample_init :: "nat exec_state" where
  "sample_init = exec_init (replicate 4 None) [7] 1 0"

theorem exec_reachable_invariant_witness:
  "\<exists>st. exec_step sample_ctx (\<lambda>h n. (h, n \<le> 4096)) sample_init = Some (Running st) \<and>
     es_cptr st \<le> 4 \<and> captures_ok sample_ctx (es_capture st) \<and> length (es_stack st) = 1 \<and> length (es_frames st) \<le> 1"
proof -
  let ?al = "\<lambda>h n. (h, n \<le> 4096) :: nat \<times> bool"
  have p: "wt_prog sample_ctx sample_type" using sample_wt by (simp add: wt_prog_def subject_ok_def) (simp add: sample_ctx_def)
  obtain st where st: "exec_step sample_ctx ?al sample_init = Some (Running st)"
    by (simp add: exec_step_def sample_init_def exec_init_def sample_ctx_def sample_code_def rd_def reop_of_def reop_list_def exec_op_def
        get_u32_def slice_def jump_def op_push_def push_state_def state_size_def sizeof_REExecState_def size_t_wrap_def)
  have "exec_reachable sample_ctx ?al sample_init st" by (rule exec_reachable.step [OF exec_reachable.start st])
  then have "es_cptr st \<le> ec_cbuf_end sample_ctx \<and> captures_ok sample_ctx (es_capture st) \<and>
    length (es_stack st) = ec_stack_size_max sample_ctx \<and> length (es_frames st) \<le> 1"
    using exec_reachable_invariant [OF p _ _ _ _ _, of ?al "replicate 4 None" "[7]" 1 0 st]
    by (simp add: sample_init_def alloc_ok_def flows_def sample_type_def captures_ok_def sample_ctx_def)
  with st show ?thesis by (auto simp: sample_ctx_def)
qed

end
