(* ===== verification/RegexpForward.thy ===== *)
theory RegexpForward
  imports RegexpSafe
begin

section \<open>Termination of matching without loops\<close>

text \<open>
  Code whose jumps all go forward, without counted loops and greedy quantifiers, as it is compiled from a sticky
  pattern with alternatives, optional parts, lookaheads and references. Every instruction lowers a weight of the
  machine's state: of its position and of the positions saved on the state stack.
\<close>

definition forward_jump :: "bytes \<Rightarrow> nat \<Rightarrow> bool" where
  "forward_jump bc pc = (case get_u32 bc pc of None \<Rightarrow> False | Some val \<Rightarrow> 0 \<le> sint val)"

definition forward_instr :: "bytes \<Rightarrow> nat \<Rightarrow> bool" where
  "forward_instr bc pc =
     (case opcode_at bc pc of
        None \<Rightarrow> False
      | Some op \<Rightarrow>
          if op \<in> {REOP_loop, REOP_simple_greedy_quant} then False
          else if op \<in> {REOP_goto, REOP_split_goto_first, REOP_split_next_first, REOP_lookahead, REOP_negative_lookahead}
          then forward_jump bc (pc + 1) else True)"

definition forward_code :: "bytes \<Rightarrow> code_type \<Rightarrow> bool" where
  "forward_code bc tau \<longleftrightarrow> list_all (\<lambda>(pc, d). forward_instr bc pc) tau"

lemma forward_codeD: "forward_code bc tau \<Longrightarrow> flows tau pc d \<Longrightarrow> forward_instr bc pc"
  by (auto simp: forward_code_def flows_def list_all_iff dest: map_of_SomeD)

subsection \<open>The weight of a state\<close>

definition pc_weight :: "bytes \<Rightarrow> nat \<Rightarrow> nat" where
  "pc_weight bc pc = 3 ^ (length bc - pc)"

definition saved_weight :: "bytes \<Rightarrow> REExecState list \<Rightarrow> nat" where
  "saved_weight bc rss = sum_list (map (\<lambda>rs. pc_weight bc (rs_pc rs)) rss)"

definition weight :: "bytes \<Rightarrow> 'k exec_state \<Rightarrow> nat" where
  "weight bc st = pc_weight bc (es_pc st) + saved_weight bc (es_states st)"

lemma saved_weight_simps [simp]:
  "saved_weight bc [] = 0" "saved_weight bc (rs # rss) = pc_weight bc (rs_pc rs) + saved_weight bc rss"
  by (simp_all add: saved_weight_def)

lemma pc_weight_pos [simp]: "0 < pc_weight bc pc"
  by (simp add: pc_weight_def)

lemma pc_weight_less: "pc < length bc \<Longrightarrow> pc < q \<Longrightarrow> pc_weight bc q < pc_weight bc pc"
  by (simp add: pc_weight_def)

lemma pc_weight_split:
  assumes "pc < length bc" and "pc < q" and "pc < r"
  shows "pc_weight bc q + pc_weight bc r < pc_weight bc pc"
proof -
  obtain n where n: "length bc - pc = Suc n" using assms(1) by (metis Suc_diff_Suc)
  have "pc_weight bc q \<le> 3 ^ n" "pc_weight bc r \<le> 3 ^ n"
    using n assms by (auto simp: pc_weight_def intro!: power_increasing)
  moreover have "(0 :: nat) < 3 ^ n" by simp
  moreover have "pc_weight bc pc = 3 * 3 ^ n" using n by (simp add: pc_weight_def)
  ultimately show ?thesis by linarith
qed

lemma saved_weight_less: "saved_weight bc (es_states st) < weight bc st"
  by (simp add: weight_def)

text \<open>No quantifier is active or saved.\<close>

definition loop_free :: "'k exec_state \<Rightarrow> bool" where
  "loop_free st \<longleftrightarrow> es_frames st = [] \<and> (\<forall>rs\<in>set (es_states st). rs_type rs \<noteq> RE_EXEC_STATE_GREEDY_QUANT)"

definition lighter :: "bytes \<Rightarrow> 'k exec_state \<Rightarrow> 'k exec_result \<Rightarrow> bool" where
  "lighter bc st r \<longleftrightarrow> (\<forall>st'. r = Some (Running st') \<longrightarrow> weight bc st' < weight bc st \<and> loop_free st')"

lemma recurse_weight:
  assumes "\<forall>rs\<in>set rss. rs_type rs \<noteq> RE_EXEC_STATE_GREEDY_QUANT" and "es_frames st = []"
    and "recurse_loop x ret rss st = Some (Running st')"
  shows "weight bc st' \<le> saved_weight bc rss \<and> loop_free st'"
  using assms(1,3)
proof (induction rss arbitrary: ret)
  case (Cons rs rss)
  have pop: "weight bc st' = pc_weight bc (rs_pc rs) + saved_weight bc rss \<and> loop_free st'"
    if "pop_state1 rs rss st1 = Some (Running st')" "es_frames st1 = []" for st1
    using that Cons.prems(1) by (auto simp: pop_state1_def restore_stack_def weight_def loop_free_def split: bind_splits)
  have pop2: "weight bc st' = pc_weight bc (rs_pc rs) + saved_weight bc rss \<and> loop_free st'" if "pop_state x rs rss st = Some (Running st')"
    using that pop assms(2) by (auto simp: pop_state_def restore_capture_def split: bind_splits)
  have skip: "weight bc st' \<le> pc_weight bc (rs_pc rs) + saved_weight bc rss \<and> loop_free st'"
    if "recurse_loop x b rss st = Some (Running st')" for b
    using Cons.IH [of b] that Cons.prems(1) by auto
  show ?case using Cons.prems pop pop2 skip assms(2)
    by (cases "rs_type rs") (auto split: if_splits)
qed simp

lemma no_match_lighter:
  assumes "loop_free st0" and "es_frames st = []" and "es_states st = es_states st0"
  shows "lighter bc st0 (no_match x al st)"
proof -
  have "saved_weight bc (es_states st0) < weight bc st0" by (simp add: weight_def)
  then show ?thesis using assms recurse_weight [of "es_states st" st x False _ bc]
    by (fastforce simp: lighter_def no_match_def loop_free_def)
qed


lemma advance_lighter:
  assumes "loop_free st0" and "es_pc st0 < length bc" and "es_pc st0 < es_pc st" and "es_states st = es_states st0" and "es_frames st = []"
  shows "lighter bc st0 (Some (Running st))"
  using assms pc_weight_less [of "es_pc st0" bc "es_pc st"] by (simp add: lighter_def weight_def loop_free_def)

lemma lighter_None [simp]: "lighter bc st None"
  by (simp add: lighter_def)

lemma lighter_Finished [simp]: "lighter bc st (Some (Finished ret st'))"
  by (simp add: lighter_def)

lemma lighter_bind: "(\<And>y. r = Some y \<Longrightarrow> lighter bc st (f y)) \<Longrightarrow> lighter bc st (Option.bind r f)"
  by (cases r) simp_all

lemma push_state_cases:
  assumes "push_state x al st len pc cptr ty cnt = Some (b, st')"
  shows "es_frames st' = es_frames st \<and>
    (b \<longrightarrow> (\<exists>rs. es_states st' = rs # es_states st \<and> rs_pc rs = pc \<and> rs_type rs = ty))"
  using assms by (auto simp: push_state_def Let_def split: prod.splits if_splits bind_splits)

lemma op_push_lighter:
  assumes "loop_free st" and "es_pc st < length bc" and "es_pc st < pc1" and "es_pc st < pc" and "ty \<noteq> RE_EXEC_STATE_GREEDY_QUANT"
  shows "lighter bc st (op_push x al pc1 pc ty st)"
proof -
  have "weight bc (st'\<lparr>es_pc := pc\<rparr>) < weight bc st \<and> loop_free (st'\<lparr>es_pc := pc\<rparr>)"
    if "push_state x al st (es_stack_len st) pc1 (es_cptr st) ty 0 = Some (True, st')" for st'
    using push_state_cases [OF that] assms pc_weight_split [OF assms(2-4)] by (auto simp: weight_def loop_free_def)
  then show ?thesis by (auto simp: op_push_def lighter_def split: bind_splits prod.splits if_splits)
qed

lemma forward_jumpD: "forward_jump bc pc \<Longrightarrow> get_u32 bc pc = Some val \<Longrightarrow> jump from val = Some t \<Longrightarrow> from \<le> t"
  by (auto simp: forward_jump_def jump_def Let_def split: if_splits)

lemma exec_op_lighter:
  assumes st: "loop_free st" and op: "opcode_at (ec_bc x) (es_pc st) = Some op" and fwd: "forward_instr (ec_bc x) (es_pc st)"
  shows "lighter (ec_bc x) st (exec_op x al op (es_pc st + 1) st)"
proof -
  have len: "es_pc st < length (ec_bc x)" using op by (auto simp: opcode_at_def rd_def split: bind_splits if_splits)
  have fr: "es_frames st = []" using st by (simp add: loop_free_def)
  note nm = no_match_lighter [OF st] and adv = advance_lighter [OF st len] and push = op_push_lighter [OF st len]
  have jmp: "es_pc st < t" if "get_u32 (ec_bc x) (Suc (es_pc st)) = Some val" "jump (Suc (es_pc st + 4)) val = Some t"
    "op \<in> {REOP_goto, REOP_split_goto_first, REOP_split_next_first, REOP_lookahead, REOP_negative_lookahead}" for val t
    using forward_jumpD [of "ec_bc x" "Suc (es_pc st)" val "Suc (es_pc st + 4)" t] that fwd op by (auto simp: forward_instr_def)
  have wc: "lighter (ec_bc x) st (with_char x al st k)" if "\<And>c e. lighter (ec_bc x) st (k c (st\<lparr>es_cptr := e\<rparr>))" for k
    using that fr nm by (auto simp: with_char_def split: prod.splits intro!: lighter_bind)
  have oc: "lighter (ec_bc x) st (op_char x al v pc st)" if "es_pc st < pc" for v pc
    unfolding op_char_def using that fr by (auto intro!: wc lighter_bind nm adv)
  have rg: "lighter (ec_bc x) st (op_range x al test w pc st)" if "es_pc st < pc" for test w pc
    unfolding op_range_def using that fr by (auto intro!: wc lighter_bind nm adv)
  have wb: "lighter (ec_bc x) st (op_word_boundary x al neg pc st)" if "es_pc st < pc" for neg pc
    unfolding op_word_boundary_def using that fr by (auto intro!: lighter_bind nm adv)
  have br: "lighter (ec_bc x) st (op_back_reference x al backward v pc st)" if "es_pc st < pc" for backward v pc
    unfolding op_back_reference_def using that fr by (auto intro!: lighter_bind nm adv split: option.splits)
  have mt: "lighter (ec_bc x) st (op_match x al st)"
  proof -
    have "weight (ec_bc x) st' < weight (ec_bc x) st \<and> loop_free st'" if "recurse_loop x True (es_states st) st = Some (Running st')" for st'
      using recurse_weight [OF _ fr that, of "ec_bc x"] st le_less_trans [OF _ saved_weight_less, of "weight (ec_bc x) st'"]
      by (auto simp: loop_free_def)
    then show ?thesis using fr by (auto simp: op_match_def lighter_def split: if_splits)
  qed
  show ?thesis
  proof (cases op)
    case REOP_goto
    then show ?thesis using fr jmp by (auto simp: exec_op_def intro!: lighter_bind adv)
  next
    case REOP_split_goto_first
    then show ?thesis using jmp by (auto simp: exec_op_def intro!: lighter_bind push)
  next
    case REOP_split_next_first
    then show ?thesis using jmp by (auto simp: exec_op_def intro!: lighter_bind push)
  next
    case REOP_lookahead
    then show ?thesis using jmp by (auto simp: exec_op_def intro!: lighter_bind push)
  next
    case REOP_negative_lookahead
    then show ?thesis using jmp by (auto simp: exec_op_def intro!: lighter_bind push)
  qed (use fwd op fr mt oc rg wb br in \<open>auto simp: exec_op_def forward_instr_def intro!: lighter_bind nm adv\<close>)
qed


subsection \<open>The run\<close>

lemma exec_step_lighter:
  assumes st: "state_ok x tau st" and lf: "loop_free st" and fwd: "forward_code (ec_bc x) tau"
  shows "lighter (ec_bc x) st (exec_step x al st)"
proof (cases "opcode_at (ec_bc x) (es_pc st)")
  case None
  then have "exec_step x al st = None" by (cases "rd (ec_bc x) (es_pc st)") (simp_all add: exec_step_def opcode_at_def rd_def)
  then show ?thesis by simp
next
  case (Some op)
  have "flows tau (es_pc st) (es_stack_len st)" using st lf by (auto simp: state_ok_def position_ok_def loop_free_def)
  then have "forward_instr (ec_bc x) (es_pc st)" by (rule forward_codeD [OF fwd])
  from exec_op_lighter [OF lf Some this] Some show ?thesis by (auto simp: exec_step_def opcode_at_def split: bind_splits)
qed

lemma backtrack_finishes:
  assumes p: "wt_prog x tau" and al: "alloc_ok al" and fwd: "forward_code (ec_bc x) tau"
    and "state_ok x tau st" and "loop_free st" and "weight (ec_bc x) st \<le> n"
  shows "\<exists>ret st'. lre_exec_backtrack n x al st = Some (Finished ret st') \<and> ret \<in> {1, 0, - 1}"
  using assms(4-6)
proof (induction n arbitrary: st)
  case 0
  then show ?case using saved_weight_less [of "ec_bc x" st] by simp
next
  case (Suc n)
  obtain r where r: "exec_step x al st = Some r" "outcome_ok x tau r"
    using exec_step_sound [OF p al Suc.prems(1)] by (auto simp: sound_def)
  show ?case
  proof (cases r)
    case (Running st')
    with r exec_step_lighter [OF Suc.prems(1,2) fwd, of al] Suc.prems(3)
    have "state_ok x tau st'" "loop_free st'" "weight (ec_bc x) st' \<le> n" by (auto simp: outcome_ok_def lighter_def)
    with Suc.IH [of st'] r Running show ?thesis by simp
  qed (use r in \<open>auto simp: outcome_ok_def\<close>)
qed

lemma backtrack_more:
  assumes "lre_exec_backtrack n x al st = Some (Finished ret st')" and "n \<le> m"
  shows "lre_exec_backtrack m x al st = Some (Finished ret st')"
  using assms
proof (induction n arbitrary: m st)
  case (Suc n)
  then obtain k where "m = Suc k" "n \<le> k" by (cases m) auto
  with Suc show ?case by (auto split: bind_splits exec_outcome.splits)
qed simp

text \<open>
  C5. Code without backward jumps and quantifiers, as compiled from a sticky pattern with alternatives, optional
  parts, lookaheads and references only, finishes: when the static check accepts it, \<^verbatim>\<open>lre_exec\<close> returns 1, 0 or -1
  after at most \<open>3 ^ (l - 7)\<close> instructions on every subject, where \<open>l\<close> is the length of the code with its header.
\<close>

theorem forward_code_terminates:
  assumes x: "exec_context bc t (length t) cbuf_type = Some x" and "length t < 2 ^ 64" and wt: "wt_code x tau" and start: "flows tau 7 0"
    and fwd: "forward_code bc tau"
    and al: "alloc_ok al" and cap: "length cap = 2 * ec_capture_count x" and i: "i \<le> length t"
    and stk: "length stack_buf = ec_stack_size_max x"
  shows "\<exists>ret st. ret \<in> {1, 0, - 1} \<and>
    (\<forall>n \<ge> 3 ^ (length bc - 7). lre_exec n al cap bc t i (length t) cbuf_type stack_buf h = Some (Finished ret st))"
proof -
  have p: "wt_prog x tau" and f: "ec_cbuf_end x = length t" "ec_bc x = bc" using exec_context_wt_prog [OF x assms(2) wt] by auto
  have c: "clear_captures cap (2 * ec_capture_count x) = Some (replicate (2 * ec_capture_count x) None)"
    using cap by (simp add: clear_captures_def blit_def)
  let ?st = "exec_init (replicate (2 * ec_capture_count x) None) stack_buf i h"
  have "state_ok x tau ?st" using start stk i f by (intro exec_init_ok) (auto simp: captures_ok_def)
  moreover have "loop_free ?st" "weight bc ?st = 3 ^ (length bc - 7)"
    by (simp_all add: loop_free_def exec_init_def weight_def pc_weight_def)
  ultimately obtain ret st' where fin: "lre_exec_backtrack (3 ^ (length bc - 7)) x al ?st = Some (Finished ret st')" "ret \<in> {1, 0, - 1}"
    using backtrack_finishes [OF p al, of ?st "3 ^ (length bc - 7)"] fwd f by auto
  show ?thesis
    by (rule exI [of _ ret], rule exI [of _ "st'\<lparr>es_states := [], es_states_size := 0, es_heap := fst (al (es_heap st') 0)\<rparr>"])
      (use fin(2) x c stk backtrack_more [OF fin(1)] in \<open>auto simp: lre_exec_def\<close>)
qed

text \<open>The byte code of the sticky pattern \<^verbatim>\<open>(a|ab)?(?!x)\1\<close>, and its type.\<close>

definition forward_sample :: bytes where
  "forward_sample =
    [32, 2, 1, 49, 0, 0, 0, 11, 0, 13, 1, 1, 9, 25, 0, 0, 0, 25, 11, 1, 9, 8, 0, 0, 0, 1, 97, 0, 7, 6, 0, 0, 0, 1, 97, 0, 1,
     98, 0, 12, 1, 26, 24, 4, 0, 0, 0, 1, 120, 0, 10, 19, 1, 12, 0, 10]"

definition forward_type :: code_type where
  "forward_type = [(7, 0), (9, 0), (12, 0), (17, 0), (18, 1), (20, 1), (25, 1), (28, 1), (33, 1), (36, 1), (39, 1), (41, 1),
     (42, 0), (47, 0), (50, 0), (51, 0), (53, 0), (55, 0)]"

definition forward_ctx :: REExecContext where
  "forward_ctx = \<lparr>ec_bc = forward_sample, ec_cbuf = [97, 98, 97, 98], ec_cbuf_end = 4, ec_cbuf_type = 0, ec_capture_count = 2,
     ec_stack_size_max = 1, ec_multi_line = False, ec_ignore_case = False, ec_is_unicode = False\<rparr>"

lemmas forward_eval = opcode_at_def rd_def reop_of_def reop_list_def flows_def get_u32_def get_u16_def slice_def

lemma forward_sample_wt: "wt_code forward_ctx forward_type"
  unfolding wt_code_def forward_type_def forward_ctx_def forward_sample_def
  by (simp add: wt_instr_def jump_ok_def jump_def char_next_def is_test_op_def is_char_op_def forward_eval)

lemma forward_sample_forward: "forward_code forward_sample forward_type"
  unfolding forward_code_def forward_type_def forward_sample_def
  by (simp add: forward_instr_def forward_jump_def forward_eval)

theorem forward_code_terminates_witness:
  "\<exists>ret st. ret \<in> {1, 0, - 1} \<and>
    (\<forall>n \<ge> 3 ^ (length forward_sample - 7).
       lre_exec n (\<lambda>h n. (h + n, n \<le> 4096)) (replicate 4 None) forward_sample [97, 98, 97, 98] 0 (length [97, 98, 97, 98 :: u16]) 0 [7] (0 :: nat)
       = Some (Finished ret st))"
proof (rule forward_code_terminates)
  show "exec_context forward_sample [97, 98, 97, 98] (length [97, 98, 97, 98 :: u16]) 0 = Some forward_ctx"
    by (simp add: exec_context_def lre_get_flags_def lre_get_capture_count_def forward_ctx_def forward_sample_def rd_def)
  show "wt_code forward_ctx forward_type" by (rule forward_sample_wt)
  show "forward_code forward_sample forward_type" by (rule forward_sample_forward)
qed (simp_all add: flows_def forward_type_def alloc_ok_def forward_ctx_def)

end
