(* ===== verification/Limbs.thy ===== *)
theory Limbs
  imports CUtils
begin

unbundle bit_operations_syntax

section \<open>Multiple-precision naturals (\<^verbatim>\<open>js/libbf.c\<close>)\<close>

text \<open>
  The arithmetic on arrays of limbs, lowest limb first, with limbs of 64 bits. The range of \<open>n\<close> limbs that a function gets is a list;
  a range that is read and written at once may be the same, as each limb is read before it is written. Functions that write through an index
  take the whole array and are undefined (\<open>None\<close>) behind its end. \<^verbatim>\<open>mp_sub\<close> and \<^verbatim>\<open>mp_neg\<close> count limbs in an \<^verbatim>\<open>int\<close>, so their ranges have
  fewer than \<open>2^31\<close> limbs, which is 16 GB.
\<close>

type_synonym limb = u64
type_synonym dlimb = "128 word"

subsection \<open>Addition and subtraction\<close>

fun mp_add :: "limb list \<Rightarrow> limb list \<Rightarrow> limb \<Rightarrow> limb list \<times> limb" where
  "mp_add (v # op1) (w # op2) k =
     (let a = v + w;
          k1 = (if a < v then 1 else 0);
          a = a + k;
          k = (if a < k then 1 else 0) OR k1;
          (res, k) = mp_add op1 op2 k
      in (a # res, k))"
| "mp_add _ _ k = ([], k)"

fun mp_add_ui :: "limb list \<Rightarrow> limb \<Rightarrow> limb list \<times> limb" where
  "mp_add_ui [] k = ([], k)"
| "mp_add_ui (v # tab) k =
     (if k = 0 then (v # tab, k)
      else let a = v + k; k = (if a < k then 1 else 0); (res, k) = mp_add_ui tab k in (a # res, k))"

fun mp_sub :: "limb list \<Rightarrow> limb list \<Rightarrow> limb \<Rightarrow> limb list \<times> limb" where
  "mp_sub (v # op1) (w # op2) k =
     (let a = v - w;
          k1 = (if a > v then 1 else 0);
          v = a - k;
          k = (if v > a then 1 else 0) OR k1;
          (res, k) = mp_sub op1 op2 k
      in (v # res, k))"
| "mp_sub _ _ k = ([], k)"

fun mp_neg :: "limb list \<Rightarrow> limb \<Rightarrow> limb list \<times> limb" where
  "mp_neg (w # op2) k =
     (let v = 0;
          a = v - w;
          k1 = (if a > v then 1 else 0);
          v = a - k;
          k = (if v > a then 1 else 0) OR k1;
          (res, k) = mp_neg op2 k
      in (v # res, k))"
| "mp_neg [] k = ([], k)"

fun mp_sub_ui :: "limb list \<Rightarrow> limb \<Rightarrow> limb list \<times> limb" where
  "mp_sub_ui [] k = ([], k)"
| "mp_sub_ui (v # tab) k =
     (let a = v - k;
          k = (if a > v then 1 else 0)
      in if k = 0 then (a # tab, k) else let (res, k) = mp_sub_ui tab k in (a # res, k))"

subsection \<open>Shift, comparison, test for zero\<close>

text \<open>The loop of \<^verbatim>\<open>mp_shr\<close> gets the limbs from the highest to the lowest.\<close>

fun shr_loop :: "nat \<Rightarrow> limb list \<Rightarrow> limb \<Rightarrow> limb list \<times> limb" where
  "shr_loop shift [] l = ([], l)"
| "shr_loop shift (a # tab) l =
     (let (res, l') = shr_loop shift tab a in ((drop_bit shift a OR push_bit (64 - shift) l) # res, l'))"

definition mp_shr :: "limb list \<Rightarrow> nat \<Rightarrow> limb \<Rightarrow> (limb list \<times> limb) option" where
  "mp_shr tab shift high =
     (if 1 \<le> shift \<and> shift < 64
      then let (res, l) = shr_loop shift (rev tab) high in Some (rev res, l AND (push_bit shift 1 - 1))
      else None)"

fun cmp_loop :: "limb list \<Rightarrow> limb list \<Rightarrow> int" where
  "cmp_loop (a # taba) (b # tabb) = (if a \<noteq> b then if a < b then - 1 else 1 else cmp_loop taba tabb)"
| "cmp_loop _ _ = 0"

definition mp_cmp :: "limb list \<Rightarrow> limb list \<Rightarrow> int" where
  "mp_cmp taba tabb = cmp_loop (rev taba) (rev tabb)"

fun mp_scan_nz :: "limb list \<Rightarrow> limb" where
  "mp_scan_nz [] = 0"
| "mp_scan_nz (v # tab) = (if v \<noteq> 0 then 1 else mp_scan_nz tab)"

subsection \<open>Multiplication\<close>

fun mp_mul1 :: "limb list \<Rightarrow> limb \<Rightarrow> limb \<Rightarrow> limb list \<times> limb" where
  "mp_mul1 [] b l = ([], l)"
| "mp_mul1 (a # taba) b l =
     (let t = (ucast a * ucast b + ucast l :: dlimb);
          (res, l) = mp_mul1 taba b (ucast (drop_bit 64 t))
      in (ucast t # res, l))"

fun add_mul1_loop :: "limb list \<Rightarrow> limb list \<Rightarrow> limb \<Rightarrow> limb \<Rightarrow> limb list \<times> limb" where
  "add_mul1_loop (r # tabr) (a # taba) b l =
     (let t = (ucast a * ucast b + ucast l + ucast r :: dlimb);
          (res, l) = add_mul1_loop tabr taba b (ucast (drop_bit 64 t))
      in (ucast t # res, l))"
| "add_mul1_loop _ _ b l = ([], l)"

definition mp_add_mul1 :: "limb list \<Rightarrow> limb list \<Rightarrow> limb \<Rightarrow> limb list \<times> limb" where
  "mp_add_mul1 tabr taba b = add_mul1_loop tabr taba b 0"

fun sub_mul1_loop :: "limb list \<Rightarrow> limb list \<Rightarrow> limb \<Rightarrow> limb \<Rightarrow> limb list \<times> limb" where
  "sub_mul1_loop (r # tabr) (a # taba) b l =
     (let t = (ucast r - ucast a * ucast b - ucast l :: dlimb);
          (res, l) = sub_mul1_loop tabr taba b (ucast (- drop_bit 64 t))
      in (ucast t # res, l))"
| "sub_mul1_loop _ _ b l = ([], l)"

definition mp_sub_mul1 :: "limb list \<Rightarrow> limb list \<Rightarrow> limb \<Rightarrow> limb list \<times> limb" where
  "mp_sub_mul1 tabr taba b = sub_mul1_loop tabr taba b 0"

fun mul_rows :: "limb list \<Rightarrow> limb list \<Rightarrow> limb list \<Rightarrow> nat \<Rightarrow> limb list option" where
  "mul_rows result op1 [] i = Some result"
| "mul_rows result op1 (b # op2) i = do {
     tabr \<leftarrow> slice result i (length op1);
     let (xs, r) = mp_add_mul1 tabr op1 b;
     result \<leftarrow> blit result i xs;
     result \<leftarrow> wr result (i + length op1) r;
     mul_rows result op1 op2 (i + 1) }"

definition mp_mul_basecase :: "limb list \<Rightarrow> limb list \<Rightarrow> limb list \<Rightarrow> limb list option" where
  "mp_mul_basecase result op1 op2 = do {
     b \<leftarrow> rd op2 0;
     let (xs, l) = mp_mul1 op1 b 0;
     result \<leftarrow> blit result 0 xs;
     result \<leftarrow> wr result (length op1) l;
     mul_rows result op1 (tl op2) 1 }"

subsection \<open>The number that limbs stand for\<close>

fun limbs_val :: "limb list \<Rightarrow> nat" where
  "limbs_val [] = 0"
| "limbs_val (x # xs) = unat x + 2 ^ 64 * limbs_val xs"

lemma limb_less: "unat (x :: limb) < 2 ^ 64"
  using unsigned_less [of x] by simp

lemma limbs_val_append: "limbs_val (xs @ ys) = limbs_val xs + 2 ^ (64 * length xs) * limbs_val ys"
  by (induction xs) (simp_all add: power_add algebra_simps)

lemma limbs_val_less: "limbs_val xs < 2 ^ (64 * length xs)"
proof (induction xs)
  case (Cons x xs)
  have "unat x + 2 ^ 64 * limbs_val xs < 2 ^ 64 * (limbs_val xs + 1)" using limb_less [of x] by simp
  also have "\<dots> \<le> 2 ^ 64 * 2 ^ (64 * length xs)" using Cons by (intro mult_left_mono) simp_all
  finally show ?case by (simp add: power_add)
qed simp

subsection \<open>One limb at a time\<close>

lemma add_step:
  fixes v w k :: limb
  assumes "unat k \<le> 1"
  defines "a \<equiv> v + w" and "a' \<equiv> v + w + k"
  shows "unat a' + 2 ^ 64 * unat ((if a' < k then 1 else 0) OR (if a < v then 1 else 0) :: limb) = unat v + unat w + unat k"
    and "unat ((if a' < k then 1 else 0) OR (if a < v then 1 else 0) :: limb) \<le> 1"
proof -
  have a: "unat a = (if unat v + unat w < 2 ^ 64 then unat v + unat w else unat v + unat w - 2 ^ 64)"
    using limb_less [of v] limb_less [of w] by (auto simp: a_def unat_word_ariths mod_if)
  have a': "unat a' = (if unat a + unat k < 2 ^ 64 then unat a + unat k else unat a + unat k - 2 ^ 64)"
    using limb_less [of a] limb_less [of k] by (auto simp: a'_def a_def [symmetric] unat_word_ariths mod_if)
  have "a < v \<longleftrightarrow> \<not> unat v + unat w < 2 ^ 64" using a limb_less [of v] limb_less [of w] by (auto simp: word_less_nat_alt)
  moreover have "a' < k \<longleftrightarrow> \<not> unat a + unat k < 2 ^ 64" using a' limb_less [of a] limb_less [of k] by (auto simp: word_less_nat_alt)
  moreover have "\<not> (\<not> unat a + unat k < 2 ^ 64 \<and> \<not> unat v + unat w < 2 ^ 64)"
    using a assms(1) limb_less [of v] limb_less [of w] by auto
  ultimately show "unat a' + 2 ^ 64 * unat ((if a' < k then 1 else 0) OR (if a < v then 1 else 0) :: limb) = unat v + unat w + unat k"
    using a a' by auto
qed simp

lemma sub_step:
  fixes v w k :: limb
  assumes "unat k \<le> 1"
  defines "a \<equiv> v - w" and "v' \<equiv> v - w - k"
  shows "unat v' + unat w + unat k = unat v + 2 ^ 64 * unat ((if v' > a then 1 else 0) OR (if a > v then 1 else 0) :: limb)"
    and "unat ((if v' > a then 1 else 0) OR (if a > v then 1 else 0) :: limb) \<le> 1"
proof -
  have sub: "unat (x - y) = (if unat y \<le> unat x then unat x - unat y else 2 ^ 64 + unat x - unat y)" for x y :: limb
    using limb_less [of x] limb_less [of y] by (auto simp: unat_sub_if')
  note a = sub [of v w, folded a_def] and v' = sub [of a k, unfolded a_def, folded v'_def a_def]
  have "a > v \<longleftrightarrow> \<not> unat w \<le> unat v" using a limb_less [of v] limb_less [of w] by (auto simp: word_less_nat_alt)
  moreover have "v' > a \<longleftrightarrow> \<not> unat k \<le> unat a" using v' limb_less [of a] limb_less [of k] by (auto simp: word_less_nat_alt)
  moreover have "\<not> (\<not> unat k \<le> unat a \<and> \<not> unat w \<le> unat v)"
    using a assms(1) limb_less [of v] limb_less [of w] by auto
  ultimately show "unat v' + unat w + unat k = unat v + 2 ^ 64 * unat ((if v' > a then 1 else 0) OR (if a > v then 1 else 0) :: limb)"
    using a v' limb_less [of v] limb_less [of w] limb_less [of k] by auto
qed simp

lemma dlimb_of_limb: "unat (ucast (x :: limb) :: dlimb) = unat x"
proof -
  have "unat x < 2 ^ LENGTH(128)" by (rule order.strict_trans [OF limb_less]) simp
  then show ?thesis by (simp only: unat_ucast_mod mod_less)
qed

lemma dlimb_parts: "unat t = unat (ucast t :: limb) + 2 ^ 64 * unat (ucast (drop_bit 64 t) :: limb)" for t :: dlimb
proof -
  have "unat t div 2 ^ 64 < 2 ^ 64" using unsigned_less [of t, where 'a = nat] by (simp add: less_mult_imp_div_less)
  then show ?thesis by (simp add: bits_as_arith)
qed

lemma limb_product_bound: "unat (a :: limb) * unat (b :: limb) + unat (l :: limb) + unat (r :: limb) < 2 ^ 128"
proof -
  have "unat a * unat b \<le> (2 ^ 64 - 1) * (2 ^ 64 - 1)" using limb_less [of a] limb_less [of b] by (intro mult_le_mono) simp_all
  then show ?thesis using limb_less [of l] limb_less [of r] by simp
qed

lemma unat_mul_add:
  "unat (ucast (a :: limb) * ucast (b :: limb) + ucast (l :: limb) + ucast (r :: limb) :: dlimb) = unat a * unat b + unat l + unat r"
proof -
  have "unat (ucast a * ucast b + ucast l + ucast r :: dlimb) = (unat a * unat b + unat l + unat r) mod 2 ^ 128"
    by (simp add: unat_word_ariths dlimb_of_limb mod_simps)
  then show ?thesis using limb_product_bound [of a b l r] by simp
qed

lemma low_of_minus:
  assumes "unat (h :: dlimb) < 2 ^ 64"
  shows "unat (ucast (- h) :: limb) = (if h = 0 then 0 else 2 ^ 64 - unat h)"
proof (cases "h = 0")
  case False
  then have pos: "0 < unat h" by (simp add: unat_gt_0)
  have "unat (0 - h) = 2 ^ 128 - unat h" using pos by (simp add: unat_sub_if' del: diff_0)
  also have "2 ^ 128 - unat h = (2 ^ 64 - 1) * 2 ^ 64 + (2 ^ 64 - unat h)" using assms by simp
  finally have "unat (- h) = (2 ^ 64 - 1) * 2 ^ 64 + (2 ^ 64 - unat h)" by simp
  moreover have "unat (ucast (- h) :: limb) = unat (- h) mod 2 ^ 64" by (simp add: unat_ucast_mod)
  moreover have "((2 ^ 64 - 1) * 2 ^ 64 + y) mod 2 ^ 64 = y mod 2 ^ 64" for y :: nat by (rule mod_mult_self3)
  ultimately have "unat (ucast (- h) :: limb) = (2 ^ 64 - unat h) mod 2 ^ 64" by (simp only:)
  then show ?thesis using pos False by simp
qed simp

lemma sub_mul_step:
  fixes r a b l :: limb
  defines "t \<equiv> (ucast r - ucast a * ucast b - ucast l :: dlimb)"
  shows "unat (ucast t :: limb) + unat a * unat b + unat l = unat r + 2 ^ 64 * unat (ucast (- drop_bit 64 t) :: limb)"
proof -
  define P where "P = (ucast a * ucast b + ucast l :: dlimb)"
  have P: "unat P = unat a * unat b + unat l" using unat_mul_add [of a b l 0] by (simp add: P_def)
  have "unat a * unat b \<le> (2 ^ 64 - 1) * (2 ^ 64 - 1)" using limb_less [of a] limb_less [of b] by (intro mult_le_mono) simp_all
  then have bound: "unat P \<le> 2 ^ 64 * (2 ^ 64 - 1)" using P limb_less [of l] by simp
  have t: "t = ucast r - P" by (simp add: t_def P_def)
  let ?lo = "unat (ucast t :: limb)" and ?hi = "unat (ucast (drop_bit 64 t) :: limb)"
  have parts: "unat t = ?lo + 2 ^ 64 * ?hi" by (rule dlimb_parts)
  have hi: "unat (drop_bit 64 t) < 2 ^ 64" using unsigned_less [of t, where 'a = nat] by (simp add: unat_drop_bit_div less_mult_imp_div_less)
  then have "?hi = unat (drop_bit 64 t)" by (simp add: unat_ucast_mod)
  then have neg: "unat (ucast (- drop_bit 64 t) :: limb) = (if ?hi = 0 then 0 else 2 ^ 64 - ?hi)"
    using low_of_minus [OF hi] by (simp add: unat_eq_zero)
  show ?thesis
  proof (cases "unat P \<le> unat r")
    case True
    then have "unat t = unat r - unat P" using limb_less [of r] by (simp add: t unat_sub_if' dlimb_of_limb)
    then have "?lo + 2 ^ 64 * ?hi = unat r - unat P" using parts by simp
    moreover from this have "?hi = 0" using limb_less [of r] by simp
    ultimately show ?thesis using neg True P by simp
  next
    case False
    then have "unat t = 2 ^ 128 + unat r - unat P" using bound by (simp add: t unat_sub_if' dlimb_of_limb)
    then have e: "?lo + 2 ^ 64 * ?hi + unat P = 2 ^ 128 + unat r" using parts bound by simp
    moreover have "?hi \<noteq> 0" using e bound limb_less [of "ucast t"] by (intro notI) simp
    moreover have "?hi < 2 ^ 64" by (rule limb_less)
    ultimately show ?thesis using neg P by simp
  qed
qed

subsection \<open>Arrays of limbs\<close>

text \<open>Each function computes the number its comment in the source gives, with the carry or borrow as the limb above the array.\<close>

lemma carry_cons:
  assumes "x + 2 ^ 64 * k = (s :: nat)" and "r + p * c = y + k"
  shows "x + 2 ^ 64 * r + 2 ^ 64 * p * c = s + 2 ^ 64 * y"
proof -
  have "2 ^ 64 * (r + p * c) = 2 ^ 64 * (y + k)" using assms(2) by simp
  then show ?thesis using assms(1) by (simp add: distrib_left mult.assoc)
qed

lemma borrow_cons:
  assumes "x + s = y + 2 ^ 64 * (k :: nat)" and "r + t + k = z + p * c"
  shows "x + 2 ^ 64 * r + (s + 2 ^ 64 * t) = y + 2 ^ 64 * z + 2 ^ 64 * p * c"
proof -
  have "2 ^ 64 * (r + t + k) = 2 ^ 64 * (z + p * c)" using assms(2) by simp
  then show ?thesis using assms(1) by (simp add: distrib_left mult.assoc)
qed

lemma exp_Suc_64: "2 ^ (64 * Suc n) = 2 ^ 64 * (2 :: nat) ^ (64 * n)"
  by (simp add: power_add)

lemma mp_add_val:
  assumes "length op1 = length op2" and "unat k \<le> 1" and "mp_add op1 op2 k = (res, c)"
  shows "length res = length op1 \<and> unat c \<le> 1 \<and>
    limbs_val res + 2 ^ (64 * length op1) * unat c = limbs_val op1 + limbs_val op2 + unat k"
  using assms
proof (induction op1 op2 k arbitrary: res c rule: mp_add.induct)
  case (1 v op1 w op2 k)
  let ?k = "(if v + w + k < k then 1 else 0) OR (if v + w < v then 1 else 0) :: limb"
  obtain res' where r: "mp_add op1 op2 ?k = (res', c)" "res = (v + w + k) # res'"
    using "1.prems"(3) by (auto simp: Let_def split: prod.splits)
  note step = add_step [OF "1.prems"(2), of v w]
  have IH: "length res' = length op1 \<and> unat c \<le> 1 \<and>
      limbs_val res' + 2 ^ (64 * length op1) * unat c = limbs_val op1 + limbs_val op2 + unat ?k"
    by (rule "1.IH" [OF refl refl refl refl]) (use "1.prems"(1) step(2) r(1) in simp_all)
  then show ?case using carry_cons [OF step(1), of "limbs_val res'" "2 ^ (64 * length op1)" "unat c" "limbs_val op1 + limbs_val op2"] r(2)
    by (simp only: length_Cons exp_Suc_64 limbs_val.simps) simp
qed simp_all

lemma mp_sub_val:
  assumes "length op1 = length op2" and "unat k \<le> 1" and "mp_sub op1 op2 k = (res, c)"
  shows "length res = length op1 \<and> unat c \<le> 1 \<and>
    limbs_val res + limbs_val op2 + unat k = limbs_val op1 + 2 ^ (64 * length op1) * unat c"
  using assms
proof (induction op1 op2 k arbitrary: res c rule: mp_sub.induct)
  case (1 v op1 w op2 k)
  let ?k = "(if v - w - k > v - w then 1 else 0) OR (if v - w > v then 1 else 0) :: limb"
  obtain res' where r: "mp_sub op1 op2 ?k = (res', c)" "res = (v - w - k) # res'"
    using "1.prems"(3) by (auto simp: Let_def split: prod.splits)
  note step = sub_step [OF "1.prems"(2), of v w]
  have IH: "length res' = length op1 \<and> unat c \<le> 1 \<and>
      limbs_val res' + limbs_val op2 + unat ?k = limbs_val op1 + 2 ^ (64 * length op1) * unat c"
    by (rule "1.IH" [OF refl refl refl refl]) (use "1.prems"(1) step(2) r(1) in simp_all)
  then show ?case using borrow_cons [of "unat (v - w - k)" "unat w + unat k" "unat v" "unat ?k" "limbs_val res'" "limbs_val op2" "limbs_val op1"
      "2 ^ (64 * length op1)" "unat c"] step(1) r(2)
    by (simp only: length_Cons exp_Suc_64 limbs_val.simps) simp
qed simp_all

lemma mp_neg_sub: "mp_neg op2 k = mp_sub (replicate (length op2) 0) op2 k"
  by (induction op2 k rule: mp_neg.induct) (simp_all add: Let_def)

lemma carry_out: "unat (t + b) + 2 ^ 64 * unat (if t + b < b then 1 else 0 :: limb) = unat t + unat b" for t b :: limb
  using limb_less [of t] limb_less [of b]
  by (cases "unat t + unat b < 2 ^ 64") (simp_all add: word_less_nat_alt unat_word_ariths(1) mod_if [of "unat t + unat b"])

lemma borrow_out: "unat (t - b) + unat b = unat t + 2 ^ 64 * unat (if t - b > t then 1 else 0 :: limb)" for t b :: limb
  using limb_less [of t] limb_less [of b] by (cases "unat b \<le> unat t") (simp_all add: word_less_nat_alt unat_sub_if')

lemma mp_add_ui_val:
  "mp_add_ui tab b = (xs, k) \<Longrightarrow> length xs = length tab \<and> limbs_val xs + 2 ^ (64 * length tab) * unat k = limbs_val tab + unat b"
proof (induction tab arbitrary: b xs k)
  case (Cons t tab)
  let ?c = "if t + b < b then 1 else 0 :: limb"
  show ?case
  proof (cases "b = 0")
    case False
    obtain ys where r: "mp_add_ui tab ?c = (ys, k)" "xs = (t + b) # ys" using Cons.prems False by (auto simp: Let_def split: prod.splits)
    have IH: "length ys = length tab" "limbs_val ys + 2 ^ (64 * length tab) * unat k = limbs_val tab + unat ?c"
      using Cons.IH [OF r(1)] by simp_all
    show ?thesis using carry_cons [OF carry_out IH(2)] IH(1) r(2) by (simp only: length_Cons exp_Suc_64 limbs_val.simps) simp
  qed (use Cons.prems in auto)
qed simp

lemma mp_sub_ui_val:
  "mp_sub_ui tab b = (xs, k) \<Longrightarrow> length xs = length tab \<and> limbs_val xs + unat b = limbs_val tab + 2 ^ (64 * length tab) * unat k"
proof (induction tab arbitrary: b xs k)
  case (Cons t tab)
  let ?c = "if t - b > t then 1 else 0 :: limb"
  show ?case
  proof (cases "?c = 0")
    case True
    then have "xs = (t - b) # tab \<and> k = 0" using Cons.prems by (auto simp: Let_def split: if_splits)
    then show ?thesis using borrow_out [of t b] unfolding True by simp
  next
    case False
    obtain ys where r: "mp_sub_ui tab ?c = (ys, k)" "xs = (t - b) # ys"
      using Cons.prems False by (auto simp: Let_def split: prod.splits if_splits)
    have IH: "length ys = length tab" "limbs_val ys + 0 + unat ?c = limbs_val tab + 2 ^ (64 * length tab) * unat k"
      using Cons.IH [OF r(1)] by simp_all
    show ?thesis using borrow_cons [OF borrow_out IH(2)] IH(1) r(2) by (simp only: length_Cons exp_Suc_64 limbs_val.simps) simp
  qed
qed simp

lemma mp_scan_nz_val: "mp_scan_nz tab \<noteq> 0 \<longleftrightarrow> limbs_val tab \<noteq> 0"
  by (induction tab) (auto simp: unat_eq_zero)

lemma shift_limbs:
  assumes "1 \<le> s" and "s < 64"
  shows "unat (drop_bit s a OR push_bit (64 - s) l :: limb) = unat a div 2 ^ s + 2 ^ (64 - s) * (unat l mod 2 ^ s)"
proof -
  have "drop_bit s a AND push_bit (64 - s) l = 0"
    by (rule bit_eqI) (use assms in \<open>auto simp: bit_simps dest: bit_imp_le_length\<close>)
  then have or: "drop_bit s a OR push_bit (64 - s) l = drop_bit s a + push_bit (64 - s) l" by (simp add: disjunctive_add_eq_or)
  have low: "unat (drop_bit s a) = unat a div 2 ^ s" by (simp only: unat_drop_bit_eq) (simp add: drop_bit_eq_div)
  have exp: "(2 :: nat) ^ 64 = 2 ^ (64 - s) * 2 ^ s" using assms by (simp flip: power_add)
  have "unat (push_bit (64 - s) l) = (2 ^ (64 - s) * unat l) mod 2 ^ 64"
    by (simp only: unsigned_push_bit_eq) (simp add: take_bit_eq_mod push_bit_eq_mult mult.commute)
  also have "\<dots> = 2 ^ (64 - s) * (unat l mod 2 ^ s)" unfolding exp by (rule mult_mod_right [symmetric])
  finally have high: "unat (push_bit (64 - s) l) = 2 ^ (64 - s) * (unat l mod 2 ^ s)" .
  have "unat a div 2 ^ s < 2 ^ (64 - s)" using limb_less [of a] exp by (simp add: less_mult_imp_div_less)
  moreover have "2 ^ (64 - s) * (unat l mod 2 ^ s) + 2 ^ (64 - s) \<le> 2 ^ 64"
  proof -
    have "unat l mod 2 ^ s + 1 \<le> 2 ^ s" using mod_less_divisor [of "2 ^ s" "unat l"] by (simp add: Suc_leI)
    then have "2 ^ (64 - s) * (unat l mod 2 ^ s + 1) \<le> 2 ^ (64 - s) * 2 ^ s" by (rule mult_le_mono2)
    then show ?thesis by (simp only: exp distrib_left mult_1_right)
  qed
  ultimately have "unat a div 2 ^ s + 2 ^ (64 - s) * (unat l mod 2 ^ s) < 2 ^ 64" by linarith
  then show ?thesis unfolding or by (simp add: unat_word_ariths(1) low high)
qed

lemma shr_loop_val:
  assumes "1 \<le> s" and "s < 64"
  shows "shr_loop s xs l = (res, l') \<Longrightarrow> length res = length xs \<and>
    limbs_val (rev res) * 2 ^ s + unat l' mod 2 ^ s = limbs_val (rev xs) + 2 ^ (64 * length xs) * (unat l mod 2 ^ s)"
proof (induction xs arbitrary: l res)
  case (Cons a xs)
  obtain ys where r: "shr_loop s xs a = (ys, l')" "res = (drop_bit s a OR push_bit (64 - s) l) # ys"
    using Cons.prems by (auto simp: Let_def split: prod.splits)
  note IH = Cons.IH [OF r(1)]
  let ?P = "2 ^ (64 * length xs) :: nat" and ?h = "unat l mod 2 ^ s"
  have exp: "2 ^ (64 - s) * 2 ^ s = (2 :: nat) ^ 64" using assms by (simp flip: power_add)
  have "limbs_val (rev res) = limbs_val (rev ys) + ?P * (unat a div 2 ^ s + 2 ^ (64 - s) * ?h)"
    using IH by (simp add: r(2) limbs_val_append shift_limbs [OF assms])
  then have "limbs_val (rev res) * 2 ^ s = limbs_val (rev ys) * 2 ^ s + ?P * (unat a div 2 ^ s * 2 ^ s) + ?P * (2 ^ (64 - s) * 2 ^ s) * ?h"
    by (simp add: algebra_simps)
  then have "limbs_val (rev res) * 2 ^ s + unat l' mod 2 ^ s =
      (limbs_val (rev ys) * 2 ^ s + unat l' mod 2 ^ s) + ?P * (unat a div 2 ^ s * 2 ^ s) + 2 ^ (64 * Suc (length xs)) * ?h"
    unfolding exp exp_Suc_64 by simp
  also have "\<dots> = limbs_val (rev xs) + ?P * (unat a mod 2 ^ s + unat a div 2 ^ s * 2 ^ s) + 2 ^ (64 * Suc (length xs)) * ?h"
    using IH by (simp only: distrib_left)
  finally show ?case using IH r(2) by (simp only: mod_mult_self1 mod_div_mult_eq) (simp add: limbs_val_append)
qed simp

lemma mp_shr_val:
  assumes "1 \<le> s" and "s < 64"
  shows "\<exists>res r. mp_shr tab s high = Some (res, r) \<and> length res = length tab \<and> unat r < 2 ^ s \<and>
    limbs_val res * 2 ^ s + unat r = limbs_val tab + 2 ^ (64 * length tab) * (unat high mod 2 ^ s)"
proof -
  obtain res l where r: "shr_loop s (rev tab) high = (res, l)" by (cases "shr_loop s (rev tab) high")
  have "l AND (push_bit s 1 - 1) = take_bit s l" by (simp add: take_bit_eq_mask mask_eq_exp_minus_1 push_bit_of_1)
  moreover have "unat (take_bit s l) = unat l mod 2 ^ s" by (simp only: unsigned_take_bit_eq) (simp add: take_bit_eq_mod)
  ultimately have "unat (l AND (push_bit s 1 - 1)) = unat l mod 2 ^ s" by (simp only:)
  then show ?thesis using shr_loop_val [OF assms r] r assms by (simp add: mp_shr_def)
qed

lemma mp_mul1_val:
  assumes "mp_mul1 taba b l = (res, c)"
  shows "length res = length taba \<and> limbs_val res + 2 ^ (64 * length taba) * unat c = limbs_val taba * unat b + unat l"
  using assms
proof (induction taba arbitrary: l res)
  case (Cons a taba)
  let ?t = "ucast a * ucast b + ucast l :: dlimb"
  obtain res' where r: "mp_mul1 taba b (ucast (drop_bit 64 ?t)) = (res', c)" "res = ucast ?t # res'"
    using Cons.prems by (auto simp: Let_def split: prod.splits)
  have step: "unat (ucast ?t :: limb) + 2 ^ 64 * unat (ucast (drop_bit 64 ?t) :: limb) = unat a * unat b + unat l"
    using dlimb_parts [of ?t] unat_mul_add [of a b l 0] by simp
  show ?case using Cons.IH [OF r(1)] carry_cons [OF step, of "limbs_val res'" "2 ^ (64 * length taba)" "unat c" "limbs_val taba * unat b"] r(2)
    by (simp only: length_Cons exp_Suc_64 limbs_val.simps) (simp add: algebra_simps)
qed simp

lemma add_mul1_loop_val:
  assumes "length tabr = length taba" and "add_mul1_loop tabr taba b l = (res, c)"
  shows "length res = length taba \<and> limbs_val res + 2 ^ (64 * length taba) * unat c = limbs_val tabr + limbs_val taba * unat b + unat l"
  using assms
proof (induction tabr taba b l arbitrary: res rule: add_mul1_loop.induct)
  case (1 r tabr a taba b l)
  let ?t = "ucast a * ucast b + ucast l + ucast r :: dlimb"
  obtain res' where r: "add_mul1_loop tabr taba b (ucast (drop_bit 64 ?t)) = (res', c)" "res = ucast ?t # res'"
    using "1.prems"(2) by (auto simp: Let_def split: prod.splits)
  have step: "unat (ucast ?t :: limb) + 2 ^ 64 * unat (ucast (drop_bit 64 ?t) :: limb) = unat r + unat a * unat b + unat l"
    using dlimb_parts [of ?t] unat_mul_add [of a b l r] by simp
  have IH: "length res' = length taba \<and> limbs_val res' + 2 ^ (64 * length taba) * unat c =
      limbs_val tabr + limbs_val taba * unat b + unat (ucast (drop_bit 64 ?t) :: limb)"
    by (rule "1.IH" [OF refl]) (use "1.prems"(1) r(1) in simp_all)
  then show ?case using carry_cons [OF step, of "limbs_val res'" "2 ^ (64 * length taba)" "unat c" "limbs_val tabr + limbs_val taba * unat b"] r(2)
    by (simp only: length_Cons exp_Suc_64 limbs_val.simps) (simp add: algebra_simps)
qed simp_all

lemma sub_mul1_loop_val:
  assumes "length tabr = length taba" and "sub_mul1_loop tabr taba b l = (res, c)"
  shows "length res = length taba \<and> limbs_val res + limbs_val taba * unat b + unat l = limbs_val tabr + 2 ^ (64 * length taba) * unat c"
  using assms
proof (induction tabr taba b l arbitrary: res rule: sub_mul1_loop.induct)
  case (1 r tabr a taba b l)
  let ?t = "ucast r - ucast a * ucast b - ucast l :: dlimb"
  obtain res' where r: "sub_mul1_loop tabr taba b (ucast (- drop_bit 64 ?t)) = (res', c)" "res = ucast ?t # res'"
    using "1.prems"(2) by (auto simp: Let_def split: prod.splits)
  have IH: "length res' = length taba \<and> limbs_val res' + limbs_val taba * unat b + unat (ucast (- drop_bit 64 ?t) :: limb) =
      limbs_val tabr + 2 ^ (64 * length taba) * unat c"
    by (rule "1.IH" [OF refl]) (use "1.prems"(1) r(1) in simp_all)
  then show ?case using borrow_cons [of "unat (ucast ?t :: limb)" "unat a * unat b + unat l" "unat r" "unat (ucast (- drop_bit 64 ?t) :: limb)"
      "limbs_val res'" "limbs_val taba * unat b" "limbs_val tabr" "2 ^ (64 * length taba)" "unat c"] sub_mul_step [of r a b l] r(2)
    by (simp only: length_Cons exp_Suc_64 limbs_val.simps) (simp add: algebra_simps)
qed simp_all

subsection \<open>Schoolbook multiplication\<close>

lemma put_row:
  assumes "i + length xs < length result"
  shows "blit result i xs \<bind> (\<lambda>result. wr result (i + length xs) r) = Some (take i result @ xs @ r # drop (i + length xs + 1) result)"
  using assms by (simp add: blit_def wr_def list_update_append Cons_nth_drop_Suc [symmetric])

lemma mul_rows_val:
  assumes "i + length op1 + length op2 \<le> length result"
  shows "\<exists>res. mul_rows result op1 op2 i = Some res \<and> length res = length result \<and>
    limbs_val (take (i + length op1 + length op2) res) = limbs_val (take (i + length op1) result) + 2 ^ (64 * i) * (limbs_val op1 * limbs_val op2) \<and>
    drop (i + length op1 + length op2) res = drop (i + length op1 + length op2) result"
  using assms
proof (induction op2 arbitrary: result i)
  case (Cons b op2)
  let ?n = "length op1" and ?tabr = "take (length op1) (drop i result)"
  obtain xs r where x: "mp_add_mul1 ?tabr op1 b = (xs, r)" by (cases "mp_add_mul1 ?tabr op1 b")
  have tabr: "slice result i ?n = Some ?tabr" "length ?tabr = ?n" using Cons.prems by (simp_all add: slice_def)
  have val: "length xs = ?n" "limbs_val xs + 2 ^ (64 * ?n) * unat r = limbs_val ?tabr + limbs_val op1 * unat b"
    using add_mul1_loop_val [OF tabr(2), of b 0 xs r] x by (simp_all add: mp_add_mul1_def)
  let ?result = "take i result @ xs @ r # drop (i + ?n + 1) result"
  have put: "blit result i xs \<bind> (\<lambda>result. wr result (i + ?n) r) = Some ?result" using put_row [of i xs result r] val(1) Cons.prems by simp
  have len: "length ?result = length result" "i + 1 + ?n + length op2 \<le> length ?result" using Cons.prems val(1) by simp_all
  have row: "limbs_val (take (i + 1 + ?n) ?result) = limbs_val (take (i + ?n) result) + 2 ^ (64 * i) * (limbs_val op1 * unat b)"
  proof -
    have "take (i + 1 + ?n) ?result = take i result @ xs @ [r]" using Cons.prems val(1) by simp
    moreover have "take (i + ?n) result = take i result @ ?tabr" by (simp add: take_add)
    moreover have "length (take i result) = i" using Cons.prems by simp
    ultimately show ?thesis using val
      by (simp only: limbs_val_append length_append) (simp add: limbs_val_append distrib_left [symmetric] add.assoc)
  qed
  obtain res where res: "mul_rows ?result op1 op2 (i + 1) = Some res" "length res = length ?result"
    "limbs_val (take (i + 1 + ?n + length op2) res) = limbs_val (take (i + 1 + ?n) ?result) + 2 ^ (64 * (i + 1)) * (limbs_val op1 * limbs_val op2)"
    "drop (i + 1 + ?n + length op2) res = drop (i + 1 + ?n + length op2) ?result"
    using Cons.IH [OF len(2)] by blast
  have "mul_rows result op1 (b # op2) i = mul_rows ?result op1 op2 (i + 1)"
    using put by (cases "blit result i xs") (simp_all add: tabr(1) x)
  then have "mul_rows result op1 (b # op2) i = Some res" "length res = length result" using res(1,2) len(1) by simp_all
  moreover have "drop (i + ?n + length (b # op2)) res = drop (i + ?n + length (b # op2)) result"
    using res(4) Cons.prems val(1) by (simp add: ac_simps)
  moreover have "limbs_val (take (i + ?n + length (b # op2)) res) = limbs_val (take (i + ?n) result) + 2 ^ (64 * i) * (limbs_val op1 * limbs_val (b # op2))"
    using res(3) row by (simp add: power_add algebra_simps)
  ultimately show ?case by blast
qed simp

text \<open>C16. The schoolbook multiplication of two numbers stays inside the result array, writes exactly as many limbs as both factors have, and these
  hold the product, whatever the array held before.\<close>

theorem mp_mul_basecase_correct:
  assumes "op2 \<noteq> []" and "length op1 + length op2 \<le> length result"
  shows "\<exists>res. mp_mul_basecase result op1 op2 = Some res \<and> length res = length result \<and>
    limbs_val (take (length op1 + length op2) res) = limbs_val op1 * limbs_val op2 \<and>
    drop (length op1 + length op2) res = drop (length op1 + length op2) result"
proof -
  obtain b op where op2: "op2 = b # op" using assms(1) by (cases op2) simp_all
  obtain xs l where x: "mp_mul1 op1 b 0 = (xs, l)" by (cases "mp_mul1 op1 b 0")
  have val: "length xs = length op1" "limbs_val xs + 2 ^ (64 * length op1) * unat l = limbs_val op1 * unat b"
    using mp_mul1_val [OF x] by simp_all
  let ?result = "xs @ l # drop (length op1 + 1) result"
  have put: "blit result 0 xs \<bind> (\<lambda>result. wr result (length op1) l) = Some ?result"
    using put_row [of 0 xs result l] val(1) assms(2) op2 by simp
  have len: "1 + length op1 + length op \<le> length ?result" "length ?result = length result" using assms(2) op2 val(1) by simp_all
  have "limbs_val (take (1 + length op1) ?result) = limbs_val op1 * unat b" using val by (simp add: limbs_val_append)
  moreover obtain res where "mul_rows ?result op1 op 1 = Some res" "length res = length ?result"
    "limbs_val (take (1 + length op1 + length op) res) = limbs_val (take (1 + length op1) ?result) + 2 ^ (64 * 1) * (limbs_val op1 * limbs_val op)"
    "drop (1 + length op1 + length op) res = drop (1 + length op1 + length op) ?result"
    using mul_rows_val [OF len(1)] by blast
  moreover have "mp_mul_basecase result op1 op2 = mul_rows ?result op1 op 1"
    using put by (cases "blit result 0 xs") (simp_all add: mp_mul_basecase_def op2 rd_def x)
  ultimately show ?thesis using len(2) op2 val(1) by (auto simp: algebra_simps)
qed

lemma mp_mul_basecase_correct_witness:
  "\<exists>res. mp_mul_basecase [7, 7, 7, 7, 7] [0xffffffffffffffff, 2] [3, 0xffffffffffffffff] = Some res \<and>
     limbs_val (take 4 res) = (0xffffffffffffffff + 2 ^ 64 * 2) * (3 + 2 ^ 64 * 0xffffffffffffffff) \<and> drop 4 res = [7]"
proof -
  let ?a = "[0xffffffffffffffff, 2] :: limb list" and ?b = "[3, 0xffffffffffffffff] :: limb list" and ?r = "[7, 7, 7, 7, 7] :: limb list"
  have n: "length ?a + length ?b = 4" and d: "drop 4 ?r = [7]" by simp_all
  have v: "limbs_val ?a = 0xffffffffffffffff + 2 ^ 64 * 2" "limbs_val ?b = 3 + 2 ^ 64 * 0xffffffffffffffff" by simp_all
  have "?b \<noteq> []" "length ?a + length ?b \<le> length ?r" by simp_all
  from mp_mul_basecase_correct [OF this] show ?thesis unfolding n d v by blast
qed

end
