(* ===== verification/LimbDiv.thy ===== *)
theory LimbDiv
  imports Limbs
begin

section \<open>Division of multiple-precision naturals (\<^verbatim>\<open>js/libbf.c\<close>)\<close>

text \<open>
  Division by one limb, with the inverse of the divisor, and the schoolbook division. The divisor has its highest bit set.
\<close>

subsection \<open>Division of two limbs by one\<close>

definition udiv1norm_init :: "limb \<Rightarrow> limb" where
  "udiv1norm_init d =
     (let a1 = - d - 1;
          a0 = - 1
      in ucast ((push_bit 64 (ucast a1) OR ucast (a0 :: limb) :: dlimb) div ucast d))"

definition udiv1norm :: "limb \<Rightarrow> limb \<Rightarrow> limb \<Rightarrow> limb \<Rightarrow> limb \<times> limb" where
  "udiv1norm a1 a0 d d_inv =
     (let n1m = signed_drop_bit 63 a0;
          n_adj = a0 + (n1m AND d);
          a = (ucast d_inv * ucast (a1 - n1m) + ucast n_adj :: dlimb);
          q = ucast (drop_bit 64 a) + a1;
          a = (push_bit 64 (ucast a1) OR ucast a0 :: dlimb);
          a = a - ucast q * ucast d - ucast d;
          ah = ucast (drop_bit 64 a);
          q = q + 1 + ah;
          r = ucast a + (ah AND d)
      in (q, r))"

text \<open>The loops of \<^verbatim>\<open>mp_div1norm\<close> get the limbs from the highest to the lowest and divide two limbs by \<open>D\<close>.\<close>

fun div1_loop :: "(limb \<Rightarrow> limb \<Rightarrow> limb \<times> limb) \<Rightarrow> limb list \<Rightarrow> limb \<Rightarrow> limb list \<times> limb" where
  "div1_loop D [] r = ([], r)"
| "div1_loop D (a # taba) r = (let (q, r) = D r a; (tabr, r) = div1_loop D taba r in (q # tabr, r))"

definition div_two :: "limb \<Rightarrow> limb \<Rightarrow> limb \<Rightarrow> limb \<times> limb" where
  "div_two b r a = (let a1 = (push_bit 64 (ucast r) OR ucast a :: dlimb) in (ucast (a1 div ucast b), ucast (a1 mod ucast b)))"

definition mp_div1norm :: "limb list \<Rightarrow> limb \<Rightarrow> limb \<Rightarrow> (limb list \<times> limb) option" where
  "mp_div1norm taba b r =
     (if b = 0 \<and> taba \<noteq> [] then None
      else let D = (if length taba \<ge> 3 then (let b_inv = udiv1norm_init b in (\<lambda>r a. udiv1norm r a b b_inv)) else div_two b);
               (tabr, r) = div1_loop D (rev taba) r
           in Some (rev tabr, r))"

subsection \<open>Schoolbook division\<close>

text \<open>
  Adding the divisor back to the \<open>nb + 1\<close> limbs at \<open>i\<close> until they are not negative. The source's loop has no bound; each round decrements \<open>q\<close>,
  and the quotient is not negative, so the rounds are counted by \<open>q\<close>.
\<close>

fun add_back :: "nat \<Rightarrow> limb list \<Rightarrow> nat \<Rightarrow> limb \<Rightarrow> limb list \<Rightarrow> (limb \<times> limb list) option" where
  "add_back 0 tabb i q taba = None"
| "add_back (Suc k) tabb i q taba = do {
     let q = q - 1;
     w \<leftarrow> slice taba i (length tabb);
     let (w, c) = mp_add w tabb 0;
     taba \<leftarrow> blit taba i w;
     if c \<noteq> 0 then do {
       v \<leftarrow> rd taba (i + length tabb);
       let v = v + 1;
       taba \<leftarrow> wr taba (i + length tabb) v;
       if v = 0 then Some (q, taba) else add_back k tabb i q taba }
     else add_back k tabb i q taba }"

definition div_step :: "limb list \<Rightarrow> limb \<Rightarrow> limb \<Rightarrow> nat \<Rightarrow> limb list \<Rightarrow> (limb \<times> limb list) option" where
  "div_step tabb b1 b1_inv i taba = do {
     let nb = length tabb;
     hi \<leftarrow> rd taba (i + nb);
     q \<leftarrow> (if hi \<ge> b1 then Some (- 1)
           else do {
             lo \<leftarrow> rd taba (i + nb - 1);
             if b1_inv \<noteq> 0 then Some (fst (udiv1norm hi lo b1 b1_inv)) else Some (fst (div_two b1 hi lo)) });
     w \<leftarrow> slice taba i nb;
     let (w, r) = mp_sub_mul1 w tabb q;
     taba \<leftarrow> blit taba i w;
     v \<leftarrow> rd taba (i + nb);
     let a = v - r;
     taba \<leftarrow> wr taba (i + nb) a;
     if a > v then add_back (unat q + 1) tabb i q taba else Some (q, taba) }"

fun div_loop :: "limb list \<Rightarrow> limb \<Rightarrow> limb \<Rightarrow> nat \<Rightarrow> limb list \<Rightarrow> limb list \<Rightarrow> (limb list \<times> limb list) option" where
  "div_loop tabb b1 b1_inv 0 tabq taba = Some (tabq, taba)"
| "div_loop tabb b1 b1_inv (Suc i) tabq taba = do {
     (q, taba) \<leftarrow> div_step tabb b1 b1_inv i taba;
     div_loop tabb b1 b1_inv i (q # tabq) taba }"

text \<open>\<open>large\<close> is \<^verbatim>\<open>mp_divnorm_large\<close>, which takes over when quotient and divisor have 50 limbs; the result is \<^verbatim>\<open>tabq\<close> and \<^verbatim>\<open>taba\<close>.\<close>

definition mp_divnorm :: "(limb list \<Rightarrow> limb list \<Rightarrow> (limb list \<times> limb list) option) \<Rightarrow> limb list \<Rightarrow> limb list \<Rightarrow> (limb list \<times> limb list) option" where
  "mp_divnorm large taba tabb = do {
     let na = length taba;
     let nb = length tabb;
     b1 \<leftarrow> rd tabb (nb - 1);
     if nb = 1 then do {
       (tabq, r) \<leftarrow> mp_div1norm taba b1 0;
       taba \<leftarrow> wr taba 0 r;
       Some (tabq, taba) }
     else if na < nb then None
     else do {
       let n = na - nb;
       if min n nb \<ge> 50 then large taba tabb
       else do {
         b1_inv \<leftarrow> (if n \<ge> 3 then if b1 = 0 then None else Some (udiv1norm_init b1) else Some 0);
         high \<leftarrow> slice taba n nb;
         let q = (if mp_cmp high tabb < 0 then 0 else 1);
         taba \<leftarrow> (if q \<noteq> 0 then blit taba n (fst (mp_sub high tabb 0)) else Some taba);
         div_loop tabb b1 b1_inv n [q] taba } } }"

subsection \<open>The estimate of the quotient\<close>

text \<open>With \<open>B = 2 H\<close> the base, \<open>d\<close> a divisor of at least half of it and \<open>B + m\<close> its inverse, the first quotient is the right one or one too small.\<close>

lemma udiv_estimate:
  fixes B H d m k a1 a0 s Y :: int
  assumes "B = 2 * H" and "H \<le> d" and "d < B" and "(B + m) * d = B * B - k" and "1 \<le> k" and "k \<le> d"
    and "0 \<le> a1" and "a1 < d" and "0 \<le> a0" and "a0 < B" and "s = (if a0 \<ge> H then 1 else 0)" and "Y = m * (a1 + s) + a0 + s * (d - B)"
  shows "0 \<le> a1 * B + a0 - (Y div B + a1) * d" and "a1 * B + a0 - (Y div B + a1) * d < 2 * d"
proof -
  define q where "q = Y div B + a1"
  have B: "0 < B" using assms(3,7,8) by linarith
  have "q = (Y + a1 * B) div B" using B by (simp add: q_def)
  moreover have "(Y + a1 * B) mod B + (Y + a1 * B) div B * B = Y + a1 * B" by (rule mod_div_mult_eq)
  moreover have "0 \<le> (Y + a1 * B) mod B" "(Y + a1 * B) mod B < B" using B by simp_all
  ultimately have q: "q * B \<le> Y + a1 * B" "Y + a1 * B < q * B + B" by simp_all
  have eq: "(a1 * B + a0) * B = d * (Y + a1 * B) + ((B - d) * (a0 - s * (B - d)) + k * (a1 + s))"
  proof -
    have "d * (Y + a1 * B) = (B + m) * d * (a1 + s) + d * a0 + s * d * d - 2 * (s * d * B)" by (simp add: assms(12) algebra_simps)
    also have "\<dots> = (B * B - k) * (a1 + s) + d * a0 + s * d * d - 2 * (s * d * B)" by (simp only: assms(4))
    finally show ?thesis using assms(11) by (auto simp: algebra_simps)
  qed
  have delta: "0 \<le> (B - d) * (a0 - s * (B - d)) + k * (a1 + s)" "(B - d) * (a0 - s * (B - d)) + k * (a1 + s) \<le> d * B"
  proof -
    have k: "0 \<le> k * (a1 + s)" using assms(5,7,11) by (intro mult_nonneg_nonneg) auto
    have "0 \<le> a0 - s * (B - d)" using assms by auto
    then show "0 \<le> (B - d) * (a0 - s * (B - d)) + k * (a1 + s)" using assms(3) by (intro add_nonneg_nonneg [OF _ k] mult_nonneg_nonneg) simp_all
    have "k * (a1 + s) \<le> d * d" using assms(5-8,11) by (intro mult_mono) auto
    moreover have "(B - d) * (a0 - s * (B - d)) \<le> (B - d) * d" using assms by (intro mult_left_mono) auto
    ultimately show "(B - d) * (a0 - s * (B - d)) + k * (a1 + s) \<le> d * B" by (simp add: algebra_simps)
  qed
  have d: "0 < d" using assms(7,8) by linarith
  have "d * (q * B) \<le> d * (Y + a1 * B)" using q(1) d by (intro mult_left_mono) simp_all
  then have "q * d * B \<le> (a1 * B + a0) * B" using eq delta(1) by (simp add: mult.assoc mult.left_commute)
  then show "0 \<le> a1 * B + a0 - (Y div B + a1) * d" using B by (simp add: q_def [symmetric])
  have "d * (Y + a1 * B) < d * (q * B + B)" using q(2) d by (intro mult_strict_left_mono)
  then have "(a1 * B + a0) * B < (q * d + 2 * d) * B" using eq delta(2) by (simp add: algebra_simps)
  then show "a1 * B + a0 - (Y div B + a1) * d < 2 * d" using B by (simp add: q_def [symmetric])
qed

lemma udiv_estimate_nat:
  fixes d m k a1 a0 s Y :: nat
  assumes "2 ^ 63 \<le> d" and "d < 2 ^ 64" and "(2 ^ 64 + m) * d + k = 2 ^ 128" and "1 \<le> k" and "k \<le> d" and "a1 < d" and "a0 < 2 ^ 64"
    and "s = (if 2 ^ 63 \<le> a0 then 1 else 0)" and "Y + s * 2 ^ 64 = m * (a1 + s) + a0 + s * d"
  shows "(Y div 2 ^ 64 + a1) * d \<le> a1 * 2 ^ 64 + a0" and "a1 * 2 ^ 64 + a0 < (Y div 2 ^ 64 + a1) * d + 2 * d"
proof -
  have mk: "(2 ^ 64 + int m) * int d = 2 ^ 64 * 2 ^ 64 - int k" using arg_cong [OF assms(3), of int] by simp
  have y: "int Y = int m * (int a1 + int s) + int a0 + int s * (int d - 2 ^ 64)" using arg_cong [OF assms(9), of int] by (simp add: algebra_simps)
  have s: "int s = (if int a0 \<ge> 2 ^ 63 then 1 else 0)" by (simp add: assms(8))
  have r: "2 ^ 63 \<le> int d" "int d < 2 ^ 64" "1 \<le> int k" "int k \<le> int d" "0 \<le> int a1" "int a1 < int d" "0 \<le> int a0" "int a0 < 2 ^ 64"
    using assms(1-7) by simp_all
  have "(2 :: int) ^ 64 = 2 * 2 ^ 63" by simp
  note est = udiv_estimate [OF this r(1,2) mk r(3-8) s y]
  have "int Y div 2 ^ 64 + int a1 = int (Y div 2 ^ 64 + a1)" by (simp add: of_nat_div)
  note est = est [unfolded this]
  have "int ((Y div 2 ^ 64 + a1) * d) \<le> int (a1 * 2 ^ 64 + a0)" "int (a1 * 2 ^ 64 + a0) < int ((Y div 2 ^ 64 + a1) * d + 2 * d)"
    using est by (simp_all add: algebra_simps)
  then show "(Y div 2 ^ 64 + a1) * d \<le> a1 * 2 ^ 64 + a0" "a1 * 2 ^ 64 + a0 < (Y div 2 ^ 64 + a1) * d + 2 * d"
    by (simp_all only: of_nat_le_iff of_nat_less_iff)
qed

lemma two_limbs: "unat (push_bit 64 (ucast (h :: limb)) OR ucast (l :: limb) :: dlimb) = unat h * 2 ^ 64 + unat l"
proof -
  have "unat (push_bit 64 (ucast h) :: dlimb) = unat h * 2 ^ 64"
  proof -
    have "unat h * 2 ^ 64 < 2 ^ 128" using limb_less [of h] by simp
    then show ?thesis by (simp add: unat_push_bit_mod dlimb_of_limb)
  qed
  moreover have "unat (ucast l :: dlimb) < 2 ^ 64" using limb_less [of l] by (simp only: dlimb_of_limb)
  ultimately show ?thesis using unat_or_add [of "ucast l :: dlimb" 64 "push_bit 64 (ucast h)"] by (simp add: or.commute dlimb_of_limb)
qed

lemma udiv1norm_init_val:
  assumes "2 ^ 63 \<le> unat d"
  shows "unat (udiv1norm_init d) = (2 ^ 128 - 1) div unat d - 2 ^ 64" and "2 ^ 64 \<le> (2 ^ 128 - 1) div unat d" and "(2 ^ 128 - 1) div unat d < 2 ^ 65"
proof -
  have d: "0 < unat d" "unat d < 2 ^ 64" using assms limb_less [of d] by simp_all
  have "unat (0 - d) = 2 ^ 64 - unat d" using d by (simp add: unat_sub_if' del: diff_0)
  then have "unat (- d - 1) = 2 ^ 64 - unat d - 1" using d by (simp add: unat_sub_if')
  moreover have "unat (- 1 :: limb) = 2 ^ 64 - 1" by (simp add: unsigned_minus_1_eq_mask mask_eq_exp_minus_1)
  ultimately have "unat (push_bit 64 (ucast (- d - 1)) OR ucast (- 1 :: limb) :: dlimb) = (2 ^ 64 - unat d - 1) * 2 ^ 64 + (2 ^ 64 - 1)"
    by (simp only: two_limbs)
  also have "\<dots> = 2 ^ 128 - 1 - 2 ^ 64 * unat d" using d by (simp add: diff_mult_distrib)
  finally have num: "unat ((push_bit 64 (ucast (- d - 1)) OR ucast (- 1 :: limb) :: dlimb) div ucast d) = (2 ^ 128 - 1 - 2 ^ 64 * unat d) div unat d"
    by (simp only: unat_div_distrib dlimb_of_limb)
  have "unat d * 2 ^ 64 \<le> 2 ^ 128 - 1"
  proof -
    have "unat d * 2 ^ 64 \<le> (2 ^ 64 - 1) * 2 ^ 64" using d by (intro mult_right_mono) simp_all
    then show ?thesis by simp
  qed
  then obtain y where y: "2 ^ 128 - 1 = 2 ^ 64 * unat d + y" using le_Suc_ex by (metis mult.commute)
  have "(2 ^ 64 * unat d + y) div unat d = 2 ^ 64 + y div unat d" using d(1) by (intro div_mult_self3) simp
  then have quot: "(2 ^ 128 - 1 - 2 ^ 64 * unat d) div unat d = (2 ^ 128 - 1) div unat d - 2 ^ 64" unfolding y by simp
  show "2 ^ 64 \<le> (2 ^ 128 - 1) div unat d" using \<open>unat d * 2 ^ 64 \<le> 2 ^ 128 - 1\<close> d by (simp add: less_eq_div_iff_mult_less_eq mult.commute)
  show lt: "(2 ^ 128 - 1) div unat d < 2 ^ 65"
  proof -
    have "(2 ^ 128 - 1) div unat d \<le> (2 ^ 128 - 1) div 2 ^ 63" using assms by (intro div_le_mono2) simp_all
    then show ?thesis by simp
  qed
  show "unat (udiv1norm_init d) = (2 ^ 128 - 1) div unat d - 2 ^ 64"
  proof -
    have "(2 ^ 128 - 1) div unat d - 2 ^ 64 < 2 ^ 64" using lt by simp
    then show ?thesis unfolding udiv1norm_init_def Let_def unat_ucast_mod num quot by simp
  qed
qed

lemma sign_mask: "(signed_drop_bit 63 a0 :: limb) = (if 2 ^ 63 \<le> unat a0 then - 1 else 0)"
proof -
  have "bit a0 63 \<longleftrightarrow> bit (unat a0) 63" by (simp add: bit_unsigned_iff)
  also have "\<dots> \<longleftrightarrow> odd (unat a0 div 2 ^ 63)" by (rule bit_nat_def)
  also have "\<dots> \<longleftrightarrow> 2 ^ 63 \<le> unat a0"
  proof (cases "2 ^ 63 \<le> unat a0")
    case True
    then have "unat a0 div 2 ^ 63 = 1" using limb_less [of a0] by (intro div_nat_eqI) simp_all
    then show ?thesis using True by simp
  qed simp
  finally show ?thesis by (intro bit_word_eqI) (auto simp: bit_signed_drop_bit_iff Suc_le_eq)
qed

text \<open>The two steps of \<^verbatim>\<open>udiv1norm\<close> after the estimate \<open>q\<close>: the remainder is \<open>x\<close> or \<open>x + d\<close>.\<close>

lemma udiv_correct_step:
  fixes d q :: limb and a :: dlimb
  assumes "unat a = N" and "N = unat q * unat d + x" and "x < 2 * unat d" and "0 < unat d" and "N < unat d * 2 ^ 64"
  defines "t \<equiv> a - ucast q * ucast d - ucast d"
  shows "unat (q + 1 + ucast (drop_bit 64 t)) = N div unat d" and "unat (ucast t + (ucast (drop_bit 64 t) AND d)) = N mod unat d"
proof -
  have qd: "unat (ucast q * ucast d :: dlimb) = unat q * unat d" using unat_mul_add [of q d 0 0] by simp
  have rem: "unat (a - ucast q * ucast d) = x" using assms(1,2) by (simp add: unat_sub_if' qd)
  have t: "unat t = (if unat d \<le> x then x - unat d else x + 2 ^ 128 - unat d)"
    using unat_sub_if' [of "a - ucast q * ucast d" "ucast d"] by (simp add: t_def rem dlimb_of_limb)
  have N: "unat q * unat d \<le> N" "N < 2 ^ 64 * unat d" using assms(2,5) by simp_all
  let ?lo = "unat (ucast t :: limb)" and ?hi = "unat (ucast (drop_bit 64 t) :: limb)"
  have parts: "unat t = ?lo + 2 ^ 64 * ?hi" by (rule dlimb_parts)
  have small: "?lo < 2 ^ 64" "?hi < 2 ^ 64" "unat d < 2 ^ 64" by (rule limb_less)+
  have "unat (q + 1 + ucast (drop_bit 64 t)) = N div unat d \<and> unat (ucast t + (ucast (drop_bit 64 t) AND d)) = N mod unat d"
  proof (cases "x < unat d")
    case True
    have "unat t = 2 ^ 128 + x - unat d" using True by (simp add: t)
    then have e: "?lo + 2 ^ 64 * ?hi + unat d = 2 ^ 128 + x" using parts small(3) by simp
    then have hi: "?hi = 2 ^ 64 - 1" using True small by simp
    then have "(ucast (drop_bit 64 t) :: limb) = - 1"
      by (intro word_unat_eq_iff [THEN iffD2]) (simp add: unsigned_minus_1_eq_mask mask_eq_exp_minus_1)
    moreover have "?lo + unat d = 2 ^ 64 + x" using e hi by simp
    then have "unat (ucast t + d) = x" using True small(3) by (simp add: unat_word_ariths)
    moreover have "N div unat d = unat q" "N mod unat d = x" using True assms(2) by simp_all
    ultimately show ?thesis by simp
  next
    case False
    have "unat t = x - unat d" using False by (simp add: t)
    then have e: "?lo + 2 ^ 64 * ?hi = x - unat d" using parts by simp
    moreover have "x - unat d < 2 ^ 64" using assms(3) small(3) by simp
    ultimately have hi: "?hi = 0" by simp
    then have "(ucast (drop_bit 64 t) :: limb) = 0" by (simp only: unat_eq_zero)
    moreover have "(y + (unat q + 1) * unat d) div unat d = unat q + 1" "(y + (unat q + 1) * unat d) mod unat d = y" if "y < unat d" for y
      using that unfolding div_mult_self1 [OF less_imp_neq [OF assms(4), symmetric]] mod_mult_self1 by simp_all
    from this [of "x - unat d"] have divmod: "N div unat d = unat q + 1" "N mod unat d = x - unat d"
      using assms(2,3) False by (simp_all add: add.commute)
    moreover have "N div unat d < 2 ^ 64" using N(2) by (simp add: less_mult_imp_div_less)
    then have "unat (q + 1) = unat q + 1" using divmod(1) by (simp add: unat_word_ariths)
    ultimately show ?thesis using e hi by simp
  qed
  then show "unat (q + 1 + ucast (drop_bit 64 t)) = N div unat d" "unat (ucast t + (ucast (drop_bit 64 t) AND d)) = N mod unat d" by blast+
qed

text \<open>\<^verbatim>\<open>udiv1norm\<close> divides two limbs by one.\<close>

lemma udiv1norm_val:
  assumes "2 ^ 63 \<le> unat d" and "unat a1 < unat d" and "udiv1norm a1 a0 d (udiv1norm_init d) = (q, r)"
  shows "unat q = (unat a1 * 2 ^ 64 + unat a0) div unat d" and "unat r = (unat a1 * 2 ^ 64 + unat a0) mod unat d"
proof -
  let ?N = "unat a1 * 2 ^ 64 + unat a0"
  define s :: nat where "s = (if 2 ^ 63 \<le> unat a0 then 1 else 0)"
  define m where "m = unat (udiv1norm_init d)"
  define k where "k = 2 ^ 128 - (2 ^ 64 + m) * unat d"
  have d: "0 < unat d" "unat d < 2 ^ 64" using assms(1) limb_less [of d] by simp_all
  have inv: "2 ^ 64 + m = (2 ^ 128 - 1) div unat d" using udiv1norm_init_val [OF assms(1)] by (simp add: m_def)
  have "(2 ^ 64 + m) * unat d \<le> 2 ^ 128 - 1" unfolding inv by (rule div_times_less_eq_dividend)
  moreover have "2 ^ 128 - 1 < (2 ^ 64 + m) * unat d + unat d" unfolding inv using dividend_less_div_times [OF d(1)] by (simp only: add.commute)
  ultimately have k: "1 \<le> k" "k \<le> unat d" "(2 ^ 64 + m) * unat d + k = 2 ^ 128" unfolding k_def by simp_all
  let ?n_adj = "a0 + (signed_drop_bit 63 a0 AND d)" and ?a1 = "a1 - signed_drop_bit 63 a0"
  have n_adj: "unat ?n_adj + s * 2 ^ 64 = unat a0 + s * unat d"
    using assms(1) d(2) limb_less [of a0] by (auto simp: sign_mask s_def unat_word_ariths mod_if)
  have a1: "unat ?a1 = unat a1 + s" using assms(2) d(2) by (auto simp: sign_mask s_def unat_word_ariths)
  define Y where "Y = m * (unat a1 + s) + unat ?n_adj"
  let ?Y = "ucast (udiv1norm_init d) * ucast ?a1 + ucast ?n_adj :: dlimb"
  have Y: "unat ?Y = Y" using unat_mul_add [of "udiv1norm_init d" ?a1 ?n_adj 0] by (simp add: Y_def m_def a1)
  let ?q = "ucast (drop_bit 64 ?Y) + a1"
  have "Y + s * 2 ^ 64 = m * (unat a1 + s) + unat a0 + s * unat d" using n_adj by (simp add: Y_def)
  note est = udiv_estimate_nat [OF assms(1) d(2) k(3,1,2) assms(2) limb_less s_def this]
  define q0 where "q0 = Y div 2 ^ 64 + unat a1"
  have q0: "q0 * unat d \<le> ?N" "?N < q0 * unat d + 2 * unat d" using est by (simp_all only: q0_def)
  have Nd: "?N < unat d * 2 ^ 64" using assms(2) limb_less [of a0] by simp
  then have "q0 * unat d < 2 ^ 64 * unat d" using le_less_trans [OF q0(1)] by (simp only: mult.commute)
  then have lt: "q0 < 2 ^ 64" by (rule mult_less_cancel2 [THEN iffD1, THEN conjunct2])
  moreover have "unat (ucast (drop_bit 64 ?Y) :: limb) = Y div 2 ^ 64 mod 2 ^ 64" by (simp only: bits_as_arith Y) simp
  ultimately have q: "unat ?q = q0" by (simp add: unat_word_ariths q0_def)
  let ?a = "push_bit 64 (ucast a1) OR ucast a0 :: dlimb"
  have "?N = unat ?q * unat d + (?N - q0 * unat d)" "?N - q0 * unat d < 2 * unat d" using q q0 by simp_all
  from udiv_correct_step [OF two_limbs this d(1) Nd] show "unat q = ?N div unat d" "unat r = ?N mod unat d"
    using assms(3) unfolding udiv1norm_def Let_def by auto
qed

text \<open>The long division by one limb.\<close>

lemma div_two_val:
  assumes "unat r < unat b" and "div_two b r a = (q, r')"
  shows "unat q = (unat r * 2 ^ 64 + unat a) div unat b" and "unat r' = (unat r * 2 ^ 64 + unat a) mod unat b"
proof -
  let ?N = "unat r * 2 ^ 64 + unat a"
  have "?N < unat b * 2 ^ 64" using assms(1) limb_less [of a] by simp
  then have "?N div unat b < 2 ^ 64" by (simp add: less_mult_imp_div_less mult.commute)
  moreover have "?N mod unat b < 2 ^ 64" using assms(1) limb_less [of b] by (intro order.strict_trans [OF mod_less_divisor]) simp_all
  moreover have "unat ((push_bit 64 (ucast r) OR ucast a :: dlimb) div ucast b) = ?N div unat b"
      "unat ((push_bit 64 (ucast r) OR ucast a :: dlimb) mod ucast b) = ?N mod unat b"
    by (simp_all only: unat_div_distrib unat_mod_distrib two_limbs dlimb_of_limb)
  moreover have "q = ucast ((push_bit 64 (ucast r) OR ucast a :: dlimb) div ucast b)" "r' = ucast ((push_bit 64 (ucast r) OR ucast a :: dlimb) mod ucast b)"
    using assms(2) by (simp_all add: div_two_def Let_def)
  ultimately show "unat q = ?N div unat b" "unat r' = ?N mod unat b" by (simp_all add: unat_ucast_mod)
qed

lemma div1_loop_val:
  assumes "\<And>r a q r'. unat r < unat b \<Longrightarrow> D r a = (q, r') \<Longrightarrow> unat q = (unat r * 2 ^ 64 + unat a) div unat b \<and> unat r' = (unat r * 2 ^ 64 + unat a) mod unat b"
    and "unat r < unat b" and "div1_loop D taba r = (tabr, r')"
  shows "length tabr = length taba \<and> unat r' < unat b \<and>
    limbs_val (rev taba) + 2 ^ (64 * length taba) * unat r = limbs_val (rev tabr) * unat b + unat r'"
  using assms(2,3)
proof (induction taba arbitrary: r tabr)
  case (Cons a taba)
  obtain q r1 where D: "D r a = (q, r1)" by (cases "D r a")
  obtain tabr1 where loop: "div1_loop D taba r1 = (tabr1, r')" "tabr = q # tabr1"
    using Cons.prems(2) D by (auto split: prod.splits)
  let ?N = "unat r * 2 ^ 64 + unat a" and ?P = "2 ^ (64 * length taba) :: nat"
  have q: "unat q = ?N div unat b" "unat r1 = ?N mod unat b" using assms(1) [OF Cons.prems(1) D] by simp_all
  then have "unat r1 < unat b" using Cons.prems(1) by simp
  note IH = Cons.IH [OF this loop(1)]
  have "unat q * unat b + unat r1 = ?N" unfolding q by (rule div_mult_mod_eq)
  then have "?P * (unat q * unat b + unat r1) = ?P * ?N" by simp
  then show ?case using IH loop(2) by (simp add: limbs_val_append power_add algebra_simps)
qed simp

lemma mp_div1norm_val:
  assumes "2 ^ 63 \<le> unat b" and "unat r < unat b"
  shows "\<exists>tabr r'. mp_div1norm taba b r = Some (tabr, r') \<and> length tabr = length taba \<and> unat r' < unat b \<and>
    limbs_val taba + 2 ^ (64 * length taba) * unat r = limbs_val tabr * unat b + unat r'"
proof -
  define D where "D = (if length taba \<ge> 3 then (\<lambda>r a. udiv1norm r a b (udiv1norm_init b)) else div_two b)"
  obtain tabr r' where loop: "div1_loop D (rev taba) r = (tabr, r')" by (cases "div1_loop D (rev taba) r")
  have "b \<noteq> 0" using assms(1) by auto
  then have "mp_div1norm taba b r = Some (rev tabr, r')" using loop
    by (cases "length taba \<ge> 3") (simp_all add: mp_div1norm_def D_def Let_def)
  moreover have "length tabr = length (rev taba) \<and> unat r' < unat b \<and>
      limbs_val (rev (rev taba)) + 2 ^ (64 * length (rev taba)) * unat r = limbs_val (rev tabr) * unat b + unat r'"
  proof (rule div1_loop_val [OF _ assms(2) loop])
    show "unat q = (unat r * 2 ^ 64 + unat a) div unat b \<and> unat r' = (unat r * 2 ^ 64 + unat a) mod unat b"
      if "unat r < unat b" "D r a = (q, r')" for r a q r'
    proof (cases "length taba \<ge> 3")
      case True
      then show ?thesis using udiv1norm_val [OF assms(1) that(1), of a q r'] that(2) by (simp add: D_def)
    next
      case False
      then show ?thesis using div_two_val [OF that(1), of a q r'] that(2) by (simp add: D_def)
    qed
  qed
  ultimately show ?thesis by simp
qed

subsection \<open>Adding back\<close>

lemma at_window:
  assumes "length pre = i" and "length w = n" and "length w' = n"
  shows "slice (pre @ w @ post) i n = Some w" and "blit (pre @ w @ post) i w' = Some (pre @ w' @ post)"
    and "rd (pre @ w @ v # post) (i + n) = Some v" and "wr (pre @ w @ v # post) (i + n) v' = Some (pre @ w @ v' # post)"
  using assms by (simp_all add: slice_def blit_def rd_def wr_def nth_append list_update_append)

text \<open>The \<open>nb + 1\<close> limbs hold a number that is \<open>D\<close> below zero; \<open>t\<close> additions of the divisor make it the remainder.\<close>

lemma unat_of_nat_limb: "n < 2 ^ 64 \<Longrightarrow> unat (word_of_nat n :: limb) = n"
  by (simp add: unat_of_nat take_bit_nat_eq_self)

lemma add_back_val:
  assumes "length w = length tabb" and "length pre = i" and "0 < D"
    and "limbs_val w + 2 ^ (64 * length tabb) * unat v + D = 2 ^ (64 * length tabb) * 2 ^ 64" and "D \<le> k * limbs_val tabb"
  shows "\<exists>t w'. add_back k tabb i q (pre @ w @ v # post) = Some (q - word_of_nat t, pre @ w' @ 0 # post) \<and>
    length w' = length tabb \<and> limbs_val w' + D = t * limbs_val tabb \<and> limbs_val w' < limbs_val tabb"
  using assms
proof (induction k arbitrary: w v D q)
  case (Suc k)
  let ?b = "limbs_val tabb" and ?P = "2 ^ (64 * length tabb) :: nat"
  obtain w1 c where add: "mp_add w tabb 0 = (w1, c)" by (cases "mp_add w tabb 0")
  have w1: "length w1 = length tabb" "unat c \<le> 1" "limbs_val w1 + ?P * unat c = limbs_val w + ?b"
    using mp_add_val [OF Suc.prems(1) _ add] Suc.prems(1) by simp_all
  note at = at_window [OF Suc.prems(2,1) w1(1)] and at' = at_window [OF Suc.prems(2) w1(1) w1(1)]
  have rest: ?case if step: "add_back (Suc k) tabb i q (pre @ w @ v # post) = add_back k tabb i (q - 1) (pre @ w1 @ v1 # post)"
    and val: "limbs_val w1 + ?P * unat v1 = limbs_val w + ?P * unat v + ?b" for v1
  proof -
    have "limbs_val w1 + ?P * unat v1 < ?P * 2 ^ 64"
    proof -
      have "?P * (unat v1 + 1) \<le> ?P * 2 ^ 64" using limb_less [of v1] by (intro mult_le_mono2) simp
      then have "?P * unat v1 + ?P \<le> ?P * 2 ^ 64" by (simp only: distrib_left mult_1_right)
      moreover have "limbs_val w1 < ?P" using limbs_val_less [of w1] w1(1) by simp
      ultimately show ?thesis by linarith
    qed
    then have D: "?b < D" using val Suc.prems(4) by linarith
    have "limbs_val w1 + ?P * unat v1 + (D - ?b) = ?P * 2 ^ 64" "D - ?b \<le> k * ?b" "0 < D - ?b"
      using D val Suc.prems(4,5) by simp_all
    from Suc.IH [OF w1(1) Suc.prems(2) this(3,1,2), of "q - 1"] obtain t w' where
      t: "add_back k tabb i (q - 1) (pre @ w1 @ v1 # post) = Some (q - 1 - word_of_nat t, pre @ w' @ 0 # post)"
        "length w' = length tabb" "limbs_val w' + (D - ?b) = t * ?b" "limbs_val w' < ?b" by blast
    have "limbs_val w' + D = Suc t * ?b" using t(3) D by simp
    moreover have "q - 1 - word_of_nat t = q - word_of_nat (Suc t)" by simp
    ultimately show ?thesis using step t by metis
  qed
  show ?case
  proof (cases "c = 0")
    case True
    then show ?thesis using rest [of v] at(1,2) add w1(3) by simp
  next
    case False
    then have c: "unat c = 1" using w1(2) by (metis le_antisym less_one not_less unat_eq_zero)
    show ?thesis
    proof (cases "v + 1 = 0")
      case True
      then have "v = - 1" by (metis add_eq_0_iff2)
      then have v: "unat v = 2 ^ 64 - 1" by (simp add: unsigned_minus_1_eq_mask mask_eq_exp_minus_1)
      have "?P * unat v + ?P = ?P * 2 ^ 64" unfolding v by (simp add: algebra_simps)
      then have "limbs_val w1 + D = 1 * ?b" using w1(3) c Suc.prems(4) by simp
      moreover from this have "limbs_val w1 < ?b" using Suc.prems(3) by simp
      moreover have "add_back (Suc k) tabb i q (pre @ w @ v # post) = Some (q - word_of_nat 1, pre @ w1 @ 0 # post)"
        using False True at(1,2) at'(3,4) add by simp
      ultimately show ?thesis using w1(1) by blast
    next
      case more: False
      have "unat (v + 1) = unat v + 1"
      proof -
        have "unat v + 1 < 2 ^ 64"
        proof (rule ccontr)
          assume "\<not> unat v + 1 < 2 ^ 64"
          then have "unat v = 2 ^ 64 - 1" using limb_less [of v] by simp
          then have "unat (v + 1) = 0" by (simp add: unat_word_ariths)
          then show False using more by (simp add: unat_eq_zero)
        qed
        then show ?thesis by (simp add: unat_word_ariths)
      qed
      then show ?thesis using rest [of "v + 1"] False more at(1,2) at'(3,4) add w1(3) c by simp
    qed
  qed
qed simp

subsection \<open>One limb of the quotient\<close>

definition normal_divisor :: "limb list \<Rightarrow> bool" where
  "normal_divisor tabb \<longleftrightarrow> tabb \<noteq> [] \<and> 2 ^ 63 \<le> unat (last tabb)"

lemma normal_divisor_val:
  assumes "normal_divisor tabb"
  shows "unat (last tabb) * 2 ^ (64 * (length tabb - 1)) \<le> limbs_val tabb" and "2 ^ (64 * length tabb) \<le> 2 * limbs_val tabb"
proof -
  obtain ys y where t: "tabb = ys @ [y]" "2 ^ 63 \<le> unat y" using assms by (cases tabb rule: rev_cases) (simp_all add: normal_divisor_def)
  then show le: "unat (last tabb) * 2 ^ (64 * (length tabb - 1)) \<le> limbs_val tabb" by (simp add: limbs_val_append mult.commute)
  have "2 ^ (64 * length tabb) = 2 * (2 ^ 63 * 2 ^ (64 * (length tabb - 1)) :: nat)" using t(1) by (simp add: power_add)
  also have "\<dots> \<le> 2 * (unat (last tabb) * 2 ^ (64 * (length tabb - 1)))" using t by (intro mult_le_mono2 mult_le_mono1) simp
  finally show "2 ^ (64 * length tabb) \<le> 2 * limbs_val tabb" using le by linarith
qed

text \<open>The quotient of the two highest limbs by the highest limb of the divisor is not too small.\<close>

lemma quotient_estimate:
  assumes "normal_divisor tabb" and "length w = length tabb" and "limbs_val w + 2 ^ (64 * length tabb) * v < 2 ^ 64 * limbs_val tabb"
  shows "(limbs_val w + 2 ^ (64 * length tabb) * v) div limbs_val tabb \<le> (v * 2 ^ 64 + unat (last w)) div unat (last tabb)"
    and "(limbs_val w + 2 ^ (64 * length tabb) * v) div limbs_val tabb \<le> 2 ^ 64 - 1"
proof -
  let ?N = "limbs_val w + 2 ^ (64 * length tabb) * v" and ?p = "2 ^ (64 * (length tabb - 1)) :: nat"
  obtain xs x where w: "w = xs @ [x]" using assms(1,2) by (cases w rule: rev_cases) (simp_all add: normal_divisor_def)
  have len: "length tabb = Suc (length xs)" using assms(2) w by simp
  then have "?N = limbs_val xs + ?p * (v * 2 ^ 64 + unat x)" by (simp add: w limbs_val_append power_add algebra_simps)
  moreover have "limbs_val xs < ?p" using limbs_val_less [of xs] len by simp
  ultimately have high: "?N div ?p = v * 2 ^ 64 + unat x" by simp
  have pos: "0 < unat (last tabb) * ?p" using assms(1) by (simp add: normal_divisor_def)
  have "?N div limbs_val tabb \<le> ?N div (?p * unat (last tabb))"
    using normal_divisor_val(1) [OF assms(1)] pos by (intro div_le_mono2) (simp_all add: mult.commute)
  also have "\<dots> = (v * 2 ^ 64 + unat x) div unat (last tabb)" by (simp only: div_mult2_eq high)
  finally show "?N div limbs_val tabb \<le> (v * 2 ^ 64 + unat (last w)) div unat (last tabb)" by (simp add: w)
  have "?N div limbs_val tabb < 2 ^ 64" using assms(3) by (simp only: less_mult_imp_div_less)
  then show "?N div limbs_val tabb \<le> 2 ^ 64 - 1" by simp
qed

lemma div_step_val:
  assumes "normal_divisor tabb" and "length w = length tabb" and "length pre = i"
    and "limbs_val w + 2 ^ (64 * length tabb) * unat v < 2 ^ 64 * limbs_val tabb" and "b1_inv \<in> {0, udiv1norm_init (last tabb)}"
  shows "\<exists>q w'. div_step tabb (last tabb) b1_inv i (pre @ w @ v # post) = Some (q, pre @ w' @ 0 # post) \<and> length w' = length tabb \<and>
    limbs_val w' < limbs_val tabb \<and> limbs_val w + 2 ^ (64 * length tabb) * unat v = unat q * limbs_val tabb + limbs_val w'"
proof -
  let ?b = "limbs_val tabb" and ?P = "2 ^ (64 * length tabb) :: nat" and ?b1 = "last tabb" and ?taba = "pre @ w @ v # post"
  let ?N = "limbs_val w + ?P * unat v"
  have nonempty: "tabb \<noteq> []" "w \<noteq> []" and b1: "2 ^ 63 \<le> unat ?b1" using assms(1,2) by (auto simp: normal_divisor_def)
  have bpos: "0 < ?b" using assms(4) by (metis gr0I mult_0_right not_less_zero)
  have hi: "rd ?taba (i + length tabb) = Some v" using at_window(3) [OF assms(3,2,2)] .
  have lo: "rd ?taba (i + length tabb - 1) = Some (last w)"
  proof -
    obtain xs x where w: "w = xs @ [x]" using nonempty(2) by (cases w rule: rev_cases) simp_all
    then have n: "length tabb = Suc (length xs)" using assms(2) by simp
    show ?thesis using assms(3) by (simp add: n w rd_def nth_append)
  qed
  define q where "q = (if v \<ge> ?b1 then - 1 else if b1_inv \<noteq> 0 then fst (udiv1norm v (last w) ?b1 b1_inv) else fst (div_two ?b1 v (last w)))"
  have est: "?N div ?b \<le> unat q"
  proof (cases "v \<ge> ?b1")
    case True
    then show ?thesis using quotient_estimate(2) [OF assms(1,2,4)] by (simp add: q_def unsigned_minus_1_eq_mask mask_eq_exp_minus_1)
  next
    case False
    then have lt: "unat v < unat ?b1" by (simp add: word_less_nat_alt not_le)
    have "unat q = (unat v * 2 ^ 64 + unat (last w)) div unat ?b1"
      using False udiv1norm_val(1) [OF b1 lt, of "last w"] div_two_val(1) [OF lt, of "last w"] assms(5)
      by (cases "b1_inv = 0") (simp_all add: q_def prod_eq_iff)
    then show ?thesis using quotient_estimate(1) [OF assms(1,2,4)] by simp
  qed
  obtain w1 r where sub: "mp_sub_mul1 w tabb q = (w1, r)" by (cases "mp_sub_mul1 w tabb q")
  have w1: "length w1 = length tabb" "limbs_val w1 + ?b * unat q = limbs_val w + ?P * unat r"
    using sub_mul1_loop_val [OF assms(2), of q 0 w1 r] sub by (simp_all add: mp_sub_mul1_def)
  have q: "(if v \<ge> ?b1 then Some (- 1) else rd ?taba (i + length tabb - 1) \<bind>
      (\<lambda>lo. if b1_inv \<noteq> 0 then Some (fst (udiv1norm v lo ?b1 b1_inv)) else Some (fst (div_two ?b1 v lo)))) = Some q"
    using lo by (simp add: q_def)
  have step: "div_step tabb ?b1 b1_inv i ?taba =
      (if v - r > v then add_back (unat q + 1) tabb i q (pre @ w1 @ (v - r) # post) else Some (q, pre @ w1 @ (v - r) # post))"
    using sub at_window(1,2) [OF assms(3,2) w1(1)] at_window(3,4) [OF assms(3) w1(1) w1(1)]
    by (simp only: div_step_def Let_def hi bind.bind_lunit q) (simp del: add_back.simps)
  have sub: "unat (v - r) = (if unat r \<le> unat v then unat v - unat r else unat v + 2 ^ 64 - unat r)" by (simp add: unat_sub_if')
  have P: "limbs_val w1 < ?P" using limbs_val_less [of w1] w1(1) by simp
  show ?thesis
  proof (cases "unat r \<le> unat v")
    case False
    define k where "k = unat r - unat v"
    have k: "unat r = unat v + k" "0 < k" "k \<le> 2 ^ 64" using False limb_less [of r] by (simp_all add: k_def)
    define D where "D = ?P * k - limbs_val w1"
    have "?P * 1 \<le> ?P * k" using k(2) by (intro mult_le_mono2) simp
    then have "limbs_val w1 < ?P * k" using P by linarith
    then have D: "limbs_val w1 + D = ?P * k" "0 < D" by (simp_all add: D_def)
    have vr: "unat (v - r) + k = 2 ^ 64" using sub False k by simp
    have "limbs_val w1 + ?P * unat (v - r) + D = ?P * (unat (v - r) + k)" using D(1) by (simp add: distrib_left)
    then have X: "limbs_val w1 + ?P * unat (v - r) + D = ?P * 2 ^ 64" by (simp only: vr)
    have qb: "?N + D = unat q * ?b" using w1(2) D(1) k(1) by (simp add: algebra_simps)
    then have le: "D \<le> (unat q + 1) * ?b" by simp
    obtain t w' where t: "add_back (unat q + 1) tabb i q (pre @ w1 @ (v - r) # post) = Some (q - word_of_nat t, pre @ w' @ 0 # post)"
        "length w' = length tabb" "limbs_val w' + D = t * ?b" "limbs_val w' < ?b"
      using add_back_val [OF w1(1) assms(3) D(2) X le, of q post] by blast
    have "t * ?b < (unat q + 1) * ?b" using t(3,4) qb by simp
    then have tq: "t \<le> unat q" using mult_less_cancel2 [of t ?b "unat q + 1"] by linarith
    then have "unat (word_of_nat t :: limb) = t" using limb_less [of q] by (intro unat_of_nat_limb) simp
    then have "unat (q - word_of_nat t) = unat q - t" using tq by (simp add: unat_sub_if')
    then have "unat (q - word_of_nat t) * ?b + limbs_val w' = ?N" using t(3) qb tq by (simp add: diff_mult_distrib)
    moreover have "v - r > v" using False sub limb_less [of r] by (simp add: word_less_nat_alt)
    ultimately show ?thesis using step t(1,2,4) by (metis (no_types, lifting))
  next
    case True
    have "\<not> v - r > v" using True sub by (simp add: word_less_nat_alt)
    define k where "k = unat v - unat r"
    have k: "unat v = unat r + k" using True by (simp add: k_def)
    have N: "?N = unat q * ?b + (limbs_val w1 + ?P * k)" using w1(2) k by (simp add: algebra_simps)
    have "?N < (unat q + 1) * ?b"
    proof -
      have "?N = ?N div ?b * ?b + ?N mod ?b" by simp
      moreover have "?N div ?b * ?b \<le> unat q * ?b" using est by (rule mult_le_mono1)
      moreover have "?N mod ?b < ?b" using bpos by simp
      ultimately show ?thesis by (simp only: distrib_right mult_1)
    qed
    then have rem: "limbs_val w1 + ?P * k < ?b" using N by simp
    have "k = 0"
    proof (rule ccontr)
      assume "k \<noteq> 0"
      then have "?P * 1 \<le> ?P * k" by (intro mult_le_mono2) simp
      then show False using rem limbs_val_less [of tabb] unfolding mult_1_right by linarith
    qed
    then have "v - r = 0" using sub True k by (simp add: unat_eq_zero [symmetric])
    then show ?thesis using step \<open>\<not> v - r > v\<close> w1(1) rem N \<open>k = 0\<close> by auto
  qed
qed

subsection \<open>The whole quotient\<close>

lemma div_loop_val:
  assumes "normal_divisor tabb" and "b1_inv \<in> {0, udiv1norm_init (last tabb)}" and "length pre = i" and "length w = length tabb"
    and "limbs_val w < limbs_val tabb"
  shows "\<exists>qs rem. div_loop tabb (last tabb) b1_inv i tabq (pre @ w @ post) = Some (qs @ tabq, rem @ replicate i 0 @ post) \<and>
    length qs = i \<and> length rem = length tabb \<and> limbs_val rem < limbs_val tabb \<and>
    limbs_val (pre @ w) = limbs_val qs * limbs_val tabb + limbs_val rem"
  using assms(3-5)
proof (induction i arbitrary: pre w tabq post)
  case (Suc i)
  let ?b = "limbs_val tabb"
  obtain pre' x where pre: "pre = pre' @ [x]" "length pre' = i" using Suc.prems(1) by (cases pre rule: rev_cases) simp_all
  obtain w0 v where w: "w = w0 @ [v]" using Suc.prems(2) assms(1) by (cases w rule: rev_cases) (simp_all add: normal_divisor_def)
  have win: "length (x # w0) = length tabb" using Suc.prems(2) w by simp
  have val: "limbs_val (x # w0) + 2 ^ (64 * length tabb) * unat v = unat x + 2 ^ 64 * limbs_val w"
    using win by (simp add: w limbs_val_append power_add algebra_simps flip: win)
  have "unat x + 2 ^ 64 * limbs_val w < 2 ^ 64 * ?b" using limb_less [of x] Suc.prems(3) by simp
  then have lt: "limbs_val (x # w0) + 2 ^ (64 * length tabb) * unat v < 2 ^ 64 * ?b" by (simp only: val)
  obtain q w' where q: "div_step tabb (last tabb) b1_inv i (pre' @ (x # w0) @ v # post) = Some (q, pre' @ w' @ 0 # post)"
      "length w' = length tabb" "limbs_val w' < ?b" "unat x + 2 ^ 64 * limbs_val w = unat q * ?b + limbs_val w'"
    using div_step_val [OF assms(1) win pre(2) lt assms(2), of post] unfolding val by blast
  obtain qs rem where r: "div_loop tabb (last tabb) b1_inv i (q # tabq) (pre' @ w' @ 0 # post) = Some (qs @ q # tabq, rem @ replicate i 0 @ 0 # post)"
      "length qs = i" "length rem = length tabb" "limbs_val rem < ?b" "limbs_val (pre' @ w') = limbs_val qs * ?b + limbs_val rem"
    using Suc.IH [OF pre(2) q(2,3), of "q # tabq" "0 # post"] by blast
  have e: "pre @ w @ post = pre' @ (x # w0) @ v # post" by (simp add: pre(1) w)
  have "div_loop tabb (last tabb) b1_inv (Suc i) tabq (pre @ w @ post) = Some ((qs @ [q]) @ tabq, rem @ replicate (Suc i) 0 @ post)"
    unfolding e using q(1) r(1) replicate_append_same [of i "0 :: limb"] by simp
  moreover have "limbs_val (pre @ w) = limbs_val (qs @ [q]) * ?b + limbs_val rem"
  proof -
    have "limbs_val (pre @ w) = limbs_val pre' + 2 ^ (64 * i) * (unat x + 2 ^ 64 * limbs_val w)"
      using pre(2) by (simp add: pre(1) limbs_val_append power_add algebra_simps)
    also have "\<dots> = limbs_val (pre' @ w') + 2 ^ (64 * i) * unat q * ?b" unfolding q(4) using pre(2) by (simp add: limbs_val_append algebra_simps)
    finally show ?thesis unfolding r(5) using r(2) by (simp add: limbs_val_append algebra_simps)
  qed
  ultimately show ?case using r(2-4) by (metis length_append_singleton)
qed simp

lemma cmp_loop_append: "length xs = length ys \<Longrightarrow> cmp_loop (xs @ [x]) (ys @ [y]) = (if cmp_loop xs ys \<noteq> 0 then cmp_loop xs ys else cmp_loop [x] [y])"
  by (induction xs ys rule: list_induct2) auto

lemma mp_cmp_val: "length xs = length ys \<Longrightarrow> mp_cmp xs ys = (if limbs_val xs < limbs_val ys then - 1 else if limbs_val xs = limbs_val ys then 0 else 1)"
proof (induction xs ys rule: list_induct2)
  case (Cons x xs y ys)
  have step: "mp_cmp (x # xs) (y # ys) = (if mp_cmp xs ys \<noteq> 0 then mp_cmp xs ys else cmp_loop [x] [y])"
    using cmp_loop_append [of "rev xs" "rev ys" x y] Cons.hyps by (simp add: mp_cmp_def)
  have x: "unat x < 2 ^ 64" "unat y < 2 ^ 64" by (rule limb_less)+
  consider "limbs_val xs < limbs_val ys" | "limbs_val xs = limbs_val ys" | "limbs_val ys < limbs_val xs" by linarith
  then show ?case
  proof cases
    case 1
    then have "unat x + 2 ^ 64 * limbs_val xs < unat y + 2 ^ 64 * limbs_val ys" using x by simp
    then show ?thesis using 1 Cons.IH step by simp
  next
    case 2
    then show ?thesis using Cons.IH step by (auto simp: word_less_nat_alt word_unat_eq_iff)
  next
    case 3
    then have "unat y + 2 ^ 64 * limbs_val ys < unat x + 2 ^ 64 * limbs_val xs" using x by simp
    then show ?thesis using 3 Cons.IH step by simp
  qed
qed (simp add: mp_cmp_def)

text \<open>C13. Schoolbook division. For a divisor whose highest bit is set and fewer than 50 limbs of quotient or divisor, the division never reads or writes behind
  its arrays, returns, and leaves the quotient, whose highest limb is at most 1, and in the low limbs of the dividend the remainder.\<close>

theorem mp_divnorm_correct:
  assumes "normal_divisor tabb" and "length tabb \<le> length taba" and "min (length taba - length tabb) (length tabb) < 50"
  shows "\<exists>tabq rem rest. mp_divnorm large taba tabb = Some (tabq, rem @ rest) \<and> length (rem @ rest) = length taba \<and>
    length tabq = length taba - length tabb + 1 \<and> length rem = length tabb \<and>
    limbs_val taba = limbs_val tabq * limbs_val tabb + limbs_val rem \<and> limbs_val rem < limbs_val tabb \<and> unat (last tabq) \<le> 1"
proof -
  let ?nb = "length tabb" and ?n = "length taba - length tabb" and ?b = "limbs_val tabb"
  have ne: "tabb \<noteq> []" and b1: "2 ^ 63 \<le> unat (last tabb)" using assms(1) by (simp_all add: normal_divisor_def)
  have rd: "rd tabb (?nb - 1) = Some (last tabb)" using ne by (simp add: rd_def last_conv_nth)
  have "\<exists>tabq rem rest. mp_divnorm large taba tabb = Some (tabq, rem @ rest) \<and> length (rem @ rest) = length taba \<and> length tabq = ?n + 1 \<and> length rem = ?nb \<and>
      limbs_val taba = limbs_val tabq * ?b + limbs_val rem \<and> limbs_val rem < ?b"
  proof (cases "?nb = 1")
    case True
    then obtain d where d: "tabb = [d]" by (cases tabb) simp_all
    obtain x xs where x: "taba = x # xs" using assms(2) d by (cases taba) simp_all
    have "unat (0 :: limb) < unat d" using b1 d by simp
    then obtain tabr r' where r: "mp_div1norm taba d 0 = Some (tabr, r')" "length tabr = length taba" "unat r' < unat d"
        "limbs_val taba + 2 ^ (64 * length taba) * unat (0 :: limb) = limbs_val tabr * unat d + unat r'"
      using mp_div1norm_val [of d 0 taba] b1 d by auto
    have "mp_divnorm large taba tabb = Some (tabr, [r'] @ xs)" using r(1) by (simp add: mp_divnorm_def d rd_def wr_def x)
    then show ?thesis using r(2-4) d x by (intro exI [of _ tabr] exI [of _ "[r']"] exI [of _ xs]) simp
  next
    case False
    define high where "high = drop ?n taba"
    define b1_inv where "b1_inv = (if ?n \<ge> 3 then udiv1norm_init (last tabb) else 0)"
    have high: "length high = ?nb" "slice taba ?n ?nb = Some high" "taba = take ?n taba @ high @ []"
      using assms(2) by (simp_all add: high_def slice_def)
    have pre: "length (take ?n taba) = ?n" using assms(2) by simp
    define q :: limb where "q = (if limbs_val high < ?b then 0 else 1)"
    have "(if mp_cmp high tabb < 0 then 0 else 1) = q" using mp_cmp_val [OF high(1)] by (simp add: q_def)
    moreover obtain w where w: "(if q \<noteq> 0 then blit taba ?n (fst (mp_sub high tabb 0)) else Some taba) = Some (take ?n taba @ w @ [])"
        "length w = ?nb" "limbs_val w < ?b" "limbs_val high = unat q * ?b + limbs_val w"
    proof (cases "limbs_val high < ?b")
      case True
      then show thesis using that [of high] high by (simp add: q_def)
    next
      case ge: False
      obtain w c where sub: "mp_sub high tabb 0 = (w, c)" by (cases "mp_sub high tabb 0")
      have v: "length w = ?nb" "unat c \<le> 1" "limbs_val w + ?b = limbs_val high + 2 ^ (64 * ?nb) * unat c"
        using mp_sub_val [OF high(1) _ sub] high(1) by simp_all
      have lt: "limbs_val high < 2 ^ (64 * ?nb)" "limbs_val w < 2 ^ (64 * ?nb)" using limbs_val_less [of high] limbs_val_less [of w] high(1) v(1) by simp_all
      have c: "unat c = 0"
      proof (rule ccontr)
        assume "unat c \<noteq> 0"
        then have "unat c = 1" using v(2) by linarith
        then show False using v(3) lt ge by simp
      qed
      then have sum: "limbs_val high = unat q * ?b + limbs_val w" using v(3) ge by (simp add: q_def)
      have "limbs_val w + ?b = limbs_val high" using sum ge by (simp add: q_def)
      then have "limbs_val w < ?b" using lt(1) normal_divisor_val(2) [OF assms(1)] by linarith
      moreover have "(if q \<noteq> 0 then blit taba ?n (fst (mp_sub high tabb 0)) else Some taba) = Some (take ?n taba @ w @ [])"
        using v(1) assms(2) ge by (simp add: blit_def q_def sub)
      ultimately show thesis using that v(1) sum by blast
    qed
    ultimately have step: "mp_divnorm large taba tabb = div_loop tabb (last tabb) b1_inv ?n [q] (take ?n taba @ w @ [])"
      using False assms(2,3) rd high(2) b1 by (auto simp: mp_divnorm_def Let_def b1_inv_def)
    have inv: "b1_inv \<in> {0, udiv1norm_init (last tabb)}" by (simp add: b1_inv_def)
    obtain qs rem where r: "div_loop tabb (last tabb) b1_inv ?n [q] (take ?n taba @ w @ []) = Some (qs @ [q], rem @ replicate ?n 0 @ [])"
        "length qs = ?n" "length rem = ?nb" "limbs_val rem < ?b" "limbs_val (take ?n taba @ w) = limbs_val qs * ?b + limbs_val rem"
      using div_loop_val [OF assms(1) inv pre w(2,3), of "[q]" "[]"] by blast
    have "limbs_val taba = limbs_val (take ?n taba) + 2 ^ (64 * ?n) * limbs_val high"
      using limbs_val_append [of "take ?n taba" high] high(3) pre by simp
    also have "\<dots> = limbs_val (take ?n taba @ w) + 2 ^ (64 * ?n) * unat q * ?b" unfolding w(4) using pre by (simp add: limbs_val_append algebra_simps)
    also have "\<dots> = limbs_val (qs @ [q]) * ?b + limbs_val rem" unfolding r(5) using r(2) by (simp add: limbs_val_append algebra_simps)
    finally have val: "limbs_val taba = limbs_val (qs @ [q]) * ?b + limbs_val rem" .
    have div: "mp_divnorm large taba tabb = Some (qs @ [q], rem @ replicate ?n 0)" using step r(1) by simp
    have "length (rem @ replicate ?n 0) = length taba" "length (qs @ [q]) = ?n + 1" using r(2,3) assms(2) by simp_all
    then show ?thesis using div val r(3,4) by blast
  qed
  then obtain tabq rem rest where res: "mp_divnorm large taba tabb = Some (tabq, rem @ rest)" "length (rem @ rest) = length taba" "length tabq = ?n + 1"
      "length rem = ?nb" "limbs_val taba = limbs_val tabq * ?b + limbs_val rem" "limbs_val rem < ?b" by blast
  have "unat (last tabq) \<le> 1"
  proof (rule ccontr)
    assume "\<not> unat (last tabq) \<le> 1"
    then have two: "2 \<le> unat (last tabq)" by simp
    obtain qs q where q: "tabq = qs @ [q]" using res(3) by (cases tabq rule: rev_cases) simp_all
    have "2 ^ (64 * ?n) * 2 \<le> limbs_val tabq"
    proof -
      have "2 ^ (64 * ?n) * 2 \<le> 2 ^ (64 * ?n) * unat q" using two q by (intro mult_le_mono2) simp
      moreover have "limbs_val tabq = limbs_val qs + 2 ^ (64 * ?n) * unat q" using res(3) by (simp add: q limbs_val_append)
      ultimately show ?thesis by linarith
    qed
    then have "2 ^ (64 * ?n) * 2 * ?b \<le> limbs_val tabq * ?b" by (rule mult_le_mono1)
    moreover have "2 ^ (64 * ?n) * 2 ^ (64 * ?nb) \<le> 2 ^ (64 * ?n) * (2 * ?b)" using normal_divisor_val(2) [OF assms(1)] by (rule mult_le_mono2)
    moreover have "(2 :: nat) ^ (64 * ?n) * 2 ^ (64 * ?nb) = 2 ^ (64 * length taba)" using assms(2) by (simp add: power_add [symmetric])
    ultimately show False using res(5) limbs_val_less [of taba] unfolding mult.assoc by linarith
  qed
  then show ?thesis using res by blast
qed

theorem mp_divnorm_correct_witness:
  "\<forall>large. \<exists>tabq rem rest. mp_divnorm large [7, 0, 5, 0x123456789ABCDEF0] [3, 0x8000000000000000] = Some (tabq, rem @ rest) \<and>
    length (rem @ rest) = 4 \<and> length tabq = 3 \<and> length rem = 2 \<and>
    limbs_val [7, 0, 5, 0x123456789ABCDEF0] = limbs_val tabq * limbs_val [3, 0x8000000000000000] + limbs_val rem \<and>
    limbs_val rem < limbs_val [3, 0x8000000000000000] \<and> unat (last tabq) \<le> 1"
proof -
  have "normal_divisor [3, 0x8000000000000000]" by (simp add: normal_divisor_def)
  moreover have "length [7, 0, 5, 0x123456789ABCDEF0 :: limb] = 4" "length [3, 0x8000000000000000 :: limb] = 2" by simp_all
  ultimately show ?thesis using mp_divnorm_correct [of "[3, 0x8000000000000000]" "[7, 0, 5, 0x123456789ABCDEF0]"] by fastforce
qed

end
