(* ===== verification/JsLineTable.thy ===== *)
theory JsLineTable
  imports DynBuf
begin

section \<open>Line numbers of byte code (\<^verbatim>\<open>js/quickjs.c\<close>)\<close>

text \<open>
  The table \<^verbatim>\<open>pc2line\<close> of a compiled function: \<open>add_pc2line_info\<close> records the line of an instruction, \<open>compute_pc2line_info\<close> packs the records
  into a dynamic buffer, as single bytes or in LEB128, and \<open>find_line_num\<close> looks up the line of a position. C's \<^verbatim>\<open>int\<close> is \<open>int\<close> and its overflow
  is undefined behaviour, \<^verbatim>\<open>uint32_t\<close> is a word.
\<close>

definition c_int :: "int \<Rightarrow> int option" where
  "c_int n = (if - (2 ^ 31) \<le> n \<and> n < 2 ^ 31 then Some n else None)"

lemma c_int_Some [simp]: "- (2 ^ 31) \<le> n \<Longrightarrow> n < 2 ^ 31 \<Longrightarrow> c_int n = Some n"
  by (simp add: c_int_def)

subsection \<open>LEB128\<close>

function dbuf_put_leb128 :: "'o DynBuf \<Rightarrow> u32 \<Rightarrow> 'o DynBuf option" where
  "dbuf_put_leb128 s v =
     (let a = v AND 0x7f;
          v = drop_bit 7 v
      in if v \<noteq> 0
         then dbuf_putc s (ucast (a OR 0x80)) \<bind> (\<lambda>(_, s). dbuf_put_leb128 s v)
         else dbuf_putc s (ucast a) \<bind> (\<lambda>(_, s). Some s))"
  by pat_completeness auto

lemma unat_drop_7: "drop_bit 7 v \<noteq> 0 \<Longrightarrow> unat (drop_bit 7 v) < unat v" for v :: u32
proof -
  assume "drop_bit 7 v \<noteq> 0"
  then have "unat (drop_bit 7 v) \<noteq> 0" by (simp add: unat_eq_zero)
  then show ?thesis unfolding unat_drop_bit_div by (intro div_less_dividend) (auto intro: ccontr)
qed

termination dbuf_put_leb128
  by (relation "measure (\<lambda>(s, v). unat v)") (auto simp: unat_drop_7)

declare dbuf_put_leb128.simps [simp del]

definition dbuf_put_sleb128 :: "'o DynBuf \<Rightarrow> int \<Rightarrow> 'o DynBuf option" where
  "dbuf_put_sleb128 s v1 = (let v = word_of_int v1 in dbuf_put_leb128 s ((2 * v) XOR - drop_bit 31 v))"

text \<open>The decoders get the bytes from the pointer to the end of the buffer, and return the value and how many bytes they read, or \<open>-1\<close>.\<close>

fun get_leb128_loop :: "nat \<Rightarrow> u32 \<Rightarrow> bytes \<Rightarrow> u32 \<times> int" where
  "get_leb128_loop i v [] = (0, - 1)"
| "get_leb128_loop i v (b # ptr) =
     (if i < 5
      then let a = ucast b; v = v OR push_bit (i * 7) (a AND 0x7f)
           in if a AND 0x80 = 0 then (v, int (i + 1)) else get_leb128_loop (i + 1) v ptr
      else (0, - 1))"

definition get_leb128 :: "bytes \<Rightarrow> u32 \<times> int" where
  "get_leb128 buf = get_leb128_loop 0 0 buf"

definition get_sleb128 :: "bytes \<Rightarrow> int \<times> int" where
  "get_sleb128 buf =
     (let (val, ret) = get_leb128 buf
      in if ret < 0 then (0, - 1) else (sint (drop_bit 1 val XOR - (val AND 1)), ret))"

subsection \<open>The table\<close>

definition PC2LINE_BASE :: int where "PC2LINE_BASE = - 1"
definition PC2LINE_RANGE :: int where "PC2LINE_RANGE = 5"
definition PC2LINE_OP_FIRST :: int where "PC2LINE_OP_FIRST = 1"
definition PC2LINE_DIFF_PC_MAX :: int where "PC2LINE_DIFF_PC_MAX = (255 - PC2LINE_OP_FIRST) div PC2LINE_RANGE"

lemmas pc2line_consts = PC2LINE_BASE_def PC2LINE_RANGE_def PC2LINE_OP_FIRST_def PC2LINE_DIFF_PC_MAX_def

record line_slot =
  ls_pc :: u32
  ls_line_num :: int

text \<open>The part of \<^verbatim>\<open>JSFunctionDef\<close> that the table rests on; \<open>ld_slots\<close> is the block of \<^verbatim>\<open>line_number_size\<close> slots.\<close>

record 'o line_def =
  ld_strip :: bool
  ld_line_num :: int
  ld_slots :: "line_slot list option"
  ld_size :: nat
  ld_count :: nat
  ld_last :: int
  ld_last_pc :: u32
  ld_pc2line :: "'o DynBuf"

text \<open>The beginning of \<^verbatim>\<open>resolve_labels\<close>; \<open>granted\<close> tells whether \<^verbatim>\<open>js_mallocz\<close> has the memory. \<open>None\<close> is the return value \<open>-1\<close>.\<close>

definition line_slots_init :: "bool \<Rightarrow> 'o line_def \<Rightarrow> 'o line_def option" where
  "line_slots_init granted s =
     (if ld_size s \<noteq> 0 \<and> \<not> ld_strip s
      then if granted
           then Some (s\<lparr>ld_slots := Some (replicate (ld_size s) \<lparr>ls_pc = 0, ls_line_num = 0\<rparr>), ld_last := ld_line_num s, ld_last_pc := 0\<rparr>)
           else None
      else Some s)"

definition add_pc2line_info :: "'o line_def \<Rightarrow> u32 \<Rightarrow> int \<Rightarrow> 'o line_def option" where
  "add_pc2line_info s pc line_num =
     (case ld_slots s of
        None \<Rightarrow> Some s
      | Some slots \<Rightarrow>
          if ld_count s < ld_size s \<and> pc \<ge> ld_last_pc s \<and> line_num \<noteq> ld_last s
          then do {
            slots \<leftarrow> wr slots (ld_count s) \<lparr>ls_pc = pc, ls_line_num = line_num\<rparr>;
            Some (s\<lparr>ld_slots := Some slots, ld_count := ld_count s + 1, ld_last_pc := pc, ld_last := line_num\<rparr>) }
          else Some s)"

fun pc2line_loop :: "line_slot list \<Rightarrow> int \<Rightarrow> u32 \<Rightarrow> 'o DynBuf \<Rightarrow> 'o DynBuf option" where
  "pc2line_loop [] last_line_num last_pc s = Some s"
| "pc2line_loop (slot # slots) last_line_num last_pc s =
     (let pc = ls_pc slot; line_num = ls_line_num slot
      in if line_num < 0 then pc2line_loop slots last_line_num last_pc s
         else do {
           let diff_pc = sint (pc - last_pc);
           diff_line \<leftarrow> c_int (line_num - last_line_num);
           if diff_line = 0 \<or> diff_pc < 0 then pc2line_loop slots last_line_num last_pc s
           else do {
             s \<leftarrow> (if PC2LINE_BASE \<le> diff_line \<and> diff_line < PC2LINE_BASE + PC2LINE_RANGE \<and> diff_pc \<le> PC2LINE_DIFF_PC_MAX
                  then map_option snd (dbuf_putc s (word_of_int (diff_line - PC2LINE_BASE + diff_pc * PC2LINE_RANGE + PC2LINE_OP_FIRST)))
                  else do {
                    (_, s) \<leftarrow> dbuf_putc s 0;
                    s \<leftarrow> dbuf_put_leb128 s (word_of_int diff_pc);
                    dbuf_put_sleb128 s diff_line });
             pc2line_loop slots line_num pc s } })"

text \<open>\<open>opq\<close> and \<open>f\<close> are the runtime and \<^verbatim>\<open>js_realloc_rt\<close>, from which \<^verbatim>\<open>js_dbuf_init\<close> makes the buffer.\<close>

definition compute_pc2line_info :: "'o \<Rightarrow> 'o realloc_fn \<Rightarrow> 'o line_def \<Rightarrow> 'o line_def option" where
  "compute_pc2line_info opq f s =
     (case ld_slots s of
        None \<Rightarrow> Some s
      | Some slots \<Rightarrow>
          if ld_strip s then Some s
          else do {
            used \<leftarrow> slice slots 0 (ld_count s);
            b \<leftarrow> pc2line_loop used (ld_line_num s) 0 (dbuf_init2 opq f);
            Some (s\<lparr>ld_pc2line := b\<rparr>) })"

record line_debug =
  lg_has_debug :: bool
  lg_line_num :: int
  lg_pc2line_buf :: "bytes option"

function find_line_loop :: "u32 \<Rightarrow> int \<Rightarrow> u32 \<Rightarrow> int \<Rightarrow> bytes \<Rightarrow> int option" where
  "find_line_loop pc_value dbg pc line_num [] = Some line_num"
| "find_line_loop pc_value dbg pc line_num (b # p) =
     (if b = 0
      then let (val, ret) = get_leb128 p
           in if ret < 0 then Some dbg
              else let pc = pc + val; p = drop (nat ret) p; (v, ret) = get_sleb128 p
                   in if ret < 0 then Some dbg
                      else do {
                        let p = drop (nat ret) p;
                        new_line_num \<leftarrow> c_int (line_num + v);
                        if pc_value < pc then Some line_num else find_line_loop pc_value dbg pc new_line_num p }
      else let op = ucast b - word_of_int PC2LINE_OP_FIRST;
               pc = pc + op div word_of_int PC2LINE_RANGE;
               new_line_num = sint (word_of_int line_num + op mod word_of_int PC2LINE_RANGE + word_of_int PC2LINE_BASE :: u32)
           in if pc_value < pc then Some line_num else find_line_loop pc_value dbg pc new_line_num p)"
  by pat_completeness auto
termination by (relation "measure (\<lambda>(pc_value, dbg, pc, line_num, p). length p)") auto

definition find_line_num :: "line_debug \<Rightarrow> u32 \<Rightarrow> int option" where
  "find_line_num b pc_value =
     (if \<not> lg_has_debug b then Some (- 1)
      else case lg_pc2line_buf b of
        None \<Rightarrow> Some (- 1)
      | Some buf \<Rightarrow> find_line_loop pc_value (lg_line_num b) 0 (lg_line_num b) buf)"

subsection \<open>Writing to the buffer\<close>

definition dbuf_appends :: "'o DynBuf \<Rightarrow> bytes \<Rightarrow> 'o DynBuf \<Rightarrow> bool" where
  "dbuf_appends s d s' \<longleftrightarrow>
     dbuf_inv s' \<and> (db_error s \<longrightarrow> db_error s') \<and> (\<not> db_error s' \<longrightarrow> dbuf_contents s' = dbuf_contents s @ d) \<and>
     db_size s' \<le> db_size s + length d"

lemma dbuf_putc_appends:
  assumes "dbuf_inv s" and "db_size s + 1 < 2 ^ 64"
  obtains r s' where "dbuf_putc s c = Some (r, s')" and "dbuf_appends s [c] s'"
proof -
  have "dbuf_result s (dbuf_contents s @ [c]) (dbuf_putc s c)" unfolding dbuf_putc_def by (rule dbuf_put_result) (use assms in simp_all)
  then show thesis using that assms(1) unfolding dbuf_result_def dbuf_appends_def by (auto simp: length_dbuf_contents [symmetric])
qed

lemma dbuf_appends_trans: "dbuf_appends s d s' \<Longrightarrow> dbuf_appends s' e s'' \<Longrightarrow> dbuf_appends s (d @ e) s''"
  by (auto simp: dbuf_appends_def)

lemma dbuf_appends_Nil: "dbuf_inv s \<Longrightarrow> dbuf_appends s [] s"
  by (simp add: dbuf_appends_def)

lemma dbuf_appendsD: "dbuf_appends s d s' \<Longrightarrow> dbuf_inv s' \<and> db_size s' \<le> db_size s + length d"
  by (simp add: dbuf_appends_def)

subsection \<open>LEB128 round trip\<close>

function leb128 :: "u32 \<Rightarrow> bytes" where
  "leb128 v = (if drop_bit 7 v \<noteq> 0 then ucast ((v AND 0x7f) OR 0x80) # leb128 (drop_bit 7 v) else [ucast (v AND 0x7f)])"
  by pat_completeness auto
termination by (relation "measure unat") (auto simp: unat_drop_7)

declare leb128.simps [simp del]

lemma length_leb128_bits: "unat v < 2 ^ (7 * Suc n) \<Longrightarrow> length (leb128 v) \<le> Suc n"
proof (induction v arbitrary: n rule: leb128.induct)
  case (1 v)
  show ?case
  proof (cases "drop_bit 7 v \<noteq> 0")
    case True
    then have "unat (drop_bit 7 v) \<noteq> 0" by (simp add: unat_eq_zero)
    then have big: "2 ^ 7 \<le> unat v" unfolding unat_drop_bit_div by (intro leI) (auto simp: div_less)
    then obtain m where m: "n = Suc m" using "1.prems" by (cases n) simp_all
    have "unat v < 2 ^ 7 * 2 ^ (7 * Suc m)" using "1.prems" by (simp add: m power_add)
    then have "unat v < 2 ^ (7 * Suc m) * 2 ^ 7" by (simp only: mult.commute)
    then have "unat (drop_bit 7 v) < 2 ^ (7 * Suc m)" unfolding unat_drop_bit_div by (rule less_mult_imp_div_less)
    then show ?thesis using "1.IH" [OF True] m by (subst leb128.simps) simp
  next
    case False
    then show ?thesis by (subst leb128.simps) simp
  qed
qed

lemma length_leb128: "length (leb128 v) \<le> 5"
  using length_leb128_bits [of v 4] unsigned_less [of v, where ?'a = nat] by simp

lemma dbuf_put_leb128_appends:
  "dbuf_inv s \<Longrightarrow> db_size s + length (leb128 v) < 2 ^ 64 \<Longrightarrow> \<exists>s'. dbuf_put_leb128 s v = Some s' \<and> dbuf_appends s (leb128 v) s'"
proof (induction v arbitrary: s rule: leb128.induct)
  case (1 v)
  show ?case
  proof (cases "drop_bit 7 v \<noteq> 0")
    case True
    let ?c = "ucast ((v AND 0x7f) OR 0x80) :: byte"
    have l: "leb128 v = ?c # leb128 (drop_bit 7 v)" using True by (subst leb128.simps) simp
    obtain r s1 where put: "dbuf_putc s ?c = Some (r, s1)" "dbuf_appends s [?c] s1"
      using dbuf_putc_appends [OF "1.prems"(1), of ?c] "1.prems"(2) l by auto
    obtain s' where "dbuf_put_leb128 s1 (drop_bit 7 v) = Some s'" "dbuf_appends s1 (leb128 (drop_bit 7 v)) s'"
      using "1.IH" [OF True, of s1] dbuf_appendsD [OF put(2)] "1.prems"(2) l by auto
    moreover have "dbuf_put_leb128 s v = dbuf_put_leb128 s1 (drop_bit 7 v)" using True put(1) by (subst dbuf_put_leb128.simps) (simp add: Let_def)
    ultimately show ?thesis using dbuf_appends_trans [OF put(2)] l by fastforce
  next
    case False
    then have l: "leb128 v = [ucast (v AND 0x7f)]" by (subst leb128.simps) simp
    obtain r s1 where "dbuf_putc s (ucast (v AND 0x7f)) = Some (r, s1)" "dbuf_appends s [ucast (v AND 0x7f)] s1"
      using dbuf_putc_appends [OF "1.prems"(1)] "1.prems"(2) l by auto
    then show ?thesis using False l by (subst dbuf_put_leb128.simps) (simp add: Let_def)
  qed
qed

lemma leb_digit:
  fixes v :: u32
  shows "(ucast (ucast ((v AND 0x7f) OR 0x80) :: byte) :: u32) = (v AND 0x7f) OR 0x80"
    and "(ucast (ucast (v AND 0x7f) :: byte) :: u32) = v AND 0x7f"
    and "((v AND 0x7f) OR 0x80) AND 0x7f = v AND 0x7f" and "((v AND 0x7f) OR 0x80) AND 0x80 = 0x80" and "(v AND 0x7f) AND 0x80 = 0"
proof -
  have c: "(0x7f :: u32) = mask 7" by (simp add: mask_eq_exp_minus_1)
  define m where "m = (0x80 :: u32)"
  have b: "bit m n \<longleftrightarrow> n = 7" for n using bit_exp_iff [of 7 n, where 'a = "32 word"] by (auto simp: m_def)
  note c = c m_def [symmetric]
  show "(ucast (ucast ((v AND 0x7f) OR 0x80) :: byte) :: u32) = (v AND 0x7f) OR 0x80" unfolding c
    by (rule bit_word_eqI) (auto simp: bit_simps b)
  show "(ucast (ucast (v AND 0x7f) :: byte) :: u32) = v AND 0x7f" unfolding c by (rule bit_word_eqI) (auto simp: bit_simps)
  show "((v AND 0x7f) OR 0x80) AND 0x7f = v AND 0x7f" unfolding c by (rule bit_word_eqI) (auto simp: bit_simps b)
  show "((v AND 0x7f) OR 0x80) AND 0x80 = 0x80" unfolding c by (rule bit_word_eqI) (auto simp: bit_simps b)
  show "(v AND 0x7f) AND 0x80 = 0" unfolding c by (rule bit_word_eqI) (auto simp: bit_simps b)
qed

lemma leb_join:
  fixes v w :: u32
  shows "(v OR push_bit k (w AND 0x7f)) OR push_bit (k + 7) (drop_bit 7 w) = v OR push_bit k w"
proof -
  have c: "(0x7f :: u32) = mask 7" by (simp add: mask_eq_exp_minus_1)
  show ?thesis unfolding c
  proof (rule bit_word_eqI)
    fix n assume "n < LENGTH(32)"
    then show "bit ((v OR push_bit k (w AND mask 7)) OR push_bit (k + 7) (drop_bit 7 w)) n = bit (v OR push_bit k w) n"
      by (cases "n < k + 7") (auto simp: bit_simps)
  qed
qed

lemma get_leb128_loop_val:
  "unat w < 2 ^ (7 * (5 - i)) \<Longrightarrow> i < 5 \<Longrightarrow>
     get_leb128_loop i v (leb128 w @ p) = (v OR push_bit (i * 7) w, int (i + length (leb128 w)))"
proof (induction w arbitrary: i v rule: leb128.induct)
  case (1 w)
  show ?case
  proof (cases "drop_bit 7 w \<noteq> 0")
    case True
    have l: "leb128 w = ucast ((w AND 0x7f) OR 0x80) # leb128 (drop_bit 7 w)" using True by (subst leb128.simps) simp
    have "unat (drop_bit 7 w) \<noteq> 0" using True by (simp add: unat_eq_zero)
    then have big: "2 ^ 7 \<le> unat w" unfolding unat_drop_bit_div by (intro leI) (auto simp: div_less)
    have i: "i + 1 < 5"
    proof (rule ccontr)
      assume "\<not> i + 1 < 5"
      then have "i = 4" using "1.prems"(2) by simp
      then show False using big "1.prems"(1) by simp
    qed
    have e: "7 * (5 - i) = 7 * (5 - (i + 1)) + 7" using i by simp
    have "unat w < 2 ^ (7 * (5 - (i + 1))) * 2 ^ 7" using "1.prems"(1) unfolding e power_add .
    then have "unat (drop_bit 7 w) < 2 ^ (7 * (5 - (i + 1)))" unfolding unat_drop_bit_div by (rule less_mult_imp_div_less)
    note IH = "1.IH" [OF True this i, of "v OR push_bit (i * 7) (w AND 0x7f)"]
    have "get_leb128_loop i v (leb128 w @ p) = get_leb128_loop (i + 1) (v OR push_bit (i * 7) (w AND 0x7f)) (leb128 (drop_bit 7 w) @ p)"
      using "1.prems"(2) by (simp only: l append_Cons get_leb128_loop.simps Let_def leb_digit if_True) simp
    also have "\<dots> = (v OR push_bit (i * 7) w, int (i + length (leb128 w)))"
    proof -
      have "(i + 1) * 7 = i * 7 + 7" by simp
      then show ?thesis unfolding IH by (simp only: leb_join prod.inject) (simp add: l)
    qed
    finally show ?thesis .
  next
    case False
    then have l: "leb128 w = [ucast (w AND 0x7f)]" by (subst leb128.simps) simp
    have "w AND 0x7f = w" using leb_join [of 0 0 w] False by simp
    then show ?thesis using "1.prems"(2) leb_digit(5) [of w] leb_digit(2) [of w]
      by (simp only: l append_Cons append_Nil get_leb128_loop.simps Let_def if_True) simp
  qed
qed

lemma get_leb128_val: "get_leb128 (leb128 w @ p) = (w, int (length (leb128 w)))"
proof -
  have "unat w < 2 ^ (7 * (5 - 0))" using unsigned_less [of w, where ?'a = nat] by simp
  from get_leb128_loop_val [OF this] show ?thesis by (simp add: get_leb128_def)
qed

lemma zigzag: "drop_bit 1 ((2 * v) XOR - drop_bit 31 v) XOR - (((2 * v) XOR - drop_bit 31 v) AND 1) = (v :: u32)"
proof (rule bit_word_eqI)
  fix n assume n: "n < LENGTH(32)"
  have msb: "drop_bit 31 v = (if bit v 31 then 1 else 0)" by (rule bit_word_eqI) (use bit_imp_le_length [of v] in \<open>force simp: bit_simps bit_1_iff\<close>)
  show "bit (drop_bit 1 ((2 * v) XOR - drop_bit 31 v) XOR - (((2 * v) XOR - drop_bit 31 v) AND 1)) n = bit v n"
  proof (cases "bit v 31")
    case True
    have "NOT (2 * v) AND 1 = 1" by (rule bit_word_eqI) (auto simp: bit_simps bit_1_iff)
    then show ?thesis using True n msb by (cases "n = 31") (auto simp: bit_simps)
  next
    case False
    have "2 * v AND 1 = 0" by (rule bit_word_eqI) (auto simp: bit_simps bit_1_iff)
    then show ?thesis using False n msb by (cases "n = 31") (auto simp: bit_simps)
  qed
qed

definition sleb128 :: "int \<Rightarrow> bytes" where
  "sleb128 n = leb128 ((2 * word_of_int n) XOR - drop_bit 31 (word_of_int n))"

lemma sint_small:
  assumes "- (2 ^ 31) \<le> n" and "n < 2 ^ 31"
  shows "sint (word_of_int n :: u32) = n"
proof -
  have "signed_take_bit 31 n = n" using assms by (intro signed_take_bit_int_eq_self) simp_all
  then show ?thesis by (simp add: signed_of_int)
qed

lemma get_sleb128_val: "- (2 ^ 31) \<le> n \<Longrightarrow> n < 2 ^ 31 \<Longrightarrow> get_sleb128 (sleb128 n @ p) = (n, int (length (sleb128 n)))"
  unfolding get_sleb128_def sleb128_def get_leb128_val by (simp only: Let_def prod.case zigzag) (simp add: sint_small)

subsection \<open>The bytes of the table\<close>

definition slot_bytes :: "int \<Rightarrow> int \<Rightarrow> bytes" where
  "slot_bytes diff_pc diff_line =
     (if - 1 \<le> diff_line \<and> diff_line < 4 \<and> diff_pc \<le> 50 then [word_of_int (diff_line + diff_pc * 5 + 2)]
      else 0 # leb128 (word_of_int diff_pc) @ sleb128 diff_line)"

fun slots_bytes :: "line_slot list \<Rightarrow> int \<Rightarrow> u32 \<Rightarrow> bytes" where
  "slots_bytes [] last_line_num last_pc = []"
| "slots_bytes (slot # slots) last_line_num last_pc =
     (let diff_pc = sint (ls_pc slot - last_pc); diff_line = ls_line_num slot - last_line_num
      in if diff_line = 0 \<or> diff_pc < 0 then slots_bytes slots last_line_num last_pc
         else slot_bytes diff_pc diff_line @ slots_bytes slots (ls_line_num slot) (ls_pc slot))"

definition line_range :: "int \<Rightarrow> bool" where
  "line_range n \<longleftrightarrow> 0 \<le> n \<and> n < 2 ^ 31"

lemma length_slot_bytes: "length (slot_bytes p l) \<le> 11"
  using length_leb128 [of "word_of_int p"] length_leb128 [of "(2 * word_of_int l) XOR - drop_bit 31 (word_of_int l)"]
  by (simp add: slot_bytes_def sleb128_def)

lemma length_slots_bytes: "length (slots_bytes slots l p) \<le> 11 * length slots"
proof (induction slots arbitrary: l p)
  case (Cons slot slots)
  have "length (slot_bytes (sint (ls_pc slot - p)) (ls_line_num slot - l)) \<le> 11" by (rule length_slot_bytes)
  moreover have "length (slots_bytes slots l p) \<le> 11 * length slots" "length (slots_bytes slots (ls_line_num slot) (ls_pc slot)) \<le> 11 * length slots" by (rule Cons)+
  ultimately show ?case by (auto simp: Let_def)
qed simp

lemma slot_written:
  assumes "dbuf_inv s" and "db_size s + 11 < 2 ^ 64"
  shows "\<exists>s'. (if PC2LINE_BASE \<le> dl \<and> dl < PC2LINE_BASE + PC2LINE_RANGE \<and> dp \<le> PC2LINE_DIFF_PC_MAX
      then map_option snd (dbuf_putc s (word_of_int (dl - PC2LINE_BASE + dp * PC2LINE_RANGE + PC2LINE_OP_FIRST)))
      else do { (_, s) \<leftarrow> dbuf_putc s 0; s \<leftarrow> dbuf_put_leb128 s (word_of_int dp); dbuf_put_sleb128 s dl }) = Some s' \<and>
    dbuf_appends s (slot_bytes dp dl) s'"
proof (cases "- 1 \<le> dl \<and> dl < 4 \<and> dp \<le> 50")
  case True
  let ?c = "word_of_int (dl - PC2LINE_BASE + dp * PC2LINE_RANGE + PC2LINE_OP_FIRST) :: byte"
  obtain r s' where "dbuf_putc s ?c = Some (r, s')" "dbuf_appends s [?c] s'"
    using dbuf_putc_appends [OF assms(1), of ?c] assms(2) by auto
  moreover have "slot_bytes dp dl = [?c]" using True by (simp add: slot_bytes_def pc2line_consts)
  moreover have "PC2LINE_BASE \<le> dl \<and> dl < PC2LINE_BASE + PC2LINE_RANGE \<and> dp \<le> PC2LINE_DIFF_PC_MAX" using True by (simp add: pc2line_consts)
  ultimately show ?thesis by simp
next
  case False
  obtain r s1 where s1: "dbuf_putc s 0 = Some (r, s1)" "dbuf_appends s [0] s1"
    using dbuf_putc_appends [OF assms(1), of 0] assms(2) by auto
  have n1: "dbuf_inv s1" "db_size s1 \<le> db_size s + 1" using dbuf_appendsD [OF s1(2)] by simp_all
  obtain s2 where s2: "dbuf_put_leb128 s1 (word_of_int dp) = Some s2" "dbuf_appends s1 (leb128 (word_of_int dp)) s2"
    using dbuf_put_leb128_appends [OF n1(1), of "word_of_int dp"] n1(2) length_leb128 [of "word_of_int dp"] assms(2) by auto
  have n2: "dbuf_inv s2" "db_size s2 \<le> db_size s + 6" using dbuf_appendsD [OF s2(2)] n1(2) length_leb128 [of "word_of_int dp"] by simp_all
  let ?v = "(2 * word_of_int dl) XOR - drop_bit 31 (word_of_int dl) :: u32"
  obtain s3 where s3: "dbuf_put_leb128 s2 ?v = Some s3" "dbuf_appends s2 (leb128 ?v) s3"
    using dbuf_put_leb128_appends [OF n2(1), of ?v] n2(2) length_leb128 [of ?v] assms(2) by auto
  have "dbuf_appends s (slot_bytes dp dl) s3"
    using dbuf_appends_trans [OF dbuf_appends_trans [OF s1(2) s2(2)] s3(2)] False by (auto simp: slot_bytes_def sleb128_def)
  then show ?thesis using False s1(1) s2(1) s3(1) by (auto simp: pc2line_consts dbuf_put_sleb128_def Let_def)
qed

lemma pc2line_loop_appends:
  "dbuf_inv s \<Longrightarrow> db_size s + 11 * length slots < 2 ^ 64 \<Longrightarrow> \<forall>slot\<in>set slots. line_range (ls_line_num slot) \<Longrightarrow> line_range l \<Longrightarrow>
     \<exists>s'. pc2line_loop slots l p s = Some s' \<and> dbuf_appends s (slots_bytes slots l p) s'"
proof (induction slots arbitrary: l p s)
  case (Cons slot slots)
  let ?dp = "sint (ls_pc slot - p)" and ?dl = "ls_line_num slot - l"
  have lines: "\<not> ls_line_num slot < 0" "c_int ?dl = Some ?dl" using Cons.prems(3,4) by (auto simp: line_range_def)
  show ?case
  proof (cases "?dl = 0 \<or> ?dp < 0")
    case True
    then show ?thesis using Cons.IH [OF Cons.prems(1), of l p] Cons.prems(2-4) lines by auto
  next
    case False
    obtain s1 where s1: "(if PC2LINE_BASE \<le> ?dl \<and> ?dl < PC2LINE_BASE + PC2LINE_RANGE \<and> ?dp \<le> PC2LINE_DIFF_PC_MAX
        then map_option snd (dbuf_putc s (word_of_int (?dl - PC2LINE_BASE + ?dp * PC2LINE_RANGE + PC2LINE_OP_FIRST)))
        else do { (_, s) \<leftarrow> dbuf_putc s 0; s \<leftarrow> dbuf_put_leb128 s (word_of_int ?dp); dbuf_put_sleb128 s ?dl }) = Some s1"
        "dbuf_appends s (slot_bytes ?dp ?dl) s1"
      using slot_written [OF Cons.prems(1), of ?dl ?dp] Cons.prems(2) by auto
    have n1: "dbuf_inv s1" "db_size s1 + 11 * length slots < 2 ^ 64"
      using dbuf_appendsD [OF s1(2)] length_slot_bytes [of ?dp ?dl] Cons.prems(2) by simp_all
    obtain s' where s': "pc2line_loop slots (ls_line_num slot) (ls_pc slot) s1 = Some s'"
        "dbuf_appends s1 (slots_bytes slots (ls_line_num slot) (ls_pc slot)) s'"
      using Cons.IH [OF n1, of "ls_line_num slot" "ls_pc slot"] Cons.prems(3) by auto
    have "pc2line_loop (slot # slots) l p s = Some s'" using False lines s1(1) s'(1) by (simp only: pc2line_loop.simps Let_def) simp
    then show ?thesis using dbuf_appends_trans [OF s1(2) s'(2)] False by auto
  qed
qed (simp add: dbuf_appends_Nil)

subsection \<open>Looking up\<close>

text \<open>The line in force at a position: that of the last slot at or before it.\<close>

fun line_at :: "int \<Rightarrow> line_slot list \<Rightarrow> u32 \<Rightarrow> int" where
  "line_at l [] pc = l"
| "line_at l (slot # slots) pc = line_at (if ls_pc slot \<le> pc then ls_line_num slot else l) slots pc"

lemma line_at_before: "\<forall>slot\<in>set slots. pc < ls_pc slot \<Longrightarrow> line_at l slots pc = l"
  by (induction slots) auto

lemma short_op:
  assumes "- 1 \<le> dl" and "dl < 4" and "0 \<le> dp" and "dp \<le> 50"
  defines "b \<equiv> word_of_int (dl + dp * 5 + 2) :: byte"
  defines "op' \<equiv> ucast b - word_of_int PC2LINE_OP_FIRST :: u32"
  shows "b \<noteq> 0" and "op' div word_of_int PC2LINE_RANGE = word_of_int dp"
    and "op' mod word_of_int PC2LINE_RANGE + word_of_int PC2LINE_BASE = word_of_int dl"
proof -
  let ?n = "dl + dp * 5 + 1"
  have n: "0 \<le> ?n" "?n < 255" using assms by simp_all
  have small: "uint (word_of_int m :: byte) = m" "uint (word_of_int m :: u32) = m" if "0 \<le> m" "m < 256" for m
    using that by (simp_all add: uint_word_of_int)
  have "uint b = ?n + 1" unfolding b_def using small(1) [of "dl + dp * 5 + 2"] n by linarith
  then show "b \<noteq> 0" using n by auto
  have "uint (ucast b :: u32) = ?n + 1" using \<open>uint b = ?n + 1\<close> by (simp add: uint_up_ucast is_up)
  then have op: "op' = word_of_int ?n" by (metis op'_def PC2LINE_OP_FIRST_def add_diff_cancel_right' of_int_1 wi_hom_sub word_of_int_uint)
  then have u: "uint op' = ?n" unfolding op using n small(2) [of ?n] by linarith
  have "uint (op' div 5) = dp" using u assms(1-4) by (simp add: uint_div)
  then show "op' div word_of_int PC2LINE_RANGE = word_of_int dp" by (metis PC2LINE_RANGE_def of_int_numeral word_of_int_uint)
  have "uint (op' mod 5) = dl + 1" using u assms(1-4) by (simp add: uint_mod) presburger
  then have "op' mod 5 = word_of_int (dl + 1)" by (metis word_of_int_uint)
  then show "op' mod word_of_int PC2LINE_RANGE + word_of_int PC2LINE_BASE = word_of_int dl" by (simp add: PC2LINE_RANGE_def PC2LINE_BASE_def)
qed

lemma find_line_step:
  assumes "0 \<le> dp" and "line_range l" and "line_range (l + dl)"
  shows "find_line_loop pv dbg pc l (slot_bytes dp dl @ p) =
    (if pv < pc + word_of_int dp then Some l else find_line_loop pv dbg (pc + word_of_int dp) (l + dl) p)"
proof (cases "- 1 \<le> dl \<and> dl < 4 \<and> dp \<le> 50")
  case True
  have "sint (word_of_int l + word_of_int dl :: u32) = l + dl" using sint_small [of "l + dl"] assms(3) by (simp add: line_range_def)
  then show ?thesis using True assms(1) short_op [of dl dp]
    by (simp add: slot_bytes_def Let_def add.assoc del: of_int_add)
next
  case False
  have dl: "- (2 ^ 31) \<le> dl" "dl < 2 ^ 31" "c_int (l + dl) = Some (l + dl)" using assms(2,3) by (auto simp: line_range_def)
  have leb: "get_leb128 (leb128 (word_of_int dp) @ sleb128 dl @ p) = (word_of_int dp, int (length (leb128 (word_of_int dp))))" by (rule get_leb128_val)
  have sleb: "get_sleb128 (sleb128 dl @ p) = (dl, int (length (sleb128 dl)))" by (rule get_sleb128_val [OF dl(1,2)])
  have "slot_bytes dp dl @ p = 0 # leb128 (word_of_int dp) @ sleb128 dl @ p" using False by (auto simp: slot_bytes_def)
  then show ?thesis using leb sleb dl(3) by (simp only: find_line_loop.simps Let_def) simp
qed

definition slot_ok :: "line_slot \<Rightarrow> bool" where
  "slot_ok slot \<longleftrightarrow> line_range (ls_line_num slot) \<and> ls_pc slot < 2 ^ 31"

lemma pc_difference:
  assumes "p \<le> q" and "q < (2 ^ 31 :: u32)"
  shows "0 \<le> sint (q - p)" and "p + word_of_int (sint (q - p)) = q"
proof -
  have "uint (q - p) = uint q - uint p" using assms(1) by (simp add: uint_sub_if' word_le_def)
  moreover have "uint q < 2 ^ 31" using assms(2) by (simp add: word_less_def)
  ultimately have "uint (q - p) < 2 ^ 31" using uint_ge_0 [of p] by linarith
  then have "sint (q - p) = uint (q - p)" by (intro sint_eq_uint) simp
  then show "0 \<le> sint (q - p)" "p + word_of_int (sint (q - p)) = q" by simp_all
qed

lemma find_slots:
  "line_range l \<Longrightarrow> \<forall>slot\<in>set slots. slot_ok slot \<Longrightarrow> sorted (map ls_pc slots) \<Longrightarrow> \<forall>slot\<in>set slots. p \<le> ls_pc slot \<Longrightarrow>
     find_line_loop pv dbg p l (slots_bytes slots l p) = Some (line_at l slots pv)"
proof (induction slots arbitrary: l p)
  case (Cons slot slots)
  let ?q = "ls_pc slot" and ?l = "ls_line_num slot"
  have q: "p \<le> ?q" "?q < 2 ^ 31" "line_range ?l" using Cons.prems(2,4) by (simp_all add: slot_ok_def)
  have rest: "\<forall>slot\<in>set slots. slot_ok slot" "sorted (map ls_pc slots)" "\<forall>slot\<in>set slots. ?q \<le> ls_pc slot" using Cons.prems by auto
  show ?case
  proof (cases "?l = l")
    case True
    then show ?thesis using Cons.IH [OF Cons.prems(1) rest(1,2)] Cons.prems(4) by simp
  next
    case False
    have "l + (?l - l) = ?l" by simp
    then have step: "find_line_loop pv dbg p l (slots_bytes (slot # slots) l p) =
        (if pv < ?q then Some l else find_line_loop pv dbg ?q ?l (slots_bytes slots ?l ?q))"
      using find_line_step [OF pc_difference(1) [OF q(1,2)] Cons.prems(1), of "?l - l"] q(3) False pc_difference [OF q(1,2)]
      by (simp add: Let_def)
    show ?thesis
    proof (cases "pv < ?q")
      case True
      then have "line_at l slots pv = l" using rest(3) by (intro line_at_before) auto
      then show ?thesis using step True by (auto dest: leD)
    next
      case False
      then show ?thesis using step Cons.IH [OF q(3) rest] by (auto simp: not_less)
    qed
  qed
qed simp

subsection \<open>Recording\<close>

fun record_lines :: "'o line_def \<Rightarrow> line_slot list \<Rightarrow> 'o line_def option" where
  "record_lines s [] = Some s"
| "record_lines s (call # calls) = do { s \<leftarrow> add_pc2line_info s (ls_pc call) (ls_line_num call); record_lines s calls }"

fun changes :: "int \<Rightarrow> line_slot list \<Rightarrow> line_slot list" where
  "changes l [] = []"
| "changes l (slot # slots) = (if ls_line_num slot = l then changes l slots else slot # changes (ls_line_num slot) slots)"

lemma set_changes: "set (changes l slots) \<subseteq> set slots"
  by (induction slots arbitrary: l) auto

lemma length_changes: "length (changes l slots) \<le> length slots"
  by (induction slots arbitrary: l) (auto intro: le_SucI)

lemma sorted_changes: "sorted (map ls_pc slots) \<Longrightarrow> sorted (map ls_pc (changes l slots))"
  by (induction slots arbitrary: l) (use set_changes in fastforce)+

lemma line_at_changes: "sorted (map ls_pc slots) \<Longrightarrow> line_at l (changes l slots) pv = line_at l slots pv"
proof (induction slots arbitrary: l)
  case (Cons slot slots)
  show ?case
  proof (cases "ls_pc slot \<le> pv")
    case False
    have "line_at l (changes l' slots) pv = l" for l' using Cons.prems False set_changes [of l' slots]
      by (intro line_at_before ballI) (fastforce simp: not_le)
    moreover have "line_at l slots pv = l" using Cons.prems False by (intro line_at_before) auto
    ultimately show ?thesis using False by simp
  qed (use Cons in auto)
qed simp

lemma record_lines_val:
  assumes "ld_slots s = Some (used @ free)" and "length used = ld_count s" and "length (used @ free) = ld_size s" and "length calls \<le> length free"
    and "sorted (map ls_pc calls)" and "\<forall>call\<in>set calls. ld_last_pc s \<le> ls_pc call"
  shows "\<exists>s' free'. record_lines s calls = Some s' \<and> ld_slots s' = Some (used @ changes (ld_last s) calls @ free') \<and>
    ld_count s' = ld_count s + length (changes (ld_last s) calls) \<and> ld_strip s' = ld_strip s \<and> ld_line_num s' = ld_line_num s"
  using assms
proof (induction calls arbitrary: s used free)
  case (Cons call calls)
  show ?case
  proof (cases "ls_line_num call = ld_last s")
    case True
    then have "add_pc2line_info s (ls_pc call) (ls_line_num call) = Some s" using Cons.prems(1) by (simp add: add_pc2line_info_def)
    then show ?thesis using Cons.IH [OF Cons.prems(1-3)] Cons.prems(4-6) True by simp
  next
    case False
    obtain x free' where free: "free = x # free'" using Cons.prems(4) by (cases free) simp_all
    define s1 where "s1 = s\<lparr>ld_slots := Some (used @ call # free'), ld_count := ld_count s + 1, ld_last_pc := ls_pc call, ld_last := ls_line_num call\<rparr>"
    have "\<lparr>ls_pc = ls_pc call, ls_line_num = ls_line_num call\<rparr> = call" by simp
    then have add: "add_pc2line_info s (ls_pc call) (ls_line_num call) = Some s1"
      using Cons.prems(1-3,6) False free by (simp add: add_pc2line_info_def wr_def s1_def list_update_append)
    have "\<exists>s' free''. record_lines s1 calls = Some s' \<and> ld_slots s' = Some ((used @ [call]) @ changes (ld_last s1) calls @ free'') \<and>
        ld_count s' = ld_count s1 + length (changes (ld_last s1) calls) \<and> ld_strip s' = ld_strip s1 \<and> ld_line_num s' = ld_line_num s1"
      by (rule Cons.IH) (use Cons.prems free in \<open>auto simp: s1_def\<close>)
    then show ?thesis using add False by (auto simp: s1_def)
  qed
qed auto

text \<open>C15. The table of line numbers. Instructions are recorded in the order of their positions, each with its line, and the records are packed; if no
  allocation failed, looking up any position gives the line of the last instruction recorded at or before it, or the function's line.\<close>

theorem pc2line_correct:
  assumes "realloc_ok f" and "\<not> ld_strip fd" and "line_range (ld_line_num fd)" and "ld_count fd = 0"
    and "length calls \<le> ld_size fd" and "0 < ld_size fd" and "ld_size fd < 2 ^ 31"
    and "sorted (map ls_pc calls)" and "\<forall>call\<in>set calls. slot_ok call"
  shows "\<exists>fd1 fd2 fd3. line_slots_init True fd = Some fd1 \<and> record_lines fd1 calls = Some fd2 \<and> compute_pc2line_info opq f fd2 = Some fd3 \<and>
    dbuf_inv (ld_pc2line fd3) \<and>
    (\<not> db_error (ld_pc2line fd3) \<longrightarrow>
      (\<forall>pc. find_line_num \<lparr>lg_has_debug = True, lg_line_num = ld_line_num fd, lg_pc2line_buf = Some (dbuf_contents (ld_pc2line fd3))\<rparr> pc =
        Some (line_at (ld_line_num fd) calls pc)))"
proof -
  let ?l = "ld_line_num fd"
  let ?cs = "changes ?l calls" and ?s = "dbuf_init2 opq f"
  define fd1 where "fd1 = fd\<lparr>ld_slots := Some (replicate (ld_size fd) \<lparr>ls_pc = 0, ls_line_num = 0\<rparr>), ld_last := ?l, ld_last_pc := 0\<rparr>"
  have init: "line_slots_init True fd = Some fd1" using assms(2,6) by (simp add: line_slots_init_def fd1_def)
  have "\<exists>fd2 free. record_lines fd1 calls = Some fd2 \<and> ld_slots fd2 = Some ([] @ changes (ld_last fd1) calls @ free) \<and>
      ld_count fd2 = ld_count fd1 + length (changes (ld_last fd1) calls) \<and> ld_strip fd2 = ld_strip fd1 \<and> ld_line_num fd2 = ld_line_num fd1"
    by (rule record_lines_val [where free = "replicate (ld_size fd) \<lparr>ls_pc = 0, ls_line_num = 0\<rparr>"]) (use assms in \<open>simp_all add: fd1_def\<close>)
  then obtain fd2 free where fd2: "record_lines fd1 calls = Some fd2" "ld_slots fd2 = Some (?cs @ free)" "ld_count fd2 = length ?cs"
      "\<not> ld_strip fd2" "ld_line_num fd2 = ?l"
    using assms(2,4) by (auto simp: fd1_def)
  have cs: "\<forall>slot\<in>set ?cs. slot_ok slot" "sorted (map ls_pc ?cs)" using set_changes [of ?l calls] sorted_changes assms(8,9) by auto
  have b: "dbuf_inv ?s" "db_size ?s + 11 * length ?cs < 2 ^ 64"
    using dbuf_inv_init2 [OF assms(1)] length_changes [of ?l calls] assms(5,7) by (simp_all add: dbuf_init2_def)
  obtain s where s: "pc2line_loop ?cs ?l 0 ?s = Some s" "dbuf_appends ?s (slots_bytes ?cs ?l 0) s"
    using pc2line_loop_appends [OF b, of ?l 0] cs(1) assms(3) by (auto simp: slot_ok_def)
  have "compute_pc2line_info opq f fd2 = Some (fd2\<lparr>ld_pc2line := s\<rparr>)"
    using fd2 s(1) by (simp add: compute_pc2line_info_def slice_def)
  moreover have "find_line_num \<lparr>lg_has_debug = True, lg_line_num = ?l, lg_pc2line_buf = Some (dbuf_contents s)\<rparr> pc = Some (line_at ?l calls pc)"
    if "\<not> db_error s" for pc
  proof -
    have "dbuf_contents s = slots_bytes ?cs ?l 0" using s(2) that by (simp add: dbuf_appends_def)
    then show ?thesis using find_slots [OF assms(3) cs, of 0 pc ?l] line_at_changes [OF assms(8)] by (simp add: find_line_num_def)
  qed
  moreover have "dbuf_inv s" using s(2) by (simp add: dbuf_appends_def)
  ultimately show ?thesis using init fd2(1) by (intro exI [of _ fd1] exI [of _ fd2] exI [of _ "fd2\<lparr>ld_pc2line := s\<rparr>"]) simp
qed

theorem pc2line_correct_witness:
  "\<exists>fd1 fd2 fd3. line_slots_init True \<lparr>ld_strip = False, ld_line_num = 7, ld_slots = None, ld_size = 3, ld_count = 0, ld_last = 0, ld_last_pc = 0,
       ld_pc2line = dbuf_init2 0 (limit_realloc 64)\<rparr> = Some fd1 \<and>
    record_lines fd1 [\<lparr>ls_pc = 0, ls_line_num = 8\<rparr>, \<lparr>ls_pc = 9, ls_line_num = 5000\<rparr>, \<lparr>ls_pc = 400, ls_line_num = 3\<rparr>] = Some fd2 \<and>
    compute_pc2line_info 0 (limit_realloc 64) fd2 = Some fd3 \<and> dbuf_inv (ld_pc2line fd3) \<and>
    (\<not> db_error (ld_pc2line fd3) \<longrightarrow>
      (\<forall>pc. find_line_num \<lparr>lg_has_debug = True, lg_line_num = 7, lg_pc2line_buf = Some (dbuf_contents (ld_pc2line fd3))\<rparr> pc =
        Some (line_at 7 [\<lparr>ls_pc = 0, ls_line_num = 8\<rparr>, \<lparr>ls_pc = 9, ls_line_num = 5000\<rparr>, \<lparr>ls_pc = 400, ls_line_num = 3\<rparr>] pc)))"
proof -
  let ?fd = "\<lparr>ld_strip = False, ld_line_num = 7, ld_slots = None, ld_size = 3, ld_count = 0, ld_last = 0, ld_last_pc = 0,
    ld_pc2line = dbuf_init2 (0 :: nat) (limit_realloc 64)\<rparr>"
  let ?calls = "[\<lparr>ls_pc = 0, ls_line_num = 8\<rparr>, \<lparr>ls_pc = 9, ls_line_num = 5000\<rparr>, \<lparr>ls_pc = 400, ls_line_num = 3\<rparr>]"
  have l: "ld_line_num ?fd = 7" by simp
  have "\<not> ld_strip ?fd" "line_range (ld_line_num ?fd)" "ld_count ?fd = 0" "length ?calls \<le> ld_size ?fd" "0 < ld_size ?fd" "ld_size ?fd < 2 ^ 31"
    "sorted (map ls_pc ?calls)" "\<forall>call\<in>set ?calls. slot_ok call"
    by (simp_all add: line_range_def slot_ok_def)
  from pc2line_correct [OF limit_realloc_ok this] show ?thesis unfolding l by blast
qed

end
