(* ===== verification/JsString.thy ===== *)
theory JsString
  imports JsLineTable Utf8
begin

section \<open>Strings and string buffers of the engine (\<^verbatim>\<open>js/quickjs.c\<close>)\<close>

text \<open>
  A string has 8-bit or 16-bit characters, a \<^verbatim>\<open>StringBuffer\<close> builds one: it grows like a dynamic buffer, is widened in place when the first
  character above 255 comes, and has an error flag that stays. The block of a string is modelled without its header, as the bytes of
  \<^verbatim>\<open>u.str8\<close> and \<^verbatim>\<open>u.str16\<close>, as many as \<^verbatim>\<open>malloc_usable_size\<close> reports. The allocator is a parameter. \<open>None\<close> is undefined behaviour: an access outside
  the block or an \<^verbatim>\<open>int\<close> that overflows.
\<close>

definition JS_STRING_LEN_MAX :: nat where "JS_STRING_LEN_MAX = 2 ^ 30 - 1"

record js_string =
  jstr_wide :: bool
  jstr_len :: nat
  jstr_data :: bytes

definition string_get :: "js_string \<Rightarrow> nat \<Rightarrow> u32 option" where
  "string_get p idx = (if jstr_wide p then get_u16 (jstr_data p) (2 * idx) else map_option ucast (rd (jstr_data p) idx))"

definition string_getc :: "js_string \<Rightarrow> nat \<Rightarrow> (u32 \<times> nat) option" where
  "string_getc p idx = do {
     c \<leftarrow> string_get p idx;
     let idx = idx + 1;
     if jstr_wide p \<and> is_hi_surrogate c \<and> idx < jstr_len p
     then do {
       c1 \<leftarrow> string_get p idx;
       if is_lo_surrogate c1 then Some (from_surrogate c c1, idx + 1) else Some (c, idx) }
     else Some (c, idx) }"

subsection \<open>The buffer\<close>

record 'o js_heap =
  jh_malloc :: "'o \<Rightarrow> nat \<Rightarrow> 'o \<times> bytes option"
  jh_realloc :: "'o realloc_fn"
  jh_free :: "'o \<Rightarrow> bytes \<Rightarrow> 'o"

text \<open>What the C standard says of the allocator; a block is larger than requested by less than \<open>2^29\<close> bytes.\<close>

definition js_heap_ok :: "'o js_heap \<Rightarrow> bool" where
  "js_heap_ok H \<longleftrightarrow>
     (\<forall>ctx n ctx' b. jh_malloc H ctx n = (ctx', Some b) \<longrightarrow> n \<le> length b \<and> length b < n + 2 ^ 29) \<and>
     (\<forall>ctx b n ctx' b'. jh_realloc H ctx b n = (ctx', Some b') \<longrightarrow>
        n \<le> length b' \<and> length b' < n + 2 ^ 29 \<and> take (min n (length b)) b' = take (min n (length b)) b)"

record 'o StringBuffer =
  sb_heap :: "'o js_heap"
  sb_ctx :: 'o
  sb_str :: "bytes option"
  sb_len :: nat
  sb_size :: nat
  sb_wide :: bool
  sb_error :: bool

text \<open>The value of an \<^verbatim>\<open>int\<close> expression that is not negative.\<close>

definition c_nat :: "nat \<Rightarrow> nat option" where
  "c_nat n = (if n < 2 ^ 31 then Some n else None)"

definition str_bytes :: "bool \<Rightarrow> nat \<Rightarrow> nat" where
  "str_bytes wide n = (if wide then 2 * n else n + 1)"

definition string_buffer_init2 :: "'o js_heap \<Rightarrow> 'o \<Rightarrow> nat \<Rightarrow> bool \<Rightarrow> (int \<times> 'o StringBuffer) option" where
  "string_buffer_init2 H ctx sz is_wide = do {
     _ \<leftarrow> c_nat (if is_wide then 2 * sz else sz);
     let (ctx, str) = jh_malloc H ctx (str_bytes is_wide sz);
     let s = \<lparr>sb_heap = H, sb_ctx = ctx, sb_str = str, sb_len = 0, sb_size = sz, sb_wide = is_wide, sb_error = False\<rparr>;
     case str of
       None \<Rightarrow> Some (- 1, s\<lparr>sb_size := 0, sb_error := True\<rparr>)
     | Some _ \<Rightarrow> Some (0, s) }"

definition string_buffer_init :: "'o js_heap \<Rightarrow> 'o \<Rightarrow> nat \<Rightarrow> (int \<times> 'o StringBuffer) option" where
  "string_buffer_init H ctx sz = string_buffer_init2 H ctx sz False"

definition sb_free :: "'o StringBuffer \<Rightarrow> 'o" where
  "sb_free s = (case sb_str s of None \<Rightarrow> sb_ctx s | Some b \<Rightarrow> jh_free (sb_heap s) (sb_ctx s) b)"

definition string_buffer_free :: "'o StringBuffer \<Rightarrow> 'o StringBuffer" where
  "string_buffer_free s = s\<lparr>sb_ctx := sb_free s, sb_str := None\<rparr>"

definition string_buffer_set_error :: "'o StringBuffer \<Rightarrow> int \<times> 'o StringBuffer" where
  "string_buffer_set_error s = (- 1, s\<lparr>sb_ctx := sb_free s, sb_str := None, sb_size := 0, sb_len := 0, sb_error := True\<rparr>)"

definition sb_block :: "'o StringBuffer \<Rightarrow> bytes" where
  "sb_block s = (case sb_str s of None \<Rightarrow> [] | Some b \<Rightarrow> b)"

text \<open>\<^verbatim>\<open>js_realloc2\<close>: the new block with the number of bytes it has beyond the request.\<close>

definition js_realloc2 :: "'o StringBuffer \<Rightarrow> nat \<Rightarrow> 'o \<times> (bytes \<times> nat) option" where
  "js_realloc2 s n =
     (case jh_realloc (sb_heap s) (sb_ctx s) (sb_block s) n of
        (ctx, None) \<Rightarrow> (ctx, None)
      | (ctx, Some b) \<Rightarrow> (ctx, Some (b, if length b > n then length b - n else 0)))"

text \<open>The loop of \<^verbatim>\<open>string_buffer_widen\<close> runs from the last character to the first, since the 16-bit characters overwrite the 8-bit ones.\<close>

fun widen_loop :: "nat \<Rightarrow> bytes \<Rightarrow> bytes option" where
  "widen_loop 0 str = Some str"
| "widen_loop (Suc i) str = do { c \<leftarrow> rd str i; str \<leftarrow> put_u16 str (2 * i) (ucast c); widen_loop i str }"

definition string_buffer_widen :: "'o StringBuffer \<Rightarrow> nat \<Rightarrow> (int \<times> 'o StringBuffer) option" where
  "string_buffer_widen s sz =
     (if sb_error s then Some (- 1, s)
      else do {
        n \<leftarrow> c_nat (2 * sz);
        case js_realloc2 s n of
          (ctx, None) \<Rightarrow> Some (string_buffer_set_error (s\<lparr>sb_ctx := ctx\<rparr>))
        | (ctx, Some (str, slack)) \<Rightarrow> do {
            sz \<leftarrow> c_nat (sz + slack div 2);
            str \<leftarrow> widen_loop (sb_len s) str;
            Some (0, s\<lparr>sb_ctx := ctx, sb_wide := True, sb_size := sz, sb_str := Some str\<rparr>) } })"

definition string_buffer_realloc :: "'o StringBuffer \<Rightarrow> nat \<Rightarrow> nat \<Rightarrow> (int \<times> 'o StringBuffer) option" where
  "string_buffer_realloc s new_len c =
     (if sb_error s then Some (- 1, s)
      else if new_len > JS_STRING_LEN_MAX then Some (string_buffer_set_error s)
      else do {
        grown \<leftarrow> c_nat (sb_size s * 3);
        let new_size = min (max new_len (grown div 2)) JS_STRING_LEN_MAX;
        if \<not> sb_wide s \<and> c \<ge> 0x100 then string_buffer_widen s new_size
        else case js_realloc2 s (str_bytes (sb_wide s) new_size) of
            (ctx, None) \<Rightarrow> Some (string_buffer_set_error (s\<lparr>sb_ctx := ctx\<rparr>))
          | (ctx, Some (new_str, slack)) \<Rightarrow> do {
              n \<leftarrow> c_nat (new_size + (if sb_wide s then slack div 2 else slack));
              Some (0, s\<lparr>sb_ctx := ctx, sb_size := min n JS_STRING_LEN_MAX, sb_str := Some new_str\<rparr>) } })"

text \<open>\<^verbatim>\<open>str16[len++] = c\<close> and \<^verbatim>\<open>str8[len++] = c\<close>.\<close>

definition sb_push16 :: "'o StringBuffer \<Rightarrow> u32 \<Rightarrow> 'o StringBuffer option" where
  "sb_push16 s c = do { b \<leftarrow> sb_str s; b \<leftarrow> put_u16 b (2 * sb_len s) (ucast c); Some (s\<lparr>sb_str := Some b, sb_len := sb_len s + 1\<rparr>) }"

definition sb_push8 :: "'o StringBuffer \<Rightarrow> u32 \<Rightarrow> 'o StringBuffer option" where
  "sb_push8 s c = do { b \<leftarrow> sb_str s; b \<leftarrow> wr b (sb_len s) (ucast c); Some (s\<lparr>sb_str := Some b, sb_len := sb_len s + 1\<rparr>) }"

definition string_buffer_putc_slow :: "'o StringBuffer \<Rightarrow> u32 \<Rightarrow> (int \<times> 'o StringBuffer) option" where
  "string_buffer_putc_slow s c = do {
     (r, s) \<leftarrow> (if sb_len s \<ge> sb_size s then string_buffer_realloc s (sb_len s + 1) (unat c) else Some (0, s));
     if r \<noteq> 0 then Some (- 1, s)
     else if sb_wide s then do { s \<leftarrow> sb_push16 s c; Some (0, s) }
     else if c < 0x100 then do { s \<leftarrow> sb_push8 s c; Some (0, s) }
     else do {
       (r, s) \<leftarrow> string_buffer_widen s (sb_size s);
       if r \<noteq> 0 then Some (- 1, s) else do { s \<leftarrow> sb_push16 s c; Some (0, s) } } }"

definition string_buffer_putc8 :: "'o StringBuffer \<Rightarrow> u32 \<Rightarrow> (int \<times> 'o StringBuffer) option" where
  "string_buffer_putc8 s c = do {
     (r, s) \<leftarrow> (if sb_len s \<ge> sb_size s then string_buffer_realloc s (sb_len s + 1) (unat c) else Some (0, s));
     if r \<noteq> 0 then Some (- 1, s)
     else do { s \<leftarrow> (if sb_wide s then sb_push16 s c else sb_push8 s c); Some (0, s) } }"

definition string_buffer_putc16 :: "'o StringBuffer \<Rightarrow> u32 \<Rightarrow> (int \<times> 'o StringBuffer) option" where
  "string_buffer_putc16 s c =
     (if sb_len s < sb_size s \<and> sb_wide s then do { s \<leftarrow> sb_push16 s c; Some (0, s) }
      else if sb_len s < sb_size s \<and> c < 0x100 then do { s \<leftarrow> sb_push8 s c; Some (0, s) }
      else string_buffer_putc_slow s c)"

definition string_buffer_putc :: "'o StringBuffer \<Rightarrow> u32 \<Rightarrow> (int \<times> 'o StringBuffer) option" where
  "string_buffer_putc s c =
     (if c \<ge> 0x10000
      then do {
        (r, s) \<leftarrow> string_buffer_putc16 s (get_hi_surrogate c);
        if r \<noteq> 0 then Some (- 1, s) else string_buffer_putc16 s (get_lo_surrogate c) }
      else string_buffer_putc16 s c)"

fun str16_loop :: "bytes \<Rightarrow> nat \<Rightarrow> bytes \<Rightarrow> bytes option" where
  "str16_loop b i [] = Some b"
| "str16_loop b i (c # p) = do { b \<leftarrow> put_u16 b (2 * i) (ucast c); str16_loop b (i + 1) p }"

definition string_buffer_write8 :: "'o StringBuffer \<Rightarrow> bytes \<Rightarrow> (int \<times> 'o StringBuffer) option" where
  "string_buffer_write8 s p = do {
     n \<leftarrow> c_nat (sb_len s + length p);
     (r, s) \<leftarrow> (if n > sb_size s then string_buffer_realloc s n 0 else Some (0, s));
     if r \<noteq> 0 then Some (- 1, s)
     else if p = [] then Some (0, s)
     else do {
       b \<leftarrow> sb_str s;
       b \<leftarrow> (if sb_wide s then str16_loop b (sb_len s) p else blit b (sb_len s) p);
       Some (0, s\<lparr>sb_str := Some b, sb_len := sb_len s + length p\<rparr>) } }"

definition u16_bytes :: "u16 list \<Rightarrow> bytes" where
  "u16_bytes p = concat (map (\<lambda>c. le_bytes 2 (unat c)) p)"

definition string_buffer_write16 :: "'o StringBuffer \<Rightarrow> u16 list \<Rightarrow> (int \<times> 'o StringBuffer) option" where
  "string_buffer_write16 s p = do {
     let c = unat (foldl (OR) 0 p);
     n \<leftarrow> c_nat (sb_len s + length p);
     (r, s) \<leftarrow> (if n > sb_size s then string_buffer_realloc s n c
               else if \<not> sb_wide s \<and> c \<ge> 0x100 then string_buffer_widen s (sb_size s)
               else Some (0, s));
     if r \<noteq> 0 then Some (- 1, s)
     else if p = [] then Some (0, s)
     else do {
       b \<leftarrow> sb_str s;
       b \<leftarrow> (if sb_wide s then blit b (2 * sb_len s) (u16_bytes p) else blit b (sb_len s) (map ucast p));
       Some (0, s\<lparr>sb_str := Some b, sb_len := sb_len s + length p\<rparr>) } }"

definition string_buffer_puts8 :: "'o StringBuffer \<Rightarrow> bytes \<Rightarrow> (int \<times> 'o StringBuffer) option" where
  "string_buffer_puts8 s str = do { n \<leftarrow> strlen str; d \<leftarrow> slice str 0 n; string_buffer_write8 s d }"

fun bytes_u16 :: "bytes \<Rightarrow> u16 list" where
  "bytes_u16 (a # b # r) = word_of_nat (le_val [a, b]) # bytes_u16 r"
| "bytes_u16 _ = []"

definition string_buffer_concat :: "'o StringBuffer \<Rightarrow> js_string \<Rightarrow> nat \<Rightarrow> nat \<Rightarrow> (int \<times> 'o StringBuffer) option" where
  "string_buffer_concat s p from to =
     (if to \<le> from then Some (0, s)
      else if jstr_wide p then do { d \<leftarrow> slice (jstr_data p) (2 * from) (2 * (to - from)); string_buffer_write16 s (bytes_u16 d) }
      else do { d \<leftarrow> slice (jstr_data p) from (to - from); string_buffer_write8 s d })"

text \<open>\<^verbatim>\<open>string_buffer_concat_value\<close> for a value that is a string.\<close>

definition string_buffer_concat_value :: "'o StringBuffer \<Rightarrow> js_string \<Rightarrow> (int \<times> 'o StringBuffer) option" where
  "string_buffer_concat_value s p = (if sb_error s then Some (- 1, s) else string_buffer_concat s p 0 (jstr_len p))"

fun fill_loop :: "nat \<Rightarrow> u32 \<Rightarrow> 'o StringBuffer \<Rightarrow> (int \<times> 'o StringBuffer) option" where
  "fill_loop 0 c s = Some (0, s)"
| "fill_loop (Suc n) c s = do { (r, s) \<leftarrow> string_buffer_putc16 s c; if r \<noteq> 0 then Some (- 1, s) else fill_loop n c s }"

definition string_buffer_fill :: "'o StringBuffer \<Rightarrow> u32 \<Rightarrow> nat \<Rightarrow> (int \<times> 'o StringBuffer) option" where
  "string_buffer_fill s c n = do {
     len \<leftarrow> c_nat (sb_len s + n);
     (r, s) \<leftarrow> (if len > sb_size s then string_buffer_realloc s len (unat c) else Some (0, s));
     if r \<noteq> 0 then Some (- 1, s) else fill_loop n c s }"

definition empty_string :: js_string where
  "empty_string = \<lparr>jstr_wide = False, jstr_len = 0, jstr_data = [0]\<rparr>"

text \<open>\<^verbatim>\<open>JS_EXCEPTION\<close> is \<open>None\<close> inside the result.\<close>

definition string_buffer_end :: "'o StringBuffer \<Rightarrow> (js_string option \<times> 'o) option" where
  "string_buffer_end s =
     (if sb_error s then Some (None, sb_ctx s)
      else if sb_len s = 0 then Some (Some empty_string, sb_free s)
      else do {
        str \<leftarrow> sb_str s;
        let (ctx, str) =
          (if sb_len s < sb_size s
           then case jh_realloc (sb_heap s) (sb_ctx s) str (str_bytes (sb_wide s) (sb_len s)) of
                  (ctx, None) \<Rightarrow> (ctx, str) | (ctx, Some new) \<Rightarrow> (ctx, new)
           else (sb_ctx s, str));
        str \<leftarrow> (if sb_wide s then Some str else wr str (sb_len s) 0);
        Some (Some \<lparr>jstr_wide = sb_wide s, jstr_len = sb_len s, jstr_data = str\<rparr>, ctx) })"

subsection \<open>Characters in memory\<close>

lemma u16_bytes_simps [simp]: "u16_bytes [] = []" "u16_bytes (c # p) = le_bytes 2 (unat c) @ u16_bytes p"
  "u16_bytes (p @ q) = u16_bytes p @ u16_bytes q"
  by (simp_all add: u16_bytes_def)

lemma length_u16_bytes [simp]: "length (u16_bytes p) = 2 * length p"
  by (induction p) simp_all

lemma bytes_u16_unit: "bytes_u16 (le_bytes 2 (unat c) @ ys) = c # bytes_u16 ys"
proof -
  obtain a b where ab: "le_bytes 2 (unat c) = [a, b]" by (simp add: numeral_2_eq_2)
  have "le_val (le_bytes 2 (unat c)) = unat c" using unsigned_less [of c, where ?'a = nat] by (simp add: le_val_le_bytes)
  then show ?thesis by (simp add: ab)
qed

lemma bytes_u16_append: "length xs = 2 * n \<Longrightarrow> bytes_u16 (xs @ ys) = bytes_u16 xs @ bytes_u16 ys"
proof (induction n arbitrary: xs)
  case (Suc n)
  then obtain a b r where "xs = a # b # r" "length r = 2 * n" by (metis (no_types, lifting) length_Suc_conv mult_Suc_right numeral_2_eq_2 add_2_eq_Suc)
  then show ?case using Suc.IH by simp
qed simp

lemma bytes_u16_bytes [simp]: "bytes_u16 (u16_bytes p) = p"
  by (induction p) (simp_all add: bytes_u16_unit)

lemma length_bytes_u16: "length xs = 2 * n \<Longrightarrow> length (bytes_u16 xs) = n"
proof (induction n arbitrary: xs)
  case (Suc n)
  then obtain a b r where "xs = a # b # r" "length r = 2 * n" by (metis (no_types, lifting) length_Suc_conv mult_Suc_right numeral_2_eq_2 add_2_eq_Suc)
  then show ?case using Suc.IH by simp
qed simp

definition chars :: "bool \<Rightarrow> nat \<Rightarrow> bytes \<Rightarrow> u16 list" where
  "chars wide n b = (if wide then bytes_u16 (take (2 * n) b) else map ucast (take n b))"

lemma length_chars: "(if wide then 2 * n else n) \<le> length b \<Longrightarrow> length (chars wide n b) = n"
  by (auto simp: chars_def intro: length_bytes_u16)

lemma put_u16_chars:
  assumes "2 * (n + 1) \<le> length b"
  shows "\<exists>b'. put_u16 b (2 * n) c = Some b' \<and> length b' = length b \<and> chars True (n + 1) b' = chars True n b @ [c] \<and>
    take (2 * n) b' = take (2 * n) b \<and> drop (2 * (n + 1)) b' = drop (2 * (n + 1)) b"
proof -
  let ?b = "take (2 * n) b @ le_bytes 2 (unat c) @ drop (2 * n + 2) b"
  have "put_u16 b (2 * n) c = Some ?b" using assms by (simp add: put_u16_def blit_def)
  moreover have "take (2 * (n + 1)) ?b = take (2 * n) b @ le_bytes 2 (unat c)" using assms by simp
  moreover have "bytes_u16 (take (2 * n) b @ le_bytes 2 (unat c)) = bytes_u16 (take (2 * n) b) @ [c]"
    using bytes_u16_append [of "take (2 * n) b" n "le_bytes 2 (unat c)"] bytes_u16_unit [of c "[]"] assms by simp
  ultimately show ?thesis using assms by (intro exI [of _ ?b]) (simp add: chars_def)
qed

lemma wr_chars:
  assumes "n < length b"
  shows "\<exists>b'. wr b n c = Some b' \<and> length b' = length b \<and> chars False (n + 1) b' = chars False n b @ [ucast c]"
  using assms by (simp add: wr_def chars_def take_Suc_conv_app_nth)

lemma str16_loop_chars:
  "2 * (n + length p) \<le> length b \<Longrightarrow>
     \<exists>b'. str16_loop b n p = Some b' \<and> length b' = length b \<and> chars True (n + length p) b' = chars True n b @ map ucast p"
proof (induction p arbitrary: n b)
  case (Cons c p)
  obtain b1 where b1: "put_u16 b (2 * n) (ucast c) = Some b1" "length b1 = length b" "chars True (n + 1) b1 = chars True n b @ [ucast c]"
    using put_u16_chars [of n b "ucast c"] Cons.prems by auto
  obtain b' where "str16_loop b1 (n + 1) p = Some b'" "length b' = length b1" "chars True (n + 1 + length p) b' = chars True (n + 1) b1 @ map ucast p"
    using Cons.IH [of "n + 1" b1] Cons.prems b1(2) by auto
  then show ?case using b1 by simp
qed simp

lemma blit_u16_chars:
  assumes "2 * (n + length p) \<le> length b"
  shows "\<exists>b'. blit b (2 * n) (u16_bytes p) = Some b' \<and> length b' = length b \<and> chars True (n + length p) b' = chars True n b @ p"
proof -
  let ?b = "take (2 * n) b @ u16_bytes p @ drop (2 * n + 2 * length p) b"
  have "take (2 * (n + length p)) ?b = take (2 * n) b @ u16_bytes p" using assms by simp
  moreover have "bytes_u16 (take (2 * n) b @ u16_bytes p) = bytes_u16 (take (2 * n) b) @ p"
    using bytes_u16_append [of "take (2 * n) b" n "u16_bytes p"] assms by simp
  ultimately show ?thesis using assms by (intro exI [of _ ?b]) (simp add: chars_def blit_def)
qed

lemma blit_chars:
  assumes "n + length p \<le> length b"
  shows "\<exists>b'. blit b n p = Some b' \<and> length b' = length b \<and> chars False (n + length p) b' = chars False n b @ map ucast p"
  using assms by (cases p) (auto simp: chars_def blit_def min_def)

lemma widen_loop_val:
  "2 * n \<le> length b \<Longrightarrow>
     \<exists>b'. widen_loop n b = Some b' \<and> length b' = length b \<and> chars True n b' = chars False n b \<and> drop (2 * n) b' = drop (2 * n) b"
proof (induction n arbitrary: b)
  case (Suc i)
  obtain b1 where b1: "put_u16 b (2 * i) (ucast (b ! i)) = Some b1" "length b1 = length b" "take (2 * i) b1 = take (2 * i) b"
      "drop (2 * (i + 1)) b1 = drop (2 * (i + 1)) b" "chars True (i + 1) b1 = chars True i b @ [ucast (b ! i)]"
    using put_u16_chars [of i b "ucast (b ! i)"] Suc.prems by auto
  obtain b' where b': "widen_loop i b1 = Some b'" "length b' = length b1" "chars True i b' = chars False i b1" "drop (2 * i) b' = drop (2 * i) b1"
    using Suc.IH [of b1] Suc.prems b1(2) by auto
  have "take i b1 = take i b" using arg_cong [OF b1(3), of "take i"] by simp
  then have low: "chars False i b1 = chars False i b" by (simp add: chars_def)
  have split: "chars True (Suc i) xs = chars True i xs @ bytes_u16 (take 2 (drop (2 * i) xs))" if "2 * Suc i \<le> length xs" for xs
    using bytes_u16_append [of "take (2 * i) xs" i "take 2 (drop (2 * i) xs)"] that take_add [of "2 * i" 2 xs] by (simp add: chars_def)
  have "chars True i b1 = chars True i b" using b1(3) by (simp add: chars_def)
  then have "bytes_u16 (take 2 (drop (2 * i) b1)) = [ucast (b ! i)]" using split [of b1] b1(2,5) Suc.prems by simp
  then have "chars True (Suc i) b' = chars False i b @ [ucast (b ! i)]" using split [of b'] b' b1(2) Suc.prems low by simp
  moreover have "drop (2 * Suc i) b' = drop (2 * Suc i) b"
    using arg_cong [OF b'(4), of "drop 2"] b1(4) by simp
  ultimately show ?case using b1(1,2) b'(1,2) Suc.prems by (simp add: rd_def chars_def take_Suc_conv_app_nth)
qed (simp add: chars_def)

subsection \<open>The invariant\<close>

definition sb_inv :: "'o StringBuffer \<Rightarrow> bool" where
  "sb_inv s \<longleftrightarrow> js_heap_ok (sb_heap s) \<and>
     (case sb_str s of
        None \<Rightarrow> sb_error s \<and> sb_len s = 0 \<and> sb_size s = 0
      | Some b \<Rightarrow> \<not> sb_error s \<and> sb_len s \<le> sb_size s \<and> str_bytes (sb_wide s) (sb_size s) \<le> length b \<and>
          sb_size s < (if sb_wide s then 2 ^ 31 else 2 ^ 30))"

definition sb_chars :: "'o StringBuffer \<Rightarrow> u16 list" where
  "sb_chars s = chars (sb_wide s) (sb_len s) (sb_block s)"

definition sb_contents :: "'o StringBuffer \<Rightarrow> u16 list \<times> bool" where
  "sb_contents s = (sb_chars s, sb_wide s)"

definition wide_char :: "u16 list \<Rightarrow> bool" where
  "wide_char xs \<longleftrightarrow> (\<exists>x\<in>set xs. 256 \<le> unat x)"

lemma wide_char_simps [simp]: "\<not> wide_char []" "wide_char (x # xs) \<longleftrightarrow> 256 \<le> unat x \<or> wide_char xs" "wide_char (xs @ ys) \<longleftrightarrow> wide_char xs \<or> wide_char ys"
  by (auto simp: wide_char_def)

lemma str_bytes_chars: "str_bytes wide n \<le> length b \<Longrightarrow> m \<le> n \<Longrightarrow> (if wide then 2 * m else m) \<le> length b"
  by (auto simp: str_bytes_def split: if_splits)

lemma sb_inv_failed: "sb_inv s \<Longrightarrow> sb_error s \<Longrightarrow> sb_len s = 0 \<and> sb_size s = 0 \<and> sb_str s = None"
  by (auto simp: sb_inv_def split: option.splits)

lemma sb_inv_live:
  assumes "sb_inv s" and "\<not> sb_error s"
  obtains b where "sb_str s = Some b" and "sb_len s \<le> sb_size s" and "str_bytes (sb_wide s) (sb_size s) \<le> length b"
    and "sb_size s < (if sb_wide s then 2 ^ 31 else 2 ^ 30)" and "js_heap_ok (sb_heap s)"
  using assms by (auto simp: sb_inv_def split: option.splits)

lemma length_sb_chars: "sb_inv s \<Longrightarrow> length (sb_chars s) = sb_len s"
proof (cases "sb_error s")
  case False
  assume "sb_inv s"
  then obtain b where "sb_str s = Some b" "sb_len s \<le> sb_size s" "str_bytes (sb_wide s) (sb_size s) \<le> length b" using False by (rule sb_inv_live)
  then show ?thesis unfolding sb_chars_def by (intro length_chars) (simp add: sb_block_def str_bytes_def split: if_splits)
qed (auto simp: sb_chars_def chars_def dest: sb_inv_failed)

lemma set_error_inv: "js_heap_ok (sb_heap s) \<Longrightarrow> sb_inv (snd (string_buffer_set_error s))"
  by (simp add: sb_inv_def string_buffer_set_error_def)

text \<open>What growing does: it fails for good, or the buffer has the characters it had and room for \<open>n\<close>, and it may have become wide.\<close>

definition sb_grown :: "'o StringBuffer \<Rightarrow> nat \<Rightarrow> bool \<Rightarrow> int \<times> 'o StringBuffer \<Rightarrow> bool" where
  "sb_grown s n wide res \<longleftrightarrow> (case res of (r, s') \<Rightarrow> sb_inv s' \<and>
     ((r = 0 \<and> \<not> sb_error s' \<and> sb_len s' = sb_len s \<and> sb_chars s' = sb_chars s \<and> n \<le> sb_size s' \<and> sb_wide s' = (sb_wide s \<or> wide)) \<or>
      (r = - 1 \<and> sb_error s')))"

lemma js_realloc2_val:
  assumes "js_heap_ok (sb_heap s)" and "js_realloc2 s n = (ctx, Some (b, slack))"
  shows "length b = n + slack" and "slack < 2 ^ 29" and "take (min n (length (sb_block s))) b = take (min n (length (sb_block s))) (sb_block s)"
proof -
  have "jh_realloc (sb_heap s) (sb_ctx s) (sb_block s) n = (ctx, Some b)" "slack = length b - n"
    using assms(2) by (auto simp: js_realloc2_def split: prod.splits option.splits if_splits)
  then show "length b = n + slack" "slack < 2 ^ 29" "take (min n (length (sb_block s))) b = take (min n (length (sb_block s))) (sb_block s)"
    using assms(1) unfolding js_heap_ok_def by fastforce+
qed

lemma widen_grown:
  assumes "sb_inv s" and "\<not> sb_error s" and "\<not> sb_wide s" and "sb_len s \<le> n" and "n < 2 ^ 30"
  shows "\<exists>res. string_buffer_widen s n = Some res \<and> sb_grown s n True res"
proof -
  obtain b where b: "sb_str s = Some b" "sb_len s \<le> sb_size s" "str_bytes (sb_wide s) (sb_size s) \<le> length b" and H: "js_heap_ok (sb_heap s)"
    using sb_inv_live [OF assms(1,2)] by metis
  have n: "c_nat (2 * n) = Some (2 * n)" using assms(5) by (simp add: c_nat_def)
  obtain ctx res where re: "js_realloc2 s (2 * n) = (ctx, res)" by (cases "js_realloc2 s (2 * n)")
  show ?thesis
  proof (cases res)
    case None
    then show ?thesis using n re assms(2) H set_error_inv [of "s\<lparr>sb_ctx := ctx\<rparr>"]
      by (simp add: string_buffer_widen_def sb_grown_def string_buffer_set_error_def)
  next
    case (Some r)
    then obtain str slack where r: "js_realloc2 s (2 * n) = (ctx, Some (str, slack))" using re by (cases r) simp
    note v = js_realloc2_val [OF H r]
    have len: "sb_len s \<le> length b" using b(2,3) assms(3) by (simp add: str_bytes_def)
    obtain str' where str': "widen_loop (sb_len s) str = Some str'" "length str' = length str" "chars True (sb_len s) str' = chars False (sb_len s) str"
      using widen_loop_val [of "sb_len s" str] v(1) assms(4) by auto
    have "take (sb_len s) str = take (sb_len s) b"
    proof -
      have "take (sb_len s) (take (min (2 * n) (length b)) str) = take (sb_len s) (take (min (2 * n) (length b)) b)" using v(3) b(1) by (simp add: sb_block_def)
      then show ?thesis using len assms(4) by simp
    qed
    then have same: "chars True (sb_len s) str' = sb_chars s" using str'(3) b(1) assms(3) by (simp add: sb_chars_def sb_block_def chars_def)
    have sz: "c_nat (n + slack div 2) = Some (n + slack div 2)" "n + slack div 2 < 2 ^ 31" using v(2) assms(5) by (simp_all add: c_nat_def)
    define s' where "s' = s\<lparr>sb_ctx := ctx, sb_wide := True, sb_size := n + slack div 2, sb_str := Some str'\<rparr>"
    have "string_buffer_widen s n = Some (0, s')" using n r sz(1) str'(1) assms(2) by (simp add: string_buffer_widen_def s'_def)
    moreover have "sb_inv s'" using H assms(2,4) sz(2) v(1) str'(2) by (simp add: sb_inv_def s'_def str_bytes_def)
    moreover have "sb_chars s' = sb_chars s" using same by (simp add: sb_chars_def s'_def sb_block_def)
    ultimately show ?thesis using assms(2) by (simp add: sb_grown_def s'_def)
  qed
qed

lemma realloc_grown:
  assumes "sb_inv s" and "sb_size s < n" and "n \<le> 715827882"
  shows "\<exists>res. string_buffer_realloc s n c = Some res \<and> sb_grown s n (256 \<le> c) res"
proof (cases "sb_error s")
  case True
  then show ?thesis using assms(1) by (simp add: string_buffer_realloc_def sb_grown_def)
next
  case False
  obtain b where b: "sb_str s = Some b" "sb_len s \<le> sb_size s" "str_bytes (sb_wide s) (sb_size s) \<le> length b" and H: "js_heap_ok (sb_heap s)"
    using sb_inv_live [OF assms(1) False] by metis
  define m where "m = min (max n (sb_size s * 3 div 2)) JS_STRING_LEN_MAX"
  have m: "n \<le> m" "m \<le> JS_STRING_LEN_MAX" "m < 2 ^ 30" using assms(2,3) by (simp_all add: m_def JS_STRING_LEN_MAX_def)
  have grown: "c_nat (sb_size s * 3) = Some (sb_size s * 3)" "\<not> JS_STRING_LEN_MAX < n" using assms(2,3) by (simp_all add: c_nat_def JS_STRING_LEN_MAX_def)
  show ?thesis
  proof (cases "\<not> sb_wide s \<and> c \<ge> 256")
    case True
    have "string_buffer_realloc s n c = string_buffer_widen s m" using True False grown by (simp add: string_buffer_realloc_def m_def)
    moreover obtain res where "string_buffer_widen s m = Some res" "sb_grown s m True res"
      using widen_grown [OF assms(1) False, of m] True b(2) assms(2) m(1,3) by auto
    ultimately show ?thesis using True m(1) by (auto simp: sb_grown_def)
  next
    case narrow: False
    obtain ctx res where re: "js_realloc2 s (str_bytes (sb_wide s) m) = (ctx, res)" by (cases "js_realloc2 s (str_bytes (sb_wide s) m)")
    show ?thesis
    proof (cases res)
      case None
      then have "string_buffer_realloc s n c = Some (string_buffer_set_error (s\<lparr>sb_ctx := ctx\<rparr>))"
        using narrow False grown re unfolding string_buffer_realloc_def m_def by auto
      then show ?thesis using H set_error_inv [of "s\<lparr>sb_ctx := ctx\<rparr>"] by (simp add: sb_grown_def string_buffer_set_error_def)
    next
      case (Some r)
      then obtain str slack where r: "js_realloc2 s (str_bytes (sb_wide s) m) = (ctx, Some (str, slack))" using re by (cases r) simp
      note v = js_realloc2_val [OF H r]
      define k where "k = (if sb_wide s then slack div 2 else slack)"
      have "k \<le> slack" by (simp add: k_def)
      then have k: "c_nat (m + k) = Some (m + k)" using v(2) m(3) by (simp add: c_nat_def)
      define s' where "s' = s\<lparr>sb_ctx := ctx, sb_size := min (m + k) JS_STRING_LEN_MAX, sb_str := Some str\<rparr>"
      have "string_buffer_realloc s n c = Some (0, s')"
        using narrow False grown r k unfolding string_buffer_realloc_def m_def [symmetric] k_def s'_def by (auto simp: Let_def m_def [symmetric])
      moreover have "sb_inv s'"
      proof -
        have room: "str_bytes (sb_wide s) (m + k) \<le> length str" using v(1) by (simp add: str_bytes_def k_def)
        define t where "t = min (m + k) JS_STRING_LEN_MAX"
        have t: "t \<le> m + k" "t < 2 ^ 30" "n \<le> t" using m(1,2) assms(3) by (simp_all add: t_def JS_STRING_LEN_MAX_def)
        have "str_bytes (sb_wide s) t \<le> length str" using room t(1) by (simp add: str_bytes_def split: if_splits)
        moreover have "sb_len s \<le> t" "t < (if sb_wide s then 2 ^ 31 else 2 ^ 30)" using b(2) assms(2) t(2,3) by simp_all
        moreover have "sb_inv (s\<lparr>sb_ctx := ctx, sb_size := t, sb_str := Some str\<rparr>) \<longleftrightarrow>
            js_heap_ok (sb_heap s) \<and> \<not> sb_error s \<and> sb_len s \<le> t \<and> str_bytes (sb_wide s) t \<le> length str \<and> t < (if sb_wide s then 2 ^ 31 else 2 ^ 30)"
          by (simp add: sb_inv_def)
        ultimately show ?thesis using H False unfolding s'_def t_def [symmetric] by blast
      qed
      moreover have "sb_chars s' = sb_chars s"
      proof -
        let ?j = "if sb_wide s then 2 * sb_len s else sb_len s"
        define M where "M = min (str_bytes (sb_wide s) m) (length b)"
        have "?j \<le> M" using b(2,3) assms(2) m(1) by (simp add: M_def str_bytes_def split: if_splits)
        then have "take ?j xs = take ?j (take M xs)" for xs :: bytes by (simp add: min_absorb1)
        moreover have "take M str = take M b" using v(3) b(1) by (simp add: sb_block_def M_def)
        ultimately have "take ?j str = take ?j b" by metis
        then show ?thesis using b(1) by (simp add: sb_chars_def s'_def sb_block_def chars_def split: if_splits)
      qed
      ultimately show ?thesis using False narrow m(1,2) by (auto simp: sb_grown_def s'_def)
    qed
  qed
qed

subsection \<open>What the operations append\<close>

definition sb_result :: "'o StringBuffer \<Rightarrow> u16 list \<Rightarrow> (int \<times> 'o StringBuffer) option \<Rightarrow> bool" where
  "sb_result s xs res \<longleftrightarrow> (\<exists>r s'. res = Some (r, s') \<and> sb_inv s' \<and>
     ((r = 0 \<and> sb_contents s' = (sb_chars s @ xs, sb_wide s \<or> wide_char xs) \<and> sb_error s' = sb_error s) \<or> (r = - 1 \<and> sb_error s')))"

lemma sb_resultI_fail: "sb_grown s n w (r, s') \<Longrightarrow> r \<noteq> 0 \<Longrightarrow> sb_result s xs (Some (- 1, s'))"
  by (auto simp: sb_grown_def sb_result_def)

lemma sb_result_empty: "sb_inv s \<Longrightarrow> sb_result s [] (Some (0, s))"
  by (simp add: sb_result_def sb_contents_def)

text \<open>Storing new characters in a block that has room for them.\<close>

lemma sb_stored:
  assumes "sb_inv s1" and "\<not> sb_error s1" and "sb_chars s1 = sb_chars s" and "\<not> sb_error s"
    and "sb_len s1 + length xs \<le> sb_size s1" and "length b' = length (sb_block s1)"
    and "chars (sb_wide s1) (sb_len s1 + length xs) b' = chars (sb_wide s1) (sb_len s1) (sb_block s1) @ xs" and "sb_wide s1 = (sb_wide s \<or> wide_char xs)"
  shows "sb_result s xs (Some (0, s1\<lparr>sb_str := Some b', sb_len := sb_len s1 + length xs\<rparr>))"
proof -
  obtain b where "sb_str s1 = Some b" "str_bytes (sb_wide s1) (sb_size s1) \<le> length b" "js_heap_ok (sb_heap s1)"
      "sb_size s1 < (if sb_wide s1 then 2 ^ 31 else 2 ^ 30)"
    using sb_inv_live [OF assms(1,2)] by metis
  then show ?thesis using assms by (simp add: sb_result_def sb_inv_def sb_contents_def sb_chars_def sb_block_def)
qed

lemma room:
  assumes "sb_inv s" and "\<not> sb_error s" and "m \<le> sb_size s"
  shows "(if sb_wide s then 2 * m else m) \<le> length (sb_block s)" and "sb_str s = Some (sb_block s)"
proof -
  obtain b where b: "sb_str s = Some b" "str_bytes (sb_wide s) (sb_size s) \<le> length b" using sb_inv_live [OF assms(1,2)] by metis
  then show "sb_str s = Some (sb_block s)" by (simp add: sb_block_def)
  show "(if sb_wide s then 2 * m else m) \<le> length (sb_block s)" using str_bytes_chars [OF b(2) assms(3)] b(1) by (simp add: sb_block_def)
qed

lemma push16_result:
  assumes "sb_inv s1" and "\<not> sb_error s1" and "sb_chars s1 = sb_chars s" and "\<not> sb_error s" and "sb_len s1 < sb_size s1" and "sb_wide s1"
    and "sb_wide s \<or> 256 \<le> unat (ucast c :: u16)"
  shows "sb_result s [ucast c] (do { s \<leftarrow> sb_push16 s1 c; Some (0, s) })"
proof -
  have "2 * (sb_len s1 + 1) \<le> length (sb_block s1)" using room(1) [OF assms(1,2), of "sb_len s1 + 1"] assms(5,6) by simp
  then obtain b' where "put_u16 (sb_block s1) (2 * sb_len s1) (ucast c) = Some b'" "length b' = length (sb_block s1)"
      "chars True (sb_len s1 + 1) b' = chars True (sb_len s1) (sb_block s1) @ [ucast c]"
    using put_u16_chars by blast
  then show ?thesis using sb_stored [OF assms(1-4), of "[ucast c]" b'] room(2) [OF assms(1,2), of 0] assms(5-7) by (simp add: sb_push16_def)
qed

lemma push8_result:
  assumes "sb_inv s1" and "\<not> sb_error s1" and "sb_chars s1 = sb_chars s" and "\<not> sb_error s" and "sb_len s1 < sb_size s1" and "\<not> sb_wide s1"
    and "c < 256" and "\<not> sb_wide s"
  shows "sb_result s [ucast c] (do { s \<leftarrow> sb_push8 s1 c; Some (0, s) })"
proof -
  have "sb_len s1 < length (sb_block s1)" using room(1) [OF assms(1,2), of "sb_len s1 + 1"] assms(5,6) by simp
  then obtain b' where b': "wr (sb_block s1) (sb_len s1) (ucast c) = Some b'" "length b' = length (sb_block s1)"
      "chars False (sb_len s1 + 1) b' = chars False (sb_len s1) (sb_block s1) @ [ucast (ucast c :: byte)]"
    using wr_chars by blast
  have u: "unat c < 256" using assms(7) by (simp add: word_less_nat_alt)
  then have "ucast (ucast c :: byte) = (ucast c :: u16)" "unat (ucast c :: u16) < 256"
    by (simp_all add: word_unat_eq_iff unat_ucast_mod)
  then show ?thesis using sb_stored [OF assms(1-4), of "[ucast c]" b'] room(2) [OF assms(1,2), of 0] assms(5,6,8) b'
    by (simp add: sb_push8_def)
qed

lemma unit_wide: "unat c < 2 ^ 16 \<Longrightarrow> 256 \<le> unat (ucast c :: u16) \<longleftrightarrow> 256 \<le> unat (c :: u32)"
  by (simp add: unat_ucast_mod)

text \<open>The pattern of every operation: grow when the new characters do not fit.\<close>

lemma grow_if:
  assumes "sb_inv s" and "n \<le> 715827882"
  obtains r s' where "(if n > sb_size s then string_buffer_realloc s n c else Some (0, s)) = Some (r, s')"
    and "r = 0 \<longrightarrow> sb_error s \<longrightarrow> s' = s \<and> n = 0"
    and "r \<noteq> 0 \<longrightarrow> r = - 1 \<and> sb_error s' \<and> sb_inv s'"
    and "r = 0 \<longrightarrow> \<not> sb_error s \<longrightarrow> sb_inv s' \<and> \<not> sb_error s' \<and> sb_len s' = sb_len s \<and> sb_chars s' = sb_chars s \<and> n \<le> sb_size s' \<and>
      sb_wide s' = (sb_wide s \<or> (n > sb_size s \<and> 256 \<le> c))"
proof (cases "n > sb_size s")
  case True
  obtain r s' where res: "string_buffer_realloc s n c = Some (r, s')" "sb_grown s n (256 \<le> c) (r, s')"
    using realloc_grown [OF assms(1) True assms(2), of c] by auto
  moreover have "r \<noteq> 0" if "sb_error s" using res(1) that by (auto simp: string_buffer_realloc_def)
  ultimately show thesis using that True by (auto simp: sb_grown_def)
next
  case False
  then show thesis using that [of 0 s] assms(1) sb_inv_failed [OF assms(1)] by fastforce
qed

lemma putc_slow_result:
  assumes "sb_inv s" and "unat c < 2 ^ 16" and "sb_len s + 1 \<le> 715827882"
  shows "sb_result s [ucast c] (string_buffer_putc_slow s c)"
proof -
  obtain r s1 where g: "(if sb_len s + 1 > sb_size s then string_buffer_realloc s (sb_len s + 1) (unat c) else Some (0, s)) = Some (r, s1)"
      "r = 0 \<longrightarrow> sb_error s \<longrightarrow> s1 = s \<and> sb_len s + 1 = 0" "r \<noteq> 0 \<longrightarrow> r = - 1 \<and> sb_error s1 \<and> sb_inv s1"
      "r = 0 \<longrightarrow> \<not> sb_error s \<longrightarrow> sb_inv s1 \<and> \<not> sb_error s1 \<and> sb_len s1 = sb_len s \<and> sb_chars s1 = sb_chars s \<and> sb_len s + 1 \<le> sb_size s1 \<and>
        sb_wide s1 = (sb_wide s \<or> (sb_len s + 1 > sb_size s \<and> 256 \<le> unat c))"
    using grow_if [OF assms(1,3), of "unat c"] by blast
  have first: "(if sb_len s \<ge> sb_size s then string_buffer_realloc s (sb_len s + 1) (unat c) else Some (0, s)) = Some (r, s1)"
    using g(1) by (simp add: less_Suc_eq_le)
  show ?thesis
  proof (cases "r = 0")
    case False
    then show ?thesis using first g(3) by (simp add: string_buffer_putc_slow_def sb_result_def)
  next
    case True
    then have live: "\<not> sb_error s" using g(2) by auto
    then have s1: "sb_inv s1" "\<not> sb_error s1" "sb_chars s1 = sb_chars s" "sb_len s1 < sb_size s1"
        "sb_wide s1 = (sb_wide s \<or> (sb_len s + 1 > sb_size s \<and> 256 \<le> unat c))"
      using g(4) True by auto
    have rest: "string_buffer_putc_slow s c = (if sb_wide s1 then do { s \<leftarrow> sb_push16 s1 c; Some (0, s) }
        else if c < 0x100 then do { s \<leftarrow> sb_push8 s1 c; Some (0, s) }
        else do { (r, s) \<leftarrow> string_buffer_widen s1 (sb_size s1); if r \<noteq> 0 then Some (- 1, s) else do { s \<leftarrow> sb_push16 s c; Some (0, s) } })"
      unfolding string_buffer_putc_slow_def first using True by simp
    show ?thesis
    proof (cases "sb_wide s1")
      case True
      then show ?thesis using rest push16_result [OF s1(1-3) live s1(4), of c] s1(5) unit_wide [OF assms(2)] by auto
    next
      case narrow: False
      show ?thesis
      proof (cases "c < 0x100")
        case True
        then show ?thesis using rest push8_result [OF s1(1-3) live s1(4) narrow] s1(5) narrow by auto
      next
        case False
        have sz: "sb_size s1 < 2 ^ 30" using sb_inv_live [OF s1(1,2)] narrow by metis
        obtain r2 s2 where w: "string_buffer_widen s1 (sb_size s1) = Some (r2, s2)" "sb_grown s1 (sb_size s1) True (r2, s2)"
          using widen_grown [OF s1(1,2) narrow _ sz] s1(4) by auto
        show ?thesis
        proof (cases "r2 = 0")
          case True
          then have s2: "sb_inv s2" "\<not> sb_error s2" "sb_chars s2 = sb_chars s" "sb_len s2 < sb_size s2" "sb_wide s2"
            using w(2) s1(3,4) by (auto simp: sb_grown_def)
          have "256 \<le> unat c" using False by (simp add: word_less_nat_alt not_less)
          then show ?thesis using rest narrow False w(1) True push16_result [OF s2(1-3) live s2(4,5), of c] unit_wide [OF assms(2)] by simp
        next
          case fail: False
          then show ?thesis using rest narrow False w by (simp add: sb_result_def sb_grown_def)
        qed
      qed
    qed
  qed
qed

lemma putc16_result:
  assumes "sb_inv s" and "unat c < 2 ^ 16" and "sb_len s + 1 \<le> 715827882"
  shows "sb_result s [ucast c] (string_buffer_putc16 s c)"
proof (cases "sb_len s < sb_size s \<and> (sb_wide s \<or> c < 0x100)")
  case True
  then have live: "\<not> sb_error s" using sb_inv_failed [OF assms(1)] by auto
  show ?thesis
  proof (cases "sb_wide s")
    case wide: True
    then show ?thesis using True push16_result [OF assms(1) live refl live] by (simp add: string_buffer_putc16_def)
  next
    case False
    then show ?thesis using True push8_result [OF assms(1) live refl live] by (simp add: string_buffer_putc16_def)
  qed
next
  case False
  then have "string_buffer_putc16 s c = string_buffer_putc_slow s c" by (auto simp: string_buffer_putc16_def)
  then show ?thesis using putc_slow_result [OF assms] by simp
qed

lemma putc8_result:
  assumes "sb_inv s" and "unat c < 256" and "sb_len s + 1 \<le> 715827882"
  shows "sb_result s [ucast c] (string_buffer_putc8 s c)"
proof -
  obtain r s1 where g: "(if sb_len s + 1 > sb_size s then string_buffer_realloc s (sb_len s + 1) (unat c) else Some (0, s)) = Some (r, s1)"
      "r = 0 \<longrightarrow> sb_error s \<longrightarrow> s1 = s \<and> sb_len s + 1 = 0" "r \<noteq> 0 \<longrightarrow> r = - 1 \<and> sb_error s1 \<and> sb_inv s1"
      "r = 0 \<longrightarrow> \<not> sb_error s \<longrightarrow> sb_inv s1 \<and> \<not> sb_error s1 \<and> sb_len s1 = sb_len s \<and> sb_chars s1 = sb_chars s \<and> sb_len s + 1 \<le> sb_size s1 \<and>
        sb_wide s1 = (sb_wide s \<or> (sb_len s + 1 > sb_size s \<and> 256 \<le> unat c))"
    using grow_if [OF assms(1,3), of "unat c"] by blast
  have first: "(if sb_len s \<ge> sb_size s then string_buffer_realloc s (sb_len s + 1) (unat c) else Some (0, s)) = Some (r, s1)"
    using g(1) by (simp add: less_Suc_eq_le)
  show ?thesis
  proof (cases "r = 0")
    case False
    then show ?thesis using first g(3) by (simp add: string_buffer_putc8_def sb_result_def)
  next
    case True
    then have live: "\<not> sb_error s" using g(2) by auto
    then have s1: "sb_inv s1" "\<not> sb_error s1" "sb_chars s1 = sb_chars s" "sb_len s1 < sb_size s1" "sb_wide s1 = sb_wide s"
      using g(4) True assms(2) by auto
    have rest: "string_buffer_putc8 s c = (if sb_wide s1 then sb_push16 s1 c else sb_push8 s1 c) \<bind> (\<lambda>s. Some (0, s))"
      unfolding string_buffer_putc8_def first using True by simp
    have "c < 256" using assms(2) by (simp add: word_less_nat_alt)
    then show ?thesis using rest push16_result [OF s1(1-3) live s1(4), of c] push8_result [OF s1(1-3) live s1(4), of c] s1(5) by (cases "sb_wide s1") simp_all
  qed
qed

lemma wide_char_bytes [simp]: "\<not> wide_char (map ucast (p :: bytes))"
proof -
  have "unat (ucast b :: u16) < 256" for b :: byte
    unfolding unat_ucast_mod by (rule le_less_trans [OF mod_less_eq_dividend unat_byte_less])
  then show ?thesis by (auto simp: wide_char_def not_le)
qed

lemma write8_result:
  assumes "sb_inv s" and "sb_len s + length p \<le> 715827882"
  shows "sb_result s (map ucast p) (string_buffer_write8 s p)"
proof -
  let ?n = "sb_len s + length p"
  have n: "c_nat ?n = Some ?n" using assms(2) by (simp add: c_nat_def)
  obtain r s1 where g: "(if ?n > sb_size s then string_buffer_realloc s ?n 0 else Some (0, s)) = Some (r, s1)"
      "r = 0 \<longrightarrow> sb_error s \<longrightarrow> s1 = s \<and> ?n = 0" "r \<noteq> 0 \<longrightarrow> r = - 1 \<and> sb_error s1 \<and> sb_inv s1"
      "r = 0 \<longrightarrow> \<not> sb_error s \<longrightarrow> sb_inv s1 \<and> \<not> sb_error s1 \<and> sb_len s1 = sb_len s \<and> sb_chars s1 = sb_chars s \<and> ?n \<le> sb_size s1 \<and>
        sb_wide s1 = (sb_wide s \<or> (?n > sb_size s \<and> (256 :: nat) \<le> 0))"
    using grow_if [OF assms, of 0] by blast
  have step: "string_buffer_write8 s p = (if r \<noteq> 0 then Some (- 1, s1) else if p = [] then Some (0, s1)
      else do { b \<leftarrow> sb_str s1; b \<leftarrow> (if sb_wide s1 then str16_loop b (sb_len s1) p else blit b (sb_len s1) p);
        Some (0, s1\<lparr>sb_str := Some b, sb_len := sb_len s1 + length p\<rparr>) })"
    unfolding string_buffer_write8_def n using g(1) by simp
  show ?thesis
  proof (cases "r = 0 \<and> \<not> sb_error s")
    case False
    then show ?thesis using step g(2,3) assms(1) sb_result_empty [OF assms(1)] by (auto simp: sb_result_def)
  next
    case True
    then have s1: "sb_inv s1" "\<not> sb_error s1" "sb_chars s1 = sb_chars s" "\<not> sb_error s" "sb_len s1 + length p \<le> sb_size s1" "sb_wide s1 = sb_wide s"
      using g(4) by auto
    note blk = room [OF s1(1,2,5)]
    show ?thesis
    proof (cases "p = []")
      case True
      then show ?thesis using step \<open>r = 0 \<and> \<not> sb_error s\<close> s1 by (simp add: sb_result_def sb_contents_def)
    next
      case False
      obtain b' where b': "(if sb_wide s1 then str16_loop (sb_block s1) (sb_len s1) p else blit (sb_block s1) (sb_len s1) p) = Some b'"
          "length b' = length (sb_block s1)"
          "chars (sb_wide s1) (sb_len s1 + length p) b' = chars (sb_wide s1) (sb_len s1) (sb_block s1) @ map ucast p"
        using str16_loop_chars [of "sb_len s1" p "sb_block s1"] blit_chars [of "sb_len s1" p "sb_block s1"] blk(1) by (cases "sb_wide s1") auto
      show ?thesis using step False \<open>r = 0 \<and> \<not> sb_error s\<close> b'(1) blk(2) sb_stored [OF s1(1-4), of "map ucast p" b'] s1(5,6) b'(2,3) by simp
    qed
  qed
qed

lemma foldl_or_small:
  "unat (foldl (OR) c (p :: u16 list)) < 256 \<longleftrightarrow> unat c < 256 \<and> \<not> wide_char p"
proof -
  have small: "unat (x :: u16) < 256 \<longleftrightarrow> drop_bit 8 x = 0" for x
  proof -
    have "drop_bit 8 x = 0 \<longleftrightarrow> unat (drop_bit 8 x) = 0" by (simp add: unat_eq_zero)
    also have "\<dots> \<longleftrightarrow> unat x div 2 ^ 8 = 0" by (simp only: unat_drop_bit_div)
    finally show ?thesis by (simp add: div_eq_0_iff)
  qed
  have "x OR y = 0 \<longleftrightarrow> x = 0 \<and> y = 0" for x y :: u16 by (auto simp: bit_eq_iff bit_simps)
  then have "unat (x OR y) < 256 \<longleftrightarrow> unat x < 256 \<and> unat y < 256" for x y :: u16 unfolding small by (simp add: drop_bit_or)
  then show ?thesis by (induction p arbitrary: c) (auto simp: not_le)
qed

lemma write16_result:
  assumes "sb_inv s" and "sb_len s + length p \<le> 715827882"
  shows "sb_result s p (string_buffer_write16 s p)"
proof -
  let ?n = "sb_len s + length p" and ?c = "unat (foldl (OR) 0 p)"
  have n: "c_nat ?n = Some ?n" using assms(2) by (simp add: c_nat_def)
  have c: "256 \<le> ?c \<longleftrightarrow> wide_char p" using foldl_or_small [of 0 p] by (auto simp: not_less [symmetric])
  obtain r s1 where g: "(if ?n > sb_size s then string_buffer_realloc s ?n ?c
        else if \<not> sb_wide s \<and> ?c \<ge> 0x100 then string_buffer_widen s (sb_size s) else Some (0, s)) = Some (r, s1)"
      "r = 0 \<longrightarrow> sb_error s \<longrightarrow> s1 = s \<and> ?n = 0" "r \<noteq> 0 \<longrightarrow> r = - 1 \<and> sb_error s1 \<and> sb_inv s1"
      "r = 0 \<longrightarrow> \<not> sb_error s \<longrightarrow> sb_inv s1 \<and> \<not> sb_error s1 \<and> sb_len s1 = sb_len s \<and> sb_chars s1 = sb_chars s \<and> ?n \<le> sb_size s1 \<and>
        sb_wide s1 = (sb_wide s \<or> wide_char p)"
  proof (cases "\<not> ?n > sb_size s \<and> \<not> sb_wide s \<and> ?c \<ge> 256")
    case False
    obtain r s1 where e: "(if ?n > sb_size s then string_buffer_realloc s ?n ?c else Some (0, s)) = Some (r, s1)"
        "r = 0 \<longrightarrow> sb_error s \<longrightarrow> s1 = s \<and> ?n = 0" "r \<noteq> 0 \<longrightarrow> r = - 1 \<and> sb_error s1 \<and> sb_inv s1"
        "r = 0 \<longrightarrow> \<not> sb_error s \<longrightarrow> sb_inv s1 \<and> \<not> sb_error s1 \<and> sb_len s1 = sb_len s \<and> sb_chars s1 = sb_chars s \<and> ?n \<le> sb_size s1 \<and>
          sb_wide s1 = (sb_wide s \<or> (?n > sb_size s \<and> 256 \<le> ?c))"
      using grow_if [OF assms, of ?c] by blast
    have eq: "(if ?n > sb_size s then string_buffer_realloc s ?n ?c
        else if \<not> sb_wide s \<and> ?c \<ge> 0x100 then string_buffer_widen s (sb_size s) else Some (0, s)) =
        (if ?n > sb_size s then string_buffer_realloc s ?n ?c else Some (0, s))" using False by auto
    have "sb_wide s1 = (sb_wide s \<or> wide_char p)" if "r = 0" "\<not> sb_error s" using e(4) that False c by blast
    then show thesis using that [of r s1, unfolded eq, OF e(1-3)] e(4) by blast
  next
    case True
    then have live: "\<not> sb_error s" using sb_inv_failed [OF assms(1)] c by auto
    have "sb_len s \<le> sb_size s" "sb_size s < 2 ^ 30" using sb_inv_live [OF assms(1) live] True by (metis, metis)
    then obtain r s1 where w: "string_buffer_widen s (sb_size s) = Some (r, s1)" "sb_grown s (sb_size s) True (r, s1)"
      using widen_grown [OF assms(1) live, of "sb_size s"] True by auto
    then show thesis using that [of r s1] True live c by (auto simp: sb_grown_def)
  qed
  have step: "string_buffer_write16 s p = (if r \<noteq> 0 then Some (- 1, s1) else if p = [] then Some (0, s1)
      else do { b \<leftarrow> sb_str s1; b \<leftarrow> (if sb_wide s1 then blit b (2 * sb_len s1) (u16_bytes p) else blit b (sb_len s1) (map ucast p));
        Some (0, s1\<lparr>sb_str := Some b, sb_len := sb_len s1 + length p\<rparr>) })"
    unfolding string_buffer_write16_def n using g(1) by simp
  show ?thesis
  proof (cases "r = 0 \<and> \<not> sb_error s")
    case False
    then show ?thesis using step g(2,3) assms(1) sb_result_empty [OF assms(1)] by (auto simp: sb_result_def)
  next
    case True
    then have s1: "sb_inv s1" "\<not> sb_error s1" "sb_chars s1 = sb_chars s" "\<not> sb_error s" "sb_len s1 + length p \<le> sb_size s1"
        "sb_wide s1 = (sb_wide s \<or> wide_char p)"
      using g(4) by auto
    note blk = room [OF s1(1,2,5)]
    show ?thesis
    proof (cases "p = []")
      case True
      then show ?thesis using step \<open>r = 0 \<and> \<not> sb_error s\<close> s1 by (simp add: sb_result_def sb_contents_def)
    next
      case False
      have narrow: "map (\<lambda>c. ucast (ucast c :: byte)) p = p" if "\<not> sb_wide s1"
      proof (rule map_idI)
        fix x assume "x \<in> set p"
        then have "unat x < 256" using that s1(6) by (auto simp: wide_char_def not_le)
        then show "ucast (ucast x :: byte) = x" by (simp add: word_unat_eq_iff unat_ucast_mod)
      qed
      obtain b' where b': "(if sb_wide s1 then blit (sb_block s1) (2 * sb_len s1) (u16_bytes p) else blit (sb_block s1) (sb_len s1) (map ucast p)) = Some b'"
          "length b' = length (sb_block s1)"
          "chars (sb_wide s1) (sb_len s1 + length p) b' = chars (sb_wide s1) (sb_len s1) (sb_block s1) @ p"
        using blit_u16_chars [of "sb_len s1" p "sb_block s1"] blit_chars [of "sb_len s1" "map ucast p" "sb_block s1"] blk(1) narrow
        by (cases "sb_wide s1") (auto simp: o_def)
      show ?thesis using step False \<open>r = 0 \<and> \<not> sb_error s\<close> b'(1) blk(2) sb_stored [OF s1(1-4), of p b'] s1(5,6) b'(2,3) by simp
    qed
  qed
qed

subsection \<open>Composed operations\<close>

lemma sb_result_bind:
  assumes "sb_result s xs m"
    and "\<And>s1. sb_inv s1 \<Longrightarrow> sb_len s1 = length (sb_chars s) + length xs \<Longrightarrow> sb_result s1 ys (f s1)"
  shows "sb_result s (xs @ ys) (do { (r, s) \<leftarrow> m; if r \<noteq> 0 then Some (- 1, s) else f s })"
proof -
  obtain r s1 where m: "m = Some (r, s1)" "sb_inv s1"
      "(r = 0 \<and> sb_contents s1 = (sb_chars s @ xs, sb_wide s \<or> wide_char xs) \<and> sb_error s1 = sb_error s) \<or> (r = - 1 \<and> sb_error s1)"
    using assms(1) by (auto simp: sb_result_def)
  show ?thesis
  proof (cases "r = 0")
    case True
    then have c: "sb_chars s1 = sb_chars s @ xs" "sb_wide s1 = (sb_wide s \<or> wide_char xs)" "sb_error s1 = sb_error s" using m(3) by (auto simp: sb_contents_def)
    have "sb_len s1 = length (sb_chars s) + length xs" using length_sb_chars [OF m(2)] c(1) by simp
    from assms(2) [OF m(2) this] show ?thesis using True m(1) c by (auto simp: sb_result_def)
  next
    case False
    then show ?thesis using m by (auto simp: sb_result_def)
  qed
qed

definition utf16 :: "u32 \<Rightarrow> u16 list" where
  "utf16 c = (if c \<ge> 0x10000 then [ucast (get_hi_surrogate c), ucast (get_lo_surrogate c)] else [ucast c])"

lemma surrogate_units:
  assumes "0x10000 \<le> c" and "c \<le> 0x10FFFF"
  shows "unat (get_hi_surrogate c) < 2 ^ 16" and "unat (get_lo_surrogate c) < 2 ^ 16"
  using surrogate_roundtrip [OF assms] by (auto simp: surrogate_ranges)

lemma putc_result:
  assumes "sb_inv s" and "c \<le> 0x10FFFF" and "sb_len s + length (utf16 c) \<le> 715827882"
  shows "sb_result s (utf16 c) (string_buffer_putc s c)"
proof (cases "c \<ge> 0x10000")
  case True
  then have n: "sb_len s + 2 \<le> 715827882" using assms(3) by (simp add: utf16_def)
  note u = surrogate_units [OF True assms(2)]
  have "sb_result s ([ucast (get_hi_surrogate c)] @ [ucast (get_lo_surrogate c)]) (do { (r, s) \<leftarrow> string_buffer_putc16 s (get_hi_surrogate c);
      if r \<noteq> 0 then Some (- 1, s) else string_buffer_putc16 s (get_lo_surrogate c) })"
    by (rule sb_result_bind [OF putc16_result [OF assms(1) u(1)]]) (use n u(2) length_sb_chars [OF assms(1)] in \<open>auto intro: putc16_result\<close>)
  then show ?thesis using True by (simp add: string_buffer_putc_def utf16_def)
next
  case False
  then have "unat c < 2 ^ 16" by (simp add: word_le_nat_alt)
  then show ?thesis using False putc16_result [OF assms(1)] assms(3) by (simp add: string_buffer_putc_def utf16_def)
qed

lemma fill_loop_result:
  "sb_inv s \<Longrightarrow> unat c < 2 ^ 16 \<Longrightarrow> sb_len s + n \<le> 715827882 \<Longrightarrow> sb_result s (replicate n (ucast c)) (fill_loop n c s)"
proof (induction n arbitrary: s)
  case (Suc n)
  have "sb_result s ([ucast c] @ replicate n (ucast c)) (do { (r, s) \<leftarrow> string_buffer_putc16 s c; if r \<noteq> 0 then Some (- 1, s) else fill_loop n c s })"
    by (rule sb_result_bind [OF putc16_result [OF Suc.prems(1,2)]]) (use Suc.prems length_sb_chars [OF Suc.prems(1)] in \<open>auto intro!: Suc.IH\<close>)
  then show ?case by simp
qed (simp add: sb_result_empty)

lemma wide_char_replicate [simp]: "wide_char (replicate n c) \<longleftrightarrow> 0 < n \<and> 256 \<le> unat c"
  by (cases n) (auto simp: wide_char_def)

lemma fill_result:
  assumes "sb_inv s" and "unat c < 2 ^ 16" and "sb_len s + n \<le> 715827882"
  shows "sb_result s (replicate n (ucast c)) (string_buffer_fill s c n)"
proof -
  let ?n = "sb_len s + n"
  have n: "c_nat ?n = Some ?n" using assms(3) by (simp add: c_nat_def)
  obtain r s1 where g: "(if ?n > sb_size s then string_buffer_realloc s ?n (unat c) else Some (0, s)) = Some (r, s1)"
      "r = 0 \<longrightarrow> sb_error s \<longrightarrow> s1 = s \<and> ?n = 0" "r \<noteq> 0 \<longrightarrow> r = - 1 \<and> sb_error s1 \<and> sb_inv s1"
      "r = 0 \<longrightarrow> \<not> sb_error s \<longrightarrow> sb_inv s1 \<and> \<not> sb_error s1 \<and> sb_len s1 = sb_len s \<and> sb_chars s1 = sb_chars s \<and> ?n \<le> sb_size s1 \<and>
        sb_wide s1 = (sb_wide s \<or> (?n > sb_size s \<and> 256 \<le> unat c))"
    using grow_if [OF assms(1,3), of "unat c"] by blast
  have step: "string_buffer_fill s c n = (if r \<noteq> 0 then Some (- 1, s1) else fill_loop n c s1)"
    unfolding string_buffer_fill_def n using g(1) by simp
  show ?thesis
  proof (cases "r = 0 \<and> \<not> sb_error s")
    case False
    then show ?thesis using step g(2,3) assms(1) sb_result_empty [OF assms(1)] by (auto simp: sb_result_def)
  next
    case True
    then have s1: "sb_inv s1" "\<not> sb_error s1" "sb_chars s1 = sb_chars s" "\<not> sb_error s" "sb_len s1 = sb_len s"
        "sb_wide s1 = (sb_wide s \<or> (?n > sb_size s \<and> 256 \<le> unat c))" using g(4) by auto
    have "sb_len s \<le> sb_size s" using sb_inv_live [OF assms(1) s1(4)] by metis
    then have "?n > sb_size s \<and> 256 \<le> unat c \<longrightarrow> wide_char (replicate n (ucast c :: u16))" using unit_wide [OF assms(2)] by simp
    moreover have "sb_result s1 (replicate n (ucast c)) (fill_loop n c s1)" using fill_loop_result [OF s1(1) assms(2)] s1(5) assms(3) by simp
    ultimately show ?thesis using step True s1 unfolding sb_result_def by auto
  qed
qed

lemma bytes_u16_take: "take n (bytes_u16 b) = bytes_u16 (take (2 * n) b)"
proof (induction n arbitrary: b)
  case (Suc n)
  then show ?case by (cases b rule: bytes_u16.cases) simp_all
qed simp

lemma bytes_u16_drop: "drop n (bytes_u16 b) = bytes_u16 (drop (2 * n) b)"
proof (induction n arbitrary: b)
  case (Suc n)
  then show ?case by (cases b rule: bytes_u16.cases) simp_all
qed simp

definition js_string_ok :: "js_string \<Rightarrow> bool" where
  "js_string_ok p \<longleftrightarrow> (if jstr_wide p then 2 * jstr_len p else jstr_len p) \<le> length (jstr_data p)"

definition jstr_units :: "js_string \<Rightarrow> u16 list" where
  "jstr_units p = chars (jstr_wide p) (jstr_len p) (jstr_data p)"

lemma length_jstr_units: "js_string_ok p \<Longrightarrow> length (jstr_units p) = jstr_len p"
  by (simp add: js_string_ok_def jstr_units_def length_chars)

lemma concat_result:
  assumes "sb_inv s" and "js_string_ok p" and "to \<le> jstr_len p" and "sb_len s + (to - from) \<le> 715827882"
  shows "sb_result s (take (to - from) (drop from (jstr_units p))) (string_buffer_concat s p from to)"
proof (cases "to \<le> from")
  case True
  then show ?thesis using sb_result_empty [OF assms(1)] by (simp add: string_buffer_concat_def)
next
  case False
  let ?k = "to - from" and ?b = "jstr_data p"
  have k: "from + ?k = to" using False by simp
  show ?thesis
  proof (cases "jstr_wide p")
    case True
    let ?d = "take (2 * ?k) (drop (2 * from) ?b)"
    have len: "2 * from + 2 * ?k \<le> 2 * jstr_len p" "2 * jstr_len p \<le> length ?b" using k assms(2,3) True by (simp_all add: js_string_ok_def)
    have "take ?k (drop from (jstr_units p)) = bytes_u16 (take (2 * ?k) (drop (2 * from) (take (2 * jstr_len p) ?b)))"
      using True by (simp add: jstr_units_def chars_def bytes_u16_take bytes_u16_drop)
    also have "take (2 * ?k) (drop (2 * from) (take (2 * jstr_len p) ?b)) = ?d" using len(1) by (simp add: drop_take min_def)
    finally have e: "bytes_u16 ?d = take ?k (drop from (jstr_units p))" by simp
    have "length (bytes_u16 ?d) = ?k" by (rule length_bytes_u16) (use len in simp)
    then show ?thesis using write16_result [OF assms(1), of "bytes_u16 ?d"] assms(4) False True len e by (simp add: string_buffer_concat_def slice_def)
  next
    case narrow: False
    let ?d = "take ?k (drop from ?b)"
    have len: "from + ?k \<le> length ?b" using k assms(2,3) narrow by (simp add: js_string_ok_def)
    have "map ucast ?d = take ?k (drop from (jstr_units p))" using narrow assms(3) k
      by (simp add: jstr_units_def chars_def take_map drop_map drop_take min_def)
    then show ?thesis using write8_result [OF assms(1), of ?d] assms(4) False narrow len by (simp add: string_buffer_concat_def slice_def)
  qed
qed

subsection \<open>Runs of operations\<close>

datatype sb_op =
    Putc8 byte
  | Putc16 u16
  | Putc u32
  | Write8 bytes
  | Write16 "u16 list"
  | Concat js_string nat nat
  | Fill u16 nat

fun sb_exec :: "'o StringBuffer \<Rightarrow> sb_op \<Rightarrow> (int \<times> 'o StringBuffer) option" where
  "sb_exec s (Putc8 c) = string_buffer_putc8 s (ucast c)"
| "sb_exec s (Putc16 c) = string_buffer_putc16 s (ucast c)"
| "sb_exec s (Putc c) = string_buffer_putc s c"
| "sb_exec s (Write8 p) = string_buffer_write8 s p"
| "sb_exec s (Write16 p) = string_buffer_write16 s p"
| "sb_exec s (Concat p from to) = string_buffer_concat s p from to"
| "sb_exec s (Fill c n) = string_buffer_fill s (ucast c) n"

fun sb_units :: "sb_op \<Rightarrow> u16 list" where
  "sb_units (Putc8 c) = [ucast c]"
| "sb_units (Putc16 c) = [c]"
| "sb_units (Putc c) = utf16 c"
| "sb_units (Write8 p) = map ucast p"
| "sb_units (Write16 p) = p"
| "sb_units (Concat p from to) = take (to - from) (drop from (jstr_units p))"
| "sb_units (Fill c n) = replicate n c"

fun sb_arg_ok :: "sb_op \<Rightarrow> bool" where
  "sb_arg_ok (Putc c) \<longleftrightarrow> c \<le> 0x10FFFF"
| "sb_arg_ok (Concat p from to) \<longleftrightarrow> js_string_ok p \<and> to \<le> jstr_len p"
| "sb_arg_ok _ \<longleftrightarrow> True"

definition sb_op_ok :: "'o StringBuffer \<Rightarrow> sb_op \<Rightarrow> bool" where
  "sb_op_ok s op \<longleftrightarrow> sb_arg_ok op \<and> sb_len s + length (sb_units op) \<le> 715827882"

text \<open>The value of a buffer: its characters, and whether it is wide.\<close>

definition sb_spec :: "u16 list \<times> bool \<Rightarrow> sb_op \<Rightarrow> u16 list \<times> bool" where
  "sb_spec v op = (fst v @ sb_units op, snd v \<or> wide_char (sb_units op))"

lemma unat_up [simp]:
  "unat (ucast (b :: byte) :: u32) = unat b" "unat (ucast (b :: byte) :: u16) = unat b" "unat (ucast (c :: u16) :: u32) = unat c"
proof -
  have "unat b < 2 ^ 16" "unat b < 2 ^ 32" by (rule less_trans [OF unat_byte_less], simp)+
  then show "unat (ucast b :: u32) = unat b" "unat (ucast b :: u16) = unat b" by (simp_all add: unat_ucast_mod)
  have "unat c < 2 ^ 16" using unsigned_less [of c, where ?'a = nat] by simp
  then have "unat c < 2 ^ 32" by (rule less_trans) simp
  then show "unat (ucast c :: u32) = unat c" by (simp add: unat_ucast_mod)
qed

lemma ucast_up [simp]:
  "(ucast (ucast (b :: byte) :: u32) :: u16) = ucast b" "(ucast (ucast (c :: u16) :: u32) :: u16) = c" "(ucast (ucast (b :: byte) :: u16) :: u32) = ucast b"
proof -
  have "unat b < 2 ^ 16" by (rule less_trans [OF unat_byte_less]) simp
  moreover have "unat c < 2 ^ 16" using unsigned_less [of c, where ?'a = nat] by simp
  ultimately show "(ucast (ucast b :: u32) :: u16) = ucast b" "(ucast (ucast c :: u32) :: u16) = c" "(ucast (ucast b :: u16) :: u32) = ucast b"
    by (simp_all add: word_unat_eq_iff unat_ucast_mod [where ?'b = 16 and ?'a = 32])
qed

lemma unat_unit_less: "unat (c :: u16) < 2 ^ 16"
  using unsigned_less [of c, where ?'a = nat] by simp

lemma sb_exec_result:
  assumes "sb_inv s" and "sb_op_ok s op"
  shows "sb_result s (sb_units op) (sb_exec s op)"
proof (cases op)
  case (Putc8 c)
  then show ?thesis using putc8_result [OF assms(1), of "ucast c"] assms(2) by (simp add: sb_op_ok_def)
next
  case (Putc16 c)
  then show ?thesis using putc16_result [OF assms(1), of "ucast c"] unat_unit_less [of c] assms(2) by (simp add: sb_op_ok_def)
next
  case (Putc c)
  then show ?thesis using putc_result [OF assms(1)] assms(2) by (simp add: sb_op_ok_def)
next
  case (Write8 p)
  then show ?thesis using write8_result [OF assms(1)] assms(2) by (simp add: sb_op_ok_def)
next
  case (Write16 p)
  then show ?thesis using write16_result [OF assms(1)] assms(2) by (simp add: sb_op_ok_def)
next
  case (Concat p i j)
  then have p: "js_string_ok p" "j \<le> jstr_len p" "sb_len s + length (sb_units op) \<le> 715827882" using assms(2) by (simp_all add: sb_op_ok_def)
  have "length (sb_units op) = j - i" using length_jstr_units [OF p(1)] p(2) Concat by auto
  then show ?thesis using concat_result [OF assms(1) p(1,2)] p(3) Concat by simp
next
  case (Fill c n)
  then show ?thesis using fill_result [OF assms(1), of "ucast c" n] unat_unit_less [of c] assms(2) by (simp add: sb_op_ok_def)
qed

interpretation sbs: sticky_sink sb_exec sb_spec sb_op_ok sb_inv sb_contents sb_error
proof
  show "\<exists>r s'. sb_exec s op = Some (r, s') \<and> sb_inv s' \<and>
      ((r = 0 \<and> sb_contents s' = sb_spec (sb_contents s) op \<and> sb_error s' = sb_error s) \<or> (r = - 1 \<and> sb_error s'))"
    if "sb_inv s" "sb_op_ok s op" for s :: "'a StringBuffer" and op
    using sb_exec_result [OF that] by (simp add: sb_result_def sb_spec_def sb_contents_def)
qed

lemma foldl_sb_spec: "foldl sb_spec (xs, w) ops = (xs @ concat (map sb_units ops), w \<or> wide_char (concat (map sb_units ops)))"
  by (induction ops arbitrary: xs w) (auto simp: sb_spec_def)

lemma string_buffer_init_inv:
  assumes "js_heap_ok H" and "n < 2 ^ 30" and "string_buffer_init H ctx n = Some (r, s)"
  shows "sb_inv s" and "sb_contents s = ([], False)"
proof -
  obtain ctx' str where m: "jh_malloc H ctx (n + 1) = (ctx', str)" by (cases "jh_malloc H ctx (n + 1)")
  have n: "c_nat n = Some n" using assms(2) by (simp add: c_nat_def)
  have s: "s = \<lparr>sb_heap = H, sb_ctx = ctx', sb_str = str, sb_len = 0, sb_size = (if str = None then 0 else n), sb_wide = False, sb_error = (str = None)\<rparr>"
    using assms(3) n m by (simp add: string_buffer_init_def string_buffer_init2_def str_bytes_def Let_def split: option.splits)
  have "n + 1 \<le> length b" if "str = Some b" for b using assms(1) m that unfolding js_heap_ok_def by blast
  then show "sb_inv s" using assms(1,2) by (auto simp: s sb_inv_def str_bytes_def split: option.splits)
  show "sb_contents s = ([], False)" by (simp add: s sb_contents_def sb_chars_def chars_def)
qed

lemma string_buffer_end_val:
  assumes "sb_inv s"
  shows "\<exists>res ctx. string_buffer_end s = Some (res, ctx) \<and> (res = None \<longleftrightarrow> sb_error s) \<and>
    (\<forall>p. res = Some p \<longrightarrow> js_string_ok p \<and> jstr_units p = sb_chars s \<and> jstr_wide p = (sb_wide s \<and> sb_len s \<noteq> 0))"
proof (cases "sb_error s")
  case live: False
  obtain b where b: "sb_str s = Some b" "sb_len s \<le> sb_size s" "str_bytes (sb_wide s) (sb_size s) \<le> length b" and H: "js_heap_ok (sb_heap s)"
    using sb_inv_live [OF assms live] by metis
  show ?thesis
  proof (cases "sb_len s = 0")
    case True
    then show ?thesis using live by (simp add: string_buffer_end_def empty_string_def js_string_ok_def jstr_units_def sb_chars_def chars_def)
  next
    case False
    let ?n = "str_bytes (sb_wide s) (sb_len s)"
    define shrunk where "shrunk = (if sb_len s < sb_size s
       then case jh_realloc (sb_heap s) (sb_ctx s) b ?n of (ctx, None) \<Rightarrow> (ctx, b) | (ctx, Some new) \<Rightarrow> (ctx, new) else (sb_ctx s, b))"
    obtain ctx str where str: "shrunk = (ctx, str)" by (cases shrunk)
    have nb: "?n \<le> length b" using b(2,3) by (auto simp: str_bytes_def split: if_splits)
    have long: "?n \<le> length str \<and> take ?n str = take ?n b"
    proof (cases "sb_len s < sb_size s \<and> snd (jh_realloc (sb_heap s) (sb_ctx s) b ?n) \<noteq> None")
      case True
      then have "jh_realloc (sb_heap s) (sb_ctx s) b ?n = (ctx, Some str)" using str by (auto simp: shrunk_def split: prod.splits option.splits)
      then have "?n \<le> length str \<and> take (min ?n (length b)) str = take (min ?n (length b)) b" using H unfolding js_heap_ok_def by blast
      then show ?thesis using nb by (simp add: min_absorb1)
    next
      case False
      then have "str = b" using str by (auto simp: shrunk_def split: prod.splits option.splits if_splits)
      then show ?thesis using nb by simp
    qed
    define data where "data = (if sb_wide s then str else str[sb_len s := 0])"
    have store: "(if sb_wide s then Some str else wr str (sb_len s) 0) = Some data" "length data = length str"
      using long by (auto simp: data_def wr_def str_bytes_def split: if_splits)
    define p where "p = \<lparr>jstr_wide = sb_wide s, jstr_len = sb_len s, jstr_data = data\<rparr>"
    have fin: "string_buffer_end s = Some (Some p, ctx)"
      using live False b(1) str store(1) unfolding string_buffer_end_def shrunk_def p_def by simp
    let ?j = "if sb_wide s then 2 * sb_len s else sb_len s"
    have j: "?j \<le> ?n" by (simp add: str_bytes_def)
    have "take ?j data = take ?j str" by (simp add: data_def)
    also have "\<dots> = take ?j (take ?n str)" using j by (simp add: min_absorb1)
    also have "\<dots> = take ?j b" using long j by (simp add: min_absorb1)
    finally have "chars (sb_wide s) (sb_len s) data = chars (sb_wide s) (sb_len s) b" by (simp add: chars_def split: if_splits)
    then have "jstr_units p = sb_chars s" using b(1) by (simp add: p_def jstr_units_def sb_chars_def sb_block_def)
    moreover have "js_string_ok p" using long j store(2) by (simp add: p_def js_string_ok_def split: if_splits)
    ultimately show ?thesis using fin live False by (simp add: p_def)
  qed
qed (simp add: string_buffer_end_def)

text \<open>C14. A string buffer refines appending to a list of characters. Whatever operations are run on a new buffer, with an allocator that may refuse at any time,
  none leaves the block, the error is never lost although no return value is looked at, and without error the string at the end has exactly the characters
  that were appended, in 16-bit form just when one of them needs it. The strings may have up to 715827882 characters.\<close>

theorem string_buffer_run_refines:
  assumes "js_heap_ok H" and "n < 2 ^ 30" and "string_buffer_init H ctx n = Some (r, s)" and "ops_ok sb_exec sb_op_ok s ops"
  shows "\<exists>s' res ctx'. run_ops sb_exec s ops = Some s' \<and> string_buffer_end s' = Some (res, ctx') \<and> (sb_error s \<longrightarrow> sb_error s') \<and>
    (res = None \<longleftrightarrow> sb_error s') \<and>
    (\<forall>p. res = Some p \<longrightarrow> js_string_ok p \<and> jstr_units p = concat (map sb_units ops) \<and> (jstr_wide p \<longleftrightarrow> wide_char (jstr_units p)))"
proof -
  note init = string_buffer_init_inv [OF assms(1-3)]
  obtain s' where s': "run_ops sb_exec s ops = Some s'" "sb_inv s'" "sb_error s \<longrightarrow> sb_error s'"
      "\<not> sb_error s' \<longrightarrow> sb_contents s' = foldl sb_spec (sb_contents s) ops"
    using sbs.run_refines [OF init(1) assms(4)] by blast
  obtain res ctx' where res: "string_buffer_end s' = Some (res, ctx')" "res = None \<longleftrightarrow> sb_error s'"
      "\<forall>p. res = Some p \<longrightarrow> js_string_ok p \<and> jstr_units p = sb_chars s' \<and> jstr_wide p = (sb_wide s' \<and> sb_len s' \<noteq> 0)"
    using string_buffer_end_val [OF s'(2)] by blast
  have "sb_chars s' = concat (map sb_units ops)" "sb_wide s' = wide_char (concat (map sb_units ops))" if "\<not> sb_error s'"
    using s'(4) that by (simp_all add: init(2) foldl_sb_spec) (simp_all add: sb_contents_def)
  moreover have "sb_len s' \<noteq> 0" if "wide_char (sb_chars s')" using that length_sb_chars [OF s'(2)] by (cases "sb_chars s'") auto
  ultimately show ?thesis using s'(1,3) res by (intro exI [of _ s'] exI [of _ res] exI [of _ ctx']) auto
qed

text \<open>An allocator that gives every block three bytes more than requested.\<close>

definition slack_heap :: "nat js_heap" where
  "slack_heap = \<lparr>jh_malloc = (\<lambda>calls n. (Suc calls, Some (replicate (n + 3) 0xAA))),
     jh_realloc = (\<lambda>calls b n. (Suc calls, Some (take n b @ replicate (n + 3 - length (take n b)) 0xAA))), jh_free = (\<lambda>calls b. calls)\<rparr>"

lemma slack_heap_ok: "js_heap_ok slack_heap"
  by (auto simp: js_heap_ok_def slack_heap_def min_def)

theorem string_buffer_run_refines_witness:
  "\<exists>s' res ctx'. run_ops sb_exec \<lparr>sb_heap = slack_heap, sb_ctx = 1, sb_str = Some [0xAA, 0xAA, 0xAA, 0xAA], sb_len = 0, sb_size = 0, sb_wide = False,
      sb_error = False\<rparr> [Putc16 0x41, Putc 0x1F600] = Some s' \<and> string_buffer_end s' = Some (res, ctx') \<and> (False \<longrightarrow> sb_error s') \<and>
    (res = None \<longleftrightarrow> sb_error s') \<and>
    (\<forall>p. res = Some p \<longrightarrow> js_string_ok p \<and> jstr_units p = concat (map sb_units [Putc16 0x41, Putc 0x1F600]) \<and> (jstr_wide p \<longleftrightarrow> wide_char (jstr_units p)))"
proof -
  let ?s = "\<lparr>sb_heap = slack_heap, sb_ctx = 1, sb_str = Some [0xAA, 0xAA, 0xAA, 0xAA], sb_len = 0, sb_size = 0, sb_wide = False, sb_error = False\<rparr>"
  have init: "string_buffer_init slack_heap 0 0 = Some (0, ?s)"
  proof -
    have "c_nat 0 = Some 0" by (simp add: c_nat_def)
    moreover have "replicate 4 (0xAA :: byte) = [0xAA, 0xAA, 0xAA, 0xAA]" by (simp add: numeral_eq_Suc)
    ultimately show ?thesis by (simp add: string_buffer_init_def string_buffer_init2_def str_bytes_def slack_heap_def)
  qed
  have n: "(0 :: nat) < 2 ^ 30" by simp
  have inv: "sb_inv ?s" using string_buffer_init_inv [OF slack_heap_ok n init] by simp
  have first: "sb_op_ok ?s (Putc16 0x41)" by (simp add: sb_op_ok_def)
  have second: "sb_op_ok s1 (Putc 0x1F600)" if "sb_exec ?s (Putc16 0x41) = Some (r, s1)" for r s1
  proof -
    have "sb_inv s1 \<and> (sb_contents s1 = (sb_chars ?s @ sb_units (Putc16 0x41), sb_wide ?s \<or> wide_char (sb_units (Putc16 0x41))) \<or> sb_error s1)"
      using sb_exec_result [OF inv first] unfolding that sb_result_def by blast
    moreover have "sb_chars ?s = []" by (simp add: sb_chars_def chars_def)
    ultimately have "sb_len s1 \<le> 1" using length_sb_chars [of s1] sb_inv_failed [of s1] by (auto simp: sb_contents_def)
    then show ?thesis by (simp add: sb_op_ok_def utf16_def)
  qed
  have "ops_ok sb_exec sb_op_ok ?s [Putc16 0x41, Putc 0x1F600]" using first second by (auto split: option.splits)
  from string_buffer_run_refines [OF slack_heap_ok n init this] show ?thesis by simp
qed

subsection \<open>Long strings\<close>

text \<open>The product \<^verbatim>\<open>s->size * 3\<close> overflows when a buffer of more than 715827882 characters grows, although strings may have \<^verbatim>\<open>JS_STRING_LEN_MAX\<close>.\<close>

lemma string_buffer_size_overflow:
  assumes "\<not> sb_error s" and "715827882 < sb_size s" and "sb_len s = sb_size s" and "sb_size s < JS_STRING_LEN_MAX"
  shows "string_buffer_putc16 s c = None"
  using assms by (simp add: string_buffer_putc16_def string_buffer_putc_slow_def string_buffer_realloc_def c_nat_def)

subsection \<open>Reading code points\<close>

lemma string_get_unit:
  assumes "js_string_ok p" and "i < jstr_len p"
  shows "string_get p i = Some (ucast (jstr_units p ! i))"
proof (cases "jstr_wide p")
  case False
  have len: "i < length (jstr_data p)" using assms False by (simp add: js_string_ok_def)
  moreover have "jstr_units p ! i = ucast (jstr_data p ! i)" using assms(2) len False by (simp add: jstr_units_def chars_def)
  ultimately show ?thesis using False by (simp add: string_get_def rd_def)
next
  case True
  let ?d = "take 2 (drop (2 * i) (jstr_data p))"
  have len: "2 * i + 2 \<le> length (jstr_data p)" using assms True by (simp add: js_string_ok_def)
  then obtain a b r where d: "drop (2 * i) (jstr_data p) = a # b # r"
    by (cases "drop (2 * i) (jstr_data p)" rule: bytes_u16.cases) (auto dest: arg_cong [where f = length])
  have "jstr_units p ! i = hd (drop i (jstr_units p))" using assms length_jstr_units [OF assms(1)] by (simp add: hd_drop_conv_nth)
  also have "drop i (jstr_units p) = bytes_u16 (drop (2 * i) (take (2 * jstr_len p) (jstr_data p)))" using True by (simp add: jstr_units_def chars_def bytes_u16_drop)
  also have "drop (2 * i) (take (2 * jstr_len p) (jstr_data p)) = a # b # take (2 * (jstr_len p - i) - 2) r" using d assms(2)
    by (simp add: drop_take take_Cons' diff_mult_distrib2)
  finally have u: "jstr_units p ! i = word_of_nat (le_val [a, b])" by simp
  define v where "v = le_val [a, b]"
  have "length [a, b] = 2" by simp
  then have "v < 2 ^ 16" using le_val_less [of "[a, b]"] by (simp only: v_def) simp
  then have "(ucast (word_of_nat v :: u16) :: u32) = word_of_nat v" by (simp add: word_unat_eq_iff unat_of_nat)
  moreover have "take 2 (drop (2 * i) (jstr_data p)) = [a, b]" by (simp add: d)
  ultimately show ?thesis using True len u unfolding v_def by (simp only: string_get_def get_u16_def slice_def) simp
qed

text \<open>\<^verbatim>\<open>string_getc\<close> reads back the code points that \<^verbatim>\<open>string_buffer_putc\<close> writes.\<close>

lemma string_getc_utf16:
  assumes "js_string_ok p" and "drop i (jstr_units p) = utf16 c @ rest" and "c \<le> 0x10FFFF" and "\<not> is_surrogate c" and "0x100 \<le> c \<longrightarrow> jstr_wide p"
  shows "string_getc p i = Some (c, i + length (utf16 c))"
proof -
  have nth: "jstr_units p ! (i + k) = utf16 c ! k \<and> i + k < jstr_len p" if "k < length (utf16 c)" for k
  proof -
    have "length (drop i (jstr_units p)) = length (utf16 c) + length rest" using assms(2) by simp
    then have "i + k < length (jstr_units p)" using that by simp
    moreover have "drop i (jstr_units p) ! k = utf16 c ! k" using that by (simp add: assms(2) nth_append)
    ultimately show ?thesis using length_jstr_units [OF assms(1)] by simp
  qed
  have low: "(ucast (ucast x :: u16) :: u32) = x" if "unat x < 2 ^ 16" for x using that by (simp add: word_unat_eq_iff unat_ucast_mod [where ?'b = 16])
  show ?thesis
  proof (cases "0x10000 \<le> c")
    case True
    note pair = surrogate_roundtrip [OF True assms(3)] and u = surrogate_units [OF True assms(3)]
    have "0x100 \<le> c" using True by (rule order_trans [rotated]) simp
    then have "jstr_wide p" using assms(5) by simp
    moreover have "string_get p i = Some (get_hi_surrogate c)" "i < jstr_len p"
      using nth [of 0] string_get_unit [OF assms(1), of i] low [OF u(1)] True by (simp_all add: utf16_def)
    moreover have "string_get p (i + 1) = Some (get_lo_surrogate c)" "i + 1 < jstr_len p"
      using nth [of 1] string_get_unit [OF assms(1), of "i + 1"] low [OF u(2)] True by (simp_all add: utf16_def)
    ultimately show ?thesis using pair True by (simp add: string_getc_def utf16_def)
  next
    case False
    then have "unat c < 2 ^ 16" by (simp add: word_le_nat_alt)
    then have "string_get p i = Some c" using nth [of 0] string_get_unit [OF assms(1), of i] low [of c] False by (simp add: utf16_def)
    moreover have "\<not> is_hi_surrogate c" using assms(4) by (auto simp: surrogate_ranges)
    ultimately show ?thesis using False by (simp add: string_getc_def utf16_def)
  qed
qed

end
