(* ===== verification/AcornMem.thy ===== *)
theory AcornMem
  imports CUtils
begin

section \<open>Memory functions of the C library\<close>

text \<open>
  \<^verbatim>\<open>memcmp\<close>, \<^verbatim>\<open>memchr\<close> and \<^verbatim>\<open>strchr\<close> as the framework in \<^verbatim>\<open>src/base\<close> uses them. An object is a list of bytes and an index into it;
  an access behind its end is undefined behaviour. Of the result of \<^verbatim>\<open>memcmp\<close> only the sign is specified.
\<close>

fun byte_cmp :: "bytes \<Rightarrow> bytes \<Rightarrow> int" where
  "byte_cmp (a # as) (b # bs) = (if a < b then - 1 else if b < a then 1 else byte_cmp as bs)"
| "byte_cmp _ _ = 0"

definition memcmp :: "bytes \<Rightarrow> nat \<Rightarrow> bytes \<Rightarrow> nat \<Rightarrow> nat \<Rightarrow> int option" where
  "memcmp a i b j n = do { xs \<leftarrow> slice a i n; ys \<leftarrow> slice b j n; Some (byte_cmp xs ys) }"

fun memchr_loop :: "bytes \<Rightarrow> u8 \<Rightarrow> nat \<Rightarrow> nat option" where
  "memchr_loop [] c i = None"
| "memchr_loop (b # bs) c i = (if b = c then Some i else memchr_loop bs c (i + 1))"

text \<open>
  The index of the first \<open>c\<close> among the \<open>n\<close> bytes from \<open>i\<close> on; \<open>Some None\<close> is the null pointer. The bytes are read one after the
  other, up to the first that is \<open>c\<close>, and only a read of a byte behind the end is undefined.
\<close>

definition memchr :: "bytes \<Rightarrow> nat \<Rightarrow> u8 \<Rightarrow> nat \<Rightarrow> nat option option" where
  "memchr b i c n =
     (case memchr_loop (take n (drop i b)) c i of
        Some j \<Rightarrow> Some (Some j)
      | None \<Rightarrow> if i + n \<le> length b \<or> n = 0 then Some None else None)"

text \<open>Whether \<^verbatim>\<open>strchr(chars, c)\<close> is not null; the terminator counts as a character of the string.\<close>

definition strchr :: "bytes \<Rightarrow> u8 \<Rightarrow> bool" where
  "strchr chars c \<longleftrightarrow> c = 0 \<or> c \<in> set chars"

lemma byte_cmp_range: "byte_cmp xs ys \<in> {- 1, 0, 1}"
  by (induction xs ys rule: byte_cmp.induct) auto

lemma byte_cmp_eq_0: "length xs = length ys \<Longrightarrow> byte_cmp xs ys = 0 \<longleftrightarrow> xs = ys"
  by (induction xs ys rule: byte_cmp.induct) (auto simp: not_less)

lemma byte_cmp_swap: "byte_cmp ys xs = - byte_cmp xs ys"
  by (induction xs ys rule: byte_cmp.induct) (auto simp: not_less)

text \<open>With the shorter string first on a tie, the comparison is the lexicographic order.\<close>

lemma byte_cmp_lexordp:
  "ord_class.lexordp xs ys \<longleftrightarrow>
     byte_cmp (take (min (length xs) (length ys)) xs) (take (min (length xs) (length ys)) ys) < 0 \<or>
     byte_cmp (take (min (length xs) (length ys)) xs) (take (min (length xs) (length ys)) ys) = 0 \<and> length xs < length ys"
  by (induction xs ys rule: byte_cmp.induct) (auto simp: neq_Nil_conv)

lemma memchr_loop_Some:
  "memchr_loop bs c i = Some j \<longleftrightarrow> (\<exists>k < length bs. j = i + k \<and> bs ! k = c \<and> c \<notin> set (take k bs))"
proof (induction bs arbitrary: i)
  case (Cons b bs)
  show ?case
  proof (cases "b = c")
    case True
    have "k = 0" if "c \<notin> set (take k (b # bs))" for k using that True by (cases k) auto
    with True show ?thesis by fastforce
  next
    case False
    have "(\<exists>k < length (b # bs). j = i + k \<and> (b # bs) ! k = c \<and> c \<notin> set (take k (b # bs))) \<longleftrightarrow>
      (\<exists>k < length bs. j = i + 1 + k \<and> bs ! k = c \<and> c \<notin> set (take k bs))" (is "?l \<longleftrightarrow> ?r")
    proof
      assume ?l
      then obtain k where "k < length (b # bs)" "j = i + k" "(b # bs) ! k = c" "c \<notin> set (take k (b # bs))" by blast
      with False show ?r by (cases k) auto
    next
      assume ?r
      then obtain k where "k < length bs" "j = i + 1 + k" "bs ! k = c" "c \<notin> set (take k bs)" by blast
      with False show ?l by (intro exI [of _ "Suc k"]) auto
    qed
    with False Cons.IH show ?thesis by simp
  qed
qed simp

lemma memchr_loop_None: "memchr_loop bs c i = None \<longleftrightarrow> c \<notin> set bs"
  by (induction bs arbitrary: i) auto

subsection \<open>Sequences of operations\<close>

text \<open>
  A component that stores a value and whose every operation, where it is allowed, changes the value as its specification says, in
  every environment that keeps its contract. Then a sequence of allowed operations does.
\<close>

fun run_store :: "('s \<Rightarrow> 'op \<Rightarrow> 's option) \<Rightarrow> 's \<Rightarrow> 'op list \<Rightarrow> 's option" where
  "run_store exec s [] = Some s"
| "run_store exec s (op # ops) = do { s \<leftarrow> exec s op; run_store exec s ops }"

text \<open>Every operation of the sequence is allowed in the state it meets.\<close>

fun run_ok :: "('s \<Rightarrow> 'op \<Rightarrow> 's option) \<Rightarrow> ('s \<Rightarrow> 'op \<Rightarrow> bool) \<Rightarrow> 's \<Rightarrow> 'op list \<Rightarrow> bool" where
  "run_ok exec allowed s [] = True"
| "run_ok exec allowed s (op # ops) =
     (allowed s op \<and> (case exec s op of None \<Rightarrow> True | Some s' \<Rightarrow> run_ok exec allowed s' ops))"

locale value_store =
  fixes env_ok :: "'e \<Rightarrow> bool"
    and exec :: "'e \<Rightarrow> 's \<Rightarrow> 'op \<Rightarrow> 's option"
    and spec :: "'v \<Rightarrow> 'op \<Rightarrow> 'v"
    and allowed :: "'e \<Rightarrow> 's \<Rightarrow> 'op \<Rightarrow> bool"
    and inv :: "'s \<Rightarrow> bool"
    and contents :: "'s \<Rightarrow> 'v"
  assumes exec_spec: "env_ok e \<Longrightarrow> inv s \<Longrightarrow> allowed e s op \<Longrightarrow>
    \<exists>s'. exec e s op = Some s' \<and> inv s' \<and> contents s' = spec (contents s) op"
begin

lemma run_store_refines:
  assumes "env_ok e" and "inv s" and "run_ok (exec e) (allowed e) s ops"
  shows "\<exists>s'. run_store (exec e) s ops = Some s' \<and> inv s' \<and> contents s' = foldl spec (contents s) ops"
  using assms(2,3)
proof (induction ops arbitrary: s)
  case (Cons op ops)
  then obtain s' where "exec e s op = Some s'" "inv s'" "contents s' = spec (contents s) op" using exec_spec [OF assms(1), of s op] by auto
  with Cons.IH [of s'] Cons.prems show ?case by simp
qed simp

end

end
