(* ===== verification/Sha1.thy ===== *)
theory Sha1
  imports AcornMem
begin

unbundle bit_operations_syntax

section \<open>SHA-1\<close>

text \<open>
  The streaming SHA-1 implementation of \<^verbatim>\<open>base/hash.cpp\<close> and its equivalence with the digest as the standard FIPS 180-4
  defines it, on the message as a whole. The implementation keeps a window of 16 schedule words, which it overwrites in
  place, rotates the roles of five registers instead of moving their values, and absorbs a message in pieces.
\<close>

subsection \<open>The compression function\<close>

record SHA1_CTX =
  sc_state :: "u32 list"
  sc_count0 :: u32
  sc_count1 :: u32
  sc_buffer :: bytes

definition rol :: "u32 \<Rightarrow> nat \<Rightarrow> u32" where
  "rol value bits = push_bit bits value OR drop_bit (32 - bits) value"

text \<open>The macros \<^verbatim>\<open>blk0\<close> (little-endian) and \<^verbatim>\<open>blk\<close>: the schedule word and the window with the word stored in it.\<close>

definition blk0 :: "u32 list \<Rightarrow> nat \<Rightarrow> u32 \<times> u32 list" where
  "blk0 block i =
     (let v = (rol (block ! i) 24 AND 0xFF00FF00) OR (rol (block ! i) 8 AND 0x00FF00FF) in (v, block[i := v]))"

definition blk :: "u32 list \<Rightarrow> nat \<Rightarrow> u32 \<times> u32 list" where
  "blk block i =
     (let v = rol (block ! ((i + 13) mod 16) XOR block ! ((i + 8) mod 16) XOR block ! ((i + 2) mod 16) XOR block ! (i mod 16)) 1
      in (v, block[i mod 16 := v]))"

text \<open>The macros \<^verbatim>\<open>R0\<close> to \<^verbatim>\<open>R4\<close>: the new values of \<open>z\<close> and \<open>w\<close>, and the window.\<close>

definition R0 :: "u32 \<Rightarrow> u32 \<Rightarrow> u32 \<Rightarrow> u32 \<Rightarrow> u32 \<Rightarrow> nat \<Rightarrow> u32 list \<Rightarrow> u32 \<times> u32 \<times> u32 list" where
  "R0 v w x y z i block = (let (b, block) = blk0 block i in
     (z + (((w AND (x XOR y)) XOR y) + b + 0x5A827999 + rol v 5), rol w 30, block))"

definition R1 :: "u32 \<Rightarrow> u32 \<Rightarrow> u32 \<Rightarrow> u32 \<Rightarrow> u32 \<Rightarrow> nat \<Rightarrow> u32 list \<Rightarrow> u32 \<times> u32 \<times> u32 list" where
  "R1 v w x y z i block = (let (b, block) = blk block i in
     (z + (((w AND (x XOR y)) XOR y) + b + 0x5A827999 + rol v 5), rol w 30, block))"

definition R2 :: "u32 \<Rightarrow> u32 \<Rightarrow> u32 \<Rightarrow> u32 \<Rightarrow> u32 \<Rightarrow> nat \<Rightarrow> u32 list \<Rightarrow> u32 \<times> u32 \<times> u32 list" where
  "R2 v w x y z i block = (let (b, block) = blk block i in
     (z + ((w XOR x XOR y) + b + 0x6ED9EBA1 + rol v 5), rol w 30, block))"

definition R3 :: "u32 \<Rightarrow> u32 \<Rightarrow> u32 \<Rightarrow> u32 \<Rightarrow> u32 \<Rightarrow> nat \<Rightarrow> u32 list \<Rightarrow> u32 \<times> u32 \<times> u32 list" where
  "R3 v w x y z i block = (let (b, block) = blk block i in
     (z + ((((w OR x) AND y) OR (w AND x)) + b + 0x8F1BBCDC + rol v 5), rol w 30, block))"

definition R4 :: "u32 \<Rightarrow> u32 \<Rightarrow> u32 \<Rightarrow> u32 \<Rightarrow> u32 \<Rightarrow> nat \<Rightarrow> u32 list \<Rightarrow> u32 \<times> u32 \<times> u32 list" where
  "R4 v w x y z i block = (let (b, block) = blk block i in
     (z + ((w XOR x XOR y) + b + 0xCA62C1D6 + rol v 5), rol w 30, block))"

text \<open>
  The unrolled rounds. In round \<open>i\<close> the variables \<^verbatim>\<open>a\<close> to \<^verbatim>\<open>e\<close>, the elements 0 to 4 of the list, are passed in an order
  that moves on by one from round to round: \<^verbatim>\<open>R0(a,b,c,d,e, 0); R0(e,a,b,c,d, 1); R0(d,e,a,b,c, 2)\<close> and so on.
\<close>

definition role :: "nat \<Rightarrow> nat \<Rightarrow> nat" where
  "role i k = (4 * i + k) mod 5"

definition sha1_round :: "nat \<Rightarrow> u32 list \<times> u32 list \<Rightarrow> u32 list \<times> u32 list" where
  "sha1_round i = (\<lambda>(regs, block).
     let R = (if i < 16 then R0 else if i < 20 then R1 else if i < 40 then R2 else if i < 60 then R3 else R4);
         (z, w, block) =
           R (regs ! role i 0) (regs ! role i 1) (regs ! role i 2) (regs ! role i 3) (regs ! role i 4) i block
     in (regs[role i 4 := z, role i 1 := w], block))"

definition block_words :: "bytes \<Rightarrow> u32 list" where
  "block_words buffer = map (\<lambda>i. word_of_nat (le_val (take 4 (drop (4 * i) buffer)))) [0..<16]"

definition SHA1Transform :: "u32 list \<Rightarrow> bytes \<Rightarrow> u32 list" where
  "SHA1Transform state buffer =
     (let (regs, block) = fold sha1_round [0..<80] (state, block_words buffer) in map2 (+) state regs)"

subsection \<open>Absorbing a message\<close>

definition SHA1Init :: "bytes \<Rightarrow> SHA1_CTX" where
  "SHA1Init buffer =
     \<lparr>sc_state = [0x67452301, 0xEFCDAB89, 0x98BADCFE, 0x10325476, 0xC3D2E1F0], sc_count0 = 0, sc_count1 = 0,
      sc_buffer = buffer\<rparr>"

text \<open>
  \<^verbatim>\<open>for ( ; i + 63 < len; i += 64)\<close>, with the \<open>i\<close> at its end. Indices are 32 bits wide; the first argument bounds the
  iterations and is never used up, as each reads another block of the data.
\<close>

fun sha1_blocks :: "nat \<Rightarrow> u32 list \<Rightarrow> bytes \<Rightarrow> nat \<Rightarrow> nat \<Rightarrow> (u32 list \<times> nat) option" where
  "sha1_blocks 0 state data i len = None"
| "sha1_blocks (Suc n) state data i len =
     (if (i + 63) mod 2 ^ 32 < len then do {
        b \<leftarrow> slice data i 64;
        sha1_blocks n (SHA1Transform state b) data ((i + 64) mod 2 ^ 32) len }
      else Some (state, i))"

definition SHA1Update :: "SHA1_CTX \<Rightarrow> bytes \<Rightarrow> nat \<Rightarrow> SHA1_CTX option" where
  "SHA1Update context data len = do {
     let j = sc_count0 context;
     let count0 = j + push_bit 3 (word_of_nat len);
     let count1 = (if count0 < j then sc_count1 context + 1 else sc_count1 context) + drop_bit 29 (word_of_nat len);
     let j = unat (drop_bit 3 j AND 63);
     (state, buffer, i, j) \<leftarrow>
       (if (j + len) mod 2 ^ 32 > 63 then do {
          d \<leftarrow> slice data 0 (64 - j);
          buffer \<leftarrow> blit (sc_buffer context) j d;
          let state = SHA1Transform (sc_state context) buffer;
          (state, i) \<leftarrow> sha1_blocks (Suc (length data)) state data (64 - j) len;
          Some (state, buffer, i, 0) }
        else Some (sc_state context, sc_buffer context, 0, j));
     d \<leftarrow> slice data i (len - i);
     buffer \<leftarrow> blit buffer j d;
     Some \<lparr>sc_state = state, sc_count0 = count0, sc_count1 = count1, sc_buffer = buffer\<rparr> }"

text \<open>\<^verbatim>\<open>while ((context->count[0] & 504) != 448)\<close>; 64 iterations reach every residue.\<close>

fun sha1_pad :: "nat \<Rightarrow> SHA1_CTX \<Rightarrow> SHA1_CTX option" where
  "sha1_pad 0 context = None"
| "sha1_pad (Suc n) context =
     (if sc_count0 context AND 504 \<noteq> 448 then do {
        context \<leftarrow> SHA1Update context [0] 1;
        sha1_pad n context }
      else Some context)"

definition finalcount :: "SHA1_CTX \<Rightarrow> bytes" where
  "finalcount context = map (\<lambda>i.
     ucast (drop_bit ((3 - i mod 4) * 8) (if i \<ge> 4 then sc_count0 context else sc_count1 context) AND 255)) [0..<8]"

definition SHA1Final :: "SHA1_CTX \<Rightarrow> bytes option" where
  "SHA1Final context = do {
     let fc = finalcount context;
     context \<leftarrow> SHA1Update context [0x80] 1;
     context \<leftarrow> sha1_pad 65 context;
     context \<leftarrow> SHA1Update context fc 8;
     Some (map (\<lambda>i. ucast (drop_bit ((3 - i mod 4) * 8) (sc_state context ! (i div 4)) AND 255)) [0..<20]) }"

text \<open>
  \<open>sha1\<close> of a string's bytes. The stack object \<open>ctx\<close> is not initialized before \<^verbatim>\<open>SHA1Init\<close>, which leaves its buffer as
  it is: \<open>junk\<close> is what the buffer holds.
\<close>

definition sha1 :: "bytes \<Rightarrow> bytes \<Rightarrow> bytes option" where
  "sha1 junk str = do {
     ctx \<leftarrow> SHA1Update (SHA1Init junk) str (length str);
     SHA1Final ctx }"

text \<open>The operators of \<^verbatim>\<open>sha1_t\<close>, on the 20 bytes of two digests.\<close>

definition sha1_less :: "bytes \<Rightarrow> bytes \<Rightarrow> bool option" where
  "sha1_less s0 s1 = map_option (\<lambda>r. r < 0) (memcmp s0 0 s1 0 20)"

definition sha1_eq :: "bytes \<Rightarrow> bytes \<Rightarrow> bool option" where
  "sha1_eq s0 s1 = map_option (\<lambda>r. r = 0) (memcmp s0 0 s1 0 20)"

subsection \<open>The digest by the standard\<close>

definition be_word :: "bytes \<Rightarrow> u32" where
  "be_word bs = word_of_nat (le_val (rev bs))"

fun schedule :: "(nat \<Rightarrow> u32) \<Rightarrow> nat \<Rightarrow> u32" where
  "schedule M t =
     (if t < 16 then M t
      else word_rotl 1 (schedule M (t - 3) XOR schedule M (t - 8) XOR schedule M (t - 14) XOR schedule M (t - 16)))"

declare schedule.simps [simp del]

definition sha1_f :: "nat \<Rightarrow> u32 \<Rightarrow> u32 \<Rightarrow> u32 \<Rightarrow> u32" where
  "sha1_f t x y z =
     (if t < 20 then (x AND y) XOR (NOT x AND z)
      else if t < 40 then x XOR y XOR z
      else if t < 60 then (x AND y) XOR (x AND z) XOR (y AND z)
      else x XOR y XOR z)"

definition sha1_K :: "nat \<Rightarrow> u32" where
  "sha1_K t = (if t < 20 then 0x5A827999 else if t < 40 then 0x6ED9EBA1 else if t < 60 then 0x8F1BBCDC else 0xCA62C1D6)"

type_synonym regs = "u32 \<times> u32 \<times> u32 \<times> u32 \<times> u32"

fun fips_round :: "(nat \<Rightarrow> u32) \<Rightarrow> nat \<Rightarrow> regs \<Rightarrow> regs" where
  "fips_round M t (a, b, c, d, e) =
     (word_rotl 5 a + sha1_f t b c d + e + sha1_K t + schedule M t, a, word_rotl 30 b, c, d)"

fun fips_rounds :: "(nat \<Rightarrow> u32) \<Rightarrow> nat \<Rightarrow> regs \<Rightarrow> regs" where
  "fips_rounds M 0 r = r"
| "fips_rounds M (Suc t) r = fips_round M t (fips_rounds M t r)"

definition block_be :: "bytes \<Rightarrow> nat \<Rightarrow> u32" where
  "block_be b t = be_word (take 4 (drop (4 * t) b))"

fun fips_compress :: "regs \<Rightarrow> bytes \<Rightarrow> regs" where
  "fips_compress (h0, h1, h2, h3, h4) b =
     (let (a, b, c, d, e) = fips_rounds (block_be b) 80 (h0, h1, h2, h3, h4) in (h0 + a, h1 + b, h2 + c, h3 + d, h4 + e))"

definition blocks :: "bytes \<Rightarrow> bytes list" where
  "blocks m = map (\<lambda>i. take 64 (drop (64 * i) m)) [0..<length m div 64]"

definition fips_H0 :: regs where
  "fips_H0 = (0x67452301, 0xEFCDAB89, 0x98BADCFE, 0x10325476, 0xC3D2E1F0)"

definition fips_pad :: "bytes \<Rightarrow> bytes" where
  "fips_pad m = m @ 0x80 # replicate ((119 - length m mod 64) mod 64) 0 @ rev (le_bytes 8 (8 * length m))"

definition be_bytes :: "u32 \<Rightarrow> bytes" where
  "be_bytes w = rev (le_bytes 4 (unat w))"

definition fips_sha1 :: "bytes \<Rightarrow> bytes" where
  "fips_sha1 m = (case foldl fips_compress fips_H0 (blocks (fips_pad m)) of
     (a, b, c, d, e) \<Rightarrow> be_bytes a @ be_bytes b @ be_bytes c @ be_bytes d @ be_bytes e)"

subsection \<open>The rounds\<close>

fun reg_list :: "regs \<Rightarrow> u32 list" where
  "reg_list (a, b, c, d, e) = [a, b, c, d, e]"

lemma rol_rotl:
  assumes "0 < n" and "n < 32"
  shows "rol v n = word_rotl n v"
proof (rule bit_word_eqI)
  fix i assume "i < LENGTH(32)"
  then have i: "i < 32" by simp
  have "(i + 32 - n) mod 32 = (if n \<le> i then i - n else 32 + i - n)" using assms i by (auto simp: mod_if)
  with assms i show "bit (rol v n) i \<longleftrightarrow> bit (word_rotl n v) i"
    using bit_imp_le_length [of v "32 + i - n"] by (auto simp: rol_def bit_simps)
qed

lemma ch_eq: "((x AND (y XOR z)) XOR z) = (x AND y) XOR (NOT x AND z)" for x y z :: u32
  by (rule bit_word_eqI) (auto simp: bit_simps)

lemma maj_eq: "(((x OR y) AND z) OR (x AND y)) = (x AND y) XOR (x AND z) XOR (y AND z)" for x y z :: u32
  by (rule bit_word_eqI) (auto simp: bit_simps)

lemma bit_le_val: "bit (le_val bs) n \<longleftrightarrow> n < 8 * length bs \<and> bit (bs ! (n div 8)) (n mod 8)"
proof (induction bs arbitrary: n)
  case (Cons b bs)
  have v: "le_val (b # bs) = unat b OR push_bit 8 (le_val bs)"
  proof -
    have "unat b AND push_bit 8 (le_val bs) = 0"
      by (rule bit_eqI) (auto simp: bit_simps dest: bit_imp_le_length)
    then have "unat b OR push_bit 8 (le_val bs) = unat b + push_bit 8 (le_val bs)" by (simp add: disjunctive_add_eq_or)
    then show ?thesis by (simp add: push_bit_eq_mult mult.commute)
  qed
  show ?case
  proof (cases "n < 8")
    case True
    then show ?thesis unfolding v by (simp add: bit_simps)
  next
    case False
    then obtain k where k: "n = k + 8" by (metis le_add_diff_inverse2 not_less)
    have "\<not> bit (unat b) n" using False by (auto simp: bit_simps dest: bit_imp_le_length)
    moreover have "(k + 8) div 8 = Suc (k div 8)" by simp
    ultimately show ?thesis unfolding v using Cons.IH [of k] k by (simp add: bit_simps)
  qed
qed simp

lemma swap_bytes:
  assumes "length bs = 4" and v: "v = word_of_nat (le_val bs)"
  shows "(rol v 24 AND 0xFF00FF00) OR (rol v 8 AND 0x00FF00FF) = be_word bs"
proof -
  have bv: "bit v n \<longleftrightarrow> n < 32 \<and> bit (bs ! (n div 8)) (n mod 8)" for n using assms(1) by (auto simp: v bit_simps bit_le_val)
  have be: "bit (be_word bs) n \<longleftrightarrow> n < 32 \<and> bit (rev bs ! (n div 8)) (n mod 8)" for n
    using assms(1) by (auto simp: be_word_def bit_simps bit_le_val)
  obtain b0 b1 b2 b3 where bs: "bs = [b0, b1, b2, b3]" using assms(1) by (auto simp: eval_nat_numeral length_Suc_conv)
  show ?thesis
  proof (rule bit_word_eqI)
    fix n assume "n < LENGTH(32)"
    then have n: "n \<in> {0, 1, 2, 3, 4, 5, 6, 7, 8, 9, 10, 11, 12, 13, 14, 15, 16, 17, 18, 19, 20, 21, 22, 23, 24, 25, 26, 27, 28, 29, 30, 31}"
      by simp presburger
    show "bit ((rol v 24 AND 0xFF00FF00) OR (rol v 8 AND 0x00FF00FF)) n \<longleftrightarrow> bit (be_word bs) n"
      using n by (elim insertE emptyE) (simp_all add: rol_def bit_simps bv [unfolded bs] be [unfolded bs] bs)
  qed
qed

text \<open>
  The window after \<open>n\<close> rounds: the latest 16 schedule words, and in the beginning words of the block in the byte order
  of the machine.
\<close>

definition window_ok :: "bytes \<Rightarrow> nat \<Rightarrow> u32 list \<Rightarrow> bool" where
  "window_ok b n w \<longleftrightarrow> length w = 16 \<and> (\<forall>t. t < n \<and> n \<le> t + 16 \<longrightarrow> w ! (t mod 16) = schedule (block_be b) t) \<and>
     (\<forall>k. n \<le> k \<and> k < 16 \<longrightarrow> w ! k = block_words b ! k)"

lemma window_init: "window_ok b 0 (block_words b)"
  by (simp add: window_ok_def block_words_def)

lemma residue_differs: "t < n \<Longrightarrow> n < t + k \<Longrightarrow> n mod k \<noteq> t mod k" for t n k :: nat
proof
  assume less: "t < n" "n < t + k" and "n mod k = t mod k"
  then have "k dvd n - t" by (simp add: mod_eq_dvd_iff_nat)
  with less show False using dvd_imp_le [of k "n - t"] by simp
qed

lemma window_store:
  assumes "window_ok b n w"
  shows "window_ok b (Suc n) (w[n mod 16 := schedule (block_be b) n])"
proof -
  have "w[n mod 16 := schedule (block_be b) n] ! (t mod 16) = schedule (block_be b) t" if "t < Suc n" "Suc n \<le> t + 16" for t
    using assms that residue_differs [of t n 16] by (cases "t = n") (auto simp: window_ok_def)
  moreover have "w[n mod 16 := schedule (block_be b) n] ! k = block_words b ! k" if "Suc n \<le> k" "k < 16" for k
    using assms that by (auto simp: window_ok_def)
  ultimately show ?thesis using assms by (simp add: window_ok_def)
qed

lemma window_blk0:
  assumes "window_ok b n w" and "length b = 64" and "n < 16"
  shows "blk0 w n = (schedule (block_be b) n, w[n mod 16 := schedule (block_be b) n])"
  using assms swap_bytes [of "take 4 (drop (4 * n) b)" "w ! n"]
  by (simp add: window_ok_def block_words_def block_be_def blk0_def Let_def schedule.simps [of _ n])

lemma window_blk:
  assumes "window_ok b n w" and n: "\<not> n < 16"
  shows "blk w n = (schedule (block_be b) n, w[n mod 16 := schedule (block_be b) n])"
proof -
  obtain m where m: "n = m + 16" using n by (metis le_add_diff_inverse2 not_less)
  have w: "w ! (t mod 16) = schedule (block_be b) t" if "m \<le> t" "t < m + 16" for t using assms that m by (auto simp: window_ok_def)
  have i: "(n + k) mod 16 = (m + k) mod 16" "n mod 16 = m mod 16" for k
    using mod_add_self2 [of "m + k" 16] unfolding m by (simp_all add: ac_simps)
  have "schedule (block_be b) n = word_rotl 1 (schedule (block_be b) (m + 13) XOR schedule (block_be b) (m + 8) XOR
    schedule (block_be b) (m + 2) XOR schedule (block_be b) m)"
    by (subst schedule.simps) (simp add: m add.commute)
  then have "rol (w ! ((n + 13) mod 16) XOR w ! ((n + 8) mod 16) XOR w ! ((n + 2) mod 16) XOR w ! (n mod 16)) 1 =
    schedule (block_be b) n"
    unfolding i using w [of "m + 13"] w [of "m + 8"] w [of "m + 2"] w [of m] by (simp add: rol_rotl)
  then show ?thesis by (simp add: blk_def Let_def)
qed

lemma role_Suc: "role (Suc n) 0 = role n 4" "role (Suc n) (Suc 0) = role n 0" "role (Suc n) 2 = role n (Suc 0)"
  "role (Suc n) 3 = role n 2" "role (Suc n) 4 = role n 3"
proof -
  have "4 * Suc n + Suc k = 4 * n + k + 5" for k by simp
  then have s: "role (Suc n) (Suc k) = role n k" for k by (simp only: role_def mod_add_self2)
  show "role (Suc n) 0 = role n 4" by (simp add: role_def add.commute)
  show "role (Suc n) (Suc 0) = role n 0" "role (Suc n) 2 = role n (Suc 0)" "role (Suc n) 3 = role n 2" "role (Suc n) 4 = role n 3"
    using s [of 0] s [of 1] s [of 2] s [of 3] by (simp_all add: eval_nat_numeral)
qed

lemma role_inj: "i < 5 \<Longrightarrow> j < 5 \<Longrightarrow> role n i = role n j \<longleftrightarrow> i = j"
  using residue_differs [of "4 * n + i" "4 * n + j" 5] residue_differs [of "4 * n + j" "4 * n + i" 5]
  by (cases i j rule: linorder_cases) (auto simp: role_def)

lemma role_less: "role n k < 5"
  by (simp add: role_def)

lemma sha1_round_step:
  assumes "window_ok b n w" and "length b = 64" and "n < 80" and "length rs = 5"
    and "\<And>k. k < 5 \<Longrightarrow> rs ! role n k = reg_list r ! k"
  shows "\<exists>rs' w'. sha1_round n (rs, w) = (rs', w') \<and> window_ok b (Suc n) w' \<and> length rs' = 5 \<and>
    (\<forall>k < 5. rs' ! role (Suc n) k = reg_list (fips_round (block_be b) n r) ! k)"
proof -
  obtain x0 x1 x2 x3 x4 where r: "r = (x0, x1, x2, x3, x4)" by (cases r)
  have rs: "rs ! role n 0 = x0" "rs ! role n 1 = x1" "rs ! role n 2 = x2" "rs ! role n 3 = x3" "rs ! role n 4 = x4"
    using assms(5) [of 0] assms(5) [of 1] assms(5) [of 2] assms(5) [of 3] assms(5) [of 4] r by (simp_all add: eval_nat_numeral)
  define w' where "w' = w[n mod 16 := schedule (block_be b) n]"
  define z where "z = word_rotl 5 x0 + sha1_f n x1 x2 x3 + x4 + sha1_K n + schedule (block_be b) n"
  have blk: "(if n < 16 then blk0 w n else blk w n) = (schedule (block_be b) n, w')"
    using window_blk0 [OF assms(1,2)] window_blk [OF assms(1)] by (simp add: w'_def)
  have "(if n < 16 then R0 else if n < 20 then R1 else if n < 40 then R2 else if n < 60 then R3 else R4) x0 x1 x2 x3 x4 n w =
    (z, word_rotl 30 x1, w')"
    using blk unfolding R0_def R1_def R2_def R3_def R4_def z_def sha1_f_def sha1_K_def
    by (auto simp: ch_eq maj_eq rol_rotl add.assoc add.commute add.left_commute split: if_splits)
  then have "sha1_round n (rs, w) = (rs[role n 4 := z, role n 1 := word_rotl 30 x1], w')"
    unfolding sha1_round_def by (simp add: rs [unfolded One_nat_def])
  moreover have "\<forall>k < 5. rs[role n 4 := z, role n 1 := word_rotl 30 x1] ! role (Suc n) k = reg_list (z, x0, word_rotl 30 x1, x2, x3) ! k"
    (is "\<forall>k < 5. ?P k")
  proof (intro allI impI)
    fix k :: nat assume "k < 5"
    then consider "k = 0" | "k = 1" | "k = 2" | "k = 3" | "k = 4" by linarith
    then show "?P k"
      by cases (simp_all add: role_Suc role_inj role_less assms(4) nth_list_update rs [unfolded One_nat_def])
  qed
  moreover have "fips_round (block_be b) n r = (z, x0, word_rotl 30 x1, x2, x3)" by (simp add: r z_def)
  ultimately show ?thesis using window_store [OF assms(1)] assms(4) by (simp add: w'_def)
qed

lemma sha1_rounds:
  assumes "length b = 64" and "n \<le> 80"
  shows "\<exists>rs w. fold sha1_round [0..<n] (reg_list r, block_words b) = (rs, w) \<and> window_ok b n w \<and> length rs = 5 \<and>
    (\<forall>k < 5. rs ! role n k = reg_list (fips_rounds (block_be b) n r) ! k)"
  using assms(2)
proof (induction n)
  case 0
  then show ?case by (cases r) (simp add: window_init role_def)
next
  case (Suc n)
  then obtain rs w where "fold sha1_round [0..<n] (reg_list r, block_words b) = (rs, w)" "window_ok b n w" "length rs = 5"
    "\<forall>k < 5. rs ! role n k = reg_list (fips_rounds (block_be b) n r) ! k" by auto
  with sha1_round_step [of b n w rs "fips_rounds (block_be b) n r"] assms(1) Suc.prems show ?case by simp
qed

lemma SHA1Transform_fips:
  assumes "length b = 64"
  shows "SHA1Transform (reg_list r) b = reg_list (fips_compress r b)"
proof -
  obtain rs w where f: "fold sha1_round [0..<80] (reg_list r, block_words b) = (rs, w)" and l: "length rs = 5"
    and rs: "\<forall>k < 5. rs ! role 80 k = reg_list (fips_rounds (block_be b) 80 r) ! k"
    using sha1_rounds [OF assms, of 80 r] by auto
  obtain a b' c d e where e: "fips_rounds (block_be b) 80 r = (a, b', c, d, e)" by (cases "fips_rounds (block_be b) 80 r")
  have "rs ! 0 = a" "rs ! 1 = b'" "rs ! 2 = c" "rs ! 3 = d" "rs ! 4 = e"
    using rs [rule_format, of 0] rs [rule_format, of 1] rs [rule_format, of 2] rs [rule_format, of 3] rs [rule_format, of 4] e
    by (simp_all add: role_def)
  then have "rs = [a, b', c, d, e]" using l by (auto simp: eval_nat_numeral length_Suc_conv)
  with f e show ?thesis by (cases r) (simp add: SHA1Transform_def del: upt_rec_numeral)
qed

subsection \<open>Streaming\<close>

lemma foldl_SHA1Transform:
  "(\<forall>b\<in>set bs. length b = 64) \<Longrightarrow> foldl SHA1Transform (reg_list r) bs = reg_list (foldl fips_compress r bs)"
  by (induction bs arbitrary: r) (simp_all add: SHA1Transform_fips)

lemma length_blocks: "b \<in> set (blocks m) \<Longrightarrow> length b = 64"
proof -
  assume "b \<in> set (blocks m)"
  then obtain i where i: "i < length m div 64" "b = take 64 (drop (64 * i) m)" by (auto simp: blocks_def)
  then have "64 * Suc i \<le> 64 * (length m div 64)" by (intro mult_le_mono2) simp
  also have "\<dots> \<le> length m" by simp
  finally have "64 * i + 64 \<le> length m" by simp
  with i show ?thesis by simp
qed

lemma blocks_short: "length m < 64 \<Longrightarrow> blocks m = []"
  by (simp add: blocks_def)

lemma blocks_step:
  assumes "length a = 64"
  shows "blocks (a @ m) = a # blocks m"
proof -
  have l: "length (a @ m) div 64 = Suc (length m div 64)" using assms by simp
  have "take 64 (drop (64 * Suc i) (a @ m)) = take 64 (drop (64 * i) m)" for i using assms by simp
  then show ?thesis unfolding blocks_def l by (simp add: upt_conv_Cons map_Suc_upt [symmetric] assms del: upt_Suc)
qed

lemma blocks_append:
  assumes "64 dvd length a"
  shows "blocks (a @ m) = blocks a @ blocks m"
proof -
  obtain n where "length a = 64 * n" using assms by (auto elim: dvdE)
  then show ?thesis
  proof (induction n arbitrary: a)
    case (Suc n)
    then have l: "length (take 64 a) = 64" "length (drop 64 a) = 64 * n" by simp_all
    show ?case using Suc.IH [OF l(2)] blocks_step [OF l(1), of "drop 64 a @ m"] blocks_step [OF l(1), of "drop 64 a"]
      by (simp add: append_assoc [symmetric] del: append_assoc)
  qed (simp add: blocks_short)
qed

text \<open>What a context holds after it has absorbed the message \<open>m\<close>.\<close>

definition absorbed :: "SHA1_CTX \<Rightarrow> bytes \<Rightarrow> bool" where
  "absorbed ctx m \<longleftrightarrow>
     sc_state ctx = reg_list (foldl fips_compress fips_H0 (blocks m)) \<and> length (sc_buffer ctx) = 64 \<and>
     take (length m mod 64) (sc_buffer ctx) = drop (length m - length m mod 64) m \<and>
     sc_count0 ctx = word_of_nat (8 * length m) \<and> sc_count1 ctx = word_of_nat (8 * length m div 2 ^ 32)"

lemma absorbed_init: "length junk = 64 \<Longrightarrow> absorbed (SHA1Init junk) []"
  by (simp add: absorbed_def SHA1Init_def fips_H0_def blocks_short)

lemma sha1_blocks_spec:
  assumes "length data < 2 ^ 32" and "64 dvd i \<or> length data + 63 < 2 ^ 32" and "i \<le> length data" and "length data - i < n"
  shows "sha1_blocks n st data i (length data) =
    Some (foldl SHA1Transform st (blocks (drop i data)), i + 64 * ((length data - i) div 64))"
  using assms(2-4)
proof (induction n arbitrary: st i)
  case (Suc n)
  have nowrap: "(i + 63) mod 2 ^ 32 = i + 63"
  proof (cases "64 dvd i")
    case True
    then obtain k where "i = 64 * k" by (auto elim: dvdE)
    with Suc.prems(2) assms(1) have "i + 63 < 2 ^ 32" by (simp; presburger)
    then show ?thesis by simp
  qed (use Suc.prems in simp)
  show ?case
  proof (cases "i + 63 < length data")
    case True
    then have d: "drop i data = take 64 (drop i data) @ drop (i + 64) data" by (metis append_take_drop_id drop_drop add.commute)
    have b: "blocks (drop i data) = take 64 (drop i data) # blocks (drop (i + 64) data)"
      by (subst d, rule blocks_step) (use True in simp)
    have w: "(i + 64) mod 2 ^ 32 = i + 64" using True assms(1) by simp
    have q: "(length data - i) div 64 = Suc ((length data - (i + 64)) div 64)"
    proof -
      have "length data - i = (length data - (i + 64)) + 64" using True by simp
      moreover have "(k + 64) div 64 = Suc (k div 64)" for k :: nat by simp
      ultimately show ?thesis by (simp only:)
    qed
    have "sha1_blocks n (SHA1Transform st (take 64 (drop i data))) data (i + 64) (length data) =
      Some (foldl SHA1Transform (SHA1Transform st (take 64 (drop i data))) (blocks (drop (i + 64) data)),
        i + 64 + 64 * ((length data - (i + 64)) div 64))"
      using Suc.prems True by (intro Suc.IH) (auto intro: dvd_add)
    with True nowrap w q show ?thesis unfolding b by (simp add: slice_Some del: One_nat_def)
  next
    case False
    then have "(length data - i) div 64 = 0" by simp
    with False nowrap show ?thesis by (simp add: blocks_short)
  qed
qed simp

lemma count_step:
  fixes L l :: nat
  assumes "l < 2 ^ 32" and c0: "c0 = word_of_nat L" and c1: "c1 = word_of_nat (L div 2 ^ 32)"
  shows "c0 + push_bit 3 (word_of_nat l) = (word_of_nat (L + 8 * l) :: u32)"
    and "(if c0 + push_bit 3 (word_of_nat l) < c0 then c1 + 1 else c1) + drop_bit 29 (word_of_nat l) =
      (word_of_nat ((L + 8 * l) div 2 ^ 32) :: u32)"
proof -
  show s: "c0 + push_bit 3 (word_of_nat l) = (word_of_nat (L + 8 * l) :: u32)"
    by (simp add: c0 push_bit_eq_mult mult.commute)
  have d: "drop_bit 29 (word_of_nat l :: u32) = word_of_nat (8 * l div 2 ^ 32)"
  proof -
    have "unat (drop_bit 29 (word_of_nat l :: u32)) = l div 2 ^ 29"
      using assms(1) by (simp add: unat_drop_bit_div unat_of_nat)
    moreover have "8 * l div 2 ^ 32 = l div 2 ^ 29" by (simp add: div_mult2_eq [symmetric])
    ultimately show ?thesis by (metis of_nat_unat ucast_id)
  qed
  have u: "unat c0 = L mod 2 ^ 32" "unat (word_of_nat (L + 8 * l) :: u32) = (L + 8 * l) mod 2 ^ 32" by (simp_all add: c0 unat_of_nat del: of_nat_add of_nat_mult)
  have carry: "(L + 8 * l) div 2 ^ 32 = L div 2 ^ 32 + 8 * l div 2 ^ 32 + (if (L + 8 * l) mod 2 ^ 32 < L mod 2 ^ 32 then 1 else 0)"
  proof -
    have "(L + 8 * l) mod 2 ^ 32 = (L mod 2 ^ 32 + 8 * l mod 2 ^ 32) mod 2 ^ 32" by (simp add: mod_simps)
    moreover have "(L + 8 * l) div 2 ^ 32 = L div 2 ^ 32 + 8 * l div 2 ^ 32 + (L mod 2 ^ 32 + 8 * l mod 2 ^ 32) div 2 ^ 32"
      by (rule div_add1_eq)
    moreover have "(x + y) div N = (if (x + y) mod N < x then 1 else 0)" if "x < N" "y < N" for x y N :: nat
      using that by (cases "x + y < N") (simp_all add: le_div_geq le_mod_geq)
    ultimately show ?thesis by simp
  qed
  show "(if c0 + push_bit 3 (word_of_nat l) < c0 then c1 + 1 else c1) + drop_bit 29 (word_of_nat l) =
      (word_of_nat ((L + 8 * l) div 2 ^ 32) :: u32)"
    unfolding s d carry word_less_nat_alt u c1 by simp
qed

text \<open>The bytes in the buffer, and the blocks of a longer message.\<close>

lemma absorbed_split:
  assumes "absorbed ctx m"
  obtains m1 t where "m = m1 @ t" "64 dvd length m1" "length t = length m mod 64" "take (length t) (sc_buffer ctx) = t"
    "blocks m = blocks m1"
proof -
  let ?k = "length m - length m mod 64"
  have l: "length (drop ?k m) = length m mod 64" "64 dvd length (take ?k m)" by simp_all
  have "blocks (take ?k m @ drop ?k m) = blocks (take ?k m) @ blocks (drop ?k m)" by (rule blocks_append) (rule l)
  then have "blocks m = blocks (take ?k m)" using l(1) by (simp add: blocks_short)
  with l assms that [of "take ?k m" "drop ?k m"] show thesis by (simp add: absorbed_def)
qed

lemma bytes_held:
  assumes "absorbed ctx m"
  shows "unat (drop_bit 3 (sc_count0 ctx) AND 63) = length m mod 64"
proof -
  have "unat (drop_bit 3 (sc_count0 ctx) AND 63) = unat (sc_count0 ctx) div 8 mod 64"
    using unat_and_mask [of "drop_bit 3 (sc_count0 ctx)" 6] by (simp add: unat_drop_bit_div mask_eq_exp_minus_1)
  also have "\<dots> = (8 * length m mod 2 ^ 32) div 8 mod 64"
    using assms by (simp add: absorbed_def unat_of_nat del: of_nat_mult)
  also have "\<dots> = length m mod 64"
  proof -
    have "8 * length m mod 2 ^ 32 = 8 * (length m mod 2 ^ 29)" by (simp add: mult_mod_right)
    moreover have "length m mod 2 ^ 29 mod 64 = length m mod 64" by (rule mod_mod_cancel) simp
    ultimately show ?thesis by simp
  qed
  finally show ?thesis .
qed

lemma SHA1Update_absorbed:
  assumes ctx: "absorbed ctx m" and len: "length data < 2 ^ 32" and room: "64 dvd length m \<or> length data + 63 < 2 ^ 32"
  shows "\<exists>ctx'. SHA1Update ctx data (length data) = Some ctx' \<and> absorbed ctx' (m @ data)"
proof -
  obtain m1 t where m: "m = m1 @ t" "64 dvd length m1" and t: "length t = length m mod 64" "take (length t) (sc_buffer ctx) = t"
    and bm: "blocks m = blocks m1" by (rule absorbed_split [OF ctx])
  let ?j = "length t" and ?l = "length data"
  have j: "unat (drop_bit 3 (sc_count0 ctx) AND 63) = ?j" using bytes_held [OF ctx] t by simp
  have j64: "?j < 64" using t by simp
  have j0: "?j = 0" if "64 dvd length m" using that t(1) by (simp only: dvd_eq_mod_eq_0)
  have "?j + ?l < 2 ^ 32" using room len j64 j0 by (cases "64 dvd length m") simp_all
  then have nowrap: "(?j + ?l) mod 2 ^ 32 = ?j + ?l" by simp
  have buf: "length (sc_buffer ctx) = 64" using ctx by (simp add: absorbed_def)
  note cs = count_step [OF len, of "sc_count0 ctx" "8 * length m" "sc_count1 ctx"]
  have c0: "sc_count0 ctx + push_bit 3 (word_of_nat ?l) = word_of_nat (8 * length (m @ data))"
    and c1: "(if sc_count0 ctx + push_bit 3 (word_of_nat ?l) < sc_count0 ctx then sc_count1 ctx + 1 else sc_count1 ctx) +
      drop_bit 29 (word_of_nat ?l) = word_of_nat (8 * length (m @ data) div 2 ^ 32)"
    using cs ctx by (simp_all add: absorbed_def distrib_left)
  show ?thesis
  proof (cases "?j + ?l > 63")
    case True
    let ?i = "64 - ?j" and ?b = "t @ take (64 - ?j) data"
    have b: "length ?b = 64" "blit (sc_buffer ctx) ?j (take ?i data) = Some ?b" using True j64 buf t(2) by (simp_all add: blit_def)
    have i: "?i \<le> ?l" using True by simp
    have c: "64 dvd ?i \<or> ?l + 63 < 2 ^ 32"
    proof (cases "64 dvd length m")
      case True
      then show ?thesis by (simp add: j0)
    qed (use room in simp)
    have bl: "sha1_blocks (Suc ?l) (SHA1Transform (sc_state ctx) ?b) data ?i ?l =
      Some (foldl SHA1Transform (SHA1Transform (sc_state ctx) ?b) (blocks (drop ?i data)), ?i + 64 * ((?l - ?i) div 64))"
      by (rule sha1_blocks_spec [OF len c i]) simp
    have all: "blocks (m @ data) = blocks m @ ?b # blocks (drop ?i data)"
      using blocks_append [OF m(2), of "?b @ drop ?i data"] blocks_step [OF b(1), of "drop ?i data"] bm m(1) by simp
    have st: "foldl SHA1Transform (SHA1Transform (sc_state ctx) ?b) (blocks (drop ?i data)) =
      reg_list (foldl fips_compress fips_H0 (blocks (m @ data)))"
    proof -
      have "foldl SHA1Transform (sc_state ctx) (?b # blocks (drop ?i data)) =
        reg_list (foldl fips_compress (foldl fips_compress fips_H0 (blocks m)) (?b # blocks (drop ?i data)))"
        using ctx b(1) length_blocks by (subst foldl_SHA1Transform [symmetric]) (auto simp: absorbed_def)
      then show ?thesis by (simp add: all)
    qed
    define e where "e = ?i + 64 * ((?l - ?i) div 64)"
    have e: "e \<le> ?l" "?l - e = (?l - ?i) mod 64"
    proof -
      have "?l = ?i + (?l - ?i)" using i by simp
      moreover have "64 * ((?l - ?i) div 64) + (?l - ?i) mod 64 = ?l - ?i" by simp
      ultimately show "e \<le> ?l" "?l - e = (?l - ?i) mod 64" unfolding e_def by linarith+
    qed
    have e64: "?l - e < 64" unfolding e(2) by simp
    have r: "length (m @ data) mod 64 = (?l - ?i) mod 64"
    proof -
      have "length (m @ data) = length m1 + 64 + (?l - ?i)" using m(1) i j64 by simp
      then show ?thesis using m(2) by (simp add: mod_add_eq [symmetric] dvd_eq_mod_eq_0)
    qed
    have tail: "drop (length (m @ data) - length (m @ data) mod 64) (m @ data) = drop e data"
    proof -
      have "length (m @ data) - length (m @ data) mod 64 = length m + e"
        unfolding r e(2) [symmetric] using e(1) unfolding length_append by linarith
      then show ?thesis by simp
    qed
    let ?buf = "drop e data @ drop (?l - e) ?b"
    have lb: "length (drop e data) = ?l - e" by simp
    have "blit ?b 0 (drop e data) = Some ?buf" using e64 b(1) by (simp add: blit_def)
    moreover have "slice data e (?l - e) = Some (drop e data)" using e by (simp add: slice_def)
    moreover have "slice data 0 ?i = Some (take ?i data)" using i by (simp add: slice_def)
    ultimately have "SHA1Update ctx data ?l = Some \<lparr>sc_state = reg_list (foldl fips_compress fips_H0 (blocks (m @ data))),
        sc_count0 = word_of_nat (8 * length (m @ data)), sc_count1 = word_of_nat (8 * length (m @ data) div 2 ^ 32), sc_buffer = ?buf\<rparr>"
      unfolding SHA1Update_def Let_def j nowrap c1 unfolding c0 using True bl [folded e_def] st b by simp
    moreover have tk: "take (length (m @ data) mod 64) ?buf = drop e data" unfolding r e(2) [symmetric] by simp
    moreover have lb: "length ?buf = 64" using b(1) e64 by simp
    ultimately show ?thesis unfolding absorbed_def
      by - (rule exI, rule conjI, assumption, simp only: SHA1_CTX.simps tail tk lb simp_thms)
  next
    case False
    let ?buf = "take ?j (sc_buffer ctx) @ data @ drop (?j + ?l) (sc_buffer ctx)"
    have r: "length (m @ data) mod 64 = ?j + ?l"
      using m False by (simp add: mod_add_left_eq [symmetric, of "length m1"] dvd_eq_mod_eq_0 add.assoc)
    have "blit (sc_buffer ctx) ?j data = Some ?buf" using False buf by (simp add: blit_def)
    then have "SHA1Update ctx data ?l = Some \<lparr>sc_state = sc_state ctx,
        sc_count0 = word_of_nat (8 * length (m @ data)), sc_count1 = word_of_nat (8 * length (m @ data) div 2 ^ 32), sc_buffer = ?buf\<rparr>"
      unfolding SHA1Update_def Let_def j nowrap c1 unfolding c0 using False by (simp add: slice_def)
    moreover have "blocks (m @ data) = blocks m" using blocks_append [OF m(2), of "t @ data"] m(1) bm False by (simp add: blocks_short)
    moreover have "take (?j + ?l) ?buf = t @ data" using t(2) False buf by simp
    moreover have "drop (length (m @ data) - (?j + ?l)) (m @ data) = t @ data" using m(1) by simp
    ultimately show ?thesis using ctx r False buf by (simp add: absorbed_def)
  qed
qed

subsection \<open>Padding and the digest\<close>

lemma and_504:
  assumes "absorbed ctx m"
  shows "sc_count0 ctx AND 504 = 448 \<longleftrightarrow> length m mod 64 = 56"
proof -
  let ?w = "sc_count0 ctx"
  have "?w AND 504 = push_bit 3 (drop_bit 3 ?w AND 63)"
  proof (rule bit_word_eqI)
    fix n assume "n < LENGTH(32)"
    have "(504 :: u32) = push_bit 3 63" by simp
    then show "bit (?w AND 504) n \<longleftrightarrow> bit (push_bit 3 (drop_bit 3 ?w AND 63)) n"
      by (simp only: bit_and_iff bit_push_bit_iff bit_drop_bit_eq comp_def) (auto dest: bit_imp_le_length)
  qed
  then have "unat (?w AND 504) = unat (drop_bit 3 ?w AND 63) * 8 mod 2 ^ 32"
    using unat_push_bit_mod [of 3 "drop_bit 3 ?w AND 63"] by simp
  then have "unat (?w AND 504) = 8 * (length m mod 64)" using bytes_held [OF assms] by simp
  moreover have "?w AND 504 = 448 \<longleftrightarrow> unat (?w AND 504) = unat (448 :: u32)" by (rule word_unat_eq_iff)
  ultimately show ?thesis by simp
qed

lemma SHA1Update_byte: "absorbed ctx m \<Longrightarrow> \<exists>ctx'. SHA1Update ctx [b] 1 = Some ctx' \<and> absorbed ctx' (m @ [b])"
  using SHA1Update_absorbed [of ctx m "[b]"] by simp

lemma pad_step:
  assumes "r < 64" and "r \<noteq> 56"
  shows "(120 - r) mod 64 = Suc ((120 - Suc r mod 64) mod 64)"
  using assms by (cases "r < 56"; cases "r = 63") (simp_all add: le_mod_geq)

lemma sha1_pad_absorbed:
  assumes "absorbed ctx m" and "k = (120 - length m mod 64) mod 64" and "k < n"
  shows "\<exists>ctx'. sha1_pad n ctx = Some ctx' \<and> absorbed ctx' (m @ replicate k 0)"
  using assms
proof (induction n arbitrary: ctx m k)
  case (Suc n)
  show ?case
  proof (cases "length m mod 64 = 56")
    case True
    then show ?thesis using Suc.prems and_504 [OF Suc.prems(1)] by simp
  next
    case False
    obtain ctx' where c: "SHA1Update ctx [0] 1 = Some ctx'" "absorbed ctx' (m @ [0])" using SHA1Update_byte [OF Suc.prems(1)] by blast
    have k: "k = Suc ((120 - length (m @ [0 :: u8]) mod 64) mod 64)"
      using False Suc.prems(2) pad_step [of "length m mod 64"] by (simp add: mod_Suc_eq)
    obtain ctx'' where "sha1_pad n ctx' = Some ctx''" "absorbed ctx'' ((m @ [0]) @ replicate ((120 - length (m @ [0 :: u8]) mod 64) mod 64) 0)"
      using Suc.IH [OF c(2) refl] Suc.prems(3) k by auto
    with c(1) False and_504 [OF Suc.prems(1)] k show ?thesis by (simp del: One_nat_def)
  qed
qed simp

lemma nth_le_bytes: "i < n \<Longrightarrow> le_bytes n v ! i = word_of_nat (v div 256 ^ i mod 256)"
proof (induction n arbitrary: i v)
  case (Suc n)
  then show ?case by (cases i) (simp_all add: div_mult2_eq)
qed simp

lemma ucast_byte: "ucast (w AND 255 :: u32) = (word_of_nat (unat w mod 256) :: u8)"
proof -
  have "unat (w AND 255) = unat w mod 256" using unat_and_mask [of w 8] by (simp add: mask_eq_exp_minus_1)
  then show ?thesis by (metis of_nat_unat)
qed

lemma finalcount_be:
  assumes "absorbed ctx m"
  shows "finalcount ctx = rev (le_bytes 8 (8 * length m))"
proof (rule nth_equalityI)
  show "length (finalcount ctx) = length (rev (le_bytes 8 (8 * length m)))" by (simp add: finalcount_def)
next
  fix i assume "i < length (finalcount ctx)"
  then have i: "i < 8" by (simp add: finalcount_def)
  let ?L = "8 * length m"
  have c: "unat (sc_count0 ctx) = ?L mod 2 ^ 32" "unat (sc_count1 ctx) = ?L div 2 ^ 32 mod 2 ^ 32"
    using assms by (simp_all add: absorbed_def unat_of_nat del: of_nat_mult)
  have e: "rev (le_bytes 8 ?L) ! i = word_of_nat (?L div 256 ^ (7 - i) mod 256)"
    using i by (simp add: rev_nth nth_le_bytes)
  have d: "a mod 2 ^ 32 div 2 ^ (k * 8) mod 256 = a div 256 ^ k mod 256" if "k < 4" for a k :: nat
  proof -
    obtain c where c: "(2 :: nat) ^ 32 = 2 ^ (k * 8) * (256 * c)"
    proof
      have "32 = k * 8 + (8 + (3 - k) * 8)" using \<open>k < 4\<close> by (simp add: diff_mult_distrib)
      then show "(2 :: nat) ^ 32 = 2 ^ (k * 8) * (256 * 2 ^ ((3 - k) * 8))" by (simp only: power_add) simp
    qed
    have "a mod 2 ^ 32 div 2 ^ (k * 8) = a div 2 ^ (k * 8) mod (256 * c)" unfolding c by (simp add: mod_mult2_eq)
    moreover have "(2 :: nat) ^ (k * 8) = 256 ^ k" by (simp add: power_mult mult.commute [of k])
    ultimately show ?thesis by (simp add: mod_mod_cancel)
  qed
  have n: "finalcount ctx ! i = word_of_nat (unat (if i \<ge> 4 then sc_count0 ctx else sc_count1 ctx) div 2 ^ ((3 - i mod 4) * 8) mod 256)"
    using i by (simp add: finalcount_def ucast_byte unat_drop_bit_div del: upt_rec_numeral)
  show "finalcount ctx ! i = rev (le_bytes 8 ?L) ! i"
  proof (cases "4 \<le> i")
    case True
    then have "3 - i mod 4 = 7 - i" using i by (simp add: le_mod_geq)
    moreover have "7 - i < 4" using True by simp
    ultimately show ?thesis using True d [of "7 - i" ?L] unfolding n e by (simp add: c)
  next
    case False
    then have "(256 :: nat) ^ (7 - i) = 2 ^ 32 * 256 ^ (3 - i)" using power_add [of "256 :: nat" 4 "3 - i"] by simp
    then have "?L div 256 ^ (7 - i) = ?L div 2 ^ 32 div 256 ^ (3 - i)" by (simp only: div_mult2_eq)
    then show ?thesis using False d [of "3 - i" "?L div 2 ^ 32"] unfolding n e by (simp add: c)
  qed
qed

lemma digest_be:
  "map (\<lambda>i. ucast (drop_bit ((3 - i mod 4) * 8) (reg_list (a, b, c, d, e) ! (i div 4)) AND 255)) [0..<20] =
     be_bytes a @ be_bytes b @ be_bytes c @ be_bytes d @ be_bytes e"
proof -
  have w: "be_bytes w = [ucast (drop_bit 24 w AND 255), ucast (drop_bit 16 w AND 255), ucast (drop_bit 8 w AND 255), ucast (w AND 255)]" for w
  proof -
    have "le_bytes (Suc (Suc (Suc (Suc 0)))) v = [word_of_nat (v mod 256), word_of_nat (v div 256 mod 256),
      word_of_nat (v div 65536 mod 256), word_of_nat (v div 16777216 mod 256)]" for v
      by (simp add: div_mult2_eq [symmetric])
    moreover have "4 = Suc (Suc (Suc (Suc 0)))" by simp
    ultimately show ?thesis unfolding be_bytes_def ucast_byte unat_drop_bit_div by (simp only:) simp
  qed
  have u: "[0..<20] = [0, 1, 2, 3, 4, 5, 6, 7, 8, 9, 10, 11, 12, 13, 14, 15, 16, 17, 18, 19]" by (simp add: upt_rec)
  show ?thesis unfolding w u by simp
qed

text \<open>
  C26. The digest. For every message of less than \<open>2 ^ 32\<close> bytes \<^verbatim>\<open>sha1\<close> stays inside its buffers and returns the digest of
  the standard, whatever the uninitialized context held: absorbing in place with a window of 16 schedule words, padding
  one byte at a time and counting bits in two halves agree with the definition on the whole padded message.
\<close>

theorem sha1_fips:
  assumes "length str < 2 ^ 32" and "length junk = 64"
  shows "sha1 junk str = Some (fips_sha1 str)"
proof -
  obtain c1 where c1: "SHA1Update (SHA1Init junk) str (length str) = Some c1" "absorbed c1 str"
    using SHA1Update_absorbed [OF absorbed_init [OF assms(2)] assms(1)] by auto
  obtain c2 where c2: "SHA1Update c1 [0x80] 1 = Some c2" "absorbed c2 (str @ [0x80])" using SHA1Update_byte [OF c1(2)] by blast
  let ?k = "(120 - length (str @ [0x80 :: u8]) mod 64) mod 64"
  obtain c3 where c3: "sha1_pad 65 c2 = Some c3" "absorbed c3 ((str @ [0x80]) @ replicate ?k 0)"
    using sha1_pad_absorbed [OF c2(2) refl, of 65] mod_less_divisor [of 64 "120 - length (str @ [0x80 :: u8]) mod 64"] by force
  let ?fc = "rev (le_bytes 8 (8 * length str))"
  obtain c4 where c4: "SHA1Update c3 ?fc 8 = Some c4" "absorbed c4 (((str @ [0x80]) @ replicate ?k 0) @ ?fc)"
    using SHA1Update_absorbed [OF c3(2), of ?fc] by auto
  have "?k = (119 - length str mod 64) mod 64"
    by (cases "length str mod 64 = 63") (simp_all add: mod_Suc)
  then have pad: "((str @ [0x80]) @ replicate ?k 0) @ ?fc = fips_pad str" by (simp add: fips_pad_def)
  obtain a b c d e where f: "foldl fips_compress fips_H0 (blocks (fips_pad str)) = (a, b, c, d, e)"
    by (cases "foldl fips_compress fips_H0 (blocks (fips_pad str))")
  with c4(2) have "sc_state c4 = reg_list (a, b, c, d, e)" unfolding pad by (simp add: absorbed_def)
  with c1 c2 c3 c4 f finalcount_be [OF c1(2)] show ?thesis
    unfolding sha1_def SHA1Final_def Let_def fips_sha1_def using digest_be [of a b c d e] by (simp del: reg_list.simps One_nat_def)
qed

theorem sha1_fips_witness:
  "sha1 (replicate 64 0x5a) [0x61, 0x62, 0x63] = Some (fips_sha1 [0x61, 0x62, 0x63])"
  using sha1_fips [of "[0x61, 0x62, 0x63]" "replicate 64 0x5a"] by simp

end
