(* ===== verification/CityHash.thy ===== *)
theory CityHash
  imports AcornMem
begin

unbundle bit_operations_syntax

section \<open>CityHash\<close>

text \<open>
  \<^verbatim>\<open>CityHash32\<close> and \<^verbatim>\<open>CityHash64\<close> of \<^verbatim>\<open>base/hash.cpp\<close>, which hash the bytes of a string. The string is a byte object; the functions
  read words at computed positions in it, on a little-endian machine. Both stay within the first \<open>len\<close> bytes.
\<close>

subsection \<open>Words and mixing\<close>

definition Fetch64 :: "bytes \<Rightarrow> nat \<Rightarrow> u64 option" where
  "Fetch64 s p = map_option (\<lambda>b. word_of_nat (le_val b)) (slice s p 8)"

definition Fetch32 :: "bytes \<Rightarrow> nat \<Rightarrow> u32 option" where
  "Fetch32 s p = map_option (\<lambda>b. word_of_nat (le_val b)) (slice s p 4)"

definition k0 :: u64 where "k0 = 0xc3a5c85c97cb3127"
definition k1 :: u64 where "k1 = 0xb492b66fbe98f273"
definition k2 :: u64 where "k2 = 0x9ae16a3b2f90404f"
definition c1 :: u32 where "c1 = 0xcc9e2d51"
definition c2 :: u32 where "c2 = 0x1b873593"

definition fmix :: "u32 \<Rightarrow> u32" where
  "fmix h =
     (let h = h XOR drop_bit 16 h; h = h * 0x85ebca6b; h = h XOR drop_bit 13 h; h = h * 0xc2b2ae35
      in h XOR drop_bit 16 h)"

definition Rotate32 :: "u32 \<Rightarrow> nat \<Rightarrow> u32" where
  "Rotate32 val shift = (if shift = 0 then val else drop_bit shift val OR push_bit (32 - shift) val)"

definition Mur :: "u32 \<Rightarrow> u32 \<Rightarrow> u32" where
  "Mur a h =
     (let a = a * c1; a = Rotate32 a 17; a = a * c2; h = h XOR a; h = Rotate32 h 19 in h * 5 + 0xe6546b64)"

definition Rotate :: "u64 \<Rightarrow> nat \<Rightarrow> u64" where
  "Rotate val shift = (if shift = 0 then val else drop_bit shift val OR push_bit (64 - shift) val)"

definition ShiftMix :: "u64 \<Rightarrow> u64" where
  "ShiftMix val = val XOR drop_bit 47 val"

text \<open>The two overloads of \<^verbatim>\<open>HashLen16\<close>; the first has a fixed multiplier.\<close>

definition HashLen16_mul :: "u64 \<Rightarrow> u64 \<Rightarrow> u64 \<Rightarrow> u64" where
  "HashLen16_mul u v mul =
     (let a = (u XOR v) * mul; a = a XOR drop_bit 47 a; b = (v XOR a) * mul; b = b XOR drop_bit 47 b in b * mul)"

definition HashLen16 :: "u64 \<Rightarrow> u64 \<Rightarrow> u64" where
  "HashLen16 u v =
     (let kMul = 0x9ddfea08eb382d69; a = (u XOR v) * kMul; a = a XOR drop_bit 47 a;
          b = (v XOR a) * kMul; b = b XOR drop_bit 47 b in b * kMul)"

definition WeakHashLen32 :: "u64 \<Rightarrow> u64 \<Rightarrow> u64 \<Rightarrow> u64 \<Rightarrow> u64 \<Rightarrow> u64 \<Rightarrow> u64 \<times> u64" where
  "WeakHashLen32 w x y z a b =
     (let a = a + w; b = Rotate (b + a + z) 21; c = a; a = a + x; a = a + y; b = b + Rotate a 44 in (a + z, b + c))"

definition WeakHashLen32WithSeeds :: "bytes \<Rightarrow> nat \<Rightarrow> u64 \<Rightarrow> u64 \<Rightarrow> (u64 \<times> u64) option" where
  "WeakHashLen32WithSeeds s p a b = do {
     w \<leftarrow> Fetch64 s p;
     x \<leftarrow> Fetch64 s (p + 8);
     y \<leftarrow> Fetch64 s (p + 16);
     z \<leftarrow> Fetch64 s (p + 24);
     Some (WeakHashLen32 w x y z a b) }"

subsection \<open>The 32-bit hash\<close>

text \<open>The loop for at most four characters; \<^verbatim>\<open>signed char v = s[i]\<close> is sign-extended.\<close>

fun hash_chars :: "nat \<Rightarrow> bytes \<Rightarrow> nat \<Rightarrow> u32 \<Rightarrow> u32 \<Rightarrow> (u32 \<times> u32) option" where
  "hash_chars 0 s i b c = Some (b, c)"
| "hash_chars (Suc n) s i b c = do {
     v \<leftarrow> rd s i;
     let b = b * c1 + scast v;
     hash_chars n s (i + 1) b (c XOR b) }"

definition mix5 :: "u32 \<Rightarrow> u32" where
  "mix5 h = h * 5 + 0xe6546b64"

definition fetch_mix :: "bytes \<Rightarrow> nat \<Rightarrow> u32 option" where
  "fetch_mix s p = do { a \<leftarrow> Fetch32 s p; Some (Rotate32 (a * c1) 17 * c2) }"

text \<open>The loop over chunks of 20 bytes from \<open>p\<close> on; the state is \<open>(h, g, f)\<close>, the last line of the body permutes it.\<close>

fun hash_chunks :: "nat \<Rightarrow> bytes \<Rightarrow> nat \<Rightarrow> u32 \<times> u32 \<times> u32 \<Rightarrow> (u32 \<times> u32 \<times> u32) option" where
  "hash_chunks 0 s p (h, g, f) = Some (h, g, f)"
| "hash_chunks (Suc iters) s p (h, g, f) = do {
     a0 \<leftarrow> fetch_mix s p;
     a1 \<leftarrow> Fetch32 s (p + 4);
     a2 \<leftarrow> fetch_mix s (p + 8);
     a3 \<leftarrow> fetch_mix s (p + 12);
     a4 \<leftarrow> Fetch32 s (p + 16);
     let h = mix5 (Rotate32 (h XOR a0) 18);
     let f = Rotate32 (f + a1) 19 * c1;
     let g = mix5 (Rotate32 (g + a2) 18);
     let h = mix5 (Rotate32 (h XOR (a3 + a1)) 19);
     let g = bswap32 (g XOR a4) * 5;
     let h = bswap32 (h + a4 * 5);
     let f = f + a0;
     hash_chunks iters s (p + 20) (f, h, g) }"

definition hash_long :: "bytes \<Rightarrow> nat \<Rightarrow> u32 option" where
  "hash_long s len = do {
     let h = word_of_nat len;
     let g = c1 * word_of_nat len;
     let f = g;
     a0 \<leftarrow> fetch_mix s (len - 4);
     a1 \<leftarrow> fetch_mix s (len - 8);
     a2 \<leftarrow> fetch_mix s (len - 16);
     a3 \<leftarrow> fetch_mix s (len - 12);
     a4 \<leftarrow> fetch_mix s (len - 20);
     let h = mix5 (Rotate32 (h XOR a0) 19);
     let h = mix5 (Rotate32 (h XOR a2) 19);
     let g = mix5 (Rotate32 (g XOR a1) 19);
     let g = mix5 (Rotate32 (g XOR a3) 19);
     let f = mix5 (Rotate32 (f + a4) 19);
     (h, g, f) \<leftarrow> hash_chunks ((len - 1) div 20) s 0 (h, g, f);
     let g = Rotate32 g 11 * c1;
     let g = Rotate32 g 17 * c1;
     let f = Rotate32 f 11 * c1;
     let f = Rotate32 f 17 * c1;
     let h = mix5 (Rotate32 (h + g) 19);
     let h = Rotate32 h 17 * c1;
     let h = mix5 (Rotate32 (h + f) 19);
     Some (Rotate32 h 17 * c1) }"

definition CityHash32 :: "bytes \<Rightarrow> nat \<Rightarrow> u32 option" where
  "CityHash32 s len =
     (if len \<le> 24 then
        if len \<le> 12 then
          if len \<le> 4 then do {
            (b, c) \<leftarrow> hash_chars len s 0 0 9;
            Some (fmix (Mur b (Mur (word_of_nat len) c))) }
          else do {
            let a = word_of_nat len;
            let b = word_of_nat len * 5;
            let d = b;
            x \<leftarrow> Fetch32 s 0;
            y \<leftarrow> Fetch32 s (len - 4);
            z \<leftarrow> Fetch32 s (unat (drop_bit 1 (word_of_nat len :: u32) AND 4));
            Some (fmix (Mur (9 + z) (Mur (b + y) (Mur (a + x) d)))) }
        else do {
          a \<leftarrow> Fetch32 s (len div 2 - 4);
          b \<leftarrow> Fetch32 s 4;
          c \<leftarrow> Fetch32 s (len - 8);
          d \<leftarrow> Fetch32 s (len div 2);
          e \<leftarrow> Fetch32 s 0;
          f \<leftarrow> Fetch32 s (len - 4);
          let h = word_of_nat len;
          Some (fmix (Mur f (Mur e (Mur d (Mur c (Mur b (Mur a h))))))) }
      else hash_long s len)"

subsection \<open>The 64-bit hash\<close>

definition hash64_upto16 :: "bytes \<Rightarrow> nat \<Rightarrow> u64 option" where
  "hash64_upto16 s len =
     (if len \<ge> 8 then do {
        let mul = k2 + word_of_nat (len * 2);
        x \<leftarrow> Fetch64 s 0;
        let a = x + k2;
        b \<leftarrow> Fetch64 s (len - 8);
        let c = Rotate b 37 * mul + a;
        let d = (Rotate a 25 + b) * mul;
        Some (HashLen16_mul c d mul) }
      else if len \<ge> 4 then do {
        let mul = k2 + word_of_nat (len * 2);
        a \<leftarrow> Fetch32 s 0;
        b \<leftarrow> Fetch32 s (len - 4);
        Some (HashLen16_mul (word_of_nat len + push_bit 3 (ucast a)) (ucast b) mul) }
      else if len > 0 then do {
        a \<leftarrow> rd s 0;
        b \<leftarrow> rd s (len div 2);
        c \<leftarrow> rd s (len - 1);
        let y = (ucast a :: u32) + push_bit 8 (ucast b);
        let z = (word_of_nat len :: u32) + push_bit 2 (ucast c);
        Some (ShiftMix (ucast y * k2 XOR ucast z * k0) * k2) }
      else Some k2)"

definition hash64_upto32 :: "bytes \<Rightarrow> nat \<Rightarrow> u64 option" where
  "hash64_upto32 s len = do {
     let mul = k2 + word_of_nat (len * 2);
     x \<leftarrow> Fetch64 s 0;
     let a = x * k1;
     b \<leftarrow> Fetch64 s 8;
     y \<leftarrow> Fetch64 s (len - 8);
     let c = y * mul;
     z \<leftarrow> Fetch64 s (len - 16);
     let d = z * k2;
     Some (HashLen16_mul (Rotate (a + b) 43 + Rotate c 30 + d) (a + Rotate (b + k2) 18 + c) mul) }"

definition hash64_upto64 :: "bytes \<Rightarrow> nat \<Rightarrow> u64 option" where
  "hash64_upto64 s len = do {
     let mul = k2 + word_of_nat (len * 2);
     a \<leftarrow> Fetch64 s 0;
     let a = a * k2;
     b \<leftarrow> Fetch64 s 8;
     c \<leftarrow> Fetch64 s (len - 24);
     d \<leftarrow> Fetch64 s (len - 32);
     e \<leftarrow> Fetch64 s 16;
     let e = e * k2;
     f \<leftarrow> Fetch64 s 24;
     let f = f * 9;
     g \<leftarrow> Fetch64 s (len - 8);
     h \<leftarrow> Fetch64 s (len - 16);
     let h = h * mul;
     let u = Rotate (a + g) 43 + (Rotate b 30 + c) * 9;
     let v = ((a + g) XOR d) + f + 1;
     let w = bswap64 ((u + v) * mul) + h;
     let x = Rotate (e + f) 42 + c;
     let y = (bswap64 ((v + w) * mul) + g) * mul;
     let z = e + f + c;
     let a = bswap64 ((x + z) * mul + y) + b;
     let b = ShiftMix ((z + a) * mul + d + h) * mul;
     Some (b + x) }"

text \<open>The loop over chunks of 64 bytes from \<open>p\<close> on, with \<open>v\<close>, \<open>w\<close>, \<open>x\<close>, \<open>y\<close> and \<open>z\<close>.\<close>

type_synonym city_state = "(u64 \<times> u64) \<times> (u64 \<times> u64) \<times> u64 \<times> u64 \<times> u64"

fun hash64_chunks :: "nat \<Rightarrow> bytes \<Rightarrow> nat \<Rightarrow> city_state \<Rightarrow> city_state option" where
  "hash64_chunks 0 s p st = Some st"
| "hash64_chunks (Suc n) s p (v, w, x, y, z) = do {
     f8 \<leftarrow> Fetch64 s (p + 8);
     let x = Rotate (x + y + fst v + f8) 37 * k1;
     f48 \<leftarrow> Fetch64 s (p + 48);
     let y = Rotate (y + snd v + f48) 42 * k1;
     let x = x XOR snd w;
     f40 \<leftarrow> Fetch64 s (p + 40);
     let y = y + (fst v + f40);
     let z = Rotate (z + fst w) 33 * k1;
     v \<leftarrow> WeakHashLen32WithSeeds s p (snd v * k1) (x + fst w);
     f16 \<leftarrow> Fetch64 s (p + 16);
     w \<leftarrow> WeakHashLen32WithSeeds s (p + 32) (z + snd w) (y + f16);
     hash64_chunks n s (p + 64) (v, w, z, y, x) }"

definition hash64_long :: "bytes \<Rightarrow> nat \<Rightarrow> u64 option" where
  "hash64_long s len = do {
     x \<leftarrow> Fetch64 s (len - 40);
     f16 \<leftarrow> Fetch64 s (len - 16);
     f56 \<leftarrow> Fetch64 s (len - 56);
     let y = f16 + f56;
     f48 \<leftarrow> Fetch64 s (len - 48);
     f24 \<leftarrow> Fetch64 s (len - 24);
     let z = HashLen16 (f48 + word_of_nat len) f24;
     v \<leftarrow> WeakHashLen32WithSeeds s (len - 64) (word_of_nat len) z;
     w \<leftarrow> WeakHashLen32WithSeeds s (len - 32) (y + k1) x;
     f0 \<leftarrow> Fetch64 s 0;
     let x = x * k1 + f0;
     let len = (len - 1) div 64 * 64;
     (v, w, x, y, z) \<leftarrow> hash64_chunks (len div 64) s 0 (v, w, x, y, z);
     Some (HashLen16 (HashLen16 (fst v) (fst w) + ShiftMix y * k1 + z) (HashLen16 (snd v) (snd w) + x)) }"

definition CityHash64 :: "bytes \<Rightarrow> nat \<Rightarrow> u64 option" where
  "CityHash64 s len =
     (if len \<le> 32 then if len \<le> 16 then hash64_upto16 s len else hash64_upto32 s len
      else if len \<le> 64 then hash64_upto64 s len
      else hash64_long s len)"

subsection \<open>What the functions read\<close>

text \<open>
  A computation \<open>F\<close> on a byte object that is defined whenever the object has \<open>len\<close> bytes, and depends on these only.
\<close>

definition reads :: "nat \<Rightarrow> (bytes \<Rightarrow> 'a option) \<Rightarrow> bool" where
  "reads len F \<longleftrightarrow>
     (\<forall>s s'. len \<le> length s \<and> len \<le> length s' \<and> take len s = take len s' \<longrightarrow> (\<exists>x. F s = Some x \<and> F s' = Some x))"

lemma readsD:
  "reads len F \<Longrightarrow> len \<le> length s \<and> len \<le> length s' \<and> take len s = take len s' \<Longrightarrow> \<exists>x. F s = Some x \<and> F s' = Some x"
  unfolding reads_def by blast

named_theorems reads_intros \<open>which computations stay within a prefix\<close>

lemma reads_Some [reads_intros]: "reads len (\<lambda>s. Some x)"
  by (simp add: reads_def)

lemma reads_bind [reads_intros]:
  assumes F: "reads len F" and G: "\<And>x. reads len (G x)"
  shows "reads len (\<lambda>s. Option.bind (F s) (\<lambda>x. G x s))"
  unfolding reads_def
proof (intro allI impI)
  fix s s' :: bytes assume s: "len \<le> length s \<and> len \<le> length s' \<and> take len s = take len s'"
  then obtain x where x: "F s = Some x" "F s' = Some x" using readsD [OF F] by blast
  with readsD [OF G [of x] s] show "\<exists>y. Option.bind (F s) (\<lambda>x. G x s) = Some y \<and> Option.bind (F s') (\<lambda>x. G x s') = Some y"
    by simp
qed

lemma reads_prod [reads_intros]: "(\<And>a b. reads len (G a b)) \<Longrightarrow> reads len (\<lambda>s. case x of (a, b) \<Rightarrow> G a b s)"
  by (cases x) simp

lemma reads_if [reads_intros]: "(c \<Longrightarrow> reads len F) \<Longrightarrow> (\<not> c \<Longrightarrow> reads len G) \<Longrightarrow> reads len (\<lambda>s. if c then F s else G s)"
  by (cases c) simp_all

lemma reads_map [reads_intros]: "reads len F \<Longrightarrow> reads len (\<lambda>s. map_option f (F s))"
  unfolding map_conv_bind_option by (rule reads_bind) (simp_all add: reads_Some)

lemma reads_slice [reads_intros]:
  assumes "p + n \<le> len"
  shows "reads len (\<lambda>s. slice s p n)"
  unfolding reads_def
proof (intro allI impI)
  fix s s' :: bytes assume s: "len \<le> length s \<and> len \<le> length s' \<and> take len s = take len s'"
  have "take n (drop p s) = take n (drop p (take len s))" for s :: bytes using assms by (simp add: drop_take min_def)
  then have "take n (drop p s) = take n (drop p s')" using s by metis
  with s assms show "\<exists>x. slice s p n = Some x \<and> slice s' p n = Some x" by (simp add: slice_def)
qed

lemma reads_rd [reads_intros]:
  assumes "p < len"
  shows "reads len (\<lambda>s. rd s p)"
  using assms unfolding reads_def rd_def by simp (metis nth_take)

lemma reads_Fetch [reads_intros]:
  "p + 8 \<le> len \<Longrightarrow> reads len (\<lambda>s. Fetch64 s p)" "p + 4 \<le> len \<Longrightarrow> reads len (\<lambda>s. Fetch32 s p)"
  by (auto simp: Fetch64_def Fetch32_def intro!: reads_intros)

lemma reads_WeakHash [reads_intros]: "p + 32 \<le> len \<Longrightarrow> reads len (\<lambda>s. WeakHashLen32WithSeeds s p a b)"
  by (auto simp: WeakHashLen32WithSeeds_def intro!: reads_intros)

lemma reads_fetch_mix [reads_intros]: "p + 4 \<le> len \<Longrightarrow> reads len (\<lambda>s. fetch_mix s p)"
  by (auto simp: fetch_mix_def intro!: reads_intros)

lemma reads_hash_chars [reads_intros]: "i + n \<le> len \<Longrightarrow> reads len (\<lambda>s. hash_chars n s i b c)"
  by (induction n arbitrary: i b c) (auto simp: Let_def intro!: reads_intros)

lemma reads_hash_chunks [reads_intros]: "p + 20 * n \<le> len \<Longrightarrow> reads len (\<lambda>s. hash_chunks n s p st)"
proof (induction n arbitrary: p st)
  case 0
  then show ?case by (cases st) (auto intro!: reads_intros)
next
  case (Suc n)
  then show ?case by (cases st) (auto simp: Let_def intro!: reads_intros)
qed

lemma reads_hash64_chunks [reads_intros]: "p + 64 * n \<le> len \<Longrightarrow> reads len (\<lambda>s. hash64_chunks n s p st)"
proof (induction n arbitrary: p st)
  case 0
  then show ?case by (cases st) (auto intro!: reads_intros)
next
  case (Suc n)
  then show ?case by (cases st) (auto simp: Let_def intro!: reads_intros)
qed

lemma chunks_fit: "0 < len \<Longrightarrow> k * ((len - 1) div k) \<le> len" for k len :: nat
  using times_div_less_eq_dividend [of k "len - 1"] by linarith

lemma reads_CityHash32: "reads len (\<lambda>s. CityHash32 s len)"
proof -
  have "reads len (\<lambda>s. hash_long s len)" if "24 < len"
    unfolding hash_long_def Let_def using that chunks_fit [of len 20] by (auto intro!: reads_intros)
  moreover have "len div 2 + 4 \<le> len" if "12 < len" using that by linarith
  moreover have "unat (drop_bit 1 (word_of_nat len :: u32) AND 4) + 4 \<le> len" if "4 < len" "len \<le> 12"
  proof -
    have "len \<in> {5, 6, 7, 8, 9, 10, 11, 12}" using that by auto
    then show ?thesis by auto
  qed
  ultimately show ?thesis unfolding CityHash32_def Let_def by (auto intro!: reads_intros)
qed

lemma reads_CityHash64: "reads len (\<lambda>s. CityHash64 s len)"
proof -
  have "reads len (\<lambda>s. hash64_long s len)" if "64 < len"
    unfolding hash64_long_def Let_def using that chunks_fit [of len 64] by (auto intro!: reads_intros)
  moreover have "reads len (\<lambda>s. hash64_upto16 s len)" unfolding hash64_upto16_def Let_def by (auto intro!: reads_intros)
  moreover have "reads len (\<lambda>s. hash64_upto32 s len)" if "16 < len" using that unfolding hash64_upto32_def Let_def by (auto intro!: reads_intros)
  moreover have "reads len (\<lambda>s. hash64_upto64 s len)" if "32 < len" using that unfolding hash64_upto64_def Let_def by (auto intro!: reads_intros)
  ultimately show ?thesis unfolding CityHash64_def by (auto intro!: reads_intros)
qed

text \<open>
  C28. The hash functions read within the string and depend on nothing else: for every length that fits in 32 bits, and in every
  object that holds at least \<open>len\<close> bytes, \<^verbatim>\<open>CityHash32\<close> and \<^verbatim>\<open>CityHash64\<close> return without an access behind the first \<open>len\<close> bytes,
  and two objects that agree on these bytes get the same hash, whatever surrounds them in memory.
\<close>

theorem CityHash_bounded:
  assumes "len \<le> length s" and "len \<le> length s'" and "take len s = take len s'"
  shows "(\<exists>h. CityHash64 s len = Some h \<and> CityHash64 s' len = Some h) \<and> (\<exists>h. CityHash32 s len = Some h \<and> CityHash32 s' len = Some h)"
  using readsD [OF reads_CityHash64, of len s s'] readsD [OF reads_CityHash32, of len s s'] assms by blast

theorem CityHash_bounded_witness:
  "(\<exists>h. CityHash64 [0x61, 0x62, 0x63, 0] 3 = Some h \<and> CityHash64 [0x61, 0x62, 0x63, 0x64, 0x65] 3 = Some h) \<and>
   (\<exists>h. CityHash32 [0x61, 0x62, 0x63, 0] 3 = Some h \<and> CityHash32 [0x61, 0x62, 0x63, 0x64, 0x65] 3 = Some h)"
  using CityHash_bounded [of 3 "[0x61, 0x62, 0x63, 0]" "[0x61, 0x62, 0x63, 0x64, 0x65]"] by simp

end
