(* ===== verification/ByteArray.thy ===== *)
theory ByteArray
  imports AcornMem
begin

section \<open>Byte arrays (\<^verbatim>\<open>base/bytearray.cpp\<close>, \<^verbatim>\<open>base/bytearray.h\<close>)\<close>

text \<open>
  The class \<^verbatim>\<open>bytearray\<close>: a pointer to a block from the C library's heap, or null, and a signed 32-bit length. The block may be
  longer than the array. \<^verbatim>\<open>malloc\<close> and \<^verbatim>\<open>realloc\<close> are parameters that return a block, whose new bytes are arbitrary, or null. The
  code never looks at the result of an allocation: storing through a null pointer, a length outside the range of
  \<^verbatim>\<open>int32_t\<close> and a copy outside a block are undefined behaviour and give \<open>None\<close>.
\<close>

record c_heap =
  ch_malloc :: "nat \<Rightarrow> bytes option"
  ch_realloc :: "bytes option \<Rightarrow> nat \<Rightarrow> bytes option"

record bytearray =
  ba_p :: "bytes option"
  ba_cb :: int

definition int32_range :: "int \<Rightarrow> bool" where
  "int32_range n \<longleftrightarrow> - (2 ^ 31) \<le> n \<and> n < 2 ^ 31"

text \<open>\<^verbatim>\<open>memcpy(p + off, d, length d)\<close> and \<^verbatim>\<open>memmove(p + dst, p + src, n)\<close> for a block that may be null; the lengths are \<^verbatim>\<open>size_t\<close>, so a
  negative one is beyond every block.\<close>

definition copy_to :: "bytes option \<Rightarrow> nat \<Rightarrow> bytes \<Rightarrow> bytes option option" where
  "copy_to p off d =
     (if d = [] then Some p else case p of None \<Rightarrow> None | Some b \<Rightarrow> map_option Some (blit b off d))"

definition move_in :: "bytes option \<Rightarrow> int \<Rightarrow> int \<Rightarrow> int \<Rightarrow> bytes option option" where
  "move_in p dst src n =
     (if n = 0 then Some p
      else if n < 0 \<or> dst < 0 \<or> src < 0 then None
      else case p of None \<Rightarrow> None | Some b \<Rightarrow> map_option Some (memmove_in b (nat dst) (nat src) (nat n)))"

definition bytearray_new :: bytearray where
  "bytearray_new = \<lparr>ba_p = None, ba_cb = 0\<rparr>"

definition bytearray_sized :: "c_heap \<Rightarrow> int \<Rightarrow> bytearray option" where
  "bytearray_sized H cb = (if cb < 0 then None else Some \<lparr>ba_p = ch_malloc H (nat cb), ba_cb = cb\<rparr>)"

text \<open>The source of a copy: a null pointer, or an object with the bytes to copy at its start.\<close>

definition bytearray_assign :: "c_heap \<Rightarrow> bytes option \<Rightarrow> int \<Rightarrow> bytearray \<Rightarrow> bytearray option" where
  "bytearray_assign H p cb ba =
     (case p of
        Some s \<Rightarrow>
          if cb < 0 then None
          else do {
            d \<leftarrow> slice s 0 (nat cb);
            q \<leftarrow> copy_to (ch_malloc H (nat cb)) 0 d;
            Some \<lparr>ba_p = q, ba_cb = cb\<rparr> }
      | None \<Rightarrow> Some \<lparr>ba_p = None, ba_cb = 0\<rparr>)"

definition bytearray_assignNoCopy :: "bytes option \<Rightarrow> int \<Rightarrow> bytearray \<Rightarrow> bytearray" where
  "bytearray_assignNoCopy p cb ba = \<lparr>ba_p = p, ba_cb = cb\<rparr>"

definition bytearray_of :: "c_heap \<Rightarrow> bytes option \<Rightarrow> int \<Rightarrow> bytearray option" where
  "bytearray_of H p cb = bytearray_assign H p cb bytearray_new"

definition bytearray_copy :: "c_heap \<Rightarrow> bytearray \<Rightarrow> bytearray option" where
  "bytearray_copy H src = bytearray_assign H (ba_p src) (ba_cb src) bytearray_new"

text \<open>The move constructor: the new array and what is left of the old one.\<close>

definition bytearray_move :: "bytearray \<Rightarrow> bytearray \<times> bytearray" where
  "bytearray_move other = (\<lparr>ba_p = ba_p other, ba_cb = ba_cb other\<rparr>, other\<lparr>ba_p := None, ba_cb := 0\<rparr>)"

definition bytearray_append :: "c_heap \<Rightarrow> bytes option \<Rightarrow> int \<Rightarrow> bytearray \<Rightarrow> bytearray option" where
  "bytearray_append H p cb ba =
     (if cb = 0 then Some ba
      else let newCb = ba_cb ba + cb in
        if \<not> int32_range newCb \<or> \<not> int32_range (newCb + 1) \<or> cb < 0 \<or> newCb + 1 < 0 \<or> ba_cb ba < 0 then None
        else do {
          let q = ch_realloc H (ba_p ba) (nat (newCb + 1));
          s \<leftarrow> p;
          d \<leftarrow> slice s 0 (nat cb);
          q \<leftarrow> copy_to q (nat (ba_cb ba)) d;
          Some \<lparr>ba_p = q, ba_cb = newCb\<rparr> })"

definition bytearray_append_byte :: "c_heap \<Rightarrow> u8 \<Rightarrow> bytearray \<Rightarrow> bytearray option" where
  "bytearray_append_byte H b ba = bytearray_append H (Some [b]) 1 ba"

text \<open>\<^verbatim>\<open>operator+\<close>: a copy of the left array with the right one appended.\<close>

definition bytearray_plus :: "c_heap \<Rightarrow> bytearray \<Rightarrow> bytearray \<Rightarrow> bytearray option" where
  "bytearray_plus H lhs rhs = do { r \<leftarrow> bytearray_copy H lhs; bytearray_append H (ba_p rhs) (ba_cb rhs) r }"

definition bytearray_insert :: "c_heap \<Rightarrow> int \<Rightarrow> bytes option \<Rightarrow> int \<Rightarrow> bytearray \<Rightarrow> bytearray option" where
  "bytearray_insert H offset p cb ba =
     (if cb = 0 then Some ba
      else let newCb = ba_cb ba + cb in
        if \<not> int32_range newCb \<or> newCb < 0 \<or> cb < 0 \<or> offset < 0 then None
        else do {
          let q = ch_realloc H (ba_p ba) (nat newCb);
          q \<leftarrow> move_in q (offset + cb) offset (ba_cb ba - offset);
          s \<leftarrow> p;
          d \<leftarrow> slice s 0 (nat cb);
          q \<leftarrow> copy_to q (nat offset) d;
          Some \<lparr>ba_p = q, ba_cb = newCb\<rparr> })"

definition bytearray_erase :: "c_heap \<Rightarrow> int \<Rightarrow> int \<Rightarrow> bytearray \<Rightarrow> bytearray option" where
  "bytearray_erase H offset cb ba = do {
     q \<leftarrow> move_in (ba_p ba) offset 0 (ba_cb ba - cb);
     let newCb = ba_cb ba - cb;
     if newCb < 0 then None
     else Some \<lparr>ba_p = ch_realloc H q (nat newCb), ba_cb = newCb\<rparr> }"

definition bytearray_erase1 :: "c_heap \<Rightarrow> int \<Rightarrow> bytearray \<Rightarrow> bytearray option" where
  "bytearray_erase1 H offset ba = bytearray_erase H offset 1 ba"

definition bytearray_resize :: "c_heap \<Rightarrow> int \<Rightarrow> bytearray \<Rightarrow> bytearray option" where
  "bytearray_resize H newSize ba =
     (if newSize < 0 then None else Some \<lparr>ba_p = ch_realloc H (ba_p ba) (nat newSize), ba_cb = newSize\<rparr>)"

definition bytearray_detach :: "bytearray \<Rightarrow> bytearray" where
  "bytearray_detach ba = \<lparr>ba_p = None, ba_cb = 0\<rparr>"

definition bytearray_clear :: "bytearray \<Rightarrow> bytearray" where
  "bytearray_clear ba = (if ba_p ba \<noteq> None then \<lparr>ba_p = None, ba_cb = 0\<rparr> else ba)"

subsection \<open>The heap's contract\<close>

text \<open>What the C standard says of \<^verbatim>\<open>malloc\<close> and \<^verbatim>\<open>realloc\<close> when they succeed, and that requests up to \<open>limit\<close> bytes do.\<close>

definition c_heap_ok :: "nat \<Rightarrow> c_heap \<Rightarrow> bool" where
  "c_heap_ok limit H \<longleftrightarrow>
     (\<forall>n. 0 < n \<and> n \<le> limit \<longrightarrow> (\<exists>b. ch_malloc H n = Some b \<and> length b = n)) \<and>
     (\<forall>p n. 0 < n \<and> n \<le> limit \<longrightarrow> (\<exists>b. ch_realloc H p n = Some b \<and> length b = n \<and>
        (\<forall>q. p = Some q \<longrightarrow> take (min n (length q)) b = take (min n (length q)) q)))"

text \<open>The contents, and well-formedness: null only when empty.\<close>

definition ba_bytes :: "bytearray \<Rightarrow> bytes" where
  "ba_bytes ba = (case ba_p ba of None \<Rightarrow> [] | Some b \<Rightarrow> take (nat (ba_cb ba)) b)"

definition ba_inv :: "bytearray \<Rightarrow> bool" where
  "ba_inv ba \<longleftrightarrow> 0 \<le> ba_cb ba \<and> ba_cb ba < 2 ^ 31 \<and> (case ba_p ba of None \<Rightarrow> ba_cb ba = 0 | Some b \<Rightarrow> nat (ba_cb ba) \<le> length b)"

lemma length_ba_bytes: "ba_inv ba \<Longrightarrow> length (ba_bytes ba) = nat (ba_cb ba)"
  by (auto simp: ba_inv_def ba_bytes_def split: option.splits)

lemma ba_inv_new: "ba_inv bytearray_new" "ba_bytes bytearray_new = []"
  by (simp_all add: ba_inv_def bytearray_new_def ba_bytes_def)

text \<open>An operation that succeeds with the given contents.\<close>

definition ba_yields :: "bytearray option \<Rightarrow> bytes \<Rightarrow> bool" where
  "ba_yields r xs \<longleftrightarrow> (\<exists>ba. r = Some ba \<and> ba_inv ba \<and> ba_bytes ba = xs)"

lemma malloc_ok:
  assumes "c_heap_ok limit H" and "0 < n" and "n \<le> limit"
  obtains b where "ch_malloc H n = Some b" "length b = n"
  using assms by (auto simp: c_heap_ok_def)

lemma realloc_grows:
  assumes "c_heap_ok limit H" and "ba_inv ba" and "nat (ba_cb ba) \<le> n" and "0 < n" and "n \<le> limit"
  obtains b where "ch_realloc H (ba_p ba) n = Some b" "length b = n" "take (nat (ba_cb ba)) b = ba_bytes ba"
proof -
  obtain b where b: "ch_realloc H (ba_p ba) n = Some b" "length b = n"
    "\<forall>q. ba_p ba = Some q \<longrightarrow> take (min n (length q)) b = take (min n (length q)) q"
    using assms(1,4,5) unfolding c_heap_ok_def by blast
  have "take (nat (ba_cb ba)) b = ba_bytes ba"
  proof (cases "ba_p ba")
    case (Some q)
    then have "take (min n (length q)) b = take (min n (length q)) q" using b(3) by simp
    then have "take (nat (ba_cb ba)) (take (min n (length q)) b) = take (nat (ba_cb ba)) (take (min n (length q)) q)" by simp
    with Some assms(2,3) show ?thesis by (simp add: ba_inv_def ba_bytes_def min_def split: if_splits)
  qed (use assms(2) in \<open>simp add: ba_inv_def ba_bytes_def\<close>)
  with b that show thesis by blast
qed

lemma ba_yieldsI:
  assumes "length xs < 2 ^ 31" and "take (length xs) b = xs"
  shows "ba_yields (Some \<lparr>ba_p = Some b, ba_cb = int (length xs)\<rparr>) xs"
proof -
  have "length xs \<le> length b" using assms(2) by (metis length_take min.cobounded1)
  moreover have "int (length xs) < 2 ^ 31" using assms(1) by simp
  ultimately show ?thesis using assms(2) by (simp add: ba_yields_def ba_inv_def ba_bytes_def)
qed

lemma bytearray_assign_yields:
  assumes "c_heap_ok limit H" and "length xs \<le> limit" and "length xs < 2 ^ 31"
  shows "ba_yields (bytearray_assign H (Some (xs @ ys)) (int (length xs)) ba) xs"
proof (cases "xs = []")
  case True
  have "bytearray_assign H (Some ys) 0 ba = Some \<lparr>ba_p = ch_malloc H 0, ba_cb = 0\<rparr>"
    by (simp add: bytearray_assign_def slice_def copy_to_def)
  with True show ?thesis by (auto simp: ba_yields_def ba_inv_def ba_bytes_def split: option.splits)
next
  case False
  obtain b where b: "ch_malloc H (length xs) = Some b" "length b = length xs" by (rule malloc_ok [OF assms(1) _ assms(2)]) (use False in simp)
  then have "bytearray_assign H (Some (xs @ ys)) (int (length xs)) ba = Some \<lparr>ba_p = Some xs, ba_cb = int (length xs)\<rparr>"
    using False by (simp add: bytearray_assign_def slice_def copy_to_def blit_def)
  then show ?thesis using ba_yieldsI [OF assms(3), of xs] by simp
qed

lemma bytearray_append_yields:
  assumes "c_heap_ok limit H" and "ba_inv ba" and "length (ba_bytes ba) + length xs < limit" and "limit < 2 ^ 31"
  shows "ba_yields (bytearray_append H (Some (xs @ ys)) (int (length xs)) ba) (ba_bytes ba @ xs)"
proof (cases "xs = []")
  case True
  then show ?thesis using assms(2) by (simp add: bytearray_append_def ba_yields_def)
next
  case False
  let ?n = "nat (ba_cb ba)"
  have cb: "ba_cb ba = int ?n" "?n = length (ba_bytes ba)" using assms(2) length_ba_bytes by (auto simp: ba_inv_def)
  obtain b where b: "ch_realloc H (ba_p ba) (?n + length xs + 1) = Some b" "length b = ?n + length xs + 1" "take ?n b = ba_bytes ba"
    using realloc_grows [OF assms(1,2), of "?n + length xs + 1"] assms(3) cb(2) by auto
  let ?b = "take ?n b @ xs @ drop (?n + length xs) b"
  have "int ?n + int (length xs) + 1 < 2 ^ 31" using assms(3,4) cb(2) by simp
  then have "bytearray_append H (Some (xs @ ys)) (int (length xs)) ba = Some \<lparr>ba_p = Some ?b, ba_cb = int (length (ba_bytes ba @ xs))\<rparr>"
    using b False cb by (simp add: bytearray_append_def int32_range_def Let_def slice_def copy_to_def blit_def nat_add_distrib)
  then show ?thesis using ba_yieldsI [of "ba_bytes ba @ xs" ?b] assms(3,4) b(2,3) cb(2) by simp
qed

lemma bytearray_insert_yields:
  assumes "c_heap_ok limit H" and "ba_inv ba" and "length (ba_bytes ba) + length xs < limit" and "limit < 2 ^ 31" and "i \<le> length (ba_bytes ba)"
  shows "ba_yields (bytearray_insert H (int i) (Some (xs @ ys)) (int (length xs)) ba) (take i (ba_bytes ba) @ xs @ drop i (ba_bytes ba))"
proof (cases "xs = []")
  case True
  then show ?thesis using assms(2) by (simp add: bytearray_insert_def ba_yields_def)
next
  case False
  let ?n = "nat (ba_cb ba)" and ?l = "length xs" and ?r = "take i (ba_bytes ba) @ xs @ drop i (ba_bytes ba)"
  have cb: "ba_cb ba = int ?n" "?n = length (ba_bytes ba)" using assms(2) length_ba_bytes by (auto simp: ba_inv_def)
  obtain b where b: "ch_realloc H (ba_p ba) (?n + ?l) = Some b" "length b = ?n + ?l" "take ?n b = ba_bytes ba"
    using realloc_grows [OF assms(1,2), of "?n + ?l"] assms(3) cb(2) False by auto
  have "drop i (ba_bytes ba) = take (?n - i) (drop i b)" using b(3) by (simp add: drop_take [symmetric])
  moreover have "take i (ba_bytes ba) = take i b" using b(3) assms(5) cb(2) by (metis min_def take_take)
  ultimately have r: "?r = take i b @ xs @ take (?n - i) (drop i b)" by simp
  let ?m = "take (i + ?l) b @ take (?n - i) (drop i b) @ drop (i + ?l + (?n - i)) b"
  have m: "move_in (Some b) (int i + int ?l) (int i) (ba_cb ba - int i) = Some (Some ?m)"
    using b(2) cb assms(5) by (auto simp: move_in_def memmove_in_Some nat_add_distrib nat_diff_distrib)
  have "blit ?m i xs = Some ?r" unfolding r using b(2) cb(2) assms(5) by (simp add: blit_def min_def)
  moreover have "int ?n + int ?l < 2 ^ 31" using assms(3,4) cb(2) by simp
  ultimately have "bytearray_insert H (int i) (Some (xs @ ys)) (int ?l) ba = Some \<lparr>ba_p = Some ?r, ba_cb = int (length ?r)\<rparr>"
    using b(1) m False cb assms(5) by (simp add: bytearray_insert_def int32_range_def Let_def slice_def copy_to_def nat_add_distrib)
  then show ?thesis using ba_yieldsI [of ?r ?r] assms(3,4,5) by simp
qed

subsection \<open>Sequences of modifications\<close>

datatype ba_op =
    BA_assign bytes
  | BA_append bytes
  | BA_append_byte u8
  | BA_insert nat bytes
  | BA_clear
  | BA_detach

fun ba_exec :: "c_heap \<Rightarrow> bytearray \<Rightarrow> ba_op \<Rightarrow> bytearray option" where
  "ba_exec H ba (BA_assign xs) = bytearray_assign H (Some xs) (int (length xs)) ba"
| "ba_exec H ba (BA_append xs) = bytearray_append H (Some xs) (int (length xs)) ba"
| "ba_exec H ba (BA_append_byte b) = bytearray_append_byte H b ba"
| "ba_exec H ba (BA_insert i xs) = bytearray_insert H (int i) (Some xs) (int (length xs)) ba"
| "ba_exec H ba BA_clear = Some (bytearray_clear ba)"
| "ba_exec H ba BA_detach = Some (bytearray_detach ba)"

fun ba_spec :: "bytes \<Rightarrow> ba_op \<Rightarrow> bytes" where
  "ba_spec v (BA_assign xs) = xs"
| "ba_spec v (BA_append xs) = v @ xs"
| "ba_spec v (BA_append_byte b) = v @ [b]"
| "ba_spec v (BA_insert i xs) = take i v @ xs @ drop i v"
| "ba_spec v BA_clear = []"
| "ba_spec v BA_detach = []"

text \<open>The caller's part: insertions inside the array, and less than \<open>limit\<close> bytes in all.\<close>

fun ba_allowed :: "nat \<Rightarrow> bytes \<Rightarrow> ba_op \<Rightarrow> bool" where
  "ba_allowed limit v (BA_assign xs) \<longleftrightarrow> length xs < limit"
| "ba_allowed limit v (BA_append xs) \<longleftrightarrow> length v + length xs < limit"
| "ba_allowed limit v (BA_append_byte b) \<longleftrightarrow> length v + 1 < limit"
| "ba_allowed limit v (BA_insert i xs) \<longleftrightarrow> length v + length xs < limit \<and> i \<le> length v"
| "ba_allowed limit v _ \<longleftrightarrow> True"

lemma ba_exec_yields:
  assumes "c_heap_ok limit H" and "limit < 2 ^ 31" and "ba_inv ba" and "ba_allowed limit (ba_bytes ba) op"
  shows "ba_yields (ba_exec H ba op) (ba_spec (ba_bytes ba) op)"
proof (cases op)
  case (BA_assign xs)
  then show ?thesis using bytearray_assign_yields [OF assms(1), of xs "[]" ba] assms by simp
next
  case (BA_append xs)
  then show ?thesis using bytearray_append_yields [OF assms(1,3), of xs "[]"] assms by simp
next
  case (BA_append_byte b)
  then show ?thesis using bytearray_append_yields [OF assms(1,3), of "[b]" "[]"] assms by (simp add: bytearray_append_byte_def)
next
  case (BA_insert i xs)
  then show ?thesis using bytearray_insert_yields [OF assms(1,3), of xs i "[]"] assms by simp
next
  case BA_clear
  then show ?thesis using assms(3) by (auto simp: bytearray_clear_def ba_yields_def ba_inv_def ba_bytes_def split: option.splits)
next
  case BA_detach
  then show ?thesis by (simp add: bytearray_detach_def ba_yields_def ba_inv_def ba_bytes_def)
qed

text \<open>A heap that grants requests up to \<open>limit\<close> bytes and fills new memory with a byte.\<close>

definition fill_heap :: "nat \<Rightarrow> u8 \<Rightarrow> c_heap" where
  "fill_heap limit x =
     \<lparr>ch_malloc = (\<lambda>n. if n \<le> limit then Some (replicate n x) else None),
      ch_realloc = (\<lambda>p n. if n \<le> limit then
         Some (take n (case p of None \<Rightarrow> [] | Some b \<Rightarrow> b) @ replicate (n - length (case p of None \<Rightarrow> [] | Some b \<Rightarrow> b)) x) else None)\<rparr>"

lemma fill_heap_ok: "c_heap_ok limit (fill_heap limit x)"
  by (auto simp: c_heap_ok_def fill_heap_def min_def)

text \<open>The environment is a heap with the number of bytes it grants.\<close>

definition ba_env :: "nat \<times> c_heap \<Rightarrow> bool" where
  "ba_env e \<longleftrightarrow> c_heap_ok (fst e) (snd e) \<and> fst e < 2 ^ 31"

interpretation bas: value_store ba_env "\<lambda>e. ba_exec (snd e)" ba_spec "\<lambda>e ba. ba_allowed (fst e) (ba_bytes ba)" ba_inv ba_bytes
  by unfold_locales (use ba_exec_yields in \<open>auto simp: ba_env_def ba_yields_def\<close>)

text \<open>
  C27. Modifying byte arrays. With a heap that keeps the contract of \<^verbatim>\<open>malloc\<close> and \<^verbatim>\<open>realloc\<close> and grants requests of up to \<open>limit\<close>
  bytes, every sequence of assignments, appends, insertions inside the array, clears and detaches that stays below the limit is
  free of undefined behaviour and leaves the bytes that the operations on lists give.
\<close>

theorem bytearray_run_refines:
  assumes "c_heap_ok limit H" and "limit < 2 ^ 31" and "ba_inv ba" and "run_ok (ba_exec H) (\<lambda>ba. ba_allowed limit (ba_bytes ba)) ba ops"
  shows "\<exists>ba'. run_store (ba_exec H) ba ops = Some ba' \<and> ba_inv ba' \<and> ba_bytes ba' = foldl ba_spec (ba_bytes ba) ops"
  using bas.run_store_refines [of "(limit, H)"] assms by (simp add: ba_env_def)

theorem bytearray_run_refines_witness:
  "\<exists>ba'. run_store (ba_exec (fill_heap 100 0xaa)) bytearray_new [BA_append [1, 2, 3], BA_insert 1 [7, 8], BA_append_byte 9] = Some ba' \<and>
     ba_inv ba' \<and> ba_bytes ba' = [1, 7, 8, 2, 3, 9]"
proof -
  have "run_ok (ba_exec (fill_heap 100 0xaa)) (\<lambda>ba. ba_allowed 100 (ba_bytes ba)) bytearray_new
    [BA_append [1, 2, 3], BA_insert 1 [7, 8], BA_append_byte 9]" by code_simp
  from bytearray_run_refines [OF fill_heap_ok _ ba_inv_new(1) this] show ?thesis by (simp add: ba_inv_new)
qed

subsection \<open>Erasing\<close>

text \<open>
  C29. \<^verbatim>\<open>bytearray::erase\<close> moves the bytes from the start of the array to \<open>offset\<close>, not those behind the erased part. Erasing one byte
  at an offset of two or more from an array that fills its block writes behind the block, and erasing the first byte
  removes the last one instead.
\<close>

theorem bytearray_erase_faulty:
  assumes "c_heap_ok limit H" and "ba_p ba = Some b" and "ba_cb ba = int (length b)" and "2 \<le> length b" and "length b \<le> limit"
    and "length b < 2 ^ 31" and "2 \<le> i" and "i < length b"
  shows "bytearray_erase1 H (int i) ba = None \<and> ba_yields (bytearray_erase1 H 0 ba) (butlast (ba_bytes ba))"
proof
  have "memmove_in b i 0 (length b - 1) = None" using assms(7) by (auto simp: memmove_in_def slice_def blit_def split: bind_splits)
  moreover have "nat (int (length b) - 1) = length b - 1" by linarith
  ultimately show "bytearray_erase1 H (int i) ba = None"
    using assms(2-4) by (auto simp: bytearray_erase1_def bytearray_erase_def move_in_def)
next
  have n: "nat (int (length b) - 1) = length b - 1" by linarith
  have m: "move_in (Some b) 0 0 (int (length b) - 1) = Some (Some b)"
    using assms(4) n by (auto simp: move_in_def memmove_in_Some append_take_drop_id)
  obtain b' where b': "ch_realloc H (Some b) (length b - 1) = Some b'" "length b' = length b - 1"
    "take (min (length b - 1) (length b)) b' = take (min (length b - 1) (length b)) b"
  proof -
    have "0 < length b - 1 \<and> length b - 1 \<le> limit" using assms(4,5) by auto
    then show thesis using assms(1) that unfolding c_heap_ok_def by blast
  qed
  define xs where "xs = take (length b - 1) b"
  have xs: "butlast (ba_bytes ba) = xs" "length xs = length b - 1" "take (length xs) b' = xs"
    using assms(2-4) b'(3) by (auto simp: xs_def ba_bytes_def butlast_conv_take min_def)
  have "bytearray_erase1 H 0 ba = Some \<lparr>ba_p = Some b', ba_cb = int (length b) - 1\<rparr>"
    using assms(2-4) m b'(1) n by (auto simp: bytearray_erase1_def bytearray_erase_def Let_def)
  moreover have "int (length b) - 1 = int (length xs)" "length xs < 2 ^ 31" using assms(4,6) xs(2) by simp_all
  ultimately show "ba_yields (bytearray_erase1 H 0 ba) (butlast (ba_bytes ba))" using ba_yieldsI [OF _ xs(3)] xs(1) by simp
qed

theorem bytearray_erase_faulty_witness:
  "bytearray_erase1 (fill_heap 100 0) (int 3) \<lparr>ba_p = Some [1, 2, 3, 4], ba_cb = 4\<rparr> = None \<and>
   ba_yields (bytearray_erase1 (fill_heap 100 0) 0 \<lparr>ba_p = Some [1, 2, 3, 4], ba_cb = 4\<rparr>) [1, 2, 3]"
  using bytearray_erase_faulty [of 100 "fill_heap 100 0" "\<lparr>ba_p = Some [1, 2, 3, 4], ba_cb = 4\<rparr>" "[1, 2, 3, 4]" 3]
  by (simp add: ba_bytes_def fill_heap_ok)

end
