(* ===== verification/StrBuf.thy ===== *)
theory StrBuf
  imports ByteArray
begin

section \<open>Shared string buffers (\<^verbatim>\<open>base/string.cpp\<close>, \<^verbatim>\<open>base/string_.h\<close>)\<close>

text \<open>
  The memory management of the class \<^verbatim>\<open>string\<close>. A string object refers to a part of a buffer: a null pointer, a literal, or a
  reference-counted buffer on the heap that other strings may share. Modifying operations make a private copy of a shared
  buffer first. The heap of buffers is a map from addresses; an address that was freed is never used again, so an access
  through a dangling pointer, a count that is not one of a buffer, a failed assertion and an access outside a buffer all give
  \<open>None\<close>. \<^verbatim>\<open>malloc\<close> and \<^verbatim>\<open>realloc\<close> are those of a \<^verbatim>\<open>c_heap\<close>.
\<close>

subsection \<open>Buffers\<close>

text \<open>\<^verbatim>\<open>struct bufhdr\<close> and the characters behind it, one more than the capacity.\<close>

record strbuf =
  sb_refs :: nat
  sb_cb :: nat
  sb_cap :: nat
  sb_data :: bytes

record sheap =
  sh_bufs :: "nat \<Rightarrow> strbuf option"
  sh_next :: nat

datatype bufptr = NullP | Lit bytes | Ptr nat

abbreviation (input) "kTypeStandard \<equiv> 0 :: nat"
abbreviation (input) "kTypeStatic \<equiv> 1 :: nat"
abbreviation (input) "sizeof_bufhdr \<equiv> 12 :: nat"

record str =
  st_buf :: bufptr
  st_cb :: nat
  st_offset :: nat
  st_type :: nat

definition store_buf :: "strbuf \<Rightarrow> sheap \<Rightarrow> nat \<times> sheap" where
  "store_buf b h = (sh_next h, \<lparr>sh_bufs = (sh_bufs h)(sh_next h \<mapsto> b), sh_next = sh_next h + 1\<rparr>)"

definition buf_new :: "c_heap \<Rightarrow> nat \<Rightarrow> sheap \<Rightarrow> (nat \<times> sheap) option" where
  "buf_new H cb h = do {
     blk \<leftarrow> ch_malloc H (sizeof_bufhdr + cb + 1);
     Some (store_buf \<lparr>sb_refs = 1, sb_cb = cb, sb_cap = cb, sb_data = drop sizeof_bufhdr blk\<rparr> h) }"

definition buf_retain :: "nat \<Rightarrow> sheap \<Rightarrow> sheap option" where
  "buf_retain a h = do {
     b \<leftarrow> sh_bufs h a;
     Some (h\<lparr>sh_bufs := (sh_bufs h)(a \<mapsto> b\<lparr>sb_refs := (sb_refs b + 1) mod 2 ^ 32\<rparr>)\<rparr>) }"

definition buf_release :: "nat \<Rightarrow> sheap \<Rightarrow> sheap option" where
  "buf_release a h = do {
     b \<leftarrow> sh_bufs h a;
     if \<not> sb_refs b < 1000 then None
     else if sb_refs b - 1 = 0 then Some (h\<lparr>sh_bufs := (sh_bufs h)(a := None)\<rparr>)
     else Some (h\<lparr>sh_bufs := (sh_bufs h)(a \<mapsto> b\<lparr>sb_refs := sb_refs b - 1\<rparr>)\<rparr>) }"

text \<open>The functions take a character pointer; only one to a heap buffer has a header before it.\<close>

definition retain_ptr :: "bufptr \<Rightarrow> sheap \<Rightarrow> sheap option" where
  "retain_ptr p h = (case p of Ptr a \<Rightarrow> buf_retain a h | _ \<Rightarrow> None)"

definition release_ptr :: "bufptr \<Rightarrow> sheap \<Rightarrow> sheap option" where
  "release_ptr p h = (case p of Ptr a \<Rightarrow> buf_release a h | _ \<Rightarrow> None)"

text \<open>
  \<^verbatim>\<open>buf_realloc\<close>: the block, of which the header's 12 bytes are kept as fields and stand as zeros here, moves to a new address.
\<close>

definition buf_realloc :: "c_heap \<Rightarrow> nat \<Rightarrow> int \<Rightarrow> sheap \<Rightarrow> (nat \<times> sheap) option" where
  "buf_realloc H a cbDelta h = do {
     b \<leftarrow> sh_bufs h a;
     let cbNew = nat ((int (sb_cap b) + cbDelta) mod 2 ^ 32);
     blk \<leftarrow> ch_realloc H (Some (replicate sizeof_bufhdr 0 @ sb_data b)) (sizeof_bufhdr + cbNew + 1);
     Some (store_buf (b\<lparr>sb_cap := cbNew, sb_cb := cbNew, sb_data := drop sizeof_bufhdr blk\<rparr>) (h\<lparr>sh_bufs := (sh_bufs h)(a := None)\<rparr>)) }"

text \<open>Reading and writing characters through a pointer.\<close>

definition ptr_data :: "sheap \<Rightarrow> bufptr \<Rightarrow> bytes option" where
  "ptr_data h p = (case p of NullP \<Rightarrow> Some [] | Lit b \<Rightarrow> Some b | Ptr a \<Rightarrow> map_option sb_data (sh_bufs h a))"

definition read_chars :: "sheap \<Rightarrow> bufptr \<Rightarrow> nat \<Rightarrow> nat \<Rightarrow> bytes option" where
  "read_chars h p off n = do { d \<leftarrow> ptr_data h p; slice d off n }"

definition write_chars :: "nat \<Rightarrow> nat \<Rightarrow> bytes \<Rightarrow> sheap \<Rightarrow> sheap option" where
  "write_chars a off d h = do {
     b \<leftarrow> sh_bufs h a;
     data \<leftarrow> blit (sb_data b) off d;
     Some (h\<lparr>sh_bufs := (sh_bufs h)(a \<mapsto> b\<lparr>sb_data := data\<rparr>)\<rparr>) }"

definition move_chars :: "nat \<Rightarrow> nat \<Rightarrow> nat \<Rightarrow> nat \<Rightarrow> sheap \<Rightarrow> sheap option" where
  "move_chars a dst src n h = do {
     b \<leftarrow> sh_bufs h a;
     data \<leftarrow> memmove_in (sb_data b) dst src n;
     Some (h\<lparr>sh_bufs := (sh_bufs h)(a \<mapsto> b\<lparr>sb_data := data\<rparr>)\<rparr>) }"

definition start_chars :: "sheap \<Rightarrow> str \<Rightarrow> bytes option" where
  "start_chars h s = read_chars h (st_buf s) (st_offset s) (st_cb s)"

subsection \<open>Construction and destruction\<close>

definition string_new :: str where
  "string_new = \<lparr>st_buf = NullP, st_cb = 0, st_offset = 0, st_type = kTypeStandard\<rparr>"

text \<open>From a literal: its characters and a terminator.\<close>

definition static_str :: "bytes \<Rightarrow> str" where
  "static_str p = \<lparr>st_buf = Lit (p @ [0]), st_cb = length p, st_offset = 0, st_type = kTypeStatic\<rparr>"

definition string_assign :: "c_heap \<Rightarrow> bytes option \<Rightarrow> str \<Rightarrow> sheap \<Rightarrow> (str \<times> sheap) option" where
  "string_assign H p s h = do {
     h \<leftarrow> (if st_buf s \<noteq> NullP \<and> st_type s = kTypeStandard then release_ptr (st_buf s) h else Some h);
     (case p of
        Some p \<Rightarrow> do {
          (a, h) \<leftarrow> buf_new H (length p) h;
          h \<leftarrow> write_chars a 0 p h;
          h \<leftarrow> write_chars a (length p) [0] h;
          Some (s\<lparr>st_buf := Ptr a, st_cb := length p, st_offset := 0\<rparr>, h) }
      | None \<Rightarrow> Some (s\<lparr>st_buf := NullP, st_cb := 0, st_offset := 0\<rparr>, h)) }"

definition string_of_chars :: "c_heap \<Rightarrow> bytes \<Rightarrow> sheap \<Rightarrow> (str \<times> sheap) option" where
  "string_of_chars H p h = string_assign H (Some p) string_new h"

definition string_copy :: "str \<Rightarrow> sheap \<Rightarrow> (str \<times> sheap) option" where
  "string_copy s h = do {
     h \<leftarrow> (if st_buf s \<noteq> NullP \<and> st_type s = kTypeStandard then retain_ptr (st_buf s) h else Some h);
     Some (s, h) }"

text \<open>The substring constructor: it retains the buffer without a test for null, the offset is a field of 24 bits and the length one of 32.\<close>

definition string_sub :: "str \<Rightarrow> nat \<Rightarrow> nat \<Rightarrow> sheap \<Rightarrow> (str \<times> sheap) option" where
  "string_sub s offsetFrom offsetTo h = do {
     h \<leftarrow> (if st_type s = kTypeStandard then retain_ptr (st_buf s) h else Some h);
     Some (s\<lparr>st_cb := nat ((int offsetTo - int offsetFrom) mod 2 ^ 32), st_offset := (st_offset s + offsetFrom) mod 2 ^ 24\<rparr>, h) }"

text \<open>The move constructor: the new object and what is left of the old one.\<close>

definition string_move :: "str \<Rightarrow> str \<times> str" where
  "string_move s = (\<lparr>st_buf = st_buf s, st_cb = st_cb s, st_offset = st_offset s, st_type = st_type s\<rparr>,
     s\<lparr>st_buf := NullP, st_cb := 0, st_offset := 0, st_type := 0\<rparr>)"

definition string_destroy :: "str \<Rightarrow> sheap \<Rightarrow> sheap option" where
  "string_destroy s h =
     (if st_buf s \<noteq> NullP \<and> st_type s = kTypeStandard then release_ptr (st_buf s) h else Some h)"

definition string_clear :: "str \<Rightarrow> sheap \<Rightarrow> (str \<times> sheap) option" where
  "string_clear s h =
     (if st_buf s \<noteq> NullP then do {
        h \<leftarrow> release_ptr (st_buf s) h;
        Some (s\<lparr>st_buf := NullP, st_cb := 0, st_offset := 0\<rparr>, h) }
      else Some (s, h))"

definition string_alloc :: "c_heap \<Rightarrow> nat \<Rightarrow> str \<Rightarrow> sheap \<Rightarrow> (str \<times> sheap) option" where
  "string_alloc H cb s h = do {
     (s, h) \<leftarrow> string_clear s h;
     (a, h) \<leftarrow> buf_new H cb h;
     h \<leftarrow> write_chars a cb [0] h;
     Some (s\<lparr>st_buf := Ptr a, st_cb := cb, st_offset := 0\<rparr>, h) }"

definition string_set :: "str \<Rightarrow> str \<Rightarrow> sheap \<Rightarrow> (str \<times> sheap) option" where
  "string_set s other h = do {
     h \<leftarrow> (if st_buf s \<noteq> NullP \<and> st_type s = kTypeStandard then release_ptr (st_buf s) h else Some h);
     h \<leftarrow> (if st_buf other \<noteq> NullP \<and> st_type other = kTypeStandard then retain_ptr (st_buf other) h else Some h);
     Some (other, h) }"

definition string_mutateToStatic :: "str \<Rightarrow> str \<Rightarrow> sheap \<Rightarrow> (str \<times> sheap) option" where
  "string_mutateToStatic s staticVal h = do {
     (s, h) \<leftarrow> string_clear s h;
     Some (staticVal, h) }"

definition string_substr :: "str \<Rightarrow> nat \<Rightarrow> nat \<Rightarrow> sheap \<Rightarrow> (str \<times> sheap) option" where
  "string_substr s from to h =
     (let (from, to) = (if from > to then (to, from) else (from, to));
          from = min (st_cb s) from;
          to = min (st_cb s) to
      in string_sub s from to h)"

subsection \<open>Modification\<close>

definition private_copy :: "c_heap \<Rightarrow> str \<Rightarrow> sheap \<Rightarrow> (str \<times> sheap) option" where
  "private_copy H s h = do {
     (a, h) \<leftarrow> buf_new H (st_cb s) h;
     d \<leftarrow> start_chars h s;
     h \<leftarrow> write_chars a 0 d h;
     Some (s\<lparr>st_buf := Ptr a, st_offset := 0\<rparr>, h) }"

definition prepareToModify :: "c_heap \<Rightarrow> str \<Rightarrow> sheap \<Rightarrow> (str \<times> sheap) option" where
  "prepareToModify H s h =
     (if st_type s = kTypeStatic then do {
        (s, h) \<leftarrow> private_copy H s h;
        Some (s\<lparr>st_type := kTypeStandard\<rparr>, h) }
      else case st_buf s of
        Ptr a \<Rightarrow> do {
          b \<leftarrow> sh_bufs h a;
          if sb_refs b > 1 then do { h \<leftarrow> buf_release a h; private_copy H s h } else Some (s, h) }
      | _ \<Rightarrow> None)"

definition string_insert :: "c_heap \<Rightarrow> nat \<Rightarrow> bytes \<Rightarrow> str \<Rightarrow> sheap \<Rightarrow> (str \<times> sheap) option" where
  "string_insert H byteOffset p s h =
     (if p = [] then Some (s, h)
      else if st_buf s = NullP then string_assign H (Some p) s h
      else do {
        (s, h) \<leftarrow> prepareToModify H s h;
        (case st_buf s of
           Ptr a \<Rightarrow>
             if byteOffset > st_cb s then None
             else do {
               (a, h) \<leftarrow> buf_realloc H a (int (length p)) h;
               let insertPoint = st_offset s + byteOffset;
               h \<leftarrow> move_chars a (insertPoint + length p) insertPoint (st_cb s - byteOffset) h;
               h \<leftarrow> write_chars a insertPoint p h;
               let cb = st_cb s + length p;
               h \<leftarrow> write_chars a (st_offset s + cb) [0] h;
               Some (s\<lparr>st_buf := Ptr a, st_cb := cb\<rparr>, h) }
         | _ \<Rightarrow> None) })"

definition string_append :: "c_heap \<Rightarrow> bytes \<Rightarrow> str \<Rightarrow> sheap \<Rightarrow> (str \<times> sheap) option" where
  "string_append H p s h = string_insert H (st_cb s) p s h"

definition string_erase :: "c_heap \<Rightarrow> nat \<Rightarrow> nat \<Rightarrow> str \<Rightarrow> sheap \<Rightarrow> (str \<times> sheap) option" where
  "string_erase H fromByteOffset toByteOffset s h =
     (let (from, to) = (if fromByteOffset > toByteOffset then (toByteOffset, fromByteOffset) else (fromByteOffset, toByteOffset));
          from = min (st_cb s) from;
          to = min (st_cb s) to;
          cbToErase = to - from
      in if cbToErase = 0 then Some (s, h)
         else do {
           (s, h) \<leftarrow> prepareToModify H s h;
           (case st_buf s of
              Ptr a \<Rightarrow> do {
                let cbToMove = st_cb s - to;
                h \<leftarrow> (if cbToMove > 0 then move_chars a (st_offset s + from) (st_offset s + to) cbToMove h else Some h);
                let cb = st_cb s - cbToErase;
                h \<leftarrow> write_chars a cb [0] h;
                (a, h) \<leftarrow> buf_realloc H a (- int cbToErase) h;
                Some (s\<lparr>st_buf := Ptr a, st_cb := cb\<rparr>, h) }
            | _ \<Rightarrow> None) })"

text \<open>
  \<^verbatim>\<open>c_str\<close>: the pointer returned is \<^verbatim>\<open>_buf\<close>, of the original or of a new buffer; the third component holds the characters
  behind it.
\<close>

definition string_c_str :: "c_heap \<Rightarrow> str \<Rightarrow> sheap \<Rightarrow> (str \<times> sheap \<times> bytes) option" where
  "string_c_str H s h = do {
     (s, h) \<leftarrow>
       (if st_buf s \<noteq> NullP \<and> st_type s = kTypeStandard then
          case st_buf s of
            Ptr a \<Rightarrow> do {
              b \<leftarrow> sh_bufs h a;
              if st_offset s + st_cb s < sb_cb b then do {
                (a', h) \<leftarrow> buf_new H (st_cb s) h;
                d \<leftarrow> start_chars h s;
                h \<leftarrow> write_chars a' 0 d h;
                h \<leftarrow> write_chars a' (st_cb s) [0] h;
                h \<leftarrow> buf_release a h;
                Some (s\<lparr>st_offset := 0, st_buf := Ptr a'\<rparr>, h) }
              else Some (s, h) }
          | _ \<Rightarrow> None
        else Some (s, h));
     d \<leftarrow> ptr_data h (st_buf s);
     Some (s, h, d) }"

subsection \<open>The invariant of the heap\<close>

text \<open>
  \<open>heap_ok h c\<close>: every buffer is well-formed and counts as many references as \<open>c\<close> says, at least one; no other address is in use.
\<close>

definition buf_ok :: "strbuf \<Rightarrow> bool" where
  "buf_ok b \<longleftrightarrow> sb_cb b = sb_cap b \<and> length (sb_data b) = sb_cap b + 1 \<and> sb_cap b < 2 ^ 31"

definition heap_ok :: "sheap \<Rightarrow> (nat \<Rightarrow> nat) \<Rightarrow> bool" where
  "heap_ok h c \<longleftrightarrow>
     (\<forall>a. case sh_bufs h a of None \<Rightarrow> c a = 0 | Some b \<Rightarrow> buf_ok b \<and> sb_refs b = c a \<and> 0 < c a \<and> a < sh_next h)"

text \<open>The reference that a string holds.\<close>

definition owns :: "str \<Rightarrow> nat \<Rightarrow> nat" where
  "owns s a = (if st_buf s = Ptr a \<and> st_type s = kTypeStandard then 1 else 0)"

definition str_ok :: "sheap \<Rightarrow> str \<Rightarrow> bool" where
  "str_ok h s =
     (case st_buf s of
        NullP \<Rightarrow> st_cb s = 0 \<and> st_offset s = 0 \<and> st_type s = kTypeStandard
      | Lit d \<Rightarrow> st_type s = kTypeStatic \<and> st_offset s + st_cb s < length d
      | Ptr a \<Rightarrow> st_type s = kTypeStandard \<and>
          (case sh_bufs h a of None \<Rightarrow> False | Some b \<Rightarrow> st_offset s + st_cb s \<le> sb_cap b))"

text \<open>The buffer at \<open>a\<close> keeps its characters.\<close>

definition same_buf :: "sheap \<Rightarrow> sheap \<Rightarrow> nat \<Rightarrow> bool" where
  "same_buf h h' a \<longleftrightarrow>
     map_option (\<lambda>b. (sb_cap b, sb_data b)) (sh_bufs h a) = map_option (\<lambda>b. (sb_cap b, sb_data b)) (sh_bufs h' a)"

text \<open>
  An operation's contract. Other strings hold \<open>c\<close> references. The result is a well-formed string with the characters \<open>xs\<close>, the counts
  are those of the other strings and of the result, and no buffer of another string changes.
\<close>

definition str_yields :: "sheap \<Rightarrow> (nat \<Rightarrow> nat) \<Rightarrow> (str \<times> sheap) option \<Rightarrow> bytes \<Rightarrow> bool" where
  "str_yields h c r xs \<longleftrightarrow>
     (\<exists>s' h'. r = Some (s', h') \<and> heap_ok h' (\<lambda>a. c a + owns s' a) \<and> str_ok h' s' \<and> start_chars h' s' = Some xs \<and>
        (\<forall>a. 0 < c a \<longrightarrow> same_buf h h' a))"

lemma heap_okD:
  "heap_ok h c \<Longrightarrow> 0 < c a \<Longrightarrow> \<exists>b. sh_bufs h a = Some b \<and> buf_ok b \<and> sb_refs b = c a \<and> a < sh_next h"
  unfolding heap_ok_def by (drule spec [of _ a]) (auto split: option.splits)

lemma heap_ok_Some: "heap_ok h c \<Longrightarrow> sh_bufs h a = Some b \<Longrightarrow> buf_ok b \<and> sb_refs b = c a \<and> 0 < c a \<and> a < sh_next h"
  unfolding heap_ok_def by (drule spec [of _ a]) auto

lemma heap_ok_fresh: "heap_ok h c \<Longrightarrow> sh_next h \<le> a \<Longrightarrow> sh_bufs h a = None \<and> c a = 0"
  unfolding heap_ok_def by (drule spec [of _ a]) (auto split: option.splits)

lemma heap_okI:
  assumes "heap_ok h c" and "\<And>x. x \<noteq> a \<Longrightarrow> sh_bufs h' x = sh_bufs h x \<and> c' x = c x"
    and "sh_next h \<le> sh_next h'"
    and "case sh_bufs h' a of None \<Rightarrow> c' a = 0 | Some b \<Rightarrow> buf_ok b \<and> sb_refs b = c' a \<and> 0 < c' a \<and> a < sh_next h'"
  shows "heap_ok h' c'"
  unfolding heap_ok_def
proof
  fix x
  show "case sh_bufs h' x of None \<Rightarrow> c' x = 0 | Some b \<Rightarrow> buf_ok b \<and> sb_refs b = c' x \<and> 0 < c' x \<and> x < sh_next h'"
  proof (cases "x = a")
    case False
    then show ?thesis using assms(1-3) spec [OF assms(1) [unfolded heap_ok_def], of x] by (auto split: option.splits)
  next
    case True
    show ?thesis unfolding True by (rule assms(4))
  qed
qed

lemma same_buf_refl [simp]: "same_buf h h a"
  by (simp add: same_buf_def)

lemma same_buf_trans: "same_buf h1 h2 a \<Longrightarrow> same_buf h2 h3 a \<Longrightarrow> same_buf h1 h3 a"
  by (simp add: same_buf_def)

lemma same_bufD: "same_buf h h' a \<Longrightarrow> sh_bufs h a = Some b \<Longrightarrow> \<exists>b'. sh_bufs h' a = Some b' \<and> sb_cap b' = sb_cap b \<and> sb_data b' = sb_data b"
  by (cases "sh_bufs h' a") (auto simp: same_buf_def)

lemma str_ok_same:
  assumes "str_ok h s" and "\<And>a. st_buf s = Ptr a \<Longrightarrow> same_buf h h' a"
  shows "str_ok h' s \<and> start_chars h' s = start_chars h s"
proof (cases "st_buf s")
  case (Ptr a)
  then obtain b where "sh_bufs h a = Some b" using assms(1) by (auto simp: str_ok_def split: option.splits)
  with same_bufD [OF assms(2) [OF Ptr]] Ptr assms(1) show ?thesis
    by (auto simp: str_ok_def start_chars_def read_chars_def ptr_data_def)
qed (use assms in \<open>auto simp: str_ok_def start_chars_def read_chars_def ptr_data_def\<close>)

lemma str_ok_chars: "str_ok h s \<Longrightarrow> heap_ok h c \<Longrightarrow> \<exists>xs. start_chars h s = Some xs \<and> length xs = st_cb s"
  by (auto simp: str_ok_def start_chars_def read_chars_def ptr_data_def slice_def split: bufptr.splits option.splits
      dest: heap_ok_Some simp: buf_ok_def)

subsection \<open>Counting\<close>

lemma retain_ok:
  assumes "heap_ok h c" and "0 < c a" and "c a < 1000"
  obtains h' where "buf_retain a h = Some h'" "heap_ok h' (c(a := c a + 1))" "\<And>x. same_buf h h' x"
proof -
  obtain b where b: "sh_bufs h a = Some b" "buf_ok b" "sb_refs b = c a" "a < sh_next h" using heap_okD [OF assms(1,2)] by blast
  let ?h = "h\<lparr>sh_bufs := (sh_bufs h)(a \<mapsto> b\<lparr>sb_refs := c a + 1\<rparr>)\<rparr>"
  have "buf_retain a h = Some ?h" using b assms(3) by (simp add: buf_retain_def)
  moreover have "heap_ok ?h (c(a := c a + 1))" by (rule heap_okI [OF assms(1), of a]) (use b in \<open>auto simp: buf_ok_def\<close>)
  moreover have "same_buf h ?h x" for x using b by (simp add: same_buf_def)
  ultimately show thesis using that by blast
qed

lemma release_ok:
  assumes "heap_ok h c" and "0 < c a" and "c a < 1000"
  obtains h' where "buf_release a h = Some h'" "heap_ok h' (c(a := c a - 1))" "\<And>x. x \<noteq> a \<or> 1 < c a \<Longrightarrow> same_buf h h' x"
proof -
  obtain b where b: "sh_bufs h a = Some b" "buf_ok b" "sb_refs b = c a" "a < sh_next h" using heap_okD [OF assms(1,2)] by blast
  show thesis
  proof (cases "c a = 1")
    case True
    let ?h = "h\<lparr>sh_bufs := (sh_bufs h)(a := None)\<rparr>"
    have "buf_release a h = Some ?h" using b True by (simp add: buf_release_def)
    moreover have "heap_ok ?h (c(a := c a - 1))" by (rule heap_okI [OF assms(1), of a]) (use True in auto)
    moreover have "same_buf h ?h x" if "x \<noteq> a \<or> 1 < c a" for x using that True by (simp add: same_buf_def)
    ultimately show thesis using that by blast
  next
    case False
    let ?h = "h\<lparr>sh_bufs := (sh_bufs h)(a \<mapsto> b\<lparr>sb_refs := c a - 1\<rparr>)\<rparr>"
    have "buf_release a h = Some ?h" using b False assms by (simp add: buf_release_def)
    moreover have "heap_ok ?h (c(a := c a - 1))" by (rule heap_okI [OF assms(1), of a]) (use b False assms(2) in \<open>auto simp: buf_ok_def\<close>)
    moreover have "same_buf h ?h x" for x using b by (simp add: same_buf_def)
    ultimately show thesis using that by blast
  qed
qed

lemma buf_new_ok:
  assumes "heap_ok h c" and "c_heap_ok limit H" and "cb + 13 \<le> limit" and "limit < 2 ^ 31"
  obtains a b h' where "buf_new H cb h = Some (a, h')" "heap_ok h' (c(a := 1))" "c a = 0" "sh_bufs h a = None"
    "sh_bufs h' a = Some b" "sb_cap b = cb" "length (sb_data b) = cb + 1" "\<forall>x. x \<noteq> a \<longrightarrow> sh_bufs h' x = sh_bufs h x"
proof -
  obtain blk where blk: "ch_malloc H (12 + cb + 1) = Some blk" "length blk = 12 + cb + 1"
    using malloc_ok [OF assms(2), of "12 + cb + 1"] assms(3) by auto
  let ?b = "\<lparr>sb_refs = 1, sb_cb = cb, sb_cap = cb, sb_data = drop 12 blk\<rparr>" and ?a = "sh_next h"
  let ?h = "\<lparr>sh_bufs = (sh_bufs h)(?a \<mapsto> ?b), sh_next = ?a + 1\<rparr>"
  have f: "sh_bufs h ?a = None" "c ?a = 0" using heap_ok_fresh [OF assms(1)] by auto
  have "heap_ok ?h (c(?a := 1))" by (rule heap_okI [OF assms(1), of ?a]) (use blk assms(3,4) in \<open>auto simp: buf_ok_def\<close>)
  then show thesis using that [of ?a ?h ?b] blk f by (simp add: buf_new_def store_buf_def)
qed

lemma write_ok:
  assumes "heap_ok h c" and "sh_bufs h a = Some b" and "off + length d \<le> length (sb_data b)"
  obtains h' where "write_chars a off d h = Some h'" "heap_ok h' c"
    "sh_bufs h' a = Some (b\<lparr>sb_data := take off (sb_data b) @ d @ drop (off + length d) (sb_data b)\<rparr>)" "\<forall>x. x \<noteq> a \<longrightarrow> sh_bufs h' x = sh_bufs h x"
proof -
  let ?b = "b\<lparr>sb_data := take off (sb_data b) @ d @ drop (off + length d) (sb_data b)\<rparr>"
  let ?h = "h\<lparr>sh_bufs := (sh_bufs h)(a \<mapsto> ?b)\<rparr>"
  have "heap_ok ?h c" by (rule heap_okI [OF assms(1), of a]) (use heap_ok_Some [OF assms(1,2)] assms(3) in \<open>auto simp: buf_ok_def\<close>)
  then show thesis using that [of ?h] assms(2,3) by (simp add: write_chars_def blit_def)
qed

lemma move_ok:
  assumes "heap_ok h c" and "sh_bufs h a = Some b" and "src + n \<le> length (sb_data b)" and "dst + n \<le> length (sb_data b)"
  obtains h' where "move_chars a dst src n h = Some h'" "heap_ok h' c"
    "sh_bufs h' a = Some (b\<lparr>sb_data := take dst (sb_data b) @ take n (drop src (sb_data b)) @ drop (dst + n) (sb_data b)\<rparr>)"
    "\<forall>x. x \<noteq> a \<longrightarrow> sh_bufs h' x = sh_bufs h x"
proof -
  let ?b = "b\<lparr>sb_data := take dst (sb_data b) @ take n (drop src (sb_data b)) @ drop (dst + n) (sb_data b)\<rparr>"
  let ?h = "h\<lparr>sh_bufs := (sh_bufs h)(a \<mapsto> ?b)\<rparr>"
  have "heap_ok ?h c" by (rule heap_okI [OF assms(1), of a]) (use heap_ok_Some [OF assms(1,2)] assms(3,4) in \<open>auto simp: buf_ok_def\<close>)
  then show thesis using that [of ?h] assms(2-4) by (simp add: move_chars_def memmove_in_Some)
qed

lemma realloc_keeps:
  assumes "c_heap_ok limit H" and "0 < n" and "n \<le> limit"
  obtains b where "ch_realloc H (Some q) n = Some b" "length b = n" "take (min n (length q)) b = take (min n (length q)) q"
  using assms unfolding c_heap_ok_def by blast

lemma realloc_ok:
  assumes "heap_ok h c" and "c_heap_ok limit H" and "sh_bufs h a = Some b" and "int n = int (sb_cap b) + delta" and "n + 13 \<le> limit"
    and "limit < 2 ^ 31"
  obtains a' b' h' where "buf_realloc H a delta h = Some (a', h')" "heap_ok h' (c(a := 0, a' := c a))" "sh_bufs h a' = None" "c a' = 0"
    "sh_bufs h' a' = Some b'" "sb_cap b' = n" "length (sb_data b') = n + 1"
    "take (min (n + 1) (sb_cap b + 1)) (sb_data b') = take (min (n + 1) (sb_cap b + 1)) (sb_data b)"
    "\<forall>x. x \<noteq> a \<and> x \<noteq> a' \<longrightarrow> sh_bufs h' x = sh_bufs h x"
proof -
  let ?a = "sh_next h" and ?blk = "replicate 12 0 @ sb_data b"
  note b = heap_ok_Some [OF assms(1,3)]
  obtain blk where blk: "ch_realloc H (Some ?blk) (12 + n + 1) = Some blk" "length blk = 12 + n + 1"
    "take (min (12 + n + 1) (length ?blk)) blk = take (min (12 + n + 1) (length ?blk)) ?blk"
    by (rule realloc_keeps [OF assms(2), of "12 + n + 1" ?blk]) (use assms(5) in auto)
  let ?b = "b\<lparr>sb_cap := n, sb_cb := n, sb_data := drop 12 blk\<rparr>"
  let ?h = "\<lparr>sh_bufs = (sh_bufs h)(a := None, ?a \<mapsto> ?b), sh_next = ?a + 1\<rparr>"
  have f: "sh_bufs h ?a = None" "c ?a = 0" using heap_ok_fresh [OF assms(1)] by auto
  have ne: "a \<noteq> ?a" using b by auto
  have h1: "heap_ok (h\<lparr>sh_bufs := (sh_bufs h)(a := None)\<rparr>) (c(a := 0))" by (rule heap_okI [OF assms(1), of a]) auto
  have "heap_ok ?h (c(a := 0, ?a := c a))"
    by (rule heap_okI [OF h1, of ?a]) (use b blk assms(5,6) ne in \<open>auto simp: buf_ok_def\<close>)
  moreover have "nat ((int (sb_cap b) + delta) mod 2 ^ 32) = n" using assms(5,6) unfolding assms(4) [symmetric] by simp
  then have "buf_realloc H a delta h = Some (?a, ?h)" using assms(3) blk(1) by (simp add: buf_realloc_def store_buf_def Let_def add.commute)
  moreover have "take (min (n + 1) (sb_cap b + 1)) (drop 12 blk) = take (min (n + 1) (sb_cap b + 1)) (sb_data b)"
  proof -
    have "length ?blk = 12 + (sb_cap b + 1)" using b by (simp add: buf_ok_def)
    then have m: "min (12 + n + 1) (length ?blk) = 12 + min (n + 1) (sb_cap b + 1)" by simp
    have "drop 12 (take (12 + min (n + 1) (sb_cap b + 1)) blk) = drop 12 (take (12 + min (n + 1) (sb_cap b + 1)) ?blk)"
      using blk(3) unfolding m by (rule arg_cong)
    then show ?thesis by (simp add: drop_take)
  qed
  ultimately show thesis using that [of ?a ?h ?b] f blk(2) by simp
qed

subsection \<open>Sharing\<close>

lemma owns_Ptr: "st_buf s = Ptr a \<Longrightarrow> st_type s = 0 \<Longrightarrow> (\<lambda>x. c x + owns s x) = c(a := c a + 1)"
  by (auto simp: owns_def)

lemma owns_none: "(\<forall>a. st_buf s \<noteq> Ptr a) \<or> st_type s \<noteq> 0 \<Longrightarrow> (\<lambda>x. c x + owns s x) = c"
  by (auto simp: owns_def)

lemma fresh_same: "c a = 0 \<Longrightarrow> \<forall>x. x \<noteq> a \<longrightarrow> sh_bufs h' x = sh_bufs h x \<Longrightarrow> 0 < c x \<Longrightarrow> same_buf h h' x" for c :: "nat \<Rightarrow> nat"
  by (cases "x = a") (simp_all add: same_buf_def)

lemma ptr_counted: "str_ok h s \<Longrightarrow> heap_ok h c \<Longrightarrow> st_buf s = Ptr a \<Longrightarrow> 0 < c a \<and> st_type s = 0"
  by (auto simp: str_ok_def split: option.splits dest: heap_ok_Some)

lemma add_ref:
  assumes "heap_ok h c" and "str_ok h s" and "\<And>a. c a < 1000"
  obtains h' where "(if st_buf s \<noteq> NullP \<and> st_type s = 0 then retain_ptr (st_buf s) h else Some h) = Some h'"
    "heap_ok h' (\<lambda>a. c a + owns s a)" "\<And>a. same_buf h h' a"
proof (cases "st_buf s")
  case (Ptr a)
  with ptr_counted [OF assms(2,1)] have "0 < c a" "st_type s = 0" by auto
  moreover obtain h' where "buf_retain a h = Some h'" "heap_ok h' (c(a := c a + 1))" "\<And>x. same_buf h h' x"
    using retain_ok [OF assms(1) \<open>0 < c a\<close>] assms(3) by blast
  ultimately show thesis using that [of h'] Ptr owns_Ptr [OF Ptr, of c] by (simp add: retain_ptr_def)
qed (use assms that [of h] in \<open>auto simp: str_ok_def owns_none\<close>)

lemma drop_ref:
  assumes "heap_ok h (\<lambda>a. c a + owns s a)" and "str_ok h s" and "\<And>a. c a < 999"
  obtains h' where "(if st_buf s \<noteq> NullP \<and> st_type s = 0 then release_ptr (st_buf s) h else Some h) = Some h'"
    "heap_ok h' c" "\<And>a. 0 < c a \<Longrightarrow> same_buf h h' a"
proof (cases "st_buf s")
  case (Ptr a)
  have t: "st_type s = 0" using assms(2) Ptr by (simp add: str_ok_def)
  have h: "heap_ok h (c(a := c a + 1))" using assms(1) owns_Ptr [OF Ptr t] by simp
  obtain h' where h': "buf_release a h = Some h'" "heap_ok h' (c(a := c a + 1, a := c a))" "\<And>x. x \<noteq> a \<or> 0 < c a \<Longrightarrow> same_buf h h' x"
    using release_ok [OF h, of a] assms(3) [of a] by auto
  have "same_buf h h' x" if "0 < c x" for x using h'(3) [of x] that by (cases "x = a") simp_all
  with that [of h'] h'(1,2) Ptr t show thesis by (simp add: release_ptr_def)
next
  case NullP
  then show thesis using assms that [of h] by (simp add: owns_none)
next
  case (Lit d)
  then show thesis using assms that [of h] by (simp add: owns_none str_ok_def)
qed

lemma string_copy_yields:
  assumes "heap_ok h c" and "str_ok h s" and "\<And>a. c a < 1000" and "start_chars h s = Some xs"
  shows "str_yields h c (string_copy s h) xs"
proof -
  obtain h' where h': "(if st_buf s \<noteq> NullP \<and> st_type s = 0 then retain_ptr (st_buf s) h else Some h) = Some h'"
    "heap_ok h' (\<lambda>a. c a + owns s a)" "\<And>a. same_buf h h' a" using add_ref [OF assms(1-3)] by blast
  then have "string_copy s h = Some (s, h')" by (simp add: string_copy_def)
  with h' str_ok_same [OF assms(2), of h'] assms(4) show ?thesis by (simp add: str_yields_def)
qed

lemma string_sub_yields:
  assumes "heap_ok h c" and "str_ok h s" and "\<And>a. c a < 1000" and "start_chars h s = Some xs" and "st_buf s \<noteq> NullP"
    and "f \<le> t" and "t \<le> st_cb s" and "st_offset s + st_cb s < 2 ^ 24"
  shows "str_yields h c (string_sub s f t h) (take (t - f) (drop f xs))"
proof -
  obtain h' where h': "(if st_buf s \<noteq> NullP \<and> st_type s = 0 then retain_ptr (st_buf s) h else Some h) = Some h'"
    "heap_ok h' (\<lambda>a. c a + owns s a)" "\<And>a. same_buf h h' a" using add_ref [OF assms(1-3)] by blast
  let ?s = "s\<lparr>st_cb := t - f, st_offset := st_offset s + f\<rparr>"
  have "int t - int f = int (t - f)" "t - f < 2 ^ 32" using assms(6-8) by auto
  then have eq: "string_sub s f t h = Some (?s, h')" using h'(1) assms(5-8) by (simp add: string_sub_def)
  have o: "owns ?s a = owns s a" for a by (simp add: owns_def)
  have ok: "str_ok h' s" "start_chars h' s = Some xs" using str_ok_same [OF assms(2), of h'] h'(3) assms(4) by auto
  then have "str_ok h' ?s" using assms(6,7) by (auto simp: str_ok_def split: bufptr.splits option.splits)
  moreover have "start_chars h' ?s = Some (take (t - f) (drop f xs))"
  proof -
    obtain d where d: "ptr_data h' (st_buf s) = Some d" "slice d (st_offset s) (st_cb s) = Some xs"
      using ok(2) by (auto simp: start_chars_def read_chars_def split: bind_splits)
    then have "slice d (st_offset s + f) (t - f) = Some (take (t - f) (drop f xs))"
      using assms(6,7) by (auto simp: slice_eq_Some_iff drop_take min_def add.commute)
    then show ?thesis using d by (simp add: start_chars_def read_chars_def)
  qed
  ultimately show ?thesis using eq h'(2,3) o by (simp add: str_yields_def)
qed

lemma string_set_yields:
  assumes "heap_ok h (\<lambda>a. c a + owns s a)" and "str_ok h s" and "\<And>a. c a < 999"
    and "str_ok h t" and "start_chars h t = Some xs" and "\<And>a. st_buf t = Ptr a \<Longrightarrow> 0 < c a"
  shows "str_yields h c (string_set s t h) xs"
proof -
  obtain h1 where h1: "(if st_buf s \<noteq> NullP \<and> st_type s = 0 then release_ptr (st_buf s) h else Some h) = Some h1"
    "heap_ok h1 c" "\<And>a. 0 < c a \<Longrightarrow> same_buf h h1 a" using drop_ref [OF assms(1-3)] by blast
  have t: "str_ok h1 t" "start_chars h1 t = Some xs" using str_ok_same [OF assms(4), of h1] assms(5,6) h1(3) by auto
  have "c a < 1000" for a using assms(3) [of a] by simp
  then obtain h2 where h2: "(if st_buf t \<noteq> NullP \<and> st_type t = 0 then retain_ptr (st_buf t) h1 else Some h1) = Some h2"
    "heap_ok h2 (\<lambda>a. c a + owns t a)" "\<And>a. same_buf h1 h2 a" using add_ref [OF h1(2) t(1)] by blast
  have "string_set s t h = Some (t, h2)" using h1(1) h2(1) by (simp add: string_set_def)
  with h1 h2 t str_ok_same [OF t(1), of h2] show ?thesis by (auto simp: str_yields_def intro: same_buf_trans)
qed

lemma string_assign_yields:
  assumes "heap_ok h (\<lambda>a. c a + owns s a)" and "str_ok h s" and "\<And>a. c a < 999" and "st_type s = 0"
    and "c_heap_ok limit H" and "length p + 13 \<le> limit" and "limit < 2 ^ 31"
  shows "str_yields h c (string_assign H (Some p) s h) p"
proof -
  obtain h1 where h1: "(if st_buf s \<noteq> NullP \<and> st_type s = 0 then release_ptr (st_buf s) h else Some h) = Some h1"
    "heap_ok h1 c" "\<And>a. 0 < c a \<Longrightarrow> same_buf h h1 a" using drop_ref [OF assms(1-3)] by blast
  obtain a b h2 where h2: "buf_new H (length p) h1 = Some (a, h2)" "heap_ok h2 (c(a := 1))" "c a = 0" "sh_bufs h1 a = None"
    "sh_bufs h2 a = Some b" "sb_cap b = length p" "length (sb_data b) = length p + 1" "\<forall>x. x \<noteq> a \<longrightarrow> sh_bufs h2 x = sh_bufs h1 x"
    by (rule buf_new_ok [OF h1(2) assms(5,6,7)])
  have l3: "0 + length p \<le> length (sb_data b)" using h2(7) by simp
  obtain h3 where h3: "write_chars a 0 p h2 = Some h3" "heap_ok h3 (c(a := 1))"
    "sh_bufs h3 a = Some (b\<lparr>sb_data := take 0 (sb_data b) @ p @ drop (0 + length p) (sb_data b)\<rparr>)" "\<forall>x. x \<noteq> a \<longrightarrow> sh_bufs h3 x = sh_bufs h2 x"
    using write_ok [OF h2(2,5) l3] by blast
  obtain h4 where h4: "write_chars a (length p) [0] h3 = Some h4" "heap_ok h4 (c(a := 1))"
    "sh_bufs h4 a = Some (b\<lparr>sb_data := p @ [0]\<rparr>)" "\<forall>x. x \<noteq> a \<longrightarrow> sh_bufs h4 x = sh_bufs h3 x"
    using write_ok [OF h3(2,3), of "length p" "[0]"] h2(7) by auto
  let ?s = "s\<lparr>st_buf := Ptr a, st_cb := length p, st_offset := 0\<rparr>"
  have "string_assign H (Some p) s h = Some (?s, h4)" using h1(1) h2(1) h3(1) h4(1) by (simp add: string_assign_def)
  moreover have "(\<lambda>x. c x + owns ?s x) = c(a := 1)" using owns_Ptr [of ?s a c] assms(4) h2(3) by simp
  moreover have "str_ok h4 ?s" "start_chars h4 ?s = Some p"
    using h4(3) h2(6) assms(4) by (simp_all add: str_ok_def start_chars_def read_chars_def ptr_data_def slice_def)
  moreover have "same_buf h h4 x" if "0 < c x" for x
  proof (rule same_buf_trans [OF h1(3) [OF that]])
    have "\<forall>y. y \<noteq> a \<longrightarrow> sh_bufs h4 y = sh_bufs h1 y" using h2(8) h3(4) h4(4) by simp
    then show "same_buf h1 h4 x" using fresh_same [of c a h4 h1 x] h2(3) that by blast
  qed
  ultimately show ?thesis using h4(2) by (simp add: str_yields_def)
qed

lemma string_assign_null_yields:
  assumes "heap_ok h (\<lambda>a. c a + owns s a)" and "str_ok h s" and "\<And>a. c a < 999" and "st_type s = 0"
  shows "str_yields h c (string_assign H None s h) []"
proof -
  obtain h1 where h1: "(if st_buf s \<noteq> NullP \<and> st_type s = 0 then release_ptr (st_buf s) h else Some h) = Some h1"
    "heap_ok h1 c" "\<And>a. 0 < c a \<Longrightarrow> same_buf h h1 a" using drop_ref [OF assms(1-3)] by blast
  let ?s = "s\<lparr>st_buf := NullP, st_cb := 0, st_offset := 0\<rparr>"
  have "string_assign H None s h = Some (?s, h1)" using h1(1) by (simp add: string_assign_def)
  moreover have "(\<lambda>x. c x + owns ?s x) = c" by (simp add: owns_none)
  ultimately show ?thesis using h1 assms(4) by (simp add: str_yields_def str_ok_def start_chars_def read_chars_def ptr_data_def)
qed

lemma string_clear_yields:
  assumes "heap_ok h (\<lambda>a. c a + owns s a)" and "str_ok h s" and "\<And>a. c a < 999" and "st_type s = 0"
  shows "str_yields h c (string_clear s h) []"
proof (cases "st_buf s = NullP")
  case True
  then show ?thesis using assms(1,2)
    by (simp add: str_yields_def string_clear_def str_ok_def start_chars_def read_chars_def ptr_data_def)
next
  case False
  obtain h1 where h1: "release_ptr (st_buf s) h = Some h1" "heap_ok h1 c" "\<And>a. 0 < c a \<Longrightarrow> same_buf h h1 a"
    using drop_ref [OF assms(1-3)] False assms(4) by auto
  let ?s = "s\<lparr>st_buf := NullP, st_cb := 0, st_offset := 0\<rparr>"
  have "(\<lambda>x. c x + owns ?s x) = c" by (rule owns_none) simp
  then show ?thesis using h1 False assms(4)
    by (simp add: str_yields_def string_clear_def str_ok_def start_chars_def read_chars_def ptr_data_def)
qed

subsection \<open>Copy on write\<close>

lemma private_copy_ok:
  assumes "heap_ok h c" and "c_heap_ok limit H" and "st_cb s + 13 \<le> limit" and "limit < 2 ^ 31"
    and "str_ok h s" and "start_chars h s = Some xs"
  obtains a b h' where "private_copy H s h = Some (s\<lparr>st_buf := Ptr a, st_offset := 0\<rparr>, h')" "heap_ok h' (c(a := 1))" "c a = 0"
    "sh_bufs h' a = Some b" "sb_cap b = st_cb s" "take (st_cb s) (sb_data b) = xs" "\<forall>x. x \<noteq> a \<longrightarrow> sh_bufs h' x = sh_bufs h x"
proof -
  obtain a b h1 where h1: "buf_new H (st_cb s) h = Some (a, h1)" "heap_ok h1 (c(a := 1))" "c a = 0" "sh_bufs h a = None"
    "sh_bufs h1 a = Some b" "sb_cap b = st_cb s" "length (sb_data b) = st_cb s + 1" "\<forall>x. x \<noteq> a \<longrightarrow> sh_bufs h1 x = sh_bufs h x"
    by (rule buf_new_ok [OF assms(1-4)])
  have "same_buf h h1 x" if "st_buf s = Ptr x" for x
    using that h1(4,8) assms(5) by (cases "x = a") (simp_all add: str_ok_def same_buf_def)
  then have r: "start_chars h1 s = Some xs" using str_ok_same [OF assms(5), of h1] assms(6) by simp
  have l: "length xs = st_cb s" using str_ok_chars [OF assms(5,1)] assms(6) by auto
  have w: "0 + length xs \<le> length (sb_data b)" using h1(7) l by simp
  obtain h2 where h2: "write_chars a 0 xs h1 = Some h2" "heap_ok h2 (c(a := 1))"
    "sh_bufs h2 a = Some (b\<lparr>sb_data := take 0 (sb_data b) @ xs @ drop (0 + length xs) (sb_data b)\<rparr>)" "\<forall>x. x \<noteq> a \<longrightarrow> sh_bufs h2 x = sh_bufs h1 x"
    by (rule write_ok [OF h1(2,5) w])
  show thesis
    by (rule that [of a h2 "b\<lparr>sb_data := xs @ drop (length xs) (sb_data b)\<rparr>"]) (use h1 h2 r l in \<open>simp_all add: private_copy_def\<close>)
qed

text \<open>After \<^verbatim>\<open>prepareToModify\<close> the string has a buffer for itself; a shared or static one was copied.\<close>

lemma prepareToModify_ok:
  assumes "heap_ok h (\<lambda>a. c a + owns s a)" and "str_ok h s" and "\<And>a. c a < 999" and "c_heap_ok limit H" and "st_cb s + 13 \<le> limit"
    and "limit < 2 ^ 31" and "st_buf s \<noteq> NullP" and "start_chars h s = Some xs"
  obtains a b s' h' where "prepareToModify H s h = Some (s', h')" "st_buf s' = Ptr a" "st_type s' = 0" "st_cb s' = st_cb s"
    "heap_ok h' (c(a := 1))" "c a = 0" "sh_bufs h' a = Some b" "st_offset s' + st_cb s \<le> sb_cap b"
    "take (st_cb s) (drop (st_offset s') (sb_data b)) = xs" "\<forall>x. 0 < c x \<longrightarrow> same_buf h h' x"
    "st_offset s' = 0 \<and> sb_cap b = st_cb s \<or> c a = 0 \<and> st_buf s = Ptr a \<and> st_offset s' = st_offset s \<and> sh_bufs h a = Some b"
proof (cases "st_buf s")
  case (Lit d)
  then have t: "st_type s = 1" and h: "heap_ok h c" using assms(1,2) by (simp_all add: str_ok_def owns_none)
  obtain a b h' where p: "private_copy H s h = Some (s\<lparr>st_buf := Ptr a, st_offset := 0\<rparr>, h')" "heap_ok h' (c(a := 1))" "c a = 0"
    "sh_bufs h' a = Some b" "sb_cap b = st_cb s" "take (st_cb s) (sb_data b) = xs" "\<forall>x. x \<noteq> a \<longrightarrow> sh_bufs h' x = sh_bufs h x"
    by (rule private_copy_ok [OF h assms(4-6,2,8)])
  have "same_buf h h' x" if "0 < c x" for x using fresh_same [of c a h' h x] p(3,7) that by blast
  then show thesis using that [of "s\<lparr>st_buf := Ptr a, st_offset := 0, st_type := 0\<rparr>" h' a b] p t by (simp add: prepareToModify_def)
next
  case (Ptr a)
  then have t: "st_type s = 0" using assms(2) by (simp add: str_ok_def)
  have h: "heap_ok h (c(a := c a + 1))" using assms(1) owns_Ptr [OF Ptr t] by simp
  obtain b where b: "sh_bufs h a = Some b" "st_offset s + st_cb s \<le> sb_cap b" using assms(2) Ptr by (auto simp: str_ok_def split: option.splits)
  have refs: "sb_refs b = c a + 1" "buf_ok b" using heap_ok_Some [OF h b(1)] by auto
  have xs: "take (st_cb s) (drop (st_offset s) (sb_data b)) = xs"
    using assms(8) Ptr b(1) by (auto simp: start_chars_def read_chars_def ptr_data_def slice_def split: if_splits)
  show thesis
  proof (cases "c a = 0")
    case True
    then have "prepareToModify H s h = Some (s, h)" using Ptr t b(1) refs by (simp add: prepareToModify_def)
    then show thesis using that [of s h a b] Ptr t h True b xs by simp
  next
    case False
    obtain h1 where h1: "buf_release a h = Some h1" "heap_ok h1 (c(a := c a + 1, a := c a))" "\<And>x. same_buf h h1 x"
      using release_ok [OF h, of a] assms(3) [of a] False by auto
    have h1c: "heap_ok h1 c" using h1(2) by simp
    have s1: "str_ok h1 s" "start_chars h1 s = Some xs" using str_ok_same [OF assms(2), of h1] h1(3) assms(8) by auto
    obtain a' b' h' where p: "private_copy H s h1 = Some (s\<lparr>st_buf := Ptr a', st_offset := 0\<rparr>, h')" "heap_ok h' (c(a' := 1))" "c a' = 0"
      "sh_bufs h' a' = Some b'" "sb_cap b' = st_cb s" "take (st_cb s) (sb_data b') = xs" "\<forall>x. x \<noteq> a' \<longrightarrow> sh_bufs h' x = sh_bufs h1 x"
      by (rule private_copy_ok [OF h1c assms(4-6) s1])
    have sm: "same_buf h h' x" if "0 < c x" for x using fresh_same [of c a' h' h1 x] p(3,7) that same_buf_trans [OF h1(3)] by blast
    have "prepareToModify H s h = Some (s\<lparr>st_buf := Ptr a', st_offset := 0\<rparr>, h')"
      using Ptr t b(1) refs h1(1) p(1) False by (simp add: prepareToModify_def)
    then show thesis using that [of "s\<lparr>st_buf := Ptr a', st_offset := 0\<rparr>" h' a' b'] p sm t by simp
  qed
qed (use assms(7) in simp)

lemma take_drop_take: "off + n \<le> m \<Longrightarrow> take n (drop off (take m D)) = take n (drop off D)"
  by (simp add: drop_take min_def)

text \<open>What the copies in \<^verbatim>\<open>insert\<close> and \<^verbatim>\<open>erase\<close> leave, on lists.\<close>

lemma insert_list:
  assumes "length D = m + length p + 1" and "off + cb \<le> m" and "k \<le> cb" and "xs = take cb (drop off D)"
    and "D1 = take (off + k + length p) D @ take (cb - k) (drop (off + k) D) @ drop (off + k + length p + (cb - k)) D"
    and "D2 = take (off + k) D1 @ p @ drop (off + k + length p) D1"
    and "D3 = take (off + (cb + length p)) D2 @ [0] @ drop (off + (cb + length p) + 1) D2"
  shows "take (cb + length p) (drop off D3) = take k xs @ p @ drop k xs" and "length D1 = length D" and "length D2 = length D" and "length D3 = length D"
proof -
  define A X1 X2 R where "A = take off D" and "X1 = take k (drop off D)" and "X2 = take (cb - k) (drop (off + k) D)" and "R = drop (off + cb) D"
  have D: "D = A @ X1 @ X2 @ R"
  proof -
    have "R = drop (cb - k) (drop (off + k) D)" unfolding R_def using assms(3) by (simp add: add.commute)
    then have "drop (off + k) D = X2 @ R" unfolding X2_def by (simp only: append_take_drop_id)
    moreover have "drop off D = X1 @ drop (off + k) D" unfolding X1_def by (metis append_take_drop_id drop_drop add.commute)
    ultimately show ?thesis unfolding A_def by (metis append_take_drop_id)
  qed
  have l: "length A = off" "length X1 = k" "length X2 = cb - k" "length p < length R"
    using assms(1-3) by (simp_all add: A_def X1_def X2_def R_def)
  have d1: "D1 = A @ X1 @ take (length p) (X2 @ R) @ X2 @ drop (length p) R"
    unfolding assms(5) D using l assms(3) by (simp add: drop_append)
  have d2: "D2 = A @ X1 @ p @ X2 @ drop (length p) R"
    unfolding assms(6) d1 using l by (auto simp: min_def)
  have d3: "D3 = A @ X1 @ p @ X2 @ [0] @ drop (Suc (length p)) R"
    unfolding assms(7) d2 using l assms(3) by simp
  have xs: "xs = X1 @ X2" unfolding assms(4) D using l assms(3) by simp
  show "take (cb + length p) (drop off D3) = take k xs @ p @ drop k xs" unfolding d3 xs using l assms(3) by simp
  show "length D1 = length D" "length D2 = length D" "length D3 = length D" unfolding d1 d2 d3 D using l by simp_all
qed

lemma erase_list:
  assumes "length D = m + 1" and "cb \<le> m" and "f < t" and "t \<le> cb" and "xs = take cb D"
    and "D1 = (if cb - t > 0 then take f D @ take (cb - t) (drop t D) @ drop (f + (cb - t)) D else D)"
    and "D2 = take (cb - (t - f)) D1 @ [0] @ drop (cb - (t - f) + 1) D1"
    and "take (m - (t - f) + 1) D3 = take (m - (t - f) + 1) D2"
  shows "take (cb - (t - f)) D3 = take f xs @ drop t xs" and "length D1 = length D" and "length D2 = length D"
proof -
  have k: "cb - (t - f) = f + (cb - t)" using assms(3,4) by simp
  show l: "length D1 = length D" using assms(1-4,6) by auto
  show "length D2 = length D" unfolding assms(7) using l assms(1-4) by auto
  have "take (cb - (t - f)) D3 = take (cb - (t - f)) (take (m - (t - f) + 1) D2)"
    unfolding assms(8) [symmetric] using assms(2) by (simp add: min_def)
  also have "\<dots> = take (cb - (t - f)) D1" unfolding assms(7) using l assms(1-4) by (simp add: min_def)
  also have "\<dots> = take f D @ take (cb - t) (drop t D)" unfolding k assms(6) using assms(1-4) by auto
  also have "\<dots> = take f xs @ drop t xs" unfolding assms(5) using assms(3,4) by (simp add: drop_take min_def)
  finally show "take (cb - (t - f)) D3 = take f xs @ drop t xs" .
qed

text \<open>Room for \<open>n\<close> more characters in the buffer of the string, or in a copy of it.\<close>

definition has_room :: "nat \<Rightarrow> sheap \<Rightarrow> str \<Rightarrow> nat \<Rightarrow> bool" where
  "has_room limit h s n =
     (st_cb s + n + 13 \<le> limit \<and>
      (case st_buf s of Ptr a \<Rightarrow> (case sh_bufs h a of None \<Rightarrow> False | Some b \<Rightarrow> sb_cap b + n + 13 \<le> limit) | _ \<Rightarrow> True))"

lemma string_insert_yields:
  assumes "heap_ok h (\<lambda>a. c a + owns s a)" and "str_ok h s" and "\<And>a. c a < 999" and "c_heap_ok limit H" and "limit < 2 ^ 31"
    and "has_room limit h s (length p)" and "start_chars h s = Some xs" and "k \<le> length xs"
  shows "str_yields h c (string_insert H k p s h) (take k xs @ p @ drop k xs)"
proof -
  have lx: "length xs = st_cb s" using str_ok_chars [OF assms(2,1)] assms(7) by auto
  have room: "st_cb s + 13 \<le> limit" "length p + 13 \<le> limit" using assms(6) by (auto simp: has_room_def)
  consider "p = []" | "p \<noteq> []" "st_buf s = NullP" | "p \<noteq> []" "st_buf s \<noteq> NullP" by blast
  then show ?thesis
  proof cases
    case 1
    then show ?thesis using assms(1,2,7) by (simp add: string_insert_def str_yields_def)
  next
    case 2
    then have "st_type s = 0" "xs = []" using assms(2) lx by (simp_all add: str_ok_def)
    with 2 string_assign_yields [OF assms(1-3) _ assms(4) room(2) assms(5)] show ?thesis by (simp add: string_insert_def)
  next
    case 3
    obtain a b s' h1 where p: "prepareToModify H s h = Some (s', h1)" "st_buf s' = Ptr a" "st_type s' = 0" "st_cb s' = st_cb s"
      "heap_ok h1 (c(a := 1))" "c a = 0" "sh_bufs h1 a = Some b" "st_offset s' + st_cb s \<le> sb_cap b"
      "take (st_cb s) (drop (st_offset s') (sb_data b)) = xs" "\<forall>x. 0 < c x \<longrightarrow> same_buf h h1 x"
      "st_offset s' = 0 \<and> sb_cap b = st_cb s \<or> c a = 0 \<and> st_buf s = Ptr a \<and> st_offset s' = st_offset s \<and> sh_bufs h a = Some b"
      by (rule prepareToModify_ok [OF assms(1-4) room(1) assms(5) 3(2) assms(7)])
    have cap: "sb_cap b + length p + 13 \<le> limit" using p(11) assms(6) by (auto simp: has_room_def split: option.splits)
    have lb: "length (sb_data b) = sb_cap b + 1" using heap_ok_Some [OF p(5,7)] by (simp add: buf_ok_def)
    have n: "int (sb_cap b + length p) = int (sb_cap b) + int (length p)" by simp
    obtain a' b' h2 where r: "buf_realloc H a (int (length p)) h1 = Some (a', h2)" "heap_ok h2 ((c(a := 1))(a := 0, a' := (c(a := 1)) a))"
      "sh_bufs h1 a' = None" "(c(a := 1)) a' = 0" "sh_bufs h2 a' = Some b'" "sb_cap b' = sb_cap b + length p" "length (sb_data b') = sb_cap b + length p + 1"
      "take (min (sb_cap b + length p + 1) (sb_cap b + 1)) (sb_data b') = take (min (sb_cap b + length p + 1) (sb_cap b + 1)) (sb_data b)"
      "\<forall>x. x \<noteq> a \<and> x \<noteq> a' \<longrightarrow> sh_bufs h2 x = sh_bufs h1 x"
      by (rule realloc_ok [OF p(5) assms(4) p(7) n cap assms(5)])
    have c': "c a' = 0" "a' \<noteq> a" using r(4) by (auto split: if_splits)
    have h2: "heap_ok h2 (c(a' := 1))" using r(2) p(6) by (simp add: fun_upd_idem)
    let ?off = "st_offset s'" and ?cb = "st_cb s" and ?l = "length p"
    define D1 where "D1 = take (?off + k + ?l) (sb_data b') @ take (?cb - k) (drop (?off + k) (sb_data b')) @ drop (?off + k + ?l + (?cb - k)) (sb_data b')"
    define D2 where "D2 = take (?off + k) D1 @ p @ drop (?off + k + ?l) D1"
    define D3 where "D3 = take (?off + (?cb + ?l)) D2 @ [0] @ drop (?off + (?cb + ?l) + 1) D2"
    have "take (sb_cap b + 1) (sb_data b') = sb_data b" using r(8) lb by simp
    then have xs: "xs = take ?cb (drop ?off (sb_data b'))"
      using p(8,9) take_drop_take [of ?off ?cb "sb_cap b + 1" "sb_data b'"] by simp
    note L = insert_list [OF r(7) p(8) _ xs D1_def D2_def D3_def]
    have k: "k \<le> ?cb" using assms(8) lx by simp
    have m: "?off + k + (?cb - k) \<le> length (sb_data b')" "?off + k + ?l + (?cb - k) \<le> length (sb_data b')"
      "?off + k + ?l \<le> length D1" "?off + (?cb + ?l) + 1 \<le> length D2" using L(2,3) [OF k] r(7) p(8) k by auto
    obtain h3 where h3: "move_chars a' (?off + k + ?l) (?off + k) (?cb - k) h2 = Some h3" "heap_ok h3 (c(a' := 1))"
      "sh_bufs h3 a' = Some (b'\<lparr>sb_data := D1\<rparr>)" "\<forall>x. x \<noteq> a' \<longrightarrow> sh_bufs h3 x = sh_bufs h2 x"
      unfolding D1_def by (rule move_ok [OF h2 r(5) m(1,2)])
    obtain h4 where h4: "write_chars a' (?off + k) p h3 = Some h4" "heap_ok h4 (c(a' := 1))"
      "sh_bufs h4 a' = Some (b'\<lparr>sb_data := D2\<rparr>)" "\<forall>x. x \<noteq> a' \<longrightarrow> sh_bufs h4 x = sh_bufs h3 x"
      using write_ok [OF h3(2,3), of "?off + k" p] m(3) unfolding D2_def by auto
    obtain h5 where h5: "write_chars a' (?off + (?cb + ?l)) [0] h4 = Some h5" "heap_ok h5 (c(a' := 1))"
      "sh_bufs h5 a' = Some (b'\<lparr>sb_data := D3\<rparr>)" "\<forall>x. x \<noteq> a' \<longrightarrow> sh_bufs h5 x = sh_bufs h4 x"
      using write_ok [OF h4(2,3), of "?off + (?cb + ?l)" "[0]"] m(4) unfolding D3_def by auto
    let ?s = "s'\<lparr>st_buf := Ptr a', st_cb := ?cb + ?l\<rparr>"
    have "string_insert H k p s h = Some (?s, h5)"
      using 3 p(1,2,4) r(1) h3(1) h4(1) h5(1) k by (simp add: string_insert_def Let_def add.assoc)
    moreover have "(\<lambda>x. c x + owns ?s x) = c(a' := 1)" using owns_Ptr [of ?s a' c] p(3) c' by simp
    moreover have "str_ok h5 ?s" using h5(3) p(3,8) r(6) by (simp add: str_ok_def)
    moreover have "start_chars h5 ?s = Some (take k xs @ p @ drop k xs)"
      using h5(3) L(1,4) [OF k] r(7) p(8) by (simp add: start_chars_def read_chars_def ptr_data_def slice_def)
    moreover have "same_buf h h5 x" if "0 < c x" for x
    proof -
      have "x \<noteq> a" "x \<noteq> a'" using that p(6) c' by auto
      then have "sh_bufs h5 x = sh_bufs h1 x" using r(9) h3(4) h4(4) h5(4) by simp
      then show ?thesis using p(10) that by (simp add: same_buf_def)
    qed
    ultimately show ?thesis using h5(2) by (simp add: str_yields_def)
  qed
qed

lemma string_erase_yields:
  assumes "heap_ok h (\<lambda>a. c a + owns s a)" and "str_ok h s" and "\<And>a. c a < 999" and "c_heap_ok limit H" and "limit < 2 ^ 31"
    and "has_room limit h s 0" and "start_chars h s = Some xs"
    and own: "\<And>a. st_buf s = Ptr a \<Longrightarrow> c a = 0 \<Longrightarrow> st_offset s = 0"
  shows "str_yields h c (string_erase H i j s h) (take (min i j) xs @ drop (max i j) xs)"
proof -
  have lx: "length xs = st_cb s" using str_ok_chars [OF assms(2,1)] assms(7) by auto
  define f t where "f = min (st_cb s) (min i j)" and "t = min (st_cb s) (max i j)"
  have ft: "f \<le> t" "t \<le> st_cb s" by (auto simp: f_def t_def)
  have spec: "take (min i j) xs @ drop (max i j) xs = take f xs @ drop t xs" using lx by (auto simp: f_def t_def min_def max_def)
  have args: "(if i > j then (j, i) else (i, j)) = (min i j, max i j)" by (simp add: min_def max_def)
  show ?thesis
  proof (cases "f = t")
    case True
    then have "string_erase H i j s h = Some (s, h)"
      unfolding string_erase_def args Let_def prod.case f_def [symmetric] t_def [symmetric] by simp
    then show ?thesis using True assms(1,2,7) by (simp add: spec str_yields_def)
  next
    case False
    then have f: "f < t" using ft by simp
    then have nn: "st_buf s \<noteq> NullP" using ft assms(2) by (auto simp: str_ok_def)
    have room: "st_cb s + 13 \<le> limit" using assms(6) by (simp add: has_room_def)
    obtain a b s' h1 where p: "prepareToModify H s h = Some (s', h1)" "st_buf s' = Ptr a" "st_type s' = 0" "st_cb s' = st_cb s"
      "heap_ok h1 (c(a := 1))" "c a = 0" "sh_bufs h1 a = Some b" "st_offset s' + st_cb s \<le> sb_cap b"
      "take (st_cb s) (drop (st_offset s') (sb_data b)) = xs" "\<forall>x. 0 < c x \<longrightarrow> same_buf h h1 x"
      "st_offset s' = 0 \<and> sb_cap b = st_cb s \<or> c a = 0 \<and> st_buf s = Ptr a \<and> st_offset s' = st_offset s \<and> sh_bufs h a = Some b"
      by (rule prepareToModify_ok [OF assms(1-4) room assms(5) nn assms(7)])
    have off: "st_offset s' = 0" using p(11) own by auto
    have cap: "sb_cap b + 13 \<le> limit" using p(11) assms(6) by (auto simp: has_room_def split: option.splits)
    have lb: "length (sb_data b) = sb_cap b + 1" using heap_ok_Some [OF p(5,7)] by (simp add: buf_ok_def)
    let ?cb = "st_cb s" and ?n = "sb_cap b - (t - f)"
    define D1 where "D1 = (if ?cb - t > 0 then take f (sb_data b) @ take (?cb - t) (drop t (sb_data b)) @ drop (f + (?cb - t)) (sb_data b) else sb_data b)"
    define D2 where "D2 = take (?cb - (t - f)) D1 @ [0] @ drop (?cb - (t - f) + 1) D1"
    have m: "?cb \<le> sb_cap b" "xs = take ?cb (sb_data b)" using p(8,9) off by simp_all
    obtain h2 where h2: "(if ?cb - t > 0 then move_chars a f t (?cb - t) h1 else Some h1) = Some h2" "heap_ok h2 (c(a := 1))"
      "sh_bufs h2 a = Some (b\<lparr>sb_data := D1\<rparr>)" "\<forall>x. x \<noteq> a \<longrightarrow> sh_bufs h2 x = sh_bufs h1 x"
    proof (cases "?cb - t > 0")
      case True
      have l: "t + (?cb - t) \<le> length (sb_data b)" "f + (?cb - t) \<le> length (sb_data b)" using lb m(1) f ft by auto
      show thesis by (rule move_ok [OF p(5,7) l], rule that) (use True in \<open>simp_all add: D1_def\<close>)
    qed (use that [of h1] p(5,7) in \<open>auto simp: D1_def\<close>)
    have l1: "length D1 = length (sb_data b)" using lb m(1) f ft by (auto simp: D1_def)
    have w: "?cb - (t - f) + length [0 :: u8] \<le> length (sb_data (b\<lparr>sb_data := D1\<rparr>))" using l1 lb m(1) f by simp
    obtain h3 where h3: "write_chars a (?cb - (t - f)) [0] h2 = Some h3" "heap_ok h3 (c(a := 1))"
      "sh_bufs h3 a = Some (b\<lparr>sb_data := D2\<rparr>)" "\<forall>x. x \<noteq> a \<longrightarrow> sh_bufs h3 x = sh_bufs h2 x"
      using write_ok [OF h2(2,3) w] by (auto simp: D2_def)
    have n: "int ?n = int (sb_cap (b\<lparr>sb_data := D2\<rparr>)) + (- int (t - f))" "?n + 13 \<le> limit" using m(1) f ft cap by auto
    obtain a' b' h4 where r: "buf_realloc H a (- int (t - f)) h3 = Some (a', h4)" "heap_ok h4 ((c(a := 1))(a := 0, a' := (c(a := 1)) a))"
      "sh_bufs h3 a' = None" "(c(a := 1)) a' = 0" "sh_bufs h4 a' = Some b'" "sb_cap b' = ?n" "length (sb_data b') = ?n + 1"
      "take (min (?n + 1) (sb_cap (b\<lparr>sb_data := D2\<rparr>) + 1)) (sb_data b') = take (min (?n + 1) (sb_cap (b\<lparr>sb_data := D2\<rparr>) + 1)) (sb_data (b\<lparr>sb_data := D2\<rparr>))"
      "\<forall>x. x \<noteq> a \<and> x \<noteq> a' \<longrightarrow> sh_bufs h4 x = sh_bufs h3 x"
      by (rule realloc_ok [OF h3(2) assms(4) h3(3) n assms(5)])
    have c': "c a' = 0" "a' \<noteq> a" using r(4) by (auto split: if_splits)
    have h4: "heap_ok h4 (c(a' := 1))" using r(2) p(6) by (simp add: fun_upd_idem)
    have d3: "take (?n + 1) (sb_data b') = take (?n + 1) D2" using r(8) by (simp add: min_def split: if_splits)
    note L = erase_list [OF lb m(1) f ft(2) m(2) D1_def D2_def d3]
    let ?s = "s'\<lparr>st_buf := Ptr a', st_cb := ?cb - (t - f)\<rparr>"
    have "string_erase H i j s h = Some (?s, h4)"
      unfolding string_erase_def args Let_def prod.case f_def [symmetric] t_def [symmetric]
      using f p(1,2,4) off h2(1) h3(1) r(1) by (auto split: if_splits)
    moreover have "(\<lambda>x. c x + owns ?s x) = c(a' := 1)" using owns_Ptr [of ?s a' c] p(3) c' by simp
    moreover have "str_ok h4 ?s" using r(5,6) p(3) off m(1) f ft by (simp add: str_ok_def)
    moreover have "start_chars h4 ?s = Some (take f xs @ drop t xs)"
      using r(5,7) off L(1) m(1) by (simp add: start_chars_def read_chars_def ptr_data_def slice_def)
    moreover have "same_buf h h4 x" if "0 < c x" for x
    proof -
      have "x \<noteq> a" "x \<noteq> a'" using that p(6) c' by auto
      then have "sh_bufs h4 x = sh_bufs h1 x" using r(9) h3(4) h2(4) by simp
      then show ?thesis using p(10) that by (simp add: same_buf_def)
    qed
    ultimately show ?thesis using h4 spec by (simp add: str_yields_def)
  qed
qed

end
