(* ===== verification/StrStore.thy ===== *)
theory StrStore
  imports StrBuf
begin

section \<open>String objects that share buffers\<close>

text \<open>
  The live string objects of a program and the heap of their buffers. Whatever buffers the objects share, an operation on one of
  them acts as if each had its characters for itself, every buffer's count is the number of objects that refer to it, and a buffer
  is freed with its last reference.
\<close>

record str_env =
  se_vars :: "str list"
  se_heap :: sheap

definition refs_of :: "str list \<Rightarrow> nat \<Rightarrow> nat" where
  "refs_of vars a = sum_list (map (\<lambda>s. owns s a) vars)"

definition env_inv :: "str_env \<Rightarrow> bool" where
  "env_inv E \<longleftrightarrow> heap_ok (se_heap E) (refs_of (se_vars E)) \<and> (\<forall>s\<in>set (se_vars E). str_ok (se_heap E) s) \<and> length (se_vars E) < 999"

definition env_values :: "str_env \<Rightarrow> bytes list" where
  "env_values E = map (\<lambda>s. the (start_chars (se_heap E) s)) (se_vars E)"

datatype str_op =
    S_new
  | S_literal bytes
  | S_chars bytes
  | S_copy nat
  | S_move nat
  | S_substr nat nat nat
  | S_destroy nat
  | S_set nat nat
  | S_assign nat "bytes option"
  | S_insert nat nat bytes
  | S_insert_str nat nat nat
  | S_append nat bytes
  | S_erase nat nat nat
  | S_clear nat

definition put_var :: "nat \<Rightarrow> (str \<times> sheap) option \<Rightarrow> str_env \<Rightarrow> str_env option" where
  "put_var i r E = map_option (\<lambda>(s, h). \<lparr>se_vars = (se_vars E)[i := s], se_heap = h\<rparr>) r"

definition add_var :: "(str \<times> sheap) option \<Rightarrow> str_env \<Rightarrow> str_env option" where
  "add_var r E = map_option (\<lambda>(s, h). \<lparr>se_vars = se_vars E @ [s], se_heap = h\<rparr>) r"

fun str_exec :: "c_heap \<Rightarrow> str_env \<Rightarrow> str_op \<Rightarrow> str_env option" where
  "str_exec H E S_new = add_var (Some (string_new, se_heap E)) E"
| "str_exec H E (S_literal p) = add_var (Some (static_str p, se_heap E)) E"
| "str_exec H E (S_chars p) = add_var (string_of_chars H p (se_heap E)) E"
| "str_exec H E (S_copy i) = do { s \<leftarrow> rd (se_vars E) i; add_var (string_copy s (se_heap E)) E }"
| "str_exec H E (S_move i) = do {
     s \<leftarrow> rd (se_vars E) i;
     let (s', r) = string_move s;
     Some \<lparr>se_vars = (se_vars E)[i := r] @ [s'], se_heap = se_heap E\<rparr> }"
| "str_exec H E (S_substr i f t) = do { s \<leftarrow> rd (se_vars E) i; add_var (string_substr s f t (se_heap E)) E }"
| "str_exec H E (S_destroy i) = do {
     s \<leftarrow> rd (se_vars E) i;
     h \<leftarrow> string_destroy s (se_heap E);
     Some \<lparr>se_vars = take i (se_vars E) @ drop (Suc i) (se_vars E), se_heap = h\<rparr> }"
| "str_exec H E (S_set i j) = do { s \<leftarrow> rd (se_vars E) i; t \<leftarrow> rd (se_vars E) j; put_var i (string_set s t (se_heap E)) E }"
| "str_exec H E (S_assign i p) = do { s \<leftarrow> rd (se_vars E) i; put_var i (string_assign H p s (se_heap E)) E }"
| "str_exec H E (S_insert i k p) = do { s \<leftarrow> rd (se_vars E) i; put_var i (string_insert H k p s (se_heap E)) E }"
| "str_exec H E (S_insert_str i k j) = do {
     s \<leftarrow> rd (se_vars E) i;
     t \<leftarrow> rd (se_vars E) j;
     p \<leftarrow> start_chars (se_heap E) t;
     put_var i (string_insert H k p s (se_heap E)) E }"
| "str_exec H E (S_append i p) = do { s \<leftarrow> rd (se_vars E) i; put_var i (string_append H p s (se_heap E)) E }"
| "str_exec H E (S_erase i f t) = do { s \<leftarrow> rd (se_vars E) i; put_var i (string_erase H f t s (se_heap E)) E }"
| "str_exec H E (S_clear i) = do { s \<leftarrow> rd (se_vars E) i; put_var i (string_clear s (se_heap E)) E }"

fun str_spec :: "bytes list \<Rightarrow> str_op \<Rightarrow> bytes list" where
  "str_spec v S_new = v @ [[]]"
| "str_spec v (S_literal p) = v @ [p]"
| "str_spec v (S_chars p) = v @ [p]"
| "str_spec v (S_copy i) = v @ [v ! i]"
| "str_spec v (S_move i) = v[i := []] @ [v ! i]"
| "str_spec v (S_substr i f t) = v @ [take (max f t - min f t) (drop (min f t) (v ! i))]"
| "str_spec v (S_destroy i) = take i v @ drop (Suc i) v"
| "str_spec v (S_set i j) = v[i := v ! j]"
| "str_spec v (S_assign i p) = v[i := (case p of None \<Rightarrow> [] | Some d \<Rightarrow> d)]"
| "str_spec v (S_insert i k p) = v[i := take k (v ! i) @ p @ drop k (v ! i)]"
| "str_spec v (S_insert_str i k j) = v[i := take k (v ! i) @ v ! j @ drop k (v ! i)]"
| "str_spec v (S_append i p) = v[i := v ! i @ p]"
| "str_spec v (S_erase i f t) = v[i := take (min f t) (v ! i) @ drop (max f t) (v ! i)]"
| "str_spec v (S_clear i) = v[i := []]"

text \<open>
  What a caller has to keep: at most 998 objects and buffers below the limit; no substring of a null string or beyond the 24 bits
  of an offset; no assignment of characters to, and no clearing of, a string that refers to a literal; no assignment of a
  string to itself; no erasing in a string that owns its buffer alone and does not begin at its start.
\<close>

definition own_offset_ok :: "sheap \<Rightarrow> str \<Rightarrow> bool" where
  "own_offset_ok h s \<longleftrightarrow> st_offset s = 0 \<or>
     (case st_buf s of Ptr a \<Rightarrow> (case sh_bufs h a of None \<Rightarrow> False | Some b \<Rightarrow> 1 < sb_refs b) | _ \<Rightarrow> True)"

fun str_allowed :: "nat \<Rightarrow> str_env \<Rightarrow> str_op \<Rightarrow> bool" where
  "str_allowed limit E S_new \<longleftrightarrow> length (se_vars E) < 998"
| "str_allowed limit E (S_literal p) \<longleftrightarrow> length (se_vars E) < 998"
| "str_allowed limit E (S_chars p) \<longleftrightarrow> length (se_vars E) < 998 \<and> length p + 13 \<le> limit"
| "str_allowed limit E (S_copy i) \<longleftrightarrow> length (se_vars E) < 998 \<and> i < length (se_vars E)"
| "str_allowed limit E (S_move i) \<longleftrightarrow> length (se_vars E) < 998 \<and> i < length (se_vars E)"
| "str_allowed limit E (S_substr i f t) \<longleftrightarrow> length (se_vars E) < 998 \<and> i < length (se_vars E) \<and>
     st_buf (se_vars E ! i) \<noteq> NullP \<and> st_offset (se_vars E ! i) + st_cb (se_vars E ! i) < 2 ^ 24"
| "str_allowed limit E (S_destroy i) \<longleftrightarrow> i < length (se_vars E)"
| "str_allowed limit E (S_set i j) \<longleftrightarrow> i < length (se_vars E) \<and> j < length (se_vars E) \<and> i \<noteq> j"
| "str_allowed limit E (S_assign i p) \<longleftrightarrow> i < length (se_vars E) \<and> st_type (se_vars E ! i) = 0 \<and>
     (case p of None \<Rightarrow> True | Some d \<Rightarrow> length d + 13 \<le> limit)"
| "str_allowed limit E (S_insert i k p) \<longleftrightarrow> i < length (se_vars E) \<and> k \<le> st_cb (se_vars E ! i) \<and>
     has_room limit (se_heap E) (se_vars E ! i) (length p)"
| "str_allowed limit E (S_insert_str i k j) \<longleftrightarrow> i < length (se_vars E) \<and> j < length (se_vars E) \<and> i \<noteq> j \<and>
     k \<le> st_cb (se_vars E ! i) \<and> has_room limit (se_heap E) (se_vars E ! i) (st_cb (se_vars E ! j))"
| "str_allowed limit E (S_append i p) \<longleftrightarrow> i < length (se_vars E) \<and> has_room limit (se_heap E) (se_vars E ! i) (length p)"
| "str_allowed limit E (S_erase i f t) \<longleftrightarrow> i < length (se_vars E) \<and> has_room limit (se_heap E) (se_vars E ! i) 0 \<and>
     own_offset_ok (se_heap E) (se_vars E ! i)"
| "str_allowed limit E (S_clear i) \<longleftrightarrow> i < length (se_vars E) \<and> st_type (se_vars E ! i) = 0"

subsection \<open>Objects one by one\<close>

lemma refs_of_append: "refs_of (xs @ ys) a = refs_of xs a + refs_of ys a"
  by (simp add: refs_of_def)

lemma refs_of_simps [simp]: "refs_of [] a = 0" "refs_of (s # xs) a = owns s a + refs_of xs a"
  by (simp_all add: refs_of_def)

lemma refs_of_le: "refs_of vars a \<le> length vars"
  by (induction vars) (auto simp: owns_def)

lemma refs_of_mem: "s \<in> set vars \<Longrightarrow> owns s a \<le> refs_of vars a"
  by (induction vars) auto

abbreviation others :: "'a list \<Rightarrow> nat \<Rightarrow> 'a list" where
  "others xs i \<equiv> take i xs @ drop (Suc i) xs"

lemma refs_of_split: "i < length vars \<Longrightarrow> refs_of vars = (\<lambda>a. refs_of (others vars i) a + owns (vars ! i) a)"
  by (rule ext) (subst id_take_nth_drop [of i vars], simp_all add: refs_of_append)

lemma refs_of_update: "i < length vars \<Longrightarrow> refs_of (vars[i := s]) = (\<lambda>a. refs_of (others vars i) a + owns s a)"
  by (rule ext) (simp add: upd_conv_take_nth_drop refs_of_append)

lemma env_few: "env_inv E \<Longrightarrow> refs_of (se_vars E) a < 999" "env_inv E \<Longrightarrow> refs_of (others (se_vars E) i) a < 999"
proof -
  show "env_inv E \<Longrightarrow> refs_of (se_vars E) a < 999" by (rule le_less_trans [OF refs_of_le]) (simp add: env_inv_def)
  have "length (others (se_vars E) i) \<le> length (se_vars E)" by simp
  with refs_of_le [of "others (se_vars E) i" a] show "env_inv E \<Longrightarrow> refs_of (others (se_vars E) i) a < 999"
    unfolding env_inv_def by linarith
qed

lemma nth_others: "j < length xs \<Longrightarrow> i \<noteq> j \<Longrightarrow> xs ! j \<in> set (others xs i)"
proof (cases "j < i")
  case True
  moreover assume "j < length xs"
  ultimately have "take i xs ! j \<in> set (take i xs)" by (intro nth_mem) simp
  with True show ?thesis by simp
next
  case False
  moreover assume "j < length xs" "i \<noteq> j"
  ultimately have "j - Suc i < length (drop (Suc i) xs)" and "drop (Suc i) xs ! (j - Suc i) = xs ! j" by simp_all
  then have "xs ! j \<in> set (drop (Suc i) xs)" by (metis nth_mem)
  then show ?thesis by simp
qed

text \<open>Objects whose buffers are counted keep their characters.\<close>

lemma kept_objects:
  assumes "\<forall>s\<in>set vars. str_ok h s" and "\<forall>a. 0 < refs_of vars a \<longrightarrow> same_buf h h' a" and "s \<in> set vars"
  shows "str_ok h' s \<and> start_chars h' s = start_chars h s"
proof (rule str_ok_same)
  show "str_ok h s" using assms(1,3) by blast
  fix a assume "st_buf s = Ptr a"
  then have "owns s a = 1" using \<open>str_ok h s\<close> by (simp add: owns_def str_ok_def)
  with refs_of_mem [OF assms(3), of a] assms(2) show "same_buf h h' a" by simp
qed

lemma put_var_step:
  assumes "env_inv E" and "i < length (se_vars E)"
    and "str_yields (se_heap E) (refs_of (others (se_vars E) i)) r xs"
  shows "\<exists>E'. put_var i r E = Some E' \<and> env_inv E' \<and> env_values E' = (env_values E)[i := xs]"
proof -
  let ?vars = "se_vars E"
  obtain s' h' where r: "r = Some (s', h')" "heap_ok h' (\<lambda>a. refs_of (others ?vars i) a + owns s' a)" "str_ok h' s'" "start_chars h' s' = Some xs"
    "\<forall>a. 0 < refs_of (others ?vars i) a \<longrightarrow> same_buf (se_heap E) h' a" using assms(3) unfolding str_yields_def by blast
  have sub: "set (others ?vars i) \<subseteq> set ?vars" by (auto dest: in_set_takeD in_set_dropD)
  have kept: "str_ok h' s \<and> start_chars h' s = start_chars (se_heap E) s" if "s \<in> set (others ?vars i)" for s
    using kept_objects [OF _ r(5) that] assms(1) sub by (auto simp: env_inv_def)
  have set_upd: "set (?vars[i := s']) = insert s' (set (others ?vars i))" using assms(2) by (auto simp: upd_conv_take_nth_drop)
  let ?E = "\<lparr>se_vars = ?vars[i := s'], se_heap = h'\<rparr>"
  have "env_inv ?E" using assms(1,2) r(2,3) kept set_upd by (simp add: env_inv_def refs_of_update)
  moreover have "env_values ?E = (env_values E)[i := xs]"
  proof -
    have m: "map (\<lambda>s. the (start_chars h' s)) (others ?vars i) = map (\<lambda>s. the (start_chars (se_heap E) s)) (others ?vars i)"
      by (rule map_cong) (use kept in auto)
    then have "map (\<lambda>s. the (start_chars h' s)) (take i ?vars) = map (\<lambda>s. the (start_chars (se_heap E) s)) (take i ?vars)"
      "map (\<lambda>s. the (start_chars h' s)) (drop (Suc i) ?vars) = map (\<lambda>s. the (start_chars (se_heap E) s)) (drop (Suc i) ?vars)" by simp_all
    then show ?thesis using assms(2) r(4) by (simp add: env_values_def upd_conv_take_nth_drop take_map drop_map)
  qed
  ultimately show ?thesis using r(1) by (simp add: put_var_def)
qed

lemma add_var_step:
  assumes "env_inv E" and "length (se_vars E) < 998" and "str_yields (se_heap E) (refs_of (se_vars E)) r xs"
  shows "\<exists>E'. add_var r E = Some E' \<and> env_inv E' \<and> env_values E' = env_values E @ [xs]"
proof -
  let ?vars = "se_vars E"
  obtain s' h' where r: "r = Some (s', h')" "heap_ok h' (\<lambda>a. refs_of ?vars a + owns s' a)" "str_ok h' s'" "start_chars h' s' = Some xs"
    "\<forall>a. 0 < refs_of ?vars a \<longrightarrow> same_buf (se_heap E) h' a" using assms(3) unfolding str_yields_def by blast
  have kept: "str_ok h' s \<and> start_chars h' s = start_chars (se_heap E) s" if "s \<in> set ?vars" for s
    using kept_objects [OF _ r(5) that] assms(1) by (auto simp: env_inv_def)
  let ?E = "\<lparr>se_vars = ?vars @ [s'], se_heap = h'\<rparr>"
  have "refs_of (?vars @ [s']) = (\<lambda>a. refs_of ?vars a + owns s' a)" by (rule ext) (simp add: refs_of_append)
  then have "env_inv ?E" using assms(2) r(2,3) kept by (simp add: env_inv_def)
  moreover have "env_values ?E = env_values E @ [xs]" using kept r(4) by (simp add: env_values_def)
  ultimately show ?thesis using r(1) by (simp add: add_var_def)
qed

lemma string_substr_yields:
  assumes "heap_ok h c" and "str_ok h s" and "\<And>a. c a < 1000" and "start_chars h s = Some xs" and "st_buf s \<noteq> NullP"
    and "st_offset s + st_cb s < 2 ^ 24"
  shows "str_yields h c (string_substr s f t h) (take (max f t - min f t) (drop (min f t) xs))"
proof -
  have lx: "length xs = st_cb s" using str_ok_chars [OF assms(2,1)] assms(4) by auto
  let ?f = "min (st_cb s) (min f t)" and ?t = "min (st_cb s) (max f t)"
  have "string_substr s f t h = string_sub s ?f ?t h" by (simp add: string_substr_def min_def max_def Let_def)
  moreover have "take (?t - ?f) (drop ?f xs) = take (max f t - min f t) (drop (min f t) xs)"
    using lx by (cases "min f t \<le> st_cb s"; cases "max f t \<le> st_cb s") (auto simp: min_def max_def)
  moreover have "str_yields h c (string_sub s ?f ?t h) (take (?t - ?f) (drop ?f xs))"
    using assms by (intro string_sub_yields) (auto simp: min_def max_def)
  ultimately show ?thesis by simp
qed

lemma destroy_step:
  assumes "env_inv E" and "i < length (se_vars E)"
  shows "\<exists>E'. str_exec H E (S_destroy i) = Some E' \<and> env_inv E' \<and> env_values E' = str_spec (env_values E) (S_destroy i)"
proof -
  let ?vars = "se_vars E" and ?c = "refs_of (others (se_vars E) i)"
  have h: "heap_ok (se_heap E) (\<lambda>a. ?c a + owns (?vars ! i) a)" and s: "str_ok (se_heap E) (?vars ! i)"
    using assms refs_of_split [OF assms(2)] by (auto simp: env_inv_def)
  obtain h' where h': "string_destroy (?vars ! i) (se_heap E) = Some h'" "heap_ok h' ?c" "\<And>a. 0 < ?c a \<Longrightarrow> same_buf (se_heap E) h' a"
    using drop_ref [OF h s env_few(2) [OF assms(1)]] unfolding string_destroy_def by blast
  have sub: "set (others ?vars i) \<subseteq> set ?vars" by (auto dest: in_set_takeD in_set_dropD)
  have kept: "str_ok h' s \<and> start_chars h' s = start_chars (se_heap E) s" if "s \<in> set (others ?vars i)" for s
    using kept_objects [OF _ _ that, of "se_heap E" h'] h'(3) assms(1) sub by (auto simp: env_inv_def)
  then have "map (\<lambda>s. the (start_chars h' s)) (others ?vars i) = map (\<lambda>s. the (start_chars (se_heap E) s)) (others ?vars i)"
    by (intro map_cong) auto
  then show ?thesis using h' assms kept
    by (auto simp: rd_def env_inv_def env_values_def take_map drop_map)
qed

lemma move_step:
  assumes "env_inv E" and "i < length (se_vars E)" and "length (se_vars E) < 998"
  shows "\<exists>E'. str_exec H E (S_move i) = Some E' \<and> env_inv E' \<and> env_values E' = str_spec (env_values E) (S_move i)"
proof -
  let ?vars = "se_vars E" and ?h = "se_heap E" and ?r = "(se_vars E ! i)\<lparr>st_buf := NullP, st_cb := 0, st_offset := 0, st_type := 0\<rparr>"
  let ?E = "\<lparr>se_vars = ?vars[i := ?r] @ [?vars ! i], se_heap = ?h\<rparr>"
  have "refs_of (?vars[i := ?r] @ [?vars ! i]) = refs_of ?vars"
    using refs_of_update [OF assms(2), of ?r] refs_of_split [OF assms(2)] by (simp add: fun_eq_iff refs_of_append owns_def)
  moreover have "str_ok ?h ?r" "start_chars ?h ?r = Some []" by (simp_all add: str_ok_def start_chars_def read_chars_def ptr_data_def slice_def)
  moreover have "set (?vars[i := ?r]) \<subseteq> insert ?r (set ?vars)" by (rule set_update_subset_insert)
  ultimately have "env_inv ?E" using assms by (auto simp: env_inv_def)
  moreover have "env_values ?E = str_spec (env_values E) (S_move i)"
    using assms(2) \<open>start_chars ?h ?r = Some []\<close> by (simp add: env_values_def map_update)
  moreover have "string_move (?vars ! i) = (?vars ! i, ?r)" by (simp add: string_move_def)
  ultimately show ?thesis using assms(2) by (simp add: rd_def)
qed

lemma str_exec_step:
  assumes H: "c_heap_ok limit H" "limit < 2 ^ 31" and E: "env_inv E" and ok: "str_allowed limit E op"
  shows "\<exists>E'. str_exec H E op = Some E' \<and> env_inv E' \<and> env_values E' = str_spec (env_values E) op"
proof -
  let ?vars = "se_vars E" and ?h = "se_heap E"
  have hp: "heap_ok ?h (refs_of ?vars)" and sok: "\<And>s. s \<in> set ?vars \<Longrightarrow> str_ok ?h s" and few: "\<And>a. refs_of ?vars a < 1000"
    using E less_trans [OF env_few(1) [OF E], of 1000] by (auto simp: env_inv_def)
  have one: "heap_ok ?h (\<lambda>a. refs_of (others ?vars i) a + owns (?vars ! i) a)" "str_ok ?h (?vars ! i)" "\<And>a. refs_of (others ?vars i) a < 999"
    "start_chars ?h (?vars ! i) = Some (env_values E ! i)" "length (env_values E ! i) = st_cb (?vars ! i)" if i: "i < length ?vars" for i
  proof -
    show "heap_ok ?h (\<lambda>a. refs_of (others ?vars i) a + owns (?vars ! i) a)" using hp refs_of_split [OF i] by simp
    show s: "str_ok ?h (?vars ! i)" using sok i by simp
    show "refs_of (others ?vars i) a < 999" for a by (rule env_few(2) [OF E])
    show "start_chars ?h (?vars ! i) = Some (env_values E ! i)" "length (env_values E ! i) = st_cb (?vars ! i)"
      using str_ok_chars [OF s hp] i by (auto simp: env_values_def)
  qed
  note put = put_var_step [OF E] and add = add_var_step [OF E]
  have owns0: "(\<lambda>x. c x + owns s x) = c" if "\<forall>a. st_buf s \<noteq> Ptr a" for c s using that by (simp add: owns_none)
  show ?thesis
  proof (cases op)
    case S_new
    have "str_yields ?h (refs_of ?vars) (Some (string_new, ?h)) []"
      using hp by (simp add: str_yields_def owns0 string_new_def str_ok_def start_chars_def read_chars_def ptr_data_def)
    with add ok S_new show ?thesis by simp
  next
    case (S_literal p)
    have "str_yields ?h (refs_of ?vars) (Some (static_str p, ?h)) p"
      using hp by (simp add: str_yields_def owns0 static_str_def str_ok_def start_chars_def read_chars_def ptr_data_def slice_def)
    with add ok S_literal show ?thesis by simp
  next
    case (S_chars p)
    have few': "refs_of ?vars a < 999" for a by (rule env_few(1) [OF E])
    have "str_yields ?h (refs_of ?vars) (string_of_chars H p ?h) p" unfolding string_of_chars_def
      by (rule string_assign_yields [OF _ _ few' _ H(1) _ H(2)]) (use hp ok S_chars in \<open>simp_all add: owns0 string_new_def str_ok_def\<close>)
    with add ok S_chars show ?thesis by simp
  next
    case (S_copy i)
    with ok have i: "i < length ?vars" by simp
    from add [OF _ string_copy_yields [OF hp one(2) [OF i] few one(4) [OF i]]] ok S_copy show ?thesis by (simp add: rd_def)
  next
    case (S_substr i f t)
    with ok have i: "i < length ?vars" by simp
    from add [OF _ string_substr_yields [OF hp one(2) [OF i] few one(4) [OF i], of f t]] ok S_substr show ?thesis by (simp add: rd_def)
  next
    case (S_destroy i)
    then show ?thesis using destroy_step [OF E] ok by simp
  next
    case (S_move i)
    then show ?thesis using move_step [OF E] ok by simp
  next
    case (S_set i j)
    with ok have i: "i < length ?vars" and j: "j < length ?vars" "i \<noteq> j" by simp_all
    have "?vars ! j \<in> set (others ?vars i)" using j by (rule nth_others)
    then have "0 < refs_of (others ?vars i) a" if "st_buf (?vars ! j) = Ptr a" for a
      using refs_of_mem [of "?vars ! j" "others ?vars i" a] that one(2) [OF j(1)] by (simp add: owns_def str_ok_def)
    with put [OF i string_set_yields [OF one(1-3) [OF i] one(2,4) [OF j(1)]]] S_set i j show ?thesis by (simp add: rd_def)
  next
    case (S_assign i p)
    with ok have i: "i < length ?vars" by simp
    have "str_yields ?h (refs_of (others ?vars i)) (string_assign H p (?vars ! i) ?h) (case p of None \<Rightarrow> [] | Some d \<Rightarrow> d)"
    proof (cases p)
      case None
      then show ?thesis using string_assign_null_yields [OF one(1-3) [OF i]] ok S_assign by simp
    next
      case (Some d)
      then show ?thesis using string_assign_yields [OF one(1-3) [OF i] _ H(1) _ H(2)] ok S_assign by simp
    qed
    from put [OF i this] S_assign i show ?thesis by (simp add: rd_def)
  next
    case (S_insert i k p)
    with ok have i: "i < length ?vars" by simp
    from put [OF i string_insert_yields [OF one(1-3) [OF i] H _ one(4) [OF i]]] ok S_insert i one(5) [OF i] show ?thesis by (simp add: rd_def)
  next
    case (S_insert_str i k j)
    with ok have i: "i < length ?vars" and j: "j < length ?vars" by simp_all
    from put [OF i string_insert_yields [OF one(1-3) [OF i] H _ one(4) [OF i]], of "env_values E ! j"] ok S_insert_str i j one(4,5) [OF j] one(5) [OF i]
    show ?thesis by (simp add: rd_def)
  next
    case (S_append i p)
    with ok have i: "i < length ?vars" by simp
    from put [OF i string_insert_yields [OF one(1-3) [OF i] H _ one(4) [OF i]], of p "st_cb (?vars ! i)"] ok S_append i one(5) [OF i]
    show ?thesis by (simp add: rd_def string_append_def)
  next
    case (S_erase i f t)
    with ok have i: "i < length ?vars" by simp
    have own: "st_offset (?vars ! i) = 0" if a: "st_buf (?vars ! i) = Ptr a" "refs_of (others ?vars i) a = 0" for a
    proof -
      have o1: "owns (?vars ! i) a = 1" using one(2) [OF i] a(1) by (simp add: owns_def str_ok_def)
      obtain b where b: "sh_bufs ?h a = Some b" using one(2) [OF i] a(1) by (auto simp: str_ok_def split: option.splits)
      then have "sb_refs b = 1" using heap_ok_Some [OF one(1) [OF i] b] o1 a(2) by simp
      then show ?thesis using ok S_erase a(1) b by (simp add: own_offset_ok_def)
    qed
    from put [OF i string_erase_yields [OF one(1-3) [OF i] H _ one(4) [OF i] own]] ok S_erase i show ?thesis by (simp add: rd_def)
  next
    case (S_clear i)
    with ok have i: "i < length ?vars" by simp
    from put [OF i string_clear_yields [OF one(1-3) [OF i]]] ok S_clear i show ?thesis by (simp add: rd_def)
  qed
qed

definition str_env_ok :: "nat \<times> c_heap \<Rightarrow> bool" where
  "str_env_ok e \<longleftrightarrow> c_heap_ok (fst e) (snd e) \<and> fst e < 2 ^ 31"

interpretation sts: value_store str_env_ok "\<lambda>e. str_exec (snd e)" str_spec "\<lambda>e. str_allowed (fst e)" env_inv env_values
  by unfold_locales (use str_exec_step in \<open>auto simp: str_env_ok_def\<close>)

definition no_strings :: str_env where
  "no_strings = \<lparr>se_vars = [], se_heap = \<lparr>sh_bufs = (\<lambda>a. None), sh_next = 0\<rparr>\<rparr>"

lemma env_inv_no_strings: "env_inv no_strings"
  by (simp add: env_inv_def no_strings_def heap_ok_def)

lemma env_values_no_strings: "env_values no_strings = []"
  by (simp add: env_values_def no_strings_def)

lemmas str_run_defs = no_strings_def add_var_def put_var_def env_values_def rd_def store_buf_def buf_new_def buf_retain_def buf_release_def
  retain_ptr_def release_ptr_def buf_realloc_def ptr_data_def read_chars_def write_chars_def move_chars_def start_chars_def string_new_def
  string_assign_def string_of_chars_def string_copy_def string_move_def string_sub_def string_destroy_def string_substr_def private_copy_def
  prepareToModify_def string_insert_def string_append_def string_erase_def fill_heap_def slice_def blit_def memmove_in_def Let_def
  has_room_def own_offset_ok_def

text \<open>
  C25. Copy on write. In every sequence of allowed operations on string objects (construction from a literal or from characters,
  copies, moves, substrings, assignments, insertions, appends, erasures, clears and destructions) that begins with no object, nothing is
  undefined: no freed buffer is used, no buffer is freed twice and no access leaves its buffer. In the end every buffer counts exactly
  the objects that refer to it, a buffer without a reference is free, and every object has the characters it would have if objects
  shared nothing.
\<close>

theorem string_run_refines:
  assumes "c_heap_ok limit H" and "limit < 2 ^ 31" and "run_ok (str_exec H) (str_allowed limit) no_strings ops"
  shows "\<exists>E'. run_store (str_exec H) no_strings ops = Some E' \<and> env_inv E' \<and> env_values E' = foldl str_spec [] ops"
  using sts.run_store_refines [of "(limit, H)" no_strings ops] assms env_inv_no_strings env_values_no_strings by (simp add: str_env_ok_def)

theorem string_run_refines_witness:
  "\<exists>E'. run_store (str_exec (fill_heap 100 0xaa)) no_strings
      [S_chars [97, 98, 99, 100], S_copy 0, S_substr 0 1 3, S_insert 0 2 [120], S_append 2 [121], S_move 2, S_destroy 1, S_erase 0 0 1] = Some E' \<and>
     env_inv E' \<and> env_values E' = [[98, 120, 99, 100], [], [98, 99, 121]]"
proof -
  have "run_ok (str_exec (fill_heap 100 0xaa)) (str_allowed 100) no_strings
      [S_chars [97, 98, 99, 100], S_copy 0, S_substr 0 1 3, S_insert 0 2 [120], S_append 2 [121], S_move 2, S_destroy 1, S_erase 0 0 1]"
    by (simp add: str_run_defs)
  from string_run_refines [OF fill_heap_ok _ this] show ?thesis by simp
qed

subsection \<open>Strings that do not begin at the start of their buffer\<close>

text \<open>
  The terminating zero of \<^verbatim>\<open>erase\<close> is written at \<^verbatim>\<open>_buf[_cb]\<close>, without \<^verbatim>\<open>_offset\<close>. For a string that owns its buffer alone and begins
  inside it, the zero lands in the string: erasing the first character of \<open>cdefgh\<close> leaves \<open>def\<close>, a zero and \<open>h\<close>.
\<close>

lemma string_erase_terminator:
  "map_option env_values (run_store (str_exec (fill_heap 100 0)) no_strings
      [S_chars [97, 98, 99, 100, 101, 102, 103, 104], S_substr 0 2 8, S_destroy 0, S_erase 0 0 1]) =
   Some [[100, 101, 102, 0, 104]]"
  by (simp add: str_run_defs)

text \<open>
  C30. \<^verbatim>\<open>c_str\<close> returns \<^verbatim>\<open>_buf\<close>. For a string that reaches to the end of its buffer nothing is copied, and the pointer returned is that of
  the whole buffer: the characters of the string begin only \<^verbatim>\<open>_offset\<close> bytes behind it.
\<close>

theorem string_c_str_suffix:
  assumes "heap_ok h c" and "str_ok h s" and "st_buf s = Ptr a" and "sh_bufs h a = Some b" and "st_offset s + st_cb s = sb_cap b"
  shows "string_c_str H s h = Some (s, h, sb_data b) \<and> start_chars h s = Some (butlast (drop (st_offset s) (sb_data b)))"
proof -
  have b: "buf_ok b" using heap_ok_Some [OF assms(1,4)] by simp
  then have "take (st_cb s) (drop (st_offset s) (sb_data b)) = butlast (drop (st_offset s) (sb_data b))"
    using assms(5) [symmetric] by (simp add: butlast_conv_take buf_ok_def)
  then show ?thesis using assms(2-5) b
    by (simp add: string_c_str_def str_ok_def buf_ok_def start_chars_def read_chars_def ptr_data_def slice_def)
qed

definition suffix_heap :: sheap where
  "suffix_heap = \<lparr>sh_bufs = [0 \<mapsto> \<lparr>sb_refs = 1, sb_cb = 3, sb_cap = 3, sb_data = [97, 98, 99, 0]\<rparr>], sh_next = 1\<rparr>"

theorem string_c_str_suffix_witness:
  "string_c_str (fill_heap 100 0) \<lparr>st_buf = Ptr 0, st_cb = 2, st_offset = 1, st_type = 0\<rparr> suffix_heap =
     Some (\<lparr>st_buf = Ptr 0, st_cb = 2, st_offset = 1, st_type = 0\<rparr>, suffix_heap, [97, 98, 99, 0]) \<and>
   start_chars suffix_heap \<lparr>st_buf = Ptr 0, st_cb = 2, st_offset = 1, st_type = 0\<rparr> = Some [98, 99]"
proof -
  let ?s = "\<lparr>st_buf = Ptr 0, st_cb = 2, st_offset = 1, st_type = 0\<rparr> :: str"
  let ?b = "\<lparr>sb_refs = 1, sb_cb = 3, sb_cap = 3, sb_data = [97, 98, 99, 0]\<rparr> :: strbuf"
  have "heap_ok suffix_heap ((\<lambda>a. 0)(0 := 1))" by (simp add: heap_ok_def suffix_heap_def buf_ok_def)
  moreover have "str_ok suffix_heap ?s" by (simp add: str_ok_def suffix_heap_def)
  moreover have "sh_bufs suffix_heap 0 = Some ?b" by (simp add: suffix_heap_def)
  ultimately show ?thesis using string_c_str_suffix [of suffix_heap "(\<lambda>a. 0)(0 := 1)" ?s 0 ?b "fill_heap 100 0"] by simp
qed

end
