(* ===== verification/StrText.thy ===== *)
theory StrText
  imports StrStore Utf8
begin

unbundle bit_operations_syntax

section \<open>Characters of a string (\<^verbatim>\<open>base/string.cpp\<close>)\<close>

text \<open>
  A string object seen through \<^verbatim>\<open>start()\<close>: the memory \<open>m\<close> from its first character to the end of the buffer, of which the
  first \<open>cb\<close> bytes are its characters. Byte offsets are relative to \<^verbatim>\<open>start()\<close>; a read behind the buffer and a failed
  assertion are \<open>None\<close>. Plain \<^verbatim>\<open>char\<close> is only masked here, so its sign does not matter. \<^verbatim>\<open>length\<close>
  counts characters in an \<^verbatim>\<open>int32_t\<close>, so strings have fewer than \<open>2^31\<close> bytes.
\<close>

definition str_mem :: "sheap \<Rightarrow> str \<Rightarrow> bytes option" where
  "str_mem h s = do { d \<leftarrow> ptr_data h (st_buf s); if st_offset s \<le> length d then Some (drop (st_offset s) d) else None }"

definition string_readUtf8 :: "bytes \<Rightarrow> nat \<Rightarrow> (u32 \<times> nat) option" where
  "string_readUtf8 base offset = do {
     firstByte \<leftarrow> rd base offset;
     if firstByte AND 128 \<noteq> 0 then do {
       secondByte \<leftarrow> rd base (offset + 1);
       if firstByte AND 32 \<noteq> 0 then do {
         thirdByte \<leftarrow> rd base (offset + 2);
         if firstByte AND 16 \<noteq> 0 then do {
           fourthByte \<leftarrow> rd base (offset + 3);
           Some (push_bit 18 (ucast firstByte AND 0x07) OR push_bit 12 (ucast secondByte AND 0x3f) OR
                 push_bit 6 (ucast thirdByte AND 0x3f) OR (ucast fourthByte AND 0x3f), offset + 4) }
         else
           Some (push_bit 12 (ucast firstByte AND 0x0f) OR push_bit 6 (ucast secondByte AND 0x3f) OR
                 (ucast thirdByte AND 0x3f), offset + 3) }
       else Some (push_bit 6 (ucast firstByte AND 0x1f) OR (ucast secondByte AND 0x3f), offset + 2) }
     else Some (ucast firstByte, if firstByte \<noteq> 0 then offset + 1 else offset) }"

definition string_peekChar :: "bytes \<Rightarrow> nat \<Rightarrow> u32 option" where
  "string_peekChar m offset = map_option fst (string_readUtf8 m offset)"

definition string_readChar :: "bytes \<Rightarrow> nat \<Rightarrow> nat \<Rightarrow> (u32 \<times> nat) option" where
  "string_readChar m cb offset = (if offset \<ge> cb then Some (0, offset) else string_readUtf8 m offset)"

text \<open>How far the loops of \<^verbatim>\<open>length\<close> and \<^verbatim>\<open>charIndexToOffset\<close> advance at a first byte.\<close>

definition char_step :: "u8 \<Rightarrow> nat" where
  "char_step b =
     (if b AND 128 \<noteq> 0 then
        if b AND 32 \<noteq> 0 then if b AND 16 \<noteq> 0 then 4 else 3
        else 2
      else 1)"

lemma char_step_pos [simp]: "0 < char_step b"
  by (simp add: char_step_def)

function length_loop :: "bytes \<Rightarrow> nat \<Rightarrow> nat \<Rightarrow> nat \<Rightarrow> nat option" where
  "length_loop m cb pp cc =
     (if pp < cb then do { b \<leftarrow> rd m pp; length_loop m cb (pp + char_step b) (cc + 1) } else Some cc)"
  by pat_completeness auto
termination by (relation "measure (\<lambda>(m, cb, pp, cc). cb - pp)") (auto intro: diff_less_mono2)

declare length_loop.simps [simp del]

definition string_length :: "bytes \<Rightarrow> nat \<Rightarrow> nat option" where
  "string_length m cb = length_loop m cb 0 0"

text \<open>\<^verbatim>\<open>charIndexToOffset\<close> forwards, and one step backwards, which is also the body of \<^verbatim>\<open>rewind\<close>.\<close>

fun index_forward :: "bytes \<Rightarrow> nat \<Rightarrow> nat \<Rightarrow> nat option" where
  "index_forward m 0 o' = Some o'"
| "index_forward m (Suc n) o' = do { b \<leftarrow> rd m o'; index_forward m n (o' + char_step b) }"

definition step_back :: "bytes \<Rightarrow> nat \<Rightarrow> nat option" where
  "step_back s p = do {
     b1 \<leftarrow> rd s (p - 1);
     if p - 1 > 0 \<and> b1 AND 0xC0 = 0x80 then do {
       b2 \<leftarrow> rd s (p - 2);
       if p - 2 > 0 \<and> b2 AND 0xC0 = 0x80 then do {
         b3 \<leftarrow> rd s (p - 3);
         if p - 3 > 0 \<and> b3 AND 0xC0 = 0x80 then do {
           b4 \<leftarrow> rd s (p - 4);
           if b4 AND 0xF8 = 0xF0 then Some (p - 4) else None }
         else if b3 AND 0xF0 = 0xE0 then Some (p - 3) else None }
       else if b2 AND 0xE0 = 0xC0 then Some (p - 2) else None }
     else if b1 AND 0x80 = 0 then Some (p - 1) else None }"

definition string_rewind :: "bytes \<Rightarrow> nat \<Rightarrow> nat option" where
  "string_rewind m p = (if p > 0 then step_back m p else Some p)"

fun index_backward :: "bytes \<Rightarrow> nat \<Rightarrow> nat \<Rightarrow> nat option" where
  "index_backward m 0 p = Some p"
| "index_backward m (Suc n) p = (if p > 0 then do { p \<leftarrow> step_back m p; index_backward m n p } else Some p)"

definition charIndexToOffset :: "bytes \<Rightarrow> nat \<Rightarrow> int \<Rightarrow> nat option" where
  "charIndexToOffset m cb charIndex =
     (if charIndex < 0 then index_backward m (nat (- charIndex)) cb else index_forward m (nat charIndex) 0)"

definition string_charAt :: "bytes \<Rightarrow> nat \<Rightarrow> int \<Rightarrow> u32 option" where
  "string_charAt m cb charIndex = do { p \<leftarrow> charIndexToOffset m cb charIndex; map_option fst (string_readUtf8 m p) }"

definition string_substrAt :: "str \<Rightarrow> int \<Rightarrow> int \<Rightarrow> sheap \<Rightarrow> (str \<times> sheap) option" where
  "string_substrAt s from to h = do {
     m \<leftarrow> str_mem h s;
     fromOffset \<leftarrow> charIndexToOffset m (st_cb s) from;
     toOffset \<leftarrow> charIndexToOffset m (st_cb s) to;
     string_substr s fromOffset toOffset h }"

definition slice_range :: "int \<Rightarrow> int \<Rightarrow> int \<Rightarrow> int \<times> int" where
  "slice_range cc charIndex1 charIndex2 =
     (let (i1, i2) = (if charIndex2 = 0 then (0, charIndex1) else (charIndex1, charIndex2));
          i1 = (if i1 < 0 then i1 + cc else i1);
          i2 = (if i2 < 0 then i2 + cc else i2);
          (i1, i2) = (if i1 > i2 then (i2, i1) else (i1, i2))
      in (min cc (max 0 i1), min cc (max 0 i2)))"

definition string_slice :: "str \<Rightarrow> int \<Rightarrow> int \<Rightarrow> sheap \<Rightarrow> (str \<times> sheap) option" where
  "string_slice s charIndex1 charIndex2 h = do {
     m \<leftarrow> str_mem h s;
     cc \<leftarrow> string_length m (st_cb s);
     let (i1, i2) = slice_range (int cc) charIndex1 charIndex2;
     f \<leftarrow> charIndexToOffset m (st_cb s) i1;
     t \<leftarrow> charIndexToOffset m (st_cb s) i2;
     string_substr s f t h }"

text \<open>The bytes that \<^verbatim>\<open>append(char32_t)\<close> appends; a character above the last code point fails an assertion.\<close>

definition char_bytes :: "u32 \<Rightarrow> bytes option" where
  "char_bytes ch =
     (if ch \<le> 0x7F then Some [ucast ch]
      else if ch \<le> 0x7FF then Some [ucast (0xC0 OR drop_bit 6 ch), ucast (0x80 OR (ch AND 0x3f))]
      else if ch \<le> 0xFFFF then
        Some [ucast (0xE0 OR drop_bit 12 ch), ucast (0x80 OR (drop_bit 6 ch AND 0x3f)), ucast (0x80 OR (ch AND 0x3f))]
      else if ch \<le> 0x10FFFF then
        Some [ucast (0xF0 OR drop_bit 18 ch), ucast (0x80 OR (drop_bit 12 ch AND 0x3f)), ucast (0x80 OR (drop_bit 6 ch AND 0x3f)),
              ucast (0x80 OR (ch AND 0x3f))]
      else None)"

definition string_append_char :: "c_heap \<Rightarrow> u32 \<Rightarrow> str \<Rightarrow> sheap \<Rightarrow> (str \<times> sheap) option" where
  "string_append_char H ch s h = do { p \<leftarrow> char_bytes ch; string_append H p s h }"

definition string_eraseAt :: "c_heap \<Rightarrow> int \<Rightarrow> int \<Rightarrow> str \<Rightarrow> sheap \<Rightarrow> (str \<times> sheap) option" where
  "string_eraseAt H startIndex endIndex s h = do {
     m \<leftarrow> str_mem h s;
     f \<leftarrow> charIndexToOffset m (st_cb s) startIndex;
     if endIndex = - 1 then string_erase H f 0xFFFFFFFF s h
     else do {
       t \<leftarrow> charIndexToOffset m (st_cb s) endIndex;
       string_erase H f t s h } }"

definition string_eraseLast :: "c_heap \<Rightarrow> str \<Rightarrow> sheap \<Rightarrow> (str \<times> sheap) option" where
  "string_eraseLast H s h = do {
     m \<leftarrow> str_mem h s;
     f \<leftarrow> charIndexToOffset m (st_cb s) (- 1);
     string_erase H f 0xFFFFFFFF s h }"

definition lower :: "u32 \<Rightarrow> u32" where
  "lower c =
     (if 0x41 \<le> c \<and> c \<le> 0x5a then c + 0x20
      else if 0xC0 \<le> c \<and> c \<le> 0xDE then c + 0x20
      else if c = 0x0178 then 0x00FF
      else if c AND 1 = 0 \<and> 0x0100 \<le> c \<and> c \<le> 0x0136 then c + 1
      else if c AND 1 \<noteq> 0 \<and> 0x0139 \<le> c \<and> c \<le> 0x0147 then c + 1
      else if c AND 1 = 0 \<and> 0x014A \<le> c \<and> c \<le> 0x0176 then c + 1
      else c)"

text \<open>
  \<^verbatim>\<open>lowercase\<close>. The loop does not advance over a zero character, so the number of iterations is bounded by fuel; \<open>None\<close> is also
  a loop that does not end.
\<close>

fun lowercase_loop :: "nat \<Rightarrow> bytes \<Rightarrow> nat \<Rightarrow> nat \<Rightarrow> bytes \<Rightarrow> bytes option" where
  "lowercase_loop 0 m cb p acc = None"
| "lowercase_loop (Suc n) m cb p acc =
     (if p < cb then do {
        (c, p) \<leftarrow> string_readChar m cb p;
        bs \<leftarrow> char_bytes (lower c);
        lowercase_loop n m cb p (acc @ bs) }
      else Some acc)"

definition string_lowercase :: "bytes \<Rightarrow> nat \<Rightarrow> bytes option" where
  "string_lowercase m cb = lowercase_loop (cb + 1) m cb 0 []"

subsection \<open>Bytes of an encoded character\<close>

lemma bit_of_byte:
  "(b :: u8) AND 128 \<noteq> 0 \<longleftrightarrow> odd (unat b div 128)" "b AND 32 \<noteq> 0 \<longleftrightarrow> odd (unat b div 32)" "b AND 16 \<noteq> 0 \<longleftrightarrow> odd (unat b div 16)"
proof -
  have "b AND 2 ^ k \<noteq> 0 \<longleftrightarrow> odd (unat b div 2 ^ k)" for k
  proof -
    have "bit b k \<longleftrightarrow> bit (unat b) k" by (auto simp: bit_unsigned_iff dest: bit_imp_le_length)
    then show ?thesis by (simp add: and_exp_eq_0_iff_not_bit bit_nat_def)
  qed
  from this [of 7] this [of 5] this [of 4]
  show "b AND 128 \<noteq> 0 \<longleftrightarrow> odd (unat b div 128)" "b AND 32 \<noteq> 0 \<longleftrightarrow> odd (unat b div 32)" "b AND 16 \<noteq> 0 \<longleftrightarrow> odd (unat b div 16)" by simp_all
qed

lemma high_bits_of_byte:
  "(b :: u8) AND 0xC0 = 0x80 \<longleftrightarrow> unat b div 64 = 2" "b AND 0xE0 = 0xC0 \<longleftrightarrow> unat b div 32 = 6"
  "b AND 0xF0 = 0xE0 \<longleftrightarrow> unat b div 16 = 14" "b AND 0xF8 = 0xF0 \<longleftrightarrow> unat b div 8 = 30" "b AND 0x80 = 0 \<longleftrightarrow> unat b < 128"
proof -
  have h: "b AND not (mask k) = push_bit k (drop_bit k b)" for k by (rule bit_word_eqI) (auto simp: bit_simps)
  have "unat (push_bit k (drop_bit k b)) = unat b div 2 ^ k * 2 ^ k" for k
  proof -
    have "unat b div 2 ^ k * 2 ^ k < 256" using div_times_less_eq_dividend [of "unat b" "2 ^ k"] unat_byte_less [of b] by linarith
    then show ?thesis by (simp add: bits_as_arith)
  qed
  then have u: "unat (b AND not (mask k)) = unat b div 2 ^ k * 2 ^ k" for k using h by simp
  have n: "(0xC0 :: u8) = not (mask 6)" "(0xE0 :: u8) = not (mask 5)" "(0xF0 :: u8) = not (mask 4)" "(0xF8 :: u8) = not (mask 3)" "(0x80 :: u8) = not (mask 7)"
    by (simp_all add: mask_eq_exp_minus_1 not_eq_complement)
  show "b AND 0xC0 = 0x80 \<longleftrightarrow> unat b div 64 = 2" using u [of 6] by (simp add: word_unat_eq_iff flip: n(1))
  show "b AND 0xE0 = 0xC0 \<longleftrightarrow> unat b div 32 = 6" using u [of 5] by (simp add: word_unat_eq_iff flip: n(2))
  show "b AND 0xF0 = 0xE0 \<longleftrightarrow> unat b div 16 = 14" using u [of 4] by (simp add: word_unat_eq_iff flip: n(3))
  show "b AND 0xF8 = 0xF0 \<longleftrightarrow> unat b div 8 = 30" using u [of 3] by (simp add: word_unat_eq_iff flip: n(4))
  show "b AND 0x80 = 0 \<longleftrightarrow> unat b < 128" using u [of 7] unat_byte_less [of b] by (auto simp: word_unat_eq_iff div_eq_0_iff simp flip: n(5))
qed

lemma is_cont_high: "is_cont b \<longleftrightarrow> unat b div 64 = 2"
  unfolding is_cont_def by (auto simp: div_eq_iff_range)

lemma char_bytes_utf8: "ch \<le> 0x10FFFF \<Longrightarrow> char_bytes ch = Some (unicode_to_utf8 ch)"
  unfolding char_bytes_def unicode_to_utf8_def
  by (auto simp: word_le_nat_alt word_less_nat_alt or.commute)

lemma char_step_range:
  "unat b < 128 \<Longrightarrow> char_step b = 1" "192 \<le> unat b \<Longrightarrow> unat b < 224 \<Longrightarrow> char_step b = 2"
  "224 \<le> unat b \<Longrightarrow> unat b < 240 \<Longrightarrow> char_step b = 3" "240 \<le> unat b \<Longrightarrow> unat b < 248 \<Longrightarrow> char_step b = 4"
proof -
  note d = div_eq_iff_range [THEN iffD2, OF _ conjI]
  show "unat b < 128 \<Longrightarrow> char_step b = 1" by (simp add: char_step_def bit_of_byte)
  show "char_step b = 2" if "192 \<le> unat b" "unat b < 224"
    using d [of 128 1 "unat b"] d [of 32 6 "unat b"] that by (simp add: char_step_def bit_of_byte)
  show "char_step b = 3" if "224 \<le> unat b" "unat b < 240"
    using d [of 128 1 "unat b"] d [of 32 7 "unat b"] d [of 16 14 "unat b"] that by (simp add: char_step_def bit_of_byte)
  show "char_step b = 4" if "240 \<le> unat b" "unat b < 248"
    using d [of 128 1 "unat b"] d [of 32 7 "unat b"] d [of 16 15 "unat b"] that by (simp add: char_step_def bit_of_byte)
qed

text \<open>An encoded character: its first byte tells the length, and continuation bytes follow.\<close>

lemma encoded_shape:
  assumes "c \<le> 0x10FFFF"
  obtains b bs where "unicode_to_utf8 c = b # bs" and "char_step b = length (unicode_to_utf8 c)" and "\<not> is_cont b"
    and "\<forall>x\<in>set bs. is_cont x" and "bs = [] \<and> unat b < 128 \<and> c = ucast b \<or>
      (\<exists>l tag k. utf8_lead l tag k \<and> l \<le> 3 \<and> bs = conts l (unat c) \<and> unat b = tag + unat c div 64 ^ l \<and> unat c div 64 ^ l < 2 ^ k)"
proof (cases "c < 0x80")
  case True
  then have n: "unat c < 128" by (simp add: word_less_nat_alt)
  then have b: "unat (ucast c :: byte) = unat c" by (simp add: unat_ucast_mod)
  have "c = ucast (ucast c :: byte)" by (rule word_unat_eq_iff [THEN iffD2]) (use n in \<open>simp add: unat_ucast_mod\<close>)
  then show thesis using True n b
    by (intro that [of "ucast c" "[]"]) (auto simp: unicode_to_utf8_def char_step_def bit_of_byte is_cont_def)
next
  case False
  then have "0x80 \<le> unat c" "unat c \<le> 0x10FFFF" using assms by (simp_all add: word_less_nat_alt word_le_nat_alt)
  then obtain l tag where cls: "utf8_class (unat c) l tag" using utf8_class_ex [of "unat c"] by auto
  have l: "l \<le> 3" using cls \<open>unat c \<le> 0x10FFFF\<close> unfolding utf8_class_def by linarith
  obtain k where k: "utf8_lead l tag k" "unat c div 64 ^ l < 2 ^ k" "tag + unat c div 64 ^ l < 256" using utf8_class_lead [OF cls] by blast
  define b where "b = (word_of_nat (tag + unat c div 64 ^ l) :: byte)"
  have b: "unat b = tag + unat c div 64 ^ l" using k(3) by (simp only: b_def unat_of_nat_byte)
  have enc: "unicode_to_utf8 c = b # conts l (unat c)" unfolding b_def by (rule unicode_to_utf8_class [OF cls])
  have "char_step b = Suc l" and "\<not> is_cont b"
  proof -
    from k(1) l consider "l = 1" "tag = 192" "k = 5" | "l = 2" "tag = 224" "k = 4" | "l = 3" "tag = 240" "k = 3"
      by (auto simp: utf8_lead_def)
    then have "char_step b = Suc l \<and> \<not> is_cont b"
      by cases (use b k(2) char_step_range(2-4) [of b] in \<open>simp_all add: is_cont_def\<close>)
    then show "char_step b = Suc l" "\<not> is_cont b" by blast+
  qed
  show thesis
  proof (rule that [OF enc])
    show "char_step b = length (unicode_to_utf8 c)" using \<open>char_step b = Suc l\<close> enc by simp
    show "\<forall>x\<in>set (conts l (unat c)). is_cont x" using is_cont_conts by blast
  qed (use \<open>\<not> is_cont b\<close> k(1,2) l b in blast)+
qed

subsection \<open>Reading what was written\<close>

lemma utf8_loop_short:
  assumes "\<forall>x\<in>set bs. is_cont x" and "length bs = l"
  shows "utf8_loop l c bs = Some (Some (foldl (\<lambda>c b. push_bit 6 c OR (ucast b AND 0x3f)) c bs, []))"
  using assms by (induction bs arbitrary: l c) (auto simp: is_cont_def word_less_nat_alt word_le_nat_alt)

lemma readUtf8_encoded:
  assumes "c \<le> 0x10FFFF"
  shows "string_readUtf8 (pre @ unicode_to_utf8 c @ post) (length pre) =
    Some (c, length pre + (if c = 0 then 0 else length (unicode_to_utf8 c)))"
proof -
  obtain b bs where enc: "unicode_to_utf8 c = b # bs" "char_step b = length (unicode_to_utf8 c)" "\<not> is_cont b" "\<forall>x\<in>set bs. is_cont x"
    "bs = [] \<and> unat b < 128 \<and> c = ucast b \<or>
      (\<exists>l tag k. utf8_lead l tag k \<and> l \<le> 3 \<and> bs = conts l (unat c) \<and> unat b = tag + unat c div 64 ^ l \<and> unat c div 64 ^ l < 2 ^ k)"
    by (rule encoded_shape [OF assms])
  let ?m = "pre @ unicode_to_utf8 c @ post"
  have rd: "rd ?m (length pre) = Some b" "i < length bs \<Longrightarrow> rd ?m (length pre + Suc i) = Some (bs ! i)" for i
    using enc(1) by (simp_all add: rd_def nth_append)
  from enc(5) show ?thesis
  proof
    assume a: "bs = [] \<and> unat b < 128 \<and> c = ucast b"
    then have "c = 0 \<longleftrightarrow> b = 0" by (simp add: word_unat_eq_iff unat_ucast_mod)
    with a rd(1) enc(1) show ?thesis by (simp add: string_readUtf8_def bit_of_byte)
  next
    assume "\<exists>l tag k. utf8_lead l tag k \<and> l \<le> 3 \<and> bs = conts l (unat c) \<and> unat b = tag + unat c div 64 ^ l \<and> unat c div 64 ^ l < 2 ^ k"
    then obtain l tag k where l: "utf8_lead l tag k" "l \<le> 3" "bs = conts l (unat c)" "unat b = tag + unat c div 64 ^ l" "unat c div 64 ^ l < 2 ^ k" by blast
    let ?c0 = "ucast b AND utf8_first_code_mask ! (l - 1) :: u32"
    have c0: "unat ?c0 = unat c div 64 ^ l" by (rule first_code_mask [OF l(1,5,4)])
    have "(unat ?c0 + 1) * 64 ^ l \<le> 2 ^ 32" using utf8_lead_fits [OF l(1,5)] c0 by simp
    then obtain c' where "utf8_loop l ?c0 (bs @ []) = Some (Some (c', []))" "unat c' = six (unat ?c0) bs"
      using utf8_loop_decodes [of ?c0 l bs "[]"] l(3) enc(4) by force
    then have val: "foldl (\<lambda>c b. push_bit 6 c OR (ucast b AND 0x3f)) ?c0 bs = c"
      using utf8_loop_short [OF enc(4), of l ?c0] l(3) six_conts [of "unat c" l] unfolding c0 by (simp add: word_unat_eq_iff)
    have "c \<noteq> 0"
    proof
      assume "c = 0"
      then have "unicode_to_utf8 c = [0]" by (simp add: unicode_to_utf8_def)
      then show False using enc(1) l(1,3) by (auto simp: utf8_lead_def conts_num)
    qed
    have bits: "b AND 128 \<noteq> 0" "b AND 32 \<noteq> 0 \<longleftrightarrow> 2 \<le> l" "2 \<le> l \<Longrightarrow> b AND 16 \<noteq> 0 \<longleftrightarrow> l = 3"
      using enc(2) l(2) length_conts [of l "unat c"] l(1) unfolding enc(1) l(3) char_step_def utf8_lead_def by (auto split: if_splits)
    have len: "length bs = l" using l(3) by simp
    from l(1,2) consider "l = 1" | "l = 2" | "l = 3" by (auto simp: utf8_lead_def)
    then show ?thesis
    proof cases
      case 1
      then obtain x where "bs = [x]" using len by (auto simp: length_Suc_conv)
      with 1 val \<open>c \<noteq> 0\<close> bits rd(1) rd(2) [of 0] enc(1) show ?thesis by (simp add: string_readUtf8_def utf8_first_code_mask_def)
    next
      case 2
      then obtain x y where "bs = [x, y]" using len by (auto simp: length_Suc_conv eval_nat_numeral)
      with 2 val \<open>c \<noteq> 0\<close> bits rd(1) rd(2) [of 0] rd(2) [of 1] enc(1) show ?thesis
        by (simp add: string_readUtf8_def utf8_first_code_mask_def push_bit_or or.assoc)
    next
      case 3
      then obtain x y z where "bs = [x, y, z]" using len by (auto simp: length_Suc_conv eval_nat_numeral)
      moreover from this rd(2) [of 2] have "rd ?m (length pre + 3) = Some z" by (simp add: eval_nat_numeral)
      ultimately show ?thesis using 3 val \<open>c \<noteq> 0\<close> bits rd(1) rd(2) [of 0] rd(2) [of 1] enc(1)
        by (simp add: string_readUtf8_def utf8_first_code_mask_def push_bit_or or.assoc)
    qed
  qed
qed

subsection \<open>Text\<close>

text \<open>The characters of a text and its bytes.\<close>

definition code_points :: "u32 list \<Rightarrow> bool" where
  "code_points cs \<longleftrightarrow> (\<forall>c\<in>set cs. c \<le> 0x10FFFF)"

definition utf8_text :: "u32 list \<Rightarrow> bytes" where
  "utf8_text cs = concat (map unicode_to_utf8 cs)"

lemma utf8_text_simps [simp]: "utf8_text [] = []" "utf8_text (c # cs) = unicode_to_utf8 c @ utf8_text cs" "utf8_text (xs @ ys) = utf8_text xs @ utf8_text ys"
  by (simp_all add: utf8_text_def)

lemma code_points_simps [simp]: "code_points []" "code_points (c # cs) \<longleftrightarrow> c \<le> 0x10FFFF \<and> code_points cs"
  "code_points (xs @ ys) \<longleftrightarrow> code_points xs \<and> code_points ys"
  by (auto simp: code_points_def)

lemma code_points_take: "code_points cs \<Longrightarrow> code_points (take n cs) \<and> code_points (drop n cs)"
  by (auto simp: code_points_def dest: in_set_takeD in_set_dropD)

lemma encoded_nonempty: "c \<le> 0x10FFFF \<Longrightarrow> 0 < length (unicode_to_utf8 c)"
  by (rule encoded_shape) auto

lemma length_utf8_text: "code_points cs \<Longrightarrow> length cs \<le> length (utf8_text cs)"
proof (induction cs)
  case (Cons c cs)
  then show ?case using encoded_nonempty [of c] by (simp add: Suc_le_eq add_strict_increasing2 del: length_greater_0_conv)
qed simp

lemma first_byte:
  assumes "c \<le> 0x10FFFF"
  shows "\<exists>b. rd (pre @ unicode_to_utf8 c @ post) (length pre) = Some b \<and> char_step b = length (unicode_to_utf8 c)"
proof -
  obtain b bs where "unicode_to_utf8 c = b # bs" "char_step b = length (unicode_to_utf8 c)" by (rule encoded_shape [OF assms])
  then show ?thesis by (simp add: rd_def)
qed

lemma length_loop_text:
  "code_points cs \<Longrightarrow> length_loop (pre @ utf8_text cs @ post) (length pre + length (utf8_text cs)) (length pre) n = Some (n + length cs)"
proof (induction cs arbitrary: pre n)
  case Nil
  then show ?case by (simp add: length_loop.simps)
next
  case (Cons c cs)
  then have c: "c \<le> 0x10FFFF" and cs: "code_points cs" by simp_all
  obtain b where b: "rd (pre @ unicode_to_utf8 c @ (utf8_text cs @ post)) (length pre) = Some b" "char_step b = length (unicode_to_utf8 c)"
    using first_byte [OF c] by blast
  from Cons.IH [OF cs, of "pre @ unicode_to_utf8 c" "n + 1"] b encoded_nonempty [OF c]
  show ?case by (subst length_loop.simps) (simp add: add.assoc)
qed

lemma index_forward_text:
  "code_points cs \<Longrightarrow> i \<le> length cs \<Longrightarrow> index_forward (pre @ utf8_text cs @ post) i (length pre) = Some (length pre + length (utf8_text (take i cs)))"
proof (induction cs arbitrary: pre i)
  case (Cons c cs)
  then have c: "c \<le> 0x10FFFF" and cs: "code_points cs" by simp_all
  obtain b where b: "rd (pre @ unicode_to_utf8 c @ (utf8_text cs @ post)) (length pre) = Some b" "char_step b = length (unicode_to_utf8 c)"
    using first_byte [OF c] by blast
  show ?case
  proof (cases i)
    case (Suc j)
    then show ?thesis using Cons.IH [OF cs, of j "pre @ unicode_to_utf8 c"] b Cons.prems(2) by (simp add: add.assoc)
  qed simp
qed simp

lemma step_back_encoded:
  assumes "c \<le> 0x10FFFF"
  shows "step_back (pre @ unicode_to_utf8 c @ post) (length pre + length (unicode_to_utf8 c)) = Some (length pre)"
proof -
  obtain b bs where enc: "unicode_to_utf8 c = b # bs" "char_step b = length (unicode_to_utf8 c)" "\<not> is_cont b" "\<forall>x\<in>set bs. is_cont x"
    "bs = [] \<and> unat b < 128 \<and> c = ucast b \<or>
      (\<exists>l tag k. utf8_lead l tag k \<and> l \<le> 3 \<and> bs = conts l (unat c) \<and> unat b = tag + unat c div 64 ^ l \<and> unat c div 64 ^ l < 2 ^ k)"
    by (rule encoded_shape [OF assms])
  note d = div_eq_iff_range [THEN iffD2, OF _ conjI]
  from enc(5) consider "bs = []" "unat b < 128" | x where "bs = [x]" "unat b div 32 = 6" | x y where "bs = [x, y]" "unat b div 16 = 14"
    | x y z where "bs = [x, y, z]" "unat b div 8 = 30"
  proof (elim disjE exE conjE)
    fix l tag k
    assume l: "utf8_lead l tag k" "l \<le> 3" "bs = conts l (unat c)" "unat b = tag + unat c div 64 ^ l" "unat c div 64 ^ l < 2 ^ k"
    from l(1,2) consider "l = 1" "tag = 192" "k = 5" | "l = 2" "tag = 224" "k = 4" | "l = 3" "tag = 240" "k = 3" by (auto simp: utf8_lead_def)
    then show thesis
    proof cases
      case 1
      then have "unat b div 32 = 6" using l(4,5) by (intro d) simp_all
      then show thesis using that(2) l(3) 1 by (simp add: conts_num)
    next
      case 2
      then have "unat b div 16 = 14" using l(4,5) by (intro d) simp_all
      then show thesis using that(3) l(3) 2 by (simp add: conts_num)
    next
      case 3
      then have "unat b div 8 = 30" using l(4,5) by (intro d) simp_all
      then show thesis using that(4) l(3) 3 by (simp add: conts_num)
    qed
  qed (use that(1) in blast)
  moreover have lead: "unat b div 64 \<noteq> 2" using enc(3) by (simp add: is_cont_high)
  ultimately show ?thesis
    using enc(4) unfolding enc(1)
    by cases (simp_all add: step_back_def rd_def nth_append is_cont_high high_bits_of_byte)
qed

lemma index_backward_text:
  "code_points cs \<Longrightarrow> index_backward (utf8_text cs @ post) n (length (utf8_text cs)) = Some (length (utf8_text (take (length cs - n) cs)))"
proof (induction n arbitrary: cs post)
  case (Suc n)
  show ?case
  proof (cases cs rule: rev_cases)
    case (snoc xs c)
    then have c: "c \<le> 0x10FFFF" and xs: "code_points xs" using Suc.prems by simp_all
    show ?thesis using step_back_encoded [OF c, of "utf8_text xs" post] Suc.IH [OF xs, of "unicode_to_utf8 c @ post"] encoded_nonempty [OF c] snoc
      by simp
  qed simp
qed simp

lemma charIndexToOffset_text:
  assumes "code_points cs" and "i \<le> int (length cs)"
  shows "charIndexToOffset (utf8_text cs @ post) (length (utf8_text cs)) i =
    Some (length (utf8_text (take (nat (if i < 0 then i + int (length cs) else i)) cs)))"
proof (cases "i < 0")
  case True
  then have "nat (i + int (length cs)) = length cs - nat (- i)" by linarith
  then show ?thesis using index_backward_text [OF assms(1), of post "nat (- i)"] True by (simp add: charIndexToOffset_def)
next
  case False
  then show ?thesis using index_forward_text [OF assms(1), of "nat i" "[]" post] assms(2) by (simp add: charIndexToOffset_def)
qed

lemma readUtf8_text:
  assumes "code_points cs" and "i < length cs"
  shows "\<exists>p'. string_readUtf8 (utf8_text cs @ post) (length (utf8_text (take i cs))) = Some (cs ! i, p')"
proof -
  have cs: "utf8_text cs @ post = utf8_text (take i cs) @ unicode_to_utf8 (cs ! i) @ (utf8_text (drop (Suc i) cs) @ post)"
    by (subst id_take_nth_drop [OF assms(2)]) simp
  have "cs ! i \<le> 0x10FFFF" using assms by (auto simp: code_points_def)
  then show ?thesis unfolding cs by (simp only: readUtf8_encoded) blast
qed

text \<open>
  C32. Characters by index. In a buffer that holds the UTF-8 encoding of any sequence of code points, \<^verbatim>\<open>length\<close> is the number of code points,
  and \<^verbatim>\<open>charAt\<close> returns the code point at an index, counted from the start or, when it is negative, from the end, without a
  read behind the text or a failed assertion.
\<close>

theorem string_chars_indexed:
  assumes "code_points cs"
  shows "string_length (utf8_text cs @ post) (length (utf8_text cs)) = Some (length cs) \<and>
    (\<forall>i < length cs. string_charAt (utf8_text cs @ post) (length (utf8_text cs)) (int i) = Some (cs ! i) \<and>
       string_charAt (utf8_text cs @ post) (length (utf8_text cs)) (int i - int (length cs)) = Some (cs ! i))"
proof (intro conjI allI impI)
  show "string_length (utf8_text cs @ post) (length (utf8_text cs)) = Some (length cs)"
    using length_loop_text [OF assms, of "[]" post 0] by (simp add: string_length_def)
next
  fix i assume i: "i < length cs"
  obtain p' where r: "string_readUtf8 (utf8_text cs @ post) (length (utf8_text (take i cs))) = Some (cs ! i, p')"
    using readUtf8_text [OF assms i] by blast
  show "string_charAt (utf8_text cs @ post) (length (utf8_text cs)) (int i) = Some (cs ! i)"
    using charIndexToOffset_text [OF assms, of "int i" post] i r by (simp add: string_charAt_def)
  show "string_charAt (utf8_text cs @ post) (length (utf8_text cs)) (int i - int (length cs)) = Some (cs ! i)"
    using charIndexToOffset_text [OF assms, of "int i - int (length cs)" post] i r by (simp add: string_charAt_def)
qed

theorem string_chars_indexed_witness:
  "string_length (utf8_text [0x61, 0xe9, 0x1f600, 0x20ac] @ [0]) (length (utf8_text [0x61, 0xe9, 0x1f600, 0x20ac])) = Some 4 \<and>
   string_charAt (utf8_text [0x61, 0xe9, 0x1f600, 0x20ac] @ [0]) (length (utf8_text [0x61, 0xe9, 0x1f600, 0x20ac])) (- 2) = Some 0x1f600"
proof -
  have "code_points [0x61, 0xe9, 0x1f600, 0x20ac]" by (simp add: code_points_def)
  from string_chars_indexed [OF this, of "[0]"] show ?thesis by (auto dest: spec [of _ 2])
qed

subsection \<open>Slices and appended characters\<close>

text \<open>The specification of a slice: both indices count from the end when negative, are clamped to the text and put in order.\<close>

definition clamp_index :: "nat \<Rightarrow> int \<Rightarrow> nat" where
  "clamp_index n i = nat (min (int n) (max 0 (if i < 0 then i + int n else i)))"

definition slice_spec :: "'a list \<Rightarrow> int \<Rightarrow> int \<Rightarrow> 'a list" where
  "slice_spec cs i j =
     (let a = clamp_index (length cs) (if j = 0 then 0 else i); b = clamp_index (length cs) (if j = 0 then i else j)
      in take (max a b - min a b) (drop (min a b) cs))"

lemma clamp_index_int: "int (clamp_index n i) = min (int n) (max 0 (if i < 0 then i + int n else i))"
  by (simp add: clamp_index_def)

lemma clamp_index_le: "clamp_index n i \<le> n"
  using clamp_index_int [of n i] by linarith

lemma min_clamp: "min (min n (max 0 x)) (min n (max 0 y)) = min n (max 0 (min x y))"
  and max_clamp: "max (min n (max 0 x)) (min n (max 0 y)) = min n (max 0 (max x y))" for n x y :: int
  by linarith+

lemma slice_range_clamp:
  "slice_range (int n) i j =
     (let a = clamp_index n (if j = 0 then 0 else i); b = clamp_index n (if j = 0 then i else j) in (int (min a b), int (max a b)))"
proof -
  define x y where "x = (if j = 0 then 0 else i)" and "y = (if j = 0 then i else j)"
  define x' y' where "x' = (if x < 0 then x + int n else x)" and "y' = (if y < 0 then y + int n else y)"
  have "(if j = 0 then (0, i) else (i, j)) = (x, y)" "(if x' > y' then (y', x') else (x', y')) = (min x' y', max x' y')"
    by (simp_all add: x_def y_def min_def max_def)
  then have "slice_range (int n) i j = (min (int n) (max 0 (min x' y')), min (int n) (max 0 (max x' y')))"
    unfolding slice_range_def by (simp only: Let_def prod.case x'_def [symmetric] y'_def [symmetric] split del: if_split)
  moreover have "int (min (clamp_index n x) (clamp_index n y)) = min (int n) (max 0 (min x' y'))"
    "int (max (clamp_index n x) (clamp_index n y)) = min (int n) (max 0 (max x' y'))"
    by (simp_all only: of_nat_min of_nat_max clamp_index_int x'_def y'_def min_clamp max_clamp)
  ultimately show ?thesis unfolding x_def [symmetric] y_def [symmetric] Let_def by (simp only:)
qed

lemma take_drop_text:
  assumes "f \<le> t" and "t \<le> length cs"
  shows "take (length (utf8_text (take t cs)) - length (utf8_text (take f cs))) (drop (length (utf8_text (take f cs))) (utf8_text cs)) =
    utf8_text (take (t - f) (drop f cs))"
proof -
  have t: "take t cs = take f cs @ take (t - f) (drop f cs)" using assms(1) by (metis le_add_diff_inverse take_add)
  have "cs = take f cs @ take (t - f) (drop f cs) @ drop t cs" using t by (metis append.assoc append_take_drop_id)
  then have "utf8_text cs = utf8_text (take f cs @ take (t - f) (drop f cs) @ drop t cs)" by simp
  also have "\<dots> = utf8_text (take f cs) @ utf8_text (take (t - f) (drop f cs)) @ utf8_text (drop t cs)" by (simp only: utf8_text_simps(3))
  finally have "utf8_text cs = utf8_text (take f cs) @ utf8_text (take (t - f) (drop f cs)) @ utf8_text (drop t cs)" .
  then show ?thesis unfolding t by simp
qed

lemma str_mem_text:
  assumes "start_chars h s = Some xs"
  shows "\<exists>post. str_mem h s = Some (xs @ post) \<and> length xs = st_cb s"
proof -
  obtain d where d: "ptr_data h (st_buf s) = Some d" "slice d (st_offset s) (st_cb s) = Some xs"
    using assms by (auto simp: start_chars_def read_chars_def split: bind_splits)
  then have "st_offset s + st_cb s \<le> length d" "xs = take (st_cb s) (drop (st_offset s) d)" by (simp_all add: slice_eq_Some_iff)
  then show ?thesis using d(1) by (auto simp: str_mem_def intro!: exI [of _ "drop (st_cb s) (drop (st_offset s) d)"] simp del: drop_drop)
qed

text \<open>
  C31. Slices. A slice of a string object by character indices is a string object with exactly the code points that the
  indices select, it shares the buffer of the original, and no other object changes.
\<close>

theorem string_slice_chars:
  assumes "heap_ok h c" and "str_ok h s" and "\<And>a. c a < 1000" and "st_buf s \<noteq> NullP" and "st_offset s + st_cb s < 2 ^ 24"
    and "code_points cs" and "start_chars h s = Some (utf8_text cs)"
  shows "str_yields h c (string_slice s i j h) (utf8_text (slice_spec cs i j))"
proof -
  obtain post where m: "str_mem h s = Some (utf8_text cs @ post)" "st_cb s = length (utf8_text cs)" using str_mem_text [OF assms(7)] by auto
  define a b where "a = min (clamp_index (length cs) (if j = 0 then 0 else i)) (clamp_index (length cs) (if j = 0 then i else j))"
    and "b = max (clamp_index (length cs) (if j = 0 then 0 else i)) (clamp_index (length cs) (if j = 0 then i else j))"
  have ab: "a \<le> b" "b \<le> length cs" unfolding a_def b_def by (simp_all add: clamp_index_le)
  have len: "string_length (utf8_text cs @ post) (length (utf8_text cs)) = Some (length cs)"
    using length_loop_text [OF assms(6), of "[]" post 0] by (simp add: string_length_def)
  have off: "charIndexToOffset (utf8_text cs @ post) (length (utf8_text cs)) (int k) = Some (length (utf8_text (take k cs)))" if "k \<le> length cs" for k
    using charIndexToOffset_text [OF assms(6), of "int k" post] that by simp
  have "string_slice s i j h = string_substr s (length (utf8_text (take a cs))) (length (utf8_text (take b cs))) h"
    using m len off [of a] off [of b] ab unfolding string_slice_def a_def b_def by (simp add: slice_range_clamp Let_def)
  moreover have le: "length (utf8_text (take a cs)) \<le> length (utf8_text (take b cs))"
  proof -
    have "take b cs = take a cs @ take (b - a) (drop a cs)" using ab(1) by (metis le_add_diff_inverse take_add)
    then show ?thesis by simp
  qed
  moreover have "utf8_text (slice_spec cs i j) =
    take (length (utf8_text (take b cs)) - length (utf8_text (take a cs))) (drop (length (utf8_text (take a cs))) (utf8_text cs))"
    using take_drop_text [OF ab] by (simp add: slice_spec_def a_def b_def Let_def)
  ultimately show ?thesis using string_substr_yields [OF assms(1-3,7,4,5)] by (metis max.absorb2 min.absorb1)
qed

definition text_heap :: sheap where
  "text_heap = \<lparr>sh_bufs = [0 \<mapsto> \<lparr>sb_refs = 1, sb_cb = 5, sb_cap = 5, sb_data = [0x78, 0x61, 0xc3, 0xa9, 0x62, 0]\<rparr>], sh_next = 1\<rparr>"

theorem string_slice_chars_witness:
  "str_yields text_heap ((\<lambda>a. 0)(0 := 1)) (string_slice \<lparr>st_buf = Ptr 0, st_cb = 5, st_offset = 0, st_type = 0\<rparr> 1 (- 1) text_heap)
     [0x61, 0xc3, 0xa9]"
proof -
  let ?s = "\<lparr>st_buf = Ptr 0, st_cb = 5, st_offset = 0, st_type = 0\<rparr> :: str"
  have h: "heap_ok text_heap ((\<lambda>a. 0)(0 := 1))" by (simp add: heap_ok_def text_heap_def buf_ok_def)
  have s: "str_ok text_heap ?s" by (simp add: str_ok_def text_heap_def)
  have x: "utf8_text [0x78, 0x61, 0xe9, 0x62] = [0x78, 0x61, 0xc3, 0xa9, 0x62]" by (simp add: unicode_to_utf8_def)
  have t: "start_chars text_heap ?s = Some (utf8_text [0x78, 0x61, 0xe9, 0x62])"
    unfolding x by (simp add: start_chars_def read_chars_def ptr_data_def text_heap_def slice_def)
  have "slice_spec [0x78, 0x61, 0xe9, 0x62 :: u32] 1 (- 1) = [0x61, 0xe9]" by (simp add: slice_spec_def clamp_index_def)
  moreover have "utf8_text [0x61, 0xe9] = [0x61, 0xc3, 0xa9]" by (simp add: unicode_to_utf8_def)
  ultimately show ?thesis using string_slice_chars [OF h s _ _ _ _ t, of 1 "- 1"] by (simp add: code_points_def)
qed

lemma string_append_char_yields:
  assumes "heap_ok h (\<lambda>a. c a + owns s a)" and "str_ok h s" and "\<And>a. c a < 999" and "c_heap_ok limit H" and "limit < 2 ^ 31"
    and "has_room limit h s (length (unicode_to_utf8 ch))" and "ch \<le> 0x10FFFF" and "start_chars h s = Some (utf8_text cs)"
  shows "str_yields h c (string_append_char H ch s h) (utf8_text (cs @ [ch]))"
proof -
  have "length (utf8_text cs) = st_cb s" using str_ok_chars [OF assms(2,1)] assms(8) by auto
  then show ?thesis using string_insert_yields [OF assms(1-6,8), of "st_cb s"] char_bytes_utf8 [OF assms(7)]
    by (simp add: string_append_char_def string_append_def)
qed

lemma string_eraseLast_yields:
  assumes "heap_ok h (\<lambda>a. c a + owns s a)" and "str_ok h s" and "\<And>a. c a < 999" and "c_heap_ok limit H" and "limit < 2 ^ 31"
    and "has_room limit h s 0" and "start_chars h s = Some (utf8_text cs)" and "\<And>a. st_buf s = Ptr a \<Longrightarrow> c a = 0 \<Longrightarrow> st_offset s = 0"
    and "code_points cs" and "length (utf8_text cs) \<le> 0xFFFFFFFF"
  shows "str_yields h c (string_eraseLast H s h) (utf8_text (butlast cs))"
proof -
  obtain post where m: "str_mem h s = Some (utf8_text cs @ post)" "st_cb s = length (utf8_text cs)" using str_mem_text [OF assms(7)] by auto
  define p where "p = length (utf8_text (butlast cs))"
  have "take (nat (int (length cs) - 1)) cs = butlast cs" by (cases cs rule: rev_cases) (simp_all add: butlast_conv_take)
  then have off: "charIndexToOffset (utf8_text cs @ post) (length (utf8_text cs)) (- 1) = Some p"
    using charIndexToOffset_text [OF assms(9), of "- 1" post] by (simp add: p_def)
  have pre: "take p (utf8_text cs) = utf8_text (butlast cs)" "p \<le> length (utf8_text cs)" by (cases cs rule: rev_cases; simp add: p_def)+
  have "string_eraseLast H s h = string_erase H p 0xFFFFFFFF s h" using m off by (simp add: string_eraseLast_def)
  moreover have "take (min p 0xFFFFFFFF) (utf8_text cs) @ drop (max p 0xFFFFFFFF) (utf8_text cs) = utf8_text (butlast cs)"
    using pre assms(10) by (simp add: min_def max_def)
  ultimately show ?thesis using string_erase_yields [OF assms(1-8), where i = p and j = "0xFFFFFFFF"] by simp
qed

text \<open>\<^verbatim>\<open>lowercase\<close> maps the characters of a text without a zero character; at a zero character its loop never ends.\<close>

lemma lower_code_point: "c \<le> 0x10FFFF \<Longrightarrow> lower c \<le> 0x10FFFF"
  by (auto simp: lower_def word_le_nat_alt unat_word_ariths)

lemma lowercase_loop_text:
  assumes "code_points cs" and "0 \<notin> set cs" and "length cs < n" and "cb = length pre + length (utf8_text cs)"
  shows "lowercase_loop n (pre @ utf8_text cs @ post) cb (length pre) acc = Some (acc @ utf8_text (map lower cs))"
  using assms
proof (induction cs arbitrary: pre acc n)
  case (Cons c cs)
  then obtain k where n: "n = Suc k" by (cases n) auto
  have c: "c \<le> 0x10FFFF" "c \<noteq> 0" using Cons.prems by auto
  from Cons.IH [of k "pre @ unicode_to_utf8 c" "acc @ unicode_to_utf8 (lower c)"] Cons.prems n
    readUtf8_encoded [OF c(1), of pre "utf8_text cs @ post"] char_bytes_utf8 [OF lower_code_point [OF c(1)]] encoded_nonempty [OF c(1)] c(2)
  show ?case by (simp add: string_readChar_def add.assoc)
qed (auto simp: gr0_conv_Suc)

lemma lowercase_text:
  assumes "code_points cs" and "0 \<notin> set cs"
  shows "string_lowercase (utf8_text cs @ post) (length (utf8_text cs)) = Some (utf8_text (map lower cs))"
proof -
  have "length cs \<le> length (utf8_text cs)" using assms(1) by (rule length_utf8_text)
  then show ?thesis using lowercase_loop_text [OF assms, of "length (utf8_text cs) + 1" _ "[]" post "[]"] by (simp add: string_lowercase_def)
qed

lemma lowercase_zero: "lowercase_loop n (pre @ 0 # post) (Suc (length pre) + k) (length pre) acc = None"
  by (induction n arbitrary: acc) (simp_all add: string_readChar_def string_readUtf8_def rd_def char_bytes_def lower_def)

end
