(* ===== verification/StrSearch.thy ===== *)
theory StrSearch
  imports StrText
begin

unbundle bit_operations_syntax

section \<open>Comparing, searching and scanning strings (\<^verbatim>\<open>base/string.cpp\<close>)\<close>

text \<open>
  The functions of the class \<^verbatim>\<open>string\<close> that read strings. As in the preceding theory a string is the memory from \<^verbatim>\<open>start()\<close> on and the
  number of its bytes; \<^verbatim>\<open>uint32_t\<close> arithmetic that can wrap is written out.
\<close>

subsection \<open>Comparison\<close>

definition string_compare :: "bytes \<Rightarrow> nat \<Rightarrow> bytes \<Rightarrow> nat \<Rightarrow> int option" where
  "string_compare m1 cb1 m2 cb2 = do {
     r \<leftarrow> memcmp m1 0 m2 0 (min cb1 cb2);
     Some (if r \<noteq> 0 then r else if cb1 < cb2 then - 1 else if cb1 > cb2 then 1 else 0) }"

definition string_eq :: "bytes \<Rightarrow> nat \<Rightarrow> bytes \<Rightarrow> nat \<Rightarrow> bool option" where
  "string_eq m1 cb1 m2 cb2 = map_option (\<lambda>r. 0 = r) (string_compare m1 cb1 m2 cb2)"

definition string_less :: "bytes \<Rightarrow> nat \<Rightarrow> bytes \<Rightarrow> nat \<Rightarrow> bool option" where
  "string_less m1 cb1 m2 cb2 = map_option (\<lambda>r. r < 0) (string_compare m1 cb1 m2 cb2)"

fun string_isOneOf :: "bytes \<Rightarrow> nat \<Rightarrow> (bytes \<times> nat) list \<Rightarrow> bool option" where
  "string_isOneOf m cb [] = Some False"
| "string_isOneOf m cb ((m', cb') # vec) = do { e \<leftarrow> string_eq m cb m' cb'; if e then Some True else string_isOneOf m cb vec }"

definition string_hasPrefix :: "bytes \<Rightarrow> nat \<Rightarrow> bytes \<Rightarrow> nat \<Rightarrow> bool option" where
  "string_hasPrefix m cb p cbp = (if cbp > cb then Some False else map_option (\<lambda>r. 0 = r) (memcmp m 0 p 0 cbp))"

definition string_hasSuffix :: "bytes \<Rightarrow> nat \<Rightarrow> bytes \<Rightarrow> nat \<Rightarrow> bool option" where
  "string_hasSuffix m cb x cbx = (if cb < cbx then Some False else map_option (\<lambda>r. 0 = r) (memcmp m (cb - cbx) x 0 cbx))"

subsection \<open>Search\<close>

text \<open>
  \<^verbatim>\<open>findStr\<close>: the loop from \<open>o'\<close> up to \<open>to\<close>, for the text \<open>x\<close>, in memory that begins at \<^verbatim>\<open>buf\<close>. \<^verbatim>\<open>textLen - 1\<close> becomes a \<^verbatim>\<open>size_t\<close>, which
  no object has room for when \<^verbatim>\<open>textLen\<close> is 0.
\<close>

function find_loop :: "bytes \<Rightarrow> nat \<Rightarrow> bytes \<Rightarrow> nat \<Rightarrow> bool \<Rightarrow> nat \<Rightarrow> nat \<Rightarrow> nat option" where
  "find_loop buf buflen x textLen includeText to o' =
     (if o' < to then do {
        c \<leftarrow> rd x 0;
        r \<leftarrow> memchr buf o' c (to - o');
        (case r of
           None \<Rightarrow> Some buflen
         | Some j \<Rightarrow>
             if j < o' \<or> textLen = 0 then None
             else do {
               d \<leftarrow> memcmp buf (j + 1) x 1 (textLen - 1);
               if d = 0 then Some (if includeText then j + textLen else j)
               else find_loop buf buflen x textLen includeText to (j + 1) }) }
      else Some buflen)"
  by pat_completeness auto
termination by (relation "measure (\<lambda>(buf, buflen, x, textLen, includeText, to, o'). to - o')") auto

declare find_loop.simps [simp del]

definition findStr :: "bytes \<Rightarrow> nat \<Rightarrow> bytes \<Rightarrow> nat \<Rightarrow> bool \<Rightarrow> nat option" where
  "findStr buf buflen x textLen includeText =
     find_loop buf buflen x textLen includeText (nat ((int buflen - int textLen + 1) mod 2 ^ 32)) 0"

text \<open>\<^verbatim>\<open>find\<close> and \<^verbatim>\<open>findLast\<close> for a text that is not empty and a string with a buffer; \<^verbatim>\<open>_cb - fromOffset\<close> wraps as well.\<close>

definition string_find :: "bytes \<Rightarrow> nat \<Rightarrow> bytes \<Rightarrow> nat \<Rightarrow> nat \<Rightarrow> nat option" where
  "string_find m cb x textLen fromOffset =
     (if x = [] \<or> x ! 0 = 0 \<or> m = [] then Some 0xFFFFFFFF
      else if fromOffset > length m then None
      else map_option (\<lambda>r. (fromOffset + r) mod 2 ^ 32)
        (findStr (drop fromOffset m) (nat ((int cb - int fromOffset) mod 2 ^ 32)) x textLen False))"

definition string_contains :: "bytes \<Rightarrow> nat \<Rightarrow> bytes \<Rightarrow> nat \<Rightarrow> bool option" where
  "string_contains m cb x textLen = map_option (\<lambda>r. r < cb) (string_find m cb x textLen 0)"

text \<open>\<^verbatim>\<open>findLast\<close>: \<open>p\<close> is the distance of \<^verbatim>\<open>buf\<close> from \<^verbatim>\<open>start()\<close>. A match of no bytes cannot occur, so every round shortens the rest.\<close>

function find_last_loop :: "bytes \<Rightarrow> bytes \<Rightarrow> nat \<Rightarrow> nat \<Rightarrow> nat \<Rightarrow> nat \<Rightarrow> nat option" where
  "find_last_loop m x textLen p buflen r =
     (if buflen > 0 then do {
        f \<leftarrow> findStr (drop p m) buflen x textLen False;
        if f \<ge> buflen then Some r
        else if textLen = 0 then None
        else find_last_loop m x textLen (p + f + textLen) (buflen - (f + textLen)) (p + f) }
      else Some r)"
  by pat_completeness auto
termination by (relation "measure (\<lambda>(m, x, textLen, p, buflen, r). buflen)") auto

declare find_last_loop.simps [simp del]

definition string_findLast :: "bytes \<Rightarrow> nat \<Rightarrow> bytes \<Rightarrow> nat \<Rightarrow> nat \<Rightarrow> nat option" where
  "string_findLast m cb x textLen fromOffset =
     (if x = [] \<or> x ! 0 = 0 \<or> m = [] then Some 0xFFFFFFFF
      else if fromOffset > cb then None
      else find_last_loop m x textLen fromOffset (cb - fromOffset) 0xFFFFFFFF)"

subsection \<open>Scanning\<close>

definition skipChar :: "bytes \<Rightarrow> nat \<Rightarrow> u8 \<Rightarrow> (bool \<times> nat) option" where
  "skipChar m offset ch = do { b \<leftarrow> rd m offset; Some (if b = ch then (True, offset + 1) else (False, offset)) }"

function skip_while :: "(u8 \<Rightarrow> bool) \<Rightarrow> bytes \<Rightarrow> nat \<Rightarrow> nat \<Rightarrow> nat option" where
  "skip_while P m cb offset =
     (if offset < cb then do { ch \<leftarrow> rd m offset; if P ch then skip_while P m cb (offset + 1) else Some offset } else Some offset)"
  by pat_completeness auto
termination by (relation "measure (\<lambda>(P, m, cb, offset). cb - offset)") auto

declare skip_while.simps [simp del]

definition skipSpacesAndTabs :: "bytes \<Rightarrow> nat \<Rightarrow> nat \<Rightarrow> nat option" where
  "skipSpacesAndTabs = skip_while (\<lambda>ch. ch = 0x20 \<or> ch = 0x09)"

definition skipWhitespace :: "bytes \<Rightarrow> nat \<Rightarrow> nat \<Rightarrow> nat option" where
  "skipWhitespace = skip_while (\<lambda>ch. ch = 0x20 \<or> ch = 0x0d \<or> ch = 0x0a \<or> ch = 0x09)"

definition skipString :: "bytes \<Rightarrow> nat \<Rightarrow> nat \<Rightarrow> bytes \<Rightarrow> (bool \<times> nat) option" where
  "skipString m cb offset s =
     (if length s > nat ((int cb - int offset) mod 2 ^ 32) then Some (False, offset)
      else do {
        r \<leftarrow> memcmp m offset s 0 (length s);
        Some (if r = 0 then (True, offset + length s) else (False, offset)) })"

text \<open>The character classes take a \<^verbatim>\<open>char\<close>: a code point is reduced to its low byte.\<close>

definition isDigit :: "u8 \<Rightarrow> bool" where
  "isDigit ch \<longleftrightarrow> 0x30 \<le> ch \<and> ch \<le> 0x39"

definition isIdentifierChar :: "u8 \<Rightarrow> bool" where
  "isIdentifierChar ch \<longleftrightarrow> 0x41 \<le> ch \<and> ch \<le> 0x5a \<or> 0x61 \<le> ch \<and> ch \<le> 0x7a \<or> isDigit ch \<or> ch = 0x5f \<or> ch = 0x2d \<or> ch = 0x40"

definition isPunctuatorChar :: "u8 \<Rightarrow> bool" where
  "isPunctuatorChar ch \<longleftrightarrow> 33 \<le> ch \<and> ch \<le> 47 \<or> 58 \<le> ch \<and> ch \<le> 64 \<or> 91 \<le> ch \<and> ch \<le> 94 \<or> 123 \<le> ch \<and> ch \<le> 126"

text \<open>
  The loops over characters: read one, and go back over it when it does not belong to the token. A zero character does not
  advance the offset, so the number of iterations is bounded by fuel.
\<close>

fun read_identifier_loop :: "nat \<Rightarrow> bytes \<Rightarrow> nat \<Rightarrow> nat \<Rightarrow> nat option" where
  "read_identifier_loop 0 m cb p = None"
| "read_identifier_loop (Suc n) m cb p =
     (if p < cb then do {
        (ch, p) \<leftarrow> string_readChar m cb p;
        if \<not> isIdentifierChar (ucast ch) then string_rewind m p else read_identifier_loop n m cb p }
      else Some p)"

definition readIdentifier :: "bytes \<Rightarrow> nat \<Rightarrow> nat \<Rightarrow> (nat \<times> nat \<times> nat) option" where
  "readIdentifier m cb p = do { p' \<leftarrow> read_identifier_loop (cb - p + 1) m cb p; Some (p, p', p') }"

fun read_number_loop :: "nat \<Rightarrow> bytes \<Rightarrow> nat \<Rightarrow> bool \<Rightarrow> nat \<Rightarrow> nat option" where
  "read_number_loop 0 m cb seenDecimalPoint p = None"
| "read_number_loop (Suc n) m cb seenDecimalPoint p =
     (if p < cb then do {
        (ch, p) \<leftarrow> string_readChar m cb p;
        if isDigit (ucast ch) then read_number_loop n m cb seenDecimalPoint p
        else if ch = 0x2e \<and> \<not> seenDecimalPoint then read_number_loop n m cb True p
        else string_rewind m p }
      else Some p)"

definition readNumber :: "bytes \<Rightarrow> nat \<Rightarrow> nat \<Rightarrow> (nat \<times> nat \<times> nat) option" where
  "readNumber m cb p = do { p' \<leftarrow> read_number_loop (cb - p + 1) m cb False p; Some (p, p', p') }"

text \<open>\<^verbatim>\<open>readToken\<close>: \<open>Some None\<close> is the empty string; a punctuator fails an assertion.\<close>

definition readToken :: "bytes \<Rightarrow> nat \<Rightarrow> nat \<Rightarrow> ((nat \<times> nat) option \<times> nat) option" where
  "readToken m cb offset =
     (if offset < cb then do {
        ch \<leftarrow> string_peekChar m offset;
        if isDigit (ucast ch) then do { (f, t, p) \<leftarrow> readNumber m cb offset; Some (Some (f, t), p) }
        else if isIdentifierChar (ucast ch) then do { (f, t, p) \<leftarrow> readIdentifier m cb offset; Some (Some (f, t), p) }
        else if isPunctuatorChar (ucast ch) then None
        else Some (None, offset) }
      else Some (None, offset))"

text \<open>\<^verbatim>\<open>readToEndOfLine\<close> ends the substring at \<^verbatim>\<open>_offset\<close>, the field of the object, and not at the offset it has read up to.\<close>

fun read_line_loop :: "nat \<Rightarrow> bytes \<Rightarrow> nat \<Rightarrow> nat \<Rightarrow> nat option" where
  "read_line_loop 0 m cb p = None"
| "read_line_loop (Suc n) m cb p =
     (if p < cb then do {
        (ch, p) \<leftarrow> string_readChar m cb p;
        if ch = 0x0d \<or> ch = 0x0a then string_rewind m p else read_line_loop n m cb p }
      else Some p)"

definition readToEndOfLine :: "str \<Rightarrow> nat \<Rightarrow> sheap \<Rightarrow> (str \<times> nat \<times> sheap) option" where
  "readToEndOfLine s p h = do {
     m \<leftarrow> str_mem h s;
     p' \<leftarrow> read_line_loop (st_cb s - p + 1) m (st_cb s) p;
     (r, h) \<leftarrow> string_sub s p (st_offset s) h;
     Some (r, p', h) }"

fun char_in_loop :: "nat \<Rightarrow> bytes \<Rightarrow> nat \<Rightarrow> nat \<Rightarrow> u32 \<Rightarrow> bool option" where
  "char_in_loop 0 x cbx oo ch = None"
| "char_in_loop (Suc n) x cbx oo ch =
     (if oo < cbx then do {
        (c, oo) \<leftarrow> string_readChar x cbx oo;
        if c = ch then Some True else char_in_loop n x cbx oo ch }
      else Some False)"

fun read_up_to_one_of_loop :: "nat \<Rightarrow> bytes \<Rightarrow> nat \<Rightarrow> nat \<Rightarrow> bytes \<Rightarrow> nat \<Rightarrow> nat option" where
  "read_up_to_one_of_loop 0 m cb offset x cbx = None"
| "read_up_to_one_of_loop (Suc n) m cb offset x cbx =
     (if offset < cb then do {
        (ch, p) \<leftarrow> string_readChar m cb offset;
        found \<leftarrow> char_in_loop (cbx + 1) x cbx 0 ch;
        if found then Some offset else read_up_to_one_of_loop n m cb p x cbx }
      else Some offset)"

definition readUpToOneOf :: "bytes \<Rightarrow> nat \<Rightarrow> nat \<Rightarrow> bytes \<Rightarrow> nat \<Rightarrow> (nat \<times> nat \<times> nat) option" where
  "readUpToOneOf m cb offset x cbx = do {
     p \<leftarrow> read_up_to_one_of_loop (cb - offset + 1) m cb offset x cbx;
     Some (offset, p, p) }"

definition readUpTo :: "bytes \<Rightarrow> nat \<Rightarrow> nat \<Rightarrow> bytes \<Rightarrow> nat \<Rightarrow> (nat \<times> nat \<times> nat) option" where
  "readUpTo m cb offset x cbx = do {
     r \<leftarrow> findStr (drop offset m) (nat ((int cb - int offset) mod 2 ^ 32)) x cbx False;
     Some (offset, offset + r, offset + r) }"

definition readPast :: "bytes \<Rightarrow> nat \<Rightarrow> nat \<Rightarrow> bytes \<Rightarrow> nat \<Rightarrow> (nat \<times> nat \<times> nat) option" where
  "readPast m cb offset x cbx = do {
     r \<leftarrow> findStr (drop offset m) (nat ((int cb - int offset) mod 2 ^ 32)) x cbx True;
     Some (offset, offset + r, offset + r) }"

subsection \<open>Trimming, splitting and joining\<close>

text \<open>\<^verbatim>\<open>trim\<close>: the two loops count leading and trailing characters; the result is the range that is kept, when it is shorter.\<close>

function trim_lead :: "bytes \<Rightarrow> bytes \<Rightarrow> nat \<Rightarrow> nat \<Rightarrow> nat \<Rightarrow> (nat \<times> nat) option" where
  "trim_lead chars m cb i cLead =
     (if i < cb then do {
        b \<leftarrow> rd m i;
        if \<not> strchr chars b then Some (i + 1, cLead) else trim_lead chars m cb (i + 1) (cLead + 1) }
      else Some (i, cLead))"
  by pat_completeness auto
termination by (relation "measure (\<lambda>(chars, m, cb, i, cLead). cb - i)") auto

text \<open>\<open>k\<close> is \<^verbatim>\<open>ii + 1\<close>, so that an index of \<open>-1\<close> is 0.\<close>

function trim_trail :: "bytes \<Rightarrow> bytes \<Rightarrow> nat \<Rightarrow> nat \<Rightarrow> nat \<Rightarrow> nat option" where
  "trim_trail chars m i k cTrail =
     (if k > i then do {
        b \<leftarrow> rd m (k - 1);
        if \<not> strchr chars b then Some cTrail else trim_trail chars m i (k - 1) (cTrail + 1) }
      else Some cTrail)"
  by pat_completeness auto
termination by (relation "measure (\<lambda>(chars, m, i, k, cTrail). k - i)") auto

declare trim_lead.simps [simp del] trim_trail.simps [simp del]

definition string_trim :: "bytes \<Rightarrow> bytes \<Rightarrow> nat \<Rightarrow> (nat \<times> nat) option" where
  "string_trim chars m cb = do {
     (i, cLead) \<leftarrow> trim_lead chars m cb 0 0;
     cTrail \<leftarrow> trim_trail chars m i cb 0;
     Some (if cLead + cTrail > 0 then (cLead, cb - cTrail) else (0, cb)) }"

text \<open>
  \<^verbatim>\<open>split\<close>: the values of the pieces. The range that \<^verbatim>\<open>substr\<close> gets is in order and inside the string. With an
  empty delimiter the string itself is the only piece. The offset is a \<^verbatim>\<open>uint32_t\<close>; that it wraps, which takes a string and a delimiter
  of 4 GB together, is outside the model (\<open>None\<close>).
\<close>

function split_loop :: "bytes \<Rightarrow> nat \<Rightarrow> bytes \<Rightarrow> nat \<Rightarrow> nat \<Rightarrow> int \<Rightarrow> bytes list \<Rightarrow> bytes list option" where
  "split_loop m cb d cbd o' maxSplits result =
     (if o' < cb then do {
        r \<leftarrow> findStr (drop o' m) (cb - o') d cbd False;
        let result = result @ [take r (drop o' (take cb m))];
        if maxSplits > 0 \<and> maxSplits - 1 \<le> 0 then Some result
        else if cbd = 0 \<or> 2 ^ 32 \<le> o' + r + cbd then None
        else split_loop m cb d cbd (o' + r + cbd) (if maxSplits > 0 then maxSplits - 1 else maxSplits) result }
      else Some result)"
  by pat_completeness auto
termination by (relation "measure (\<lambda>(m, cb, d, cbd, o', maxSplits, result). cb - o')") auto

declare split_loop.simps [simp del]

definition string_split :: "bytes \<Rightarrow> nat \<Rightarrow> bytes \<Rightarrow> nat \<Rightarrow> int \<Rightarrow> bytes list option" where
  "string_split m cb d cbd maxSplits = do {
     l \<leftarrow> string_length d cbd;
     if l = 0 then Some [take cb m] else split_loop m cb d cbd 0 maxSplits [] }"

fun join_loop :: "bytes list \<Rightarrow> bytes \<Rightarrow> nat \<Rightarrow> bytes \<Rightarrow> bytes" where
  "join_loop [] delimiter i s = s"
| "join_loop (v # vec) delimiter i s =
     (let s = (if i > 0 then s @ delimiter else s) in join_loop vec delimiter (i + 1) (s @ v))"

definition string_join :: "bytes list \<Rightarrow> bytes \<Rightarrow> bytes" where
  "string_join vec delimiter = join_loop vec delimiter 0 []"

subsection \<open>Searches that modify the string\<close>

definition string_hadPrefix :: "c_heap \<Rightarrow> str \<Rightarrow> str \<Rightarrow> sheap \<Rightarrow> (bool \<times> str \<times> sheap) option" where
  "string_hadPrefix H prefix s h = do {
     m \<leftarrow> str_mem h s;
     p \<leftarrow> str_mem h prefix;
     b \<leftarrow> string_hasPrefix m (st_cb s) p (st_cb prefix);
     if b then do { (s, h) \<leftarrow> string_erase H 0 (st_cb prefix) s h; Some (True, s, h) } else Some (False, s, h) }"

definition string_hadSuffix :: "c_heap \<Rightarrow> str \<Rightarrow> str \<Rightarrow> sheap \<Rightarrow> (bool \<times> str \<times> sheap) option" where
  "string_hadSuffix H suf s h = do {
     m \<leftarrow> str_mem h s;
     x \<leftarrow> str_mem h suf;
     b \<leftarrow> string_hasSuffix m (st_cb s) x (st_cb suf);
     if b then do { (s, h) \<leftarrow> string_erase H (st_cb s - st_cb suf) (st_cb s) s h; Some (True, s, h) } else Some (False, s, h) }"

text \<open>\<^verbatim>\<open>replace\<close>: every round removes an occurrence that is not empty from the rest of the string, so the length bounds the rounds.\<close>

fun replace_loop :: "nat \<Rightarrow> c_heap \<Rightarrow> bytes \<Rightarrow> nat \<Rightarrow> bytes \<Rightarrow> nat \<Rightarrow> nat \<Rightarrow> str \<Rightarrow> sheap \<Rightarrow> (bool \<times> str \<times> sheap) option" where
  "replace_loop 0 H x cbx repl start c s h = None"
| "replace_loop (Suc n) H x cbx repl start c s h =
     (if st_cb s > start then do {
        m \<leftarrow> str_mem h s;
        r \<leftarrow> findStr (drop start m) (st_cb s - start) x cbx False;
        let start = start + r;
        if start \<ge> st_cb s then Some (c > 0, s, h)
        else do {
          (s, h) \<leftarrow> string_erase H start (start + cbx) s h;
          (s, h) \<leftarrow> string_insert H start repl s h;
          replace_loop n H x cbx repl (start + length repl) (c + 1) s h } }
      else Some (c > 0, s, h))"

definition string_replace :: "c_heap \<Rightarrow> str \<Rightarrow> str \<Rightarrow> str \<Rightarrow> sheap \<Rightarrow> (bool \<times> str \<times> sheap) option" where
  "string_replace H search replacement s h = do {
     x \<leftarrow> str_mem h search;
     repl \<leftarrow> start_chars h replacement;
     replace_loop (st_cb s + 1) H x (st_cb search) repl 0 0 s h }"

text \<open>\<^verbatim>\<open>trim\<close> assigns the substring that is kept to the object itself.\<close>

definition string_trim_object :: "bytes \<Rightarrow> str \<Rightarrow> sheap \<Rightarrow> (str \<times> sheap) option" where
  "string_trim_object chars s h = do {
     m \<leftarrow> str_mem h s;
     (f, t) \<leftarrow> string_trim chars m (st_cb s);
     if f > 0 \<or> t < st_cb s then do {
       (x, h) \<leftarrow> string_substr s f t h;
       (s, h) \<leftarrow> string_set s x h;
       h \<leftarrow> string_destroy x h;
       Some (s, h) }
     else Some (s, h) }"

definition string_plus :: "c_heap \<Rightarrow> str \<Rightarrow> str \<Rightarrow> sheap \<Rightarrow> (str \<times> sheap) option" where
  "string_plus H lhs rhs h = do {
     (r, h) \<leftarrow> string_copy lhs h;
     p \<leftarrow> start_chars h rhs;
     string_append H p r h }"

subsection \<open>The order of strings\<close>

lemma memcmp_prefix:
  "n \<le> length xs \<Longrightarrow> n \<le> length ys \<Longrightarrow> memcmp (xs @ p) 0 (ys @ q) 0 n = Some (byte_cmp (take n xs) (take n ys))"
  by (simp add: memcmp_def slice_def)

lemma string_compare_values:
  "\<exists>r. string_compare (xs @ p) (length xs) (ys @ q) (length ys) = Some r \<and> (r = 0 \<longleftrightarrow> xs = ys) \<and> (r < 0 \<longleftrightarrow> ord_class.lexordp xs ys)"
proof -
  let ?n = "min (length xs) (length ys)" and ?r = "byte_cmp (take (min (length xs) (length ys)) xs) (take (min (length xs) (length ys)) ys)"
  have "string_compare (xs @ p) (length xs) (ys @ q) (length ys) =
    Some (if ?r \<noteq> 0 then ?r else if length xs < length ys then - 1 else if length xs > length ys then 1 else 0)"
    by (simp add: string_compare_def memcmp_prefix)
  moreover have "?r = 0 \<longleftrightarrow> take ?n xs = take ?n ys" by (rule byte_cmp_eq_0) simp
  moreover have "take ?n xs = take ?n ys \<and> length xs = length ys \<longleftrightarrow> xs = ys" by auto
  ultimately show ?thesis using byte_cmp_lexordp [of xs ys] by auto
qed

lemma string_eq_values: "string_eq (xs @ p) (length xs) (ys @ q) (length ys) = Some (xs = ys)"
  using string_compare_values [of xs p ys q] by (auto simp: string_eq_def)

lemma string_less_values: "string_less (xs @ p) (length xs) (ys @ q) (length ys) = Some (ord_class.lexordp xs ys)"
  using string_compare_values [of xs p ys q] by (auto simp: string_less_def)

subsection \<open>The first occurrence\<close>

definition occurs :: "'a list \<Rightarrow> 'a list \<Rightarrow> nat \<Rightarrow> bool" where
  "occurs t s i \<longleftrightarrow> i + length t \<le> length s \<and> take (length t) (drop i s) = t"

text \<open>\<open>r\<close> is the offset of the first occurrence, or the length of the string when there is none.\<close>

definition first_match :: "'a list \<Rightarrow> 'a list \<Rightarrow> nat \<Rightarrow> bool" where
  "first_match t s r \<longleftrightarrow> occurs t s r \<and> (\<forall>j < r. \<not> occurs t s j) \<or> r = length s \<and> (\<forall>j. \<not> occurs t s j)"

lemma occurs_at_Cons: "occurs (c # t) s i \<longleftrightarrow> i < length s \<and> s ! i = c \<and> occurs t s (i + 1)"
  by (cases "i < length s") (auto simp: occurs_def Cons_nth_drop_Suc [symmetric])

lemma find_loop_first:
  assumes t: "t = c # t'" and "length t \<le> length s + 1" and "\<forall>j < o'. \<not> occurs t s j"
  shows "\<exists>r. first_match t s r \<and> find_loop (s @ post) (length s) (t @ tp) (length t) includeText (length s + 1 - length t) o' =
    Some (if occurs t s r \<and> includeText then r + length t else r)"
  using assms(3)
proof (induction "length s - o'" arbitrary: o' rule: less_induct)
  case less
  let ?to = "length s + 1 - length t" and ?buf = "s @ post"
  note step = find_loop.simps [of ?buf "length s" "t @ tp" "length t" includeText ?to o']
  show ?case
  proof (cases "o' < ?to")
    case False
    then have "\<not> occurs t s j" for j using less.prems assms(2) by (cases "j < o'") (auto simp: occurs_def)
    then have "first_match t s (length s)" by (simp add: first_match_def)
    then show ?thesis using False step by (intro exI [of _ "length s"]) (auto simp: occurs_def t)
  next
    case True
    have c: "rd (t @ tp) 0 = Some c" by (simp add: t rd_def)
    have win: "take (?to - o') (drop o' ?buf) = take (?to - o') (drop o' s)" "o' + (?to - o') \<le> length ?buf" using True t by auto
    have chr: "memchr ?buf o' c (?to - o') = Some (memchr_loop (take (?to - o') (drop o' s)) c o')"
      unfolding memchr_def win(1) using win(2) by (simp split: option.split)
    show ?thesis
    proof (cases "memchr_loop (take (?to - o') (drop o' s)) c o'")
      case None
      then have nc: "c \<notin> set (take (?to - o') (drop o' s))" by (simp add: memchr_loop_None)
      have "\<not> occurs t s j" for j
      proof
        assume o: "occurs t s j"
        have "j + length t \<le> length s" "s ! j = c"
          using o [unfolded occurs_def] o [unfolded t occurs_at_Cons] by blast+
        moreover have "o' \<le> j" using o less.prems by (meson not_less)
        ultimately have j: "o' \<le> j" "j < ?to" "s ! j = c" by simp_all
        then have "take (?to - o') (drop o' s) ! (j - o') = c" by simp
        moreover have "j - o' < length (take (?to - o') (drop o' s))" using j t by auto
        ultimately show False using nc by (metis nth_mem)
      qed
      then have "first_match t s (length s)" "\<not> occurs t s (length s)" by (simp_all add: first_match_def)
      then show ?thesis using True step c None chr by (intro exI [of _ "length s"]) simp
    next
      case (Some j)
      then obtain k where k: "k < length (take (?to - o') (drop o' s))" "j = o' + k" "take (?to - o') (drop o' s) ! k = c"
        "c \<notin> set (take k (take (?to - o') (drop o' s)))" unfolding memchr_loop_Some by blast
      have j: "j < length s" "s ! j = c" "o' \<le> j" "j < ?to" using k by auto
      have before: "\<not> occurs t s i" if "i < j" for i
      proof
        assume o: "occurs t s i"
        then have i: "o' \<le> i" "s ! i = c" using less.prems by (auto simp: t occurs_at_Cons not_less [symmetric])
        then have "i - o' < length (take k (take (?to - o') (drop o' s)))" "take k (take (?to - o') (drop o' s)) ! (i - o') = c"
          using that j k(1,2) by auto
        then show False using k(4) by (metis nth_mem)
      qed
      have len: "Suc j + length t' \<le> length s" using j(4) t by simp
      then have cmp: "memcmp ?buf (j + 1) (t @ tp) 1 (length t - 1) = Some (byte_cmp (take (length t') (drop (Suc j) s)) t')"
        by (simp add: memcmp_def slice_def t)
      have eq: "byte_cmp (take (length t') (drop (Suc j) s)) t' = 0 \<longleftrightarrow> occurs t s j"
      proof -
        have "occurs t s j \<longleftrightarrow> occurs t' s (j + 1)" using j(1,2) by (simp add: t occurs_at_Cons)
        then show ?thesis using len byte_cmp_eq_0 [of "take (length t') (drop (Suc j) s)" t'] by (simp add: occurs_def)
      qed
      show ?thesis
      proof (cases "occurs t s j")
        case True
        then have "first_match t s j" using before by (simp add: first_match_def)
        then show ?thesis using True \<open>o' < ?to\<close> step c Some chr cmp eq j(3) t by (intro exI [of _ j]) simp
      next
        case False
        then have "\<forall>i < j + 1. \<not> occurs t s i" using before by (auto simp: less_Suc_eq)
        then obtain r where "first_match t s r" "find_loop ?buf (length s) (t @ tp) (length t) includeText ?to (j + 1) =
          Some (if occurs t s r \<and> includeText then r + length t else r)" using less.hyps [of "j + 1"] j by (auto simp: diff_less_mono2)
        then show ?thesis using False \<open>o' < ?to\<close> step c Some chr cmp eq j(3) t by (intro exI [of _ r]) simp
      qed
    qed
  qed
qed

lemma findStr_first:
  assumes "t \<noteq> []" and "length t \<le> length s + 1" and "length s + 1 < 2 ^ 32"
  shows "\<exists>r. first_match t s r \<and>
    findStr (s @ post) (length s) (t @ tp) (length t) includeText = Some (if occurs t s r \<and> includeText then r + length t else r)"
proof -
  obtain c t' where t: "t = c # t'" using assms(1) by (cases t) auto
  have "int (length s) - int (length t) + 1 = int (length s + 1 - length t)" using assms(2) by simp
  moreover have "length s + 1 - length t < 2 ^ 32" using assms(3) by simp
  ultimately have "nat ((int (length s) - int (length t) + 1) mod 2 ^ 32) = length s + 1 - length t" by simp
  then show ?thesis using find_loop_first [OF t assms(2), of 0 post tp includeText] by (simp add: findStr_def)
qed

text \<open>
  C33. Searching. For a text that is not longer than the string by more than one byte, \<^verbatim>\<open>findStr\<close> reads only the string, returns, and
  gives the offset of the first occurrence, or behind it when asked to; without an occurrence it gives the length of the string.
\<close>

theorem findStr_correct:
  assumes "t \<noteq> []" and "length t \<le> length s + 1" and "length s + 1 < 2 ^ 32"
  shows "\<exists>r. (occurs t s r \<and> (\<forall>j < r. \<not> occurs t s j) \<or> r = length s \<and> (\<forall>j. \<not> occurs t s j)) \<and>
    findStr (s @ post) (length s) (t @ tp) (length t) includeText = Some (if occurs t s r \<and> includeText then r + length t else r)"
  using findStr_first [OF assms] unfolding first_match_def .

theorem findStr_correct_witness: "findStr [0x61, 0x62, 0x62, 0x61, 0] 4 [0x62, 0x61, 0] 2 True = Some 4"
proof -
  let ?t = "[0x62, 0x61] :: bytes" and ?s = "[0x61, 0x62, 0x62, 0x61] :: bytes"
  have o: "\<not> occurs ?t ?s 0" "\<not> occurs ?t ?s 1" "occurs ?t ?s 2" by (simp_all add: occurs_def)
  obtain r where r: "occurs ?t ?s r \<and> (\<forall>j < r. \<not> occurs ?t ?s j) \<or> r = length ?s \<and> (\<forall>j. \<not> occurs ?t ?s j)"
    "findStr (?s @ [0]) (length ?s) (?t @ [0]) (length ?t) True = Some (if occurs ?t ?s r \<and> True then r + length ?t else r)"
  proof -
    have "?t \<noteq> []" "length ?t \<le> length ?s + 1" "length ?s + 1 < 2 ^ 32" by simp_all
    then show thesis using findStr_correct [of ?t ?s "[0]" "[0]" True] that by blast
  qed
  then have "\<not> 2 < r" "occurs ?t ?s r" using o by blast+
  then have "r = 2" using o by (metis One_nat_def less_2_cases linorder_neqE_nat)
  then show ?thesis using r(2) o(3) by (simp add: eval_nat_numeral)
qed

text \<open>
  C34. Searching for a longer text. \<^verbatim>\<open>(buflen - textLen) + 1\<close> is an unsigned number and wraps to a huge one, which \<^verbatim>\<open>MAX(0, \<dots>)\<close> does not catch.
  In a string that ends with its buffer, searching for any text that is longer by two bytes or more always reads behind the buffer.
\<close>

theorem findStr_overrun:
  assumes "buflen + 1 < textLen" and "textLen < 2 ^ 31" and "textLen \<le> length x" and "length buf \<le> buflen + 1"
  shows "findStr buf buflen x textLen includeText = None"
proof -
  define to where "to = nat ((int buflen - int textLen + 1) mod 2 ^ 32)"
  have "(int buflen - int textLen + 1) mod 2 ^ 32 = int buflen - int textLen + 1 + 2 ^ 32"
    using assms(1,2) by (intro int_mod_pos_eq [where q = "- 1"]) auto
  then have to: "length buf < to" using assms(1,2,4) by (simp add: to_def nat_less_iff zless_nat_eq_int_zless)
  have find: "findStr buf buflen x textLen includeText = find_loop buf buflen x textLen includeText to 0" by (simp add: findStr_def to_def)
  have "x \<noteq> []" using assms(1,3) by auto
  then obtain c where c: "rd x 0 = Some c" by (simp add: rd_def)
  show ?thesis
  proof (cases "memchr_loop (take to buf) c 0")
    case None
    then have "memchr buf 0 c to = None" using to by (simp add: memchr_def)
    then show ?thesis unfolding find using to c by (subst find_loop.simps) simp
  next
    case (Some j)
    then have "memchr buf 0 c to = Some (Some j)" by (simp add: memchr_def)
    moreover have "memcmp buf (j + 1) x 1 (textLen - 1) = None" using assms(1,4) by (simp add: memcmp_def slice_def)
    ultimately show ?thesis unfolding find using to c by (subst find_loop.simps) simp
  qed
qed

theorem findStr_overrun_witness: "findStr [0x61, 0] 1 [0x61, 0x62, 0x63, 0] 3 False = None"
  using findStr_overrun [of 1 3 "[0x61, 0x62, 0x63, 0]" "[0x61, 0]" False] by simp

subsection \<open>Splitting and joining\<close>

lemma join_loop_pos: "join_loop vec d (Suc i) s = s @ concat (map ((@) d) vec)"
  by (induction vec arbitrary: i s) simp_all

lemma string_join_Cons: "string_join (v # vec) d = v @ concat (map ((@) d) vec)"
  using join_loop_pos [of vec d 0 v] by (simp add: string_join_def)

lemma string_join_simps: "string_join [] d = []" "string_join [v] d = v" "vec \<noteq> [] \<Longrightarrow> string_join (v # vec) d = v @ d @ string_join vec d"
proof -
  show "string_join [] d = []" by (simp add: string_join_def)
  show "string_join [v] d = v" by (simp add: string_join_Cons)
  show "string_join (v # vec) d = v @ d @ string_join vec d" if "vec \<noteq> []" using that by (cases vec) (simp_all add: string_join_Cons)
qed

lemma occurs_take: "occurs t (take r s) i \<Longrightarrow> t \<noteq> [] \<Longrightarrow> occurs t s i \<and> i < r"
  by (auto simp: occurs_def drop_take min_def simp flip: length_greater_0_conv split: if_splits)

lemma split_loop_pieces:
  assumes d: "d \<noteq> []" and tails: "\<forall>i. occurs d s i \<longrightarrow> length s = i + length d \<or> i + 2 * length d \<le> length s + 1"
    and "length s + length d < 2 ^ 32" and "o' < length s" and "length d \<le> length s - o' + 1"
  shows "\<exists>ps. split_loop (s @ post) (length s) (d @ dp) (length d) o' 0 acc = Some (acc @ ps) \<and> ps \<noteq> [] \<and>
    (string_join ps d = drop o' s \<or> string_join ps d @ d = drop o' s) \<and> (\<forall>p\<in>set ps. \<forall>i. \<not> occurs d p i)"
  using assms(4,5)
proof (induction "length s - o'" arbitrary: o' acc rule: less_induct)
  case less
  let ?rest = "drop o' s"
  note step = split_loop.simps [of "s @ post" "length s" "d @ dp" "length d" o' 0 acc]
  have mem: "drop o' (s @ post) = ?rest @ post" "length s - o' = length ?rest" using less.prems by simp_all
  obtain r where r: "first_match d ?rest r" "findStr (?rest @ post) (length ?rest) (d @ dp) (length d) False = Some r"
  proof -
    have "length d \<le> length ?rest + 1" using less.prems by simp
    moreover have "length ?rest + 1 < 2 ^ 32" using assms(3) d by (cases d) simp_all
    ultimately show thesis using findStr_first [of d ?rest post dp False] d that by auto
  qed
  define p where "p = take r ?rest"
  have free: "\<forall>i. \<not> occurs d p i"
  proof (intro allI notI)
    fix i assume "occurs d p i"
    then have "occurs d ?rest i" "i < r" using occurs_take d unfolding p_def by blast+
    then show False using r(1) by (auto simp: first_match_def)
  qed
  have wrap: "\<not> 2 ^ 32 \<le> o' + r + length d"
    using r(1) less.prems(1) assms(3) by (auto simp: first_match_def occurs_def)
  have go: "split_loop (s @ post) (length s) (d @ dp) (length d) o' 0 acc =
    split_loop (s @ post) (length s) (d @ dp) (length d) (o' + r + length d) 0 (acc @ [p])"
    using less.prems step r(2) d wrap unfolding mem by (simp add: p_def drop_take)
  show ?case
  proof (cases "occurs d ?rest r")
    case False
    then have "r = length ?rest" using r(1) by (auto simp: first_match_def)
    then have "p = ?rest" "\<not> o' + r + length d < length s" using less.prems by (simp_all add: p_def)
    then show ?thesis using go free by (intro exI [of _ "[p]"]) (simp add: split_loop.simps string_join_simps)
  next
    case True
    then have "take (length d) (drop r ?rest) = d" by (simp add: occurs_def)
    then have rest: "?rest = p @ d @ drop (o' + r + length d) s"
      unfolding p_def by (metis append_take_drop_id drop_drop add.commute add.left_commute)
    show ?thesis
    proof (cases "o' + r + length d < length s")
      case False
      then show ?thesis using go free rest by (intro exI [of _ "[p]"]) (simp add: split_loop.simps string_join_simps)
    next
      case more: True
      have "occurs d s (o' + r)" using True less.prems(1) by (auto simp: occurs_def add.commute)
      then have "length d \<le> length s - (o' + r + length d) + 1" using tails more by force
      note IH = less.hyps [OF _ more this]
      obtain ps where ps: "split_loop (s @ post) (length s) (d @ dp) (length d) (o' + r + length d) 0 (acc @ [p]) = Some ((acc @ [p]) @ ps)"
        "ps \<noteq> []" "string_join ps d = drop (o' + r + length d) s \<or> string_join ps d @ d = drop (o' + r + length d) s"
        "\<forall>p\<in>set ps. \<forall>i. \<not> occurs d p i"
        using IH [of "acc @ [p]"] d less.prems(1) by (auto simp: diff_less_mono2)
      then show ?thesis using go free rest string_join_simps(3) [OF ps(2), of p d] by (intro exI [of _ "p # ps"]) auto
    qed
  qed
qed


lemma short_delimiter_tails:
  "length d \<le> 2 \<Longrightarrow> s \<noteq> [] \<Longrightarrow> length d \<le> length s + 1"
  "length d \<le> 2 \<Longrightarrow> occurs d s i \<Longrightarrow> length s = i + length d \<or> i + 2 * length d \<le> length s + 1"
proof -
  show "length d \<le> length s + 1" if "length d \<le> 2" "s \<noteq> []" using that by (cases s) auto
  show "length s = i + length d \<or> i + 2 * length d \<le> length s + 1" if "length d \<le> 2" "occurs d s i"
    using that by (auto simp: occurs_def)
qed


subsection \<open>Trimming\<close>

lemma trim_lead_spec:
  assumes "i \<le> length s"
  shows "\<exists>n. trim_lead chars (s @ post) (length s) i c = Some (if i + n < length s then i + n + 1 else length s, c + n) \<and>
    n = length (takeWhile (strchr chars) (drop i s)) \<and> i + n \<le> length s"
  using assms
proof (induction "length s - i" arbitrary: i c rule: less_induct)
  case less
  show ?case
  proof (cases "i < length s")
    case True
    then have d: "drop i s = s ! i # drop (Suc i) s" by (simp add: Cons_nth_drop_Suc)
    have rd: "rd (s @ post) i = Some (s ! i)" using True by (simp add: rd_def nth_append)
    show ?thesis
    proof (cases "strchr chars (s ! i)")
      case False
      then show ?thesis using True rd d by (subst trim_lead.simps) simp
    next
      case m: True
      obtain n where n: "trim_lead chars (s @ post) (length s) (Suc i) (c + 1) =
          Some (if Suc i + n < length s then Suc i + n + 1 else length s, c + 1 + n)"
        "n = length (takeWhile (strchr chars) (drop (Suc i) s))" "Suc i + n \<le> length s" using less.hyps [of "Suc i" "c + 1"] True by auto
      then show ?thesis using True rd d m by (subst trim_lead.simps) (auto intro!: exI [of _ "Suc n"])
    qed
  qed (use less.prems in \<open>simp add: trim_lead.simps\<close>)
qed

lemma trim_trail_spec:
  assumes "k \<le> length s"
  shows "trim_trail chars (s @ post) i k c = Some (c + length (takeWhile (strchr chars) (rev (drop i (take k s)))))"
  using assms
proof (induction k arbitrary: c)
  case (Suc k)
  show ?case
  proof (cases "i < Suc k")
    case True
    have "rev (drop i (take (Suc k) s)) = s ! k # rev (drop i (take k s))" using Suc.prems True by (simp add: take_Suc_conv_app_nth)
    moreover have "rd (s @ post) k = Some (s ! k)" using Suc.prems by (simp add: rd_def nth_append)
    ultimately show ?thesis using True Suc.IH [of "c + 1"] Suc.prems by (subst trim_trail.simps) auto
  qed (simp add: trim_trail.simps)
qed (simp add: trim_trail.simps)

lemma string_trim_spec:
  "\<exists>f t. string_trim chars (s @ post) (length s) = Some (f, t) \<and> f \<le> t \<and> t \<le> length s \<and>
     take (t - f) (drop f s) = rev (dropWhile (strchr chars) (rev (dropWhile (strchr chars) s)))"
proof -
  let ?P = "strchr chars"
  define n where "n = length (takeWhile ?P s)"
  obtain i where lead: "trim_lead chars (s @ post) (length s) 0 0 = Some (i, n)" "i = (if n < length s then n + 1 else length s)" "n \<le> length s"
    using trim_lead_spec [of 0 s chars post 0] by (auto simp: n_def)
  define t where "t = length (takeWhile ?P (rev (drop i s)))"
  have trail: "trim_trail chars (s @ post) i (length s) 0 = Some t" using trim_trail_spec [of "length s" s chars post i 0] by (simp add: t_def)
  have dw: "dropWhile ?P s = drop n s" by (simp add: n_def dropWhile_eq_drop)
  have tl: "length (takeWhile ?P (rev (drop n s))) = t"
  proof (cases "n < length s")
    case True
    then have "drop n s = s ! n # drop i s" using lead(2) by (simp add: Cons_nth_drop_Suc)
    moreover have "\<not> ?P (s ! n)" using True nth_length_takeWhile [of ?P s] by (simp add: n_def)
    ultimately show ?thesis by (simp add: t_def takeWhile_tail)
  qed (use lead in \<open>simp add: t_def\<close>)
  have "t \<le> length s - n" using tl length_takeWhile_le [of ?P "rev (drop n s)"] by simp
  moreover have "rev (dropWhile ?P (rev (drop n s))) = take (length s - n - t) (drop n s)"
  proof -
    have "rev (drop t (rev ys)) = take (length ys - t) ys" for ys :: bytes by (simp add: rev_drop)
    then show ?thesis by (simp only: dropWhile_eq_drop tl length_drop)
  qed
  ultimately show ?thesis using lead(1,3) trail dw
    by (auto simp: string_trim_def add.commute intro!: exI [of _ n] exI [of _ "length s - t"])
qed

subsection \<open>Prefixes\<close>

lemma string_hasPrefix_values: "string_hasPrefix (xs @ p) (length xs) (ys @ q) (length ys) = Some (take (length ys) xs = ys)"
proof (cases "length ys \<le> length xs")
  case True
  then show ?thesis using byte_cmp_eq_0 [of "take (length ys) xs" ys] by (auto simp: string_hasPrefix_def memcmp_def slice_def)
next
  case False
  then have "take (length ys) xs \<noteq> ys" by (metis length_take min.bounded_iff order_refl)
  then show ?thesis using False by (simp add: string_hasPrefix_def)
qed

text \<open>\<^verbatim>\<open>hadPrefix\<close> removes the prefix and says whether it was there.\<close>

lemma string_hadPrefix_yields:
  assumes "heap_ok h (\<lambda>a. c a + owns s a)" and "str_ok h s" and "\<And>a. c a < 999" and "c_heap_ok limit H" and "limit < 2 ^ 31"
    and "has_room limit h s 0" and "start_chars h s = Some xs" and "\<And>a. st_buf s = Ptr a \<Longrightarrow> c a = 0 \<Longrightarrow> st_offset s = 0"
    and "start_chars h prefix = Some ys"
  shows "\<exists>r. string_hadPrefix H prefix s h = map_option (\<lambda>(s, h). (take (length ys) xs = ys, s, h)) r \<and>
    str_yields h c r (if take (length ys) xs = ys then drop (length ys) xs else xs)"
proof -
  obtain p q where m: "str_mem h s = Some (xs @ p)" "length xs = st_cb s" "str_mem h prefix = Some (ys @ q)" "length ys = st_cb prefix"
    using str_mem_text [OF assms(7)] str_mem_text [OF assms(9)] by auto
  have has: "string_hasPrefix (xs @ p) (st_cb s) (ys @ q) (st_cb prefix) = Some (take (length ys) xs = ys)"
    using string_hasPrefix_values [of xs p ys q] m by simp
  show ?thesis
  proof (cases "take (length ys) xs = ys")
    case True
    have "str_yields h c (string_erase H 0 (st_cb prefix) s h) (drop (length ys) xs)"
      using string_erase_yields [OF assms(1-8), where i = 0 and j = "st_cb prefix"] m(4) by simp
    moreover from this obtain s' h' where "string_erase H 0 (st_cb prefix) s h = Some (s', h')" by (auto simp: str_yields_def)
    ultimately show ?thesis using True m has by (intro exI [of _ "Some (s', h')"]) (simp add: string_hadPrefix_def)
  next
    case False
    then show ?thesis using m has assms(1,2,7) by (intro exI [of _ "Some (s, h)"]) (simp add: string_hadPrefix_def str_yields_def)
  qed
qed

text \<open>\<^verbatim>\<open>operator+\<close> is a new object with the characters of both.\<close>

lemma string_plus_yields:
  assumes "heap_ok h c" and "str_ok h s" and "\<And>a. c a < 999" and "c_heap_ok limit H" and "limit < 2 ^ 31"
    and "has_room limit h s (length ys)" and "start_chars h s = Some xs" and "str_ok h t" and "start_chars h t = Some ys"
  shows "str_yields h c (string_plus H s t h) (xs @ ys)"
proof -
  have "\<And>a. c a < 1000" using assms(3) less_trans by fastforce
  then have y: "str_yields h c (string_copy s h) xs" using string_copy_yields [OF assms(1,2) _ assms(7)] by blast
  obtain h1 where h1: "string_copy s h = Some (s, h1)" using y by (auto simp: string_copy_def str_yields_def split: bind_splits)
  with y have ok: "heap_ok h1 (\<lambda>a. c a + owns s a)" "str_ok h1 s" "start_chars h1 s = Some xs" "\<forall>a. 0 < c a \<longrightarrow> same_buf h h1 a"
    by (auto simp: str_yields_def)
  have refs: "0 < c a" if "st_buf x = Ptr a" "str_ok h x" for x a
    using that heap_ok_Some [OF assms(1)] by (auto simp: str_ok_def split: option.splits)
  have ys: "start_chars h1 t = Some ys" using str_ok_same [OF assms(8), of h1] ok(4) refs assms(8,9) by auto
  have "has_room limit h1 s (length ys)"
  proof (cases "st_buf s")
    case (Ptr a)
    then obtain b where b: "sh_bufs h a = Some b" using assms(2) by (auto simp: str_ok_def split: option.splits)
    have "same_buf h h1 a" using ok(4) refs [OF Ptr assms(2)] by blast
    then show ?thesis using same_bufD [OF _ b] assms(6) Ptr b by (fastforce simp: has_room_def)
  qed (use assms(6) in \<open>simp_all add: has_room_def\<close>)
  moreover have "length xs = st_cb s" using str_ok_chars [OF ok(2,1)] ok(3) by auto
  ultimately have "str_yields h1 c (string_append H ys s h1) (xs @ ys)"
    using string_insert_yields [OF ok(1,2) assms(3-5) _ ok(3), of ys "st_cb s"] by (simp add: string_append_def)
  then have "str_yields h c (string_append H ys s h1) (xs @ ys)" using ok(4) unfolding str_yields_def by (blast intro: same_buf_trans)
  then show ?thesis using h1 ys by (simp add: string_plus_def)
qed

subsection \<open>Identifiers\<close>

text \<open>\<^verbatim>\<open>readIdentifier\<close> takes the longest run of identifier characters of a text without a zero character.\<close>

lemma read_identifier_loop_text:
  assumes "code_points cs" and "0 \<notin> set cs" and "length cs < n" and "cb = length pre + length (utf8_text cs)"
  shows "read_identifier_loop n (pre @ utf8_text cs @ post) cb (length pre) =
    Some (length pre + length (utf8_text (takeWhile (\<lambda>c. isIdentifierChar (ucast c)) cs)))"
  using assms
proof (induction cs arbitrary: pre n)
  case (Cons c cs)
  then obtain k where n: "n = Suc k" by (cases n) auto
  have c: "c \<le> 0x10FFFF" "c \<noteq> 0" using Cons.prems by auto
  have read: "string_readChar (pre @ utf8_text (c # cs) @ post) cb (length pre) = Some (c, length pre + length (unicode_to_utf8 c))" "length pre < cb"
    using readUtf8_encoded [OF c(1), of pre "utf8_text cs @ post"] c(2) Cons.prems(4) encoded_nonempty [OF c(1)] by (simp_all add: string_readChar_def)
  show ?case
  proof (cases "isIdentifierChar (ucast c)")
    case True
    then show ?thesis using Cons.IH [of k "pre @ unicode_to_utf8 c"] Cons.prems n read by (simp add: add.assoc)
  next
    case False
    then show ?thesis using n read step_back_encoded [OF c(1), of pre "utf8_text cs @ post"] encoded_nonempty [OF c(1)] by (simp add: string_rewind_def)
  qed
qed (auto simp: gr0_conv_Suc)

lemma readIdentifier_text:
  assumes "code_points cs" and "0 \<notin> set cs"
  shows "\<exists>p. readIdentifier (utf8_text cs @ post) (length (utf8_text cs)) 0 = Some (0, p, p) \<and>
    take p (utf8_text cs) = utf8_text (takeWhile (\<lambda>c. isIdentifierChar (ucast c)) cs)"
proof -
  have len: "length cs \<le> length (utf8_text cs)" using assms(1) by (rule length_utf8_text)
  let ?w = "takeWhile (\<lambda>c. isIdentifierChar (ucast c)) cs"
  have "utf8_text cs = utf8_text ?w @ utf8_text (dropWhile (\<lambda>c. isIdentifierChar (ucast c)) cs)" by (simp flip: utf8_text_simps(3))
  then have "take (length (utf8_text ?w)) (utf8_text cs) = utf8_text ?w" by simp
  then show ?thesis using read_identifier_loop_text [OF assms, of "length (utf8_text cs) + 1" _ "[]" post] len by (simp add: readIdentifier_def)
qed

lemma char_in_loop_text:
  assumes "code_points ds" and "0 \<notin> set ds" and "length ds < n" and "cbx = length pre + length (utf8_text ds)"
  shows "char_in_loop n (pre @ utf8_text ds @ post) cbx (length pre) ch = Some (ch \<in> set ds)"
  using assms
proof (induction ds arbitrary: pre n)
  case (Cons c ds)
  then obtain k where n: "n = Suc k" by (cases n) auto
  have c: "c \<le> 0x10FFFF" "c \<noteq> 0" using Cons.prems by auto
  from Cons.IH [of k "pre @ unicode_to_utf8 c"] Cons.prems n readUtf8_encoded [OF c(1), of pre "utf8_text ds @ post"]
    encoded_nonempty [OF c(1)] c(2)
  show ?case by (auto simp: string_readChar_def add.assoc)
qed (auto simp: gr0_conv_Suc)

text \<open>\<^verbatim>\<open>readUpToOneOf\<close> stops at the first character of the text that is one of the given ones.\<close>

lemma readUpToOneOf_loop_text:
  assumes ds: "code_points ds" "0 \<notin> set ds" and "code_points cs" and "0 \<notin> set cs" and "length cs < n"
    and "cb = length pre + length (utf8_text cs)"
  shows "read_up_to_one_of_loop n (pre @ utf8_text cs @ post) cb (length pre) (utf8_text ds @ dp) (length (utf8_text ds)) =
    Some (length pre + length (utf8_text (takeWhile (\<lambda>c. c \<notin> set ds) cs)))"
  using assms(3-)
proof (induction cs arbitrary: pre n)
  case (Cons c cs)
  then obtain k where n: "n = Suc k" by (cases n) auto
  have c: "c \<le> 0x10FFFF" "c \<noteq> 0" using Cons.prems by auto
  have read: "string_readChar (pre @ utf8_text (c # cs) @ post) cb (length pre) = Some (c, length pre + length (unicode_to_utf8 c))" "length pre < cb"
    using readUtf8_encoded [OF c(1), of pre "utf8_text cs @ post"] c(2) Cons.prems(4) encoded_nonempty [OF c(1)] by (simp_all add: string_readChar_def)
  have found: "char_in_loop (length (utf8_text ds) + 1) (utf8_text ds @ dp) (length (utf8_text ds)) 0 c = Some (c \<in> set ds)"
    using char_in_loop_text [OF ds, of "length (utf8_text ds) + 1" _ "[]" dp c] length_utf8_text [OF ds(1)] by simp
  show ?case
  proof (cases "c \<in> set ds")
    case True
    then show ?thesis using n read found by simp
  next
    case False
    then show ?thesis using Cons.IH [of k "pre @ unicode_to_utf8 c"] Cons.prems n read found by (simp add: add.assoc)
  qed
qed (auto simp: gr0_conv_Suc)

end
