(* ===== verification/StrCodec.thy ===== *)
theory StrCodec
  imports StrSearch
begin

unbundle bit_operations_syntax

section \<open>Hexadecimal and URL encoding (\<^verbatim>\<open>base/string.cpp\<close>)\<close>

text \<open>
  \<^verbatim>\<open>hex\<close>, \<^verbatim>\<open>unhex\<close>, \<^verbatim>\<open>urlEncode\<close> and \<^verbatim>\<open>urlDecode\<close>. Buffers that are allocated and then filled are lists of the allocated size, so a
  write behind their end is \<open>None\<close>.
\<close>

subsection \<open>Hexadecimal\<close>

definition hex_digit :: "u8 \<Rightarrow> u8" where
  "hex_digit nib = (if nib \<ge> 10 then (nib - 10) + 0x41 else nib + 0x30)"

fun hex_loop :: "bytes \<Rightarrow> bytes \<Rightarrow> nat \<Rightarrow> bytes option" where
  "hex_loop buf [] out = wr buf out 0"
| "hex_loop buf (byte # bytes) out = do {
     buf \<leftarrow> wr buf out (hex_digit (drop_bit 4 byte));
     buf \<leftarrow> wr buf (out + 1) (hex_digit (byte AND 15));
     hex_loop buf bytes (out + 2) }"

definition string_hex :: "c_heap \<Rightarrow> bytes \<Rightarrow> sheap \<Rightarrow> (str \<times> sheap) option" where
  "string_hex H p h = do {
     (a, h) \<leftarrow> buf_new H (length p * 2) h;
     b \<leftarrow> sh_bufs h a;
     data \<leftarrow> hex_loop (sb_data b) p 0;
     Some (\<lparr>st_buf = Ptr a, st_cb = length p * 2, st_offset = 0, st_type = kTypeStandard\<rparr>,
           h\<lparr>sh_bufs := (sh_bufs h)(a \<mapsto> b\<lparr>sb_data := data\<rparr>)\<rparr>) }"

definition hex_value :: "u8 \<Rightarrow> u8" where
  "hex_value ch =
     (if 0x41 \<le> ch \<and> ch \<le> 0x46 then 10 + ch - 0x41
      else if 0x61 \<le> ch \<and> ch \<le> 0x66 then 10 + ch - 0x61
      else if 0x30 \<le> ch \<and> ch \<le> 0x39 then ch - 0x30 else 0)"

function unhex_loop :: "bytes \<Rightarrow> nat \<Rightarrow> nat \<Rightarrow> bytes option" where
  "unhex_loop m cb i =
     (if i < cb then do {
        hi \<leftarrow> rd m i;
        lo \<leftarrow> rd m (i + 1);
        rest \<leftarrow> unhex_loop m cb (i + 2);
        Some ((push_bit 4 (hex_value hi) OR hex_value lo) # rest) }
      else Some [])"
  by pat_completeness auto
termination by (relation "measure (\<lambda>(m, cb, i). cb - i)") auto

declare unhex_loop.simps [simp del]

text \<open>The array that \<^verbatim>\<open>unhex\<close> fills has room for one byte per pair, a last odd digit included.\<close>

definition string_unhex :: "c_heap \<Rightarrow> bytes \<Rightarrow> nat \<Rightarrow> bytearray option" where
  "string_unhex H m cb = do {
     ba \<leftarrow> bytearray_sized H (int ((cb + 1) div 2));
     bs \<leftarrow> unhex_loop m cb 0;
     blk \<leftarrow> ba_p ba;
     blk \<leftarrow> blit blk 0 bs;
     Some (ba\<lparr>ba_p := Some blk\<rparr>) }"

subsection \<open>URL encoding\<close>

definition url_ok :: "u8 \<Rightarrow> bool" where
  "url_ok c \<longleftrightarrow> 0x41 \<le> c \<and> c \<le> 0x5a \<or> 0x61 \<le> c \<and> c \<le> 0x7a \<or> 0x30 \<le> c \<and> c \<le> 0x39 \<or> c = 0x2d \<or> c = 0x2e \<or> c = 0x5f \<or> c = 0x7e"

text \<open>
  What \<^verbatim>\<open>sprintf(out, "%%%02X", c)\<close> writes. The \<^verbatim>\<open>char\<close> is promoted to \<^verbatim>\<open>int\<close>; \<open>sc\<close> tells whether plain \<^verbatim>\<open>char\<close> is signed on the
  platform, and then a byte of 128 or more is a negative number of eight digits.
\<close>

definition percent_hex :: "bool \<Rightarrow> u8 \<Rightarrow> bytes" where
  "percent_hex sc c =
     0x25 # (if sc \<and> 0x80 \<le> c then replicate 6 0x46 else []) @ [hex_digit (drop_bit 4 c), hex_digit (c AND 15)] @ [0]"

fun url_encode_loop :: "bool \<Rightarrow> bytes \<Rightarrow> bytes \<Rightarrow> nat \<Rightarrow> (bytes \<times> nat) option" where
  "url_encode_loop sc buf [] out = Some (buf, out)"
| "url_encode_loop sc buf (c # cs) out =
     (if url_ok c then do { buf \<leftarrow> wr buf out c; url_encode_loop sc buf cs (out + 1) }
      else if c = 0x20 then do { buf \<leftarrow> wr buf out 0x2b; url_encode_loop sc buf cs (out + 1) }
      else do { buf \<leftarrow> blit buf out (percent_hex sc c); url_encode_loop sc buf cs (out + 3) })"

text \<open>
  \<^verbatim>\<open>_cb\<close> is a \<^verbatim>\<open>uint32_t\<close>, so the sizes given to \<^verbatim>\<open>malloc\<close> are reduced modulo \<open>2^32\<close>. The loops count in an \<^verbatim>\<open>int\<close>, which a string of
  \<open>2^31\<close> bytes overflows, and the length of the result is converted to \<^verbatim>\<open>int32_t\<close>; beyond these limits the model has \<open>None\<close>.
\<close>

definition urlEncode :: "c_heap \<Rightarrow> bool \<Rightarrow> bytes \<Rightarrow> nat \<Rightarrow> bytes option" where
  "urlEncode H sc m cb = do {
     buf \<leftarrow> ch_malloc H ((cb * 3 + 1) mod 2 ^ 32);
     cs \<leftarrow> (if cb < 2 ^ 31 then slice m 0 cb else None);
     (buf, out) \<leftarrow> url_encode_loop sc buf cs 0;
     buf \<leftarrow> wr buf out 0;
     if out < 2 ^ 31 then slice buf 0 out else None }"

text \<open>\<^verbatim>\<open>urlDecode\<close>. The two digits are read and not skipped.\<close>

function url_decode_loop :: "c_heap \<Rightarrow> bytes \<Rightarrow> nat \<Rightarrow> nat \<Rightarrow> bytes \<Rightarrow> nat \<Rightarrow> (bytes \<times> nat) option" where
  "url_decode_loop H m cb i buf out =
     (if i < cb then do {
        c \<leftarrow> rd m i;
        v \<leftarrow> (if c = 0x2b then Some 0x2d
              else if c = 0x25 then do {
                asciiCode \<leftarrow> slice m (i + 1) 2;
                asciiVal \<leftarrow> string_unhex H (asciiCode @ [0]) 2;
                blk \<leftarrow> ba_p asciiVal;
                rd blk 0 }
              else Some c);
        buf \<leftarrow> wr buf out v;
        url_decode_loop H m cb (i + 1) buf (out + 1) }
      else Some (buf, out))"
  by pat_completeness auto
termination by (relation "measure (\<lambda>(H, m, cb, i, buf, out). cb - i)") auto

declare url_decode_loop.simps [simp del]

definition urlDecode :: "c_heap \<Rightarrow> bytes \<Rightarrow> nat \<Rightarrow> bytes option" where
  "urlDecode H m cb = do {
     buf \<leftarrow> ch_malloc H ((cb + 1) mod 2 ^ 32);
     (buf, out) \<leftarrow> (if cb < 2 ^ 31 then url_decode_loop H m cb 0 buf 0 else None);
     buf \<leftarrow> wr buf out 0;
     slice buf 0 out }"

subsection \<open>Digits\<close>

definition hex_text :: "bytes \<Rightarrow> bytes" where
  "hex_text bs = concat (map (\<lambda>b. [hex_digit (drop_bit 4 b), hex_digit (b AND 15)]) bs)"

lemma hex_text_simps [simp]: "hex_text [] = []" "hex_text (b # bs) = hex_digit (drop_bit 4 b) # hex_digit (b AND 15) # hex_text bs"
  by (simp_all add: hex_text_def)

lemma length_hex_text [simp]: "length (hex_text bs) = 2 * length bs"
  by (induction bs) simp_all

lemma hex_nibble_less: "unat (drop_bit 4 (b :: u8)) < 16" "unat ((b :: u8) AND 15) < 16"
  using unat_byte_less [of b] by (simp_all add: unat_drop_bit_div less_mult_imp_div_less mask_literals unat_and_mask)

lemma hex_digit_cases:
  assumes "unat d < 16"
  obtains "unat (hex_digit d) = unat d + 48" "unat d < 10" | "unat (hex_digit d) = unat d + 55" "10 \<le> unat d"
proof (cases "unat d < 10")
  case True
  then have "unat (hex_digit d) = unat d + 48" by (simp add: hex_digit_def word_le_nat_alt unat_word_ariths)
  then show thesis using True that(1) by blast
next
  case False
  then have "10 \<le> d" by (simp add: word_le_nat_alt)
  then have "hex_digit d = d + 0x37" by (simp add: hex_digit_def)
  then have "unat (hex_digit d) = unat d + 55" using assms by (simp add: unat_word_ariths)
  then show thesis using False that(2) by simp
qed

lemma hex_value_digit:
  assumes "unat d < 16"
  shows "hex_value (hex_digit d) = d"
proof (rule hex_digit_cases [OF assms])
  assume d: "unat (hex_digit d) = unat d + 48" "unat d < 10"
  then have "hex_value (hex_digit d) = hex_digit d - 0x30" by (simp add: hex_value_def word_le_nat_alt)
  moreover have "hex_digit d = d + 0x30" using d(2) by (simp add: hex_digit_def word_le_nat_alt)
  ultimately show ?thesis by simp
next
  assume d: "unat (hex_digit d) = unat d + 55" "10 \<le> unat d"
  then have "hex_value (hex_digit d) = 10 + hex_digit d - 0x41" using assms by (simp add: hex_value_def word_le_nat_alt)
  moreover have "hex_digit d = d + 0x37" using d(2) by (simp add: hex_digit_def word_le_nat_alt)
  ultimately show ?thesis by simp
qed

lemma nibbles_join: "push_bit 4 (drop_bit 4 b) OR (b AND 15) = (b :: u8)"
  by (rule bit_word_eqI) (auto simp: bit_simps mask_literals)

lemma unhex_pair: "push_bit 4 (hex_value (hex_digit (drop_bit 4 b))) OR hex_value (hex_digit (b AND 15)) = b"
  by (simp add: hex_value_digit hex_nibble_less nibbles_join)

lemma hex_digit_ok: "unat d < 16 \<Longrightarrow> url_ok (hex_digit d) \<and> hex_digit d \<noteq> 0x2b \<and> hex_digit d \<noteq> 0x25 \<and> hex_digit d \<noteq> 0"
  by (rule hex_digit_cases [of d]) (simp_all add: url_ok_def word_le_nat_alt word_unat_eq_iff)

lemma hex_loop_text:
  "out + 2 * length bs < length buf \<Longrightarrow> hex_loop buf bs out = Some (take out buf @ hex_text bs @ 0 # drop (out + 2 * length bs + 1) buf)"
proof (induction bs arbitrary: buf out)
  case Nil
  then show ?case by (simp add: wr_def upd_conv_take_nth_drop)
next
  case (Cons b bs)
  let ?buf = "buf[out := hex_digit (drop_bit 4 b), out + 1 := hex_digit (b AND 15)]"
  have "hex_loop buf (b # bs) out = hex_loop ?buf bs (out + 2)" using Cons.prems by (simp add: wr_def)
  moreover have "take (out + 2) ?buf = take out buf @ [hex_digit (drop_bit 4 b), hex_digit (b AND 15)]"
    using Cons.prems by (simp add: take_Suc_conv_app_nth numeral_2_eq_2)
  ultimately show ?case using Cons.IH [of "out + 2" ?buf] Cons.prems by (simp add: add.commute)
qed

lemma unhex_loop_text: "unhex_loop (pre @ hex_text bs @ post) (length pre + 2 * length bs) (length pre) = Some bs"
proof (induction bs arbitrary: pre)
  case Nil
  then show ?case by (simp add: unhex_loop.simps)
next
  case (Cons b bs)
  from Cons.IH [of "pre @ [hex_digit (drop_bit 4 b), hex_digit (b AND 15)]"]
  show ?case by (subst unhex_loop.simps) (simp add: rd_def nth_append unhex_pair)
qed

lemma string_unhex_text:
  assumes "c_heap_ok limit H" and "length bs \<le> limit" and "bs \<noteq> []" and "limit < 2 ^ 31"
  shows "string_unhex H (hex_text bs @ post) (2 * length bs) = Some \<lparr>ba_p = Some bs, ba_cb = int (length bs)\<rparr>"
proof -
  obtain blk where blk: "ch_malloc H (length bs) = Some blk" "length blk = length bs"
    using assms(1-3) unfolding c_heap_ok_def by (metis length_greater_0_conv)
  have "bytearray_sized H (int (length bs)) = Some \<lparr>ba_p = Some blk, ba_cb = int (length bs)\<rparr>"
    using blk(1) by (simp add: bytearray_sized_def)
  then show ?thesis using unhex_loop_text [of "[]" bs post] blk(2) by (simp add: string_unhex_def blit_def)
qed

text \<open>
  C36. Hexadecimal round trip. \<^verbatim>\<open>hex\<close> makes a new string object with two digits per byte, other objects keep their characters, and \<^verbatim>\<open>unhex\<close>
  of the digits returns the bytes.
\<close>

theorem hex_unhex:
  assumes "heap_ok h c" and "c_heap_ok limit H" and "limit < 2 ^ 31" and "2 * length bs + 13 \<le> limit" and "bs \<noteq> []"
  shows "\<exists>digits. str_yields h c (string_hex H bs h) digits \<and>
    string_unhex H (digits @ post) (length digits) = Some \<lparr>ba_p = Some bs, ba_cb = int (length bs)\<rparr>"
proof -
  have room: "2 * length bs + 13 \<le> limit" using assms(4) .
  obtain a b h2 where h2: "buf_new H (2 * length bs) h = Some (a, h2)" "heap_ok h2 (c(a := 1))" "c a = 0" "sh_bufs h a = None"
    "sh_bufs h2 a = Some b" "sb_cap b = 2 * length bs" "length (sb_data b) = 2 * length bs + 1" "\<forall>x. x \<noteq> a \<longrightarrow> sh_bufs h2 x = sh_bufs h x"
    by (rule buf_new_ok [OF assms(1,2) room assms(3)])
  have d: "hex_loop (sb_data b) bs 0 = Some (hex_text bs @ [0])" using hex_loop_text [of 0 bs "sb_data b"] h2(7) by simp
  let ?s = "\<lparr>st_buf = Ptr a, st_cb = length bs * 2, st_offset = 0, st_type = 0\<rparr>"
  let ?b = "b\<lparr>sb_data := hex_text bs @ [0]\<rparr>"
  let ?h = "h2\<lparr>sh_bufs := (sh_bufs h2)(a \<mapsto> ?b)\<rparr>"
  have "string_hex H bs h = Some (?s, ?h)" using h2(1,5) d by (simp add: string_hex_def mult.commute)
  moreover have "heap_ok ?h (c(a := 1))"
    using heap_ok_Some [OF h2(2,5)] h2(6) by (intro heap_okI [OF h2(2), of a]) (auto simp: buf_ok_def)
  moreover have "(\<lambda>x. c x + owns ?s x) = c(a := 1)" using owns_Ptr [of ?s a c] h2(3) by simp
  moreover have "str_ok ?h ?s" "start_chars ?h ?s = Some (hex_text bs)"
    using h2(6) by (simp_all add: str_ok_def start_chars_def read_chars_def ptr_data_def slice_def mult.commute)
  moreover have "same_buf h ?h x" if "0 < c x" for x using that h2(3,8) by (auto simp: same_buf_def)
  ultimately have "str_yields h c (string_hex H bs h) (hex_text bs)" by (simp add: str_yields_def)
  moreover have "string_unhex H (hex_text bs @ post) (length (hex_text bs)) = Some \<lparr>ba_p = Some bs, ba_cb = int (length bs)\<rparr>"
    using string_unhex_text [OF assms(2) _ assms(5,3)] assms(4) by simp
  ultimately show ?thesis by blast
qed

theorem hex_unhex_witness:
  "\<exists>digits. str_yields suffix_heap ((\<lambda>a. 0)(0 := 1)) (string_hex (fill_heap 100 0) [0xca, 0x01] suffix_heap) digits \<and>
    string_unhex (fill_heap 100 0) (digits @ [0]) (length digits) = Some \<lparr>ba_p = Some [0xca, 0x01], ba_cb = 2\<rparr>"
proof -
  have "heap_ok suffix_heap ((\<lambda>a. 0)(0 := 1))" by (simp add: heap_ok_def suffix_heap_def buf_ok_def)
  from hex_unhex [OF this fill_heap_ok, of 100 "[0xca, 0x01]" 0 "[0]"] show ?thesis by simp
qed

subsection \<open>URLs\<close>

definition url_enc :: "u8 \<Rightarrow> bytes" where
  "url_enc c = (if url_ok c then [c] else if c = 0x20 then [0x2b] else [0x25, hex_digit (drop_bit 4 c), hex_digit (c AND 15)])"

text \<open>What decoding makes of an encoded character.\<close>

definition url_mangle :: "u8 \<Rightarrow> bytes" where
  "url_mangle c = (if url_ok c then [c] else if c = 0x20 then [0x2d] else [c, hex_digit (drop_bit 4 c), hex_digit (c AND 15)])"

lemma blit_prefix: "out + length xs \<le> length buf \<Longrightarrow> \<exists>buf'. blit buf out xs = Some buf' \<and> length buf' = length buf \<and> take (out + length xs) buf' = take out buf @ xs"
  by (simp add: blit_def)

lemma wr_prefix: "out < length buf \<Longrightarrow> \<exists>buf'. wr buf out x = Some buf' \<and> length buf' = length buf \<and> take (out + 1) buf' = take out buf @ [x]"
  by (simp add: wr_def take_Suc_conv_app_nth)

lemma length_url_enc: "length (concat (map url_enc cs)) \<le> 3 * length cs"
  by (induction cs) (auto simp: url_enc_def)

lemma url_encode_loop_text:
  assumes "\<forall>c\<in>set cs. c < 0x80" and "out + 3 * length cs < length buf"
  shows "\<exists>buf'. url_encode_loop sc buf cs out = Some (buf', out + length (concat (map url_enc cs))) \<and> length buf' = length buf \<and>
    take (out + length (concat (map url_enc cs))) buf' = take out buf @ concat (map url_enc cs)"
  using assms
proof (induction cs arbitrary: buf out)
  case (Cons c cs)
  consider "url_ok c" | "\<not> url_ok c" "c = 0x20" | "\<not> url_ok c" "c \<noteq> 0x20" by blast
  then show ?case
  proof cases
    case 1
    obtain b where b: "wr buf out c = Some b" "length b = length buf" "take (out + 1) b = take out buf @ [c]"
      using wr_prefix [of out buf c] Cons.prems(2) by auto
    obtain buf' where "url_encode_loop sc b cs (out + 1) = Some (buf', out + 1 + length (concat (map url_enc cs)))" "length buf' = length b"
      "take (out + 1 + length (concat (map url_enc cs))) buf' = take (out + 1) b @ concat (map url_enc cs)"
      using Cons.IH [of "out + 1" b] Cons.prems b(2) by auto
    moreover have "url_enc c = [c]" using 1 by (simp add: url_enc_def)
    ultimately show ?thesis using 1 b by simp
  next
    case 2
    obtain b where b: "wr buf out 0x2b = Some b" "length b = length buf" "take (out + 1) b = take out buf @ [0x2b]"
      using wr_prefix [of out buf "0x2b"] Cons.prems(2) by auto
    obtain buf' where "url_encode_loop sc b cs (out + 1) = Some (buf', out + 1 + length (concat (map url_enc cs)))" "length buf' = length b"
      "take (out + 1 + length (concat (map url_enc cs))) buf' = take (out + 1) b @ concat (map url_enc cs)"
      using Cons.IH [of "out + 1" b] Cons.prems b(2) by auto
    moreover have "url_enc c = [0x2b]" using 2 by (simp add: url_enc_def)
    ultimately show ?thesis using 2 b by simp
  next
    case 3
    have p: "percent_hex sc c = url_enc c @ [0]" using 3 Cons.prems(1) by (auto simp: percent_hex_def url_enc_def not_le)
    have l: "length (url_enc c) = 3" using 3 by (simp add: url_enc_def)
    obtain b where b: "blit buf out (percent_hex sc c) = Some b" "length b = length buf" "take (out + 4) b = take out buf @ url_enc c @ [0]"
      using blit_prefix [of out "percent_hex sc c" buf] Cons.prems(2) p l by auto
    have "take (out + 3) b = take (out + 3) (take (out + 4) b)" by simp
    also have "\<dots> = take out buf @ url_enc c" using b(3) l Cons.prems(2) by simp
    finally have b3: "take (out + 3) b = take out buf @ url_enc c" .
    obtain buf' where "url_encode_loop sc b cs (out + 3) = Some (buf', out + 3 + length (concat (map url_enc cs)))" "length buf' = length b"
      "take (out + 3 + length (concat (map url_enc cs))) buf' = take (out + 3) b @ concat (map url_enc cs)"
      using Cons.IH [of "out + 3" b] Cons.prems b(2) by auto
    then show ?thesis using 3 b b3 l by (simp add: add.assoc)
  qed
qed simp

lemma urlEncode_text:
  assumes "c_heap_ok limit H" and "3 * length s + 1 \<le> limit" and "\<forall>c\<in>set s. c < 0x80" and "3 * length s + 1 < 2 ^ 31"
  shows "urlEncode H sc (s @ post) (length s) = Some (concat (map url_enc s))"
proof -
  obtain buf where buf: "ch_malloc H (length s * 3 + 1) = Some buf" "length buf = length s * 3 + 1"
    using assms(1,2) unfolding c_heap_ok_def by (metis add.commute mult.commute zero_less_Suc Suc_eq_plus1)
  obtain b where b: "url_encode_loop sc buf s 0 = Some (b, length (concat (map url_enc s)))" "length b = length buf"
    "take (length (concat (map url_enc s))) b = concat (map url_enc s)"
    using url_encode_loop_text [OF assms(3), of 0 buf sc] buf(2) by auto
  have "length (concat (map url_enc s)) < length b" "length (concat (map url_enc s)) < 2 ^ 31"
    using length_url_enc [of s] b(2) buf(2) assms(4) by simp_all
  then show ?thesis using buf b assms(4) by (simp add: urlEncode_def wr_def slice_def del: length_concat)
qed

text \<open>Decoding byte by byte: what a byte is replaced by, given the bytes behind it.\<close>

fun url_dec :: "bytes \<Rightarrow> bytes" where
  "url_dec [] = []"
| "url_dec (c # cs) =
     (if c = 0x2b then 0x2d
      else if c = 0x25 then push_bit 4 (hex_value (cs ! 0)) OR hex_value (cs ! 1)
      else c) # url_dec cs"

lemma length_url_dec [simp]: "length (url_dec cs) = length cs"
  by (induction cs) simp_all

text \<open>Two bytes follow every percent sign.\<close>

fun percent_complete :: "bytes \<Rightarrow> bool" where
  "percent_complete [] = True"
| "percent_complete (c # cs) \<longleftrightarrow> (c = 0x25 \<longrightarrow> 2 \<le> length cs) \<and> percent_complete cs"

lemma unhex_two:
  assumes "c_heap_ok limit H" and "1 \<le> limit"
  shows "\<exists>ba blk. string_unhex H [x, y, 0] 2 = Some ba \<and> ba_p ba = Some blk \<and> rd blk 0 = Some (push_bit 4 (hex_value x) OR hex_value y)"
proof -
  obtain blk where blk: "ch_malloc H 1 = Some blk" "length blk = 1" using assms unfolding c_heap_ok_def by (metis zero_less_one)
  have "unhex_loop [x, y, 0] 2 0 = Some [push_bit 4 (hex_value x) OR hex_value y]"
    by (simp add: unhex_loop.simps [of _ 2 0] unhex_loop.simps [of _ 2 2] rd_def numeral_2_eq_2 [symmetric])
  then show ?thesis using blk by (simp add: string_unhex_def bytearray_sized_def blit_def rd_def)
qed

lemma url_decode_loop_text:
  assumes "c_heap_ok limit H" and "1 \<le> limit" and "percent_complete cs" and "out + length cs < length buf"
    and "cb = length pre + length cs"
  shows "\<exists>buf'. url_decode_loop H (pre @ cs @ post) cb (length pre) buf out = Some (buf', out + length cs) \<and> length buf' = length buf \<and>
    take (out + length cs) buf' = take out buf @ url_dec cs"
  using assms(3-)
proof (induction cs arbitrary: pre buf out)
  case Nil
  then show ?case by (simp add: url_decode_loop.simps)
next
  case (Cons c cs)
  define v where "v = (if c = 0x2b then 0x2d else if c = 0x25 then push_bit 4 (hex_value (cs ! 0)) OR hex_value (cs ! 1) else c)"
  let ?m = "pre @ (c # cs) @ post"
  have val: "(if c = 0x2b then Some 0x2d
              else if c = 0x25 then do {
                asciiCode \<leftarrow> slice ?m (length pre + 1) 2;
                asciiVal \<leftarrow> string_unhex H (asciiCode @ [0]) 2;
                blk \<leftarrow> ba_p asciiVal;
                rd blk 0 }
              else Some c) = Some v"
  proof (cases "c = 0x25")
    case True
    then obtain x y cs' where cs: "cs = x # y # cs'" using Cons.prems(1) by (auto simp: numeral_2_eq_2 Suc_le_length_iff)
    then have "slice ?m (length pre + 1) 2 = Some [x, y]" by (simp add: slice_def)
    with True cs unhex_two [OF assms(1,2), of x y] show ?thesis by (auto simp: v_def)
  qed (simp add: v_def)
  obtain b where b: "wr buf out v = Some b" "length b = length buf" "take (out + 1) b = take out buf @ [v]"
    using wr_prefix [of out buf v] Cons.prems(2) by auto
  have step: "url_decode_loop H ?m cb (length pre) buf out = url_decode_loop H ?m cb (length pre + 1) b (out + 1)"
    using Cons.prems(3) val b(1) by (subst url_decode_loop.simps) (simp add: rd_def nth_append)
  obtain buf' where "url_decode_loop H ((pre @ [c]) @ cs @ post) cb (length (pre @ [c])) b (out + 1) = Some (buf', out + 1 + length cs)"
    "length buf' = length b" "take (out + 1 + length cs) buf' = take (out + 1) b @ url_dec cs"
    using Cons.IH [of "out + 1" b "pre @ [c]"] Cons.prems b(2) by auto
  then show ?case using step b by (simp add: v_def)
qed

lemma urlDecode_text:
  assumes "c_heap_ok limit H" and "length cs + 1 \<le> limit" and "percent_complete cs" and "length cs < 2 ^ 31"
  shows "urlDecode H (cs @ post) (length cs) = Some (url_dec cs)"
proof -
  obtain buf where buf: "ch_malloc H (length cs + 1) = Some buf" "length buf = length cs + 1"
    using assms(1,2) unfolding c_heap_ok_def by (metis zero_less_Suc Suc_eq_plus1)
  obtain b where b: "url_decode_loop H (cs @ post) (length cs) 0 buf 0 = Some (b, length cs)" "length b = length buf" "take (length cs) b = url_dec cs"
    using url_decode_loop_text [OF assms(1) _ assms(3), of 0 buf "length cs" "[]" post] assms(2) buf(2) by auto
  then show ?thesis using buf assms(4) by (simp add: urlDecode_def wr_def slice_def)
qed

lemma url_dec_enc: "url_dec (concat (map url_enc s)) = concat (map url_mangle s) \<and> percent_complete (concat (map url_enc s))"
proof (induction s)
  case (Cons c s)
  have "hex_digit (drop_bit 4 c) \<noteq> 0x2b" "hex_digit (drop_bit 4 c) \<noteq> 0x25" "hex_digit (c AND 15) \<noteq> 0x2b" "hex_digit (c AND 15) \<noteq> 0x25"
    using hex_digit_ok [OF hex_nibble_less(1)] hex_digit_ok [OF hex_nibble_less(2)] by blast+
  moreover have "url_ok c \<Longrightarrow> c \<noteq> 0x2b \<and> c \<noteq> 0x25" by (auto simp: url_ok_def)
  ultimately show ?case using Cons by (auto simp: url_enc_def url_mangle_def unhex_pair)
qed simp

lemma length_mangle: "length s \<le> length (concat (map url_mangle s))"
  by (induction s) (auto simp: url_mangle_def)

lemma mangle_id: "concat (map url_mangle s) = s \<longleftrightarrow> (\<forall>c\<in>set s. url_ok c)"
proof (induction s)
  case (Cons c s)
  have "concat (map url_mangle (c # s)) \<noteq> c # s" if "\<not> url_ok c" "c \<noteq> 0x20"
  proof
    assume "concat (map url_mangle (c # s)) = c # s"
    then have "length (concat (map url_mangle (c # s))) = length (c # s)" by (rule arg_cong)
    then show False using that length_mangle [of s] by (simp add: url_mangle_def)
  qed
  moreover have "url_ok c \<Longrightarrow> url_mangle c = [c]" "\<not> url_ok c \<Longrightarrow> c = 0x20 \<Longrightarrow> url_mangle c = [0x2d]" by (simp_all add: url_mangle_def)
  ultimately show ?case using Cons by (cases "url_ok c"; cases "c = 0x20") auto
qed simp

text \<open>
  C37. URL encoding. An ASCII string whose buffer has fewer than \<open>2^31\<close> bytes is encoded within it, and decoding the result is free of undefined behaviour, but it is no
  inverse: a space comes back as a minus sign, and behind every other encoded character its two digits stay in the text.
  The string comes back only when no character of it had to be encoded.
\<close>

theorem url_decode_encode:
  assumes "c_heap_ok limit H" and "3 * length s + 1 \<le> limit" and "\<forall>c\<in>set s. c < 0x80" and "3 * length s + 1 < 2 ^ 31"
  shows "\<exists>e. urlEncode H sc (s @ post) (length s) = Some e \<and> urlDecode H (e @ [0]) (length e) = Some (concat (map url_mangle s)) \<and>
    (concat (map url_mangle s) = s \<longleftrightarrow> (\<forall>c\<in>set s. url_ok c))"
proof -
  have "length (concat (map url_enc s)) + 1 \<le> limit" "length (concat (map url_enc s)) < 2 ^ 31"
    using length_url_enc [of s] assms(2,4) by simp_all
  then show ?thesis using urlEncode_text [OF assms] urlDecode_text [OF assms(1), of "concat (map url_enc s)" "[0]"] url_dec_enc [of s] mangle_id [of s]
    by (simp del: length_concat)
qed

theorem url_decode_encode_witness:
  "\<exists>e. urlEncode (fill_heap 100 0) True [0x61, 0x20, 0x2f, 0] 3 = Some e \<and>
     urlDecode (fill_heap 100 0) (e @ [0]) (length e) = Some [0x61, 0x2d, 0x2f, 0x32, 0x46]"
proof -
  have "concat (map url_mangle [0x61, 0x20, 0x2f]) = [0x61, 0x2d, 0x2f, 0x32, 0x46]" by (simp add: url_mangle_def url_ok_def hex_digit_def)
  moreover have "length ([0x61, 0x20, 0x2f] :: bytes) = 3" "\<forall>c\<in>set [0x61, 0x20, 0x2f :: u8]. c < 0x80" by simp_all
  ultimately show ?thesis using url_decode_encode [OF fill_heap_ok, of "[0x61, 0x20, 0x2f]" 100 0 True "[0]"]
    by (simp only: append_Cons append_Nil) auto
qed

text \<open>Where plain \<^verbatim>\<open>char\<close> is signed, encoding one byte of 128 or more writes ten bytes into a buffer of four.\<close>

lemma urlEncode_negative_char:
  assumes "c_heap_ok limit H" and "4 \<le> limit" and "0x80 \<le> c"
  shows "urlEncode H True (c # post) 1 = None"
proof -
  obtain buf where "ch_malloc H 4 = Some buf" "length buf = 4" using assms(1,2) unfolding c_heap_ok_def by (metis zero_less_numeral)
  moreover have "\<not> url_ok c" "c \<noteq> 0x20" using assms(3) by (auto simp: url_ok_def word_le_nat_alt)
  ultimately show ?thesis using assms(3) by (simp add: urlEncode_def slice_def percent_hex_def blit_def)
qed

text \<open>
  The size of the buffer wraps: for a long string of characters that all have to be encoded, the block that is allocated is too small
  and the loop writes behind it.
\<close>

lemma url_encode_loop_overrun:
  assumes "\<forall>c\<in>set cs. \<not> url_ok c \<and> c \<noteq> 0x20" and "cs \<noteq> []" and "length buf \<le> out + 3 * length cs"
  shows "url_encode_loop sc buf cs out = None"
  using assms
proof (induction cs arbitrary: buf out)
  case (Cons c cs)
  show ?case
  proof (cases "blit buf out (percent_hex sc c)")
    case (Some b)
    then have b: "length b = length buf" "out + 4 \<le> length buf" by (auto simp: blit_def percent_hex_def split: if_splits)
    with Cons.prems(3) have "cs \<noteq> []" by auto
    with Cons.IH [of b "out + 3"] Cons.prems b have "url_encode_loop sc b cs (out + 3) = None" by simp
    with Some Cons.prems(1) show ?thesis by simp
  qed (use Cons.prems(1) in simp)
qed simp

lemma urlEncode_size_wraps:
  assumes "c_heap_ok limit H" and "2 ^ 32 \<le> limit" and "\<forall>c\<in>set s. \<not> url_ok c \<and> c \<noteq> 0x20"
    and "2 ^ 32 \<le> 3 * length s" and "(length s * 3 + 1) mod 2 ^ 32 \<noteq> 0"
  shows "urlEncode H sc (s @ post) (length s) = None"
proof -
  define n where "n = (length s * 3 + 1) mod 2 ^ 32"
  have n: "n < 2 ^ 32" unfolding n_def by (rule mod_less_divisor) simp
  then have "0 < n" "n \<le> limit" using assms(2,5) by (simp_all add: n_def)
  then obtain buf where buf: "ch_malloc H n = Some buf" "length buf = n"
    using assms(1) unfolding c_heap_ok_def by blast
  have "url_encode_loop sc buf s 0 = None"
  proof (rule url_encode_loop_overrun [OF assms(3)])
    show "s \<noteq> []" using assms(4) by auto
    show "length buf \<le> 0 + 3 * length s" using n assms(4) unfolding buf(2) by linarith
  qed
  with buf(1) show ?thesis by (simp add: urlEncode_def slice_def n_def)
qed

end
