(* ===== verification/Val.thy ===== *)
theory Val
  imports StrCodec
begin

section \<open>Variant values (\<^verbatim>\<open>base/val.h\<close>, \<^verbatim>\<open>base/val.cpp\<close>)\<close>

text \<open>
  The class \<^verbatim>\<open>val\<close>, a discriminated union. Floating point numbers are bit patterns. The pointer members are owned and copied with the
  value, so a value is a tree; strings are their bytes and a \<^verbatim>\<open>std::map\<close> is the list of its entries in the order of iteration, by
  \<^verbatim>\<open>string::operator<\<close>. \<^verbatim>\<open>V_wild\<close> is a string or byte array whose pointer was overwritten with the given bytes.
\<close>

datatype munit = PX | PT | EM | PC

datatype val =
    V_EMPTY
  | V_INT32 u32 | V_INT64 u64
  | V_UINT32 u32 | V_UINT64 u64
  | V_FLOAT32 u32 | V_FLOAT64 u64
  | V_MEASUREMENT u32 munit
  | V_STRING bytes
  | V_BYTEARRAY bytes
  | V_ARRAY "val list"
  | V_MAP "(bytes \<times> val) list"
  | V_OBJECT nat
  | V_ERROR u32 bytes
  | V_wild nat bytes

text \<open>The values of \<^verbatim>\<open>enum type\<close>.\<close>

fun val_type :: "val \<Rightarrow> nat" where
  "val_type V_EMPTY = 0"
| "val_type (V_INT32 _) = 1"
| "val_type (V_INT64 _) = 2"
| "val_type (V_UINT32 _) = 3"
| "val_type (V_UINT64 _) = 4"
| "val_type (V_FLOAT32 _) = 5"
| "val_type (V_FLOAT64 _) = 6"
| "val_type (V_MEASUREMENT _ _) = 7"
| "val_type (V_STRING _) = 8"
| "val_type (V_BYTEARRAY _) = 9"
| "val_type (V_ARRAY _) = 10"
| "val_type (V_MAP _) = 11"
| "val_type (V_OBJECT _) = 12"
| "val_type (V_ERROR _ _) = 13"
| "val_type (V_wild t _) = t"

subsection \<open>Ordered maps\<close>

text \<open>What the code uses of \<^verbatim>\<open>std::map<string, val>\<close>, on the entries in ascending order of their keys.\<close>

fun vmap_find :: "(bytes \<times> 'v) list \<Rightarrow> bytes \<Rightarrow> 'v option" where
  "vmap_find [] k = None"
| "vmap_find ((k', v) # m) k = (if k = k' then Some v else vmap_find m k)"

fun vmap_put :: "bytes \<Rightarrow> 'v \<Rightarrow> (bytes \<times> 'v) list \<Rightarrow> (bytes \<times> 'v) list" where
  "vmap_put k v [] = [(k, v)]"
| "vmap_put k v ((k', v') # m) =
     (if k = k' then (k, v) # m
      else if ord_class.lexordp k k' then (k, v) # (k', v') # m
      else (k', v') # vmap_put k v m)"

definition vmap_insert :: "bytes \<Rightarrow> 'v \<Rightarrow> (bytes \<times> 'v) list \<Rightarrow> (bytes \<times> 'v) list" where
  "vmap_insert k v m = (if vmap_find m k = None then vmap_put k v m else m)"

fun vmap_erase :: "bytes \<Rightarrow> (bytes \<times> 'v) list \<Rightarrow> (bytes \<times> 'v) list" where
  "vmap_erase k [] = []"
| "vmap_erase k ((k', v') # m) = (if k = k' then m else (k', v') # vmap_erase k m)"

definition vmap_ok :: "(bytes \<times> 'v) list \<Rightarrow> bool" where
  "vmap_ok m \<longleftrightarrow> sorted_wrt ord_class.lexordp (map fst m)"

subsection \<open>Operations\<close>

definition is_wild :: "val \<Rightarrow> bool" where
  "is_wild v = (case v of V_wild _ _ \<Rightarrow> True | _ \<Rightarrow> False)"

text \<open>A value of a type that was just set; a wild pointer cannot be deleted. The members that are no pointers keep what they held, which is no value of the model.\<close>

definition val_setType :: "nat \<Rightarrow> val \<Rightarrow> val option" where
  "val_setType newType v =
     (if val_type v = newType then Some v
      else if is_wild v then None
      else if newType = 0 then Some V_EMPTY
      else if newType = 8 then Some (V_STRING [])
      else if newType = 9 then Some (V_BYTEARRAY [])
      else if newType = 10 then Some (V_ARRAY [])
      else if newType = 11 then Some (V_MAP [])
      else if newType = 13 then Some (V_ERROR 0 [])
      else None)"

text \<open>Assignment from another value, and from the value itself: the type is reset before the source is read.\<close>

definition val_assign :: "val \<Rightarrow> val \<Rightarrow> val" where
  "val_assign src dst = src"

definition val_assign_self :: "val \<Rightarrow> val option" where
  "val_assign_self v = do { v \<leftarrow> val_setType 0 v; Some (val_assign v v) }"

definition val_clear :: "val \<Rightarrow> val option" where
  "val_clear v = val_setType 0 v"

definition val_setInt32 :: "u32 \<Rightarrow> val \<Rightarrow> val" where
  "val_setInt32 i v = V_INT32 i"

definition val_setDouble :: "u64 \<Rightarrow> val \<Rightarrow> val" where
  "val_setDouble d v = V_FLOAT64 d"

definition val_setString :: "bytes \<Rightarrow> val \<Rightarrow> val" where
  "val_setString p v = V_STRING p"

text \<open>\<^verbatim>\<open>setByteArray\<close> appends, so a value that is a byte array already keeps its bytes.\<close>

definition val_setByteArray :: "bytes \<Rightarrow> val \<Rightarrow> val option" where
  "val_setByteArray p v = do {
     v \<leftarrow> val_setType 9 v;
     (case v of V_BYTEARRAY b \<Rightarrow> Some (V_BYTEARRAY (b @ p)) | _ \<Rightarrow> None) }"

definition val_appendVal :: "val \<Rightarrow> val \<Rightarrow> val option" where
  "val_appendVal x v = do {
     v \<leftarrow> (if val_type v = 0 then val_setType 10 v else Some v);
     (case v of V_ARRAY xs \<Rightarrow> Some (V_ARRAY (xs @ [x])) | _ \<Rightarrow> None) }"

definition val_hasVal :: "bytes \<Rightarrow> val \<Rightarrow> bool" where
  "val_hasVal name v = (case v of V_MAP m \<Rightarrow> vmap_find m name \<noteq> None | _ \<Rightarrow> False)"

definition val_get :: "bytes \<Rightarrow> val \<Rightarrow> val option" where
  "val_get key v =
     (case v of
        V_EMPTY \<Rightarrow> Some V_EMPTY
      | V_MAP m \<Rightarrow> Some (case vmap_find m key of None \<Rightarrow> V_EMPTY | Some x \<Rightarrow> x)
      | _ \<Rightarrow> None)"

definition val_set :: "bytes \<Rightarrow> val \<Rightarrow> val \<Rightarrow> val option" where
  "val_set key x v = do {
     v \<leftarrow> (if val_type v = 0 then val_setType 11 v else Some v);
     (case v of V_MAP m \<Rightarrow> Some (V_MAP (vmap_put key x m)) | _ \<Rightarrow> None) }"

text \<open>\<^verbatim>\<open>operator[]\<close> makes an empty entry where there is none.\<close>

definition val_entry :: "bytes \<Rightarrow> val \<Rightarrow> (val \<times> val) option" where
  "val_entry key v = do {
     v \<leftarrow> (if val_type v = 0 then Some (V_MAP []) else Some v);
     (case v of
        V_MAP m \<Rightarrow> (let m = vmap_insert key V_EMPTY m in do { x \<leftarrow> vmap_find m key; Some (x, V_MAP m) })
      | _ \<Rightarrow> None) }"

definition val_unset :: "bytes \<Rightarrow> val \<Rightarrow> val option" where
  "val_unset key v =
     (if val_type v = 0 then Some v else case v of V_MAP m \<Rightarrow> Some (V_MAP (vmap_erase key m)) | _ \<Rightarrow> None)"

text \<open>\<^verbatim>\<open>getRamCost\<close> in \<^verbatim>\<open>uint32_t\<close>; a value takes 16 bytes. The cost of an object is a parameter.\<close>

fun val_getRamCost :: "(nat \<Rightarrow> u32) \<Rightarrow> val \<Rightarrow> u32" where
  "val_getRamCost objcost (V_INT32 _) = 16 + 4"
| "val_getRamCost objcost (V_UINT32 _) = 16 + 4"
| "val_getRamCost objcost (V_INT64 _) = 16 + 8"
| "val_getRamCost objcost (V_UINT64 _) = 16 + 8"
| "val_getRamCost objcost (V_FLOAT32 _) = 16 + 4"
| "val_getRamCost objcost (V_FLOAT64 _) = 16 + 8"
| "val_getRamCost objcost (V_STRING s) = 16 + of_nat (length s)"
| "val_getRamCost objcost (V_BYTEARRAY b) = 16 + of_nat (length b)"
| "val_getRamCost objcost (V_OBJECT a) = 16 + objcost a"
| "val_getRamCost objcost (V_ARRAY xs) = fold (\<lambda>x c. c + val_getRamCost objcost x) xs 16"
| "val_getRamCost objcost (V_MAP m) = fold (\<lambda>(k, x) c. c + of_nat (length k) + val_getRamCost objcost x) m 16"
| "val_getRamCost objcost v = 16"

subsection \<open>Maps as stores of fields\<close>

text \<open>The laws of a store of fields, and what a sequence of assignments to fields leaves.\<close>

locale field_store =
  fixes inv :: "'s \<Rightarrow> bool"
    and look :: "'s \<Rightarrow> 'k \<Rightarrow> 'v option"
    and put :: "'k \<Rightarrow> 'v \<Rightarrow> 's \<Rightarrow> 's"
    and del :: "'k \<Rightarrow> 's \<Rightarrow> 's"
  assumes look_put: "inv s \<Longrightarrow> look (put k v s) = (look s)(k \<mapsto> v)"
    and look_del: "inv s \<Longrightarrow> look (del k s) = (look s)(k := None)"
    and inv_put: "inv s \<Longrightarrow> inv (put k v s)"
    and inv_del: "inv s \<Longrightarrow> inv (del k s)"
begin

lemma fold_put: "inv s \<Longrightarrow> inv (fold (\<lambda>(k, v). put k v) kvs s) \<and> look (fold (\<lambda>(k, v). put k v) kvs s) = look s ++ map_of (rev kvs)"
proof (induction kvs arbitrary: s)
  case (Cons kv kvs)
  obtain k v where kv: "kv = (k, v)" by (cases kv)
  have "look s ++ map_of (rev kvs @ [(k, v)]) = (look s)(k \<mapsto> v) ++ map_of (rev kvs)"
    by (auto simp: fun_eq_iff map_add_def split: option.split)
  then show ?case using Cons.IH [OF inv_put [OF Cons.prems, of k v]] look_put [OF Cons.prems, of k v] kv by (simp del: fun_upd_apply)
qed simp

end

lemma lexordp_cases: "\<not> ord_class.lexordp k k' \<Longrightarrow> k \<noteq> k' \<Longrightarrow> ord_class.lexordp k' (k :: bytes)"
  using lexordp_linear [of k k'] by blast

lemma vmap_find_fst: "vmap_find m k \<noteq> None \<longleftrightarrow> k \<in> fst ` set m"
  by (induction m) auto

lemma vmap_find_put: "vmap_find (vmap_put k v m) = (vmap_find m)(k \<mapsto> v)"
  by (induction m) (auto simp: fun_eq_iff)

lemma set_vmap_put: "fst ` set (vmap_put k v m) = insert k (fst ` set m)"
  by (induction k v m rule: vmap_put.induct) (simp_all add: insert_commute)

lemma vmap_ok_simps: "vmap_ok []" "vmap_ok ((k, v) # m) \<longleftrightarrow> (\<forall>k'\<in>fst ` set m. ord_class.lexordp k k') \<and> vmap_ok m"
  by (auto simp: vmap_ok_def)

lemma vmap_ok_put: "vmap_ok m \<Longrightarrow> vmap_ok (vmap_put k v m)"
proof (induction m)
  case (Cons kv m)
  obtain k' v' where kv: "kv = (k', v')" by (cases kv)
  show ?case using Cons lexordp_trans [of k k'] lexordp_cases [of k k'] unfolding kv
    by (auto simp: vmap_ok_simps set_vmap_put)
qed (simp add: vmap_ok_simps)

lemma vmap_erase_subset: "set (vmap_erase k m) \<subseteq> set m"
  by (induction m rule: vmap_erase.induct) auto

lemma vmap_ok_erase: "vmap_ok m \<Longrightarrow> vmap_ok (vmap_erase k m)"
proof (induction m)
  case (Cons kv m)
  then show ?case using vmap_erase_subset [of k m] by (cases kv) (auto simp: vmap_ok_simps subset_iff)
qed simp

lemma vmap_find_erase: "vmap_ok m \<Longrightarrow> vmap_find (vmap_erase k m) = (vmap_find m)(k := None)"
proof (induction m)
  case (Cons kv m)
  obtain k' v' where kv: "kv = (k', v')" by (cases kv)
  have "\<not> ord_class.lexordp k' k'" by (rule lexordp_irreflexive) simp
  then have "k' \<notin> fst ` set m" using Cons.prems unfolding kv vmap_ok_simps by blast
  then have "vmap_find m k' = None" using vmap_find_fst [of m k'] by blast
  then have "vmap_find ((k', v') # m) x = ((vmap_find m)(k' \<mapsto> v')) x" for x by simp
  moreover have "vmap_find (vmap_erase k m) = (vmap_find m)(k := None)" using Cons unfolding kv vmap_ok_simps by blast
  ultimately show ?case using \<open>vmap_find m k' = None\<close> unfolding kv by (intro ext) (simp split: if_split)
qed (simp add: fun_eq_iff)

interpretation vmap: field_store vmap_ok vmap_find vmap_put vmap_erase
  by unfold_locales (simp_all add: vmap_find_put vmap_find_erase vmap_ok_put vmap_ok_erase)

text \<open>The fields of a value that is empty or a map.\<close>

definition val_fields_ok :: "val \<Rightarrow> bool" where
  "val_fields_ok v = (case v of V_EMPTY \<Rightarrow> True | V_MAP m \<Rightarrow> vmap_ok m | _ \<Rightarrow> False)"

definition val_fields :: "val \<Rightarrow> bytes \<Rightarrow> val option" where
  "val_fields v k = (case v of V_MAP m \<Rightarrow> vmap_find m k | _ \<Rightarrow> None)"

interpretation vfs: field_store val_fields_ok val_fields "\<lambda>k x v. the (val_set k x v)" "\<lambda>k v. the (val_unset k v)"
  by unfold_locales
    (auto simp: val_fields_ok_def val_fields_def val_set_def val_unset_def val_setType_def is_wild_def vmap_find_put vmap_find_erase vmap_ok_put
      vmap_ok_erase vmap_ok_simps fun_eq_iff split: val.splits)

text \<open>Setting fields one after the other, starting from an empty value, leaves the last value of each, and reading gives it.\<close>

lemma val_get_sets:
  "\<exists>x. fold (\<lambda>(k, x) v. the (val_set k x v)) kvs V_EMPTY = x \<and> val_fields_ok x \<and>
     val_get k x = Some (case map_of (rev kvs) k of None \<Rightarrow> V_EMPTY | Some y \<Rightarrow> y)"
proof -
  let ?x = "fold (\<lambda>(k, x) v. the (val_set k x v)) kvs V_EMPTY"
  have "val_fields V_EMPTY = Map.empty" by (simp add: fun_eq_iff val_fields_def)
  then have "val_fields_ok ?x \<and> val_fields ?x = map_of (rev kvs)" using vfs.fold_put [of V_EMPTY kvs] by (auto simp: val_fields_ok_def)
  then show ?thesis by (auto simp: val_get_def val_fields_ok_def val_fields_def fun_eq_iff split: val.splits)
qed

text \<open>A value assigned to itself is lost.\<close>

lemma val_assign_self_empty: "\<not> is_wild v \<Longrightarrow> val_assign_self v = Some V_EMPTY"
  by (cases v) (simp_all add: val_assign_self_def val_setType_def val_assign_def is_wild_def)

end
