(* ===== verification/ByteStream.thy ===== *)
theory ByteStream
  imports Val
begin

section \<open>Byte streams (\<^verbatim>\<open>base/bytestream.h\<close>, \<^verbatim>\<open>base/bytestream.cpp\<close>)\<close>

text \<open>
  A byte array with a read and a write offset, and the serialization of variant values. Every write returns true, so the model
  returns the stream only; a read returns the bytes, whether all were there, and the stream. \<^verbatim>\<open>_cb\<close> is converted to \<^verbatim>\<open>size_t\<close>
  where the code computes with it.
\<close>

record bytestream = bytearray +
  bs_offsetRead :: nat
  bs_offsetWrite :: nat

definition bytestream_new :: bytestream where
  "bytestream_new = \<lparr>ba_p = None, ba_cb = 0, bs_offsetRead = 0, bs_offsetWrite = 0\<rparr>"

definition bytestream_sized :: "c_heap \<Rightarrow> int \<Rightarrow> bytestream option" where
  "bytestream_sized H cb = do { ba \<leftarrow> bytearray_sized H cb; Some \<lparr>ba_p = ba_p ba, ba_cb = ba_cb ba, bs_offsetRead = 0, bs_offsetWrite = 0\<rparr> }"

definition bytestream_of :: "c_heap \<Rightarrow> bytearray \<Rightarrow> bytestream option" where
  "bytestream_of H src = do { ba \<leftarrow> bytearray_copy H src; Some \<lparr>ba_p = ba_p ba, ba_cb = ba_cb ba, bs_offsetRead = 0, bs_offsetWrite = 0\<rparr> }"

definition setWriteOffset :: "nat \<Rightarrow> bytestream \<Rightarrow> bytestream" where
  "setWriteOffset offset s = s\<lparr>bs_offsetWrite := offset\<rparr>"

definition getWrittenBytes :: "c_heap \<Rightarrow> bytestream \<Rightarrow> bytearray option" where
  "getWrittenBytes H s = bytearray_of H (ba_p s) (sint (word_of_nat (bs_offsetWrite s) :: u32))"

definition size_of_cb :: "bytestream \<Rightarrow> nat" where
  "size_of_cb s = nat (ba_cb s mod 2 ^ 64)"

definition stream_eof :: "bytestream \<Rightarrow> bool" where
  "stream_eof s \<longleftrightarrow> bs_offsetRead s \<ge> size_of_cb s"

definition hasMoreToRead :: "bytestream \<Rightarrow> bool" where
  "hasMoreToRead s \<longleftrightarrow> bs_offsetRead s < size_of_cb s"

text \<open>\<^verbatim>\<open>memcpy\<close> from and to the block; no block is needed when nothing is copied.\<close>

definition load :: "bytes option \<Rightarrow> nat \<Rightarrow> nat \<Rightarrow> bytes option" where
  "load p off n = (if n = 0 then Some [] else do { b \<leftarrow> p; slice b off n })"

definition store_at :: "bytes option \<Rightarrow> nat \<Rightarrow> bytes \<Rightarrow> bytes option option" where
  "store_at p off d = (if d = [] then Some p else do { b \<leftarrow> p; b \<leftarrow> blit b off d; Some (Some b) })"

definition writeBytes :: "c_heap \<Rightarrow> bytes \<Rightarrow> bytestream \<Rightarrow> bytestream option" where
  "writeBytes H d s = do {
     let cb = length d;
     let cbFree = nat ((ba_cb s - int (bs_offsetWrite s)) mod 2 ^ 64);
     s \<leftarrow> (if cb > cbFree then do {
             let new_cb = size_t_wrap (size_of_cb s + (cb - cbFree));
             let new_cb = unat ((word_of_nat (new_cb + 255) :: u64) AND 0xffffff00);
             new_data \<leftarrow> ch_malloc H new_cb;
             old \<leftarrow> load (ba_p s) 0 (size_of_cb s);
             new_data \<leftarrow> blit new_data 0 old;
             Some (s\<lparr>ba_p := Some new_data, ba_cb := sint (word_of_nat new_cb :: u32)\<rparr>) }
           else Some s);
     p \<leftarrow> store_at (ba_p s) (bs_offsetWrite s) d;
     Some (s\<lparr>ba_p := p, bs_offsetWrite := bs_offsetWrite s + cb\<rparr>) }"

definition readBytes :: "nat \<Rightarrow> bytestream \<Rightarrow> (bytes \<times> bool \<times> bytestream) option" where
  "readBytes cb s = do {
     let cbRead = min cb (nat ((ba_cb s - int (bs_offsetRead s)) mod 2 ^ 64));
     d \<leftarrow> load (ba_p s) (bs_offsetRead s) cbRead;
     Some (d, cbRead = cb, s\<lparr>bs_offsetRead := bs_offsetRead s + cbRead\<rparr>) }"

text \<open>The specializations for byte arrays and strings: a length in four bytes, then the bytes.\<close>

definition write_sized :: "c_heap \<Rightarrow> bytes \<Rightarrow> bytestream \<Rightarrow> bytestream option" where
  "write_sized H d s = do { s \<leftarrow> writeBytes H (le_bytes 4 (length d)) s; writeBytes H d s }"

definition read_bytearray :: "c_heap \<Rightarrow> bytearray \<Rightarrow> bytestream \<Rightarrow> (bytearray \<times> bool \<times> bytestream) option" where
  "read_bytearray H ba s = do {
     (n, got, s) \<leftarrow> readBytes 4 s;
     if \<not> got then Some (ba, False, s)
     else do {
       let cb = le_val n;
       ba \<leftarrow> bytearray_resize H (sint (word_of_nat cb :: u32)) ba;
       (d, got, s) \<leftarrow> readBytes cb s;
       p \<leftarrow> store_at (ba_p ba) 0 d;
       Some (ba\<lparr>ba_p := p\<rparr>, got, s) } }"

text \<open>The value that \<^verbatim>\<open>read(string&)\<close> leaves in a new string; \<^verbatim>\<open>alloc\<close> takes a block for the header and the terminator as well.\<close>

definition read_string :: "c_heap \<Rightarrow> bytestream \<Rightarrow> (bytes \<times> bool \<times> bytestream) option" where
  "read_string H s = do {
     (n, got, s) \<leftarrow> readBytes 4 s;
     if \<not> got then Some ([], False, s)
     else do {
       let cb = le_val n;
       blk \<leftarrow> ch_malloc H (12 + cb + 1);
       (d, got, s) \<leftarrow> readBytes cb s;
       buf \<leftarrow> blit (take cb (drop 12 blk)) 0 d;
       Some (buf, got, s) } }"

subsection \<open>Writing values\<close>

fun munit_code :: "munit \<Rightarrow> nat" where
  "munit_code PX = 0" | "munit_code PT = 1" | "munit_code EM = 2" | "munit_code PC = 3"

text \<open>An object fails an assertion, and a wild pointer cannot be followed.\<close>

fun val_write :: "c_heap \<Rightarrow> val \<Rightarrow> bytestream \<Rightarrow> bytestream option"
  and vals_write :: "c_heap \<Rightarrow> val list \<Rightarrow> bytestream \<Rightarrow> bytestream option"
  and fields_write :: "c_heap \<Rightarrow> (bytes \<times> val) list \<Rightarrow> bytestream \<Rightarrow> bytestream option" where
  "val_write H v s = do {
     s \<leftarrow> writeBytes H (le_bytes 4 (val_type v)) s;
     (case v of
        V_EMPTY \<Rightarrow> Some s
      | V_INT32 i \<Rightarrow> writeBytes H (le_bytes 4 (unat i)) s
      | V_INT64 i \<Rightarrow> writeBytes H (le_bytes 8 (unat i)) s
      | V_UINT32 i \<Rightarrow> writeBytes H (le_bytes 4 (unat i)) s
      | V_UINT64 i \<Rightarrow> writeBytes H (le_bytes 8 (unat i)) s
      | V_FLOAT32 f \<Rightarrow> writeBytes H (le_bytes 4 (unat f)) s
      | V_FLOAT64 f \<Rightarrow> writeBytes H (le_bytes 8 (unat f)) s
      | V_STRING x \<Rightarrow> write_sized H x s
      | V_MEASUREMENT f u \<Rightarrow> do { s \<leftarrow> writeBytes H (le_bytes 4 (unat f)) s; writeBytes H (le_bytes 2 (munit_code u)) s }
      | V_BYTEARRAY x \<Rightarrow> write_sized H x s
      | V_ARRAY xs \<Rightarrow> do { s \<leftarrow> writeBytes H (le_bytes 4 (length xs)) s; vals_write H xs s }
      | V_MAP m \<Rightarrow> do { s \<leftarrow> writeBytes H (le_bytes 4 (length m)) s; fields_write H m s }
      | V_OBJECT _ \<Rightarrow> None
      | V_ERROR c x \<Rightarrow> do { s \<leftarrow> writeBytes H (le_bytes 4 (unat c)) s; write_sized H x s }
      | V_wild _ _ \<Rightarrow> None) }"
| "vals_write H [] s = Some s"
| "vals_write H (x # xs) s = do { s \<leftarrow> val_write H x s; vals_write H xs s }"
| "fields_write H [] s = Some s"
| "fields_write H ((k, x) # m) s = do { s \<leftarrow> write_sized H k s; s \<leftarrow> val_write H x s; fields_write H m s }"

declare val_write.simps [simp del]

subsection \<open>Reading values\<close>

text \<open>
  Into a value that is empty. After a failed read the value is not specified, and stands as empty here. \<^verbatim>\<open>read(v._str)\<close> and
  \<^verbatim>\<open>read(v._bytearray)\<close> get a pointer, for which the general template applies: it reads eight bytes over the pointer. The unit of a
  measurement has four bytes, of which two are read and two have never been set. Values nest at most \<open>n\<close> deep.
\<close>

definition word_of_bytes :: "bytes \<Rightarrow> 'a::len word" where
  "word_of_bytes d = word_of_nat (le_val d)"

definition read_word :: "nat \<Rightarrow> ('a::len word \<Rightarrow> val) \<Rightarrow> bytestream \<Rightarrow> (val \<times> bool \<times> bytestream) option" where
  "read_word n C s = do { (d, got, s) \<leftarrow> readBytes n s; Some (if got then C (word_of_bytes d) else V_EMPTY, got, s) }"

definition read_pointer :: "nat \<Rightarrow> val \<Rightarrow> bytestream \<Rightarrow> (val \<times> bool \<times> bytestream) option" where
  "read_pointer t fresh s = do { (d, got, s) \<leftarrow> readBytes 8 s; Some (if d = [] then fresh else V_wild t d, got, s) }"

fun read_vals :: "(bytestream \<Rightarrow> (val \<times> bool \<times> bytestream) option) \<Rightarrow> nat \<Rightarrow> val list \<Rightarrow> bytestream \<Rightarrow> (val \<times> bool \<times> bytestream) option" where
  "read_vals R 0 xs s = Some (V_ARRAY xs, True, s)"
| "read_vals R (Suc k) xs s = do {
     (x, got, s) \<leftarrow> R s;
     if got then read_vals R k (xs @ [x]) s else Some (V_ARRAY xs, False, s) }"

fun read_fields :: "c_heap \<Rightarrow> (bytestream \<Rightarrow> (val \<times> bool \<times> bytestream) option) \<Rightarrow> nat \<Rightarrow> (bytes \<times> val) list \<Rightarrow> bytestream \<Rightarrow>
    (val \<times> bool \<times> bytestream) option" where
  "read_fields H R 0 m s = Some (V_MAP m, True, s)"
| "read_fields H R (Suc k) m s = do {
     (key, got, s) \<leftarrow> read_string H s;
     if \<not> got then Some (V_MAP m, False, s)
     else do {
       (x, got, s) \<leftarrow> R s;
       if got then read_fields H R k (vmap_insert key x m) s else Some (V_MAP m, False, s) } }"

definition val_read_as :: "(bytestream \<Rightarrow> (val \<times> bool \<times> bytestream) option) \<Rightarrow> c_heap \<Rightarrow> nat \<Rightarrow> bytestream \<Rightarrow> (val \<times> bool \<times> bytestream) option" where
  "val_read_as R H t s =
     (if t = 0 then Some (V_EMPTY, True, s)
      else if t = 1 then read_word 4 V_INT32 s
      else if t = 2 then read_word 8 V_INT64 s
      else if t = 3 then read_word 4 V_UINT32 s
      else if t = 4 then read_word 8 V_UINT64 s
      else if t = 5 then read_word 4 V_FLOAT32 s
      else if t = 6 then read_word 8 V_FLOAT64 s
      else if t = 7 then do {
        (f, got, s) \<leftarrow> readBytes 4 s;
        if \<not> got then Some (V_EMPTY, False, s)
        else do {
          (u, got, s) \<leftarrow> readBytes 2 s;
          if got then None else Some (V_EMPTY, False, s) } }
      else if t = 8 then read_pointer 8 (V_STRING []) s
      else if t = 9 then read_pointer 9 (V_BYTEARRAY []) s
      else if t = 10 then do {
        (d, got, s) \<leftarrow> readBytes 4 s;
        if got then read_vals R (le_val d) [] s else Some (V_ARRAY [], False, s) }
      else if t = 11 then do {
        (d, got, s) \<leftarrow> readBytes 4 s;
        if got then read_fields H R (le_val d) [] s else Some (V_MAP [], False, s) }
      else if t = 12 then None
      else if t = 13 then do {
        (c, got, s) \<leftarrow> readBytes 4 s;
        (x, got', s) \<leftarrow> read_string H s;
        Some (V_ERROR (if got then word_of_bytes c else 0) x, True, s) }
      else Some (V_EMPTY, False, s))"

fun val_read :: "nat \<Rightarrow> c_heap \<Rightarrow> bytestream \<Rightarrow> (val \<times> bool \<times> bytestream) option" where
  "val_read 0 H s = None"
| "val_read (Suc n) H s = do {
     (d, got, s) \<leftarrow> readBytes 4 s;
     if got then val_read_as (val_read n H) H (le_val d) s else Some (V_EMPTY, False, s) }"

declare val_read.simps [simp del]

subsection \<open>The stream as a list of bytes\<close>

definition stream_data :: "bytestream \<Rightarrow> bytes" where
  "stream_data s = (case ba_p s of None \<Rightarrow> [] | Some b \<Rightarrow> b)"

definition stream_ok :: "bytestream \<Rightarrow> bool" where
  "stream_ok s \<longleftrightarrow> ba_cb s = int (length (stream_data s)) \<and> length (stream_data s) < 2 ^ 31 \<and> bs_offsetWrite s \<le> length (stream_data s)"

definition written :: "bytestream \<Rightarrow> bytes" where
  "written s = take (bs_offsetWrite s) (stream_data s)"

lemma load_data: "off + n \<le> length (case p of None \<Rightarrow> [] | Some b \<Rightarrow> b) \<Longrightarrow> load p off n = Some (take n (drop off (case p of None \<Rightarrow> [] | Some b \<Rightarrow> b)))"
  by (cases p) (simp_all add: load_def slice_def)

lemma round_up_256:
  assumes "n + 255 < 2 ^ 32"
  shows "unat ((word_of_nat (n + 255) :: u64) AND 0xffffff00) = (n + 255) div 256 * 256"
proof -
  define x where "x = (word_of_nat (n + 255) :: u64)"
  have u: "unat x = n + 255" using assms unfolding x_def by (simp add: unat_of_nat take_bit_nat_eq_self del: of_nat_add)
  have m: "(0xffffff00 :: u64) = push_bit 8 (mask 24)" by (simp add: mask_eq_exp_minus_1)
  have "unat (x AND mask 32) = unat x" using u assms by (simp add: unat_and_mask)
  then have "x = x AND mask 32" by (simp add: word_unat_eq_iff)
  then have "x AND 0xffffff00 = (x AND mask 32) AND push_bit 8 (mask 24)" using m by simp
  also have "\<dots> = push_bit 8 (drop_bit 8 (x AND mask 32))" by (rule bit_word_eqI) (auto simp: bit_simps)
  finally have "x AND 0xffffff00 = push_bit 8 (drop_bit 8 x)" using \<open>x = x AND mask 32\<close> by simp
  moreover have "(n + 255) div 256 * 256 < 2 ^ 64" using assms by (rule_tac le_less_trans [OF div_times_less_eq_dividend]) simp
  moreover have "unat (push_bit 8 (drop_bit 8 x)) = unat x div 256 * 256 mod 2 ^ 64"
    by (simp add: push_bit_eq_mult drop_bit_eq_div unat_mult_lem unat_div_distrib unat_word_ariths)
  ultimately show ?thesis unfolding x_def [symmetric] by (simp add: u del: of_nat_add)
qed

lemma writeBytes_ok:
  assumes "stream_ok s" and "c_heap_ok limit H" and "limit < 2 ^ 31" and "bs_offsetWrite s + length d + 255 \<le> limit"
  shows "\<exists>s'. writeBytes H d s = Some s' \<and> stream_ok s' \<and> written s' = written s @ d \<and> bs_offsetWrite s' = bs_offsetWrite s + length d \<and>
    bs_offsetRead s' = bs_offsetRead s"
proof -
  let ?D = "stream_data s" and ?w = "bs_offsetWrite s"
  have ok: "ba_cb s = int (length ?D)" "length ?D < 2 ^ 31" "?w \<le> length ?D" using assms(1) by (simp_all add: stream_ok_def)
  have free: "nat ((ba_cb s - int ?w) mod 2 ^ 64) = length ?D - ?w" using ok by (simp flip: of_nat_diff)
  have size: "size_of_cb s = length ?D" using ok by (simp add: size_of_cb_def)
  show ?thesis
  proof (cases "length d > length ?D - ?w")
    case False
    show ?thesis
    proof (cases "d = []")
      case True
      then show ?thesis using assms(1) by (simp add: writeBytes_def store_at_def stream_ok_def written_def stream_data_def)
    next
      case nonempty: False
      then obtain b where b: "ba_p s = Some b" using False ok(3) by (auto simp: stream_data_def split: option.splits)
      then have "?w + length d \<le> length b" using False ok(3) by (simp add: stream_data_def)
      then show ?thesis using free False b nonempty ok
        by (simp add: writeBytes_def store_at_def blit_def stream_ok_def written_def stream_data_def Let_def)
    qed
  next
    case True
    define N where "N = (?w + length d + 255) div 256 * 256"
    have N: "?w + length d \<le> N" "N \<le> ?w + length d + 255" "0 < N" using True unfolding N_def by linarith+
    have need: "length ?D + (length d - (length ?D - ?w)) = ?w + length d" using ok(3) True by simp
    have bound: "?w + length d + 255 < 2 ^ 31" using assms(3,4) by simp
    have new_cb: "unat ((word_of_nat (size_t_wrap (length ?D + (length d - (length ?D - ?w))) + 255) :: u64) AND 0xffffff00) = N"
      using round_up_256 [of "?w + length d"] bound unfolding need N_def by simp
    obtain nd where nd: "ch_malloc H N = Some nd" "length nd = N" using assms(2,4) N unfolding c_heap_ok_def by (meson le_trans)
    have old: "load (ba_p s) 0 (length ?D) = Some ?D" using load_data [of 0 "length ?D" "ba_p s"] by (simp add: stream_data_def)
    have le: "length ?D \<le> N" using N True ok(3) by simp
    have sN: "sint (word_of_nat N :: u32) = int N"
      using N(2) bound by (simp add: signed_of_nat signed_take_bit_int_eq_self)
    let ?b = "?D @ drop (length ?D) nd"
    have fits: "?w + length d \<le> length ?b" using N(1) nd(2) le by simp
    have dn: "d \<noteq> []" using True by auto
    have "blit nd 0 ?D = Some ?b" using le nd(2) by (simp add: blit_def)
    moreover have "blit ?b ?w d = Some (take ?w ?b @ d @ drop (?w + length d) ?b)" using fits by (simp add: blit_def)
    ultimately have "writeBytes H d s = Some (s\<lparr>ba_p := Some (take ?w ?b @ d @ drop (?w + length d) ?b), ba_cb := int N, bs_offsetWrite := ?w + length d\<rparr>)"
      using True nd(1) old dn sN unfolding writeBytes_def Let_def free size new_cb
      by (simp add: store_at_def del: take_append drop_append append_assoc)
    moreover have "length (take ?w ?b @ d @ drop (?w + length d) ?b) = N" using fits nd(2) le by simp
    moreover have "take (?w + length d) (take ?w ?b @ d @ drop (?w + length d) ?b) = take ?w ?D @ d" using ok(3) by simp
    ultimately show ?thesis using N bound
      by (simp add: stream_ok_def written_def stream_data_def del: take_append drop_append append_assoc length_append length_take length_drop)
  qed
qed

text \<open>The bytes that are still to be read.\<close>

definition avail :: "bytestream \<Rightarrow> bytes \<Rightarrow> bool" where
  "avail s r \<longleftrightarrow> stream_ok s \<and> bs_offsetRead s \<le> length (stream_data s) \<and> drop (bs_offsetRead s) (stream_data s) = r"

lemma readBytes_avail:
  assumes "avail s (d @ r)"
  shows "\<exists>s'. readBytes (length d) s = Some (d, True, s') \<and> avail s' r"
proof -
  let ?D = "stream_data s" and ?o = "bs_offsetRead s"
  have ok: "ba_cb s = int (length ?D)" "length ?D < 2 ^ 31" "?o \<le> length ?D" "drop ?o ?D = d @ r"
    using assms by (simp_all add: stream_ok_def avail_def)
  have len: "length ?D - ?o = length d + length r" using arg_cong [OF ok(4), of length] by simp
  have "nat ((ba_cb s - int ?o) mod 2 ^ 64) = length ?D - ?o" using ok by (simp flip: of_nat_diff)
  moreover have "?o + length d \<le> length ?D" using ok(3) len by linarith
  moreover have "load (ba_p s) ?o (length d) = Some d"
    using load_data [of ?o "length d" "ba_p s"] ok(3,4) len by (simp add: stream_data_def)
  ultimately have "readBytes (length d) s = Some (d, True, s\<lparr>bs_offsetRead := ?o + length d\<rparr>)"
    using len by (simp add: readBytes_def Let_def)
  moreover have "drop (?o + length d) ?D = r" using ok(4) by (metis append_eq_conv_conj add.commute drop_drop)
  ultimately show ?thesis using assms \<open>?o + length d \<le> length ?D\<close> by (simp add: avail_def stream_ok_def stream_data_def)
qed

lemma readBytes_avail':
  assumes "avail s (d @ r)" and "length d = n"
  obtains s' where "readBytes n s = Some (d, True, s')" "avail s' r"
  using readBytes_avail [OF assms(1)] assms(2) by blast


subsection \<open>What is written is read back\<close>

text \<open>The bytes of a value, and the values that the stream can hold.\<close>

fun val_bytes :: "val \<Rightarrow> bytes" where
  "val_bytes V_EMPTY = le_bytes 4 0"
| "val_bytes (V_INT32 i) = le_bytes 4 1 @ le_bytes 4 (unat i)"
| "val_bytes (V_INT64 i) = le_bytes 4 2 @ le_bytes 8 (unat i)"
| "val_bytes (V_UINT32 i) = le_bytes 4 3 @ le_bytes 4 (unat i)"
| "val_bytes (V_UINT64 i) = le_bytes 4 4 @ le_bytes 8 (unat i)"
| "val_bytes (V_FLOAT32 f) = le_bytes 4 5 @ le_bytes 4 (unat f)"
| "val_bytes (V_FLOAT64 f) = le_bytes 4 6 @ le_bytes 8 (unat f)"
| "val_bytes (V_STRING x) = le_bytes 4 8 @ le_bytes 4 (length x) @ x"
| "val_bytes (V_ARRAY xs) = le_bytes 4 10 @ le_bytes 4 (length xs) @ concat (map val_bytes xs)"
| "val_bytes (V_MAP m) = le_bytes 4 11 @ le_bytes 4 (length m) @ concat (map (\<lambda>(k, x). le_bytes 4 (length k) @ k @ val_bytes x) m)"
| "val_bytes (V_ERROR c x) = le_bytes 4 13 @ le_bytes 4 (unat c) @ le_bytes 4 (length x) @ x"
| "val_bytes _ = []"

fun storable :: "val \<Rightarrow> bool" where
  "storable (V_MEASUREMENT _ _) = False"
| "storable (V_STRING _) = False"
| "storable (V_BYTEARRAY _) = False"
| "storable (V_OBJECT _) = False"
| "storable (V_wild _ _) = False"
| "storable (V_ARRAY xs) = (\<forall>x\<in>set xs. storable x)"
| "storable (V_MAP m) = (vmap_ok m \<and> (\<forall>kx\<in>set m. storable (snd kx)))"
| "storable _ = True"

fun val_depth :: "val \<Rightarrow> nat" where
  "val_depth (V_ARRAY xs) = Suc (fold (\<lambda>x. max (val_depth x)) xs 0)"
| "val_depth (V_MAP m) = Suc (fold (\<lambda>(k, x). max (val_depth x)) m 0)"
| "val_depth _ = 0"

text \<open>A writer that appends given bytes, and a reader that takes given bytes for a given result.\<close>

definition appends :: "nat \<Rightarrow> (bytestream \<Rightarrow> bytestream option) \<Rightarrow> bytes \<Rightarrow> bool" where
  "appends limit f d \<longleftrightarrow> (\<forall>s. stream_ok s \<and> bs_offsetWrite s + length d + 255 \<le> limit \<longrightarrow>
     (\<exists>s'. f s = Some s' \<and> stream_ok s' \<and> written s' = written s @ d \<and> bs_offsetWrite s' = bs_offsetWrite s + length d \<and>
        bs_offsetRead s' = bs_offsetRead s))"

definition takes :: "(bytestream \<Rightarrow> ('a \<times> bool \<times> bytestream) option) \<Rightarrow> bytes \<Rightarrow> 'a \<Rightarrow> bool" where
  "takes f d x \<longleftrightarrow> (\<forall>s r. avail s (d @ r) \<longrightarrow> (\<exists>s'. f s = Some (x, True, s') \<and> avail s' r))"

lemma appends_Some: "appends limit Some []"
  by (simp add: appends_def)

lemma appends_bind:
  assumes "appends limit f d" and "appends limit g e"
  shows "appends limit (\<lambda>s. f s \<bind> g) (d @ e)"
  unfolding appends_def
proof (intro allI impI, elim conjE)
  fix s assume s: "stream_ok s" "bs_offsetWrite s + length (d @ e) + 255 \<le> limit"
  have "bs_offsetWrite s + length d + 255 \<le> limit" using s(2) by simp
  then obtain t where t: "f s = Some t" "stream_ok t" "written t = written s @ d" "bs_offsetWrite t = bs_offsetWrite s + length d"
      "bs_offsetRead t = bs_offsetRead s"
    using assms(1) s(1) unfolding appends_def by blast
  have "bs_offsetWrite t + length e + 255 \<le> limit" using s(2) t(4) by simp
  then obtain u where "g t = Some u" "stream_ok u" "written u = written t @ e" "bs_offsetWrite u = bs_offsetWrite t + length e"
      "bs_offsetRead u = bs_offsetRead t"
    using assms(2) t(2) unfolding appends_def by blast
  then show "\<exists>s'. f s \<bind> g = Some s' \<and> stream_ok s' \<and> written s' = written s @ d @ e \<and>
      bs_offsetWrite s' = bs_offsetWrite s + length (d @ e) \<and> bs_offsetRead s' = bs_offsetRead s"
    using t by simp
qed

lemma takes_readBytes: "length d = n \<Longrightarrow> takes (readBytes n) d d"
  unfolding takes_def using readBytes_avail by blast

lemma takes_bind:
  assumes "takes f d x" and "takes (h x True) e z"
  shows "takes (\<lambda>s. f s \<bind> (\<lambda>(y, got, s). h y got s)) (d @ e) z"
  using assms unfolding takes_def by fastforce

lemma takes_Some: "takes (\<lambda>s. Some (x, True, s)) [] x"
  by (simp add: takes_def)

lemma takes_map:
  assumes "takes f d x" and "\<And>s. h x True s = Some (z, True, s)"
  shows "takes (\<lambda>s. f s \<bind> (\<lambda>(y, got, s). h y got s)) d z"
  using assms unfolding takes_def by fastforce

lemma appends_writeBytes: "c_heap_ok limit H \<Longrightarrow> limit < 2 ^ 31 \<Longrightarrow> appends limit (writeBytes H d) d"
  unfolding appends_def using writeBytes_ok by blast

lemma appends_write_sized: "c_heap_ok limit H \<Longrightarrow> limit < 2 ^ 31 \<Longrightarrow> appends limit (write_sized H d) (le_bytes 4 (length d) @ d)"
  unfolding write_sized_def by (intro appends_bind appends_writeBytes)

lemma appends_vals:
  "(\<And>x. x \<in> set xs \<Longrightarrow> appends limit (val_write H x) (val_bytes x)) \<Longrightarrow> appends limit (vals_write H xs) (concat (map val_bytes xs))"
proof (induction xs)
  case (Cons x xs)
  show ?case by (auto intro!: appends_bind Cons simp del: val_bytes.simps)
qed (simp add: appends_def)

lemma appends_fields:
  assumes "c_heap_ok limit H" and "limit < 2 ^ 31"
  shows "(\<And>kx. kx \<in> set m \<Longrightarrow> appends limit (val_write H (snd kx)) (val_bytes (snd kx))) \<Longrightarrow>
    appends limit (fields_write H m) (concat (map (\<lambda>(k, x). le_bytes 4 (length k) @ k @ val_bytes x) m))"
proof (induction m)
  case (Cons kx m)
  obtain k x where kx: "kx = (k, x)" by (cases kx)
  have x: "appends limit (val_write H x) (val_bytes x)" using Cons.prems [of kx] kx by simp
  have "appends limit (\<lambda>s. val_write H x s \<bind> fields_write H m) (val_bytes x @ concat (map (\<lambda>(k, x). le_bytes 4 (length k) @ k @ val_bytes x) m))"
    by (rule appends_bind [OF x]) (use Cons in auto)
  from appends_bind [OF appends_write_sized [OF assms] this, of k] show ?case by (simp add: kx)
qed (simp add: appends_def)

lemma appends_val:
  assumes "c_heap_ok limit H" and "limit < 2 ^ 31" and "\<And>s. val_write H v s = writeBytes H (le_bytes 4 t) s \<bind> g" and "appends limit g d"
  shows "appends limit (val_write H v) (le_bytes 4 t @ d)"
proof -
  have "val_write H v = (\<lambda>s. writeBytes H (le_bytes 4 t) s \<bind> g)" using assms(3) by (rule ext)
  then show ?thesis using appends_bind [OF appends_writeBytes [OF assms(1,2)] assms(4)] by simp
qed

lemma appends_val_write:
  assumes "c_heap_ok limit H" and "limit < 2 ^ 31"
  shows "storable v \<or> (\<exists>x. v = V_STRING x) \<Longrightarrow> appends limit (val_write H v) (val_bytes v)"
proof (induction v)
  case V_EMPTY
  have "appends limit (val_write H V_EMPTY) (le_bytes 4 0 @ [])"
    by (rule appends_val [OF assms, where g = Some]) (simp_all add: val_write.simps appends_Some)
  then show ?case by simp
next
  case (V_ARRAY xs)
  have "appends limit (\<lambda>s. writeBytes H (le_bytes 4 (length xs)) s \<bind> vals_write H xs) (le_bytes 4 (length xs) @ concat (map val_bytes xs))"
    using V_ARRAY by (intro appends_bind appends_writeBytes assms appends_vals) auto
  then show ?case unfolding val_bytes.simps by (intro appends_val [OF assms]) (simp_all add: val_write.simps)
next
  case (V_MAP m)
  have "appends limit (\<lambda>s. writeBytes H (le_bytes 4 (length m)) s \<bind> fields_write H m)
      (le_bytes 4 (length m) @ concat (map (\<lambda>(k, x). le_bytes 4 (length k) @ k @ val_bytes x) m))"
    using V_MAP by (intro appends_bind appends_writeBytes assms appends_fields) force+
  then show ?case unfolding val_bytes.simps by (intro appends_val [OF assms]) (simp_all add: val_write.simps)
next
  case (V_ERROR c x)
  have "appends limit (\<lambda>s. writeBytes H (le_bytes 4 (unat c)) s \<bind> write_sized H x) (le_bytes 4 (unat c) @ le_bytes 4 (length x) @ x)"
    by (intro appends_bind appends_writeBytes assms appends_write_sized)
  then show ?case unfolding val_bytes.simps by (intro appends_val [OF assms]) (simp_all add: val_write.simps)
qed (auto simp: val_write.simps intro!: appends_val assms appends_writeBytes appends_write_sized)

lemma takes_word: "length d = n \<Longrightarrow> takes (read_word n C) d (C (word_of_bytes d))"
  unfolding read_word_def by (rule takes_map [OF takes_readBytes]) simp_all

lemma word_of_le_bytes: "LENGTH('a) = 8 * n \<Longrightarrow> word_of_bytes (le_bytes n (unat (i :: 'a::len word))) = i"
proof -
  assume n: "LENGTH('a) = 8 * n"
  have "unat i < 256 ^ n" using unsigned_less [where 'a = nat, of i] unfolding n by (simp add: power_mult)
  then show ?thesis by (simp add: word_of_bytes_def le_val_le_bytes_id)
qed

lemma takes_val:
  assumes "takes (val_read_as (val_read n H) H t) d v" and "t < 256"
  shows "takes (val_read (Suc n) H) (le_bytes 4 t @ d) v"
proof -
  have "le_val (le_bytes 4 t) = t" using assms(2) by (intro le_val_le_bytes_id) simp
  then have "takes (\<lambda>s. readBytes 4 s \<bind> (\<lambda>(d, got, s). if got then val_read_as (val_read n H) H (le_val d) s else Some (V_EMPTY, False, s))) (le_bytes 4 t @ d) v"
    using assms(1) by (intro takes_bind [OF takes_readBytes]) simp_all
  then show ?thesis by (simp add: takes_def val_read.simps)
qed

lemma takes_read_string:
  assumes "c_heap_ok limit H" and "limit < 2 ^ 31" and "length x + 13 \<le> limit"
  shows "takes (read_string H) (le_bytes 4 (length x) @ x) x"
proof -
  have n: "le_val (le_bytes 4 (length x)) = length x" using assms(2,3) by (intro le_val_le_bytes_id) simp
  obtain blk where blk: "ch_malloc H (12 + length x + 1) = Some blk" "length blk = 12 + length x + 1"
    using malloc_ok [OF assms(1), of "12 + length x + 1"] assms(3) by auto
  have "blit (take (length x) (drop 12 blk)) 0 x = Some x" using blk(2) by (simp add: blit_def)
  then show ?thesis unfolding read_string_def
    by (intro takes_bind [OF takes_readBytes]) (simp_all only: n blk(1) length_le_bytes Let_def bind.bind_lunit not_True_eq_False if_False,
      rule takes_map [OF takes_readBytes], simp_all)
qed

lemma takes_vals:
  "(\<And>x. x \<in> set xs \<Longrightarrow> takes R (val_bytes x) x) \<Longrightarrow> takes (read_vals R (length xs) ys) (concat (map val_bytes xs)) (V_ARRAY (ys @ xs))"
proof (induction xs arbitrary: ys)
  case (Cons x xs)
  have "takes (\<lambda>s. R s \<bind> (\<lambda>(x, got, s). if got then read_vals R (length xs) (ys @ [x]) s else Some (V_ARRAY ys, False, s)))
      (val_bytes x @ concat (map val_bytes xs)) (V_ARRAY (ys @ x # xs))"
    using Cons.IH [of "ys @ [x]"] Cons.prems by (intro takes_bind [where x = x]) simp_all
  then show ?case by (simp add: takes_def)
qed (simp add: takes_def)

lemma vmap_put_greatest: "vmap_ok (m @ [(k, x)]) \<Longrightarrow> k \<notin> fst ` set m \<and> vmap_put k y m = m @ [(k, y)]"
proof -
  assume ok: "vmap_ok (m @ [(k, x)])"
  then have less: "\<forall>k'\<in>fst ` set m. ord_class.lexordp k' k" by (auto simp: vmap_ok_def sorted_wrt_append)
  then have "k \<notin> fst ` set m" by (meson lexordp_irreflexive')
  moreover from less this have "vmap_put k y m = m @ [(k, y)]"
    by (induction m) (auto dest: lexordp_antisym)
  ultimately show ?thesis by blast
qed

lemma vmap_insert_greatest: "vmap_ok (m @ [(k, x)]) \<Longrightarrow> vmap_insert k x m = m @ [(k, x)]"
  using vmap_put_greatest [of m k x x] vmap_find_fst [of m k] by (simp add: vmap_insert_def)

lemma takes_fields:
  assumes "c_heap_ok limit H" and "limit < 2 ^ 31"
  shows "(\<And>kx. kx \<in> set m \<Longrightarrow> takes R (val_bytes (snd kx)) (snd kx) \<and> length (fst kx) + 13 \<le> limit) \<Longrightarrow> vmap_ok (m' @ m) \<Longrightarrow>
    takes (read_fields H R (length m) m') (concat (map (\<lambda>(k, x). le_bytes 4 (length k) @ k @ val_bytes x) m)) (V_MAP (m' @ m))"
proof (induction m arbitrary: m')
  case (Cons kx m)
  obtain k x where kx: "kx = (k, x)" by (cases kx)
  have prems: "takes R (val_bytes x) x" "length k + 13 \<le> limit" using Cons.prems(1) [of kx] kx by simp_all
  have "vmap_ok (m' @ [(k, x)])" using Cons.prems(2) by (auto simp: vmap_ok_def sorted_wrt_append kx)
  then have "vmap_insert k x m' = m' @ [(k, x)]" by (rule vmap_insert_greatest)
  moreover have "takes (read_fields H R (length m) (m' @ [(k, x)])) (concat (map (\<lambda>(k, x). le_bytes 4 (length k) @ k @ val_bytes x) m)) (V_MAP (m' @ kx # m))"
    using Cons.IH [of "m' @ [(k, x)]"] Cons.prems kx by simp
  ultimately have "takes (\<lambda>s. read_string H s \<bind> (\<lambda>(key, got, s). if \<not> got then Some (V_MAP m', False, s)
        else R s \<bind> (\<lambda>(x, got, s). if got then read_fields H R (length m) (vmap_insert key x m') s else Some (V_MAP m', False, s))))
      ((le_bytes 4 (length k) @ k) @ val_bytes x @ concat (map (\<lambda>(k, x). le_bytes 4 (length k) @ k @ val_bytes x) m)) (V_MAP (m' @ kx # m))"
    by (intro takes_bind [OF takes_read_string [OF assms prems(2)]]) (simp, rule takes_bind [OF prems(1)], simp)
  then show ?case by (simp add: takes_def kx)
qed (simp add: takes_def)


lemma val_depth_less:
  "x \<in> set xs \<Longrightarrow> val_depth x < val_depth (V_ARRAY xs)"
  "(k, x) \<in> set m \<Longrightarrow> val_depth x < val_depth (V_MAP m)"
proof -
  have fold_le: "a \<le> fold (\<lambda>x. max (f x)) ys a" for ys and f :: "'z \<Rightarrow> nat" and a
    by (induction ys arbitrary: a) (auto intro: order_trans [OF max.cobounded2])
  have mem_le: "y \<in> set ys \<Longrightarrow> f y \<le> fold (\<lambda>x. max (f x)) ys a" for y ys and f :: "'z \<Rightarrow> nat" and a
    by (induction ys arbitrary: a) (auto intro: order_trans [OF max.cobounded1 fold_le])
  show "x \<in> set xs \<Longrightarrow> val_depth x < val_depth (V_ARRAY xs)" using mem_le [of x xs val_depth 0] by simp
  show "(k, x) \<in> set m \<Longrightarrow> val_depth x < val_depth (V_MAP m)" using mem_le [of "(k, x)" m "\<lambda>kx. val_depth (snd kx)" 0]
    by (simp add: case_prod_unfold)
qed

lemma length_member_concat: "x \<in> set xs \<Longrightarrow> length (f x) \<le> length (concat (map f xs))"
  by (auto simp: length_concat member_le_sum_list)

lemma length_le_concat: "(\<And>x. x \<in> set xs \<Longrightarrow> 0 < length (f x)) \<Longrightarrow> length xs \<le> length (concat (map f xs))"
proof (induction xs)
  case (Cons x xs)
  have "0 < length (f x)" "length xs \<le> length (concat (map f xs))" using Cons by simp_all
  then show ?case by (simp del: length_greater_0_conv)
qed simp

lemma val_bytes_nonempty: "storable v \<Longrightarrow> 0 < length (val_bytes v)"
  by (cases v) (simp_all del: length_greater_0_conv)

lemma takes_val_word:
  assumes "\<And>R. val_read_as R H t = read_word k C" and "t < 256" and "0 < n" and "LENGTH('a) = 8 * k"
  shows "takes (val_read n H) (le_bytes 4 t @ le_bytes k (unat (i :: 'a::len word))) (C i)"
proof -
  obtain n' where n: "n = Suc n'" using assms(3) by (cases n) simp_all
  have "takes (read_word k C) (le_bytes k (unat i)) (C i)"
    using takes_word [of "le_bytes k (unat i)" k C] word_of_le_bytes [OF assms(4), of i] by simp
  then show ?thesis unfolding n using assms(1,2) by (intro takes_val) simp_all
qed

lemma takes_val_read:
  assumes "c_heap_ok limit H" and "limit < 2 ^ 31"
  shows "storable v \<Longrightarrow> val_depth v < n \<Longrightarrow> length (val_bytes v) + 13 \<le> limit \<Longrightarrow> takes (val_read n H) (val_bytes v) v"
proof (induction v arbitrary: n)
  case V_EMPTY
  then obtain n' where n: "n = Suc n'" by (cases n) simp_all
  have "takes (val_read (Suc n') H) (le_bytes 4 0 @ []) V_EMPTY" by (intro takes_val) (simp_all add: val_read_as_def takes_def)
  then show ?case using n by simp
next
  case (V_ARRAY xs)
  then obtain n' where n: "n = Suc n'" by (cases n) simp_all
  have len: "x \<in> set xs \<Longrightarrow> length (val_bytes x) + 13 \<le> limit" for x
    using length_member_concat [of x xs val_bytes] V_ARRAY.prems(3) by simp
  have dep: "x \<in> set xs \<Longrightarrow> val_depth x < n'" for x
    using val_depth_less(1) [of x xs] V_ARRAY.prems(2) n by simp
  have xs: "takes (read_vals (val_read n' H) (length xs) []) (concat (map val_bytes xs)) (V_ARRAY ([] @ xs))"
    using V_ARRAY len dep by (intro takes_vals) simp
  have "length xs < 2 ^ 31" using length_le_concat [of xs val_bytes] val_bytes_nonempty V_ARRAY.prems(1,3) assms(2)
    by (simp del: length_greater_0_conv)
  then have "le_val (le_bytes 4 (length xs)) = length xs" by (intro le_val_le_bytes_id) simp
  then have "takes (\<lambda>s. readBytes 4 s \<bind> (\<lambda>(d, got, s). if got then read_vals (val_read n' H) (le_val d) [] s else Some (V_ARRAY [], False, s)))
      (le_bytes 4 (length xs) @ concat (map val_bytes xs)) (V_ARRAY xs)"
    using xs by (intro takes_bind [OF takes_readBytes]) simp_all
  moreover have "val_read_as (val_read n' H) H 10 =
      (\<lambda>s. readBytes 4 s \<bind> (\<lambda>(d, got, s). if got then read_vals (val_read n' H) (le_val d) [] s else Some (V_ARRAY [], False, s)))"
    by (simp add: val_read_as_def fun_eq_iff)
  ultimately show ?case unfolding n val_bytes.simps by (intro takes_val) simp_all
next
  case (V_MAP m)
  then obtain n' where n: "n = Suc n'" by (cases n) simp_all
  let ?f = "\<lambda>(k, x). le_bytes 4 (length k) @ k @ val_bytes x"
  have len: "length (fst kx) + length (val_bytes (snd kx)) + 13 \<le> limit" if "kx \<in> set m" for kx
    using length_member_concat [OF that, of ?f] V_MAP.prems(3) by (simp add: case_prod_unfold)
  have dep: "val_depth (snd kx) < n'" if "kx \<in> set m" for kx
    using val_depth_less(2) [of "fst kx" "snd kx" m] that V_MAP.prems(2) n by simp
  have IH: "takes (val_read n' H) (val_bytes (snd kx)) (snd kx) \<and> length (fst kx) + 13 \<le> limit" if "kx \<in> set m" for kx
    using V_MAP.IH [OF that snds.intros, of n'] V_MAP.prems(1) len [OF that] dep [OF that] that by simp
  then have m: "takes (read_fields H (val_read n' H) (length m) []) (concat (map ?f m)) (V_MAP ([] @ m))"
    using V_MAP.prems(1) by (intro takes_fields [OF assms]) simp_all
  have "length m < 2 ^ 31" using length_le_concat [of m ?f] V_MAP.prems(3) assms(2)
    by (simp add: case_prod_unfold del: length_greater_0_conv)
  then have "le_val (le_bytes 4 (length m)) = length m" by (intro le_val_le_bytes_id) simp
  then have "takes (\<lambda>s. readBytes 4 s \<bind> (\<lambda>(d, got, s). if got then read_fields H (val_read n' H) (le_val d) [] s else Some (V_MAP [], False, s)))
      (le_bytes 4 (length m) @ concat (map ?f m)) (V_MAP m)"
    using m by (intro takes_bind [OF takes_readBytes]) simp_all
  moreover have "val_read_as (val_read n' H) H 11 =
      (\<lambda>s. readBytes 4 s \<bind> (\<lambda>(d, got, s). if got then read_fields H (val_read n' H) (le_val d) [] s else Some (V_MAP [], False, s)))"
    by (simp add: val_read_as_def fun_eq_iff)
  ultimately show ?case unfolding n val_bytes.simps by (intro takes_val) simp_all
next
  case (V_ERROR c x)
  then obtain n' where n: "n = Suc n'" by (cases n) simp_all
  have x: "takes (read_string H) (le_bytes 4 (length x) @ x) x" using V_ERROR.prems(3) by (intro takes_read_string [OF assms]) simp
  have "takes (\<lambda>s. readBytes 4 s \<bind> (\<lambda>(c, got, s). read_string H s \<bind> (\<lambda>(x, got', s). Some (V_ERROR (if got then word_of_bytes c else 0) x, True, s))))
      (le_bytes 4 (unat c) @ le_bytes 4 (length x) @ x) (V_ERROR c x)"
    by (intro takes_bind [OF takes_readBytes]) (simp_all add: word_of_le_bytes takes_map [OF x])
  moreover have "val_read_as (val_read n' H) H 13 = (\<lambda>s. readBytes 4 s \<bind> (\<lambda>(c, got, s). read_string H s \<bind> (\<lambda>(x, got', s).
      Some (V_ERROR (if got then word_of_bytes c else 0) x, True, s))))"
    by (simp add: val_read_as_def fun_eq_iff)
  ultimately show ?case unfolding n val_bytes.simps by (intro takes_val) simp_all
qed (auto intro!: takes_val_word simp: val_read_as_def fun_eq_iff)


lemma stream_new_ok: "stream_ok bytestream_new" "bs_offsetWrite bytestream_new = 0" "bs_offsetRead bytestream_new = 0" "written bytestream_new = []"
  by (simp_all add: stream_ok_def bytestream_new_def stream_data_def written_def)

text \<open>A value written to a new stream can be read from its start.\<close>

lemma val_written:
  assumes "c_heap_ok limit H" and "limit < 2 ^ 31" and "storable v \<or> (\<exists>x. v = V_STRING x)" and "length (val_bytes v) + 255 \<le> limit"
  shows "\<exists>s r. val_write H v bytestream_new = Some s \<and> written s = val_bytes v \<and> avail s (val_bytes v @ r)"
proof -
  obtain s where s: "val_write H v bytestream_new = Some s" "stream_ok s" "written s = val_bytes v" "bs_offsetRead s = 0"
    using appends_val_write [OF assms(1-3)] assms(4) stream_new_ok unfolding appends_def by fastforce
  have "stream_data s = val_bytes v @ drop (bs_offsetWrite s) (stream_data s)" using s(3) unfolding written_def by (metis append_take_drop_id)
  then show ?thesis using s by (auto simp: avail_def)
qed

text \<open>C38. Serialization round trip: empty values, numbers, error values, and arrays and maps of such values nested to any depth, written to a new
  stream, are read back the same, on a heap that grants what is asked for up to a limit below 2 GB.\<close>

theorem val_stream_roundtrip:
  assumes "c_heap_ok limit H" and "limit < 2 ^ 31" and "storable v" and "length (val_bytes v) + 255 \<le> limit"
  shows "\<exists>s s'. val_write H v bytestream_new = Some s \<and> written s = val_bytes v \<and> val_read (Suc (val_depth v)) H s = Some (v, True, s')"
proof -
  obtain s r where s: "val_write H v bytestream_new = Some s" "written s = val_bytes v" "avail s (val_bytes v @ r)"
    using val_written [OF assms(1,2)] assms(3,4) by blast
  have "takes (val_read (Suc (val_depth v)) H) (val_bytes v) v" using assms(3,4) by (intro takes_val_read [OF assms(1,2)]) simp_all
  then show ?thesis using s unfolding takes_def by blast
qed

lemma val_stream_roundtrip_witness:
  "\<exists>s s'. val_write (fill_heap 1000 7) (V_ARRAY [V_INT32 5, V_MAP [([65], V_EMPTY), ([66], V_ERROR 2 [67])]]) bytestream_new = Some s \<and>
     val_read 3 (fill_heap 1000 7) s = Some (V_ARRAY [V_INT32 5, V_MAP [([65], V_EMPTY), ([66], V_ERROR 2 [67])]], True, s')"
proof -
  let ?v = "V_ARRAY [V_INT32 5, V_MAP [([65], V_EMPTY), ([66], V_ERROR 2 [67])]]"
  have "storable ?v" by (simp add: vmap_ok_def)
  moreover have "length (val_bytes ?v) + 255 \<le> 1000" by simp
  moreover have "Suc (val_depth ?v) = 3" by simp
  ultimately show ?thesis using val_stream_roundtrip [OF fill_heap_ok [of 1000 7], of ?v] unfolding \<open>Suc (val_depth ?v) = 3\<close> by fastforce
qed

text \<open>C39. A string value of four bytes or more does not survive serialization: it is written with its length and bytes, and reading it back succeeds
  with a value whose string pointer is made of the length and the first four bytes of the string.\<close>

theorem val_string_not_restored:
  assumes "c_heap_ok limit H" and "limit < 2 ^ 31" and "length x + 263 \<le> limit" and "4 \<le> length x"
  shows "\<exists>s s'. val_write H (V_STRING x) bytestream_new = Some s \<and> written s = le_bytes 4 8 @ le_bytes 4 (length x) @ x \<and>
    val_read (Suc n) H s = Some (V_wild 8 (le_bytes 4 (length x) @ take 4 x), True, s')"
proof -
  let ?d = "le_bytes 4 (length x) @ take 4 x"
  have "storable (V_STRING x) \<or> (\<exists>y. V_STRING x = V_STRING y)" by blast
  from val_written [OF assms(1,2) this] assms(3) obtain s r where
    s: "val_write H (V_STRING x) bytestream_new = Some s" "written s = val_bytes (V_STRING x)" "avail s (val_bytes (V_STRING x) @ r)" by auto
  have len: "length ?d = 8" using assms(4) by simp
  then have "takes (read_pointer 8 (V_STRING [])) ?d (V_wild 8 ?d)"
    unfolding read_pointer_def by (intro takes_map [OF takes_readBytes]) (auto simp: )
  then have "takes (val_read (Suc n) H) (le_bytes 4 8 @ ?d) (V_wild 8 ?d)"
    by (intro takes_val) (simp_all add: val_read_as_def takes_def)
  moreover have "val_bytes (V_STRING x) @ r = (le_bytes 4 8 @ ?d) @ drop 4 x @ r" by simp
  ultimately show ?thesis using s unfolding takes_def by (metis val_bytes.simps(8))
qed


lemma val_string_not_restored_witness:
  "\<exists>s s'. val_write (fill_heap 1000 7) (V_STRING [72, 101, 108, 108, 111]) bytestream_new = Some s \<and>
     val_read 1 (fill_heap 1000 7) s = Some (V_wild 8 (le_bytes 4 5 @ [72, 101, 108, 108]), True, s')"
proof -
  let ?x = "[72, 101, 108, 108, 111 :: byte]"
  have len: "length ?x = 5" and t: "take 4 ?x = [72, 101, 108, 108]" and n: "Suc 0 = 1" by simp_all
  have "(1000 :: nat) < 2 ^ 31" "length ?x + 263 \<le> 1000" "4 \<le> length ?x" by simp_all
  from val_string_not_restored [OF fill_heap_ok this, of 7 0] show ?thesis unfolding len t n by blast
qed

end
