(* ===== verification/ValJson.thy ===== *)
theory ValJson
  imports ByteStream
begin

section \<open>Values as text (\<^verbatim>\<open>val::toJson\<close>, \<^verbatim>\<open>val::parse\<close> in \<^verbatim>\<open>base/val.cpp\<close>)\<close>

text \<open>
  The printer and the parser of values. A string is the memory \<open>m\<close> from \<^verbatim>\<open>start()\<close>, of which the first \<open>cb\<close> bytes are its characters, as in
  \<^theory_text>\<open>StrText\<close>; the strings that are built are their bytes. Loops over the characters take \<open>cb - offset + 1\<close> rounds: a round reads
  a character, and a loop that does not advance never ends. Undefined behaviour, a failed assertion and not returning are \<open>None\<close>.
  The strings of a value are not substrings of a longer buffer, for which \<^verbatim>\<open>c_str\<close> gives other characters (\<^theory_text>\<open>StrStore\<close>).
\<close>

subsection \<open>Printing\<close>

text \<open>What \<^verbatim>\<open>printf\<close> makes of numbers: \<^verbatim>\<open>%d\<close> and \<^verbatim>\<open>%u\<close> in decimal, \<^verbatim>\<open>%ld\<close> and \<^verbatim>\<open>%lu\<close> too, for a \<^verbatim>\<open>long\<close> of 64 bits; \<^verbatim>\<open>%f\<close> and the text of a measurement are parameters.\<close>

record text_ops =
  to_double_text :: "u64 \<Rightarrow> bytes"
  to_float_text :: "u32 \<Rightarrow> bytes"
  to_measurement_text :: "u32 \<Rightarrow> munit \<Rightarrow> bytes"

fun decimal :: "nat \<Rightarrow> bytes" where
  "decimal n = (if n < 10 then [word_of_nat (0x30 + n)] else decimal (n div 10) @ [word_of_nat (0x30 + n mod 10)])"

declare decimal.simps [simp del]

definition signed_decimal :: "int \<Rightarrow> bytes" where
  "signed_decimal i = (if i < 0 then 0x2d # decimal (nat (- i)) else decimal (nat i))"

definition c_chars :: "bytes \<Rightarrow> bytes" where
  "c_chars s = takeWhile (\<lambda>b. b \<noteq> 0) s"

definition quoted :: "bytes \<Rightarrow> bytes" where
  "quoted s = 0x22 # c_chars s @ [0x22]"

fun toJson :: "text_ops \<Rightarrow> val \<Rightarrow> bytes option"
  and elems_toJson :: "text_ops \<Rightarrow> val list \<Rightarrow> bool \<Rightarrow> bytes \<Rightarrow> bytes option"
  and fields_toJson :: "text_ops \<Rightarrow> (bytes \<times> val) list \<Rightarrow> bool \<Rightarrow> bytes \<Rightarrow> bytes option" where
  "toJson T V_EMPTY = Some []"
| "toJson T (V_INT32 i) = Some (signed_decimal (sint i))"
| "toJson T (V_UINT32 i) = Some (decimal (unat i))"
| "toJson T (V_INT64 i) = Some (signed_decimal (sint i))"
| "toJson T (V_UINT64 i) = Some (decimal (unat i))"
| "toJson T (V_FLOAT32 f) = Some (to_float_text T f)"
| "toJson T (V_FLOAT64 f) = Some (to_double_text T f)"
| "toJson T (V_STRING s) = Some (quoted s)"
| "toJson T (V_MEASUREMENT f u) = Some (quoted (to_measurement_text T f u))"
| "toJson T (V_BYTEARRAY b) = Some []"
| "toJson T (V_ARRAY xs) = do { s \<leftarrow> elems_toJson T xs True [0x5b]; Some (s @ [0x5d]) }"
| "toJson T (V_MAP m) = do { s \<leftarrow> fields_toJson T m True [0x7b]; Some (s @ [0x7d]) }"
| "toJson T (V_OBJECT a) = None"
| "toJson T (V_ERROR c x) = None"
| "toJson T (V_wild t d) = None"
| "elems_toJson T [] first s = Some s"
| "elems_toJson T (x # xs) first s = do {
     t \<leftarrow> toJson T x;
     elems_toJson T xs False ((if first then s else s @ [0x2c]) @ t) }"
| "fields_toJson T [] first s = Some s"
| "fields_toJson T ((k, x) # m) first s = do {
     t \<leftarrow> toJson T x;
     fields_toJson T m False ((if first then s else s @ [0x2c]) @ quoted k @ [0x3a] @ t) }"

subsection \<open>Blanks and comments\<close>

text \<open>To the end of a comment, and over blanks and comments; a comment begins on a new line only.\<close>

fun skip_comment_loop :: "nat \<Rightarrow> bytes \<Rightarrow> nat \<Rightarrow> nat \<Rightarrow> nat option" where
  "skip_comment_loop 0 m cb it = None"
| "skip_comment_loop (Suc n) m cb it =
     (if it \<noteq> cb then do {
        ch \<leftarrow> string_peekChar m it;
        if ch = 0x0d \<or> ch = 0x0a then Some it
        else do { (_, it) \<leftarrow> string_readChar m cb it; skip_comment_loop n m cb it } }
      else Some it)"

fun skip_blank_loop :: "nat \<Rightarrow> bytes \<Rightarrow> nat \<Rightarrow> bool \<Rightarrow> nat \<Rightarrow> nat option" where
  "skip_blank_loop 0 m cb newLine it = None"
| "skip_blank_loop (Suc n) m cb newLine it =
     (if it \<noteq> cb then do {
        ch \<leftarrow> string_peekChar m it;
        if ch = 0x0d \<or> ch = 0x0a then do { (_, it) \<leftarrow> string_readChar m cb it; skip_blank_loop n m cb True it }
        else if ch = 0x20 \<or> ch = 0x09 then do { (_, it) \<leftarrow> string_readChar m cb it; skip_blank_loop n m cb newLine it }
        else if newLine then do {
          (comment, it) \<leftarrow> (if ch = 0x23 then Some (True, it) else if ch = 0x2f then skipString m cb it [0x2f, 0x2f] else Some (False, it));
          if comment then do { it \<leftarrow> skip_comment_loop (cb - it + 1) m cb it; skip_blank_loop n m cb newLine it }
          else Some it }
        else Some it }
      else Some it)"

definition skipWhitespaceAndComments :: "bytes \<Rightarrow> nat \<Rightarrow> nat \<Rightarrow> nat option" where
  "skipWhitespaceAndComments m cb it = skip_blank_loop (cb - it + 1) m cb False it"

fun skip_tabs_loop :: "nat \<Rightarrow> bytes \<Rightarrow> nat \<Rightarrow> nat \<Rightarrow> nat option" where
  "skip_tabs_loop 0 m cb it = None"
| "skip_tabs_loop (Suc n) m cb it =
     (if it < cb then do {
        ch \<leftarrow> string_peekChar m it;
        if ch = 0x20 \<or> ch = 0x09 then do { (_, it) \<leftarrow> string_readChar m cb it; skip_tabs_loop n m cb it } else Some it }
      else Some it)"

definition val_skipSpacesAndTabs :: "bytes \<Rightarrow> nat \<Rightarrow> nat \<Rightarrow> nat option" where
  "val_skipSpacesAndTabs m cb it = skip_tabs_loop (cb - it + 1) m cb it"

subsection \<open>Strings\<close>

fun parse_string_loop :: "nat \<Rightarrow> bytes \<Rightarrow> nat \<Rightarrow> bool \<Rightarrow> nat \<Rightarrow> bytes \<Rightarrow> (bytes \<times> nat) option" where
  "parse_string_loop 0 m cb quot it str = None"
| "parse_string_loop (Suc n) m cb quot it str =
     (if it < cb then do {
        ch \<leftarrow> string_peekChar m it;
        if \<not> quot \<and> ch \<in> set [0x0a, 0x0d, 0x20, 0x2c, 0x3a, 0x7d] then Some (str, it)
        else do {
          (ch, it) \<leftarrow> string_readChar m cb it;
          if ch = 0 then Some (str, it)
          else if quot \<and> ch = 0x22 then Some (str, it)
          else if ch = 0x5c then do {
            (ch, it) \<leftarrow> string_readChar m cb it;
            if ch \<in> set [0x22, 0x27, 0x5c, 0x6e] \<or> \<not> quot \<and> ch \<in> set [0x2c, 0x3a, 0x7d] then do {
              p \<leftarrow> char_bytes (if ch = 0x6e then 0x0a else ch);
              parse_string_loop n m cb quot it (str @ p) }
            else parse_string_loop n m cb quot it str }
          else do { p \<leftarrow> char_bytes ch; parse_string_loop n m cb quot it (str @ p) } } }
      else Some (str, it))"

definition parseString :: "bytes \<Rightarrow> nat \<Rightarrow> nat \<Rightarrow> (bytes \<times> nat) option" where
  "parseString m cb it = do {
     ch \<leftarrow> string_peekChar m it;
     let quot = (ch = 0x22);
     it \<leftarrow> (if quot then map_option snd (string_readChar m cb it) else Some it);
     parse_string_loop (cb - it + 1) m cb quot it [] }"

subsection \<open>Numbers\<close>

text \<open>
  The operations of the floating point unit on bit patterns are parameters: \<^verbatim>\<open>double\<close> from \<^verbatim>\<open>int64_t\<close> and \<^verbatim>\<open>uint64_t\<close>, arithmetic, comparison,
  conversion to \<^verbatim>\<open>float\<close>, \<^verbatim>\<open>float\<close> from \<^verbatim>\<open>int64_t\<close> and times \<^verbatim>\<open>uint64_t\<close>.
\<close>

record fpu =
  fp_int :: "u64 \<Rightarrow> u64"
  fp_uint :: "u64 \<Rightarrow> u64"
  fp_add :: "u64 \<Rightarrow> u64 \<Rightarrow> u64"
  fp_mul :: "u64 \<Rightarrow> u64 \<Rightarrow> u64"
  fp_div :: "u64 \<Rightarrow> u64 \<Rightarrow> u64"
  fp_neg :: "u64 \<Rightarrow> u64"
  fp_less :: "u64 \<Rightarrow> u64 \<Rightarrow> bool"
  fp_zero :: "u64 \<Rightarrow> bool"
  fp_single :: "u64 \<Rightarrow> u32"
  fps_int :: "u64 \<Rightarrow> u32"
  fps_mul_uint :: "u32 \<Rightarrow> u64 \<Rightarrow> u32"

definition FLT_MIN :: u64 where "FLT_MIN = 0x3810000000000000"
definition FLT_MAX :: u64 where "FLT_MAX = 0x47EFFFFFE0000000"

text \<open>The result of a signed 64-bit operation.\<close>

definition int64_of :: "int \<Rightarrow> u64 option" where
  "int64_of i = (if - (2 ^ 63) \<le> i \<and> i < 2 ^ 63 then Some (word_of_int i) else None)"

fun sign_loop :: "nat \<Rightarrow> bytes \<Rightarrow> nat \<Rightarrow> bool \<Rightarrow> nat \<Rightarrow> (bool \<times> nat) option" where
  "sign_loop 0 m cb neg it = None"
| "sign_loop (Suc n) m cb neg it = do {
     ch \<leftarrow> string_peekChar m it;
     if ch = 0x2b \<or> ch = 0x2d then do {
       (_, it) \<leftarrow> string_readChar m cb it;
       it \<leftarrow> skipWhitespace m cb it;
       sign_loop n m cb (if ch = 0x2d then \<not> neg else neg) it }
     else Some (neg, it) }"

definition number_base :: "bytes \<Rightarrow> nat \<Rightarrow> (int \<times> nat) option" where
  "number_base m it = do {
     (zero, it) \<leftarrow> skipChar m it 0x30;
     if zero then do { (x, it) \<leftarrow> skipChar m it 0x78; Some (if x then 16 else 10, it) } else Some (10, it) }"

definition digit_of :: "int \<Rightarrow> u32 \<Rightarrow> int option" where
  "digit_of base ch =
     (if 0x30 \<le> ch \<and> ch \<le> 0x39 then Some (uint ch - 0x30)
      else if base = 16 \<and> 0x61 \<le> ch \<and> ch \<le> 0x66 then Some (uint ch + 10 - 0x61)
      else if base = 16 \<and> 0x41 \<le> ch \<and> ch \<le> 0x46 then Some (uint ch + 10 - 0x41)
      else None)"

text \<open>The digits: \<open>u\<close> is the union of \<^verbatim>\<open>_i64\<close> and \<^verbatim>\<open>_f64\<close>, which a decimal point converts.\<close>

fun digit_loop :: "nat \<Rightarrow> fpu \<Rightarrow> bytes \<Rightarrow> nat \<Rightarrow> int \<Rightarrow> bool \<Rightarrow> u64 \<Rightarrow> u64 \<Rightarrow> nat \<Rightarrow> (bool \<times> u64 \<times> nat) option" where
  "digit_loop 0 F m cb base isFloat fraction u it = None"
| "digit_loop (Suc n) F m cb base isFloat fraction u it = do {
     ch \<leftarrow> string_peekChar m it;
     (case digit_of base ch of
        Some digit \<Rightarrow>
          if fp_zero F fraction then do {
            u \<leftarrow> int64_of (sint u * base + digit);
            (_, it) \<leftarrow> string_readChar m cb it;
            digit_loop n F m cb base isFloat fraction u it }
          else do {
            let fraction = fp_div F fraction (fp_int F (word_of_int base));
            let u = fp_add F u (fp_mul F (fp_int F (word_of_int digit)) fraction);
            (_, it) \<leftarrow> string_readChar m cb it;
            digit_loop n F m cb base isFloat fraction u it }
      | None \<Rightarrow>
          if ch = 0x2e then do {
            (_, it) \<leftarrow> string_readChar m cb it;
            digit_loop n F m cb base True (fp_int F 1) (fp_int F u) it }
          else Some (isFloat, u, it)) }"

definition sized_number :: "fpu \<Rightarrow> bool \<Rightarrow> u64 \<Rightarrow> val" where
  "sized_number F isFloat u =
     (if isFloat then if fp_less F u FLT_MIN \<or> fp_less F FLT_MAX u then V_FLOAT64 u else V_FLOAT32 (fp_single F u)
      else if sint u < - (2 ^ 31) \<or> sint u > 2 ^ 31 - 1 then V_INT64 u else V_INT32 (ucast u))"

definition number_as_float :: "fpu \<Rightarrow> val \<Rightarrow> u32" where
  "number_as_float F v = (case v of V_INT32 i \<Rightarrow> fps_int F (scast i) | V_INT64 i \<Rightarrow> fps_int F i | V_FLOAT32 f \<Rightarrow> f | V_FLOAT64 f \<Rightarrow> fp_single F f | _ \<Rightarrow> 0)"

definition scale_number :: "fpu \<Rightarrow> u64 \<Rightarrow> val \<Rightarrow> val" where
  "scale_number F k v =
     (case v of V_INT32 i \<Rightarrow> V_INT32 (ucast (scast i * k :: u64)) | V_INT64 i \<Rightarrow> V_INT64 (i * k) | V_FLOAT32 f \<Rightarrow> V_FLOAT32 (fps_mul_uint F f k)
      | V_FLOAT64 f \<Rightarrow> V_FLOAT64 (fp_mul F f (fp_uint F k)) | _ \<Rightarrow> v)"

definition number_suffix :: "fpu \<Rightarrow> bytes \<Rightarrow> nat \<Rightarrow> val \<Rightarrow> nat \<Rightarrow> (val \<times> nat) option" where
  "number_suffix F m cb v it = do {
     let f = number_as_float F v;
     (b, it) \<leftarrow> skipChar m it 0x25;
     if b then Some (V_MEASUREMENT f PC, it) else do {
     (b, it) \<leftarrow> skipString m cb it [0x70, 0x74];
     if b then Some (V_MEASUREMENT f PT, it) else do {
     (b, it) \<leftarrow> skipString m cb it [0x65, 0x6d];
     if b then Some (V_MEASUREMENT f EM, it) else do {
     (b, it) \<leftarrow> skipString m cb it [0x70, 0x78];
     if b then Some (V_MEASUREMENT f PX, it) else do {
     (b, it) \<leftarrow> skipString m cb it [0x4b, 0x42];
     if b then Some (scale_number F 1024 v, it) else do {
     (b, it) \<leftarrow> skipString m cb it [0x4d, 0x42];
     if b then Some (scale_number F (1024 * 1024) v, it) else do {
     (b, it) \<leftarrow> skipString m cb it [0x47, 0x42];
     if b then Some (scale_number F (1024 * 1024 * 1024) v, it) else Some (v, it) }}}}}}}"

definition parseNumber :: "fpu \<Rightarrow> bytes \<Rightarrow> nat \<Rightarrow> nat \<Rightarrow> (val \<times> nat) option" where
  "parseNumber F m cb it = do {
     (neg, it) \<leftarrow> sign_loop (cb - it + 1) m cb False it;
     (base, it) \<leftarrow> number_base m it;
     (isFloat, u, it) \<leftarrow> digit_loop (cb - it + 1) F m cb base False 0 0 it;
     u \<leftarrow> (if neg then if isFloat then Some (fp_neg F u) else int64_of (- sint u) else Some u);
     number_suffix F m cb (sized_number F isFloat u) it }"

subsection \<open>The parser\<close>

text \<open>
  \<^verbatim>\<open>val::parse\<close> and its three loops, which get the recursive call as an argument. The first argument bounds the depth of calls and
  the rounds of the loops. \<open>parse_fields\<close> also says whether the loop came to its end, as the errors in it return at once.
\<close>

definition is_number_char :: "u32 \<Rightarrow> bool" where
  "is_number_char ch \<longleftrightarrow> 0x30 \<le> ch \<and> ch \<le> 0x39 \<or> ch = 0x2d \<or> ch = 0x2b \<or> ch = 0x2e"

definition parse_word :: "bytes \<Rightarrow> nat \<Rightarrow> u32 \<Rightarrow> bytes \<Rightarrow> nat \<Rightarrow> (bool \<times> nat) option" where
  "parse_word m cb ch w it = (if ch = ucast (w ! 0) then skipString m cb it w else Some (False, it))"

definition parse_scalar :: "fpu \<Rightarrow> bytes \<Rightarrow> nat \<Rightarrow> u32 \<Rightarrow> nat \<Rightarrow> (val \<times> nat) option" where
  "parse_scalar F m cb ch it =
     (if is_number_char ch then parseNumber F m cb it
      else do {
        (b, it) \<leftarrow> parse_word m cb ch [0x6e, 0x75, 0x6c, 0x6c] it;
        if b then Some (V_EMPTY, it) else do {
        (b, it) \<leftarrow> parse_word m cb ch [0x74, 0x72, 0x75, 0x65] it;
        if b then Some (V_INT32 1, it) else do {
        (b, it) \<leftarrow> parse_word m cb ch [0x66, 0x61, 0x6c, 0x73, 0x65] it;
        if b then Some (V_INT32 0, it) else do {
        (s, it) \<leftarrow> parseString m cb it;
        Some (V_STRING s, it) }}}})"

definition as_elements :: "val \<Rightarrow> val list" where
  "as_elements v = (case v of V_ARRAY xs \<Rightarrow> xs | _ \<Rightarrow> [v])"

fun parse_fields :: "nat \<Rightarrow> (nat \<Rightarrow> (val \<times> nat) option) \<Rightarrow> bytes \<Rightarrow> nat \<Rightarrow> u32 \<Rightarrow> (bytes \<times> val) list \<Rightarrow> nat \<Rightarrow>
    ((bytes \<times> val) list \<times> bool \<times> nat) option" where
  "parse_fields 0 R m cb flags fs it = None"
| "parse_fields (Suc n) R m cb flags fs it = do {
     ch \<leftarrow> string_peekChar m it;
     if ch \<noteq> 0x7d \<and> it < cb then do {
       it \<leftarrow> skipWhitespaceAndComments m cb it;
       (fieldName, it) \<leftarrow> parseString m cb it;
       if fieldName = [] then Some (fs, False, it)
       else do {
         it \<leftarrow> skipWhitespaceAndComments m cb it;
         (c, it) \<leftarrow> string_readChar m cb it;
         if c \<noteq> 0x3a then Some (fs, False, it)
         else do {
           (fieldValue, it) \<leftarrow> R it;
           it \<leftarrow> skipWhitespaceAndComments m cb it;
           it \<leftarrow> (if flags AND 1 \<noteq> 0 then do {
                    (b, it) \<leftarrow> skipChar m it 0x2c;
                    if b then skipWhitespace m cb it else Some it }
                  else Some it);
           parse_fields n R m cb flags (vmap_put fieldName fieldValue fs) it } } }
     else do { (_, it) \<leftarrow> string_readChar m cb it; Some (fs, True, it) } }"

fun parse_elems :: "nat \<Rightarrow> (nat \<Rightarrow> (val \<times> nat) option) \<Rightarrow> bytes \<Rightarrow> nat \<Rightarrow> val list \<Rightarrow> nat \<Rightarrow> (val list \<times> nat) option" where
  "parse_elems 0 R m cb xs it = None"
| "parse_elems (Suc n) R m cb xs it = do {
     ch \<leftarrow> string_peekChar m it;
     if ch \<noteq> 0x5d \<and> it < cb then do {
       (x, it) \<leftarrow> R it;
       it \<leftarrow> skipWhitespaceAndComments m cb it;
       sep \<leftarrow> string_peekChar m it;
       if sep = 0x2c then do { (_, it) \<leftarrow> string_readChar m cb it; parse_elems n R m cb (xs @ [x]) it }
       else Some (xs @ [x], it) }
     else Some (xs, it) }"

fun parse_implicit :: "nat \<Rightarrow> (nat \<Rightarrow> (val \<times> nat) option) \<Rightarrow> bytes \<Rightarrow> nat \<Rightarrow> val \<Rightarrow> nat \<Rightarrow> (val \<times> nat) option" where
  "parse_implicit 0 R m cb v it = None"
| "parse_implicit (Suc n) R m cb v it = do {
     it \<leftarrow> val_skipSpacesAndTabs m cb it;
     ch \<leftarrow> string_peekChar m it;
     if ch \<in> set [0, 0x5d, 0x7d, 0x2c, 0x0d, 0x0a] then Some (v, it)
     else do {
       (x, it) \<leftarrow> R it;
       parse_implicit n R m cb (V_ARRAY (as_elements v @ [x])) it } }"

fun val_parse :: "nat \<Rightarrow> fpu \<Rightarrow> bytes \<Rightarrow> nat \<Rightarrow> u32 \<Rightarrow> nat \<Rightarrow> (val \<times> nat) option" where
  "val_parse 0 F m cb flags it = None"
| "val_parse (Suc n) F m cb flags it =
     (if it \<ge> cb then Some (V_EMPTY, it)
      else do {
        it \<leftarrow> skipWhitespaceAndComments m cb it;
        ch \<leftarrow> string_peekChar m it;
        (v, complete, it) \<leftarrow>
          (if ch = 0x7b then do {
             (_, it) \<leftarrow> string_readChar m cb it;
             it \<leftarrow> skipWhitespaceAndComments m cb it;
             (fs, complete, it) \<leftarrow> parse_fields n (val_parse n F m cb flags) m cb flags [] it;
             Some (V_MAP fs, complete, it) }
           else if ch = 0x5b then do {
             (_, it) \<leftarrow> string_readChar m cb it;
             it \<leftarrow> skipWhitespaceAndComments m cb it;
             (xs, it) \<leftarrow> parse_elems n (val_parse n F m cb flags) m cb [] it;
             (_, it) \<leftarrow> skipChar m it 0x5d;
             Some (V_ARRAY xs, True, it) }
           else do { (v, it) \<leftarrow> parse_scalar F m cb ch it; Some (v, True, it) });
        if complete \<and> flags AND 1 = 0 \<and> flags AND 2 = 0 then parse_implicit n (val_parse n F m cb (flags OR 2)) m cb v it
        else Some (v, it) })"

declare val_parse.simps [simp del] parse_fields.simps [simp del] parse_elems.simps [simp del] parse_implicit.simps [simp del]

definition val_parse_text :: "nat \<Rightarrow> fpu \<Rightarrow> bytes \<Rightarrow> nat \<Rightarrow> u32 \<Rightarrow> val option" where
  "val_parse_text n F m cb flags = map_option fst (val_parse n F m cb flags 0)"

subsection \<open>Reading single characters\<close>

lemma unat_char: "unat (ucast (b :: u8) :: u32) = unat b"
proof -
  have "unat b < 2 ^ LENGTH(32)" by (rule order.strict_trans [OF unat_byte_less]) simp
  then show ?thesis by (simp only: unat_ucast_mod mod_less)
qed

lemma ucast_byte_eq: "(ucast (b :: u8) :: u32) = w \<longleftrightarrow> b = ucast w \<and> w < 256"
proof
  assume "b = ucast w \<and> w < 256"
  then show "ucast b = w" by (simp add: word_unat_eq_iff unat_char) (simp add: unat_ucast_mod word_less_nat_alt)
next
  assume "ucast b = w"
  then have "unat w = unat b" by (auto simp: unat_char)
  then show "b = ucast w \<and> w < 256" using unat_byte_less [of b] by (simp add: word_unat_eq_iff unat_ucast_mod word_less_nat_alt)
qed

lemma read_ascii:
  assumes "b < 0x80"
  shows "string_readUtf8 (pre @ b # post) (length pre) = Some (ucast b, if b \<noteq> 0 then length pre + 1 else length pre)"
proof -
  have "b AND 128 = 0" using assms high_bits_of_byte(5) [of b] by (simp add: word_less_nat_alt)
  then show ?thesis by (simp add: string_readUtf8_def rd_def)
qed

lemma peek_ascii: "b < 0x80 \<Longrightarrow> string_peekChar (pre @ b # post) (length pre) = Some (ucast b)"
  by (simp add: string_peekChar_def read_ascii)

lemma readChar_ascii:
  "b < 0x80 \<Longrightarrow> b \<noteq> 0 \<Longrightarrow> length pre < cb \<Longrightarrow> string_readChar (pre @ b # post) cb (length pre) = Some (ucast b, length pre + 1)"
  by (simp add: string_readChar_def read_ascii)

lemma skipChar_at: "skipChar (pre @ b # post) (length pre) c = Some (b = c, if b = c then length pre + 1 else length pre)"
  by (simp add: skipChar_def rd_def)

lemma skip_blank_stop:
  assumes "b < 0x80" and "b \<notin> {0x0d, 0x0a, 0x20, 0x09}"
  shows "skipWhitespaceAndComments (pre @ b # post) cb (length pre) = Some (length pre)"
  using assms by (simp add: skipWhitespaceAndComments_def peek_ascii ucast_byte_eq)

lemma skipWhitespace_stop: "b \<notin> {0x0d, 0x0a, 0x20, 0x09} \<Longrightarrow> skipWhitespace (pre @ b # post) cb (length pre) = Some (length pre)"
  by (subst skipWhitespace_def, subst skip_while.simps) (simp add: rd_def)

lemma skipString_other:
  assumes "b \<noteq> w ! 0" and "w \<noteq> []" and "length pre \<le> cb" and "cb \<le> length (pre @ b # post)" and "cb < 2 ^ 32"
  shows "skipString (pre @ b # post) cb (length pre) w = Some (False, length pre)"
proof -
  obtain c w' where w: "w = c # w'" "b \<noteq> c" using assms(1,2) by (cases w) simp_all
  have free: "nat ((int cb - int (length pre)) mod 2 ^ 32) = cb - length pre" using assms(3,5) by (simp flip: of_nat_diff)
  show ?thesis
  proof (cases "length w \<le> cb - length pre")
    case True
    then have "slice (pre @ b # post) (length pre) (length w) = Some (b # take (length w') post)" using assms(4) w by (simp add: slice_def)
    moreover have "slice w 0 (length w) = Some w" by (simp add: slice_def)
    moreover have "byte_cmp (b # take (length w') post) w \<noteq> 0" using w by simp
    ultimately show ?thesis using True unfolding skipString_def free memcmp_def by simp
  next
    case False
    then show ?thesis unfolding skipString_def free by simp
  qed
qed

subsection \<open>Reading back numbers\<close>

fun decimal_value :: "nat \<Rightarrow> bytes \<Rightarrow> nat" where
  "decimal_value a [] = a"
| "decimal_value a (d # ds) = decimal_value (a * 10 + (unat d - 0x30)) ds"

definition is_decimal :: "bytes \<Rightarrow> bool" where
  "is_decimal ds \<longleftrightarrow> (\<forall>d\<in>set ds. 0x30 \<le> d \<and> d \<le> 0x39)"

lemma decimal_value_append: "decimal_value a (ds @ es) = decimal_value (decimal_value a ds) es"
  by (induction ds arbitrary: a) simp_all

lemma decimal_value_ge: "a \<le> decimal_value a ds"
proof (induction ds arbitrary: a)
  case (Cons d ds)
  have "a \<le> a * 10 + (unat d - 0x30)" by simp
  then show ?case using Cons [of "a * 10 + (unat d - 0x30)"] by simp
qed simp

lemma digit_byte: "k < 10 \<Longrightarrow> unat (word_of_nat (0x30 + k) :: byte) = 0x30 + k"
  by (rule unat_of_nat_byte) simp

lemma decimal_digits: "is_decimal (decimal k) \<and> decimal_value 0 (decimal k) = k"
proof (induction k rule: decimal.induct)
  case (1 k)
  show ?case
  proof (cases "k < 10")
    case True
    then show ?thesis using digit_byte [of k]
      by (subst decimal.simps, subst (2) decimal.simps) (simp add: is_decimal_def word_le_nat_alt del: of_nat_add)
  next
    case False
    then show ?thesis using 1 digit_byte [of "k mod 10"]
      by (subst decimal.simps, subst (2) decimal.simps) (simp add: is_decimal_def word_le_nat_alt decimal_value_append del: of_nat_add)
  qed
qed

lemma decimal_head: "\<exists>d ds. decimal k = d # ds \<and> (k = 0 \<longrightarrow> d = 0x30 \<and> ds = []) \<and> (0 < k \<longrightarrow> d \<noteq> 0x30)"
proof (induction k rule: decimal.induct)
  case (1 k)
  show ?case
  proof (cases "k < 10")
    case True
    then have "(word_of_nat (0x30 + k) :: byte) = 0x30 \<longleftrightarrow> k = 0" using digit_byte [of k] by (auto simp: word_unat_eq_iff simp del: of_nat_add)
    then show ?thesis using True by (subst decimal.simps) (auto simp del: of_nat_add)
  next
    case False
    then show ?thesis using 1 by (subst decimal.simps) auto
  qed
qed

lemma digit_of_decimal:
  assumes "0x30 \<le> (d :: u8)" and "d \<le> 0x39"
  shows "digit_of 10 (ucast d) = Some (int (unat d - 0x30))" and "d < 0x80" and "d \<noteq> 0"
proof -
  have n: "0x30 \<le> unat d" "unat d \<le> 0x39" using assms by (simp_all add: word_le_nat_alt)
  have "uint (ucast d :: u32) = int (unat d)" by (subst unat_char [symmetric]) simp
  moreover have "0x30 \<le> (ucast d :: u32)" "ucast d \<le> (0x39 :: u32)" using n by (simp_all add: word_le_nat_alt unat_char)
  ultimately show "digit_of 10 (ucast d) = Some (int (unat d - 0x30))" using n(1) unfolding digit_of_def by (simp add: of_nat_diff)
  show "d < 0x80" "d \<noteq> 0" using n by (auto simp: word_less_nat_alt)
qed

lemma digit_loop_decimal:
  assumes "fp_zero F 0" and "is_decimal ds" and "decimal_value a ds < 2 ^ 63" and "c < 0x80" and "c \<notin> {0x2e} \<union> {0x30..0x39}"
    and "length pre + length ds \<le> cb" and "length ds < n"
  shows "digit_loop n F (pre @ ds @ c # post) cb 10 False 0 (word_of_nat a) (length pre) =
    Some (False, word_of_nat (decimal_value a ds), length pre + length ds)"
  using assms(2-)
proof (induction ds arbitrary: a pre n)
  case Nil
  then obtain k where n: "n = Suc k" by (cases n) simp_all
  have "digit_of 10 (ucast c) = None" "(ucast c :: u32) \<noteq> 0x2e"
    using Nil.prems(4) by (auto simp: digit_of_def ucast_byte_eq word_le_nat_alt unat_char)
  then show ?case using Nil.prems(3) by (simp add: n peek_ascii)
next
  case (Cons d ds)
  then obtain k where n: "n = Suc k" by (cases n) simp_all
  have d: "0x30 \<le> d" "d \<le> 0x39" "is_decimal ds" using Cons.prems(1) by (auto simp: is_decimal_def)
  note dg = digit_of_decimal [OF d(1,2)]
  let ?a = "a * 10 + (unat d - 0x30)"
  have lim: "?a < 2 ^ 63" using Cons.prems(2) decimal_value_ge [of ?a ds] by simp
  have "int64_of (sint (word_of_nat a :: u64) * 10 + int (unat d - 0x30)) = Some (word_of_nat ?a)"
  proof -
    have "sint (word_of_nat a :: u64) = int a" using lim by (simp add: signed_of_nat signed_take_bit_int_eq_self)
    then have "sint (word_of_nat a :: u64) * 10 + int (unat d - 0x30) = int ?a" by simp
    moreover have "int ?a < int (2 ^ 63)" using lim by (simp only: of_nat_less_iff)
    then have "int64_of (int ?a) = Some (word_of_nat ?a)" unfolding int64_of_def by (simp del: of_nat_add of_nat_mult)
    ultimately show ?thesis by (simp only:)
  qed
  moreover have "digit_loop k F ((pre @ [d]) @ ds @ c # post) cb 10 False 0 (word_of_nat ?a) (length (pre @ [d])) =
      Some (False, word_of_nat (decimal_value ?a ds), length (pre @ [d]) + length ds)"
    using Cons.prems n d(3) by (intro Cons.IH) simp_all
  ultimately show ?case using assms(1) Cons.prems(5) dg
    by (simp add: n peek_ascii readChar_ascii del: of_nat_add of_nat_mult)
qed

text \<open>The characters that follow a value inside an array or a map, or at the end of the text.\<close>

definition closes :: "u8 \<Rightarrow> bool" where
  "closes c \<longleftrightarrow> c \<in> {0, 0x2c, 0x5d, 0x7d}"

lemma number_suffix_closes:
  assumes "closes c" and "length pre \<le> cb" and "cb \<le> length (pre @ c # post)" and "cb < 2 ^ 32"
  shows "number_suffix F (pre @ c # post) cb v (length pre) = Some (v, length pre)"
proof -
  have "skipString (pre @ c # post) cb (length pre) w = Some (False, length pre)" if "w ! 0 \<notin> {0, 0x2c, 0x5d, 0x7d}" "w \<noteq> []" for w
    using assms that by (intro skipString_other) (auto simp: closes_def)
  then show ?thesis using assms(1) by (auto simp: number_suffix_def skipChar_at closes_def Let_def)
qed

lemma sign_loop_decimal:
  assumes "0x30 \<le> d" and "d \<le> 0x39" and "0 < n"
  shows "sign_loop n (pre @ d # post) cb neg (length pre) = Some (neg, length pre)"
proof -
  have "d < 0x80" "(ucast d :: u32) \<noteq> 0x2b" "(ucast d :: u32) \<noteq> 0x2d"
    using assms(1) digit_of_decimal(2) [OF assms(1,2)] by (auto simp: ucast_byte_eq word_le_nat_alt)
  then show ?thesis using assms(3) by (cases n) (simp_all add: peek_ascii)
qed

text \<open>Reading the digits of \<open>k\<close>, after the sign.\<close>

lemma read_decimal:
  assumes "fp_zero F 0" and "k < 2 ^ 63" and "closes c" and "length pre + length (decimal k) \<le> cb"
  shows "\<exists>it. number_base (pre @ decimal k @ c # post) (length pre) = Some (10, it) \<and> it \<le> cb \<and>
    digit_loop (cb - it + 1) F (pre @ decimal k @ c # post) cb 10 False 0 0 it = Some (False, word_of_nat k, length pre + length (decimal k))"
proof -
  obtain d ds where d: "decimal k = d # ds" "k = 0 \<Longrightarrow> d = 0x30 \<and> ds = []" "0 < k \<Longrightarrow> d \<noteq> 0x30" using decimal_head by blast
  have c: "c < 0x80" "c \<notin> {0x2e} \<union> {0x30..0x39}" "c \<noteq> 0x78" using assms(3) by (auto simp: closes_def)
  show ?thesis
  proof (cases "k = 0")
    case True
    have "digit_loop (cb - length (pre @ [0x30]) + 1) F ((pre @ [0x30]) @ [] @ c # post) cb 10 False 0 (word_of_nat 0) (length (pre @ [0x30])) =
        Some (False, word_of_nat (decimal_value 0 []), length (pre @ [0x30]) + length ([] :: bytes))"
      using assms(1,4) c(1,2) d(1,2) True by (intro digit_loop_decimal) (simp_all add: is_decimal_def)
    then show ?thesis using d(1,2) True assms(4) c(3) skipChar_at [of pre "0x30" "c # post" "0x30"] skipChar_at [of "pre @ [0x30]" c post "0x78"]
      by (simp add: number_base_def)
  next
    case False
    have "digit_loop (cb - length pre + 1) F (pre @ decimal k @ c # post) cb 10 False 0 (word_of_nat 0) (length pre) =
        Some (False, word_of_nat (decimal_value 0 (decimal k)), length pre + length (decimal k))"
      using assms(1,2,4) c(1,2) decimal_digits [of k] by (intro digit_loop_decimal) simp_all
    then show ?thesis using d(1,3) False assms(4) decimal_digits [of k] by (simp add: number_base_def skipChar_at)
  qed
qed

lemma parseNumber_decimal:
  assumes "fp_zero F 0" and "- (2 ^ 63) < i" and "i < 2 ^ 63" and "closes c" and "length pre + length (signed_decimal i) \<le> cb"
    and "cb \<le> length (pre @ signed_decimal i @ c # post)" and "cb < 2 ^ 32"
  shows "parseNumber F (pre @ signed_decimal i @ c # post) cb (length pre) =
    Some (sized_number F False (word_of_int i), length pre + length (signed_decimal i))"
proof -
  define k where "k = nat \<bar>i\<bar>"
  have k: "k < 2 ^ 63" "int k = \<bar>i\<bar>" using assms(2,3) by (simp_all add: k_def nat_less_iff)
  obtain d ds where d: "decimal k = d # ds" using decimal_head by blast
  then have dg: "0x30 \<le> d" "d \<le> 0x39" using decimal_digits [of k] by (auto simp: is_decimal_def)
  define sg where "sg = (if i < 0 then [0x2d :: u8] else [])"
  have sd: "signed_decimal i = sg @ decimal k" by (auto simp: signed_decimal_def sg_def k_def)
  have sign: "sign_loop (cb - length pre + 1) (pre @ (sg @ decimal k) @ c # post) cb False (length pre) = Some (i < 0, length pre + length sg)"
  proof (cases "i < 0")
    case True
    have pos: "length pre < cb" using assms(5) True by (simp add: sd sg_def)
    then obtain n where n: "cb - length pre = Suc n" by (metis Suc_diff_Suc)
    have "sign_loop (cb - length pre) ((pre @ [0x2d]) @ d # ds @ c # post) cb True (length (pre @ [0x2d])) = Some (True, length (pre @ [0x2d]))"
      using pos by (intro sign_loop_decimal [OF dg]) simp
    moreover have "skipWhitespace ((pre @ [0x2d]) @ d # ds @ c # post) cb (length (pre @ [0x2d])) = Some (length (pre @ [0x2d]))"
      using dg by (intro skipWhitespace_stop) (auto simp: word_le_nat_alt)
    ultimately show ?thesis using True pos peek_ascii [of "0x2d" pre "decimal k @ c # post"] readChar_ascii [of "0x2d" pre cb "decimal k @ c # post"] d
      by (simp add: sg_def)
  next
    case False
    then show ?thesis using sign_loop_decimal [OF dg, of "cb - length pre + 1" pre "ds @ c # post" cb False] d by (simp add: sg_def)
  qed
  obtain it where it: "number_base ((pre @ sg) @ decimal k @ c # post) (length (pre @ sg)) = Some (10, it)"
      "digit_loop (cb - it + 1) F ((pre @ sg) @ decimal k @ c # post) cb 10 False 0 0 it =
        Some (False, word_of_nat k, length (pre @ sg) + length (decimal k))"
    using read_decimal [OF assms(1) k(1) assms(4), of "pre @ sg" cb post] assms(5) by (auto simp: sd)
  have "sint (word_of_nat k :: u64) = int k" using k(1) by (simp add: signed_of_nat signed_take_bit_int_eq_self)
  moreover have "int64_of (- int k) = Some (word_of_int (- int k))" using k(2) assms(2,3) by (simp add: int64_of_def)
  moreover have "i = (if i < 0 then - int k else int k)" using k(2) by simp
  ultimately have u: "(if i < 0 then int64_of (- sint (word_of_nat k :: u64)) else Some (word_of_nat k)) = Some (word_of_int i)"
    by (metis of_int_of_nat_eq)
  have suffix: "number_suffix F ((pre @ sg @ decimal k) @ c # post) cb v (length (pre @ sg @ decimal k)) = Some (v, length (pre @ sg @ decimal k))" for v
    using assms(4-7) by (intro number_suffix_closes) (simp_all add: sd)
  show ?thesis unfolding parseNumber_def sd sign using it u suffix
    by (cases "i < 0") (simp_all del: digit_loop.simps add: add.assoc)
qed

subsection \<open>Reading back strings\<close>

text \<open>Texts that \<^verbatim>\<open>%s\<close> prints and the parser reads as they are: no zero, no quote and no backslash.\<close>

definition plain_text :: "bytes \<Rightarrow> bool" where
  "plain_text s \<longleftrightarrow> (\<exists>cs. s = utf8_text cs \<and> code_points cs \<and> set cs \<inter> {0, 0x22, 0x5c} = {})"

lemma encoded_nonzero:
  assumes "c \<le> 0x10FFFF" and "c \<noteq> 0"
  shows "0 \<notin> set (unicode_to_utf8 c)"
proof -
  obtain b bs where enc: "unicode_to_utf8 c = b # bs" "\<forall>x\<in>set bs. is_cont x" and or:
    "bs = [] \<and> unat b < 128 \<and> c = ucast b \<or>
      (\<exists>l tag k. utf8_lead l tag k \<and> l \<le> 3 \<and> bs = conts l (unat c) \<and> unat b = tag + unat c div 64 ^ l \<and> unat c div 64 ^ l < 2 ^ k)"
    by (rule encoded_shape [OF assms(1)]) blast
  have "b \<noteq> 0" using or
  proof
    assume "\<exists>l tag k. utf8_lead l tag k \<and> l \<le> 3 \<and> bs = conts l (unat c) \<and> unat b = tag + unat c div 64 ^ l \<and> unat c div 64 ^ l < 2 ^ k"
    then obtain l tag k where "utf8_lead l tag k" "unat b = tag + unat c div 64 ^ l" by blast
    then have "0 < unat b" by (auto simp: utf8_lead_def)
    then show ?thesis by auto
  qed (use assms(2) in auto)
  moreover have "\<not> is_cont 0" by (simp add: is_cont_def)
  ultimately show ?thesis using enc by auto
qed

lemma plain_text_c_chars: "plain_text s \<Longrightarrow> c_chars s = s"
proof -
  assume "plain_text s"
  then obtain cs where cs: "s = utf8_text cs" "code_points cs" "0 \<notin> set cs" by (auto simp: plain_text_def)
  have "0 \<notin> set (utf8_text cs)" using cs(2,3) by (induction cs) (use encoded_nonzero in auto)
  then show ?thesis by (auto simp: c_chars_def takeWhile_eq_all_conv cs(1))
qed

lemma parse_string_loop_plain:
  assumes "code_points cs" and "set cs \<inter> {0, 0x22, 0x5c} = {}" and "length pre + length (utf8_text cs) < cb" and "length cs < n"
  shows "parse_string_loop n (pre @ utf8_text cs @ 0x22 # post) cb True (length pre) str = Some (str @ utf8_text cs, length pre + length (utf8_text cs) + 1)"
  using assms
proof (induction cs arbitrary: pre n str)
  case Nil
  then obtain k where "n = Suc k" by (cases n) simp_all
  then show ?case using Nil.prems(3) by (simp add: peek_ascii readChar_ascii)
next
  case (Cons c cs)
  then obtain k where n: "n = Suc k" by (cases n) simp_all
  have c: "c \<le> 0x10FFFF" "c \<noteq> 0" "c \<noteq> 0x22" "c \<noteq> 0x5c" and cs: "code_points cs" "set cs \<inter> {0, 0x22, 0x5c} = {}" using Cons.prems by auto
  have "string_readUtf8 (pre @ unicode_to_utf8 c @ utf8_text cs @ 0x22 # post) (length pre) = Some (c, length pre + length (unicode_to_utf8 c))"
    using readUtf8_encoded [OF c(1), of pre "utf8_text cs @ 0x22 # post"] c(2) by simp
  moreover have "parse_string_loop k ((pre @ unicode_to_utf8 c) @ utf8_text cs @ 0x22 # post) cb True (length (pre @ unicode_to_utf8 c)) (str @ unicode_to_utf8 c) =
      Some ((str @ unicode_to_utf8 c) @ utf8_text cs, length (pre @ unicode_to_utf8 c) + length (utf8_text cs) + 1)"
    using cs Cons.prems(3,4) n by (intro Cons.IH) simp_all
  ultimately show ?case using Cons.prems(3) c char_bytes_utf8 [OF c(1)] by (simp add: n string_peekChar_def string_readChar_def add.assoc)
qed

lemma parseString_quoted:
  assumes "plain_text s" and "length pre + length (quoted s) \<le> cb"
  shows "parseString (pre @ quoted s @ post) cb (length pre) = Some (s, length pre + length (quoted s))"
proof -
  obtain cs where cs: "s = utf8_text cs" "code_points cs" "set cs \<inter> {0, 0x22, 0x5c} = {}" using assms(1) by (auto simp: plain_text_def)
  have q: "quoted s = 0x22 # s @ [0x22]" using plain_text_c_chars [OF assms(1)] by (simp add: quoted_def)
  have "parse_string_loop (cb - length (pre @ [0x22]) + 1) ((pre @ [0x22]) @ utf8_text cs @ 0x22 # post) cb True (length (pre @ [0x22])) [] =
      Some ([] @ utf8_text cs, length (pre @ [0x22]) + length (utf8_text cs) + 1)"
    using assms(2) q length_utf8_text [OF cs(2)] by (intro parse_string_loop_plain [OF cs(2,3)]) (simp_all add: cs(1))
  then show ?thesis using assms(2) peek_ascii [of "0x22" pre "s @ 0x22 # post"] readChar_ascii [of "0x22" pre cb "s @ 0x22 # post"]
    by (simp add: parseString_def q [unfolded cs(1)] cs(1) Let_def add.assoc del: parse_string_loop.simps)
qed

subsection \<open>Reading back values\<close>

text \<open>The values that come back unchanged: \<^verbatim>\<open>INT32\<close>, \<^verbatim>\<open>INT64\<close> outside the range of \<^verbatim>\<open>INT32\<close>, plain strings, and arrays and maps of these. Their text.\<close>

fun jsonable :: "val \<Rightarrow> bool" where
  "jsonable (V_INT32 i) = True"
| "jsonable (V_INT64 i) = ((sint i < - (2 ^ 31) \<or> sint i > 2 ^ 31 - 1) \<and> sint i \<noteq> - (2 ^ 63))"
| "jsonable (V_STRING s) = plain_text s"
| "jsonable (V_ARRAY xs) = (\<forall>x\<in>set xs. jsonable x)"
| "jsonable (V_MAP m) = (vmap_ok m \<and> (\<forall>kx\<in>set m. plain_text (fst kx) \<and> fst kx \<noteq> [] \<and> jsonable (snd kx)))"
| "jsonable _ = False"

fun json_text :: "val \<Rightarrow> bytes" where
  "json_text (V_INT32 i) = signed_decimal (sint i)"
| "json_text (V_INT64 i) = signed_decimal (sint i)"
| "json_text (V_STRING s) = quoted s"
| "json_text (V_ARRAY xs) = 0x5b # string_join (map json_text xs) [0x2c] @ [0x5d]"
| "json_text (V_MAP m) = 0x7b # string_join (map (\<lambda>kx. quoted (fst kx) @ 0x3a # json_text (snd kx)) m) [0x2c] @ [0x7d]"
| "json_text _ = []"

lemma join_rest: "s @ concat (map ((@) [0x2c]) ts) = (if ts = [] then s else s @ 0x2c # string_join ts [0x2c])"
  by (cases ts) (simp_all add: string_join_Cons)

lemma elems_toJson_join:
  "(\<And>x. x \<in> set xs \<Longrightarrow> toJson T x = Some (f x)) \<Longrightarrow> elems_toJson T xs False s = Some (s @ concat (map ((@) [0x2c]) (map f xs)))"
  by (induction xs arbitrary: s) simp_all

lemma fields_toJson_join:
  "(\<And>kx. kx \<in> set m \<Longrightarrow> toJson T (snd kx) = Some (f (snd kx))) \<Longrightarrow>
    fields_toJson T m False s = Some (s @ concat (map ((@) [0x2c]) (map (\<lambda>kx. quoted (fst kx) @ 0x3a # f (snd kx)) m)))"
proof (induction m arbitrary: s)
  case (Cons kx m)
  then show ?case by (cases kx) force
qed simp

lemma toJson_text: "jsonable v \<Longrightarrow> toJson T v = Some (json_text v)"
proof (induction v)
  case (V_ARRAY xs)
  then show ?case by (cases xs) (simp_all add: elems_toJson_join string_join_Cons string_join_simps(1))
next
  case (V_MAP m)
  then have IH: "toJson T (snd kx) = Some (json_text (snd kx))" if "kx \<in> set m" for kx using that by (cases kx) force
  show ?case
  proof (cases m)
    case (Cons kx m')
    obtain k x where kx: "kx = (k, x)" by (cases kx)
    have "toJson T x = Some (json_text x)" using IH [of kx] Cons kx by simp
    then show ?thesis using IH Cons kx by (simp add: fields_toJson_join string_join_Cons)
  qed (simp add: string_join_simps(1))
qed simp_all

lemma json_head:
  assumes "jsonable v"
  shows "\<exists>b r. json_text v = b # r \<and> b < 0x80 \<and> b \<notin> {0x0d, 0x0a, 0x20, 0x09, 0x5d, 0x7d, 0x2c, 0}"
proof -
  have "\<exists>b r. signed_decimal i = b # r \<and> b < 0x80 \<and> b \<notin> {0x0d, 0x0a, 0x20, 0x09, 0x5d, 0x7d, 0x2c, 0}" for i
  proof (cases "i < 0")
    case False
    obtain d ds where d: "decimal (nat i) = d # ds" using decimal_head by blast
    then have "0x30 \<le> d" "d \<le> 0x39" using decimal_digits [of "nat i"] by (auto simp: is_decimal_def)
    then show ?thesis using False d digit_of_decimal(2) [of d] by (auto simp: signed_decimal_def word_le_nat_alt)
  qed (simp add: signed_decimal_def)
  then show ?thesis using assms by (cases v) (auto simp: quoted_def)
qed

lemma join_member: "t \<in> set ts \<Longrightarrow> length t \<le> length (string_join ts d)"
proof (induction ts)
  case (Cons u ts)
  then show ?case by (cases "ts = []") (auto simp: string_join_simps)
qed simp

lemma join_length: "(\<And>t. t \<in> set ts \<Longrightarrow> 0 < length t) \<Longrightarrow> length ts \<le> length (string_join ts d)"
proof (induction ts)
  case (Cons u ts)
  then have "0 < length u" "length ts \<le> length (string_join ts d)" by simp_all
  then show ?case by (cases "ts = []") (simp_all add: string_join_simps del: length_greater_0_conv)
qed simp

lemma parse_elems_join:
  assumes "\<And>x pre post c. x \<in> set xs \<Longrightarrow> M = pre @ json_text x @ c # post \<Longrightarrow> closes c \<Longrightarrow> length pre + length (json_text x) \<le> cb \<Longrightarrow>
      R (length pre) = Some (x, length pre + length (json_text x))"
    and "\<forall>x\<in>set xs. jsonable x" and "M = pre @ string_join (map json_text xs) [0x2c] @ 0x5d # post"
    and "length pre + length (string_join (map json_text xs) [0x2c]) < cb" and "length xs < n"
  shows "parse_elems n R M cb ys (length pre) = Some (ys @ xs, length pre + length (string_join (map json_text xs) [0x2c]))"
  using assms
proof (induction xs arbitrary: pre n ys)
  case Nil
  then obtain k where "n = Suc k" by (cases n) simp_all
  then show ?case using Nil.prems(3) by (simp add: parse_elems.simps string_join_simps peek_ascii)
next
  case (Cons x xs)
  then obtain k where n: "n = Suc k" by (cases n) simp_all
  obtain b r where head: "json_text x = b # r" "b < 0x80" "b \<noteq> 0x5d" using json_head [of x] Cons.prems(2) by auto
  define rest where "rest = (if xs = [] then 0x5d # post else 0x2c # string_join (map json_text xs) [0x2c] @ 0x5d # post)"
  have M: "M = pre @ json_text x @ rest" using Cons.prems(3) by (cases "xs = []") (simp_all add: rest_def string_join_simps)
  obtain c post' where rest: "rest = c # post'" "closes c" "c < 0x80" "c \<notin> {0x0d, 0x0a, 0x20, 0x09}" "c = 0x2c \<longleftrightarrow> xs \<noteq> []"
    unfolding rest_def closes_def by (cases "xs = []") auto
  let ?pos = "length pre + length (json_text x)"
  have pos: "?pos < cb" using Cons.prems(4) by (cases "xs = []") (simp_all add: string_join_simps)
  have R: "R (length pre) = Some (x, ?pos)" using M rest(1,2) pos by (intro Cons.prems(1)) simp_all
  have M': "M = (pre @ json_text x) @ c # post'" "length (pre @ json_text x) = ?pos" using M rest(1) by simp_all
  have peek: "string_peekChar M (length pre) = Some (ucast b)" using peek_ascii [OF head(2)] M head(1) by simp
  have stop: "skipWhitespaceAndComments M cb ?pos = Some ?pos" "string_peekChar M ?pos = Some (ucast c)"
    using skip_blank_stop [OF rest(3,4), of "pre @ json_text x" post'] peek_ascii [OF rest(3), of "pre @ json_text x" post'] M' by simp_all
  show ?case
  proof (cases "xs = []")
    case True
    then show ?thesis using peek stop R head(3) pos rest(5)
      by (simp add: n parse_elems.simps string_join_simps ucast_byte_eq)
  next
    case False
    have "string_readChar M cb ?pos = Some (ucast c, ?pos + 1)"
      using readChar_ascii [OF rest(3), of "pre @ json_text x" cb post'] rest(5) False pos M' by simp
    moreover have "parse_elems k R M cb (ys @ [x]) (length (pre @ json_text x @ [0x2c])) =
        Some ((ys @ [x]) @ xs, length (pre @ json_text x @ [0x2c]) + length (string_join (map json_text xs) [0x2c]))"
    proof (rule Cons.IH)
      show "R (length pre) = Some (x, length pre + length (json_text x))"
        if "x \<in> set xs" "M = pre @ json_text x @ c # post" "closes c" "length pre + length (json_text x) \<le> cb" for x pre post c
        using that by (intro Cons.prems(1)) simp_all
    qed (use Cons.prems(2-) False n in \<open>simp_all add: string_join_simps\<close>)
    ultimately show ?thesis using peek stop R head(3) pos rest(5) False
      by (simp add: n parse_elems.simps string_join_simps ucast_byte_eq)
  qed
qed

lemma parse_fields_join:
  assumes "\<And>kx pre post c. kx \<in> set m \<Longrightarrow> M = pre @ json_text (snd kx) @ c # post \<Longrightarrow> closes c \<Longrightarrow> length pre + length (json_text (snd kx)) \<le> cb \<Longrightarrow>
      R (length pre) = Some (snd kx, length pre + length (json_text (snd kx)))"
    and "\<forall>kx\<in>set m. plain_text (fst kx) \<and> fst kx \<noteq> [] \<and> jsonable (snd kx)" and "vmap_ok (fs @ m)"
    and "M = pre @ string_join (map (\<lambda>kx. quoted (fst kx) @ 0x3a # json_text (snd kx)) m) [0x2c] @ 0x7d # post"
    and "length pre + length (string_join (map (\<lambda>kx. quoted (fst kx) @ 0x3a # json_text (snd kx)) m) [0x2c]) < cb" and "length m < n"
  shows "parse_fields n R M cb 1 fs (length pre) =
    Some (fs @ m, True, length pre + length (string_join (map (\<lambda>kx. quoted (fst kx) @ 0x3a # json_text (snd kx)) m) [0x2c]) + 1)"
  using assms
proof (induction m arbitrary: pre n fs)
  case Nil
  then obtain k where "n = Suc k" by (cases n) simp_all
  then show ?case using Nil.prems(4,5) by (simp add: parse_fields.simps string_join_simps peek_ascii readChar_ascii)
next
  case (Cons kx m)
  then obtain n' where n: "n = Suc n'" by (cases n) simp_all
  obtain k x where kx: "kx = (k, x)" by (cases kx)
  let ?join = "string_join (map (\<lambda>kx. quoted (fst kx) @ 0x3a # json_text (snd kx)) m) [0x2c]"
  have k: "plain_text k" "k \<noteq> []" "jsonable x" using Cons.prems(2) kx by simp_all
  obtain b r where head: "json_text x = b # r" "b < 0x80" "b \<notin> {0x0d, 0x0a, 0x20, 0x09}" using json_head [OF k(3)] by auto
  define rest where "rest = (if m = [] then 0x7d # post else 0x2c # ?join @ 0x7d # post)"
  have M: "M = pre @ quoted k @ 0x3a # json_text x @ rest" using Cons.prems(4) by (cases "m = []") (simp_all add: rest_def kx string_join_simps)
  obtain c post' where rest: "rest = c # post'" "closes c" "c < 0x80" "c \<notin> {0x0d, 0x0a, 0x20, 0x09}" "c = 0x2c \<longleftrightarrow> m \<noteq> []"
    unfolding rest_def closes_def by (cases "m = []") auto
  let ?p1 = "length pre + length (quoted k)" and ?p2 = "length pre + length (quoted k) + 1 + length (json_text x)"
  have p2: "?p2 < cb" using Cons.prems(5) by (cases "m = []") (simp_all add: string_join_simps kx)
  obtain q where q: "quoted k = 0x22 # q" by (simp add: quoted_def)
  have start: "string_peekChar M (length pre) = Some 0x22" "skipWhitespaceAndComments M cb (length pre) = Some (length pre)"
    using peek_ascii [of "0x22" pre] skip_blank_stop [of "0x22" pre] M q by simp_all
  have key: "parseString M cb (length pre) = Some (k, ?p1)" using parseString_quoted [OF k(1), of pre cb] p2 M by simp
  have M1: "M = (pre @ quoted k) @ 0x3a # json_text x @ rest" using M by simp
  have colon: "skipWhitespaceAndComments M cb ?p1 = Some ?p1" "string_readChar M cb ?p1 = Some (0x3a, ?p1 + 1)"
    using skip_blank_stop [of "0x3a" "pre @ quoted k"] readChar_ascii [of "0x3a" "pre @ quoted k" cb] M1 p2 by simp_all
  have R: "R (?p1 + 1) = Some (x, ?p2)"
    using Cons.prems(1) [of kx "pre @ quoted k @ [0x3a]" c post'] M rest(1,2) p2 kx by simp
  have M2: "M = (pre @ quoted k @ 0x3a # json_text x) @ c # post'" "length (pre @ quoted k @ 0x3a # json_text x) = ?p2" using M rest(1) by simp_all
  have stop: "skipWhitespaceAndComments M cb ?p2 = Some ?p2" "skipChar M ?p2 0x2c = Some (c = 0x2c, if c = 0x2c then ?p2 + 1 else ?p2)"
    using skip_blank_stop [OF rest(3,4), of "pre @ quoted k @ 0x3a # json_text x" post' cb] skipChar_at [of "pre @ quoted k @ 0x3a # json_text x" c post' "0x2c"] M2
    by (simp_all add: add.assoc)
  have put: "vmap_put k x fs = fs @ [(k, x)]" using vmap_put_greatest [of fs k x x] Cons.prems(3) by (auto simp: vmap_ok_def sorted_wrt_append kx)
  have loop: "parse_fields n R M cb 1 fs (length pre) = do {
      it \<leftarrow> (if c = 0x2c then skipWhitespace M cb (?p2 + 1) else Some ?p2);
      parse_fields n' R M cb 1 (fs @ [(k, x)]) it }"
    using start key colon R stop put k(2) p2 by (simp add: n parse_fields.simps(2))
  show ?case
  proof (cases "m = []")
    case True
    obtain n'' where n'': "n' = Suc n''" using Cons.prems(6) n True by (cases n') simp_all
    have "string_peekChar M ?p2 = Some 0x7d" "string_readChar M cb ?p2 = Some (0x7d, ?p2 + 1)"
      using peek_ascii [OF rest(3), of "pre @ quoted k @ 0x3a # json_text x" post'] readChar_ascii [of c "pre @ quoted k @ 0x3a # json_text x" cb post']
        M2 p2 True rest(1,3) by (simp_all add: rest_def add.assoc)
    then show ?thesis using loop rest(5) True by (simp add: n'' parse_fields.simps(2) string_join_simps kx)
  next
    case False
    let ?pre = "pre @ quoted k @ 0x3a # json_text x @ [0x2c]"
    have M3: "M = ?pre @ ?join @ 0x7d # post" "length ?pre = ?p2 + 1" using M False by (simp_all add: rest_def)
    obtain q' where "?join = 0x22 # q'" using False by (cases m) (auto simp: string_join_Cons quoted_def)
    then have "skipWhitespace M cb (?p2 + 1) = Some (?p2 + 1)"
      using skipWhitespace_stop [of "0x22" ?pre "q' @ 0x7d # post" cb] M3 by (simp add: add.assoc)
    moreover have "parse_fields n' R M cb 1 (fs @ [(k, x)]) (length ?pre) = Some ((fs @ [(k, x)]) @ m, True, length ?pre + length ?join + 1)"
    proof (rule Cons.IH)
      show "R (length pre) = Some (snd kx, length pre + length (json_text (snd kx)))"
        if "kx \<in> set m" "M = pre @ json_text (snd kx) @ c # post" "closes c" "length pre + length (json_text (snd kx)) \<le> cb" for kx pre post c
        using that by (intro Cons.prems(1)) simp_all
    qed (use Cons.prems(2-) False n M3 kx in \<open>simp_all add: string_join_simps\<close>)
    ultimately show ?thesis using loop rest(5) False M3(2) by (simp add: string_join_simps kx add.assoc)
  qed
qed

lemma val_parse_scalar:
  assumes "M = pre @ b # post" and "b < 0x80" and "b \<notin> {0x0d, 0x0a, 0x20, 0x09, 0x7b, 0x5b}" and "length pre < cb" and "0 < n"
    and "parse_scalar F M cb (ucast b) (length pre) = Some (v, it)"
  shows "val_parse n F M cb 1 (length pre) = Some (v, it)"
proof -
  obtain k where n: "n = Suc k" using assms(5) by (cases n) simp_all
  have "skipWhitespaceAndComments M cb (length pre) = Some (length pre)" "string_peekChar M (length pre) = Some (ucast b)"
    using assms(1-3) by (simp_all add: skip_blank_stop peek_ascii)
  then show ?thesis using assms(3,4,6) by (simp add: n val_parse.simps(2) ucast_byte_eq)
qed

lemma val_parse_number:
  assumes "fp_zero F 0" and "- (2 ^ 63) < i" and "i < 2 ^ 63" and "closes c" and "length pre + length (signed_decimal i) \<le> cb"
    and "M = pre @ signed_decimal i @ c # post" and "cb \<le> length M" and "cb < 2 ^ 32" and "0 < n"
  shows "val_parse n F M cb 1 (length pre) = Some (sized_number F False (word_of_int i), length pre + length (signed_decimal i))"
proof -
  have num: "parseNumber F M cb (length pre) = Some (sized_number F False (word_of_int i), length pre + length (signed_decimal i))"
    using parseNumber_decimal [OF assms(1-5)] assms(6-8) by simp
  obtain d ds where d: "decimal (nat \<bar>i\<bar>) = d # ds" using decimal_head by blast
  then have dg: "0x30 \<le> d" "d \<le> 0x39" using decimal_digits [of "nat \<bar>i\<bar>"] by (auto simp: is_decimal_def)
  define b where "b = (if i < 0 then 0x2d else d)"
  obtain r where sd: "signed_decimal i = b # r" using d by (cases "i < 0") (auto simp: signed_decimal_def b_def)
  have b: "b < 0x80" "b \<notin> {0x0d, 0x0a, 0x20, 0x09, 0x7b, 0x5b}" "is_number_char (ucast b)"
    using digit_of_decimal(2) [OF dg] dg by (auto simp: b_def is_number_char_def word_le_nat_alt unat_char)
  have "parse_scalar F M cb (ucast b) (length pre) = Some (sized_number F False (word_of_int i), length pre + length (signed_decimal i))"
    using num b(3) by (simp add: parse_scalar_def)
  then show ?thesis using assms(5,6,9) sd b(1,2) by (intro val_parse_scalar [of M pre b "r @ c # post"]) simp_all
qed

lemma sized_number_back:
  "sized_number F False (word_of_int (sint (i :: u32))) = V_INT32 i"
  "sint (j :: u64) < - (2 ^ 31) \<or> sint j > 2 ^ 31 - 1 \<Longrightarrow> sized_number F False (word_of_int (sint j)) = V_INT64 j"
proof -
  have range: "- (2 ^ 31) \<le> sint i" "sint i < 2 ^ 31" using sint_ge [of i] sint_lt [of i] by simp_all
  then have "(sint i + 2 ^ 63) mod 2 ^ 64 = sint i + 2 ^ 63" by (intro mod_pos_pos_trivial) simp_all
  then have "sint (word_of_int (sint i) :: u64) = sint i" unfolding int_word_sint by simp
  moreover have "ucast (word_of_int (sint i) :: u64) = i" by (rule bit_word_eqI) (auto simp: bit_simps)
  ultimately show "sized_number F False (word_of_int (sint (i :: u32))) = V_INT32 i" using range by (simp add: sized_number_def)
qed (auto simp: sized_number_def)

text \<open>A value is parsed from its text wherever the text stands, if a character that closes a value follows.\<close>

lemma val_parse_back:
  assumes "fp_zero F 0" and "cb \<le> length M" and "cb < 2 ^ 32"
  shows "jsonable v \<Longrightarrow> M = pre @ json_text v @ c # post \<Longrightarrow> closes c \<Longrightarrow> length pre + length (json_text v) \<le> cb \<Longrightarrow> length (json_text v) < n \<Longrightarrow>
    val_parse n F M cb 1 (length pre) = Some (v, length pre + length (json_text v))"
proof (induction v arbitrary: pre c post n)
  case (V_INT32 i)
  have "- (2 ^ 63) < sint i" "sint i < 2 ^ 63" using sint_ge [of i] sint_lt [of i] by simp_all
  then show ?case using V_INT32 assms sized_number_back(1) [of F i] val_parse_number [of F "sint i" c pre cb M post n] by simp
next
  case (V_INT64 i)
  have "- (2 ^ 63) < sint i" "sint i < 2 ^ 63" using sint_ge [of i] sint_lt [of i] V_INT64.prems(1) by simp_all
  then show ?case using V_INT64 assms sized_number_back(2) [of i F] val_parse_number [of F "sint i" c pre cb M post n] by simp
next
  case (V_STRING s)
  obtain q where q: "quoted s = 0x22 # q" by (simp add: quoted_def)
  have "parseString M cb (length pre) = Some (s, length pre + length (quoted s))"
    using parseString_quoted [of s pre cb "c # post"] V_STRING.prems by simp
  then have "parse_scalar F M cb (ucast (0x22 :: u8)) (length pre) = Some (V_STRING s, length pre + length (quoted s))"
    by (simp add: parse_scalar_def is_number_char_def parse_word_def)
  then show ?case using V_STRING.prems q by (intro val_parse_scalar [of M pre "0x22" "q @ c # post"]) simp_all
next
  case (V_ARRAY xs)
  then obtain k where n: "n = Suc k" by (cases n) simp_all
  let ?join = "string_join (map json_text xs) [0x2c]"
  have M: "M = pre @ 0x5b # ?join @ 0x5d # c # post" using V_ARRAY.prems(2) by simp
  have len: "length (json_text x) \<le> length ?join" if "x \<in> set xs" for x using that by (intro join_member) simp
  have jx: "\<forall>x\<in>set xs. jsonable x" using V_ARRAY.prems(1) by simp
  have cnt: "length xs \<le> length ?join" using join_length [of "map json_text xs" "[0x2c]"] json_head jx by fastforce
  have elems: "parse_elems k (val_parse k F M cb 1) M cb [] (length (pre @ [0x5b])) = Some ([] @ xs, length (pre @ [0x5b]) + length ?join)"
  proof (rule parse_elems_join [OF _ jx])
    show "val_parse k F M cb 1 (length pre) = Some (x, length pre + length (json_text x))"
      if "x \<in> set xs" "M = pre @ json_text x @ c # post" "closes c" "length pre + length (json_text x) \<le> cb" for x pre c post
      using V_ARRAY.IH [OF that(1) _ that(2-4)] jx len [OF that(1)] V_ARRAY.prems(5) that(1) n by simp
  qed (use M V_ARRAY.prems(4,5) cnt n in simp_all)
  obtain b r where b: "?join @ [0x5d] = b # r" "b < 0x80" "b \<notin> {0x0d, 0x0a, 0x20, 0x09}"
    using json_head [of "hd xs"] jx by (cases xs) (auto simp: string_join_simps string_join_Cons)
  have "M = pre @ 0x5b # (?join @ [0x5d]) @ c # post" using M by simp
  then have M1: "M = pre @ 0x5b # b # r @ c # post" unfolding b(1) by simp
  have "skipWhitespaceAndComments M cb (length pre) = Some (length pre)" "string_peekChar M (length pre) = Some 0x5b"
      "string_readChar M cb (length pre) = Some (0x5b, length pre + 1)"
    using skip_blank_stop [of "0x5b" pre] peek_ascii [of "0x5b" pre] readChar_ascii [of "0x5b" pre cb] M V_ARRAY.prems(4) by simp_all
  moreover have "skipWhitespaceAndComments M cb (length pre + 1) = Some (length pre + 1)"
    using skip_blank_stop [OF b(2,3), of "pre @ [0x5b]" "r @ c # post" cb] M1 by simp
  moreover have "skipChar M (length pre + 1 + length ?join) 0x5d = Some (True, length pre + 1 + length ?join + 1)"
    using skipChar_at [of "pre @ 0x5b # ?join" "0x5d" "c # post" "0x5d"] M by simp
  ultimately show ?case using elems V_ARRAY.prems(4) by (simp add: n val_parse.simps(2))
next
  case (V_MAP m)
  then obtain k where n: "n = Suc k" by (cases n) simp_all
  let ?f = "\<lambda>kx. quoted (fst kx) @ 0x3a # json_text (snd kx)"
  let ?join = "string_join (map ?f m) [0x2c]"
  have M: "M = pre @ 0x7b # ?join @ 0x7d # c # post" using V_MAP.prems(2) by simp
  have jm: "\<forall>kx\<in>set m. plain_text (fst kx) \<and> fst kx \<noteq> [] \<and> jsonable (snd kx)" "vmap_ok m" using V_MAP.prems(1) by simp_all
  have len: "length (json_text (snd kx)) \<le> length ?join" if "kx \<in> set m" for kx
    using join_member [of "?f kx" "map ?f m" "[0x2c]"] that by simp
  have cnt: "length m \<le> length ?join" using join_length [of "map ?f m" "[0x2c]"] by fastforce
  have fields: "parse_fields k (val_parse k F M cb 1) M cb 1 [] (length (pre @ [0x7b])) = Some ([] @ m, True, length (pre @ [0x7b]) + length ?join + 1)"
  proof (rule parse_fields_join [OF _ jm(1)])
    show "val_parse k F M cb 1 (length pre) = Some (snd kx, length pre + length (json_text (snd kx)))"
      if "kx \<in> set m" "M = pre @ json_text (snd kx) @ c # post" "closes c" "length pre + length (json_text (snd kx)) \<le> cb" for kx pre c post
      using V_MAP.IH [OF that(1) snds.intros _ that(2-4)] jm(1) len [OF that(1)] V_MAP.prems(5) that(1) n by simp
  qed (use M V_MAP.prems(4,5) cnt n jm(2) in simp_all)
  obtain b r where b: "?join @ [0x7d] = b # r" "b < 0x80" "b \<notin> {0x0d, 0x0a, 0x20, 0x09}"
    by (cases m) (auto simp: string_join_simps string_join_Cons quoted_def)
  have "M = pre @ 0x7b # (?join @ [0x7d]) @ c # post" using M by simp
  then have M1: "M = pre @ 0x7b # b # r @ c # post" unfolding b(1) by simp
  have "skipWhitespaceAndComments M cb (length pre) = Some (length pre)" "string_peekChar M (length pre) = Some 0x7b"
      "string_readChar M cb (length pre) = Some (0x7b, length pre + 1)"
    using skip_blank_stop [of "0x7b" pre] peek_ascii [of "0x7b" pre] readChar_ascii [of "0x7b" pre cb] M V_MAP.prems(4) by simp_all
  moreover have "skipWhitespaceAndComments M cb (length pre + 1) = Some (length pre + 1)"
    using skip_blank_stop [OF b(2,3), of "pre @ [0x7b]" "r @ c # post" cb] M1 by simp
  ultimately show ?case using fields V_MAP.prems(4) by (simp add: n val_parse.simps(2))
qed simp_all

text \<open>
  The text of an integer does not tell its type. What \<^verbatim>\<open>parse\<close> makes of it depends on the number alone: an \<^verbatim>\<open>INT32\<close> if it fits, else an \<^verbatim>\<open>INT64\<close>.
  \<open>printable\<close> are the values made of integers below \<open>2^63\<close> of all four types, plain strings, arrays and maps.
\<close>

definition parsed_int :: "int \<Rightarrow> val" where
  "parsed_int i = (if - (2 ^ 31) \<le> i \<and> i \<le> 2 ^ 31 - 1 then V_INT32 (word_of_int i) else V_INT64 (word_of_int i))"

fun json_value :: "val \<Rightarrow> val" where
  "json_value (V_INT64 i) = parsed_int (sint i)"
| "json_value (V_UINT32 i) = parsed_int (uint i)"
| "json_value (V_UINT64 i) = parsed_int (uint i)"
| "json_value (V_ARRAY xs) = V_ARRAY (map json_value xs)"
| "json_value (V_MAP m) = V_MAP (map (\<lambda>kx. (fst kx, json_value (snd kx))) m)"
| "json_value v = v"

fun printable :: "val \<Rightarrow> bool" where
  "printable (V_INT32 i) = True"
| "printable (V_UINT32 i) = True"
| "printable (V_INT64 i) = (sint i \<noteq> - (2 ^ 63))"
| "printable (V_UINT64 i) = (uint i < 2 ^ 63)"
| "printable (V_STRING s) = plain_text s"
| "printable (V_ARRAY xs) = (\<forall>x\<in>set xs. printable x)"
| "printable (V_MAP m) = (vmap_ok m \<and> (\<forall>kx\<in>set m. plain_text (fst kx) \<and> fst kx \<noteq> [] \<and> printable (snd kx)))"
| "printable _ = False"

lemma parsed_int_ok:
  assumes "- (2 ^ 63) < i" and "i < 2 ^ 63"
  shows "jsonable (parsed_int i) \<and> json_text (parsed_int i) = signed_decimal i"
proof (cases "- (2 ^ 31) \<le> i \<and> i \<le> 2 ^ 31 - 1")
  case True
  then have "sint (word_of_int i :: u32) = i" by (simp add: signed_of_int signed_take_bit_int_eq_self)
  with True show ?thesis by (simp add: parsed_int_def)
next
  case False
  have "sint (word_of_int i :: u64) = i" using assms by (simp add: signed_of_int signed_take_bit_int_eq_self)
  with False assms show ?thesis by (auto simp: parsed_int_def)
qed

lemma signed_decimal_uint: "signed_decimal (uint w) = decimal (unat w)"
  by (simp add: signed_decimal_def)

lemma json_value_ok: "printable v \<Longrightarrow> jsonable (json_value v) \<and> toJson T v = Some (json_text (json_value v))"
proof (induction v)
  case (V_INT64 i)
  then have "- (2 ^ 63) < sint i" "sint i < 2 ^ 63" using sint_ge [of i] sint_lt [of i] by simp_all
  then show ?case using parsed_int_ok by simp
next
  case (V_UINT32 i)
  have "uint i < 2 ^ 32" using uint_lt2p [of i] by simp
  also have "\<dots> \<le> 2 ^ 63" by simp
  finally have "uint i < 2 ^ 63" .
  moreover have "- (2 ^ 63) < uint i" by (rule less_le_trans [OF _ uint_ge_0]) simp
  ultimately show ?case using parsed_int_ok by (simp add: signed_decimal_uint)
next
  case (V_UINT64 i)
  have "- (2 ^ 63) < uint i" by (rule less_le_trans [OF _ uint_ge_0]) simp
  then show ?case using parsed_int_ok V_UINT64 by (simp add: signed_decimal_uint)
next
  case (V_ARRAY xs)
  then show ?case by (cases xs) (simp_all add: elems_toJson_join string_join_Cons string_join_simps(1) comp_def)
next
  case (V_MAP m)
  then have IH: "jsonable (json_value (snd kx)) \<and> toJson T (snd kx) = Some (json_text (json_value (snd kx)))" if "kx \<in> set m" for kx
    using that by (cases kx) force
  have "jsonable (json_value (V_MAP m))" using IH V_MAP.prems by (simp add: vmap_ok_def comp_def)
  moreover have "toJson T (V_MAP m) = Some (json_text (json_value (V_MAP m)))"
  proof (cases m)
    case (Cons kx m')
    obtain k x where kx: "kx = (k, x)" by (cases kx)
    have "toJson T x = Some (json_text (json_value x))" using IH [of kx] Cons kx by simp
    then show ?thesis using IH Cons kx by (simp add: fields_toJson_join [of _ _ "\<lambda>x. json_text (json_value x)"] string_join_Cons comp_def)
  qed (simp add: string_join_simps(1))
  ultimately show ?case ..
qed simp_all

lemma map_same: "map f xs = xs \<longleftrightarrow> (\<forall>x\<in>set xs. f x = x)"
  using map_eq_conv [of f xs "\<lambda>x. x"] by simp

lemma json_value_same: "printable v \<Longrightarrow> json_value v = v \<longleftrightarrow> jsonable v"
proof (induction v)
  case (V_INT64 i)
  then show ?case by (auto simp: parsed_int_def)
next
  case (V_ARRAY xs)
  then show ?case by (simp add: map_same)
next
  case (V_MAP m)
  then have "json_value (snd kx) = snd kx \<longleftrightarrow> jsonable (snd kx)" if "kx \<in> set m" for kx using that by (cases kx) force
  then show ?case using V_MAP.prems by (auto simp: map_same prod_eq_iff)
qed (simp_all add: parsed_int_def)


definition no_fpu :: fpu where
  "no_fpu = \<lparr>fp_int = (\<lambda>_. 1), fp_uint = (\<lambda>_. 1), fp_add = (\<lambda>_ _. 0), fp_mul = (\<lambda>_ _. 0), fp_div = (\<lambda>_ _. 0), fp_neg = (\<lambda>_. 0),
     fp_less = (\<lambda>_ _. False), fp_zero = (\<lambda>x. x = 0), fp_single = (\<lambda>_. 0), fps_int = (\<lambda>_. 0), fps_mul_uint = (\<lambda>_ _. 0)\<rparr>"


subsection \<open>Parsing that does not end\<close>

text \<open>
  Without \<^verbatim>\<open>PARSEFLAG_JSON\<close> a colon where an implicit array may go on is an empty element and is not passed over: every round of the loop
  leaves the position and appends one more empty string, so \<^verbatim>\<open>parse\<close> does not return on a text that begins with a colon.
\<close>

lemma parse_scalar_colon:
  assumes "length pre < cb"
  shows "parse_scalar F (pre @ 0x3a # post) cb 0x3a (length pre) = Some (V_STRING [], length pre)"
  using assms peek_ascii [of "0x3a" pre post] by (simp add: parse_scalar_def is_number_char_def parse_word_def parseString_def)

lemma colon_element:
  assumes "length pre < cb" and "0 < n"
  shows "val_parse n F (pre @ 0x3a # post) cb 2 (length pre) = Some (V_STRING [], length pre)"
  using assms skip_blank_stop [of "0x3a" pre post cb] peek_ascii [of "0x3a" pre post] parse_scalar_colon [OF assms(1), of F post]
  by (cases n) (simp_all add: val_parse.simps)

lemma colon_round:
  assumes "length pre < cb" and "0 < k"
  shows "parse_implicit (Suc n) (val_parse k F (pre @ 0x3a # post) cb 2) (pre @ 0x3a # post) cb v (length pre) =
    parse_implicit n (val_parse k F (pre @ 0x3a # post) cb 2) (pre @ 0x3a # post) cb (V_ARRAY (as_elements v @ [V_STRING []])) (length pre)"
  using assms(1) peek_ascii [of "0x3a" pre post] colon_element [OF assms, of F post]
  by (simp add: parse_implicit.simps(2) val_skipSpacesAndTabs_def)

lemma colon_diverges:
  "length pre < cb \<Longrightarrow> 0 < k \<Longrightarrow> parse_implicit n (val_parse k F (pre @ 0x3a # post) cb 2) (pre @ 0x3a # post) cb v (length pre) = None"
  by (induction n arbitrary: v) (simp_all add: parse_implicit.simps(1) colon_round)

lemma parse_colon_diverges: "0 < cb \<Longrightarrow> val_parse n F (0x3a # post) cb 0 0 = None"
proof (cases n)
  case (Suc k)
  assume cb: "0 < cb"
  have "parse_implicit k (val_parse k F (0x3a # post) cb 2) (0x3a # post) cb (V_STRING []) 0 = None"
    using colon_diverges [of "[]" cb k k F post] cb by (cases "k = 0") (simp_all add: parse_implicit.simps(1))
  then show ?thesis using Suc cb skip_blank_stop [of "0x3a" "[]" post cb] peek_ascii [of "0x3a" "[]" post] parse_scalar_colon [of "[]" cb F post]
    by (simp add: val_parse.simps(2))
qed (simp add: val_parse.simps)

text \<open>
  A number in a substring that a digit follows in the buffer: \<^verbatim>\<open>peekChar\<close> sees the digit, \<^verbatim>\<open>readChar\<close> does not pass over it, and
  \<^verbatim>\<open>parseNumber\<close> does not return.
\<close>

lemma digit_loop_behind_end:
  assumes "0x30 \<le> d" and "d \<le> 0x39" and "length pre = cb"
  shows "digit_loop n F (pre @ d # post) cb 10 isFloat fraction u (length pre) = None"
proof (induction n arbitrary: fraction u)
  case (Suc n)
  note dg = digit_of_decimal [OF assms(1,2)]
  show ?case using Suc assms(3) peek_ascii [OF dg(2), of pre post] dg(1) by (auto simp: string_readChar_def Let_def split: option.splits)
qed simp

end
