(* ===== verification/Spec2Isabelle.thy ===== *)
theory Spec2Isabelle
  imports CUtils Utf8 DynBuf RQSort_Sorted CharRange CaseConv UniLookup UniSets Normalize RegexpNames RegexpForward LimbDiv JsString Sha1 CityHash ValJson
begin

text \<open>
  \<^bold>\<open>A verification library for libacorn.\<close>

  libacorn is an application framework in C++ that ships the QuickJS engine in C. This library models the parts of it that are
  algorithms on memory: below the engine, the utilities, the Unicode library, the regular expression compiler and virtual
  machine and the arithmetic of big numbers of \<^verbatim>\<open>src/js\<close>; of the framework, the byte arrays, strings, hashes, variant values and byte streams of \<^verbatim>\<open>src/base\<close>.

  \<^bold>\<open>Parts and their interaction.\<close>
  The two halves share \<^theory_text>\<open>Prelude\<close> (machine words, little-endian bytes, checked reads and writes of a block, sequences of
  operations), \<^theory_text>\<open>CUtils\<close> and \<^theory_text>\<open>Utf8\<close>, which serves as the specification of the characters of a string object.

  \<^item> \<^verbatim>\<open>js/cutils.c\<close>, \<^verbatim>\<open>js/cutils.h\<close>: \<^theory_text>\<open>CUtils\<close> (bounded string copies, prefix and suffix tests, unaligned loads and
    stores), \<^theory_text>\<open>Utf8\<close> (\<^verbatim>\<open>unicode_to_utf8\<close>, \<^verbatim>\<open>unicode_from_utf8\<close>, surrogates), \<^theory_text>\<open>DynBuf\<close> (the growing
    buffer with its error flag), \<^theory_text>\<open>RQSort\<close>, \<^theory_text>\<open>RQSort_Safe\<close>, \<^theory_text>\<open>RQSort_Sorted\<close> (\<^verbatim>\<open>rqsort\<close>, an introsort on a block
    of elements, which are exchanged as a whole).
  \<^item> \<^verbatim>\<open>js/libunicode.c\<close>: \<^theory_text>\<open>CharRange\<close> (sorted interval lists and their set operations), \<^theory_text>\<open>UniTables\<close> and
    \<^theory_text>\<open>CaseConv\<close> (the case tables and \<^verbatim>\<open>lre_case_conv\<close>), \<^theory_text>\<open>UniLookup\<close> and \<^theory_text>\<open>UniProps\<close> (compressed property
    tables: membership by index and by walk), \<^theory_text>\<open>UniSets\<close> (general categories, scripts, properties and the
    canonicalization of ranges), \<^theory_text>\<open>Normalize\<close> (decomposition, canonical order, composition). They use \<^verbatim>\<open>DynBuf\<close> and
    \<^verbatim>\<open>rqsort\<close>.
  \<^item> \<^verbatim>\<open>js/libregexp.c\<close>: \<^theory_text>\<open>RegexpParse\<close> and \<^theory_text>\<open>RegexpNames\<close> (escapes, classes, group names), \<^theory_text>\<open>RegexpEmit\<close>,
    \<^theory_text>\<open>RegexpRange\<close> and \<^theory_text>\<open>RegexpCompile\<close> (the recursive descent that writes byte code into a \<^verbatim>\<open>DynBuf\<close>),
    \<^theory_text>\<open>RegexpExec\<close> (the backtracking interpreter \<^verbatim>\<open>lre_exec_backtrack\<close> with its state stack), \<^theory_text>\<open>RegexpProgram\<close>,
    \<^theory_text>\<open>RegexpSafe\<close>, \<^theory_text>\<open>RegexpForward\<close>, \<^theory_text>\<open>RegexpLazy\<close> and \<^theory_text>\<open>RegexpLiteral\<close> (what programs do when they run).
  \<^item> \<^verbatim>\<open>js/libbf.c\<close>: \<^theory_text>\<open>Limbs\<close> (the \<^verbatim>\<open>mp_\<close> functions on arrays of 64-bit limbs up to schoolbook multiplication) and
    \<^theory_text>\<open>LimbDiv\<close> (division by one limb with a precomputed inverse, and schoolbook division \<^verbatim>\<open>mp_divnorm\<close>).
  \<^item> \<^verbatim>\<open>js/quickjs.c\<close>: \<^theory_text>\<open>JsLineTable\<close> (the table of line numbers of a compiled function, written to a \<^verbatim>\<open>DynBuf\<close> in LEB128) and
    \<^theory_text>\<open>JsString\<close> (strings of 8-bit or 16-bit characters and the \<^verbatim>\<open>StringBuffer\<close> that builds them, widening its block in place).
  \<^item> \<^verbatim>\<open>base/hash.cpp\<close>: \<^theory_text>\<open>Sha1\<close> and \<^theory_text>\<open>CityHash\<close>.
  \<^item> \<^verbatim>\<open>base/bytearray.cpp\<close>: \<^theory_text>\<open>AcornMem\<close> (the heap as a parameter) and \<^theory_text>\<open>ByteArray\<close>.
  \<^item> \<^verbatim>\<open>base/string.cpp\<close>, \<^verbatim>\<open>base/string_.h\<close>: \<^theory_text>\<open>StrBuf\<close> (reference-counted buffers and the string object),
    \<^theory_text>\<open>StrStore\<close> (many string variables over one heap), \<^theory_text>\<open>StrText\<close> (characters), \<^theory_text>\<open>StrSearch\<close> (search, tokens,
    trim, split, join, replace), \<^theory_text>\<open>StrCodec\<close> (hexadecimal and URL encoding).
  \<^item> \<^verbatim>\<open>base/val.h\<close>, \<^verbatim>\<open>base/val.cpp\<close>: \<^theory_text>\<open>Val\<close>; \<^verbatim>\<open>base/bytestream.cpp\<close>: \<^theory_text>\<open>ByteStream\<close>, which writes values to a byte
    array and reads them back; \<^theory_text>\<open>ValJson\<close> (\<^verbatim>\<open>toJson\<close>, \<^verbatim>\<open>parse\<close> and \<^verbatim>\<open>parseNumber\<close>), which prints values and parses them.

  \<^bold>\<open>How state and operations correspond.\<close>
  A C structure is a record with the fields of the source; a pointer into a block is the block with an index, and every
  access is checked, so that an access outside a block, a failed assertion or an undefined conversion is \<open>None\<close>. Memory
  that an operation obtains comes from a parameter (\<open>c_heap\<close>, the reallocation function of a \<open>DynBuf\<close>, the opaque allocator of a
  \<open>CharRange\<close>) that may refuse and whose new bytes are not specified. Error returns of the source are values of the result. Machine
  integers have the width of the source: words, or naturals with the reduction written out. The C library is modelled where
  the code uses it (\<^verbatim>\<open>memcpy\<close>, \<^verbatim>\<open>memcmp\<close>, \<^verbatim>\<open>strchr\<close> and the like). The data tables of
  \<^verbatim>\<open>libunicode-table.h\<close> are generated: the case tables are written out because theorems about all code points depend on
  them, the others are arguments of the definitions that read them.

  \<^bold>\<open>What the lemmas show.\<close>
  \<^item> Regular expressions: code that the static check of the model accepts runs without undefined behaviour for any number of
    instructions and its captures stay inside the subject, by an invariant of all reachable states; such code without backward jumps and
    quantifiers returns within \<open>3 ^ (l - 7)\<close> instructions; a pattern of ordinary characters compiles, and its code finds the leftmost
    occurrence or reports that there is none; the code of a character class matches the members of the class; a lazy quantifier over
    an atom that matches the empty string runs for ever; a forward reference to a group that opens behind another name is rejected.
  \<^item> Containers: a sequence of \<^verbatim>\<open>dbuf\<close> operations refines operations on a list with a sticky error, as long as a failing \<^verbatim>\<open>vsnprintf\<close> does not take more bytes than there are; the same for byte arrays and,
    over shared reference-counted buffers, for string variables, each of which keeps a value of its own; \<^verbatim>\<open>rqsort\<close> sorts with a
    consistent comparison, and permutes and stays inside the block with any.
  \<^item> Unicode: operations on ranges are the operations on the sets they denote and keep the lists sorted; both ways of
    reading a property table agree; the binary search of the case table finds the run that covers a code point, and case conversion is total;
    canonical ordering sorts each run of combining characters stably; UTF-8, surrogate pairs and Hangul syllables round-trip.
  \<^item> Big numbers: each function on limbs computes the number its comment states, with the carry, borrow or remainder as the limb that is left
    over; schoolbook multiplication and division stay inside their arrays, and give the product and the quotient with its remainder.
  \<^item> Engine: a sequence of string buffer operations refines appending to a list of characters with a sticky error; LEB128 numbers round-trip, and looking up a position in the packed table gives the line recorded last at or before it.
  \<^item> Framework: SHA-1 computes the digest of the standard; both CityHash functions read only their input; slices and indices by characters on
    UTF-8 text; first occurrences, splitting and joining as long as the search does not overrun; hexadecimal digits round-trip; variant values survive serialization, except
    for the types that the reader treats as pointers, and printing and parsing as JSON, where integers change their type with their size; parsing a text that begins with a colon without the JSON
    flag does not return.

  A theorem of kind error states exactly what the code does where this is not what it means to do.

  The contracts between parts are locales, each interpreted on the model's own definitions in the theory that provides them:
  \<open>value_store\<close> (a state whose operations refine operations on values) for byte arrays and string stores, \<open>sticky_sink\<close> (the same with an error
  flag that stays) for dynamic buffers and string buffers, \<open>comparator\<close> (what \<^verbatim>\<open>rqsort\<close> needs of a comparison) for the points of intervals,
  \<open>run_table\<close> (a table of consecutive runs) for the case conversion table, and \<open>field_store\<close> (lookup after assignment) for ordered
  maps and for variant values.

  \<^bold>\<open>Bounds and fuel.\<close>
  Loops that end are structural recursions or functions with a measure. The others count: \<open>lre_exec_backtrack\<close> takes the number of steps, and the theorems say
  which number is enough or that none is; loops over the characters of a pattern take its length plus one, since each round reads at least one character; \<open>re_parse_disjunction\<close> takes
  the depth of calls, which the source limits by \<open>lre_check_stack_overflow\<close>; adding back in \<open>mp_divnorm\<close> takes one round more than the estimated
  quotient limb, and the lemma \<open>add_back_val\<close> shows that this is enough; the padding loop of SHA-1 takes 65 rounds, as a block has 64 bytes;
  loops over a string's characters take its length plus one, which is enough unless a zero character stops the offset, and then the
  loop of the source does not end; \<open>val_read\<close> takes the nesting depth of the value, and \<open>val_parse\<close> a number for which one more than the length of a printed text is enough.

  \<^bold>\<open>Not modelled.\<close>
  The JavaScript engine \<^verbatim>\<open>quickjs.c\<close> apart from its string buffers and its line table (an interpreter with a garbage-collected heap, whose parts are not separable in this size), the
  multiple-precision floating point of \<^verbatim>\<open>libbf.c\<close> above the limbs (rounding, the number theoretic transform, decimal numbers; \<^verbatim>\<open>mp_divnorm_large\<close> is a
  parameter), and the host programs \<^verbatim>\<open>qjs.c\<close>, \<^verbatim>\<open>qjsc.c\<close>, \<^verbatim>\<open>quickjs-libc.c\<close> (operating system
  calls) are vendored. The generated tables other than the case tables are parameters. Of the framework, objects, dispatch queues, logging, files,
  style sheets, colors, layout and the renderer rest on the platform; of strings, \<^verbatim>\<open>format\<close>, \<^verbatim>\<open>asInt\<close>, \<^verbatim>\<open>asFloat\<close> and \<^verbatim>\<open>uuid\<close> pass
  on to the C library; of variant values, the conversions to other types and the ordering; floating point arithmetic and its printing are parameters. Concurrency does not occur in the modelled parts.
\<close>

end
